(* ===== verification/Zeke_Prelude.thy ===== *)
theory Zeke_Prelude
  imports Main "HOL-Library.Word" "HOL-Library.Monad_Syntax"
begin

text \<open>
  The shared vocabulary of the development.

  \<^item> Machine types. Zeke is built for 32-bit ARM (\<^verbatim>\<open>arm-none-eabi\<close>): \<open>size_t\<close>, \<open>int\<close>,
    \<open>unsigned\<close>, \<open>long\<close> and pointers are 32 bits wide. Bit patterns are words; indices, lengths and
    counters that the code keeps far below the width are \<open>nat\<close>, and \<open>szt\<close> writes out the
    wrap-around of a \<open>size_t\<close> expression wherever a comparison of the code depends on it.
  \<^item> Errors. A function that returns an \<open>int\<close> status returns an \<open>int\<close> here: 0 or a negated value of
    \<^verbatim>\<open>include/errno.h\<close>.
  \<^item> Undefined behaviour. A model that can index a C array out of its bounds, fail a
    \<open>KASSERT\<close> or reach \<open>panic\<close> returns an \<open>option\<close>; \<open>None\<close> is that outcome, so a theorem that
    the result is \<open>Some\<close> is a memory-safety and no-panic statement.
\<close>

unbundle bit_operations_syntax

type_synonym u8 = "8 word"
type_synonym u32 = "32 word"
type_synonym u64 = "64 word"

section \<open>Proof automation of the library\<close>

named_theorems kern_defs \<open>definitions of small code helpers, unfolded in component proofs\<close>
named_theorems kern_inv \<open>preservation of the components' invariants\<close>
named_theorems kern_bits \<open>bitwise facts used by the bit map, signal set and flag proofs\<close>

section \<open>Error numbers (\<^verbatim>\<open>include/errno.h\<close>)\<close>

abbreviation (input) E2BIG :: int where "E2BIG \<equiv> 1"
abbreviation (input) EACCES :: int where "EACCES \<equiv> 2"
abbreviation (input) EAGAIN :: int where "EAGAIN \<equiv> 6"
abbreviation (input) EBADF :: int where "EBADF \<equiv> 8"
abbreviation (input) EEXIST :: int where "EEXIST \<equiv> 20"
abbreviation (input) EFAULT :: int where "EFAULT \<equiv> 21"
abbreviation (input) EIDRM :: int where "EIDRM \<equiv> 24"
abbreviation (input) EINVAL :: int where "EINVAL \<equiv> 28"
abbreviation (input) EIO :: int where "EIO \<equiv> 29"
abbreviation (input) ENAMETOOLONG :: int where "ENAMETOOLONG \<equiv> 37"
abbreviation (input) ENODEV :: int where "ENODEV \<equiv> 44"
abbreviation (input) ENOENT :: int where "ENOENT \<equiv> 45"
abbreviation (input) ENOMEM :: int where "ENOMEM \<equiv> 49"
abbreviation (input) ENOTRECOVERABLE :: int where "ENOTRECOVERABLE \<equiv> 59"
abbreviation (input) ENOTSUP :: int where "ENOTSUP \<equiv> 61"
abbreviation (input) EPERM :: int where "EPERM \<equiv> 67"
abbreviation (input) EPIPE :: int where "EPIPE \<equiv> 68"
abbreviation (input) ESRCH :: int where "ESRCH \<equiv> 75"

section \<open>\<open>size_t\<close> arithmetic\<close>

definition szt :: "nat \<Rightarrow> nat" where
  "szt n = n mod 2 ^ 32"

lemma szt_id [simp]: "n < 2 ^ 32 \<Longrightarrow> szt n = n"
  by (simp add: szt_def)

lemma szt_less [simp]: "szt n < 2 ^ 32"
  by (simp add: szt_def)

lemma szt_le: "szt n \<le> n"
  by (simp add: szt_def)

text \<open>The value of a signed 32-bit computation, two's complement.\<close>

definition s32 :: "int \<Rightarrow> int" where
  "s32 x = (x + 2 ^ 31) mod 2 ^ 32 - 2 ^ 31"

lemma s32_id [simp]: "- (2 ^ 31) \<le> x \<Longrightarrow> x < 2 ^ 31 \<Longrightarrow> s32 x = x"
  by (simp add: s32_def)

lemma s32_range: "- (2 ^ 31) \<le> s32 x \<and> s32 x < 2 ^ 31"
proof -
  have "0 \<le> (x + 2 ^ 31) mod 2 ^ 32 \<and> (x + 2 ^ 31) mod 2 ^ 32 < 2 ^ 32" by simp
  then show ?thesis by (simp add: s32_def)
qed

section \<open>Checked array access\<close>

definition rd :: "'a list \<Rightarrow> nat \<Rightarrow> 'a option" where
  "rd xs i = (if i < length xs then Some (xs ! i) else None)"

definition wr :: "'a list \<Rightarrow> nat \<Rightarrow> 'a \<Rightarrow> 'a list option" where
  "wr xs i v = (if i < length xs then Some (xs[i := v]) else None)"

lemma rd_Some [simp]: "i < length xs \<Longrightarrow> rd xs i = Some (xs ! i)"
  by (simp add: rd_def)

lemma rd_None [simp]: "length xs \<le> i \<Longrightarrow> rd xs i = None"
  by (simp add: rd_def)

lemma wr_Some [simp]: "i < length xs \<Longrightarrow> wr xs i v = Some (xs[i := v])"
  by (simp add: wr_def)

lemma wr_None [simp]: "length xs \<le> i \<Longrightarrow> wr xs i v = None"
  by (simp add: wr_def)

lemma rd_eq_Some: "rd xs i = Some v \<longleftrightarrow> i < length xs \<and> v = xs ! i"
  by (auto simp: rd_def)

lemma wr_eq_Some: "wr xs i v = Some ys \<longleftrightarrow> i < length xs \<and> ys = xs[i := v]"
  by (auto simp: wr_def)

section \<open>Memory blocks\<close>

text \<open>
  \<open>memcpy\<close> and \<open>memmove\<close> between two arrays: \<open>n\<close> elements of \<open>src\<close> from \<open>soff\<close> replace those
  of \<open>dst\<close> from \<open>off\<close>; \<open>None\<close> when either range leaves its array.
\<close>

definition mem_copy :: "'a list \<Rightarrow> nat \<Rightarrow> 'a list \<Rightarrow> nat \<Rightarrow> nat \<Rightarrow> 'a list option" where
  "mem_copy dst off src soff n =
     (if off + n \<le> length dst \<and> soff + n \<le> length src
      then Some (take off dst @ take n (drop soff src) @ drop (off + n) dst) else None)"

definition block :: "'a list \<Rightarrow> nat \<Rightarrow> nat \<Rightarrow> 'a list" where
  "block d b i = take b (drop (i * b) d)"

lemma mem_copy_Some [simp]:
  "off + n \<le> length dst \<Longrightarrow> soff + n \<le> length src \<Longrightarrow>
   mem_copy dst off src soff n = Some (take off dst @ take n (drop soff src) @ drop (off + n) dst)"
  by (simp add: mem_copy_def)

lemma mem_copy_eq_Some: "mem_copy dst off src soff n = Some d \<longleftrightarrow>
   off + n \<le> length dst \<and> soff + n \<le> length src \<and>
   d = take off dst @ take n (drop soff src) @ drop (off + n) dst"
  by (auto simp: mem_copy_def)

lemma mem_copy_length: "mem_copy dst off src soff n = Some d \<Longrightarrow> length d = length dst"
  by (auto simp: mem_copy_def split: if_splits)

lemma length_block [simp]: "i * b + b \<le> length d \<Longrightarrow> length (block d b i) = b"
  by (simp add: block_def)

lemma index_le_blocks: "i < n \<Longrightarrow> n * b \<le> m \<Longrightarrow> i * b + b \<le> (m :: nat)"
proof -
  assume "i < n" and m: "n * b \<le> m"
  then have "Suc i * b \<le> n * b" by (intro mult_le_mono1) simp
  with m show ?thesis by simp
qed

lemma block_splice:
  assumes "w * b + b \<le> length d" and "length x = b"
  shows "block (take (w * b) d @ x @ drop (w * b + b) d) b i = (if i = w then x else block d b i)"
proof (cases i w rule: linorder_cases)
  case less
  then have le: "i * b + b \<le> w * b" by (rule index_le_blocks [OF _ order_refl])
  with assms(1) have "take b (drop (i * b) (take (w * b) d @ y)) = take b (drop (i * b) d)" for y
    by (simp add: drop_take)
  moreover have "(i = w) = False" using less by simp
  ultimately show ?thesis by (simp only: block_def if_False)
next
  case equal
  then show ?thesis using assms by (simp add: block_def)
next
  case greater
  then have "w * b + b \<le> i * b" by (rule index_le_blocks [OF _ order_refl])
  then obtain k where "i * b = w * b + b + k" using le_Suc_ex by blast
  then show ?thesis using greater assms by (simp add: block_def add.commute)
qed

text \<open>Ring indices.\<close>

lemma mod_add_ring: "a < n \<Longrightarrow> b < n \<Longrightarrow> (a + b) mod n = (if a + b < n then a + b else a + b - n :: nat)"
  by (auto simp: mod_if)

lemma mod_suc_ring: "a < n \<Longrightarrow> Suc a mod n = (if Suc a = n then 0 else Suc a)"
  by auto

section \<open>Bits of words\<close>

lemma and_bit_eq_0 [kern_bits]: "(w AND push_bit j 1 = 0) \<longleftrightarrow> \<not> bit (w :: 'a::len word) j"
  by (simp add: bit_iff_and_push_bit_not_eq_0)

lemma and_pow_eq_0 [kern_bits]: "(w AND 2 ^ j = 0) \<longleftrightarrow> \<not> bit (w :: 'a::len word) j"
  by (simp add: and_exp_eq_0_iff_not_bit)

lemma unat_of_nat_small: "n < 2 ^ LENGTH('a) \<Longrightarrow> unat (of_nat n :: 'a::len word) = n"
  by (simp add: unat_of_nat take_bit_nat_eq_self)

lemma unat_inj: "unat v = unat w \<Longrightarrow> v = (w :: 'a::len word)"
  by (rule unsigned_word_eqI)

lemma div_mod_32: "i * 32 + j = p \<Longrightarrow> j < 32 \<Longrightarrow> p div 32 = i \<and> p mod 32 = (j::nat)"
  by auto

lemma upd_bit_pos:
  assumes "j < (32::nat)"
  shows "i = p div 32 \<and> j = p mod 32 \<longleftrightarrow> p = i * 32 + j"
  using assms by auto

section \<open>Lists\<close>

lemma find_SomeD: "find P xs = Some x \<Longrightarrow> P x \<and> x \<in> set xs"
  by (induction xs) (auto split: if_splits)

lemma distinct_remove1_set: "distinct xs \<Longrightarrow> set (remove1 x xs) = set xs - {x}"
  by (rule set_remove1_eq)

lemma length_remove1_in: "x \<in> set xs \<Longrightarrow> length (remove1 x xs) = length xs - 1"
  by (simp add: length_remove1)

lemma rotate_take_drop_mod:
  assumes "n < length xs" and "k < length xs"
  shows "rotate n xs ! k = xs ! ((n + k) mod length xs)"
  using assms by (simp add: nth_rotate add.commute)

section \<open>The contract of reference counting\<close>

text \<open>
  What the users of counted objects rely on: \<open>st p n\<close> says \<open>p\<close> is held by \<open>n\<close> references,
  \<open>gone p\<close> that it was released; \<open>get\<close> and \<open>put\<close> take and drop one.
\<close>

locale refcounted =
  fixes st :: "'o \<Rightarrow> nat \<Rightarrow> bool" and gone :: "'o \<Rightarrow> bool" and limit :: nat
    and get :: "'o \<Rightarrow> (int \<times> 'o) option" and put :: "'o \<Rightarrow> (bool \<times> 'o) option"
  assumes get_st: "st p n \<Longrightarrow> Suc n < limit \<Longrightarrow>
      \<exists>r q. get p = Some (r, q) \<and> (if r = 0 then st q (Suc n) else st q n)"
    and get_gone: "gone p \<Longrightarrow> \<exists>r. get p = Some (r, p) \<and> r \<noteq> 0"
    and put_st: "st p n \<Longrightarrow> 1 < n \<Longrightarrow> \<exists>q. put p = Some (False, q) \<and> st q (n - 1)"
    and put_last: "st p 1 \<Longrightarrow> \<exists>q. put p = Some (True, q) \<and> gone q"
    and put_gone: "gone p \<Longrightarrow> put p = Some (False, p)"
    and st_pos: "st p n \<Longrightarrow> 0 < n"
begin

text \<open>A reference that was granted and is dropped again leaves the count as it was.\<close>

lemma get_put: "st p n \<Longrightarrow> Suc n < limit \<Longrightarrow> get p = Some (0, q) \<Longrightarrow>
   \<exists>q'. put q = Some (False, q') \<and> st q' n"
  using get_st [of p n] put_st [of q "Suc n"] st_pos [of p n] by fastforce

lemma put_cases: "st p n \<Longrightarrow> \<exists>b q. put p = Some (b, q) \<and> (if b then n = 1 \<and> gone q else st q (n - 1))"
  using put_st [of p n] put_last [of p] st_pos [of p n] by (cases "n = 1") force+

text \<open>
  A history of calls, \<open>True\<close> for \<open>get\<close> and \<open>False\<close> for \<open>put\<close>: the references it granted, how
  often a \<open>put\<close> released the object, and the object.
\<close>

fun run :: "bool list \<Rightarrow> 'o \<Rightarrow> (nat \<times> nat \<times> 'o) option" where
  "run [] p = Some (0, 0, p)"
| "run (True # xs) p = do {
     (r, p) \<leftarrow> get p; (g, k, p) \<leftarrow> run xs p; Some (if r = 0 then Suc g else g, k, p) }"
| "run (False # xs) p = do {
     (b, p) \<leftarrow> put p; (g, k, p) \<leftarrow> run xs p; Some (g, if b then Suc k else k, p) }"

lemma run_gone: "gone p \<Longrightarrow> run xs p = Some (0, 0, p)"
proof (induction xs)
  case (Cons x xs)
  obtain r where "get p = Some (r, p)" "r \<noteq> 0" using get_gone [OF Cons.prems] by blast
  with Cons show ?case by (cases x) (simp_all add: put_gone)
qed simp

text \<open>The object goes exactly with the \<open>put\<close> that drops the last reference, and only once.\<close>

lemma run_counts:
  "st p n \<Longrightarrow> n + length xs < limit \<Longrightarrow>
   \<exists>g k q. run xs p = Some (g, k, q) \<and>
     (k = 0 \<and> count_list xs False < n + g \<and> st q (n + g - count_list xs False)
      \<or> k = 1 \<and> n + g \<le> count_list xs False \<and> gone q)"
proof (induction xs arbitrary: p n)
  case Nil
  then show ?case using st_pos [of p n] by auto
next
  case (Cons x xs)
  show ?case
  proof (cases x)
    case True
    obtain r q where rq: "get p = Some (r, q)" "if r = 0 then st q (Suc n) else st q n"
      using get_st [of p n] Cons.prems by auto
    then show ?thesis using Cons.IH [of q "Suc n"] Cons.IH [of q n] Cons.prems True
      by (cases "r = 0") (auto; fastforce)+
  next
    case False
    obtain b q where bq: "put p = Some (b, q)" "if b then n = 1 \<and> gone q else st q (n - 1)"
      using put_cases [OF Cons.prems(1)] by blast
    show ?thesis
    proof (cases b)
      case True
      with bq False show ?thesis by (simp add: run_gone)
    next
      case nb: False
      with bq have "st q (n - 1)" by simp
      from Cons.IH [OF this] st_pos [OF this] nb bq(1) False Cons.prems(2) show ?thesis
        by (auto; fastforce)
    qed
  qed
qed

end

end
