(* ===== verification/Bitmap.thy ===== *)
theory Bitmap
  imports Zeke_Prelude
begin

text \<open>
  Bit map allocation (\<^verbatim>\<open>kern/libkern/bitmap.c\<close>). A bit map is an array of 32-bit words; every
  access of the code to \<open>bitmap[i]\<close> is checked (\<open>rd\<close>, \<open>wr\<close>), so \<open>None\<close> is an access
  outside the array. A shift \<open>1 << j\<close> with \<open>j = 32\<close>, which the search loop performs, is
  taken as the target does it: the register shift of ARM yields 0.
\<close>

type_synonym bitmap = "u32 list"

section \<open>The code\<close>

definition BIT2WORDI :: "nat \<Rightarrow> nat" where
  "BIT2WORDI i = (i - i mod 32) div 32"

definition BIT2WBITOFF :: "nat \<Rightarrow> nat" where
  "BIT2WBITOFF i = i mod 32"

text \<open>
  The two nested loops of \<open>bitmap_block_search_s\<close>. \<open>cur\<close> is true while the pointer \<open>cur\<close> of
  the code points to \<open>start\<close>, false while it points to \<open>end\<close>. The result is the status and
  \<open>*retval\<close>, whose old value is \<open>rv\<close>.
\<close>

function search_loop :: "bitmap \<Rightarrow> nat \<Rightarrow> nat \<Rightarrow> nat \<Rightarrow> nat \<Rightarrow> nat \<Rightarrow> nat \<Rightarrow> nat \<Rightarrow> bool
    \<Rightarrow> (int \<times> nat) option" where
  "search_loop bm nw len rv i j start end cur =
     (if i < nw then
        if j \<le> 32 then
          case rd bm i of
            None \<Rightarrow> None
          | Some w \<Rightarrow>
              if w AND push_bit j 1 = 0 then
                let pos = i * 32 + j;
                    start' = (if cur then pos else start);
                    end' = (if cur then end else pos)
                in if end' \<ge> start' \<and> end' - start' \<ge> len then Some (0, start')
                   else search_loop bm nw len rv i (Suc j) start' end' False
              else search_loop bm nw len rv i (Suc j) 0 0 True
        else search_loop bm nw len rv (Suc i) 0 start end cur
      else Some (1, rv))"
  by pat_completeness auto
termination
  by (relation "measures [\<lambda>(bm, nw, len, rv, i, j, s, e, c). nw - i,
                          \<lambda>(bm, nw, len, rv, i, j, s, e, c). 33 - j]") auto

declare search_loop.simps [simp del]

definition bitmap_block_search_s :: "nat \<Rightarrow> nat \<Rightarrow> nat \<Rightarrow> bitmap \<Rightarrow> nat \<Rightarrow> (int \<times> nat) option" where
  "bitmap_block_search_s start rv block_len bm sz =
     search_loop bm (sz div 4) block_len rv (BIT2WORDI start) (BIT2WBITOFF start) start 0 True"

definition bitmap_block_search :: "nat \<Rightarrow> nat \<Rightarrow> bitmap \<Rightarrow> nat \<Rightarrow> (int \<times> nat) option" where
  "bitmap_block_search rv block_len bm sz = bitmap_block_search_s 0 rv block_len bm sz"

definition bitmap_status :: "bitmap \<Rightarrow> nat \<Rightarrow> nat \<Rightarrow> int option" where
  "bitmap_status bm pos sz =
     (let k = BIT2WORDI pos; n = BIT2WBITOFF pos
      in if pos \<ge> szt (sz * 32) then Some (- EINVAL)
         else do { w \<leftarrow> rd bm k; Some (if w AND push_bit n 1 \<noteq> 0 then 1 else 0) })"

definition bitmap_set :: "bitmap \<Rightarrow> nat \<Rightarrow> nat \<Rightarrow> (int \<times> bitmap) option" where
  "bitmap_set bm pos sz =
     (let k = BIT2WORDI pos; n = BIT2WBITOFF pos
      in if pos \<ge> szt (sz * 32) then Some (- EINVAL, bm)
         else do { w \<leftarrow> rd bm k; bm' \<leftarrow> wr bm k (w OR push_bit n 1); Some (0, bm') })"

definition bitmap_clear :: "bitmap \<Rightarrow> nat \<Rightarrow> nat \<Rightarrow> (int \<times> bitmap) option" where
  "bitmap_clear bm pos sz =
     (let k = BIT2WORDI pos; n = BIT2WBITOFF pos
      in if pos \<ge> szt (sz * 32) then Some (- EINVAL, bm)
         else do { w \<leftarrow> rd bm k; bm' \<leftarrow> wr bm k (w AND NOT (push_bit n 1)); Some (0, bm') })"

text \<open>The three statements that store \<open>mark\<close> in bit \<open>n\<close> of a word.\<close>

definition mark_bit :: "u32 \<Rightarrow> nat \<Rightarrow> nat \<Rightarrow> u32" where
  "mark_bit w n mark = (let tmp = push_bit n (of_nat mark) in (w AND NOT (push_bit n 1)) OR tmp)"

text \<open>
  The loop of \<open>bitmap_block_update\<close>: the inner \<open>while\<close> over the bits of word \<open>i\<close>, then
  \<open>while (i++)\<close>, whose condition is the value of \<open>i\<close> before the increment.
\<close>

function update_loop :: "nat \<Rightarrow> nat \<Rightarrow> bitmap \<Rightarrow> nat \<Rightarrow> nat \<Rightarrow> nat \<Rightarrow> bitmap option" where
  "update_loop mark len bm i n j =
     (if n < 32 then
        case rd bm i of
          None \<Rightarrow> None
        | Some w \<Rightarrow>
            let bm' = bm[i := mark_bit w n mark]
            in if Suc j \<ge> len then Some bm'
               else update_loop mark len bm' i (Suc n) (Suc j)
      else if i \<noteq> 0 then update_loop mark len bm (Suc i) 0 j
      else Some bm)"
  by pat_completeness auto
termination
  by (relation "measures [\<lambda>(mark, len, bm, i, n, j). len - j,
                          \<lambda>(mark, len, bm, i, n, j). (if n < 32 then 0 else 1)]") auto

declare update_loop.simps [simp del]

definition bitmap_block_update :: "bitmap \<Rightarrow> nat \<Rightarrow> nat \<Rightarrow> nat \<Rightarrow> nat \<Rightarrow> (int \<times> bitmap) option" where
  "bitmap_block_update bm mark start len sz =
     (if szt (start + len) > szt (sz * 32) then Some (- EINVAL, bm)
      else do {
        bm' \<leftarrow> update_loop (mark mod 2) len bm (BIT2WORDI start) (BIT2WBITOFF start) 0;
        Some (0, bm') })"

definition bitmap_block_alloc :: "nat \<Rightarrow> nat \<Rightarrow> bitmap \<Rightarrow> nat \<Rightarrow> (int \<times> nat \<times> bitmap) option" where
  "bitmap_block_alloc start len bm sz = do {
     (retval, start') \<leftarrow> bitmap_block_search start len bm sz;
     if retval = 0 then do {
       (_, bm') \<leftarrow> bitmap_block_update bm 1 start' len sz;
       Some (retval, start', bm') }
     else Some (retval, start', bm) }"

section \<open>The abstract bit map\<close>

text \<open>\<open>used bm p\<close> is bit \<open>p\<close> of the map; every statement about the code below is made over it.\<close>

definition used :: "bitmap \<Rightarrow> nat \<Rightarrow> bool" where
  "used bm p \<longleftrightarrow> p < 32 * length bm \<and> bit (bm ! (p div 32)) (p mod 32)"

lemma BIT2WORDI_eq [simp]: "BIT2WORDI i = i div 32"
  by (simp add: BIT2WORDI_def minus_mod_eq_div_mult)

lemma BIT2WBITOFF_eq [simp]: "BIT2WBITOFF i = i mod 32"
  by (simp add: BIT2WBITOFF_def)

lemma used_word [kern_bits]:
  "i < length bm \<Longrightarrow> j < 32 \<Longrightarrow> used bm (i * 32 + j) \<longleftrightarrow> bit (bm ! i) j"
  by (auto simp: used_def)

lemma used_upd_word [kern_bits]:
  assumes "i < length bm"
  shows "used (bm[i := w]) p \<longleftrightarrow> (if p div 32 = i then bit w (p mod 32) else used bm p)"
  using assms by (auto simp: used_def nth_list_update)

section \<open>The search\<close>

lemma search_loop_safe: "nw \<le> length bm \<Longrightarrow> search_loop bm nw len rv i j start end cur \<noteq> None"
proof (induction bm nw len rv i j start "end" cur rule: search_loop.induct)
  case (1 bm nw len rv i j start "end" cur)
  then show ?case
    by (subst search_loop.simps) (auto simp: Let_def)
qed

text \<open>One round of the loop, by what it finds at position \<open>i * 32 + j\<close>.\<close>

lemma search_done: "\<not> i < nw \<Longrightarrow> search_loop bm nw len rv i j start end cur = Some (1, rv)"
  by (subst search_loop.simps) simp

lemma search_word: "i < nw \<Longrightarrow> 32 < j \<Longrightarrow>
    search_loop bm nw len rv i j start end cur = search_loop bm nw len rv (Suc i) 0 start end cur"
  by (subst search_loop.simps) simp

lemma search_used: "i < nw \<Longrightarrow> j \<le> 32 \<Longrightarrow> i < length bm \<Longrightarrow> bit (bm ! i) j \<Longrightarrow>
    search_loop bm nw len rv i j start end cur = search_loop bm nw len rv i (Suc j) 0 0 True"
  by (subst search_loop.simps) (simp add: kern_bits)

lemma search_free: "i < nw \<Longrightarrow> j \<le> 32 \<Longrightarrow> i < length bm \<Longrightarrow> \<not> bit (bm ! i) j \<Longrightarrow>
    search_loop bm nw len rv i j start end cur =
      (if cur then
         if end \<ge> i * 32 + j \<and> end - (i * 32 + j) \<ge> len then Some (0, i * 32 + j)
         else search_loop bm nw len rv i (Suc j) (i * 32 + j) end False
       else
         if i * 32 + j \<ge> start \<and> i * 32 + j - start \<ge> len then Some (0, start)
         else search_loop bm nw len rv i (Suc j) start (i * 32 + j) False)"
  by (subst search_loop.simps) (simp add: kern_bits Let_def)

lemma search_oob: "i < nw \<Longrightarrow> j \<le> 32 \<Longrightarrow> \<not> i < length bm \<Longrightarrow>
    search_loop bm nw len rv i j start end cur = None"
  by (subst search_loop.simps) simp

text \<open>The induction principle of the loop, and its form for a map that holds all its \<open>nw\<close> words.\<close>

lemma search_rounds [case_names End Word Step]:
  fixes nw :: nat
  assumes "\<And>i j s e c. nw \<le> i \<Longrightarrow> P i j s e c"
    and "\<And>i j s e c. i < nw \<Longrightarrow> 32 < j \<Longrightarrow> P (Suc i) 0 s e c \<Longrightarrow> P i j s e c"
    and "\<And>i j s e c. i < nw \<Longrightarrow> j \<le> 32 \<Longrightarrow> (\<And>s' e' c'. P i (Suc j) s' e' c') \<Longrightarrow> P i j s e c"
  shows "P i (j :: nat) s e c"
proof (induction "(nw - i) * 34 + (33 - j)" arbitrary: i j s e c rule: less_induct)
  case less
  consider "nw \<le> i" | "i < nw" "32 < j" | "i < nw" "j \<le> 32" by linarith
  then show ?case
  proof cases
    case 1
    then show ?thesis by (rule assms(1))
  next
    case 2
    then have "(nw - Suc i) * 34 + 33 < (nw - i) * 34 + (33 - j)" by simp
    then have "P (Suc i) 0 s' e' c'" for s' e' c' using less by simp
    with 2 show ?thesis using assms(2) by blast
  next
    case 3
    then have "(nw - i) * 34 + (33 - Suc j) < (nw - i) * 34 + (33 - j)" by simp
    then have "P i (Suc j) s' e' c'" for s' e' c' using less by blast
    with 3 show ?thesis using assms(3) by blast
  qed
qed

lemma search_loop_rounds [consumes 1, case_names End Word Used Free]:
  assumes "nw \<le> length (bm :: bitmap)"
    and "\<And>i j s e c. nw \<le> i \<Longrightarrow> P i j s e c"
    and "\<And>i j s e c. i < nw \<Longrightarrow> 32 < j \<Longrightarrow> P (Suc i) 0 s e c \<Longrightarrow> P i j s e c"
    and "\<And>i j s e c. i < nw \<Longrightarrow> j \<le> 32 \<Longrightarrow> bit (bm ! i) j \<Longrightarrow> P i (Suc j) 0 0 True \<Longrightarrow> P i j s e c"
    and "\<And>i j s e c. i < nw \<Longrightarrow> j \<le> 32 \<Longrightarrow> \<not> bit (bm ! i) j \<Longrightarrow>
      (\<And>s' e'. P i (Suc j) s' e' False) \<Longrightarrow> P i j s e c"
  shows "P i j s e c"
  using assms(2,3)
proof (rule search_rounds)
  show "P i j s e c" if "i < nw" "j \<le> 32" "\<And>s' e' c'. P i (Suc j) s' e' c'" for i j s e c
    using that assms(4,5) by blast
qed

text \<open>The search never returns a position before its start, which makes the next loop end.\<close>

lemma search_loop_ge:
  "search_loop bm nw len rv i j start end cur = Some (0, r) \<Longrightarrow> lb \<le> i * 32 + min j 32 \<Longrightarrow>
   (\<not> cur \<Longrightarrow> lb \<le> start) \<Longrightarrow> lb \<le> r"
proof (induction i j start "end" cur rule: search_rounds [where nw = nw])
  case (Step i j s e c)
  show ?case
  proof (cases "i < length bm")
    case False
    with Step show ?thesis by (simp add: search_oob)
  next
    case True
    have "lb \<le> i * 32 + min (Suc j) 32" using Step.prems(2) by simp
    with Step True show ?thesis
      by (cases "bit (bm ! i) j") (fastforce simp: search_used search_free split: if_splits)+
  qed
qed (simp_all add: search_done search_word)

lemma search_s_ge: "bitmap_block_search_s start rv len bm sz = Some (0, r) \<Longrightarrow> start \<le> r"
  by (auto simp: bitmap_block_search_s_def BIT2WORDI_def BIT2WBITOFF_def minus_mod_eq_div_mult
      less_imp_le dest!: search_loop_ge [where lb = start])

lemma mod_gap: "0 < balign \<Longrightarrow> r < r + (balign - r mod (balign :: nat))"
  using mod_less_divisor [of balign r] by linarith

text \<open>
  The loop of \<open>bitmap_block_align_alloc\<close>: \<open>begin\<close> grows in every round that does not end the
  loop, and \<open>balign\<close> is a divisor in the code, so 0 (a division by zero there) is \<open>None\<close>.
\<close>

function align_loop :: "nat \<Rightarrow> nat \<Rightarrow> bitmap \<Rightarrow> nat \<Rightarrow> nat \<Rightarrow> nat \<Rightarrow> (int \<times> nat) option" where
  "align_loop balign len bm sz start begin =
     (if begin \<ge> sz * 8 then Some (-1, start)
      else case bitmap_block_search_s begin start len bm sz of
             None \<Rightarrow> None
           | Some (retval, start') \<Rightarrow>
               if retval \<noteq> 0 then Some (retval, start')
               else if balign = 0 then None
               else if start' mod balign = 0 then Some (0, start')
               else align_loop balign len bm sz start' (start' + (balign - start' mod balign)))"
  by pat_completeness auto
termination
proof (relation "measure (\<lambda>(balign, len, bm, sz, start, begin). sz * 8 - begin)", goal_cases)
  case (2 balign len bm sz start beg x retval start')
  then have "beg \<le> start'" "0 < balign" by (auto dest: search_s_ge)
  then have "beg < start' + (balign - start' mod balign)"
    using mod_gap [of balign start'] by linarith
  with 2(1) show ?case by (simp add: diff_less_mono2)
qed simp

declare align_loop.simps [simp del]

definition bitmap_block_align_alloc ::
    "nat \<Rightarrow> nat \<Rightarrow> bitmap \<Rightarrow> nat \<Rightarrow> nat \<Rightarrow> (int \<times> nat \<times> bitmap) option" where
  "bitmap_block_align_alloc start len bm sz balign = do {
     (retval, start') \<leftarrow> align_loop balign len bm sz start 0;
     if retval \<noteq> 0 then Some (retval, start', bm)
     else do {
       (_, bm') \<leftarrow> bitmap_block_update bm 1 start' len sz;
       Some (retval, start', bm') } }"

text \<open>What the loop knows: the positions below \<open>i * 32 + min j 32\<close> are behind it.\<close>

definition search_inv :: "bitmap \<Rightarrow> nat \<Rightarrow> nat \<Rightarrow> nat \<Rightarrow> nat \<Rightarrow> bool \<Rightarrow> bool" where
  "search_inv bm i j start end cur \<longleftrightarrow>
     (if cur then end = 0
      else start \<le> i * 32 + min j 32 \<and> (\<forall>p \<in> {start ..< i * 32 + min j 32}. \<not> used bm p))"

lemma search_inv_next_word: "search_inv bm i j start end cur \<Longrightarrow> 32 < j \<Longrightarrow>
    search_inv bm (Suc i) 0 start end cur"
  by (auto simp: search_inv_def split: if_splits)

lemma search_inv_free:
  assumes "search_inv bm i j start end cur" and "i < length bm" and "j \<le> 32"
    and "\<not> bit (bm ! i) j"
  shows "search_inv bm i (Suc j) (if cur then i * 32 + j else start) e False"
proof -
  have "\<not> used bm (i * 32 + j)" if "j < 32"
    using assms(2,4) that by (simp add: used_word)
  with assms show ?thesis
    by (cases "j = 32") (auto simp: search_inv_def less_Suc_eq split: if_splits)
qed

lemma search_loop_sound:
  assumes "nw \<le> length bm"
  shows "search_loop bm nw len rv i j start end cur = Some (0, r) \<Longrightarrow>
   search_inv bm i j start end cur \<Longrightarrow> lb \<le> i * 32 + min j 32 \<Longrightarrow> (\<not> cur \<Longrightarrow> lb \<le> start) \<Longrightarrow>
   lb \<le> r \<and> r + len \<le> 32 * nw \<and> (\<forall>p \<in> {r ..< r + len}. \<not> used bm p)"
  using assms
proof (induction i j start "end" cur rule: search_loop_rounds)
  case (End i j s e c)
  then show ?case by (simp add: search_done)
next
  case (Word i j s e c)
  then show ?case by (simp add: search_word search_inv_next_word)
next
  case (Used i j s e c)
  then show ?case using assms by (simp add: search_used search_inv_def)
next
  case (Free i j s e c)
  have il: "i < length bm" using Free.hyps(1) assms by simp
  have inv: "search_inv bm i (Suc j) (if c then i * 32 + j else s) e' False" for e'
    using Free.prems(2) il Free.hyps(2,3) by (rule search_inv_free)
  have top: "i * 32 + j \<le> 32 * nw" using Free.hyps(1,2) by simp
  show ?case
  proof (cases c)
    case True
    with Free il inv top show ?thesis
      by (auto simp: search_free search_inv_def split: if_splits)
  next
    case False
    with Free il inv top show ?thesis
      by (auto simp: search_free search_inv_def split: if_splits)
  qed
qed

text \<open>
  The loop finds every hole that is one bit longer than the request: a hole \<open>s .. s + len\<close>
  ahead of it (or of the run it is in) makes it succeed, at that hole or before.
\<close>

lemma search_loop_complete:
  assumes "nw \<le> length bm" and "0 < len" and "s0 + len < 32 * nw"
    and hole: "\<forall>p \<in> {s0 .. s0 + len}. \<not> used bm p"
  shows "(if cur then i * 32 + min j 32 \<le> s0
          else start \<le> s0 \<and> i * 32 + min j 32 \<le> start + len) \<Longrightarrow>
    \<exists>r. search_loop bm nw len rv i j start end cur = Some (0, r) \<and> r \<le> s0"
  using assms(1)
proof (induction i j start "end" cur rule: search_loop_rounds)
  case (End i j s e c)
  from End.hyps have "nw * 32 \<le> i * 32" by simp
  with End.prems assms(3) show ?case by (auto split: if_splits)
next
  case (Word i j s e c)
  then show ?case by (auto simp: search_word split: if_splits)
next
  case (Used i j s e c)
  have j: "j < 32" using bit_imp_le_length [OF Used.hyps(3)] by simp
  have "used bm (i * 32 + j)" using Used.hyps j assms(1) by (simp add: used_word)
  with hole have "\<not> (s0 \<le> i * 32 + j \<and> i * 32 + j \<le> s0 + len)" by auto
  with Used j assms(1) show ?case by (auto simp: search_used split: if_splits)
next
  case (Free i j s e c)
  then show ?case using assms(1,2) by (auto simp: search_free split: if_splits)
qed

lemma bitmap_block_search_s_sound:
  assumes "bitmap_block_search_s start rv len bm sz = Some (0, r)" and "sz div 4 \<le> length bm"
  shows "start \<le> r \<and> r + len \<le> 32 * (sz div 4) \<and> (\<forall>p \<in> {r ..< r + len}. \<not> used bm p)"
  using assms(1) search_loop_sound [OF assms(2), of len rv "start div 32" "start mod 32" start 0 True r start]
  by (simp add: bitmap_block_search_s_def search_inv_def less_imp_le)

lemma search_loop_rc:
  assumes "nw \<le> length bm"
  shows "\<exists>rc r. search_loop bm nw len rv i j start end cur = Some (rc, r) \<and> (rc = 0 \<or> rc = 1 \<and> r = rv)"
  using assms
proof (induction i j start "end" cur rule: search_loop_rounds)
  case (Free i j s e c)
  then show ?case using assms by (auto simp: search_free)
qed (use assms in \<open>auto simp: search_done search_word search_used\<close>)

lemma bitmap_block_search_s_rc:
  "sz div 4 \<le> length bm \<Longrightarrow>
   \<exists>rc r. bitmap_block_search_s start rv len bm sz = Some (rc, r) \<and> (rc = 0 \<or> rc = 1 \<and> r = rv)"
  by (simp add: bitmap_block_search_s_def search_loop_rc)

lemma bitmap_block_search_s_complete:
  assumes "sz div 4 \<le> length bm" and "0 < len" and "start \<le> s" and "s + len < 32 * (sz div 4)"
    and "\<forall>p \<in> {s .. s + len}. \<not> used bm p"
  shows "\<exists>r. bitmap_block_search_s start rv len bm sz = Some (0, r) \<and> r \<le> s"
  unfolding bitmap_block_search_s_def
  using search_loop_complete [OF assms(1,2,4,5), of True "start div 32" "start mod 32"] assms(3)
  by (simp add: less_imp_le)

section \<open>Updating a block\<close>

lemma update_word: "n < 32 \<Longrightarrow> i < length bm \<Longrightarrow>
    update_loop mark len bm i n j =
      (let bm' = bm[i := mark_bit (bm ! i) n mark]
       in if Suc j \<ge> len then Some bm' else update_loop mark len bm' i (Suc n) (Suc j))"
  by (subst update_loop.simps) simp

lemma update_next: "\<not> n < 32 \<Longrightarrow>
    update_loop mark len bm i n j = (if i \<noteq> 0 then update_loop mark len bm (Suc i) 0 j else Some bm)"
  by (subst update_loop.simps) simp

lemma bit_mark: "mark < 2 \<Longrightarrow> n < 32 \<Longrightarrow> bit (mark_bit w n mark) m
    \<longleftrightarrow> (if m = n then mark = 1 else bit w m)"
  by (cases "mark = 0") (auto simp: mark_bit_def bit_simps less_2_cases_iff dest: bit_imp_le_length)

lemma used_mark:
  assumes "i < length bm" and "n < 32" and "mark < 2"
  shows "used (bm[i := mark_bit (bm ! i) n mark]) p
    \<longleftrightarrow> (if p = i * 32 + n then mark = 1 else used bm p)"
  unfolding used_upd_word [OF assms(1)] bit_mark [OF assms(3,2)]
  using assms(1,2) by (auto simp: used_def)

text \<open>
  The end of the range that is really updated: \<open>while (i++)\<close> stops after word 0, so a block that
  starts in word 0 is updated up to bit 31 only.
\<close>

definition upd_end :: "nat \<Rightarrow> nat \<Rightarrow> nat" where
  "upd_end start len = (if start < 32 then min (start + len) 32 else start + len)"

definition loop_end :: "nat \<Rightarrow> nat \<Rightarrow> nat \<Rightarrow> nat" where
  "loop_end i n k = (if i = 0 then min (n + k) 32 else i * 32 + n + k)"

lemma loop_end_simps:
  "i \<noteq> 0 \<Longrightarrow> loop_end (Suc i) 0 k = loop_end i 32 k"
  "loop_end 0 32 k = 32"
  "n < 32 \<Longrightarrow> 0 < k \<Longrightarrow> i * 32 + n < loop_end i n k"
  "n < 32 \<Longrightarrow> loop_end i n (Suc 0) = Suc (i * 32 + n)"
  "Suc j < len \<Longrightarrow> loop_end i (Suc n) (len - Suc j) = loop_end i n (len - j)"
  by (auto simp: loop_end_def)

lemma update_loop_used:
  "mark < 2 \<Longrightarrow> j < len \<Longrightarrow> n \<le> 32 \<Longrightarrow> loop_end i n (len - j) \<le> 32 * length bm \<Longrightarrow>
   \<exists>bm'. update_loop mark len bm i n j = Some bm' \<and> length bm' = length bm \<and>
     (\<forall>p. used bm' p \<longleftrightarrow>
        (if i * 32 + n \<le> p \<and> p < loop_end i n (len - j) then mark = 1 else used bm p))"
proof (induction mark len bm i n j rule: update_loop.induct)
  case (1 mark len bm i n j)
  show ?case
  proof (cases "n < 32")
    case False
    with "1.prems"(3) have n: "n = 32" by simp
    show ?thesis
    proof (cases "i = 0")
      case True
      with n show ?thesis by (auto simp: update_next loop_end_simps)
    next
      case iF: False
      have "Suc i * 32 + 0 = i * 32 + n" using n by simp
      then show ?thesis
        using "1.IH"(2) [OF False iF] "1.prems" n iF
        by (simp add: update_next loop_end_simps add.commute)
    qed
  next
    case nT: True
    have lt: "i * 32 + n < loop_end i n (len - j)"
      using nT "1.prems"(2) by (simp add: loop_end_simps)
    then have il: "i < length bm" using "1.prems"(4) by simp
    let ?bm = "bm[i := mark_bit (bm ! i) n mark]"
    have upd: "used ?bm p \<longleftrightarrow> (if p = i * 32 + n then mark = 1 else used bm p)" for p
      using il nT "1.prems"(1) by (rule used_mark)
    show ?thesis
    proof (cases "Suc j < len")
      case False
      then have "len - j = Suc 0" using "1.prems"(2) by simp
      with False il nT show ?thesis
        by (auto simp: update_word Let_def upd loop_end_simps)
    next
      case True
      obtain bm' where bm': "update_loop mark len ?bm i (Suc n) (Suc j) = Some bm'"
          "length bm' = length bm"
          "\<And>p. used bm' p \<longleftrightarrow>
            (if i * 32 + Suc n \<le> p \<and> p < loop_end i n (len - j) then mark = 1 else used ?bm p)"
        using "1.IH"(1) [OF nT rd_Some [OF il] refl] True "1.prems" nT
        by (auto simp: loop_end_simps(5))
      have "used bm' p \<longleftrightarrow>
          (if i * 32 + n \<le> p \<and> p < loop_end i n (len - j) then mark = 1 else used bm p)" for p
        using lt unfolding bm'(3) upd by auto
      moreover have "update_loop mark len bm i n j = Some bm'"
        using bm'(1) True il nT by (subst update_word) (simp_all add: Let_def)
      ultimately show ?thesis using bm'(2) by blast
    qed
  qed
qed

lemma bitmap_block_update_used:
  assumes "0 < len" and "start + len \<le> 32 * length bm" and "start + len \<le> szt (sz * 32)"
  shows "\<exists>bm'. bitmap_block_update bm mark start len sz = Some (0, bm') \<and> length bm' = length bm \<and>
     (\<forall>p. used bm' p \<longleftrightarrow> (if start \<le> p \<and> p < upd_end start len then odd mark else used bm p))"
proof -
  have m: "mark mod 2 < 2" "(mark mod 2 = Suc 0) = odd mark" by (simp_all add: odd_iff_mod_2_eq_one)
  have "szt (start + len) \<le> szt (sz * 32)"
    using assms(3) szt_le order_trans by blast
  moreover have "loop_end (start div 32) (start mod 32) (len - 0) = upd_end start len"
    by (auto simp: loop_end_def upd_end_def div_eq_0_iff)
  moreover have "upd_end start len \<le> 32 * length bm"
    using assms(2) by (auto simp: upd_end_def)
  ultimately show ?thesis
    using update_loop_used [OF m(1) assms(1), of "start mod 32" "start div 32" bm]
    by (auto simp: bitmap_block_update_def m(2) less_imp_le)
qed

section \<open>The interface of the map to its clients\<close>

text \<open>
  What the page allocators (\<^verbatim>\<open>dynmem.c\<close>, \<^verbatim>\<open>vralloc.c\<close>) rely on: a found block is free,
  and marking a block makes exactly its bits used. \<open>span\<close> says for which blocks the second
  holds. The client lemma is about a whole run of allocations.
\<close>

locale block_map =
  fixes inuse :: "'m \<Rightarrow> nat \<Rightarrow> bool"
    and wf :: "'m \<Rightarrow> bool"
    and find :: "'m \<Rightarrow> nat \<Rightarrow> nat option"
    and mark :: "'m \<Rightarrow> nat \<Rightarrow> nat \<Rightarrow> 'm"
    and span :: "nat \<Rightarrow> nat \<Rightarrow> bool"
  assumes find_free: "wf m \<Longrightarrow> 0 < len \<Longrightarrow> find m len = Some r \<Longrightarrow> r \<le> p \<Longrightarrow> p < r + len \<Longrightarrow> \<not> inuse m p"
    and mark_wf: "wf m \<Longrightarrow> 0 < len \<Longrightarrow> find m len = Some r \<Longrightarrow> wf (mark m r len)"
    and mark_inuse: "wf m \<Longrightarrow> 0 < len \<Longrightarrow> find m len = Some r \<Longrightarrow> span r len \<Longrightarrow>
      inuse (mark m r len) p \<longleftrightarrow> inuse m p \<or> (r \<le> p \<and> p < r + len)"
begin

fun run :: "'m \<Rightarrow> nat list \<Rightarrow> (nat \<times> nat) list" where
  "run m [] = []"
| "run m (len # lens) =
     (case find m len of None \<Rightarrow> run m lens | Some r \<Rightarrow> (r, len) # run (mark m r len) lens)"

lemma run_fresh:
  "wf m \<Longrightarrow> \<forall>l \<in> set lens. 0 < l \<Longrightarrow> \<forall>(r, l) \<in> set (run m lens). span r l \<Longrightarrow>
   (r, l) \<in> set (run m lens) \<Longrightarrow> r \<le> p \<Longrightarrow> p < r + l \<Longrightarrow> \<not> inuse m p"
proof (induction lens arbitrary: m)
  case (Cons len lens)
  show ?case
  proof (cases "find m len")
    case None
    with Cons show ?thesis by simp
  next
    case (Some r0)
    have "wf (mark m r0 len)" using Cons.prems(1,2) Some by (auto intro: mark_wf)
    moreover have "inuse (mark m r0 len) p" if "inuse m p"
      using Cons.prems(1-3) Some that by (auto simp: mark_inuse)
    moreover have "\<not> inuse m p" if "(r, l) = (r0, len)"
      using Cons.prems that Some find_free [of m len r0 p] by simp
    ultimately show ?thesis using Cons.IH [of "mark m r0 len"] Cons.prems Some by auto
  qed
qed simp

lemma run_disjoint:
  "wf m \<Longrightarrow> \<forall>l \<in> set lens. 0 < l \<Longrightarrow> \<forall>(r, l) \<in> set (run m lens). span r l \<Longrightarrow>
   sorted_wrt (\<lambda>(r, l) (r', l'). {r ..< r + l} \<inter> {r' ..< r' + l'} = {}) (run m lens)"
proof (induction lens arbitrary: m)
  case (Cons len lens)
  show ?case
  proof (cases "find m len")
    case None
    with Cons show ?thesis by simp
  next
    case (Some r)
    have wf': "wf (mark m r len)" using Cons.prems(1,2) Some by (auto intro: mark_wf)
    have sp: "\<forall>(r, l) \<in> set (run (mark m r len) lens). span r l" "span r len"
      using Cons.prems(3) Some by auto
    have pos: "\<forall>l \<in> set lens. 0 < l" "0 < len" using Cons.prems(2) by auto
    have "{r ..< r + len} \<inter> {r' ..< r' + l'} = {}" if "(r', l') \<in> set (run (mark m r len) lens)" for r' l'
    proof (rule ccontr)
      assume "\<not> ?thesis"
      then obtain p where "p \<in> {r ..< r + len}" "p \<in> {r' ..< r' + l'}" by blast
      then have p: "r \<le> p" "p < r + len" "r' \<le> p" "p < r' + l'" by auto
      from run_fresh [OF wf' pos(1) sp(1) that p(3,4)] p(1,2) show False
        using Cons.prems(1) pos(2) Some sp(2) by (simp add: mark_inuse)
    qed
    with Cons.IH [OF wf' pos(1) sp(1)] Some show ?thesis by auto
  qed
qed simp

end

section \<open>Single bits\<close>

lemma used_split: "p < 32 * length bm \<Longrightarrow> used bm p \<longleftrightarrow> bit (bm ! (p div 32)) (p mod 32)"
  by (simp add: used_def)

lemma pos_word: "p < 32 * length (bm :: bitmap) \<Longrightarrow> p div 32 < length bm"
  by simp

lemma pos_word_iff: "p < 32 * length (bm :: bitmap) \<longleftrightarrow> p div 32 < length bm"
  by auto

lemma pos_eq_iff: "p = q \<longleftrightarrow> p div 32 = q div 32 \<and> p mod 32 = q mod (32 :: nat)"
  by (metis div_mult_mod_eq)

lemma bit_set_bit: "n < 32 \<Longrightarrow> bit (w OR push_bit n 1 :: u32) m \<longleftrightarrow> m = n \<or> bit w m"
  by (auto simp: bit_simps)

lemma bit_clear_bit: "n < 32 \<Longrightarrow> bit (w AND NOT (push_bit n 1) :: u32) m \<longleftrightarrow> m \<noteq> n \<and> bit w m"
  by (auto simp: bit_simps dest: bit_imp_le_length)

lemma bitmap_status_used:
  "pos < szt (sz * 32) \<Longrightarrow> pos < 32 * length bm \<Longrightarrow>
   bitmap_status bm pos sz = Some (if used bm pos then 1 else 0)"
  by (simp add: bitmap_status_def used_split kern_bits)

lemma bitmap_status_einval: "szt (sz * 32) \<le> pos \<Longrightarrow> bitmap_status bm pos sz = Some (- EINVAL)"
  by (simp add: bitmap_status_def)

lemma bitmap_set_used:
  assumes "pos < szt (sz * 32)" and "pos < 32 * length bm"
  shows "\<exists>bm'. bitmap_set bm pos sz = Some (0, bm') \<and> length bm' = length bm \<and>
    (\<forall>p. used bm' p \<longleftrightarrow> p = pos \<or> used bm p)"
proof -
  let ?bm = "bm[pos div 32 := bm ! (pos div 32) OR push_bit (pos mod 32) 1]"
  have "used ?bm p \<longleftrightarrow> p = pos \<or> used bm p" for p
    unfolding used_upd_word [OF pos_word [OF assms(2)]] 
      bit_set_bit [OF mod_less_divisor [OF zero_less_numeral]]
    using assms(2) unfolding pos_word_iff by (auto simp: used_def pos_word_iff pos_eq_iff [of p pos])
  moreover have "bitmap_set bm pos sz = Some (0, ?bm)"
    using assms by (simp add: bitmap_set_def Let_def)
  ultimately show ?thesis by auto
qed

lemma bitmap_clear_used:
  assumes "pos < szt (sz * 32)" and "pos < 32 * length bm"
  shows "\<exists>bm'. bitmap_clear bm pos sz = Some (0, bm') \<and> length bm' = length bm \<and>
    (\<forall>p. used bm' p \<longleftrightarrow> p \<noteq> pos \<and> used bm p)"
proof -
  let ?bm = "bm[pos div 32 := bm ! (pos div 32) AND NOT (push_bit (pos mod 32) 1)]"
  have "used ?bm p \<longleftrightarrow> p \<noteq> pos \<and> used bm p" for p
    unfolding used_upd_word [OF pos_word [OF assms(2)]] 
      bit_clear_bit [OF mod_less_divisor [OF zero_less_numeral]]
    using assms(2) unfolding pos_word_iff by (auto simp: used_def pos_word_iff pos_eq_iff [of p pos])
  moreover have "bitmap_clear bm pos sz = Some (0, ?bm)"
    using assms by (simp add: bitmap_clear_def Let_def)
  ultimately show ?thesis by auto
qed

section \<open>The code provides the interface\<close>

definition bm_wf :: "bitmap \<Rightarrow> bool" where
  "bm_wf bm \<longleftrightarrow> length bm < 2 ^ 24"

definition bm_find :: "bitmap \<Rightarrow> nat \<Rightarrow> nat option" where
  "bm_find bm len = (case bitmap_block_search 0 len bm (4 * length bm) of
     Some (rc, r) \<Rightarrow> if rc = 0 then Some r else None | None \<Rightarrow> None)"

definition bm_mark :: "bitmap \<Rightarrow> nat \<Rightarrow> nat \<Rightarrow> bitmap" where
  "bm_mark bm r len = (case bitmap_block_update bm 1 r len (4 * length bm) of
     Some (rc, bm') \<Rightarrow> bm' | None \<Rightarrow> bm)"

text \<open>The blocks that \<open>bitmap_block_update\<close> marks completely.\<close>

definition whole :: "nat \<Rightarrow> nat \<Rightarrow> bool" where
  "whole r len \<longleftrightarrow> upd_end r len = r + len"

lemma bm_find_sound:
  "bm_find bm len = Some r \<Longrightarrow> r + len \<le> 32 * length bm \<and> (\<forall>p \<in> {r ..< r + len}. \<not> used bm p)"
  using bitmap_block_search_s_sound [of 0 0 len bm "4 * length bm" r]
  by (auto simp: bm_find_def bitmap_block_search_def split: option.splits prod.splits if_splits)

lemma bm_mark_used:
  assumes "bm_wf bm" and "0 < len" and "r + len \<le> 32 * length bm"
  shows "length (bm_mark bm r len) = length bm \<and>
    (used (bm_mark bm r len) p \<longleftrightarrow> (if r \<le> p \<and> p < upd_end r len then True else used bm p))"
proof -
  have "r + len \<le> szt (4 * length bm * 32)"
    using assms(1,3) by (simp add: bm_wf_def szt_def)
  from bitmap_block_update_used [OF assms(2,3) this, of 1] show ?thesis
    by (auto simp: bm_mark_def)
qed

interpretation bmap: block_map used bm_wf bm_find bm_mark whole
proof
  show "\<not> used m p" if "bm_wf m" "0 < len" "bm_find m len = Some r" "r \<le> p" "p < r + len" for m len r p
    using bm_find_sound [OF that(3)] that(4,5) by auto
  show "bm_wf (bm_mark m r len)" if "bm_wf m" "0 < len" "bm_find m len = Some r" for m len r
    using bm_mark_used [OF that(1,2)] bm_find_sound [OF that(3)] that(1) by (simp add: bm_wf_def)
  show "used (bm_mark m r len) p \<longleftrightarrow> used m p \<or> r \<le> p \<and> p < r + len"
    if "bm_wf m" "0 < len" "bm_find m len = Some r" "whole r len" for m len r p
    using bm_mark_used [OF that(1,2), of r p] bm_find_sound [OF that(3)] that(4) by (auto simp: whole_def)
qed

text \<open>A run of \<open>bitmap_block_alloc\<close> calls; the blocks it hands out, in order.\<close>

fun alloc_run :: "bitmap \<Rightarrow> nat list \<Rightarrow> (nat \<times> nat) list" where
  "alloc_run bm [] = []"
| "alloc_run bm (len # lens) =
     (case bitmap_block_alloc 0 len bm (4 * length bm) of
        Some (rc, r, bm') \<Rightarrow> if rc = 0 then (r, len) # alloc_run bm' lens else alloc_run bm' lens
      | None \<Rightarrow> [])"

lemma bitmap_block_alloc_eq:
  assumes "bm_wf bm" and "0 < len"
  shows "bitmap_block_alloc 0 len bm (4 * length bm) =
    Some (case bm_find bm len of Some r \<Rightarrow> (0, r, bm_mark bm r len) | None \<Rightarrow> (1, 0, bm))"
proof -
  obtain rc r where s: "bitmap_block_search 0 len bm (4 * length bm) = Some (rc, r)" "rc = 0 \<or> rc = 1 \<and> r = 0"
    using bitmap_block_search_s_rc [of "4 * length bm" bm 0 0 len] by (auto simp: bitmap_block_search_def)
  show ?thesis
  proof (cases "rc = 0")
    case True
    with s have f: "bm_find bm len = Some r" by (simp add: bm_find_def)
    have "r + len \<le> szt (4 * length bm * 32)"
      using bm_find_sound [OF f] assms(1) by (simp add: bm_wf_def szt_def)
    then obtain bm' where "bitmap_block_update bm 1 r len (4 * length bm) = Some (0, bm')"
      using bitmap_block_update_used [OF assms(2)] bm_find_sound [OF f] by blast
    with s True f show ?thesis by (simp add: bitmap_block_alloc_def bm_mark_def)
  next
    case False
    with s show ?thesis by (simp add: bitmap_block_alloc_def bm_find_def)
  qed
qed

lemma alloc_run_eq: "bm_wf bm \<Longrightarrow> \<forall>l \<in> set lens. 0 < l \<Longrightarrow> alloc_run bm lens = bmap.run bm lens"
proof (induction lens arbitrary: bm)
  case (Cons len lens)
  then show ?case
    using bmap.mark_wf [of bm len]
    by (cases "bm_find bm len") (auto simp: bitmap_block_alloc_eq)
qed simp

lemmas alloc_eval = bitmap_block_alloc_def bitmap_block_search_def bitmap_block_search_s_def
  search_loop.simps bitmap_block_update_def update_loop.simps mark_bit_def szt_def Let_def

section \<open>Properties\<close>

text \<open>
  A block returned by \<open>bitmap_block_search_s\<close> lies at or after the start position and inside
  the map, and every bit of it is free, provided the array holds the words that \<open>size\<close> announces.
\<close>

theorem bitmap_search_returns_free_block:
  assumes "sz div 4 \<le> length bm"
    and "bitmap_block_search_s start rv len bm sz = Some (0, r)"
  shows "start \<le> r \<and> r + len \<le> 32 * (sz div 4) \<and> (\<forall>p \<in> {r ..< r + len}. \<not> used bm p)"
  using bitmap_block_search_s_sound [OF assms(2,1)] .

theorem bitmap_search_returns_free_block_witness:
  "bitmap_block_search_s 3 7 2 [0xFFFFFF1F, 0] 8 = Some (0, 5) \<and>
   (3::nat) \<le> 5 \<and> \<not> used [0xFFFFFF1F, 0] 5 \<and> \<not> used [0xFFFFFF1F, 0] 6"
proof -
  have *: "bitmap_block_search_s 3 7 2 [0xFFFFFF1F, 0] 8 = Some (0, 5)"
    by (simp add: bitmap_block_search_s_def search_loop.simps Let_def)
  show ?thesis
    using * bitmap_search_returns_free_block [of 8 "[0xFFFFFF1F, 0]" 3 7 2 5] by simp
qed

text \<open>
  The search never misses a hole that is one bit longer than the request, and it never reads
  outside the array: with a free run \<open>s .. s + len\<close> at or after \<open>start\<close> it returns 0 and a block
  that starts at \<open>s\<close> or before it, so the first such hole bounds where the block can be.
\<close>

theorem bitmap_search_finds_hole:
  assumes "sz div 4 \<le> length bm" and "0 < len" and "start \<le> s" and "s + len < 32 * (sz div 4)"
    and "\<forall>p \<in> {s .. s + len}. \<not> used bm p"
  shows "\<exists>r. bitmap_block_search_s start rv len bm sz = Some (0, r) \<and> r \<le> s"
  using bitmap_block_search_s_complete [OF assms] .

theorem bitmap_search_finds_hole_witness:
  "\<exists>r. bitmap_block_search_s 0 0 4 [0xFFFF0FFF, 0] 8 = Some (0, r) \<and> r \<le> 32"
  by (rule bitmap_search_finds_hole [where s = 32]) (auto simp: used_def)

text \<open>
  \<open>bitmap_block_update\<close> on a block inside the map and inside the checked size returns 0,
  accesses only words of the array, and changes exactly the bits of the block, except that a block
  that starts in word 0 is changed up to bit 31 only.
\<close>

theorem bitmap_update_exact:
  assumes "0 < len" and "start + len \<le> 32 * length bm" and "start + len \<le> szt (sz * 32)"
  shows "\<exists>bm'. bitmap_block_update bm mark start len sz = Some (0, bm') \<and> length bm' = length bm \<and>
     (\<forall>p. used bm' p \<longleftrightarrow>
        (if start \<le> p \<and> p < (if start < 32 then min (start + len) 32 else start + len)
         then odd mark else used bm p))"
  using bitmap_block_update_used [OF assms] by (simp only: upd_end_def)

theorem bitmap_update_exact_witness:
  "\<exists>bm'. bitmap_block_update [0, 0, 0] 1 60 8 12 = Some (0, bm') \<and> length bm' = 3 \<and>
     used bm' 67 \<and> \<not> used bm' 68"
proof -
  obtain bm' where "bitmap_block_update [0, 0, 0] 1 60 8 12 = Some (0, bm')" "length bm' = 3"
    and u: "\<forall>p. used bm' p \<longleftrightarrow> (if 60 \<le> p \<and> p < 68 then True else used [0, 0, 0] p)"
    using bitmap_update_exact [of 8 60 "[0, 0, 0]" 12 1] by (auto simp: szt_def)
  moreover have "\<not> used [0, 0, 0] 68" by (simp add: used_def)
  ultimately show ?thesis using u [rule_format, of 67] u [rule_format, of 68] by auto
qed

text \<open>
  C24: blocks handed out by a run of \<open>bitmap_block_alloc\<close> calls without frees are pairwise
  disjoint and were free before the run, if each of them starts after word 0 or ends inside it.
\<close>

theorem bitmap_alloc_run_disjoint:
  assumes "length bm < 2 ^ 24" and "\<forall>l \<in> set lens. 0 < l"
    and "\<forall>(r, l) \<in> set (alloc_run bm lens). 32 \<le> r \<or> r + l \<le> 32"
  shows "sorted_wrt (\<lambda>(r, l) (r', l'). {r ..< r + l} \<inter> {r' ..< r' + l'} = {}) (alloc_run bm lens) \<and>
    (\<forall>(r, l) \<in> set (alloc_run bm lens). \<forall>p \<in> {r ..< r + l}. \<not> used bm p)"
proof -
  have wf: "bm_wf bm" using assms(1) by (simp add: bm_wf_def)
  have eq: "alloc_run bm lens = bmap.run bm lens" using wf assms(2) by (rule alloc_run_eq)
  have wh: "\<forall>(r, l) \<in> set (bmap.run bm lens). whole r l"
    using assms(3) by (auto simp: eq whole_def upd_end_def)
  show ?thesis
    using bmap.run_disjoint [OF wf assms(2) wh] bmap.run_fresh [OF wf assms(2) wh]
    by (auto simp: eq)
qed

theorem bitmap_alloc_run_disjoint_witness:
  "alloc_run [0xFFFFFFFF, 0, 0] [4, 4] = [(32, 4), (36, 4)] \<and>
   {32 ..< 32 + 4} \<inter> {36 ..< 36 + (4::nat)} = {}"
proof -
  have r: "alloc_run [0xFFFFFFFF, 0, 0] [4, 4] = [(32, 4), (36, 4)]"
    by (simp add: alloc_eval)
  show ?thesis
    using bitmap_alloc_run_disjoint [of "[0xFFFFFFFF, 0, 0]" "[4, 4]"] unfolding r by simp
qed

text \<open>
  the exception of the previous property is real. Two allocations of 6 and 4 bits from a map
  whose bits 0 to 27 are taken both succeed and overlap: the first one, 28 to 33, is marked up to
  bit 31 only.
\<close>

theorem bitmap_alloc_overlap:
  "alloc_run [0x0FFFFFFF, 0] [6, 4] = [(28, 6), (32, 4)] \<and>
   {28 ..< 28 + 6} \<inter> {32 ..< 32 + (4::nat)} \<noteq> {}"
proof -
  have "alloc_run [0x0FFFFFFF, 0] [6, 4] = [(28, 6), (32, 4)]"
    by (simp add: alloc_eval)
  then show ?thesis by simp
qed

end
