(* ===== verification/Queue_R.thy ===== *)
theory Queue_R
  imports Zeke_Prelude
begin

text \<open>
  The ring buffer queue (\<^verbatim>\<open>kern/libkern/queue_r.c\<close>) that the kernel uses for lazily freed
  memory, dead threads, memory pools and pipes. The control block keeps the data array as its
  bytes; an element is \<open>b_size\<close> bytes. \<open>None\<close> is a division by a zero array length or a copy
  outside the data array. One slot is never used, so the queue holds \<open>a_len - 1\<close> elements.
\<close>

record queue_cb =
  data :: "u8 list"
  b_size :: nat
  a_len :: nat
  m_write :: nat
  m_read :: nat

section \<open>The code\<close>

definition queue_create :: "u8 list \<Rightarrow> nat \<Rightarrow> nat \<Rightarrow> queue_cb option" where
  "queue_create data_array block_size array_size =
     (if block_size = 0 then None
      else Some \<lparr>data = data_array, b_size = block_size, a_len = array_size div block_size,
                 m_write = 0, m_read = 0\<rparr>)"

text \<open>\<open>(i + 1) % cb->a_len\<close>\<close>

definition next_index :: "queue_cb \<Rightarrow> nat \<Rightarrow> nat option" where
  "next_index cb i = (if a_len cb = 0 then None else Some ((i + 1) mod a_len cb))"

definition queue_push :: "queue_cb \<Rightarrow> u8 list \<Rightarrow> (int \<times> queue_cb) option" where
  "queue_push cb element = do {
     next_element \<leftarrow> next_index cb (m_write cb);
     if next_element = m_read cb then Some (0, cb)
     else do {
       d \<leftarrow> mem_copy (data cb) (m_write cb * b_size cb) element 0 (b_size cb);
       Some (1, cb\<lparr>data := d, m_write := next_element\<rparr>) } }"

text \<open>A pointer into the data array is its offset; \<open>NULL\<close> is \<open>None\<close> inside the result.\<close>

definition queue_alloc_get :: "queue_cb \<Rightarrow> nat option option" where
  "queue_alloc_get cb = do {
     next_element \<leftarrow> next_index cb (m_write cb);
     if next_element = m_read cb then Some None
     else Some (Some (m_write cb * b_size cb)) }"

definition queue_alloc_commit :: "queue_cb \<Rightarrow> queue_cb option" where
  "queue_alloc_commit cb = do {
     next_element \<leftarrow> next_index cb (m_write cb);
     Some (cb\<lparr>m_write := next_element\<rparr>) }"

text \<open>\<open>element\<close> is the destination buffer of at least \<open>b_size\<close> bytes.\<close>

definition queue_pop :: "queue_cb \<Rightarrow> u8 list \<Rightarrow> (int \<times> u8 list \<times> queue_cb) option" where
  "queue_pop cb element =
     (if m_read cb = m_write cb then Some (0, element, cb)
      else do {
        next_element \<leftarrow> next_index cb (m_read cb);
        e \<leftarrow> mem_copy element 0 (data cb) (m_read cb * b_size cb) (b_size cb);
        Some (1, e, cb\<lparr>m_read := next_element\<rparr>) })"

definition queue_peek :: "queue_cb \<Rightarrow> nat \<Rightarrow> int \<times> nat" where
  "queue_peek cb element =
     (if m_read cb = m_write cb then (0, element) else (1, m_read cb * b_size cb))"

function skip_loop :: "queue_cb \<Rightarrow> nat \<Rightarrow> nat \<Rightarrow> (nat \<times> queue_cb) option" where
  "skip_loop cb n count =
     (if count < n then
        if m_read cb = m_write cb then Some (count, cb)
        else (case next_index cb (m_read cb) of
                None \<Rightarrow> None
              | Some r \<Rightarrow> skip_loop (cb\<lparr>m_read := r\<rparr>) n (Suc count))
      else Some (count, cb))"
  by pat_completeness auto
termination
  by (relation "measure (\<lambda>(cb, n, count). n - count)") auto

declare skip_loop.simps [simp del]

definition queue_skip :: "queue_cb \<Rightarrow> nat \<Rightarrow> (nat \<times> queue_cb) option" where
  "queue_skip cb n = skip_loop cb n 0"

definition queue_clear_from_push_end :: "queue_cb \<Rightarrow> queue_cb" where
  "queue_clear_from_push_end cb = cb\<lparr>m_write := m_read cb\<rparr>"

definition queue_clear_from_pop_end :: "queue_cb \<Rightarrow> queue_cb" where
  "queue_clear_from_pop_end cb = cb\<lparr>m_read := m_write cb\<rparr>"

definition queue_isempty :: "queue_cb \<Rightarrow> bool" where
  "queue_isempty cb \<longleftrightarrow> m_write cb = m_read cb"

definition queue_isfull :: "queue_cb \<Rightarrow> bool option" where
  "queue_isfull cb = do { n \<leftarrow> next_index cb (m_write cb); Some (n = m_read cb) }"

definition seek :: "queue_cb \<Rightarrow> nat \<Rightarrow> u8 list \<Rightarrow> (int \<times> u8 list) option" where
  "seek cb i element =
     (if a_len cb = 0 then None
      else if m_read cb mod a_len cb = m_write cb then Some (0, element)
      else let element_i = szt (m_read cb + i) mod a_len cb
           in if element_i = m_write cb then Some (0, element)
              else do {
                e \<leftarrow> mem_copy element 0 (data cb) (element_i * b_size cb) (b_size cb);
                Some (1, e) })"

section \<open>The abstract queue\<close>

definition q_inv :: "queue_cb \<Rightarrow> bool" where
  "q_inv cb \<longleftrightarrow> m_read cb < a_len cb \<and> m_write cb < a_len cb \<and>
     a_len cb * b_size cb \<le> length (data cb)"

definition q_count :: "queue_cb \<Rightarrow> nat" where
  "q_count cb = (if m_read cb \<le> m_write cb then m_write cb - m_read cb
                 else m_write cb + a_len cb - m_read cb)"

definition contents :: "queue_cb \<Rightarrow> u8 list list" where
  "contents cb = map (\<lambda>k. block (data cb) (b_size cb) ((m_read cb + k) mod a_len cb)) [0 ..< q_count cb]"

lemma length_contents [simp]: "length (contents cb) = q_count cb"
  by (simp add: contents_def)

lemma contents_empty: "contents cb = [] \<longleftrightarrow> q_count cb = 0"
  by (simp add: contents_def)

lemma q_count_0: "q_inv cb \<Longrightarrow> q_count cb = 0 \<longleftrightarrow> m_read cb = m_write cb"
  by (auto simp: q_count_def q_inv_def)

lemma q_count_less: "q_inv cb \<Longrightarrow> q_count cb < a_len cb"
  by (auto simp: q_count_def q_inv_def)

lemma q_write_index: "q_inv cb \<Longrightarrow> (m_read cb + q_count cb) mod a_len cb = m_write cb"
  by (auto simp: q_count_def q_inv_def)

lemma q_index_inj:
  assumes "q_inv cb" and "k < q_count cb"
  shows "(m_read cb + k) mod a_len cb \<noteq> m_write cb"
  using assms q_count_less [OF assms(1)]
  by (auto simp: q_count_def q_inv_def mod_add_ring split: if_splits)

lemma q_full_iff: "q_inv cb \<Longrightarrow> (m_write cb + 1) mod a_len cb = m_read cb \<longleftrightarrow> Suc (q_count cb) = a_len cb"
  by (auto simp: q_count_def q_inv_def mod_suc_ring)

lemma q_inv_block: "q_inv cb \<Longrightarrow> i < a_len cb \<Longrightarrow> i * b_size cb + b_size cb \<le> length (data cb)"
  by (auto simp: q_inv_def intro: index_le_blocks)

lemma contents_length: "q_inv cb \<Longrightarrow> x \<in> set (contents cb) \<Longrightarrow> length x = b_size cb"
proof -
  assume inv: "q_inv cb" and "x \<in> set (contents cb)"
  then obtain k where "x = block (data cb) (b_size cb) ((m_read cb + k) mod a_len cb)"
    by (auto simp: contents_def)
  moreover have "(m_read cb + k) mod a_len cb < a_len cb" for k
    using inv by (auto simp: q_inv_def intro: mod_less_divisor)
  ultimately show ?thesis using q_inv_block [OF inv] by (simp add: length_block)
qed

lemma contents_Cons:
  assumes "q_inv cb" and "m_read cb \<noteq> m_write cb"
  shows "contents cb = block (data cb) (b_size cb) (m_read cb) #
    contents (cb\<lparr>m_read := (m_read cb + 1) mod a_len cb\<rparr>)"
proof -
  let ?cb = "cb\<lparr>m_read := (m_read cb + 1) mod a_len cb\<rparr>"
  have n: "q_count cb = Suc (q_count ?cb)"
    using assms by (auto simp: q_count_def q_inv_def mod_suc_ring)
  have "(m_read cb + Suc k) mod a_len cb = ((m_read cb + 1) mod a_len cb + k) mod a_len cb" for k
    by (simp add: mod_add_left_eq)
  moreover have "m_read cb mod a_len cb = m_read cb" using assms(1) by (simp add: q_inv_def)
  ultimately show ?thesis
    unfolding contents_def n upt_conv_Cons [OF zero_less_Suc] by (simp add: map_Suc_upt [symmetric] o_def del: upt_Suc)
qed

lemma contents_snoc:
  assumes "q_inv cb" and "Suc (q_count cb) < a_len cb" and "length x = b_size cb"
    and "d = take (m_write cb * b_size cb) (data cb) @ x @ drop (m_write cb * b_size cb + b_size cb) (data cb)"
  shows "contents (cb\<lparr>data := d, m_write := (m_write cb + 1) mod a_len cb\<rparr>) = contents cb @ [x]"
proof -
  let ?cb = "cb\<lparr>data := d, m_write := (m_write cb + 1) mod a_len cb\<rparr>"
  have n: "q_count ?cb = Suc (q_count cb)"
    using assms(1,2) by (auto simp: q_count_def q_inv_def mod_suc_ring split: if_splits)
  have w: "m_write cb * b_size cb + b_size cb \<le> length (data cb)"
    using assms(1) by (intro q_inv_block) (auto simp: q_inv_def)
  have blk: "block d (b_size cb) ((m_read cb + k) mod a_len cb) =
      (if (m_read cb + k) mod a_len cb = m_write cb then x
       else block (data cb) (b_size cb) ((m_read cb + k) mod a_len cb))" for k
    unfolding assms(4) by (rule block_splice [OF w assms(3)])
  show ?thesis
    using q_write_index [OF assms(1)] q_index_inj [OF assms(1)]
    unfolding contents_def n by (simp add: blk)
qed

section \<open>The operations on the abstract queue\<close>

lemma queue_create_inv:
  assumes "0 < bs" and "bs \<le> asz" and "asz \<le> length d"
  shows "\<exists>cb. queue_create d bs asz = Some cb \<and> q_inv cb \<and> contents cb = [] \<and>
    a_len cb = asz div bs \<and> b_size cb = bs"
proof -
  have "0 < asz div bs" using assms(1,2) by (simp add: div_greater_zero_iff)
  moreover have "asz div bs * bs \<le> length d"
    using assms(3) div_times_less_eq_dividend le_trans by blast
  ultimately show ?thesis
    using assms(1) by (simp add: queue_create_def q_inv_def contents_def q_count_def)
qed

lemma q_inv_a_len: "q_inv cb \<Longrightarrow> 0 < a_len cb"
  by (auto simp: q_inv_def)

lemma q_inv_write: "q_inv cb \<Longrightarrow> m_write cb * b_size cb + b_size cb \<le> length (data cb)"
  by (rule q_inv_block) (simp_all add: q_inv_def)

lemma q_inv_read: "q_inv cb \<Longrightarrow> m_read cb * b_size cb + b_size cb \<le> length (data cb)"
  by (rule q_inv_block) (simp_all add: q_inv_def)

lemma queue_push_full: "q_inv cb \<Longrightarrow> Suc (q_count cb) = a_len cb \<Longrightarrow> queue_push cb x = Some (0, cb)"
  using q_full_iff [of cb] by (simp add: queue_push_def next_index_def q_inv_a_len)

lemma queue_push_ok:
  assumes "q_inv cb" and "Suc (q_count cb) < a_len cb" and "length x = b_size cb"
  shows "\<exists>cb'. queue_push cb x = Some (1, cb') \<and> q_inv cb' \<and> contents cb' = contents cb @ [x] \<and>
    a_len cb' = a_len cb \<and> b_size cb' = b_size cb"
proof -
  let ?d = "take (m_write cb * b_size cb) (data cb) @ x @ drop (m_write cb * b_size cb + b_size cb) (data cb)"
  have "(m_write cb + 1) mod a_len cb \<noteq> m_read cb" using q_full_iff [OF assms(1)] assms(2) by auto
  then have "queue_push cb x = Some (1, cb\<lparr>data := ?d, m_write := (m_write cb + 1) mod a_len cb\<rparr>)"
    using assms q_inv_write [OF assms(1)] by (simp add: queue_push_def next_index_def q_inv_a_len)
  moreover have "q_inv (cb\<lparr>data := ?d, m_write := (m_write cb + 1) mod a_len cb\<rparr>)"
    using assms q_inv_write [OF assms(1)] by (auto simp: q_inv_def)
  ultimately show ?thesis using contents_snoc [OF assms refl] by simp
qed

lemma queue_pop_empty: "q_inv cb \<Longrightarrow> contents cb = [] \<Longrightarrow> queue_pop cb e = Some (0, e, cb)"
  by (simp add: queue_pop_def contents_empty q_count_0)

lemma queue_pop_ok:
  assumes "q_inv cb" and "contents cb = x # xs" and "length e = b_size cb"
  shows "\<exists>cb'. queue_pop cb e = Some (1, x, cb') \<and> q_inv cb' \<and> contents cb' = xs \<and>
    a_len cb' = a_len cb \<and> b_size cb' = b_size cb"
proof -
  have ne: "m_read cb \<noteq> m_write cb" using q_count_0 [OF assms(1)] contents_empty [of cb] assms(2) by auto
  from contents_Cons [OF assms(1) ne] assms(2)
  have x: "x = block (data cb) (b_size cb) (m_read cb)"
    and xs: "contents (cb\<lparr>m_read := (m_read cb + 1) mod a_len cb\<rparr>) = xs" by auto
  have "queue_pop cb e = Some (1, x, cb\<lparr>m_read := (m_read cb + 1) mod a_len cb\<rparr>)"
    using ne assms(1,3) q_inv_read [OF assms(1)]
    by (simp add: queue_pop_def next_index_def q_inv_a_len x block_def add.commute)
  moreover have "q_inv (cb\<lparr>m_read := (m_read cb + 1) mod a_len cb\<rparr>)"
    using assms(1) by (auto simp: q_inv_def)
  ultimately show ?thesis using xs by simp
qed

lemma queue_isempty_iff: "q_inv cb \<Longrightarrow> queue_isempty cb \<longleftrightarrow> contents cb = []"
  by (auto simp: queue_isempty_def contents_empty q_count_0)

lemma queue_isfull_iff: "q_inv cb \<Longrightarrow> queue_isfull cb = Some (Suc (length (contents cb)) = a_len cb)"
  using q_full_iff [of cb] by (simp add: queue_isfull_def next_index_def q_inv_a_len)

lemma queue_clear_contents:
  "q_inv cb \<Longrightarrow> q_inv (queue_clear_from_push_end cb) \<and> contents (queue_clear_from_push_end cb) = []"
  "q_inv cb \<Longrightarrow> q_inv (queue_clear_from_pop_end cb) \<and> contents (queue_clear_from_pop_end cb) = []"
  by (auto simp: queue_clear_from_push_end_def queue_clear_from_pop_end_def q_inv_def contents_def q_count_def)

lemma queue_peek_block:
  "q_inv cb \<Longrightarrow> contents cb = x # xs \<Longrightarrow>
   \<exists>off. queue_peek cb e = (1, off) \<and> take (b_size cb) (drop off (data cb)) = x"
  using contents_Cons [of cb] contents_empty [of cb] q_count_0 [of cb]
  by (cases "m_read cb = m_write cb") (auto simp: queue_peek_def block_def)

lemma q_inv_pop: "q_inv cb \<Longrightarrow> q_inv (cb\<lparr>m_read := (m_read cb + 1) mod a_len cb\<rparr>)"
  by (auto simp: q_inv_def)

lemma skip_loop_drop:
  "q_inv cb \<Longrightarrow> count \<le> n \<Longrightarrow>
   \<exists>cb'. skip_loop cb n count = Some (count + min (n - count) (length (contents cb)), cb') \<and>
     q_inv cb' \<and> contents cb' = drop (n - count) (contents cb)"
proof (induction "n - count" arbitrary: cb count)
  case 0
  then show ?case by (subst skip_loop.simps) simp
next
  case (Suc k)
  show ?case
  proof (cases "m_read cb = m_write cb")
    case True
    then have "contents cb = []" "q_count cb = 0" using Suc.prems(1) by (simp_all add: contents_empty q_count_0)
    moreover have "count < n" using Suc.hyps(2) by simp
    ultimately show ?thesis using True Suc.prems(1) by (subst skip_loop.simps) simp
  next
    case False
    let ?cb = "cb\<lparr>m_read := (m_read cb + 1) mod a_len cb\<rparr>"
    have c: "contents cb = block (data cb) (b_size cb) (m_read cb) # contents ?cb"
      by (rule contents_Cons [OF Suc.prems(1) False])
    have "k = n - Suc count" "Suc count \<le> n" using Suc.hyps(2) by simp_all
    from Suc.hyps(1) [OF this(1) q_inv_pop [OF Suc.prems(1)] this(2)]
    obtain cb' where cb': "skip_loop ?cb n (Suc count) =
        Some (Suc count + min (n - Suc count) (length (contents ?cb)), cb')"
      "q_inv cb'" "contents cb' = drop (n - Suc count) (contents ?cb)"
      by blast
    have nc: "n - count = Suc (n - Suc count)" using Suc.hyps(2) by simp
    have "count < n" "0 < a_len cb" using Suc.hyps(2) q_inv_a_len [OF Suc.prems(1)] by simp_all
    then have "skip_loop cb n count = skip_loop ?cb n (Suc count)"
      using False by (subst skip_loop.simps) (simp add: next_index_def)
    moreover have "length (contents cb) = Suc (length (contents ?cb))" using c by simp
    ultimately show ?thesis using cb' by (simp add: c nc)
  qed
qed

lemma queue_alloc_commit_ok:
  assumes "q_inv cb" and "queue_alloc_get cb = Some (Some off)" and "length x = b_size cb"
    and "mem_copy (data cb) off x 0 (b_size cb) = Some d"
  shows "\<exists>cb'. queue_alloc_commit (cb\<lparr>data := d\<rparr>) = Some cb' \<and> q_inv cb' \<and> contents cb' = contents cb @ [x]"
proof -
  have nf: "(m_write cb + 1) mod a_len cb \<noteq> m_read cb" and off: "off = m_write cb * b_size cb"
    using assms(1,2) by (auto simp: queue_alloc_get_def next_index_def q_inv_a_len split: if_splits)
  then have lt: "Suc (q_count cb) < a_len cb"
    using q_full_iff [OF assms(1)] q_count_less [OF assms(1)] by auto
  have d: "d = take (m_write cb * b_size cb) (data cb) @ x @ drop (m_write cb * b_size cb + b_size cb) (data cb)"
    using assms(3,4) by (auto simp: mem_copy_eq_Some off)
  have "queue_alloc_commit (cb\<lparr>data := d\<rparr>) = Some (cb\<lparr>data := d, m_write := (m_write cb + 1) mod a_len cb\<rparr>)"
    using assms(1) by (simp add: queue_alloc_commit_def next_index_def q_inv_a_len)
  moreover have "q_inv (cb\<lparr>data := d, m_write := (m_write cb + 1) mod a_len cb\<rparr>)"
    using assms(1) mem_copy_length [OF assms(4)] by (auto simp: q_inv_def)
  ultimately show ?thesis using contents_snoc [OF assms(1) lt assms(3) d] by blast
qed

lemma seek_nth:
  assumes "q_inv cb" and "i < length (contents cb)" and "length e = b_size cb" and "m_read cb + i < 2 ^ 32"
  shows "seek cb i e = Some (1, contents cb ! i)"
proof -
  have ne: "m_read cb mod a_len cb \<noteq> m_write cb"
    using assms(1,2) q_index_inj [OF assms(1), of 0] by auto
  have ni: "(m_read cb + i) mod a_len cb \<noteq> m_write cb"
    using q_index_inj [OF assms(1), of i] assms(2) by simp
  have "(m_read cb + i) mod a_len cb < a_len cb" using q_inv_a_len [OF assms(1)] by simp
  then have "(m_read cb + i) mod a_len cb * b_size cb + b_size cb \<le> length (data cb)"
    by (rule q_inv_block [OF assms(1)])
  with ne ni assms q_inv_a_len [OF assms(1)] show ?thesis
    by (simp add: seek_def contents_def block_def add.commute)
qed

section \<open>First in, first out\<close>

text \<open>
  The interface the users of the queue rely on, and its consequence for any interleaving of a
  producer and a consumer: what has been popped, followed by what is still queued, is what was
  queued at the start followed by what was accepted, in order.
\<close>

datatype 'x fifo_op = Push 'x | Pop

locale bounded_fifo =
  fixes inv :: "'q \<Rightarrow> bool"
    and elem :: "'q \<Rightarrow> 'x \<Rightarrow> bool"
    and cont :: "'q \<Rightarrow> 'x list"
    and push :: "'q \<Rightarrow> 'x \<Rightarrow> bool \<times> 'q"
    and pop :: "'q \<Rightarrow> 'x option \<times> 'q"
  assumes push_accept: "inv q \<Longrightarrow> elem q x \<Longrightarrow> push q x = (True, q') \<Longrightarrow>
      inv q' \<and> cont q' = cont q @ [x] \<and> elem q' = elem q"
    and push_reject: "inv q \<Longrightarrow> elem q x \<Longrightarrow> push q x = (False, q') \<Longrightarrow> q' = q"
    and pop_some: "inv q \<Longrightarrow> pop q = (Some x, q') \<Longrightarrow> inv q' \<and> cont q = x # cont q' \<and> elem q' = elem q"
    and pop_none: "inv q \<Longrightarrow> pop q = (None, q') \<Longrightarrow> q' = q \<and> cont q = []"
begin

fun run :: "'q \<Rightarrow> 'x fifo_op list \<Rightarrow> 'x list \<times> 'x list \<times> 'q" where
  "run q [] = ([], [], q)"
| "run q (Push x # ops) =
     (let (ok, q') = push q x; (acc, out, q'') = run q' ops
      in (if ok then x # acc else acc, out, q''))"
| "run q (Pop # ops) =
     (let (r, q') = pop q; (acc, out, q'') = run q' ops
      in (acc, (case r of Some x \<Rightarrow> x # out | None \<Rightarrow> out), q''))"

lemma run_fifo:
  "inv q \<Longrightarrow> (\<And>x. Push x \<in> set ops \<Longrightarrow> elem q x) \<Longrightarrow> run q ops = (acc, out, q') \<Longrightarrow>
   inv q' \<and> out @ cont q' = cont q @ acc"
proof (induction ops arbitrary: q acc out)
  case (Cons op ops)
  show ?case
  proof (cases op)
    case (Push x)
    obtain ok q1 where p: "push q x = (ok, q1)" by fastforce
    obtain acc1 where r: "run q1 ops = (acc1, out, q')" and a: "acc = (if ok then x # acc1 else acc1)"
      using Cons.prems(3) Push p by (auto split: prod.splits)
    have x: "elem q x" using Cons.prems(2) Push by simp
    show ?thesis
    proof (cases ok)
      case True
      with push_accept [OF Cons.prems(1) x] p
      have q1: "inv q1" "cont q1 = cont q @ [x]" "elem q1 = elem q" by auto
      have "inv q' \<and> out @ cont q' = cont q1 @ acc1"
        by (rule Cons.IH [OF q1(1) _ r]) (simp add: q1(3) Cons.prems(2))
      with True a q1(2) show ?thesis by simp
    next
      case False
      with push_reject [OF Cons.prems(1) x] p have "q1 = q" by auto
      with Cons.IH [OF Cons.prems(1) _ r [unfolded \<open>q1 = q\<close>]] Cons.prems(2) False a show ?thesis by simp
    qed
  next
    case Pop
    obtain y q1 where p: "pop q = (y, q1)" by fastforce
    obtain out1 where r: "run q1 ops = (acc, out1, q')"
      and o: "out = (case y of Some x \<Rightarrow> x # out1 | None \<Rightarrow> out1)"
      using Cons.prems(3) Pop p by (auto split: prod.splits)
    show ?thesis
    proof (cases y)
      case None
      with pop_none [OF Cons.prems(1)] p have "q1 = q" by auto
      with Cons.IH [OF Cons.prems(1) _ r [unfolded \<open>q1 = q\<close>]] Cons.prems(2) None o show ?thesis by simp
    next
      case (Some x)
      with pop_some [OF Cons.prems(1)] p
      have q1: "inv q1" "cont q = x # cont q1" "elem q1 = elem q" by auto
      have "inv q' \<and> out1 @ cont q' = cont q1 @ acc"
        by (rule Cons.IH [OF q1(1) _ r]) (simp add: q1(3) Cons.prems(2))
      with Some o q1(2) show ?thesis by simp
    qed
  qed
qed simp

end

text \<open>The ring buffer provides it; the consumer pops into a zeroed buffer of one element.\<close>

definition rb_push :: "queue_cb \<Rightarrow> u8 list \<Rightarrow> bool \<times> queue_cb" where
  "rb_push cb x = (case queue_push cb x of Some (rc, cb') \<Rightarrow> (rc \<noteq> 0, cb') | None \<Rightarrow> (False, cb))"

definition rb_pop :: "queue_cb \<Rightarrow> u8 list option \<times> queue_cb" where
  "rb_pop cb = (case queue_pop cb (replicate (b_size cb) 0) of
     Some (rc, e, cb') \<Rightarrow> (if rc \<noteq> 0 then Some e else None, cb') | None \<Rightarrow> (None, cb))"

definition rb_elem :: "queue_cb \<Rightarrow> u8 list \<Rightarrow> bool" where
  "rb_elem cb x \<longleftrightarrow> length x = b_size cb"

lemma q_count_cases: "q_inv cb \<Longrightarrow> Suc (q_count cb) = a_len cb \<or> Suc (q_count cb) < a_len cb"
  using q_count_less by fastforce

interpretation rb: bounded_fifo q_inv rb_elem contents rb_push rb_pop
proof
  show "q_inv q' \<and> contents q' = contents q @ [x] \<and> rb_elem q' = rb_elem q"
    if "q_inv q" "rb_elem q x" "rb_push q x = (True, q')" for q x q'
    using q_count_cases [OF that(1)] queue_push_full [OF that(1), of x] queue_push_ok [OF that(1), of x] that(2,3)
    by (auto simp: rb_push_def rb_elem_def fun_eq_iff)
  show "q' = q" if "q_inv q" "rb_elem q x" "rb_push q x = (False, q')" for q x q'
    using q_count_cases [OF that(1)] queue_push_full [OF that(1), of x] queue_push_ok [OF that(1), of x] that(2,3)
    by (auto simp: rb_push_def rb_elem_def)
  show "q_inv q' \<and> contents q = x # contents q' \<and> rb_elem q' = rb_elem q"
    if "q_inv q" "rb_pop q = (Some x, q')" for q x q'
    using queue_pop_empty [OF that(1)] queue_pop_ok [OF that(1), of _ _ "replicate (b_size q) 0"] that(2)
    by (cases "contents q") (auto simp: rb_pop_def rb_elem_def fun_eq_iff)
  show "q' = q \<and> contents q = []" if "q_inv q" "rb_pop q = (None, q')" for q q'
    using queue_pop_empty [OF that(1)] queue_pop_ok [OF that(1), of _ _ "replicate (b_size q) 0"] that(2)
    by (cases "contents q") (auto simp: rb_pop_def)
qed

text \<open>A run of calls on a queue: the elements accepted, the elements popped, the final queue.\<close>

fun queue_run :: "queue_cb \<Rightarrow> u8 list fifo_op list \<Rightarrow> u8 list list \<times> u8 list list \<times> queue_cb" where
  "queue_run cb [] = ([], [], cb)"
| "queue_run cb (Push x # ops) =
     (let (ok, cb') = rb_push cb x; (acc, out, cb'') = queue_run cb' ops
      in (if ok then x # acc else acc, out, cb''))"
| "queue_run cb (Pop # ops) =
     (let (r, cb') = rb_pop cb; (acc, out, cb'') = queue_run cb' ops
      in (acc, (case r of Some x \<Rightarrow> x # out | None \<Rightarrow> out), cb''))"

lemma queue_run_eq: "queue_run cb ops = rb.run cb ops"
  by (induction cb ops rule: queue_run.induct) (simp_all add: Let_def split: prod.splits)

section \<open>Properties\<close>


lemmas queue_eval = queue_create_def rb_push_def rb_pop_def queue_push_def queue_pop_def
  next_index_def mem_copy_def contents_def q_count_def block_def


text \<open>
  \<open>queue_push\<close> refuses an element exactly when \<open>a_len - 1\<close> elements are queued, and otherwise
  appends it; one slot of the array stays unused.
\<close>

theorem queue_push_capacity:
  assumes "q_inv cb" and "length x = b_size cb"
  shows "queue_push cb x = Some (0, cb) \<and> length (contents cb) + 1 = a_len cb \<or>
    length (contents cb) + 1 < a_len cb \<and>
    (\<exists>cb'. queue_push cb x = Some (1, cb') \<and> q_inv cb' \<and> contents cb' = contents cb @ [x])"
  using q_count_cases [OF assms(1)] queue_push_full [OF assms(1), of x] queue_push_ok [OF assms(1) _ assms(2)]
  by auto

theorem queue_push_capacity_witness:
  "queue_push \<lparr>data = [1, 2], b_size = 1, a_len = 2, m_write = 0, m_read = 1\<rparr> [9] =
   Some (0, \<lparr>data = [1, 2], b_size = 1, a_len = 2, m_write = 0, m_read = 1\<rparr>)"
  using queue_push_capacity [of "\<lparr>data = [1, 2], b_size = 1, a_len = 2, m_write = 0, m_read = 1\<rparr>" "[9]"]
  by (auto simp: q_inv_def q_count_def)

text \<open>
  \<open>queue_skip cb n\<close> drops the first \<open>n\<close> elements, or all when fewer are queued, and returns
  how many it dropped.
\<close>

theorem queue_skip_drops:
  assumes "q_inv cb"
  shows "\<exists>cb'. queue_skip cb n = Some (min n (length (contents cb)), cb') \<and> q_inv cb' \<and>
    contents cb' = drop n (contents cb)"
  using skip_loop_drop [OF assms, of 0 n] by (simp add: queue_skip_def)

theorem queue_skip_drops_witness:
  "\<exists>cb'. queue_skip \<lparr>data = [1, 2, 3], b_size = 1, a_len = 3, m_write = 1, m_read = 2\<rparr> 5 = Some (2, cb')"
  using queue_skip_drops [of "\<lparr>data = [1, 2, 3], b_size = 1, a_len = 3, m_write = 1, m_read = 2\<rparr>" 5]
  by (auto simp: q_inv_def q_count_def)

end
