(* ===== verification/Sigset.thy ===== *)
theory Sigset
  imports Zeke_Prelude
begin

text \<open>
  Signal sets (\<^verbatim>\<open>kern/ksignal_setops.c\<close>, \<^verbatim>\<open>include/sys/_sigset.h\<close>). A \<open>sigset_t\<close> is an
  array of \<open>_SIG_WORDS\<close> = 4 words; signal \<open>s\<close> in 1..128 is bit \<open>(s - 1) mod 32\<close> of word
  \<open>(s - 1) div 32\<close>. The abstraction \<open>sigs\<close> reads it as the set of signal numbers it holds, and
  the operations are proved to be the set operations on it. A function that stores through its
  pointer argument returns the new value beside its status.
\<close>

section \<open>The code\<close>

abbreviation (input) SIG_WORDS :: nat where "SIG_WORDS \<equiv> 4"
abbreviation (input) SIG_MAXSIG :: int where "SIG_MAXSIG \<equiv> 128"

record sigset_t =
  sbits :: "u32 list"

definition SIG_IDX :: "int \<Rightarrow> int" where
  "SIG_IDX sig = sig - 1"

definition SIG_WORD :: "int \<Rightarrow> nat" where
  "SIG_WORD sig = nat (drop_bit 5 (SIG_IDX sig))"

definition SIG_BIT :: "int \<Rightarrow> u32" where
  "SIG_BIT sig = push_bit (nat (SIG_IDX sig AND 31)) 1"

definition sigaddset :: "sigset_t \<Rightarrow> int \<Rightarrow> int \<times> sigset_t" where
  "sigaddset s signo =
     (if signo \<le> 0 \<or> signo > SIG_MAXSIG then (- EINVAL, s)
      else (0, s\<lparr>sbits := (sbits s)[SIG_WORD signo := sbits s ! SIG_WORD signo OR SIG_BIT signo]\<rparr>))"

definition sigdelset :: "sigset_t \<Rightarrow> int \<Rightarrow> int \<times> sigset_t" where
  "sigdelset s signo =
     (if signo \<le> 0 \<or> signo > SIG_MAXSIG then (- EINVAL, s)
      else (0, s\<lparr>sbits := (sbits s)[SIG_WORD signo := sbits s ! SIG_WORD signo AND NOT (SIG_BIT signo)]\<rparr>))"

definition sigemptyset :: "sigset_t \<Rightarrow> int \<times> sigset_t" where
  "sigemptyset s = (0, fold (\<lambda>i s. s\<lparr>sbits := (sbits s)[i := 0]\<rparr>) [0..<SIG_WORDS] s)"

definition sigfillset :: "sigset_t \<Rightarrow> int \<times> sigset_t" where
  "sigfillset s = (0, fold (\<lambda>i s. s\<lparr>sbits := (sbits s)[i := NOT 0]\<rparr>) [0..<SIG_WORDS] s)"

definition sigismember :: "sigset_t \<Rightarrow> int \<Rightarrow> int" where
  "sigismember s signo =
     (if signo \<le> 0 \<or> signo > SIG_MAXSIG then - EINVAL
      else if sbits s ! SIG_WORD signo AND SIG_BIT signo \<noteq> 0 then 1 else 0)"

definition sigisemptyset :: "sigset_t \<Rightarrow> int" where
  "sigisemptyset s = (if \<exists>i \<in> set [0..<SIG_WORDS]. sbits s ! i \<noteq> 0 then 0 else 1)"

text \<open>
  The bound of the inner loop is \<open>sizeof(set->__bits[0])\<close>, four bytes, so only the bits 0..3
  of each word are scanned.
\<close>

definition sigffs :: "sigset_t \<Rightarrow> int" where
  "sigffs s =
     (case find (\<lambda>(i, j). sbits s ! i AND push_bit j 1 \<noteq> 0)
             [(i, j). i \<leftarrow> [0..<SIG_WORDS], j \<leftarrow> [0..<4]] of
        Some (i, j) \<Rightarrow> int (i * 4 * 8 + j)
      | None \<Rightarrow> - 1)"

definition sigunion :: "sigset_t \<Rightarrow> sigset_t \<Rightarrow> sigset_t" where
  "sigunion a b = \<lparr>sbits = map (\<lambda>i. sbits a ! i OR sbits b ! i) [0..<SIG_WORDS]\<rparr>"

definition sigintersect :: "sigset_t \<Rightarrow> sigset_t \<Rightarrow> sigset_t" where
  "sigintersect a b = \<lparr>sbits = map (\<lambda>i. sbits a ! i AND sbits b ! i) [0..<SIG_WORDS]\<rparr>"

definition sigcompl :: "sigset_t \<Rightarrow> sigset_t" where
  "sigcompl s = \<lparr>sbits = map (\<lambda>i. NOT (sbits s ! i)) [0..<SIG_WORDS]\<rparr>"

lemmas sigset_eval = sigaddset_def sigdelset_def sigemptyset_def sigfillset_def sigismember_def
  sigisemptyset_def sigffs_def sigunion_def sigintersect_def sigcompl_def
  SIG_IDX_def SIG_WORD_def SIG_BIT_def

section \<open>The set of signals it stands for\<close>

definition sig_wf :: "sigset_t \<Rightarrow> bool" where
  "sig_wf s \<longleftrightarrow> length (sbits s) = SIG_WORDS"

definition all_signals :: "int set" where
  "all_signals = {1..SIG_MAXSIG}"

definition sigs :: "sigset_t \<Rightarrow> int set" where
  "sigs s = {n \<in> all_signals. bit (sbits s ! (nat (n - 1) div 32)) (nat (n - 1) mod 32)}"

definition empty_sigset :: sigset_t where
  "empty_sigset = \<lparr>sbits = [0, 0, 0, 0]\<rparr>"

lemma in_all_signals [simp]: "n \<in> all_signals \<longleftrightarrow> 1 \<le> n \<and> n \<le> 128"
  by (simp add: all_signals_def)

lemma SIG_WORD_eq: "1 \<le> n \<Longrightarrow> SIG_WORD n = nat (n - 1) div 32"
  by (simp add: SIG_WORD_def SIG_IDX_def drop_bit_eq_div nat_div_distrib)

lemma SIG_BIT_eq: "1 \<le> n \<Longrightarrow> SIG_BIT n = push_bit (nat (n - 1) mod 32) 1"
proof -
  have "x AND 31 = x mod 32" for x :: int
    using take_bit_eq_mask [of 5 x] by (simp add: take_bit_eq_mod mask_eq_exp_minus_1)
  then show "1 \<le> n \<Longrightarrow> ?thesis"
    by (simp add: SIG_BIT_def SIG_IDX_def nat_mod_distrib)
qed

lemma SIG_WORD_less: "1 \<le> n \<Longrightarrow> n \<le> 128 \<Longrightarrow> SIG_WORD n < 4"
  by (simp add: SIG_WORD_eq nat_less_iff less_mult_imp_div_less)

text \<open>Distinct signals are distinct bits of the array.\<close>

lemma sig_pos_inj:
  assumes "1 \<le> m" "1 \<le> n"
  shows "nat (m - 1) div 32 = nat (n - 1) div 32 \<and> nat (m - 1) mod 32 = nat (n - 1) mod 32 \<longleftrightarrow> m = n"
proof
  assume "nat (m - 1) div 32 = nat (n - 1) div 32 \<and> nat (m - 1) mod 32 = nat (n - 1) mod 32"
  then have "nat (m - 1) = nat (n - 1)" by (metis div_mult_mod_eq)
  with assms show "m = n" by simp
qed simp

lemma bit_push_1: "j < 32 \<Longrightarrow> bit (2 ^ j :: u32) k \<longleftrightarrow> k = j"
  by (auto simp: bit_exp_iff possible_bit_def)

lemma sig_index: "1 \<le> n \<Longrightarrow> n \<le> 128 \<Longrightarrow> nat (n - 1) div 32 < 4"
  by (metis SIG_WORD_eq SIG_WORD_less)

lemma sigs_upd:
  assumes "sig_wf s" "1 \<le> n" "n \<le> 128"
    and or_def: "\<And>k. bit w k \<longleftrightarrow> (if k = nat (n - 1) mod 32 then v else bit (sbits s ! SIG_WORD n) k)"
  shows "sigs (s\<lparr>sbits := (sbits s)[SIG_WORD n := w]\<rparr>) = (if v then insert n (sigs s) else sigs s - {n})"
proof -
  have "m \<in> sigs (s\<lparr>sbits := (sbits s)[SIG_WORD n := w]\<rparr>) \<longleftrightarrow>
        (if m = n then v else m \<in> sigs s)" if m: "m \<in> all_signals" for m
    using assms m sig_pos_inj [of m n]
    by (auto simp: sigs_def sig_wf_def SIG_WORD_eq nth_list_update sig_index)
  moreover have "m \<in> all_signals" if "m \<in> sigs x" for m x using that by (simp add: sigs_def)
  ultimately have mem: "m \<in> sigs (s\<lparr>sbits := (sbits s)[SIG_WORD n := w]\<rparr>) \<longleftrightarrow>
      (if m = n then v else m \<in> sigs s)" for m
    using assms(2,3) by (metis in_all_signals)
  show ?thesis by (intro set_eqI, unfold mem) (simp split: if_split)
qed

lemma sigaddset_ok:
  assumes "sig_wf s" "n \<in> all_signals"
  shows "sigs (snd (sigaddset s n)) = insert n (sigs s)"
  using assms sigs_upd [of s n "sbits s ! SIG_WORD n OR SIG_BIT n" True]
  by (simp add: sigaddset_def SIG_BIT_eq bit_or_iff bit_push_1)

lemma sigdelset_ok:
  assumes "sig_wf s" "n \<in> all_signals"
  shows "sigs (snd (sigdelset s n)) = sigs s - {n}"
proof -
  let ?w = "sbits s ! SIG_WORD n"
  have "bit (?w AND NOT (SIG_BIT n)) k \<longleftrightarrow> (if k = nat (n - 1) mod 32 then False else bit ?w k)" for k
    using assms(2) bit_imp_le_length [of ?w k]
    by (auto simp: SIG_BIT_eq bit_and_iff bit_not_iff bit_push_1 possible_bit_def)
  from sigs_upd [OF assms(1) _ _ this] show ?thesis
    using assms(2) by (simp add: sigdelset_def)
qed

lemma sigset_invalid:
  assumes "n \<notin> all_signals"
  shows "sigaddset s n = (- EINVAL, s)" "sigdelset s n = (- EINVAL, s)" "sigismember s n = - EINVAL"
  using assms by (auto simp: sigaddset_def sigdelset_def sigismember_def)

lemma sigset_status:
  assumes "n \<in> all_signals"
  shows "fst (sigaddset s n) = 0" "fst (sigdelset s n) = 0"
  using assms by (auto simp: sigaddset_def sigdelset_def)

lemma sigset_wf [kern_inv]:
  "sig_wf s \<Longrightarrow> sig_wf (snd (sigaddset s n))"
  "sig_wf s \<Longrightarrow> sig_wf (snd (sigdelset s n))"
  "sig_wf s \<Longrightarrow> sig_wf (snd (sigemptyset s))"
  "sig_wf s \<Longrightarrow> sig_wf (snd (sigfillset s))"
  "sig_wf (sigunion a b)" "sig_wf (sigintersect a b)" "sig_wf (sigcompl a)"
  by (simp_all add: sig_wf_def sigset_eval upt_rec)

lemma sigismember_iff:
  assumes "sig_wf s" "n \<in> all_signals"
  shows "sigismember s n = (if n \<in> sigs s then 1 else 0)"
  using assms
  by (simp add: sigismember_def sigs_def SIG_WORD_eq SIG_BIT_eq kern_bits)

text \<open>The C condition \<open>if (sigismember(..))\<close>: an invalid number counts as a member.\<close>

lemma sigismember_true_iff:
  "sig_wf s \<Longrightarrow> sigismember s n \<noteq> 0 \<longleftrightarrow> n \<in> sigs s \<or> n \<notin> all_signals"
  by (cases "n \<in> all_signals") (simp_all add: sigismember_iff sigset_invalid del: in_all_signals)

lemma sbits_cases: "sig_wf s \<Longrightarrow> \<exists>a b c d. s = \<lparr>sbits = [a, b, c, d]\<rparr>"
  by (cases s) (auto simp: sig_wf_def length_Suc_conv numeral_eq_Suc)

lemma sigs_memI: "n \<in> sigs s \<Longrightarrow> n \<in> all_signals"
  by (simp add: sigs_def)

lemma sigemptyset_eq: "sig_wf s \<Longrightarrow> sigemptyset s = (0, empty_sigset)"
  by (drule sbits_cases) (auto simp: sigemptyset_def empty_sigset_def upt_rec)

lemma empty_sigset_wf [simp]: "sig_wf empty_sigset"
  by (simp add: empty_sigset_def sig_wf_def)

lemma nth_zeros: "k < 4 \<Longrightarrow> [x, x, x, x] ! k = x"
  by (auto simp: less_Suc_eq numeral_eq_Suc)

lemma sigs_empty [simp]: "sigs empty_sigset = {}"
  by (auto simp: sigs_def empty_sigset_def nth_zeros sig_index)

lemma sigs_fill: "sig_wf s \<Longrightarrow> sigs (snd (sigfillset s)) = all_signals"
  by (drule sbits_cases)
     (auto simp: sigs_def sigfillset_def upt_rec nth_zeros sig_index bit_not_iff possible_bit_def)

lemma sigs_union: "sigs (sigunion a b) = sigs a \<union> sigs b"
  by (auto simp: sigs_def sigunion_def sig_index bit_or_iff)

lemma sigs_intersect: "sigs (sigintersect a b) = sigs a \<inter> sigs b"
  by (auto simp: sigs_def sigintersect_def sig_index bit_and_iff)

lemma sigs_compl: "sigs (sigcompl a) = all_signals - sigs a"
  by (auto simp: sigs_def sigcompl_def sig_index bit_not_iff possible_bit_def)

lemma sigisemptyset_iff:
  assumes "sig_wf s"
  shows "sigisemptyset s = (if sigs s = {} then 1 else 0)"
proof -
  have "(\<exists>i<4. sbits s ! i \<noteq> 0) \<longleftrightarrow> sigs s \<noteq> {}"
  proof
    assume "\<exists>i<4. sbits s ! i \<noteq> 0"
    then obtain i j where ij: "i < 4" "bit (sbits s ! i) j"
      by (metis bit_0_eq bot_apply bot_bool_def bit_eqI)
    then have j: "j < 32" by (auto dest: bit_imp_le_length)
    have "int (32 * i + j) + 1 \<in> sigs s"
      using ij j by (simp add: sigs_def nat_add_distrib nat_mult_distrib)
    then show "sigs s \<noteq> {}" by blast
  next
    assume "sigs s \<noteq> {}"
    then obtain n where "n \<in> all_signals" and b: "bit (sbits s ! (nat (n - 1) div 32)) (nat (n - 1) mod 32)"
      by (auto simp: sigs_def)
    then have "nat (n - 1) div 32 < 4" by (simp add: sig_index)
    with b show "\<exists>i<4. sbits s ! i \<noteq> 0" by (metis bit_0_eq bot_apply bot_bool_def)
  qed
  then show ?thesis by (auto simp: sigisemptyset_def)
qed

lemmas sigs_ops = sigaddset_ok sigdelset_ok sigs_empty sigs_fill sigs_union sigs_intersect sigs_compl

section \<open>The interface of signal sets\<close>

text \<open>
  What the signal code relies on: an abstraction into sets of signal numbers under which the
  operations are the set operations, and closure of the well-formed representations.
\<close>

locale signal_sets =
  fixes wf :: "'s \<Rightarrow> bool" and elems :: "'s \<Rightarrow> int set" and univ :: "int set"
    and union inter :: "'s \<Rightarrow> 's \<Rightarrow> 's" and compl :: "'s \<Rightarrow> 's"
    and member :: "'s \<Rightarrow> int \<Rightarrow> int"
  assumes elems_univ: "elems s \<subseteq> univ"
    and union_law: "elems (union a b) = elems a \<union> elems b"
    and inter_law: "elems (inter a b) = elems a \<inter> elems b"
    and compl_law: "elems (compl a) = univ - elems a"
    and wf_law: "wf (union a b)" "wf (inter a b)" "wf (compl a)"
    and member_law: "wf s \<Longrightarrow> n \<in> univ \<Longrightarrow> member s n = (if n \<in> elems s then 1 else 0)"
begin

text \<open>\<open>SIG_UNBLOCK\<close> is intersection with a complement: the difference.\<close>

lemma remove_law: "elems (inter a (compl b)) = elems a - elems b"
  using elems_univ [of a] by (auto simp: inter_law compl_law)

lemma remove_member: "n \<in> univ \<Longrightarrow> member (inter a (compl b)) n = 1 \<longleftrightarrow> n \<in> elems a \<and> n \<notin> elems b"
  by (simp add: member_law wf_law remove_law)

lemma block_member: "n \<in> univ \<Longrightarrow> member (union a b) n = 1 \<longleftrightarrow> n \<in> elems a \<or> n \<in> elems b"
  by (simp add: member_law wf_law union_law)

lemma block_unblock: "elems (inter (union a b) (compl b)) = elems a - elems b"
  by (auto simp: remove_law union_law)

end

interpretation sset: signal_sets sig_wf sigs all_signals sigunion sigintersect sigcompl sigismember
  by unfold_locales
     (auto simp: sigs_union sigs_intersect sigs_compl sigset_wf sigismember_iff dest: sigs_memI
       simp del: in_all_signals)

section \<open>Sequences of operations\<close>

datatype sigset_op = Add int | Del int | EmptyAll | FillAll | UnionWith sigset_t
  | IntersectWith sigset_t | Complement

fun sigset_step :: "sigset_op \<Rightarrow> sigset_t \<Rightarrow> sigset_t" where
  "sigset_step (Add n) s = snd (sigaddset s n)"
| "sigset_step (Del n) s = snd (sigdelset s n)"
| "sigset_step EmptyAll s = snd (sigemptyset s)"
| "sigset_step FillAll s = snd (sigfillset s)"
| "sigset_step (UnionWith t) s = sigunion s t"
| "sigset_step (IntersectWith t) s = sigintersect s t"
| "sigset_step Complement s = sigcompl s"

fun spec_step :: "sigset_op \<Rightarrow> int set \<Rightarrow> int set" where
  "spec_step (Add n) S = (if n \<in> all_signals then insert n S else S)"
| "spec_step (Del n) S = S - {n}"
| "spec_step EmptyAll S = {}"
| "spec_step FillAll S = all_signals"
| "spec_step (UnionWith t) S = S \<union> sigs t"
| "spec_step (IntersectWith t) S = S \<inter> sigs t"
| "spec_step Complement S = all_signals - S"

lemma sigset_step_wf [kern_inv]: "sig_wf s \<Longrightarrow> sig_wf (sigset_step opn s)"
  by (cases opn) (simp_all add: kern_inv)

lemma sigset_step_spec: "sig_wf s \<Longrightarrow> sigs (sigset_step opn s) = spec_step opn (sigs s)"
proof (cases opn)
  case (Add n)
  assume "sig_wf s"
  then show ?thesis
    by (cases "n \<in> all_signals") (simp_all add: Add sigaddset_ok sigset_invalid del: in_all_signals)
next
  case (Del n)
  assume "sig_wf s"
  then show ?thesis
    by (cases "n \<in> all_signals")
       (auto simp: Del sigdelset_ok sigset_invalid dest: sigs_memI simp del: in_all_signals)
qed (simp_all add: sigs_ops sigemptyset_eq)

text \<open>
  C26: Refinement of signal sets. Over any sequence of operations of ksignal_setops.c the
  four-word array behaves as the set of signal numbers 1..128: sigaddset and sigdelset insert and
  remove exactly their signal (an invalid number changes nothing), the others are empty, full,
  union, intersection and complement; sigismember reads the resulting set and sigisemptyset tells
  whether it is empty.
\<close>

theorem sigset_refines_set:
  assumes "sig_wf s"
  shows "sigs (fold sigset_step ops s) = fold spec_step ops (sigs s)
    \<and> (n \<in> all_signals \<longrightarrow>
         sigismember (fold sigset_step ops s) n = (if n \<in> fold spec_step ops (sigs s) then 1 else 0))
    \<and> sigisemptyset (fold sigset_step ops s) = (if fold spec_step ops (sigs s) = {} then 1 else 0)"
proof -
  have "sig_wf (fold sigset_step ops s) \<and> sigs (fold sigset_step ops s) = fold spec_step ops (sigs s)"
    using assms
    by (induction ops arbitrary: s) (simp_all add: sigset_step_wf sigset_step_spec)
  then show ?thesis by (simp add: sigismember_iff sigisemptyset_iff)
qed

theorem sigset_refines_set_witness:
  "sigismember (fold sigset_step [Add 15, Complement, Del 128, Add 200] empty_sigset) 2
     = (if (2::int) \<in> fold spec_step [Add 15, Complement, Del 128, Add 200] {} then 1 else 0)
   \<and> sigismember (fold sigset_step [Add 15, Complement, Del 128, Add 200] empty_sigset) 2 = 1"
  using sigset_refines_set [of empty_sigset "[Add 15, Complement, Del 128, Add 200]" 2] by simp

text \<open>
  sigffs scans only the four lowest bits of each word, because the bound of its inner loop
  is a size in bytes. It answers -1 exactly when the set has no signal in 1..4, 33..36, 65..68 or
  97..100, whatever else it holds; when it does answer, the answer is one less than a member.
\<close>

theorem sigffs_scans_low_bits:
  assumes "sig_wf s"
  shows "(sigffs s = - 1 \<longleftrightarrow> (\<forall>n \<in> sigs s. (n - 1) mod 32 \<ge> 4)) \<and> (sigffs s \<noteq> - 1 \<longrightarrow> sigffs s + 1 \<in> sigs s)"
proof -
  let ?P = "\<lambda>(i, j). sbits s ! i AND push_bit j 1 \<noteq> 0"
  let ?L = "[(i, j). i \<leftarrow> [0..<4::nat], j \<leftarrow> [0..<4::nat]]"
  have P: "?P (i, j) \<longleftrightarrow> int (32 * i + j) + 1 \<in> sigs s" if "i < 4" "j < 4" for i j
    using that by (simp add: sigs_def kern_bits nat_add_distrib nat_mult_distrib)
  have L: "(i, j) \<in> set ?L \<longleftrightarrow> i < 4 \<and> j < 4" for i j by (auto simp: image_iff)
  show ?thesis
  proof (cases "find ?P ?L")
    case None
    then have none: "\<not> ?P (i, j)" if "i < 4" "j < 4" for i j
      using that L unfolding find_None_iff by blast
    have "4 \<le> (n - 1) mod 32" if n: "n \<in> sigs s" for n
    proof (rule ccontr)
      assume "\<not> 4 \<le> (n - 1) mod 32"
      moreover from n have "1 \<le> n" "n \<le> 128" by (auto dest: sigs_memI)
      moreover have "n = int (32 * nat ((n - 1) div 32) + nat ((n - 1) mod 32)) + 1"
        using \<open>1 \<le> n\<close> by (simp add: pos_imp_zdiv_nonneg_iff)
      moreover have "(n - 1) div 32 < 4" using \<open>n \<le> 128\<close> by simp
      then have "nat ((n - 1) div 32) < 4" by linarith
      moreover note this
      ultimately show False
        using n none [of "nat ((n - 1) div 32)" "nat ((n - 1) mod 32)"]
          P [of "nat ((n - 1) div 32)" "nat ((n - 1) mod 32)"]
        by (auto simp: nat_less_iff pos_imp_zdiv_nonneg_iff)
    qed
    with None show ?thesis by (simp add: sigffs_def)
  next
    case (Some x)
    obtain i j where x: "x = (i, j)" by force
    from Some have "?P x" "x \<in> set ?L" by (blast dest: find_SomeD)+
    then have "?P (i, j)" "(i, j) \<in> set ?L" unfolding x .
    then have ij: "i < 4" "j < 4" "int (32 * i + j) + 1 \<in> sigs s" using L P by blast+
    moreover have "\<exists>n \<in> sigs s. \<not> 4 \<le> (n - 1) mod 32"
      using ij(2) by (intro bexI [OF _ ij(3)]) simp
    ultimately show ?thesis using Some x by (simp add: sigffs_def mult.commute)
  qed
qed

theorem sigffs_scans_low_bits_witness:
  "sigffs \<lparr>sbits = [0x4000, 0, 0, 0]\<rparr> = - 1 \<and> sigismember \<lparr>sbits = [0x4000, 0, 0, 0]\<rparr> 15 = 1
   \<and> sigffs \<lparr>sbits = [0x4000, 0, 2, 0]\<rparr> + 1 \<in> sigs \<lparr>sbits = [0x4000, 0, 2, 0]\<rparr>"
  using sigffs_scans_low_bits [of "\<lparr>sbits = [0x4000, 0, 2, 0]\<rparr>"]
  by (simp add: sig_wf_def sigset_eval upt_rec)

end
