(* ===== verification/Priv.thy ===== *)
theory Priv
  imports Bitmap
begin

text \<open>
  Credentials and capabilities (\<^verbatim>\<open>kern/priv.c\<close>, \<^verbatim>\<open>include/sys/priv.h\<close>). A \<open>struct cred\<close> holds the
  user and group ids and two 256-bit capability maps, the effective and the bounding set, kept
  with the bit map functions of \<open>Bitmap\<close>. \<open>suser\<close> stands for the sysctl variable
  \<open>suser_enabled\<close> and \<open>securelevel\<close> for the one of that name. A system call takes the arguments
  that \<open>copyin\<close> delivered (\<open>None\<close>: the copy failed) and returns the value for user space, the
  errno it set, if any, and the new credentials of the calling process.
\<close>

section \<open>The code\<close>

abbreviation (input) PRIV_MENT :: nat where "PRIV_MENT \<equiv> 256"
abbreviation (input) PRIV_MLEN :: nat where "PRIV_MLEN \<equiv> 8"
abbreviation (input) NGROUPS_MAX :: nat where "NGROUPS_MAX \<equiv> 16"
abbreviation (input) NOGROUP :: nat where "NOGROUP \<equiv> 65535"

abbreviation (input) PRIV_CLRCAP :: int where "PRIV_CLRCAP \<equiv> 1"
abbreviation (input) PRIV_SETEFF :: int where "PRIV_SETEFF \<equiv> 2"
abbreviation (input) PRIV_SETBND :: int where "PRIV_SETBND \<equiv> 3"
abbreviation (input) PRIV_EXEC_B2E :: int where "PRIV_EXEC_B2E \<equiv> 4"
abbreviation (input) PRIV_MAXFILES :: int where "PRIV_MAXFILES \<equiv> 11"
abbreviation (input) PRIV_MAXPROC :: int where "PRIV_MAXPROC \<equiv> 12"
abbreviation (input) PRIV_KMEM_READ :: int where "PRIV_KMEM_READ \<equiv> 42"
abbreviation (input) PRIV_PROC_LIMIT :: int where "PRIV_PROC_LIMIT \<equiv> 61"
abbreviation (input) PRIV_SIGNAL_OTHER :: int where "PRIV_SIGNAL_OTHER \<equiv> 80"
abbreviation (input) PRIV_SIGNAL_ACTION :: int where "PRIV_SIGNAL_ACTION \<equiv> 81"

record cred =
  uid :: nat
  euid :: nat
  suid :: nat
  gid :: nat
  egid :: nat
  sgid :: nat
  sup_gid :: "nat list"
  pcap_effmap :: bitmap
  pcap_bndmap :: bitmap

text \<open>CLRCAP, TTY_SETA, VFS_READ, VFS_WRITE, VFS_EXEC, VFS_LOOKUP, VFS_CHROOT, VFS_STAT,
  PROC_FORK and SIGNAL_ACTION.\<close>

definition default_privs :: "int list" where
  "default_privs = [PRIV_CLRCAP, 106, 111, 112, 114, 115, 117, 124, 60, PRIV_SIGNAL_ACTION]"

definition securelevel_ge :: "int \<Rightarrow> int \<Rightarrow> int" where
  "securelevel_ge securelevel level = (if securelevel \<ge> level then - EPERM else 0)"

definition securelevel_gt :: "int \<Rightarrow> int \<Rightarrow> int" where
  "securelevel_gt securelevel level = (if securelevel > level then - EPERM else 0)"

definition priv_grp_is_member :: "cred \<Rightarrow> nat \<Rightarrow> bool" where
  "priv_grp_is_member c g =
     (if egid c = g then True else list_ex (\<lambda>i. sup_gid c ! i = g) [0..<NGROUPS_MAX])"

text \<open>An \<open>int\<close> capability number becomes the \<open>size_t\<close> position of the bit map functions.\<close>

definition cap_pos :: "int \<Rightarrow> nat" where
  "cap_pos priv = nat (priv mod 2 ^ 32)"

definition priv_cred_eff_get :: "cred \<Rightarrow> int \<Rightarrow> int option" where
  "priv_cred_eff_get c priv = bitmap_status (pcap_effmap c) (cap_pos priv) PRIV_MLEN"

definition priv_cred_eff_set :: "cred \<Rightarrow> int \<Rightarrow> (int \<times> cred) option" where
  "priv_cred_eff_set c priv = do {
     bound \<leftarrow> bitmap_status (pcap_bndmap c) (cap_pos priv) PRIV_MLEN;
     if bound < 0 then Some (bound, c)
     else if bound = 0 then Some (- EPERM, c)
     else do {
       (err, m) \<leftarrow> bitmap_set (pcap_effmap c) (cap_pos priv) PRIV_MLEN;
       Some (err, c\<lparr>pcap_effmap := m\<rparr>) } }"

definition priv_cred_eff_clear :: "cred \<Rightarrow> int \<Rightarrow> (int \<times> cred) option" where
  "priv_cred_eff_clear c priv = do {
     (err, m) \<leftarrow> bitmap_clear (pcap_effmap c) (cap_pos priv) PRIV_MLEN;
     Some (err, c\<lparr>pcap_effmap := m\<rparr>) }"

definition priv_cred_bound_get :: "cred \<Rightarrow> int \<Rightarrow> int option" where
  "priv_cred_bound_get c priv = bitmap_status (pcap_bndmap c) (cap_pos priv) PRIV_MLEN"

definition priv_cred_bound_set :: "cred \<Rightarrow> int \<Rightarrow> (int \<times> cred) option" where
  "priv_cred_bound_set c priv = do {
     (err, m) \<leftarrow> bitmap_set (pcap_bndmap c) (cap_pos priv) PRIV_MLEN;
     Some (err, c\<lparr>pcap_bndmap := m\<rparr>) }"

definition priv_cred_bound_clear :: "cred \<Rightarrow> int \<Rightarrow> (int \<times> cred) option" where
  "priv_cred_bound_clear c priv = do {
     (err, m) \<leftarrow> bitmap_clear (pcap_bndmap c) (cap_pos priv) PRIV_MLEN;
     Some (err, c\<lparr>pcap_bndmap := m\<rparr>) }"

fun bound_reset_loop :: "int list \<Rightarrow> cred \<Rightarrow> cred option" where
  "bound_reset_loop [] c = Some c"
| "bound_reset_loop (v # vs) c = do { (_, c) \<leftarrow> priv_cred_bound_set c v; bound_reset_loop vs c }"

definition priv_cred_bound_reset :: "cred \<Rightarrow> cred option" where
  "priv_cred_bound_reset c = do {
     (err, m) \<leftarrow> bitmap_block_update (pcap_bndmap c) 0 0 PRIV_MENT PRIV_MLEN;
     if err \<noteq> 0 then None
     else bound_reset_loop default_privs (c\<lparr>pcap_bndmap := m\<rparr>) }"

fun init_loop :: "int list \<Rightarrow> cred \<Rightarrow> cred option" where
  "init_loop [] c = Some c"
| "init_loop (v # vs) c = do {
     (_, c) \<leftarrow> priv_cred_bound_set c v;
     (_, c) \<leftarrow> priv_cred_eff_set c v;
     init_loop vs c }"

definition priv_cred_init :: "cred \<Rightarrow> cred option" where
  "priv_cred_init c = do {
     let c = c\<lparr>sup_gid := fold (\<lambda>i g. g[i := NOGROUP]) [0..<NGROUPS_MAX] (sup_gid c)\<rparr>;
     (_, e) \<leftarrow> bitmap_block_update (pcap_effmap c) 0 0 PRIV_MENT PRIV_MLEN;
     (_, b) \<leftarrow> bitmap_block_update (pcap_bndmap c) 0 0 PRIV_MENT PRIV_MLEN;
     init_loop default_privs (c\<lparr>pcap_effmap := e, pcap_bndmap := b\<rparr>) }"

fun fork_loop :: "nat list \<Rightarrow> cred \<Rightarrow> cred option" where
  "fork_loop [] c = Some c"
| "fork_loop (i # is) c = do {
     b \<leftarrow> priv_cred_bound_get c (int i);
     if b = 0 then do { (_, c) \<leftarrow> priv_cred_eff_clear c (int i); fork_loop is c }
     else fork_loop is c }"

definition priv_cred_init_fork :: "cred \<Rightarrow> cred option" where
  "priv_cred_init_fork c = fork_loop [0..<PRIV_MENT] c"

definition priv_cred_init_exec :: "cred \<Rightarrow> cred option" where
  "priv_cred_init_exec c = do {
     b \<leftarrow> priv_cred_eff_get c PRIV_EXEC_B2E;
     if b \<noteq> 0 then do {
       m \<leftarrow> mem_copy (pcap_effmap c) 0 (pcap_bndmap c) 0 PRIV_MLEN;
       Some (c\<lparr>pcap_effmap := m\<rparr>) }
     else Some c }"

definition priv_check :: "bool \<Rightarrow> cred \<Rightarrow> int \<Rightarrow> int option" where
  "priv_check suser c priv =
     (if suser \<and> (if priv = PRIV_MAXFILES \<or> priv = PRIV_MAXPROC \<or> priv = PRIV_PROC_LIMIT
                  then uid c = 0 else euid c = 0)
      then Some 0
      else if priv = PRIV_KMEM_READ then Some 0
      else do {
        err \<leftarrow> priv_cred_eff_get c priv;
        Some (if err < 0 then err else if err > 0 then 0 else - EPERM) })"

definition priv_check_cred :: "bool \<Rightarrow> cred \<Rightarrow> cred \<Rightarrow> int \<Rightarrow> int option" where
  "priv_check_cred suser fromcred tocred priv = do {
     err \<leftarrow> priv_check suser fromcred priv;
     Some (if err = 0 \<or> err \<noteq> - EPERM then err
           else if priv = PRIV_SIGNAL_OTHER then
             if \<not> ((euid fromcred \<noteq> uid tocred \<and> euid fromcred \<noteq> suid tocred)
                 \<and> (uid fromcred \<noteq> uid tocred \<and> uid fromcred \<noteq> suid tocred))
             then 0 else - EPERM
           else if euid fromcred = euid tocred then 0 else - EPERM) }"

section \<open>System calls\<close>

text \<open>The tail shared by every mode: a nonzero \<open>err\<close> becomes -1 with \<open>errno\<close> set to \<open>-err\<close>.\<close>

definition pcap_return :: "int \<Rightarrow> cred \<Rightarrow> int \<times> int option \<times> cred" where
  "pcap_return err c = (if err \<noteq> 0 then (- 1, Some (- err), c) else (err, None, c))"

text \<open>An operation guarded by \<open>priv_check\<close>: every failure of the check is reported as EPERM.\<close>

definition pcap_guarded :: "bool \<Rightarrow> cred \<Rightarrow> int \<Rightarrow> (int \<times> cred) option \<Rightarrow> (int \<times> cred) option" where
  "pcap_guarded suser c need opn = do {
     err \<leftarrow> priv_check suser c need;
     if err \<noteq> 0 then Some (- EPERM, c) else opn }"

definition sys_priv_pcap :: "bool \<Rightarrow> (int \<times> int) option \<Rightarrow> cred \<Rightarrow> (int \<times> int option \<times> cred) option" where
  "sys_priv_pcap suser args c =
     (case args of
        None \<Rightarrow> Some (pcap_return (- EFAULT) c)
      | Some (mode, priv) \<Rightarrow> do {
          (err, c') \<leftarrow>
            (if mode = 0 then do { e \<leftarrow> priv_cred_eff_get c priv; Some (e, c) }
             else if mode = 1 then pcap_guarded suser c PRIV_SETEFF (priv_cred_eff_set c priv)
             else if mode = 2 then pcap_guarded suser c PRIV_CLRCAP (priv_cred_eff_clear c priv)
             else if mode = 3 then do { e \<leftarrow> priv_cred_bound_get c priv; Some (e, c) }
             else if mode = 4 then pcap_guarded suser c PRIV_SETBND (priv_cred_bound_set c priv)
             else if mode = 5 then pcap_guarded suser c PRIV_CLRCAP
               (do { (_, c') \<leftarrow> priv_cred_bound_clear c priv; Some (0, c') })
             else if mode = 6 then pcap_guarded suser c PRIV_SETBND
               (do { c' \<leftarrow> priv_cred_bound_reset c; Some (0, c') })
             else Some (- EINVAL, c));
          Some (pcap_return err c') })"

text \<open>
  \<open>sys_priv_pcap_getall\<close>: the arguments say which of the two maps the caller wants;
  \<open>eout\<close> and \<open>bout\<close> are the results of the two \<open>copyout\<close> calls. The result also holds what was
  copied out.
\<close>

definition sys_priv_pcap_getall ::
  "(bool \<times> bool) option \<Rightarrow> int \<Rightarrow> int \<Rightarrow> cred \<Rightarrow> int \<times> int option \<times> bitmap option \<times> bitmap option" where
  "sys_priv_pcap_getall args eout bout c =
     (case args of
        None \<Rightarrow> (- 1, Some EFAULT, None, None)
      | Some (effective, bounding) \<Rightarrow>
          (let err = (if effective then eout else 0);
               eff = (if effective \<and> eout = 0 then Some (pcap_effmap c) else None);
               want_b = (err = 0 \<and> bounding);
               bnd = (if want_b \<and> bout = 0 then Some (pcap_bndmap c) else None);
               err = (if want_b then bout else err)
           in if err \<noteq> 0 then (- 1, Some (- err), eff, bnd) else (0, None, eff, bnd)))"

lemmas priv_eval = priv_cred_eff_get_def priv_cred_eff_set_def priv_cred_eff_clear_def
  priv_cred_bound_get_def priv_cred_bound_set_def priv_cred_bound_clear_def priv_check_def
  priv_check_cred_def pcap_return_def pcap_guarded_def sys_priv_pcap_def cap_pos_def
  bitmap_status_def bitmap_set_def bitmap_clear_def szt_def

section \<open>Capability sets\<close>

definition cred_wf :: "cred \<Rightarrow> bool" where
  "cred_wf c \<longleftrightarrow> length (sup_gid c) = NGROUPS_MAX \<and>
     length (pcap_effmap c) = PRIV_MLEN \<and> length (pcap_bndmap c) = PRIV_MLEN"

definition effs :: "cred \<Rightarrow> nat set" where
  "effs c = {p. used (pcap_effmap c) p}"

definition bnds :: "cred \<Rightarrow> nat set" where
  "bnds c = {p. used (pcap_bndmap c) p}"

definition ids :: "cred \<Rightarrow> nat list" where
  "ids c = [uid c, euid c, suid c, gid c, egid c, sgid c]"

definition caps :: "nat set" where
  "caps = {..<PRIV_MENT}"

lemma szt_8_32 [simp]: "szt 256 = 256"
  by (simp add: szt_def)

lemma used_lt: "length m = 8 \<Longrightarrow> used m p \<Longrightarrow> p < 256"
  by (simp add: used_def)

lemma priv_cred_eff_get_eq:
  "cred_wf c \<Longrightarrow> priv_cred_eff_get c p =
     Some (if cap_pos p \<ge> 256 then - EINVAL else if cap_pos p \<in> effs c then 1 else 0)"
  by (simp add: priv_cred_eff_get_def bitmap_status_used bitmap_status_einval cred_wf_def effs_def)

lemma priv_cred_bound_get_eq:
  "cred_wf c \<Longrightarrow> priv_cred_bound_get c p =
     Some (if cap_pos p \<ge> 256 then - EINVAL else if cap_pos p \<in> bnds c then 1 else 0)"
  by (simp add: priv_cred_bound_get_def bitmap_status_used bitmap_status_einval cred_wf_def bnds_def)

text \<open>
  The effect of an operation: the credentials stay well formed, the ids and groups stay, and the
  two sets become \<open>E\<close> and \<open>B\<close>.
\<close>

definition caps_to :: "cred \<Rightarrow> cred \<Rightarrow> nat set \<Rightarrow> nat set \<Rightarrow> bool" where
  "caps_to c c' E B \<longleftrightarrow> cred_wf c' \<and> ids c' = ids c \<and> sup_gid c' = sup_gid c \<and> effs c' = E \<and> bnds c' = B"

lemma bitmap_set_einval: "szt (sz * 32) \<le> pos \<Longrightarrow> bitmap_set bm pos sz = Some (- EINVAL, bm)"
  by (simp add: bitmap_set_def)

lemma bitmap_clear_einval: "szt (sz * 32) \<le> pos \<Longrightarrow> bitmap_clear bm pos sz = Some (- EINVAL, bm)"
  by (simp add: bitmap_clear_def)

lemma bound_set_ex:
  assumes "cred_wf c"
  shows "\<exists>c'. priv_cred_bound_set c p = Some (if cap_pos p < 256 then 0 else - EINVAL, c') \<and>
    caps_to c c' (effs c) (bnds c \<union> ({cap_pos p} \<inter> caps))"
proof (cases "cap_pos p < 256")
  case True
  with assms obtain m where "bitmap_set (pcap_bndmap c) (cap_pos p) 8 = Some (0, m)" "length m = 8"
    "\<forall>q. used m q \<longleftrightarrow> q = cap_pos p \<or> used (pcap_bndmap c) q"
    using bitmap_set_used [of "cap_pos p" 8 "pcap_bndmap c"] by (auto simp: cred_wf_def)
  with assms True show ?thesis
    by (auto simp: priv_cred_bound_set_def caps_to_def cred_wf_def ids_def effs_def bnds_def caps_def)
next
  case False
  with assms show ?thesis
    by (auto simp: priv_cred_bound_set_def caps_to_def bitmap_set_einval caps_def)
qed

lemma bound_clear_ex:
  assumes "cred_wf c"
  shows "\<exists>c'. priv_cred_bound_clear c p = Some (if cap_pos p < 256 then 0 else - EINVAL, c') \<and>
    caps_to c c' (effs c) (bnds c - {cap_pos p})"
proof (cases "cap_pos p < 256")
  case True
  with assms obtain m where "bitmap_clear (pcap_bndmap c) (cap_pos p) 8 = Some (0, m)" "length m = 8"
    "\<forall>q. used m q \<longleftrightarrow> q \<noteq> cap_pos p \<and> used (pcap_bndmap c) q"
    using bitmap_clear_used [of "cap_pos p" 8 "pcap_bndmap c"] by (auto simp: cred_wf_def)
  with assms True show ?thesis
    by (auto simp: priv_cred_bound_clear_def caps_to_def cred_wf_def ids_def effs_def bnds_def)
next
  case False
  with assms show ?thesis
    by (auto simp: priv_cred_bound_clear_def caps_to_def bitmap_clear_einval bnds_def cred_wf_def
        dest: used_lt)
qed

lemma eff_clear_ex:
  assumes "cred_wf c"
  shows "\<exists>c'. priv_cred_eff_clear c p = Some (if cap_pos p < 256 then 0 else - EINVAL, c') \<and>
    caps_to c c' (effs c - {cap_pos p}) (bnds c)"
proof (cases "cap_pos p < 256")
  case True
  with assms obtain m where "bitmap_clear (pcap_effmap c) (cap_pos p) 8 = Some (0, m)" "length m = 8"
    "\<forall>q. used m q \<longleftrightarrow> q \<noteq> cap_pos p \<and> used (pcap_effmap c) q"
    using bitmap_clear_used [of "cap_pos p" 8 "pcap_effmap c"] by (auto simp: cred_wf_def)
  with assms True show ?thesis
    by (auto simp: priv_cred_eff_clear_def caps_to_def cred_wf_def ids_def effs_def bnds_def)
next
  case False
  with assms show ?thesis
    by (auto simp: priv_cred_eff_clear_def caps_to_def bitmap_clear_einval effs_def cred_wf_def
        dest: used_lt)
qed

text \<open>Setting an effective capability succeeds only inside the bounding set.\<close>

lemma eff_set_ex:
  assumes "cred_wf c"
  shows "\<exists>c'. priv_cred_eff_set c p =
      Some (if cap_pos p \<ge> 256 then - EINVAL else if cap_pos p \<in> bnds c then 0 else - EPERM, c') \<and>
    caps_to c c' (effs c \<union> ({cap_pos p} \<inter> bnds c)) (bnds c)"
proof (cases "cap_pos p < 256 \<and> cap_pos p \<in> bnds c")
  case True
  with assms obtain m where "bitmap_set (pcap_effmap c) (cap_pos p) 8 = Some (0, m)" "length m = 8"
    "\<forall>q. used m q \<longleftrightarrow> q = cap_pos p \<or> used (pcap_effmap c) q"
    using bitmap_set_used [of "cap_pos p" 8 "pcap_effmap c"] by (auto simp: cred_wf_def)
  with assms True show ?thesis
    by (auto simp: priv_cred_eff_set_def caps_to_def cred_wf_def ids_def effs_def bnds_def
        bitmap_status_used)
next
  case False
  with assms have "cap_pos p \<notin> bnds c" by (auto simp: bnds_def cred_wf_def dest: used_lt)
  with assms show ?thesis
    by (cases "cap_pos p < 256")
       (auto simp: priv_cred_eff_set_def caps_to_def cred_wf_def bitmap_status_used
        bitmap_status_einval bnds_def)
qed

lemma caps_to_trans:
  "caps_to a b E B \<Longrightarrow> caps_to b c E' B' \<Longrightarrow> caps_to a c E' B'"
  by (simp add: caps_to_def)

lemma caps_to_wf: "caps_to a b E B \<Longrightarrow> cred_wf b \<and> effs b = E \<and> bnds b = B"
  by (simp add: caps_to_def)

lemma caps_to_refl: "cred_wf c \<Longrightarrow> caps_to c c (effs c) (bnds c)"
  by (simp add: caps_to_def)

section \<open>Fork, exec and reset\<close>

lemma cap_pos_nat: "i < 256 \<Longrightarrow> cap_pos (int i) = i"
  by (simp add: cap_pos_def)

lemma fork_loop_ex:
  assumes "cred_wf c" and "\<forall>i \<in> set is. i < 256"
  shows "\<exists>c'. fork_loop is c = Some c' \<and> caps_to c c' (effs c - (set is - bnds c)) (bnds c)"
  using assms
proof (induction "is" arbitrary: c)
  case Nil
  then show ?case by (simp add: caps_to_refl)
next
  case (Cons i "is")
  show ?case
  proof (cases "i \<in> bnds c")
    case True
    with Cons.IH [OF Cons.prems(1)] Cons.prems show ?thesis
      by (auto simp: priv_cred_bound_get_eq cap_pos_nat insert_Diff_if)
  next
    case False
    from Cons.prems obtain c1 where c1: "priv_cred_eff_clear c (int i) = Some (0, c1)"
      "caps_to c c1 (effs c - {i}) (bnds c)"
      using eff_clear_ex [of c "int i"] by (auto simp: cap_pos_nat)
    from Cons.IH [of c1] Cons.prems(2) caps_to_wf [OF c1(2)] obtain c2 where
      "fork_loop is c1 = Some c2" "caps_to c1 c2 (effs c - {i} - (set is - bnds c)) (bnds c)" by auto
    moreover have "effs c - {i} - (set is - bnds c) = effs c - (set (i # is) - bnds c)"
      using False by auto
    ultimately show ?thesis using False Cons.prems c1 caps_to_trans [OF c1(2)]
      by (auto simp: priv_cred_bound_get_eq cap_pos_nat)
  qed
qed

lemma effs_caps: "cred_wf c \<Longrightarrow> effs c \<subseteq> caps"
  by (auto simp: effs_def caps_def cred_wf_def dest: used_lt)

lemma fork_ex:
  assumes "cred_wf c"
  shows "\<exists>c'. priv_cred_init_fork c = Some c' \<and> caps_to c c' (effs c \<inter> bnds c) (bnds c)"
proof -
  have "effs c - (set [0..<256] - bnds c) = effs c \<inter> bnds c"
    using effs_caps [OF assms] by (auto simp: caps_def)
  with fork_loop_ex [OF assms, of "[0..<256]"] show ?thesis
    by (simp add: priv_cred_init_fork_def)
qed

lemma exec_ex:
  assumes "cred_wf c"
  shows "\<exists>c'. priv_cred_init_exec c = Some c' \<and>
    caps_to c c' (if 4 \<in> effs c then bnds c else effs c) (bnds c)"
  using assms
  by (auto simp: priv_cred_init_exec_def priv_cred_eff_get_eq cap_pos_def caps_to_def cred_wf_def
      ids_def effs_def bnds_def)

text \<open>\<open>bitmap_block_update\<close> over the whole map clears the first word only.\<close>

lemma clear_all_ex:
  assumes "length m = 8"
  shows "\<exists>m'. bitmap_block_update m 0 0 256 8 = Some (0, m') \<and> length m' = 8 \<and>
    (\<forall>p. used m' p \<longleftrightarrow> 32 \<le> p \<and> used m p)"
  using bitmap_block_update_used [of 256 0 m 8 0] assms by (auto simp: upd_end_def)

lemma bound_reset_loop_ex:
  assumes "cred_wf c"
  shows "\<exists>c'. bound_reset_loop vs c = Some c' \<and>
    caps_to c c' (effs c) (bnds c \<union> (cap_pos ` set vs \<inter> caps))"
  using assms
proof (induction vs arbitrary: c)
  case Nil
  then show ?case by (simp add: caps_to_refl)
next
  case (Cons v vs)
  obtain c1 where c1: "priv_cred_bound_set c v = Some (if cap_pos v < 256 then 0 else - EINVAL, c1)"
    "caps_to c c1 (effs c) (bnds c \<union> ({cap_pos v} \<inter> caps))"
    using bound_set_ex [OF Cons.prems] by blast
  from Cons.IH [of c1] caps_to_wf [OF c1(2)] obtain c2 where c2: "bound_reset_loop vs c1 = Some c2"
    "caps_to c1 c2 (effs c) (bnds c \<union> ({cap_pos v} \<inter> caps) \<union> (cap_pos ` set vs \<inter> caps))" by auto
  have "bnds c \<union> ({cap_pos v} \<inter> caps) \<union> (cap_pos ` set vs \<inter> caps)
      = bnds c \<union> (cap_pos ` set (v # vs) \<inter> caps)" by auto
  with c1 c2 caps_to_trans [OF c1(2) c2(2)] show ?case by simp
qed

definition default_caps :: "nat set" where
  "default_caps = {1, 106, 111, 112, 114, 115, 117, 124, 60, 81}"

lemma default_caps_eq: "cap_pos ` set default_privs \<inter> caps = default_caps"
  by (simp add: default_privs_def default_caps_def cap_pos_def caps_def)

lemma bound_reset_ex:
  assumes "cred_wf c"
  shows "\<exists>c'. priv_cred_bound_reset c = Some c' \<and>
    caps_to c c' (effs c) ({p \<in> bnds c. 32 \<le> p} \<union> default_caps)"
proof -
  from clear_all_ex [of "pcap_bndmap c"] assms obtain m where
    m: "bitmap_block_update (pcap_bndmap c) 0 0 256 8 = Some (0, m)" "length m = 8"
      "\<forall>p. used m p \<longleftrightarrow> 32 \<le> p \<and> used (pcap_bndmap c) p" by (auto simp: cred_wf_def)
  let ?c = "c\<lparr>pcap_bndmap := m\<rparr>"
  have wf: "cred_wf ?c" using assms m by (simp add: cred_wf_def)
  have e: "effs ?c = effs c" "ids ?c = ids c" "sup_gid ?c = sup_gid c"
    by (simp_all add: effs_def ids_def)
  have "bnds ?c = {p \<in> bnds c. 32 \<le> p}" using m by (auto simp: bnds_def)
  with bound_reset_loop_ex [OF wf, of default_privs] m e show ?thesis
    by (auto simp: priv_cred_bound_reset_def default_caps_eq caps_to_def)
qed

section \<open>Privilege checks\<close>

definition superuser_for :: "bool \<Rightarrow> cred \<Rightarrow> int \<Rightarrow> bool" where
  "superuser_for suser c p \<longleftrightarrow> suser \<and> (if p \<in> {PRIV_MAXFILES, PRIV_MAXPROC, PRIV_PROC_LIMIT} then uid c = 0 else euid c = 0)"

lemma priv_check_eq:
  "cred_wf c \<Longrightarrow> priv_check suser c p =
     Some (if superuser_for suser c p \<or> p = PRIV_KMEM_READ \<or> cap_pos p \<in> effs c then 0
           else if cap_pos p \<ge> 256 then - EINVAL else - EPERM)"
  using effs_caps [of c]
  by (auto simp: priv_check_def priv_cred_eff_get_eq superuser_for_def caps_def)

lemma pcap_guarded_eq:
  "cred_wf c \<Longrightarrow> pcap_guarded suser c p opn =
     (if superuser_for suser c p \<or> p = PRIV_KMEM_READ \<or> cap_pos p \<in> effs c then opn
      else Some (- EPERM, c))"
  by (simp add: pcap_guarded_def priv_check_eq)

text \<open>
  A call of \<open>sys_priv_pcap\<close> never fails inside the kernel, and the sets move only as its guard
  allows: effective capabilities are added only inside the bounding set and by a holder of
  SETEFF, bounding ones only by a holder of SETBND.
\<close>

lemma pcap_step_ex:
  assumes "cred_wf c"
  shows "\<exists>r e c' E B. sys_priv_pcap suser args c = Some (r, e, c') \<and> caps_to c c' E B \<and>
    (\<not> superuser_for suser c PRIV_SETEFF \<and> 2 \<notin> effs c \<longrightarrow> E \<subseteq> effs c) \<and>
    E \<subseteq> effs c \<union> bnds c \<and>
    (\<not> superuser_for suser c PRIV_SETBND \<and> 3 \<notin> effs c \<longrightarrow> B \<subseteq> bnds c)"
proof (cases args)
  case None
  then show ?thesis using assms by (auto simp: sys_priv_pcap_def pcap_return_def intro: caps_to_refl)
next
  case (Some a)
  obtain mode p where a: "a = (mode, p)" by force
  have pos: "cap_pos 1 = 1" "cap_pos 2 = 2" "cap_pos 3 = 3" by (simp_all add: cap_pos_def)
  note sys = sys_priv_pcap_def Some a pcap_return_def pcap_guarded_eq [OF assms] pos
    priv_cred_eff_get_eq [OF assms] priv_cred_bound_get_eq [OF assms]
  note self = caps_to_refl [OF assms]
  obtain c1 c2 c3 c4 c5 where ops:
      "\<exists>e. priv_cred_eff_set c p = Some (e, c1)" "caps_to c c1 (effs c \<union> ({cap_pos p} \<inter> bnds c)) (bnds c)"
      "\<exists>e. priv_cred_eff_clear c p = Some (e, c2)" "caps_to c c2 (effs c - {cap_pos p}) (bnds c)"
      "\<exists>e. priv_cred_bound_set c p = Some (e, c3)" "caps_to c c3 (effs c) (bnds c \<union> ({cap_pos p} \<inter> caps))"
      "\<exists>e. priv_cred_bound_clear c p = Some (e, c4)" "caps_to c c4 (effs c) (bnds c - {cap_pos p})"
      "priv_cred_bound_reset c = Some c5" "caps_to c c5 (effs c) ({p \<in> bnds c. 32 \<le> p} \<union> default_caps)"
    using eff_set_ex [OF assms] eff_clear_ex [OF assms] bound_set_ex [OF assms]
      bound_clear_ex [OF assms] bound_reset_ex [OF assms] by meson
  consider "mode = 1" | "mode = 2" | "mode = 4" | "mode = 5" | "mode = 6" | "mode \<notin> {1, 2, 4, 5, 6}"
    by blast
  then show ?thesis
  proof cases
    case 1
    then show ?thesis using self ops(1,2) by (auto simp: sys split: if_splits; fastforce)
  next
    case 2
    then show ?thesis using self ops(3,4) by (auto simp: sys split: if_splits; fastforce)
  next
    case 3
    then show ?thesis using self ops(5,6) by (auto simp: sys split: if_splits; fastforce)
  next
    case 4
    then show ?thesis using self ops(7,8) by (auto simp: sys split: if_splits; fastforce)
  next
    case 5
    then show ?thesis using self ops(9,10) by (auto simp: sys split: if_splits; fastforce)
  next
    case 6
    then show ?thesis using self by (auto simp: sys)
  qed
qed

text \<open>Histories: capability system calls of a process and forks, following the child.\<close>

datatype cred_op = Pcap "(int \<times> int) option" | Fork

fun cred_step :: "bool \<Rightarrow> cred_op \<Rightarrow> cred \<Rightarrow> cred option" where
  "cred_step suser (Pcap args) c = do { (_, _, c') \<leftarrow> sys_priv_pcap suser args c; Some c' }"
| "cred_step suser Fork c = priv_cred_init_fork c"

fun cred_run :: "bool \<Rightarrow> cred_op list \<Rightarrow> cred \<Rightarrow> cred option" where
  "cred_run suser [] c = Some c"
| "cred_run suser (x # xs) c = do { c' \<leftarrow> cred_step suser x c; cred_run suser xs c' }"

lemma superuser_ids: "ids c' = ids c \<Longrightarrow> superuser_for suser c' p = superuser_for suser c p"
  by (simp add: superuser_for_def ids_def)

lemma cred_step_ex:
  assumes "cred_wf c"
  shows "\<exists>c'. cred_step suser x c = Some c' \<and> cred_wf c' \<and> ids c' = ids c \<and>
    (\<not> superuser_for suser c PRIV_SETEFF \<and> 2 \<notin> effs c \<longrightarrow> effs c' \<subseteq> effs c) \<and>
    (\<not> superuser_for suser c PRIV_SETBND \<and> 3 \<notin> effs c \<longrightarrow> bnds c' \<subseteq> bnds c)"
proof (cases x)
  case (Pcap args)
  obtain r e c' where "sys_priv_pcap suser args c = Some (r, e, c')" "cred_wf c'" "ids c' = ids c"
      "\<not> superuser_for suser c PRIV_SETEFF \<and> 2 \<notin> effs c \<longrightarrow> effs c' \<subseteq> effs c"
      "\<not> superuser_for suser c PRIV_SETBND \<and> 3 \<notin> effs c \<longrightarrow> bnds c' \<subseteq> bnds c"
    using pcap_step_ex [OF assms, of suser args] unfolding caps_to_def by blast
  with Pcap show ?thesis by simp
next
  case Fork
  with fork_ex [OF assms] show ?thesis by (auto simp: caps_to_def)
qed

section \<open>Properties\<close>

text \<open>
  C27: The privilege decision. priv_check never leaves the capability map and grants exactly
  when the superuser policy is enabled and the relevant id is 0 (the real one for MAXFILES,
  MAXPROC and PROC_LIMIT, the effective one otherwise), or the privilege is KMEM_READ, or it is
  in the effective set; otherwise it answers EPERM, and EINVAL for a number outside the map.
\<close>

theorem priv_check_decides:
  assumes "cred_wf c"
  shows "priv_check suser c p =
    Some (if suser \<and> (if p \<in> {PRIV_MAXFILES, PRIV_MAXPROC, PRIV_PROC_LIMIT} then uid c = 0 else euid c = 0)
             \<or> p = PRIV_KMEM_READ \<or> cap_pos p \<in> effs c then 0
          else if cap_pos p \<ge> 256 then - EINVAL else - EPERM)"
  using priv_check_eq [OF assms] by (simp add: superuser_for_def)

definition user_cred :: cred where
  "user_cred = \<lparr>uid = 1000, euid = 1000, suid = 1000, gid = 100, egid = 100, sgid = 100,
     sup_gid = replicate 16 65535, pcap_effmap = [2, 0, 0, 0, 0, 0, 0, 0],
     pcap_bndmap = [6, 0, 0, 0, 0, 0, 0, 0]\<rparr>"

lemma user_cred_wf: "cred_wf user_cred"
  by (simp add: user_cred_def cred_wf_def)

lemma user_cred_effs: "n < 32 \<Longrightarrow> n \<in> effs user_cred \<longleftrightarrow> bit (2 :: u32) n"
  by (simp add: effs_def used_def user_cred_def)

theorem priv_check_decides_witness:
  "priv_check True user_cred 1 = Some 0 \<and> priv_check True user_cred 2 = Some (- EPERM)
   \<and> priv_check True user_cred 300 = Some (- EINVAL)"
  using priv_check_decides [OF user_cred_wf, of True 1] priv_check_decides [OF user_cred_wf, of True 2]
    priv_check_decides [OF user_cred_wf, of True 300] user_cred_effs [of 1] user_cred_effs [of 2]
    effs_caps [OF user_cred_wf]
  by (auto simp: cap_pos_def bit_numeral_rec user_cred_def caps_def)

text \<open>
  C28: No capability escalation. A process that is not the superuser and does not hold
  PRIV_SETEFF never gains an effective capability, over any history of capability system calls
  and forks with any arguments; without PRIV_SETBND its bounding set does not grow either. No
  call leaves the maps, and the ids are untouched.
\<close>

theorem priv_no_escalation:
  assumes "cred_wf c" and "\<not> (suser \<and> euid c = 0)" and "2 \<notin> effs c"
  shows "\<exists>c'. cred_run suser ops c = Some c' \<and> effs c' \<subseteq> effs c \<and> ids c' = ids c \<and>
    (3 \<notin> effs c \<longrightarrow> bnds c' \<subseteq> bnds c)"
  using assms
proof (induction ops arbitrary: c)
  case (Cons x xs)
  have su: "\<not> superuser_for suser c 2" "\<not> superuser_for suser c 3"
    using Cons.prems(2) by (simp_all add: superuser_for_def)
  obtain c1 where c1: "cred_step suser x c = Some c1" "cred_wf c1" "ids c1 = ids c" "effs c1 \<subseteq> effs c"
      "3 \<notin> effs c \<longrightarrow> bnds c1 \<subseteq> bnds c"
    using cred_step_ex [OF Cons.prems(1), of suser x] su Cons.prems(3) by blast
  from c1(3,4) Cons.prems have "\<not> (suser \<and> euid c1 = 0)" "2 \<notin> effs c1" by (auto simp: ids_def)
  from Cons.IH [OF c1(2) this] obtain c2 where c2: "cred_run suser xs c1 = Some c2" "effs c2 \<subseteq> effs c1"
      "ids c2 = ids c1" "3 \<notin> effs c1 \<longrightarrow> bnds c2 \<subseteq> bnds c1" by blast
  have "cred_run suser (x # xs) c = Some c2" using c1(1) c2(1) by simp
  moreover have "effs c2 \<subseteq> effs c" "ids c2 = ids c" "3 \<notin> effs c \<longrightarrow> bnds c2 \<subseteq> bnds c"
    using c1 c2 by auto
  ultimately show ?case by blast
qed simp

theorem priv_no_escalation_witness:
  "\<exists>c'. cred_run True [Pcap (Some (1, 2)), Fork, Pcap (Some (4, 3)), Pcap (Some (2, 1))] user_cred = Some c'
     \<and> effs c' \<subseteq> effs user_cred \<and> bnds c' \<subseteq> bnds user_cred"
  using priv_no_escalation [OF user_cred_wf, of True
      "[Pcap (Some (1, 2)), Fork, Pcap (Some (4, 3)), Pcap (Some (2, 1))]"]
    user_cred_effs [of 2] user_cred_effs [of 3]
  by (auto simp: bit_numeral_rec user_cred_def)

text \<open>
  Inheritance. After fork the effective set of the child is the parent's effective set
  cut down to the bounding set; after exec it is that same set, or the whole bounding set when
  the process holds PRIV_EXEC_B2E; so a forked and executed program never runs with a capability
  outside its bounding set, and ids and bounding set are inherited unchanged.
\<close>

theorem priv_inherit:
  assumes "cred_wf c"
  shows "\<exists>f x. priv_cred_init_fork c = Some f \<and> priv_cred_init_exec f = Some x \<and>
    effs f = effs c \<inter> bnds c \<and> bnds f = bnds c \<and> bnds x = bnds c \<and> ids x = ids c \<and>
    effs x = (if 4 \<in> effs c \<inter> bnds c then bnds c else effs c \<inter> bnds c)"
proof -
  obtain f where f: "priv_cred_init_fork c = Some f" "caps_to c f (effs c \<inter> bnds c) (bnds c)"
    using fork_ex [OF assms] by blast
  with exec_ex [of f] show ?thesis by (auto simp: caps_to_def)
qed

theorem priv_inherit_witness:
  "\<exists>f x. priv_cred_init_fork user_cred = Some f \<and> priv_cred_init_exec f = Some x \<and>
    effs x = (if 4 \<in> effs user_cred \<inter> bnds user_cred then bnds user_cred else effs user_cred \<inter> bnds user_cred)"
  using priv_inherit [OF user_cred_wf] by blast

text \<open>
  Queries of a set capability fail. For a capability that is in the effective set,
  sys_priv_pcap in mode GET_EFF returns -1 with errno -1, the value its comment reserves for
  failures, because the positive status takes the error path; a cleared capability returns 0.
\<close>

theorem pcap_get_set_capability_fails:
  assumes "cred_wf c" and "0 \<le> p" and "p < 256"
  shows "sys_priv_pcap suser (Some (0, p)) c =
    Some (if nat p \<in> effs c then (- 1, Some (- 1), c) else (0, None, c))"
  using assms by (simp add: sys_priv_pcap_def priv_cred_eff_get_eq pcap_return_def cap_pos_def)

theorem pcap_get_set_capability_fails_witness:
  "sys_priv_pcap True (Some (0, 1)) user_cred = Some (- 1, Some (- 1), user_cred)"
  using pcap_get_set_capability_fails [OF user_cred_wf, of 1 True] user_cred_effs [of 1]
  by (simp add: bit_numeral_rec)

text \<open>
  Resetting the bounding set is partial. priv_cred_bound_reset, which is meant to clear
  all bounding capabilities and then set the defaults, leaves every capability numbered 32 or
  more as it was, because the block update stops after the first word.
\<close>

theorem bound_reset_partial:
  assumes "cred_wf c"
  shows "\<exists>c'. priv_cred_bound_reset c = Some c' \<and> effs c' = effs c \<and>
    bnds c' = {p \<in> bnds c. 32 \<le> p} \<union> {1, 106, 111, 112, 114, 115, 117, 124, 60, 81}"
  using bound_reset_ex [OF assms] by (auto simp: caps_to_def default_caps_def)

theorem bound_reset_partial_witness:
  "\<exists>c'. priv_cred_bound_reset (user_cred\<lparr>pcap_bndmap := [0, 2, 0, 0, 0, 0, 0, 0]\<rparr>) = Some c' \<and> 33 \<in> bnds c'"
proof -
  let ?c = "user_cred\<lparr>pcap_bndmap := [0, 2, 0, 0, 0, 0, 0, 0]\<rparr>"
  have "cred_wf ?c" by (simp add: user_cred_def cred_wf_def)
  moreover have "33 \<in> bnds ?c" by (simp add: bnds_def used_def bit_numeral_rec)
  ultimately show ?thesis using bound_reset_partial [of ?c] by auto
qed

end
