(* ===== verification/Kobj.thy ===== *)
theory Kobj
  imports Zeke_Prelude
begin

text \<open>
  Reference counted kernel objects (\<^verbatim>\<open>kern/kobj.c\<close>). Between \<open>kobj_fast_lock\<close> and
  \<open>kobj_fast_unlock\<close> a call owns the object, so a call is one step of an interleaving, except
  that \<open>kobj_destroy\<close> sets the dying flag in a step of its own. A call that would spin on
  \<open>ko_fast_lock\<close> is \<open>None\<close>. The free callback is code of the object's owner: a call of
  \<open>kobj_unref\<close> reports whether it called it.
\<close>

section \<open>The code\<close>

abbreviation (input) KO_FLAG_DYING :: u32 where "KO_FLAG_DYING \<equiv> 1"

record kobj =
  ko_flags :: u32
  ko_fast_lock :: int
  ko_refcount :: int

definition kobj_init :: kobj where
  "kobj_init = \<lparr>ko_flags = 0, ko_fast_lock = 0, ko_refcount = 1\<rparr>"

definition kobj_fast_lock :: "kobj \<Rightarrow> (int \<times> kobj) option" where
  "kobj_fast_lock p =
     (if ko_refcount p \<le> 0 then Some (- EIDRM, p)
      else if ko_fast_lock p = 1 then None
      else Some (0, p\<lparr>ko_fast_lock := 1\<rparr>))"

definition kobj_fast_unlock :: "kobj \<Rightarrow> kobj" where
  "kobj_fast_unlock p = p\<lparr>ko_fast_lock := 0\<rparr>"

definition kobj_refcnt :: "kobj \<Rightarrow> int" where
  "kobj_refcnt p = ko_refcount p"

definition kobj_ref :: "kobj \<Rightarrow> (int \<times> kobj) option" where
  "kobj_ref p = do {
     (err, p) \<leftarrow> kobj_fast_lock p;
     if err \<noteq> 0 then Some (- EIDRM, p)
     else if ko_flags p AND KO_FLAG_DYING \<noteq> 0 then Some (- EIDRM, kobj_fast_unlock p)
     else
       let prev = ko_refcount p; p = p\<lparr>ko_refcount := s32 (prev + 1)\<rparr>
       in if prev \<le> 0 then Some (- EIDRM, kobj_fast_unlock (p\<lparr>ko_refcount := - 1\<rparr>))
          else Some (0, kobj_fast_unlock p) }"

definition kobj_unref :: "kobj \<Rightarrow> (bool \<times> kobj) option" where
  "kobj_unref p = do {
     (err, p) \<leftarrow> kobj_fast_lock p;
     if err \<noteq> 0 then Some (False, p)
     else
       let prev = ko_refcount p; p = p\<lparr>ko_refcount := s32 (prev - 1)\<rparr>
       in if prev = 1
          then Some (True, p\<lparr>ko_flags := ko_flags p OR KO_FLAG_DYING, ko_refcount := - 1\<rparr>)
          else Some (False, kobj_fast_unlock p) }"

fun kobj_ref_v :: "nat \<Rightarrow> kobj \<Rightarrow> (int \<times> kobj) option" where
  "kobj_ref_v 0 p = Some (0, p)"
| "kobj_ref_v (Suc n) p = do {
     (err, p) \<leftarrow> kobj_ref p;
     if err \<noteq> 0 then Some (err, p) else kobj_ref_v n p }"

text \<open>\<open>kobj_unref_p\<close> returns how often the callback was called.\<close>

fun kobj_unref_p :: "nat \<Rightarrow> kobj \<Rightarrow> (nat \<times> kobj) option" where
  "kobj_unref_p 0 p = Some (0, p)"
| "kobj_unref_p (Suc n) p = do {
     (b, p) \<leftarrow> kobj_unref p;
     (k, p) \<leftarrow> kobj_unref_p n p;
     Some ((if b then 1 else 0) + k, p) }"

definition kobj_set_dying :: "kobj \<Rightarrow> kobj" where
  "kobj_set_dying p = p\<lparr>ko_flags := ko_flags p OR KO_FLAG_DYING\<rparr>"

definition kobj_destroy :: "kobj \<Rightarrow> (bool \<times> kobj) option" where
  "kobj_destroy p = kobj_unref (kobj_set_dying p)"

lemmas kobj_eval = kobj_init_def kobj_fast_lock_def kobj_fast_unlock_def kobj_refcnt_def kobj_ref_def
  kobj_unref_def kobj_set_dying_def kobj_destroy_def

section \<open>Live objects\<close>

text \<open>An object is live with \<open>n\<close> references, or it was released and its lock bit stays set.\<close>

definition live :: "kobj \<Rightarrow> nat \<Rightarrow> bool" where
  "live p n \<longleftrightarrow> 0 < n \<and> int n < 2 ^ 31 \<and> ko_refcount p = int n \<and> ko_fast_lock p = 0"

definition released :: "kobj \<Rightarrow> bool" where
  "released p \<longleftrightarrow> ko_refcount p = - 1"

definition dying :: "kobj \<Rightarrow> bool" where
  "dying p \<longleftrightarrow> bit (ko_flags p) 0"

lemma dying_iff: "ko_flags p AND KO_FLAG_DYING \<noteq> 0 \<longleftrightarrow> dying p"
  using and_bit_eq_0 [of "ko_flags p" 0] by (simp add: dying_def)

lemma live_init [simp]: "live kobj_init 1" "\<not> dying kobj_init"
  by (simp_all add: live_def kobj_init_def dying_def)

lemma kobj_ref_live:
  assumes "live p n" and "int n + 1 < 2 ^ 31"
  shows "kobj_ref p = Some (if dying p then (- EIDRM, p) else (0, p\<lparr>ko_refcount := int n + 1\<rparr>))"
  using assms by (auto simp: live_def kobj_ref_def kobj_fast_lock_def kobj_fast_unlock_def Let_def
      dying_iff [symmetric])

lemma kobj_ref_dying: "live p n \<Longrightarrow> dying p \<Longrightarrow> kobj_ref p = Some (- EIDRM, p)"
  by (auto simp: live_def kobj_ref_def kobj_fast_lock_def kobj_fast_unlock_def dying_iff [symmetric])

lemma kobj_unref_live:
  assumes "live p n" and "1 < n"
  shows "kobj_unref p = Some (False, p\<lparr>ko_refcount := int n - 1\<rparr>)"
  using assms by (auto simp: live_def kobj_unref_def kobj_fast_lock_def kobj_fast_unlock_def Let_def)

lemma kobj_unref_last:
  assumes "live p 1"
  obtains q where "kobj_unref p = Some (True, q)" "released q" "dying q"
  using assms by (simp add: live_def released_def dying_def kobj_unref_def kobj_fast_lock_def Let_def
      bit_or_iff)

lemma kobj_released:
  assumes "released p"
  shows "kobj_ref p = Some (- EIDRM, p)" "kobj_unref p = Some (False, p)"
    "released (kobj_set_dying p)"
  using assms by (simp_all add: released_def kobj_ref_def kobj_unref_def kobj_fast_lock_def kobj_set_dying_def)

lemma live_set_dying [simp]: "live (kobj_set_dying p) n \<longleftrightarrow> live p n"
  by (simp add: live_def kobj_set_dying_def)

section \<open>The code provides reference counting\<close>

interpretation ko: refcounted live released "2 ^ 31" kobj_ref kobj_unref
proof
  show "\<exists>r q. kobj_ref p = Some (r, q) \<and> (if r = 0 then live q (Suc n) else live q n)"
    if "live p n" "Suc n < 2 ^ 31" for p n
    using that kobj_ref_live [of p n] by (auto simp: live_def)
  show "\<exists>q. kobj_unref p = Some (False, q) \<and> live q (n - 1)" if "live p n" "1 < n" for p n
    using that kobj_unref_live [of p n] by (auto simp: live_def)
  show "\<exists>q. kobj_unref p = Some (True, q) \<and> released q" if "live p 1" for p
    using that by (elim kobj_unref_last) auto
qed (auto simp: kobj_released live_def)

section \<open>Histories\<close>

datatype kobj_op = Ref | Unref | SetDying

text \<open>A run collects the results of the \<open>kobj_ref\<close> calls and counts the callback's calls.\<close>

fun kobj_run :: "kobj_op list \<Rightarrow> kobj \<Rightarrow> (int list \<times> nat \<times> kobj) option" where
  "kobj_run [] p = Some ([], 0, p)"
| "kobj_run (Ref # xs) p = do {
     (r, p) \<leftarrow> kobj_ref p; (rs, k, p) \<leftarrow> kobj_run xs p; Some (r # rs, k, p) }"
| "kobj_run (Unref # xs) p = do {
     (b, p) \<leftarrow> kobj_unref p; (rs, k, p) \<leftarrow> kobj_run xs p; Some (rs, (if b then 1 else 0) + k, p) }"
| "kobj_run (SetDying # xs) p = kobj_run xs (kobj_set_dying p)"

definition drops :: "kobj_op list \<Rightarrow> nat" where
  "drops xs = length (filter (\<lambda>x. x = Unref) xs)"

definition grants :: "int list \<Rightarrow> nat" where
  "grants rs = length (filter (\<lambda>r. r = 0) rs)"

lemma drops_simps [simp]: "drops [] = 0" "drops (Unref # xs) = Suc (drops xs)"
  "drops (Ref # xs) = drops xs" "drops (SetDying # xs) = drops xs"
  by (simp_all add: drops_def)

lemma grants_simps [simp]: "grants [] = 0" "grants (r # rs) = (if r = 0 then Suc (grants rs) else grants rs)"
  by (simp_all add: grants_def)

lemma kobj_run_released:
  "released p \<Longrightarrow> \<exists>rs q. kobj_run xs p = Some (rs, 0, q) \<and> grants rs = 0 \<and> released q"
proof (induction xs arbitrary: p)
  case (Cons x xs)
  obtain rs q where "kobj_run xs p = Some (rs, 0, q)" "grants rs = 0" "released q"
    using Cons.IH [OF Cons.prems] by blast
  with Cons show ?case by (cases x) (auto simp: kobj_released)
qed simp

lemma kobj_run_live:
  assumes "live p n" and "int n + int (length xs) < 2 ^ 31"
  shows "\<exists>rs k q. kobj_run xs p = Some (rs, k, q) \<and>
     (k = 0 \<and> live q (n + grants rs - drops xs) \<and> drops xs < n + grants rs
      \<or> k = 1 \<and> released q \<and> n \<le> drops xs)"
  using assms
proof (induction xs arbitrary: p n)
  case Nil
  then show ?case by (auto simp: live_def)
next
  case (Cons x xs)
  show ?case
  proof (cases x)
    case Ref
    show ?thesis
    proof (cases "dying p")
      case True
      with Cons.IH [of p n] Cons.prems Ref show ?thesis by (auto simp: kobj_ref_live)
    next
      case False
      have "live (p\<lparr>ko_refcount := int n + 1\<rparr>) (Suc n)" using Cons.prems by (auto simp: live_def)
      from Cons.IH [OF this] Cons.prems False Ref show ?thesis by (auto simp: kobj_ref_live)
    qed
  next
    case Unref
    obtain b q where bq: "kobj_unref p = Some (b, q)" "if b then n = 1 \<and> released q else live q (n - 1)"
      using ko.put_cases [OF Cons.prems(1)] by blast
    show ?thesis
    proof (cases b)
      case True
      with bq kobj_run_released [of q xs] Unref show ?thesis by auto
    next
      case False
      with bq Cons.IH [of q "n - 1"] Cons.prems Unref ko.st_pos [of q "n - 1"] show ?thesis
        by (auto; fastforce)
    qed
  next
    case SetDying
    with Cons.IH [of "kobj_set_dying p" n] Cons.prems show ?thesis by simp
  qed
qed

section \<open>Properties\<close>



text \<open>
  No resurrection. Once the callback was called or the object is dying, no later kobj_ref
  succeeds, whatever the calls in between: every reference handed out is to an object that is
  not being destroyed.
\<close>

theorem kobj_no_resurrection:
  assumes "released p \<or> live p n \<and> dying p" and "int n + int (length ops) < 2 ^ 31"
  shows "\<exists>rs k q. kobj_run ops p = Some (rs, k, q) \<and> grants rs = 0 \<and> kobj_ref_v (Suc m) q = Some (- EIDRM, q)"
  using assms
proof (induction ops arbitrary: p n)
  case Nil
  then show ?case by (auto simp: kobj_released kobj_ref_dying)
next
  case (Cons x xs)
  show ?case
  proof (cases "released p")
    case True
    then have "released p \<or> live p 0 \<and> dying p" "int 0 + int (length xs) < 2 ^ 31"
      using Cons.prems by auto
    from Cons.IH [OF this] Cons.IH [of "kobj_set_dying p" 0] True this(2) show ?thesis
      by (cases x) (auto simp: kobj_released)
  next
    case False
    with Cons.prems have p: "live p n" "dying p" by auto
    then have d: "dying (kobj_set_dying p)" by (simp add: dying_def kobj_set_dying_def bit_or_iff)
    show ?thesis
    proof (cases x)
      case Ref
      with Cons.IH [of p n] Cons.prems p show ?thesis by (auto simp: kobj_ref_dying)
    next
      case Unref
      have "\<exists>b q. kobj_unref p = Some (b, q) \<and> (released q \<or> live q (n - 1) \<and> dying q)"
        using p ko.put_cases [OF p(1)] kobj_unref_live [OF p(1)] ko.st_pos [OF p(1)]
        by (cases "1 < n") (auto simp: dying_def live_def split: if_splits)
      with Cons.IH [of _ "n - 1"] Cons.prems Unref show ?thesis by fastforce
    next
      case SetDying
      with Cons.IH [of "kobj_set_dying p" n] Cons.prems p d show ?thesis by simp
    qed
  qed
qed

theorem kobj_no_resurrection_witness:
  "\<exists>rs k q. kobj_run [Unref, Ref, Unref, Ref] \<lparr>ko_flags = 1, ko_fast_lock = 0, ko_refcount = 2\<rparr> = Some (rs, k, q)
     \<and> grants rs = 0 \<and> kobj_ref_v 1 q = Some (- EIDRM, q)"
  using kobj_no_resurrection [of "\<lparr>ko_flags = 1, ko_fast_lock = 0, ko_refcount = 2\<rparr>" 2
      "[Unref, Ref, Unref, Ref]" 0]
  by (simp add: live_def dying_def)

end
