(* ===== verification/Klocks.thy ===== *)
theory Klocks
  imports Zeke_Prelude
begin

text \<open>
  Kernel locks (\<^verbatim>\<open>kern/klocks_mtx.c\<close>, \<^verbatim>\<open>klocks_rwlock.c\<close>, \<^verbatim>\<open>klocks_sema.c\<close>,
  \<^verbatim>\<open>klocks_isema.c\<close>, \<^verbatim>\<open>klocks_cpulock.c\<close>), built without \<open>configLOCK_DEBUG\<close> and
  \<open>configMP\<close>. The mutex functions are split where other threads can run: \<open>mtx_lock_enter\<close> is the
  code before the loop, \<open>mtx_lock_iter\<close> one round of it. The machine record holds what the code
  reads and changes beside the lock: whether interrupts are masked, the global \<open>cpu_istate\<close>, the
  priority and wait timer of the current thread, the clock, and the timers released so far.
  Rwlock functions hold the inner spin lock over each of their sections, so a section is one step.
\<close>

section \<open>Mutexes\<close>

abbreviation (input) MTX_TYPE_SPIN :: nat where "MTX_TYPE_SPIN \<equiv> 1"
abbreviation (input) MTX_TYPE_TICKET :: nat where "MTX_TYPE_TICKET \<equiv> 2"
abbreviation (input) MTX_OPT_SLEEP :: nat where "MTX_OPT_SLEEP \<equiv> 0x10"
abbreviation (input) MTX_OPT_PRICEIL :: nat where "MTX_OPT_PRICEIL \<equiv> 0x20"
abbreviation (input) MTX_OPT_DINT :: nat where "MTX_OPT_DINT \<equiv> 0x40"
abbreviation (input) TMNOVAL :: int where "TMNOVAL \<equiv> - 1"
abbreviation (input) NICE_MIN :: int where "NICE_MIN \<equiv> - 20"
abbreviation (input) NICE_MAX :: int where "NICE_MAX \<equiv> 20"

record mtx =
  mtx_type :: nat
  mtx_flags :: nat
  mtx_modcsum :: nat
  locked :: bool
  tqueue :: u32
  tdequeue :: u32
  p_lock :: int
  p_saved :: int

record machine =
  int_masked :: bool
  cpu_istate :: bool
  prio :: int
  wait_tim :: int
  utime :: nat
  released_tims :: "int list"

definition MTX_OPT :: "mtx \<Rightarrow> nat \<Rightarrow> bool" where
  "MTX_OPT m typ \<longleftrightarrow> mtx_flags m AND typ \<noteq> 0"

definition MTX_MODCSUM :: "nat \<Rightarrow> nat \<Rightarrow> nat" where
  "MTX_MODCSUM type flags = (drop_bit 1 type + push_bit 15 (type AND 1) + flags) AND 0xffff"

text \<open>\<open>thread_set_priority\<close> on the current thread, which is in use.\<close>

definition set_own_priority :: "int \<Rightarrow> machine \<Rightarrow> machine" where
  "set_own_priority p c = (if NICE_MIN \<le> p \<and> p \<le> NICE_MAX then c\<lparr>prio := p\<rparr> else c)"

definition timers_release_m :: "int \<Rightarrow> machine \<Rightarrow> machine" where
  "timers_release_m t c = c\<lparr>released_tims := released_tims c @ [t]\<rparr>"

definition priceil_set :: "mtx \<times> machine \<Rightarrow> mtx \<times> machine" where
  "priceil_set mc = (let (m, c) = mc in
     if MTX_OPT m MTX_OPT_PRICEIL then (m\<lparr>p_saved := prio c\<rparr>, set_own_priority (p_lock m) c) else mc)"

definition priceil_restore :: "mtx \<times> machine \<Rightarrow> mtx \<times> machine" where
  "priceil_restore mc = (let (m, c) = mc in
     if MTX_OPT m MTX_OPT_PRICEIL \<and> prio c = p_lock m then (m, set_own_priority (p_saved m) c) else mc)"

definition mtx_init :: "nat \<Rightarrow> nat \<Rightarrow> mtx \<Rightarrow> mtx" where
  "mtx_init type opt m = m\<lparr>mtx_type := type mod 256, mtx_flags := opt mod 256,
     mtx_modcsum := MTX_MODCSUM type opt, locked := False, tqueue := 0, tdequeue := 0\<rparr>"

text \<open>Disabling interrupts on entry and restoring the saved state.\<close>

definition dint_enter :: "mtx \<Rightarrow> machine \<Rightarrow> machine" where
  "dint_enter m c = (if MTX_OPT m MTX_OPT_DINT then c\<lparr>cpu_istate := int_masked c, int_masked := True\<rparr> else c)"

definition dint_leave :: "mtx \<Rightarrow> machine \<Rightarrow> machine" where
  "dint_leave m c = (if MTX_OPT m MTX_OPT_DINT then c\<lparr>int_masked := cpu_istate c\<rparr> else c)"

definition opt_timeout :: "mtx \<Rightarrow> nat" where
  "opt_timeout m = (mtx_flags m AND 0xf) * 1000"

text \<open>The code of \<open>mtx_lock\<close> before its loop; the result has the ticket and the start time.\<close>

definition mtx_lock_enter :: "mtx \<times> machine \<Rightarrow> (u32 \<times> nat) \<times> mtx \<times> machine" where
  "mtx_lock_enter mc = (let (m, c) = mc;
       start_time = (if opt_timeout m \<noteq> 0 then utime c else 0);
       ticket = tqueue m;
       m' = (if mtx_type m = MTX_TYPE_TICKET then m\<lparr>tqueue := ticket + 1\<rparr> else m)
     in ((ticket, start_time), m', dint_enter m c))"

text \<open>One round of the loop: \<open>Inl\<close> the return value, or \<open>Inr\<close> when it goes round again.\<close>

definition mtx_lock_iter :: "u32 \<times> nat \<Rightarrow> mtx \<times> machine \<Rightarrow> (int + unit) \<times> mtx \<times> machine" where
  "mtx_lock_iter ts mc = (let (ticket, start_time) = ts; (m, c) = mc in
     if opt_timeout m \<noteq> 0 \<and> utime c - start_time \<ge> opt_timeout m then (Inl (- EAGAIN), mc)
     else if MTX_OPT m MTX_OPT_SLEEP \<and> wait_tim c = - 2 then (Inl (- EAGAIN), mc)
     else if mtx_type m = MTX_TYPE_SPIN then
       if \<not> locked m then (Inl 0, priceil_set (m\<lparr>locked := True\<rparr>, c)) else (Inr (), mc)
     else if mtx_type m = MTX_TYPE_TICKET then
       if tdequeue m = ticket then (Inl 0, priceil_set (m\<lparr>locked := True\<rparr>, c)) else (Inr (), mc)
     else (Inl (- ENOTSUP), m, dint_leave m c))"

text \<open>
  The loop: \<open>env n\<close> is what the rest of the system does to the lock and the machine before round
  \<open>n\<close>, and \<open>fuel\<close> bounds the rounds; \<open>None\<close> is still waiting.
\<close>

fun mtx_lock_loop :: "(nat \<Rightarrow> mtx \<times> machine \<Rightarrow> mtx \<times> machine) \<Rightarrow> nat \<Rightarrow> nat \<Rightarrow> u32 \<times> nat \<Rightarrow> mtx \<times> machine
    \<Rightarrow> (int \<times> mtx \<times> machine) option" where
  "mtx_lock_loop env n 0 ts mc = None"
| "mtx_lock_loop env n (Suc fuel) ts mc =
     (case mtx_lock_iter ts (env n mc) of
        (Inl r, mc') \<Rightarrow> Some (r, mc')
      | (Inr _, mc') \<Rightarrow> mtx_lock_loop env (Suc n) fuel ts mc')"

definition mtx_lock :: "(nat \<Rightarrow> mtx \<times> machine \<Rightarrow> mtx \<times> machine) \<Rightarrow> nat \<Rightarrow> mtx \<times> machine
    \<Rightarrow> (int \<times> mtx \<times> machine) option" where
  "mtx_lock env fuel mc = (let (ts, mc') = mtx_lock_enter mc in mtx_lock_loop env 0 fuel ts mc')"

definition mtx_wakeup :: "machine \<Rightarrow> machine" where
  "mtx_wakeup c = (timers_release_m (wait_tim c) c)\<lparr>wait_tim := - 2\<rparr>"

text \<open>
  \<open>mtx_sleep\<close>: \<open>new_tim\<close> is the result of \<open>timers_add\<close>. The outer option is a failed
  \<open>KASSERT\<close>, the inner one a lock that was not obtained within the fuel.
\<close>

definition mtx_sleep :: "(nat \<Rightarrow> mtx \<times> machine \<Rightarrow> mtx \<times> machine) \<Rightarrow> nat \<Rightarrow> int \<Rightarrow> int \<Rightarrow> mtx \<times> machine
    \<Rightarrow> (int \<times> mtx \<times> machine) option option" where
  "mtx_sleep env fuel timeout new_tim mc = (let (m, c) = mc in
     if MTX_MODCSUM (mtx_type m) (mtx_flags m) \<noteq> mtx_modcsum m then None
     else if MTX_OPT m MTX_OPT_DINT then Some (Some (- ENOTSUP, mc))
     else if timeout > 0 then
       if \<not> wait_tim c < 0 then None
       else
         let c = c\<lparr>wait_tim := new_tim\<rparr>
         in if new_tim < 0 then Some (Some (- EAGAIN, m, c))
            else Some (map_option (\<lambda>(r, m, c).
                   (r, m, (timers_release_m (wait_tim c) c)\<lparr>wait_tim := TMNOVAL\<rparr>)) (mtx_lock env fuel (m, c)))
     else if mtx_type m = MTX_TYPE_SPIN then Some (mtx_lock env fuel mc)
     else Some (Some (- ENOTSUP, mc)))"

text \<open>The two accesses of \<open>mtx_trylock\<close> to the queue counter of a ticket lock.\<close>

definition ticket_take :: "mtx \<Rightarrow> u32 \<times> mtx" where
  "ticket_take m = (tqueue m, m\<lparr>tqueue := tqueue m + 1\<rparr>)"

definition ticket_return :: "mtx \<Rightarrow> mtx" where
  "ticket_return m = m\<lparr>tqueue := tqueue m - 1\<rparr>"

definition mtx_trylock :: "mtx \<times> machine \<Rightarrow> (int \<times> mtx \<times> machine) option" where
  "mtx_trylock mc = (let (m, c) = mc in
     if MTX_MODCSUM (mtx_type m) (mtx_flags m) \<noteq> mtx_modcsum m then None
     else let c = dint_enter m c in
       if mtx_type m = MTX_TYPE_SPIN then
         Some (if locked m then 1 else 0, priceil_set (m\<lparr>locked := True\<rparr>, c))
       else if mtx_type m = MTX_TYPE_TICKET then
         let (ticket, m') = ticket_take m
         in if tdequeue m' = ticket then Some (0, m'\<lparr>locked := True\<rparr>, c)
            else Some (1, ticket_return m', dint_leave m c)
       else Some (- ENOTSUP, m, dint_leave m c))"

definition mtx_unlock :: "mtx \<times> machine \<Rightarrow> (mtx \<times> machine) option" where
  "mtx_unlock mc = (let (m, c) = mc in
     if MTX_MODCSUM (mtx_type m) (mtx_flags m) \<noteq> mtx_modcsum m then None
     else
       let c = (if MTX_OPT m MTX_OPT_SLEEP \<and> wait_tim c \<ge> 0
                then (timers_release_m (wait_tim c) c)\<lparr>wait_tim := TMNOVAL\<rparr> else c);
           m = (if mtx_type m = MTX_TYPE_TICKET then m\<lparr>tdequeue := tdequeue m + 1\<rparr> else m);
           m = m\<lparr>locked := False\<rparr>
       in Some (priceil_restore (m, dint_leave m c)))"

definition mtx_test :: "mtx \<Rightarrow> bool" where
  "mtx_test m = locked m"

section \<open>Readers-writer locks\<close>

record rwlock =
  rwstate :: int
  wr_waiting :: int

definition rwlock_init :: rwlock where
  "rwlock_init = \<lparr>rwstate = 0, wr_waiting = 0\<rparr>"

text \<open>\<open>rwlock_wrlock\<close>: the first section, and the section of one round of its wait loop; the
  result says whether the lock was taken.\<close>

definition rwlock_wrlock_first :: "rwlock \<Rightarrow> bool \<times> rwlock" where
  "rwlock_wrlock_first l =
     (if rwstate l = 0 then (True, l\<lparr>rwstate := - 1\<rparr>)
      else (False, l\<lparr>wr_waiting := s32 (wr_waiting l + 1)\<rparr>))"

definition rwlock_wrlock_again :: "rwlock \<Rightarrow> bool \<times> rwlock" where
  "rwlock_wrlock_again l =
     (if rwstate l = 0 then (True, l\<lparr>wr_waiting := s32 (wr_waiting l - 1), rwstate := - 1\<rparr>)
      else (False, l))"

definition rwlock_trywrlock :: "bool \<Rightarrow> rwlock \<Rightarrow> int \<times> rwlock" where
  "rwlock_trywrlock mtx_busy l =
     (if mtx_busy then (1, l)
      else if rwstate l = 0 then (0, l\<lparr>rwstate := - 1\<rparr>) else (1, l))"

definition rwlock_wrwait :: "rwlock \<Rightarrow> rwlock" where
  "rwlock_wrwait l = (if wr_waiting l = 0 then l\<lparr>wr_waiting := 1\<rparr> else l)"

definition rwlock_wrunwait :: "rwlock \<Rightarrow> rwlock" where
  "rwlock_wrunwait l = l\<lparr>wr_waiting := 0\<rparr>"

definition rwlock_wrunlock :: "rwlock \<Rightarrow> rwlock" where
  "rwlock_wrunlock l = (if rwstate l = - 1 then l\<lparr>rwstate := 0\<rparr> else l)"

text \<open>Both sections of \<open>rwlock_rdlock\<close> test and take the lock in the same way.\<close>

definition rwlock_rdlock_try :: "rwlock \<Rightarrow> bool \<times> rwlock" where
  "rwlock_rdlock_try l =
     (if wr_waiting l = 0 \<and> rwstate l \<ge> 0 then (True, l\<lparr>rwstate := s32 (rwstate l + 1)\<rparr>)
      else (False, l))"

definition rwlock_tryrdlock :: "bool \<Rightarrow> rwlock \<Rightarrow> int \<times> rwlock" where
  "rwlock_tryrdlock mtx_busy l =
     (if mtx_busy then (1, l)
      else if wr_waiting l = 0 \<and> rwstate l \<ge> 0 then (0, l\<lparr>rwstate := s32 (rwstate l + 1)\<rparr>) else (1, l))"

definition rwlock_rdunlock :: "rwlock \<Rightarrow> rwlock" where
  "rwlock_rdunlock l = (if rwstate l > 0 then l\<lparr>rwstate := rwstate l - 1\<rparr> else l)"

section \<open>Semaphores\<close>

text \<open>\<open>sema_down\<close>: the decrement, then the loop test on a later value of the semaphore.\<close>

definition sema_down :: "int \<Rightarrow> (bool \<times> int) \<times> int" where
  "sema_down s = (let old = s in ((old \<ge> 0, old), s32 (s - 1)))"

definition sema_down_again :: "int \<Rightarrow> int \<Rightarrow> bool" where
  "sema_down_again old s \<longleftrightarrow> s \<ge> old"

text \<open>
  Indexed semaphores: an array of flags. One scan of \<open>isema_acquire\<close> sets flags from \<open>k\<close> on until
  it finds one that was clear; the loop repeats the scan while \<open>index\<close> is 0.
\<close>

definition isema_init :: "nat \<Rightarrow> int list \<Rightarrow> int list" where
  "isema_init n a = fold (\<lambda>i a. a[i := 0]) [0..<n] a"

function isema_scan :: "nat \<Rightarrow> nat \<Rightarrow> nat \<Rightarrow> int list \<Rightarrow> nat \<times> int list" where
  "isema_scan n index k a =
     (if k < n then
        if a ! k = 0 then (k, a[k := 1]) else isema_scan n index (Suc k) (a[k := 1])
      else (index, a))"
  by pat_completeness auto
termination by (relation "measure (\<lambda>(n, index, k, a). n - k)") auto

declare isema_scan.simps [simp del]

fun isema_acquire :: "nat \<Rightarrow> nat \<Rightarrow> int list \<Rightarrow> (nat \<times> int list) option" where
  "isema_acquire n 0 a = None"
| "isema_acquire n (Suc fuel) a =
     (let (index, a') = isema_scan n 0 0 a in if index \<noteq> 0 then Some (index, a') else isema_acquire n fuel a')"

section \<open>Per-CPU locks\<close>

type_synonym cpulock = "mtx list"

abbreviation (input) KSCHED_CPU_COUNT :: nat where "KSCHED_CPU_COUNT \<equiv> 1"

definition cpulock_create :: "cpulock option \<Rightarrow> cpulock option" where
  "cpulock_create mem = map_option
     (\<lambda>lock. fold (\<lambda>i l. l[i := mtx_init MTX_TYPE_TICKET 0 (l ! i)]) [0..<KSCHED_CPU_COUNT] lock) mem"

definition cpulock_lock :: "nat \<Rightarrow> (nat \<Rightarrow> mtx \<times> machine \<Rightarrow> mtx \<times> machine) \<Rightarrow> nat \<Rightarrow> cpulock \<times> machine
    \<Rightarrow> (int \<times> cpulock \<times> machine) option" where
  "cpulock_lock i env fuel lc = (let (l, c) = lc in
     map_option (\<lambda>(r, m, c). (r, l[i := m], c)) (mtx_lock env fuel (l ! i, c)))"

definition cpulock_unlock :: "nat \<Rightarrow> cpulock \<times> machine \<Rightarrow> (cpulock \<times> machine) option" where
  "cpulock_unlock i lc = (let (l, c) = lc in
     map_option (\<lambda>(m, c). (l[i := m], c)) (mtx_unlock (l ! i, c)))"

section \<open>Threads on a mutex\<close>

text \<open>
  Any number \<open>N\<close> of threads below \<open>2 ^ 32\<close> use one mutex. A thread enters \<open>mtx_lock\<close>, goes
  round its loop, gets the lock, unlocks, or makes a \<open>mtx_trylock\<close> that runs without
  interruption; every step is a function of the code, the machine state is arbitrary.
\<close>

datatype pc = Out | Waiting u32 | Inside

inductive mtx_step :: "nat \<Rightarrow> mtx \<times> (nat \<Rightarrow> pc) \<Rightarrow> mtx \<times> (nat \<Rightarrow> pc) \<Rightarrow> bool" for N where
  enter: "t < N \<Longrightarrow> p t = Out \<Longrightarrow> mtx_lock_enter (m, c) = ((tk, s), m', c') \<Longrightarrow>
    mtx_step N (m, p) (m', p(t := Waiting tk))"
| again: "t < N \<Longrightarrow> p t = Waiting tk \<Longrightarrow> mtx_lock_iter (tk, s) (m, c) = (Inr (), m', c') \<Longrightarrow>
    mtx_step N (m, p) (m', p)"
| got: "t < N \<Longrightarrow> p t = Waiting tk \<Longrightarrow> mtx_lock_iter (tk, s) (m, c) = (Inl 0, m', c') \<Longrightarrow>
    mtx_step N (m, p) (m', p(t := Inside))"
| leave: "t < N \<Longrightarrow> p t = Inside \<Longrightarrow> mtx_unlock (m, c) = Some (m', c') \<Longrightarrow>
    mtx_step N (m, p) (m', p(t := Out))"
| attempt: "t < N \<Longrightarrow> p t = Out \<Longrightarrow> mtx_trylock (m, c) = Some (r, m', c') \<Longrightarrow>
    mtx_step N (m, p) (m', if r = 0 then p(t := Inside) else p)"

abbreviation mtx_reach :: "nat \<Rightarrow> mtx \<times> (nat \<Rightarrow> pc) \<Rightarrow> mtx \<times> (nat \<Rightarrow> pc) \<Rightarrow> bool" where
  "mtx_reach N \<equiv> (mtx_step N)\<^sup>*\<^sup>*"

text \<open>The mutex fields that the steps leave alone, and the effect on the others.\<close>

lemma priceil_fields [simp]:
  "mtx_type (fst (priceil_set mc)) = mtx_type (fst mc)" "mtx_flags (fst (priceil_set mc)) = mtx_flags (fst mc)"
  "mtx_modcsum (fst (priceil_set mc)) = mtx_modcsum (fst mc)"
  "locked (fst (priceil_set mc)) = locked (fst mc)" "tqueue (fst (priceil_set mc)) = tqueue (fst mc)"
  "tdequeue (fst (priceil_set mc)) = tdequeue (fst mc)" "fst (priceil_restore mc) = fst mc"
  by (simp_all add: priceil_set_def priceil_restore_def Let_def split: prod.splits)

lemma priceil_set_eq: "priceil_set (m, c) = (m', c') \<Longrightarrow> mtx_type m' = mtx_type m \<and>
   mtx_flags m' = mtx_flags m \<and> locked m' = locked m \<and> tqueue m' = tqueue m \<and> tdequeue m' = tdequeue m"
  by (metis fst_conv priceil_fields(1,2,4-6))

lemma priceil_restore_eq: "priceil_restore (m, c) = (m', c') \<Longrightarrow> m' = m"
  by (metis fst_conv priceil_fields(7))

lemma enter_effect:
  assumes "mtx_lock_enter (m, c) = ((tk, s), m', c')"
  shows "m' = (if mtx_type m = 2 then m\<lparr>tqueue := tqueue m + 1\<rparr> else m) \<and> tk = tqueue m"
  using assms by (simp add: mtx_lock_enter_def Let_def split: if_splits)

lemma iter_again:
  assumes "mtx_lock_iter (tk, s) (m, c) = (Inr (), m', c')"
  shows "m' = m"
  using assms by (auto simp: mtx_lock_iter_def Let_def split: if_splits)

lemma iter_got:
  assumes "mtx_lock_iter (tk, s) (m, c) = (Inl 0, m', c')"
  shows "(mtx_type m = 1 \<and> \<not> locked m \<or> mtx_type m = 2 \<and> tdequeue m = tk) \<and> mtx_type m' = mtx_type m \<and>
    locked m' \<and> tqueue m' = tqueue m \<and> tdequeue m' = tdequeue m"
  using assms by (auto simp: mtx_lock_iter_def Let_def split: if_splits dest: priceil_set_eq)

lemma unlock_effect:
  assumes "mtx_unlock (m, c) = Some (m', c')"
  shows "mtx_type m' = mtx_type m \<and> \<not> locked m' \<and> tqueue m' = tqueue m \<and>
    tdequeue m' = (if mtx_type m = 2 then tdequeue m + 1 else tdequeue m)"
  using assms by (auto simp: mtx_unlock_def Let_def split: if_splits dest!: priceil_restore_eq)

lemma trylock_effect:
  assumes "mtx_trylock (m, c) = Some (r, m', c')"
  shows "mtx_type m' = mtx_type m \<and> tdequeue m' = tdequeue m \<and>
    (mtx_type m = 1 \<longrightarrow> locked m' \<and> (r = 0 \<longleftrightarrow> \<not> locked m)) \<and>
    (mtx_type m = 2 \<longrightarrow> (r = 0 \<longleftrightarrow> tdequeue m = tqueue m) \<and>
       tqueue m' = (if r = 0 then tqueue m + 1 else tqueue m))"
  using assms
  by (auto simp: mtx_trylock_def ticket_take_def ticket_return_def Let_def split: if_splits
      dest!: priceil_set_eq)

text \<open>
  The ticket lock: there is a queue \<open>ws\<close> of the threads that hold a ticket, in the order of their
  tickets, which are consecutive from \<open>tdequeue\<close>; only its head can be inside.
\<close>

definition ticket_queue :: "nat \<Rightarrow> mtx \<Rightarrow> (nat \<Rightarrow> pc) \<Rightarrow> nat list \<Rightarrow> bool" where
  "ticket_queue N m p ws \<longleftrightarrow> mtx_type m = 2 \<and> distinct ws \<and> set ws \<subseteq> {..<N} \<and>
     (\<forall>t. p t \<noteq> Out \<longleftrightarrow> t \<in> set ws) \<and> tqueue m = tdequeue m + of_nat (length ws) \<and>
     (\<forall>i < length ws. p (ws ! i) = Waiting (tdequeue m + of_nat i) \<or> i = 0 \<and> p (ws ! i) = Inside)"

lemma ticket_queue_length: "ticket_queue N m p ws \<Longrightarrow> length ws \<le> N"
  unfolding ticket_queue_def
  by (metis card_lessThan card_mono distinct_card finite_lessThan)

lemma of_nat_u32_0: "n < 2 ^ 32 \<Longrightarrow> (of_nat n :: u32) = 0 \<longleftrightarrow> n = 0"
  using nat_dvd_not_less [of n "2 ^ 32"] by (auto simp: word_of_nat_eq_0_iff)

text \<open>A thread whose ticket is being served is the head of the queue.\<close>

lemma ticket_head:
  assumes q: "ticket_queue N m p ws" and N: "N < 2 ^ 32"
    and t: "p t = Inside \<or> p t = Waiting (tdequeue m)"
  shows "ws \<noteq> [] \<and> t = hd ws"
proof -
  have "p t \<noteq> Out" using t by auto
  with q obtain i where i: "i < length ws" "t = ws ! i"
    unfolding ticket_queue_def by (metis in_set_conv_nth)
  have "i < 2 ^ 32" using i ticket_queue_length [OF q] N by linarith
  moreover have "i = 0 \<or> (of_nat i :: u32) = 0"
    using q i t unfolding ticket_queue_def by fastforce
  ultimately have "i = 0" by (auto simp: of_nat_u32_0)
  with i show ?thesis by (cases ws) auto
qed

lemma ticket_enter:
  assumes q: "ticket_queue N m p ws" and "t < N" "p t = Out"
    and "tqueue m' = tqueue m + 1" "tdequeue m' = tdequeue m" "mtx_type m' = mtx_type m"
    and x: "x = Waiting (tqueue m) \<or> x = Inside \<and> ws = []"
  shows "ticket_queue N m' (p(t := x)) (ws @ [t])"
  using assms unfolding ticket_queue_def
  by (auto simp: nth_append less_Suc_eq algebra_simps)

lemma ticket_leave:
  assumes q: "ticket_queue N m p (t # ws)"
    and "tqueue m' = tqueue m" "tdequeue m' = tdequeue m + 1" "mtx_type m' = mtx_type m"
  shows "ticket_queue N m' (p(t := Out)) ws"
proof -
  have "p (ws ! i) = Waiting (tdequeue m + 1 + of_nat i)" if "i < length ws" for i
  proof -
    have "Suc i < length (t # ws)" using that by simp
    with q show ?thesis unfolding ticket_queue_def by (fastforce simp: algebra_simps)
  qed
  with assms show ?thesis unfolding ticket_queue_def by (auto simp: algebra_simps)
qed

lemma ticket_step:
  assumes "mtx_step N (m, p) (m', p')" and q: "ticket_queue N m p ws" and N: "N < 2 ^ 32"
  shows "\<exists>ws'. ticket_queue N m' p' ws'"
  using assms(1)
proof cases
  case (enter t c tk s c')
  have "mtx_type m = 2" using q by (simp add: ticket_queue_def)
  with ticket_enter [OF q enter(2,3), of m' "Waiting (tqueue m)"] enter_effect [OF enter(4)] enter(1)
  show ?thesis by auto
next
  case (again t tk s c c')
  then show ?thesis using q iter_again by blast
next
  case (got t tk s c c')
  have m': "mtx_type m' = 2" "tdequeue m = tk" "tqueue m' = tqueue m" "tdequeue m' = tdequeue m"
    using iter_got [OF got(4)] q by (auto simp: ticket_queue_def)
  obtain us where ws: "ws = t # us" using ticket_head [OF q N, of t] got(3) m'(2) by (cases ws) auto
  have "ticket_queue N m' (p(t := Inside)) ws"
    using q m' unfolding ws ticket_queue_def by (auto simp: nth_Cons' )
  with got show ?thesis by blast
next
  case (leave t c c')
  then obtain us where ws: "ws = t # us" using ticket_head [OF q N, of t] by (cases ws) auto
  from unlock_effect [OF leave(4)] q have "ticket_queue N m' (p(t := Out)) us"
    by (intro ticket_leave [of N m]) (auto simp: ws ticket_queue_def [of N m p])
  with leave show ?thesis by blast
next
  case (attempt t c r c')
  have ty: "mtx_type m = 2" using q by (simp add: ticket_queue_def)
  note e = trylock_effect [OF attempt(4)]
  show ?thesis
  proof (cases "r = 0")
    case True
    have "ws = []"
      using e ty True q ticket_queue_length [OF q] N of_nat_u32_0 [of "length ws"]
      by (auto simp: ticket_queue_def)
    with e ty True attempt ticket_enter [OF q attempt(2,3), of m' Inside] show ?thesis by auto
  next
    case False
    with e ty attempt q have "ticket_queue N m' p' ws" by (auto simp: ticket_queue_def)
    then show ?thesis by blast
  qed
qed

lemma ticket_reach:
  assumes "mtx_reach N s s'" and "ticket_queue N (fst s) (snd s) ws" and "N < 2 ^ 32"
  shows "\<exists>ws'. ticket_queue N (fst s') (snd s') ws'"
  using assms
proof (induction rule: rtranclp_induct)
  case (step y z)
  then show ?case using ticket_step [of N "fst y" "snd y" "fst z" "snd z"] by auto
qed auto

text \<open>The spin lock: the flag is set while a thread is inside, and only one is.\<close>

definition spin_inv :: "mtx \<Rightarrow> (nat \<Rightarrow> pc) \<Rightarrow> bool" where
  "spin_inv m p \<longleftrightarrow> mtx_type m = 1 \<and> (\<forall>t u. p t = Inside \<longrightarrow> p u = Inside \<longrightarrow> t = u) \<and>
     ((\<exists>t. p t = Inside) \<longrightarrow> locked m)"

lemma spin_step:
  assumes "mtx_step N (m, p) (m', p')" and "spin_inv m p"
  shows "spin_inv m' p'"
  using assms(1)
proof cases
  case (enter t c tk s c')
  with assms(2) enter_effect [OF enter(4)] show ?thesis by (auto simp: spin_inv_def)
next
  case (again t tk s c c')
  with assms(2) iter_again show ?thesis by blast
next
  case (got t tk s c c')
  with assms(2) iter_got [OF got(4)] show ?thesis by (auto simp: spin_inv_def)
next
  case (leave t c c')
  with assms(2) unlock_effect [OF leave(4)] show ?thesis by (auto simp: spin_inv_def)
next
  case (attempt t c r c')
  with assms(2) trylock_effect [OF attempt(4)] show ?thesis by (auto simp: spin_inv_def)
qed

lemma spin_reach:
  assumes "mtx_reach N s s'" and "spin_inv (fst s) (snd s)"
  shows "spin_inv (fst s') (snd s')"
  using assms
proof (induction rule: rtranclp_induct)
  case (step y z)
  then show ?case using spin_step [of N "fst y" "snd y" "fst z" "snd z"] by simp
qed

lemma mtx_init_ticket: "ticket_queue N (mtx_init 2 opt m) (\<lambda>_. Out) []"
  by (simp add: ticket_queue_def mtx_init_def)

lemma mtx_init_spin: "spin_inv (mtx_init 1 opt m) (\<lambda>_. Out)"
  by (simp add: spin_inv_def mtx_init_def)

lemma ticket_no_timeout_iter:
  assumes "mtx_type m = 2" "opt_timeout m = 0" "\<not> MTX_OPT m 0x10"
  shows "(\<exists>m' c'. mtx_lock_iter (tk, s) (m, c) = (Inl 0, m', c')) \<longleftrightarrow> tdequeue m = tk"
  using assms by (cases "priceil_set (m\<lparr>locked := True\<rparr>, c)") (auto simp: mtx_lock_iter_def Let_def)

section \<open>Threads on a readers-writer lock\<close>

text \<open>The state counts the read holds and the write holds handed out and not yet released.\<close>

inductive rw_step :: "nat \<Rightarrow> rwlock \<times> nat \<times> nat \<Rightarrow> rwlock \<times> nat \<times> nat \<Rightarrow> bool" for M where
  wr_first: "rwlock_wrlock_first l = (b, l') \<Longrightarrow> rw_step M (l, r, w) (l', r, if b then Suc w else w)"
| wr_again: "rwlock_wrlock_again l = (b, l') \<Longrightarrow> rw_step M (l, r, w) (l', r, if b then Suc w else w)"
| wr_try: "rwlock_trywrlock busy l = (e, l') \<Longrightarrow> rw_step M (l, r, w) (l', r, if e = 0 then Suc w else w)"
| wr_release: "0 < w \<Longrightarrow> rw_step M (l, r, w) (rwlock_wrunlock l, r, w - 1)"
| rd: "r < M \<Longrightarrow> rwlock_rdlock_try l = (b, l') \<Longrightarrow> rw_step M (l, r, w) (l', if b then Suc r else r, w)"
| rd_try: "r < M \<Longrightarrow> rwlock_tryrdlock busy l = (e, l') \<Longrightarrow> rw_step M (l, r, w) (l', if e = 0 then Suc r else r, w)"
| rd_release: "0 < r \<Longrightarrow> rw_step M (l, r, w) (rwlock_rdunlock l, r - 1, w)"
| wait: "rw_step M (l, r, w) (rwlock_wrwait l, r, w)"
| unwait: "rw_step M (l, r, w) (rwlock_wrunwait l, r, w)"

definition rw_inv :: "nat \<Rightarrow> rwlock \<times> nat \<times> nat \<Rightarrow> bool" where
  "rw_inv M s \<longleftrightarrow> (case s of (l, r, w) \<Rightarrow> r \<le> M \<and>
     (w = 0 \<and> rwstate l = int r \<or> w = 1 \<and> r = 0 \<and> rwstate l = - 1))"

lemmas rw_ops = rwlock_wrlock_first_def rwlock_wrlock_again_def rwlock_trywrlock_def
  rwlock_wrunlock_def rwlock_rdlock_try_def rwlock_tryrdlock_def rwlock_rdunlock_def
  rwlock_wrwait_def rwlock_wrunwait_def rwlock_init_def

lemma rw_inv_step: "rw_step M s s' \<Longrightarrow> rw_inv M s \<Longrightarrow> M < 2 ^ 31 \<Longrightarrow> rw_inv M s'"
  by (induction rule: rw_step.induct) (auto simp: rw_inv_def rw_ops split: if_splits)

lemma rw_inv_reach: "(rw_step M)\<^sup>*\<^sup>* s s' \<Longrightarrow> rw_inv M s \<Longrightarrow> M < 2 ^ 31 \<Longrightarrow> rw_inv M s'"
  by (induction rule: rtranclp_induct) (auto intro: rw_inv_step)

section \<open>The contract of a mutual exclusion lock\<close>

text \<open>
  What the users of a mutex rely on: from the initial state of the lock, whatever the threads
  do, two of them are never inside together. \<open>ok\<close> is the condition on the lock that is kept.
\<close>

locale exclusive_lock =
  fixes step :: "'l \<times> (nat \<Rightarrow> pc) \<Rightarrow> 'l \<times> (nat \<Rightarrow> pc) \<Rightarrow> bool"
    and ok :: "'l \<Rightarrow> (nat \<Rightarrow> pc) \<Rightarrow> bool" and fresh :: 'l
  assumes fresh_ok: "ok fresh (\<lambda>_. Out)"
    and step_ok: "step (m, p) (m', p') \<Longrightarrow> ok m p \<Longrightarrow> ok m' p'"
    and ok_excl: "ok m p \<Longrightarrow> p t = Inside \<Longrightarrow> p u = Inside \<Longrightarrow> t = u"
begin

lemma reach_ok: "step\<^sup>*\<^sup>* (fresh, \<lambda>_. Out) s \<Longrightarrow> ok (fst s) (snd s)"
proof (induction rule: rtranclp_induct)
  case (step y z)
  then show ?case using step_ok [of "fst y" "snd y" "fst z" "snd z"] by simp
qed (simp add: fresh_ok)

lemma mutual_exclusion: "step\<^sup>*\<^sup>* (fresh, \<lambda>_. Out) (m, p) \<Longrightarrow> p t = Inside \<Longrightarrow> p u = Inside \<Longrightarrow> t = u"
  using reach_ok [of "(m, p)"] ok_excl by auto

end

lemma ticket_excl:
  assumes "ticket_queue N m p ws" "N < 2 ^ 32" "p t = Inside" "p u = Inside"
  shows "t = u"
  using assms ticket_head [OF assms(1,2), of t] ticket_head [OF assms(1,2), of u] by auto

text \<open>The ticket counters are 32 bits wide, so the lock serves up to \<open>2 ^ 32 - 1\<close> threads.\<close>

definition max_threads :: nat where
  "max_threads = 2 ^ 32 - 1"

definition ticket_ok :: "mtx \<Rightarrow> (nat \<Rightarrow> pc) \<Rightarrow> bool" where
  "ticket_ok m p \<longleftrightarrow> (\<exists>ws. ticket_queue max_threads m p ws)"

interpretation spin_lock: exclusive_lock "mtx_step max_threads" spin_inv "mtx_init 1 opt m0" for opt m0
proof
  show "spin_inv m' p'" if "mtx_step max_threads (m, p) (m', p')" "spin_inv m p" for m p m' p'
    using that by (rule spin_step)
  show "spin_inv (mtx_init 1 opt m0) (\<lambda>_. Out)" by (rule mtx_init_spin)
qed (simp add: spin_inv_def)

interpretation ticket_lock: exclusive_lock "mtx_step max_threads" ticket_ok "mtx_init 2 opt m0" for opt m0
proof
  have N: "max_threads < 2 ^ 32" by (simp add: max_threads_def)
  show "ticket_ok m' p'" if "mtx_step max_threads (m, p) (m', p')" "ticket_ok m p" for m p m' p'
    using that ticket_step [OF that(1) _ N] by (auto simp: ticket_ok_def)
  show "t = u" if "ticket_ok m p" "p t = Inside" "p u = Inside" for m p t u
    using that ticket_excl [OF _ N] by (auto simp: ticket_ok_def)
qed (auto simp: ticket_ok_def intro: mtx_init_ticket)

lemma mtx_flags_step: "mtx_step N s s' \<Longrightarrow> mtx_flags (fst s') = mtx_flags (fst s)"
proof (induction rule: mtx_step.induct)
  case (enter t p m c tk s m' c')
  then show ?case by (auto dest: enter_effect)
next
  case (again t p tk s m c m' c')
  then show ?case by (auto dest: iter_again)
next
  case (got t p tk s m c m' c')
  then show ?case by (auto simp: mtx_lock_iter_def Let_def split: if_splits dest: priceil_set_eq)
next
  case (leave t p m c m' c')
  then show ?case by (auto simp: mtx_unlock_def Let_def split: if_splits dest!: priceil_restore_eq)
next
  case (attempt t p m c r m' c')
  then show ?case
    by (auto simp: mtx_trylock_def ticket_take_def ticket_return_def Let_def split: if_splits
        dest!: priceil_set_eq)
qed

lemma mtx_flags_reach: "mtx_reach N s s' \<Longrightarrow> mtx_flags (fst s') = mtx_flags (fst s)"
  by (induction rule: rtranclp_induct) (auto dest: mtx_flags_step)

lemma ticket_waiting_head:
  assumes "ticket_queue N m p ws" and "p t \<noteq> Out" and "\<forall>u. p u \<noteq> Inside"
  shows "p (hd ws) = Waiting (tdequeue m)"
proof -
  have "ws \<noteq> []" using assms by (auto simp: ticket_queue_def)
  with assms show ?thesis by (force simp: ticket_queue_def hd_conv_nth)
qed

section \<open>Properties\<close>


definition demo_machine :: machine where
  "demo_machine = \<lparr>int_masked = False, cpu_istate = False, prio = 0, wait_tim = - 1, utime = 0, released_tims = []\<rparr>"

definition demo_mtx :: mtx where
  "demo_mtx = \<lparr>mtx_type = 0, mtx_flags = 0, mtx_modcsum = 0, locked = False, tqueue = 0, tdequeue = 0,
     p_lock = - 10, p_saved = 0\<rparr>"

lemmas mtx_eval = mtx_init_def mtx_lock_enter_def mtx_lock_iter_def mtx_trylock_def mtx_unlock_def
  MTX_OPT_def MTX_MODCSUM_def opt_timeout_def dint_enter_def dint_leave_def priceil_set_def
  priceil_restore_def set_own_priority_def ticket_take_def ticket_return_def timers_release_m_def




text \<open>
  An interrupted mtx_trylock breaks a ticket lock. Thread A holds ticket 0; B's mtx_trylock
  draws ticket 1 and fails; before it decrements the counter again, C draws ticket 2 in
  mtx_lock. After B's decrement and A's unlock the next thread D draws ticket 2 as well, and
  the ticket being served, 1, belongs to nobody: the waiting threads C and D go round their loop
  in every later state, although the lock is free.
\<close>

theorem trylock_race_loses_ticket:
  "let c = demo_machine;
       m0 = mtx_init MTX_TYPE_TICKET 0 demo_mtx;
       ((tkA, _), m1, _) = mtx_lock_enter (m0, c);
       (rA, m2, _) = mtx_lock_iter (tkA, 0) (m1, c);
       (tkB, m3) = ticket_take m2;
       ((tkC, _), m4, _) = mtx_lock_enter (m3, c);
       m5 = ticket_return m4;
       m6 = fst (the (mtx_unlock (m5, c)));
       ((tkD, _), m7, _) = mtx_lock_enter (m6, c)
   in rA = Inl 0 \<and> tkB \<noteq> tdequeue m3 \<and> \<not> mtx_test m6 \<and> tkC = tkD \<and>
      tdequeue m7 \<noteq> tkC \<and> mtx_lock_iter (tkC, 0) (m7, c) = (Inr (), m7, c)"
  by (simp add: mtx_eval demo_mtx_def demo_machine_def Let_def mtx_test_def)

text \<open>
  Uncontended lock and unlock is a round trip. On a free spin lock (any options, a ceiling
  and priorities in the nice range, no time-out reached and no stale wait timer) mtx_lock returns 0
  in its first round with the lock held, interrupts masked if and only if they were or the DINT
  option is set, and the priority raised to the ceiling under PRICEIL; mtx_unlock then restores
  the interrupt state and the priority.
\<close>

theorem spin_lock_roundtrip:
  assumes "m = mtx_init MTX_TYPE_SPIN opt m0" and "opt < 256" and "wait_tim c = - 1"
    and "NICE_MIN \<le> p_lock m0" "p_lock m0 \<le> NICE_MAX" "NICE_MIN \<le> prio c" "prio c \<le> NICE_MAX"
  shows "\<exists>m' c' m'' c''. mtx_lock (\<lambda>_. id) 1 (m, c) = Some (0, m', c') \<and> mtx_test m' \<and>
    int_masked c' = (int_masked c \<or> MTX_OPT m MTX_OPT_DINT) \<and>
    prio c' = (if MTX_OPT m MTX_OPT_PRICEIL then p_lock m0 else prio c) \<and>
    mtx_unlock (m', c') = Some (m'', c'') \<and> \<not> mtx_test m'' \<and>
    int_masked c'' = int_masked c \<and> prio c'' = prio c"
  using assms
  by (simp add: mtx_lock_def mtx_eval mtx_test_def Let_def split: if_splits)

theorem spin_lock_roundtrip_witness:
  "\<exists>m' c' m'' c''. mtx_lock (\<lambda>_. id) 1 (mtx_init 1 0x60 demo_mtx, demo_machine) = Some (0, m', c') \<and>
    mtx_test m' \<and> int_masked c' \<and> mtx_unlock (m', c') = Some (m'', c'') \<and> \<not> int_masked c'' \<and> prio c'' = 0"
  using spin_lock_roundtrip [OF refl, of "0x60" demo_machine demo_mtx]
  by (auto simp: demo_machine_def demo_mtx_def mtx_init_def MTX_OPT_def)

text \<open>
  C32: Readers and writers exclude each other. From rwlock_init, over any sequence of the
  sections of the rwlock functions (each under the inner lock) by any number of threads with
  fewer than 2^31 read holds, at most one write hold exists, none beside a read hold, and the
  state word is -1 under a writer and the number of readers otherwise.
\<close>

theorem rwlock_exclusion:
  assumes "(rw_step M)\<^sup>*\<^sup>* (rwlock_init, 0, 0) (l, r, w)" and "M < 2 ^ 31"
  shows "w \<le> 1 \<and> (w = 1 \<longrightarrow> r = 0) \<and> rwstate l = (if w = 1 then - 1 else int r)"
  using rw_inv_reach [OF assms(1) _ assms(2)] by (auto simp: rw_inv_def rwlock_init_def)

theorem rwlock_exclusion_witness:
  "(rw_step 5)\<^sup>*\<^sup>* (rwlock_init, 0, 0) (\<lparr>rwstate = 1, wr_waiting = 1\<rparr>, 1, 0) \<and>
   rwstate \<lparr>rwstate = 1, wr_waiting = 1\<rparr> = int 1"
proof -
  have "rw_step 5 (rwlock_init, 0, 0) (\<lparr>rwstate = 1, wr_waiting = 0\<rparr>, 1, 0)"
    using rw_step.rd [of 0 5 rwlock_init True "\<lparr>rwstate = 1, wr_waiting = 0\<rparr>" 0] by (simp add: rw_ops)
  moreover have "rw_step 5 (\<lparr>rwstate = 1, wr_waiting = 0\<rparr>, 1, 0) (\<lparr>rwstate = 1, wr_waiting = 1\<rparr>, 1, 0)"
    using rw_step.wr_first [of "\<lparr>rwstate = 1, wr_waiting = 0\<rparr>" False "\<lparr>rwstate = 1, wr_waiting = 1\<rparr>" 5 1 0]
    by (simp add: rw_ops)
  ultimately have "(rw_step 5)\<^sup>*\<^sup>* (rwlock_init, 0, 0) (\<lparr>rwstate = 1, wr_waiting = 1\<rparr>, 1, 0)"
    by (metis (no_types) rtranclp.rtrancl_into_rtrancl rtranclp.rtrancl_refl)
  with rwlock_exclusion [OF this] show ?thesis by simp
qed

section \<open>Indexed semaphores\<close>

lemma isema_scan_first:
  assumes "k \<le> j" "j < n" "a ! j = 0" "\<forall>i. k \<le> i \<and> i < j \<longrightarrow> a ! i = 1" "n \<le> length a"
  shows "isema_scan n index k a = (j, a[j := 1])"
  using assms
proof (induction n index k a rule: isema_scan.induct)
  case (1 n index k a)
  show ?case
  proof (cases "k = j")
    case True
    with 1 show ?thesis by (simp add: isema_scan.simps [of n])
  next
    case False
    with 1(2-6) have k: "k < n" "a ! k = 1" by auto
    then have "a[k := 1] = a" by (metis list_update_id)
    with 1 k False show ?thesis by (simp add: isema_scan.simps [of n index k])
  qed
qed

lemma isema_scan_none:
  assumes "\<forall>i < n. k \<le> i \<longrightarrow> a ! i = 1"
  shows "isema_scan n index k a = (index, a)"
  using assms
proof (induction n index k a rule: isema_scan.induct)
  case (1 n index k a)
  then have "k < n \<Longrightarrow> a[k := 1] = a" by (metis list_update_id order_refl)
  with 1 show ?case by (cases "k < n") (simp_all add: isema_scan.simps [of n index k])
qed

lemma isema_full: "\<forall>i < n. a ! i = 1 \<Longrightarrow> isema_acquire n fuel a = None"
  by (induction fuel) (simp_all add: isema_scan_none)

text \<open>
  isema_acquire loses element 0. When element 0 is free the call takes it without
  returning it: it goes on to take and return the next free element j, so that two elements are
  used for one acquisition; when element 0 is the only free one, the call takes it and then never
  returns, whatever the number of rounds.
\<close>

theorem isema_loses_element_0:
  assumes "n \<le> length a" and "0 < n" and "a ! 0 = 0" and "0 < j" and "\<forall>i. 0 < i \<and> i < j \<longrightarrow> a ! i = 1"
  shows "(j < n \<and> a ! j = 0 \<longrightarrow> isema_acquire n (Suc (Suc fuel)) a = Some (j, a[0 := 1, j := 1])) \<and>
    (j = n \<longrightarrow> isema_acquire n fuel a = None)"
proof -
  have len: "0 < length a" using assms by linarith
  have first: "isema_scan n 0 0 a = (0, a[0 := 1])" using assms by (intro isema_scan_first) auto
  have "isema_scan n 0 0 (a[0 := 1]) = (j, a[0 := 1, j := 1])" if "j < n" "a ! j = 0"
    using assms that len by (intro isema_scan_first) (auto simp: nth_list_update)
  moreover have "isema_acquire n fuel' (a[0 := 1]) = None" if "j = n" for fuel'
    using assms that len by (intro isema_full) (auto simp: nth_list_update)
  ultimately show ?thesis using first assms(4) by (cases fuel) auto
qed

theorem isema_loses_element_0_witness:
  "isema_acquire 3 2 [0, 1, 0] = Some (2, [1, 1, 1]) \<and> isema_acquire 1 9 [0] = None"
proof -
  have "\<forall>i. 0 < i \<and> i < 2 \<longrightarrow> [0, 1, 0::int] ! i = 1" by (auto simp: less_2_cases_iff)
  moreover have "\<forall>i. 0 < i \<and> i < 1 \<longrightarrow> [0::int] ! i = 1" by auto
  ultimately show ?thesis
    using isema_loses_element_0 [of 3 "[0, 1, 0]" 2 0] isema_loses_element_0 [of 1 "[0]" 1 9]
    by (simp only: eval_nat_numeral) simp
qed

text \<open>
  sema_down never waits. The decremented value is below the old one, so the loop
  condition (value at least the old one) is false on the first test, for every value but the
  least int: a caller that found the semaphore exhausted proceeds at once.
\<close>

theorem sema_down_never_waits:
  assumes "- (2 ^ 31) < s" and "s < 2 ^ 31" and "sema_down s = ((ok, old), s')"
  shows "\<not> sema_down_again old s' \<and> (\<not> ok \<longrightarrow> s < 0)"
  using assms by (auto simp: sema_down_def sema_down_again_def Let_def)

theorem sema_down_never_waits_witness:
  "sema_down (- 1) = ((False, - 1), - 2) \<and> \<not> sema_down_again (- 1) (- 2)"
  using sema_down_never_waits [of "- 1" False "- 1" "- 2"] by (simp add: sema_down_def)

text \<open>
  The saved interrupt state is one global variable: taking a second DINT lock inside the first
  overwrites it, and interrupts stay masked after both were released.
\<close>

lemma dint_nesting_loses_state:
  "let c = demo_machine;
       a = mtx_init MTX_TYPE_SPIN MTX_OPT_DINT demo_mtx; b = mtx_init MTX_TYPE_SPIN MTX_OPT_DINT demo_mtx;
       (_, a1, c1) = the (mtx_lock (\<lambda>_. id) 1 (a, c));
       (_, b1, c2) = the (mtx_lock (\<lambda>_. id) 1 (b, c1));
       (b2, c3) = the (mtx_unlock (b1, c2));
       (a2, c4) = the (mtx_unlock (a1, c3))
   in \<not> int_masked c \<and> \<not> mtx_test a2 \<and> \<not> mtx_test b2 \<and> int_masked c4"
  by (simp add: mtx_lock_def mtx_eval demo_mtx_def demo_machine_def Let_def mtx_test_def)

text \<open>A failed \<open>mtx_trylock\<close> on a DINT spin lock leaves interrupts masked; on a ticket lock it does not.\<close>

lemma spin_trylock_leaves_interrupts_masked:
  assumes "m = mtx_init MTX_TYPE_SPIN MTX_OPT_DINT m0"
  shows "\<exists>m' c'. mtx_trylock (m\<lparr>locked := True\<rparr>, c) = Some (1, m', c') \<and> int_masked c'"
  using assms by (simp add: mtx_eval Let_def)

end
