(* ===== verification/Ksigs.thy ===== *)
theory Ksigs
  imports Sigset Kobj
begin

text \<open>
  The \<open>struct signals\<close> of a thread or process (\<^verbatim>\<open>kern/ksignal.c\<close>, \<^verbatim>\<open>kern/include/ksignal.h\<close>):
  masks, pending queue, configured actions, flags, lock and reference count, with the functions
  that work on one such struct. The tree of actions is keyed by the signal number, a map here.
  \<open>s_locked\<close> is the state of the ticket mutex; taking a held lock fails in a context with
  interrupts masked (the code uses \<open>mtx_trylock\<close> there) and spins otherwise, which is \<open>None\<close>, as
  is a failed \<open>KASSERT\<close> or a panic.
\<close>

section \<open>Data\<close>

abbreviation (input) SA_KILL :: u32 where "SA_KILL \<equiv> 0x01"
abbreviation (input) SA_CORE :: u32 where "SA_CORE \<equiv> 0x02"
abbreviation (input) SA_STOP :: u32 where "SA_STOP \<equiv> 0x04"
abbreviation (input) SA_TTYSTOP :: u32 where "SA_TTYSTOP \<equiv> 0x08"
abbreviation (input) SA_IGNORE :: u32 where "SA_IGNORE \<equiv> 0x10"
abbreviation (input) SA_CONT :: u32 where "SA_CONT \<equiv> 0x20"

abbreviation (input) SIG_DFL :: u32 where "SIG_DFL \<equiv> 0"
abbreviation (input) SIG_IGN :: u32 where "SIG_IGN \<equiv> 1"
abbreviation (input) SIG_ERR :: u32 where "SIG_ERR \<equiv> - 1"
abbreviation (input) SIG_HOLD :: u32 where "SIG_HOLD \<equiv> 3"

abbreviation (input) SIG_BLOCK :: int where "SIG_BLOCK \<equiv> 1"
abbreviation (input) SIG_UNBLOCK :: int where "SIG_UNBLOCK \<equiv> 2"
abbreviation (input) SIG_SETMASK :: int where "SIG_SETMASK \<equiv> 4"

abbreviation (input) SIG_MAX :: int where "SIG_MAX \<equiv> 32"
abbreviation (input) SIG_UMAX :: int where "SIG_UMAX \<equiv> 31"
abbreviation (input) SIGKILL :: int where "SIGKILL \<equiv> 9"
abbreviation (input) SIGCHLDTHRD :: int where "SIGCHLDTHRD \<equiv> 26"
abbreviation (input) SIGMTX :: int where "SIGMTX \<equiv> 28"

abbreviation (input) KSIGFLAG_INTERRUPTIBLE :: u32 where "KSIGFLAG_INTERRUPTIBLE \<equiv> 0x01"
abbreviation (input) KSIGFLAG_SIGHANDLER :: u32 where "KSIGFLAG_SIGHANDLER \<equiv> 0x02"
abbreviation (input) KSIGFLAG_SA_KILL :: u32 where "KSIGFLAG_SA_KILL \<equiv> 0x10"

record sigaction =
  sa_mask :: sigset_t
  sa_flags :: u32
  sa_handler :: u32

record ksigaction =
  ks_signum :: int
  ks_action :: sigaction

record siginfo =
  si_signo :: int
  si_code :: int
  si_errno :: int
  si_tid :: int
  si_pid :: int
  si_uid :: nat
  si_addr :: nat
  si_status :: int
  si_value :: int

record ksignal_param =
  par_code :: int
  par_errno :: int
  par_addr :: nat
  par_status :: int
  par_value :: int

datatype signals_owner = SIGNALS_OWNER_UNSET | SIGNALS_OWNER_PROCESS | SIGNALS_OWNER_THREAD

record signals =
  s_owner_type :: signals_owner
  s_flags :: u32
  s_block :: sigset_t
  s_wait :: sigset_t
  s_running :: sigset_t
  s_pendqueue :: "siginfo list"
  sa_tree :: "int \<rightharpoonup> ksigaction"
  s_locked :: bool
  s_obj :: kobj

text \<open>The default actions, indexed by signal number.\<close>

definition default_sigproptbl :: "u32 list" where
  "default_sigproptbl =
     [SA_IGNORE, SA_KILL, SA_KILL, SA_KILL OR SA_CORE, SA_KILL OR SA_CORE, SA_KILL OR SA_CORE,
      SA_KILL OR SA_CORE, SA_IGNORE, SA_KILL OR SA_CORE, SA_KILL, SA_KILL OR SA_CORE,
      SA_KILL OR SA_CORE, SA_IGNORE OR SA_CONT, SA_KILL, SA_KILL, SA_KILL, SA_STOP,
      SA_STOP OR SA_TTYSTOP, SA_STOP OR SA_TTYSTOP, SA_STOP OR SA_TTYSTOP, SA_KILL, SA_KILL,
      SA_KILL OR SA_CORE, SA_IGNORE, SA_IGNORE, SA_KILL, SA_IGNORE, SA_KILL, SA_IGNORE, SA_IGNORE,
      SA_IGNORE, SA_IGNORE]"

definition KSIGFLAG_IS_SET :: "signals \<Rightarrow> u32 \<Rightarrow> bool" where
  "KSIGFLAG_IS_SET s f \<longleftrightarrow> s_flags s AND f = f"

definition KSIGFLAG_SET :: "u32 \<Rightarrow> signals \<Rightarrow> signals" where
  "KSIGFLAG_SET f s = s\<lparr>s_flags := s_flags s OR f\<rparr>"

definition KSIGFLAG_CLEAR :: "u32 \<Rightarrow> signals \<Rightarrow> signals" where
  "KSIGFLAG_CLEAR f s = s\<lparr>s_flags := s_flags s AND NOT f\<rparr>"

section \<open>Operations on one struct\<close>

text \<open>\<open>masked\<close>: interrupts are masked, so the lock is only tried.\<close>

definition ksig_lock :: "bool \<Rightarrow> signals \<Rightarrow> (int \<times> signals) option" where
  "ksig_lock masked s =
     (if s_locked s then if masked then Some (1, s) else None
      else Some (0, s\<lparr>s_locked := True\<rparr>))"

definition ksig_unlock :: "signals \<Rightarrow> signals" where
  "ksig_unlock s = s\<lparr>s_locked := False\<rparr>"

definition ksig_testlock :: "signals \<Rightarrow> bool" where
  "ksig_testlock s = s_locked s"

definition ksignal_signals_ctor :: "signals_owner \<Rightarrow> signals \<Rightarrow> signals" where
  "ksignal_signals_ctor owner_type s = s\<lparr>s_pendqueue := [], sa_tree := Map.empty,
     s_block := snd (sigemptyset (s_block s)), s_wait := snd (sigemptyset (s_wait s)),
     s_running := snd (sigemptyset (s_running s)), s_locked := False, s_obj := kobj_init,
     s_owner_type := owner_type\<rparr>"

definition ksignal_signals_dtor :: "signals \<Rightarrow> signals option" where
  "ksignal_signals_dtor s = do { (_, ko) \<leftarrow> kobj_unref (s_obj s); Some (s\<lparr>s_obj := ko\<rparr>) }"

text \<open>
  \<open>ksignal_signals_fork_reinit\<close>: the actions are cloned one by one into a new tree; \<open>mem_ok\<close>
  says that every \<open>kmalloc\<close> succeeded.
\<close>

definition ksignal_signals_fork_reinit :: "bool \<Rightarrow> signals \<Rightarrow> signals option" where
  "ksignal_signals_fork_reinit mem_ok s =
     (if \<not> mem_ok \<and> sa_tree s \<noteq> Map.empty then None
      else Some (s\<lparr>s_pendqueue := [], sa_tree := (\<lambda>n. sa_tree s n), s_locked := False\<rparr>))"

definition ksignal_isblocked :: "signals \<Rightarrow> int \<Rightarrow> bool option" where
  "ksignal_isblocked s signum =
     (if \<not> ksig_testlock s then None else Some (sigismember (s_block s) signum \<noteq> 0))"

text \<open>Taking the reference and the lock of a struct; the pair that opens most entry points.\<close>

definition sigs_acquire :: "bool \<Rightarrow> signals \<Rightarrow> (bool \<times> signals) option" where
  "sigs_acquire masked s = do {
     (err, ko) \<leftarrow> kobj_ref (s_obj s);
     let s = s\<lparr>s_obj := ko\<rparr>;
     if err \<noteq> 0 then Some (False, s)
     else do {
       (e, s) \<leftarrow> ksig_lock masked s;
       if e \<noteq> 0 then do { (_, ko) \<leftarrow> kobj_unref (s_obj s); Some (False, s\<lparr>s_obj := ko\<rparr>) }
       else Some (True, s) } }"

definition sigs_release :: "signals \<Rightarrow> signals option" where
  "sigs_release s = do {
     let s = ksig_unlock s;
     (_, ko) \<leftarrow> kobj_unref (s_obj s);
     Some (s\<lparr>s_obj := ko\<rparr>) }"

text \<open>The change of the block mask: \<open>newset\<close> is the new set or \<open>None\<close> for a null pointer.\<close>

definition mask_change :: "int \<Rightarrow> sigset_t option \<Rightarrow> sigset_t \<Rightarrow> int \<times> sigset_t" where
  "mask_change how newset cur =
     (case newset of
        None \<Rightarrow> (0, cur)
      | Some st \<Rightarrow>
          if how = SIG_BLOCK then (0, sigunion cur st)
          else if how = SIG_SETMASK then (0, st)
          else if how = SIG_UNBLOCK then (0, sigintersect cur (sigcompl st))
          else (- EINVAL, cur))"

definition ksignal_sigsmask :: "bool \<Rightarrow> int \<Rightarrow> sigset_t option \<Rightarrow> signals
    \<Rightarrow> (int \<times> sigset_t option \<times> signals) option" where
  "ksignal_sigsmask masked how newset s = do {
     (got, s) \<leftarrow> sigs_acquire masked s;
     if \<not> got then Some (- EAGAIN, None, s)
     else do {
       let oldset = s_block s;
       let (retval, b) = mask_change how newset (s_block s);
       s \<leftarrow> sigs_release (s\<lparr>s_block := b\<rparr>);
       Some (retval, Some oldset, s) } }"

definition default_action :: "int \<Rightarrow> ksigaction" where
  "default_action signum = \<lparr>ks_signum = signum, ks_action = \<lparr>sa_mask = empty_sigset,
     sa_flags = (if signum < 32 then default_sigproptbl ! nat signum else SA_IGNORE),
     sa_handler = SIG_DFL\<rparr>\<rparr>"

definition ksignal_get_ksigaction :: "signals \<Rightarrow> int \<Rightarrow> ksigaction option" where
  "ksignal_get_ksigaction s signum =
     (if \<not> signum \<ge> 0 \<or> \<not> ksig_testlock s then None
      else Some (case sa_tree s signum of Some a \<Rightarrow> a | None \<Rightarrow> default_action signum))"

definition ksignal_reset_ksigaction :: "int \<Rightarrow> signals \<Rightarrow> (int \<times> signals) option" where
  "ksignal_reset_ksigaction signum s =
     (if signum < 0 \<or> signum \<ge> 32 then Some (- EINVAL, s)
      else if \<not> ksig_testlock s then None
      else Some (0, s\<lparr>sa_tree := (sa_tree s)(signum := None)\<rparr>))"

text \<open>
  The test whether a stored action equals the default and can be dropped. The C expression
  \<open>sa_flags == (signum < 32) ? default[signum] : SA_IGNORE\<close> compares first and selects
  afterwards, so its value is the selected flag word.
\<close>

definition action_removable :: "int \<Rightarrow> sigaction \<Rightarrow> bool" where
  "action_removable signum a \<longleftrightarrow> sigisemptyset (sa_mask a) \<noteq> 0 \<and>
     (if sa_flags a = (if signum < 32 then 1 else 0) then default_sigproptbl ! nat signum else SA_IGNORE) \<noteq> 0 \<and>
     sa_handler a = SIG_DFL"

text \<open>
  \<open>ksignal_set_ksigaction\<close>: the result of the \<open>kmalloc\<close> for a new entry is used unchecked;
  \<open>mem_ok\<close> says it succeeded.
\<close>

definition ksignal_set_ksigaction :: "bool \<Rightarrow> ksigaction option \<Rightarrow> signals \<Rightarrow> (int \<times> signals) option" where
  "ksignal_set_ksigaction mem_ok action s =
     (if \<not> ksig_testlock s then None
      else case action of
        None \<Rightarrow> Some (- EINVAL, s)
      | Some a \<Rightarrow>
          let signum = ks_signum a
          in if \<not> (signum > 0 \<and> signum < SIG_MAX) then Some (- EINVAL, s)
             else if sa_tree s signum = None \<and> \<not> mem_ok then None
             else
               let tree = (sa_tree s)(signum \<mapsto> a);
                   tree' = (if action_removable signum (ks_action a) then tree(signum := None) else tree)
               in Some (0, s\<lparr>sa_tree := tree'\<rparr>))"

text \<open>\<open>eval_inkernel_action\<close>: 0, 1 and -1 of the code.\<close>

definition eval_inkernel_action :: "ksigaction \<Rightarrow> int" where
  "eval_inkernel_action action =
     (let h = sa_handler (ks_action action)
      in if h = SIG_DFL then if sa_flags (ks_action action) AND SA_KILL \<noteq> 0 then 0 else 1
         else if h = SIG_IGN then 0
         else if h = SIG_ERR \<or> h = SIG_HOLD then - 1
         else 1)"

definition is_valid_usignum :: "int \<Rightarrow> bool" where
  "is_valid_usignum signum \<longleftrightarrow> 0 < signum \<and> signum < SIG_UMAX"

lemmas ksigs_eval = KSIGFLAG_IS_SET_def KSIGFLAG_SET_def KSIGFLAG_CLEAR_def ksig_lock_def ksig_unlock_def
  ksig_testlock_def ksignal_isblocked_def mask_change_def default_action_def ksignal_get_ksigaction_def
  ksignal_reset_ksigaction_def action_removable_def ksignal_set_ksigaction_def
  eval_inkernel_action_def is_valid_usignum_def

section \<open>The invariant of the struct\<close>

text \<open>
  Well-formed masks, a live reference count of \<open>n\<close> below the limit, and every stored action filed
  under its own number, with a well-formed mask.
\<close>

definition sigs_ok :: "signals \<Rightarrow> nat \<Rightarrow> bool" where
  "sigs_ok s n \<longleftrightarrow> sig_wf (s_block s) \<and> sig_wf (s_wait s) \<and> sig_wf (s_running s) \<and>
     live (s_obj s) n \<and> \<not> dying (s_obj s) \<and> Suc n < 2 ^ 31 \<and>
     (\<forall>k a. sa_tree s k = Some a \<longrightarrow> ks_signum a = k \<and> sig_wf (sa_mask (ks_action a)))"

lemma sigs_ok_ref: "sigs_ok s n \<Longrightarrow> kobj_ref (s_obj s) = Some (0, (s_obj s)\<lparr>ko_refcount := int n + 1\<rparr>)"
  using kobj_ref_live [of "s_obj s" n] by (simp add: sigs_ok_def)

lemma sigs_acquire_ok:
  assumes "sigs_ok s n" and "\<not> s_locked s"
  shows "sigs_acquire masked s = Some (True, s\<lparr>s_obj := (s_obj s)\<lparr>ko_refcount := int n + 1\<rparr>, s_locked := True\<rparr>)"
  using assms by (simp add: sigs_acquire_def sigs_ok_ref [OF assms(1)] ksig_lock_def Let_def)

lemma kobj_ref_unref:
  assumes "live p n" and "int n + 1 < 2 ^ 31"
  shows "kobj_unref (p\<lparr>ko_refcount := int n + 1\<rparr>) = Some (False, p)"
proof -
  have "live (p\<lparr>ko_refcount := int n + 1\<rparr>) (Suc n)" using assms by (auto simp: live_def)
  from kobj_unref_live [OF this] assms show ?thesis by (auto simp: live_def)
qed

lemma sigs_release_ok:
  assumes "live p n" "Suc n < 2 ^ 31" and "s_obj s = p\<lparr>ko_refcount := int n + 1\<rparr>"
  shows "sigs_release s = Some (s\<lparr>s_locked := False, s_obj := p\<rparr>)"
proof -
  have "int n + 1 < 2 ^ 31" using assms(2) by simp
  then show ?thesis using kobj_ref_unref [OF assms(1)] assms(3) by (simp add: sigs_release_def ksig_unlock_def)
qed

lemma sigs_acquire_busy:
  assumes "sigs_ok s n" and "s_locked s"
  shows "sigs_acquire True s = Some (False, s)"
proof -
  have "int n + 1 < 2 ^ 31" using assms(1) by (simp add: sigs_ok_def)
  then show ?thesis using assms kobj_ref_unref [of "s_obj s" n]
    by (simp add: sigs_acquire_def sigs_ok_ref [OF assms(1)] ksig_lock_def Let_def sigs_ok_def)
qed

lemma ctor_ok:
  assumes "sig_wf (s_block s)" "sig_wf (s_wait s)" "sig_wf (s_running s)"
  shows "sigs_ok (ksignal_signals_ctor owner s) 1 \<and> \<not> s_locked (ksignal_signals_ctor owner s)"
  using assms live_init by (simp add: sigs_ok_def ksignal_signals_ctor_def sigset_wf)

lemma default_action_wf: "sig_wf (sa_mask (ks_action (default_action n)))" "ks_signum (default_action n) = n"
  by (simp_all add: default_action_def)

lemma default_tbl_nonzero: "0 \<le> n \<Longrightarrow> n < 32 \<Longrightarrow> default_sigproptbl ! nat n \<noteq> 0"
proof -
  have "list_all (\<lambda>x. x \<noteq> 0) default_sigproptbl \<and> length default_sigproptbl = 32"
    by (simp add: default_sigproptbl_def)
  then have "i < 32 \<Longrightarrow> default_sigproptbl ! i \<noteq> 0" for i by (simp add: list_all_length)
  then show "0 \<le> n \<Longrightarrow> n < 32 \<Longrightarrow> ?thesis" by simp
qed

text \<open>The flag comparison never decides: an action is dropped by its mask and handler alone.\<close>

lemma action_removable_iff:
  assumes "0 < signum" "signum < 32" "sig_wf (sa_mask a)"
  shows "action_removable signum a \<longleftrightarrow> sigs (sa_mask a) = {} \<and> sa_handler a = SIG_DFL"
  using assms default_tbl_nonzero [of signum]
  by (auto simp: action_removable_def sigisemptyset_iff)

lemma set_ksigaction_ok:
  assumes "s_locked s" "0 < ks_signum a" "ks_signum a < 32" "sig_wf (sa_mask (ks_action a))"
  shows "ksignal_set_ksigaction True (Some a) s = Some (0, s\<lparr>sa_tree := (sa_tree s)(ks_signum a :=
     (if sigs (sa_mask (ks_action a)) = {} \<and> sa_handler (ks_action a) = SIG_DFL then None else Some a))\<rparr>)"
  using assms
  by (simp add: ksignal_set_ksigaction_def ksig_testlock_def action_removable_iff Let_def)

section \<open>Properties\<close>

text \<open>
  Signal masks. On an unlocked struct ksignal_sigsmask returns the old mask and changes the
  set of blocked signals to its union with the given set (SIG_BLOCK), the given set (SIG_SETMASK)
  or its difference with it (SIG_UNBLOCK); a null set changes nothing and an unknown how is EINVAL
  and changes nothing. Lock, reference count and every other field are as before. When the lock is
  held and interrupts are masked the answer is EAGAIN with the struct untouched.
\<close>

theorem sigsmask_changes_mask:
  assumes "sigs_ok s n"
  shows "(\<not> s_locked s \<longrightarrow> (\<exists>b. ksignal_sigsmask masked how newset s =
        Some (if newset = None \<or> how \<in> {SIG_BLOCK, SIG_SETMASK, SIG_UNBLOCK} then 0 else - EINVAL,
              Some (s_block s), s\<lparr>s_block := b\<rparr>) \<and>
      sigs b = (case newset of None \<Rightarrow> sigs (s_block s)
        | Some t \<Rightarrow> if how = SIG_BLOCK then sigs (s_block s) \<union> sigs t
            else if how = SIG_SETMASK then sigs t
            else if how = SIG_UNBLOCK then sigs (s_block s) - sigs t else sigs (s_block s)))) \<and>
    (s_locked s \<longrightarrow> ksignal_sigsmask True how newset s = Some (- EAGAIN, None, s))"
proof (intro conjI impI)
  assume l: "\<not> s_locked s"
  obtain r b where rb: "mask_change how newset (s_block s) = (r, b)" by force
  have "live (s_obj s) n" "Suc n < 2 ^ 31" using assms by (simp_all add: sigs_ok_def)
  then have "ksignal_sigsmask masked how newset s = Some (r, Some (s_block s), s\<lparr>s_block := b\<rparr>)"
    using sigs_acquire_ok [OF assms l] sigs_release_ok [of "s_obj s" n] l rb
    by (simp add: ksignal_sigsmask_def)
  moreover have "r = (if newset = None \<or> how \<in> {1, 4, 2} then 0 else - EINVAL) \<and>
      sigs b = (case newset of None \<Rightarrow> sigs (s_block s)
        | Some t \<Rightarrow> if how = SIG_BLOCK then sigs (s_block s) \<union> sigs t
            else if how = SIG_SETMASK then sigs t
            else if how = SIG_UNBLOCK then sigs (s_block s) - sigs t else sigs (s_block s))"
    using rb by (auto simp: mask_change_def sset.remove_law sset.union_law split: option.splits if_splits)
  ultimately show "\<exists>b. ksignal_sigsmask masked how newset s =
        Some (if newset = None \<or> how \<in> {SIG_BLOCK, SIG_SETMASK, SIG_UNBLOCK} then 0 else - EINVAL,
              Some (s_block s), s\<lparr>s_block := b\<rparr>) \<and>
      sigs b = (case newset of None \<Rightarrow> sigs (s_block s)
        | Some t \<Rightarrow> if how = SIG_BLOCK then sigs (s_block s) \<union> sigs t
            else if how = SIG_SETMASK then sigs t
            else if how = SIG_UNBLOCK then sigs (s_block s) - sigs t else sigs (s_block s))"
    by blast
next
  assume "s_locked s"
  then show "ksignal_sigsmask True how newset s = Some (- EAGAIN, None, s)"
    using sigs_acquire_busy [OF assms] by (simp add: ksignal_sigsmask_def)
qed

definition demo_sigs :: signals where
  "demo_sigs = \<lparr>s_owner_type = SIGNALS_OWNER_THREAD, s_flags = 0, s_block = empty_sigset,
     s_wait = empty_sigset, s_running = empty_sigset, s_pendqueue = [], sa_tree = Map.empty,
     s_locked = False, s_obj = kobj_init\<rparr>"

lemma demo_sigs_ok: "sigs_ok demo_sigs 1"
  using live_init by (simp add: sigs_ok_def demo_sigs_def)

theorem sigsmask_changes_mask_witness:
  "\<exists>b. ksignal_sigsmask False SIG_BLOCK (Some (snd (sigaddset empty_sigset 15))) demo_sigs =
     Some (0, Some empty_sigset, demo_sigs\<lparr>s_block := b\<rparr>) \<and> sigs b = {15}"
  using sigsmask_changes_mask [OF demo_sigs_ok, of False SIG_BLOCK "Some (snd (sigaddset empty_sigset 15))"]
  by (simp add: demo_sigs_def sigaddset_ok)

text \<open>
  Signal actions are stored and found. With the lock held, after ksignal_set_ksigaction of an
  action with a valid number the other signals keep their action, and ksignal_get_ksigaction
  returns the stored action, except that an action with the default handler and an empty mask is
  replaced by the default action whatever its flags: the comparison of the flags with the default
  ones never takes part in the decision. A number outside 1..31 is refused with EINVAL.
\<close>

theorem sigaction_set_get:
  assumes "s_locked s" and "sig_wf (sa_mask (ks_action a))"
  shows "(if 0 < ks_signum a \<and> ks_signum a < SIG_MAX then
      \<exists>s'. ksignal_set_ksigaction True (Some a) s = Some (0, s') \<and>
        ksignal_get_ksigaction s' (ks_signum a) =
          Some (if sigs (sa_mask (ks_action a)) = {} \<and> sa_handler (ks_action a) = SIG_DFL
                then default_action (ks_signum a) else a) \<and>
        (k \<noteq> ks_signum a \<longrightarrow> ksignal_get_ksigaction s' k = ksignal_get_ksigaction s k)
    else ksignal_set_ksigaction True (Some a) s = Some (- EINVAL, s))"
proof (cases "0 < ks_signum a \<and> ks_signum a < 32")
  case True
  with set_ksigaction_ok [OF assms(1) _ _ assms(2)] assms(1) show ?thesis
    by (auto simp: ksignal_get_ksigaction_def ksig_testlock_def)
next
  case False
  with assms(1) show ?thesis by (auto simp: ksignal_set_ksigaction_def ksig_testlock_def Let_def)
qed

theorem sigaction_set_get_witness:
  "\<exists>s'. ksignal_set_ksigaction True (Some \<lparr>ks_signum = 7, ks_action = \<lparr>sa_mask = empty_sigset, sa_flags = 0x2000,
        sa_handler = SIG_DFL\<rparr>\<rparr>) (demo_sigs\<lparr>s_locked := True\<rparr>) = Some (0, s') \<and>
     ksignal_get_ksigaction s' 7 = Some (default_action 7)"
  using sigaction_set_get [of "demo_sigs\<lparr>s_locked := True\<rparr>" "\<lparr>ks_signum = 7, ks_action = \<lparr>sa_mask = empty_sigset,
      sa_flags = 0x2000, sa_handler = SIG_DFL\<rparr>\<rparr>" 8]
  by auto

end
