(* ===== verification/Sched.thy ===== *)
theory Sched
  imports Ksigs Priv
begin

text \<open>
  Threads and scheduling (\<^verbatim>\<open>kern/sched/sched.c\<close>, \<^verbatim>\<open>thread_flags.c\<close>, \<^verbatim>\<open>sched_rr.c\<close>,
  \<^verbatim>\<open>sched_fifo.c\<close>, \<^verbatim>\<open>idle.c\<close>). The state of the kernel that these functions share is the record \<open>kern\<close>: the
  thread structs by thread id (an id stands for the pointer, a missing entry for memory that was
  never allocated, so following it is \<open>None\<close>), the ids in the thread map, the ready queue, the run
  queues of the round robin and FIFO policies, the idle thread, the queue of structs to be freed and the
  process table. Functions that take and release a lock are one step.
\<close>

section \<open>Threads\<close>

datatype thread_state = THREAD_STATE_INIT | THREAD_STATE_READY | THREAD_STATE_EXEC
  | THREAD_STATE_BLOCKED | THREAD_STATE_DEAD

abbreviation (input) SCHED_IN_USE_FLAG :: u32 where "SCHED_IN_USE_FLAG \<equiv> 0x01"
abbreviation (input) SCHED_DETACH_FLAG :: u32 where "SCHED_DETACH_FLAG \<equiv> 0x02"
abbreviation (input) SCHED_INSYS_FLAG :: u32 where "SCHED_INSYS_FLAG \<equiv> 0x04"
abbreviation (input) SCHED_INTERNAL_FLAG :: u32 where "SCHED_INTERNAL_FLAG \<equiv> 0x20"
abbreviation (input) SCHED_YIELD_FLAG :: u32 where "SCHED_YIELD_FLAG \<equiv> 0x40"
abbreviation (input) SCHED_POLFLAG_INRRRQ :: u32 where "SCHED_POLFLAG_INRRRQ \<equiv> 0x01"

abbreviation (input) SCHED_FIFO :: nat where "SCHED_FIFO \<equiv> 0"
abbreviation (input) SCHED_OTHER :: nat where "SCHED_OTHER \<equiv> 1"
abbreviation (input) NICE_MIN :: int where "NICE_MIN \<equiv> - 20"
abbreviation (input) NICE_MAX :: int where "NICE_MAX \<equiv> 20"
abbreviation (input) NICE_ERR :: int where "NICE_ERR \<equiv> - 100"
abbreviation (input) NZERO :: int where "NZERO \<equiv> 0"
abbreviation (input) TMNOVAL :: int where "TMNOVAL \<equiv> - 1"

record thread_info =
  tid :: int
  flags :: u32
  pid_owner :: int
  tstate :: thread_state
  policy_flags :: u32
  ts_counter :: int
  fifo_prio :: int
  sched_policy :: nat
  sched_priority :: int
  wait_tim :: int
  tretval :: int
  exit_ksiginfo :: "siginfo option"
  tsigs :: signals
  sigwait_retval :: "siginfo option"
  parent :: "int option"
  first_child :: "int option"
  next_child :: "int option"

record proc_info =
  main_thread :: "int option"
  nice :: int
  pcred :: cred
  psigs :: signals
  zombie :: bool
  pexit_ksiginfo :: "siginfo option"
  fds_closed :: bool
  usigret :: nat

record kern =
  thr :: "int \<rightharpoonup> thread_info"
  threadmap :: "int set"
  readyq :: "int list"
  rr_runq :: "int list"
  rr_nr_active :: nat
  fifo_runq :: "int list"
  fifo_nr_active :: nat
  idle_info :: "int option"
  current_thread :: int
  curpid :: int
  int_off :: bool
  saved_istate :: bool
  thread_free_queue :: "int list"
  released_tims :: "int list"
  anr_threads :: int
  procs :: "int \<rightharpoonup> proc_info"

definition upd_thread :: "int \<Rightarrow> (thread_info \<Rightarrow> thread_info) \<Rightarrow> kern \<Rightarrow> kern option" where
  "upd_thread t f k = do { th \<leftarrow> thr k t; Some (k\<lparr>thr := (thr k)(t \<mapsto> f th)\<rparr>) }"

definition thread_flags_set :: "u32 \<Rightarrow> thread_info \<Rightarrow> thread_info" where
  "thread_flags_set fm th = th\<lparr>flags := flags th OR fm\<rparr>"

definition thread_flags_clear :: "u32 \<Rightarrow> thread_info \<Rightarrow> thread_info" where
  "thread_flags_clear fm th = th\<lparr>flags := flags th AND NOT fm\<rparr>"

definition thread_flags_get :: "thread_info \<Rightarrow> u32" where
  "thread_flags_get th = flags th"

definition thread_flags_is_set :: "thread_info \<Rightarrow> u32 \<Rightarrow> bool" where
  "thread_flags_is_set th fm \<longleftrightarrow> thread_flags_get th AND fm = fm"

definition thread_flags_not_set :: "thread_info \<Rightarrow> u32 \<Rightarrow> bool" where
  "thread_flags_not_set th fm \<longleftrightarrow> thread_flags_get th AND fm = 0"

definition thread_state_get :: "thread_info \<Rightarrow> thread_state" where
  "thread_state_get th = tstate th"

text \<open>A dead thread stays dead.\<close>

definition thread_state_set :: "thread_state \<Rightarrow> thread_info \<Rightarrow> thread_state \<times> thread_info" where
  "thread_state_set st th =
     (tstate th, if tstate th \<noteq> THREAD_STATE_DEAD then th\<lparr>tstate := st\<rparr> else th)"

definition thread_test_polflag :: "thread_info \<Rightarrow> u32 \<Rightarrow> bool" where
  "thread_test_polflag th flag \<longleftrightarrow> policy_flags th AND flag = flag"

section \<open>The thread map and the ready queue\<close>

definition thread_lookup :: "kern \<Rightarrow> int \<Rightarrow> int option" where
  "thread_lookup k t = (if t \<in> threadmap k then Some t else None)"

definition thread_ready :: "int \<Rightarrow> kern \<Rightarrow> (int \<times> kern) option" where
  "thread_ready t k =
     (case thread_lookup k t of
        None \<Rightarrow> Some (- ESRCH, k)
      | Some p \<Rightarrow> do {
          th \<leftarrow> thr k p;
          if thread_state_get th = THREAD_STATE_DEAD then Some (- ESRCH, k)
          else do {
            let (prev, th') = thread_state_set THREAD_STATE_READY th;
            let k = k\<lparr>thr := (thr k)(p \<mapsto> th')\<rparr>;
            if prev = THREAD_STATE_READY then Some (0, k)
            else Some (0, k\<lparr>readyq := readyq k @ [p]\<rparr>) } })"

definition thread_remove_ready :: "kern \<Rightarrow> int option \<times> kern" where
  "thread_remove_ready k =
     (case readyq k of [] \<Rightarrow> (None, k) | t # ts \<Rightarrow> (Some t, k\<lparr>readyq := ts\<rparr>))"

text \<open>\<open>thread_wait\<close> up to its wait loop; the loop ends when the thread is scheduled again.\<close>

definition thread_wait :: "kern \<Rightarrow> kern option" where
  "thread_wait k = do {
     k \<leftarrow> upd_thread (current_thread k) (\<lambda>th. snd (thread_state_set THREAD_STATE_BLOCKED th)) k;
     Some (k\<lparr>int_off := False\<rparr>) }"

definition thread_release :: "int \<Rightarrow> kern \<Rightarrow> kern option" where
  "thread_release t k = map_option snd (thread_ready t k)"

definition timers_release :: "int \<Rightarrow> kern \<Rightarrow> kern" where
  "timers_release i k = k\<lparr>released_tims := released_tims k @ [i]\<rparr>"

definition timer_event_sleep :: "int \<Rightarrow> kern \<Rightarrow> kern option" where
  "timer_event_sleep t k = do {
     th \<leftarrow> thr k t;
     let k = timers_release (wait_tim th) k;
     k \<leftarrow> upd_thread t (\<lambda>th. th\<lparr>wait_tim := TMNOVAL\<rparr>) k;
     thread_release t k }"

text \<open>
  \<open>thread_sleep\<close>: \<open>timer_id\<close> is the first nonnegative result of \<open>timers_add\<close> that ended the
  retry loop.
\<close>

definition thread_sleep :: "int \<Rightarrow> kern \<Rightarrow> kern option" where
  "thread_sleep timer_id k = do {
     k \<leftarrow> upd_thread (current_thread k) (\<lambda>th. th\<lparr>wait_tim := timer_id\<rparr>) k;
     thread_wait k }"

definition timer_event_alarm :: "int \<Rightarrow> kern \<Rightarrow> kern option" where
  "timer_event_alarm t k = thread_release t k"

text \<open>\<open>thread_alarm\<close>: \<open>timer_id\<close> is the result of \<open>timers_add\<close>.\<close>

definition thread_alarm :: "int \<Rightarrow> kern \<Rightarrow> (int \<times> kern) option" where
  "thread_alarm timer_id k =
     (if timer_id < 0 then Some (- EAGAIN, k)
      else do {
        k \<leftarrow> upd_thread (current_thread k) (\<lambda>th. th\<lparr>wait_tim := timer_id\<rparr>) k;
        Some (timer_id, k) })"

definition thread_alarm_rele :: "int \<Rightarrow> kern \<Rightarrow> kern option" where
  "thread_alarm_rele timer_id k =
     upd_thread (current_thread k)
       (\<lambda>th. if wait_tim th = timer_id then th\<lparr>wait_tim := TMNOVAL\<rparr> else th) (timers_release timer_id k)"

text \<open>\<open>thread_yield\<close>: the immediate strategy enters the scheduler with interrupts masked and
  restores their state, so only the flag is left.\<close>

definition thread_yield :: "kern \<Rightarrow> kern option" where
  "thread_yield k = upd_thread (current_thread k) (thread_flags_set SCHED_YIELD_FLAG) k"

section \<open>Policy and priority\<close>

text \<open>The thread found by id, if it is in use.\<close>

definition lookup_in_use :: "kern \<Rightarrow> int \<Rightarrow> thread_info option option" where
  "lookup_in_use k t =
     (case thread_lookup k t of
        None \<Rightarrow> Some None
      | Some p \<Rightarrow> do {
          th \<leftarrow> thr k p;
          Some (if thread_flags_not_set th SCHED_IN_USE_FLAG then None else Some th) })"

definition thread_set_policy :: "int \<Rightarrow> nat \<Rightarrow> kern \<Rightarrow> (int \<times> kern) option" where
  "thread_set_policy t policy k = do {
     r \<leftarrow> lookup_in_use k t;
     case r of
       None \<Rightarrow> Some (- ESRCH, k)
     | Some th \<Rightarrow>
         if policy > SCHED_OTHER then Some (- EINVAL, k)
         else Some (0, k\<lparr>thr := (thr k)(t \<mapsto> th\<lparr>sched_policy := policy\<rparr>)\<rparr>) }"

definition thread_get_policy :: "int \<Rightarrow> kern \<Rightarrow> int option" where
  "thread_get_policy t k = do {
     r \<leftarrow> lookup_in_use k t;
     Some (case r of None \<Rightarrow> - ESRCH | Some th \<Rightarrow> int (sched_policy th)) }"

definition thread_set_priority :: "int \<Rightarrow> int \<Rightarrow> kern \<Rightarrow> (int \<times> kern) option" where
  "thread_set_priority t priority k = do {
     r \<leftarrow> lookup_in_use k t;
     case r of
       None \<Rightarrow> Some (- ESRCH, k)
     | Some th \<Rightarrow>
         if \<not> (NICE_MIN \<le> priority \<and> priority \<le> NICE_MAX) then Some (- EACCES, k)
         else Some (0, k\<lparr>thr := (thr k)(t \<mapsto> th\<lparr>sched_priority := priority\<rparr>)\<rparr>) }"

definition thread_get_priority :: "int \<Rightarrow> kern \<Rightarrow> int option" where
  "thread_get_priority t k = do {
     r \<leftarrow> lookup_in_use k t;
     Some (case r of None \<Rightarrow> NICE_ERR | Some th \<Rightarrow> sched_priority th) }"

text \<open>The macro as it is written: the bounds are swapped.\<close>

definition NICE_RANGE :: "int \<Rightarrow> int" where
  "NICE_RANGE p = min (max p NICE_MAX) NICE_MIN"

definition thread_p_get_scheduling_priority :: "kern \<Rightarrow> thread_info \<Rightarrow> int" where
  "thread_p_get_scheduling_priority k th =
     (if thread_flags_not_set th SCHED_IN_USE_FLAG then NICE_ERR
      else let prio = sched_priority th
        in if prio = NICE_ERR then NICE_ERR
           else case procs k (pid_owner th) of
             None \<Rightarrow> prio
           | Some p \<Rightarrow> NICE_RANGE (prio + nice p))"

section \<open>Removal\<close>

definition proc_thread_removed :: "int \<Rightarrow> int \<Rightarrow> kern \<Rightarrow> kern option" where
  "proc_thread_removed pid t k =
     (case procs k pid of
        None \<Rightarrow> Some k
      | Some p \<Rightarrow>
          if main_thread p = Some t then do {
            th \<leftarrow> thr k t;
            let p = (case exit_ksiginfo th of None \<Rightarrow> p | Some i \<Rightarrow> p\<lparr>pexit_ksiginfo := Some i\<rparr>);
            sg \<leftarrow> ksignal_signals_dtor (psigs p);
            Some (k\<lparr>procs := (procs k)(pid \<mapsto> p\<lparr>main_thread := None, zombie := True, psigs := sg, fds_closed := True\<rparr>)\<rparr>) }
          else Some k)"

text \<open>\<open>freeq_size\<close> is \<open>configSCHED_FREEQ_SIZE\<close>: the ring buffer holds one element less.\<close>

definition thread_remove :: "nat \<Rightarrow> int \<Rightarrow> kern \<Rightarrow> kern option" where
  "thread_remove freeq_size t k = do {
     p \<leftarrow> thread_lookup k t;
     th \<leftarrow> thr k p;
     if thread_flags_not_set th SCHED_IN_USE_FLAG then Some k
     else if thread_flags_is_set th SCHED_INTERNAL_FLAG then Some k
     else do {
       let k = k\<lparr>thr := (thr k)(p \<mapsto> th\<lparr>flags := 0, sched_priority := NICE_ERR\<rparr>)\<rparr>;
       let k = (if wait_tim th \<ge> 0 then timers_release (wait_tim th) k else k);
       k \<leftarrow> (if pid_owner th \<noteq> 0 then proc_thread_removed (pid_owner th) t k else Some k);
       th \<leftarrow> thr k p;
       sg \<leftarrow> ksignal_signals_dtor (tsigs th);
       let k = k\<lparr>thr := (thr k)(p \<mapsto> th\<lparr>tsigs := sg\<rparr>), threadmap := threadmap k - {t}\<rparr>;
       let k = (if length (thread_free_queue k) < freeq_size - 1
                then k\<lparr>thread_free_queue := thread_free_queue k @ [p]\<rparr> else k);
       Some (k\<lparr>anr_threads := anr_threads k - 1\<rparr>) } }"

text \<open>The idle task that frees the structs of removed threads.\<close>

definition free_threads :: "kern \<Rightarrow> kern" where
  "free_threads k = k\<lparr>thr := (thr k) |` (- set (thread_free_queue k)), thread_free_queue := []\<rparr>"

section \<open>Scheduling policies\<close>

text \<open>\<open>struct scheduler\<close>: the calls through which the core reaches a policy.\<close>

record scheduler =
  insert_op :: "int \<Rightarrow> kern \<Rightarrow> (int \<times> kern) option"
  run_op :: "kern \<Rightarrow> (int option \<times> kern) option"
  nr_active_op :: "kern \<Rightarrow> nat"

definition get_tts :: "kern \<Rightarrow> thread_info \<Rightarrow> int" where
  "get_tts k th = 21 + thread_p_get_scheduling_priority k th"

definition rr_insert :: "int \<Rightarrow> kern \<Rightarrow> (int \<times> kern) option" where
  "rr_insert t k = do {
     th \<leftarrow> thr k t;
     if \<not> thread_test_polflag th SCHED_POLFLAG_INRRRQ then
       Some (0, k\<lparr>rr_runq := rr_runq k @ [t],
         thr := (thr k)(t \<mapsto> th\<lparr>ts_counter := get_tts k th, policy_flags := policy_flags th OR SCHED_POLFLAG_INRRRQ\<rparr>),
         rr_nr_active := rr_nr_active k + 1\<rparr>)
     else Some (0, k) }"

definition rr_remove :: "int \<Rightarrow> kern \<Rightarrow> kern option" where
  "rr_remove t k = do {
     th \<leftarrow> thr k t;
     if thread_test_polflag th SCHED_POLFLAG_INRRRQ then
       Some (k\<lparr>rr_runq := remove1 t (rr_runq k),
         thr := (thr k)(t \<mapsto> th\<lparr>policy_flags := policy_flags th AND NOT SCHED_POLFLAG_INRRRQ\<rparr>),
         rr_nr_active := rr_nr_active k - 1\<rparr>)
     else Some k }"

definition rr_thread_act :: "nat \<Rightarrow> int \<Rightarrow> thread_state \<Rightarrow> kern \<Rightarrow> kern option" where
  "rr_thread_act fq t st k =
     (case st of
        THREAD_STATE_READY \<Rightarrow> rr_remove t k
      | THREAD_STATE_EXEC \<Rightarrow>
          upd_thread t (\<lambda>th. if ts_counter th \<le> 0 then th\<lparr>ts_counter := get_tts k th\<rparr> else th) k
      | THREAD_STATE_BLOCKED \<Rightarrow> rr_remove t k
      | THREAD_STATE_DEAD \<Rightarrow> do {
          k \<leftarrow> rr_remove t k;
          th \<leftarrow> thr k t;
          if thread_flags_is_set th SCHED_DETACH_FLAG then thread_remove fq t k else Some k }
      | THREAD_STATE_INIT \<Rightarrow> None)"

text \<open>\<open>TAILQ_FOREACH_SAFE\<close> over the run queue: the body removes at most its own element.\<close>

fun rr_loop :: "nat \<Rightarrow> int list \<Rightarrow> kern \<Rightarrow> (int option \<times> kern) option" where
  "rr_loop fq [] k = Some (None, k)"
| "rr_loop fq (t # ts) k = do {
     th \<leftarrow> thr k t;
     let st = thread_state_get th;
     let yield = thread_flags_is_set th SCHED_YIELD_FLAG;
     if thread_flags_not_set th SCHED_IN_USE_FLAG then do { k \<leftarrow> rr_thread_act fq t st k; rr_loop fq ts k }
     else if \<not> yield then
       if st = THREAD_STATE_EXEC \<and> ts_counter th > 0 then Some (Some t, k)
       else do { k \<leftarrow> rr_thread_act fq t st k; rr_loop fq ts k }
     else do { k \<leftarrow> upd_thread t (thread_flags_clear SCHED_YIELD_FLAG) k; rr_loop fq ts k } }"

definition rr_schedule :: "nat \<Rightarrow> kern \<Rightarrow> (int option \<times> kern) option" where
  "rr_schedule fq k = rr_loop fq (rr_runq k) k"

definition rr_get_nr_active :: "kern \<Rightarrow> nat" where
  "rr_get_nr_active k = rr_nr_active k"

text \<open>
  The FIFO run queue is a red-black tree keyed by \<open>fifo_prio\<close>; the model keeps its in-order
  sequence. A search follows the signs of \<open>key - prio\<close>: when they fall along the sequence, as in a
  search tree, the element meets an equal key and is not inserted, or goes between the smaller
  and the greater ones. When they do not fall the place depends on the shape of the tree, and
  removing an element that is not in the tree breaks it: both are \<open>None\<close>.
\<close>

definition prio_of :: "kern \<Rightarrow> int \<Rightarrow> int" where
  "prio_of k t = (case thr k t of None \<Rightarrow> 0 | Some th \<Rightarrow> fifo_prio th)"

fun falls :: "int list \<Rightarrow> bool" where
  "falls (a # b # xs) \<longleftrightarrow> sgn a \<ge> sgn b \<and> falls (b # xs)"
| "falls xs \<longleftrightarrow> True"

definition rb_insert_fifo :: "int \<Rightarrow> kern \<Rightarrow> kern option" where
  "rb_insert_fifo t k =
     (let key = prio_of k t; q = fifo_runq k
      in if \<not> falls (map (\<lambda>x. key - prio_of k x) q) then None
         else if \<exists>x \<in> set q. prio_of k x = key then Some k
         else Some (k\<lparr>fifo_runq := takeWhile (\<lambda>x. prio_of k x < key) q @ t # dropWhile (\<lambda>x. prio_of k x < key) q\<rparr>))"

definition rb_remove_fifo :: "int \<Rightarrow> kern \<Rightarrow> kern option" where
  "rb_remove_fifo t k = (if t \<in> set (fifo_runq k) then Some (k\<lparr>fifo_runq := remove1 t (fifo_runq k)\<rparr>) else None)"

abbreviation (input) SCHED_POLFLAG_INFIFORQ :: u32 where "SCHED_POLFLAG_INFIFORQ \<equiv> 0x01"

definition fifo_insert :: "int \<Rightarrow> kern \<Rightarrow> (int \<times> kern) option" where
  "fifo_insert t k = do {
     th \<leftarrow> thr k t;
     if \<not> thread_test_polflag th SCHED_POLFLAG_INFIFORQ then do {
       k \<leftarrow> rb_insert_fifo t k;
       k \<leftarrow> upd_thread t (\<lambda>th. th\<lparr>ts_counter := - 1, fifo_prio := thread_p_get_scheduling_priority k th,
              policy_flags := policy_flags th OR SCHED_POLFLAG_INFIFORQ\<rparr>) k;
       Some (0, k\<lparr>fifo_nr_active := fifo_nr_active k + 1\<rparr>) }
     else do {
       k \<leftarrow> rb_remove_fifo t k;
       k \<leftarrow> upd_thread t (\<lambda>th. th\<lparr>fifo_prio := thread_p_get_scheduling_priority k th\<rparr>) k;
       k \<leftarrow> rb_insert_fifo t k;
       Some (0, k) } }"

definition fifo_remove :: "int \<Rightarrow> kern \<Rightarrow> kern option" where
  "fifo_remove t k = do {
     th \<leftarrow> thr k t;
     if thread_test_polflag th SCHED_POLFLAG_INFIFORQ then do {
       k \<leftarrow> rb_remove_fifo t k;
       Some (k\<lparr>thr := (thr k)(t \<mapsto> th\<lparr>policy_flags := policy_flags th AND NOT SCHED_POLFLAG_INFIFORQ\<rparr>),
         fifo_nr_active := fifo_nr_active k - 1\<rparr>) }
     else Some k }"

text \<open>
  The loop of \<open>fifo_schedule\<close>; a round removes the first thread, clears its yield flag or selects
  it, so twice the number of queued threads bounds the rounds, except for a thread in EXEC that is
  no longer in use, on which the code loops forever.
\<close>

fun fifo_loop :: "nat \<Rightarrow> nat \<Rightarrow> kern \<Rightarrow> (int option \<times> kern) option" where
  "fifo_loop fq 0 k = None"
| "fifo_loop fq (Suc n) k =
     (case fifo_runq k of
        [] \<Rightarrow> Some (None, k)
      | t # _ \<Rightarrow> do {
          th \<leftarrow> thr k t;
          let yield = thread_flags_is_set th SCHED_YIELD_FLAG;
          case thread_state_get th of
            THREAD_STATE_READY \<Rightarrow> do { k \<leftarrow> fifo_remove t k; fifo_loop fq n k }
          | THREAD_STATE_EXEC \<Rightarrow>
              if \<not> yield then
                if thread_flags_is_set th SCHED_IN_USE_FLAG then Some (Some t, k) else fifo_loop fq n k
              else do { k \<leftarrow> upd_thread t (thread_flags_clear SCHED_YIELD_FLAG) k; fifo_loop fq n k }
          | THREAD_STATE_BLOCKED \<Rightarrow> do { k \<leftarrow> fifo_remove t k; fifo_loop fq n k }
          | THREAD_STATE_DEAD \<Rightarrow> do {
              k \<leftarrow> fifo_remove t k;
              k \<leftarrow> (if thread_flags_is_set th SCHED_DETACH_FLAG then thread_remove fq t k else Some k);
              fifo_loop fq n k }
          | THREAD_STATE_INIT \<Rightarrow> None })"

definition fifo_schedule :: "nat \<Rightarrow> kern \<Rightarrow> (int option \<times> kern) option" where
  "fifo_schedule fq k = fifo_loop fq (2 * length (fifo_runq k) + 2) k"

definition fifo_get_nr_active :: "kern \<Rightarrow> nat" where
  "fifo_get_nr_active k = fifo_nr_active k"

definition sched_fifo :: "nat \<Rightarrow> scheduler" where
  "sched_fifo fq = \<lparr>insert_op = fifo_insert, run_op = fifo_schedule fq, nr_active_op = fifo_get_nr_active\<rparr>"

definition idle_insert :: "int \<Rightarrow> kern \<Rightarrow> (int \<times> kern) option" where
  "idle_insert t k =
     (if idle_info k \<noteq> None then Some (- ENOTSUP, k)
      else do {
        k \<leftarrow> upd_thread t (thread_flags_set SCHED_INTERNAL_FLAG) k;
        Some (0, k\<lparr>idle_info := Some t\<rparr>) })"

definition idle_schedule :: "kern \<Rightarrow> (int option \<times> kern) option" where
  "idle_schedule k = Some (idle_info k, k)"

definition idle_get_nr_active :: "kern \<Rightarrow> nat" where
  "idle_get_nr_active k = 0"

definition sched_rr :: "nat \<Rightarrow> scheduler" where
  "sched_rr fq = \<lparr>insert_op = rr_insert, run_op = rr_schedule fq, nr_active_op = rr_get_nr_active\<rparr>"

definition sched_idle :: scheduler where
  "sched_idle = \<lparr>insert_op = idle_insert, run_op = idle_schedule, nr_active_op = idle_get_nr_active\<rparr>"

section \<open>The scheduler core\<close>

text \<open>Emptying the ready queue into the policies; \<open>n\<close> bounds the rounds by the queue's length.\<close>

fun drain_readyq :: "scheduler list \<Rightarrow> nat \<Rightarrow> kern \<Rightarrow> kern option" where
  "drain_readyq scheds 0 k = Some k"
| "drain_readyq scheds (Suc n) k =
     (case thread_remove_ready k of
        (None, k) \<Rightarrow> Some k
      | (Some t, k) \<Rightarrow> do {
          th \<leftarrow> thr k t;
          sched \<leftarrow> rd scheds (sched_policy th);
          k \<leftarrow> upd_thread t (\<lambda>th. snd (thread_state_set THREAD_STATE_EXEC th)) k;
          (_, k) \<leftarrow> insert_op sched t k;
          drain_readyq scheds n k })"

text \<open>The first policy that selects a thread wins; with none the current thread stays.\<close>

fun run_scheds :: "scheduler list \<Rightarrow> kern \<Rightarrow> kern option" where
  "run_scheds [] k = Some k"
| "run_scheds (s # ss) k = do {
     (next, k) \<leftarrow> run_op s k;
     case next of Some t \<Rightarrow> Some (k\<lparr>current_thread := t\<rparr>) | None \<Rightarrow> run_scheds ss k }"

text \<open>
  \<open>sched_handler\<close>, with the pre- and post-scheduling tasks (a linker set) as the functions
  \<open>pre\<close> and \<open>post\<close>.
\<close>

definition sched_handler :: "scheduler list \<Rightarrow> (kern \<Rightarrow> kern option) \<Rightarrow> (kern \<Rightarrow> kern option) \<Rightarrow> kern \<Rightarrow> kern option" where
  "sched_handler scheds pre post k = do {
     k \<leftarrow> pre k;
     k \<leftarrow> upd_thread (current_thread k)
       (\<lambda>th. if ts_counter th \<noteq> - 1 then th\<lparr>ts_counter := ts_counter th - 1\<rparr> else th) k;
     k \<leftarrow> drain_readyq scheds (length (readyq k)) k;
     k \<leftarrow> run_scheds scheds k;
     post k }"

text \<open>The policies in the order of \<open>sched_ctor_arr\<close>.\<close>

definition sched_arr :: "nat \<Rightarrow> scheduler list" where
  "sched_arr fq = [sched_fifo fq, sched_rr fq, sched_idle]"

section \<open>Inheritance and termination\<close>

text \<open>The last element of a chain of children; \<open>n\<close> bounds its length.\<close>

fun last_child :: "kern \<Rightarrow> nat \<Rightarrow> int \<Rightarrow> int option" where
  "last_child k 0 t = None"
| "last_child k (Suc n) t = do {
     th \<leftarrow> thr k t;
     case next_child th of None \<Rightarrow> Some t | Some c \<Rightarrow> last_child k n c }"

definition thread_set_inheritance :: "nat \<Rightarrow> int \<Rightarrow> int option \<Rightarrow> int \<Rightarrow> kern \<Rightarrow> kern option" where
  "thread_set_inheritance n child par pid k = do {
     k \<leftarrow> upd_thread child (\<lambda>th. th\<lparr>parent := par, first_child := None, next_child := None, pid_owner := pid\<rparr>) k;
     case par of
       None \<Rightarrow> Some k
     | Some p \<Rightarrow> do {
         pth \<leftarrow> thr k p;
         case first_child pth of
           None \<Rightarrow> do {
             k \<leftarrow> upd_thread p (\<lambda>th. th\<lparr>first_child := Some child\<rparr>) k;
             upd_thread child (\<lambda>th. th\<lparr>next_child := None\<rparr>) k }
         | Some c \<Rightarrow> do {
             last_node \<leftarrow> last_child k n c;
             upd_thread last_node (\<lambda>th. th\<lparr>next_child := Some child\<rparr>) k } } }"

definition thread_test_terminate_ok :: "thread_info \<Rightarrow> bool" where
  "thread_test_terminate_ok th \<longleftrightarrow>
     thread_flags_get th AND (SCHED_IN_USE_FLAG OR SCHED_INTERNAL_FLAG) = SCHED_IN_USE_FLAG"

section \<open>System calls\<close>

abbreviation (input) PRIV_SCHED_SETPRIORITY :: int where "PRIV_SCHED_SETPRIORITY \<equiv> 71"
abbreviation (input) PRIV_SCHED_RTPRIO :: int where "PRIV_SCHED_RTPRIO \<equiv> 72"
abbreviation (input) PRIV_SCHED_SETPOLICY :: int where "PRIV_SCHED_SETPOLICY \<equiv> 73"

text \<open>The credentials of the calling process.\<close>

definition curcred :: "kern \<Rightarrow> cred option" where
  "curcred k = map_option pcred (procs k (curpid k))"

definition sched_priv_check_param :: "bool \<Rightarrow> nat \<Rightarrow> int \<Rightarrow> kern \<Rightarrow> int option" where
  "sched_priv_check_param suser policy priority k = do {
     cur \<leftarrow> thr k (current_thread k);
     c \<leftarrow> curcred k;
     setpolicy \<leftarrow> priv_check suser c PRIV_SCHED_SETPOLICY;
     rtprio \<leftarrow> priv_check suser c PRIV_SCHED_RTPRIO;
     setprio \<leftarrow> priv_check suser c PRIV_SCHED_SETPRIORITY;
     Some (if policy \<noteq> SCHED_OTHER \<and> \<not> setpolicy \<noteq> 0
              \<or> (policy = SCHED_FIFO \<or> priority < NZERO) \<and> \<not> rtprio \<noteq> 0
              \<or> priority < sched_priority cur \<and> \<not> setprio \<noteq> 0
           then - EPERM else 0) }"

definition sys_thread_detach :: "int option \<Rightarrow> kern \<Rightarrow> (int \<times> int option \<times> kern) option" where
  "sys_thread_detach arg k =
     (case arg of
        None \<Rightarrow> Some (- 1, Some EFAULT, k)
      | Some t \<Rightarrow> (case thread_lookup k t of
          None \<Rightarrow> Some (- 1, Some EINVAL, k)
        | Some p \<Rightarrow> do { k \<leftarrow> upd_thread p (thread_flags_set SCHED_DETACH_FLAG) k; Some (0, None, k) }))"

text \<open>\<open>args\<close> is what \<open>copyin\<close> delivered, or \<open>Inl\<close> its error.\<close>

definition sys_thread_setpolicy :: "bool \<Rightarrow> (int + int \<times> nat) \<Rightarrow> kern \<Rightarrow> (int \<times> int option \<times> kern) option" where
  "sys_thread_setpolicy suser args k =
     (case args of
        Inl err \<Rightarrow> Some (- 1, Some (- err), k)
      | Inr (t, policy) \<Rightarrow> (case thread_lookup k t of
          None \<Rightarrow> Some (- 1, Some ESRCH, k)
        | Some p \<Rightarrow> do {
            th \<leftarrow> thr k p;
            c \<leftarrow> curcred k;
            chk \<leftarrow> priv_check suser c PRIV_SCHED_SETPOLICY;
            if (curpid k \<noteq> pid_owner th \<or> policy \<noteq> SCHED_OTHER) \<and> chk \<noteq> 0 then Some (- 1, Some (- chk), k)
            else do {
              (err, k) \<leftarrow> thread_set_policy t policy k;
              if err \<noteq> 0 then Some (- 1, Some (- err), k) else Some (0, None, k) } }))"

definition sys_thread_getpolicy :: "int \<Rightarrow> kern \<Rightarrow> (int \<times> int option) option" where
  "sys_thread_getpolicy t k = do {
     policy \<leftarrow> thread_get_policy t k;
     Some (if policy < 0 then (- 1, Some (- policy)) else (policy, None)) }"

definition sys_thread_setpriority :: "bool \<Rightarrow> (int \<times> int) option \<Rightarrow> kern \<Rightarrow> (int \<times> int option \<times> kern) option" where
  "sys_thread_setpriority suser args k =
     (case args of
        None \<Rightarrow> Some (- 1, Some ESRCH, k)
      | Some (t, priority) \<Rightarrow> (case thread_lookup k t of
          None \<Rightarrow> Some (- 1, Some ESRCH, k)
        | Some p \<Rightarrow> do {
            th \<leftarrow> thr k p;
            c \<leftarrow> curcred k;
            chk \<leftarrow> priv_check suser c PRIV_SCHED_SETPRIORITY;
            if (curpid k \<noteq> pid_owner th \<or> priority < 0) \<and> chk \<noteq> 0 then Some (- 1, Some EPERM, k)
            else do {
              (err, k) \<leftarrow> thread_set_priority t priority k;
              if err \<noteq> 0 then Some (- 1, Some (- err), k) else Some (0, None, k) } }))"

definition sys_thread_getpriority :: "int \<Rightarrow> kern \<Rightarrow> (int \<times> int option) option" where
  "sys_thread_getpriority t k = do {
     prio \<leftarrow> thread_get_priority t k;
     Some (if prio = NICE_ERR then (- 1, Some ESRCH) else (prio, None)) }"

section \<open>The invariant of the run queues\<close>

definition obj_ok :: "kobj \<Rightarrow> bool" where
  "obj_ok p \<longleftrightarrow> released p \<or> (\<exists>n. live p n)"

lemma obj_ok_unref: "obj_ok p \<Longrightarrow> \<exists>b q. kobj_unref p = Some (b, q) \<and> obj_ok q"
  using ko.put_cases [of p] ko.put_gone [of p] by (fastforce simp: obj_ok_def split: if_splits)

lemma dtor_ok: "obj_ok (s_obj s) \<Longrightarrow> \<exists>s'. ksignal_signals_dtor s = Some s' \<and> obj_ok (s_obj s')"
  using obj_ok_unref [of "s_obj s"] by (auto simp: ksignal_signals_dtor_def)

definition queued :: "kern \<Rightarrow> int \<Rightarrow> bool" where
  "queued k t \<longleftrightarrow> (\<exists>th. thr k t = Some th \<and> thread_test_polflag th 1)"

definition rr_inv :: "kern \<Rightarrow> bool" where
  "rr_inv k \<longleftrightarrow> distinct (rr_runq k) \<and> (\<forall>t. t \<in> set (rr_runq k) \<longleftrightarrow> queued k t) \<and>
     rr_nr_active k = length (rr_runq k) \<and> fifo_runq k = []"

text \<open>Live structs: reference counts that can be dropped, run queue members that were started and
  are in the thread map, ready threads with the time-sharing policy.\<close>

definition kinv :: "kern \<Rightarrow> bool" where
  "kinv k \<longleftrightarrow> rr_inv k \<and>
     (\<forall>t th. thr k t = Some th \<longrightarrow> obj_ok (s_obj (tsigs th)) \<and> (queued k t \<longrightarrow> t \<in> threadmap k \<and> tstate th \<noteq> THREAD_STATE_INIT)) \<and>
     (\<forall>p pr. procs k p = Some pr \<longrightarrow> obj_ok (s_obj (psigs pr))) \<and>
     (\<forall>t \<in> set (readyq k). \<exists>th. thr k t = Some th \<and> sched_policy th = SCHED_OTHER \<and> t \<in> threadmap k) \<and>
     threadmap k \<subseteq> dom (thr k)"

text \<open>The parts of the state that a policy leaves alone.\<close>

definition same_core :: "kern \<Rightarrow> kern \<Rightarrow> bool" where
  "same_core k k' \<longleftrightarrow> readyq k' = readyq k \<and> idle_info k' = idle_info k \<and> current_thread k' = current_thread k"

lemma same_core_refl [simp]: "same_core k k"
  by (simp add: same_core_def)

lemma same_core_trans: "same_core a b \<Longrightarrow> same_core b c \<Longrightarrow> same_core a c"
  by (simp add: same_core_def)

lemma polflag_or [simp]: "thread_test_polflag (th\<lparr>policy_flags := w OR 1\<rparr>) 1"
  by (simp add: thread_test_polflag_def bit_eq_iff bit_and_iff bit_or_iff)

lemma polflag_clear [simp]: "\<not> thread_test_polflag (th\<lparr>policy_flags := w AND - 2\<rparr>) 1"
proof -
  have "(w AND - 2) AND 1 = 0" for w :: u32 by (simp add: and.assoc)
  then show ?thesis by (simp add: thread_test_polflag_def)
qed

lemma polflag_cong [simp]:
  "thread_test_polflag (th\<lparr>tstate := a\<rparr>) f = thread_test_polflag th f"
  "thread_test_polflag (th\<lparr>ts_counter := b\<rparr>) f = thread_test_polflag th f"
  "thread_test_polflag (th\<lparr>flags := c\<rparr>) f = thread_test_polflag th f"
  "thread_test_polflag (th\<lparr>sched_priority := d\<rparr>) f = thread_test_polflag th f"
  "thread_test_polflag (th\<lparr>tsigs := e\<rparr>) f = thread_test_polflag th f"
  by (simp_all add: thread_test_polflag_def)

text \<open>
  Changing one thread struct: the invariant stays if the flag of the run queue, the policy, the
  signal object and a started state stay.
\<close>

lemma kinv_upd:
  assumes "kinv k" "thr k t = Some th"
    and "thread_test_polflag th' 1 = thread_test_polflag th 1" "obj_ok (s_obj (tsigs th'))"
    and "sched_policy th' = sched_policy th" "tstate th' = tstate th \<or> tstate th' \<noteq> THREAD_STATE_INIT"
  shows "kinv (k\<lparr>thr := (thr k)(t \<mapsto> th')\<rparr>)"
proof -
  have q: "queued (k\<lparr>thr := (thr k)(t \<mapsto> th')\<rparr>) x = queued k x" for x
    using assms(2,3) by (simp add: queued_def)
  have "queued k t \<Longrightarrow> t \<in> threadmap k \<and> tstate th' \<noteq> THREAD_STATE_INIT"
    using assms(1,2,6) unfolding kinv_def by metis
  then show ?thesis using assms(1-5) unfolding kinv_def rr_inv_def q by auto
qed

lemma kinv_frame:
  assumes "kinv k"
  shows "kinv (k\<lparr>readyq := r\<rparr>) \<longleftrightarrow> (\<forall>t \<in> set r. \<exists>th. thr k t = Some th \<and> sched_policy th = SCHED_OTHER \<and> t \<in> threadmap k)"
    "kinv (k\<lparr>released_tims := ts\<rparr>)" "kinv (k\<lparr>thread_free_queue := fqs\<rparr>)" "kinv (k\<lparr>anr_threads := n\<rparr>)"
    "kinv (k\<lparr>current_thread := c\<rparr>)"
  using assms unfolding kinv_def rr_inv_def queued_def by auto

lemma rr_insert_kinv:
  assumes "kinv k" "thr k t = Some th" "t \<in> threadmap k" "tstate th \<noteq> THREAD_STATE_INIT"
  shows "\<exists>k'. rr_insert t k = Some (0, k') \<and> kinv k' \<and> same_core k k' \<and> threadmap k' = threadmap k \<and>
    (\<forall>x. x \<noteq> t \<longrightarrow> thr k' x = thr k x)"
proof (cases "thread_test_polflag th 1")
  case True
  then show ?thesis using assms by (simp add: rr_insert_def)
next
  case False
  let ?th = "th\<lparr>ts_counter := get_tts k th, policy_flags := policy_flags th OR 1\<rparr>"
  let ?k = "k\<lparr>rr_runq := rr_runq k @ [t], thr := (thr k)(t \<mapsto> ?th), rr_nr_active := rr_nr_active k + 1\<rparr>"
  have q: "queued ?k x \<longleftrightarrow> queued k x \<or> x = t" for x by (simp add: queued_def)
  have "\<not> queued k t" using False assms(2) by (simp add: queued_def)
  then have "kinv ?k" using assms unfolding kinv_def rr_inv_def q by auto
  then show ?thesis using False assms(2) by (simp add: rr_insert_def same_core_def)
qed

lemma rr_remove_kinv:
  assumes "kinv k" "thr k t = Some th"
  shows "\<exists>k'. rr_remove t k = Some k' \<and> kinv k' \<and> same_core k k' \<and> threadmap k' = threadmap k \<and>
    set (rr_runq k') = set (rr_runq k) - {t} \<and>
    (\<forall>x. x \<noteq> t \<longrightarrow> thr k' x = thr k x) \<and> (\<exists>pf. thr k' t = Some (th\<lparr>policy_flags := pf\<rparr>)) \<and> \<not> queued k' t"
proof (cases "thread_test_polflag th 1")
  case False
  then have "\<not> queued k t" "t \<notin> set (rr_runq k)" using assms by (auto simp: queued_def kinv_def rr_inv_def)
  then show ?thesis using False assms by (auto simp: rr_remove_def intro: exI [of _ "policy_flags th"])
next
  case True
  let ?th = "th\<lparr>policy_flags := policy_flags th AND NOT 1\<rparr>"
  let ?k = "k\<lparr>rr_runq := remove1 t (rr_runq k), thr := (thr k)(t \<mapsto> ?th), rr_nr_active := rr_nr_active k - 1\<rparr>"
  have q: "queued ?k x \<longleftrightarrow> queued k x \<and> x \<noteq> t" for x by (simp add: queued_def)
  have "t \<in> set (rr_runq k)" using True assms by (auto simp: queued_def kinv_def rr_inv_def)
  then have "kinv ?k" using assms unfolding kinv_def rr_inv_def q
    by (auto simp: length_remove1_in distinct_remove1_set)
  moreover have "set (rr_runq ?k) = set (rr_runq k) - {t}"
    using assms(1) by (simp add: kinv_def rr_inv_def distinct_remove1_set)
  ultimately show ?thesis using True assms(2) q by (auto simp: rr_remove_def same_core_def)
qed

text \<open>Removing a thread that is in no queue.\<close>

lemma proc_removed_kinv:
  assumes "kinv k" "thr k t = Some th"
  shows "\<exists>k'. proc_thread_removed pid t k = Some k' \<and> kinv k' \<and> same_core k k' \<and> thr k' = thr k \<and>
    threadmap k' = threadmap k \<and> rr_runq k' = rr_runq k"
proof (cases "procs k pid")
  case None
  then show ?thesis using assms by (simp add: proc_thread_removed_def)
next
  case (Some p)
  then have "obj_ok (s_obj (psigs p))" using assms by (auto simp: kinv_def)
  then obtain sg where sg: "ksignal_signals_dtor (psigs p) = Some sg" "obj_ok (s_obj sg)"
    using dtor_ok by blast
  have "kinv (k\<lparr>procs := (procs k)(pid \<mapsto> pr)\<rparr>)" if "obj_ok (s_obj (psigs pr))" for pr
    using assms(1) that by (simp add: kinv_def rr_inv_def queued_def)
  then show ?thesis using Some assms sg
    by (auto simp: proc_thread_removed_def same_core_def split: option.splits)
qed

lemma thread_remove_kinv:
  assumes "kinv k" "thr k t = Some th" "t \<in> threadmap k" "\<not> queued k t" "readyq k = []"
  shows "\<exists>k'. thread_remove fq t k = Some k' \<and> kinv k' \<and> same_core k k' \<and> rr_runq k' = rr_runq k \<and>
    (\<forall>x. x \<noteq> t \<longrightarrow> thr k' x = thr k x)"
proof (cases "thread_flags_not_set th 1 \<or> thread_flags_is_set th 0x20")
  case True
  then show ?thesis using assms by (auto simp: thread_remove_def thread_lookup_def)
next
  case False
  let ?th = "th\<lparr>flags := 0, sched_priority := NICE_ERR\<rparr>"
  define k1 where "k1 = k\<lparr>thr := (thr k)(t \<mapsto> ?th)\<rparr>"
  define k2 where "k2 = (if wait_tim th \<ge> 0 then timers_release (wait_tim th) k1 else k1)"
  have o: "obj_ok (s_obj (tsigs th))" using assms by (auto simp: kinv_def)
  have k1: "kinv k1" unfolding k1_def using assms o by (intro kinv_upd) auto
  have k2: "kinv k2" "thr k2 = (thr k)(t \<mapsto> ?th)" "same_core k k2" "threadmap k2 = threadmap k" "rr_runq k2 = rr_runq k"
    using k1 by (simp_all add: k2_def timers_release_def kinv_frame(2) k1_def same_core_def)
  obtain k3 where k3: "(if pid_owner th \<noteq> 0 then proc_thread_removed (pid_owner th) t k2 else Some k2) = Some k3"
    "kinv k3" "same_core k2 k3" "thr k3 = thr k2" "threadmap k3 = threadmap k2" "rr_runq k3 = rr_runq k2"
    using proc_removed_kinv [OF k2(1), of t ?th "pid_owner th"] k2(1,2)
    by (cases "pid_owner th = 0") auto
  obtain sg where sg: "ksignal_signals_dtor (tsigs th) = Some sg" "obj_ok (s_obj sg)"
    using dtor_ok [OF o] by blast
  let ?th' = "?th\<lparr>tsigs := sg\<rparr>"
  define k4 where "k4 = k3\<lparr>thr := (thr k3)(t \<mapsto> ?th')\<rparr>"
  have k4: "kinv k4" unfolding k4_def using k2 k3 sg by (intro kinv_upd [of _ _ ?th]) auto
  have nq: "\<not> queued k4 t" using assms(2,4) by (auto simp: queued_def k4_def)
  have rq: "readyq k4 = []" using assms(5) k2(3) k3(3) by (simp add: k4_def same_core_def)
  have k5: "kinv (k4\<lparr>threadmap := threadmap k4 - {t}\<rparr>)"
    using k4 nq rq unfolding kinv_def rr_inv_def queued_def by auto
  have "kinv (k4\<lparr>threadmap := threadmap k4 - {t}, anr_threads := n\<rparr>)"
    "kinv (k4\<lparr>threadmap := threadmap k4 - {t}, thread_free_queue := l, anr_threads := n\<rparr>)" for n l
    using kinv_frame(4) [OF k5] kinv_frame(4) [OF kinv_frame(3) [OF k5]] by simp_all
  moreover have "thread_remove fq t k = Some (let k5 = k4\<lparr>threadmap := threadmap k4 - {t}\<rparr>;
       k6 = (if length (thread_free_queue k5) < fq - 1 then k5\<lparr>thread_free_queue := thread_free_queue k5 @ [t]\<rparr> else k5)
     in k6\<lparr>anr_threads := anr_threads k6 - 1\<rparr>)"
    using False assms(2,3) k3(1,4) k2(2) sg
    by (cases "pid_owner th = 0")
       (simp_all add: thread_remove_def thread_lookup_def k1_def [symmetric] k2_def [symmetric] k4_def Let_def)
  ultimately show ?thesis using k2 k3 by (auto simp: Let_def k4_def same_core_def)
qed

lemma rr_act_kinv:
  assumes "kinv k" "thr k t = Some th" "queued k t" "readyq k = []" "st = tstate th"
  shows "\<exists>k'. rr_thread_act fq t st k = Some k' \<and> kinv k' \<and> same_core k k' \<and>
    set (rr_runq k) - {t} \<subseteq> set (rr_runq k')"
proof -
  have ni: "st \<noteq> THREAD_STATE_INIT" and m: "t \<in> threadmap k" and o: "obj_ok (s_obj (tsigs th))"
    using assms by (auto simp: kinv_def)
  obtain k1 pf where k1: "rr_remove t k = Some k1" "kinv k1" "same_core k k1" "threadmap k1 = threadmap k"
    "set (rr_runq k1) = set (rr_runq k) - {t}" "thr k1 t = Some (th\<lparr>policy_flags := pf\<rparr>)" "\<not> queued k1 t"
    using rr_remove_kinv [OF assms(1,2)] by blast
  have "readyq k1 = []" using k1(3) assms(4) by (simp add: same_core_def)
  then obtain k2 where k2: "thread_remove fq t k1 = Some k2" "kinv k2" "same_core k1 k2" "rr_runq k2 = rr_runq k1"
    using thread_remove_kinv [OF k1(2,6) _ k1(7), of fq] m k1(4) by auto
  show ?thesis
  proof (cases st)
    case THREAD_STATE_EXEC
    let ?f = "\<lambda>th. if ts_counter th \<le> 0 then th\<lparr>ts_counter := get_tts k th\<rparr> else th"
    have "kinv (k\<lparr>thr := (thr k)(t \<mapsto> ?f th)\<rparr>)" using assms(1,2) o by (intro kinv_upd [of k t th]) auto
    then show ?thesis using THREAD_STATE_EXEC assms(2)
      by (auto simp: rr_thread_act_def upd_thread_def same_core_def)
  next
    case THREAD_STATE_DEAD
    then show ?thesis using k1 k2 same_core_trans [OF k1(3) k2(3)]
      by (cases "thread_flags_is_set (th\<lparr>policy_flags := pf\<rparr>) 2") (auto simp: rr_thread_act_def)
  qed (use k1 ni in \<open>auto simp: rr_thread_act_def\<close>)
qed

definition runnable :: "kern \<Rightarrow> int \<Rightarrow> bool" where
  "runnable k t \<longleftrightarrow> (\<exists>th. thr k t = Some th \<and> tstate th = THREAD_STATE_EXEC \<and>
     \<not> thread_flags_not_set th SCHED_IN_USE_FLAG \<and> 0 < ts_counter th)"

lemma rr_loop_kinv:
  assumes "kinv k" "readyq k = []" "set ts \<subseteq> set (rr_runq k)" "distinct ts"
  shows "\<exists>r k'. rr_loop fq ts k = Some (r, k') \<and> kinv k' \<and> same_core k k' \<and> (\<forall>t. r = Some t \<longrightarrow> runnable k' t)"
  using assms
proof (induction ts arbitrary: k)
  case (Cons t ts)
  have qt: "queued k t" using Cons.prems by (auto simp: kinv_def rr_inv_def)
  then obtain th where th: "thr k t = Some th" by (auto simp: queued_def)
  have rest: "\<exists>r k''. rr_loop fq ts k' = Some (r, k'') \<and> kinv k'' \<and> same_core k k'' \<and> (\<forall>t. r = Some t \<longrightarrow> runnable k'' t)"
    if "kinv k'" "same_core k k'" "set (rr_runq k) - {t} \<subseteq> set (rr_runq k')" for k'
  proof -
    have "set ts \<subseteq> set (rr_runq k')" using Cons.prems that(3) by auto
    moreover have "readyq k' = []" using that(2) Cons.prems by (simp add: same_core_def)
    ultimately show ?thesis using Cons.IH [OF that(1)] Cons.prems(4) same_core_trans [OF that(2)] by fastforce
  qed
  obtain k1 where act: "rr_thread_act fq t (tstate th) k = Some k1" "kinv k1" "same_core k k1"
      "set (rr_runq k) - {t} \<subseteq> set (rr_runq k1)"
    using rr_act_kinv [OF Cons.prems(1) th qt Cons.prems(2) refl] by blast
  have y: "kinv (k\<lparr>thr := (thr k)(t \<mapsto> thread_flags_clear SCHED_YIELD_FLAG th)\<rparr>)"
    using Cons.prems(1) th by (intro kinv_upd) (auto simp: thread_flags_clear_def kinv_def)
  show ?case
    using th rest [OF act(2-4)] rest [OF y] Cons.prems(1) act(1)
    by (auto simp: thread_state_get_def upd_thread_def same_core_def runnable_def Let_def)
qed simp

lemma rr_schedule_kinv:
  assumes "kinv k" "readyq k = []"
  shows "\<exists>r k'. rr_schedule fq k = Some (r, k') \<and> kinv k' \<and> same_core k k' \<and> (\<forall>t. r = Some t \<longrightarrow> runnable k' t)"
  using rr_loop_kinv [OF assms, of "rr_runq k"] assms(1) by (simp add: rr_schedule_def kinv_def rr_inv_def)

section \<open>The contract of a scheduling policy\<close>

text \<open>
  What the core asks of a policy: \<open>run\<close> never fails, keeps the invariant and the queues of the
  core, and selects only threads that satisfy \<open>sel\<close>.
\<close>

locale policy_contract =
  fixes inv :: "kern \<Rightarrow> bool" and run :: "kern \<Rightarrow> (int option \<times> kern) option" and sel :: "kern \<Rightarrow> int \<Rightarrow> bool"
  assumes run_ok: "inv k \<Longrightarrow> readyq k = [] \<Longrightarrow>
    \<exists>r k'. run k = Some (r, k') \<and> inv k' \<and> same_core k k' \<and> (\<forall>t. r = Some t \<longrightarrow> sel k' t)"
begin

text \<open>A policy that can select nothing passes on to the next one.\<close>

lemma nothing_run:
  assumes "inv k" "readyq k = []" and "\<And>k t. \<not> sel k t"
  shows "\<exists>k'. run k = Some (None, k') \<and> inv k' \<and> same_core k k'"
  using run_ok [OF assms(1,2)] assms(3) by (metis option.exhaust)

text \<open>Running the policy twice in a row is possible in any state it left.\<close>

lemma run_again:
  assumes "inv k" "readyq k = []" "run k = Some (r, k')"
  shows "\<exists>r' k''. run k' = Some (r', k'') \<and> inv k'' \<and> same_core k k''"
  using run_ok [OF assms(1,2)] run_ok [of k'] assms(2,3)
  by (auto simp: same_core_def)

end

interpretation rr: policy_contract kinv "rr_schedule fq" runnable for fq
  by unfold_locales (rule rr_schedule_kinv)

interpretation fifo_unused: policy_contract kinv "fifo_schedule fq" "\<lambda>_ _. False" for fq
  by unfold_locales (auto simp: fifo_schedule_def kinv_def rr_inv_def)

interpretation idle: policy_contract kinv idle_schedule "\<lambda>k t. idle_info k = Some t"
  by unfold_locales (auto simp: idle_schedule_def)

lemma run_scheds_ok:
  assumes "kinv k" "readyq k = []" "idle_info k = Some i"
  shows "\<exists>k'. run_scheds (sched_arr fq) k = Some k' \<and> kinv k' \<and> readyq k' = [] \<and>
    (runnable k' (current_thread k') \<or> current_thread k' = i)"
proof -
  obtain k1 where k1: "fifo_schedule fq k = Some (None, k1)" "kinv k1" "same_core k k1"
    using fifo_unused.nothing_run [OF assms(1,2)] by blast
  have r1: "readyq k1 = []" "idle_info k1 = Some i" using k1(3) assms by (simp_all add: same_core_def)
  obtain r k2 where k2: "rr_schedule fq k1 = Some (r, k2)" "kinv k2" "same_core k1 k2" "\<forall>t. r = Some t \<longrightarrow> runnable k2 t"
    using rr.run_ok [OF k1(2) r1(1)] by blast
  have run: "runnable (k2\<lparr>current_thread := t\<rparr>) x = runnable k2 x" for t x by (simp add: runnable_def)
  show ?thesis
    using k1(1) k2 r1 kinv_frame(5) [OF k2(2)]
    by (cases r)
       (auto simp: sched_arr_def sched_fifo_def sched_rr_def sched_idle_def idle_schedule_def same_core_def run)
qed

lemma drain_ok:
  assumes "kinv k" "n = length (readyq k)"
  shows "\<exists>k'. drain_readyq (sched_arr fq) n k = Some k' \<and> kinv k' \<and> readyq k' = [] \<and>
    idle_info k' = idle_info k \<and> current_thread k' = current_thread k"
  using assms
proof (induction n arbitrary: k)
  case 0
  then show ?case by simp
next
  case (Suc n)
  then obtain t ts where q: "readyq k = t # ts" by (cases "readyq k") auto
  then obtain th where th: "thr k t = Some th" "sched_policy th = 1" "t \<in> threadmap k"
    using Suc.prems(1) by (auto simp: kinv_def)
  let ?th = "snd (thread_state_set THREAD_STATE_EXEC th)"
  let ?k1 = "k\<lparr>readyq := ts\<rparr>"
  have k1: "kinv ?k1" using Suc.prems(1) q kinv_frame(1) [OF Suc.prems(1), of ts] by (auto simp: kinv_def)
  have th': "tstate ?th \<noteq> THREAD_STATE_INIT" by (simp add: thread_state_set_def)
  have k2: "kinv (?k1\<lparr>thr := (thr ?k1)(t \<mapsto> ?th)\<rparr>)"
    using k1 th th' by (intro kinv_upd [of ?k1 t th]) (auto simp: thread_state_set_def kinv_def)
  obtain k3 where k3: "rr_insert t (?k1\<lparr>thr := (thr ?k1)(t \<mapsto> ?th)\<rparr>) = Some (0, k3)" "kinv k3"
      "same_core (?k1\<lparr>thr := (thr ?k1)(t \<mapsto> ?th)\<rparr>) k3"
    using rr_insert_kinv [OF k2, of t ?th] th(3) th' by auto
  have "n = length (readyq k3)" using k3(3) Suc.prems(2) q by (simp add: same_core_def)
  from Suc.IH [OF k3(2) this] k3 q th show ?case
    by (simp add: thread_remove_ready_def sched_arr_def sched_rr_def upd_thread_def same_core_def)
qed

section \<open>The ready queue\<close>

text \<open>Histories of the ready queue: wake-ups, the step of the scheduler core that takes the first
  thread, and terminations.\<close>

datatype ready_op = Wake int | Take | Terminate int

fun ready_step :: "ready_op \<Rightarrow> kern \<Rightarrow> kern option" where
  "ready_step (Wake t) k = map_option snd (thread_ready t k)"
| "ready_step Take k =
     (case thread_remove_ready k of
        (None, k) \<Rightarrow> Some k
      | (Some t, k) \<Rightarrow> upd_thread t (\<lambda>th. snd (thread_state_set THREAD_STATE_EXEC th)) k)"
| "ready_step (Terminate t) k =
     (if t \<in> threadmap k then upd_thread t (\<lambda>th. snd (thread_state_set THREAD_STATE_DEAD th)) k else Some k)"

fun ready_run :: "ready_op list \<Rightarrow> kern \<Rightarrow> kern option" where
  "ready_run [] k = Some k"
| "ready_run (x # xs) k = do { k \<leftarrow> ready_step x k; ready_run xs k }"

definition rq_inv :: "kern \<Rightarrow> bool" where
  "rq_inv k \<longleftrightarrow> distinct (readyq k) \<and> threadmap k \<subseteq> dom (thr k) \<and>
     (\<forall>t \<in> set (readyq k). \<exists>th. thr k t = Some th \<and> tstate th \<in> {THREAD_STATE_READY, THREAD_STATE_DEAD}) \<and>
     (\<forall>t th. thr k t = Some th \<longrightarrow> tstate th = THREAD_STATE_READY \<longrightarrow> t \<in> set (readyq k))"

lemma ready_step_inv:
  assumes "rq_inv k"
  shows "\<exists>k'. ready_step x k = Some k' \<and> rq_inv k' \<and> threadmap k' = threadmap k"
proof (cases x)
  case (Wake t)
  show ?thesis
  proof (cases "t \<in> threadmap k")
    case True
    then obtain th where th: "thr k t = Some th" using assms by (auto simp: rq_inv_def)
    show ?thesis
      using assms True th Wake
      by (cases "tstate th") (auto simp: thread_ready_def thread_lookup_def thread_state_get_def
          thread_state_set_def rq_inv_def Let_def fun_upd_triv)
  qed (use assms Wake in \<open>simp add: thread_ready_def thread_lookup_def\<close>)
next
  case Take
  show ?thesis
  proof (cases "readyq k")
    case (Cons t ts)
    with assms obtain th where "thr k t = Some th" by (auto simp: rq_inv_def)
    with Cons Take assms show ?thesis
      by (auto simp: thread_remove_ready_def upd_thread_def thread_state_set_def rq_inv_def)
  qed (use assms Take in \<open>simp add: thread_remove_ready_def\<close>)
next
  case (Terminate t)
  show ?thesis
  proof (cases "t \<in> threadmap k")
    case True
    with assms obtain th where "thr k t = Some th" by (auto simp: rq_inv_def)
    with True Terminate assms show ?thesis
      by (auto simp: upd_thread_def thread_state_set_def rq_inv_def)
  qed (use assms Terminate in simp)
qed

section \<open>Properties\<close>


definition demo_thread :: "int \<Rightarrow> thread_info" where
  "demo_thread t = \<lparr>tid = t, flags = 1, pid_owner = 0, tstate = THREAD_STATE_EXEC, policy_flags = 0,
     ts_counter = 0, fifo_prio = 0, sched_policy = 1, sched_priority = 0, wait_tim = - 1, tretval = 0,
     exit_ksiginfo = None, tsigs = demo_sigs, sigwait_retval = None, parent = None, first_child = None,
     next_child = None\<rparr>"

definition demo_kern :: kern where
  "demo_kern = \<lparr>thr = [0 \<mapsto> demo_thread 0, 7 \<mapsto> (demo_thread 7)\<lparr>tstate := THREAD_STATE_READY\<rparr>],
     threadmap = {0, 7}, readyq = [7], rr_runq = [], rr_nr_active = 0, fifo_runq = [], fifo_nr_active = 0,
     idle_info = Some 0, current_thread = 0, curpid = 1, int_off = True, saved_istate = True, thread_free_queue = [],
     released_tims = [], anr_threads = 2, procs = [1 \<mapsto> \<lparr>main_thread = Some 7, nice = 0, pcred = user_cred,
       psigs = demo_sigs, zombie = False, pexit_ksiginfo = None, fds_closed = False, usigret = 0\<rparr>]\<rparr>"

lemma demo_kern_inv: "kinv demo_kern"
  using live_init
  by (auto simp: kinv_def rr_inv_def queued_def demo_kern_def demo_thread_def thread_test_polflag_def
      demo_sigs_def obj_ok_def split: if_splits)

lemma demo_kern_fields: "curcred demo_kern = Some user_cred" "current_thread demo_kern = 0" "curpid demo_kern = 1"
  "thr demo_kern 0 = Some (demo_thread 0)" "threadmap demo_kern = {0, 7}" "threadmap demo_kern \<subseteq> dom (thr demo_kern)"
  "thr demo_kern 7 = Some ((demo_thread 7)\<lparr>tstate := THREAD_STATE_READY\<rparr>)" "euid user_cred = 1000"
  "pid_owner (demo_thread t) = 0"
  by (simp_all add: demo_kern_def curcred_def user_cred_def demo_thread_def)




text \<open>
  Priorities are flattened. For every thread that is in use and belongs to a live process
  the scheduling priority is -20, whatever its own priority (other than the error value) and the
  nice value of the process, because the two bounds of NICE_RANGE are swapped; its time slice is
  always 1.
\<close>

theorem nice_range_flattens:
  assumes "procs k (pid_owner th) = Some p" and "\<not> thread_flags_not_set th SCHED_IN_USE_FLAG"
    and "sched_priority th \<noteq> NICE_ERR"
  shows "thread_p_get_scheduling_priority k th = NICE_MIN \<and> get_tts k th = 1"
  using assms by (simp add: thread_p_get_scheduling_priority_def get_tts_def NICE_RANGE_def Let_def)

theorem nice_range_flattens_witness:
  "thread_p_get_scheduling_priority demo_kern ((demo_thread 7)\<lparr>pid_owner := 1, sched_priority := 15\<rparr>) = - 20"
  using nice_range_flattens [of demo_kern "(demo_thread 7)\<lparr>pid_owner := 1, sched_priority := 15\<rparr>"]
  by (simp add: demo_kern_def demo_thread_def thread_flags_not_set_def thread_flags_get_def)

text \<open>
  The check of scheduling parameters is inverted. A caller that holds none of the three
  scheduling privileges may ask for any policy and priority; a caller that holds all of them is
  refused with EPERM whenever it asks for another policy than SCHED_OTHER, a negative priority,
  or a lower value than its own.
\<close>

theorem sched_param_check_inverted:
  assumes "thr k (current_thread k) = Some cur" and "curcred k = Some c" and "cred_wf c"
  shows "(\<not> (suser \<and> euid c = 0) \<and> {71, 72, 73} \<inter> effs c = {} \<longrightarrow>
      sched_priv_check_param suser policy priority k = Some 0) \<and>
    (suser \<and> euid c = 0 \<or> {71, 72, 73} \<subseteq> effs c \<longrightarrow>
      sched_priv_check_param suser policy priority k =
        Some (if policy \<noteq> SCHED_OTHER \<or> priority < NZERO \<or> priority < sched_priority cur then - EPERM else 0))"
proof -
  have pc: "priv_check suser c p = Some (if suser \<and> euid c = 0 \<or> nat p \<in> effs c then 0 else - EPERM)"
    if "p \<in> {71, 72, 73}" for p
    using that priv_check_eq [OF assms(3), of suser p] by (auto simp: superuser_for_def cap_pos_def)
  show ?thesis using assms(1,2) by (auto simp: sched_priv_check_param_def pc)
qed

theorem sched_param_check_inverted_witness:
  "sched_priv_check_param True 0 (- 20) demo_kern = Some 0"
proof -
  have "{71, 72, 73} \<inter> effs user_cred = {}"
    by (auto simp: effs_def used_def user_cred_def)
  with sched_param_check_inverted [of demo_kern "demo_thread 0" user_cred True 0 "- 20"]
  show ?thesis by (simp add: demo_kern_fields user_cred_wf)
qed

text \<open>
  Changing the policy of a queued thread breaks the FIFO queue. Both policies mark queued
  threads with the same flag: a thread that is in the round robin queue and is inserted by the FIFO
  policy after thread_set_policy is taken for a member of the FIFO tree, which it is not, and
  removed from it.
\<close>

theorem policy_change_corrupts_fifo:
  assumes "kinv k" and "t \<in> set (rr_runq k)" and "thread_set_policy t SCHED_FIFO k = Some (0, k')"
  shows "queued k' t \<and> t \<notin> set (fifo_runq k') \<and> fifo_insert t k' = None"
proof -
  have "queued k t" "fifo_runq k = []" using assms(1,2) by (auto simp: kinv_def rr_inv_def)
  moreover have "\<exists>th. thr k t = Some th \<and> k' = k\<lparr>thr := (thr k)(t \<mapsto> th\<lparr>sched_policy := 0\<rparr>)\<rparr>"
    using assms(3)
    by (auto simp: thread_set_policy_def lookup_in_use_def thread_lookup_def bind_eq_Some_conv
        split: option.splits if_splits)
  ultimately show ?thesis
    by (auto simp: queued_def fifo_insert_def rb_remove_fifo_def thread_test_polflag_def)
qed

theorem policy_change_corrupts_fifo_witness:
  "\<exists>k k'. rr_insert 7 demo_kern = Some (0, k) \<and> thread_set_policy 7 SCHED_FIFO k = Some (0, k') \<and> fifo_insert 7 k' = None"
proof -
  obtain k where k: "rr_insert 7 demo_kern = Some (0, k)" "kinv k"
    using rr_insert_kinv [OF demo_kern_inv, of 7 "(demo_thread 7)\<lparr>tstate := THREAD_STATE_READY\<rparr>"]
    by (auto simp: demo_kern_def)
  have "7 \<in> set (rr_runq k)" "\<exists>k'. thread_set_policy 7 SCHED_FIFO k = Some (0, k')"
    using k(1) by (auto simp: rr_insert_def demo_kern_def demo_thread_def thread_test_polflag_def
        thread_set_policy_def lookup_in_use_def thread_lookup_def thread_flags_not_set_def thread_flags_get_def)
  with policy_change_corrupts_fifo [OF k(2)] k(1) show ?thesis by blast
qed

text \<open>
  Setting a priority by system call. sys_thread_setpriority succeeds only for a priority in
  the nice range, of a thread that is in use, and only when the thread belongs to the caller and
  the priority is not negative or the caller holds PRIV_SCHED_SETPRIORITY; then exactly that
  thread's priority changes. In every other case nothing changes and the caller gets -1.
\<close>

theorem setpriority_guarded:
  assumes "curcred k = Some c" and "cred_wf c" and "threadmap k \<subseteq> dom (thr k)"
  shows "\<exists>r e k'. sys_thread_setpriority suser (Some (t, p)) k = Some (r, e, k') \<and>
    (if r = 0 then \<exists>th. t \<in> threadmap k \<and> thr k t = Some th \<and>
        (pid_owner th = curpid k \<and> 0 \<le> p \<or> suser \<and> euid c = 0 \<or> 71 \<in> effs c) \<and>
        NICE_MIN \<le> p \<and> p \<le> NICE_MAX \<and> k' = k\<lparr>thr := (thr k)(t \<mapsto> th\<lparr>sched_priority := p\<rparr>)\<rparr>
     else r = - 1 \<and> k' = k)"
proof (cases "t \<in> threadmap k")
  case True
  then obtain th where "thr k t = Some th" using assms(3) by blast
  with True assms(1) priv_check_eq [OF assms(2), of suser 71] show ?thesis
    by (auto simp: sys_thread_setpriority_def thread_lookup_def thread_set_priority_def lookup_in_use_def
        superuser_for_def cap_pos_def)
qed (simp add: sys_thread_setpriority_def thread_lookup_def)

theorem setpriority_guarded_witness:
  "\<exists>r e k'. sys_thread_setpriority True (Some (7, - 5)) demo_kern = Some (r, e, k') \<and> r = - 1 \<and> k' = demo_kern"
proof -
  have "71 \<notin> effs user_cred" by (auto simp: effs_def used_def user_cred_def)
  with setpriority_guarded [OF demo_kern_fields(1) user_cred_wf demo_kern_fields(6), of True 7 "- 5"]
  show ?thesis by (auto simp: demo_kern_fields split: if_splits)
qed

end
