(* ===== verification/Ksignal.thy ===== *)
theory Ksignal
  imports Sched
begin

text \<open>
  Sending, forwarding and delivering signals (\<^verbatim>\<open>kern/ksignal.c\<close>), over the kernel state of
  \<open>Sched\<close>. The lock of a signals struct masks interrupts while it is held, and the interrupt
  state it restores is one global variable (\<open>saved_istate\<close>); with interrupts masked a lock is
  only tried. Waiting for a lock that no one will release is \<open>None\<close>. \<open>mem_ok\<close> says that
  \<open>kmalloc\<close> succeeds and \<open>core_ok\<close> that a core dump was written. The mutual recursion of
  sending a signal and terminating a thread carries fuel: every level goes down one level of the
  tree of child threads.
\<close>

section \<open>Locks\<close>

datatype sigref = OfThread int | OfProc int

definition get_sigs :: "kern \<Rightarrow> sigref \<Rightarrow> signals option" where
  "get_sigs k r = (case r of OfThread t \<Rightarrow> map_option tsigs (thr k t) | OfProc p \<Rightarrow> map_option psigs (procs k p))"

definition upd_sigs :: "sigref \<Rightarrow> (signals \<Rightarrow> signals) \<Rightarrow> kern \<Rightarrow> kern option" where
  "upd_sigs r f k = (case r of
     OfThread t \<Rightarrow> upd_thread t (\<lambda>th. th\<lparr>tsigs := f (tsigs th)\<rparr>) k
   | OfProc p \<Rightarrow> do { pr \<leftarrow> procs k p; Some (k\<lparr>procs := (procs k)(p \<mapsto> pr\<lparr>psigs := f (psigs pr)\<rparr>)\<rparr>) })"

text \<open>\<open>ksig_lock\<close> on a struct of the system, with the interrupt state of the DINT option.\<close>

definition klock :: "sigref \<Rightarrow> kern \<Rightarrow> (int \<times> kern) option" where
  "klock r k = do {
     sg \<leftarrow> get_sigs k r;
     (e, sg') \<leftarrow> ksig_lock (int_off k) sg;
     k \<leftarrow> upd_sigs r (\<lambda>_. sg') (k\<lparr>saved_istate := int_off k, int_off := True\<rparr>);
     Some (e, if e \<noteq> 0 then k\<lparr>int_off := saved_istate k\<rparr> else k) }"

definition kunlock :: "sigref \<Rightarrow> kern \<Rightarrow> kern option" where
  "kunlock r k = upd_sigs r ksig_unlock (k\<lparr>int_off := saved_istate k\<rparr>)"

text \<open>\<open>while (ksig_lock(..));\<close>: with the lock held by the caller itself this never ends.\<close>

definition klock_wait :: "sigref \<Rightarrow> kern \<Rightarrow> kern option" where
  "klock_wait r k = do { (e, k) \<leftarrow> klock r k; if e \<noteq> 0 then None else Some k }"

section \<open>Waking a thread\<close>

definition ksignal_exec_cond :: "int \<Rightarrow> int \<Rightarrow> kern \<Rightarrow> kern option" where
  "ksignal_exec_cond t signum k = do {
     th \<leftarrow> thr k t;
     blocked \<leftarrow> ksignal_isblocked (tsigs th) signum;
     let swait = sigismember (s_wait (tsigs th)) signum \<noteq> 0;
     if thread_state_get th = THREAD_STATE_INIT then Some k
     else if blocked \<and> swait then thread_release t k
     else if \<not> blocked then map_option snd (thread_ready t k)
     else Some k }"

section \<open>Forwarding process signals to threads\<close>

text \<open>The threads that \<open>proc_iterate_threads\<close> visits: the main thread and its chain of children.\<close>

fun child_chain :: "kern \<Rightarrow> nat \<Rightarrow> int option \<Rightarrow> int list option" where
  "child_chain k n None = Some []"
| "child_chain k 0 (Some t) = None"
| "child_chain k (Suc n) (Some t) = do {
     th \<leftarrow> thr k t;
     ts \<leftarrow> child_chain k n (next_child th);
     Some (t # ts) }"

definition proc_threads :: "kern \<Rightarrow> nat \<Rightarrow> proc_info \<Rightarrow> int list option" where
  "proc_threads k n p = (case main_thread p of
     None \<Rightarrow> Some []
   | Some t \<Rightarrow> do { th \<leftarrow> thr k t; ts \<leftarrow> child_chain k n (first_child th); Some (t # ts) })"

definition remove_at :: "nat \<Rightarrow> 'a list \<Rightarrow> 'a list" where
  "remove_at i xs = take i xs @ drop (Suc i) xs"

text \<open>The inner loop for the pending signal at position \<open>i\<close>; \<open>True\<close> ends the whole function.\<close>

fun forward_to_threads :: "int \<Rightarrow> nat \<Rightarrow> siginfo \<Rightarrow> int list \<Rightarrow> kern \<Rightarrow> (bool \<times> kern) option" where
  "forward_to_threads pid i info [] k = Some (False, k)"
| "forward_to_threads pid i info (t # ts) k = do {
     (e, k) \<leftarrow> klock (OfThread t) k;
     if e \<noteq> 0 then Some (True, k)
     else do {
       th \<leftarrow> thr k t;
       blocked \<leftarrow> ksignal_isblocked (tsigs th) (si_signo info);
       let swait = sigismember (s_wait (tsigs th)) (si_signo info) \<noteq> 0;
       if \<not> (blocked \<and> swait) \<and> blocked then do {
         k \<leftarrow> kunlock (OfThread t) k;
         forward_to_threads pid i info ts k }
       else do {
         k \<leftarrow> upd_sigs (OfProc pid) (\<lambda>s. s\<lparr>s_pendqueue := remove_at i (s_pendqueue s)\<rparr>) k;
         k \<leftarrow> upd_sigs (OfThread t) (\<lambda>s. s\<lparr>s_pendqueue := s_pendqueue s @ [info]\<rparr>) k;
         k \<leftarrow> (if t \<noteq> current_thread k then ksignal_exec_cond t (si_signo info) k else Some k);
         k \<leftarrow> kunlock (OfThread t) k;
         Some (True, k) } } }"

fun forward_loop :: "int \<Rightarrow> nat \<Rightarrow> siginfo list \<Rightarrow> int list \<Rightarrow> kern \<Rightarrow> kern option" where
  "forward_loop pid i [] ts k = Some k"
| "forward_loop pid i (info # infos) ts k = do {
     (stop, k) \<leftarrow> forward_to_threads pid i info ts k;
     if stop then Some k else forward_loop pid (Suc i) infos ts k }"

definition forward_proc_signals :: "nat \<Rightarrow> int \<Rightarrow> kern \<Rightarrow> kern option" where
  "forward_proc_signals n pid k = do {
     p \<leftarrow> procs k pid;
     if \<not> ksig_testlock (psigs p) then None
     else do {
       ts \<leftarrow> proc_threads k n p;
       forward_loop pid 0 (s_pendqueue (psigs p)) ts k } }"

definition forward_proc_signals_curproc :: "nat \<Rightarrow> kern \<Rightarrow> kern option" where
  "forward_proc_signals_curproc n k = do {
     (e, k) \<leftarrow> klock (OfProc (curpid k)) k;
     if e \<noteq> 0 then Some k
     else do {
       k \<leftarrow> forward_proc_signals n (curpid k) k;
       kunlock (OfProc (curpid k)) k } }"

section \<open>Queuing a signal and terminating threads\<close>

abbreviation (input) CLD_KILLED :: int where "CLD_KILLED \<equiv> 26"
abbreviation (input) CLD_DUMPED :: int where "CLD_DUMPED \<equiv> 27"
abbreviation (input) SI_UNKNOWN :: int where "SI_UNKNOWN \<equiv> 0"
abbreviation (input) SI_USER :: int where "SI_USER \<equiv> 31"

definition sig_param :: "int \<Rightarrow> ksignal_param" where
  "sig_param code = \<lparr>par_code = code, par_errno = 0, par_addr = 0, par_status = 0, par_value = 0\<rparr>"

text \<open>The signal record built from the parameter and the sender.\<close>

definition build_info :: "kern \<Rightarrow> int \<Rightarrow> ksignal_param \<Rightarrow> siginfo option" where
  "build_info k signum p = do {
     pr \<leftarrow> procs k (curpid k);
     Some \<lparr>si_signo = signum, si_code = par_code p, si_errno = par_errno p, si_tid = current_thread k,
       si_pid = curpid k, si_uid = uid (pcred pr), si_addr = par_addr p, si_status = par_status p,
       si_value = par_value p\<rparr> }"

text \<open>The thread behind a signals struct: its own, or the main thread of the process.\<close>

definition owner_thread :: "kern \<Rightarrow> sigref \<Rightarrow> int option" where
  "owner_thread k r = (case r of OfThread t \<Rightarrow> Some t | OfProc p \<Rightarrow> Option.bind (procs k p) main_thread)"

text \<open>The branch that makes a signal pending and wakes the thread.\<close>

definition queue_pending :: "sigref \<Rightarrow> int \<Rightarrow> int \<Rightarrow> siginfo \<Rightarrow> kern \<Rightarrow> kern option" where
  "queue_pending r t signum info k = do {
     k \<leftarrow> upd_sigs r (\<lambda>s. s\<lparr>s_pendqueue := s_pendqueue s @ [info]\<rparr>) k;
     if t \<noteq> current_thread k then
       if r \<noteq> OfThread t then do {
         k \<leftarrow> klock_wait (OfThread t) k;
         k \<leftarrow> ksignal_exec_cond t signum k;
         kunlock (OfThread t) k }
       else ksignal_exec_cond t signum k
     else Some k }"

text \<open>The code of the exit signal: \<open>CLD_DUMPED\<close> when the main thread's core was written.\<close>

definition kill_code :: "bool \<Rightarrow> kern \<Rightarrow> int \<Rightarrow> ksigaction \<Rightarrow> int option" where
  "kill_code core_ok k t action = do {
     th \<leftarrow> thr k t;
     Some (case procs k (pid_owner th) of
       Some pr \<Rightarrow> if sa_flags (ks_action action) AND SA_CORE \<noteq> 0 \<and> main_thread pr = Some t \<and> core_ok
         then CLD_DUMPED else CLD_KILLED
     | None \<Rightarrow> CLD_KILLED) }"

definition mark_kill :: "sigref \<Rightarrow> int \<Rightarrow> kern \<Rightarrow> kern option" where
  "mark_kill r t k =
     (if r \<noteq> OfThread t then do {
        k \<leftarrow> klock_wait (OfThread t) k;
        k \<leftarrow> upd_sigs (OfThread t) (KSIGFLAG_SET KSIGFLAG_SA_KILL) k;
        kunlock (OfThread t) k }
      else upd_sigs r (KSIGFLAG_SET KSIGFLAG_SA_KILL) k)"

text \<open>
  \<open>ksignal_queue_sig\<close> and \<open>ksignal_sendsig\<close> over the function \<open>term\<close> they call to terminate a
  thread; the recursion is closed below.
\<close>

definition queue_sig_with :: "(int \<Rightarrow> kern \<Rightarrow> (int \<times> kern) option) \<Rightarrow> bool \<Rightarrow> bool \<Rightarrow> sigref \<Rightarrow> int \<Rightarrow> ksignal_param
    \<Rightarrow> kern \<Rightarrow> (int \<times> kern) option" where
  "queue_sig_with term mem_ok core_ok r signum param k = do {
     sg \<leftarrow> get_sigs k r;
     if \<not> ksig_testlock sg then None
     else if signum \<le> 0 \<or> signum > SIG_MAXSIG then Some (- EINVAL, k)
     else if sigismember (s_running sg) signum \<noteq> 0 then Some (0, k)
     else do {
       action \<leftarrow> ksignal_get_ksigaction sg signum;
       if sa_handler (ks_action action) = SIG_IGN then Some (0, k)
       else do {
         t \<leftarrow> owner_thread k r;
         if \<not> mem_ok then Some (- ENOMEM, k)
         else do {
           info \<leftarrow> build_info k signum param;
           if sa_handler (ks_action action) = SIG_DFL \<and> sa_flags (ks_action action) AND SA_KILL \<noteq> 0
              \<and> sigismember (s_wait sg) signum = 0
           then do {
             code \<leftarrow> kill_code core_ok k t action;
             k \<leftarrow> upd_thread t (\<lambda>th. th\<lparr>exit_ksiginfo := Some (info\<lparr>si_code := code\<rparr>)\<rparr>) k;
             cur \<leftarrow> thr k (current_thread k);
             if thread_flags_is_set cur SCHED_INSYS_FLAG then do { k \<leftarrow> mark_kill r t k; Some (0, k) }
             else do { (_, k) \<leftarrow> term t k; Some (0, k) } }
           else do { k \<leftarrow> queue_pending r t signum info k; Some (0, k) } } } } }"

definition sendsig_with :: "(int \<Rightarrow> kern \<Rightarrow> (int \<times> kern) option) \<Rightarrow> bool \<Rightarrow> bool \<Rightarrow> sigref \<Rightarrow> int \<Rightarrow> ksignal_param
    \<Rightarrow> kern \<Rightarrow> (int \<times> kern) option" where
  "sendsig_with term mem_ok core_ok r signum param k = do {
     sg \<leftarrow> get_sigs k r;
     (err, ko) \<leftarrow> kobj_ref (s_obj sg);
     k \<leftarrow> upd_sigs r (\<lambda>s. s\<lparr>s_obj := ko\<rparr>) k;
     if err \<noteq> 0 then Some (- EAGAIN, k)
     else do {
       (e, k) \<leftarrow> klock r k;
       (retval, k) \<leftarrow> (if e \<noteq> 0 then Some (- EAGAIN, k)
         else do {
           (retval, k) \<leftarrow> queue_sig_with term mem_ok core_ok r signum param k;
           k \<leftarrow> kunlock r k;
           Some (retval, k) });
       sg \<leftarrow> get_sigs k r;
       (_, ko) \<leftarrow> kobj_unref (s_obj sg);
       k \<leftarrow> upd_sigs r (\<lambda>s. s\<lparr>s_obj := ko\<rparr>) k;
       Some (retval, k) } }"

text \<open>The loop over the children of \<open>p\<close>; \<open>n\<close> bounds the length of the chain.\<close>

fun terminate_children :: "(int \<Rightarrow> kern \<Rightarrow> (int \<times> kern) option) \<Rightarrow> nat \<Rightarrow> int \<Rightarrow> int option \<Rightarrow> kern \<Rightarrow> kern option" where
  "terminate_children send n p None k = Some k"
| "terminate_children send 0 p (Some c) k = None"
| "terminate_children send (Suc n) p (Some c) k = do {
     ch \<leftarrow> thr k c;
     th \<leftarrow> thr k p;
     let nxt = next_child ch;
     (err, k) \<leftarrow> (if \<not> thread_test_terminate_ok th then Some (1, k) else send c k);
     k \<leftarrow> (if err \<noteq> 0 then upd_thread c (\<lambda>th. th\<lparr>parent := None, next_child := None\<rparr>) k else Some k);
     k \<leftarrow> upd_thread p (\<lambda>th. th\<lparr>first_child := nxt\<rparr>) k;
     terminate_children send n p nxt k }"

text \<open>\<open>len\<close> bounds the chains of children, the first argument the depth of the tree.\<close>

primrec thread_terminate :: "nat \<Rightarrow> bool \<Rightarrow> bool \<Rightarrow> nat \<Rightarrow> int \<Rightarrow> kern \<Rightarrow> (int \<times> kern) option" where
  "thread_terminate 0 mem_ok core_ok len t k = None"
| "thread_terminate (Suc d) mem_ok core_ok len t k =
     (case thread_lookup k t of
        None \<Rightarrow> Some (- EINVAL, k)
      | Some p \<Rightarrow> do {
          th \<leftarrow> thr k p;
          if \<not> thread_test_terminate_ok th then Some (- EPERM, k)
          else do {
            k \<leftarrow> terminate_children
                  (\<lambda>c. sendsig_with (thread_terminate d mem_ok core_ok len) mem_ok core_ok (OfThread c) SIGKILL
                        (sig_param SI_UNKNOWN)) len p (first_child th) k;
            k \<leftarrow> upd_thread p (\<lambda>th. snd (thread_state_set THREAD_STATE_DEAD th)) k;
            case parent th of
              None \<Rightarrow> Some (0, k)
            | Some q \<Rightarrow> do {
                (_, k) \<leftarrow> sendsig_with (thread_terminate d mem_ok core_ok len) mem_ok core_ok (OfThread q)
                            SIGCHLDTHRD ((sig_param 0)\<lparr>par_value := t\<rparr>) k;
                Some (0, k) } } })"

definition ksignal_queue_sig :: "nat \<Rightarrow> nat \<Rightarrow> bool \<Rightarrow> bool \<Rightarrow> sigref \<Rightarrow> int \<Rightarrow> ksignal_param \<Rightarrow> kern \<Rightarrow> (int \<times> kern) option" where
  "ksignal_queue_sig d len mem_ok core_ok r signum param k =
     queue_sig_with (thread_terminate d mem_ok core_ok len) mem_ok core_ok r signum param k"

definition ksignal_sendsig :: "nat \<Rightarrow> nat \<Rightarrow> bool \<Rightarrow> bool \<Rightarrow> sigref \<Rightarrow> int \<Rightarrow> ksignal_param \<Rightarrow> kern \<Rightarrow> (int \<times> kern) option" where
  "ksignal_sendsig d len mem_ok core_ok r signum param k =
     sendsig_with (thread_terminate d mem_ok core_ok len) mem_ok core_ok r signum param k"

definition thread_die :: "nat \<Rightarrow> nat \<Rightarrow> bool \<Rightarrow> bool \<Rightarrow> int \<Rightarrow> kern \<Rightarrow> kern option" where
  "thread_die d len mem_ok core_ok rv k = do {
     k \<leftarrow> upd_thread (current_thread k) (\<lambda>th. th\<lparr>tretval := rv\<rparr>) k;
     (_, k) \<leftarrow> thread_terminate d mem_ok core_ok len (current_thread k) k;
     thread_wait k }"

definition ksignal_sendsig_fatal :: "nat \<Rightarrow> nat \<Rightarrow> bool \<Rightarrow> bool \<Rightarrow> int \<Rightarrow> int \<Rightarrow> ksignal_param \<Rightarrow> kern \<Rightarrow> kern option" where
  "ksignal_sendsig_fatal d len mem_ok core_ok pid signum param k = do {
     let r = OfProc pid;
     sg \<leftarrow> get_sigs k r;
     (err, ko) \<leftarrow> kobj_ref (s_obj sg);
     k \<leftarrow> upd_sigs r (\<lambda>s. s\<lparr>s_obj := ko\<rparr>) k;
     if err \<noteq> 0 then Some k
     else do {
       k \<leftarrow> klock_wait r k;
       sg \<leftarrow> get_sigs k r;
       (err, sg) \<leftarrow> ksignal_reset_ksigaction signum sg;
       k \<leftarrow> upd_sigs r (\<lambda>_. sg) k;
       k \<leftarrow> (if err \<noteq> 0 then Some k
             else do {
               (_, k) \<leftarrow> ksignal_queue_sig d len mem_ok core_ok r signum param k;
               kunlock r k });
       sg \<leftarrow> get_sigs k r;
       (_, ko) \<leftarrow> kobj_unref (s_obj sg);
       upd_sigs r (\<lambda>s. s\<lparr>s_obj := ko\<rparr>) k } }"

section \<open>Delivery after scheduling\<close>

datatype scan = NoSignal signals | WaitedFor nat siginfo signals | InKernel nat siginfo signals
  | ToUser nat siginfo ksigaction signals

text \<open>The loop over the pending signals of the current thread, from position \<open>i\<close>.\<close>

fun post_scan :: "nat \<Rightarrow> siginfo list \<Rightarrow> signals \<Rightarrow> scan option" where
  "post_scan i [] s = Some (NoSignal s)"
| "post_scan i (info # infos) s = do {
     let signum = si_signo info;
     blocked \<leftarrow> ksignal_isblocked s signum;
     let swait = sigismember (s_wait s) signum \<noteq> 0;
     action \<leftarrow> ksignal_get_ksigaction s signum;
     if sigismember (s_running s) signum \<noteq> 0 then
       post_scan (Suc i) infos (s\<lparr>s_running := snd (sigdelset (s_running s) signum)\<rparr>)
     else if blocked \<and> swait then Some (WaitedFor i info s)
     else if blocked then post_scan (Suc i) infos s
     else
       let nxt = eval_inkernel_action action
       in if nxt = 0 \<or> sa_flags (ks_action action) AND SA_IGNORE \<noteq> 0 then Some (InKernel i info s)
          else if nxt < 0 then post_scan (Suc i) infos s
          else Some (ToUser i info action s) }"

definition drop_pending :: "nat \<Rightarrow> signals \<Rightarrow> signals" where
  "drop_pending i s = s\<lparr>s_pendqueue := remove_at i (s_pendqueue s)\<rparr>"

abbreviation (input) SIGILL :: int where "SIGILL \<equiv> 4"
abbreviation (input) ILL_BADSTK :: int where "ILL_BADSTK \<equiv> 8"

text \<open>
  \<open>ksignal_post_scheduling\<close>; \<open>branch_ok\<close> is the success of \<open>ksignal_branch_sighandler\<close>, the
  architecture code that pushes the handler's stack frame. The result has the signal and action
  that go to user space, if any.
\<close>

definition ksignal_post_scheduling :: "nat \<Rightarrow> nat \<Rightarrow> bool \<Rightarrow> bool \<Rightarrow> bool \<Rightarrow> kern
    \<Rightarrow> ((siginfo \<times> ksigaction) option \<times> kern) option" where
  "ksignal_post_scheduling d len mem_ok core_ok branch_ok k = do {
     k \<leftarrow> forward_proc_signals_curproc len k;
     let r = OfThread (current_thread k);
     (e, k) \<leftarrow> klock r k;
     if e \<noteq> 0 then Some (None, k)
     else do {
       cur \<leftarrow> thr k (current_thread k);
       if thread_flags_is_set cur SCHED_INSYS_FLAG \<and> \<not> KSIGFLAG_IS_SET (tsigs cur) KSIGFLAG_INTERRUPTIBLE
       then do { k \<leftarrow> kunlock r k; Some (None, k) }
       else do {
         res \<leftarrow> post_scan 0 (s_pendqueue (tsigs cur)) (tsigs cur);
         case res of
           NoSignal s \<Rightarrow> do {
             k \<leftarrow> upd_sigs r (\<lambda>_. s) k;
             k \<leftarrow> kunlock r k;
             Some (None, k) }
         | WaitedFor i info s \<Rightarrow> do {
             k \<leftarrow> upd_sigs r (\<lambda>_. KSIGFLAG_CLEAR KSIGFLAG_INTERRUPTIBLE
                    (drop_pending i (s\<lparr>s_wait := snd (sigemptyset (s_wait s))\<rparr>))) k;
             k \<leftarrow> upd_thread (current_thread k) (\<lambda>th. th\<lparr>sigwait_retval := Some info\<rparr>) k;
             k \<leftarrow> kunlock r k;
             Some (None, k) }
         | InKernel i info s \<Rightarrow> do {
             k \<leftarrow> upd_sigs r (\<lambda>_. KSIGFLAG_CLEAR KSIGFLAG_INTERRUPTIBLE (drop_pending i s)) k;
             k \<leftarrow> kunlock r k;
             Some (None, k) }
         | ToUser i info action s \<Rightarrow>
             if \<not> branch_ok then do {
               k \<leftarrow> upd_sigs r (\<lambda>_. drop_pending i s) k;
               k \<leftarrow> kunlock r k;
               k \<leftarrow> ksignal_sendsig_fatal d len mem_ok core_ok (curpid k) SIGILL (sig_param ILL_BADSTK) k;
               Some (None, k) }
             else do {
               k \<leftarrow> upd_sigs r (\<lambda>_. KSIGFLAG_CLEAR KSIGFLAG_INTERRUPTIBLE (KSIGFLAG_SET KSIGFLAG_SIGHANDLER (drop_pending i s))) k;
               k \<leftarrow> kunlock r k;
               Some (Some (info, action), k) } } } }"

section \<open>Waiting for signals\<close>

text \<open>
  \<open>ksignal_sigwait\<close> up to the point where the thread waits: \<open>True\<close> when a pending signal was
  taken, so that it does not wait.
\<close>

fun find_member :: "nat \<Rightarrow> sigset_t \<Rightarrow> siginfo list \<Rightarrow> (nat \<times> siginfo) option" where
  "find_member i st [] = None"
| "find_member i st (x # xs) = (if sigismember st (si_signo x) \<noteq> 0 then Some (i, x) else find_member (Suc i) st xs)"

definition sigwait_begin :: "nat \<Rightarrow> sigset_t \<Rightarrow> kern \<Rightarrow> (bool \<times> kern) option" where
  "sigwait_begin len st k = do {
     let r = OfThread (current_thread k);
     k \<leftarrow> klock_wait r k;
     k \<leftarrow> upd_sigs r (\<lambda>s. s\<lparr>s_wait := st\<rparr>) k;
     k \<leftarrow> kunlock r k;
     k \<leftarrow> forward_proc_signals_curproc len k;
     k \<leftarrow> klock_wait r k;
     sg \<leftarrow> get_sigs k r;
     case find_member 0 st (s_pendqueue sg) of
       Some (i, info) \<Rightarrow> do {
         k \<leftarrow> upd_thread (current_thread k) (\<lambda>th. th\<lparr>sigwait_retval := Some info\<rparr>) k;
         k \<leftarrow> upd_sigs r (drop_pending i) k;
         k \<leftarrow> kunlock r k;
         Some (True, k) }
     | None \<Rightarrow> do {
         k \<leftarrow> upd_sigs r (KSIGFLAG_SET KSIGFLAG_INTERRUPTIBLE) k;
         k \<leftarrow> kunlock r k;
         k \<leftarrow> thread_wait k;
         Some (False, k) } }"

text \<open>The code after the wait; the result is the signal, if \<open>sigwait_retval\<close> was set.\<close>

definition sigwait_end :: "bool \<Rightarrow> kern \<Rightarrow> (siginfo option \<times> kern) option" where
  "sigwait_end taken k = do {
     let r = OfThread (current_thread k);
     k \<leftarrow> (if taken then Some k else upd_sigs r (KSIGFLAG_CLEAR KSIGFLAG_INTERRUPTIBLE) k);
     k \<leftarrow> klock_wait r k;
     k \<leftarrow> upd_sigs r (\<lambda>s. s\<lparr>s_wait := snd (sigemptyset (s_wait s))\<rparr>) k;
     th \<leftarrow> thr k (current_thread k);
     k \<leftarrow> kunlock r k;
     k \<leftarrow> upd_thread (current_thread k) (\<lambda>th. th\<lparr>sigwait_retval := None\<rparr>) k;
     Some (sigwait_retval th, k) }"

text \<open>\<open>ksignal_sigtimedwait\<close>: \<open>Inl\<close> an error before the wait.\<close>

definition sigtimedwait_begin :: "nat \<Rightarrow> int \<Rightarrow> sigset_t \<Rightarrow> kern \<Rightarrow> ((int + bool) \<times> kern) option" where
  "sigtimedwait_begin len timer_id st k = do {
     (tim, k) \<leftarrow> thread_alarm timer_id k;
     if tim < 0 then Some (Inl tim, k)
     else do { (taken, k) \<leftarrow> sigwait_begin len st k; Some (Inr taken, k) } }"

definition sigtimedwait_end :: "int \<Rightarrow> bool \<Rightarrow> kern \<Rightarrow> (int \<times> siginfo option \<times> kern) option" where
  "sigtimedwait_end timer_id taken k = do {
     (info, k) \<leftarrow> sigwait_end taken k;
     k \<leftarrow> thread_alarm_rele timer_id k;
     case info of
       None \<Rightarrow> Some (- EAGAIN, None, k)
     | Some i \<Rightarrow> if si_signo i = - 1 then Some (- EAGAIN, None, k) else Some (0, Some i, k) }"

text \<open>\<open>ksignal_sigsleep\<close>: a pending signal with a handler ends it at once with the seconds left.\<close>

fun sleep_interrupted :: "signals \<Rightarrow> siginfo list \<Rightarrow> bool option" where
  "sleep_interrupted s [] = Some False"
| "sleep_interrupted s (x # xs) =
     (if sigismember (s_block s) (si_signo x) = 0 then do {
        action \<leftarrow> ksignal_get_ksigaction s (si_signo x);
        let h = sa_handler (ks_action action);
        if h \<noteq> SIG_IGN \<and> h \<noteq> SIG_DFL \<and> si_signo x \<noteq> SIGMTX then Some True else sleep_interrupted s xs }
      else sleep_interrupted s xs)"

definition sigsleep_begin :: "nat \<Rightarrow> int \<Rightarrow> int \<Rightarrow> kern \<Rightarrow> ((int + unit) \<times> kern) option" where
  "sigsleep_begin len tv_sec timer_id k = do {
     k \<leftarrow> forward_proc_signals_curproc len k;
     let r = OfThread (current_thread k);
     k \<leftarrow> klock_wait r k;
     sg \<leftarrow> get_sigs k r;
     intr \<leftarrow> sleep_interrupted sg (s_pendqueue sg);
     if intr then do { k \<leftarrow> kunlock r k; Some (Inl tv_sec, k) }
     else do {
       (tim, k) \<leftarrow> thread_alarm timer_id k;
       if tim < 0 then Some (Inl tim, k)
       else do {
         k \<leftarrow> upd_sigs r (KSIGFLAG_SET KSIGFLAG_INTERRUPTIBLE) k;
         k \<leftarrow> kunlock r k;
         k \<leftarrow> thread_wait k;
         Some (Inr (), k) } } }"

definition sigsleep_end :: "int \<Rightarrow> int \<Rightarrow> int \<Rightarrow> kern \<Rightarrow> (int \<times> kern) option" where
  "sigsleep_end usec split timer_id k = do {
     k \<leftarrow> thread_alarm_rele timer_id k;
     let unslept = usec - split;
     Some (if unslept > 0 then unslept div 1000000 else 0, k) }"

text \<open>\<open>ksignal_syscall_exit\<close>; \<open>fixup\<close> is the architecture's stack fix-up. \<open>None\<close> as the value means
  that the thread died and the call does not return.\<close>

definition ksignal_syscall_exit :: "nat \<Rightarrow> nat \<Rightarrow> bool \<Rightarrow> bool \<Rightarrow> (int \<Rightarrow> int) \<Rightarrow> int \<Rightarrow> kern \<Rightarrow> (int option \<times> kern) option" where
  "ksignal_syscall_exit d len mem_ok core_ok fixup retval k = do {
     let r = OfThread (current_thread k);
     k \<leftarrow> klock_wait r k;
     k \<leftarrow> upd_sigs r (KSIGFLAG_CLEAR KSIGFLAG_INTERRUPTIBLE) k;
     cur \<leftarrow> thr k (current_thread k);
     if KSIGFLAG_IS_SET (tsigs cur) KSIGFLAG_SA_KILL then do {
       k \<leftarrow> kunlock r k;
       k \<leftarrow> thread_die d len mem_ok core_ok (tretval cur) k;
       Some (None, k) }
     else if KSIGFLAG_IS_SET (tsigs cur) KSIGFLAG_SIGHANDLER then do {
       k \<leftarrow> upd_sigs r (KSIGFLAG_CLEAR KSIGFLAG_SIGHANDLER) k;
       k \<leftarrow> kunlock r k;
       Some (Some (fixup retval), k) }
     else do { k \<leftarrow> kunlock r k; Some (Some retval, k) } }"

section \<open>System calls\<close>

definition syshelper_signal_pkill :: "nat \<Rightarrow> nat \<Rightarrow> bool \<Rightarrow> bool \<Rightarrow> bool \<Rightarrow> int \<Rightarrow> int \<Rightarrow> kern \<Rightarrow> (int \<times> kern) option" where
  "syshelper_signal_pkill d len mem_ok core_ok suser pid sig k = do {
     c \<leftarrow> curcred k;
     pr \<leftarrow> procs k pid;
     chk \<leftarrow> priv_check_cred suser c (pcred pr) PRIV_SIGNAL_OTHER;
     if chk \<noteq> 0 then Some (- EPERM, k)
     else do {
       let r = OfProc pid;
       sg \<leftarrow> get_sigs k r;
       (err, ko) \<leftarrow> kobj_ref (s_obj sg);
       k \<leftarrow> upd_sigs r (\<lambda>s. s\<lparr>s_obj := ko\<rparr>) k;
       if err \<noteq> 0 then Some (- EAGAIN, k)
       else do {
         (e, k) \<leftarrow> klock r k;
         k \<leftarrow> (if e \<noteq> 0 then Some k
               else do {
                 (_, k) \<leftarrow> ksignal_queue_sig d len mem_ok core_ok r sig (sig_param SI_USER) k;
                 kunlock r k });
         sg \<leftarrow> get_sigs k r;
         (_, ko) \<leftarrow> kobj_unref (s_obj sg);
         k \<leftarrow> upd_sigs r (\<lambda>s. s\<lparr>s_obj := ko\<rparr>) k;
         if e \<noteq> 0 then Some (- EAGAIN, k)
         else if pid = curpid k then do { k \<leftarrow> forward_proc_signals_curproc len k; Some (0, k) }
         else Some (0, k) } } }"

text \<open>The loop over a group of processes with the two error bits.\<close>

fun signal_pgrp_loop :: "(int \<Rightarrow> kern \<Rightarrow> (int \<times> kern) option) \<Rightarrow> int \<Rightarrow> int list \<Rightarrow> bool \<Rightarrow> bool \<Rightarrow> kern \<Rightarrow> (int \<times> kern) option" where
  "signal_pgrp_loop pkill sig [] eperm esrch k = Some (if esrch then - ESRCH else if eperm then - EPERM else 0, k)"
| "signal_pgrp_loop pkill sig (pid # pids) eperm esrch k =
     (if procs k pid = None then signal_pgrp_loop pkill sig pids eperm True k
      else do {
        (err, k) \<leftarrow> (if sig \<noteq> 0 then pkill pid k else Some (0, k));
        if err = 0 then signal_pgrp_loop pkill sig pids False False k
        else if err = - EPERM then signal_pgrp_loop pkill sig pids True esrch k
        else if err = - ESRCH then signal_pgrp_loop pkill sig pids eperm True k
        else Some (err, k) })"

definition syshelper_signal_pgrp :: "nat \<Rightarrow> nat \<Rightarrow> bool \<Rightarrow> bool \<Rightarrow> bool \<Rightarrow> int list \<Rightarrow> int \<Rightarrow> kern \<Rightarrow> (int \<times> kern) option" where
  "syshelper_signal_pgrp d len mem_ok core_ok suser pids sig k =
     signal_pgrp_loop (\<lambda>pid. syshelper_signal_pkill d len mem_ok core_ok suser pid sig) sig pids False False k"

text \<open>
  \<open>sys_signal_pkill\<close>. \<open>own_group\<close> and \<open>all_pids\<close> are what \<open>proc_pgrp_to_array\<close> and
  \<open>proc_get_pids\<close> write into the cleared buffer, \<open>pgrp_of\<close> the search for a process group of the
  caller's session: for an unknown group the buffer stays empty, its first element 0.
\<close>

definition sys_signal_pkill :: "nat \<Rightarrow> nat \<Rightarrow> bool \<Rightarrow> bool \<Rightarrow> bool \<Rightarrow> int list \<Rightarrow> int list \<Rightarrow> (int \<Rightarrow> int list option)
    \<Rightarrow> (int \<times> int) option \<Rightarrow> kern \<Rightarrow> (int \<times> int option \<times> kern) option" where
  "sys_signal_pkill d len mem_ok core_ok suser own_group all_pids pgrp_of args k =
     (case args of
        None \<Rightarrow> Some (- 1, Some EFAULT, k)
      | Some (pid, sig) \<Rightarrow>
          if pid \<le> 0 \<and> sig = 0 then Some (0, None, k)
          else if \<not> is_valid_usignum sig then Some (- 1, Some EINVAL, k)
          else if pid > 0 \<and> procs k pid = None then Some (- 1, Some ESRCH, k)
          else do {
            (err, k) \<leftarrow>
              (if pid > 0 then
                 if sig \<noteq> 0 then syshelper_signal_pkill d len mem_ok core_ok suser pid sig k else Some (0, k)
               else syshelper_signal_pgrp d len mem_ok core_ok suser
                 (if pid = 0 then own_group else if pid = - 1 then all_pids
                  else case pgrp_of (- pid) of Some l \<Rightarrow> l | None \<Rightarrow> []) sig k);
            Some (if err \<noteq> 0 then (- 1, Some (- err), k) else (0, None, k)) })"

definition sys_signal_tkill :: "nat \<Rightarrow> nat \<Rightarrow> bool \<Rightarrow> bool \<Rightarrow> bool \<Rightarrow> (int \<times> int) option \<Rightarrow> kern
    \<Rightarrow> (int \<times> int option \<times> kern) option" where
  "sys_signal_tkill d len mem_ok core_ok suser args k =
     (case args of
        None \<Rightarrow> Some (- 1, Some EFAULT, k)
      | Some (t, sig) \<Rightarrow> (case thread_lookup k t of
          None \<Rightarrow> Some (- 1, Some ESRCH, k)
        | Some p \<Rightarrow> do {
            th \<leftarrow> thr k p;
            case procs k (pid_owner th) of
              None \<Rightarrow> Some (- 1, Some ESRCH, k)
            | Some pr \<Rightarrow> do {
                c \<leftarrow> curcred k;
                chk \<leftarrow> priv_check_cred suser c (pcred pr) PRIV_SIGNAL_OTHER;
                if chk \<noteq> 0 then Some (- 1, Some EPERM, k)
                else if sig = 0 then Some (0, None, k)
                else if \<not> is_valid_usignum sig then Some (- 1, Some EINVAL, k)
                else do {
                  (err, k) \<leftarrow> ksignal_sendsig d len mem_ok core_ok (OfThread t) sig (sig_param SI_USER) k;
                  Some (if err \<noteq> 0 then (- 1, Some (- err), k) else (0, None, k)) } } }))"

text \<open>\<open>sys_signal_signal\<close> and \<open>sys_signal_action\<close>: the result of a success has the old handler or
  action for the caller; \<open>out\<close> is the result of \<open>copyout\<close>.\<close>

definition sys_signal_signal :: "bool \<Rightarrow> bool \<Rightarrow> (int \<times> u32) option \<Rightarrow> int \<Rightarrow> kern
    \<Rightarrow> (int \<times> int option \<times> u32 option \<times> kern) option" where
  "sys_signal_signal mem_ok suser args out k = do {
     c \<leftarrow> curcred k;
     chk \<leftarrow> priv_check suser c PRIV_SIGNAL_ACTION;
     if chk \<noteq> 0 then Some (- 1, Some ENOTSUP, None, k)
     else case args of
       None \<Rightarrow> Some (- 1, Some EFAULT, None, k)
     | Some (signum, handler) \<Rightarrow>
         if \<not> is_valid_usignum signum then Some (- 1, Some EINVAL, None, k)
         else do {
           let r = OfThread (current_thread k);
           (e, k) \<leftarrow> klock r k;
           if e \<noteq> 0 then Some (- 1, Some EAGAIN, None, k)
           else do {
             sg \<leftarrow> get_sigs k r;
             action \<leftarrow> ksignal_get_ksigaction sg signum;
             let old = sa_handler (ks_action action);
             (err, sg) \<leftarrow> ksignal_set_ksigaction mem_ok
                (Some (action\<lparr>ks_action := (ks_action action)\<lparr>sa_handler := handler\<rparr>\<rparr>)) sg;
             k \<leftarrow> upd_sigs r (\<lambda>_. sg) k;
             k \<leftarrow> kunlock r k;
             Some (if err \<noteq> 0 then (- 1, Some (- err), None, k)
                   else if out \<noteq> 0 then (- 1, Some EFAULT, None, k)
                   else (0, None, Some old, k)) } } }"

definition sys_signal_action :: "bool \<Rightarrow> bool \<Rightarrow> (int \<times> sigaction) option \<Rightarrow> int \<Rightarrow> kern
    \<Rightarrow> (int \<times> int option \<times> sigaction option \<times> kern) option" where
  "sys_signal_action mem_ok suser args out k = do {
     c \<leftarrow> curcred k;
     chk \<leftarrow> priv_check suser c PRIV_SIGNAL_ACTION;
     if chk \<noteq> 0 then Some (- 1, Some ENOTSUP, None, k)
     else case args of
       None \<Rightarrow> Some (- 1, Some EFAULT, None, k)
     | Some (signum, new_action) \<Rightarrow>
         if \<not> is_valid_usignum signum then Some (- 1, Some EINVAL, None, k)
         else do {
           let r = OfThread (current_thread k);
           (e, k) \<leftarrow> klock r k;
           if e \<noteq> 0 then Some (- 1, Some EAGAIN, None, k)
           else do {
             sg \<leftarrow> get_sigs k r;
             old \<leftarrow> ksignal_get_ksigaction sg signum;
             (err, sg) \<leftarrow> ksignal_set_ksigaction mem_ok (Some \<lparr>ks_signum = signum, ks_action = new_action\<rparr>) sg;
             k \<leftarrow> upd_sigs r (\<lambda>_. sg) k;
             k \<leftarrow> kunlock r k;
             Some (if err \<noteq> 0 then (- 1, Some (- err), None, k)
                   else if out \<noteq> 0 then (- 1, Some EFAULT, None, k)
                   else (0, None, Some (ks_action old), k)) } } }"

text \<open>\<open>sys_signal_sigmask\<close>: \<open>args\<close> has the thread flag, how, whether a new set was given and its
  copy (\<open>Inl\<close> a failed copy). The lock is taken and released inside \<open>ksignal_sigsmask\<close>, so the
  interrupt state is the same afterwards.\<close>

definition sys_signal_sigmask :: "(int + bool \<times> int \<times> (int + sigset_t) option) \<Rightarrow> kern
    \<Rightarrow> (int \<times> int option \<times> sigset_t option \<times> kern) option" where
  "sys_signal_sigmask args k =
     (case args of
        Inl err \<Rightarrow> Some (- 1, Some (- err), None, k)
      | Inr (threadmask, how, newset) \<Rightarrow>
          (case newset of
             Some (Inl err) \<Rightarrow> Some (- 1, Some (- err), None, k)
           | _ \<Rightarrow> do {
               let setp = (case newset of Some (Inr st) \<Rightarrow> Some st | _ \<Rightarrow> None);
               let r = (if threadmask then OfThread (current_thread k) else OfProc (curpid k));
               sg \<leftarrow> get_sigs k r;
               (err, old, sg) \<leftarrow> ksignal_sigsmask (int_off k) how setp sg;
               k \<leftarrow> upd_sigs r (\<lambda>_. sg) k;
               Some (if err \<noteq> 0 then (- 1, Some (- err), None, k) else (0, None, old, k)) }))"

definition sys_signal_set_return :: "nat \<Rightarrow> kern \<Rightarrow> (int \<times> kern) option" where
  "sys_signal_set_return uaddr k = do {
     pr \<leftarrow> procs k (curpid k);
     Some (0, k\<lparr>procs := (procs k)(curpid k \<mapsto> pr\<lparr>usigret := uaddr\<rparr>)\<rparr>) }"

section \<open>Facts about locks and lookups\<close>

lemma get_upd_sigs:
  "get_sigs k r = Some sg \<Longrightarrow> \<exists>k'. upd_sigs r f k = Some k' \<and> get_sigs k' r = Some (f sg)"
  by (auto simp: get_sigs_def upd_sigs_def upd_thread_def split: sigref.splits)

text \<open>The state with the struct behind \<open>r\<close> replaced.\<close>

definition put_sigs :: "sigref \<Rightarrow> signals \<Rightarrow> kern \<Rightarrow> kern" where
  "put_sigs r sg k = (case upd_sigs r (\<lambda>_. sg) k of Some k' \<Rightarrow> k' | None \<Rightarrow> k)"

lemma upd_sigs_put:
  "get_sigs k r = Some sg \<Longrightarrow> upd_sigs r f k = Some (put_sigs r (f sg) k)"
  by (auto simp: get_sigs_def put_sigs_def upd_sigs_def upd_thread_def split: sigref.splits)

lemma get_put_same: "get_sigs k r = Some sg \<Longrightarrow> get_sigs (put_sigs r sg' k) r = Some sg'"
  by (auto simp: get_sigs_def put_sigs_def upd_sigs_def upd_thread_def split: sigref.splits)

lemma put_put [simp]: "put_sigs r a (put_sigs r b k) = put_sigs r a k"
proof (cases r)
  case (OfThread t)
  then show ?thesis by (cases "thr k t") (simp_all add: put_sigs_def upd_sigs_def upd_thread_def)
next
  case (OfProc p)
  then show ?thesis by (cases "procs k p") (simp_all add: put_sigs_def upd_sigs_def)
qed

lemma put_get_id: "get_sigs k r = Some sg \<Longrightarrow> put_sigs r sg k = k"
  by (auto simp: get_sigs_def put_sigs_def upd_sigs_def upd_thread_def fun_upd_idem split: sigref.splits)

lemma put_fields [simp]:
  "int_off (put_sigs r sg k) = int_off k" "saved_istate (put_sigs r sg k) = saved_istate k"
  "current_thread (put_sigs r sg k) = current_thread k" "curpid (put_sigs r sg k) = curpid k"
  "readyq (put_sigs r sg k) = readyq k" "threadmap (put_sigs r sg k) = threadmap k"
  by (simp_all add: put_sigs_def upd_sigs_def upd_thread_def split: sigref.splits option.splits bind_splits)

lemma put_istate: "put_sigs r sg (k\<lparr>int_off := a, saved_istate := b\<rparr>) = (put_sigs r sg k)\<lparr>int_off := a, saved_istate := b\<rparr>"
  "put_sigs r sg (k\<lparr>int_off := a\<rparr>) = (put_sigs r sg k)\<lparr>int_off := a\<rparr>"
  "put_sigs r sg (k\<lparr>saved_istate := b\<rparr>) = (put_sigs r sg k)\<lparr>saved_istate := b\<rparr>"
  by (auto simp: put_sigs_def upd_sigs_def upd_thread_def split: sigref.splits option.splits bind_splits)

lemma get_istate [simp]: "get_sigs (k\<lparr>int_off := a\<rparr>) r = get_sigs k r" "get_sigs (k\<lparr>saved_istate := b\<rparr>) r = get_sigs k r"
  by (simp_all add: get_sigs_def split: sigref.splits)

lemma klock_free:
  assumes "get_sigs k r = Some sg" "\<not> s_locked sg"
  shows "klock r k = Some (0, (put_sigs r (sg\<lparr>s_locked := True\<rparr>) k)\<lparr>saved_istate := int_off k, int_off := True\<rparr>)"
  using assms
  by (simp add: klock_def ksig_lock_def upd_sigs_put [of "k\<lparr>saved_istate := int_off k, int_off := True\<rparr>"] put_istate)

lemma kunlock_eq:
  assumes "get_sigs k r = Some sg"
  shows "kunlock r k = Some ((put_sigs r (sg\<lparr>s_locked := False\<rparr>) k)\<lparr>int_off := saved_istate k\<rparr>)"
  using assms by (simp add: kunlock_def ksig_unlock_def upd_sigs_put [of "k\<lparr>int_off := saved_istate k\<rparr>"] put_istate)

text \<open>
  Sending to a free struct whose queuing step leaves it in state \<open>sg'\<close> without touching the lock
  or the reference count: both are as before afterwards.
\<close>

lemma sendsig_free:
  assumes g: "get_sigs k r = Some sg" and ok: "sigs_ok sg n" and l: "\<not> s_locked sg"
    and q: "queue_sig_with term mem_ok core_ok r signum param
        ((put_sigs r (sg\<lparr>s_obj := (s_obj sg)\<lparr>ko_refcount := int n + 1\<rparr>, s_locked := True\<rparr>) k)\<lparr>saved_istate := int_off k, int_off := True\<rparr>)
      = Some (rv, k2)"
    and g2: "get_sigs k2 r = Some sg2" and o2: "s_obj sg2 = (s_obj sg)\<lparr>ko_refcount := int n + 1\<rparr>"
  shows "sendsig_with term mem_ok core_ok r signum param k
      = Some (rv, put_sigs r (sg2\<lparr>s_locked := False, s_obj := s_obj sg\<rparr>) (k2\<lparr>int_off := saved_istate k2\<rparr>))"
proof -
  let ?ko = "(s_obj sg)\<lparr>ko_refcount := int n + 1\<rparr>"
  have lv: "live (s_obj sg) n" "int n + 1 < 2 ^ 31" using ok by (auto simp: sigs_ok_def)
  have g1: "get_sigs (put_sigs r (sg\<lparr>s_obj := ?ko\<rparr>) k) r = Some (sg\<lparr>s_obj := ?ko\<rparr>)" by (rule get_put_same [OF g])
  have kl: "klock r (put_sigs r (sg\<lparr>s_obj := ?ko\<rparr>) k)
      = Some (0, (put_sigs r (sg\<lparr>s_obj := ?ko, s_locked := True\<rparr>) k)\<lparr>saved_istate := int_off k, int_off := True\<rparr>)"
    using klock_free [OF g1] l by simp
  have un: "kunlock r k2 = Some ((put_sigs r (sg2\<lparr>s_locked := False\<rparr>) k2)\<lparr>int_off := saved_istate k2\<rparr>)"
    by (rule kunlock_eq [OF g2])
  have g3: "get_sigs ((put_sigs r (sg2\<lparr>s_locked := False\<rparr>) k2)\<lparr>int_off := saved_istate k2\<rparr>) r
      = Some (sg2\<lparr>s_locked := False\<rparr>)" using get_put_same [OF g2] by simp
  show ?thesis
    unfolding sendsig_with_def
    using g sigs_ok_ref [OF ok] upd_sigs_put [OF g] kl q un g3 kobj_ref_unref [OF lv] o2 upd_sigs_put [OF g3]
    by (simp add: put_istate)
qed

section \<open>Properties\<close>

lemma queue_ignored:
  assumes "get_sigs k r = Some sg" "s_locked sg" "sig_wf (s_running sg)" "signum \<in> all_signals" "signum \<notin> sigs (s_running sg)"
    and "sa_tree sg signum = Some a" "sa_handler (ks_action a) = SIG_IGN"
  shows "queue_sig_with term mem_ok core_ok r signum param k = Some (0, k)"
  using assms sigismember_iff [OF assms(3,4)]
  by (simp add: queue_sig_with_def ksig_testlock_def ksignal_get_ksigaction_def)

text \<open>
  SIGKILL can be ignored. signal_num.h says that SIGKILL cannot be caught or ignored, but
  no function refuses it: a thread with PRIV_SIGNAL_ACTION that calls signal(SIGKILL, SIG_IGN)
  succeeds, and a SIGKILL sent to it afterwards is accepted with status 0 and discarded: no thread
  and no ready queue changes.
\<close>

theorem sigkill_can_be_ignored:
  assumes "t = current_thread k" and "thr k t = Some th" and "sigs_ok (tsigs th) n" and "\<not> s_locked (tsigs th)"
    and "curcred k = Some c" and "cred_wf c" and "81 \<in> effs c" and "SIGKILL \<notin> sigs (s_running (tsigs th))"
  shows "\<exists>old k1 k2. sys_signal_signal True suser (Some (SIGKILL, SIG_IGN)) 0 k = Some (0, None, Some old, k1) \<and>
    ksignal_sendsig d len mem_ok core_ok (OfThread t) SIGKILL param k1 = Some (0, k2) \<and>
    thr k2 = thr k1 \<and> readyq k2 = readyq k1 \<and> procs k2 = procs k1"
proof -
  let ?r = "OfThread t" and ?sg = "tsigs th"
  have g: "get_sigs k ?r = Some ?sg" using assms(2) by (simp add: get_sigs_def)
  have pc: "priv_check suser c 81 = Some 0" using priv_check_eq [OF assms(6), of suser 81] assms(7) by (simp add: cap_pos_def)
  define a where "a = (case sa_tree ?sg 9 of Some a \<Rightarrow> a | None \<Rightarrow> default_action 9)"
  have a: "ks_signum a = 9" "sig_wf (sa_mask (ks_action a))"
    using assms(3) by (auto simp: a_def sigs_ok_def default_action_wf split: option.splits)
  define a' where "a' = a\<lparr>ks_action := (ks_action a)\<lparr>sa_handler := SIG_IGN\<rparr>\<rparr>"
  let ?sg' = "?sg\<lparr>sa_tree := (sa_tree ?sg)(9 \<mapsto> a')\<rparr>"
  define k1 where "k1 = (put_sigs ?r ?sg' k)\<lparr>saved_istate := int_off k, int_off := int_off k\<rparr>"
  have gl: "get_sigs ((put_sigs ?r (?sg\<lparr>s_locked := True\<rparr>) k)\<lparr>saved_istate := int_off k, int_off := True\<rparr>) ?r
      = Some (?sg\<lparr>s_locked := True\<rparr>)" using get_put_same [OF g] by simp
  have set: "ksignal_set_ksigaction True (Some a') (?sg\<lparr>s_locked := True\<rparr>)
      = Some (0, ?sg\<lparr>s_locked := True, sa_tree := (sa_tree ?sg)(9 \<mapsto> a')\<rparr>)"
    using set_ksigaction_ok [of "?sg\<lparr>s_locked := True\<rparr>" a'] a by (simp add: a'_def)
  have g2: "get_sigs (put_sigs ?r (?sg\<lparr>s_locked := True, sa_tree := (sa_tree ?sg)(9 \<mapsto> a')\<rparr>) k) ?r
      = Some (?sg\<lparr>s_locked := True, sa_tree := (sa_tree ?sg)(9 \<mapsto> a')\<rparr>)" by (rule get_put_same [OF g])
  have unl: "?sg\<lparr>sa_tree := f, s_locked := False\<rparr> = ?sg\<lparr>sa_tree := f\<rparr>" for f using assms(4) by simp
  then have sys: "sys_signal_signal True suser (Some (9, SIG_IGN)) 0 k = Some (0, None, Some (sa_handler (ks_action a)), k1)"
    using assms(1,5) pc klock_free [OF g assms(4)] gl set g2 kunlock_eq [of _ ?r]
    by (simp add: sys_signal_signal_def is_valid_usignum_def ksignal_get_ksigaction_def ksig_testlock_def a_def [symmetric]
        a'_def [symmetric] upd_sigs_put put_istate k1_def)
  have g1: "get_sigs k1 ?r = Some ?sg'" using get_put_same [OF g] by (simp add: k1_def)
  have ok1: "sigs_ok ?sg' n" using assms(3) a by (simp add: sigs_ok_def a'_def)
  have w: "sig_wf (s_running ?sg)" using assms(3) by (simp add: sigs_ok_def)
  let ?lk = "?sg'\<lparr>s_obj := (s_obj ?sg')\<lparr>ko_refcount := int n + 1\<rparr>, s_locked := True\<rparr>"
  let ?kl = "(put_sigs ?r ?lk k1)\<lparr>saved_istate := int_off k1, int_off := True\<rparr>"
  have gk: "get_sigs ?kl ?r = Some ?lk" using get_put_same [OF g1] by simp
  have q: "queue_sig_with (thread_terminate d mem_ok core_ok len) mem_ok core_ok ?r 9 param ?kl = Some (0, ?kl)"
    using w assms(8) by (intro queue_ignored [OF gk, of 9 a']) (simp_all, simp add: a'_def)
  have "ksignal_sendsig d len mem_ok core_ok ?r 9 param k1
      = Some (0, put_sigs ?r ?sg' (?kl\<lparr>int_off := saved_istate ?kl\<rparr>))"
    using sendsig_free [OF g1 ok1 _ q gk] assms(4) by (simp add: ksignal_sendsig_def unl)
  moreover have "put_sigs ?r ?sg' (?kl\<lparr>int_off := saved_istate ?kl\<rparr>) = k1\<lparr>saved_istate := int_off k1\<rparr>"
    using put_get_id [OF g1] by (simp add: put_istate)
  ultimately show ?thesis using sys by auto
qed

lemma sigkill_demo_thread:
  "thr demo_kern 0 = Some (demo_thread 0)" "sigs_ok (tsigs (demo_thread 0)) 1" "\<not> s_locked (tsigs (demo_thread 0))"
  "9 \<notin> sigs (s_running (tsigs (demo_thread 0)))"
  using demo_sigs_ok by (simp_all add: demo_kern_fields demo_thread_def demo_sigs_def)

definition action_cred :: cred where
  "action_cred = user_cred\<lparr>pcap_effmap := [0, 0, 0x20000, 0, 0, 0, 0, 0]\<rparr>"

definition signal_kern :: kern where
  "signal_kern = demo_kern\<lparr>procs := [1 \<mapsto> \<lparr>main_thread = Some 7, nice = 0, pcred = action_cred,
       psigs = demo_sigs, zombie = False, pexit_ksiginfo = None, fds_closed = False, usigret = 0\<rparr>]\<rparr>"

lemma action_cred_ok: "cred_wf action_cred" "81 \<in> effs action_cred"
  by (simp_all add: action_cred_def user_cred_def cred_wf_def effs_def used_def bit_numeral_rec)

lemma signal_kern_fields: "current_thread signal_kern = 0" "curcred signal_kern = Some action_cred"
  "thr signal_kern 0 = Some (demo_thread 0)" "curpid signal_kern = 1"
  by (simp_all add: signal_kern_def demo_kern_def curcred_def)

theorem sigkill_can_be_ignored_witness:
  "\<exists>old k1 k2. sys_signal_signal True True (Some (SIGKILL, SIG_IGN)) 0 signal_kern = Some (0, None, Some old, k1) \<and>
    ksignal_sendsig 3 3 True True (OfThread 0) SIGKILL (sig_param 0) k1 = Some (0, k2) \<and> thr k2 = thr k1"
  using sigkill_can_be_ignored [OF signal_kern_fields(1) [symmetric] signal_kern_fields(3) sigkill_demo_thread(2,3)
      signal_kern_fields(2) action_cred_ok sigkill_demo_thread(4), of True 3 3 True True "sig_param 0"]
  by blast


definition handler_action :: ksigaction where
  "handler_action = \<lparr>ks_signum = 20, ks_action = \<lparr>sa_mask = empty_sigset, sa_flags = 0, sa_handler = 0x8000\<rparr>\<rparr>"

definition catching_thread :: thread_info where
  "catching_thread = (demo_thread 7)\<lparr>tstate := THREAD_STATE_BLOCKED, tsigs := demo_sigs\<lparr>sa_tree := [20 \<mapsto> handler_action]\<rparr>\<rparr>"

definition catching_kern :: kern where
  "catching_kern = signal_kern\<lparr>thr := [0 \<mapsto> demo_thread 0, 7 \<mapsto> catching_thread], readyq := []\<rparr>"

lemma catching_fields: "thr catching_kern 7 = Some catching_thread" "current_thread catching_kern = 0"
  "threadmap catching_kern = {0, 7}" "procs catching_kern (curpid catching_kern) \<noteq> None"
  "tstate catching_thread = THREAD_STATE_BLOCKED" "sigs_ok (tsigs catching_thread) 1"
  "tsigs catching_thread = demo_sigs\<lparr>sa_tree := [20 \<mapsto> handler_action]\<rparr>"
  using demo_sigs_ok
  by (simp_all add: catching_kern_def signal_kern_def demo_kern_def catching_thread_def sigs_ok_def handler_action_def)


text \<open>What the scan does with a pending signal.\<close>

definition action_of :: "signals \<Rightarrow> int \<Rightarrow> ksigaction" where
  "action_of s n = (case sa_tree s n of Some a \<Rightarrow> a | None \<Rightarrow> default_action n)"

definition skipped :: "signals \<Rightarrow> int \<Rightarrow> bool" where
  "skipped s n \<longleftrightarrow> n \<in> sigs (s_block s) \<and> n \<notin> sigs (s_wait s) \<or>
     n \<notin> sigs (s_block s) \<and> eval_inkernel_action (action_of s n) < 0 \<and> sa_flags (ks_action (action_of s n)) AND SA_IGNORE = 0"

fun scan_pos :: "scan \<Rightarrow> (nat \<times> siginfo) option" where
  "scan_pos (NoSignal s) = None"
| "scan_pos (WaitedFor i x s) = Some (i, x)"
| "scan_pos (InKernel i x s) = Some (i, x)"
| "scan_pos (ToUser i x a s) = Some (i, x)"

text \<open>What happens to the pending signal \<open>x\<close> at position \<open>j\<close> that is taken.\<close>

definition verdict :: "signals \<Rightarrow> nat \<Rightarrow> siginfo \<Rightarrow> scan" where
  "verdict s j x =
     (if si_signo x \<in> sigs (s_block s) then WaitedFor j x s
      else if eval_inkernel_action (action_of s (si_signo x)) = 1 \<and>
        sa_flags (ks_action (action_of s (si_signo x))) AND SA_IGNORE = 0
      then ToUser j x (action_of s (si_signo x)) s else InKernel j x s)"

lemma post_scan_ok:
  assumes "s_locked s" "sig_wf (s_block s)" "sig_wf (s_wait s)" "sig_wf (s_running s)" "sigs (s_running s) = {}"
    and "\<forall>x \<in> set xs. si_signo x \<in> all_signals"
  shows "\<exists>res. post_scan i xs s = Some res \<and>
    (case scan_pos res of
       None \<Rightarrow> res = NoSignal s \<and> (\<forall>x \<in> set xs. skipped s (si_signo x))
     | Some (j, x) \<Rightarrow> i \<le> j \<and> j - i < length xs \<and> x = xs ! (j - i) \<and> \<not> skipped s (si_signo x) \<and>
         (\<forall>m < j - i. skipped s (si_signo (xs ! m))) \<and>
         res = verdict s j x)"
  using assms(6)
proof (induction xs arbitrary: i)
  case Nil
  then show ?case by simp
next
  case (Cons x xs)
  let ?n = "si_signo x"
  have n: "?n \<in> all_signals" "?n \<ge> 0" using Cons.prems by auto
  have sm: "sigismember (s_block s) ?n \<noteq> 0 \<longleftrightarrow> ?n \<in> sigs (s_block s)"
    "sigismember (s_wait s) ?n \<noteq> 0 \<longleftrightarrow> ?n \<in> sigs (s_wait s)" "sigismember (s_running s) ?n = 0"
    using assms n(1) by (simp_all add: sigismember_iff del: in_all_signals)
  have act: "ksignal_get_ksigaction s ?n = Some (action_of s ?n)"
    using assms(1) n by (simp add: ksignal_get_ksigaction_def ksig_testlock_def action_of_def)
  have blk: "ksignal_isblocked s ?n = Some (?n \<in> sigs (s_block s))"
    using assms(1) sm by (simp add: ksignal_isblocked_def ksig_testlock_def)
  have ev: "eval_inkernel_action a \<in> {- 1, 0, 1}" for a by (auto simp: eval_inkernel_action_def Let_def)
  show ?case
  proof (cases "skipped s ?n")
    case True
    have step: "post_scan i (x # xs) s = post_scan (Suc i) xs s"
      using True sm act blk by (auto simp: skipped_def Let_def)
    obtain res where res: "post_scan (Suc i) xs s = Some res"
      "case scan_pos res of
         None \<Rightarrow> res = NoSignal s \<and> (\<forall>x \<in> set xs. skipped s (si_signo x))
       | Some (j, x) \<Rightarrow> Suc i \<le> j \<and> j - Suc i < length xs \<and> x = xs ! (j - Suc i) \<and> \<not> skipped s (si_signo x) \<and>
           (\<forall>m < j - Suc i. skipped s (si_signo (xs ! m))) \<and>
           res = verdict s j x"
      using Cons.IH [of "Suc i"] Cons.prems by (meson list.set_intros(2))
    show ?thesis
    proof (cases "scan_pos res")
      case None
      then show ?thesis using res step True by simp
    next
      case (Some jy)
      obtain j y where jy: "jy = (j, y)" by force
      have r: "Suc i \<le> j" "j - Suc i < length xs" "y = xs ! (j - Suc i)" "\<not> skipped s (si_signo y)"
        "\<forall>m < j - Suc i. skipped s (si_signo (xs ! m))" "res = verdict s j y" using res(2) Some jy by auto
      have d: "j - i = Suc (j - Suc i)" using r(1) by linarith
      have "skipped s (si_signo ((x # xs) ! m))" if "m < j - i" for m
        using that r(5) True unfolding d by (cases m) auto
      moreover have "i \<le> j" "j - i < length (x # xs)" "y = (x # xs) ! (j - i)" using r(1-3) unfolding d by simp_all
      moreover have "post_scan i (x # xs) s = Some res" using step res(1) by (rule trans)
      moreover have pos: "scan_pos res = Some (j, y)" using Some jy by simp
      ultimately show ?thesis using r(4,6)
        by (intro exI [of _ res] conjI) (assumption, unfold pos option.case prod.case, blast)
    qed
  next
    case False
    then show ?thesis using sm act blk ev [of "action_of s ?n"] by (auto simp: skipped_def verdict_def Let_def)
  qed
qed

text \<open>
  C36: Delivery order. For the pending queue of a locked struct (no handler marked as running,
  valid signal numbers) the scan of ksignal_post_scheduling finds the first pending signal that is
  not blocked, or that is blocked and waited for, and whose action is not on hold; a waited-for
  signal ends the wait, an unblocked one goes to user space exactly when its action is neither
  ignored nor finished in the kernel, with that action; every earlier signal is skipped for a
  reason that holds of it, and when nothing qualifies nothing changes.
\<close>

theorem delivery_takes_first_eligible:
  assumes "s_locked s" and "sigs_ok s n" and "sigs (s_running s) = {}"
    and "\<forall>x \<in> set (s_pendqueue s). si_signo x \<in> all_signals"
  shows "\<exists>res. post_scan 0 (s_pendqueue s) s = Some res \<and>
    (case scan_pos res of
       None \<Rightarrow> res = NoSignal s \<and> (\<forall>x \<in> set (s_pendqueue s). skipped s (si_signo x))
     | Some (j, x) \<Rightarrow> j < length (s_pendqueue s) \<and> x = s_pendqueue s ! j \<and> \<not> skipped s (si_signo x) \<and>
         (\<forall>m < j. skipped s (si_signo (s_pendqueue s ! m))) \<and>
         res = verdict s j x)"
proof -
  obtain res where "post_scan 0 (s_pendqueue s) s = Some res"
    "case scan_pos res of
       None \<Rightarrow> res = NoSignal s \<and> (\<forall>x \<in> set (s_pendqueue s). skipped s (si_signo x))
     | Some (j, x) \<Rightarrow> 0 \<le> j \<and> j - 0 < length (s_pendqueue s) \<and> x = s_pendqueue s ! (j - 0) \<and> \<not> skipped s (si_signo x) \<and>
         (\<forall>m < j - 0. skipped s (si_signo (s_pendqueue s ! m))) \<and> res = verdict s j x"
    using post_scan_ok [OF assms(1) _ _ _ assms(3,4), of 0] assms(2) unfolding sigs_ok_def by blast
  then show ?thesis by (intro exI [of _ res]) (auto split: option.splits)
qed

definition demo_info :: "int \<Rightarrow> siginfo" where
  "demo_info n = \<lparr>si_signo = n, si_code = 31, si_errno = 0, si_tid = 1, si_pid = 1, si_uid = 0, si_addr = 0,
     si_status = 0, si_value = 0\<rparr>"

theorem delivery_takes_first_eligible_witness:
  "\<exists>res. post_scan 0 [demo_info 15, demo_info 20] (demo_sigs\<lparr>s_locked := True, s_pendqueue := [demo_info 15, demo_info 20],
      s_block := snd (sigaddset empty_sigset 15), sa_tree := [20 \<mapsto> handler_action]\<rparr>) = Some res \<and>
    scan_pos res = Some (1, demo_info 20)"
proof -
  let ?s = "demo_sigs\<lparr>s_locked := True, s_pendqueue := [demo_info 15, demo_info 20],
      s_block := snd (sigaddset empty_sigset 15), sa_tree := [20 \<mapsto> handler_action]\<rparr>"
  have ok: "sigs_ok ?s 1" using demo_sigs_ok by (simp add: sigs_ok_def sigset_wf handler_action_def)
  have b: "sigs (s_block ?s) = {15}" "sigs (s_wait ?s) = {}" "sigs (s_running ?s) = {}"
    by (simp_all add: sigaddset_ok demo_sigs_def)
  have sk: "skipped ?s 15" "\<not> skipped ?s 20"
    using b by (simp_all add: skipped_def action_of_def handler_action_def eval_inkernel_action_def Let_def)
  obtain res where res: "post_scan 0 (s_pendqueue ?s) ?s = Some res"
    "case scan_pos res of
       None \<Rightarrow> res = NoSignal ?s \<and> (\<forall>x \<in> set (s_pendqueue ?s). skipped ?s (si_signo x))
     | Some (j, x) \<Rightarrow> j < length (s_pendqueue ?s) \<and> x = s_pendqueue ?s ! j \<and> \<not> skipped ?s (si_signo x) \<and>
         (\<forall>m < j. skipped ?s (si_signo (s_pendqueue ?s ! m))) \<and>
         res = verdict ?s j x"
    using delivery_takes_first_eligible [OF _ ok b(3)] by (auto simp: demo_info_def)
  show ?thesis
  proof (cases "scan_pos res")
    case (Some jx)
    obtain j x where jx: "jx = (j, x)" by force
    then have "j < 2" "x = [demo_info 15, demo_info 20] ! j" "\<not> skipped ?s (si_signo x)"
      using res(2) Some by auto
    then have "j = 1" "x = demo_info 20" using sk by (auto simp: less_2_cases_iff demo_info_def)
    with Some jx res(1) show ?thesis by simp
  qed (use res(2) sk in \<open>auto simp: demo_info_def\<close>)
qed

text \<open>
  C37: Permission to signal. A caller that is not the superuser, does not hold
  PRIV_SIGNAL_OTHER and shares no user id with the target process is refused: sys_signal_pkill with a
  valid signal answers EPERM and no part of the kernel state changes.
\<close>

theorem kill_needs_permission:
  assumes "curcred k = Some c" and "cred_wf c" and "procs k pid = Some pr" and "0 < pid" and "is_valid_usignum sig"
    and "\<not> (suser \<and> euid c = 0)" and "80 \<notin> effs c"
    and "{euid c, uid c} \<inter> {uid (pcred pr), suid (pcred pr)} = {}"
  shows "sys_signal_pkill d len mem_ok core_ok suser own_group all_pids pgrp_of (Some (pid, sig)) k = Some (- 1, Some EPERM, k)"
proof -
  have "priv_check suser c 80 = Some (- EPERM)"
    using priv_check_eq [OF assms(2), of suser 80] assms(6,7) by (simp add: superuser_for_def cap_pos_def)
  then have "priv_check_cred suser c (pcred pr) 80 = Some (- EPERM)"
    using assms(8) by (simp add: priv_check_cred_def)
  then show ?thesis using assms(1,3-5)
    by (auto simp: sys_signal_pkill_def syshelper_signal_pkill_def is_valid_usignum_def)
qed

definition two_user_kern :: kern where
  "two_user_kern = demo_kern\<lparr>procs := (procs demo_kern)(2 \<mapsto> \<lparr>main_thread = None, nice = 0,
     pcred = user_cred\<lparr>uid := 0, euid := 0, suid := 0\<rparr>, psigs = demo_sigs, zombie = False,
     pexit_ksiginfo = None, fds_closed = False, usigret = 0\<rparr>)\<rparr>"

theorem kill_needs_permission_witness:
  "sys_signal_pkill 3 3 True True True [] [] (\<lambda>_. None) (Some (2, 15)) two_user_kern = Some (- 1, Some EPERM, two_user_kern)"
proof -
  have "curcred two_user_kern = Some user_cred" by (simp add: two_user_kern_def demo_kern_def curcred_def)
  moreover have "\<exists>pr. procs two_user_kern 2 = Some pr \<and> uid (pcred pr) = 0 \<and> suid (pcred pr) = 0"
    by (simp add: two_user_kern_def)
  moreover have "80 \<notin> effs user_cred" by (auto simp: effs_def used_def user_cred_def)
  ultimately show ?thesis using user_cred_wf
    by (auto intro!: kill_needs_permission simp: is_valid_usignum_def user_cred_def)
qed

text \<open>
  The error path of \<open>ksignal_sendsig_fatal\<close>: for a number outside the table of default actions it
  returns with the lock of the process still held and interrupts masked.
\<close>

lemma sendsig_fatal_leaks_lock:
  assumes "procs k pid = Some pr" and "sigs_ok (psigs pr) n" and "\<not> s_locked (psigs pr)" and "signum < 0 \<or> 32 \<le> signum"
  shows "\<exists>k' pr'. ksignal_sendsig_fatal d len mem_ok core_ok pid signum param k = Some k' \<and>
    procs k' pid = Some pr' \<and> s_locked (psigs pr') \<and> int_off k'"
proof -
  let ?r = "OfProc pid" and ?sg = "psigs pr"
  let ?ko = "(s_obj ?sg)\<lparr>ko_refcount := int n + 1\<rparr>"
  have g: "get_sigs k ?r = Some ?sg" using assms(1) by (simp add: get_sigs_def)
  have g1: "get_sigs (put_sigs ?r (?sg\<lparr>s_obj := ?ko\<rparr>) k) ?r = Some (?sg\<lparr>s_obj := ?ko\<rparr>)" by (rule get_put_same [OF g])
  have g2: "get_sigs (put_sigs ?r x k) ?r = Some x" for x by (rule get_put_same [OF g])
  have lv: "live (s_obj ?sg) n" "int n + 1 < 2 ^ 31" using assms(2) by (auto simp: sigs_ok_def)
  have "ksignal_sendsig_fatal d len mem_ok core_ok pid signum param k
      = Some ((put_sigs ?r (?sg\<lparr>s_locked := True\<rparr>) k)\<lparr>saved_istate := int_off k, int_off := True\<rparr>)"
    using g sigs_ok_ref [OF assms(2)] upd_sigs_put [OF g] klock_free [OF g1] assms(3,4) g2 kobj_ref_unref [OF lv]
    by (simp add: ksignal_sendsig_fatal_def klock_wait_def ksignal_reset_ksigaction_def upd_sigs_put [of "_\<lparr>int_off := True\<rparr>"]
        put_istate Let_def)
  then show ?thesis using assms(1) by (simp add: put_sigs_def upd_sigs_def)
qed

text \<open>
  The null signal: its purpose, to test whether a process exists, is served for no single
  process, because 0 is refused before the process is looked up. A signal to a process group that
  does not exist, on the other hand, succeeds: the emptiness test of the code looks for -1 in a
  buffer that holds 0.
\<close>

lemma kill_null_signal_einval:
  "0 < pid \<Longrightarrow> sys_signal_pkill d len mem_ok core_ok suser own_group all_pids pgrp_of (Some (pid, 0)) k
     = Some (- 1, Some EINVAL, k)"
  by (simp add: sys_signal_pkill_def is_valid_usignum_def)

lemma kill_unknown_group_succeeds:
  "pid < - 1 \<Longrightarrow> pgrp_of (- pid) = None \<Longrightarrow> is_valid_usignum sig \<Longrightarrow>
   sys_signal_pkill d len mem_ok core_ok suser own_group all_pids pgrp_of (Some (pid, sig)) k = Some (0, None, k)"
  by (simp add: sys_signal_pkill_def syshelper_signal_pgrp_def is_valid_usignum_def)

end
