(* ===== verification/Kmemops.thy ===== *)
theory Kmemops
  imports Zeke_Prelude
begin

text \<open>
  The memory routines of the kernel library (\<^verbatim>\<open>kern/libkern/kstring/memset.c\<close>, \<^verbatim>\<open>memcpy.c\<close>,
  \<^verbatim>\<open>memmove.c\<close>, \<^verbatim>\<open>memcmp.c\<close>), in the variants built for speed, which move whole words where the
  operands are aligned. A memory is a function from addresses to bytes, and words are little endian.
  \<open>phys_copy\<close> and \<open>phys_set\<close> are the reference definitions; the routines are proved equal to them.
\<close>

section \<open>Memory\<close>

type_synonym memory = "nat \<Rightarrow> u8"

text \<open>Copying a block at once, and setting one.\<close>

definition phys_copy :: "nat \<Rightarrow> nat \<Rightarrow> nat \<Rightarrow> memory \<Rightarrow> memory" where
  "phys_copy dst src n f a = (if dst \<le> a \<and> a < dst + n then f (src + (a - dst)) else f a)"

definition phys_set :: "nat \<Rightarrow> u8 \<Rightarrow> nat \<Rightarrow> memory \<Rightarrow> memory" where
  "phys_set p c n f a = (if p \<le> a \<and> a < p + n then c else f a)"

definition load32 :: "nat \<Rightarrow> memory \<Rightarrow> u32" where
  "load32 p f = ucast (f p) OR push_bit 8 (ucast (f (p + 1))) OR push_bit 16 (ucast (f (p + 2))) OR
     push_bit 24 (ucast (f (p + 3)))"

definition store32 :: "nat \<Rightarrow> u32 \<Rightarrow> memory \<Rightarrow> memory" where
  "store32 p w f = f(p := ucast w, p + 1 := ucast (drop_bit 8 w), p + 2 := ucast (drop_bit 16 w),
     p + 3 := ucast (drop_bit 24 w))"

section \<open>memset\<close>

text \<open>
  The loop that aligns \<open>s\<close>: \<open>True\<close> when it ended because no bytes are left, which is the early return.
\<close>

function memset_align :: "nat \<Rightarrow> u8 \<Rightarrow> nat \<Rightarrow> memory \<Rightarrow> bool \<times> nat \<times> nat \<times> memory" where
  "memset_align s c n f =
     (if s mod 4 \<noteq> 0 then if n \<noteq> 0 then memset_align (s + 1) c (n - 1) (f(s := c)) else (True, s, n, f)
      else (False, s, n, f))"
  by pat_completeness auto
termination
  by (relation "measure (\<lambda>(s, c, n, f). n)") auto

function memset_big :: "nat \<Rightarrow> u32 \<Rightarrow> nat \<Rightarrow> memory \<Rightarrow> nat \<times> nat \<times> memory" where
  "memset_big p buffer n f =
     (if n \<ge> 16 then memset_big (p + 16) buffer (n - 16)
        (store32 (p + 12) buffer (store32 (p + 8) buffer (store32 (p + 4) buffer (store32 p buffer f))))
      else (p, n, f))"
  by pat_completeness auto
termination
  by (relation "measure (\<lambda>(p, b, n, f). n)") auto

function memset_words :: "nat \<Rightarrow> u32 \<Rightarrow> nat \<Rightarrow> memory \<Rightarrow> nat \<times> nat \<times> memory" where
  "memset_words p buffer n f =
     (if n \<ge> 4 then memset_words (p + 4) buffer (n - 4) (store32 p buffer f) else (p, n, f))"
  by pat_completeness auto
termination
  by (relation "measure (\<lambda>(p, b, n, f). n)") auto

primrec memset_bytes :: "nat \<Rightarrow> nat \<Rightarrow> u8 \<Rightarrow> memory \<Rightarrow> memory" where
  "memset_bytes 0 s c f = f"
| "memset_bytes (Suc n) s c f = memset_bytes n (Suc s) c (f(s := c))"

definition memset :: "nat \<Rightarrow> u32 \<Rightarrow> nat \<Rightarrow> memory \<Rightarrow> memory" where
  "memset m c n f =
     (let d = c AND 0xFF;
          (done, s, n, f) = memset_align m (ucast c) n f
      in if done then f
         else if n \<ge> 4 then
           let buffer = push_bit 8 d OR d;
               buffer = buffer OR push_bit 16 buffer;
               (p, n, f) = memset_big s buffer n f;
               (p, n, f) = memset_words p buffer n f
           in memset_bytes n p (ucast c) f
         else memset_bytes n s (ucast c) f)"

declare memset_align.simps [simp del] memset_big.simps [simp del] memset_words.simps [simp del]

section \<open>memcpy\<close>

text \<open>The loops over four words, one word and one byte. The addresses stay in step.\<close>

definition copy_word :: "nat \<Rightarrow> nat \<Rightarrow> memory \<Rightarrow> memory" where
  "copy_word dst src f = store32 dst (load32 src f) f"

function memcpy_big :: "nat \<Rightarrow> nat \<Rightarrow> nat \<Rightarrow> memory \<Rightarrow> nat \<times> nat \<times> nat \<times> memory" where
  "memcpy_big dst src num f =
     (if num \<ge> 16 then memcpy_big (dst + 16) (src + 16) (num - 16)
        (copy_word (dst + 12) (src + 12) (copy_word (dst + 8) (src + 8) (copy_word (dst + 4) (src + 4)
          (copy_word dst src f))))
      else (dst, src, num, f))"
  by pat_completeness auto
termination
  by (relation "measure (\<lambda>(d, s, n, f). n)") auto

function memcpy_words :: "nat \<Rightarrow> nat \<Rightarrow> nat \<Rightarrow> memory \<Rightarrow> nat \<times> nat \<times> nat \<times> memory" where
  "memcpy_words dst src num f =
     (if num \<ge> 4 then memcpy_words (dst + 4) (src + 4) (num - 4) (copy_word dst src f)
      else (dst, src, num, f))"
  by pat_completeness auto
termination
  by (relation "measure (\<lambda>(d, s, n, f). n)") auto

primrec memcpy_bytes :: "nat \<Rightarrow> nat \<Rightarrow> nat \<Rightarrow> memory \<Rightarrow> memory" where
  "memcpy_bytes 0 dst src f = f"
| "memcpy_bytes (Suc n) dst src f = memcpy_bytes n (Suc dst) (Suc src) (f(dst := f src))"

definition memcpy :: "nat \<Rightarrow> nat \<Rightarrow> nat \<Rightarrow> memory \<Rightarrow> memory" where
  "memcpy destination source num f =
     (if num \<ge> 16 \<and> source mod 4 = 0 \<and> destination mod 4 = 0 then
        let (dst, src, num, f) = memcpy_big destination source num f;
            (dst, src, num, f) = memcpy_words dst src num f
        in memcpy_bytes num dst src f
      else memcpy_bytes num destination source f)"

declare memcpy_big.simps [simp del] memcpy_words.simps [simp del]

section \<open>memmove\<close>

text \<open>
  The bodies of the loops, on the pair of pointers and the memory, and the macros \<open>TLOOP\<close> and
  \<open>TLOOP1\<close>. \<open>TLOOP1\<close> with a count of 0 would go round 4294967296 times; that is \<open>None\<close>.
\<close>

type_synonym copy_state = "nat \<times> nat \<times> memory"

definition fwd_byte :: "copy_state \<Rightarrow> copy_state" where
  "fwd_byte = (\<lambda>(dst, src, f). (dst + 1, src + 1, f(dst := f src)))"

definition fwd_word :: "copy_state \<Rightarrow> copy_state" where
  "fwd_word = (\<lambda>(dst, src, f). (dst + 4, src + 4, copy_word dst src f))"

definition bwd_byte :: "copy_state \<Rightarrow> copy_state" where
  "bwd_byte = (\<lambda>(dst, src, f). (dst - 1, src - 1, f(dst - 1 := f (src - 1))))"

definition bwd_word :: "copy_state \<Rightarrow> copy_state" where
  "bwd_word = (\<lambda>(dst, src, f). (dst - 4, src - 4, copy_word (dst - 4) (src - 4) f))"

definition TLOOP1 :: "nat \<Rightarrow> (copy_state \<Rightarrow> copy_state) \<Rightarrow> copy_state \<Rightarrow> copy_state option" where
  "TLOOP1 t body st = (if t = 0 then None else Some ((body ^^ t) st))"

definition TLOOP :: "nat \<Rightarrow> (copy_state \<Rightarrow> copy_state) \<Rightarrow> copy_state \<Rightarrow> copy_state option" where
  "TLOOP t body st = (if t \<noteq> 0 then TLOOP1 t body st else Some st)"

text \<open>How many bytes go one by one before the operands are aligned: all of them if their low bits differ.\<close>

definition fwd_align :: "nat \<Rightarrow> nat \<Rightarrow> nat \<Rightarrow> nat" where
  "fwd_align dst src len = (if src mod 4 \<noteq> dst mod 4 \<or> len < 4 then len else 4 - src mod 4)"

definition bwd_align :: "nat \<Rightarrow> nat \<Rightarrow> nat \<Rightarrow> nat" where
  "bwd_align dst src len = (if src mod 4 \<noteq> dst mod 4 \<or> len \<le> 4 then len else src mod 4)"

definition memmove :: "nat \<Rightarrow> nat \<Rightarrow> nat \<Rightarrow> memory \<Rightarrow> memory option" where
  "memmove dst src len f =
     (if len = 0 \<or> dst = src then Some f
      else if dst < src then do {
        (st, len) \<leftarrow> (if src mod 4 \<noteq> 0 \<or> dst mod 4 \<noteq> 0 then do {
            let t = fwd_align dst src len;
            st \<leftarrow> TLOOP1 t fwd_byte (dst, src, f);
            Some (st, len - t) }
          else Some ((dst, src, f), len));
        st \<leftarrow> TLOOP (len div 4) fwd_word st;
        (d, s, f) \<leftarrow> TLOOP (len mod 4) fwd_byte st;
        Some f }
      else do {
        let src = src + len;
        let dst = dst + len;
        (st, len) \<leftarrow> (if src mod 4 \<noteq> 0 \<or> dst mod 4 \<noteq> 0 then do {
            let t = bwd_align dst src len;
            st \<leftarrow> TLOOP1 t bwd_byte (dst, src, f);
            Some (st, len - t) }
          else Some ((dst, src, f), len));
        st \<leftarrow> TLOOP (len div 4) bwd_word st;
        (d, s, f) \<leftarrow> TLOOP (len mod 4) bwd_byte st;
        Some f })"

section \<open>memcmp\<close>

fun memcmp :: "u8 list \<Rightarrow> u8 list \<Rightarrow> nat \<Rightarrow> int option" where
  "memcmp s1 s2 0 = Some 0"
| "memcmp (x # s1) (y # s2) (Suc n) = (if x \<noteq> y then Some (int (unat x) - int (unat y)) else memcmp s1 s2 n)"
| "memcmp _ _ (Suc n) = None"

section \<open>Words in memory\<close>

lemma word_offsets:
  fixes p x :: nat
  obtains "x = p" | "x = p + 1" | "x = p + 2" | "x = p + 3" | "\<not> (p \<le> x \<and> x < p + 4)" "x \<noteq> p" "x \<noteq> p + 1" "x \<noteq> p + 2" "x \<noteq> p + 3"
  by arith

lemma bit_0xFF: "bit (0xFF :: 'a :: len word) n \<longleftrightarrow> n < 8 \<and> n < LENGTH('a)"
proof -
  have e: "(0xFF :: 'a word) = Bit_Operations.mask 8" by (simp add: mask_eq_exp_minus_1)
  show ?thesis unfolding e by (auto simp: bit_simps)
qed

lemma store_load: "copy_word dst src f = phys_copy dst src 4 f"
proof -
  have b: "ucast (load32 src f) = f src" "ucast (drop_bit 8 (load32 src f)) = f (src + 1)"
    "ucast (drop_bit 16 (load32 src f)) = f (src + 2)" "ucast (drop_bit 24 (load32 src f)) = f (src + 3)"
    by (rule bit_word_eqI; auto simp: load32_def bit_simps dest: bit_imp_le_length)+
  show ?thesis
  proof
    fix x show "copy_word dst src f x = phys_copy dst src 4 f x"
      by (cases rule: word_offsets [of x dst]) (auto simp: copy_word_def store32_def b phys_copy_def)
  qed
qed

lemma store_pattern:
  fixes c :: u32
  assumes "d = c AND 0xFF" "b = push_bit 8 d OR d" "w = b OR push_bit 16 b"
  shows "store32 p w f = phys_set p (ucast c) 4 f"
proof -
  have d: "bit d n \<longleftrightarrow> n < 8 \<and> bit c n" for n
    unfolding assms(1) bit_and_iff bit_0xFF by (auto dest: bit_imp_le_length)
  have b: "ucast w = (ucast c :: u8)" "ucast (drop_bit 8 w) = (ucast c :: u8)"
    "ucast (drop_bit 16 w) = (ucast c :: u8)" "ucast (drop_bit 24 w) = (ucast c :: u8)"
    by (rule bit_word_eqI; auto simp: assms(2,3) d bit_simps)+
  show ?thesis
  proof
    fix x show "store32 p w f x = phys_set p (ucast c) 4 f x"
      by (cases rule: word_offsets [of x p]) (auto simp: store32_def b phys_set_def)
  qed
qed

text \<open>A copy in two parts, upwards and downwards. The conditions say what the first part must not overwrite.\<close>

lemma phys_copy_0 [simp]: "phys_copy d s 0 f = f"
  by (rule ext) (auto simp: phys_copy_def)

lemma phys_copy_1: "f(d := f s) = phys_copy d s 1 f"
  by (rule ext) (auto simp: phys_copy_def)

lemma phys_copy_up:
  "d \<le> s \<or> s + (k + j) \<le> d \<Longrightarrow> phys_copy (d + k) (s + k) j (phys_copy d s k f) = phys_copy d s (k + j) f"
  by (rule ext) (auto simp: phys_copy_def)

lemma phys_copy_down:
  "s \<le> d \<Longrightarrow> phys_copy d s k (phys_copy (d + k) (s + k) j f) = phys_copy d s (k + j) f"
  by (rule ext) (auto simp: phys_copy_def)

lemma phys_set_0 [simp]: "phys_set p c 0 f = f"
  by (rule ext) (auto simp: phys_set_def)

lemma phys_set_1: "f(p := c) = phys_set p c 1 f"
  by (rule ext) (auto simp: phys_set_def)

lemma phys_set_append: "phys_set (p + k) c j (phys_set p c k f) = phys_set p c (k + j) f"
  by (rule ext) (auto simp: phys_set_def)

section \<open>The routines against the reference\<close>

lemma memset_bytes_eq: "memset_bytes n s c f = phys_set s c n f"
proof (induction n arbitrary: s f)
  case (Suc n)
  then show ?case using phys_set_append [of s 1 c n f] by (simp add: phys_set_1)
qed simp

lemma memset_align_eq:
  assumes "memset_align s c n f = (e, s', n', f')"
  shows "\<exists>k. s' = s + k \<and> n = n' + k \<and> f' = phys_set s c k f \<and> (e \<longrightarrow> n' = 0)"
  using assms
proof (induction s c n f rule: memset_align.induct)
  case (1 s c n f)
  show ?case
  proof (cases "s mod 4 \<noteq> 0 \<and> n \<noteq> 0")
    case True
    then have "memset_align (s + 1) c (n - 1) (f(s := c)) = (e, s', n', f')"
      using 1(2) by (simp add: memset_align.simps [of s])
    then obtain k where "s' = s + 1 + k" "n - 1 = n' + k" "f' = phys_set (s + 1) c k (f(s := c))" "e \<longrightarrow> n' = 0"
      using 1(1) True by blast
    then show ?thesis using True phys_set_append [of s 1 c k f]
      by (intro exI [of _ "k + 1"]) (auto simp: phys_set_1)
  next
    case False
    then show ?thesis using 1(2) by (intro exI [of _ 0]) (auto simp: memset_align.simps [of s] split: if_splits)
  qed
qed

lemma memset_words_eq:
  assumes "\<And>p f. store32 p w f = phys_set p c 4 f"
  shows "memset_words p w n f = (p + 4 * (n div 4), n mod 4, phys_set p c (4 * (n div 4)) f)"
  using assms
proof (induction p w n f rule: memset_words.induct)
  case (1 p w n f)
  show ?case
  proof (cases "n \<ge> 4")
    case True
    then obtain j where j: "n = 4 + j" by (auto simp: le_iff_add)
    have "4 * ((4 + j) div 4) = 4 + 4 * (j div 4)" by presburger
    then show ?thesis using 1 True phys_set_append [of p 4 c] by (simp add: j memset_words.simps [of p])
  qed (simp add: memset_words.simps [of p])
qed

lemma memset_big_eq:
  assumes "\<And>p f. store32 p w f = phys_set p c 4 f"
  shows "memset_big p w n f = (p + 16 * (n div 16), n mod 16, phys_set p c (16 * (n div 16)) f)"
  using assms
proof (induction p w n f rule: memset_big.induct)
  case (1 p w n f)
  have s: "store32 (p + 12) w (store32 (p + 8) w (store32 (p + 4) w (store32 p w f))) = phys_set p c 16 f"
    using phys_set_append [of p 4 c 4] phys_set_append [of p 8 c 4] phys_set_append [of p 12 c 4] by (simp add: 1(2))
  show ?case
  proof (cases "n \<ge> 16")
    case True
    then obtain j where j: "n = 16 + j" by (auto simp: le_iff_add)
    have "16 * ((16 + j) div 16) = 16 + 16 * (j div 16)" by (simp add: div_add_self1)
    then show ?thesis using 1(1)[OF True 1(2)] phys_set_append [of p 16 c] by (simp add: j memset_big.simps [of p] s)
  qed (simp add: memset_big.simps [of p])
qed

lemma memset_eq: "memset m c n f = phys_set m (ucast c) n f"
proof -
  obtain e s n' f' where a: "memset_align m (ucast c) n f = (e, s, n', f')" by (metis prod_cases4)
  then obtain k where k: "s = m + k" "n = n' + k" "f' = phys_set m (ucast c) k f" "e \<longrightarrow> n' = 0"
    using memset_align_eq by blast
  define d where "d = c AND 0xFF"
  define b where "b = push_bit 8 d OR d"
  define w where "w = b OR push_bit 16 b"
  have w: "store32 p w g = phys_set p (ucast c) 4 g" for p g
    by (rule store_pattern [OF d_def b_def w_def])
  have t: "16 * (x div 16) + (4 * (x mod 16 div 4) + x mod 16 mod 4) = x" for x :: nat
    by (simp only: mult_div_mod_eq)
  show ?thesis
    unfolding memset_def Let_def a prod.case d_def [symmetric] b_def [symmetric] w_def [symmetric]
      memset_big_eq [OF w] memset_words_eq [OF w] memset_bytes_eq phys_set_append add.assoc t
    using k phys_set_append [of m k "ucast c" n' f] by (auto simp: phys_set_append t add.assoc add.commute)
qed

lemma memcpy_bytes_eq:
  "d \<le> s \<or> s + n \<le> d \<Longrightarrow> memcpy_bytes n d s f = phys_copy d s n f"
proof (induction n arbitrary: d s f)
  case (Suc n)
  then show ?case using phys_copy_up [of d s 1 n f] by (auto simp: phys_copy_1)
qed simp

lemma memcpy_words_eq:
  "d \<le> s \<or> s + n \<le> d \<Longrightarrow> memcpy_words d s n f = (d + 4 * (n div 4), s + 4 * (n div 4), n mod 4, phys_copy d s (4 * (n div 4)) f)"
proof (induction d s n f rule: memcpy_words.induct)
  case (1 d s n f)
  show ?case
  proof (cases "n \<ge> 4")
    case True
    then obtain j where j: "n = 4 + j" by (auto simp: le_iff_add)
    have "4 * ((4 + j) div 4) = 4 + 4 * (j div 4)" by presburger
    moreover have "d \<le> s \<or> s + (4 + 4 * (j div 4)) \<le> d" using 1(2) j by presburger
    ultimately show ?thesis using 1 True phys_copy_up [of d s 4 "4 * (j div 4)" f]
      by (auto simp: j memcpy_words.simps [of d] store_load)
  qed (simp add: memcpy_words.simps [of d])
qed

lemma memcpy_big_eq:
  "d \<le> s \<or> s + n \<le> d \<Longrightarrow> memcpy_big d s n f = (d + 16 * (n div 16), s + 16 * (n div 16), n mod 16, phys_copy d s (16 * (n div 16)) f)"
proof (induction d s n f rule: memcpy_big.induct)
  case (1 d s n f)
  show ?case
  proof (cases "n \<ge> 16")
    case True
    then obtain j where j: "n = 16 + j" by (auto simp: le_iff_add)
    have "16 * ((16 + j) div 16) = 16 + 16 * (j div 16)" by (simp add: div_add_self1)
    moreover have "d \<le> s \<or> s + (16 + 16 * (j div 16)) \<le> d"
      using 1(2) j times_div_less_eq_dividend [of 16 j] by linarith
    moreover have "copy_word (d + 12) (s + 12) (copy_word (d + 8) (s + 8) (copy_word (d + 4) (s + 4) (copy_word d s f)))
        = phys_copy d s 16 f"
      using 1(2) True phys_copy_up [of d s 4 4 f] phys_copy_up [of d s 8 4 f] phys_copy_up [of d s 12 4 f]
      by (auto simp: store_load)
    ultimately show ?thesis using 1 True phys_copy_up [of d s 16 "16 * (j div 16)" f]
      by (auto simp: j memcpy_big.simps [of d])
  qed (simp add: memcpy_big.simps [of d])
qed

lemma memcpy_eq:
  assumes "d \<le> s \<or> s + n \<le> d"
  shows "memcpy d s n f = phys_copy d s n f"
proof -
  have t: "16 * (n div 16) + (4 * (n mod 16 div 4) + n mod 16 mod 4) = n"
    by (simp only: mult_div_mod_eq)
  define a b c where "a = 16 * (n div 16)" and "b = 4 * (n mod 16 div 4)" and "c = n mod 16 mod 4"
  have n: "n mod 16 = b + c" "n = a + b + c"
    using t by (simp_all add: a_def b_def c_def)
  have "memcpy_words (d + a) (s + a) (n mod 16) g = (d + a + b, s + a + b, c, phys_copy (d + a) (s + a) b g)" for g
  proof -
    have "d + a \<le> s + a \<or> s + a + n mod 16 \<le> d + a" using assms n by linarith
    from memcpy_words_eq [OF this, of g] show ?thesis by (simp only: b_def c_def)
  qed
  moreover have "memcpy_bytes c (d + a + b) (s + a + b) g = phys_copy (d + a + b) (s + a + b) c g" for g
    using memcpy_bytes_eq [of "d + a + b" "s + a + b" c g] assms n(2) by auto
  moreover have "phys_copy (d + a + b) (s + a + b) c (phys_copy (d + a) (s + a) b (phys_copy d s a f)) = phys_copy d s n f"
  proof -
    have "d \<le> s \<or> s + (a + b) \<le> d" "d \<le> s \<or> s + (a + b + c) \<le> d" using assms n(2) by linarith+
    then show ?thesis unfolding n(2) using phys_copy_up [of d s a b f] phys_copy_up [of d s "a + b" c f] by (simp only: add.assoc)
  qed
  ultimately show ?thesis
    using memcpy_bytes_eq [OF assms, of f] by (simp add: memcpy_def memcpy_big_eq [OF assms] a_def [symmetric])
qed

lemma fwd_byte_pow: "d \<le> s \<Longrightarrow> (fwd_byte ^^ t) (d, s, f) = (d + t, s + t, phys_copy d s t f)"
  by (induction t) (simp_all add: fwd_byte_def phys_copy_1 phys_copy_up)

lemma fwd_word_pow: "d \<le> s \<Longrightarrow> (fwd_word ^^ t) (d, s, f) = (d + 4 * t, s + 4 * t, phys_copy d s (4 * t) f)"
  by (induction t) (simp_all add: fwd_word_def store_load phys_copy_up add.commute)

lemma bwd_byte_pow:
  "s \<le> d \<Longrightarrow> (bwd_byte ^^ t) (d + t, s + t, f) = (d, s, phys_copy d s t f)"
proof (induction t arbitrary: d s f)
  case (Suc t)
  have "(bwd_byte ^^ t) (Suc d + t, Suc s + t, f) = (Suc d, Suc s, phys_copy (Suc d) (Suc s) t f)"
    using Suc by blast
  then show ?case using phys_copy_down [OF Suc(2), of 1 t f] by (simp add: bwd_byte_def phys_copy_1)
qed simp

lemma bwd_word_pow:
  "s \<le> d \<Longrightarrow> (bwd_word ^^ t) (d + 4 * t, s + 4 * t, f) = (d, s, phys_copy d s (4 * t) f)"
proof (induction t arbitrary: d s f)
  case (Suc t)
  have "(bwd_word ^^ t) (d + 4 + 4 * t, s + 4 + 4 * t, f) = (d + 4, s + 4, phys_copy (d + 4) (s + 4) (4 * t) f)"
    using Suc by simp
  then show ?case using phys_copy_down [OF Suc(2), of 4 "4 * t" f] by (simp add: bwd_word_def store_load add.assoc)
qed simp

lemmas TLOOP_defs = TLOOP_def TLOOP1_def

lemma memmove_fwd_tail:
  assumes "d \<le> s"
  shows "TLOOP (n div 4) fwd_word (d, s, f) \<bind> (\<lambda>st. TLOOP (n mod 4) fwd_byte st \<bind> (\<lambda>(d, s, f). Some f))
    = Some (phys_copy d s n f)"
proof -
  define a b where "a = 4 * (n div 4)" and "b = n mod 4"
  have n: "n = a + b" by (simp add: a_def b_def)
  have "TLOOP (n div 4) fwd_word (d, s, f) = Some (d + a, s + a, phys_copy d s a f)"
    by (cases "n div 4 = 0") (simp_all add: TLOOP_defs fwd_word_pow assms a_def)
  moreover have "TLOOP b fwd_byte (d + a, s + a, g) = Some (d + a + b, s + a + b, phys_copy (d + a) (s + a) b g)" for g
    using assms by (cases "b = 0") (simp_all add: TLOOP_defs fwd_byte_pow)
  ultimately show ?thesis
    unfolding b_def [symmetric] using phys_copy_up [of d s a b f] assms by (simp add: n [symmetric])
qed

lemma memmove_bwd_tail:
  assumes "s \<le> d"
  shows "TLOOP (n div 4) bwd_word (d + n, s + n, f) \<bind> (\<lambda>st. TLOOP (n mod 4) bwd_byte st \<bind> (\<lambda>(d, s, f). Some f))
    = Some (phys_copy d s n f)"
proof -
  define q b where "q = n div 4" and "b = n mod 4"
  have n: "n = b + 4 * q" by (simp add: q_def b_def)
  have "TLOOP q bwd_word (d + n, s + n, f) = Some (d + b, s + b, phys_copy (d + b) (s + b) (4 * q) f)"
    using assms bwd_word_pow [of "s + b" "d + b" q f] by (cases "q = 0") (simp_all add: TLOOP_defs n add.assoc)
  moreover have "TLOOP b bwd_byte (d + b, s + b, g) = Some (d, s, phys_copy d s b g)" for g
    using assms by (cases "b = 0") (simp_all add: TLOOP_defs bwd_byte_pow)
  ultimately show ?thesis
    unfolding b_def [symmetric] q_def [symmetric] using phys_copy_down [OF assms, of b "4 * q" f]
    by (simp add: n [symmetric])
qed

text \<open>
  C23: \<^verbatim>\<open>memmove\<close> on any two ranges, overlapping or not and aligned or not, returns (no loop is entered with
  a count of zero) and does what one simultaneous copy of the bytes does.
\<close>

theorem memmove_is_copy: "memmove d s n f = Some (phys_copy d s n f)"
proof -
  consider "n = 0 \<or> d = s" | "n \<noteq> 0" "d < s" | "n \<noteq> 0" "s < d" by linarith
  then show ?thesis
  proof cases
    case 1
    then show ?thesis by (auto simp: memmove_def phys_copy_def)
  next
    case 2
    define t where "t = fwd_align d s n"
    have t: "t \<noteq> 0" "t \<le> n" using 2 by (auto simp: t_def fwd_align_def)
    have "TLOOP1 t fwd_byte (d, s, f) = Some (d + t, s + t, phys_copy d s t f)"
      using t 2 by (simp add: TLOOP1_def fwd_byte_pow)
    moreover have "phys_copy (d + t) (s + t) (n - t) (phys_copy d s t f) = phys_copy d s n f"
      using phys_copy_up [of d s t "n - t" f] 2 t by simp
    ultimately show ?thesis
      using 2 memmove_fwd_tail [of "d + t" "s + t" "n - t"] memmove_fwd_tail [of d s n f]
      by (simp add: memmove_def t_def [symmetric])
  next
    case 3
    define t where "t = bwd_align (d + n) (s + n) n"
    show ?thesis
    proof (cases "(s + n) mod 4 \<noteq> 0 \<or> (d + n) mod 4 \<noteq> 0")
      case True
      have t: "t \<noteq> 0" "t \<le> n" using 3 True mod_less_divisor [of 4 "s + n"]
        by (auto simp: t_def bwd_align_def)
      then obtain j where n: "n = j + t" by (metis le_add_diff_inverse2)
      have "TLOOP1 t bwd_byte (d + n, s + n, f) = Some (d + j, s + j, phys_copy (d + j) (s + j) t f)"
        using t 3 bwd_byte_pow [of "s + j" "d + j" t f] by (simp add: TLOOP1_def n add.assoc)
      moreover have "phys_copy d s j (phys_copy (d + j) (s + j) t f) = phys_copy d s n f"
        using phys_copy_down [of s d j t f] 3 n by simp
      moreover have n_minus: "n - t = j" using n by simp
      ultimately show ?thesis
        using 3 True t memmove_bwd_tail [of s d j] n [symmetric]
        by (simp add: memmove_def Let_def t_def [symmetric] n_minus)
    next
      case False
      then show ?thesis using 3 memmove_bwd_tail [of s d n f] by (simp add: memmove_def Let_def)
    qed
  qed
qed

end
