(* ===== verification/Dynmem.thy ===== *)
theory Dynmem
  imports Bitmap Kmemops
begin

text \<open>
  The region allocator (\<^verbatim>\<open>kern/dynmem.c\<close>): physical memory from \<open>configDYNMEM_START\<close> on is handed
  out in regions of whole megabytes. \<open>dynmemmap\<close> has a descriptor per megabyte (access bits, a link
  bit that joins the pages of a region, a reference count of 16 bits), \<open>dynmemmap_bitmap\<close> a bit per
  megabyte. The configuration is the default one of \<^verbatim>\<open>kern/Kconfig\<close>: 8 MB at 8 MB. Addresses are
  numbers; \<open>mem\<close> is the physical memory. The calls of \<open>mmu_map_region\<close> and \<open>mmu_unmap_region\<close> are
  logged in \<open>mmu_log\<close>. Each function runs under \<open>dynmem_region_lock\<close> from begin to end, except
  \<open>dynmem_clone\<close>, which calls the others. \<open>None\<close> is an access outside \<open>dynmemmap\<close> or a failed
  \<open>KASSERT\<close>.
\<close>

section \<open>The code\<close>

abbreviation (input) DYNMEM_PAGE_SIZE :: nat where "DYNMEM_PAGE_SIZE \<equiv> 2 ^ 20"
abbreviation (input) configDYNMEM_SIZE :: nat where "configDYNMEM_SIZE \<equiv> 0x800000"
abbreviation (input) DYNMEM_START :: nat where "DYNMEM_START \<equiv> 0x800000"
abbreviation (input) DYNMEM_END :: nat where "DYNMEM_END \<equiv> 0x1000000"
abbreviation (input) DYNMEM_MAPSIZE :: nat where "DYNMEM_MAPSIZE \<equiv> 8"
abbreviation (input) SIZEOF_DYNMEMMAP_BITMAP :: nat where "SIZEOF_DYNMEMMAP_BITMAP \<equiv> 4"

record dynmem_desc =
  d_control :: "10 word"
  d_ap :: "3 word"
  d_rl :: bool
  d_refcount :: "16 word"

record mmu_region =
  vaddr :: nat
  num_pages :: nat
  rg_ap :: u32
  rg_control :: u32
  paddr :: nat

datatype mmu_op = Map mmu_region | Unmap mmu_region

record dynmem =
  dynmemmap :: "dynmem_desc list"
  dynmemmap_bitmap :: bitmap
  dynmem_region :: mmu_region
  dynmem_free :: u32
  dynmem_nr_reserved :: nat
  dynmem_reserved :: u32
  mmu_log :: "mmu_op list"
  mem :: "nat \<Rightarrow> u8"

text \<open>A cleared descriptor, as in the zero initialised table.\<close>

definition desc0 :: dynmem_desc where
  "desc0 = \<lparr>d_control = 0, d_ap = 0, d_rl = False, d_refcount = 0\<rparr>"

definition dindex2addr :: "nat \<Rightarrow> nat" where
  "dindex2addr di = szt (DYNMEM_START + di * DYNMEM_PAGE_SIZE)"

definition addr2dindex :: "nat \<Rightarrow> nat" where
  "addr2dindex addr = szt (addr + (2 ^ 32 - DYNMEM_START)) div DYNMEM_PAGE_SIZE"

definition addr_is_valid :: "dynmem \<Rightarrow> nat \<Rightarrow> bool \<Rightarrow> bool option" where
  "addr_is_valid d addr test =
     (let i = addr2dindex addr
      in if addr < DYNMEM_START \<or> addr > DYNMEM_END then Some False
         else if test then do {
           dp \<leftarrow> rd (dynmemmap d) i;
           Some (d_refcount dp \<noteq> 0) }
         else Some True)"

text \<open>The areas are those of the linker set \<open>dynmem_reserved\<close>, pairs of the first and the last address.\<close>

fun mark_areas :: "(nat \<times> nat) list \<Rightarrow> dynmem \<Rightarrow> dynmem option" where
  "mark_areas [] d = Some d"
| "mark_areas ((caddr_start, caddr_end) # areas) d =
     (let pos = addr2dindex caddr_start
      in if caddr_start > DYNMEM_END then mark_areas areas d
         else do {
           let end_addr = (if caddr_end > DYNMEM_END then DYNMEM_END else caddr_end);
           let bytes = szt (end_addr + 2 ^ 32 - caddr_start + 1);
           let blkcount = bytes div DYNMEM_PAGE_SIZE;
           (err, bm) \<leftarrow> bitmap_block_update (dynmemmap_bitmap d) 1 pos blkcount SIZEOF_DYNMEMMAP_BITMAP;
           if err \<noteq> 0 then None
           else mark_areas areas (d\<lparr>dynmemmap_bitmap := bm,
                  dynmem_free := dynmem_free d - of_nat bytes,
                  dynmem_reserved := dynmem_reserved d + of_nat bytes\<rparr>) })"

definition mark_reserved_areas :: "(nat \<times> nat) list \<Rightarrow> dynmem \<Rightarrow> dynmem option" where
  "mark_reserved_areas areas d = mark_areas areas (d\<lparr>dynmem_nr_reserved := length areas\<rparr>)"

definition dynmem_init :: "(nat \<times> nat) list \<Rightarrow> dynmem \<Rightarrow> dynmem option" where
  "dynmem_init areas d = mark_reserved_areas areas d"

text \<open>The pages counted by the loop over the link bits, from page \<open>i\<close> on.\<close>

function count_links :: "dynmem_desc list \<Rightarrow> nat \<Rightarrow> nat \<Rightarrow> nat option" where
  "count_links m i n =
     (if i < length m then if d_rl (m ! i) then count_links m (Suc i) (Suc n) else Some n else None)"
  by pat_completeness auto
termination
  by (relation "measure (\<lambda>(m, i, n). length m - i)") auto

declare count_links.simps [simp del]

definition update_dynmem_region_struct :: "nat \<Rightarrow> dynmem \<Rightarrow> (int \<times> dynmem) option" where
  "update_dynmem_region_struct base_addr d = do {
     let reg_start = addr2dindex base_addr;
     valid \<leftarrow> addr_is_valid d base_addr True;
     if \<not> valid then Some (- EINVAL, d)
     else do {
       n \<leftarrow> count_links (dynmemmap d) reg_start 1;
       flags \<leftarrow> rd (dynmemmap d) reg_start;
       Some (0, d\<lparr>dynmem_region := \<lparr>vaddr = base_addr, num_pages = n, rg_ap = ucast (d_ap flags),
                    rg_control = ucast (d_control flags), paddr = base_addr\<rparr>\<rparr>) } }"

text \<open>The descriptors of a region: \<open>n\<close> linked ones from \<open>i\<close> on and a last one without link.\<close>

primrec kmap_fill :: "nat \<Rightarrow> nat \<Rightarrow> dynmem_desc \<Rightarrow> dynmem_desc list \<Rightarrow> dynmem_desc list option" where
  "kmap_fill 0 i desc m = wr m i (desc\<lparr>d_rl := False\<rparr>)"
| "kmap_fill (Suc n) i desc m = do { m \<leftarrow> wr m i (desc\<lparr>d_rl := True\<rparr>); kmap_fill n (Suc i) desc m }"

definition kmap_allocation :: "nat \<Rightarrow> nat \<Rightarrow> u32 \<Rightarrow> u32 \<Rightarrow> dynmem \<Rightarrow> (nat \<times> dynmem) option" where
  "kmap_allocation base sz ap ctrl d = do {
     let addr = dindex2addr base;
     let desc = \<lparr>d_control = ucast ctrl, d_ap = ucast ap, d_rl = False, d_refcount = 1\<rparr>;
     m \<leftarrow> kmap_fill (sz - 1) base desc (dynmemmap d);
     let reg = \<lparr>vaddr = addr, num_pages = sz, rg_ap = ap, rg_control = ctrl, paddr = addr\<rparr>;
     Some (addr, d\<lparr>dynmemmap := m, dynmem_region := reg, mmu_log := mmu_log d @ [Map reg]\<rparr>) }"

definition dynmem_alloc_region :: "nat \<Rightarrow> u32 \<Rightarrow> u32 \<Rightarrow> dynmem \<Rightarrow> (nat \<times> dynmem) option" where
  "dynmem_alloc_region sz ap ctrl d =
     (if sz = 0 then Some (0, d)
      else do {
        (rc, pos) \<leftarrow> bitmap_block_search 0 sz (dynmemmap_bitmap d) SIZEOF_DYNMEMMAP_BITMAP;
        if rc \<noteq> 0 then Some (0, d)
        else do {
          let d = d\<lparr>dynmem_free := dynmem_free d - of_nat (sz * DYNMEM_PAGE_SIZE)\<rparr>;
          (err, bm) \<leftarrow> bitmap_block_update (dynmemmap_bitmap d) 1 pos sz SIZEOF_DYNMEMMAP_BITMAP;
          if err \<noteq> 0 then None
          else kmap_allocation pos sz ap ctrl (d\<lparr>dynmemmap_bitmap := bm\<rparr>) } })"

definition dynmem_ref :: "nat \<Rightarrow> dynmem \<Rightarrow> (int \<times> dynmem) option" where
  "dynmem_ref addr d = do {
     let i = addr2dindex addr;
     valid \<leftarrow> addr_is_valid d addr True;
     if \<not> valid then Some (- EINVAL, d)
     else do {
       dp \<leftarrow> rd (dynmemmap d) i;
       if d_refcount dp = 0 then Some (- EINVAL, d)
       else Some (0, d\<lparr>dynmemmap := (dynmemmap d)[i := dp\<lparr>d_refcount := d_refcount dp + 1\<rparr>]\<rparr>) } }"

text \<open>The \<open>memset\<close> over \<open>n\<close> descriptors from \<open>i\<close> on.\<close>

definition clear_descs :: "nat \<Rightarrow> nat \<Rightarrow> dynmem_desc list \<Rightarrow> dynmem_desc list option" where
  "clear_descs i n m = (if i + n \<le> length m then Some (take i m @ replicate n desc0 @ drop (i + n) m) else None)"

definition dynmem_free_region :: "nat \<Rightarrow> dynmem \<Rightarrow> dynmem option" where
  "dynmem_free_region addr d = do {
     valid \<leftarrow> addr_is_valid d addr True;
     if \<not> valid then Some d
     else do {
       let i = addr2dindex addr;
       dp \<leftarrow> rd (dynmemmap d) i;
       if d_refcount dp > 1
       then Some (d\<lparr>dynmemmap := (dynmemmap d)[i := dp\<lparr>d_refcount := d_refcount dp - 1\<rparr>]\<rparr>)
       else do {
         (err, d) \<leftarrow> update_dynmem_region_struct addr d;
         if err \<noteq> 0 then Some d
         else do {
           let reg = dynmem_region d;
           let d = d\<lparr>mmu_log := mmu_log d @ [Unmap reg]\<rparr>;
           m \<leftarrow> clear_descs i (num_pages reg) (dynmemmap d);
           (err, bm) \<leftarrow> bitmap_block_update (dynmemmap_bitmap d) 1 i (num_pages reg) SIZEOF_DYNMEMMAP_BITMAP;
           if err \<noteq> 0 then None
           else Some (d\<lparr>dynmemmap := m, dynmemmap_bitmap := bm,
                        dynmem_free := dynmem_free d + of_nat (num_pages reg * DYNMEM_PAGE_SIZE)\<rparr>) } } } }"

definition dynmem_clone :: "nat \<Rightarrow> dynmem \<Rightarrow> (nat \<times> dynmem) option" where
  "dynmem_clone addr d = do {
     (err, d) \<leftarrow> dynmem_ref addr d;
     if err \<noteq> 0 then Some (0, d)
     else do {
       (err, d) \<leftarrow> update_dynmem_region_struct addr d;
       if err \<noteq> 0 then Some (0, d)
       else do {
         let cln = dynmem_region d;
         (new_region, d) \<leftarrow> dynmem_alloc_region (num_pages cln) (rg_ap cln) (rg_control cln) d;
         if new_region = 0 then Some (0, d)
         else do {
           let d = d\<lparr>mem := memcpy new_region (paddr cln) (num_pages cln * DYNMEM_PAGE_SIZE) (mem d)\<rparr>;
           d \<leftarrow> dynmem_free_region addr d;
           Some (new_region, d) } } } }"

text \<open>\<open>dynmem_region\<close> always belongs to the master page table, whose pages are sections.\<close>

definition mmu_sizeof_region :: "mmu_region \<Rightarrow> nat" where
  "mmu_sizeof_region reg = szt (num_pages reg * 2 ^ 20)"

abbreviation (input) MMU_CTRL_XN :: u32 where "MMU_CTRL_XN \<equiv> 0x10"

definition dynmem_acc :: "nat \<Rightarrow> nat \<Rightarrow> dynmem \<Rightarrow> ((3 word \<times> bool) \<times> dynmem) option" where
  "dynmem_acc addr len d = do {
     valid \<leftarrow> addr_is_valid d addr True;
     if \<not> valid then Some ((0, False), d)
     else do {
       (err, d) \<leftarrow> update_dynmem_region_struct addr d;
       if err \<noteq> 0 then Some ((0, False), d)
       else
         let reg = dynmem_region d; sz = mmu_sizeof_region reg
         in if sz = 0 then Some ((0, False), d)
            else if addr < paddr reg \<or> addr > szt (paddr reg + sz) then Some ((0, False), d)
            else Some ((ucast (rg_ap reg), rg_control reg AND MMU_CTRL_XN = MMU_CTRL_XN), d) } }"


text \<open>The state the static initialisers give, with any contents of the memory.\<close>

definition dynmem_boot :: "(nat \<Rightarrow> u8) \<Rightarrow> dynmem" where
  "dynmem_boot contents = \<lparr>dynmemmap = replicate DYNMEM_MAPSIZE desc0, dynmemmap_bitmap = [0],
     dynmem_region = \<lparr>vaddr = 0, num_pages = 0, rg_ap = 0, rg_control = 0, paddr = 0\<rparr>,
     dynmem_free = of_nat configDYNMEM_SIZE, dynmem_nr_reserved = 0, dynmem_reserved = 0,
     mmu_log = [], mem = contents\<rparr>"

section \<open>Pages and addresses\<close>

lemma dindex2addr_eq [simp]: "di \<le> 32 \<Longrightarrow> dindex2addr di = DYNMEM_START + di * 2 ^ 20"
  by (simp add: dindex2addr_def)

lemma addr2dindex_eq: "DYNMEM_START \<le> a \<Longrightarrow> a < 2 ^ 32 \<Longrightarrow> addr2dindex a = (a - DYNMEM_START) div 2 ^ 20"
  by (simp add: addr2dindex_def szt_def mod_if)

lemma addr2dindex_page: "i \<le> 32 \<Longrightarrow> addr2dindex (DYNMEM_START + i * 2 ^ 20) = i"
  by (simp add: addr2dindex_eq)

section \<open>The invariant\<close>

abbreviation refs :: "dynmem \<Rightarrow> nat \<Rightarrow> nat" where
  "refs d i \<equiv> unat (d_refcount (dynmemmap d ! i))"

text \<open>Every page in use has its bit set, and no link leads out of the table.\<close>

definition dm_inv :: "dynmem \<Rightarrow> bool" where
  "dm_inv d \<longleftrightarrow> length (dynmemmap d) = DYNMEM_MAPSIZE \<and> length (dynmemmap_bitmap d) = 1 \<and>
     (\<forall>i < DYNMEM_MAPSIZE. refs d i \<noteq> 0 \<longrightarrow> used (dynmemmap_bitmap d) i) \<and>
     (\<forall>i < DYNMEM_MAPSIZE. d_rl (dynmemmap d ! i) \<longrightarrow> Suc i < DYNMEM_MAPSIZE)"

text \<open>The pages \<open>i .. i + n - 1\<close> are one region: all but the last are linked to their successor.\<close>

definition region :: "dynmem \<Rightarrow> nat \<Rightarrow> nat \<Rightarrow> bool" where
  "region d i n \<longleftrightarrow> 0 < n \<and> i + n \<le> DYNMEM_MAPSIZE \<and>
     (\<forall>j < n. refs d (i + j) \<noteq> 0 \<and> (d_rl (dynmemmap d ! (i + j)) \<longleftrightarrow> Suc j < n))"

lemma dm_inv_boot [kern_inv]: "dm_inv (dynmem_boot c)"
  by (simp add: dm_inv_def dynmem_boot_def desc0_def)

lemma dm_invD:
  assumes "dm_inv d"
  shows "length (dynmemmap d) = 8" "length (dynmemmap_bitmap d) = 1"
    "i < 8 \<Longrightarrow> refs d i \<noteq> 0 \<Longrightarrow> used (dynmemmap_bitmap d) i"
    "i < 8 \<Longrightarrow> d_rl (dynmemmap d ! i) \<Longrightarrow> Suc i < 8"
  using assms by (auto simp: dm_inv_def)

lemma count_links_Some:
  "i < length m \<Longrightarrow> \<forall>j < length m. d_rl (m ! j) \<longrightarrow> Suc j < length m \<Longrightarrow>
   \<exists>k. count_links m i n = Some (n + k) \<and> i + k < length m \<and> (\<forall>j < k. d_rl (m ! (i + j))) \<and>
       \<not> d_rl (m ! (i + k))"
proof (induction m i n rule: count_links.induct)
  case (1 m i n)
  show ?case
  proof (cases "d_rl (m ! i)")
    case True
    then obtain k where k: "count_links m (Suc i) (Suc n) = Some (Suc n + k)" "Suc i + k < length m"
      "\<forall>j < k. d_rl (m ! (Suc i + j))" "\<not> d_rl (m ! (Suc i + k))"
      using 1 by blast
    have "d_rl (m ! (i + j))" if "j < Suc k" for j
      using k(3) True that by (cases j) auto
    with k True 1(2) show ?thesis
      by (intro exI [of _ "Suc k"]) (simp add: count_links.simps [of m i n])
  next
    case False
    with 1(2) show ?thesis by (intro exI [of _ 0]) (simp add: count_links.simps [of m i n])
  qed
qed

lemma count_links_region:
  assumes "dm_inv d" and "region d i n"
  shows "count_links (dynmemmap d) i 1 = Some n"
proof -
  obtain k where k: "count_links (dynmemmap d) i 1 = Some (1 + k)"
    "\<forall>j < k. d_rl (dynmemmap d ! (i + j))" "\<not> d_rl (dynmemmap d ! (i + k))"
    using count_links_Some [of i "dynmemmap d" 1] assms by (auto simp: dm_inv_def region_def)
  have "k = n - 1"
  proof (rule ccontr)
    assume "k \<noteq> n - 1"
    then consider "k < n - 1" | "n - 1 < k" by linarith
    then show False
    proof cases
      case 1
      with assms(2) k(3) show False by (simp add: region_def)
    next
      case 2
      with k(2) have "d_rl (dynmemmap d ! (i + (n - 1)))" by blast
      moreover have "n - 1 < n" "\<not> Suc (n - 1) < n" using assms(2) by (auto simp: region_def)
      ultimately show False using assms(2) unfolding region_def by blast
    qed
  qed
  with k(1) assms(2) show ?thesis by (simp add: region_def)
qed

lemma kmap_fill_Some:
  "i + n < length m \<Longrightarrow> \<exists>m'. kmap_fill n i desc m = Some m' \<and> length m' = length m \<and>
     (\<forall>j. m' ! j = (if i \<le> j \<and> j \<le> i + n then desc\<lparr>d_rl := j < i + n\<rparr> else m ! j))"
proof (induction n arbitrary: i m)
  case 0
  then show ?case by (auto simp: nth_list_update)
next
  case (Suc n)
  obtain m' where "kmap_fill n (Suc i) desc (m[i := desc\<lparr>d_rl := True\<rparr>]) = Some m'" "length m' = length m"
    "\<forall>j. m' ! j = (if Suc i \<le> j \<and> j \<le> Suc i + n then desc\<lparr>d_rl := j < Suc i + n\<rparr>
                   else m[i := desc\<lparr>d_rl := True\<rparr>] ! j)"
    using Suc.IH [of "Suc i" "m[i := desc\<lparr>d_rl := True\<rparr>]"] Suc.prems by auto
  with Suc.prems show ?case by (auto simp: nth_list_update)
qed

lemma kmap_fill_None: "length m \<le> i + n \<Longrightarrow> kmap_fill n i desc m = None"
proof (induction n arbitrary: i m)
  case (Suc n)
  then show ?case by (cases "i < length m") auto
qed simp


section \<open>Allocation\<close>

text \<open>Allocation up to the choice of the page, which is that of the bit map search.\<close>

definition alloc_desc :: "u32 \<Rightarrow> u32 \<Rightarrow> dynmem_desc" where
  "alloc_desc ap ctrl = \<lparr>d_control = ucast ctrl, d_ap = ucast ap, d_rl = False, d_refcount = 1\<rparr>"

text \<open>What a successful allocation at page \<open>pos\<close> makes of the state.\<close>

definition alloc_result :: "dynmem \<Rightarrow> nat \<Rightarrow> nat \<Rightarrow> u32 \<Rightarrow> u32 \<Rightarrow> dynmem \<Rightarrow> bool" where
  "alloc_result d pos sz ap ctrl d' \<longleftrightarrow>
     length (dynmemmap d') = length (dynmemmap d) \<and>
     (\<forall>j < length (dynmemmap d). dynmemmap d' ! j =
        (if pos \<le> j \<and> j < pos + sz then (alloc_desc ap ctrl)\<lparr>d_rl := Suc j < pos + sz\<rparr> else dynmemmap d ! j)) \<and>
     length (dynmemmap_bitmap d') = length (dynmemmap_bitmap d) \<and>
     (\<forall>p. used (dynmemmap_bitmap d') p \<longleftrightarrow> used (dynmemmap_bitmap d) p \<or> pos \<le> p \<and> p < pos + sz) \<and>
     mem d' = mem d \<and> dynmem_free d' = dynmem_free d - of_nat (sz * 2 ^ 20) \<and>
     (\<exists>reg. mmu_log d' = mmu_log d @ [Map reg] \<and> vaddr reg = DYNMEM_START + pos * 2 ^ 20 \<and> num_pages reg = sz)"

lemma dynmem_search_cases:
  assumes "dm_inv d" and "0 < sz"
  obtains (none) "bitmap_block_search 0 sz (dynmemmap_bitmap d) 4 = Some (1, 0)"
  | (found) pos where "bitmap_block_search 0 sz (dynmemmap_bitmap d) 4 = Some (0, pos)" "pos + sz \<le> 32"
      "\<forall>p \<in> {pos ..< pos + sz}. \<not> used (dynmemmap_bitmap d) p"
proof -
  have l: "(4::nat) div 4 \<le> length (dynmemmap_bitmap d)" using assms(1) by (simp add: dm_inv_def)
  from bitmap_block_search_s_rc [OF l, of 0 0 sz]
  obtain rc r where r: "bitmap_block_search 0 sz (dynmemmap_bitmap d) 4 = Some (rc, r)" "rc = 0 \<or> rc = 1 \<and> r = 0"
    unfolding bitmap_block_search_def by blast
  show thesis
  proof (cases "rc = 0")
    case True
    with r(1) have "bitmap_block_search_s 0 0 sz (dynmemmap_bitmap d) 4 = Some (0, r)"
      by (simp add: bitmap_block_search_def)
    from bitmap_block_search_s_sound [OF this l] True r(1) show thesis
      by (intro found [of r]) auto
  qed (use r none in auto)
qed

lemma dynmem_alloc_at:
  assumes "dm_inv d" and "0 < sz" and "bitmap_block_search 0 sz (dynmemmap_bitmap d) 4 = Some (0, pos)"
    and "pos + sz \<le> 8"
  shows "\<exists>d'. dynmem_alloc_region sz ap ctrl d = Some (DYNMEM_START + pos * 2 ^ 20, d') \<and>
    alloc_result d pos sz ap ctrl d'"
proof -
  have ue: "upd_end pos sz = pos + sz" using assms(4) by (simp add: upd_end_def)
  obtain bm where bm: "bitmap_block_update (dynmemmap_bitmap d) 1 pos sz 4 = Some (0, bm)"
    "length bm = length (dynmemmap_bitmap d)"
    "\<forall>p. used bm p \<longleftrightarrow> (if pos \<le> p \<and> p < pos + sz then True else used (dynmemmap_bitmap d) p)"
    using bitmap_block_update_used [of sz pos "dynmemmap_bitmap d" 4 1] assms(1,2,4)
    by (auto simp: dm_inv_def ue szt_def)
  have "pos + (sz - 1) < length (dynmemmap d)" using assms(1,2,4) by (simp add: dm_inv_def)
  from kmap_fill_Some [OF this, of "alloc_desc ap ctrl"]
  obtain m where m: "kmap_fill (sz - 1) pos (alloc_desc ap ctrl) (dynmemmap d) = Some m"
    "length m = length (dynmemmap d)"
    "\<forall>j. m ! j = (if pos \<le> j \<and> j \<le> pos + (sz - 1) then (alloc_desc ap ctrl)\<lparr>d_rl := j < pos + (sz - 1)\<rparr>
                  else dynmemmap d ! j)"
    by blast
  have j: "pos \<le> j \<and> j \<le> pos + (sz - 1) \<longleftrightarrow> pos \<le> j \<and> j < pos + sz"
    "j < pos + (sz - 1) \<longleftrightarrow> Suc j < pos + sz" for j
    using assms(2) by auto
  show ?thesis
    using assms(2-4) bm m(1,2) m(3) [unfolded j]
    by (auto simp: dynmem_alloc_region_def kmap_allocation_def alloc_result_def Let_def
        alloc_desc_def [symmetric])
qed

lemma dynmem_alloc_oob:
  assumes "dm_inv d" and "0 < sz" and "bitmap_block_search 0 sz (dynmemmap_bitmap d) 4 = Some (0, pos)"
    and "8 < pos + sz" and "pos + sz \<le> 32"
  shows "dynmem_alloc_region sz ap ctrl d = None"
proof -
  obtain bm where bm: "bitmap_block_update (dynmemmap_bitmap d) 1 pos sz 4 = Some (0, bm)"
    using bitmap_block_update_used [of sz pos "dynmemmap_bitmap d" 4 1] assms(1,2,5)
    by (auto simp: dm_inv_def szt_def)
  moreover have "length (dynmemmap d) \<le> pos + (sz - 1)" using assms(1,4) by (auto simp: dm_inv_def)
  ultimately show ?thesis using assms(2,3)
    by (simp add: dynmem_alloc_region_def kmap_allocation_def kmap_fill_None)
qed

lemma alloc_result_inv:
  assumes "dm_inv d" and "alloc_result d pos sz ap ctrl d'" and "0 < sz" and "pos + sz \<le> 8"
  shows "dm_inv d'" and "region d' pos sz"
proof -
  have u: "dynmemmap d' ! j = (if pos \<le> j \<and> j < pos + sz
      then (alloc_desc ap ctrl)\<lparr>d_rl := Suc j < pos + sz\<rparr> else dynmemmap d ! j)" if "j < 8" for j
    using assms(1,2) that by (simp add: alloc_result_def dm_inv_def)
  show "dm_inv d'"
    using assms u unfolding dm_inv_def alloc_result_def by (auto split: if_splits)
  show "region d' pos sz"
    using assms(3,4) u by (auto simp: region_def alloc_desc_def)
qed

text \<open>Every outcome of an allocation.\<close>

lemma dynmem_alloc_Some:
  assumes "dm_inv d" and "dynmem_alloc_region sz ap ctrl d = Some (a, d')"
  shows "a = 0 \<and> d' = d \<or> (\<exists>pos. 0 < sz \<and> a = DYNMEM_START + pos * 2 ^ 20 \<and> pos + sz \<le> 8 \<and>
     (\<forall>p \<in> {pos ..< pos + sz}. \<not> used (dynmemmap_bitmap d) p) \<and> alloc_result d pos sz ap ctrl d')"
proof (cases "sz = 0")
  case True
  with assms(2) show ?thesis by (simp add: dynmem_alloc_region_def)
next
  case False
  then have sz: "0 < sz" by simp
  show ?thesis
  proof (rule dynmem_search_cases [OF assms(1) sz])
    assume "bitmap_block_search 0 sz (dynmemmap_bitmap d) 4 = Some (1, 0)"
    with assms(2) sz show ?thesis by (simp add: dynmem_alloc_region_def)
  next
    fix pos
    assume f: "bitmap_block_search 0 sz (dynmemmap_bitmap d) 4 = Some (0, pos)" "pos + sz \<le> 32"
      "\<forall>p \<in> {pos ..< pos + sz}. \<not> used (dynmemmap_bitmap d) p"
    show ?thesis
    proof (cases "pos + sz \<le> 8")
      case True
      from dynmem_alloc_at [OF assms(1) sz f(1) True, of ap ctrl] assms(2) f(3) sz True show ?thesis by auto
    next
      case False
      then have "8 < pos + sz" by simp
      from dynmem_alloc_oob [OF assms(1) sz f(1) this f(2), of ap ctrl] assms(2) show ?thesis by simp
    qed
  qed
qed


section \<open>References and release\<close>

abbreviation (input) page :: "nat \<Rightarrow> nat" where "page i \<equiv> DYNMEM_START + i * 2 ^ 20"

lemma addr_is_valid_in:
  assumes "dm_inv d" and "DYNMEM_START \<le> a" and "a < DYNMEM_END"
  shows "addr_is_valid d a True = Some (d_refcount (dynmemmap d ! addr2dindex a) \<noteq> 0)" and "addr2dindex a < 8"
proof -
  show *: "addr2dindex a < 8" using assms(2,3) by (simp add: addr2dindex_eq)
  show "addr_is_valid d a True = Some (d_refcount (dynmemmap d ! addr2dindex a) \<noteq> 0)"
    using assms * by (simp add: addr_is_valid_def dm_inv_def)
qed

lemma page_in: "i < 8 \<Longrightarrow> DYNMEM_START \<le> page i \<and> page i < DYNMEM_END"
  by simp

lemma dynmem_ref_page:
  assumes "dm_inv d" and "i < 8"
  shows "dynmem_ref (page i) d = Some (if refs d i = 0 then (- EINVAL, d)
    else (0, d\<lparr>dynmemmap := (dynmemmap d)[i := (dynmemmap d ! i)\<lparr>d_refcount := d_refcount (dynmemmap d ! i) + 1\<rparr>]\<rparr>))"
proof -
  have "addr2dindex (page i) = i" using assms(2) by (intro addr2dindex_page) simp
  with addr_is_valid_in(1) [OF assms(1), of "page i"] page_in [OF assms(2)] dm_invD(1) [OF assms(1)] assms(2)
  show ?thesis by (simp add: dynmem_ref_def unat_eq_0)
qed

text \<open>What a release leaves of the state, whatever the address: the bits and the memory stay.\<close>

definition freed_result :: "dynmem \<Rightarrow> nat \<Rightarrow> nat \<Rightarrow> dynmem \<Rightarrow> bool" where
  "freed_result d i n d' \<longleftrightarrow>
     dynmemmap d' = take i (dynmemmap d) @ replicate n desc0 @ drop (i + n) (dynmemmap d) \<and>
     length (dynmemmap_bitmap d') = length (dynmemmap_bitmap d) \<and>
     (\<forall>p. used (dynmemmap_bitmap d') p \<longleftrightarrow> used (dynmemmap_bitmap d) p \<or> i \<le> p \<and> p < i + n) \<and>
     mem d' = mem d \<and> dynmem_free d' = dynmem_free d + of_nat (n * 2 ^ 20) \<and>
     (\<exists>reg. mmu_log d' = mmu_log d @ [Unmap reg] \<and> num_pages reg = n)"

lemma nth_cleared: "i + n \<le> length m \<Longrightarrow> j < length m \<Longrightarrow>
   (take i m @ replicate n desc0 @ drop (i + n) m) ! j = (if i \<le> j \<and> j < i + n then desc0 else m ! j)"
  by (auto simp: nth_append min_def)

lemma freed_result_inv:
  assumes "dm_inv d" and "freed_result d i n d'" and "i + n \<le> 8"
  shows "dm_inv d'"
  using assms nth_cleared [of i n "dynmemmap d"]
  unfolding dm_inv_def freed_result_def by (auto simp: desc0_def split: if_splits)

lemma dynmem_free_last:
  assumes "dm_inv d" and "DYNMEM_START \<le> a" and "a < DYNMEM_END" and "refs d (addr2dindex a) = 1"
  shows "\<exists>n d'. count_links (dynmemmap d) (addr2dindex a) 1 = Some n \<and> addr2dindex a + n \<le> 8 \<and>
    dynmem_free_region a d = Some d' \<and> freed_result d (addr2dindex a) n d'"
proof -
  let ?i = "addr2dindex a"
  note v = addr_is_valid_in [OF assms(1-3)]
  have rc: "d_refcount (dynmemmap d ! ?i) = 1" by (rule unat_inj) (use assms(4) in simp)
  obtain k where k: "count_links (dynmemmap d) ?i 1 = Some (1 + k)" "?i + k < 8"
    using count_links_Some [of ?i "dynmemmap d" 1] v(2) assms(1) by (auto simp: dm_inv_def)
  have ue: "upd_end ?i (1 + k) = ?i + (1 + k)" using k(2) by (simp add: upd_end_def)
  obtain bm where bm: "bitmap_block_update (dynmemmap_bitmap d) 1 ?i (1 + k) 4 = Some (0, bm)"
    "length bm = length (dynmemmap_bitmap d)"
    "\<forall>p. used bm p \<longleftrightarrow> (if ?i \<le> p \<and> p < ?i + (1 + k) then True else used (dynmemmap_bitmap d) p)"
    using bitmap_block_update_used [of "1 + k" ?i "dynmemmap_bitmap d" 4 1] assms(1) k(2)
    unfolding ue by (auto simp: dm_inv_def szt_def)
  show ?thesis
    using v k bm rc dm_invD(1) [OF assms(1)]
    by (auto simp: dynmem_free_region_def update_dynmem_region_struct_def clear_descs_def Let_def
        freed_result_def)
qed

lemma dynmem_free_shared:
  assumes "dm_inv d" and "DYNMEM_START \<le> a" and "a < DYNMEM_END" and "refs d (addr2dindex a) \<noteq> 1"
  shows "dynmem_free_region a d = Some (if refs d (addr2dindex a) = 0 then d
     else d\<lparr>dynmemmap := (dynmemmap d)[addr2dindex a := (dynmemmap d ! addr2dindex a)\<lparr>d_refcount :=
              d_refcount (dynmemmap d ! addr2dindex a) - 1\<rparr>]\<rparr>)"
proof -
  have "refs d (addr2dindex a) = 0 \<or> d_refcount (dynmemmap d ! addr2dindex a) > 1"
    using assms(4) by (auto simp: word_less_nat_alt)
  with addr_is_valid_in [OF assms(1-3)] dm_invD(1) [OF assms(1)] show ?thesis
    by (auto simp: dynmem_free_region_def Let_def unat_eq_0)
qed

lemma upd_refs_inv:
  assumes "dm_inv d" and "i < 8" and "refs d i \<noteq> 0"
  shows "dm_inv (d\<lparr>dynmemmap := (dynmemmap d)[i := (dynmemmap d ! i)\<lparr>d_refcount := c\<rparr>]\<rparr>)"
  using assms by (auto simp: dm_inv_def nth_list_update)

text \<open>A release never leaves the tables, keeps the invariant and never makes a bit free.\<close>

lemma dynmem_free_total:
  assumes "dm_inv d" and "DYNMEM_START \<le> a" and "a < DYNMEM_END"
  shows "\<exists>d'. dynmem_free_region a d = Some d' \<and> dm_inv d' \<and> mem d' = mem d \<and>
     (\<forall>p. used (dynmemmap_bitmap d) p \<longrightarrow> used (dynmemmap_bitmap d') p)"
proof (cases "refs d (addr2dindex a) = 1")
  case True
  from dynmem_free_last [OF assms True] obtain n d' where d': "addr2dindex a + n \<le> 8"
    "dynmem_free_region a d = Some d'" "freed_result d (addr2dindex a) n d'" by blast
  from freed_result_inv [OF assms(1) d'(3,1)] d' show ?thesis by (simp add: freed_result_def)
next
  case False
  with dynmem_free_shared [OF assms False] upd_refs_inv [OF assms(1)] addr_is_valid_in(2) [OF assms]
    assms(1) show ?thesis by auto
qed

text \<open>The region at \<open>i\<close> of \<open>n\<close> pages as a counted object.\<close>

definition reg_held :: "nat \<Rightarrow> nat \<Rightarrow> dynmem \<Rightarrow> nat \<Rightarrow> bool" where
  "reg_held i n d k \<longleftrightarrow> dm_inv d \<and> region d i n \<and> refs d i = k \<and> k < 2 ^ 16"

definition reg_gone :: "nat \<Rightarrow> dynmem \<Rightarrow> bool" where
  "reg_gone i d \<longleftrightarrow> dm_inv d \<and> i < 8 \<and> refs d i = 0"

definition reg_put :: "nat \<Rightarrow> dynmem \<Rightarrow> (bool \<times> dynmem) option" where
  "reg_put i d = map_option (\<lambda>d'. (refs d i \<noteq> 0 \<and> refs d' i = 0, d')) (dynmem_free_region (page i) d)"

lemma region_upd_refs:
  "region d i n \<Longrightarrow> dm_inv d \<Longrightarrow> c \<noteq> 0 \<Longrightarrow>
   region (d\<lparr>dynmemmap := (dynmemmap d)[i := (dynmemmap d ! i)\<lparr>d_refcount := c\<rparr>]\<rparr>) i n"
  by (auto simp: region_def dm_inv_def nth_list_update unat_eq_0)

lemma region_first: "region d i n \<Longrightarrow> i < 8 \<and> refs d i \<noteq> 0"
  unfolding region_def by (metis add.right_neutral add_lessD1 le_add1 less_le_trans add_less_cancel_left)

interpretation dr: refcounted "reg_held i n" "reg_gone i" "2 ^ 16" "dynmem_ref (page i)" "reg_put i" for i n
proof
  fix d k
  assume h: "reg_held i n d k"
  then have d: "dm_inv d" "region d i n" "refs d i = k" "k < 2 ^ 16" "i < 8" "k \<noteq> 0"
    using region_first [of d i n] by (auto simp: reg_held_def)
  have ai: "addr2dindex (page i) = i" using d(5) by (intro addr2dindex_page) simp
  have wk: "d_refcount (dynmemmap d ! i) = of_nat k" using d(3) by auto
  show "0 < k" using d(6) by simp
  {
    assume "Suc k < 2 ^ 16"
    then have "unat (of_nat (Suc k) :: 16 word) = Suc k" by (intro unat_of_nat_small) simp
    moreover have "of_nat (Suc k) = (of_nat k + 1 :: 16 word)" by simp
    ultimately have u: "unat (of_nat k + 1 :: 16 word) = Suc k" by (simp only:)
    then have nz: "of_nat k + 1 \<noteq> (0 :: 16 word)" by auto
    show "\<exists>r q. dynmem_ref (page i) d = Some (r, q) \<and> (if r = 0 then reg_held i n q (Suc k) else reg_held i n q k)"
      using dynmem_ref_page [OF d(1,5)] d upd_refs_inv [OF d(1,5)] region_upd_refs [OF d(2,1) nz] u wk
        \<open>Suc k < 2 ^ 16\<close> dm_invD(1) [OF d(1)]
      by (auto simp: reg_held_def)
  }
  {
    assume "1 < k"
    then have "of_nat (k - 1) = (of_nat k - 1 :: 16 word)" by (simp add: of_nat_diff)
    moreover have "unat (of_nat (k - 1) :: 16 word) = k - 1" using d(4) by (intro unat_of_nat_small) simp
    ultimately have u: "unat (of_nat k - 1 :: 16 word) = k - 1" by (simp only:)
    then have nz: "of_nat k - 1 \<noteq> (0 :: 16 word)" using \<open>1 < k\<close> by auto
    show "\<exists>q. reg_put i d = Some (False, q) \<and> reg_held i n q (k - 1)"
      using dynmem_free_shared [OF d(1), of "page i"] page_in [OF d(5)] d ai
        upd_refs_inv [OF d(1,5)] region_upd_refs [OF d(2,1) nz] u wk \<open>1 < k\<close> dm_invD(1) [OF d(1)]
      by (auto simp: reg_held_def reg_put_def)
  }
next
  fix d
  assume h: "reg_held i n d 1"
  then have d: "dm_inv d" "region d i n" "refs d i = 1" "i < 8"
    using region_first [of d i n] by (auto simp: reg_held_def)
  have ai: "addr2dindex (page i) = i" using d(4) by (intro addr2dindex_page) simp
  from dynmem_free_last [OF d(1), of "page i"] page_in [OF d(4)] ai d(3)
  obtain m d' where m: "count_links (dynmemmap d) i 1 = Some m" "i + m \<le> 8"
    "dynmem_free_region (page i) d = Some d'" "freed_result d i m d'" by auto
  have "refs d' i = 0"
    using m(4) count_links_region [OF d(1,2)] m(1,2) d(1,2) nth_cleared [of i m "dynmemmap d" i]
    by (simp add: freed_result_def region_def dm_inv_def desc0_def)
  with m(3) freed_result_inv [OF d(1) m(4,2)] d(3,4) show "\<exists>q. reg_put i d = Some (True, q) \<and> reg_gone i q"
    by (simp add: reg_put_def reg_gone_def)
next
  fix d
  assume g: "reg_gone i d"
  then have d: "dm_inv d" "i < 8" "refs d i = 0" by (auto simp: reg_gone_def)
  have ai: "addr2dindex (page i) = i" using d(2) by (intro addr2dindex_page) simp
  show "\<exists>r. dynmem_ref (page i) d = Some (r, d) \<and> r \<noteq> 0"
    using dynmem_ref_page [OF d(1,2)] d(3) by simp
  show "reg_put i d = Some (False, d)"
    using dynmem_free_shared [OF d(1), of "page i"] page_in [OF d(2)] ai d(3) by (simp add: reg_put_def)
qed


section \<open>Reserved areas\<close>

text \<open>
  An area is skipped when it starts behind dynmem, or it lies inside, starts at a page and has at
  least one. (The block count is that of the size alone, so an area that starts inside a page loses
  its last page.)
\<close>

definition area_ok :: "nat \<times> nat \<Rightarrow> bool" where
  "area_ok ar \<longleftrightarrow> fst ar > DYNMEM_END \<or>
     DYNMEM_START \<le> fst ar \<and> fst ar mod 2 ^ 20 = 0 \<and> fst ar + 2 ^ 20 \<le> Suc (snd ar) \<and> snd ar < DYNMEM_END"

lemma area_base: "2 ^ 20 dvd DYNMEM_START"
  by simp

lemma mark_area_step:
  assumes "dm_inv d" and "DYNMEM_START \<le> s" and "s + 2 ^ 20 \<le> Suc e" and "e < DYNMEM_END"
    and "s mod 2 ^ 20 = 0"
  shows "\<exists>bm. bitmap_block_update (dynmemmap_bitmap d) 1 (addr2dindex s) (szt (e + 2 ^ 32 - s + 1) div 2 ^ 20) 4
      = Some (0, bm) \<and> length bm = 1 \<and>
    (\<forall>p. used (dynmemmap_bitmap d) p \<longrightarrow> used bm p) \<and>
    (\<forall>i. s \<le> page i \<and> page i + 2 ^ 20 \<le> Suc e \<longrightarrow> used bm i)"
proof -
  let ?pos = "(s - DYNMEM_START) div 2 ^ 20" and ?n = "(e - s + 1) div 2 ^ 20"
  have pos: "addr2dindex s = ?pos" using assms by (intro addr2dindex_eq) simp_all
  have "e + 2 ^ 32 - s + 1 = (e - s + 1) + 2 ^ 32" using assms by simp
  then have n: "szt (e + 2 ^ 32 - s + 1) div 2 ^ 20 = ?n" using assms by (simp add: szt_def mod_if Suc_diff_le)
  have n0: "0 < ?n" using assms by (simp add: div_greater_zero_iff)
  have "2 ^ 20 * ((s - DYNMEM_START) div 2 ^ 20) \<le> s - DYNMEM_START" "2 ^ 20 * ((e - s + 1) div 2 ^ 20) \<le> e - s + 1"
    by (rule times_div_less_eq_dividend)+
  then have le: "?pos + ?n \<le> 8" using assms(2-4) by simp
  then have ue: "upd_end ?pos ?n = ?pos + ?n" by (simp add: upd_end_def)
  obtain bm where bm: "bitmap_block_update (dynmemmap_bitmap d) 1 ?pos ?n 4 = Some (0, bm)" "length bm = 1"
    "\<forall>p. used bm p \<longleftrightarrow> (if ?pos \<le> p \<and> p < ?pos + ?n then True else used (dynmemmap_bitmap d) p)"
    using bitmap_block_update_used [OF n0, of ?pos "dynmemmap_bitmap d" 4 1] le assms(1)
    unfolding ue by (auto simp: dm_inv_def szt_def)
  have "?pos \<le> i \<and> i < ?pos + ?n" if "s \<le> page i" "page i + 2 ^ 20 \<le> Suc e" for i
  proof -
    from assms(2,5) obtain q where q: "s = DYNMEM_START + q * 2 ^ 20"
      by (metis add_diff_inverse_nat linorder_not_less dvd_diff_nat dvd_def mod_0_imp_dvd area_base mult.commute)
    have "(i - q + 1) * 2 ^ 20 \<le> e - s + 1" using that q by (simp add: algebra_simps)
    then have "i - q + 1 \<le> ?n" by (subst less_eq_div_iff_mult_less_eq) simp_all
    with that q show ?thesis by simp
  qed
  with bm pos n show ?thesis by auto
qed


lemma mark_areas_reserve:
  "dm_inv d \<Longrightarrow> \<forall>ar \<in> set areas. area_ok ar \<Longrightarrow>
   \<exists>d'. mark_areas areas d = Some d' \<and> dm_inv d' \<and> dynmemmap d' = dynmemmap d \<and>
     (\<forall>p. used (dynmemmap_bitmap d) p \<longrightarrow> used (dynmemmap_bitmap d') p) \<and>
     (\<forall>(s, e) \<in> set areas. \<forall>i. DYNMEM_START \<le> s \<and> s \<le> page i \<and> page i + 2 ^ 20 \<le> Suc e \<and> s \<le> DYNMEM_END
        \<longrightarrow> used (dynmemmap_bitmap d') i)"
proof (induction areas arbitrary: d)
  case (Cons ar areas)
  obtain s e where ar: "ar = (s, e)" by (cases ar)
  show ?case
  proof (cases "s > DYNMEM_END")
    case True
    with Cons ar show ?thesis by auto
  next
    case False
    with Cons.prems(2) ar have ok: "DYNMEM_START \<le> s" "s + 2 ^ 20 \<le> Suc e" "e < DYNMEM_END" "s mod 2 ^ 20 = 0"
      by (auto simp: area_ok_def)
    let ?b = "szt (e + 2 ^ 32 - s + 1)"
    obtain bm where bm: "bitmap_block_update (dynmemmap_bitmap d) 1 (addr2dindex s) (?b div 2 ^ 20) 4 = Some (0, bm)"
      "length bm = 1" "\<forall>p. used (dynmemmap_bitmap d) p \<longrightarrow> used bm p"
      "\<forall>i. s \<le> page i \<and> page i + 2 ^ 20 \<le> Suc e \<longrightarrow> used bm i"
      using mark_area_step [OF Cons.prems(1) ok] by blast
    let ?d = "d\<lparr>dynmemmap_bitmap := bm, dynmem_free := dynmem_free d - of_nat ?b,
      dynmem_reserved := dynmem_reserved d + of_nat ?b\<rparr>"
    have "dm_inv ?d" using Cons.prems(1) bm(2,3) by (simp add: dm_inv_def)
    from Cons.IH [OF this] Cons.prems(2) bm ok False ar show ?thesis
      by (auto simp: Let_def)
  qed
qed simp

section \<open>Cloning\<close>

lemma clone_source:
  assumes "dm_inv d" and "region d i n" and "refs d i < 65535"
  shows "\<exists>d1. dynmem_ref (page i) d = Some (0, d1) \<and> dm_inv d1 \<and> region d1 i n \<and> refs d1 i = Suc (refs d i) \<and>
     mem d1 = mem d \<and> update_dynmem_region_struct (page i) d1 =
       Some (0, d1\<lparr>dynmem_region := \<lparr>vaddr = page i, num_pages = n, rg_ap = ucast (d_ap (dynmemmap d1 ! i)),
                  rg_control = ucast (d_control (dynmemmap d1 ! i)), paddr = page i\<rparr>\<rparr>)"
proof -
  have i: "i < 8" "refs d i \<noteq> 0" using region_first [OF assms(2)] by auto
  have "reg_held i n d (refs d i)" using assms by (simp add: reg_held_def)
  from dr.get_st [OF this] assms(3) obtain r d1 where d1: "dynmem_ref (page i) d = Some (r, d1)"
    "if r = 0 then reg_held i n d1 (Suc (refs d i)) else reg_held i n d1 (refs d i)" by auto
  with dynmem_ref_page [OF assms(1) i(1)] i(2) have "r = 0" "mem d1 = mem d" by auto
  with d1 have *: "dm_inv d1" "region d1 i n" "refs d1 i = Suc (refs d i)" by (simp_all add: reg_held_def)
  have ai: "addr2dindex (page i) = i" using i(1) by (intro addr2dindex_page) simp
  from addr_is_valid_in [OF *(1), of "page i"] page_in [OF i(1)] *(3) ai
  have "addr_is_valid d1 (page i) True = Some True" by (auto simp: unat_eq_0 [symmetric])
  with count_links_region [OF *(1,2)] ai dm_invD(1) [OF *(1)] i(1)
  have "update_dynmem_region_struct (page i) d1 =
       Some (0, d1\<lparr>dynmem_region := \<lparr>vaddr = page i, num_pages = n, rg_ap = ucast (d_ap (dynmemmap d1 ! i)),
                  rg_control = ucast (d_control (dynmemmap d1 ! i)), paddr = page i\<rparr>\<rparr>)"
    by (simp add: update_dynmem_region_struct_def Let_def)
  with * d1(1) \<open>r = 0\<close> \<open>mem d1 = mem d\<close> show ?thesis by blast
qed

lemma dm_upd_simps [simp]:
  "dm_inv (d\<lparr>mem := f\<rparr>) = dm_inv d" "dm_inv (d\<lparr>dynmem_region := rg\<rparr>) = dm_inv d"
  "region (d\<lparr>mem := f\<rparr>) i n = region d i n" "region (d\<lparr>dynmem_region := rg\<rparr>) i n = region d i n"
  "alloc_result (d\<lparr>dynmem_region := rg\<rparr>) pos sz ap ctrl d' = alloc_result d pos sz ap ctrl d'"
  by (simp_all add: dm_inv_def region_def alloc_result_def)

lemma alloc_result_region:
  assumes "dm_inv d" and "alloc_result d pos sz ap ctrl d'" and "region d i n"
    and "\<forall>p \<in> {pos ..< pos + sz}. \<not> used (dynmemmap_bitmap d) p"
  shows "region d' i n" and "refs d' i = refs d i"
proof -
  have "dynmemmap d' ! (i + j) = dynmemmap d ! (i + j)" if "j < n" for j
  proof -
    have "i + j < 8" "refs d (i + j) \<noteq> 0" using assms(3) that by (auto simp: region_def)
    with dm_invD(3) [OF assms(1)] assms(4) have "\<not> (pos \<le> i + j \<and> i + j < pos + sz)"
      by (meson atLeastLessThan_iff)
    with assms(2) \<open>i + j < 8\<close> dm_invD(1) [OF assms(1)] show ?thesis by (auto simp: alloc_result_def)
  qed
  note eq = this
  from eq assms(3) show "region d' i n" by (simp add: region_def)
  from eq [of 0] assms(3) show "refs d' i = refs d i" by (simp add: region_def)
qed


lemma region_upd_other:
  assumes "region d p n" and "\<not> (p \<le> i \<and> i < p + n)"
  shows "region (d\<lparr>dynmemmap := (dynmemmap d)[i := x]\<rparr>) p n"
  using assms by (auto simp: region_def)

lemma clone_finds_room:
  assumes "dm_inv d" and "region d i n" and "s + n \<le> 8" and "refs d i < 65535"
    and "\<forall>p \<in> {s .. s + n}. \<not> used (dynmemmap_bitmap d) p"
  shows "\<exists>a d'. dynmem_clone (page i) d = Some (a, d') \<and> a \<noteq> 0"
proof -
  obtain d1 where d1: "dynmem_ref (page i) d = Some (0, d1)" "dm_inv d1"
    and u: "update_dynmem_region_struct (page i) d1 =
       Some (0, d1\<lparr>dynmem_region := \<lparr>vaddr = page i, num_pages = n, rg_ap = ucast (d_ap (dynmemmap d1 ! i)),
                  rg_control = ucast (d_control (dynmemmap d1 ! i)), paddr = page i\<rparr>\<rparr>)" (is "_ = Some (0, ?r)")
    using clone_source [OF assms(1,2,4)] by blast
  have i: "i < 8" "0 < n" using region_first [OF assms(2)] assms(2) by (auto simp: region_def)
  have bm: "dynmemmap_bitmap ?r = dynmemmap_bitmap d"
    using d1(1) dynmem_ref_page [OF assms(1) i(1)] by (auto split: if_splits)
  have inv: "dm_inv ?r" using d1(2) by simp
  then have l: "(4::nat) div 4 \<le> length (dynmemmap_bitmap ?r)" by (simp add: dm_inv_def)
  obtain pos where pos: "bitmap_block_search 0 n (dynmemmap_bitmap ?r) 4 = Some (0, pos)" "pos \<le> s"
    using bitmap_block_search_s_complete [OF l i(2) _ _ assms(5) [folded bm], of 0 0] assms(3)
    by (auto simp: bitmap_block_search_def)
  then have le: "pos + n \<le> 8" using assms(3) by simp
  from dynmem_alloc_at [OF inv i(2) pos(1) le] obtain d2 where d2: "dynmem_alloc_region n
     (rg_ap (dynmem_region ?r)) (rg_control (dynmem_region ?r)) ?r = Some (page pos, d2)"
     "alloc_result ?r pos n (rg_ap (dynmem_region ?r)) (rg_control (dynmem_region ?r)) d2" by blast
  have "dm_inv (d2\<lparr>mem := f\<rparr>)" for f using alloc_result_inv(1) [OF inv d2(2) i(2) le] by simp
  from dynmem_free_total [OF this] page_in [OF i(1)]
  obtain F where "\<And>f. dynmem_free_region (page i) (d2\<lparr>mem := f\<rparr>) = Some (F f)" by metis
  with d1(1) u d2(1) show ?thesis by (auto simp: dynmem_clone_def Let_def)
qed

lemma dynmem_alloc_room:
  assumes "dm_inv d" and "0 < sz" and "s + sz \<le> 8" and "\<forall>p \<in> {s .. s + sz}. \<not> used (dynmemmap_bitmap d) p"
  shows "\<exists>pos d'. dynmem_alloc_region sz ap ctrl d = Some (page pos, d') \<and> pos \<le> s \<and> dm_inv d'"
proof -
  have l: "(4::nat) div 4 \<le> length (dynmemmap_bitmap d)" using assms(1) by (simp add: dm_inv_def)
  obtain pos where pos: "bitmap_block_search 0 sz (dynmemmap_bitmap d) 4 = Some (0, pos)" "pos \<le> s"
    using bitmap_block_search_s_complete [OF l assms(2) _ _ assms(4), of 0 0] assms(3)
    by (auto simp: bitmap_block_search_def)
  then have le: "pos + sz \<le> 8" using assms(3) by simp
  from dynmem_alloc_at [OF assms(1,2) pos(1) le, of ap ctrl] alloc_result_inv(1) [OF assms(1) _ assms(2) le] pos(2)
  show ?thesis by blast
qed

section \<open>Properties\<close>

text \<open>
  A region handed out by \<open>dynmem_alloc_region\<close> lies inside dynmem, consists of pages that were
  not in use, is linked as one region with one reference on every page, and leaves every other
  descriptor as it was; the invariant of the tables is kept.
\<close>

theorem dynmem_alloc_fresh:
  assumes "dm_inv d" and "dynmem_alloc_region sz ap ctrl d = Some (a, d')" and "a \<noteq> 0"
  shows "\<exists>pos. a = 0x800000 + pos * 2 ^ 20 \<and> pos + sz \<le> 8 \<and> (\<forall>j \<in> {pos ..< pos + sz}. refs d j = 0) \<and>
     region d' pos sz \<and> (\<forall>j \<in> {pos ..< pos + sz}. refs d' j = 1) \<and>
     (\<forall>j < 8. j \<notin> {pos ..< pos + sz} \<longrightarrow> dynmemmap d' ! j = dynmemmap d ! j) \<and> dm_inv d'"
proof -
  from dynmem_alloc_Some [OF assms(1,2)] assms(3) obtain pos where pos: "0 < sz" "a = page pos" "pos + sz \<le> 8"
    "\<forall>p \<in> {pos ..< pos + sz}. \<not> used (dynmemmap_bitmap d) p" "alloc_result d pos sz ap ctrl d'"
    by blast
  have "\<forall>j \<in> {pos ..< pos + sz}. refs d j = 0"
  proof
    fix j assume j: "j \<in> {pos ..< pos + sz}"
    with pos(3) have "j < 8" by simp
    from dm_invD(3) [OF assms(1) this] pos(4) j show "refs d j = 0" by blast
  qed
  moreover have "\<forall>j \<in> {pos ..< pos + sz}. refs d' j = 1"
    using pos(3,5) assms(1) by (auto simp: alloc_result_def alloc_desc_def dm_inv_def)
  moreover have "\<forall>j < 8. j \<notin> {pos ..< pos + sz} \<longrightarrow> dynmemmap d' ! j = dynmemmap d ! j"
    using pos(5) assms(1) by (auto simp: alloc_result_def dm_inv_def)
  ultimately show ?thesis using pos alloc_result_inv [OF assms(1) pos(5,1,3)] by blast
qed

theorem dynmem_alloc_fresh_witness:
  "\<exists>d'. dynmem_alloc_region 2 1 0x60 (dynmem_boot (\<lambda>_. 0)) = Some (0x800000, d') \<and> region d' 0 2 \<and> dm_inv d'"
proof -
  have s: "bitmap_block_search 0 2 (dynmemmap_bitmap (dynmem_boot (\<lambda>_. 0))) 4 = Some (0, 0)"
    by (simp add: dynmem_boot_def alloc_eval)
  obtain d' where d': "dynmem_alloc_region 2 1 0x60 (dynmem_boot (\<lambda>_. 0)) = Some (0x800000, d')"
    using dynmem_alloc_at [OF dm_inv_boot _ s, of 1 "0x60"] by auto
  from dynmem_alloc_fresh [OF dm_inv_boot this] d' show ?thesis by auto
qed

text \<open>
  Allocation does not miss a hole. When \<open>sz\<close> pages of the table and the one behind them are
  free, \<open>dynmem_alloc_region\<close> returns a region that starts no later than that hole.
\<close>

theorem dynmem_alloc_succeeds:
  assumes "dm_inv d" and "0 < sz" and "s + sz \<le> 8" and "\<forall>p \<in> {s .. s + sz}. \<not> used (dynmemmap_bitmap d) p"
  shows "\<exists>pos d'. dynmem_alloc_region sz ap ctrl d = Some (0x800000 + pos * 2 ^ 20, d') \<and> pos \<le> s \<and> dm_inv d'"
  using dynmem_alloc_room [OF assms] .

theorem dynmem_alloc_succeeds_witness:
  "\<exists>pos d'. dynmem_alloc_region 3 1 0 (dynmem_boot (\<lambda>_. 0)) = Some (0x800000 + pos * 2 ^ 20, d') \<and> pos \<le> 0 \<and> dm_inv d'"
  by (rule dynmem_alloc_succeeds [OF dm_inv_boot]) (auto simp: dynmem_boot_def used_def)

text \<open>The state after the first allocation of two pages, for the examples below.\<close>

lemma two_pages: "\<exists>d. dynmem_alloc_region 2 1 0x60 (dynmem_boot c) = Some (0x800000, d) \<and> dm_inv d \<and> region d 0 2 \<and>
   refs d 0 = 1 \<and> mem d = c \<and> (\<forall>p. used (dynmemmap_bitmap d) p \<longleftrightarrow> p < 2)"
proof -
  have s: "bitmap_block_search 0 2 (dynmemmap_bitmap (dynmem_boot c)) 4 = Some (0, 0)"
    by (simp add: dynmem_boot_def alloc_eval)
  obtain d where d: "dynmem_alloc_region 2 1 0x60 (dynmem_boot c) = Some (0x800000, d)"
    "alloc_result (dynmem_boot c) 0 2 1 0x60 d"
    using dynmem_alloc_at [OF dm_inv_boot _ s, of 1 "0x60"] by auto
  have u: "\<not> used (dynmemmap_bitmap (dynmem_boot c)) p" for p by (auto simp: dynmem_boot_def used_def)
  have "refs d 0 = 1" "mem d = c" "\<forall>p. used (dynmemmap_bitmap d) p \<longleftrightarrow> p < 2"
    using d(2) by (simp_all add: alloc_result_def u numeral_2_eq_2) (simp_all add: dynmem_boot_def alloc_desc_def)
  with d(1) alloc_result_inv [OF dm_inv_boot d(2)] show ?thesis by simp
qed

text \<open>
  A region lives as long as its references. Over every sequence of \<open>dynmem_ref\<close> and
  \<open>dynmem_free_region\<close> calls on a region held by \<open>k\<close> references (fewer than the 16-bit counter can
  hold), the region is freed by the call that drops the last reference and by no other, and as long
  as it is not freed its pages stay linked and the count is the references held.
\<close>

theorem dynmem_region_lifetime:
  assumes "dm_inv d" and "region d i n" and "refs d i + length ops < 2 ^ 16"
  shows "\<exists>g k q. dr.run i ops d = Some (g, k, q) \<and> dm_inv q \<and>
     (k = 0 \<and> region q i n \<and> count_list ops False < refs d i + g \<and> refs q i = refs d i + g - count_list ops False
      \<or> k = 1 \<and> refs d i + g \<le> count_list ops False \<and> refs q i = 0)"
proof -
  have "reg_held i n d (refs d i)" using assms by (simp add: reg_held_def)
  from dr.run_counts [OF this assms(3)] obtain g k q where "dr.run i ops d = Some (g, k, q)"
    "k = 0 \<and> count_list ops False < refs d i + g \<and> reg_held i n q (refs d i + g - count_list ops False) \<or>
     k = 1 \<and> refs d i + g \<le> count_list ops False \<and> reg_gone i q" by blast
  then show ?thesis by (intro exI [of _ g] exI [of _ k] exI [of _ q]) (auto simp: reg_held_def reg_gone_def)
qed

theorem dynmem_region_lifetime_witness:
  "\<exists>d q. region d 0 2 \<and> dr.run 0 [True, False, False] d = Some (1, 1, q) \<and> refs q 0 = 0"
proof -
  obtain d where d: "dm_inv d" "region d 0 2" "refs d 0 = 1" using two_pages by blast
  have "refs d 0 + length [True, False, False] < 2 ^ 16" "count_list [True, False, False] False = 2"
    by (simp_all add: d(3))
  from dynmem_region_lifetime [OF d(1,2) this(1), unfolded this(2) d(3)]
  obtain g k q where r: "dr.run 0 [True, False, False] d = Some (g, k, q)"
    "k = 0 \<and> 2 < 1 + g \<and> refs q 0 = 1 + g - 2 \<or> k = 1 \<and> 1 + g \<le> 2 \<and> refs q 0 = 0" by blast
  have "g = 1" using r(1) [unfolded dr.run.simps] d dynmem_ref_page [OF d(1), of 0]
    by (auto split: Option.bind_splits if_splits)
  with r d(2) show ?thesis by auto
qed

text \<open>
  \<open>dynmem_clone\<close> of a region returns a new region of the same number of pages with the same
  contents, on pages that were not in use, and leaves the source region and its reference count as
  they were.
\<close>

theorem dynmem_clone_copies:
  assumes "dm_inv d" and "region d i n" and "refs d i < 65535"
    and "dynmem_clone (0x800000 + i * 2 ^ 20) d = Some (a, d')" and "a \<noteq> 0"
  shows "\<exists>pos. a = 0x800000 + pos * 2 ^ 20 \<and> region d' pos n \<and> (\<forall>j \<in> {pos ..< pos + n}. \<not> used (dynmemmap_bitmap d) j) \<and>
     (\<forall>x < n * 2 ^ 20. mem d' (a + x) = mem d (0x800000 + i * 2 ^ 20 + x)) \<and>
     region d' i n \<and> refs d' i = refs d i \<and> dm_inv d'"
proof -
  obtain d1 where d1: "dynmem_ref (page i) d = Some (0, d1)" "dm_inv d1" "region d1 i n"
    "refs d1 i = Suc (refs d i)" "mem d1 = mem d"
    and u: "update_dynmem_region_struct (page i) d1 =
       Some (0, d1\<lparr>dynmem_region := \<lparr>vaddr = page i, num_pages = n, rg_ap = ucast (d_ap (dynmemmap d1 ! i)),
                  rg_control = ucast (d_control (dynmemmap d1 ! i)), paddr = page i\<rparr>\<rparr>)" (is "_ = Some (0, ?r)")
    using clone_source [OF assms(1-3)] by blast
  have i: "i < 8" using region_first [OF assms(2)] by simp
  have bm: "dynmemmap_bitmap d1 = dynmemmap_bitmap d"
    using d1(1) dynmem_ref_page [OF assms(1) i] by (auto split: if_splits)
  define cp where "cp d2 = d2\<lparr>mem := memcpy a (page i) (n * 2 ^ 20) (mem d2)\<rparr>" for d2 :: dynmem
  obtain d2 where d2: "dynmem_alloc_region n (rg_ap (dynmem_region ?r)) (rg_control (dynmem_region ?r)) ?r = Some (a, d2)"
    "dynmem_free_region (page i) (cp d2) = Some d'"
    using assms(4,5) d1(1) u
    by (auto simp: dynmem_clone_def Let_def cp_def split: Option.bind_splits if_splits)
  from dynmem_alloc_Some [OF _ d2(1)] d1(2) assms(5) obtain pos where pos: "0 < n" "a = page pos" "pos + n \<le> 8"
    "\<forall>p \<in> {pos ..< pos + n}. \<not> used (dynmemmap_bitmap d1) p"
    "alloc_result d1 pos n (rg_ap (dynmem_region ?r)) (rg_control (dynmem_region ?r)) d2"
    by auto
  note inv2 = alloc_result_inv [OF d1(2) pos(5,1,3)]
  note src2 = alloc_result_region [OF d1(2) pos(5) d1(3) pos(4)]
  have ni: "\<not> (pos \<le> i \<and> i < pos + n)" using pos(4) dm_invD(3) [OF d1(2) i] d1(4) by auto
  have ai: "addr2dindex (page i) = i" using i by (intro addr2dindex_page) simp
  have cpi: "dm_inv (cp d2)" "refs (cp d2) i = Suc (refs d i)" "dynmemmap (cp d2) = dynmemmap d2"
    using inv2(1) src2(2) d1(4) by (simp_all add: cp_def)
  let ?c = "d_refcount (dynmemmap d2 ! i) - 1"
  have d': "d' = (cp d2)\<lparr>dynmemmap := (dynmemmap d2)[i := (dynmemmap d2 ! i)\<lparr>d_refcount := ?c\<rparr>]\<rparr>"
    using dynmem_free_shared [OF cpi(1), of "page i"] page_in [OF i] ai cpi(2,3) d2(2) region_first [OF assms(2)]
    by (auto split: if_splits)
  have rc: "unat ?c = refs d i" using src2(2) d1(4) unat_minus_one [of "d_refcount (dynmemmap d2 ! i)"] by fastforce
  then have nz: "?c \<noteq> 0" using region_first [OF assms(2)] by auto
  have "pos \<le> i \<or> i + n \<le> pos"
  proof (rule ccontr)
    assume "\<not> (pos \<le> i \<or> i + n \<le> pos)"
    then have "pos - i < n" "i + (pos - i) = pos" by linarith+
    then have "refs d1 pos \<noteq> 0" "pos < 8" using d1(3) pos(3) unfolding region_def by fastforce+
    with dm_invD(3) [OF d1(2)] have "used (dynmemmap_bitmap d1) pos" by blast
    with pos(1,4) show False by simp
  qed
  then have "page pos \<le> page i \<or> page i + n * 2 ^ 20 \<le> page pos" by auto
  note cpy = memcpy_eq [OF this, folded pos(2)]
  have "mem d2 = mem d" using pos(5) d1(5) by (simp add: alloc_result_def)
  moreover have "mem d' = mem (cp d2)" by (simp add: d')
  moreover have "mem (cp d2) = memcpy a (page i) (n * 2 ^ 20) (mem d2)" by (simp add: cp_def)
  ultimately have "\<forall>x < n * 2 ^ 20. mem d' (a + x) = mem d (page i + x)"
    by (simp only: cpy) (simp add: phys_copy_def)
  moreover have "region d' i n"
    using region_upd_refs [OF src2(1) inv2(1) nz] by (simp add: d' cp_def region_def)
  moreover have "region d' pos n"
    using region_upd_other [OF inv2(2) ni] by (simp add: d' cp_def region_def)
  moreover have "refs d' i = refs d i" using rc i dm_invD(1) [OF inv2(1)] by (simp add: d')
  moreover have "dm_inv d'" using upd_refs_inv [OF cpi(1) i] cpi by (simp add: d')
  ultimately show ?thesis using pos(2) pos(4) [unfolded bm] by blast
qed


theorem dynmem_clone_copies_witness:
  "\<exists>d a d'. dynmem_clone 0x800000 d = Some (a, d') \<and> a \<noteq> 0 \<and> mem d' (a + 5) = mem d 0x800005 \<and> mem d 0x800005 = 5"
proof -
  obtain d where d: "dm_inv d" "region d 0 2" "refs d 0 = 1" "mem d = (\<lambda>a. of_nat (a - 0x800000))"
    "\<forall>p. used (dynmemmap_bitmap d) p \<longleftrightarrow> p < 2"
    using two_pages [of "\<lambda>a. of_nat (a - 0x800000)"] by blast
  have "\<forall>p \<in> {3 .. 3 + 2}. \<not> used (dynmemmap_bitmap d) p" by (simp add: d(5))
  from clone_finds_room [OF d(1,2) _ _ this] d(3) obtain a d' where c: "dynmem_clone 0x800000 d = Some (a, d')" "a \<noteq> 0"
    by auto
  have "\<forall>x < 2 * 2 ^ 20. mem d' (a + x) = mem d (0x800000 + 0 * 2 ^ 20 + x)"
    using dynmem_clone_copies [OF d(1,2), of a d'] c d(3) by auto
  then have "mem d' (a + 5) = mem d 0x800005" by (auto dest: spec [of _ 5])
  moreover have "mem d 0x800005 = 5" by (simp add: d(4))
  ultimately show ?thesis using c by blast
qed

text \<open>
  Areas of the linker set \<open>dynmem_reserved\<close> that lie inside dynmem and start at a page are never
  handed out: after \<open>dynmem_init\<close> every page they cover is marked, and no allocation returns it.
\<close>

theorem dynmem_reserved_never_allocated:
  assumes "\<forall>ar \<in> set areas. area_ok ar" and "(s, e) \<in> set areas" and "s \<le> DYNMEM_END"
  shows "\<exists>d. dynmem_init areas (dynmem_boot c) = Some d \<and> dm_inv d \<and>
     (\<forall>i. s \<le> 0x800000 + i * 2 ^ 20 \<and> 0x800000 + i * 2 ^ 20 + 2 ^ 20 \<le> Suc e \<longrightarrow>
        (\<forall>sz ap ctrl a d'. dynmem_alloc_region sz ap ctrl d = Some (a, d') \<longrightarrow> a \<noteq> 0 \<longrightarrow>
           \<not> (a \<le> 0x800000 + i * 2 ^ 20 \<and> 0x800000 + i * 2 ^ 20 < a + sz * 2 ^ 20)))"
proof -
  have inv: "dm_inv ((dynmem_boot c)\<lparr>dynmem_nr_reserved := length areas\<rparr>)"
    using dm_inv_boot [of c] by (simp add: dm_inv_def)
  from mark_areas_reserve [OF this assms(1)] obtain d where d: "dynmem_init areas (dynmem_boot c) = Some d" "dm_inv d"
    and u: "\<forall>(s, e) \<in> set areas. \<forall>i. DYNMEM_START \<le> s \<and> s \<le> page i \<and> page i + 2 ^ 20 \<le> Suc e \<and> s \<le> DYNMEM_END
        \<longrightarrow> used (dynmemmap_bitmap d) i"
    by (auto simp: dynmem_init_def mark_reserved_areas_def)
  have "DYNMEM_START \<le> s" using assms by (auto simp: area_ok_def)
  with u assms(2,3) have u': "used (dynmemmap_bitmap d) i" if "s \<le> page i" "page i + 2 ^ 20 \<le> Suc e" for i
    using that by blast
  have "\<not> (a \<le> page i \<and> page i < a + sz * 2 ^ 20)"
    if "used (dynmemmap_bitmap d) i" "dynmem_alloc_region sz ap ctrl d = Some (a, d')" "a \<noteq> 0" for i sz ap ctrl a d'
  proof
    assume r: "a \<le> page i \<and> page i < a + sz * 2 ^ 20"
    from dynmem_alloc_Some [OF d(2) that(2)] that(3) obtain pos where pos: "a = page pos"
      "\<forall>p \<in> {pos ..< pos + sz}. \<not> used (dynmemmap_bitmap d) p" by blast
    from r pos(1) have "i \<in> {pos ..< pos + sz}" by simp
    with pos(2) that(1) show False by blast
  qed
  with d u' show ?thesis by blast
qed

theorem dynmem_reserved_never_allocated_witness:
  "\<exists>d. dynmem_init [(0x20000000, 0x20FFFFFF), (0x800000, 0x8FFFFF)] (dynmem_boot (\<lambda>_. 0)) = Some d \<and>
     (\<forall>sz ap ctrl a d'. dynmem_alloc_region sz ap ctrl d = Some (a, d') \<longrightarrow> a \<noteq> 0 \<longrightarrow> a \<noteq> 0x800000)"
proof -
  let ?areas = "[(0x20000000, 0x20FFFFFF), (0x800000, 0x8FFFFF)] :: (nat \<times> nat) list"
  have "\<forall>ar \<in> set ?areas. area_ok ar" by (simp add: area_ok_def)
  from dynmem_reserved_never_allocated [OF this, of "0x800000" "0x8FFFFF" "\<lambda>_. 0"]
  obtain d where d: "dynmem_init ?areas (dynmem_boot (\<lambda>_. 0)) = Some d"
    and all: "\<forall>i. 0x800000 \<le> 0x800000 + i * 2 ^ 20 \<and> 0x800000 + i * 2 ^ 20 + 2 ^ 20 \<le> Suc 0x8FFFFF \<longrightarrow>
        (\<forall>sz ap ctrl a d'. dynmem_alloc_region sz ap ctrl d = Some (a, d') \<longrightarrow> a \<noteq> 0 \<longrightarrow>
           \<not> (a \<le> 0x800000 + i * 2 ^ 20 \<and> 0x800000 + i * 2 ^ 20 < a + sz * 2 ^ 20))"
    by auto
  have n: "\<not> (a \<le> 0x800000 \<and> 0x800000 < a + sz * 2 ^ 20)"
    if "dynmem_alloc_region sz ap ctrl d = Some (a, d')" "a \<noteq> 0" for sz ap ctrl a d'
    using all [rule_format, of 0 sz ap ctrl a d'] that by simp
  have "a \<noteq> 0x800000" if "dynmem_alloc_region sz ap ctrl d = Some (a, d')" "a \<noteq> 0" for sz ap ctrl a d'
    using n [OF that] that by (auto simp: dynmem_alloc_region_def split: if_splits)
  with d show ?thesis by blast
qed

section \<open>Defects\<close>

text \<open>
  Freed memory is never used again: \<open>dynmem_free_region\<close> marks the bits of the region with 1
  instead of 0, so the pages of a freed region are neither referenced nor free.
\<close>

theorem dynmem_freed_stays_used:
  assumes "dm_inv d" and "region d i n" and "refs d i = 1"
  shows "\<exists>d'. dynmem_free_region (0x800000 + i * 2 ^ 20) d = Some d' \<and>
     (\<forall>j \<in> {i ..< i + n}. refs d' j = 0 \<and> used (dynmemmap_bitmap d') j)"
proof -
  have i: "i < 8" using region_first [OF assms(2)] by simp
  have ai: "addr2dindex (page i) = i" using i by (intro addr2dindex_page) simp
  from dynmem_free_last [OF assms(1), of "page i"] page_in [OF i] ai assms(3) count_links_region [OF assms(1,2)]
  obtain d' where d': "i + n \<le> 8" "dynmem_free_region (page i) d = Some d'" "freed_result d i n d'" by auto
  have "refs d' j = 0" if "j \<in> {i ..< i + n}" for j
    using d'(1,3) that nth_cleared [of i n "dynmemmap d" j] dm_invD(1) [OF assms(1)]
    by (auto simp: freed_result_def desc0_def)
  with d' show ?thesis by (auto simp: freed_result_def)
qed

text \<open>
  The map has 32 bits for 8 pages: when all pages are in use, the search finds the bits behind
  them and the descriptor of a page that does not exist is written.
\<close>

theorem dynmem_exhausted_leaves_table:
  assumes "dm_inv d" and "dynmemmap_bitmap d = [0xFF]"
  shows "dynmem_alloc_region 1 ap ctrl d = None"
proof -
  have "bitmap_block_search 0 1 (dynmemmap_bitmap d) 4 = Some (0, 8)"
    by (simp add: assms(2) alloc_eval)
  from dynmem_alloc_oob [OF assms(1) _ this] show ?thesis by simp
qed

text \<open>The end of dynmem passes the range check and reads the descriptor behind the table.\<close>

theorem dynmem_end_passes_range_check: "dm_inv d \<Longrightarrow> addr_is_valid d 0x1000000 True = None"
  by (simp add: addr_is_valid_def addr2dindex_eq dm_inv_def)

text \<open>
  When no memory is left for the copy, \<open>dynmem_clone\<close> returns \<open>NULL\<close> and keeps the reference that it
  took to protect the source.
\<close>

theorem dynmem_clone_leaks_reference:
  assumes "dm_inv d" and "region d i n" and "refs d i < 65535"
    and "bitmap_block_search 0 n (dynmemmap_bitmap d) 4 = Some (1, 0)"
  shows "\<exists>d'. dynmem_clone (0x800000 + i * 2 ^ 20) d = Some (0, d') \<and> refs d' i = Suc (refs d i)"
proof -
  obtain d1 where d1: "dynmem_ref (page i) d = Some (0, d1)" "refs d1 i = Suc (refs d i)"
    and u: "update_dynmem_region_struct (page i) d1 =
       Some (0, d1\<lparr>dynmem_region := \<lparr>vaddr = page i, num_pages = n, rg_ap = ucast (d_ap (dynmemmap d1 ! i)),
                  rg_control = ucast (d_control (dynmemmap d1 ! i)), paddr = page i\<rparr>\<rparr>)"
    using clone_source [OF assms(1-3)] by blast
  have "dynmemmap_bitmap d1 = dynmemmap_bitmap d"
    using d1(1) dynmem_ref_page [OF assms(1), of i] region_first [OF assms(2)] by (auto split: if_splits)
  with d1 u assms(4) show ?thesis
    by (auto simp: dynmem_clone_def dynmem_alloc_region_def Let_def)
qed

end
