(* ===== verification/Kmalloc.thy ===== *)
theory Kmalloc
  imports Dynmem Queue_R
begin

text \<open>
  The kernel heap (\<^verbatim>\<open>kern/kmalloc.c\<close>). Blocks are a doubly linked list of headers of 24 bytes, each
  in front of its data, in regions of \<open>dynmem_alloc_region\<close>. The headers are kept in \<open>mblocks\<close>, a
  store from addresses to headers: pointers are addresses, 0 is \<open>NULL\<close>, and a read through a pointer
  where no header was ever written is \<open>None\<close>. The bytes of the data are in the physical memory of
  the region allocator. Headers and data are kept apart, so the model says nothing about clients that
  write outside their blocks. Every function runs under \<open>kmalloc_giant_lock\<close> where it changes the
  list and is one step here.
\<close>

section \<open>The code\<close>

definition memalign :: "nat \<Rightarrow> nat" where
  "memalign sz = szt (sz + (4 - sz mod 4) mod 4)"

abbreviation (input) KM_SIGNATURE_VALID :: u32 where "KM_SIGNATURE_VALID \<equiv> 0xBAADF00D"
abbreviation (input) KM_SIGNATURE_INVALID :: u32 where "KM_SIGNATURE_INVALID \<equiv> 0xDEADF00D"
abbreviation (input) MBLOCK_SIZE :: nat where "MBLOCK_SIZE \<equiv> 24"
abbreviation (input) MIN_SPLIT :: nat where "MIN_SPLIT \<equiv> 28"
abbreviation (input) MMU_AP_RWNA :: u32 where "MMU_AP_RWNA \<equiv> 1"
abbreviation (input) MMU_CTRL_MEMTYPE_WB :: u32 where "MMU_CTRL_MEMTYPE_WB \<equiv> 0x60"

record mblock =
  signature :: u32
  bsize :: nat
  mb_next :: nat
  mb_prev :: nat
  refcount :: int
  mb_ptr :: nat

record kmalloc_stat =
  kms_mem_res :: u32
  kms_mem_max :: u32
  kms_mem_alloc :: u32
  kms_mem_alloc_max :: u32

record kheap =
  mblocks :: "nat \<Rightarrow> mblock option"
  kmalloc_base :: nat
  kstat :: kmalloc_stat
  lazy_free_queue :: queue_cb
  interrupts :: bool
  dyn :: dynmem

definition update_stat_up_res :: "nat \<Rightarrow> kmalloc_stat \<Rightarrow> kmalloc_stat" where
  "update_stat_up_res amount st =
     (let act = kms_mem_res st + of_nat amount
      in st\<lparr>kms_mem_res := act, kms_mem_max := (if act > kms_mem_max st then act else kms_mem_max st)\<rparr>)"

definition update_stat_up_alloc :: "nat \<Rightarrow> kmalloc_stat \<Rightarrow> kmalloc_stat" where
  "update_stat_up_alloc amount st =
     (let act = kms_mem_alloc st + of_nat amount
      in st\<lparr>kms_mem_alloc := act,
            kms_mem_alloc_max := (if act > kms_mem_alloc_max st then act else kms_mem_alloc_max st)\<rparr>)"

definition update_stat_down_alloc :: "nat \<Rightarrow> kmalloc_stat \<Rightarrow> kmalloc_stat" where
  "update_stat_down_alloc amount st = st\<lparr>kms_mem_alloc := kms_mem_alloc st - of_nat amount\<rparr>"

text \<open>A write through a pointer to a header.\<close>

definition upd_mb :: "nat \<Rightarrow> (mblock \<Rightarrow> mblock) \<Rightarrow> kheap \<Rightarrow> kheap option" where
  "upd_mb p f k = do { b \<leftarrow> mblocks k p; Some (k\<lparr>mblocks := (mblocks k)(p \<mapsto> f b)\<rparr>) }"

text \<open>The header that \<open>extend\<close> and \<open>split_mblock\<close> write.\<close>

definition new_mblock :: "nat \<Rightarrow> nat \<Rightarrow> nat \<Rightarrow> nat \<Rightarrow> mblock" where
  "new_mblock b sz nxt prv = \<lparr>signature = KM_SIGNATURE_VALID, bsize = sz, mb_next = nxt, mb_prev = prv,
     refcount = 0, mb_ptr = b + MBLOCK_SIZE\<rparr>"

definition put_mb :: "nat \<Rightarrow> mblock \<Rightarrow> kheap \<Rightarrow> kheap" where
  "put_mb p b k = k\<lparr>mblocks := (mblocks k)(p \<mapsto> b)\<rparr>"

definition extend :: "nat \<Rightarrow> nat \<Rightarrow> kheap \<Rightarrow> (nat \<times> kheap) option" where
  "extend lst s0 k = do {
     let s = szt (s0 + MBLOCK_SIZE);
     let s_mbytes = s div 2 ^ 20 + (if s mod 2 ^ 20 \<noteq> 0 then 1 else 0);
     (b, d) \<leftarrow> dynmem_alloc_region s_mbytes MMU_AP_RWNA MMU_CTRL_MEMTYPE_WB (dyn k);
     let k = k\<lparr>dyn := d\<rparr>;
     if b = 0 then Some (0, k)
     else do {
       let k = k\<lparr>kstat := update_stat_up_res (s_mbytes * 2 ^ 20) (kstat k)\<rparr>;
       let k = put_mb b (new_mblock b (szt (s + (2 ^ 32 - MBLOCK_SIZE))) 0 lst) k;
       k \<leftarrow> (if lst \<noteq> 0 then upd_mb lst (\<lambda>m. m\<lparr>mb_next := b\<rparr>) k else Some k);
       let memfree_b = szt (s_mbytes * 2 ^ 20 + 2 ^ 32 - s);
       if memfree_b \<noteq> 0 then do {
         let bl = b + s;
         let k = put_mb bl (new_mblock bl (szt (memfree_b + (2 ^ 32 - MBLOCK_SIZE))) 0 b) k;
         k \<leftarrow> upd_mb b (\<lambda>m. m\<lparr>mb_next := bl\<rparr>) k;
         Some (b, k) }
       else Some (b, k) } }"

text \<open>
  The loop of \<open>find_mblock\<close> from block \<open>b\<close> on: the block found (0 if none) and \<open>*last\<close>. The list
  may be circular in a damaged heap, then there is no result.
\<close>

partial_function (option) find_mblock :: "(nat \<Rightarrow> mblock option) \<Rightarrow> nat \<Rightarrow> nat \<Rightarrow> nat \<Rightarrow> (nat \<times> nat) option" where
  "find_mblock h sz lst b =
     (case h b of
        None \<Rightarrow> None
      | Some m \<Rightarrow>
          if mb_ptr m = 0 then Some (0, lst)
          else if refcount m = 0 \<and> bsize m \<ge> sz then Some (b, b)
          else if mb_next m = 0 then Some (0, b)
          else find_mblock h sz b (mb_next m))"

definition split_mblock :: "nat \<Rightarrow> nat \<Rightarrow> kheap \<Rightarrow> kheap option" where
  "split_mblock b s k = do {
     m \<leftarrow> mblocks k b;
     let nb = b + MBLOCK_SIZE + s;
     let k = put_mb nb (new_mblock nb (szt (bsize m + (2 ^ 33 - s - MBLOCK_SIZE))) (mb_next m) b) k;
     k \<leftarrow> upd_mb b (\<lambda>m. m\<lparr>bsize := s, mb_next := nb\<rparr>) k;
     if mb_next m \<noteq> 0 then upd_mb (mb_next m) (\<lambda>m. m\<lparr>mb_prev := nb\<rparr>) k else Some k }"

definition merge :: "nat \<Rightarrow> kheap \<Rightarrow> kheap option" where
  "merge b k = do {
     m \<leftarrow> mblocks k b;
     if mb_next m = 0 then Some k
     else do {
       n \<leftarrow> mblocks k (mb_next m);
       if refcount n \<noteq> 0 then Some k
       else if szt (b + MBLOCK_SIZE + bsize m) \<noteq> mb_next m then Some k
       else do {
         k \<leftarrow> upd_mb (mb_next m) (\<lambda>n. n\<lparr>signature := KM_SIGNATURE_INVALID\<rparr>) k;
         k \<leftarrow> upd_mb b (\<lambda>m. m\<lparr>bsize := szt (bsize m + MBLOCK_SIZE + bsize n), mb_next := mb_next n\<rparr>) k;
         if mb_next n \<noteq> 0 then upd_mb (mb_next n) (\<lambda>m. m\<lparr>mb_prev := b\<rparr>) k else Some k } } }"

abbreviation (input) get_mblock :: "nat \<Rightarrow> nat" where "get_mblock p \<equiv> p - MBLOCK_SIZE"

definition valid_addr :: "nat \<Rightarrow> kheap \<Rightarrow> bool option" where
  "valid_addr p k =
     (if p = 0 then Some False
      else if kmalloc_base k = 0 then Some False
      else do { m \<leftarrow> mblocks k (get_mblock p); Some (mb_ptr m = p \<and> signature m = KM_SIGNATURE_VALID) })"

definition kmalloc :: "nat \<Rightarrow> kheap \<Rightarrow> (nat \<times> kheap) option" where
  "kmalloc sz k = do {
     let s = memalign sz;
     (b, k) \<leftarrow> (if kmalloc_base k \<noteq> 0 then do {
         (b, lst) \<leftarrow> find_mblock (mblocks k) s (kmalloc_base k) (kmalloc_base k);
         if b \<noteq> 0 then do {
           m \<leftarrow> mblocks k b;
           if bsize m - s \<ge> MIN_SPLIT then do { k \<leftarrow> split_mblock b s k; Some (b, k) } else Some (b, k) }
         else extend lst s k }
       else do {
         (b, k) \<leftarrow> extend 0 s k;
         Some (b, if b \<noteq> 0 then k\<lparr>kmalloc_base := b\<rparr> else k) });
     if b = 0 then Some (0, k)
     else do {
       m \<leftarrow> mblocks k b;
       let k = k\<lparr>kstat := update_stat_up_alloc (bsize m) (kstat k)\<rparr>;
       k \<leftarrow> upd_mb b (\<lambda>m. m\<lparr>refcount := 1\<rparr>) k;
       Some (b + MBLOCK_SIZE, k) } }"

definition zero_mem :: "nat \<Rightarrow> nat \<Rightarrow> kheap \<Rightarrow> kheap" where
  "zero_mem p n k = k\<lparr>dyn := (dyn k)\<lparr>mem := memset p 0 n (mem (dyn k))\<rparr>\<rparr>"

definition kcalloc :: "nat \<Rightarrow> nat \<Rightarrow> kheap \<Rightarrow> (nat \<times> kheap) option" where
  "kcalloc nelem elsize k = do {
     (p, k) \<leftarrow> kmalloc (szt (nelem * elsize)) k;
     Some (p, if p \<noteq> 0 then zero_mem p (memalign (szt (nelem * elsize))) k else k) }"

definition kzalloc :: "nat \<Rightarrow> kheap \<Rightarrow> (nat \<times> kheap) option" where
  "kzalloc sz k = do {
     (p, k) \<leftarrow> kmalloc sz k;
     Some (p, if p \<noteq> 0 then zero_mem p (memalign sz) k else k) }"

definition kzalloc_crit :: "nat \<Rightarrow> kheap \<Rightarrow> (nat \<times> kheap) option" where
  "kzalloc_crit sz k = do {
     (p, k) \<leftarrow> kmalloc sz k;
     if p \<noteq> 0 then Some (p, zero_mem p (memalign sz) k) else None }"

definition kfree :: "nat \<Rightarrow> kheap \<Rightarrow> kheap option" where
  "kfree p k = do {
     valid \<leftarrow> valid_addr p k;
     if \<not> valid then Some k
     else do {
       let b = get_mblock p;
       m \<leftarrow> mblocks k b;
       if refcount m \<le> 0 then Some k
       else do {
         k \<leftarrow> upd_mb b (\<lambda>m. m\<lparr>refcount := refcount m - 1\<rparr>) k;
         if refcount m - 1 > 0 then Some k
         else do {
           let k = k\<lparr>kstat := update_stat_down_alloc (bsize m) (kstat k)\<rparr>;
           (b, k) \<leftarrow> (if mb_prev m \<noteq> 0 then do {
               pm \<leftarrow> mblocks k (mb_prev m);
               if refcount pm = 0 then do { k \<leftarrow> merge (mb_prev m) k; Some (mb_prev m, k) } else Some (b, k) }
             else Some (b, k));
           m \<leftarrow> mblocks k b;
           if mb_next m \<noteq> 0 then merge b k
           else do {
             k \<leftarrow> (if mb_prev m \<noteq> 0 then upd_mb (mb_prev m) (\<lambda>m. m\<lparr>mb_next := 0\<rparr>) k
                  else Some (k\<lparr>kmalloc_base := 0\<rparr>));
             d \<leftarrow> dynmem_free_region b (dyn k);
             Some (k\<lparr>dyn := d\<rparr>) } } } } }"

text \<open>A pointer as the four bytes of the queue's elements, little endian.\<close>

definition ptr_bytes :: "nat \<Rightarrow> u8 list" where
  "ptr_bytes p = map (\<lambda>i. of_nat (p div 256 ^ i)) [0..<4]"

definition bytes_ptr :: "u8 list \<Rightarrow> nat" where
  "bytes_ptr bs = (\<Sum>i<4. unat (bs ! i) * 256 ^ i)"

definition kfree_lazy :: "nat \<Rightarrow> kheap \<Rightarrow> kheap option" where
  "kfree_lazy p k = do {
     let istate = interrupts k;
     (rc, q) \<leftarrow> queue_push (lazy_free_queue k) (ptr_bytes p);
     Some (k\<lparr>lazy_free_queue := q, interrupts := istate\<rparr>) }"

definition idle_lazy_free :: "u8 list \<Rightarrow> kheap \<Rightarrow> kheap option" where
  "idle_lazy_free addr k = do {
     (rc, addr, q) \<leftarrow> queue_pop (lazy_free_queue k) addr;
     let k = k\<lparr>lazy_free_queue := q\<rparr>;
     if rc \<noteq> 0 then kfree (bytes_ptr addr) k else Some k }"

text \<open>The part of \<open>krealloc\<close> behind the label \<open>alloc_new_block\<close>.\<close>

definition alloc_new_block :: "nat \<Rightarrow> nat \<Rightarrow> kheap \<Rightarrow> (nat \<times> kheap) option" where
  "alloc_new_block p s k = do {
     (np, k) \<leftarrow> kmalloc s k;
     if np = 0 then Some (0, k)
     else do {
       m \<leftarrow> mblocks k (get_mblock p);
       let k = k\<lparr>dyn := (dyn k)\<lparr>mem := memcpy np p (bsize m) (mem (dyn k))\<rparr>\<rparr>;
       k \<leftarrow> kfree p k;
       Some (np, k) } }"

definition krealloc :: "nat \<Rightarrow> nat \<Rightarrow> kheap \<Rightarrow> (nat \<times> kheap) option" where
  "krealloc p sz k =
     (if p = 0 then kmalloc sz k
      else do {
        valid \<leftarrow> valid_addr p k;
        if \<not> valid then Some (0, k)
        else do {
          let s = memalign sz;
          let b = get_mblock p;
          m \<leftarrow> mblocks k b;
          if bsize m \<ge> s then
            if bsize m - s \<ge> MIN_SPLIT then do { k \<leftarrow> split_mblock b s k; Some (p, k) } else Some (p, k)
          else if mb_next m = 0 then alloc_new_block p s k
          else do {
            n \<leftarrow> mblocks k (mb_next m);
            if refcount n = 0 \<and> szt (bsize m + MBLOCK_SIZE + bsize n) \<ge> s then do {
              k \<leftarrow> merge b k;
              m' \<leftarrow> mblocks k b;
              if bsize m' < s then alloc_new_block p s k
              else do {
                let k = k\<lparr>kstat := update_stat_down_alloc (bsize m) (kstat k)\<rparr>;
                k \<leftarrow> (if bsize m' - s \<ge> MIN_SPLIT then split_mblock b s k else Some k);
                m'' \<leftarrow> mblocks k b;
                let k = k\<lparr>kstat := update_stat_up_alloc (bsize m'') (kstat k)\<rparr>;
                Some (p, k) } }
            else alloc_new_block p s k } } })"

definition kpalloc :: "nat \<Rightarrow> kheap \<Rightarrow> (nat \<times> kheap) option" where
  "kpalloc p k = do {
     valid \<leftarrow> valid_addr p k;
     if valid then do {
       k \<leftarrow> upd_mb (get_mblock p) (\<lambda>m. m\<lparr>refcount := s32 (refcount m + 1)\<rparr>) k;
       Some (p, k) }
     else Some (p, k) }"

text \<open>The static initialisers.\<close>

definition kheap_boot :: "dynmem \<Rightarrow> kheap" where
  "kheap_boot d = \<lparr>mblocks = Map.empty, kmalloc_base = 0,
     kstat = \<lparr>kms_mem_res = 0, kms_mem_max = 0, kms_mem_alloc = 0, kms_mem_alloc_max = 0\<rparr>,
     lazy_free_queue = \<lparr>data = replicate 400 0, b_size = 4, a_len = 100, m_write = 0, m_read = 0\<rparr>,
     interrupts = True, dyn = d\<rparr>"


lemmas heap_eval = kmalloc_def extend_def kheap_boot_def dynmem_boot_def dynmem_alloc_region_def kmap_allocation_def
  memalign_def alloc_eval new_mblock_def put_mb_def upd_mb_def split_mblock_def merge_def kfree_def valid_addr_def
  dynmem_free_region_def update_dynmem_region_struct_def clear_descs_def addr_is_valid_def addr2dindex_def
  count_links.simps find_mblock.simps desc0_def

section \<open>The list of blocks\<close>

text \<open>A block is its address, its size and its reference count; \<open>mk\<close> is the header of a sound one.\<close>

type_synonym blk = "nat \<times> nat \<times> int"

definition mk :: "nat \<Rightarrow> nat \<Rightarrow> int \<Rightarrow> nat \<Rightarrow> nat \<Rightarrow> mblock" where
  "mk a s r nxt prv = \<lparr>signature = KM_SIGNATURE_VALID, bsize = s, mb_next = nxt, mb_prev = prv,
     refcount = r, mb_ptr = a + MBLOCK_SIZE\<rparr>"

lemma mk_simps [simp]:
  "signature (mk a s r n q) = KM_SIGNATURE_VALID" "bsize (mk a s r n q) = s" "mb_next (mk a s r n q) = n"
  "mb_prev (mk a s r n q) = q" "refcount (mk a s r n q) = r" "mb_ptr (mk a s r n q) = a + 24"
  "(mk a s r n q)\<lparr>mb_next := n'\<rparr> = mk a s r n' q" "(mk a s r n q)\<lparr>mb_prev := q'\<rparr> = mk a s r n q'"
  "(mk a s r n q)\<lparr>refcount := r'\<rparr> = mk a s r' n q" "(mk a s r n q)\<lparr>bsize := s'\<rparr> = mk a s' r n q"
  by (simp_all add: mk_def)

lemma new_mblock_mk [simp]: "new_mblock b s n q = mk b s 0 n q"
  by (simp add: new_mblock_def mk_def)

fun hd_addr :: "blk list \<Rightarrow> nat \<Rightarrow> nat" where
  "hd_addr [] z = z"
| "hd_addr ((a, _, _) # bs) z = a"

fun last_addr :: "nat \<Rightarrow> blk list \<Rightarrow> nat" where
  "last_addr q [] = q"
| "last_addr q ((a, _, _) # bs) = last_addr a bs"

text \<open>The headers of \<open>bs\<close> are linked in both directions, between \<open>q\<close> before and \<open>z\<close> behind.\<close>

fun seg :: "(nat \<Rightarrow> mblock option) \<Rightarrow> nat \<Rightarrow> blk list \<Rightarrow> nat \<Rightarrow> bool" where
  "seg h q [] z \<longleftrightarrow> True"
| "seg h q ((a, s, r) # bs) z \<longleftrightarrow> h a = Some (mk a s r (hd_addr bs z) q) \<and> seg h a bs z"

abbreviation addrs :: "blk list \<Rightarrow> nat set" where
  "addrs bs \<equiv> fst ` set bs"

lemma hd_addr_append [simp]: "hd_addr (xs @ ys) z = hd_addr xs (hd_addr ys z)"
  by (induction xs z rule: hd_addr.induct) auto

lemma last_addr_append [simp]: "last_addr q (xs @ ys) = last_addr (last_addr q xs) ys"
  by (induction q xs rule: last_addr.induct) auto

lemma hd_addr_in: "bs \<noteq> [] \<Longrightarrow> hd_addr bs z \<in> addrs bs"
  by (cases bs) auto

lemma last_addr_in: "bs \<noteq> [] \<Longrightarrow> last_addr q bs \<in> addrs bs"
proof (induction q bs rule: last_addr.induct)
  case (2 q a s r bs)
  then show ?case by (cases "bs = []") auto
qed simp

lemma seg_append: "seg h q (xs @ ys) z \<longleftrightarrow> seg h q xs (hd_addr ys z) \<and> seg h (last_addr q xs) ys z"
  by (induction h q xs "hd_addr ys z" rule: seg.induct) auto

lemma seg_frame [simp]: "a \<notin> addrs bs \<Longrightarrow> seg (h(a := v)) q bs z = seg h q bs z"
  by (induction h q bs z rule: seg.induct) (auto simp: fun_upd_apply)

text \<open>Changing what the block behind a segment, or the one before it, is.\<close>

lemma seg_relink_next:
  assumes "seg h q (xs @ [(a, s, r)]) z" and "distinct (map fst (xs @ [(a, s, r)]))"
  shows "seg (h(a \<mapsto> mk a s' r' z' (last_addr q xs))) q (xs @ [(a, s', r')]) z'"
  using assms by (auto simp: seg_append)

lemma seg_relink_prev:
  assumes "seg h q ((a, s, r) # bs) z" and "a \<notin> addrs bs"
  shows "seg (h(a \<mapsto> mk a s r (hd_addr bs z) q')) q' ((a, s, r) # bs) z"
  using assms by auto

lemma seg_mem: "seg h q bs z \<Longrightarrow> (a, s, r) \<in> set bs \<Longrightarrow> \<exists>n p. h a = Some (mk a s r n p)"
  by (induction h q bs z rule: seg.induct) auto

section \<open>The layout of the blocks\<close>

definition apart :: "blk \<Rightarrow> blk \<Rightarrow> bool" where
  "apart x y \<longleftrightarrow> fst x + 24 + fst (snd x) \<le> fst y \<or> fst y + 24 + fst (snd y) \<le> fst x"

text \<open>A block lies in dynmem, aligned to words, and all its pages are marked in the bit map.\<close>

definition blk_ok :: "bitmap \<Rightarrow> blk \<Rightarrow> bool" where
  "blk_ok bm x \<longleftrightarrow> DYNMEM_START \<le> fst x \<and> fst x + 24 + fst (snd x) \<le> DYNMEM_END \<and>
     fst x mod 4 = 0 \<and> fst (snd x) mod 4 = 0 \<and> 0 \<le> snd (snd x) \<and> snd (snd x) < 2 ^ 31 \<and>
     (\<forall>y. fst x \<le> y \<and> y < fst x + 24 + fst (snd x) \<longrightarrow> used bm ((y - DYNMEM_START) div 2 ^ 20))"

text \<open>Headers that are no longer in the list do not pass for allocated blocks.\<close>

definition stale :: "(nat \<Rightarrow> mblock option) \<Rightarrow> blk list \<Rightarrow> bool" where
  "stale h bs \<longleftrightarrow> (\<forall>a m. h a = Some m \<longrightarrow> a \<notin> addrs bs \<longrightarrow> signature m \<noteq> KM_SIGNATURE_VALID \<or> refcount m = 0)"

definition kinv :: "kheap \<Rightarrow> blk list \<Rightarrow> bool" where
  "kinv k bs \<longleftrightarrow> seg (mblocks k) 0 bs 0 \<and> kmalloc_base k = hd_addr bs 0 \<and> stale (mblocks k) bs \<and>
     sorted_wrt apart bs \<and> (\<forall>x \<in> set bs. blk_ok (dynmemmap_bitmap (dyn k)) x) \<and> dm_inv (dyn k)"

lemma apart_sym: "apart x y \<longleftrightarrow> apart y x"
  by (auto simp: apart_def)

lemma apart_neq: "apart x y \<Longrightarrow> fst x \<noteq> fst y"
  by (auto simp: apart_def)

lemma apart_distinct: "sorted_wrt apart bs \<Longrightarrow> distinct (map fst bs)"
  by (induction bs) (auto dest: apart_neq)

lemma apart_set: "sorted_wrt apart bs \<Longrightarrow> x \<in> set bs \<Longrightarrow> y \<in> set bs \<Longrightarrow> fst x \<noteq> fst y \<Longrightarrow> apart x y"
  by (induction bs) (auto simp: apart_sym)

lemma apart_append: "sorted_wrt apart (xs @ y # ys) \<longleftrightarrow>
   sorted_wrt apart (xs @ ys) \<and> (\<forall>x \<in> set (xs @ ys). apart x y)"
  by (auto simp: sorted_wrt_append apart_sym)

lemma find_split: "find P xs = Some x \<Longrightarrow> \<exists>pre post. xs = pre @ x # post \<and> P x \<and> (\<forall>y \<in> set pre. \<not> P y)"
proof (induction xs)
  case (Cons y xs)
  show ?case
  proof (cases "P y")
    case True
    with Cons.prems show ?thesis by (intro exI [of _ "[]"] exI [of _ xs]) auto
  next
    case False
    with Cons obtain pre post where "xs = pre @ x # post" "P x" "\<forall>y \<in> set pre. \<not> P y" by auto
    with False show ?thesis by (intro exI [of _ "y # pre"] exI [of _ post]) auto
  qed
qed simp

lemma find_mblock_seg:
  "seg h q bs 0 \<Longrightarrow> bs \<noteq> [] \<Longrightarrow> 0 \<notin> addrs bs \<Longrightarrow>
   find_mblock h sz lst (hd_addr bs 0) =
     Some (case find (\<lambda>(a, s, r). r = 0 \<and> sz \<le> s) bs of Some (a, _, _) \<Rightarrow> (a, a) | None \<Rightarrow> (0, last_addr q bs))"
proof (induction bs arbitrary: q lst)
  case (Cons x bs)
  obtain a s r where x: "x = (a, s, r)" by (cases x)
  show ?case
  proof (cases "bs = []")
    case True
    with Cons x show ?thesis by (simp add: find_mblock.simps)
  next
    case False
    then have "hd_addr bs 0 \<noteq> 0" using Cons.prems(3) hd_addr_in [OF False, of 0] by (metis image_insert insertI2 list.simps(15))
    with Cons.IH [of a a] Cons.prems False x show ?thesis 
      by (simp add: find_mblock.simps [of h sz lst a] split: option.split)
  qed
qed simp


section \<open>Splitting and merging\<close>

lemma split_mblock_seg:
  assumes sg: "seg (mblocks k) 0 (pre @ (a, S, r) # post) 0"
    and st: "stale (mblocks k) (pre @ (a, S, r) # post)"
    and ap: "sorted_wrt apart (pre @ (a, S, r) # post)" and nz: "0 \<notin> addrs (pre @ (a, S, r) # post)"
    and S: "s + 28 \<le> S" "S < 2 ^ 32"
  shows "\<exists>h. split_mblock a s k = Some (k\<lparr>mblocks := h\<rparr>) \<and>
     seg h 0 (pre @ (a, s, r) # (a + 24 + s, S - s - 24, 0) # post) 0 \<and>
     stale h (pre @ (a, s, r) # (a + 24 + s, S - s - 24, 0) # post)"
proof -
  let ?nb = "a + 24 + s" and ?h = "mblocks k"
  have sz: "szt (S + (2 ^ 33 - s - 24)) = S - s - 24"
  proof -
    have "S + (2 ^ 33 - s - 24) = (S - s - 24) + 2 * 2 ^ 32" using S by simp
    then have "szt (S + (2 ^ 33 - s - 24)) = (S - s - 24) mod 2 ^ 32" by (simp only: szt_def mod_mult_self1)
    with S show ?thesis by simp
  qed
  have ha: "?h a = Some (mk a S r (hd_addr post 0) (last_addr 0 pre))"
    and pre: "seg ?h 0 pre a" and post: "seg ?h a post 0"
    using sg by (simp_all add: seg_append)
  have ap': "apart x (a, S, r)" if "x \<in> set pre \<union> set post" for x
    using ap that by (auto simp: apart_append)
  have nb: "?nb \<notin> addrs (pre @ post)"
  proof
    assume "?nb \<in> addrs (pre @ post)"
    then obtain x where "x \<in> set pre \<union> set post" "fst x = ?nb" by (metis imageE set_append)
    with ap' [of x] S show False by (simp add: apart_def)
  qed
  have na: "a \<notin> addrs (pre @ post)" using apart_distinct [OF ap] by auto
  show ?thesis
  proof (cases post)
    case Nil
    let ?h' = "?h(?nb \<mapsto> mk ?nb (S - s - 24) 0 0 a, a \<mapsto> mk a s r ?nb (last_addr 0 pre))"
    have "split_mblock a s k = Some (k\<lparr>mblocks := ?h'\<rparr>)"
      using ha Nil sz by (simp add: split_mblock_def put_mb_def upd_mb_def Let_def)
    moreover have "seg ?h' 0 (pre @ (a, s, r) # (?nb, S - s - 24, 0) # post) 0"
      using pre nb na Nil by (simp add: seg_append image_Un)
    moreover have "stale ?h' (pre @ (a, s, r) # (?nb, S - s - 24, 0) # post)"
      using st by (auto simp: stale_def)
    ultimately show ?thesis by blast
  next
    case (Cons x post')
    obtain c sc rc where x: "x = (c, sc, rc)" by (cases x)
    have c0: "c \<noteq> 0" using nz Cons x by auto
    have hc: "?h c = Some (mk c sc rc (hd_addr post' 0) a)" "seg ?h c post' 0" using post Cons x by simp_all
    have nc: "c \<noteq> ?nb" "c \<noteq> a" "?nb \<noteq> a" using nb na Cons x by auto
    have ncs: "c \<notin> addrs (pre @ post')"
      using apart_distinct [OF ap] Cons x by auto
    let ?h' = "?h(?nb \<mapsto> mk ?nb (S - s - 24) 0 c a, a \<mapsto> mk a s r ?nb (last_addr 0 pre),
      c \<mapsto> mk c sc rc (hd_addr post' 0) ?nb)"
    have "split_mblock a s k = Some (k\<lparr>mblocks := ?h'\<rparr>)"
      using ha hc Cons x sz c0 nc by (simp add: split_mblock_def put_mb_def upd_mb_def Let_def)
    moreover have "seg ?h' 0 (pre @ (a, s, r) # (?nb, S - s - 24, 0) # post) 0"
      using pre nb na Cons x nc ncs hc by (simp add: seg_append image_Un)
    moreover have "stale ?h' (pre @ (a, s, r) # (?nb, S - s - 24, 0) # post)"
      using st Cons x by (auto simp: stale_def)
    ultimately show ?thesis by blast
  qed
qed


text \<open>Merging with a block that is free and follows without a gap; any other successor changes nothing.\<close>

lemma merge_seg:
  assumes sg: "seg (mblocks k) 0 (pre @ (a, s, r) # (a + 24 + s, s', 0) # post) 0"
    and st: "stale (mblocks k) (pre @ (a, s, r) # (a + 24 + s, s', 0) # post)"
    and ap: "sorted_wrt apart (pre @ (a, s, r) # (a + 24 + s, s', 0) # post)"
    and nz: "0 \<notin> addrs (pre @ (a, s, r) # (a + 24 + s, s', 0) # post)"
    and S: "a + 24 + s + 24 + s' < 2 ^ 32"
  shows "\<exists>h. merge a k = Some (k\<lparr>mblocks := h\<rparr>) \<and>
     seg h 0 (pre @ (a, s + 24 + s', r) # post) 0 \<and> stale h (pre @ (a, s + 24 + s', r) # post)"
proof -
  let ?nb = "a + 24 + s" and ?h = "mblocks k"
  have ha: "?h a = Some (mk a s r ?nb (last_addr 0 pre))" "?h ?nb = Some (mk ?nb s' 0 (hd_addr post 0) a)"
    and pre: "seg ?h 0 pre a" and post: "seg ?h ?nb post 0"
    using sg by (simp_all add: seg_append)
  have na: "a \<notin> addrs (pre @ post)" "?nb \<notin> addrs (pre @ post)" "a \<noteq> ?nb"
    using apart_distinct [OF ap] by auto
  have sz: "szt ?nb = ?nb" "szt (s + 24 + s') = s + 24 + s'" using S by simp_all
  let ?inv = "(mk ?nb s' 0 (hd_addr post 0) a)\<lparr>signature := KM_SIGNATURE_INVALID\<rparr>"
  show ?thesis
  proof (cases post)
    case Nil
    let ?h' = "?h(?nb \<mapsto> ?inv, a \<mapsto> mk a (s + 24 + s') r 0 (last_addr 0 pre))"
    have "merge a k = Some (k\<lparr>mblocks := ?h'\<rparr>)"
      using ha Nil sz by (simp add: merge_def upd_mb_def)
    moreover have "seg ?h' 0 (pre @ (a, s + 24 + s', r) # post) 0"
      using pre na Nil by (simp add: seg_append image_Un)
    moreover have "stale ?h' (pre @ (a, s + 24 + s', r) # post)"
      using st by (auto simp: stale_def)
    ultimately show ?thesis by blast
  next
    case (Cons x post')
    obtain c sc rc where x: "x = (c, sc, rc)" by (cases x)
    have c0: "c \<noteq> 0" using nz Cons x by auto
    have hc: "?h c = Some (mk c sc rc (hd_addr post' 0) ?nb)" "seg ?h c post' 0" using post Cons x by simp_all
    have nc: "c \<noteq> ?nb" "c \<noteq> a" using na Cons x by auto
    have ncs: "c \<notin> addrs (pre @ post')" using apart_distinct [OF ap] Cons x by auto
    let ?h' = "?h(?nb \<mapsto> ?inv, a \<mapsto> mk a (s + 24 + s') r c (last_addr 0 pre), c \<mapsto> mk c sc rc (hd_addr post' 0) a)"
    have "merge a k = Some (k\<lparr>mblocks := ?h'\<rparr>)"
      using ha hc Cons x sz c0 nc by (simp add: merge_def upd_mb_def)
    moreover have "seg ?h' 0 (pre @ (a, s + 24 + s', r) # post) 0"
      using pre na Cons x nc ncs hc by (simp add: seg_append image_Un)
    moreover have "stale ?h' (pre @ (a, s + 24 + s', r) # post)"
      using st Cons x by (auto simp: stale_def)
    ultimately show ?thesis by blast
  qed
qed

lemma merge_none:
  assumes "seg (mblocks k) 0 (pre @ (a, s, r) # post) 0" and "0 \<notin> addrs (pre @ (a, s, r) # post)"
    and "a + 24 + s < 2 ^ 32"
    and "\<not> (\<exists>s' post'. post = (a + 24 + s, s', 0) # post')"
  shows "merge a k = Some k"
proof (cases post)
  case Nil
  with assms(1) show ?thesis by (simp add: merge_def seg_append)
next
  case (Cons x post')
  obtain c sc rc where x: "x = (c, sc, rc)" by (cases x)
  with assms Cons show ?thesis by (auto simp: merge_def seg_append)
qed

section \<open>Layout of split and merged blocks\<close>

lemma apart_split:
  assumes "sorted_wrt apart (pre @ (a, S, r) # post)" and "s + 24 \<le> S"
  shows "sorted_wrt apart (pre @ (a, s, r') # (a + 24 + s, S - s - 24, r'') # post)"
proof -
  have ap: "sorted_wrt apart (pre @ post)" "\<forall>x \<in> set (pre @ post). apart x (a, S, r)"
    using assms(1) by (simp_all add: apart_append)
  have "apart x (a, s, r')" "apart x (a + 24 + s, S - s - 24, r'')" if "x \<in> set (pre @ post)" for x
    using ap(2) [rule_format, OF that] assms(2) by (auto simp: apart_def)
  moreover have "apart (a + 24 + s, S - s - 24, r'') (a, s, r')" by (simp add: apart_def)
  ultimately have "sorted_wrt apart (pre @ (a + 24 + s, S - s - 24, r'') # post)"
    "\<forall>x \<in> set (pre @ (a + 24 + s, S - s - 24, r'') # post). apart x (a, s, r')"
    using ap(1) by (auto simp: apart_append)
  then show ?thesis using apart_append [of pre "(a, s, r')" "(a + 24 + s, S - s - 24, r'') # post"] by blast
qed

lemma apart_merge:
  assumes "sorted_wrt apart (pre @ (a, s, r) # (a + 24 + s, s', r') # post)"
  shows "sorted_wrt apart (pre @ (a, s + 24 + s', r) # post)"
proof -
  let ?y = "(a + 24 + s, s', r')"
  have 1: "sorted_wrt apart (pre @ ?y # post)" "\<forall>x \<in> set (pre @ ?y # post). apart x (a, s, r)"
    using assms apart_append [of pre "(a, s, r)" "?y # post"] by blast+
  then have 2: "sorted_wrt apart (pre @ post)" "\<forall>x \<in> set (pre @ post). apart x ?y"
    by (simp_all add: apart_append)
  have "apart x (a, s + 24 + s', r)" if x: "x \<in> set (pre @ post)" for x
  proof -
    have "apart x (a, s, r)" "apart x ?y" using 1(2) 2(2) x by auto
    then show ?thesis by (auto simp: apart_def)
  qed
  with 2(1) show ?thesis by (simp add: apart_append)
qed

lemma apart_refs: "sorted_wrt apart (pre @ (a, s, r) # post) \<longleftrightarrow> sorted_wrt apart (pre @ (a, s, r') # post)"
  by (simp add: apart_append apart_def)

lemma blk_ok_split:
  assumes "blk_ok bm (a, S, r)" and "s + 24 \<le> S" and "s mod 4 = 0"
  shows "blk_ok bm (a, s, r)" and "blk_ok bm (a + 24 + s, S - s - 24, 0)"
proof -
  have u: "used bm ((y - DYNMEM_START) div 2 ^ 20)" if "a \<le> y" "y < a + 24 + S" for y
    using assms(1) that by (simp add: blk_ok_def)
  have m: "(a + 24 + s) mod 4 = 0" "(S - s - 24) mod 4 = 0" using assms by (auto simp: blk_ok_def)
  show "blk_ok bm (a, s, r)" using assms u by (auto simp: blk_ok_def)
  show "blk_ok bm (a + 24 + s, S - s - 24, 0)" using assms u m by (auto simp: blk_ok_def)
qed

lemma blk_ok_merge:
  assumes "blk_ok bm (a, s, r)" and "blk_ok bm (a + 24 + s, s', r')"
  shows "blk_ok bm (a, s + 24 + s', r)"
proof -
  have "used bm ((y - DYNMEM_START) div 2 ^ 20)" if "a \<le> y" "y < a + 24 + (s + 24 + s')" for y
    using assms that unfolding blk_ok_def by (cases "y < a + 24 + s") auto
  moreover have "(s + 24 + s') mod 4 = 0" using assms by (auto simp: blk_ok_def)
  ultimately show ?thesis using assms by (auto simp: blk_ok_def)
qed

lemma blk_ok_refs: "blk_ok bm (a, s, r) \<Longrightarrow> 0 \<le> r' \<Longrightarrow> r' < 2 ^ 31 \<Longrightarrow> blk_ok bm (a, s, r')"
  by (simp add: blk_ok_def)


section \<open>The steps on sound heaps\<close>

definition live :: "blk list \<Rightarrow> blk set" where
  "live bs = {x \<in> set bs. 0 < snd (snd x)}"

lemma live_simps [simp]: "live [] = {}" "live ((a, s, r) # bs) = (if 0 < r then insert (a, s, r) (live bs) else live bs)"
  "live (xs @ ys) = live xs \<union> live ys"
  by (auto simp: live_def)

lemma kinv_fields [simp]:
  "kinv (k\<lparr>kstat := x\<rparr>) bs = kinv k bs" "kinv (k\<lparr>lazy_free_queue := q\<rparr>) bs = kinv k bs"
  "kinv (k\<lparr>interrupts := i\<rparr>) bs = kinv k bs" "kinv (k\<lparr>dyn := (dyn k)\<lparr>mem := f\<rparr>\<rparr>) bs = kinv k bs"
  by (simp_all add: kinv_def)

lemma kinvD:
  assumes "kinv k (pre @ (a, s, r) # post)"
  shows "mblocks k a = Some (mk a s r (hd_addr post 0) (last_addr 0 pre))"
    and "blk_ok (dynmemmap_bitmap (dyn k)) (a, s, r)"
    and "DYNMEM_START \<le> a" "a + 24 + s \<le> DYNMEM_END" "0 \<le> r" "a mod 4 = 0" "s mod 4 = 0"
    and "0 \<notin> addrs (pre @ (a, s, r) # post)"
    and "kmalloc_base k \<noteq> 0"
proof -
  have ok: "\<forall>x \<in> set (pre @ (a, s, r) # post). blk_ok (dynmemmap_bitmap (dyn k)) x" using assms by (simp add: kinv_def)
  then show b: "blk_ok (dynmemmap_bitmap (dyn k)) (a, s, r)" by simp
  then show "DYNMEM_START \<le> a" "a + 24 + s \<le> DYNMEM_END" "0 \<le> r" "a mod 4 = 0" "s mod 4 = 0"
    by (auto simp: blk_ok_def)
  show nz: "0 \<notin> addrs (pre @ (a, s, r) # post)"
  proof
    assume "0 \<in> addrs (pre @ (a, s, r) # post)"
    then obtain x where "x \<in> set (pre @ (a, s, r) # post)" "fst x = 0" by (metis imageE)
    with ok have "DYNMEM_START \<le> fst x" unfolding blk_ok_def by blast
    with \<open>fst x = 0\<close> show False by simp
  qed
  show "mblocks k a = Some (mk a s r (hd_addr post 0) (last_addr 0 pre))"
    using assms by (simp add: kinv_def seg_append)
  have "kmalloc_base k = hd_addr (pre @ (a, s, r) # post) 0" using assms by (simp add: kinv_def)
  moreover have "hd_addr (pre @ (a, s, r) # post) 0 \<in> addrs (pre @ (a, s, r) # post)" by (rule hd_addr_in) simp
  ultimately show "kmalloc_base k \<noteq> 0" using nz by metis
qed

lemma kinv_parts:
  assumes "kinv k bs"
  shows "seg (mblocks k) 0 bs 0" "stale (mblocks k) bs" "sorted_wrt apart bs" "dm_inv (dyn k)"
    "kmalloc_base k = hd_addr bs 0" "\<forall>x \<in> set bs. blk_ok (dynmemmap_bitmap (dyn k)) x"
  using assms by (simp_all add: kinv_def)

lemma kinv_split:
  assumes "kinv k (pre @ (a, S, r) # post)" and "s + 28 \<le> S" and "s mod 4 = 0"
  shows "\<exists>h. split_mblock a s k = Some (k\<lparr>mblocks := h\<rparr>) \<and>
     kinv (k\<lparr>mblocks := h\<rparr>) (pre @ (a, s, r) # (a + 24 + s, S - s - 24, 0) # post)"
proof -
  note i = kinv_parts [OF assms(1)] and d = kinvD [OF assms(1)]
  obtain h where "split_mblock a s k = Some (k\<lparr>mblocks := h\<rparr>)"
    "seg h 0 (pre @ (a, s, r) # (a + 24 + s, S - s - 24, 0) # post) 0"
    "stale h (pre @ (a, s, r) # (a + 24 + s, S - s - 24, 0) # post)"
    using split_mblock_seg [OF i(1-3) d(8) assms(2)] d(4) by auto
  moreover have "sorted_wrt apart (pre @ (a, s, r) # (a + 24 + s, S - s - 24, 0) # post)"
    using apart_split [OF i(3)] assms(2) by simp
  moreover have "blk_ok (dynmemmap_bitmap (dyn k)) (a, s, r)"
    "blk_ok (dynmemmap_bitmap (dyn k)) (a + 24 + s, S - s - 24, 0)"
    using blk_ok_split [OF d(2) _ assms(3)] assms(2) by simp_all
  ultimately show ?thesis using i by (intro exI [of _ h]) (simp add: kinv_def)
qed

lemma kinv_merge:
  assumes "kinv k (pre @ (a, s, r) # (a + 24 + s, s', 0) # post)"
  shows "\<exists>h. merge a k = Some (k\<lparr>mblocks := h\<rparr>) \<and> kinv (k\<lparr>mblocks := h\<rparr>) (pre @ (a, s + 24 + s', r) # post)"
proof -
  note i = kinv_parts [OF assms(1)] and d = kinvD [OF assms(1)]
  have ok: "blk_ok (dynmemmap_bitmap (dyn k)) (a + 24 + s, s', 0)" using i(6) by simp
  then have "a + 24 + s + 24 + s' < 2 ^ 32" by (simp add: blk_ok_def)
  from merge_seg [OF i(1-3) d(8) this] obtain h where "merge a k = Some (k\<lparr>mblocks := h\<rparr>)"
    "seg h 0 (pre @ (a, s + 24 + s', r) # post) 0" "stale h (pre @ (a, s + 24 + s', r) # post)" by blast
  moreover note apart_merge [OF i(3)] blk_ok_merge [OF d(2) ok]
  ultimately show ?thesis using i by (intro exI [of _ h]) (simp add: kinv_def)
qed

text \<open>Both outcomes of a merge: nothing happens, or the next block is swallowed.\<close>

lemma kinv_merge_cases:
  assumes "kinv k (pre @ (a, s, r) # post)"
  shows "\<exists>h s2 post2. merge a k = Some (k\<lparr>mblocks := h\<rparr>) \<and> kinv (k\<lparr>mblocks := h\<rparr>) (pre @ (a, s2, r) # post2) \<and>
     live post2 = live post \<and>
     (s2 = s \<and> post2 = post \<and> h = mblocks k \<or> (\<exists>s'. post = (a + 24 + s, s', 0) # post2 \<and> s2 = s + 24 + s'))"
proof (cases "\<exists>s' post'. post = (a + 24 + s, s', 0) # post'")
  case True
  then obtain s' post' where post: "post = (a + 24 + s, s', 0) # post'" by blast
  obtain h where "merge a k = Some (k\<lparr>mblocks := h\<rparr>)" "kinv (k\<lparr>mblocks := h\<rparr>) (pre @ (a, s + 24 + s', r) # post')"
    using kinv_merge assms post by blast
  with post show ?thesis by fastforce
next
  case False
  have "a + 24 + s < 2 ^ 32" using kinvD(4) [OF assms] by simp
  from merge_none [OF kinv_parts(1) [OF assms] kinvD(8) [OF assms] this False] assms
  have "merge a k = Some (k\<lparr>mblocks := mblocks k\<rparr>)" "kinv (k\<lparr>mblocks := mblocks k\<rparr>) (pre @ (a, s, r) # post)"
    by simp_all
  then show ?thesis by blast
qed

lemma kinv_set_refs:
  assumes "kinv k (pre @ (a, s, r) # post)" and "0 \<le> r'" and "r' < 2 ^ 31"
    and "\<And>n q. f (mk a s r n q) = mk a s r' n q"
  shows "\<exists>h. upd_mb a f k = Some (k\<lparr>mblocks := h\<rparr>) \<and> kinv (k\<lparr>mblocks := h\<rparr>) (pre @ (a, s, r') # post)"
proof -
  note i = kinv_parts [OF assms(1)] and d = kinvD [OF assms(1)]
  have na: "a \<notin> addrs pre" "a \<notin> addrs post" using apart_distinct [OF i(3)] by auto
  let ?h = "(mblocks k)(a \<mapsto> mk a s r' (hd_addr post 0) (last_addr 0 pre))"
  have "upd_mb a f k = Some (k\<lparr>mblocks := ?h\<rparr>)" using d(1) assms(4) by (simp add: upd_mb_def)
  moreover have "seg ?h 0 (pre @ (a, s, r') # post) 0" using i(1) na by (simp add: seg_append)
  moreover have "stale ?h (pre @ (a, s, r') # post)" using i(2) by (auto simp: stale_def)
  moreover have "sorted_wrt apart (pre @ (a, s, r') # post)" using i(3) apart_refs by blast
  moreover have "blk_ok (dynmemmap_bitmap (dyn k)) (a, s, r')" using blk_ok_refs [OF d(2) assms(2,3)] .
  ultimately have "kinv (k\<lparr>mblocks := ?h\<rparr>) (pre @ (a, s, r') # post)" using i by (auto simp: kinv_def)
  with \<open>upd_mb a f k = _\<close> show ?thesis by blast
qed


lemma kinv_dyn:
  assumes "kinv k bs" and "dm_inv d"
    and "\<forall>p. used (dynmemmap_bitmap (dyn k)) p \<longrightarrow> used (dynmemmap_bitmap d) p"
  shows "kinv (k\<lparr>dyn := d\<rparr>) bs"
proof -
  have "blk_ok (dynmemmap_bitmap d) x" if "blk_ok (dynmemmap_bitmap (dyn k)) x" for x
    using that assms(3) unfolding blk_ok_def by blast
  with assms show ?thesis by (simp add: kinv_def)
qed

lemma pre_snoc: "pre \<noteq> [] \<Longrightarrow> \<exists>pre' p ps pr. pre = pre' @ [(p, ps, pr)]"
  by (cases pre rule: rev_cases) auto

lemma kinv_drop_last:
  assumes "kinv k (pre @ [(b, s, 0)])"
  shows "\<exists>k'. (if last_addr 0 pre \<noteq> 0 then upd_mb (last_addr 0 pre) (\<lambda>m. m\<lparr>mb_next := 0\<rparr>) k
      else Some (k\<lparr>kmalloc_base := 0\<rparr>)) = Some k' \<and> kinv k' pre \<and> dyn k' = dyn k"
proof -
  note i = kinv_parts [OF assms] and d = kinvD [OF assms]
  have nz: "0 \<notin> addrs pre" using d(8) by simp
  have ap: "sorted_wrt apart pre" using i(3) by (simp add: sorted_wrt_append)
  have nb: "b \<notin> addrs pre" using apart_distinct [OF i(3)] by auto
  have st: "stale h pre" if "\<forall>x. x \<notin> addrs pre \<longrightarrow> h x = mblocks k x" for h
    unfolding stale_def
  proof (intro allI impI)
    fix x m
    assume "h x = Some m" "x \<notin> addrs pre"
    with that have "mblocks k x = Some m" "x \<notin> addrs pre" by auto
    with i(2) d(1) show "signature m \<noteq> KM_SIGNATURE_VALID \<or> refcount m = 0"
      unfolding stale_def by (cases "x = b") auto
  qed
  show ?thesis
  proof (cases "pre = []")
    case True
    with i st [of "mblocks k"] show ?thesis by (simp add: kinv_def)
  next
    case False
    then obtain pre' p ps pr where pre: "pre = pre' @ [(p, ps, pr)]" using pre_snoc by blast
    have l: "last_addr 0 pre = p" "p \<noteq> 0" using pre nz by auto
    have np: "p \<notin> addrs pre'" using apart_distinct [OF ap] pre by auto
    have hp: "mblocks k p = Some (mk p ps pr b (last_addr 0 pre'))" "seg (mblocks k) 0 pre' p"
      using i(1) pre by (simp_all add: seg_append)
    let ?h = "(mblocks k)(p \<mapsto> mk p ps pr 0 (last_addr 0 pre'))"
    have "seg ?h 0 pre 0" using hp np pre by (simp add: seg_append)
    moreover have "stale ?h pre" by (rule st) (use pre in auto)
    ultimately have "kinv (k\<lparr>mblocks := ?h\<rparr>) pre" using i ap pre by (simp add: kinv_def)
    then show ?thesis using l hp by (simp add: upd_mb_def)
  qed
qed

text \<open>What \<open>kfree\<close> does with a block that has just lost its last reference.\<close>

definition free_tail :: "nat \<Rightarrow> kheap \<Rightarrow> kheap option" where
  "free_tail b k = do {
     m \<leftarrow> mblocks k b;
     if mb_next m \<noteq> 0 then merge b k
     else do {
       k \<leftarrow> (if mb_prev m \<noteq> 0 then upd_mb (mb_prev m) (\<lambda>m. m\<lparr>mb_next := 0\<rparr>) k
            else Some (k\<lparr>kmalloc_base := 0\<rparr>));
       d \<leftarrow> dynmem_free_region b (dyn k);
       Some (k\<lparr>dyn := d\<rparr>) } }"

lemma free_tail_inv:
  assumes "kinv k (pre @ (b, s, 0) # post)"
  shows "\<exists>k' bs'. free_tail b k = Some k' \<and> kinv k' bs' \<and> live bs' = live (pre @ post) \<and> mem (dyn k') = mem (dyn k)"
proof (cases "post = []")
  case False
  then have "hd_addr post 0 \<noteq> 0"
    using hd_addr_in [OF False, of 0] kinvD(8) [OF assms] by (metis UnI2 image_Un insertI2 list.simps(15) set_append image_insert)
  with kinv_merge_cases [OF assms] kinvD(1) [OF assms] show ?thesis
    by (fastforce simp: free_tail_def)
next
  case True
  with assms have inv: "kinv k (pre @ [(b, s, 0)])" by simp
  obtain k' where k': "(if last_addr 0 pre \<noteq> 0 then upd_mb (last_addr 0 pre) (\<lambda>m. m\<lparr>mb_next := 0\<rparr>) k
      else Some (k\<lparr>kmalloc_base := 0\<rparr>)) = Some k'" "kinv k' pre" "dyn k' = dyn k"
    using kinv_drop_last [OF inv] by blast
  have "b < DYNMEM_END" using kinvD(4) [OF inv] by simp
  from dynmem_free_total [OF kinv_parts(4) [OF assms] kinvD(3) [OF assms] this] obtain d where
    d: "dynmem_free_region b (dyn k) = Some d" "dm_inv d" "mem d = mem (dyn k)"
      "\<forall>p. used (dynmemmap_bitmap (dyn k)) p \<longrightarrow> used (dynmemmap_bitmap d) p" by blast
  have "kinv (k'\<lparr>dyn := d\<rparr>) pre" using kinv_dyn [OF k'(2) d(2)] d(4) k'(3) by simp
  moreover have "free_tail b k = Some (k'\<lparr>dyn := d\<rparr>)"
    using kinvD(1) [OF inv] k' d(1) True by (auto simp: free_tail_def split: if_splits)
  ultimately show ?thesis using d(3) True by auto
qed

lemma kfree_unfold:
  "kfree p k = do {
     valid \<leftarrow> valid_addr p k;
     if \<not> valid then Some k
     else do {
       m \<leftarrow> mblocks k (p - 24);
       if refcount m \<le> 0 then Some k
       else do {
         k \<leftarrow> upd_mb (p - 24) (\<lambda>m. m\<lparr>refcount := refcount m - 1\<rparr>) k;
         if refcount m - 1 > 0 then Some k
         else do {
           let k = k\<lparr>kstat := update_stat_down_alloc (bsize m) (kstat k)\<rparr>;
           (b, k) \<leftarrow> (if mb_prev m \<noteq> 0 then do {
               pm \<leftarrow> mblocks k (mb_prev m);
               if refcount pm = 0 then do { k \<leftarrow> merge (mb_prev m) k; Some (mb_prev m, k) } else Some (p - 24, k) }
             else Some (p - 24, k));
           free_tail b k } } } }"
  unfolding kfree_def free_tail_def Let_def by (rule refl)

lemma valid_addr_block: "kinv k (pre @ (a, s, r) # post) \<Longrightarrow> valid_addr (a + 24) k = Some True"
  using kinvD(1) [of k pre a s r post] kinvD(9) [of k pre a s r post] by (simp add: valid_addr_def)

lemma kfree_shared:
  assumes "kinv k (pre @ (a, s, r) # post)" and "1 < r"
  shows "\<exists>k'. kfree (a + 24) k = Some k' \<and> kinv k' (pre @ (a, s, r - 1) # post) \<and> mem (dyn k') = mem (dyn k)"
proof -
  have r: "0 \<le> r - 1" "r - 1 < 2 ^ 31" using assms kinvD(2) [OF assms(1)] by (auto simp: blk_ok_def)
  obtain h where "upd_mb a (\<lambda>m. m\<lparr>refcount := refcount m - 1\<rparr>) k = Some (k\<lparr>mblocks := h\<rparr>)"
    "kinv (k\<lparr>mblocks := h\<rparr>) (pre @ (a, s, r - 1) # post)"
    using kinv_set_refs [OF assms(1) r, of "\<lambda>m. m\<lparr>refcount := refcount m - 1\<rparr>"] by auto
  then show ?thesis using valid_addr_block [OF assms(1)] kinvD(1) [OF assms(1)] assms(2)
    by (simp add: kfree_unfold)
qed

lemma kfree_last:
  assumes "kinv k (pre @ (a, s, 1) # post)"
  shows "\<exists>k' bs'. kfree (a + 24) k = Some k' \<and> kinv k' bs' \<and> live bs' = live (pre @ post) \<and> mem (dyn k') = mem (dyn k)"
proof -
  obtain h where h: "upd_mb a (\<lambda>m. m\<lparr>refcount := refcount m - 1\<rparr>) k = Some (k\<lparr>mblocks := h\<rparr>)"
    "kinv (k\<lparr>mblocks := h\<rparr>) (pre @ (a, s, 0) # post)"
    using kinv_set_refs [OF assms, of 0 "\<lambda>m. m\<lparr>refcount := refcount m - 1\<rparr>"] by auto
  define k1 where "k1 = k\<lparr>mblocks := h, kstat := update_stat_down_alloc s (kstat k)\<rparr>"
  have k1: "kinv k1 (pre @ (a, s, 0) # post)" "dyn k1 = dyn k" using h(2) by (simp_all add: k1_def)
  have kf: "kfree (a + 24) k = do {
       (b, k) \<leftarrow> (if last_addr 0 pre \<noteq> 0 then do {
               pm \<leftarrow> mblocks k1 (last_addr 0 pre);
               if refcount pm = 0 then do { k \<leftarrow> merge (last_addr 0 pre) k1; Some (last_addr 0 pre, k) } else Some (a, k1) }
             else Some (a, k1));
       free_tail b k }"
    using valid_addr_block [OF assms] kinvD(1) [OF assms] h(1) by (simp add: kfree_unfold k1_def Let_def cong: if_cong)
  note tail = free_tail_inv [OF k1(1)]
  show ?thesis
  proof (cases "pre = []")
    case True
    with kf tail k1 show ?thesis by simp
  next
    case False
    then obtain pre' p ps pr where pre: "pre = pre' @ [(p, ps, pr)]" using pre_snoc by blast
    have inv': "kinv k1 (pre' @ (p, ps, pr) # (a, s, 0) # post)" using k1(1) pre by simp
    have p0: "p \<noteq> 0" using kinvD(3) [OF inv'] by simp
    show ?thesis
    proof (cases "pr = 0")
      case True
      obtain g s2 post2 where g: "merge p k1 = Some (k1\<lparr>mblocks := g\<rparr>)"
        "kinv (k1\<lparr>mblocks := g\<rparr>) (pre' @ (p, s2, 0) # post2)" "live post2 = live post"
        using kinv_merge_cases [OF inv' [unfolded True]] by auto
      from free_tail_inv [OF g(2)] g(1,3) kf kinvD(1) [OF inv'] p0 pre True k1(2) show ?thesis by auto
    next
      case False
      with kf kinvD(1) [OF inv'] p0 pre tail k1(2) show ?thesis by simp
    qed
  qed
qed


section \<open>Extending the heap\<close>

text \<open>Writing a header behind the last block and linking it, as \<open>extend\<close> does twice.\<close>

definition link_block :: "nat \<Rightarrow> nat \<Rightarrow> nat \<Rightarrow> kheap \<Rightarrow> kheap option" where
  "link_block lst b s k = (if lst \<noteq> 0 then upd_mb lst (\<lambda>m. m\<lparr>mb_next := b\<rparr>) (put_mb b (mk b s 0 0 lst) k)
     else Some (put_mb b (mk b s 0 0 lst) k))"

lemma append_block:
  assumes sg: "seg (mblocks k) 0 bs 0" and st: "stale (mblocks k) bs" and di: "distinct (map fst bs)"
    and nb: "b \<notin> addrs bs" and nz: "0 \<notin> addrs bs"
  shows "\<exists>h. link_block (last_addr 0 bs) b s k = Some (k\<lparr>mblocks := h\<rparr>) \<and>
     seg h 0 (bs @ [(b, s, 0)]) 0 \<and> stale h (bs @ [(b, s, 0)])"
proof (cases "bs = []")
  case True
  let ?h = "(mblocks k)(b \<mapsto> mk b s 0 0 0)"
  have "stale ?h [(b, s, 0)]" using st True by (auto simp: stale_def)
  with True show ?thesis by (intro exI [of _ ?h]) (simp add: link_block_def put_mb_def)
next
  case False
  then obtain pre p ps pr where bs: "bs = pre @ [(p, ps, pr)]" using pre_snoc by blast
  have p: "p \<noteq> 0" "p \<noteq> b" "p \<notin> addrs pre" "b \<notin> addrs pre" using bs nz nb di by auto
  have hp: "mblocks k p = Some (mk p ps pr 0 (last_addr 0 pre))" "seg (mblocks k) 0 pre p"
    using sg bs by (simp_all add: seg_append)
  let ?h = "(mblocks k)(b \<mapsto> mk b s 0 0 p, p \<mapsto> mk p ps pr b (last_addr 0 pre))"
  have "seg ?h 0 (bs @ [(b, s, 0)]) 0" using hp p bs by (simp add: seg_append)
  moreover have "stale ?h (bs @ [(b, s, 0)])" using st bs by (auto simp: stale_def)
  ultimately show ?thesis using hp p bs by (intro exI [of _ ?h]) (simp add: link_block_def put_mb_def upd_mb_def)
qed

lemma fresh_apart:
  assumes "blk_ok bm x" and "\<forall>p \<in> {pos ..< pos + n}. \<not> used bm p" and "0 < n"
  shows "apart x (page pos, n * 2 ^ 20 - 24, r)"
proof (rule ccontr)
  assume "\<not> ?thesis"
  then have o: "fst x < page pos + n * 2 ^ 20" "page pos < fst x + 24 + fst (snd x)"
    using assms(3) by (auto simp: apart_def)
  define y where "y = max (fst x) (page pos)"
  have y: "fst x \<le> y" "y < fst x + 24 + fst (snd x)" "page pos \<le> y" "y < page pos + n * 2 ^ 20"
    using o assms(3) by (auto simp: y_def)
  then have "used bm ((y - DYNMEM_START) div 2 ^ 20)" using assms(1) by (simp add: blk_ok_def)
  moreover have "(y - DYNMEM_START) div 2 ^ 20 \<in> {pos ..< pos + n}"
  proof -
    have "pos * 2 ^ 20 \<le> y - DYNMEM_START" "y - DYNMEM_START < (pos + n) * 2 ^ 20"
      using y by (auto simp: algebra_simps)
    then show ?thesis by (simp add: less_eq_div_iff_mult_less_eq div_less_iff_less_mult)
  qed
  ultimately show False using assms(2) by blast
qed

lemma fresh_blk_ok:
  assumes "\<forall>p. pos \<le> p \<and> p < pos + n \<longrightarrow> used bm p" and "0 < n" and "pos + n \<le> 8"
  shows "blk_ok bm (page pos, n * 2 ^ 20 - 24, 0)"
proof -
  have "used bm ((y - DYNMEM_START) div 2 ^ 20)" if "page pos \<le> y" "y < page pos + n * 2 ^ 20" for y
  proof -
    have "pos * 2 ^ 20 \<le> y - DYNMEM_START" "y - DYNMEM_START < (pos + n) * 2 ^ 20"
      using that by (auto simp: algebra_simps)
    then have "pos \<le> (y - DYNMEM_START) div 2 ^ 20 \<and> (y - DYNMEM_START) div 2 ^ 20 < pos + n"
      by (simp add: less_eq_div_iff_mult_less_eq div_less_iff_less_mult)
    with assms(1) show ?thesis by blast
  qed
  moreover have "n * 2 ^ 20 - 24 = 4 * (n * 2 ^ 18 - 6)" "page pos = 4 * (2 ^ 21 + pos * 2 ^ 18)" by simp_all
  then have "(n * 2 ^ 20 - 24) mod 4 = 0" "page pos mod 4 = 0" by (metis mod_mult_self1_is_0)+
  ultimately show ?thesis using assms(2,3) by (auto simp: blk_ok_def)
qed


text \<open>
  The sizes for which the space behind the block in a new region is nothing or has room for a header:
  not so, \<open>extend\<close> writes a header across the end of the region.
\<close>

definition room_ok :: "nat \<Rightarrow> bool" where
  "room_ok s \<longleftrightarrow> s mod 4 = 0 \<and> s + 24 < 2 ^ 32 \<and> ((s + 24) mod 2 ^ 20 = 0 \<or> (s + 24) mod 2 ^ 20 \<le> 2 ^ 20 - 24)"

definition mbytes :: "nat \<Rightarrow> nat" where
  "mbytes t = t div 2 ^ 20 + (if t mod 2 ^ 20 \<noteq> 0 then 1 else 0)"

lemma mbytes_room:
  assumes "room_ok s"
  shows "0 < mbytes (s + 24)" and "s + 24 \<le> mbytes (s + 24) * 2 ^ 20" and "mbytes (s + 24) * 2 ^ 20 \<le> 2 ^ 32"
    and "mbytes (s + 24) * 2 ^ 20 = s + 24 \<or> s + 24 + 24 \<le> mbytes (s + 24) * 2 ^ 20"
proof -
  define q m where "q = (s + 24) div 2 ^ 20" and "m = (s + 24) mod 2 ^ 20"
  have t: "s + 24 = q * 2 ^ 20 + m" "m < 2 ^ 20" by (simp_all add: q_def m_def)
  have mb: "mbytes (s + 24) = q + (if m \<noteq> 0 then 1 else 0)" by (simp add: mbytes_def q_def m_def)
  have r: "s + 24 < 2 ^ 32" "m = 0 \<or> m \<le> 2 ^ 20 - 24" using assms by (simp_all add: room_ok_def m_def)
  show "0 < mbytes (s + 24)" "s + 24 \<le> mbytes (s + 24) * 2 ^ 20" unfolding mb using t by auto
  have "q < 2 ^ 12" using t r(1) by simp
  then show "mbytes (s + 24) * 2 ^ 20 \<le> 2 ^ 32" unfolding mb by auto
  show "mbytes (s + 24) * 2 ^ 20 = s + 24 \<or> s + 24 + 24 \<le> mbytes (s + 24) * 2 ^ 20"
    unfolding mb using t r(2) by auto
qed

lemma extend_unfold:
  assumes "s + 24 < 2 ^ 32"
  shows "extend lst s k = do {
     (b, d) \<leftarrow> dynmem_alloc_region (mbytes (s + 24)) 1 0x60 (dyn k);
     if b = 0 then Some (0, k\<lparr>dyn := d\<rparr>)
     else do {
       let k = k\<lparr>dyn := d\<rparr>;
       let k = k\<lparr>kstat := update_stat_up_res (mbytes (s + 24) * 2 ^ 20) (kstat k)\<rparr>;
       k \<leftarrow> link_block lst b s k;
       let memfree_b = szt (mbytes (s + 24) * 2 ^ 20 + 2 ^ 32 - (s + 24));
       if memfree_b \<noteq> 0 then do {
         let bl = b + (s + 24);
         k \<leftarrow> link_block b bl (szt (memfree_b + (2 ^ 32 - 24))) k;
         Some (b, k) }
       else Some (b, k) } }"
proof -
  have "szt (s + 24) = s + 24" using assms by simp
  moreover have "szt (s + 24 + (2 ^ 32 - 24)) = s"
  proof -
    have "s + 24 + (2 ^ 32 - 24) = s + 1 * 2 ^ 32" by simp
    then have "szt (s + 24 + (2 ^ 32 - 24)) = s mod 2 ^ 32" by (simp only: szt_def mod_mult_self1)
    with assms show ?thesis by simp
  qed
  ultimately show ?thesis
    unfolding extend_def mbytes_def link_block_def
    by (simp only: Let_def new_mblock_mk if_True not_False_eq_True cong: if_cong)
qed


lemma extend_some:
  assumes "kinv k bs" and "room_ok s" and d: "dynmem_alloc_region (mbytes (s + 24)) 1 0x60 (dyn k) = Some (b, d)"
    and b0: "b \<noteq> 0"
  shows "\<exists>k' rest. extend (last_addr 0 bs) s k = Some (b, k') \<and> kmalloc_base k' = kmalloc_base k \<and>
    mem (dyn k') = mem (dyn k) \<and> live rest = {} \<and>
    kinv (k'\<lparr>kmalloc_base := hd_addr (bs @ (b, s, 0) # rest) 0\<rparr>) (bs @ (b, s, 0) # rest)"
proof -
  note i = kinv_parts [OF assms(1)] and m = mbytes_room [OF assms(2)]
  let ?n = "mbytes (s + 24)"
  have s32: "s + 24 < 2 ^ 32" using assms(2) by (simp add: room_ok_def)
  from b0 dynmem_alloc_Some [OF i(4) d] obtain pos where pos: "b = page pos" "pos + ?n \<le> 8"
    "\<forall>p \<in> {pos ..< pos + ?n}. \<not> used (dynmemmap_bitmap (dyn k)) p" "alloc_result (dyn k) pos ?n 1 0x60 d"
    by blast
  note dinv = alloc_result_inv(1) [OF i(4) pos(4) m(1) pos(2)]
  have used: "\<forall>p. used (dynmemmap_bitmap d) p \<longleftrightarrow> used (dynmemmap_bitmap (dyn k)) p \<or> pos \<le> p \<and> p < pos + ?n"
    and md: "mem d = mem (dyn k)"
    using pos(4) by (simp_all add: alloc_result_def)
  define S where "S = ?n * 2 ^ 20 - 24"
  have S: "S + 24 = ?n * 2 ^ 20" "s = S \<or> s + 24 \<le> S" using m(1,2,4) by (auto simp: S_def)
  have ok: "blk_ok (dynmemmap_bitmap d) (b, S, 0)"
    unfolding pos(1) S_def by (rule fresh_blk_ok) (use used m(1) pos(2) in auto)
  have ap: "apart x (b, S, 0)" if "x \<in> set bs" for x
    unfolding pos(1) S_def by (rule fresh_apart [OF _ pos(3) m(1)]) (use i(6) that in blast)
  then have ap': "sorted_wrt apart (bs @ [(b, S, 0)])" using i(3) by (simp add: sorted_wrt_append)
  have nb: "b \<notin> addrs bs" using apart_distinct [OF ap'] by simp
  have nz: "0 \<notin> addrs bs"
  proof
    assume "0 \<in> addrs bs"
    then obtain x where "x \<in> set bs" "fst x = 0" by (metis imageE)
    with i(6) show False by (auto simp: blk_ok_def)
  qed
  let ?k = "k\<lparr>dyn := d, kstat := update_stat_up_res (?n * 2 ^ 20) (kstat k)\<rparr>"
  obtain h where h: "link_block (last_addr 0 bs) b s ?k = Some (?k\<lparr>mblocks := h\<rparr>)"
    "seg h 0 (bs @ [(b, s, 0)]) 0" "stale h (bs @ [(b, s, 0)])"
    using append_block [of ?k bs b s] i(1,2) apart_distinct [OF i(3)] nb nz by auto
  have okx: "\<forall>x \<in> set bs. blk_ok (dynmemmap_bitmap d) x"
    using kinv_dyn [OF assms(1) dinv] used by (simp add: kinv_def)
  let ?f = "szt (?n * 2 ^ 20 + 2 ^ 32 - (s + 24))"
  have f: "?f = S - s"
  proof -
    have "?n * 2 ^ 20 + 2 ^ 32 - (s + 24) = (S - s) + 1 * 2 ^ 32" using S m(2) by auto
    then have "?f = (S - s) mod 2 ^ 32" by (simp only: szt_def mod_mult_self1)
    moreover have "S - s < 2 ^ 32" using S(1) m(3) by simp
    ultimately show ?thesis by simp
  qed
  have ex: "extend (last_addr 0 bs) s k =
     (if S - s \<noteq> 0 then do {
       k \<leftarrow> link_block b (b + (s + 24)) (szt (S - s + (2 ^ 32 - 24))) (?k\<lparr>mblocks := h\<rparr>);
       Some (b, k) } else Some (b, ?k\<lparr>mblocks := h\<rparr>))"
    unfolding extend_unfold [OF s32] d bind.bind_lunit case_prod_conv Let_def f
    using b0 h(1) by simp
  show ?thesis
  proof (cases "s = S")
    case True
    let ?k' = "?k\<lparr>mblocks := h\<rparr>"
    have "kinv (?k'\<lparr>kmalloc_base := hd_addr (bs @ [(b, s, 0)]) 0\<rparr>) (bs @ [(b, s, 0)])"
      using h(2,3) ap' ok okx dinv True by (simp add: kinv_def)
    with True ex md show ?thesis by (intro exI [of _ ?k'] exI [of _ "[]"]) simp
  next
    case ns: False
    with S(2) have le: "s + 24 \<le> S" by simp
    let ?bl = "b + 24 + s"
    have szl: "szt (S - s + (2 ^ 32 - 24)) = S - s - 24"
    proof -
      have "S - s + (2 ^ 32 - 24) = (S - s - 24) + 1 * 2 ^ 32" using le by simp
      then have "szt (S - s + (2 ^ 32 - 24)) = (S - s - 24) mod 2 ^ 32" by (simp only: szt_def mod_mult_self1)
      moreover have "S - s - 24 < 2 ^ 32" using S(1) m(3) by simp
      ultimately show ?thesis by simp
    qed
    have ap2: "sorted_wrt apart (bs @ [(b, s, 0), (?bl, S - s - 24, 0)])"
      using apart_split [of bs b S 0 "[]" s 0 0] ap' le by simp
    have ok2: "blk_ok (dynmemmap_bitmap d) (b, s, 0)" "blk_ok (dynmemmap_bitmap d) (?bl, S - s - 24, 0)"
      using blk_ok_split [OF ok le] assms(2) by (simp_all add: room_ok_def)
    have di: "distinct (map fst (bs @ [(b, s, 0)]))" "?bl \<notin> addrs (bs @ [(b, s, 0)])" "0 \<notin> addrs (bs @ [(b, s, 0)])"
      using apart_distinct [OF ap2] nz b0 by auto
    obtain h2 where h2: "link_block b ?bl (S - s - 24) (?k\<lparr>mblocks := h\<rparr>) = Some (?k\<lparr>mblocks := h2\<rparr>)"
      "seg h2 0 (bs @ [(b, s, 0), (?bl, S - s - 24, 0)]) 0" "stale h2 (bs @ [(b, s, 0), (?bl, S - s - 24, 0)])"
      using append_block [of "?k\<lparr>mblocks := h\<rparr>" "bs @ [(b, s, 0)]" ?bl "S - s - 24"] h(2,3) di b0 by auto
    have bl: "b + (s + 24) = ?bl" by simp
    let ?k' = "?k\<lparr>mblocks := h2\<rparr>"
    have ex': "extend (last_addr 0 bs) s k = Some (b, ?k')"
      using ex ns le h2(1) unfolding szl bl by simp
    have "kinv (?k'\<lparr>kmalloc_base := hd_addr (bs @ [(b, s, 0), (?bl, S - s - 24, 0)]) 0\<rparr>)
        (bs @ [(b, s, 0), (?bl, S - s - 24, 0)])"
      using h2(2,3) ap2 ok2 okx dinv by (simp add: kinv_def)
    with ex' md show ?thesis by (intro exI [of _ ?k'] exI [of _ "[(?bl, S - s - 24, 0)]"]) simp
  qed
qed

lemma extend_inv:
  assumes "kinv k bs" and "room_ok s" and "extend (last_addr 0 bs) s k = Some (b, k')"
  shows "b = 0 \<and> k' = k \<or>
    b \<noteq> 0 \<and> kmalloc_base k' = kmalloc_base k \<and> mem (dyn k') = mem (dyn k) \<and>
    (\<exists>rest. live rest = {} \<and> kinv (k'\<lparr>kmalloc_base := hd_addr (bs @ (b, s, 0) # rest) 0\<rparr>) (bs @ (b, s, 0) # rest))"
proof -
  have s32: "s + 24 < 2 ^ 32" using assms(2) by (simp add: room_ok_def)
  obtain d where d: "dynmem_alloc_region (mbytes (s + 24)) 1 0x60 (dyn k) = Some (b, d)"
    using assms(3) by (auto simp: extend_unfold [OF s32] Let_def split: Option.bind_splits if_splits)
  show ?thesis
  proof (cases "b = 0")
    case True
    with dynmem_alloc_Some [OF kinv_parts(4) [OF assms(1)] d] have "d = dyn k" by auto
    with True d assms(3) show ?thesis by (simp add: extend_unfold [OF s32])
  next
    case False
    from extend_some [OF assms(1,2) d False] assms(3) False show ?thesis by auto
  qed
qed

section \<open>Allocation\<close>

lemma memalign_round:
  assumes "sz + 3 < 2 ^ 32"
  shows "memalign sz mod 4 = 0" and "sz \<le> memalign sz" and "memalign sz < sz + 4"
proof -
  have "sz + (4 - sz mod 4) mod 4 < 2 ^ 32" using assms mod_less_divisor [of 4 "4 - sz mod 4"] by linarith
  then have m: "memalign sz = sz + (4 - sz mod 4) mod 4" by (simp add: memalign_def)
  have "(sz + (4 - sz mod 4) mod 4) mod 4 = (sz mod 4 + (4 - sz mod 4) mod 4) mod 4"
    by (rule mod_add_left_eq [symmetric])
  also have "\<dots> = 0" by (cases "sz mod 4 = 0") (auto simp: mod_less_divisor less_imp_le)
  finally show "memalign sz mod 4 = 0" unfolding m .
  show "sz \<le> memalign sz" "memalign sz < sz + 4" unfolding m by simp_all
qed

text \<open>The requests \<open>kmalloc\<close> handles: no overflow, and \<open>extend\<close> has room for its headers.\<close>

definition size_ok :: "nat \<Rightarrow> bool" where
  "size_ok sz \<longleftrightarrow> sz + 3 < 2 ^ 32 \<and> room_ok (memalign sz)"

text \<open>The end of \<open>kmalloc\<close>, which takes the block.\<close>

definition take_block :: "nat \<Rightarrow> kheap \<Rightarrow> (nat \<times> kheap) option" where
  "take_block b k = (if b = 0 then Some (0, k)
     else do {
       m \<leftarrow> mblocks k b;
       let k = k\<lparr>kstat := update_stat_up_alloc (bsize m) (kstat k)\<rparr>;
       k \<leftarrow> upd_mb b (\<lambda>m. m\<lparr>refcount := 1\<rparr>) k;
       Some (b + 24, k) })"

text \<open>What a successful allocation of \<open>s\<close> bytes makes of the heap: one more live block.\<close>

definition taken :: "kheap \<Rightarrow> blk list \<Rightarrow> nat \<Rightarrow> nat \<Rightarrow> kheap \<Rightarrow> blk list \<Rightarrow> bool" where
  "taken k bs s p k' bs' \<longleftrightarrow> kinv k' bs' \<and> mem (dyn k') = mem (dyn k) \<and>
     (\<exists>s'. s \<le> s' \<and> p \<noteq> 0 \<and> 24 \<le> p \<and> live bs' = insert (p - 24, s', 1) (live bs) \<and> (p - 24) \<notin> fst ` live bs)"

lemma take_block_taken:
  assumes "kinv k1 (pre @ (b, s', 0) # post)" and "s \<le> s'" and "live (pre @ post) = live bs"
    and "mem (dyn k1) = mem (dyn k)"
  shows "\<exists>k' bs'. take_block b k1 = Some (b + 24, k') \<and> taken k bs s (b + 24) k' bs'"
proof -
  let ?k = "k1\<lparr>kstat := update_stat_up_alloc s' (kstat k1)\<rparr>"
  have "kinv ?k (pre @ (b, s', 0) # post)" using assms(1) by simp
  from kinv_set_refs [OF this, of 1 "\<lambda>m. m\<lparr>refcount := 1\<rparr>"] obtain h where
    h: "upd_mb b (\<lambda>m. m\<lparr>refcount := 1\<rparr>) ?k = Some (?k\<lparr>mblocks := h\<rparr>)"
      "kinv (?k\<lparr>mblocks := h\<rparr>) (pre @ (b, s', 1) # post)" by auto
  have "b \<notin> addrs (pre @ post)" using apart_distinct [OF kinv_parts(3) [OF assms(1)]] by auto
  then have "b \<notin> fst ` live bs" unfolding assms(3) [symmetric] by (auto simp: live_def)
  moreover have "take_block b k1 = Some (b + 24, ?k\<lparr>mblocks := h\<rparr>)"
    using kinvD(1,3) [OF assms(1)] h(1) by (simp add: take_block_def)
  moreover have "taken k bs s (b + 24) (?k\<lparr>mblocks := h\<rparr>) (pre @ (b, s', 1) # post)"
    using h(2) assms(2-4) \<open>b \<notin> fst ` live bs\<close> by (auto simp: taken_def)
  ultimately show ?thesis by blast
qed

text \<open>The part of \<open>kmalloc\<close> that finds or makes the block.\<close>

definition get_block :: "nat \<Rightarrow> kheap \<Rightarrow> (nat \<times> kheap) option" where
  "get_block s k = (if kmalloc_base k \<noteq> 0 then do {
         (b, lst) \<leftarrow> find_mblock (mblocks k) s (kmalloc_base k) (kmalloc_base k);
         if b \<noteq> 0 then do {
           m \<leftarrow> mblocks k b;
           if bsize m - s \<ge> MIN_SPLIT then do { k \<leftarrow> split_mblock b s k; Some (b, k) } else Some (b, k) }
         else extend lst s k }
       else do {
         (b, k) \<leftarrow> extend 0 s k;
         Some (b, if b \<noteq> 0 then k\<lparr>kmalloc_base := b\<rparr> else k) })"

lemma kmalloc_unfold: "kmalloc sz k = do { (b, k) \<leftarrow> get_block (memalign sz) k; take_block b k }"
  unfolding kmalloc_def get_block_def take_block_def Let_def by (rule refl)

abbreviation fits :: "nat \<Rightarrow> blk \<Rightarrow> bool" where
  "fits s \<equiv> \<lambda>(a, s', r). r = 0 \<and> s \<le> s'"

lemma base_empty: "kinv k bs \<Longrightarrow> kmalloc_base k = 0 \<longleftrightarrow> bs = []"
proof (cases bs)
  case (Cons x xs)
  assume "kinv k bs"
  then have "kinv k ([] @ (fst x, fst (snd x), snd (snd x)) # xs)" using Cons by simp
  from kinvD(9) [OF this] Cons show ?thesis by simp
qed (simp add: kinv_def)

lemma get_block_fit:
  assumes "kinv k (pre @ (a, S, 0) # post)" and "s \<le> S" and "s mod 4 = 0" and "\<forall>x \<in> set pre. \<not> fits s x"
  shows "\<exists>k1 s' post'. get_block s k = Some (a, k1) \<and> kinv k1 (pre @ (a, s', 0) # post') \<and> s \<le> s' \<and>
     s' < s + 28 \<and> live post' = live post \<and> dyn k1 = dyn k"
proof -
  let ?bs = "pre @ (a, S, 0) # post"
  note d = kinvD [OF assms(1)]
  have f: "find (fits s) ?bs = Some (a, S, 0)"
    using assms(2,4) by (induction pre) auto
  have "find_mblock (mblocks k) s (kmalloc_base k) (kmalloc_base k) = Some (a, a)"
    using find_mblock_seg [OF kinv_parts(1) [OF assms(1)] _ d(8), of s "kmalloc_base k"] f
      kinv_parts(5) [OF assms(1)] by simp
  then have g: "get_block s k = (if S - s \<ge> 28 then do { k \<leftarrow> split_mblock a s k; Some (a, k) } else Some (a, k))"
    using d(1,3,9) by (simp add: get_block_def)
  show ?thesis
  proof (cases "28 \<le> S - s")
    case True
    then have "s + 28 \<le> S" using assms(2) by simp
    from kinv_split [OF assms(1) this assms(3)] obtain h where
      "split_mblock a s k = Some (k\<lparr>mblocks := h\<rparr>)"
      "kinv (k\<lparr>mblocks := h\<rparr>) (pre @ (a, s, 0) # (a + 24 + s, S - s - 24, 0) # post)" by blast
    with True show ?thesis
      by (intro exI [of _ "k\<lparr>mblocks := h\<rparr>"] exI [of _ s] exI [of _ "(a + 24 + s, S - s - 24, 0) # post"])
        (simp add: g)
  next
    case False
    with assms g show ?thesis by (intro exI [of _ k] exI [of _ S] exI [of _ post]) auto
  qed
qed

lemma get_block_nofit:
  assumes "kinv k bs" and "\<forall>x \<in> set bs. \<not> fits s x"
  shows "get_block s k = do {
     (b, k) \<leftarrow> extend (last_addr 0 bs) s k; Some (b, if b \<noteq> 0 \<and> bs = [] then k\<lparr>kmalloc_base := b\<rparr> else k) }"
proof (cases "bs = []")
  case True
  then show ?thesis using base_empty [OF assms(1)] by (simp add: get_block_def)
next
  case False
  then obtain a s' r bs' where bs: "bs = (a, s', r) # bs'" by (metis list.exhaust prod_cases3)
  have inv: "kinv k ([] @ (a, s', r) # bs')" using assms(1) bs by simp
  have f: "find (fits s) bs = None" using assms(2) unfolding find_None_iff by blast
  have "find_mblock (mblocks k) s (kmalloc_base k) (kmalloc_base k) = Some (0, last_addr 0 bs)"
    using find_mblock_seg [OF kinv_parts(1) [OF assms(1)] False, of s "kmalloc_base k"] f kinvD(8) [OF inv]
      kinv_parts(5) [OF assms(1)] bs by simp
  with kinvD(9) [OF inv] False show ?thesis
    by (simp add: get_block_def case_prod_unfold)
qed


lemma kmalloc_fit:
  assumes "kinv k (pre @ (a, S, 0) # post)" and "size_ok sz" and "memalign sz \<le> S"
    and "\<forall>x \<in> set pre. \<not> fits (memalign sz) x"
  shows "\<exists>k' bs'. kmalloc sz k = Some (a + 24, k') \<and> taken k (pre @ (a, S, 0) # post) (memalign sz) (a + 24) k' bs'"
proof -
  have "memalign sz mod 4 = 0" using assms(2) memalign_round(1) by (simp add: size_ok_def)
  from get_block_fit [OF assms(1,3) this assms(4)] obtain k1 s' post' where
    g: "get_block (memalign sz) k = Some (a, k1)" "kinv k1 (pre @ (a, s', 0) # post')" "memalign sz \<le> s'"
      "live post' = live post" "dyn k1 = dyn k" by blast
  from take_block_taken [OF g(2,3), of "pre @ (a, S, 0) # post" k] g(1,4,5) show ?thesis
    by (simp add: kmalloc_unfold)
qed

lemma kmalloc_extend:
  assumes "kinv k bs" and "size_ok sz" and "\<forall>x \<in> set bs. \<not> fits (memalign sz) x"
    and "extend (last_addr 0 bs) (memalign sz) k = Some (b, k1)" and "b \<noteq> 0"
  shows "\<exists>k' bs'. kmalloc sz k = Some (b + 24, k') \<and> taken k bs (memalign sz) (b + 24) k' bs'"
proof -
  let ?s = "memalign sz"
  have r: "room_ok ?s" using assms(2) by (simp add: size_ok_def)
  from extend_inv [OF assms(1) r assms(4)] assms(5) obtain rest where
    x: "kmalloc_base k1 = kmalloc_base k" "mem (dyn k1) = mem (dyn k)" "live rest = {}"
      "kinv (k1\<lparr>kmalloc_base := hd_addr (bs @ (b, ?s, 0) # rest) 0\<rparr>) (bs @ (b, ?s, 0) # rest)" by blast
  define k2 where "k2 = (if bs = [] then k1\<lparr>kmalloc_base := b\<rparr> else k1)"
  have "k2 = k1\<lparr>kmalloc_base := hd_addr (bs @ (b, ?s, 0) # rest) 0\<rparr>"
  proof (cases bs)
    case (Cons y ys)
    then have "hd_addr (bs @ (b, ?s, 0) # rest) 0 = hd_addr bs 0" by (cases y) simp
    with Cons kinv_parts(5) [OF assms(1)] x(1) show ?thesis by (simp add: k2_def)
  qed (simp add: k2_def)
  with x have k2: "kinv k2 (bs @ (b, ?s, 0) # rest)" "mem (dyn k2) = mem (dyn k)" by simp_all
  have "get_block ?s k = Some (b, k2)"
    using get_block_nofit [OF assms(1,3)] assms(4,5) by (simp add: k2_def)
  with take_block_taken [OF k2(1), of ?s bs k] k2(2) x(3) show ?thesis by (simp add: kmalloc_unfold)
qed

text \<open>Every outcome of \<open>kmalloc\<close>.\<close>

lemma kmalloc_cases:
  assumes "kinv k bs" and "size_ok sz" and "kmalloc sz k = Some (p, k')"
  shows "p = 0 \<and> k' = k \<or> (\<exists>bs'. taken k bs (memalign sz) p k' bs')"
proof (cases "\<exists>x \<in> set bs. fits (memalign sz) x")
  case True
  then obtain y where "find (fits (memalign sz)) bs = Some y"
    by (metis (no_types, lifting) find_None_iff not_Some_eq)
  from find_split [OF this] obtain pre a S post where
    "bs = pre @ (a, S, 0) # post" "memalign sz \<le> S" "\<forall>x \<in> set pre. \<not> fits (memalign sz) x" by (cases y) auto
  with kmalloc_fit [of k pre a S post sz] assms show ?thesis by auto
next
  case False
  have r: "room_ok (memalign sz)" using assms(2) by (simp add: size_ok_def)
  have g: "get_block (memalign sz) k = do {
     (b, k) \<leftarrow> extend (last_addr 0 bs) (memalign sz) k; Some (b, if b \<noteq> 0 \<and> bs = [] then k\<lparr>kmalloc_base := b\<rparr> else k) }"
    using get_block_nofit [OF assms(1)] False by blast
  obtain b k1 where e: "extend (last_addr 0 bs) (memalign sz) k = Some (b, k1)"
    using assms(3) unfolding kmalloc_unfold g by (auto split: Option.bind_splits)
  show ?thesis
  proof (cases "b = 0")
    case True
    with extend_inv [OF assms(1) r e] have "k1 = k" by auto
    with True e assms(3) show ?thesis unfolding kmalloc_unfold g by (simp add: take_block_def)
  next
    case nz: False
    with kmalloc_extend [OF assms(1,2) _ e] False assms(3) show ?thesis by auto
  qed
qed


lemma live_split: "(a, s, r) \<in> live bs \<Longrightarrow> \<exists>pre post. bs = pre @ (a, s, r) # post \<and> 0 < r"
  using split_list [of "(a, s, r)" bs] by (auto simp: live_def)

section \<open>Release, sharing and resizing\<close>

lemma kfree_live:
  assumes "kinv k bs" and "(a, s, r) \<in> live bs"
  shows "\<exists>k' bs'. kfree (a + 24) k = Some k' \<and> kinv k' bs' \<and> mem (dyn k') = mem (dyn k) \<and>
     live bs' = (if r = 1 then {} else {(a, s, r - 1)}) \<union> (live bs - {(a, s, r)})"
proof -
  obtain pre post where bs: "bs = pre @ (a, s, r) # post" and r: "0 < r" using live_split [OF assms(2)] by blast
  have inv: "kinv k (pre @ (a, s, r) # post)" using assms(1) bs by simp
  have "(a, s, r) \<notin> live pre \<union> live post"
    using apart_distinct [OF kinv_parts(3) [OF inv]] by (auto simp: live_def image_iff)
  then have l: "live bs - {(a, s, r)} = live (pre @ post)" using bs r by auto
  show ?thesis
  proof (cases "r = 1")
    case True
    from kfree_last [OF inv [unfolded True]] show ?thesis unfolding l using True by auto
  next
    case False
    then have "1 < r" using r by simp
    from kfree_shared [OF inv this] obtain k' where
      "kfree (a + 24) k = Some k'" "kinv k' (pre @ (a, s, r - 1) # post)" "mem (dyn k') = mem (dyn k)" by blast
    with False \<open>1 < r\<close> show ?thesis unfolding l by (intro exI [of _ k'] exI [of _ "pre @ (a, s, r - 1) # post"]) simp
  qed
qed

text \<open>Every outcome of \<open>kfree\<close>, for any pointer: nothing changes, or a live block loses a reference.\<close>

lemma kfree_cases:
  assumes "kinv k bs" and "kfree p k = Some k'"
  shows "k' = k \<or> (\<exists>a s r bs'. p = a + 24 \<and> (a, s, r) \<in> live bs \<and> kinv k' bs' \<and> mem (dyn k') = mem (dyn k) \<and>
     live bs' = (if r = 1 then {} else {(a, s, r - 1)}) \<union> (live bs - {(a, s, r)}))"
proof -
  obtain v where v: "valid_addr p k = Some v" using assms(2) by (auto simp: kfree_unfold split: Option.bind_splits)
  show ?thesis
  proof (cases v)
    case False
    with v assms(2) show ?thesis by (simp add: kfree_unfold)
  next
    case True
    then obtain m where m: "mblocks k (p - 24) = Some m" "mb_ptr m = p" "signature m = KM_SIGNATURE_VALID"
      using v by (auto simp: valid_addr_def split: if_splits Option.bind_splits)
    show ?thesis
    proof (cases "refcount m \<le> 0")
      case True
      with v \<open>v\<close> m assms(2) show ?thesis by (simp add: kfree_unfold)
    next
      case False
      have "p - 24 \<in> addrs bs"
        using kinv_parts(2) [OF assms(1)] m False unfolding stale_def by fastforce
      then obtain a s r where x: "(a, s, r) \<in> set bs" and a: "p - 24 = a" by (metis imageE prod.collapse)
      then obtain pre post where bs: "bs = pre @ (a, s, r) # post" by (metis split_list)
      have inv: "kinv k (pre @ (a, s, r) # post)" using assms(1) bs by simp
      from kinvD(1) [OF inv] m False a have r: "0 < r" and p: "p = a + 24" by auto
      from x r have l: "(a, s, r) \<in> live bs" by (simp add: live_def)
      from kfree_live [OF assms(1) l] assms(2) p obtain bs' where "kinv k' bs'" "mem (dyn k') = mem (dyn k)"
        "live bs' = (if r = 1 then {} else {(a, s, r - 1)}) \<union> (live bs - {(a, s, r)})" by auto
      with l p show ?thesis by blast
    qed
  qed
qed

lemma kpalloc_inv:
  assumes "kinv k (pre @ (a, s, r) # post)" and "r + 1 < 2 ^ 31"
  shows "\<exists>k'. kpalloc (a + 24) k = Some (a + 24, k') \<and> kinv k' (pre @ (a, s, r + 1) # post) \<and> dyn k' = dyn k"
proof -
  have r: "0 \<le> r" using kinvD(5) [OF assms(1)] .
  with assms(2) have "s32 (r + 1) = r + 1" by simp
  then obtain h where "upd_mb a (\<lambda>m. m\<lparr>refcount := s32 (refcount m + 1)\<rparr>) k = Some (k\<lparr>mblocks := h\<rparr>)"
    "kinv (k\<lparr>mblocks := h\<rparr>) (pre @ (a, s, r + 1) # post)"
    using kinv_set_refs [OF assms(1), of "r + 1" "\<lambda>m. m\<lparr>refcount := s32 (refcount m + 1)\<rparr>"] r assms(2) by auto
  with valid_addr_block [OF assms(1)] show ?thesis by (simp add: kpalloc_def)
qed

text \<open>
  What resizing a block to \<open>s\<close> bytes may do: the block that is returned is live and large enough, it
  is the old one or a new one, it has the contents of the old one, nothing outside it changed, and the
  other live blocks are kept. A block with one owner still has one.
\<close>

definition resized :: "kheap \<Rightarrow> blk list \<Rightarrow> nat \<Rightarrow> nat \<Rightarrow> nat \<Rightarrow> nat \<Rightarrow> kheap \<Rightarrow> blk list \<Rightarrow> bool" where
  "resized k bs a s0 s q k' bs' \<longleftrightarrow> kinv k' bs' \<and> 24 \<le> q \<and> (q = a + 24 \<or> q - 24 \<notin> fst ` live bs) \<and>
     (\<exists>s' r'. (q - 24, s', r') \<in> live bs' \<and> s \<le> s' \<and> ((a, s0, r') \<in> live bs \<or> r' = 1) \<and>
        (\<forall>x. \<not> (q \<le> x \<and> x < q + s') \<longrightarrow> mem (dyn k') x = mem (dyn k) x)) \<and>
     (\<forall>i < min s0 s. mem (dyn k') (q + i) = mem (dyn k) (a + 24 + i)) \<and>
     (\<forall>x \<in> live bs. fst x \<noteq> a \<longrightarrow> x \<in> live bs')"

lemma resized_in_place:
  assumes "kinv k' (pre @ (a, s', r) # post')" and "live post' = live post" and "0 < r" and "s \<le> s'"
    and "mem (dyn k') = mem (dyn k)"
  shows "resized k (pre @ (a, s0, r) # post) a s0 s (a + 24) k' (pre @ (a, s', r) # post')"
  using assms by (auto simp: resized_def)

lemma alloc_new_block_resized:
  assumes inv: "kinv k bs" and l: "(a, s0, r) \<in> live bs" and "size_ok s" and "memalign s = s" and "s0 < s"
    and "alloc_new_block (a + 24) s k = Some (q, k')"
  shows "q = 0 \<and> k' = k \<or> (\<exists>bs'. resized k bs a s0 s q k' bs')"
proof -
  obtain k1 where k1: "kmalloc s k = Some (q, k1)" and q0: "q = 0 \<longrightarrow> k' = k1"
    using assms(6) by (auto simp: alloc_new_block_def Let_def split: Option.bind_splits if_splits)
  show ?thesis
  proof (cases "q = 0 \<and> k1 = k")
    case True
    with q0 show ?thesis by simp
  next
    case False
    with kmalloc_cases [OF inv assms(3) k1] assms(4) obtain bs1 where "taken k bs s q k1 bs1" by auto
    then obtain s' where t: "kinv k1 bs1" "mem (dyn k1) = mem (dyn k)" "s \<le> s'" "q \<noteq> 0" "24 \<le> q"
      "live bs1 = insert (q - 24, s', 1) (live bs)" "q - 24 \<notin> fst ` live bs" by (auto simp: taken_def)
    have l1: "(a, s0, r) \<in> live bs1" using l t(6) by simp
    then obtain pre post where bs1: "bs1 = pre @ (a, s0, r) # post" using live_split by blast
    have ma: "mblocks k1 a = Some (mk a s0 r (hd_addr post 0) (last_addr 0 pre))"
      using kinvD(1) t(1) bs1 by blast
    define k2 where "k2 = k1\<lparr>dyn := (dyn k1)\<lparr>mem := memcpy q (a + 24) s0 (mem (dyn k1))\<rparr>\<rparr>"
    have k2: "kinv k2 bs1" using t(1) by (simp add: k2_def)
    have kf: "kfree (a + 24) k2 = Some k'"
      using assms(6) k1 t(4) ma by (auto simp: alloc_new_block_def k2_def Let_def split: Option.bind_splits)
    have ne: "a \<noteq> q - 24" using t(7) l by (force simp: image_iff)
    obtain bs' where b: "kinv k' bs'" "mem (dyn k') = mem (dyn k2)" "live bs1 - {(a, s0, r)} \<subseteq> live bs'"
    proof -
      from kfree_cases [OF k2 kf] show thesis
      proof
        assume "k' = k2"
        then show thesis using k2 that by blast
      next
        assume "\<exists>a' s r bs'. a + 24 = a' + 24 \<and> (a', s, r) \<in> live bs1 \<and> kinv k' bs' \<and> mem (dyn k') = mem (dyn k2) \<and>
          live bs' = (if r = 1 then {} else {(a', s, r - 1)}) \<union> (live bs1 - {(a', s, r)})"
        then obtain s1 r1 bs' where x: "(a, s1, r1) \<in> live bs1" "kinv k' bs'" "mem (dyn k') = mem (dyn k2)"
          "live bs1 - {(a, s1, r1)} \<subseteq> live bs'" by auto
        have "(a, s1, r1) = (a, s0, r)"
          using x(1) l1 apart_distinct [OF kinv_parts(3) [OF k2]] unfolding live_def
          by (auto dest: eq_key_imp_eq_value)
        with x that show thesis by simp
      qed
    qed
    have "(q - 24, s', 1) \<in> set bs1" "(a, s0, r) \<in> set bs1"
      using t(6) l1 unfolding live_def by blast+
    from apart_set [OF kinv_parts(3) [OF t(1)] this] ne have "q \<le> a + 24 \<or> a + 24 + s0 \<le> q"
      using t(5) unfolding apart_def by simp linarith
    then have md: "mem (dyn k') x = phys_copy q (a + 24) s0 (mem (dyn k)) x" for x
      using b(2) t(2) by (simp add: k2_def memcpy_eq)
    have "resized k bs a s0 s q k' bs'"
      unfolding resized_def
    proof (intro conjI)
      show "q = a + 24 \<or> q - 24 \<notin> fst ` live bs" using t(7) by simp
      show "\<exists>s' r'. (q - 24, s', r') \<in> live bs' \<and> s \<le> s' \<and> ((a, s0, r') \<in> live bs \<or> r' = 1) \<and>
        (\<forall>x. \<not> (q \<le> x \<and> x < q + s') \<longrightarrow> mem (dyn k') x = mem (dyn k) x)"
        using b(3) t(3,6) ne assms(5) md by (intro exI [of _ s'] exI [of _ 1]) (auto simp: phys_copy_def)
      show "\<forall>i < min s0 s. mem (dyn k') (q + i) = mem (dyn k) (a + 24 + i)"
        using md by (simp add: phys_copy_def)
      show "\<forall>x \<in> live bs. fst x \<noteq> a \<longrightarrow> x \<in> live bs'" using b(3) t(6) by auto
    qed (use b(1) t(5) in auto)
    then show ?thesis by blast
  qed
qed


lemma size_ok_memalign:
  assumes "size_ok sz"
  shows "size_ok (memalign sz)" and "memalign (memalign sz) = memalign sz" and "memalign sz mod 4 = 0"
proof -
  have m: "memalign sz mod 4 = 0" "memalign sz + 24 < 2 ^ 32" using assms by (auto simp: size_ok_def room_ok_def)
  then show "memalign (memalign sz) = memalign sz" "memalign sz mod 4 = 0"
    by (simp_all add: memalign_def [of "memalign sz"])
  with assms m show "size_ok (memalign sz)" by (simp add: size_ok_def)
qed

text \<open>Cutting a block in place, the shrinking branch and the end of the growing one.\<close>

lemma cut_block:
  assumes "kinv k (pre @ (a, S, r) # post)" and "s \<le> S" and "s mod 4 = 0"
  shows "\<exists>h s' post'. (if 28 \<le> S - s then split_mblock a s k else Some k) = Some (k\<lparr>mblocks := h\<rparr>) \<and>
     kinv (k\<lparr>mblocks := h\<rparr>) (pre @ (a, s', r) # post') \<and> s \<le> s' \<and> live post' = live post"
proof (cases "28 \<le> S - s")
  case True
  then have "s + 28 \<le> S" using assms(2) by simp
  from kinv_split [OF assms(1) this assms(3)] obtain h where "split_mblock a s k = Some (k\<lparr>mblocks := h\<rparr>)"
    "kinv (k\<lparr>mblocks := h\<rparr>) (pre @ (a, s, r) # (a + 24 + s, S - s - 24, 0) # post)" by blast
  with True show ?thesis
    by (intro exI [of _ h] exI [of _ s] exI [of _ "(a + 24 + s, S - s - 24, 0) # post"]) simp
next
  case False
  with assms show ?thesis by (intro exI [of _ "mblocks k"] exI [of _ S] exI [of _ post]) simp
qed

lemma krealloc_grow:
  assumes inv: "kinv k (pre @ (a, S, r) # post)" and r: "0 < r" and S: "s \<le> S" and s4: "s mod 4 = 0"
    and pl: "live post = live post0" and md: "mem (dyn k) = mem (dyn k0)"
  shows "\<exists>k1 bs'. (do {
       k \<leftarrow> (if 28 \<le> S - s then split_mblock a s (k\<lparr>kstat := st\<rparr>) else Some (k\<lparr>kstat := st\<rparr>));
       m'' \<leftarrow> mblocks k a;
       let k = k\<lparr>kstat := update_stat_up_alloc (bsize m'') (kstat k)\<rparr>;
       Some (a + 24, k) }) = Some (a + 24, k1) \<and>
     resized k0 (pre @ (a, s0, r) # post0) a s0 s (a + 24) k1 bs'"
proof -
  have "kinv (k\<lparr>kstat := st\<rparr>) (pre @ (a, S, r) # post)" using inv by simp
  from cut_block [OF this S s4] obtain h s' post' where
    c: "(if 28 \<le> S - s then split_mblock a s (k\<lparr>kstat := st\<rparr>) else Some (k\<lparr>kstat := st\<rparr>)) =
          Some (k\<lparr>kstat := st, mblocks := h\<rparr>)"
      "kinv (k\<lparr>kstat := st, mblocks := h\<rparr>) (pre @ (a, s', r) # post')" "s \<le> s'" "live post' = live post" by auto
  let ?k = "k\<lparr>mblocks := h, kstat := update_stat_up_alloc s' st\<rparr>"
  have "mblocks (k\<lparr>kstat := st, mblocks := h\<rparr>) a = Some (mk a s' r (hd_addr post' 0) (last_addr 0 pre))"
    using kinvD(1) [OF c(2)] .
  moreover have "kinv ?k (pre @ (a, s', r) # post')" using c(2) by (simp add: kinv_def)
  then have "resized k0 (pre @ (a, s0, r) # post0) a s0 s (a + 24) ?k (pre @ (a, s', r) # post')"
    by (rule resized_in_place) (use c(3,4) pl r md in simp_all)
  ultimately show ?thesis unfolding c(1) by auto
qed

lemma krealloc_cases:
  assumes "kinv k bs" and "(a, s0, r) \<in> live bs" and "size_ok sz" and "krealloc (a + 24) sz k = Some (q, k')"
  shows "q = 0 \<and> k' = k \<or> (\<exists>bs'. resized k bs a s0 (memalign sz) q k' bs')"
proof -
  let ?s = "memalign sz"
  obtain pre post where bs: "bs = pre @ (a, s0, r) # post" and r: "0 < r" using live_split [OF assms(2)] by blast
  have inv: "kinv k (pre @ (a, s0, r) # post)" using assms(1) bs by simp
  note v = valid_addr_block [OF inv] and m = kinvD(1) [OF inv] and sm = size_ok_memalign [OF assms(3)]
  note new = alloc_new_block_resized [OF assms(1,2) sm(1,2)]
  show ?thesis
  proof (cases "?s \<le> s0")
    case True
    from cut_block [OF inv True sm(3)] obtain h s' post' where
      "(if 28 \<le> s0 - ?s then split_mblock a ?s k else Some k) = Some (k\<lparr>mblocks := h\<rparr>)"
      "kinv (k\<lparr>mblocks := h\<rparr>) (pre @ (a, s', r) # post')" "?s \<le> s'" "live post' = live post" by blast
    note c = this
    have "q = a + 24 \<and> k' = k\<lparr>mblocks := h\<rparr>"
    proof (cases "28 \<le> s0 - ?s")
      case True
      with assms(4) v m c(1) \<open>?s \<le> s0\<close> show ?thesis by (simp add: krealloc_def Let_def)
    next
      case False
      with c(1) have "k\<lparr>mblocks := h\<rparr> = k" by simp
      with False assms(4) v m \<open>?s \<le> s0\<close> show ?thesis by (simp add: krealloc_def Let_def)
    qed
    with resized_in_place [OF c(2,4) r c(3), of k s0] bs show ?thesis by auto
  next
    case False
    then have lt: "s0 < ?s" by simp
    show ?thesis
    proof (cases "post = []")
      case True
      with assms(4) v m lt have "alloc_new_block (a + 24) ?s k = Some (q, k')" by (simp add: krealloc_def Let_def)
      from new [OF lt this] show ?thesis .
    next
      case ne: False
      then obtain c sc rc post' where post: "post = (c, sc, rc) # post'" by (metis list.exhaust prod_cases3)
      have invc: "kinv k ((pre @ [(a, s0, r)]) @ (c, sc, rc) # post')" using inv post by simp
      note mc = kinvD(1) [OF invc] and c0 = kinvD(3) [OF invc]
      show ?thesis
      proof (cases "rc = 0 \<and> szt (s0 + 24 + sc) \<ge> ?s")
        case ncond: False
        with assms(4) v m mc c0 post lt have "alloc_new_block (a + 24) ?s k = Some (q, k')"
          by (simp add: krealloc_def Let_def split: if_splits)
        from new [OF lt this] show ?thesis .
      next
        case cond: True
        obtain h s2 post2 where g: "merge a k = Some (k\<lparr>mblocks := h\<rparr>)"
          "kinv (k\<lparr>mblocks := h\<rparr>) (pre @ (a, s2, r) # post2)" "live post2 = live post"
          "s2 = s0 \<and> post2 = post \<and> h = mblocks k \<or> (\<exists>s'. post = (a + 24 + s0, s', 0) # post2 \<and> s2 = s0 + 24 + s')"
          using kinv_merge_cases [OF inv] by blast
        note ma = kinvD(1) [OF g(2)]
        show ?thesis
        proof (cases "s2 < ?s")
          case True
          have "s2 = s0 \<and> h = mblocks k"
          proof (rule ccontr)
            assume "\<not> ?thesis"
            with g(4) post have "s2 = s0 + 24 + sc" by auto
            moreover have "szt (s0 + 24 + sc) \<le> s0 + 24 + sc" by (rule szt_le)
            ultimately show False using cond True by simp
          qed
          with True assms(4) v m mc c0 post cond lt g(1)
          have "alloc_new_block (a + 24) ?s k = Some (q, k')" by (simp add: krealloc_def Let_def)
          from new [OF lt this] show ?thesis .
        next
          case big: False
          let ?k1 = "k\<lparr>mblocks := h\<rparr>"
          from big have le: "?s \<le> s2" by simp
          from krealloc_grow [OF g(2) r le sm(3) g(3), of k "update_stat_down_alloc s0 (kstat k)" s0]
          obtain k1 bs' where k1: "(do {
               k \<leftarrow> (if 28 \<le> s2 - ?s then split_mblock a ?s (?k1\<lparr>kstat := update_stat_down_alloc s0 (kstat k)\<rparr>)
                    else Some (?k1\<lparr>kstat := update_stat_down_alloc s0 (kstat k)\<rparr>));
               m'' \<leftarrow> mblocks k a;
               let k = k\<lparr>kstat := update_stat_up_alloc (bsize m'') (kstat k)\<rparr>;
               Some (a + 24, k) }) = Some (a + 24, k1)"
            "resized k (pre @ (a, s0, r) # post) a s0 ?s (a + 24) k1 bs'" by auto
          have "krealloc (a + 24) sz k = Some (a + 24, k1)"
            using v m mc c0 post cond lt g(1) ma big k1(1) by (simp add: krealloc_def Let_def cong: if_cong)
          with k1(2) assms(4) bs show ?thesis by auto
        qed
      qed
    qed
  qed
qed


section \<open>Histories\<close>

text \<open>
  The states the kernel reaches: requests of a size that \<open>kmalloc\<close> handles, \<open>kfree\<close> of any pointer
  (also through the lazy queue), and \<open>kpalloc\<close> and \<open>krealloc\<close> of pointers to allocated blocks.
\<close>

definition allocated :: "kheap \<Rightarrow> nat \<Rightarrow> bool" where
  "allocated k p \<longleftrightarrow> 24 \<le> p \<and> (\<exists>bs. kinv k bs \<and> p - 24 \<in> fst ` live bs)"

inductive kreach :: "kheap \<Rightarrow> bool" where
  boot: "dm_inv d \<Longrightarrow> kreach (kheap_boot d)"
| malloc: "kreach k \<Longrightarrow> size_ok sz \<Longrightarrow> kmalloc sz k = Some (p, k') \<Longrightarrow> kreach k'"
| zalloc: "kreach k \<Longrightarrow> size_ok sz \<Longrightarrow> kzalloc sz k = Some (p, k') \<Longrightarrow> kreach k'"
| calloc: "kreach k \<Longrightarrow> size_ok (szt (n * sz)) \<Longrightarrow> kcalloc n sz k = Some (p, k') \<Longrightarrow> kreach k'"
| free: "kreach k \<Longrightarrow> kfree p k = Some k' \<Longrightarrow> kreach k'"
| lazy: "kreach k \<Longrightarrow> kfree_lazy p k = Some k' \<Longrightarrow> kreach k'"
| idle: "kreach k \<Longrightarrow> idle_lazy_free buf k = Some k' \<Longrightarrow> kreach k'"
| share: "kreach k \<Longrightarrow> allocated k p \<Longrightarrow> \<forall>m. mblocks k (p - 24) = Some m \<longrightarrow> refcount m + 1 < 2 ^ 31 \<Longrightarrow>
     kpalloc p k = Some (q, k') \<Longrightarrow> kreach k'"
| realloc: "kreach k \<Longrightarrow> allocated k p \<Longrightarrow> size_ok sz \<Longrightarrow> krealloc p sz k = Some (q, k') \<Longrightarrow> kreach k'"

lemma kinv_boot: "dm_inv d \<Longrightarrow> kinv (kheap_boot d) []"
  by (simp add: kinv_def kheap_boot_def stale_def)

lemma kinv_zero_mem [simp]: "kinv (zero_mem p n k) = kinv k"
  by (rule ext) (simp add: zero_mem_def)

lemma kmalloc_keeps: "kinv k bs \<Longrightarrow> size_ok sz \<Longrightarrow> kmalloc sz k = Some (p, k') \<Longrightarrow> \<exists>bs'. kinv k' bs'"
  using kmalloc_cases [of k bs sz p k'] by (auto simp: taken_def)

lemma kfree_keeps: "kinv k bs \<Longrightarrow> kfree p k = Some k' \<Longrightarrow> \<exists>bs'. kinv k' bs'"
  using kfree_cases [of k bs p k'] by blast

lemma kreach_kinv: "kreach k \<Longrightarrow> \<exists>bs. kinv k bs"
proof (induction rule: kreach.induct)
  case (boot d)
  then show ?case using kinv_boot by blast
next
  case (malloc k sz p k')
  then show ?case using kmalloc_keeps by blast
next
  case (zalloc k sz p k')
  then show ?case using kmalloc_keeps [of k _ sz] by (auto simp: kzalloc_def split: Option.bind_splits)
next
  case (calloc k n sz p k')
  then show ?case using kmalloc_keeps [of k _ "szt (n * sz)"] by (auto simp: kcalloc_def split: Option.bind_splits)
next
  case (free k p k')
  then show ?case using kfree_keeps by blast
next
  case (lazy k p k')
  then show ?case by (auto simp: kfree_lazy_def Let_def split: Option.bind_splits)
next
  case (idle k buf k')
  then obtain bs where bs: "kinv k bs" by blast
  obtain rc ad q where "queue_pop (lazy_free_queue k) buf = Some (rc, ad, q)"
    "(if rc \<noteq> 0 then kfree (bytes_ptr ad) (k\<lparr>lazy_free_queue := q\<rparr>) else Some (k\<lparr>lazy_free_queue := q\<rparr>)) = Some k'"
    using idle.hyps(2) by (auto simp: idle_lazy_free_def Let_def split: Option.bind_splits)
  with bs kfree_keeps [of "k\<lparr>lazy_free_queue := q\<rparr>" bs "bytes_ptr ad" k'] show ?case
    by (auto split: if_splits)
next
  case (share k p q k')
  then obtain bs a s r where k: "kinv k bs" "(a, s, r) \<in> live bs" "p = a + 24"
    by (force simp: allocated_def)
  then obtain pre post where bs: "bs = pre @ (a, s, r) # post" using live_split by blast
  have inv: "kinv k (pre @ (a, s, r) # post)" using k bs by simp
  with share.hyps(3) k(3) kinvD(1) [OF inv] have "r + 1 < 2 ^ 31" by simp
  from kpalloc_inv [OF inv this] share.hyps(4) k(3) show ?case by auto
next
  case (realloc k p sz q k')
  then obtain bs a s r where k: "kinv k bs" "(a, s, r) \<in> live bs" "p = a + 24"
    by (force simp: allocated_def)
  with krealloc_cases [OF k(1,2) realloc.hyps(3)] realloc.hyps(4) show ?case
    by (auto simp: resized_def)
qed


section \<open>The contract of an allocator\<close>

text \<open>
  What the rest of the kernel relies on: \<open>ok h b\<close> says the heap \<open>h\<close> is sound with blocks \<open>b\<close>,
  \<open>held b\<close> are the allocated ones with pointer, size and reference count. An allocation adds one
  block, a release of a block with one reference takes exactly that block away.
\<close>

locale allocator =
  fixes ok :: "'h \<Rightarrow> 'b \<Rightarrow> bool" and held :: "'b \<Rightarrow> (nat \<times> nat \<times> int) set" and good :: "nat \<Rightarrow> bool"
    and alloc :: "nat \<Rightarrow> 'h \<Rightarrow> (nat \<times> 'h) option" and release :: "nat \<Rightarrow> 'h \<Rightarrow> 'h option"
  assumes alloc_held: "ok h b \<Longrightarrow> good n \<Longrightarrow> alloc n h = Some (p, h') \<Longrightarrow> p \<noteq> 0 \<Longrightarrow>
      \<exists>b' s. ok h' b' \<and> n \<le> s \<and> held b' = insert (p, s, 1) (held b) \<and> p \<notin> fst ` held b"
    and alloc_null: "ok h b \<Longrightarrow> good n \<Longrightarrow> alloc n h = Some (0, h') \<Longrightarrow> h' = h"
    and release_held: "ok h b \<Longrightarrow> (p, s, 1) \<in> held b \<Longrightarrow>
      \<exists>h' b'. release p h = Some h' \<and> ok h' b' \<and> held b' = held b - {(p, s, 1)}"
    and held_inj: "ok h b \<Longrightarrow> (p, s, r) \<in> held b \<Longrightarrow> (p, s', r') \<in> held b \<Longrightarrow> s = s' \<and> r = r'"
begin

text \<open>A client allocates a number of buffers and releases those it got, in any order.\<close>

fun alloc_all :: "nat list \<Rightarrow> 'h \<Rightarrow> (nat list \<times> 'h) option" where
  "alloc_all [] h = Some ([], h)"
| "alloc_all (n # ns) h = do { (p, h) \<leftarrow> alloc n h; (ps, h) \<leftarrow> alloc_all ns h; Some (p # ps, h) }"

fun release_all :: "nat list \<Rightarrow> 'h \<Rightarrow> 'h option" where
  "release_all [] h = Some h"
| "release_all (p # ps) h = do { h \<leftarrow> release p h; release_all ps h }"

lemma release_all_held:
  "ok h b \<Longrightarrow> distinct qs \<Longrightarrow> \<forall>q \<in> set qs. \<exists>s. (q, s, 1) \<in> held b \<Longrightarrow>
   \<exists>h' b'. release_all qs h = Some h' \<and> ok h' b' \<and> held b' = {x \<in> held b. fst x \<notin> set qs}"
proof (induction qs arbitrary: h b)
  case (Cons q qs)
  then obtain s where q: "(q, s, 1) \<in> held b" by auto
  obtain h1 b1 where h1: "release q h = Some h1" "ok h1 b1" "held b1 = held b - {(q, s, 1)}"
    using release_held [OF Cons.prems(1) q] by blast
  have "\<forall>q \<in> set qs. \<exists>s. (q, s, 1) \<in> held b1" using Cons.prems(2,3) h1(3) by auto
  from Cons.IH [OF h1(2) _ this] Cons.prems(2) obtain h' b' where
    "release_all qs h1 = Some h'" "ok h' b'" "held b' = {x \<in> held b1. fst x \<notin> set qs}" by auto
  moreover have "{x \<in> held b1. fst x \<notin> set qs} = {x \<in> held b. fst x \<notin> set (q # qs)}"
  proof -
    have u: "x = (q, s, 1)" if "x \<in> held b" "fst x = q" for x
      using held_inj [OF Cons.prems(1) q, of "fst (snd x)" "snd (snd x)"] that by (cases x) auto
    show ?thesis
    proof (intro set_eqI iffI)
      fix x assume "x \<in> {x \<in> held b1. fst x \<notin> set qs}"
      then show "x \<in> {x \<in> held b. fst x \<notin> set (q # qs)}" using u [of x] unfolding h1(3) by simp blast
    next
      fix x assume "x \<in> {x \<in> held b. fst x \<notin> set (q # qs)}"
      then show "x \<in> {x \<in> held b1. fst x \<notin> set qs}" unfolding h1(3) by (cases x) simp
    qed
  qed
  ultimately show ?case using h1(1) by auto
qed auto

lemma alloc_all_held:
  "ok h b \<Longrightarrow> \<forall>n \<in> set ns. good n \<Longrightarrow> alloc_all ns h = Some (ps, h') \<Longrightarrow>
   \<exists>b'. ok h' b' \<and> distinct (filter (\<lambda>p. p \<noteq> 0) ps) \<and> held b \<subseteq> held b' \<and>
     (\<forall>x \<in> held b' - held b. snd (snd x) = 1) \<and> fst ` (held b' - held b) = set ps - {0} \<and>
     fst ` held b \<inter> (set ps - {0}) = {}"
proof (induction ns arbitrary: h b ps)
  case (Cons n ns)
  obtain p h1 ps1 where a: "alloc n h = Some (p, h1)" "alloc_all ns h1 = Some (ps1, h')" "ps = p # ps1"
    using Cons.prems(3) by (auto split: Option.bind_splits)
  show ?case
  proof (cases "p = 0")
    case True
    with alloc_null [OF Cons.prems(1)] a(1) Cons.prems(2) have "h1 = h" by auto
    with Cons.IH [of h b ps1] Cons.prems a True show ?thesis by auto
  next
    case False
    with alloc_held [OF Cons.prems(1) _ a(1)] Cons.prems(2) obtain b1 s where
      b1: "ok h1 b1" "held b1 = insert (p, s, 1) (held b)" "p \<notin> fst ` held b" by auto
    from Cons.IH [OF b1(1) _ a(2)] Cons.prems(2) obtain b' where
      b': "ok h' b'" "distinct (filter (\<lambda>p. p \<noteq> 0) ps1)" "held b1 \<subseteq> held b'"
        "\<forall>x \<in> held b' - held b1. snd (snd x) = 1" "fst ` (held b' - held b1) = set ps1 - {0}"
        "fst ` held b1 \<inter> (set ps1 - {0}) = {}" by auto
    have new: "held b' - held b = insert (p, s, 1) (held b' - held b1)"
      using b1(2,3) b'(3) by (auto simp: image_iff)
    have "fst ` (held b' - held b) = set ps - {0}"
      unfolding new a(3) image_insert b'(5) using False by auto
    moreover have "\<forall>x \<in> held b' - held b. snd (snd x) = 1" unfolding new using b'(4) by auto
    moreover have "p \<notin> set ps1" using b1(2) b'(6) False by auto
    moreover have "fst ` held b \<inter> (set ps - {0}) = {}" using b1(2,3) b'(6) a(3) by auto
    ultimately show ?thesis using b' b1(2) a(3) False by (intro exI [of _ b']) auto
  qed
qed auto

text \<open>Allocating and releasing is balanced: the blocks held before are held again, and no others.\<close>

lemma buffers_balanced:
  assumes "ok h b" and "\<forall>n \<in> set ns. good n" and "alloc_all ns h = Some (ps, h1)"
    and "distinct qs" and "set qs = set ps - {0}"
  shows "distinct (filter (\<lambda>p. p \<noteq> 0) ps) \<and> (\<exists>h2 b2. release_all qs h1 = Some h2 \<and> ok h2 b2 \<and> held b2 = held b)"
proof -
  obtain b1 where b1: "ok h1 b1" "distinct (filter (\<lambda>p. p \<noteq> 0) ps)" "held b \<subseteq> held b1"
    "\<forall>x \<in> held b1 - held b. snd (snd x) = 1" "fst ` (held b1 - held b) = set qs" "fst ` held b \<inter> set qs = {}"
    using alloc_all_held [OF assms(1-3)] assms(5) by metis
  have "\<forall>q \<in> set qs. \<exists>s. (q, s, 1) \<in> held b1"
  proof
    fix q assume "q \<in> set qs"
    then obtain x where x: "x \<in> held b1 - held b" "q = fst x" using b1(5) by blast
    with b1(4) have "x = (q, fst (snd x), 1)" by (metis prod.collapse)
    with x(1) show "\<exists>s. (q, s, 1) \<in> held b1" by (metis DiffD1)
  qed
  from release_all_held [OF b1(1) assms(4) this] obtain h2 b2 where
    r: "release_all qs h1 = Some h2" "ok h2 b2" "held b2 = {x \<in> held b1. fst x \<notin> set qs}" by blast
  have "held b2 = held b"
  proof
    show "held b2 \<subseteq> held b" using r(3) b1(5) by blast
    show "held b \<subseteq> held b2" using r(3) b1(3,6) by blast
  qed
  with r b1(2) show ?thesis by blast
qed

end

definition held_blocks :: "blk list \<Rightarrow> (nat \<times> nat \<times> int) set" where
  "held_blocks bs = (\<lambda>(a, s, r). (a + 24, s, r)) ` live bs"

lemma held_mem: "(p, s, r) \<in> held_blocks bs \<longleftrightarrow> 24 \<le> p \<and> (p - 24, s, r) \<in> live bs"
proof
  assume "24 \<le> p \<and> (p - 24, s, r) \<in> live bs"
  then have "(p - 24 + 24, s, r) \<in> held_blocks bs" unfolding held_blocks_def by force
  then show "(p, s, r) \<in> held_blocks bs" using \<open>24 \<le> p \<and> _\<close> by simp
qed (auto simp: held_blocks_def)

lemma live_inj: "kinv k bs \<Longrightarrow> (a, s, r) \<in> live bs \<Longrightarrow> (a, s', r') \<in> live bs \<Longrightarrow> s = s' \<and> r = r'"
  using apart_distinct [of bs] kinv_parts(3) [of k bs] by (auto simp: live_def dest: eq_key_imp_eq_value)

interpretation km: allocator kinv held_blocks size_ok kmalloc kfree
proof
  fix h b n p h'
  assume a: "kinv h b" "size_ok n" "kmalloc n h = Some (p, h')" "p \<noteq> 0"
  then obtain bs' where "taken h b (memalign n) p h' bs'" using kmalloc_cases by blast
  then obtain s' where t: "kinv h' bs'" "memalign n \<le> s'" "24 \<le> p"
    "live bs' = insert (p - 24, s', 1) (live b)" "p - 24 \<notin> fst ` live b" by (auto simp: taken_def)
  have "n \<le> s'" using a(2) memalign_round(2) [of n] t(2) by (simp add: size_ok_def)
  moreover have "held_blocks bs' = insert (p, s', 1) (held_blocks b)" using t(3,4) by (simp add: held_blocks_def)
  moreover have "p \<notin> fst ` held_blocks b" using t(5) by (auto simp: held_blocks_def image_iff split: prod.splits)
  ultimately show "\<exists>b' s. kinv h' b' \<and> n \<le> s \<and> held_blocks b' = insert (p, s, 1) (held_blocks b) \<and> p \<notin> fst ` held_blocks b"
    using t(1) by blast
next
  show "h' = h" if "kinv h b" "size_ok n" "kmalloc n h = Some (0, h')" for h b n h'
    using kmalloc_cases [OF that] by (auto simp: taken_def)
next
  fix h b p s
  assume k: "kinv h b" and "(p, s, 1) \<in> held_blocks b"
  then have p: "24 \<le> p" "(p - 24, s, 1) \<in> live b" by (simp_all add: held_mem)
  from live_split [OF p(2)] obtain pre post where b: "b = pre @ (p - 24, s, 1) # post" by blast
  obtain k' bs' where r: "kfree (p - 24 + 24) h = Some k'" "kinv k' bs'" "live bs' = live (pre @ post)"
    using kfree_last k b by blast
  have "(p - 24, s, 1) \<notin> live (pre @ post)"
    using apart_distinct [OF kinv_parts(3) [OF k]] b by (auto simp: live_def image_iff)
  then have "live bs' = live b - {(p - 24, s, 1)}" using r(3) b by auto
  moreover have "inj_on (\<lambda>(a, s, r). (a + 24, s, r)) (live b)" by (auto simp: inj_on_def)
  ultimately have "held_blocks bs' = held_blocks b - {(p, s, 1)}"
    using p unfolding held_blocks_def by (simp add: inj_on_image_set_diff)
  with r(1,2) p(1) show "\<exists>h' b'. kfree p h = Some h' \<and> kinv h' b' \<and> held_blocks b' = held_blocks b - {(p, s, 1)}"
    by auto
next
  show "s = s' \<and> r = r'" if "kinv h b" "(p, s, r) \<in> held_blocks b" "(p, s', r') \<in> held_blocks b" for h b p s r s' r'
    using that live_inj [OF that(1)] unfolding held_mem by blast
qed

section \<open>The contract of buffers that grow\<close>

text \<open>
  A client that keeps tables of pointers also resizes its buffers. \<open>owns b m\<close>: for every pointer in
  the domain of \<open>m\<close> the client holds the only reference to a block of at least that many bytes.
\<close>

locale growing_allocator = allocator +
  fixes grow :: "nat \<Rightarrow> nat \<Rightarrow> 'a \<Rightarrow> (nat \<times> 'a) option"
  assumes grow_held: "ok h b \<Longrightarrow> (p, s, 1) \<in> held b \<Longrightarrow> good n \<Longrightarrow> grow p n h = Some (q, h') \<Longrightarrow> q \<noteq> 0 \<Longrightarrow>
      \<exists>b' s'. ok h' b' \<and> n \<le> s' \<and> (q, s', 1) \<in> held b' \<and> (q = p \<or> q \<notin> fst ` held b) \<and>
        (\<forall>x \<in> held b. fst x \<noteq> p \<longrightarrow> x \<in> held b')"
    and grow_null: "ok h b \<Longrightarrow> (p, s, 1) \<in> held b \<Longrightarrow> good n \<Longrightarrow> grow p n h = Some (0, h') \<Longrightarrow> h' = h"
begin

definition owns :: "'b \<Rightarrow> (nat \<rightharpoonup> nat) \<Rightarrow> bool" where
  "owns b m \<longleftrightarrow> (\<forall>p n. m p = Some n \<longrightarrow> (\<exists>s. n \<le> s \<and> (p, s, 1) \<in> held b))"

lemma ownsD: "owns b m \<Longrightarrow> m p = Some n \<Longrightarrow> \<exists>s. n \<le> s \<and> (p, s, 1) \<in> held b"
  by (simp add: owns_def)

lemma owns_fst: "owns b m \<Longrightarrow> q \<notin> fst ` held b \<Longrightarrow> m q = None"
  using ownsD [of b m q] by (cases "m q") (auto intro: rev_image_eqI)

lemma owns_alloc:
  assumes "ok h b" and "owns b m" and "good n" and "alloc n h = Some (p, h')" and "p \<noteq> 0"
  shows "m p = None \<and> (\<exists>b'. ok h' b' \<and> owns b' (m(p \<mapsto> n)))"
proof -
  obtain b' s where b: "ok h' b'" "n \<le> s" "held b' = insert (p, s, 1) (held b)" "p \<notin> fst ` held b"
    using alloc_held [OF assms(1,3-5)] by blast
  have "owns b' (m(p \<mapsto> n))" using assms(2) b(2,3) by (auto simp: owns_def)
  with b(1) owns_fst [OF assms(2) b(4)] show ?thesis by blast
qed

lemma owns_release:
  assumes "ok h b" and "owns b m" and "m p = Some n"
  shows "\<exists>h' b'. release p h = Some h' \<and> ok h' b' \<and> owns b' (m(p := None))"
proof -
  obtain s where s: "(p, s, 1) \<in> held b" using ownsD [OF assms(2,3)] by blast
  obtain h' b' where h: "release p h = Some h'" "ok h' b'" "held b' = held b - {(p, s, 1)}"
    using release_held [OF assms(1) s] by blast
  have "owns b' (m(p := None))" using assms(2) by (auto simp: owns_def h(3))
  with h show ?thesis by blast
qed

lemma owns_grow:
  assumes "ok h b" and "owns b m" and "m p = Some n0" and "good n" and "grow p n h = Some (q, h')" and "q \<noteq> 0"
  shows "(q = p \<or> m q = None) \<and> (\<exists>b'. ok h' b' \<and> owns b' (m(p := None, q \<mapsto> n)))"
proof -
  obtain s where s: "(p, s, 1) \<in> held b" using ownsD [OF assms(2,3)] by blast
  obtain b' s' where b: "ok h' b'" "n \<le> s'" "(q, s', 1) \<in> held b'" "q = p \<or> q \<notin> fst ` held b"
    "\<forall>x \<in> held b. fst x \<noteq> p \<longrightarrow> x \<in> held b'"
    using grow_held [OF assms(1) s assms(4-6)] by blast
  have "owns b' (m(p := None, q \<mapsto> n))"
    unfolding owns_def
  proof (intro allI impI)
    fix x n' assume x: "(m(p := None, q \<mapsto> n)) x = Some n'"
    show "\<exists>s. n' \<le> s \<and> (x, s, 1) \<in> held b'"
    proof (cases "x = q")
      case True
      with x b(2,3) show ?thesis by auto
    next
      case False
      with x have m: "m x = Some n'" "x \<noteq> p" by (simp_all split: if_splits)
      obtain s where s: "n' \<le> s" "(x, s, 1) \<in> held b" using ownsD [OF assms(2) m(1)] by blast
      have "(x, s, 1) \<in> held b'" using b(5) s(2) m(2) by (metis fst_conv)
      with s(1) show ?thesis by blast
    qed
  qed
  moreover have "q = p \<or> m q = None" using b(4) owns_fst [OF assms(2), of q] by (elim disjE) simp_all
  ultimately show ?thesis using b(1) by (intro conjI exI [of _ b'])
qed

end

text \<open>\<open>kzalloc\<close>, \<open>kfree\<close> and \<open>krealloc\<close> keep this contract.\<close>

lemma kzalloc_kmalloc:
  "kzalloc n h = Some (p, h') \<Longrightarrow> \<exists>h1. kmalloc n h = Some (p, h1) \<and> h' = (if p \<noteq> 0 then zero_mem p (memalign n) h1 else h1)"
  by (auto simp: kzalloc_def split: Option.bind_splits)

interpretation kz: growing_allocator kinv held_blocks size_ok kzalloc kfree krealloc
proof
  fix h b n p h'
  assume a: "kinv h b" "size_ok n" "kzalloc n h = Some (p, h')" "p \<noteq> 0"
  obtain h1 where "kmalloc n h = Some (p, h1)" "h' = zero_mem p (memalign n) h1"
    using kzalloc_kmalloc [OF a(3)] a(4) by auto
  with km.alloc_held [OF a(1,2) _ a(4)]
  show "\<exists>b' s. kinv h' b' \<and> n \<le> s \<and> held_blocks b' = insert (p, s, 1) (held_blocks b) \<and> p \<notin> fst ` held_blocks b" by auto
next
  show "h' = h" if "kinv h b" "size_ok n" "kzalloc n h = Some (0, h')" for h b n h'
    using kzalloc_kmalloc [OF that(3)] km.alloc_null [OF that(1,2)] by auto
next
  fix h b p s n q h'
  assume a: "kinv h b" "(p, s, 1) \<in> held_blocks b" "size_ok n" "krealloc p n h = Some (q, h')" "q \<noteq> 0"
  have p: "24 \<le> p" "(p - 24, s, 1) \<in> live b" using a(2) by (simp_all add: held_mem)
  then have "krealloc (p - 24 + 24) n h = Some (q, h')" using a(4) by simp
  from krealloc_cases [OF a(1) p(2) a(3) this] a(5) obtain bs' where "resized h b (p - 24) s (memalign n) q h' bs'" by blast
  then obtain s' r' where r: "kinv h' bs'" "24 \<le> q" "q = p - 24 + 24 \<or> q - 24 \<notin> fst ` live b" "(q - 24, s', r') \<in> live bs'"
    "memalign n \<le> s'" "(p - 24, s, r') \<in> live b \<or> r' = 1" "\<forall>x \<in> live b. fst x \<noteq> p - 24 \<longrightarrow> x \<in> live bs'"
    unfolding resized_def by blast
  have "r' = 1" using r(6) live_inj [OF a(1) p(2)] by auto
  moreover have "n \<le> memalign n" using a(3) memalign_round(2) [of n] by (simp add: size_ok_def)
  moreover have "q = p \<or> q \<notin> fst ` held_blocks b"
  proof (cases "q = p")
    case False
    then have "q - 24 \<notin> fst ` live b" using r(3) p(1) by simp
    then show ?thesis by (auto simp: held_blocks_def image_iff split: prod.splits)
  qed simp
  moreover have "\<forall>x \<in> held_blocks b. fst x \<noteq> p \<longrightarrow> x \<in> held_blocks bs'"
  proof (intro ballI impI)
    fix x assume x: "x \<in> held_blocks b" "fst x \<noteq> p"
    obtain y t u where y: "x = (y, t, u)" by (cases x)
    with x have "24 \<le> y" "(y - 24, t, u) \<in> live b" "y - 24 \<noteq> p - 24" using p(1) by (auto simp: held_mem)
    with r(7) y show "x \<in> held_blocks bs'" by (auto simp: held_mem)
  qed
  ultimately show "\<exists>b' s'. kinv h' b' \<and> n \<le> s' \<and> (q, s', 1) \<in> held_blocks b' \<and> (q = p \<or> q \<notin> fst ` held_blocks b) \<and>
      (\<forall>x \<in> held_blocks b. fst x \<noteq> p \<longrightarrow> x \<in> held_blocks b')"
    using r(1,2,4,5) by (intro exI [of _ bs'] exI [of _ s']) (auto simp: held_mem)
next
  fix h b p s n h'
  assume a: "kinv h b" "(p, s, 1) \<in> held_blocks b" "size_ok n" "krealloc p n h = Some (0, h')"
  have p: "24 \<le> p" "(p - 24, s, 1) \<in> live b" using a(2) by (simp_all add: held_mem)
  then have "krealloc (p - 24 + 24) n h = Some (0, h')" using a(4) by simp
  from krealloc_cases [OF a(1) p(2) a(3) this] show "h' = h" by (auto simp: resized_def)
qed (fact km.release_held km.held_inj)+

section \<open>Properties\<close>

text \<open>
  C38: in every state the kernel heap reaches, from a heap just started over any sound region
  allocator, by any sequence of allocations (of sizes for which \<open>extend\<close> has room for its headers),
  releases of arbitrary pointers, lazy releases, sharing and resizing of allocated blocks: the
  headers form one doubly linked list, and the blocks of the list, header and data, are pairwise
  disjoint, lie inside dynmem and only on pages that are marked in use.
\<close>

theorem kheap_blocks_disjoint:
  assumes "kreach k"
  shows "\<exists>bs. seg (mblocks k) 0 bs 0 \<and> kmalloc_base k = hd_addr bs 0 \<and>
     sorted_wrt (\<lambda>(a, s, _) (a', s', _). {a ..< a + 24 + s} \<inter> {a' ..< a' + 24 + s'} = {}) bs \<and>
     (\<forall>(a, s, r) \<in> set bs. 0x800000 \<le> a \<and> a + 24 + s \<le> 0x1000000 \<and> a mod 4 = 0 \<and>
        (\<forall>y \<in> {a ..< a + 24 + s}. used (dynmemmap_bitmap (dyn k)) ((y - 0x800000) div 2 ^ 20)))"
proof -
  obtain bs where k: "kinv k bs" using kreach_kinv [OF assms] by blast
  note i = kinv_parts [OF k]
  have "sorted_wrt (\<lambda>(a, s, _) (a', s', _). {a ..< a + 24 + s} \<inter> {a' ..< a' + 24 + s'} = {}) bs"
    by (rule sorted_wrt_mono_rel [OF _ i(3)]) (auto simp: apart_def)
  with i show ?thesis by (intro exI [of _ bs]) (auto simp: blk_ok_def)
qed

theorem kheap_blocks_disjoint_witness:
  "\<exists>k bs. kmalloc 16 (kheap_boot (dynmem_boot (\<lambda>_. 0))) = Some (0x800018, k) \<and> seg (mblocks k) 0 bs 0 \<and> bs \<noteq> [] \<and>
     sorted_wrt (\<lambda>(a, s, _) (a', s', _). {a ..< a + 24 + s} \<inter> {a' ..< a' + 24 + s'} = {}) bs"
proof -
  obtain k where k: "kmalloc 16 (kheap_boot (dynmem_boot (\<lambda>_. 0))) = Some (0x800018, k)" "kmalloc_base k \<noteq> 0"
    by (simp add: heap_eval)
  have "size_ok 16" by (simp add: size_ok_def room_ok_def memalign_def)
  then have "kreach k" by (rule kreach.malloc [OF kreach.boot [OF dm_inv_boot] _ k(1)])
  from kheap_blocks_disjoint [OF this] obtain bs where "seg (mblocks k) 0 bs 0" "kmalloc_base k = hd_addr bs 0"
    "sorted_wrt (\<lambda>(a, s, _) (a', s', _). {a ..< a + 24 + s} \<inter> {a' ..< a' + 24 + s'} = {}) bs" by blast
  moreover from this(2) k(2) have "bs \<noteq> []" by auto
  ultimately show ?thesis using k(1) by blast
qed

text \<open>
  \<open>kmalloc\<close> returns \<open>NULL\<close> and changes nothing, or it returns a word-aligned pointer to a block
  with at least the requested size that was not allocated before, gives it one reference, and leaves
  every other allocated block, its size, its reference count and the contents of the memory alone.
\<close>

theorem kmalloc_fresh_block:
  assumes "kinv k bs" and "size_ok sz" and "kmalloc sz k = Some (p, k')"
  shows "p = 0 \<and> k' = k \<or>
    (\<exists>bs' s'. kinv k' bs' \<and> p mod 4 = 0 \<and> 24 \<le> p \<and> sz \<le> s' \<and> live bs' = insert (p - 24, s', 1) (live bs) \<and>
       (\<forall>(a, s, r) \<in> live bs. {p - 24 ..< p + s'} \<inter> {a ..< a + 24 + s} = {}) \<and> mem (dyn k') = mem (dyn k))"
proof -
  from kmalloc_cases [OF assms] show ?thesis
  proof (elim disjE exE)
    fix bs'
    assume "taken k bs (memalign sz) p k' bs'"
    then obtain s' where t: "kinv k' bs'" "mem (dyn k') = mem (dyn k)" "memalign sz \<le> s'" "24 \<le> p"
      "live bs' = insert (p - 24, s', 1) (live bs)" "p - 24 \<notin> fst ` live bs" by (auto simp: taken_def)
    have sz: "sz \<le> memalign sz" using assms(2) memalign_round(2) by (simp add: size_ok_def)
    have l: "(p - 24, s', 1) \<in> live bs'" using t(5) by simp
    then obtain pre post where bs': "bs' = pre @ (p - 24, s', 1) # post" using live_split by blast
    have al: "(p - 24) mod 4 = 0" using kinvD(6) t(1) bs' by blast
    have "p = (p - 24) + 4 * 6" using t(4) by simp
    then have "p mod 4 = 0" using al by (metis mod_mult_self2)
    moreover have "{p - 24 ..< p + s'} \<inter> {a ..< a + 24 + s} = {}" if "(a, s, r) \<in> live bs" for a s r
    proof -
      have "a \<noteq> p - 24" using that t(6) by (metis fst_conv imageI)
      moreover have "(a, s, r) \<in> live bs'" using that t(5) by simp
      then have "(a, s, r) \<in> set bs'" by (simp add: live_def)
      ultimately have "(a, s, r) \<in> set (pre @ post)" using bs' by simp
      with kinv_parts(3) [OF t(1)] bs' have "apart (a, s, r) (p - 24, s', 1)" by (auto simp: apart_append)
      with t(4) show ?thesis by (auto simp: apart_def)
    qed
    ultimately show ?thesis using t sz by (intro disjI2 exI [of _ bs'] exI [of _ s']) auto
  qed simp
qed

theorem kmalloc_fresh_block_witness:
  "\<exists>k' bs' s'. kmalloc 10 (kheap_boot (dynmem_boot (\<lambda>_. 0))) = Some (0x800018, k') \<and> kinv k' bs' \<and> 10 \<le> s' \<and>
     live bs' = {(0x800000, s', 1)}"
proof -
  have k: "kinv (kheap_boot (dynmem_boot (\<lambda>_. 0))) []" by (rule kinv_boot [OF dm_inv_boot])
  have sz: "size_ok 10" by (simp add: size_ok_def room_ok_def memalign_def)
  obtain k' where m: "kmalloc 10 (kheap_boot (dynmem_boot (\<lambda>_. 0))) = Some (0x800018, k')"
    by (simp add: heap_eval)
  from kmalloc_fresh_block [OF k sz m] m show ?thesis by auto
qed

text \<open>
  C39: \<open>kmalloc\<close> does not fail when there is memory: it takes the first free block of the list that is
  large enough, and when there is none and the region allocator has room for a new region it returns
  a block of that region.
\<close>

theorem kmalloc_succeeds:
  assumes "kinv k bs" and "size_ok sz"
    and "(\<exists>x \<in> set bs. fits (memalign sz) x) \<or>
         (\<exists>q. q + mbytes (memalign sz + 24) \<le> 8 \<and>
            (\<forall>p \<in> {q .. q + mbytes (memalign sz + 24)}. \<not> used (dynmemmap_bitmap (dyn k)) p))"
  shows "\<exists>p k'. kmalloc sz k = Some (p, k') \<and> p \<noteq> 0 \<and>
     (\<forall>pre a S post. bs = pre @ (a, S, 0) # post \<longrightarrow> memalign sz \<le> S \<longrightarrow> (\<forall>x \<in> set pre. \<not> fits (memalign sz) x) \<longrightarrow> p = a + 24)"
proof (cases "\<exists>x \<in> set bs. fits (memalign sz) x")
  case True
  then obtain y where "find (fits (memalign sz)) bs = Some y"
    by (metis (no_types, lifting) find_None_iff not_Some_eq)
  from find_split [OF this] obtain pre a S post where bs: "bs = pre @ (a, S, 0) # post" "memalign sz \<le> S"
    "\<forall>x \<in> set pre. \<not> fits (memalign sz) x" by (cases y) auto
  obtain k' where k': "kmalloc sz k = Some (a + 24, k')"
    using kmalloc_fit [of k pre a S post sz] assms(1,2) bs by blast
  have "a' = a" if "bs = pre' @ (a', S', 0) # post'" "memalign sz \<le> S'" "\<forall>x \<in> set pre'. \<not> fits (memalign sz) x"
    for pre' a' S' post'
  proof -
    have "find (fits (memalign sz)) bs = Some (a', S', 0)" using that by (induction pre' arbitrary: bs) auto
    moreover have "find (fits (memalign sz)) bs = Some (a, S, 0)" using bs by (induction pre arbitrary: bs) auto
    ultimately show ?thesis by simp
  qed
  with k' show ?thesis by auto
next
  case False
  have r: "room_ok (memalign sz)" using assms(2) by (simp add: size_ok_def)
  from False assms(3) obtain q where q: "q + mbytes (memalign sz + 24) \<le> 8"
    "\<forall>p \<in> {q .. q + mbytes (memalign sz + 24)}. \<not> used (dynmemmap_bitmap (dyn k)) p" by blast
  from dynmem_alloc_room [OF kinv_parts(4) [OF assms(1)] mbytes_room(1) [OF r] q, of 1 "0x60"]
  obtain pos d where d: "dynmem_alloc_region (mbytes (memalign sz + 24)) 1 0x60 (dyn k) = Some (page pos, d)" by blast
  from extend_some [OF assms(1) r d] obtain k1 where
    "extend (last_addr 0 bs) (memalign sz) k = Some (page pos, k1)" by auto
  from kmalloc_extend [OF assms(1,2) _ this] False obtain k' where "kmalloc sz k = Some (page pos + 24, k')" by auto
  with False show ?thesis by fastforce
qed

theorem kmalloc_succeeds_witness:
  "\<exists>p k'. kmalloc 5000 (kheap_boot (dynmem_boot (\<lambda>_. 0))) = Some (p, k') \<and> p \<noteq> 0"
proof -
  have k: "kinv (kheap_boot (dynmem_boot (\<lambda>_. 0))) []" by (rule kinv_boot [OF dm_inv_boot])
  have sz: "size_ok 5000" by (simp add: size_ok_def room_ok_def memalign_def)
  have "mbytes (memalign 5000 + 24) = 1" by (simp add: mbytes_def memalign_def)
  then have "\<exists>q. q + mbytes (memalign 5000 + 24) \<le> 8 \<and> (\<forall>p \<in> {q .. q + mbytes (memalign 5000 + 24)}.
      \<not> used (dynmemmap_bitmap (dyn (kheap_boot (dynmem_boot (\<lambda>_. 0))))) p)"
    by (intro exI [of _ 0]) (auto simp: kheap_boot_def dynmem_boot_def used_def)
  then show ?thesis using kmalloc_succeeds [OF k sz] by blast
qed


text \<open>
  \<open>kfree\<close> of an allocated block drops one reference: with more than one left only the count
  changes, with the last one exactly that block stops being allocated; other allocated blocks and the
  memory are not touched. \<open>kfree\<close> of any other pointer that reaches a header, in particular a second
  \<open>kfree\<close> of a freed block, changes nothing.
\<close>

theorem kfree_drops_reference:
  assumes "kinv k bs"
  shows "(\<forall>(a, s, r) \<in> live bs. \<exists>k' bs'. kfree (a + 24) k = Some k' \<and> kinv k' bs' \<and> mem (dyn k') = mem (dyn k) \<and>
      live bs' = (if r = 1 then {} else {(a, s, r - 1)}) \<union> (live bs - {(a, s, r)})) \<and>
    (\<forall>a k'. a \<notin> fst ` live bs \<longrightarrow> kfree (a + 24) k = Some k' \<longrightarrow> k' = k)"
proof (intro conjI)
  show "\<forall>(a, s, r) \<in> live bs. \<exists>k' bs'. kfree (a + 24) k = Some k' \<and> kinv k' bs' \<and> mem (dyn k') = mem (dyn k) \<and>
      live bs' = (if r = 1 then {} else {(a, s, r - 1)}) \<union> (live bs - {(a, s, r)})"
    using kfree_live [OF assms] by blast
  show "\<forall>a k'. a \<notin> fst ` live bs \<longrightarrow> kfree (a + 24) k = Some k' \<longrightarrow> k' = k"
  proof (intro allI impI)
    fix a k' assume "a \<notin> fst ` live bs" "kfree (a + 24) k = Some k'"
    then show "k' = k" using kfree_cases [OF assms, of "a + 24" k'] by (force simp: image_iff)
  qed
qed

theorem kfree_drops_reference_witness:
  "\<exists>k k' bs. kmalloc 10 (kheap_boot (dynmem_boot (\<lambda>_. 0))) = Some (0x800018, k) \<and> kfree 0x800018 k = Some k' \<and>
     kinv k' bs \<and> live bs = {} \<and> kfree 0x800018 k' = Some k'"
proof -
  have k0: "kinv (kheap_boot (dynmem_boot (\<lambda>_. 0))) []" by (rule kinv_boot [OF dm_inv_boot])
  have sz: "size_ok 10" by (simp add: size_ok_def room_ok_def memalign_def)
  obtain k where m: "kmalloc 10 (kheap_boot (dynmem_boot (\<lambda>_. 0))) = Some (0x800018, k)"
    and f: "kfree 0x800018 k \<noteq> None" "\<forall>k1. kfree 0x800018 k = Some k1 \<longrightarrow> kfree 0x800018 k1 \<noteq> None"
    by (simp add: heap_eval)
  from kmalloc_cases [OF k0 sz m] obtain bs s where b: "kinv k bs" "live bs = {(0x800000, s, 1)}"
    by (auto simp: taken_def)
  from kfree_drops_reference [OF b(1)] b(2) obtain k' bs' where
    r: "kfree 0x800018 k = Some k'" "kinv k' bs'" "live bs' = {}" by auto
  from f(2) r(1) obtain k2 where "kfree 0x800018 k' = Some k2" by blast
  moreover have "\<forall>a k2. a \<notin> fst ` live bs' \<longrightarrow> kfree (a + 24) k' = Some k2 \<longrightarrow> k2 = k'"
    using kfree_drops_reference [OF r(2)] by blast
  ultimately have "kfree 0x800018 k' = Some k'" using r(3) by (auto dest: spec [of _ "0x800000"])
  with m r show ?thesis by blast
qed


text \<open>
  C40: \<open>krealloc\<close> of an allocated block fails without any effect, or it returns an allocated block of
  at least the requested size that holds the contents of the old one up to the smaller of the old and
  the requested size; no other allocated block is lost or changed, and no memory outside the returned
  block is written. This covers shrinking, growing into the next block and moving.
\<close>

theorem krealloc_keeps_contents:
  assumes "kinv k bs" and "(a, s0, r) \<in> live bs" and "size_ok sz" and "krealloc (a + 24) sz k = Some (q, k')"
  shows "q = 0 \<and> k' = k \<or>
    (\<exists>bs' s' r'. kinv k' bs' \<and> (q - 24, s', r') \<in> live bs' \<and> 24 \<le> q \<and> sz \<le> s' \<and>
       (q = a + 24 \<or> q - 24 \<notin> fst ` live bs) \<and>
       (\<forall>i < min s0 sz. mem (dyn k') (q + i) = mem (dyn k) (a + 24 + i)) \<and>
       (\<forall>x. \<not> (q \<le> x \<and> x < q + s') \<longrightarrow> mem (dyn k') x = mem (dyn k) x) \<and>
       (\<forall>x \<in> live bs. fst x \<noteq> a \<longrightarrow> x \<in> live bs'))"
proof -
  have sz: "sz \<le> memalign sz" using assms(3) memalign_round(2) by (simp add: size_ok_def)
  from krealloc_cases [OF assms] show ?thesis
  proof (elim disjE exE)
    fix bs'
    assume "resized k bs a s0 (memalign sz) q k' bs'"
    then obtain s' r' where r: "kinv k' bs'" "24 \<le> q" "(q - 24, s', r') \<in> live bs'" "memalign sz \<le> s'"
      "q = a + 24 \<or> q - 24 \<notin> fst ` live bs"
      "\<forall>x. \<not> (q \<le> x \<and> x < q + s') \<longrightarrow> mem (dyn k') x = mem (dyn k) x"
      "\<forall>i < min s0 (memalign sz). mem (dyn k') (q + i) = mem (dyn k) (a + 24 + i)"
      "\<forall>x \<in> live bs. fst x \<noteq> a \<longrightarrow> x \<in> live bs'" unfolding resized_def by blast
    have "\<forall>i < min s0 sz. mem (dyn k') (q + i) = mem (dyn k) (a + 24 + i)" using r(7) sz by simp
    moreover have "sz \<le> s'" using sz r(4) by simp
    ultimately show ?thesis using r by (intro disjI2 exI [of _ bs'] exI [of _ s'] exI [of _ r']) blast
  qed simp
qed

theorem krealloc_keeps_contents_witness:
  "\<exists>k k' q. kmalloc 8 (kheap_boot (dynmem_boot (\<lambda>a. of_nat a))) = Some (0x800018, k) \<and>
     krealloc 0x800018 100 k = Some (q, k') \<and> q \<noteq> 0 \<and> mem (dyn k') (q + 3) = mem (dyn k) 0x80001B"
proof -
  have k0: "kinv (kheap_boot (dynmem_boot (\<lambda>a. of_nat a))) []" by (rule kinv_boot [OF dm_inv_boot])
  have sz: "size_ok 8" "size_ok 100" by (simp_all add: size_ok_def room_ok_def memalign_def)
  obtain k where m: "kmalloc 8 (kheap_boot (dynmem_boot (\<lambda>a. of_nat a))) = Some (0x800018, k)"
    and f: "\<exists>k'. krealloc 0x800018 100 k = Some (0x800018, k')"
    by (simp add: heap_eval krealloc_def)
  from kmalloc_cases [OF k0 sz(1) m] obtain bs s where b: "kinv k bs" "live bs = {(0x800000, s, 1)}" "8 \<le> s"
    by (auto simp: taken_def memalign_def)
  from f obtain k' where r: "krealloc 0x800018 100 k = Some (0x800018, k')" by blast
  have "(0x800000, s, 1) \<in> live bs" using b(2) by simp
  from krealloc_keeps_contents [OF b(1) this sz(2), of "0x800018" k'] r b(3)
  have "\<forall>i < min s 100. mem (dyn k') (0x800018 + i) = mem (dyn k) (0x800000 + 24 + i)" by auto
  then have "mem (dyn k') (0x800018 + 3) = mem (dyn k) (0x800000 + 24 + 3)" using b(3) by (auto dest: spec [of _ 3])
  with m r show ?thesis by (intro exI [of _ k] exI [of _ k'] exI [of _ "0x800018"]) simp
qed

text \<open>
  Buffers are given back completely. A client that allocates any number of buffers with
  \<open>kmalloc\<close> and then calls \<open>kfree\<close> on those it got, in any order, got pairwise different pointers and
  leaves exactly the blocks allocated that were allocated before.
\<close>

theorem kmalloc_kfree_balanced:
  assumes "kinv k bs" and "\<forall>n \<in> set ns. size_ok n" and "km.alloc_all ns k = Some (ps, k1)"
    and "distinct qs" and "set qs = set ps - {0}"
  shows "distinct (filter (\<lambda>p. p \<noteq> 0) ps) \<and>
    (\<exists>k2 bs2. km.release_all qs k1 = Some k2 \<and> kinv k2 bs2 \<and> held_blocks bs2 = held_blocks bs)"
  by (rule km.buffers_balanced [OF assms])

theorem kmalloc_kfree_balanced_witness:
  "\<exists>p q k1 k2 bs2. km.alloc_all [8, 20] (kheap_boot (dynmem_boot (\<lambda>_. 0))) = Some ([p, q], k1) \<and>
     km.release_all [p, q] k1 = Some k2 \<and> kinv k2 bs2 \<and> held_blocks bs2 = {}"
proof -
  have k0: "kinv (kheap_boot (dynmem_boot (\<lambda>_. 0))) []" by (rule kinv_boot [OF dm_inv_boot])
  have sz: "\<forall>n \<in> set [8, 20]. size_ok n" by (simp add: size_ok_def room_ok_def memalign_def)
  obtain k1 where a: "km.alloc_all [8, 20] (kheap_boot (dynmem_boot (\<lambda>_. 0))) = Some ([0x800018, 0x800038], k1)"
    by (simp add: heap_eval)
  from kmalloc_kfree_balanced [OF k0 sz a, of "[0x800018, 0x800038]"] a show ?thesis
    by (auto simp: held_blocks_def)
qed

text \<open>The buffers of \<open>kzalloc\<close> are clear, up to the size rounded to words, and nothing else is written.\<close>

theorem kzalloc_clears:
  assumes "kinv k bs" and "size_ok sz" and "kzalloc sz k = Some (p, k')" and "p \<noteq> 0"
  shows "(\<forall>i < sz. mem (dyn k') (p + i) = 0) \<and>
    (\<exists>bs' s'. kinv k' bs' \<and> (p - 24, s', 1) \<in> live bs' \<and> sz \<le> s' \<and>
       (\<forall>x. \<not> (p \<le> x \<and> x < p + s') \<longrightarrow> mem (dyn k') x = mem (dyn k) x))"
proof -
  obtain k1 where k1: "kmalloc sz k = Some (p, k1)" "k' = zero_mem p (memalign sz) k1"
    using assms(3,4) by (auto simp: kzalloc_def split: Option.bind_splits)
  from kmalloc_cases [OF assms(1,2) k1(1)] assms(4) obtain bs' s' where
    t: "kinv k1 bs'" "mem (dyn k1) = mem (dyn k)" "memalign sz \<le> s'" "(p - 24, s', 1) \<in> live bs'"
    by (auto simp: taken_def)
  have "sz \<le> memalign sz" using assms(2) memalign_round(2) by (simp add: size_ok_def)
  moreover have "kinv k' bs'" using t(1) k1(2) by simp
  moreover have m: "mem (dyn k') = phys_set p 0 (memalign sz) (mem (dyn k))"
    using t(2) k1(2) by (simp add: zero_mem_def memset_eq)
  ultimately show ?thesis using t(3,4) unfolding m
    by (intro conjI exI [of _ bs'] exI [of _ s']) (auto simp: phys_set_def)
qed

section \<open>Defects\<close>

text \<open>
  Releasing the last block of the list gives the region it lies in back to the region allocator,
  although other blocks of the region may be in use: after two allocations that fill a megabyte, the
  release of the second unmaps the memory of the first, which stays allocated.
\<close>

theorem kfree_unmaps_live_block:
  "map_option (\<lambda>k. (refs (dyn k) 0, map_option refcount (mblocks k 0x800000)))
     (do { (p, k) \<leftarrow> kmalloc 16 (kheap_boot (dynmem_boot c));
           (q, k) \<leftarrow> kmalloc 1048512 k;
           kfree q k }) = Some (0, Some 1)"
  by (simp add: heap_eval)

text \<open>
  When the space left behind a block in its region is smaller than a header, \<open>extend\<close> writes the
  header across the end of the region and its size wraps to almost 4 GB: the next request is served
  from memory that does not belong to the heap.
\<close>

theorem extend_header_wraps:
  "map_option (\<lambda>(p, k). (p, refs (dyn k) 1))
     (do { (p, k) \<leftarrow> kmalloc 1048548 (kheap_boot (dynmem_boot c)); kmalloc 100 k }) = Some (0x900014, 0)"
  by (simp add: heap_eval)

text \<open>A request that wraps when it is rounded succeeds with a block of no bytes.\<close>

theorem kmalloc_size_wraps:
  "map_option (\<lambda>(p, k). (p, map_option bsize (mblocks k 0x800000)))
     (kmalloc 0xFFFFFFFF (kheap_boot (dynmem_boot c))) = Some (0x800018, Some 0)"
  by (simp add: heap_eval)

text \<open>The product in \<open>kcalloc\<close> is not checked: 65536 elements of 65536 bytes are a block of no bytes.\<close>

theorem kcalloc_product_wraps:
  "map_option (\<lambda>(p, k). (p, map_option bsize (mblocks k 0x800000)))
     (kcalloc 65536 65536 (kheap_boot (dynmem_boot c))) = Some (0x800018, Some 0)"
  by (simp add: heap_eval kcalloc_def zero_mem_def)

end
