(* ===== verification/Kstring.thy ===== *)
theory Kstring
  imports Kmalloc
begin

text \<open>
  The strings of the kernel library (\<^verbatim>\<open>kern/libkern/kstring/*.c\<close>). A \<open>char\<close> array is a list of bytes
  (\<open>char\<close> is unsigned on ARM), a pointer into it an index, \<open>NULL\<close> is \<open>None\<close>. Every read and write is
  checked against the end of the array, so \<open>None\<close> as the result of a function is an access outside of
  its arrays. \<open>cstr\<close> is the string an array holds, up to the first NUL byte; \<open>term\<close> says there is one.
\<close>

section \<open>Lengths and comparison\<close>

type_synonym bytes = "u8 list"

text \<open>\<open>while (str[len++] != '\0' && --max > 0)\<close>; \<open>mx\<close> (\<open>max\<close>) wraps when it is 0.\<close>

function strlenn_loop :: "bytes \<Rightarrow> nat \<Rightarrow> u32 \<Rightarrow> nat option" where
  "strlenn_loop str len mx =
     (if len < length str then
        if str ! len \<noteq> 0 \<and> 0 < mx - 1 then strlenn_loop str (len + 1) (mx - 1) else Some (len + 1)
      else None)"
  by pat_completeness auto
termination
  by (relation "measure (\<lambda>(str, len, mx). length str - len)") auto

definition strlenn :: "bytes \<Rightarrow> u32 \<Rightarrow> nat option" where
  "strlenn str mx = do { len \<leftarrow> strlenn_loop str 0 mx; Some (len - 1) }"

text \<open>The difference of two bytes as \<open>int\<close>s.\<close>

definition byte_diff :: "u8 \<Rightarrow> u8 \<Rightarrow> int" where
  "byte_diff x y = int (unat x) - int (unat y)"

fun strcmp :: "bytes \<Rightarrow> bytes \<Rightarrow> int option" where
  "strcmp (x # str1) (y # str2) = (if x \<noteq> 0 \<and> x = y then strcmp str1 str2 else Some (byte_diff x y))"
| "strcmp _ _ = None"

fun strncmp :: "bytes \<Rightarrow> bytes \<Rightarrow> u32 \<Rightarrow> int option" where
  "strncmp (x # str1) (y # str2) n =
     (if (x \<noteq> 0 \<and> x = y) \<and> 0 < n - 1 then strncmp str1 str2 (n - 1) else Some (byte_diff x y))"
| "strncmp _ _ n = None"

section \<open>Copying\<close>

text \<open>\<open>while (source[n++] != '\0');\<close>\<close>

fun str_end :: "bytes \<Rightarrow> nat \<Rightarrow> nat option" where
  "str_end [] n = None"
| "str_end (x # xs) n = (if x \<noteq> 0 then str_end xs (n + 1) else Some (n + 1))"

definition strcpy :: "bytes \<Rightarrow> bytes \<Rightarrow> bytes option" where
  "strcpy destination source = do {
     n \<leftarrow> str_end source 0;
     mem_copy destination 0 source 0 n }"

text \<open>The loop that pads, on the index of \<open>d\<close>.\<close>

primrec strncpy_pad :: "nat \<Rightarrow> bytes \<Rightarrow> nat \<Rightarrow> bytes option" where
  "strncpy_pad 0 dst d = Some dst"
| "strncpy_pad (Suc n) dst d = do { dst \<leftarrow> wr dst d 0; strncpy_pad n dst (d + 1) }"

primrec strncpy_loop :: "nat \<Rightarrow> bytes \<Rightarrow> bytes \<Rightarrow> nat \<Rightarrow> bytes option" where
  "strncpy_loop 0 dst src i = Some dst"
| "strncpy_loop (Suc n) dst src i = do {
     c \<leftarrow> rd src i;
     dst \<leftarrow> wr dst i c;
     if c = 0 then strncpy_pad n dst (i + 1) else strncpy_loop n dst src (i + 1) }"

definition strncpy :: "bytes \<Rightarrow> bytes \<Rightarrow> nat \<Rightarrow> bytes option" where
  "strncpy dst src n = strncpy_loop n dst src 0"

text \<open>
  The copying loop of \<open>strlcpy\<close> on \<open>n > 0\<close> bytes that are left: it gives the rest of \<open>n\<close>, the
  array and the index behind the last byte copied.
\<close>

primrec strlcpy_loop :: "nat \<Rightarrow> bytes \<Rightarrow> bytes \<Rightarrow> nat \<Rightarrow> (nat \<times> bytes \<times> nat) option" where
  "strlcpy_loop 0 dst src i = Some (0, dst, i)"
| "strlcpy_loop (Suc n) dst src i = do {
     c \<leftarrow> rd src i;
     dst \<leftarrow> wr dst i c;
     if c = 0 then Some (Suc n, dst, i + 1) else strlcpy_loop n dst src (i + 1) }"

definition strlcpy :: "bytes \<Rightarrow> bytes \<Rightarrow> nat \<Rightarrow> (nat \<times> bytes) option" where
  "strlcpy dst src siz = do {
     (n, dst, i) \<leftarrow> (if siz \<noteq> 0 \<and> siz - 1 \<noteq> 0 then strlcpy_loop (siz - 1) dst src 0 else Some (siz - 1, dst, 0));
     if n = 0 then do {
       dst \<leftarrow> (if siz \<noteq> 0 then wr dst i 0 else Some dst);
       s \<leftarrow> str_end (drop i src) i;
       Some (s - 1, dst) }
     else Some (i - 1, dst) }"

primrec strscpy_loop :: "nat \<Rightarrow> bytes \<Rightarrow> bytes \<Rightarrow> nat \<Rightarrow> (int \<times> bytes) option" where
  "strscpy_loop 0 dst src i = do { dst \<leftarrow> wr dst (i - 1) 0; Some (- E2BIG, dst) }"
| "strscpy_loop (Suc n) dst src i = do {
     c \<leftarrow> rd src i;
     dst \<leftarrow> wr dst i c;
     if c = 0 then Some (int i, dst) else strscpy_loop n dst src (i + 1) }"

definition strscpy :: "bytes \<Rightarrow> bytes \<Rightarrow> nat \<Rightarrow> (int \<times> bytes) option" where
  "strscpy dst src siz =
     (if siz = 0 then do { c \<leftarrow> rd src 0; Some (if c \<noteq> 0 then - E2BIG else 0, dst) }
      else strscpy_loop siz dst src 0)"

text \<open>\<open>for (n1 = 0; n1 < ndst; n1++) if (dst[n1] == '\0') break;\<close>\<close>

fun nul_before :: "bytes \<Rightarrow> nat \<Rightarrow> nat option" where
  "nul_before xs 0 = Some 0"
| "nul_before [] (Suc n) = None"
| "nul_before (x # xs) (Suc n) = (if x = 0 then Some 0 else map_option Suc (nul_before xs n))"

function strnncat_loop :: "bytes \<Rightarrow> nat \<Rightarrow> bytes \<Rightarrow> nat \<Rightarrow> nat \<Rightarrow> nat \<Rightarrow> (nat \<times> bytes) option" where
  "strnncat_loop dst lim src n2 i j =
     (if i < n2 \<and> j < lim then
        case rd src i of None \<Rightarrow> None | Some c \<Rightarrow>
        (case wr dst j c of None \<Rightarrow> None | Some dst \<Rightarrow> strnncat_loop dst lim src n2 (i + 1) (j + 1))
      else Some (j, dst))"
  by pat_completeness auto
termination
  by (relation "measure (\<lambda>(dst, lim, src, n2, i, j). n2 - i)") auto

text \<open>\<open>ndst - 1\<close> is the largest \<open>size_t\<close> when \<open>ndst\<close> is 0.\<close>

definition strnncat :: "bytes \<Rightarrow> nat \<Rightarrow> bytes \<Rightarrow> nat \<Rightarrow> bytes option" where
  "strnncat dst ndst src nsrc = do {
     n1 \<leftarrow> nul_before dst ndst;
     n2 \<leftarrow> nul_before src nsrc;
     (j, dst) \<leftarrow> strnncat_loop dst (if ndst = 0 then 2 ^ 32 - 1 else ndst - 1) src n2 0 n1;
     wr dst j 0 }"

declare strlenn_loop.simps [simp del] strnncat_loop.simps [simp del]

section \<open>Searching\<close>

primrec strvalid_loop :: "nat \<Rightarrow> bytes \<Rightarrow> nat \<Rightarrow> int option" where
  "strvalid_loop 0 buf i = Some 0"
| "strvalid_loop (Suc n) buf i = do { c \<leftarrow> rd buf i; if c = 0 then Some 1 else strvalid_loop n buf (i + 1) }"

definition strvalid :: "bytes \<Rightarrow> nat \<Rightarrow> int option" where
  "strvalid buf len = strvalid_loop len buf 0"

text \<open>The results of the searches are indices; the second argument counts the steps of \<open>p\<close>.\<close>

fun kstrchr :: "bytes \<Rightarrow> nat \<Rightarrow> u8 \<Rightarrow> nat option option" where
  "kstrchr [] p c = None"
| "kstrchr (x # xs) p c = (if x = c then Some (Some p) else if x = 0 then Some None else kstrchr xs (p + 1) c)"

fun kstrrchr :: "bytes \<Rightarrow> nat \<Rightarrow> nat option \<Rightarrow> u8 \<Rightarrow> nat option option" where
  "kstrrchr [] p save c = None"
| "kstrrchr (x # xs) p save c =
     (let save = (if x = c then Some p else save)
      in if x = 0 then Some save else kstrrchr xs (p + 1) save c)"

fun strstr_loop :: "bytes \<Rightarrow> nat \<Rightarrow> bytes \<Rightarrow> u32 \<Rightarrow> nat option option" where
  "strstr_loop [] i str2 n = None"
| "strstr_loop (x # xs) i str2 n =
     (if x \<noteq> 0 then do {
        r \<leftarrow> strncmp xs str2 n;
        if r = 0 then Some (Some (i + 1)) else strstr_loop xs (i + 1) str2 n }
      else Some None)"

definition strstr :: "bytes \<Rightarrow> bytes \<Rightarrow> nat option option" where
  "strstr str1 str2 = do {
     n \<leftarrow> str_end str2 0;
     strstr_loop str1 0 str2 (of_nat (n - 1)) }"

section \<open>Tokens\<close>

text \<open>
  The loops over \<open>delim\<close>: the first one ends at the NUL byte of \<open>delim\<close> before it compares, the
  second one after it.
\<close>

fun span_hit :: "bytes \<Rightarrow> u8 \<Rightarrow> bool option" where
  "span_hit [] c = None"
| "span_hit (sc # delim) c = (if sc = 0 then Some False else if c = sc then Some True else span_hit delim c)"

fun delim_hit :: "bytes \<Rightarrow> u8 \<Rightarrow> bool option" where
  "delim_hit [] c = None"
| "delim_hit (sc # delim) c = (if sc = c then Some True else if sc \<noteq> 0 then delim_hit delim c else Some False)"

text \<open>From the label \<open>cont\<close> on: the byte that is no delimiter and the index behind it.\<close>

function tok_skip :: "bytes \<Rightarrow> bytes \<Rightarrow> nat \<Rightarrow> (u8 \<times> nat) option" where
  "tok_skip buf delim s =
     (if s < length buf then
        case span_hit delim (buf ! s) of
          None \<Rightarrow> None
        | Some True \<Rightarrow> tok_skip buf delim (s + 1)
        | Some False \<Rightarrow> Some (buf ! s, s + 1)
      else None)"
  by pat_completeness auto
termination
  by (relation "measure (\<lambda>(buf, delim, s). length buf - s)") auto

text \<open>The scan for the end of the token, which both functions have: the array and the new \<open>*lasts\<close>.\<close>

function tok_scan :: "bytes \<Rightarrow> bytes \<Rightarrow> nat \<Rightarrow> (bytes \<times> nat option) option" where
  "tok_scan buf delim s =
     (if s < length buf then
        case delim_hit delim (buf ! s) of
          None \<Rightarrow> None
        | Some True \<Rightarrow> (if buf ! s = 0 then Some (buf, None) else Some (buf[s := 0], Some (s + 1)))
        | Some False \<Rightarrow> tok_scan buf delim (s + 1)
      else None)"
  by pat_completeness auto
termination
  by (relation "measure (\<lambda>(buf, delim, s). length buf - s)") auto

declare tok_skip.simps [simp del] tok_scan.simps [simp del]

text \<open>
  \<open>kstrtok\<close> and \<open>strsep\<close> give the token, the array and the new value of \<open>*lasts\<close> or \<open>*stringp\<close>.
  \<open>delim\<close> and \<open>lasts\<close> may be \<open>NULL\<close>, which the outer \<open>option\<close> stands for.
\<close>

definition kstrtok :: "bytes \<Rightarrow> nat option \<Rightarrow> bytes option \<Rightarrow> nat option option \<Rightarrow>
    (nat option \<times> bytes \<times> nat option option) option" where
  "kstrtok buf s delim lasts =
     (case (delim, lasts) of
        (Some delim, Some l) \<Rightarrow>
          (case (if s = None then l else s) of
             None \<Rightarrow> Some (None, buf, Some l)
           | Some s \<Rightarrow> do {
               (c, s) \<leftarrow> tok_skip buf delim s;
               if c = 0 then Some (None, buf, Some None)
               else do {
                 (buf, l) \<leftarrow> tok_scan buf delim s;
                 Some (Some (s - 1), buf, Some l) } })
      | _ \<Rightarrow> Some (None, buf, lasts))"

definition strsep :: "bytes \<Rightarrow> nat option \<Rightarrow> bytes \<Rightarrow> (nat option \<times> bytes \<times> nat option) option" where
  "strsep buf stringp delim =
     (case stringp of
        None \<Rightarrow> Some (None, buf, stringp)
      | Some s \<Rightarrow> do {
          (buf, l) \<leftarrow> tok_scan buf delim s;
          Some (Some s, buf, l) })"

section \<open>Numbers\<close>

text \<open>
  The macro \<open>UITOA_TYPE\<close>. \<open>value / div >= base\<close> means that \<open>div * base\<close> does not exceed \<open>value\<close>, so
  the product cannot wrap. A base of 0 divides by zero and one of 1 never ends; both are \<open>None\<close>.
\<close>

function uitoa_div :: "nat \<Rightarrow> nat \<Rightarrow> nat \<Rightarrow> nat \<Rightarrow> nat \<times> nat" where
  "uitoa_div base v d digs =
     (if 2 \<le> base \<and> 0 < d \<and> base \<le> v div d then uitoa_div base v (d * base) (digs + 1) else (d, digs))"
  by pat_completeness auto
termination
proof (relation "measure (\<lambda>(base, v, d, digs). v - d)", goal_cases)
  case (2 base v d digs)
  then have "d * 2 \<le> d * base" by simp
  also have "\<dots> \<le> v" using 2 by (metis less_eq_div_iff_mult_less_eq mult.commute)
  finally have "d < v" using 2 by linarith
  moreover have "d < d * base" using 2 by simp
  ultimately show ?case by (simp add: diff_less_mono2)
qed simp

definition digit_char :: "nat \<Rightarrow> u8" where
  "digit_char d = of_nat (d + 48)"

function uitoa_put :: "bytes \<Rightarrow> nat \<Rightarrow> nat \<Rightarrow> nat \<Rightarrow> nat \<Rightarrow> bytes option" where
  "uitoa_put str n base v d =
     (case wr str n (digit_char (v div d mod base)) of
        None \<Rightarrow> None
      | Some str \<Rightarrow> if 2 \<le> base \<and> d div base \<noteq> 0 then uitoa_put str (n + 1) base v (d div base) else wr str (n + 1) 0)"
  by pat_completeness auto
termination
  by (relation "measure (\<lambda>(str, n, base, v, d). d)") (auto simp: div_greater_zero_iff)

definition UITOA :: "nat \<Rightarrow> bytes \<Rightarrow> nat \<Rightarrow> (nat \<times> bytes) option" where
  "UITOA base str v =
     (if base < 2 then None
      else do {
        let (d, digs) = uitoa_div base v 1 1;
        str \<leftarrow> uitoa_put str 0 base v d;
        Some (digs, str) })"

definition uitoa32 :: "bytes \<Rightarrow> u32 \<Rightarrow> (nat \<times> bytes) option" where
  "uitoa32 str v = UITOA 10 str (unat v)"

definition uitoa64 :: "bytes \<Rightarrow> u64 \<Rightarrow> (nat \<times> bytes) option" where
  "uitoa64 str v = UITOA 10 str (unat v)"

definition uitoa32base :: "bytes \<Rightarrow> u32 \<Rightarrow> u32 \<Rightarrow> (nat \<times> bytes) option" where
  "uitoa32base str v base = UITOA (unat base) str (unat v)"

definition uitoa64base :: "bytes \<Rightarrow> u64 \<Rightarrow> u64 \<Rightarrow> (nat \<times> bytes) option" where
  "uitoa64base str v base = UITOA (unat base) str (unat v)"

definition ui64_chcnt :: "u64 \<Rightarrow> nat" where
  "ui64_chcnt v = snd (uitoa_div 10 (unat v) 1 1)"

declare uitoa_div.simps [simp del] uitoa_put.simps [simp del]

text \<open>The loop over the nibbles, from the one at bit \<open>4 * k\<close> down.\<close>

definition hex_char :: "u8 \<Rightarrow> u8" where
  "hex_char c = (if c < 10 then 48 + c else 97 + (c - 10))"

primrec uitoah_loop :: "nat \<Rightarrow> bytes \<Rightarrow> nat \<Rightarrow> u64 \<Rightarrow> u64 \<Rightarrow> (nat \<times> bytes) option" where
  "uitoah_loop 0 str i v m = do { str \<leftarrow> wr str i 0; Some (i, str) }"
| "uitoah_loop (Suc k) str i v m = do {
     str \<leftarrow> wr str i (hex_char (ucast (drop_bit (4 * k) (v AND m))));
     uitoah_loop k str (i + 1) v (drop_bit 4 m) }"

definition uitoah_nbits :: "bytes \<Rightarrow> u64 \<Rightarrow> nat \<Rightarrow> (nat \<times> bytes) option" where
  "uitoah_nbits str v nbits = uitoah_loop (nbits div 4) str 0 v (push_bit (nbits - 4) 0xF)"

definition uitoah32 :: "bytes \<Rightarrow> u32 \<Rightarrow> (nat \<times> bytes) option" where
  "uitoah32 str v = uitoah_nbits str (ucast v) 32"

definition uitoah64 :: "bytes \<Rightarrow> u64 \<Rightarrow> (nat \<times> bytes) option" where
  "uitoah64 str v = uitoah_nbits str v 64"

text \<open>\<open>atoi\<close>: blanks, one sign, digits. The sums are those of two's complement.\<close>

fun atoi_head :: "bytes \<Rightarrow> (nat \<times> bytes) option" where
  "atoi_head [] = None"
| "atoi_head (x # xs) =
     (if x = 32 \<or> x = 9 then atoi_head xs
      else if x = 45 then Some (1, xs)
      else if x = 43 then Some (0, xs)
      else Some (0, x # xs))"

fun atoi_digits :: "bytes \<Rightarrow> int \<Rightarrow> int option" where
  "atoi_digits [] n = None"
| "atoi_digits (x # xs) n = (if 48 \<le> x \<and> x \<le> 57 then atoi_digits xs (s32 (n * 10 + int (unat x) - 48)) else Some n)"

definition atoi :: "bytes \<Rightarrow> int option" where
  "atoi str = do {
     (f, str) \<leftarrow> atoi_head str;
     n \<leftarrow> atoi_digits str 0;
     Some (if f \<noteq> 0 then s32 (- n) else n) }"

section \<open>kstrdup\<close>

text \<open>
  \<open>kstrdup\<close> copies an array into a block of the kernel heap. \<open>strcpy\<close> gets the pointer \<open>kmalloc\<close>
  returns, which may be \<open>NULL\<close>; that store is \<open>None\<close>.
\<close>

definition put_bytes :: "nat \<Rightarrow> bytes \<Rightarrow> memory \<Rightarrow> memory" where
  "put_bytes p xs f a = (if p \<le> a \<and> a < p + length xs then xs ! (a - p) else f a)"

definition kstrdup :: "bytes \<Rightarrow> u32 \<Rightarrow> kheap \<Rightarrow> (nat \<times> kheap) option" where
  "kstrdup src mx k = do {
     l \<leftarrow> strlenn src mx;
     (p, k) \<leftarrow> kmalloc (l + 1) k;
     n \<leftarrow> str_end src 0;
     if p = 0 then None
     else Some (p, k\<lparr>dyn := (dyn k)\<lparr>mem := put_bytes p (take n src) (mem (dyn k))\<rparr>\<rparr>) }"

section \<open>The string of an array\<close>

definition cstr :: "bytes \<Rightarrow> bytes" where
  "cstr xs = takeWhile (\<lambda>c. c \<noteq> 0) xs"

definition terminated :: "bytes \<Rightarrow> bool" where
  "terminated xs \<longleftrightarrow> 0 \<in> set xs"

lemma cstr_nul [simp]: "0 \<notin> set s \<Longrightarrow> cstr (s @ 0 # r) = s"
  unfolding cstr_def by (induction s) auto

lemma terminatedE:
  assumes "terminated xs"
  obtains s r where "xs = s @ 0 # r" "0 \<notin> set s" "cstr xs = s"
  using assms split_list_first [of 0 xs] cstr_nul by (auto simp: terminated_def)

lemma str_end_eq: "0 \<notin> set s \<Longrightarrow> str_end (s @ 0 # r) n = Some (n + length s + 1)"
  by (induction s arbitrary: n) auto

lemma nul_before_eq: "0 \<notin> set s \<Longrightarrow> nul_before (s @ 0 # r) n = Some (min n (length s))"
proof (induction s arbitrary: n)
  case Nil
  then show ?case by (cases n) simp_all
next
  case (Cons x s)
  then show ?case by (cases n) simp_all
qed

lemma word_pred:
  fixes n :: u32
  assumes "n \<noteq> 0"
  shows "unat (n - 1) = unat n - 1" and "0 < n - 1 \<longleftrightarrow> 1 < unat n"
proof -
  show u: "unat (n - 1) = unat n - 1" by (simp add: assms unat_minus_one)
  have "n - 1 \<noteq> 0 \<longleftrightarrow> unat (n - 1) \<noteq> 0" by (simp add: unat_eq_0)
  with u show "0 < n - 1 \<longleftrightarrow> 1 < unat n" unfolding word_neq_0_conv by linarith
qed

lemma strlenn_loop_eq:
  "0 \<notin> set s \<Longrightarrow> i \<le> length s \<Longrightarrow> mx \<noteq> 0 \<Longrightarrow>
   strlenn_loop (s @ 0 # r) i mx = Some (i + min (length s - i) (unat mx - 1) + 1)"
proof (induction "s @ 0 # r" i mx rule: strlenn_loop.induct)
  case (1 i mx)
  show ?case
  proof (cases "i < length s \<and> 1 < unat mx")
    case True
    then have "s ! i \<noteq> 0" using 1(2) by (metis nth_mem)
    moreover have "mx - 1 \<noteq> 0" using word_pred(2) [OF 1(4)] True by (auto simp: word_neq_0_conv)
    moreover have "i + 1 + min (length s - (i + 1)) (unat mx - 1 - 1) = i + min (length s - i) (unat mx - 1)"
      using True by linarith
    ultimately show ?thesis using 1 True word_pred [OF 1(4)]
      by (subst strlenn_loop.simps) (simp add: nth_append)
  next
    case False
    then show ?thesis using 1(3) word_pred [OF 1(4)]
      by (subst strlenn_loop.simps) (auto simp: nth_append min_def)
  qed
qed

lemma strlenn_eq:
  assumes "terminated str" and "mx \<noteq> 0"
  shows "strlenn str mx = Some (min (length (cstr str)) (unat mx - 1))"
  using assms(1) by (rule terminatedE) (simp add: strlenn_def strlenn_loop_eq assms(2))

lemma byte_diff_simps [simp]: "byte_diff x x = 0" "byte_diff x y = 0 \<longleftrightarrow> x = y" "byte_diff x y < 0 \<longleftrightarrow> x < y"
  by (simp_all add: byte_diff_def word_less_def word_uint_eq_iff)

lemma strcmp_eq:
  "0 \<notin> set s \<Longrightarrow> 0 \<notin> set t \<Longrightarrow>
   \<exists>d. strcmp (s @ 0 # r) (t @ 0 # q) = Some d \<and> (d = 0 \<longleftrightarrow> s = t) \<and> (d < 0 \<longleftrightarrow> ord_class.lexordp s t)"
proof (induction s arbitrary: t)
  case Nil
  then show ?case by (cases t) (auto simp: word_neq_0_conv)
next
  case (Cons x s)
  then show ?case by (cases t) (auto simp: word_neq_0_conv)
qed

text \<open>\<open>strncmp\<close> compares the first \<open>n\<close> bytes of the strings.\<close>

lemma strncmp_eq:
  "0 \<notin> set s \<Longrightarrow> 0 \<notin> set t \<Longrightarrow> n \<noteq> 0 \<Longrightarrow>
   \<exists>d. strncmp (s @ 0 # r) (t @ 0 # q) n = Some d \<and> (d = 0 \<longleftrightarrow> take (unat n) s = take (unat n) t) \<and>
     (d < 0 \<longleftrightarrow> ord_class.lexordp (take (unat n) s) (take (unat n) t))"
proof (induction s arbitrary: t n)
  case Nil
  then show ?case by (cases t; cases "unat n") (auto simp: word_neq_0_conv unat_eq_0)
next
  case (Cons x s)
  obtain m where m: "unat n = Suc m" using Cons.prems(3) by (cases "unat n") (auto simp: unat_eq_0)
  show ?case
  proof (cases t)
    case Nil
    then show ?thesis using Cons.prems by (auto simp: m word_neq_0_conv)
  next
    case t: (Cons y t')
    show ?thesis
    proof (cases "x = y \<and> 0 < n - 1")
      case True
      then have "n - 1 \<noteq> 0" "unat (n - 1) = m" using word_pred(1) [OF Cons.prems(3)] m by (auto simp: word_neq_0_conv)
      then show ?thesis using Cons.IH [of t' "n - 1"] Cons.prems True by (auto simp: t m)
    next
      case False
      then have "x = y \<Longrightarrow> m = 0" using word_pred(2) [OF Cons.prems(3)] m by auto
      then show ?thesis using False Cons.prems by (cases "x = y") (auto simp: t m)
    qed
  qed
qed

section \<open>Copies\<close>

lemma strlcpy_loop_eq:
  "0 \<notin> set s \<Longrightarrow> i \<le> length s \<Longrightarrow> i + n \<le> length dst \<Longrightarrow> take i dst = take i s \<Longrightarrow>
   strlcpy_loop n dst (s @ 0 # r) i =
     Some (if i + n \<le> length s then (0, take (i + n) s @ drop (i + n) dst, i + n)
           else (n - (length s - i), s @ 0 # drop (length s + 1) dst, length s + 1))"
proof (induction n arbitrary: i dst)
  case 0
  then show ?case by simp (metis append_take_drop_id)
next
  case (Suc n)
  show ?case
  proof (cases "i < length s")
    case True
    then have nz: "s ! i \<noteq> 0" using Suc.prems(1) by (metis nth_mem)
    let ?d = "dst[i := s ! i]"
    have "take (Suc i) ?d = take (Suc i) s"
      using Suc.prems True by (simp add: take_Suc_conv_app_nth take_update_swap list_update_append)
    then have "strlcpy_loop n ?d (s @ 0 # r) (Suc i) = Some (if Suc i + n \<le> length s
        then (0, take (Suc i + n) s @ drop (Suc i + n) ?d, Suc i + n)
        else (n - (length s - Suc i), s @ 0 # drop (length s + 1) ?d, length s + 1))"
      using Suc.IH [of "Suc i" ?d] Suc.prems True by simp
    then show ?thesis using True Suc.prems nz by (simp add: nth_append)
  next
    case False
    then have i: "i = length s" using Suc.prems(2) by simp
    moreover have "dst[i := 0] = s @ 0 # drop (Suc (length s)) dst"
      using Suc.prems i by (simp add: upd_conv_take_nth_drop)
    ultimately show ?thesis using Suc.prems by (simp add: nth_append)
  qed
qed

lemma strlcpy_eq:
  assumes "terminated src" and "siz \<le> length dst" and "siz \<noteq> 0"
  shows "strlcpy dst src siz = Some (length (cstr src),
     take (siz - 1) (cstr src) @ 0 # drop (min (siz - 1) (length (cstr src)) + 1) dst)"
proof -
  obtain s r where s: "src = s @ 0 # r" "0 \<notin> set s" "cstr src = s" using assms(1) by (rule terminatedE)
  have "strlcpy_loop (siz - 1) dst src 0 = Some (if siz - 1 \<le> length s then (0, take (siz - 1) s @ drop (siz - 1) dst, siz - 1)
           else (siz - 1 - length s, s @ 0 # drop (length s + 1) dst, length s + 1))"
    using strlcpy_loop_eq [of s 0 "siz - 1" dst r] s assms by simp
  moreover have "(if siz \<noteq> 0 \<and> siz - 1 \<noteq> 0 then strlcpy_loop (siz - 1) dst src 0 else Some (siz - 1, dst, 0))
    = strlcpy_loop (siz - 1) dst src 0" using assms(3) by (cases "siz - 1") simp_all
  ultimately have l: "strlcpy dst src siz = (case (if siz - 1 \<le> length s then (0, take (siz - 1) s @ drop (siz - 1) dst, siz - 1)
           else (siz - 1 - length s, s @ 0 # drop (length s + 1) dst, length s + 1)) of (n, dst, i) \<Rightarrow>
      if n = 0 then do { dst \<leftarrow> wr dst i 0; e \<leftarrow> str_end (drop i src) i; Some (e - 1, dst) } else Some (i - 1, dst))"
    using assms(3) by (simp add: strlcpy_def)
  show ?thesis
  proof (cases "siz - 1 \<le> length s")
    case True
    have "str_end (drop (siz - 1) src) (siz - 1) = Some (length s + 1)"
      using str_end_eq [of "drop (siz - 1) s" r "siz - 1"] True s by (auto dest: in_set_dropD)
    moreover have "drop (siz - 1) dst = dst ! (siz - 1) # drop siz dst"
      using assms(2,3) Cons_nth_drop_Suc [of "siz - 1" dst] by simp
    ultimately show ?thesis unfolding l using True assms s by (simp add: min_def list_update_append)
  next
    case False
    then have "length s + 1 < siz" by linarith
    then show ?thesis unfolding l using s by (auto simp: min_def)
  qed
qed

lemma strscpy_loop_eq:
  "0 \<notin> set s \<Longrightarrow> i \<le> length s \<Longrightarrow> i + n \<le> length dst \<Longrightarrow> take i dst = take i s \<Longrightarrow> 0 < i + n \<Longrightarrow>
   strscpy_loop n dst (s @ 0 # r) i =
     Some (if i + n \<le> length s then (- E2BIG, take (i + n - 1) s @ 0 # drop (i + n) dst)
           else (int (length s), s @ 0 # drop (length s + 1) dst))"
proof (induction n arbitrary: i dst)
  case 0
  then obtain j where i: "i = Suc j" by (cases i) auto
  have "dst[j := 0] = take j dst @ 0 # drop (Suc j) dst" using 0 i by (simp add: upd_conv_take_nth_drop)
  moreover have "take j dst = take j s" using 0 i by (metis Suc_n_not_le_n nat_le_linear take_take min.absorb1)
  ultimately show ?case using 0 i by simp
next
  case (Suc n)
  show ?case
  proof (cases "i < length s")
    case True
    then have nz: "s ! i \<noteq> 0" using Suc.prems(1) by (metis nth_mem)
    let ?d = "dst[i := s ! i]"
    have "take (Suc i) ?d = take (Suc i) s"
      using Suc.prems True by (simp add: take_Suc_conv_app_nth take_update_swap list_update_append)
    then show ?thesis using True Suc.prems nz Suc.IH [of "Suc i" ?d] by (simp add: nth_append)
  next
    case False
    then have i: "i = length s" using Suc.prems(2) by simp
    moreover have "dst[i := 0] = s @ 0 # drop (Suc (length s)) dst"
      using Suc.prems i by (simp add: upd_conv_take_nth_drop)
    ultimately show ?thesis using Suc.prems by (simp add: nth_append)
  qed
qed

lemma strscpy_eq:
  assumes "terminated src" and "siz \<le> length dst" and "siz \<noteq> 0"
  shows "strscpy dst src siz =
     Some (if length (cstr src) < siz then int (length (cstr src)) else - E2BIG,
           take (siz - 1) (cstr src) @ 0 # drop (min (siz - 1) (length (cstr src)) + 1) dst)"
  using assms(1)
proof (rule terminatedE)
  fix s r
  assume s: "src = s @ 0 # r" "0 \<notin> set s" "cstr src = s"
  have "min (siz - 1) (length s) + 1 = (if siz \<le> length s then siz else length s + 1)" using assms(3) by auto
  then show ?thesis using strscpy_loop_eq [of s 0 siz dst r] s assms by (auto simp: strscpy_def)
qed

lemma strnncat_loop_eq:
  "j + min (n - i) (lim - j) \<le> length dst \<Longrightarrow> i \<le> n \<Longrightarrow> n \<le> length src \<Longrightarrow>
   strnncat_loop dst lim src n i j =
     (let k = min (n - i) (lim - j) in Some (j + k, take j dst @ take k (drop i src) @ drop (j + k) dst))"
proof (induction dst lim src n i j rule: strnncat_loop.induct)
  case (1 dst lim src n i j)
  show ?case
  proof (cases "i < n \<and> j < lim")
    case True
    then obtain k where k: "min (n - i) (lim - j) = Suc k" "min (n - Suc i) (lim - Suc j) = k" by (cases "min (n - i) (lim - j)") auto
    then have "j + k < length dst" "j + 1 + min (n - (i + 1)) (lim - (j + 1)) \<le> length dst" using 1(2) by simp_all
    then have "take (Suc j) (dst[j := src ! i]) = take j dst @ [src ! i]"
      "drop (Suc j + k) (dst[j := src ! i]) = drop (Suc j + k) dst"
      by (simp_all add: take_Suc_conv_app_nth)
    moreover have "drop i src = src ! i # drop (Suc i) src" using True 1(4) by (simp add: Cons_nth_drop_Suc)
    ultimately show ?thesis using True 1 k by (subst strnncat_loop.simps) (simp add: Let_def)
  next
    case False
    then show ?thesis by (subst strnncat_loop.simps) (auto simp: Let_def)
  qed
qed

lemma strnncat_eq:
  assumes "terminated dst" and "length (cstr dst) < ndst" and "ndst \<le> length dst" and "terminated src"
  shows "\<exists>rest. strnncat dst ndst src nsrc =
     Some (take (ndst - 1) (cstr dst @ take nsrc (cstr src)) @ 0 # rest)"
proof -
  obtain d q where d: "dst = d @ 0 # q" "0 \<notin> set d" "cstr dst = d" using assms(1) by (rule terminatedE)
  obtain s r where s: "src = s @ 0 # r" "0 \<notin> set s" "cstr src = s" using assms(4) by (rule terminatedE)
  let ?n = "min nsrc (length s)"
  define k where "k = min ?n (ndst - Suc (length d))"
  have k: "length d + k < length dst" "k \<le> length s" "k \<le> nsrc" using assms(2,3) d by (auto simp: k_def)
  have l: "strnncat_loop dst (ndst - 1) src ?n 0 (length d) =
      Some (length d + k, d @ take k s @ drop (length d + k) dst)"
    using strnncat_loop_eq [of "length d" ?n 0 "ndst - 1" dst src] k s d by (auto simp: k_def [symmetric] Let_def)
  have t: "take (ndst - 1) (d @ take nsrc s) = d @ take k s"
    using assms(2) d(3) by (auto simp: k_def min_def)
  have "(d @ take k s @ drop (length d + k) dst)[length d + k := 0] = d @ take k s @ 0 # drop (length d + k + 1) dst"
    using k by (simp add: upd_conv_take_nth_drop)
  then have "strnncat dst ndst src nsrc = Some (d @ take k s @ 0 # drop (length d + k + 1) dst)"
    using assms(2) d s k l nul_before_eq [of d q ndst] nul_before_eq [of s r nsrc] by (simp add: strnncat_def)
  with t d(3) s(3) show ?thesis by auto
qed

lemma strncpy_pad_eq: "i + n \<le> length dst \<Longrightarrow> strncpy_pad n dst i = Some (take i dst @ replicate n 0 @ drop (i + n) dst)"
proof (induction n arbitrary: dst i)
  case (Suc n)
  have "take (Suc i) (dst[i := 0]) = take i dst @ [0]" using Suc.prems by (simp add: take_Suc_conv_app_nth)
  then show ?case using Suc.prems Suc.IH [of "Suc i" "dst[i := 0]"] by simp
qed simp

lemma strncpy_loop_eq:
  "0 \<notin> set s \<Longrightarrow> i \<le> length s \<Longrightarrow> i + n \<le> length dst \<Longrightarrow> take i dst = take i s \<Longrightarrow>
   strncpy_loop n dst (s @ 0 # r) i = Some (take (i + n) (s @ replicate (i + n) 0) @ drop (i + n) dst)"
proof (induction n arbitrary: i dst)
  case 0
  then show ?case by simp (metis append_take_drop_id)
next
  case (Suc n)
  show ?case
  proof (cases "i < length s")
    case True
    then have nz: "s ! i \<noteq> 0" using Suc.prems(1) by (metis nth_mem)
    let ?d = "dst[i := s ! i]"
    have "take (Suc i) ?d = take (Suc i) s"
      using Suc.prems True by (simp add: take_Suc_conv_app_nth take_update_swap list_update_append)
    then show ?thesis using True Suc.prems nz Suc.IH [of "Suc i" ?d] by (simp add: nth_append)
  next
    case False
    then have i: "i = length s" using Suc.prems(2) by simp
    moreover have "take (Suc i) (dst[i := 0]) = s @ [0]" using Suc.prems i by (simp add: take_Suc_conv_app_nth)
    ultimately show ?thesis using Suc.prems strncpy_pad_eq [of "Suc i" n "dst[i := 0]"] by (simp add: nth_append)
  qed
qed

lemma strncpy_eq:
  assumes "terminated src" and "n \<le> length dst"
  shows "strncpy dst src n = Some (take n (cstr src @ replicate n 0) @ drop n dst)"
  using assms(1)
proof (rule terminatedE)
  fix s r
  assume "src = s @ 0 # r" "0 \<notin> set s" "cstr src = s"
  then show ?thesis using strncpy_loop_eq [of s 0 n dst r] assms by (simp add: strncpy_def)
qed

section \<open>Token loops\<close>

text \<open>
  The loop of the callers, \<open>for (s = kstrtok(s, w, &lasts); s; s = kstrtok(0, w, &lasts))\<close>, and the
  loop \<open>while ((p = strsep(&name, delim)))\<close>: the strings at the pointers they get, in order. The first
  argument bounds the rounds.
\<close>

primrec strtok_all :: "nat \<Rightarrow> bytes \<Rightarrow> nat option \<Rightarrow> bytes \<Rightarrow> nat option \<Rightarrow> bytes list option" where
  "strtok_all 0 buf s delim lasts = None"
| "strtok_all (Suc fuel) buf s delim lasts = do {
     (tok, buf, l) \<leftarrow> kstrtok buf s (Some delim) (Some lasts);
     case (tok, l) of
       (Some p, Some lasts) \<Rightarrow> do {
         ts \<leftarrow> strtok_all fuel buf None delim lasts;
         Some (cstr (drop p buf) # ts) }
     | _ \<Rightarrow> Some [] }"

primrec strsep_all :: "nat \<Rightarrow> bytes \<Rightarrow> nat option \<Rightarrow> bytes \<Rightarrow> bytes list option" where
  "strsep_all 0 buf stringp delim = None"
| "strsep_all (Suc fuel) buf stringp delim = do {
     (tok, buf, stringp) \<leftarrow> strsep buf stringp delim;
     case tok of
       Some p \<Rightarrow> do {
         ts \<leftarrow> strsep_all fuel buf stringp delim;
         Some (cstr (drop p buf) # ts) }
     | None \<Rightarrow> Some [] }"

text \<open>What they should give: the fields between the delimiters.\<close>

primrec fields :: "('a \<Rightarrow> bool) \<Rightarrow> 'a list \<Rightarrow> 'a list list" where
  "fields p [] = [[]]"
| "fields p (x # xs) = (if p x then [] # fields p xs else (x # hd (fields p xs)) # tl (fields p xs))"

lemma fields_none: "\<forall>x \<in> set t. \<not> p x \<Longrightarrow> fields p t = [t]"
  by (induction t) auto

lemma fields_first: "\<forall>x \<in> set t. \<not> p x \<Longrightarrow> p c \<Longrightarrow> fields p (t @ c # w) = t # fields p w"
  by (induction t) auto

lemma fields_spanned: "\<forall>x \<in> set ds. p x \<Longrightarrow> filter (\<lambda>f. f \<noteq> []) (fields p (ds @ w)) = filter (\<lambda>f. f \<noteq> []) (fields p w)"
  by (induction ds) auto

lemma fields_split:
  obtains "\<forall>x \<in> set w. \<not> p x" | t c w' where "w = t @ c # w'" "\<forall>x \<in> set t. \<not> p x" "p c"
  using split_list_first_prop [of w p] by blast

lemma span_hit_eq: "0 \<notin> set d \<Longrightarrow> span_hit (d @ 0 # r) c = Some (c \<in> set d)"
  by (induction d) auto

lemma delim_hit_eq: "0 \<notin> set d \<Longrightarrow> delim_hit (d @ 0 # r) c = Some (c = 0 \<or> c \<in> set d)"
  by (induction d) auto

lemma tok_skip_eq:
  assumes "terminated delim"
  shows "drop s buf = ds @ c # rest \<Longrightarrow> \<forall>x \<in> set ds. x \<in> set (cstr delim) \<Longrightarrow> c \<notin> set (cstr delim) \<Longrightarrow>
    tok_skip buf delim s = Some (c, s + length ds + 1)"
proof (induction ds arbitrary: s)
  case Nil
  then have "s < length buf" "buf ! s = c" by (metis Nil drop_eq_Nil2 linorder_not_le list.distinct(1) append_Nil, simp add: nth_via_drop)
  then show ?case using assms Nil by (auto simp: tok_skip.simps [of buf] span_hit_eq elim!: terminatedE)
next
  case (Cons x ds)
  then have x: "s < length buf" "buf ! s = x" "drop (Suc s) buf = ds @ c # rest"
    by (metis drop_eq_Nil2 linorder_not_le list.distinct(1) append_Cons, simp add: nth_via_drop, simp add: drop_Suc tl_drop [symmetric])
  have "span_hit delim x = Some True" using assms Cons.prems(2) by (auto simp: span_hit_eq elim!: terminatedE)
  then show ?case using Cons.IH [OF x(3)] Cons.prems x by (simp add: tok_skip.simps [of buf delim s])
qed

lemma tok_scan_eq:
  assumes "terminated delim"
  shows "drop s buf = t @ c # rest \<Longrightarrow> \<forall>x \<in> set t. x \<noteq> 0 \<and> x \<notin> set (cstr delim) \<Longrightarrow> c = 0 \<or> c \<in> set (cstr delim) \<Longrightarrow>
    tok_scan buf delim s = Some (if c = 0 then (buf, None) else (buf[s + length t := 0], Some (s + length t + 1)))"
proof (induction t arbitrary: s)
  case Nil
  then have "s < length buf" "buf ! s = c" by (metis Nil drop_eq_Nil2 linorder_not_le list.distinct(1) append_Nil, simp add: nth_via_drop)
  then show ?case using assms Nil by (auto simp: tok_scan.simps [of buf] delim_hit_eq elim!: terminatedE)
next
  case (Cons x t)
  then have x: "s < length buf" "buf ! s = x" "drop (Suc s) buf = t @ c # rest"
    by (metis drop_eq_Nil2 linorder_not_le list.distinct(1) append_Cons, simp add: nth_via_drop, simp add: drop_Suc tl_drop [symmetric])
  have "delim_hit delim x = Some False" using assms Cons.prems(2) by (auto simp: delim_hit_eq elim!: terminatedE)
  then show ?case using Cons.IH [OF x(3)] Cons.prems x by (simp add: tok_scan.simps [of buf delim s])
qed

text \<open>Cutting the token \<open>t\<close> off the rest of the array.\<close>

lemma cut_token:
  assumes "drop s buf = t @ c # rest" and "0 \<notin> set t"
  shows "cstr (drop s (buf[s + length t := 0])) = t"
    and "drop (s + length t + 1) (buf[s + length t := 0]) = rest"
proof -
  have "drop s (buf[s + length t := 0]) = t @ 0 # rest" by (simp add: drop_update_swap assms(1))
  then show "cstr (drop s (buf[s + length t := 0])) = t" by (simp add: assms(2))
  have "drop (s + length t + 1) buf = drop (length t + 1) (drop s buf)" by (simp add: add.commute)
  then show "drop (s + length t + 1) (buf[s + length t := 0]) = rest" by (simp add: assms(1))
qed

lemma cstr_no_nul: "x \<in> set (cstr d) \<Longrightarrow> x \<noteq> 0"
  by (auto simp: cstr_def dest: set_takeWhileD)

lemma strsep_all_eq:
  assumes "terminated delim"
  shows "drop s buf = w @ 0 # rest \<Longrightarrow> 0 \<notin> set w \<Longrightarrow> length w + 2 \<le> fuel \<Longrightarrow>
    strsep_all fuel buf (Some s) delim = Some (fields (\<lambda>c. c \<in> set (cstr delim)) w)"
proof (induction fuel arbitrary: s buf w)
  case (Suc fuel)
  let ?p = "\<lambda>c. c \<in> set (cstr delim)"
  show ?case
  proof (cases rule: fields_split [of w ?p])
    case 1
    have "tok_scan buf delim s = Some (buf, None)"
      using tok_scan_eq [OF assms Suc.prems(1)] Suc.prems(2) 1 by fastforce
    moreover have "strsep_all fuel buf None delim = Some []"
      using Suc.prems(3) by (cases fuel) (simp_all add: strsep_def)
    ultimately show ?thesis using Suc.prems 1 fields_none [of w ?p] by (simp add: strsep_def)
  next
    case (2 t c w')
    have d: "drop s buf = t @ c # w' @ 0 # rest" and c: "c \<noteq> 0" and t: "0 \<notin> set t" "0 \<notin> set w'"
      using Suc.prems(1,2) 2(1) by auto
    let ?b = "buf[s + length t := 0]"
    have "tok_scan buf delim s = Some (?b, Some (s + length t + 1))"
      using tok_scan_eq [OF assms d] 2 c t by fastforce
    moreover have "strsep_all fuel ?b (Some (s + length t + 1)) delim = Some (fields ?p w')"
      using Suc.IH [OF cut_token(2) [OF d t(1)]] t Suc.prems(3) 2(1) by simp
    ultimately show ?thesis using cut_token(1) [OF d t(1)] fields_first [OF 2(2,3)] 2(1) by (simp add: strsep_def)
  qed
qed simp

lemma strtok_all_eq:
  assumes "terminated delim"
  shows "(if s = None then lasts else s) = Some q \<Longrightarrow> drop q buf = w @ 0 # rest \<Longrightarrow> 0 \<notin> set w \<Longrightarrow> length w + 2 \<le> fuel \<Longrightarrow>
    strtok_all fuel buf s delim lasts = Some (filter (\<lambda>f. f \<noteq> []) (fields (\<lambda>c. c \<in> set (cstr delim)) w))"
proof (induction fuel arbitrary: s lasts q buf w)
  case (Suc fuel)
  let ?p = "\<lambda>c. c \<in> set (cstr delim)"
  define ds u where "ds = takeWhile ?p w" and "u = dropWhile ?p w"
  have w: "w = ds @ u" by (simp add: ds_def u_def)
  have ds: "\<forall>x \<in> set ds. ?p x" by (auto simp: ds_def dest: set_takeWhileD)
  have nz: "\<not> ?p 0" using cstr_no_nul by blast
  note f = fields_spanned [of ds ?p, OF ds]
  show ?case
  proof (cases u)
    case Nil
    then have "tok_skip buf delim q = Some (0, q + length ds + 1)"
      using tok_skip_eq [OF assms] Suc.prems(2) w ds nz by simp
    then show ?thesis using Suc.prems(1) Nil f [of "[]"] by (simp add: kstrtok_def w)
  next
    case (Cons x u')
    have "dropWhile ?p w \<noteq> []" "hd (dropWhile ?p w) = x" using Cons by (simp_all add: u_def [symmetric])
    then have "\<not> ?p x" using hd_dropWhile by blast
    moreover have "set w = set ds \<union> insert x (set u')" using w Cons by simp
    ultimately have x: "\<not> ?p x" "x \<noteq> 0" "0 \<notin> set u'" using Suc.prems(3) by blast+
    let ?q = "q + length ds"
    have du: "drop ?q buf = x # u' @ 0 # rest"
      using Suc.prems(2) w Cons drop_drop [of "length ds" q buf] by (simp add: add.commute)
    have du': "drop (?q + 1) buf = u' @ 0 # rest"
      using du by (metis Suc_eq_plus1 drop_Suc tl_drop list.sel(3))
    have sk: "tok_skip buf delim q = Some (x, ?q + 1)"
      using tok_skip_eq [OF assms, of q buf ds x "u' @ 0 # rest"] Suc.prems(2) w Cons ds x(1) by simp
    show ?thesis
    proof (cases rule: fields_split [of u' ?p])
      case 1
      have "tok_scan buf delim (?q + 1) = Some (buf, None)"
        using tok_scan_eq [OF assms du'] 1 x(3) by fastforce
      moreover have "strtok_all fuel buf None delim None = Some []"
        using Suc.prems(4) by (cases fuel) (simp_all add: kstrtok_def)
      moreover have "fields ?p u = [u]" using fields_none [of u ?p] 1 x(1) Cons by simp
      moreover have "cstr (drop ?q buf) = u" using du x Cons cstr_nul [of u rest] by simp
      ultimately show ?thesis using Suc.prems(1) sk x(2) Cons f [of u] by (simp add: kstrtok_def w)
    next
      case (2 t c w')
      have d: "drop (?q + 1) buf = t @ c # w' @ 0 # rest" and d2: "drop ?q buf = (x # t) @ c # w' @ 0 # rest"
        and t: "0 \<notin> set t" "0 \<notin> set (x # t)" "0 \<notin> set w'"
        using du du' x 2(1) by auto
      have c: "c \<noteq> 0" using 2(3) cstr_no_nul by blast
      let ?b = "buf[?q + 1 + length t := 0]"
      have "tok_scan buf delim (?q + 1) = Some (?b, Some (?q + 1 + length t + 1))"
        using tok_scan_eq [OF assms d] 2 c t by fastforce
      moreover have "strtok_all fuel ?b None delim (Some (?q + 1 + length t + 1)) = Some (filter (\<lambda>f. f \<noteq> []) (fields ?p w'))"
        using cut_token(2) [OF d t(1)] t Suc.prems(4) 2(1) w Cons by (intro Suc.IH) auto
      moreover have "fields ?p u = (x # t) # fields ?p w'"
        using fields_first [of "x # t" ?p c w'] 2 x(1) Cons by simp
      moreover have "cstr (drop ?q ?b) = x # t" using cut_token(1) [OF d2 t(2)] by simp
      ultimately show ?thesis using Suc.prems(1) sk x(2) f [of u] by (simp add: kstrtok_def w)
    qed
  qed
qed simp

section \<open>Digits\<close>

text \<open>The digits of \<open>v\<close>, from the one of weight \<open>base ^ m\<close> down.\<close>

definition digits :: "nat \<Rightarrow> nat \<Rightarrow> nat \<Rightarrow> nat list" where
  "digits base v m = map (\<lambda>k. v div base ^ k mod base) (rev [0..<Suc m])"

lemma digits_Suc: "digits base v (Suc m) = v div base ^ Suc m mod base # digits base v m"
  by (simp add: digits_def)

lemma digits_value: "foldl (\<lambda>a d. a * base + d) a (digits base v m) = a * base ^ Suc m + v mod base ^ Suc m"
proof (induction m arbitrary: a)
  case 0
  then show ?case by (simp add: digits_def)
next
  case (Suc m)
  have "v mod base ^ Suc (Suc m) = base ^ Suc m * (v div base ^ Suc m mod base) + v mod base ^ Suc m"
    using mod_mult2_eq [of v "base ^ Suc m" base] by (simp add: mult.commute mult.left_commute)
  then show ?case unfolding digits_Suc foldl.simps Suc by (simp add: algebra_simps)
qed

lemma uitoa_div_eq:
  "2 \<le> base \<Longrightarrow> j = 0 \<or> base ^ j \<le> v \<Longrightarrow>
   \<exists>m. uitoa_div base v (base ^ j) (Suc j) = (base ^ m, Suc m) \<and> v < base ^ Suc m \<and> (m = 0 \<or> base ^ m \<le> v)"
proof (induction base v "base ^ j" "Suc j" arbitrary: j rule: uitoa_div.induct)
  case (1 base v)
  show ?case
  proof (cases "base \<le> v div base ^ j")
    case True
    then have "base ^ Suc j \<le> v" using 1(2) by (simp add: less_eq_div_iff_mult_less_eq)
    moreover have "uitoa_div base v (base ^ j) (Suc j) = uitoa_div base v (base ^ Suc j) (Suc (Suc j))"
      using True 1(2) by (subst uitoa_div.simps) (simp add: mult.commute)
    ultimately show ?thesis using 1(1) [of "Suc j"] True 1(2) by (simp add: mult.commute)
  next
    case False
    then have "v < base ^ Suc j" using 1(2) by (simp add: div_less_iff_less_mult not_le)
    then show ?thesis using False 1(3) by (intro exI [of _ j]) (subst uitoa_div.simps, simp)
  qed
qed

lemma uitoa_put_eq:
  "2 \<le> base \<Longrightarrow> n + m + 1 < length str \<Longrightarrow>
   uitoa_put str n base v (base ^ m) =
     Some (take n str @ map digit_char (digits base v m) @ 0 # drop (n + m + 2) str)"
proof (induction m arbitrary: n str)
  case 0
  then show ?case
    by (simp add: uitoa_put.simps [of str] digits_def upd_conv_take_nth_drop list_update_append take_Suc_conv_app_nth)
next
  case (Suc m)
  let ?s = "str[n := digit_char (v div base ^ Suc m mod base)]"
  have "base ^ Suc m div base = base ^ m" "base ^ m \<noteq> 0" using Suc.prems(1) by simp_all
  moreover have "take (n + 1) ?s = take n str @ [digit_char (v div base ^ Suc m mod base)]"
    using Suc.prems(2) by (simp add: take_Suc_conv_app_nth)
  moreover have "drop (n + 1 + m + 2) ?s = drop (n + Suc m + 2) str" by simp
  moreover have "uitoa_put ?s (n + 1) base v (base ^ m) =
     Some (take (n + 1) ?s @ map digit_char (digits base v m) @ 0 # drop (n + 1 + m + 2) ?s)"
    using Suc.IH [of "n + 1" ?s] Suc.prems by simp
  ultimately show ?case using Suc.prems
    by (simp add: uitoa_put.simps [of str] digits_Suc)
qed

lemma UITOA_eq:
  assumes "2 \<le> base" and "v < base ^ (length str - 1)" and "2 \<le> length str"
  shows "\<exists>m. UITOA base str v = Some (Suc m, map digit_char (digits base v m) @ 0 # drop (m + 2) str) \<and>
    v < base ^ Suc m \<and> (m = 0 \<or> base ^ m \<le> v)"
proof -
  obtain m where m: "uitoa_div base v 1 1 = (base ^ m, Suc m)" "v < base ^ Suc m" "m = 0 \<or> base ^ m \<le> v"
    using uitoa_div_eq [of base 0 v] assms(1) by auto
  have "m + 1 < length str"
  proof (cases "m = 0")
    case False
    then have "base ^ m < base ^ (length str - 1)" using m(3) assms(2) by linarith
    then have "m < length str - 1" using assms(1) by simp
    then show ?thesis by simp
  qed (use assms(3) in simp)
  then show ?thesis using m assms(1) uitoa_put_eq [of base 0 m str v] by (auto simp: UITOA_def)
qed

lemma s32_step: "s32 (s32 n * 10 + d) = s32 (n * 10 + d)"
proof -
  define k where "k = (n + 2 ^ 31) div (2 ^ 32 :: int)"
  have "s32 n = n - 2 ^ 32 * k" by (simp add: s32_def k_def minus_mult_div_eq_mod [symmetric])
  then have "s32 n * 10 + d + 2 ^ 31 = n * 10 + d + 2 ^ 31 + (- 10 * k) * 2 ^ 32" by (simp add: algebra_simps)
  then show ?thesis unfolding s32_def by (simp only: mod_mult_self1)
qed

lemma digit_char_unat: "d < 10 \<Longrightarrow> unat (digit_char d) = d + 48"
  unfolding digit_char_def by (rule unat_of_nat_small) simp

lemma digit_char_range: "d < 10 \<Longrightarrow> 48 \<le> digit_char d \<and> digit_char d \<le> 57"
  using digit_char_unat [of d] by (simp add: word_le_nat_alt)

lemma digit_char_nz: "d < 10 \<Longrightarrow> digit_char d \<noteq> 0"
  using digit_char_range [of d] by auto

lemma atoi_head_digit: "48 \<le> x \<Longrightarrow> atoi_head (x # xs) = Some (0, x # xs)"
  by auto

lemma atoi_digits_eq:
  "\<forall>d \<in> set ds. d < 10 \<Longrightarrow> atoi_digits (map digit_char ds @ 0 # r) (s32 (int n)) =
     Some (s32 (int (foldl (\<lambda>a d. a * 10 + d) n ds)))"
proof (induction ds arbitrary: n)
  case (Cons d ds)
  have "s32 (s32 (int n) * 10 + int (d + 48) - 48) = s32 (int (n * 10 + d))"
    using s32_step [of "int n" "int d"] by simp
  moreover have "d < 10" using Cons.prems by simp
  ultimately have "atoi_digits (digit_char d # map digit_char ds @ 0 # r) (s32 (int n)) =
      atoi_digits (map digit_char ds @ 0 # r) (s32 (int (n * 10 + d)))"
    using digit_char_range [of d] digit_char_unat [of d] by (simp only: atoi_digits.simps simp_thms if_True)
  then show ?case using Cons.IH [of "n * 10 + d"] Cons.prems by simp
qed simp

section \<open>Properties\<close>

text \<open>
  C22: The bounded copies stay inside a destination of \<open>siz\<close> bytes whatever the length of the source.
  Both leave the longest prefix of the source that fits, terminated, and nothing behind it is written;
  \<open>strlcpy\<close> returns the length of the source, \<open>strscpy\<close> the number of bytes copied or \<open>-E2BIG\<close> if the
  source was cut.
\<close>

theorem bounded_copies:
  assumes "terminated src" and "siz \<le> length dst" and "siz \<noteq> 0"
  shows "\<exists>d. d = take (siz - 1) (cstr src) @ 0 # drop (min (siz - 1) (length (cstr src)) + 1) dst \<and> length d = length dst \<and>
     strlcpy dst src siz = Some (length (cstr src), d) \<and>
     strscpy dst src siz = Some (if length (cstr src) < siz then int (length (cstr src)) else - E2BIG, d)"
proof -
  have "length (take (siz - 1) (cstr src) @ 0 # drop (min (siz - 1) (length (cstr src)) + 1) dst) = length dst"
    using assms(2,3) by (auto simp: min_def)
  then show ?thesis using strlcpy_eq [OF assms] strscpy_eq [OF assms] by blast
qed

theorem bounded_copies_witness:
  "strlcpy [9, 9, 9, 9] [1, 2, 3, 0] 3 = Some (3, [1, 2, 0, 9]) \<and>
   strscpy [9, 9, 9, 9] [1, 2, 3, 0] 3 = Some (- E2BIG, [1, 2, 0, 9])"
  using bounded_copies [of "[1, 2, 3, 0]" 3 "[9, 9, 9, 9]"] by (simp add: terminated_def cstr_def)

text \<open>
  C21: the token loop of the callers, \<open>kstrtok\<close> called until it returns \<open>NULL\<close>, ends after at most one
  round per byte of the buffer, never leaves the buffer, and yields exactly the non-empty fields of
  the string between delimiters, in order.
\<close>

theorem kstrtok_tokens:
  assumes "terminated buf" and "terminated delim"
  shows "strtok_all (length buf + 1) buf (Some 0) delim lasts =
     Some (filter (\<lambda>f. f \<noteq> []) (fields (\<lambda>c. c \<in> set (cstr delim)) (cstr buf)))"
  using assms(1)
proof (rule terminatedE)
  fix w r
  assume "buf = w @ 0 # r" "0 \<notin> set w" "cstr buf = w"
  then show ?thesis using strtok_all_eq [OF assms(2), of "Some 0" lasts 0 buf w r "length buf + 1"] by simp
qed

theorem kstrtok_tokens_witness:
  "strtok_all 9 [47, 117, 47, 47, 98, 99, 0, 47] (Some 0) [47, 0] None = Some [[117], [98, 99]]"
proof -
  have "length [47, 117, 47, 47, 98, 99, 0, 47 :: u8] + 1 = 9" by simp
  note kstrtok_tokens [of "[47, 117, 47, 47, 98, 99, 0, 47]" "[47, 0]" None, unfolded this]
  then show ?thesis by (simp add: terminated_def cstr_def del: strtok_all.simps)
qed

text \<open>The same for \<open>strsep\<close>, with the empty fields.\<close>

lemma strsep_fields:
  assumes "terminated buf" and "terminated delim"
  shows "strsep_all (length buf + 1) buf (Some 0) delim = Some (fields (\<lambda>c. c \<in> set (cstr delim)) (cstr buf))"
  using assms(1)
proof (rule terminatedE)
  fix w r
  assume "buf = w @ 0 # r" "0 \<notin> set w" "cstr buf = w"
  then show ?thesis using strsep_all_eq [OF assms(2), of 0 buf w r "length buf + 1"] by simp
qed

text \<open>
  \<open>uitoa32\<close> needs at most 11 bytes; it returns the number of digits, and \<open>atoi\<close> reads the value
  back, as a signed 32-bit number.
\<close>

theorem uitoa_atoi:
  assumes "11 \<le> length str"
  shows "\<exists>n str'. uitoa32 str v = Some (n, str') \<and> n = length (cstr str') \<and> 0 < n \<and> n \<le> 10 \<and>
     length str' = length str \<and> atoi str' = Some (s32 (int (unat v)))"
proof -
  have v: "unat v < 2 ^ 32" using unsigned_less [of v] by simp
  have "(10 :: nat) ^ 10 \<le> 10 ^ (length str - 1)" using assms by (intro power_increasing) simp_all
  then have "unat v < 10 ^ (length str - 1)" using v by simp
  then obtain m where m: "uitoa32 str v =
      Some (Suc m, map digit_char (digits 10 (unat v) m) @ 0 # drop (m + 2) str)"
    "unat v < 10 ^ Suc m" "m = 0 \<or> 10 ^ m \<le> unat v"
    using UITOA_eq [of 10 "unat v" str] assms by (auto simp: uitoa32_def)
  have m9: "m \<le> 9"
  proof (rule ccontr)
    assume "\<not> m \<le> 9"
    then have "(10 :: nat) ^ 10 \<le> 10 ^ m" by (intro power_increasing) simp_all
    with m(3) v \<open>\<not> m \<le> 9\<close> show False by simp
  qed
  let ?ds = "digits 10 (unat v) m"
  have ds: "\<forall>d \<in> set ?ds. d < 10" "length ?ds = Suc m" "?ds \<noteq> []" by (auto simp: digits_def)
  have nz: "0 \<notin> set (map digit_char ?ds)" using ds(1) digit_char_nz by force
  have "atoi (map digit_char ?ds @ 0 # drop (m + 2) str) = Some (s32 (int (unat v)))"
  proof -
    obtain d es where de: "?ds = d # es" using ds(3) by (cases ?ds) auto
    have "atoi_head (map digit_char ?ds @ 0 # drop (m + 2) str) =
        Some (0, map digit_char ?ds @ 0 # drop (m + 2) str)"
      using ds(1) digit_char_range [of d] de atoi_head_digit by simp
    moreover have "s32 (int 0) = 0" by simp
    moreover have "foldl (\<lambda>a d. a * 10 + d) 0 ?ds = unat v" using digits_value [of 10 0 "unat v" m] m(2) by simp
    ultimately show ?thesis using atoi_digits_eq [OF ds(1), of "drop (m + 2) str" 0] by (simp add: atoi_def)
  qed
  then show ?thesis using m(1) m9 ds(2) cstr_nul [OF nz] assms by auto
qed

theorem uitoa_atoi_witness:
  "\<exists>n str'. uitoa32 (replicate 11 7) 4294967295 = Some (n, str') \<and> n = length (cstr str') \<and> atoi str' = Some (- 1)"
proof -
  have "s32 (int (unat (4294967295 :: u32))) = - 1" by (simp add: s32_def)
  with uitoa_atoi [of "replicate 11 7" 4294967295] show ?thesis by auto
qed

text \<open>
  \<open>kstrdup\<close> of a string shorter than \<open>max\<close> returns a new block of the heap with one reference that
  holds the string with its NUL; every allocated block keeps its address, size and references, and no
  byte outside the new block changes.
\<close>

theorem kstrdup_copies:
  assumes "kinv k bs" and "terminated src" and "length (cstr src) < unat mx" and "size_ok (length (cstr src) + 1)"
    and "kstrdup src mx k = Some (p, k')"
  shows "\<exists>bs' s'. kinv k' bs' \<and> live bs' = insert (p - 24, s', 1) (live bs) \<and> p - 24 \<notin> fst ` live bs \<and>
     length (cstr src) + 1 \<le> s' \<and> (\<forall>i < length (cstr src) + 1. mem (dyn k') (p + i) = (cstr src @ [0]) ! i) \<and>
     (\<forall>x. \<not> (p \<le> x \<and> x < p + s') \<longrightarrow> mem (dyn k') x = mem (dyn k) x)"
proof -
  obtain s r where s: "src = s @ 0 # r" "0 \<notin> set s" "cstr src = s" using assms(2) by (rule terminatedE)
  have "mx \<noteq> 0" using assms(3) by auto
  then have "strlenn src mx = Some (length s)" using strlenn_eq [OF assms(2)] assms(3) s by simp
  moreover have "str_end src 0 = Some (length s + 1)" using str_end_eq [OF s(2)] s(1) by simp
  ultimately obtain k1 where k1: "kmalloc (length s + 1) k = Some (p, k1)" "p \<noteq> 0"
    "k' = k1\<lparr>dyn := (dyn k1)\<lparr>mem := put_bytes p (s @ [0]) (mem (dyn k1))\<rparr>\<rparr>"
    using assms(5) s(1) by (auto simp: kstrdup_def split: Option.bind_splits if_splits)
  have sz: "size_ok (length s + 1)" using assms(4) s(3) by simp
  from kmalloc_cases [OF assms(1) sz k1(1)] k1(2) obtain bs' where t: "taken k bs (memalign (length s + 1)) p k1 bs'" by blast
  then obtain s' where t: "kinv k1 bs'" "mem (dyn k1) = mem (dyn k)" "memalign (length s + 1) \<le> s'"
    "live bs' = insert (p - 24, s', 1) (live bs)" "p - 24 \<notin> fst ` live bs" by (auto simp: taken_def)
  have le: "length s + 1 \<le> s'" using t(3) sz memalign_round(2) [of "length s + 1"] by (simp add: size_ok_def)
  have m: "mem (dyn k') x = put_bytes p (s @ [0]) (mem (dyn k)) x" for x using t(2) k1(3) by simp
  have "kinv k' bs'" using t(1) k1(3) by simp
  moreover have "\<forall>i < length s + 1. mem (dyn k') (p + i) = (s @ [0]) ! i" by (simp add: m put_bytes_def)
  moreover have "\<forall>x. \<not> (p \<le> x \<and> x < p + s') \<longrightarrow> mem (dyn k') x = mem (dyn k) x" using le by (simp add: m put_bytes_def)
  ultimately show ?thesis using t le s(3) by blast
qed

theorem kstrdup_copies_witness:
  "\<exists>p k'. kstrdup [104, 105, 0] 8 (kheap_boot (dynmem_boot (\<lambda>_. 9))) = Some (p, k') \<and>
     mem (dyn k') p = 104 \<and> mem (dyn k') (p + 2) = 0"
proof -
  let ?k = "kheap_boot (dynmem_boot (\<lambda>_. 9))"
  have k: "kinv ?k []" by (rule kinv_boot [OF dm_inv_boot])
  have c: "cstr [104, 105, 0 :: u8] = [104, 105]" and t: "terminated [104, 105, 0]" by (simp_all add: cstr_def terminated_def)
  have sz: "size_ok (length (cstr [104, 105, 0 :: u8]) + 1)" unfolding c by (simp add: size_ok_def room_ok_def memalign_def)
  have l: "length (cstr [104, 105, 0 :: u8]) < unat (8 :: u32)" unfolding c by simp
  have "strlenn [104, 105, 0] 8 = Some 2" using strlenn_eq [OF t, of 8] by (simp add: c)
  moreover obtain k1 where "kmalloc (2 + 1) ?k = Some (0x800018, k1)" by (simp add: heap_eval)
  ultimately obtain k' where r: "kstrdup [104, 105, 0] 8 ?k = Some (0x800018, k')" by (simp add: kstrdup_def)
  from kstrdup_copies [OF k t l sz r] have "\<forall>i < 2 + 1. mem (dyn k') (0x800018 + i) = [104, 105, 0] ! i"
    unfolding c by auto
  note this [rule_format, of 0] this [rule_format, of 2]
  with r show ?thesis by (intro exI [of _ "0x800018"] exI [of _ k']) simp
qed

section \<open>Defects\<close>

text \<open>
  The limit of \<open>kstrdup\<close> bounds the block but not the copy: with \<open>max\<close> 3 a string of 9 bytes gets a
  block of 4 bytes, and the bytes behind the block are overwritten.
\<close>

lemma kstrdup_overflows:
  "\<exists>k'. kstrdup [1, 2, 3, 4, 5, 6, 7, 8, 0] 3 (kheap_boot (dynmem_boot (\<lambda>_. 9))) = Some (0x800018, k') \<and>
     map_option bsize (mblocks k' 0x800000) = Some 4 \<and> mem (dyn k') (0x800018 + 5) = 6"
proof -
  have t: "terminated [1, 2, 3, 4, 5, 6, 7, 8, 0]" by (simp add: terminated_def)
  have "strlenn [1, 2, 3, 4, 5, 6, 7, 8, 0] 3 = Some 2" using strlenn_eq [OF t, of 3] by (simp add: cstr_def)
  moreover have "str_end [1, 2, 3, 4, 5, 6, 7, 8, 0] 0 = Some 9" by simp
  ultimately show ?thesis by (simp add: kstrdup_def heap_eval put_bytes_def)
qed

text \<open>\<open>strstr\<close> does not look at the first position, and \<open>strncmp\<close> with a count of 0 compares everything.\<close>

lemma strstr_misses_prefix: "strstr [97, 98, 0] [97, 0] = Some None"
  by (simp add: strstr_def byte_diff_def)

lemma strncmp_zero_compares: "strncmp [97, 98, 0] [97, 99, 0] 0 = Some (- 1)"
  by code_simp

text \<open>\<open>strnncat\<close> on a destination without a NUL in its \<open>ndst\<close> bytes writes one byte behind them.\<close>

lemma strnncat_full_dst: "strnncat [1, 2] 2 [3, 0] 2 = None"
  by (simp add: strnncat_def strnncat_loop.simps eval_nat_numeral)

end
