(* ===== verification/Dehtable.thy ===== *)
theory Dehtable
  imports Kstring
begin

text \<open>
  The directory entry table of the in-memory file systems (\<^verbatim>\<open>kern/fs/libfs/dehtable.c\<close>) and the hash it
  uses (\<^verbatim>\<open>kern/libkern/siphash/halfsiphash.c\<close>). A table has 16 buckets; a bucket is a pointer to a
  block of the kernel heap in which entries of different sizes lie one behind the other. The heap is
  the one of \<open>Kmalloc\<close> and every allocation goes through it; what the blocks of the tables hold is
  kept in \<open>chains\<close>, by block and byte offset. An offset with no entry reads as \<open>None\<close>, as does a chain
  through a \<open>NULL\<close> pointer.
\<close>

section \<open>The hash\<close>

type_synonym sip = "u32 \<times> u32 \<times> u32 \<times> u32"

definition ROTL :: "u32 \<Rightarrow> nat \<Rightarrow> u32" where
  "ROTL x b = push_bit b x OR drop_bit (32 - b) x"

definition SIPROUND :: "sip \<Rightarrow> sip" where
  "SIPROUND = (\<lambda>(v0, v1, v2, v3).
     let v0 = v0 + v1; v1 = ROTL v1 5; v1 = v1 XOR v0; v0 = ROTL v0 16;
         v2 = v2 + v3; v3 = ROTL v3 8; v3 = v3 XOR v2;
         v0 = v0 + v3; v3 = ROTL v3 7; v3 = v3 XOR v0;
         v2 = v2 + v1; v1 = ROTL v1 13; v1 = v1 XOR v2; v2 = ROTL v2 16
     in (v0, v1, v2, v3))"

text \<open>One word of input: the two exclusive ors around the compression rounds.\<close>

definition sip_word :: "u32 \<Rightarrow> sip \<Rightarrow> sip" where
  "sip_word m = (\<lambda>(v0, v1, v2, v3).
     let (v0, v1, v2, v3) = (SIPROUND ^^ 2) (v0, v1, v2, v3 XOR m) in (v0 XOR m, v1, v2, v3))"

definition U8TO32_LE :: "u8 \<Rightarrow> u8 \<Rightarrow> u8 \<Rightarrow> u8 \<Rightarrow> u32" where
  "U8TO32_LE a b c d = ucast a OR push_bit 8 (ucast b) OR push_bit 16 (ucast c) OR push_bit 24 (ucast d)"

fun sip_blocks :: "bytes \<Rightarrow> sip \<Rightarrow> sip \<times> bytes" where
  "sip_blocks (a # b # c # d # inp) st = sip_blocks inp (sip_word (U8TO32_LE a b c d) st)"
| "sip_blocks inp st = (st, inp)"

text \<open>The \<open>switch\<close> over the bytes that are left; its cases fall through.\<close>

definition sip_tail :: "bytes \<Rightarrow> u32 \<Rightarrow> u32" where
  "sip_tail inp b =
     (let left = length inp;
          b = (if left \<ge> 3 then b OR push_bit 16 (ucast (inp ! 2)) else b);
          b = (if left \<ge> 2 then b OR push_bit 8 (ucast (inp ! 1)) else b)
      in if left \<ge> 1 then b OR ucast (inp ! 0) else b)"

text \<open>
  \<open>U32TO8_LE(&out, b)\<close> stores four bytes into four words from \<open>&out\<close> on: \<open>out\<close> is the low byte of
  \<open>b\<close>. The other three stores hit the words behind \<open>out\<close> on the stack and are not modelled.
\<close>

definition halfsiphash32 :: "bytes \<Rightarrow> nat \<Rightarrow> u32 \<times> u32 \<Rightarrow> u32 option" where
  "halfsiphash32 inp inlen key =
     (if length inp < inlen then None
      else
        let (k0, k1) = key;
            st = (0 XOR k0, 0 XOR k1, 0x6c796765 XOR k0, 0x74656462 XOR k1);
            (st, rest) = sip_blocks (take inlen inp) st;
            b = sip_tail rest (push_bit 24 (of_nat inlen));
            (v0, v1, v2, v3) = sip_word b st;
            (v0, v1, v2, v3) = (SIPROUND ^^ 4) (v0, v1, v2 XOR 0xff, v3)
        in Some (ucast (ucast (v1 XOR v3) :: u8)))"

primrec fold_hash :: "nat \<Rightarrow> u32 \<Rightarrow> u32 \<Rightarrow> u32 \<Rightarrow> u32" where
  "fold_hash 0 hash m retval = retval"
| "fold_hash (Suc chunks) hash m retval = fold_hash chunks hash (push_bit 15 m) (retval + (hash AND m))"

text \<open>\<open>NBITS(16)\<close> is 5 and \<open>NAME_MAX\<close> 255.\<close>

definition hash_fname :: "bytes \<Rightarrow> u32 \<times> u32 \<Rightarrow> nat option" where
  "hash_fname str key = do {
     len \<leftarrow> strlenn str 256;
     hash \<leftarrow> halfsiphash32 str len key;
     Some (unat (fold_hash 5 hash 15 0 AND 15)) }"

section \<open>The table\<close>

record dirent =
  dh_ino :: u64
  dh_type :: u8
  dh_size :: nat
  dh_link :: u8
  dh_name :: bytes

record dh_table =
  hkey :: "u32 \<times> u32"
  htable :: "nat list"

record dstate =
  heap :: kheap
  chains :: "nat \<Rightarrow> nat \<rightharpoonup> dirent"

abbreviation (input) DEHTABLE_SIZE :: nat where "DEHTABLE_SIZE \<equiv> 16"
abbreviation (input) DIRENT_SIZE :: nat where "DIRENT_SIZE \<equiv> 23"
abbreviation (input) CH_NOLINK :: u8 where "CH_NOLINK \<equiv> 0"
abbreviation (input) CH_LINK :: u8 where "CH_LINK \<equiv> 1"
abbreviation (input) SIZE_MAX :: nat where "SIZE_MAX \<equiv> 2 ^ 32 - 1"

definition is_invalid_offset :: "dirent \<Rightarrow> bool" where
  "is_invalid_offset n \<longleftrightarrow> dh_size n > DIRENT_SIZE + 255 + 1"

definition get_dirent :: "dstate \<Rightarrow> nat \<Rightarrow> nat \<Rightarrow> dirent option" where
  "get_dirent st dea off = (if dea = 0 then None else chains st dea off)"

text \<open>The loops run as long as the entries are linked, which a broken chain may be for ever.\<close>

partial_function (option) find_node_loop :: "dstate \<Rightarrow> nat \<Rightarrow> bytes \<Rightarrow> u32 \<Rightarrow> nat \<Rightarrow> nat option option" where
  "find_node_loop st chain name name_len off = do {
     node \<leftarrow> get_dirent st chain off;
     if is_invalid_offset node then Some None
     else do {
       r \<leftarrow> strncmp (dh_name node) name name_len;
       if r = 0 then Some (Some off)
       else if dh_link node = CH_LINK then find_node_loop st chain name name_len (off + dh_size node)
       else Some None } }"

definition find_node :: "dstate \<Rightarrow> nat \<Rightarrow> bytes \<Rightarrow> nat option option" where
  "find_node st chain name = do {
     l \<leftarrow> strlenn name 256;
     find_node_loop st chain name (of_nat (l + 1)) 0 }"

text \<open>\<open>i_last\<close> and \<open>i_size\<close>; the difference wraps when the loop ended at an invalid entry.\<close>

partial_function (option) find_last_node_loop :: "dstate \<Rightarrow> nat \<Rightarrow> nat \<Rightarrow> (nat \<times> nat) option" where
  "find_last_node_loop st chain i_size = do {
     node \<leftarrow> get_dirent st chain i_size;
     if is_invalid_offset node then Some (szt (i_size + (2 ^ 32 - dh_size node)), i_size)
     else if dh_link node = CH_LINK then find_last_node_loop st chain (i_size + dh_size node)
     else Some (i_size, i_size + dh_size node) }"

definition find_last_node :: "dstate \<Rightarrow> nat \<Rightarrow> (nat \<times> nat) option" where
  "find_last_node st chain = find_last_node_loop st chain 0"

definition dh_lookup :: "dstate \<Rightarrow> dh_table \<Rightarrow> bytes \<Rightarrow> (int \<times> u64 option) option" where
  "dh_lookup st dir name = do {
     h \<leftarrow> hash_fname name (hkey dir);
     dea \<leftarrow> rd (htable dir) h;
     if dea = 0 then Some (- ENOENT, None)
     else do {
       dent \<leftarrow> find_node st dea name;
       case dent of
         None \<Rightarrow> Some (- ENOENT, None)
       | Some off \<Rightarrow> do {
           node \<leftarrow> get_dirent st dea off;
           Some (0, Some (dh_ino node)) } } }"

text \<open>
  A new block holds no entry; a block that is resized keeps its entries, at a new address if it moves.
\<close>

definition new_chain :: "nat \<Rightarrow> (nat \<Rightarrow> nat \<rightharpoonup> dirent) \<Rightarrow> (nat \<Rightarrow> nat \<rightharpoonup> dirent)" where
  "new_chain p c = c(p := Map.empty)"

definition move_chain :: "nat \<Rightarrow> nat \<Rightarrow> (nat \<Rightarrow> nat \<rightharpoonup> dirent) \<Rightarrow> (nat \<Rightarrow> nat \<rightharpoonup> dirent)" where
  "move_chain p q c = c(p := Map.empty, q := c p)"

text \<open>
  The stores at the end of \<open>dh_link\<close>. For the first entry of a block the old last node is the new node,
  all of whose fields are set.
\<close>

definition append_node :: "nat \<Rightarrow> nat \<Rightarrow> dirent \<Rightarrow> (nat \<rightharpoonup> dirent) \<Rightarrow> (nat \<rightharpoonup> dirent) option" where
  "append_node i_last i_size n c =
     (if i_last = i_size then Some (c(i_size \<mapsto> n))
      else do {
        l \<leftarrow> c i_last;
        Some (c(i_last \<mapsto> l\<lparr>dh_link := CH_LINK\<rparr>, i_size \<mapsto> n)) })"

definition dh_link_entry :: "dstate \<Rightarrow> dh_table \<Rightarrow> u64 \<Rightarrow> u8 \<Rightarrow> bytes \<Rightarrow> (int \<times> dstate \<times> dh_table) option" where
  "dh_link_entry st dir vnode_num d_type name = do {
     l \<leftarrow> strlenn name 256;
     let name_len = l + 1;
     h \<leftarrow> hash_fname name (hkey dir);
     let entry_size = memalign (DIRENT_SIZE + name_len);
     (found, _) \<leftarrow> dh_lookup st dir name;
     if found = 0 then Some (- EEXIST, st, dir)
     else do {
       dea \<leftarrow> rd (htable dir) h;
       (i_last, i_size, dea, st) \<leftarrow>
         (if dea = 0 then do {
            (p, k) \<leftarrow> kzalloc entry_size (heap st);
            Some (0, 0, p, st\<lparr>heap := k, chains := if p = 0 then chains st else new_chain p (chains st)\<rparr>) }
          else do {
            (i_last, i_size) \<leftarrow> find_last_node st dea;
            (p, k) \<leftarrow> krealloc dea (szt (i_size + entry_size)) (heap st);
            Some (i_last, i_size, p,
              st\<lparr>heap := k, chains := if p = 0 then chains st else move_chain dea p (chains st)\<rparr>) });
       if dea = 0 then Some (- ENOMEM, st, dir)
       else do {
         tab \<leftarrow> wr (htable dir) h dea;
         (_, nm) \<leftarrow> strlcpy (replicate (name_len + 1) 0) name (name_len + 1);
         c \<leftarrow> append_node i_last i_size
                \<lparr>dh_ino = vnode_num, dh_type = d_type, dh_size = entry_size, dh_link = CH_NOLINK, dh_name = nm\<rparr>
                (chains st dea);
         Some (0, st\<lparr>chains := (chains st)(dea := c)\<rparr>, dir\<lparr>htable := tab\<rparr>) } } }"

text \<open>
  \<open>dh_init\<close>: the generator of \<^verbatim>\<open>kern/libkern/krandom.c\<close> makes the key, and then \<open>memset\<close> clears
  \<open>sizeof(dir->htable)\<close> bytes from the start of the table, that is the key and 14 buckets.
\<close>

definition krandom :: "u32 \<Rightarrow> u32" where
  "krandom randseed =
     (let x = (if randseed = 0 then 123459876 else randseed);
          result = x * 1103515245;
          result = result + 12345;
          result = result mod 2147483648
      in result AND 0x7fffffff)"

definition ksrandom :: "u32 \<Rightarrow> u32" where
  "ksrandom seed = (krandom ^^ 50) seed"

definition dh_init :: "u32 \<Rightarrow> dh_table \<Rightarrow> u32 \<times> dh_table" where
  "dh_init randseed dir =
     (let r0 = krandom randseed; r1 = krandom r0; dir = dir\<lparr>hkey := (r0, r1)\<rparr>
      in (r1, dir\<lparr>hkey := (0, 0), htable := replicate 14 0 @ drop 14 (htable dir)\<rparr>))"

section \<open>Removal\<close>

text \<open>
  The copying loop of \<open>rm_node\<close>: the offset of the last entry copied and the new chain, or \<open>None\<close> inside
  when an entry is invalid. After the match the names are not compared any more.
\<close>

partial_function (option) rm_loop ::
  "dstate \<Rightarrow> nat \<Rightarrow> bytes \<Rightarrow> nat \<Rightarrow> nat \<Rightarrow> nat \<Rightarrow> bool \<Rightarrow> (nat \<rightharpoonup> dirent) \<Rightarrow> (nat \<times> (nat \<rightharpoonup> dirent)) option option" where
  "rm_loop st chain name old_offset new_offset prev_noffset match nc = do {
     node \<leftarrow> get_dirent st chain old_offset;
     if is_invalid_offset node then Some None
     else do {
       r \<leftarrow> (if match then Some 1 else strncmp (dh_name node) name 256);
       let (nc, prev_noffset, new_offset, match) =
         (if match \<or> r \<noteq> 0 then (nc(new_offset \<mapsto> node), new_offset, new_offset + dh_size node, match)
          else (nc, prev_noffset, new_offset, True));
       if dh_link node = CH_NOLINK then Some (Some (prev_noffset, nc))
       else rm_loop st chain name (old_offset + dh_size node) new_offset prev_noffset match nc } }"

definition dirent0 :: dirent where
  "dirent0 = \<lparr>dh_ino = 0, dh_type = 0, dh_size = 0, dh_link = 0, dh_name = [0]\<rparr>"

text \<open>From the initial empty first entry of the new block on.\<close>

definition rm_copy :: "dstate \<Rightarrow> nat \<Rightarrow> nat \<Rightarrow> bytes \<Rightarrow> (int \<times> dstate \<times> nat) option" where
  "rm_copy st p chain name = do {
     res \<leftarrow> rm_loop st chain name 0 0 0 False ((chains st p)(0 \<mapsto> dirent0));
     case res of
       None \<Rightarrow> do {
         k \<leftarrow> kfree p (heap st);
         Some (- ENOTRECOVERABLE, st\<lparr>heap := k\<rparr>, chain) }
     | Some (prev_noffset, nc) \<Rightarrow> do {
         n \<leftarrow> nc prev_noffset;
         let nc = nc(prev_noffset \<mapsto> n\<lparr>dh_link := CH_NOLINK\<rparr>);
         n0 \<leftarrow> nc 0;
         (p, st) \<leftarrow> (if dh_size n0 = 0 then do {
             k \<leftarrow> kfree p (heap st);
             Some (0, st\<lparr>heap := k\<rparr>) }
           else Some (p, st\<lparr>chains := (chains st)(p := nc)\<rparr>));
         k \<leftarrow> kfree chain (heap st);
         Some (0, st\<lparr>heap := k\<rparr>, p) } }"

definition rm_node :: "dstate \<Rightarrow> nat \<Rightarrow> bytes \<Rightarrow> (int \<times> dstate \<times> nat) option" where
  "rm_node st chain name = do {
     (i_last, i_size) \<leftarrow> find_last_node st chain;
     if i_size < 4 then Some (- ENOENT, st, chain)
     else do {
       (p, k) \<leftarrow> kzalloc i_size (heap st);
       if p = 0 then Some (- ENOMEM, st\<lparr>heap := k\<rparr>, chain)
       else rm_copy (st\<lparr>heap := k, chains := new_chain p (chains st)\<rparr>) p chain name } }"

definition dh_unlink :: "dstate \<Rightarrow> dh_table \<Rightarrow> bytes \<Rightarrow> (int \<times> dstate \<times> dh_table) option" where
  "dh_unlink st dir name = do {
     h \<leftarrow> hash_fname name (hkey dir);
     dea \<leftarrow> rd (htable dir) h;
     (err, st, dea) \<leftarrow> rm_node st dea name;
     tab \<leftarrow> wr (htable dir) h dea;
     Some (err, st, dir\<lparr>htable := tab\<rparr>) }"

primrec kfree_all :: "nat list \<Rightarrow> kheap \<Rightarrow> kheap option" where
  "kfree_all [] k = Some k"
| "kfree_all (p # ps) k = do { k \<leftarrow> kfree p k; kfree_all ps k }"

definition dh_destroy_all :: "dstate \<Rightarrow> dh_table \<Rightarrow> dstate option" where
  "dh_destroy_all st dir = do {
     k \<leftarrow> kfree_all (htable dir) (heap st);
     Some (st\<lparr>heap := k\<rparr>) }"

section \<open>Iteration\<close>

record dh_dir_iter =
  dea_ind :: nat
  ch_ind :: nat

definition dh_get_iter :: dh_dir_iter where
  "dh_get_iter = \<lparr>dea_ind = 0, ch_ind = SIZE_MAX\<rparr>"

text \<open>\<open>do { dea = htable[i]; i++; } while (!dea && i < DEHTABLE_SIZE)\<close>: the pointer and the index of it.\<close>

function next_chain :: "nat list \<Rightarrow> nat \<Rightarrow> (nat \<times> nat) option" where
  "next_chain tab i = do {
     dea \<leftarrow> rd tab i;
     if dea = 0 \<and> i + 1 < DEHTABLE_SIZE then next_chain tab (i + 1) else Some (dea, i) }"
  by pat_completeness auto
termination
  by (relation "measure (\<lambda>(tab, i). 16 - i)") auto

declare next_chain.simps [simp del]

definition dh_iter_next :: "dstate \<Rightarrow> dh_table \<Rightarrow> dh_dir_iter \<Rightarrow> (dirent option \<times> dh_dir_iter) option" where
  "dh_iter_next st dir it =
     (if dea_ind it \<ge> DEHTABLE_SIZE then Some (None, it)
      else do {
        (dea, it) \<leftarrow> (if ch_ind it = SIZE_MAX then do {
            (dea, i) \<leftarrow> next_chain (htable dir) (dea_ind it);
            Some (dea, it\<lparr>ch_ind := 0, dea_ind := i\<rparr>) }
          else do { dea \<leftarrow> rd (htable dir) (dea_ind it); Some (dea, it) });
        if dea = 0 then Some (None, it)
        else do {
          node \<leftarrow> get_dirent st dea (ch_ind it);
          if is_invalid_offset node then Some (None, it)
          else if dh_link node = CH_LINK then Some (Some node, it\<lparr>ch_ind := ch_ind it + dh_size node\<rparr>)
          else Some (Some node, it\<lparr>dea_ind := dea_ind it + 1, ch_ind := SIZE_MAX\<rparr>) } })"

partial_function (option) nr_loop :: "dstate \<Rightarrow> dh_table \<Rightarrow> dh_dir_iter \<Rightarrow> nat \<Rightarrow> nat option" where
  "nr_loop st dir it n = do {
     (de, it) \<leftarrow> dh_iter_next st dir it;
     if de = None then Some n else nr_loop st dir it (n + 1) }"

definition dh_nr_entries :: "dstate \<Rightarrow> dh_table \<Rightarrow> nat option" where
  "dh_nr_entries st dir = nr_loop st dir dh_get_iter 0"

partial_function (option) rev_loop ::
  "dstate \<Rightarrow> dh_table \<Rightarrow> dh_dir_iter \<Rightarrow> u64 \<Rightarrow> bytes \<Rightarrow> nat \<Rightarrow> (int \<times> bytes) option" where
  "rev_loop st dir it ino name name_len = do {
     (de, it) \<leftarrow> dh_iter_next st dir it;
     case de of
       None \<Rightarrow> Some (- ENOENT, name)
     | Some de \<Rightarrow>
         if dh_ino de = ino then do {
           (len, name) \<leftarrow> strlcpy name (dh_name de) name_len;
           Some (if len \<ge> name_len then - ENAMETOOLONG else 0, name) }
         else rev_loop st dir it ino name name_len }"

definition dh_revlookup :: "dstate \<Rightarrow> dh_table \<Rightarrow> u64 \<Rightarrow> bytes \<Rightarrow> nat \<Rightarrow> (int \<times> bytes) option" where
  "dh_revlookup st dir ino name name_len = rev_loop st dir dh_get_iter ino name name_len"

section \<open>Chains\<close>

abbreviation nm :: "dirent \<Rightarrow> bytes" where
  "nm n \<equiv> cstr (dh_name n)"

text \<open>A name that fits: terminated, and of at most 252 bytes.\<close>

definition name_ok :: "bytes \<Rightarrow> bool" where
  "name_ok name \<longleftrightarrow> terminated name \<and> length (cstr name) \<le> 252"

definition node_ok :: "dirent \<Rightarrow> bool" where
  "node_ok n \<longleftrightarrow> name_ok (dh_name n) \<and> dh_size n = memalign (DIRENT_SIZE + length (nm n) + 1)"

definition chain_size :: "dirent list \<Rightarrow> nat" where
  "chain_size ns = sum_list (map dh_size ns)"

fun placed :: "(nat \<rightharpoonup> dirent) \<Rightarrow> nat \<Rightarrow> dirent list \<Rightarrow> bool" where
  "placed c off [] \<longleftrightarrow> True"
| "placed c off (n # ns) \<longleftrightarrow> c off = Some n \<and> placed c (off + dh_size n) ns"

definition linked :: "dirent list \<Rightarrow> bool" where
  "linked ns \<longleftrightarrow> ns \<noteq> [] \<and> (\<forall>n \<in> set (butlast ns). dh_link n = CH_LINK) \<and> dh_link (last ns) = CH_NOLINK"

lemma chain_size_simps [simp]: "chain_size [] = 0" "chain_size (n # ns) = dh_size n + chain_size ns"
  "chain_size (xs @ ys) = chain_size xs + chain_size ys"
  by (simp_all add: chain_size_def)

lemma linked_simps [simp]: "linked [n] \<longleftrightarrow> dh_link n = 0" "linked (n # m # ns) \<longleftrightarrow> dh_link n = 1 \<and> linked (m # ns)" "\<not> linked []"
  by (auto simp: linked_def)

lemma linked_link: "linked (n # ns) \<Longrightarrow> (dh_link n = 1) = (ns \<noteq> []) \<and> (dh_link n = 0) = (ns = []) \<and> (ns \<noteq> [] \<longrightarrow> linked ns)"
  by (cases ns) auto

lemma node_size: "node_ok n \<Longrightarrow> 24 \<le> dh_size n \<and> dh_size n \<le> 276 \<and> dh_size n mod 4 = 0"
proof -
  assume n: "node_ok n"
  then have l: "length (nm n) \<le> 252" "dh_size n = memalign (length (nm n) + 24)"
    by (simp_all add: node_ok_def name_ok_def add.commute)
  then have "dh_size n mod 4 = 0" "24 \<le> dh_size n" "dh_size n < 280" using memalign_round [of "length (nm n) + 24"] by simp_all
  then show ?thesis by presburger
qed

lemma node_valid: "node_ok n \<Longrightarrow> \<not> is_invalid_offset n"
  using node_size [of n] by (simp add: is_invalid_offset_def)

lemma size_ok_small: "n \<le> 1000000 \<Longrightarrow> size_ok n"
proof -
  assume "n \<le> 1000000"
  then have m: "memalign n mod 4 = 0" "memalign n < n + 4" using memalign_round [of n] by simp_all
  with \<open>n \<le> 1000000\<close> show ?thesis by (simp add: size_ok_def room_ok_def)
qed

lemma placed_append: "placed c off (xs @ ys) \<longleftrightarrow> placed c off xs \<and> placed c (off + chain_size xs) ys"
  by (induction xs arbitrary: off) (auto simp: add.assoc)

lemma placed_cong:
  "\<forall>n \<in> set ns. 0 < dh_size n \<Longrightarrow> \<forall>x. off \<le> x \<and> x < off + chain_size ns \<longrightarrow> c' x = c x \<Longrightarrow> placed c' off ns = placed c off ns"
proof (induction ns arbitrary: off)
  case (Cons n ns)
  then have "c' off = c off" by simp
  moreover have "placed c' (off + dh_size n) ns = placed c (off + dh_size n) ns" using Cons by (intro Cons.IH) auto
  ultimately show ?case by simp
qed simp

lemma placed_upd:
  "\<forall>n \<in> set ns. 0 < dh_size n \<Longrightarrow> off + chain_size ns \<le> x \<Longrightarrow> placed (c(x \<mapsto> m)) off ns = placed c off ns"
  by (rule placed_cong) auto

lemma strncmp_names:
  assumes "node_ok n" and "name_ok name"
  shows "\<exists>d. strncmp (dh_name n) name (of_nat (length (cstr name) + 1)) = Some d \<and> (d = 0 \<longleftrightarrow> nm n = cstr name)"
    and "\<exists>d. strncmp (dh_name n) name 256 = Some d \<and> (d = 0 \<longleftrightarrow> nm n = cstr name)"
proof -
  let ?l = "length (cstr name) + 1"
  obtain s r where s: "name = s @ 0 # r" "0 \<notin> set s" "cstr name = s" using assms(2) terminatedE by (metis name_ok_def)
  obtain q where n: "dh_name n = nm n @ 0 # q" "0 \<notin> set (nm n)" "length (nm n) \<le> 252" "length s \<le> 252"
    using assms s(3) by (metis name_ok_def node_ok_def terminatedE)
  have u: "unat (of_nat ?l :: u32) = ?l" "(of_nat ?l :: u32) \<noteq> 0" using n(4) s(3)
    by (simp_all add: unat_of_nat_small unat_eq_0 [symmetric] del: of_nat_Suc of_nat_add)
  have t: "take ?l x = take ?l s \<longleftrightarrow> x = s" for x
  proof
    assume a: "take ?l x = take ?l s"
    then have "length (take ?l x) = length s" using s(3) by simp
    then have "length x \<le> ?l" using s(3) by (auto simp: min_def split: if_splits)
    with a s(3) show "x = s" by simp
  qed simp
  from strncmp_eq [OF n(2) s(2) u(2), of q r] obtain d where
    "strncmp (dh_name n) name (of_nat ?l) = Some d" "d = 0 \<longleftrightarrow> take ?l (nm n) = take ?l s"
    unfolding n(1) [symmetric] s(1) [symmetric] u(1) by blast
  moreover have "take ?l (nm n) = take ?l s \<longleftrightarrow> nm n = cstr name" using t [of "nm n"] s(3) by simp
  ultimately show "\<exists>d. strncmp (dh_name n) name (of_nat ?l) = Some d \<and> (d = 0 \<longleftrightarrow> nm n = cstr name)"
    by (intro exI [of _ d]) simp
  have "unat (256 :: u32) = 256" by simp
  moreover have "take 256 (nm n) = nm n" "take 256 s = s" using n(3,4) by simp_all
  ultimately show "\<exists>d. strncmp (dh_name n) name 256 = Some d \<and> (d = 0 \<longleftrightarrow> nm n = cstr name)"
    using strncmp_eq [OF n(2) s(2), of 256 q r] unfolding n(1) [symmetric] s(1) [symmetric] s(3) by auto
qed

lemma strlenn_name: "name_ok name \<Longrightarrow> strlenn name 256 = Some (length (cstr name))"
  using strlenn_eq [of name 256] by (simp add: name_ok_def)

text \<open>The loops over a chain.\<close>

lemma find_node_loop_eq:
  assumes "p \<noteq> 0" and "name_ok name"
  shows "placed (chains st p) off ns \<Longrightarrow> linked ns \<Longrightarrow> \<forall>n \<in> set ns. node_ok n \<Longrightarrow>
    \<exists>r. find_node_loop st p name (of_nat (length (cstr name) + 1)) off = Some r \<and>
      (case r of None \<Rightarrow> \<forall>n \<in> set ns. nm n \<noteq> cstr name
       | Some x \<Rightarrow> \<exists>n \<in> set ns. chains st p x = Some n \<and> nm n = cstr name)"
proof (induction ns arbitrary: off)
  case (Cons n ns)
  have n: "get_dirent st p off = Some n" "node_ok n" "\<not> is_invalid_offset n"
    using Cons.prems assms(1) node_valid by (simp_all add: get_dirent_def)
  obtain d where d: "strncmp (dh_name n) name (of_nat (length (cstr name) + 1)) = Some d" "d = 0 \<longleftrightarrow> nm n = cstr name"
    using strncmp_names(1) [OF n(2) assms(2)] by blast
  note l = linked_link [OF Cons.prems(2)]
  show ?case
  proof (cases "d = 0")
    case True
    then show ?thesis using n d Cons.prems(1) by (subst find_node_loop.simps) auto
  next
    case nz: False
    show ?thesis
    proof (cases "ns = []")
      case True
      then show ?thesis using n d nz l by (subst find_node_loop.simps) simp
    next
      case False
      have "find_node_loop st p name (of_nat (length (cstr name) + 1)) off =
          find_node_loop st p name (of_nat (length (cstr name) + 1)) (off + dh_size n)"
        using n d nz l False by (subst find_node_loop.simps) simp
      then show ?thesis using Cons.IH [of "off + dh_size n"] Cons.prems l False d nz by (auto split: option.splits)
    qed
  qed
qed simp

lemma find_last_node_loop_eq:
  assumes "p \<noteq> 0"
  shows "placed (chains st p) off ns \<Longrightarrow> linked ns \<Longrightarrow> \<forall>n \<in> set ns. node_ok n \<Longrightarrow>
    find_last_node_loop st p off = Some (off + chain_size (butlast ns), off + chain_size ns)"
proof (induction ns arbitrary: off)
  case (Cons n ns)
  have n: "get_dirent st p off = Some n" "\<not> is_invalid_offset n"
    using Cons.prems assms(1) node_valid by (simp_all add: get_dirent_def)
  note l = linked_link [OF Cons.prems(2)]
  show ?case
  proof (cases "ns = []")
    case True
    then show ?thesis using n l by (subst find_last_node_loop.simps) simp
  next
    case False
    then have "find_last_node_loop st p off = find_last_node_loop st p (off + dh_size n)"
      using n l by (subst find_last_node_loop.simps) simp
    then show ?thesis using Cons.IH [of "off + dh_size n"] Cons.prems l False by simp
  qed
qed simp

lemma append_node_eq:
  assumes "placed c 0 ns" and "linked ns" and "\<forall>m \<in> set ns. node_ok m"
  shows "\<exists>c'. append_node (chain_size (butlast ns)) (chain_size ns) n c = Some c' \<and>
     placed c' 0 (butlast ns @ [(last ns)\<lparr>dh_link := 1\<rparr>, n])"
proof -
  let ?i = "chain_size (butlast ns)"
  have ns: "ns = butlast ns @ [last ns]" using assms(2) by (simp add: linked_def)
  have sz: "\<forall>m \<in> set (butlast ns). 0 < dh_size m" "0 < dh_size (last ns)"
    using assms(3) node_size ns by (metis in_set_butlastD gr_zeroI not_numeral_le_zero, metis (no_types) UnI2 gr_zeroI list.set_intros(1) not_numeral_le_zero set_append)
  have pl: "placed c 0 (butlast ns)" "c ?i = Some (last ns)"
    using assms(1) placed_append [of c 0 "butlast ns" "[last ns]"] ns by simp_all
  have e: "chain_size ns = ?i + dh_size (last ns)" using chain_size_simps(3) [of "butlast ns" "[last ns]"] ns by simp
  then have "placed (c(?i \<mapsto> (last ns)\<lparr>dh_link := 1\<rparr>, chain_size ns \<mapsto> n)) 0 (butlast ns)"
    using pl(1) sz by (simp add: placed_upd)
  then show ?thesis using pl(2) sz(2) by (auto simp: append_node_def e placed_append)
qed

text \<open>What \<open>rm_node\<close> leaves of the entries.\<close>

definition last_off :: "dirent list \<Rightarrow> nat" where
  "last_off ms = (if ms = [] then 0 else chain_size (butlast ms))"

abbreviation others :: "bytes \<Rightarrow> dirent list \<Rightarrow> dirent list" where
  "others name \<equiv> filter (\<lambda>n. nm n \<noteq> cstr name)"

lemma rm_loop_eq:
  assumes "p \<noteq> 0" and "name_ok name"
  shows "placed (chains st p) old ns \<Longrightarrow> linked ns \<Longrightarrow> \<forall>n \<in> set (ms @ ns). node_ok n \<Longrightarrow> distinct (map nm ns) \<Longrightarrow>
    (match \<longrightarrow> cstr name \<notin> nm ` set ns) \<Longrightarrow> placed nc 0 ms \<Longrightarrow>
    \<exists>nc'. rm_loop st p name old (chain_size ms) (last_off ms) match nc = Some (Some (last_off (ms @ others name ns), nc')) \<and>
      placed nc' 0 (ms @ others name ns) \<and> (ms @ others name ns = [] \<longrightarrow> nc' = nc)"
proof (induction ns arbitrary: old ms match nc)
  case (Cons n ns)
  have n: "get_dirent st p old = Some n" "node_ok n" "\<not> is_invalid_offset n"
    using Cons.prems assms(1) node_valid by (simp_all add: get_dirent_def)
  obtain d where d: "strncmp (dh_name n) name 256 = Some d" "d = 0 \<longleftrightarrow> nm n = cstr name"
    using strncmp_names(2) [OF n(2) assms(2)] by blast
  note l = linked_link [OF Cons.prems(2)]
  have sz: "\<forall>m \<in> set ms. 0 < dh_size m" using Cons.prems(3) node_size by fastforce
  show ?case
  proof (cases "nm n = cstr name")
    case True
    then have m: "\<not> match" and nin: "cstr name \<notin> nm ` set ns" using Cons.prems(4,5) by auto
    have o: "others name (n # ns) = others name ns" "others name ns = ns" using True nin by (simp_all add: filter_id_conv) (metis imageI)
    show ?thesis
    proof (cases "ns = []")
      case ns: True
      have "rm_loop st p name old (chain_size ms) (last_off ms) match nc = Some (Some (last_off ms, nc))"
        using n d True m l ns by (subst rm_loop.simps) simp
      then show ?thesis using o ns Cons.prems(6) by simp
    next
      case False
      have "rm_loop st p name old (chain_size ms) (last_off ms) match nc =
          rm_loop st p name (old + dh_size n) (chain_size ms) (last_off ms) True nc"
        using n d True m l False by (subst rm_loop.simps) simp
      then show ?thesis using Cons.IH [of "old + dh_size n" ms True nc] Cons.prems l False nin o(1) by auto
    qed
  next
    case False
    define nc1 where "nc1 = nc(chain_size ms \<mapsto> n)"
    have pl: "placed nc1 0 (ms @ [n])" using Cons.prems(6) sz by (simp add: nc1_def placed_append placed_upd)
    have lo: "last_off (ms @ [n]) = chain_size ms" "chain_size (ms @ [n]) = chain_size ms + dh_size n"
      by (simp_all add: last_off_def)
    have o: "ms @ others name (n # ns) = (ms @ [n]) @ others name ns" using False by simp
    show ?thesis
    proof (cases "ns = []")
      case ns: True
      have "rm_loop st p name old (chain_size ms) (last_off ms) match nc = Some (Some (chain_size ms, nc1))"
        using n d False l ns by (subst rm_loop.simps) (auto simp: nc1_def)
      then show ?thesis using o ns pl lo by simp
    next
      case ne: False
      have "rm_loop st p name old (chain_size ms) (last_off ms) match nc =
          rm_loop st p name (old + dh_size n) (chain_size (ms @ [n])) (last_off (ms @ [n])) match nc1"
        using n d False l ne unfolding lo by (subst rm_loop.simps) (auto simp: nc1_def)
      then show ?thesis unfolding o using Cons.IH [of "old + dh_size n" "ms @ [n]" match nc1] Cons.prems l ne pl by auto
    qed
  qed
qed simp

text \<open>The last entry copied ends the new chain.\<close>

definition close :: "dirent list \<Rightarrow> dirent list" where
  "close ms = (if ms = [] then [] else butlast ms @ [(last ms)\<lparr>dh_link := CH_NOLINK\<rparr>])"

lemma close_linked:
  assumes "linked ns" and "filter P ns \<noteq> []"
  shows "linked (close (filter P ns))"
proof -
  have "\<forall>n \<in> set (butlast (filter P ns)). dh_link n = 1"
    using assms(1)
  proof (induction ns)
    case (Cons n ns)
    then show ?case using linked_link [OF Cons.prems] by (cases ns) auto
  qed simp
  then show ?thesis using assms(2) by (simp add: close_def linked_def)
qed

lemma close_map_gen: "(\<And>n l. f (n\<lparr>dh_link := l\<rparr>) = f n) \<Longrightarrow> map f (close ms) = map f ms"
proof (cases "ms = []")
  case False
  assume f: "\<And>n l. f (n\<lparr>dh_link := l\<rparr>) = f n"
  have "map f ms = map f (butlast ms) @ [f (last ms)]" by (metis False append_butlast_last_id list.simps(8,9) map_append)
  with False f show ?thesis by (simp add: close_def)
qed (simp add: close_def)

lemma close_map [simp]: "map nm (close ms) = map nm ms" "map dh_ino (close ms) = map dh_ino ms"
  "map dh_name (close ms) = map dh_name ms" "chain_size (close ms) = chain_size ms" "close ms = [] \<longleftrightarrow> ms = []"
  unfolding chain_size_def by (simp_all add: close_map_gen) (simp add: close_def)

section \<open>The state of a table\<close>

definition bucket_ok :: "dstate \<Rightarrow> u32 \<times> u32 \<Rightarrow> nat \<Rightarrow> nat \<Rightarrow> dirent list \<Rightarrow> bool" where
  "bucket_ok st key p h ns \<longleftrightarrow>
     (if p = 0 then ns = []
      else placed (chains st p) 0 ns \<and> linked ns \<and> distinct (map nm ns) \<and>
           (\<forall>n \<in> set ns. node_ok n \<and> hash_fname (dh_name n) key = Some h))"

text \<open>
  \<open>N h\<close> lists the entries of bucket \<open>h\<close>. The heap is well formed, and the table holds the only reference
  to each of its blocks, which are as large as their chains.
\<close>

definition dir_ok :: "blk list \<Rightarrow> dstate \<Rightarrow> dh_table \<Rightarrow> (nat \<Rightarrow> dirent list) \<Rightarrow> bool" where
  "dir_ok b st t N \<longleftrightarrow> length (htable t) = 16 \<and> kinv (heap st) b \<and>
     (\<forall>h < 16. bucket_ok st (hkey t) (htable t ! h) h (N h)) \<and>
     (\<forall>h < 16. \<forall>g < 16. h \<noteq> g \<longrightarrow> htable t ! h \<noteq> 0 \<longrightarrow> htable t ! h \<noteq> htable t ! g) \<and>
     (\<exists>M. kz.owns b M \<and> (\<forall>h < 16. htable t ! h \<noteq> 0 \<longrightarrow> M (htable t ! h) = Some (chain_size (N h))))"

text \<open>The directory as a map from names to inode numbers.\<close>

definition entries :: "(nat \<Rightarrow> dirent list) \<Rightarrow> dirent list" where
  "entries N = concat (map N [0..<16])"

definition dmap :: "(nat \<Rightarrow> dirent list) \<Rightarrow> bytes \<rightharpoonup> u64" where
  "dmap N = map_of (map (\<lambda>n. (nm n, dh_ino n)) (entries N))"

lemma hash_fname_less: "hash_fname str key = Some h \<Longrightarrow> h < 16"
proof -
  have "unat (w AND 15) < 16" for w :: u32
  proof -
    have "w AND 15 \<le> 15" by (rule word_and_le1)
    then show ?thesis by (simp add: word_le_nat_alt)
  qed
  then show "hash_fname str key = Some h \<Longrightarrow> h < 16" by (auto simp: hash_fname_def split: Option.bind_splits)
qed

text \<open>The hash of a name depends on the string only.\<close>

lemma hash_fname_cstr:
  assumes "name_ok a" and "name_ok b" and "cstr a = cstr b"
  shows "hash_fname a key = hash_fname b key"
proof -
  have t: "take (length (cstr x)) x = cstr x \<and> length (cstr x) \<le> length x" if "name_ok x" for x
    using that terminatedE [of x] by (metis append_eq_conv_conj le_add1 length_append name_ok_def)
  show ?thesis using strlenn_name [OF assms(1)] strlenn_name [OF assms(2)] t [OF assms(1)] t [OF assms(2)] assms(3)
    by (simp add: hash_fname_def halfsiphash32_def)
qed

lemma hash_fname_total: "name_ok name \<Longrightarrow> \<exists>h. hash_fname name key = Some h \<and> h < 16"
proof -
  assume n: "name_ok name"
  have "length (cstr name) \<le> length name" by (simp add: cstr_def length_takeWhile_le)
  then have "\<exists>h. hash_fname name key = Some h"
    using strlenn_name [OF n] by (simp add: hash_fname_def halfsiphash32_def case_prod_unfold Let_def not_less)
  then show ?thesis using hash_fname_less by blast
qed

lemma dir_okD:
  assumes "dir_ok b st t N"
  shows "length (htable t) = 16" and "kinv (heap st) b" and "h < 16 \<Longrightarrow> bucket_ok st (hkey t) (htable t ! h) h (N h)"
    and "h < 16 \<Longrightarrow> g < 16 \<Longrightarrow> h \<noteq> g \<Longrightarrow> htable t ! h \<noteq> 0 \<Longrightarrow> htable t ! h \<noteq> htable t ! g"
  using assms by (simp_all add: dir_ok_def)

lemma bucketD:
  assumes "bucket_ok st key p h ns"
  shows "p = 0 \<Longrightarrow> ns = []" and "p \<noteq> 0 \<Longrightarrow> placed (chains st p) 0 ns \<and> linked ns"
    and "distinct (map nm ns)" and "n \<in> set ns \<Longrightarrow> node_ok n \<and> hash_fname (dh_name n) key = Some h"
  using assms by (auto simp: bucket_ok_def split: if_splits)

lemma entries_mem: "n \<in> set (entries N) \<longleftrightarrow> (\<exists>h < 16. n \<in> set (N h))"
  by (auto simp: entries_def)

text \<open>An entry is in the bucket of its name, and no name has two.\<close>

lemma entry_bucket:
  assumes "dir_ok b st t N" and "n \<in> set (entries N)" and "name_ok name" and "nm n = cstr name" and "hash_fname name (hkey t) = Some h"
  shows "n \<in> set (N h)"
proof -
  obtain g where g: "g < 16" "n \<in> set (N g)" using assms(2) by (auto simp: entries_mem)
  have "node_ok n" "hash_fname (dh_name n) (hkey t) = Some g" using bucketD(4) [OF dir_okD(3) [OF assms(1) g(1)] g(2)] by simp_all
  moreover have "name_ok (dh_name n)" using \<open>node_ok n\<close> by (simp add: node_ok_def)
  from hash_fname_cstr [OF this assms(3,4), of "hkey t"] have "hash_fname (dh_name n) (hkey t) = Some h" using assms(5) by simp
  ultimately show ?thesis using g(2) by simp
qed

lemma nm_inj:
  assumes "dir_ok b st t N" and "n \<in> set (entries N)" and "m \<in> set (entries N)" and "nm n = nm m"
  shows "n = m"
proof -
  obtain g where g: "g < 16" "n \<in> set (N g)" using assms(2) by (auto simp: entries_mem)
  have n: "node_ok n" "hash_fname (dh_name n) (hkey t) = Some g" using bucketD(4) [OF dir_okD(3) [OF assms(1) g(1)] g(2)] by simp_all
  then have "name_ok (dh_name n)" by (simp add: node_ok_def)
  from entry_bucket [OF assms(1,3) this] assms(4) n(2) have "m \<in> set (N g)" by simp
  with g(2) bucketD(3) [OF dir_okD(3) [OF assms(1) g(1)]] assms(4) show ?thesis by (auto simp: distinct_map dest: inj_onD)
qed

lemma distinct_entries:
  assumes "dir_ok b st t N"
  shows "distinct (entries N)"
proof -
  have "distinct (concat (map N [0..<j]))" if "j \<le> 16" for j
    using that
  proof (induction j)
    case (Suc j)
    have "distinct (N j)" using bucketD(3) [OF dir_okD(3) [OF assms]] Suc.prems by (auto simp: distinct_map)
    moreover have "set (N g) \<inter> set (N j) = {}" if "g < j" for g
    proof (rule ccontr)
      assume "set (N g) \<inter> set (N j) \<noteq> {}"
      then obtain n where "n \<in> set (N g)" "n \<in> set (N j)" by blast
      with bucketD(4) [OF dir_okD(3) [OF assms]] Suc.prems that have "Some g = Some j" by (metis Suc_le_lessD less_trans)
      with that show False by simp
    qed
    then have "set (concat (map N [0..<j])) \<inter> set (N j) = {}" by (auto simp: disjoint_iff)
    ultimately show ?case using Suc by simp
  qed simp
  then show ?thesis by (simp add: entries_def)
qed

lemma dmap_SomeD: "dmap N x = Some i \<Longrightarrow> \<exists>n \<in> set (entries N). nm n = x \<and> dh_ino n = i"
proof -
  assume "dmap N x = Some i"
  then have "(x, i) \<in> set (map (\<lambda>n. (nm n, dh_ino n)) (entries N))" unfolding dmap_def by (rule map_of_SomeD)
  then show ?thesis by auto
qed

lemma dmap_None: "dmap N x = None \<longleftrightarrow> (\<forall>n \<in> set (entries N). nm n \<noteq> x)"
  by (auto simp: dmap_def map_of_eq_None_iff image_iff)

lemma dmap_Some: "dir_ok b st t N \<Longrightarrow> dmap N x = Some i \<longleftrightarrow> (\<exists>n \<in> set (entries N). nm n = x \<and> dh_ino n = i)"
proof
  assume "dmap N x = Some i"
  then show "\<exists>n \<in> set (entries N). nm n = x \<and> dh_ino n = i" by (rule dmap_SomeD)
next
  assume d: "dir_ok b st t N" and "\<exists>n \<in> set (entries N). nm n = x \<and> dh_ino n = i"
  then obtain n where n: "n \<in> set (entries N)" "nm n = x" "dh_ino n = i" by blast
  then obtain j where j: "dmap N x = Some j" using dmap_None [of N x] by (cases "dmap N x") blast+
  then obtain m where "m \<in> set (entries N)" "nm m = x" "dh_ino m = j" using dmap_SomeD by blast
  with nm_inj [OF d n(1), of m] n j show "dmap N x = Some i" by simp
qed

lemma option_eqI: "(\<And>j. a = Some j \<longleftrightarrow> b = Some j) \<Longrightarrow> a = b"
  by (cases a; cases b) auto

definition pairs :: "dirent list \<Rightarrow> (bytes \<times> u64) set" where
  "pairs ns = (\<lambda>n. (nm n, dh_ino n)) ` set ns"

lemma dmap_pairs: "dir_ok b st t N \<Longrightarrow> dmap N x = Some i \<longleftrightarrow> (\<exists>h < 16. (x, i) \<in> pairs (N h))"
  unfolding dmap_Some [of b st t N x i] Bex_def entries_mem pairs_def image_iff prod.inject by blast

lemma dmap_add:
  assumes "dir_ok b st t N" and "dir_ok b' st' t' (N(h := ns))" and "h < 16" and "pairs ns = insert (x, i) (pairs (N h))"
  shows "dmap (N(h := ns)) = (dmap N)(x \<mapsto> i)"
proof
  fix y
  have e: "dmap (N(h := ns)) y = Some j \<longleftrightarrow> (y, j) = (x, i) \<or> dmap N y = Some j" for j
    unfolding dmap_pairs [OF assms(1)] dmap_pairs [OF assms(2)] using assms(3,4) by (auto split: if_splits)
  show "dmap (N(h := ns)) y = ((dmap N)(x \<mapsto> i)) y"
  proof (cases "y = x")
    case True
    with e [of i] show ?thesis by simp
  next
    case False
    then show ?thesis by (intro option_eqI) (simp add: e)
  qed
qed

lemma dmap_remove:
  assumes "dir_ok b st t N" and "dir_ok b' st' t' (N(h := ns))" and "hash_fname name (hkey t) = Some h" and "name_ok name"
    and "pairs ns = pairs (others name (N h))"
  shows "dmap (N(h := ns)) = (dmap N)(cstr name := None)"
proof
  fix y
  have h: "h < 16" using assms(3) hash_fname_less by blast
  have e: "dmap (N(h := ns)) y = Some j \<longleftrightarrow> y \<noteq> cstr name \<and> dmap N y = Some j" for j
  proof -
    have "(\<exists>g < 16. (y, j) \<in> pairs ((N(h := ns)) g)) \<longleftrightarrow>
        (y, j) \<in> pairs (others name (N h)) \<or> (\<exists>g < 16. g \<noteq> h \<and> (y, j) \<in> pairs (N g))"
      using h assms(5) by (auto split: if_splits)
    moreover have "(y, j) \<in> pairs (N g) \<Longrightarrow> g < 16 \<Longrightarrow> g \<noteq> h \<Longrightarrow> y \<noteq> cstr name" for g
    proof
      assume a: "(y, j) \<in> pairs (N g)" "g < 16" "g \<noteq> h" "y = cstr name"
      then obtain n where n: "n \<in> set (N g)" "nm n = cstr name" by (auto simp: pairs_def)
      have "node_ok n" "hash_fname (dh_name n) (hkey t) = Some g"
        using bucketD(4) [OF dir_okD(3) [OF assms(1) a(2)] n(1)] by simp_all
      then have "name_ok (dh_name n)" "hash_fname (dh_name n) (hkey t) = Some g" by (simp_all add: node_ok_def)
      with hash_fname_cstr [OF this(1) assms(4) n(2), of "hkey t"] assms(3) a(3) show False by simp
    qed
    moreover have "(y, j) \<in> pairs (others name (N h)) \<longleftrightarrow> y \<noteq> cstr name \<and> (y, j) \<in> pairs (N h)"
      by (auto simp: pairs_def)
    ultimately show ?thesis
      unfolding dmap_pairs [OF assms(1)] dmap_pairs [OF assms(2)] using h by blast
  qed
  show "dmap (N(h := ns)) y = ((dmap N)(cstr name := None)) y"
    by (rule option_eqI) (simp add: e)
qed

lemma dh_lookup_eq:
  assumes "dir_ok b st t N" and "name_ok name"
  shows "dh_lookup st t name =
     Some (case dmap N (cstr name) of None \<Rightarrow> (- ENOENT, None) | Some i \<Rightarrow> (0, Some i))"
proof -
  obtain h where h: "hash_fname name (hkey t) = Some h" "h < 16" using hash_fname_total [OF assms(2)] by blast
  let ?p = "htable t ! h"
  have r: "rd (htable t) h = Some ?p" using dir_okD(1) [OF assms(1)] h(2) by simp
  note bk = dir_okD(3) [OF assms(1) h(2)]
  show ?thesis
  proof (cases "?p = 0")
    case True
    then have "N h = []" using bucketD(1) [OF bk] by simp
    then have "dmap N (cstr name) = None" using entry_bucket [OF assms(1) _ assms(2) _ h(1)] by (auto simp: dmap_None)
    then show ?thesis using True r h by (simp add: dh_lookup_def)
  next
    case False
    obtain x where x: "find_node_loop st ?p name (of_nat (length (cstr name) + 1)) 0 = Some x"
      "case x of None \<Rightarrow> \<forall>n \<in> set (N h). nm n \<noteq> cstr name
       | Some x \<Rightarrow> \<exists>n \<in> set (N h). chains st ?p x = Some n \<and> nm n = cstr name"
      using find_node_loop_eq [OF False assms(2), of st 0 "N h"] bucketD(2,4) [OF bk] False by blast
    then have f: "find_node st ?p name = Some x" using strlenn_name [OF assms(2)] by (simp add: find_node_def)
    show ?thesis
    proof (cases x)
      case None
      then have "dmap N (cstr name) = None" using x(2) entry_bucket [OF assms(1) _ assms(2) _ h(1)] by (auto simp: dmap_None)
      then show ?thesis using False r h f None by (simp add: dh_lookup_def)
    next
      case (Some y)
      then obtain n where n: "n \<in> set (N h)" "chains st ?p y = Some n" "nm n = cstr name" using x(2) by auto
      then have "dmap N (cstr name) = Some (dh_ino n)" using dmap_Some [OF assms(1)] h(2) entries_mem by blast
      then show ?thesis using False r h f Some n by (simp add: dh_lookup_def get_dirent_def)
    qed
  qed
qed

text \<open>Changing one bucket.\<close>

lemma dir_ok_upd:
  assumes "dir_ok b st t N" and "h < 16" and "kinv (heap st') b'" and "kz.owns b' M"
    and "q \<noteq> 0 \<longrightarrow> M q = Some (chain_size ns)" and "bucket_ok st' (hkey t) q h ns"
    and "\<And>g. g < 16 \<Longrightarrow> g \<noteq> h \<Longrightarrow> htable t ! g \<noteq> 0 \<Longrightarrow>
       htable t ! g \<noteq> q \<and> M (htable t ! g) = Some (chain_size (N g)) \<and> chains st' (htable t ! g) = chains st (htable t ! g)"
  shows "dir_ok b' st' (t\<lparr>htable := (htable t)[h := q]\<rparr>) (N(h := ns))"
proof -
  have l: "length (htable t) = 16" using dir_okD(1) [OF assms(1)] .
  have "bucket_ok st' (hkey t) (htable t ! g) g (N g)" if "g < 16" "g \<noteq> h" for g
    using dir_okD(3) [OF assms(1) that(1)] assms(7) [OF that] by (cases "htable t ! g = 0") (auto simp: bucket_ok_def)
  moreover have "\<forall>g < 16. (htable t)[h := q] ! g \<noteq> 0 \<longrightarrow> M ((htable t)[h := q] ! g) = Some (chain_size ((N(h := ns)) g))"
    using assms(5,7) l by (auto simp: nth_list_update)
  moreover have "(htable t)[h := q] ! f \<noteq> (htable t)[h := q] ! g"
    if "f < 16" "g < 16" "f \<noteq> g" "(htable t)[h := q] ! f \<noteq> 0" for f g
    using that assms(7) [of f] assms(7) [of g] dir_okD(4) [OF assms(1) that(1-3)] l
    by (cases "f = h"; cases "g = h"; cases "htable t ! g = 0") (auto simp: nth_list_update)
  moreover have "\<forall>g < 16. bucket_ok st' (hkey t) ((htable t)[h := q] ! g) g ((N(h := ns)) g)"
    using calculation(1) assms(2,6) l by (simp add: nth_list_update)
  ultimately show ?thesis unfolding dir_ok_def using assms(3,4) l
    by (intro conjI exI [of _ M]) simp_all
qed

section \<open>Adding and removing entries\<close>

lemma dir_okE:
  assumes "dir_ok b st t N"
  obtains M where "kz.owns b M" "\<And>h. h < 16 \<Longrightarrow> htable t ! h \<noteq> 0 \<Longrightarrow> M (htable t ! h) = Some (chain_size (N h))"
  using assms by (auto simp: dir_ok_def)

lemma strlcpy_name:
  assumes "name_ok name"
  shows "\<exists>r. strlcpy (replicate (length (cstr name) + 1 + 1) 0) name (length (cstr name) + 1 + 1) =
    Some (length (cstr name), cstr name @ 0 # r)"
  using assms strlcpy_eq [of name "length (cstr name) + 1 + 1" "replicate (length (cstr name) + 1 + 1) 0"]
  by (simp add: name_ok_def)

text \<open>The state after the stores of \<open>dh_link\<close>, for a bucket that had the entries \<open>ns\<close>.\<close>

definition with_entry :: "dirent list \<Rightarrow> dirent \<Rightarrow> dirent list" where
  "with_entry ns n = (if ns = [] then [n] else butlast ns @ [(last ns)\<lparr>dh_link := CH_LINK\<rparr>, n])"

lemma with_entry_map: "(\<And>m l. f (m\<lparr>dh_link := l\<rparr>) = f m) \<Longrightarrow> map f (with_entry ns n) = map f ns @ [f n]"
proof (cases "ns = []")
  case False
  assume f: "\<And>m l. f (m\<lparr>dh_link := l\<rparr>) = f m"
  have "map f ns = map f (butlast ns) @ [f (last ns)]"
    by (metis False append_butlast_last_id list.simps(8,9) map_append)
  with False f show ?thesis by (simp add: with_entry_def)
qed (simp add: with_entry_def)

lemma with_entry_bucket:
  assumes "placed c 0 (with_entry ns n)" and "p \<noteq> 0" and "chains st p = c" and "ns = [] \<or> linked ns"
    and "\<forall>m \<in> set ns. node_ok m \<and> hash_fname (dh_name m) key = Some h" and "distinct (map nm ns)"
    and "node_ok n" and "hash_fname (dh_name n) key = Some h" and "nm n \<notin> nm ` set ns" and "dh_link n = 0"
  shows "bucket_ok st key p h (with_entry ns n)" and "chain_size (with_entry ns n) = chain_size ns + dh_size n"
    and "pairs (with_entry ns n) = insert (nm n, dh_ino n) (pairs ns)"
proof -
  have "map nm (with_entry ns n) = map nm ns @ [nm n]" by (rule with_entry_map) simp
  then have "distinct (map nm (with_entry ns n))" using assms(6,9) by simp
  moreover have "linked (with_entry ns n)" using assms(4,10) by (auto simp: with_entry_def linked_def butlast_append)
  moreover have "set (map (\<lambda>m. (dh_name m, dh_size m)) (with_entry ns n)) = set (map (\<lambda>m. (dh_name m, dh_size m)) ns @ [(dh_name n, dh_size n)])"
    by (subst with_entry_map) simp_all
  then have "\<forall>m \<in> set (with_entry ns n). \<exists>m' \<in> insert n (set ns). dh_name m = dh_name m' \<and> dh_size m = dh_size m'" by auto
  then have "\<forall>m \<in> set (with_entry ns n). node_ok m \<and> hash_fname (dh_name m) key = Some h"
    using assms(5,7,8) unfolding node_ok_def by (metis insert_iff)
  ultimately show "bucket_ok st key p h (with_entry ns n)" using assms(1-3) by (simp add: bucket_ok_def)
  show "chain_size (with_entry ns n) = chain_size ns + dh_size n"
    unfolding chain_size_def by (subst with_entry_map) simp_all
  have "set (map (\<lambda>m. (nm m, dh_ino m)) (with_entry ns n)) = set (map (\<lambda>m. (nm m, dh_ino m)) ns @ [(nm n, dh_ino n)])"
    by (subst with_entry_map) simp_all
  then show "pairs (with_entry ns n) = insert (nm n, dh_ino n) (pairs ns)" by (simp add: pairs_def)
qed

definition new_entry :: "u64 \<Rightarrow> u8 \<Rightarrow> bytes \<Rightarrow> bytes \<Rightarrow> dirent" where
  "new_entry ino ty name r = \<lparr>dh_ino = ino, dh_type = ty, dh_size = memalign (DIRENT_SIZE + (length (cstr name) + 1)),
     dh_link = CH_NOLINK, dh_name = cstr name @ 0 # r\<rparr>"

lemma new_entry_ok:
  assumes "name_ok name"
  shows "node_ok (new_entry ino ty name r)" and "nm (new_entry ino ty name r) = cstr name"
    and "hash_fname (dh_name (new_entry ino ty name r)) key = hash_fname name key"
proof -
  have n: "0 \<notin> set (cstr name)" using cstr_no_nul by blast
  then show m: "nm (new_entry ino ty name r) = cstr name" by (simp add: new_entry_def)
  have ok: "name_ok (dh_name (new_entry ino ty name r))" using assms m by (simp add: name_ok_def new_entry_def terminated_def)
  then show "node_ok (new_entry ino ty name r)" using m by (simp add: node_ok_def new_entry_def)
  show "hash_fname (dh_name (new_entry ino ty name r)) key = hash_fname name key"
    using hash_fname_cstr [OF ok assms m] .
qed

lemma link_finish:
  assumes "dir_ok b st t N" and h: "hash_fname name (hkey t) = Some h" and nok: "name_ok name" and new: "dmap N (cstr name) = None"
    and k: "kinv k b'" "kz.owns b' M" "q \<noteq> 0" "M q = Some (chain_size (N h) + dh_size n)"
    and others: "\<And>g. g < 16 \<Longrightarrow> g \<noteq> h \<Longrightarrow> htable t ! g \<noteq> 0 \<Longrightarrow> htable t ! g \<noteq> q \<and>
        M (htable t ! g) = Some (chain_size (N g)) \<and> C (htable t ! g) = chains st (htable t ! g)"
    and c: "placed c 0 (with_entry (N h) n)" and n: "n = new_entry ino ty name r"
  shows "\<exists>ns. dir_ok b' (st\<lparr>heap := k, chains := C(q := c)\<rparr>) (t\<lparr>htable := (htable t)[h := q]\<rparr>) (N(h := ns)) \<and>
     pairs ns = insert (cstr name, ino) (pairs (N h)) \<and> chain_size ns \<le> chain_size (N h) + 280"
proof -
  have h16: "h < 16" using h hash_fname_less by blast
  note bk = dir_okD(3) [OF assms(1) h16]
  let ?st = "st\<lparr>heap := k, chains := C(q := c)\<rparr>"
  have "nm n \<notin> nm ` set (N h)"
    using new h16 new_entry_ok(2) [OF nok] n by (auto simp: dmap_None entries_mem)
  moreover have "N h = [] \<or> linked (N h)" using bucketD(1,2) [OF bk] by blast
  moreover have "dh_link n = 0" "dh_ino n = ino" by (simp_all add: n new_entry_def)
  ultimately have w: "bucket_ok ?st (hkey t) q h (with_entry (N h) n)"
    "chain_size (with_entry (N h) n) = chain_size (N h) + dh_size n"
    "pairs (with_entry (N h) n) = insert (cstr name, ino) (pairs (N h))"
    using with_entry_bucket [OF c k(3), of ?st "hkey t" h] bucketD(3,4) [OF bk] new_entry_ok [OF nok, of ino ty r] h n by auto
  have "dir_ok b' ?st (t\<lparr>htable := (htable t)[h := q]\<rparr>) (N(h := with_entry (N h) n))"
    by (rule dir_ok_upd [OF assms(1) h16, of _ _ M]) (use k w others in auto)
  moreover have "dh_size n \<le> 280" using node_size [OF new_entry_ok(1) [OF nok, of ino ty r]] n by simp
  ultimately show ?thesis using w(2,3) by (intro exI [of _ "with_entry (N h) n"]) simp
qed

lemma link_sizes:
  assumes "name_ok name" and "x \<le> 900000"
  shows "size_ok (szt (x + memalign (DIRENT_SIZE + (length (cstr name) + 1))))"
    and "szt (x + memalign (DIRENT_SIZE + (length (cstr name) + 1))) = x + memalign (DIRENT_SIZE + (length (cstr name) + 1))"
proof -
  have "memalign (DIRENT_SIZE + (length (cstr name) + 1)) \<le> 280"
    using assms(1) memalign_round(3) [of "DIRENT_SIZE + (length (cstr name) + 1)"] by (simp add: name_ok_def)
  then show e: "szt (x + memalign (DIRENT_SIZE + (length (cstr name) + 1))) = x + memalign (DIRENT_SIZE + (length (cstr name) + 1))"
    using assms(2) by (intro szt_id) simp
  show "size_ok (szt (x + memalign (DIRENT_SIZE + (length (cstr name) + 1))))"
    unfolding e using \<open>memalign _ \<le> 280\<close> assms(2) by (intro size_ok_small) simp
qed

lemma dh_link_cases:
  assumes d: "dir_ok b st t N" and nok: "name_ok name" and h: "hash_fname name (hkey t) = Some h"
    and sz: "chain_size (N h) \<le> 900000" and l: "dh_link_entry st t ino ty name = Some (r, st', t')"
  shows "dmap N (cstr name) \<noteq> None \<and> r = - EEXIST \<and> st' = st \<and> t' = t \<or>
    dmap N (cstr name) = None \<and> r = - ENOMEM \<and> st' = st \<and> t' = t \<or>
    dmap N (cstr name) = None \<and> r = 0 \<and>
      (\<exists>b' ns. dir_ok b' st' t' (N(h := ns)) \<and> pairs ns = insert (cstr name, ino) (pairs (N h)) \<and>
         chain_size ns \<le> chain_size (N h) + 280)"
proof (cases "dmap N (cstr name)")
  case (Some i)
  then show ?thesis using l h dh_lookup_eq [OF d nok] strlenn_name [OF nok] by (simp add: dh_link_entry_def Let_def)
next
  case None
  let ?e = "memalign (DIRENT_SIZE + (length (cstr name) + 1))"
  let ?p = "htable t ! h"
  have h16: "h < 16" using h hash_fname_less by blast
  have len: "length (htable t) = 16" using dir_okD(1) [OF d] .
  note bk = dir_okD(3) [OF d h16] and inv = dir_okD(2) [OF d]
  obtain rr where nmr: "strlcpy (replicate (length (cstr name) + 1 + 1) 0) name (length (cstr name) + 1 + 1) =
    Some (length (cstr name), cstr name @ 0 # rr)" using strlcpy_name [OF nok] by blast
  let ?n = "new_entry ino ty name rr"
  have ne: "?n = \<lparr>dh_ino = ino, dh_type = ty, dh_size = ?e, dh_link = 0, dh_name = cstr name @ 0 # rr\<rparr>" by (simp add: new_entry_def)
  obtain M where M: "kz.owns b M" "\<And>g. g < 16 \<Longrightarrow> htable t ! g \<noteq> 0 \<Longrightarrow> M (htable t ! g) = Some (chain_size (N g))"
    using dir_okE [OF d] by blast
  note lk = dh_lookup_eq [OF d nok, unfolded None] and sl = strlenn_name [OF nok]
  show ?thesis
  proof (cases "?p = 0")
    case True
    then have N0: "N h = []" using bucketD(1) [OF bk] by simp
    obtain q k where q: "kzalloc ?e (heap st) = Some (q, k)"
      using l lk sl h len h16 True by (auto simp: dh_link_entry_def Let_def split: Option.bind_splits)
    have so: "size_ok ?e" using link_sizes [OF nok, of 0] by simp
    show ?thesis
    proof (cases "q = 0")
      case q0: True
      with kz.alloc_null [OF inv so] q have "k = heap st" by blast
      with q0 q l lk sl h len h16 True None show ?thesis by (simp add: dh_link_entry_def Let_def)
    next
      case qn: False
      obtain b' where b': "M q = None" "kinv k b'" "kz.owns b' (M(q \<mapsto> ?e))" using kz.owns_alloc [OF inv M(1) so q qn] by blast
      have "r = 0 \<and> st' = st\<lparr>heap := k, chains := (new_chain q (chains st))(q := [0 \<mapsto> ?n])\<rparr> \<and> t' = t\<lparr>htable := (htable t)[h := q]\<rparr>"
        using l lk sl h len h16 True qn q nmr unfolding ne by (simp add: dh_link_entry_def Let_def append_node_def new_chain_def)
      moreover have "htable t ! g \<noteq> q" if "g < 16" "htable t ! g \<noteq> 0" for g using M(2) [OF that] b'(1) by auto
      then have "\<exists>ns. dir_ok b' (st\<lparr>heap := k, chains := (new_chain q (chains st))(q := [0 \<mapsto> ?n])\<rparr>) (t\<lparr>htable := (htable t)[h := q]\<rparr>)
          (N(h := ns)) \<and> pairs ns = insert (cstr name, ino) (pairs (N h)) \<and> chain_size ns \<le> chain_size (N h) + 280"
        by (intro link_finish [OF d h nok None b'(2,3) qn, of ?n]) (use N0 M(2) in \<open>auto simp: new_chain_def with_entry_def new_entry_def\<close>)
      ultimately show ?thesis using None by blast
    qed
  next
    case False
    have pl: "placed (chains st ?p) 0 (N h)" "linked (N h)" "\<forall>m \<in> set (N h). node_ok m"
      using bucketD(2,4) [OF bk] False by auto
    have fl: "find_last_node st ?p = Some (chain_size (butlast (N h)), chain_size (N h))"
      using find_last_node_loop_eq [OF False pl] by (simp add: find_last_node_def)
    let ?s = "szt (chain_size (N h) + ?e)"
    obtain q k where q: "krealloc ?p ?s (heap st) = Some (q, k)"
      using l lk sl h len h16 False fl by (auto simp: dh_link_entry_def Let_def split: Option.bind_splits)
    note so = link_sizes(1) [OF nok sz]
    show ?thesis
    proof (cases "q = 0")
      case q0: True
      obtain s0 where "(?p, s0, 1) \<in> held_blocks b" using kz.ownsD [OF M(1) M(2) [OF h16 False]] by blast
      with kz.grow_null [OF inv _ so] q q0 have "k = heap st" by blast
      with q0 q l lk sl h len h16 False fl None show ?thesis by (simp add: dh_link_entry_def Let_def)
    next
      case qn: False
      obtain b' where b': "q = ?p \<or> M q = None" "kinv k b'" "kz.owns b' (M(?p := None, q \<mapsto> ?s))"
        using kz.owns_grow [OF inv M(1) M(2) [OF h16 False] so q qn] by blast
      obtain c where c: "append_node (chain_size (butlast (N h))) (chain_size (N h)) ?n (chains st ?p) = Some c"
        "placed c 0 (with_entry (N h) ?n)"
        using append_node_eq [OF pl, of ?n] pl(2) by (auto simp: with_entry_def linked_def)
      have "r = 0 \<and> st' = st\<lparr>heap := k, chains := (move_chain ?p q (chains st))(q := c)\<rparr> \<and> t' = t\<lparr>htable := (htable t)[h := q]\<rparr>"
        using l lk sl h len h16 False qn q nmr fl c(1) unfolding ne by (simp add: dh_link_entry_def Let_def move_chain_def)
      moreover have "htable t ! g \<noteq> q \<and> htable t ! g \<noteq> ?p" if "g < 16" "g \<noteq> h" "htable t ! g \<noteq> 0" for g
        using M(2) [OF that(1,3)] b'(1) dir_okD(4) [OF d that(1) h16 that(2,3)] by auto
      then have "\<exists>ns. dir_ok b' (st\<lparr>heap := k, chains := (move_chain ?p q (chains st))(q := c)\<rparr>) (t\<lparr>htable := (htable t)[h := q]\<rparr>)
          (N(h := ns)) \<and> pairs ns = insert (cstr name, ino) (pairs (N h)) \<and> chain_size ns \<le> chain_size (N h) + 280"
        using link_sizes(2) [OF nok sz] M(2)
        by (intro link_finish [OF d h nok None b'(2,3) qn _ _ c(2)]) (auto simp: move_chain_def new_entry_def)
      ultimately show ?thesis using None by blast
    qed
  qed
qed

lemma close_placed:
  assumes "placed c 0 ms" and "ms \<noteq> []" and "\<forall>m \<in> set ms. node_ok m"
  shows "c (last_off ms) = Some (last ms) \<and> placed (c(last_off ms \<mapsto> (last ms)\<lparr>dh_link := 0\<rparr>)) 0 (close ms)"
proof -
  have ms: "ms = butlast ms @ [last ms]" using assms(2) by simp
  have sz: "\<forall>m \<in> set (butlast ms). 0 < dh_size m" using assms(3) node_size by (metis in_set_butlastD gr_zeroI not_numeral_le_zero)
  have "placed c 0 (butlast ms)" "c (last_off ms) = Some (last ms)"
    using assms(1,2) placed_append [of c 0 "butlast ms" "[last ms]"] ms by (simp_all add: last_off_def)
  with sz assms(2) show ?thesis by (simp add: close_def last_off_def placed_append placed_upd)
qed

lemma close_mem: "m \<in> set (close ms) \<Longrightarrow> \<exists>m' \<in> set ms. dh_name m = dh_name m' \<and> dh_size m = dh_size m'"
  by (auto simp: close_def dest: in_set_butlastD split: if_splits intro: bexI [of _ "last ms"])

lemma close_bucket:
  assumes "placed c 0 (close (others name ns))" and "others name ns \<noteq> []" and "p \<noteq> 0" and "chains st p = c" and "linked ns"
    and "\<forall>m \<in> set ns. node_ok m \<and> hash_fname (dh_name m) key = Some h" and "distinct (map nm ns)"
  shows "bucket_ok st key p h (close (others name ns))"
proof -
  have "\<forall>m \<in> set (close (others name ns)). \<exists>m' \<in> set ns. dh_name m = dh_name m' \<and> dh_size m = dh_size m'"
    using close_mem by fastforce
  then have "\<forall>m \<in> set (close (others name ns)). node_ok m \<and> hash_fname (dh_name m) key = Some h"
    using assms(6) unfolding node_ok_def by metis
  moreover have "distinct (map nm (close (others name ns)))" using assms(7) by (simp add: distinct_map_filter)
  ultimately show ?thesis using assms(1-4) close_linked [OF assms(5,2)] by (simp add: bucket_ok_def)
qed

lemma close_pairs: "pairs (close ms) = pairs ms"
proof -
  have "set (map (\<lambda>m. (nm m, dh_ino m)) (close ms)) = set (map (\<lambda>m. (nm m, dh_ino m)) ms)"
    by (subst close_map_gen) simp_all
  then show ?thesis by (simp add: pairs_def)
qed

lemma owns_mono: "kz.owns b M \<Longrightarrow> (\<And>p n. M' p = Some n \<Longrightarrow> \<exists>m. n \<le> m \<and> M p = Some m) \<Longrightarrow> kz.owns b M'"
  unfolding kz.owns_def by (meson le_trans)

lemma chain_size_filter: "chain_size (filter P ns) \<le> chain_size ns"
  by (induction ns) auto

lemma dh_unlink_cases:
  assumes d: "dir_ok b st t N" and nok: "name_ok name" and h: "hash_fname name (hkey t) = Some h" and ne: "N h \<noteq> []"
    and sz: "chain_size (N h) \<le> 900000" and l: "dh_unlink st t name = Some (r, st', t')"
  shows "r = - ENOMEM \<and> st' = st \<and> t' = t \<or>
    r = 0 \<and> (\<exists>b' ns. dir_ok b' st' t' (N(h := ns)) \<and> pairs ns = pairs (others name (N h)) \<and> chain_size ns \<le> chain_size (N h))"
proof -
  let ?p = "htable t ! h" and ?os = "others name (N h)"
  have h16: "h < 16" using h hash_fname_less by blast
  have len: "length (htable t) = 16" using dir_okD(1) [OF d] .
  note bk = dir_okD(3) [OF d h16] and inv = dir_okD(2) [OF d]
  have p: "?p \<noteq> 0" using ne bucketD(1) [OF bk] by blast
  have pl: "placed (chains st ?p) 0 (N h)" "linked (N h)" and nk: "\<forall>m \<in> set (N h). node_ok m"
    and bo: "\<forall>m \<in> set (N h). node_ok m \<and> hash_fname (dh_name m) (hkey t) = Some h"
    using bucketD(2,4) [OF bk] p by auto
  have fl: "find_last_node st ?p = Some (chain_size (butlast (N h)), chain_size (N h))"
    using find_last_node_loop_eq [OF p pl nk] by (simp add: find_last_node_def)
  have ge: "\<not> chain_size (N h) < 4" using ne nk node_size by (cases "N h") fastforce+
  obtain M where M: "kz.owns b M" "\<And>g. g < 16 \<Longrightarrow> htable t ! g \<noteq> 0 \<Longrightarrow> M (htable t ! g) = Some (chain_size (N g))"
    using dir_okE [OF d] by blast
  have so: "size_ok (chain_size (N h))" using sz by (intro size_ok_small) simp
  obtain q k where q: "kzalloc (chain_size (N h)) (heap st) = Some (q, k)"
    using l h len h16 fl ge by (auto simp: dh_unlink_def rm_node_def Let_def split: Option.bind_splits)
  have tid: "t\<lparr>htable := (htable t)[h := ?p]\<rparr> = t" by simp
  show ?thesis
  proof (cases "q = 0")
    case q0: True
    with kz.alloc_null [OF inv so] q have "k = heap st" by blast
    with q0 q l h len h16 fl ge tid show ?thesis by (simp add: dh_unlink_def rm_node_def Let_def)
  next
    case qn: False
    obtain b1 where b1: "M q = None" "kinv k b1" "kz.owns b1 (M(q \<mapsto> chain_size (N h)))"
      using kz.owns_alloc [OF inv M(1) so q qn] by blast
    have qp: "htable t ! g \<noteq> q" if "g < 16" "htable t ! g \<noteq> 0" for g using M(2) [OF that] b1(1) by auto
    define st1 where "st1 = st\<lparr>heap := k, chains := new_chain q (chains st)\<rparr>"
    have c1: "chains st1 ?p = chains st ?p" "chains st1 q = Map.empty" "heap st1 = k"
      using qp [OF h16 p] by (simp_all add: st1_def new_chain_def)
    obtain nc where nc: "rm_loop st1 ?p name 0 0 0 False [0 \<mapsto> dirent0] = Some (Some (last_off ?os, nc))"
      "placed nc 0 ?os" "?os = [] \<longrightarrow> nc = [0 \<mapsto> dirent0]"
      using rm_loop_eq [OF p nok, of st1 0 "N h" "[]" False "[0 \<mapsto> dirent0]"] pl nk bucketD(3) [OF bk] c1
      by (auto simp: last_off_def)
    have nq: "M(q \<mapsto> chain_size (N h)) = (M(q \<mapsto> chain_size (N h)))" "?p \<noteq> q" using qp [OF h16 p] by simp_all
    have othersM: "htable t ! g \<noteq> ?p" if "g < 16" "g \<noteq> h" "htable t ! g \<noteq> 0" for g
      using dir_okD(4) [OF d that(1) h16 that(2,3)] .
    have u: "dh_unlink st t name = do { (err, st, dea) \<leftarrow> rm_copy st1 q ?p name;
        tab \<leftarrow> wr (htable t) h dea; Some (err, st, t\<lparr>htable := tab\<rparr>) }"
      using h len h16 fl ge q qn by (simp add: dh_unlink_def rm_node_def st1_def)
    show ?thesis
    proof (cases "?os = []")
      case True
      then have n0: "nc = [0 \<mapsto> dirent0]" "last_off ?os = 0" using nc(3) by (simp_all add: last_off_def)
      obtain k2 b2 where k2: "kfree q k = Some k2" "kinv k2 b2" "kz.owns b2 (M(q := None))"
        using kz.owns_release [OF b1(2,3), of q "chain_size (N h)"] by auto
      have "(M(q := None)) ?p = Some (chain_size (N h))" using M(2) [OF h16 p] nq(2) by simp
      from kz.owns_release [OF k2(2,3) this] obtain k3 b3 where
        k3: "kfree ?p k2 = Some k3" "kinv k3 b3" "kz.owns b3 (M(q := None, ?p := None))" by blast
      have "rm_copy st1 q ?p name = Some (0, st1\<lparr>heap := k3\<rparr>, 0)"
        using nc(1) c1 k2(1) k3(1) unfolding n0 by (simp add: rm_copy_def Let_def dirent0_def)
      then have res: "r = 0" "st' = st1\<lparr>heap := k3\<rparr>" "t' = t\<lparr>htable := (htable t)[h := 0]\<rparr>"
        using l h16 len unfolding u by simp_all
      have "dir_ok b3 st' t' (N(h := []))"
        unfolding res(2,3)
        by (rule dir_ok_upd [OF d h16, of _ _ "M(q := None, ?p := None)"])
          (use k3 M(2) qp othersM in \<open>auto simp: bucket_ok_def st1_def new_chain_def\<close>)
      then show ?thesis using res(1) True by (intro disjI2 conjI exI [of _ b3] exI [of _ "[]"]) (simp_all add: pairs_def)
    next
      case False
      let ?nc = "nc(last_off ?os \<mapsto> (last ?os)\<lparr>dh_link := 0\<rparr>)"
      have cl: "nc (last_off ?os) = Some (last ?os)" "placed ?nc 0 (close ?os)"
        using close_placed [OF nc(2) False] nk by auto
      obtain n0 where n0: "?nc 0 = Some n0" "dh_size n0 \<noteq> 0"
      proof -
        obtain x xs where x: "close ?os = x # xs" using False close_map(5) by (cases "close ?os") auto
        have "chain_size (close ?os) = chain_size ?os" by simp
        have "map dh_size (close ?os) = map dh_size ?os" by (rule close_map_gen) simp
        then have "dh_size x \<in> dh_size ` set ?os" using x by (metis list.set_intros(1) list.simps(9) set_map)
        then have "dh_size x \<noteq> 0" using nk node_size by fastforce
        with cl(2) x that show thesis by simp
      qed
      have "(M(q \<mapsto> chain_size (N h))) ?p = Some (chain_size (N h))" using M(2) [OF h16 p] nq(2) by simp
      from kz.owns_release [OF b1(2,3) this] obtain k3 b3 where
        k3: "kfree ?p k = Some k3" "kinv k3 b3" "kz.owns b3 (M(q \<mapsto> chain_size (N h), ?p := None))" by blast
      let ?st = "st1\<lparr>chains := (chains st1)(q := ?nc), heap := k3\<rparr>"
      have "rm_copy st1 q ?p name = Some (0, ?st, q)"
        using nc(1) cl(1) n0 c1 k3(1) by (simp add: rm_copy_def Let_def del: fun_upd_apply)
      then have res: "r = 0" "st' = ?st" "t' = t\<lparr>htable := (htable t)[h := q]\<rparr>"
        using l h16 len unfolding u by simp_all
      have bk': "bucket_ok ?st (hkey t) q h (close ?os)"
        by (rule close_bucket [OF cl(2) False qn _ pl(2) bo bucketD(3) [OF bk]]) simp
      have le: "chain_size (close ?os) \<le> chain_size (N h)" by (simp add: chain_size_filter)
      have ow: "kz.owns b3 (M(q \<mapsto> chain_size (close ?os), ?p := None))"
        by (rule owns_mono [OF k3(3)]) (use le in \<open>auto split: if_splits\<close>)
      have "dir_ok b3 st' t' (N(h := close ?os))"
        unfolding res(2,3)
        by (rule dir_ok_upd [OF d h16 _ ow _ bk'])
          (use k3 M(2) qp othersM nq(2) in \<open>auto simp: st1_def new_chain_def\<close>)
      then show ?thesis using res(1) close_pairs le by blast
    qed
  qed
qed

section \<open>Walking a table\<close>

text \<open>The entries an iterator has still to visit.\<close>

definition iter_at :: "(nat \<Rightarrow> dirent list) \<Rightarrow> dh_dir_iter \<Rightarrow> dirent list \<Rightarrow> bool" where
  "iter_at N it ns \<longleftrightarrow>
     ch_ind it = SIZE_MAX \<and> dea_ind it \<le> 16 \<and> ns = concat (map N [dea_ind it..<16]) \<or>
     dea_ind it < 16 \<and> (\<exists>pre post. N (dea_ind it) = pre @ post \<and> post \<noteq> [] \<and> ch_ind it = chain_size pre \<and> ns = post @ concat (map N [dea_ind it + 1..<16]))"

lemma iter_at_start: "iter_at N dh_get_iter (entries N)"
  by (simp add: iter_at_def dh_get_iter_def entries_def)

lemma next_chain_eq:
  assumes "length tab = 16"
  shows "i < 16 \<Longrightarrow> \<exists>j. next_chain tab i = Some (tab ! j, j) \<and> i \<le> j \<and> j < 16 \<and> (\<forall>g \<in> {i..<j}. tab ! g = 0) \<and> (tab ! j \<noteq> 0 \<or> j = 15)"
proof (induction "16 - i" arbitrary: i)
  case (Suc n)
  show ?case
  proof (cases "tab ! i = 0 \<and> i + 1 < 16")
    case True
    have "n = 16 - (i + 1)" using Suc.hyps(2) by simp
    from Suc.hyps(1) [OF this] True obtain j where j: "next_chain tab (i + 1) = Some (tab ! j, j)" "i + 1 \<le> j" "j < 16"
      "\<forall>g \<in> {i + 1..<j}. tab ! g = 0" "tab ! j \<noteq> 0 \<or> j = 15" by auto
    have "\<forall>g \<in> {i..<j}. tab ! g = 0" using j(2,4) True by (metis Suc_eq_plus1 atLeastLessThan_iff le_antisym not_less_eq_eq)
    with j True assms Suc.prems show ?thesis by (subst next_chain.simps) auto
  next
    case False
    then show ?thesis using assms Suc.prems by (intro exI [of _ i]) (subst next_chain.simps, auto)
  qed
qed simp

lemma concat_skip: "\<forall>g \<in> {i..<j}. N g = [] \<Longrightarrow> i \<le> j \<Longrightarrow> j \<le> n \<Longrightarrow> concat (map N [i..<n]) = concat (map N [j..<n])"
proof -
  assume a: "\<forall>g \<in> {i..<j}. N g = []" "i \<le> j" "j \<le> n"
  then have "[i..<n] = [i..<j] @ [j..<n]" using upt_add_eq_append [of i j "n - j"] by simp
  moreover have "concat (map N [i..<j]) = []" using a(1) by simp
  ultimately show ?thesis by simp
qed

text \<open>Visiting a node of a chain.\<close>

lemma iter_visit:
  assumes d: "dir_ok b st t N" and i: "i < 16" and n: "N i = pre @ n # post" and sz: "chain_size (N i) \<le> 900000"
    and it: "dea_ind it = i" "ch_ind it = chain_size pre"
  shows "\<exists>it'. (do { node \<leftarrow> get_dirent st (htable t ! i) (ch_ind it);
          if is_invalid_offset node then Some (None, it)
          else if dh_link node = CH_LINK then Some (Some node, it\<lparr>ch_ind := ch_ind it + dh_size node\<rparr>)
          else Some (Some node, it\<lparr>dea_ind := dea_ind it + 1, ch_ind := SIZE_MAX\<rparr>) }) = Some (Some n, it') \<and>
      iter_at N it' (post @ concat (map N [i + 1..<16]))"
proof -
  note bk = dir_okD(3) [OF d i]
  have p: "htable t ! i \<noteq> 0" using n bucketD(1) [OF bk] by auto
  have pl: "placed (chains st (htable t ! i)) 0 (N i)" "linked (N i)" using bucketD(2) [OF bk] p by auto
  have g: "get_dirent st (htable t ! i) (ch_ind it) = Some n" using pl(1) p it n by (simp add: get_dirent_def placed_append)
  have nk: "node_ok n" using bucketD(4) [OF bk] n by simp
  have l: "(dh_link n = 1) = (post \<noteq> [])"
  proof (cases "post = []")
    case True
    with pl(2) n show ?thesis by (simp add: linked_def)
  next
    case False
    then have "n \<in> set (butlast (N i))" using n by (simp add: butlast_append)
    with pl(2) False show ?thesis by (simp add: linked_def)
  qed
  show ?thesis
  proof (cases "post = []")
    case True
    then have "iter_at N (it\<lparr>dea_ind := dea_ind it + 1, ch_ind := SIZE_MAX\<rparr>) (concat (map N [i + 1..<16]))"
      using i it by (simp add: iter_at_def)
    with True g l node_valid [OF nk] show ?thesis by simp
  next
    case False
    have "N i = (pre @ [n]) @ post" using n by simp
    then have "iter_at N (it\<lparr>ch_ind := ch_ind it + dh_size n\<rparr>) (post @ concat (map N [i + 1..<16]))"
      unfolding iter_at_def using False i it by (intro disjI2 conjI exI [of _ "pre @ [n]"] exI [of _ post]) simp_all
    with False g l node_valid [OF nk] show ?thesis by simp
  qed
qed

lemma dh_iter_next_eq:
  assumes d: "dir_ok b st t N" and sz: "\<forall>h < 16. chain_size (N h) \<le> 900000" and it: "iter_at N it ns"
  shows "\<exists>it'. dh_iter_next st t it = Some (case ns of [] \<Rightarrow> None | n # _ \<Rightarrow> Some n, it') \<and> (ns \<noteq> [] \<longrightarrow> iter_at N it' (tl ns))"
proof -
  have len: "length (htable t) = 16" using dir_okD(1) [OF d] .
  have z: "htable t ! g = 0 \<longleftrightarrow> N g = []" if "g < 16" for g
    using dir_okD(3) [OF d that] by (auto simp: bucket_ok_def linked_def split: if_splits)
  consider (chain) pre n post where "dea_ind it < 16" "N (dea_ind it) = pre @ n # post" "ch_ind it = chain_size pre"
      "ns = (n # post) @ concat (map N [dea_ind it + 1..<16])"
    | (start) "ch_ind it = SIZE_MAX" "dea_ind it \<le> 16" "ns = concat (map N [dea_ind it..<16])"
    using it unfolding iter_at_def by (metis neq_Nil_conv)
  then show ?thesis
  proof cases
    case chain
    have le: "chain_size pre \<le> 900000" using chain(1,2) sz by (metis chain_size_simps(3) le_trans le_add1)
    have zi: "htable t ! dea_ind it \<noteq> 0" using z [OF chain(1)] chain(2) by simp
    have le': "chain_size (N (dea_ind it)) \<le> 900000" using sz chain(1) by blast
    obtain it' where v: "(do { node \<leftarrow> get_dirent st (htable t ! dea_ind it) (ch_ind it);
          if is_invalid_offset node then Some (None, it)
          else if dh_link node = CH_LINK then Some (Some node, it\<lparr>ch_ind := ch_ind it + dh_size node\<rparr>)
          else Some (Some node, it\<lparr>dea_ind := dea_ind it + 1, ch_ind := SIZE_MAX\<rparr>) }) = Some (Some n, it')"
      "iter_at N it' (post @ concat (map N [dea_ind it + 1..<16]))"
      using iter_visit [OF d chain(1,2) le' refl chain(3)] by blast
    have "dh_iter_next st t it = Some (Some n, it')"
      using v(1) chain(1) zi len le unfolding dh_iter_next_def by (simp add: chain(3))
    with v(2) chain(4) show ?thesis by simp
  next
    case start
    show ?thesis
    proof (cases "dea_ind it = 16")
      case True
      with start show ?thesis by (simp add: dh_iter_next_def)
    next
      case False
      then have i: "dea_ind it < 16" using start(2) by simp
      obtain j where j: "next_chain (htable t) (dea_ind it) = Some (htable t ! j, j)" "dea_ind it \<le> j" "j < 16"
        "\<forall>g \<in> {dea_ind it..<j}. htable t ! g = 0" "htable t ! j \<noteq> 0 \<or> j = 15"
        using next_chain_eq [OF len i] by blast
      have e: "ns = concat (map N [j..<16])"
        using start(3) concat_skip [of "dea_ind it" j N 16] j z by auto
      let ?it = "it\<lparr>ch_ind := 0, dea_ind := j\<rparr>"
      show ?thesis
      proof (cases "N j")
        case Nil
        then have "j = 15" using j(5) z [OF j(3)] by simp
        then have "ns = []" using e Nil by simp
        then show ?thesis using Nil j(1) z [OF j(3)] i start(1) by (simp add: dh_iter_next_def)
      next
        case (Cons n post)
        have e2: "ns = n # post @ concat (map N [j + 1..<16])" using e Cons upt_conv_Cons [OF j(3)] by simp
        have le': "chain_size (N j) \<le> 900000" using sz j(3) by blast
        have it2: "dea_ind ?it = j" "ch_ind ?it = chain_size []" by simp_all
        have n: "N j = [] @ n # post" using Cons by simp
        obtain it' where v: "(do { node \<leftarrow> get_dirent st (htable t ! j) (ch_ind ?it);
          if is_invalid_offset node then Some (None, ?it)
          else if dh_link node = CH_LINK then Some (Some node, ?it\<lparr>ch_ind := ch_ind ?it + dh_size node\<rparr>)
          else Some (Some node, ?it\<lparr>dea_ind := dea_ind ?it + 1, ch_ind := SIZE_MAX\<rparr>) }) = Some (Some n, it')"
          "iter_at N it' (post @ concat (map N [j + 1..<16]))"
          using iter_visit [OF d j(3) n le' it2] by blast
        have "dh_iter_next st t it = Some (Some n, it')"
          using v(1) i start(1) j(1) z [OF j(3)] Cons unfolding dh_iter_next_def by simp
        with v(2) e2 show ?thesis by simp
      qed
    qed
  qed
qed

lemma nr_loop_eq:
  assumes "dir_ok b st t N" and "\<forall>h < 16. chain_size (N h) \<le> 900000"
  shows "iter_at N it ns \<Longrightarrow> nr_loop st t it n = Some (n + length ns)"
proof (induction ns arbitrary: it n)
  case Nil
  then show ?case using dh_iter_next_eq [OF assms Nil] by (subst nr_loop.simps) auto
next
  case (Cons m ns)
  obtain it' where "dh_iter_next st t it = Some (Some m, it')" "iter_at N it' ns"
    using dh_iter_next_eq [OF assms Cons.prems] by auto
  then show ?case using Cons.IH [of it' "n + 1"] by (subst nr_loop.simps) simp
qed

lemma rev_loop_eq:
  assumes "dir_ok b st t N" and "\<forall>h < 16. chain_size (N h) \<le> 900000"
  shows "iter_at N it ns \<Longrightarrow> rev_loop st t it ino name len =
    (case find (\<lambda>n. dh_ino n = ino) ns of
       None \<Rightarrow> Some (- ENOENT, name)
     | Some n \<Rightarrow> do { (l, name) \<leftarrow> strlcpy name (dh_name n) len; Some (if l \<ge> len then - ENAMETOOLONG else 0, name) })"
proof (induction ns arbitrary: it)
  case Nil
  then show ?case using dh_iter_next_eq [OF assms Nil] by (subst rev_loop.simps) auto
next
  case (Cons m ns)
  obtain it' where "dh_iter_next st t it = Some (Some m, it')" "iter_at N it' ns"
    using dh_iter_next_eq [OF assms Cons.prems] by auto
  then show ?case using Cons.IH [of it'] by (subst rev_loop.simps) simp
qed

text \<open>The first entry of a bucket needs nothing but memory.\<close>

lemma dh_link_first:
  assumes "dir_ok b st t N" and "name_ok name" and "hash_fname name (hkey t) = Some h" and "dmap N (cstr name) = None"
    and "htable t ! h = 0" and "kzalloc (memalign (DIRENT_SIZE + (length (cstr name) + 1))) (heap st) = Some (q, k)" and "q \<noteq> 0"
  shows "\<exists>st' t'. dh_link_entry st t ino ty name = Some (0, st', t')"
proof -
  obtain rr where "strlcpy (replicate (length (cstr name) + 1 + 1) 0) name (length (cstr name) + 1 + 1) =
    Some (length (cstr name), cstr name @ 0 # rr)" using strlcpy_name [OF assms(2)] by blast
  then show ?thesis
    using assms dh_lookup_eq [OF assms(1,2)] strlenn_name [OF assms(2)] dir_okD(1) [OF assms(1)] hash_fname_less [OF assms(3)]
    by (simp add: dh_link_entry_def Let_def append_node_def)
qed

section \<open>Histories of a directory\<close>

text \<open>
  The calls of the file systems. They unlink a name only after they looked it up (\<open>ramfs_unlink\<close> in
  \<^verbatim>\<open>kern/fs/ramfs/ramfs.c\<close>).
\<close>

datatype dir_op = Link u64 u8 bytes | Unlink bytes | Lookup bytes

fun dir_exec :: "dir_op \<Rightarrow> dstate \<Rightarrow> dh_table \<Rightarrow> (int \<times> u64 option \<times> dstate \<times> dh_table) option" where
  "dir_exec (Link ino ty name) st t = do { (r, st, t) \<leftarrow> dh_link_entry st t ino ty name; Some (r, None, st, t) }"
| "dir_exec (Lookup name) st t = do { (r, v) \<leftarrow> dh_lookup st t name; Some (r, v, st, t) }"
| "dir_exec (Unlink name) st t = do {
     (err, v) \<leftarrow> dh_lookup st t name;
     if err \<noteq> 0 then Some (err, None, st, t)
     else do { (r, st, t) \<leftarrow> dh_unlink st t name; Some (r, None, st, t) } }"

fun dir_run :: "dir_op list \<Rightarrow> dstate \<Rightarrow> dh_table \<Rightarrow> ((int \<times> u64 option) list \<times> dstate \<times> dh_table) option" where
  "dir_run [] st t = Some ([], st, t)"
| "dir_run (x # xs) st t = do {
     (r, v, st, t) \<leftarrow> dir_exec x st t;
     (rs, st, t) \<leftarrow> dir_run xs st t;
     Some ((r, v) # rs, st, t) }"

fun op_name :: "dir_op \<Rightarrow> bytes" where
  "op_name (Link ino ty name) = name"
| "op_name (Unlink name) = name"
| "op_name (Lookup name) = name"

text \<open>What a directory is: a map from names to inode numbers. Only memory may be short.\<close>

inductive dir_spec :: "(bytes \<rightharpoonup> u64) \<Rightarrow> dir_op \<Rightarrow> int \<times> u64 option \<Rightarrow> (bytes \<rightharpoonup> u64) \<Rightarrow> bool" where
  found: "m (cstr name) = Some i \<Longrightarrow> dir_spec m (Lookup name) (0, Some i) m"
| absent: "m (cstr name) = None \<Longrightarrow> dir_spec m (Lookup name) (- ENOENT, None) m"
| added: "m (cstr name) = None \<Longrightarrow> dir_spec m (Link i ty name) (0, None) (m(cstr name \<mapsto> i))"
| exists: "m (cstr name) = Some j \<Longrightarrow> dir_spec m (Link i ty name) (- EEXIST, None) m"
| no_room: "m (cstr name) = None \<Longrightarrow> dir_spec m (Link i ty name) (- ENOMEM, None) m"
| removed: "m (cstr name) = Some j \<Longrightarrow> dir_spec m (Unlink name) (0, None) (m(cstr name := None))"
| missing: "m (cstr name) = None \<Longrightarrow> dir_spec m (Unlink name) (- ENOENT, None) m"
| no_copy: "m (cstr name) = Some j \<Longrightarrow> dir_spec m (Unlink name) (- ENOMEM, None) m"

inductive dir_spec_run :: "(bytes \<rightharpoonup> u64) \<Rightarrow> dir_op list \<Rightarrow> (int \<times> u64 option) list \<Rightarrow> (bytes \<rightharpoonup> u64) \<Rightarrow> bool" where
  finish: "dir_spec_run m [] [] m"
| step: "dir_spec m x r m1 \<Longrightarrow> dir_spec_run m1 xs rs m2 \<Longrightarrow> dir_spec_run m (x # xs) (r # rs) m2"

lemma dir_spec_lookup:
  "dir_spec m (Lookup name) (case m (cstr name) of None \<Rightarrow> (- ENOENT, None) | Some i \<Rightarrow> (0, Some i)) m"
  by (cases "m (cstr name)") (simp_all add: dir_spec.found dir_spec.absent)

definition dir_small :: "nat \<Rightarrow> (nat \<Rightarrow> dirent list) \<Rightarrow> bool" where
  "dir_small k N \<longleftrightarrow> (\<forall>h < 16. chain_size (N h) \<le> 280 * k)"

lemma dir_small_upd: "dir_small k N \<Longrightarrow> chain_size ns \<le> chain_size (N h) + 280 \<Longrightarrow> h < 16 \<Longrightarrow> dir_small (Suc k) (N(h := ns))"
proof -
  assume a: "dir_small k N" "chain_size ns \<le> chain_size (N h) + 280" "h < 16"
  have "chain_size ((N(h := ns)) g) \<le> 280 * Suc k" if "g < 16" for g
  proof -
    have "chain_size (N g) \<le> 280 * k" "chain_size (N h) \<le> 280 * k" using a(1,3) that by (simp_all add: dir_small_def)
    then show ?thesis using a(2) by simp
  qed
  then show ?thesis by (simp add: dir_small_def)
qed

lemma dir_exec_refines:
  assumes d: "dir_ok b st t N" and nok: "name_ok (op_name x)" and sz: "dir_small k N" "k \<le> 3000"
    and x: "dir_exec x st t = Some (r, v, st', t')"
  shows "\<exists>b' N'. dir_ok b' st' t' N' \<and> dir_small (Suc k) N' \<and> dir_spec (dmap N) x (r, v) (dmap N')"
proof -
  obtain h where h: "hash_fname (op_name x) (hkey t) = Some h" "h < 16" using hash_fname_total [OF nok] by blast
  have c: "chain_size (N h) \<le> 900000" using sz h(2) by (fastforce simp: dir_small_def)
  have same: "dir_small (Suc k) N" using sz(1) by (auto simp: dir_small_def)
  show ?thesis
  proof (cases x)
    case (Lookup name)
    have "name_ok name" using nok Lookup by simp
    from dh_lookup_eq [OF d this] have "(r, v) = (case dmap N (cstr name) of None \<Rightarrow> (- ENOENT, None) | Some i \<Rightarrow> (0, Some i))"
      and "st' = st \<and> t' = t" using x Lookup by (simp_all add: case_prod_unfold prod_eq_iff)
    then show ?thesis using d same Lookup dir_spec_lookup [of "dmap N" name] by auto
  next
    case (Link i ty name)
    then have l: "dh_link_entry st t i ty name = Some (r, st', t')" "v = None" and nm: "op_name x = name"
      using x by (auto split: Option.bind_splits)
    from dh_link_cases [OF d nok [unfolded nm] h(1) [unfolded nm] c l(1)] show ?thesis
    proof (elim disjE conjE exE)
      assume "dmap N (cstr name) \<noteq> None" "r = - EEXIST" "st' = st" "t' = t"
      then show ?thesis using d same Link l(2) by (auto intro: dir_spec.exists)
    next
      assume "dmap N (cstr name) = None" "r = - ENOMEM" "st' = st" "t' = t"
      then show ?thesis using d same Link l(2) by (auto intro: dir_spec.no_room)
    next
      fix b' ns
      assume a: "dmap N (cstr name) = None" "r = 0" "dir_ok b' st' t' (N(h := ns))"
        "pairs ns = insert (cstr name, i) (pairs (N h))" "chain_size ns \<le> chain_size (N h) + 280"
      show ?thesis using a(3) dir_small_upd [OF sz(1) a(5) h(2)] dmap_add [OF d a(3) h(2) a(4)] dir_spec.added [of "dmap N" name, OF a(1)] Link l(2) a(2)
        by (intro exI [of _ b'] exI [of _ "N(h := ns)"]) auto
    qed
  next
    case (Unlink name)
    then have nm: "op_name x = name" by simp
    show ?thesis
    proof (cases "dmap N (cstr name)")
      case None
      then show ?thesis using x Unlink dh_lookup_eq [OF d] nok d same by (auto intro: dir_spec.missing)
    next
      case (Some j)
      then have l: "dh_unlink st t name = Some (r, st', t')" "v = None"
        using x Unlink dh_lookup_eq [OF d] nok by (auto split: Option.bind_splits)
      obtain n where "n \<in> set (entries N)" "nm n = cstr name" using dmap_SomeD [OF Some] by blast
      then have "N h \<noteq> []" using entry_bucket [OF d _ nok _ h(1)] nm by auto
      from dh_unlink_cases [OF d nok [unfolded nm] h(1) [unfolded nm] this c l(1)] show ?thesis
      proof (elim disjE conjE exE)
        assume "r = - ENOMEM" "st' = st" "t' = t"
        then show ?thesis using d same Unlink l(2) Some by (auto intro: dir_spec.no_copy)
      next
        fix b' ns
        assume a: "r = 0" "dir_ok b' st' t' (N(h := ns))" "pairs ns = pairs (others name (N h))" "chain_size ns \<le> chain_size (N h)"
        have "chain_size ns \<le> chain_size (N h) + 280" using a(4) by simp
        then show ?thesis
          using a(2) dir_small_upd [OF sz(1) _ h(2)] dmap_remove [OF d a(2) h(1) [unfolded nm] nok [unfolded nm] a(3)]
            dir_spec.removed [of "dmap N" name j, OF Some] Unlink l(2) a(1)
          by (intro exI [of _ b'] exI [of _ "N(h := ns)"]) auto
      qed
    qed
  qed
qed

lemma dir_run_refines:
  "dir_ok b st t N \<Longrightarrow> \<forall>x \<in> set xs. name_ok (op_name x) \<Longrightarrow> dir_small k N \<Longrightarrow> k + length xs \<le> 3000 \<Longrightarrow>
   dir_run xs st t = Some (rs, st', t') \<Longrightarrow>
   \<exists>b' N'. dir_ok b' st' t' N' \<and> dir_small (k + length xs) N' \<and> dir_spec_run (dmap N) xs rs (dmap N')"
proof (induction xs arbitrary: b st t N k rs)
  case Nil
  then show ?case by (auto intro: dir_spec_run.finish)
next
  case (Cons x xs)
  obtain r v st1 t1 rs1 where a: "dir_exec x st t = Some (r, v, st1, t1)" "dir_run xs st1 t1 = Some (rs1, st', t')" "rs = (r, v) # rs1"
    using Cons.prems(5) by (auto split: Option.bind_splits)
  obtain b1 N1 where b1: "dir_ok b1 st1 t1 N1" "dir_small (Suc k) N1" "dir_spec (dmap N) x (r, v) (dmap N1)"
    using dir_exec_refines [OF Cons.prems(1) _ Cons.prems(3) _ a(1)] Cons.prems(2,4) by auto
  from Cons.IH [OF b1(1) _ b1(2) _ a(2)] Cons.prems(2,4) show ?case using b1(3) a(3) by (auto intro: dir_spec_run.step)
qed

section \<open>Properties\<close>

text \<open>A table right after \<open>dh_init\<close> on cleared memory.\<close>

definition dir_boot :: "dstate \<Rightarrow> dh_table \<Rightarrow> bool" where
  "dir_boot st t \<longleftrightarrow> (\<exists>b. kinv (heap st) b) \<and> htable t = replicate 16 0"

lemma dir_boot_ok: "dir_boot st t \<Longrightarrow> \<exists>b. dir_ok b st t (\<lambda>_. [])"
  by (auto simp: dir_boot_def dir_ok_def bucket_ok_def kz.owns_def)

lemma dmap_empty: "dmap (\<lambda>_. []) = Map.empty"
  by (simp add: dmap_def entries_def concat_eq_Nil_conv [THEN iffD2])

text \<open>A table with one entry, for the examples.\<close>

lemma example_dir:
  "\<exists>st t s1 t1 b1 N1. dir_boot st t \<and> dh_link_entry st t 7 8 [97, 0] = Some (0, s1, t1) \<and> dir_ok b1 s1 t1 N1 \<and>
     dmap N1 = [[97] \<mapsto> 7] \<and> (\<forall>h < 16. chain_size (N1 h) \<le> 280)"
proof -
  let ?n = "[97, 0] :: bytes"
  define st where "st = \<lparr>heap = kheap_boot (dynmem_boot (\<lambda>_. 0)), chains = \<lambda>_. Map.empty\<rparr>"
  define t where "t = \<lparr>hkey = (0, 0), htable = replicate 16 0\<rparr>"
  have "kinv (heap st) []" unfolding st_def by (simp add: kinv_boot [OF dm_inv_boot])
  then have b: "dir_boot st t" by (auto simp: dir_boot_def t_def)
  then obtain bl where d: "dir_ok bl st t (\<lambda>_. [])" using dir_boot_ok by blast
  have c: "cstr ?n = [97]" and n: "name_ok ?n" by (simp_all add: name_ok_def cstr_def terminated_def)
  obtain h where h: "hash_fname ?n (hkey t) = Some h" "h < 16" using hash_fname_total [OF n] by blast
  have e: "memalign (DIRENT_SIZE + (length (cstr ?n) + 1)) = 28" by (simp add: c memalign_def)
  obtain k where "kzalloc 28 (heap st) = Some (0x800018, k)" by (simp add: st_def kzalloc_def heap_eval)
  then obtain s1 t1 where l: "dh_link_entry st t 7 8 ?n = Some (0, s1, t1)"
    using dh_link_first [OF d n h(1), of "0x800018" k 7 8, unfolded e dmap_empty] h(2) by (auto simp: t_def)
  have h0: "chain_size ((\<lambda>_. []) h) \<le> 900000" by simp
  from dh_link_cases [OF d n h(1) h0 l] obtain b1 ns where ns: "dir_ok b1 s1 t1 ((\<lambda>_. [])(h := ns))"
    "pairs ns = insert (cstr ?n, 7) (pairs ((\<lambda>_. []) h))" "chain_size ns \<le> 280" by auto
  from dmap_add [OF d ns(1) h(2) ns(2)] have "dmap ((\<lambda>_. [])(h := ns)) = [[97] \<mapsto> 7]" by (simp add: dmap_empty c)
  moreover have "\<forall>g < 16. chain_size (((\<lambda>_. [])(h := ns)) g) \<le> 280" using ns(3) by simp
  ultimately show ?thesis using b l ns(1) by blast
qed



text \<open>
  Walking a table. \<open>dh_nr_entries\<close> returns the number of names in the directory; \<open>dh_revlookup\<close>
  reports \<open>-ENOENT\<close> exactly when no entry has the inode number, and otherwise copies the name of one that
  has it, cut and with \<open>-ENAMETOOLONG\<close> exactly when it does not fit. Both loops end and stay inside the
  chains.
\<close>

theorem directory_walk:
  assumes "dir_ok b st t N" and "\<forall>h < 16. chain_size (N h) \<le> 900000" and "len \<le> length buf" and "len \<noteq> 0"
  shows "dh_nr_entries st t = Some (card (dom (dmap N))) \<and>
    (\<exists>r buf'. dh_revlookup st t ino buf len = Some (r, buf') \<and> (r = - ENOENT \<longleftrightarrow> ino \<notin> ran (dmap N)) \<and> (r = - ENOENT \<longrightarrow> buf' = buf) \<and>
       (ino \<in> ran (dmap N) \<longrightarrow> (\<exists>x. dmap N x = Some ino \<and> length buf' = length buf \<and> cstr buf' = take (len - 1) x \<and>
          r = (if length x < len then 0 else - ENAMETOOLONG))))"
proof -
  have "length (entries N) = card (dom (dmap N))"
  proof -
    have inj: "inj_on nm (set (entries N))" using nm_inj [OF assms(1)] by (auto intro: inj_onI)
    have "distinct (entries N)" using distinct_entries [OF assms(1)] .
    then have "length (entries N) = card (nm ` set (entries N))" using inj by (simp add: card_image distinct_card)
    moreover have "dom (dmap N) = nm ` set (entries N)" by (force simp: dmap_def dom_map_of_conv_image_fst)
    ultimately show ?thesis by simp
  qed
  then have nr: "dh_nr_entries st t = Some (card (dom (dmap N)))"
    using nr_loop_eq [OF assms(1,2) iter_at_start, of 0] by (simp add: dh_nr_entries_def)
  note rv = rev_loop_eq [OF assms(1,2) iter_at_start, of ino buf len, folded dh_revlookup_def]
  show ?thesis
  proof (cases "find (\<lambda>n. dh_ino n = ino) (entries N)")
    case None
    then have "ino \<notin> ran (dmap N)" using dmap_SomeD by (fastforce simp: ran_def find_None_iff)
    then show ?thesis using nr rv None by simp
  next
    case (Some n)
    then have n: "dh_ino n = ino" "n \<in> set (entries N)" using find_SomeD by fastforce+
    then have dm: "dmap N (nm n) = Some ino" using dmap_Some [OF assms(1)] by blast
    obtain h where "h < 16" "n \<in> set (N h)" using n(2) by (auto simp: entries_mem)
    then have "terminated (dh_name n)" using bucketD(4) [OF dir_okD(3) [OF assms(1)]] by (auto simp: node_ok_def name_ok_def)
    from strlcpy_eq [OF this assms(3,4)] obtain buf' where
      b: "strlcpy buf (dh_name n) len = Some (length (nm n), buf')"
        "buf' = take (len - 1) (nm n) @ 0 # drop (min (len - 1) (length (nm n)) + 1) buf" by blast
    have z: "0 \<notin> set (take (len - 1) (nm n))" using cstr_no_nul in_set_takeD by metis
    have "cstr buf' = take (len - 1) (nm n)" "length buf' = length buf"
      unfolding b(2) using cstr_nul [OF z] assms(3,4) by (simp_all add: min_def)
    moreover have "ino \<in> ran (dmap N)" using dm by (auto simp: ran_def)
    moreover have "dh_revlookup st t ino buf len = Some (if len \<le> length (nm n) then - ENAMETOOLONG else 0, buf')"
      unfolding rv using Some b(1) by simp
    moreover have "\<exists>x. dmap N x = Some ino \<and> length buf' = length buf \<and> cstr buf' = take (len - 1) x \<and>
        (if len \<le> length (nm n) then - ENAMETOOLONG else 0) = (if length x < len then 0 else - ENAMETOOLONG)"
      using calculation(1,2) dm by (intro exI [of _ "nm n"]) simp
    ultimately show ?thesis using nr
      by (intro conjI exI [of _ "if len \<le> length (nm n) then - ENAMETOOLONG else 0"] exI [of _ buf']) simp_all
  qed
qed

theorem directory_walk_witness:
  "\<exists>st t buf. dh_nr_entries st t = Some 1 \<and> dh_revlookup st t 7 [1, 1] 2 = Some (0, buf) \<and> cstr buf = [97]"
proof -
  obtain st t b N where d: "dir_ok b st t N" "dmap N = [[97] \<mapsto> 7]" "\<forall>h < 16. chain_size (N h) \<le> 280" using example_dir by blast
  have "\<forall>h < 16. chain_size (N h) \<le> 900000" using d(3) by fastforce
  from directory_walk [OF d(1) this, of 2 "[1, 1]" 7] obtain r buf' x where "dh_nr_entries st t = Some (card (dom (dmap N)))"
    "dh_revlookup st t 7 [1, 1] 2 = Some (r, buf')" "dmap N x = Some 7" "cstr buf' = take 1 x" "r = (if length x < 2 then 0 else - ENAMETOOLONG)"
    unfolding d(2) by auto
  moreover from this(3) d(2) have "x = [97]" by (auto split: if_splits)
  ultimately show ?thesis using d(2) by auto
qed

section \<open>Defects\<close>

text \<open>
  \<open>dh_init\<close> throws the random key away and leaves the last two buckets as they were: a table in memory
  from \<open>kmalloc\<close>, as \<open>ramfs\<close> makes it, starts with two wild pointers.
\<close>

lemma dh_init_partial:
  "length (htable t) = 16 \<Longrightarrow>
   hkey (snd (dh_init seed t)) = (0, 0) \<and> htable (snd (dh_init seed t)) ! 14 = htable t ! 14 \<and>
   htable (snd (dh_init seed t)) ! 15 = htable t ! 15"
  by (simp add: dh_init_def Let_def nth_append)

text \<open>\<open>dh_unlink\<close> of a name whose bucket is empty walks the chain at address 0.\<close>

lemma dh_unlink_empty_bucket:
  assumes "dir_ok b st t N" and "hash_fname name (hkey t) = Some h" and "N h = []"
  shows "dh_unlink st t name = None"
proof -
  have "h < 16" using assms(2) hash_fname_less by blast
  moreover from this dir_okD(3) [OF assms(1), of h] assms(3) have "htable t ! h = 0"
    by (auto simp: bucket_ok_def split: if_splits)
  ultimately show ?thesis using assms(2) dir_okD(1) [OF assms(1)]
    by (simp add: dh_unlink_def rm_node_def find_last_node_def find_last_node_loop.simps get_dirent_def)
qed

text \<open>\<open>dh_unlink\<close> of a name that is not in a bucket with entries reports success.\<close>

lemma dh_unlink_absent:
  assumes "dir_ok b st t N" and "name_ok name" and "hash_fname name (hkey t) = Some h" and "N h \<noteq> []"
    and "chain_size (N h) \<le> 900000" and "dmap N (cstr name) = None" and "dh_unlink st t name = Some (r, st', t')"
  shows "r = 0 \<or> r = - ENOMEM"
  using dh_unlink_cases [OF assms(1-5,7)] by blast

text \<open>Entries of names with 253 to 255 bytes, which \<open>NAME_MAX\<close> allows, are larger than the check of the size accepts.\<close>

lemma long_name_invalid:
  assumes "253 \<le> l" and "l \<le> 255" and "dh_size n = memalign (DIRENT_SIZE + (l + 1))"
  shows "is_invalid_offset n"
proof -
  have "l = 253 \<or> l = 254 \<or> l = 255" using assms(1,2) by arith
  then show ?thesis by (elim disjE) (simp_all add: assms(3) is_invalid_offset_def memalign_def)
qed

text \<open>Only the low byte of the hash is used.\<close>

lemma halfsiphash32_one_byte: "halfsiphash32 inp n key = Some w \<Longrightarrow> unat w < 256"
proof -
  have "unat (ucast (x :: u8) :: u32) < 256" for x
  proof -
    have "unat (ucast x :: u32) \<le> unat x" by (simp add: unsigned_ucast_eq take_bit_nat_less_eq_self)
    also have "\<dots> < 2 ^ 8" using unsigned_less [of x] by simp
    finally show ?thesis by simp
  qed
  then show "halfsiphash32 inp n key = Some w \<Longrightarrow> unat w < 256"
    by (auto simp: halfsiphash32_def Let_def case_prod_unfold split: if_splits)
qed

end
