(* ===== verification/Rcu.thy ===== *)
theory Rcu
  imports Zeke_Prelude
begin

text \<open>
  Read-copy-update, \<^verbatim>\<open>src/kern/rcu.c\<close>.

  All of the state is a control word of two 15-bit reader counters and a clock bit, two lists of
  reclaim callbacks, and the mutex of \<open>rcu_synchronize\<close>. Every function is a loop of atomic reads and
  compare-and-exchange operations that other threads interleave with, so each is modelled at that
  granularity: a program counter \<open>rcu_pc\<close> per activity, one executable function per C function that
  performs the next atomic access, and \<open>rcu_step\<close>, which lets any activity take its next step. An
  activity is one call chain of a thread (a reader, a call of \<open>rcu_call\<close>, a call of
  \<open>rcu_synchronize\<close>); a thread that calls \<open>rcu_call\<close> inside a read-side section is two activities.

  The steps write a log of the events the interface speaks of (a reader enters or leaves, a callback
  is registered or invoked). The properties are about that log: a callback never runs while a reader
  that was inside when it was registered is still inside, and no registration is lost or invoked twice.
\<close>

section \<open>The control word\<close>

definition RCU_CTRL_TO_CTR_A :: "u32 \<Rightarrow> u32" where
  "RCU_CTRL_TO_CTR_A x = drop_bit 0 x AND 0x7fff"

definition RCU_CTRL_TO_CTR_B :: "u32 \<Rightarrow> u32" where
  "RCU_CTRL_TO_CTR_B x = drop_bit 15 x AND 0x7fff"

definition RCU_CTRL_TO_CLOCK :: "u32 \<Rightarrow> u32" where
  "RCU_CTRL_TO_CLOCK x = drop_bit 30 x AND 0x1"

definition RCU_CTR_ONE :: "u32 \<Rightarrow> u32" where
  "RCU_CTR_ONE clock = (if clock \<noteq> 0 then push_bit 15 1 else push_bit 0 1)"

definition RCU_GET_CTR :: "u32 \<Rightarrow> u32 \<Rightarrow> u32" where
  "RCU_GET_CTR ctrl clock = (if clock \<noteq> 0 then RCU_CTRL_TO_CTR_B ctrl else RCU_CTRL_TO_CTR_A ctrl)"

section \<open>Shared state\<close>

record rcu_cb =
  callback :: nat
  callback_arg :: nat
  cb_next :: nat

record rcu =
  rcu_ctrl :: u32
  rcu_reclaim_list :: "u32 \<Rightarrow> nat"
  rcu_cbs :: "nat \<Rightarrow> rcu_cb"
  rcu_sync_lock :: "nat option"

text \<open>\<open>atomic_cmpxchg\<close> on the control word: the new state and whether the exchange took place.\<close>

definition ctrl_cmpxchg :: "rcu \<Rightarrow> u32 \<Rightarrow> u32 \<Rightarrow> rcu \<times> bool" where
  "ctrl_cmpxchg s old new = (if rcu_ctrl s = old then (s\<lparr>rcu_ctrl := new\<rparr>, True) else (s, False))"

datatype lock_user = Reader | Caller nat nat

datatype rcu_pc =
    Idle
  | LockRead lock_user | LockCas lock_user u32
  | Reading u32
  | UnlockRead bool u32 | UnlockCas bool u32 u32
  | CallFill u32 nat nat | CallCas u32 nat nat nat
  | SyncEnter | SyncRead | SyncCas u32 | SyncWait u32 | SyncList u32 | SyncCall u32 nat | SyncClear u32 | SyncExit

datatype rcu_event =
    EvEnter nat | EvLeave nat
  | EvRegister nat nat | EvInvoke nat nat

section \<open>The operations, one atomic access at a time\<close>

text \<open>\<open>rcu_read_lock\<close>. A reader is inside from its successful exchange on; for \<open>rcu_call\<close> the same
  exchange is the point at which the callback counts as registered.\<close>

fun rcu_read_lock :: "nat \<Rightarrow> rcu_pc \<Rightarrow> rcu \<Rightarrow> rcu_pc \<times> rcu \<times> rcu_event list" where
  "rcu_read_lock a (LockRead u) s = (LockCas u (rcu_ctrl s), s, [])"
| "rcu_read_lock a (LockCas u old) s =
     (let selector = RCU_CTRL_TO_CLOCK old;
          (s, ok) = ctrl_cmpxchg s old (old + RCU_CTR_ONE selector)
      in if \<not> ok then (LockRead u, s, [])
         else case u of
           Reader \<Rightarrow> (Reading selector, s, [EvEnter a])
         | Caller cbd fn \<Rightarrow> (CallFill selector cbd fn, s, [EvRegister cbd fn]))"
| "rcu_read_lock a pc s = (pc, s, [])"

text \<open>\<open>rcu_read_unlock\<close>; the flag tells a reader's unlock from the one at the end of \<open>rcu_call\<close>.\<close>

fun rcu_read_unlock :: "nat \<Rightarrow> rcu_pc \<Rightarrow> rcu \<Rightarrow> rcu_pc \<times> rcu \<times> rcu_event list" where
  "rcu_read_unlock a (UnlockRead r sel) s = (UnlockCas r sel (rcu_ctrl s), s, [])"
| "rcu_read_unlock a (UnlockCas r sel old) s =
     (let (s, ok) = ctrl_cmpxchg s old (old - RCU_CTR_ONE sel)
      in if \<not> ok then (UnlockRead r sel, s, []) else (Idle, s, if r then [EvLeave a] else []))"
| "rcu_read_unlock a pc s = (pc, s, [])"

text \<open>The body of \<open>rcu_call\<close> between its lock and its unlock: fill in the block and read the list
  head, then exchange the head for the block.\<close>

fun rcu_call :: "rcu_pc \<Rightarrow> rcu \<Rightarrow> rcu_pc \<times> rcu \<times> rcu_event list" where
  "rcu_call (CallFill sel cbd fn) s =
     (let old = rcu_reclaim_list s sel
      in (CallCas sel cbd fn old,
          s\<lparr>rcu_cbs := (rcu_cbs s)(cbd := \<lparr>callback = fn, callback_arg = cbd, cb_next = old\<rparr>)\<rparr>, []))"
| "rcu_call (CallCas sel cbd fn old) s =
     (if rcu_reclaim_list s sel = old
      then (UnlockRead False sel, s\<lparr>rcu_reclaim_list := (rcu_reclaim_list s)(sel := cbd)\<rparr>, [])
      else (CallFill sel cbd fn, s, []))"
| "rcu_call pc s = (pc, s, [])"

definition rcu_wait_for_readers :: "rcu \<Rightarrow> u32 \<Rightarrow> bool" where
  "rcu_wait_for_readers s old_clock \<longleftrightarrow> RCU_GET_CTR (rcu_ctrl s) old_clock = 0"

text \<open>\<open>rcu_synchronize\<close>. A step that finds the mutex taken, the other counter in use or readers
  left stays where it is: the thread yields and tries again.\<close>

fun rcu_synchronize :: "nat \<Rightarrow> rcu_pc \<Rightarrow> rcu \<Rightarrow> rcu_pc \<times> rcu \<times> rcu_event list" where
  "rcu_synchronize a SyncEnter s =
     (if rcu_sync_lock s = None then (SyncRead, s\<lparr>rcu_sync_lock := Some a\<rparr>, []) else (SyncEnter, s, []))"
| "rcu_synchronize a SyncRead s =
     (let old = rcu_ctrl s; old_clock = RCU_CTRL_TO_CLOCK old
      in if RCU_GET_CTR old (old_clock XOR 1) \<noteq> 0 then (SyncRead, s, []) else (SyncCas old, s, []))"
| "rcu_synchronize a (SyncCas old) s =
     (let (s, ok) = ctrl_cmpxchg s old (old XOR push_bit 30 1)
      in if ok then (SyncWait (RCU_CTRL_TO_CLOCK old), s, []) else (SyncRead, s, []))"
| "rcu_synchronize a (SyncWait oc) s =
     (if rcu_wait_for_readers s oc then (SyncList oc, s, []) else (SyncWait oc, s, []))"
| "rcu_synchronize a (SyncList oc) s =
     (let cbd = rcu_reclaim_list s oc
      in if cbd \<noteq> 0 then (SyncCall oc cbd, s, []) else (SyncClear oc, s, []))"
| "rcu_synchronize a (SyncCall oc cbd) s =
     (let cb = rcu_cbs s cbd; nxt = cb_next cb
      in (if nxt \<noteq> 0 then SyncCall oc nxt else SyncClear oc, s, [EvInvoke (callback cb) (callback_arg cb)]))"
| "rcu_synchronize a (SyncClear oc) s =
     (SyncExit, s\<lparr>rcu_reclaim_list := (rcu_reclaim_list s)(oc := 0)\<rparr>, [])"
| "rcu_synchronize a SyncExit s = (Idle, s\<lparr>rcu_sync_lock := None\<rparr>, [])"
| "rcu_synchronize a pc s = (pc, s, [])"

text \<open>The next access of an activity.\<close>

fun rcu_exec :: "nat \<Rightarrow> rcu_pc \<Rightarrow> rcu \<Rightarrow> rcu_pc \<times> rcu \<times> rcu_event list" where
  "rcu_exec a (LockRead u) s = rcu_read_lock a (LockRead u) s"
| "rcu_exec a (LockCas u old) s = rcu_read_lock a (LockCas u old) s"
| "rcu_exec a (UnlockRead r sel) s = rcu_read_unlock a (UnlockRead r sel) s"
| "rcu_exec a (UnlockCas r sel old) s = rcu_read_unlock a (UnlockCas r sel old) s"
| "rcu_exec a (CallFill sel cbd fn) s = rcu_call (CallFill sel cbd fn) s"
| "rcu_exec a (CallCas sel cbd fn old) s = rcu_call (CallCas sel cbd fn old) s"
| "rcu_exec a pc s = rcu_synchronize a pc s"

section \<open>The system\<close>

record rcu_sys =
  pcs :: "nat \<Rightarrow> rcu_pc"
  shared :: rcu
  log :: "rcu_event list"

text \<open>What the log says, newest event first: whether a reader is inside; whether a registration of a
  block is still to be invoked and with which function; whether a reader that was inside when the
  block was last registered has not left since.\<close>

primrec inside :: "nat \<Rightarrow> rcu_event list \<Rightarrow> bool" where
  "inside a [] \<longleftrightarrow> False"
| "inside a (e # l) \<longleftrightarrow> (case e of EvEnter b \<Rightarrow> b = a \<or> inside a l | EvLeave b \<Rightarrow> b \<noteq> a \<and> inside a l | _ \<Rightarrow> inside a l)"

primrec owed :: "nat \<Rightarrow> rcu_event list \<Rightarrow> nat option" where
  "owed c [] = None"
| "owed c (e # l) =
     (case e of
        EvRegister d fn \<Rightarrow> if d = c then Some fn else owed c l
      | EvInvoke fn d \<Rightarrow> if d = c then None else owed c l
      | _ \<Rightarrow> owed c l)"

primrec waits :: "nat \<Rightarrow> nat \<Rightarrow> rcu_event list \<Rightarrow> bool" where
  "waits a c [] \<longleftrightarrow> False"
| "waits a c (e # l) \<longleftrightarrow>
     (case e of
        EvRegister d fn \<Rightarrow> if d = c then inside a l else waits a c l
      | EvLeave b \<Rightarrow> b \<noteq> a \<and> waits a c l
      | _ \<Rightarrow> waits a c l)"

text \<open>The block an activity is registering.\<close>

fun registering :: "rcu_pc \<Rightarrow> nat option" where
  "registering (LockRead (Caller c fn)) = Some c"
| "registering (LockCas (Caller c fn) old) = Some c"
| "registering (CallFill sel c fn) = Some c"
| "registering (CallCas sel c fn old) = Some c"
| "registering pc = None"

definition block_free :: "rcu_sys \<Rightarrow> nat \<Rightarrow> bool" where
  "block_free S c \<longleftrightarrow> owed c (log S) = None \<and> (\<forall>b. registering (pcs S b) \<noteq> Some c)"

text \<open>Up to \<open>n\<close> activities take steps in any order. A block is handed to \<open>rcu_call\<close> only while it is
  not already registered (the note in \<^verbatim>\<open>rcu.h\<close>); outside that time its owner may overwrite it, as a
  callback that frees it does.\<close>

inductive rcu_step :: "nat \<Rightarrow> rcu_sys \<Rightarrow> rcu_sys \<Rightarrow> bool" for n where
  enter: "a < n \<Longrightarrow> pcs S a = Idle \<Longrightarrow> rcu_step n S (S\<lparr>pcs := (pcs S)(a := LockRead Reader)\<rparr>)"
| leave: "a < n \<Longrightarrow> pcs S a = Reading sel \<Longrightarrow> rcu_step n S (S\<lparr>pcs := (pcs S)(a := UnlockRead True sel)\<rparr>)"
| register: "a < n \<Longrightarrow> pcs S a = Idle \<Longrightarrow> c \<noteq> 0 \<Longrightarrow> block_free S c \<Longrightarrow>
    rcu_step n S (S\<lparr>pcs := (pcs S)(a := LockRead (Caller c fn))\<rparr>)"
| synchronize: "a < n \<Longrightarrow> pcs S a = Idle \<Longrightarrow> rcu_step n S (S\<lparr>pcs := (pcs S)(a := SyncEnter)\<rparr>)"
| overwrite: "block_free S c \<Longrightarrow>
    rcu_step n S (S\<lparr>shared := (shared S)\<lparr>rcu_cbs := (rcu_cbs (shared S))(c := x)\<rparr>\<rparr>)"
| exec: "a < n \<Longrightarrow> rcu_exec a (pcs S a) (shared S) = (pc, s, evs) \<Longrightarrow>
    rcu_step n S (S\<lparr>pcs := (pcs S)(a := pc), shared := s, log := evs @ log S\<rparr>)"

definition rcu_initial :: "rcu_sys \<Rightarrow> bool" where
  "rcu_initial S \<longleftrightarrow> pcs S = (\<lambda>_. Idle) \<and> rcu_ctrl (shared S) = 0 \<and>
     rcu_reclaim_list (shared S) = (\<lambda>_. 0) \<and> rcu_sync_lock (shared S) = None \<and> log S = []"

inductive rcu_reach :: "nat \<Rightarrow> rcu_sys \<Rightarrow> bool" for n where
  init: "rcu_initial S \<Longrightarrow> rcu_reach n S"
| step: "rcu_reach n S \<Longrightarrow> rcu_step n S T \<Longrightarrow> rcu_reach n T"

section \<open>Arithmetic of the control word\<close>

lemma and_7fff: "(x::u32) AND 0x7fff = take_bit 15 x"
proof -
  have "(0x7fff::u32) = mask 15" by (simp add: mask_eq_exp_minus_1)
  then show ?thesis by (simp add: take_bit_eq_mask)
qed

lemma unat_ctr_a: "unat (RCU_CTRL_TO_CTR_A x) = unat x mod 2 ^ 15"
  by (simp add: RCU_CTRL_TO_CTR_A_def and_7fff take_bit_eq_mod unat_mod)

lemma unat_ctr_b: "unat (RCU_CTRL_TO_CTR_B x) = unat x div 2 ^ 15 mod 2 ^ 15"
  by (simp add: RCU_CTRL_TO_CTR_B_def and_7fff take_bit_eq_mod drop_bit_eq_div unat_mod unat_div)

lemma unat_clock: "unat (RCU_CTRL_TO_CLOCK x) = unat x div 2 ^ 30 mod 2"
  by (simp add: RCU_CTRL_TO_CLOCK_def and_one_eq drop_bit_eq_div unat_mod unat_div)

lemma unat_get_ctr: "unat (RCU_GET_CTR x sel) = (if sel \<noteq> 0 then unat x div 2 ^ 15 mod 2 ^ 15 else unat x mod 2 ^ 15)"
  by (simp add: RCU_GET_CTR_def unat_ctr_a unat_ctr_b)

lemma unat_clock': "unat (RCU_CTRL_TO_CLOCK x) = unat x div 2 ^ 15 div 2 ^ 15 mod 2"
  by (simp add: unat_clock div_mult2_eq [symmetric])

lemma clock_01: "RCU_CTRL_TO_CLOCK x = 0 \<or> RCU_CTRL_TO_CLOCK x = 1"
proof -
  have "unat (RCU_CTRL_TO_CLOCK x) < 2" by (simp add: unat_clock)
  then have "unat (RCU_CTRL_TO_CLOCK x) = unat (0::u32) \<or> unat (RCU_CTRL_TO_CLOCK x) = unat (1::u32)"
    by (simp only: unat_0 unat_1) linarith
  then show ?thesis by (simp only: word_unat_eq_iff)
qed

lemma unat_one: "unat (RCU_CTR_ONE sel) = (if sel \<noteq> 0 then 2 ^ 15 else 1)"
  by (simp add: RCU_CTR_ONE_def)

lemma field_suc:
  assumes "n mod k < k - (1::nat)"
  shows "Suc n mod k = Suc (n mod k)" "Suc n div k = n div k"
  using assms by (auto simp: mod_Suc div_Suc)

lemma field_pred:
  assumes "0 < n mod (k::nat)"
  shows "(n - 1) mod k = n mod k - 1" "(n - 1) div k = n div k"
proof -
  obtain m where "n = Suc m" using assms by (cases n) auto
  then show "(n - 1) mod k = n mod k - 1" "(n - 1) div k = n div k"
    using assms by (auto simp: mod_Suc div_Suc split: if_splits)
qed

lemma field_sub:
  assumes "0 < n div (k::nat)" "0 < k"
  shows "(n - k) mod k = n mod k" "(n - k) div k = n div k - 1"
proof -
  have "k \<le> n" using assms by (simp add: div_greater_zero_iff)
  then show "(n - k) mod k = n mod k" "(n - k) div k = n div k - 1"
    by (simp_all add: le_mod_geq le_div_geq assms)
qed

text \<open>Counting a reader in and out changes its counter only, as long as that counter has room.\<close>

lemma ctr_up:
  assumes "unat (RCU_GET_CTR x sel) < 2 ^ 15 - 1"
  shows "unat (RCU_GET_CTR (x + RCU_CTR_ONE sel) t) =
           unat (RCU_GET_CTR x t) + (if (sel \<noteq> 0) = (t \<noteq> 0) then 1 else 0)" (is ?ctr)
    and "RCU_CTRL_TO_CLOCK (x + RCU_CTR_ONE sel) = RCU_CTRL_TO_CLOCK x" (is ?clock)
proof -
  define k n where "k = (2::nat) ^ 15" and "n = unat x"
  have k: "0 < k" by (simp add: k_def)
  have n: "n < k * (k * 4)" using unsigned_less [of x] by (simp add: n_def k_def)
  have ctr: "unat (RCU_GET_CTR y t) = (if t \<noteq> 0 then unat y div k mod k else unat y mod k)"
    and clk: "unat (RCU_CTRL_TO_CLOCK y) = unat y div k div k mod 2" for y t
    by (simp_all add: unat_get_ctr unat_clock' k_def)
  have one: "unat (RCU_CTR_ONE sel) = (if sel \<noteq> 0 then k else 1)" by (simp add: unat_one k_def)
  have add: "unat (x + RCU_CTR_ONE sel) = n + unat (RCU_CTR_ONE sel)" if "n + unat (RCU_CTR_ONE sel) < k * (k * 4)"
    using that by (simp add: unat_word_ariths n_def k_def)
  have "?ctr \<and> unat (RCU_CTRL_TO_CLOCK (x + RCU_CTR_ONE sel)) = unat (RCU_CTRL_TO_CLOCK x)"
  proof (cases "sel = 0")
    case True
    then have a: "n mod k < k - 1" using assms ctr [of x sel] by (simp add: n_def k_def)
    have "Suc n \<noteq> k * (k * 4)" using field_suc(1) [OF a] by auto
    then have s: "unat (x + RCU_CTR_ONE sel) = Suc n"
      using n True add unfolding one by simp
    show ?thesis using True unfolding ctr clk s by (simp add: field_suc [OF a] flip: n_def)
  next
    case False
    then have a: "n div k mod k < k - 1" using assms ctr [of x sel] by (simp add: n_def k_def)
    have "n div k < k * 4" using n by (simp add: less_mult_imp_div_less mult.commute)
    moreover have "Suc (n div k) \<noteq> k * 4" using field_suc(1) [OF a] by auto
    ultimately have "(n + k) div k < k * 4" using k by (simp add: div_add_self2)
    then have "n + k < k * (k * 4)" by (metis div_less_iff_less_mult k mult.commute)
    then have s: "unat (x + RCU_CTR_ONE sel) = n + k"
      using False add unfolding one by simp
    show ?thesis using False k unfolding ctr clk s by (simp add: div_add_self2 field_suc [OF a] flip: n_def)
  qed
  then show ?ctr ?clock by (simp_all only: word_unat_eq_iff [of "RCU_CTRL_TO_CLOCK _"])
qed

lemma ctr_down:
  assumes "0 < unat (RCU_GET_CTR x sel)"
  shows "unat (RCU_GET_CTR (x - RCU_CTR_ONE sel) t) =
           unat (RCU_GET_CTR x t) - (if (sel \<noteq> 0) = (t \<noteq> 0) then 1 else 0)" (is ?ctr)
    and "RCU_CTRL_TO_CLOCK (x - RCU_CTR_ONE sel) = RCU_CTRL_TO_CLOCK x" (is ?clock)
proof -
  define k n where "k = (2::nat) ^ 15" and "n = unat x"
  have k: "0 < k" by (simp add: k_def)
  have ctr: "unat (RCU_GET_CTR y t) = (if t \<noteq> 0 then unat y div k mod k else unat y mod k)"
    and clk: "unat (RCU_CTRL_TO_CLOCK y) = unat y div k div k mod 2" for y t
    by (simp_all add: unat_get_ctr unat_clock' k_def)
  have one: "unat (RCU_CTR_ONE sel) = (if sel \<noteq> 0 then k else 1)" by (simp add: unat_one k_def)
  have sub: "unat (x - RCU_CTR_ONE sel) = n - unat (RCU_CTR_ONE sel)" if "unat (RCU_CTR_ONE sel) \<le> n"
    using that unat_sub [of "RCU_CTR_ONE sel" x] by (simp add: word_le_nat_alt n_def)
  have "?ctr \<and> unat (RCU_CTRL_TO_CLOCK (x - RCU_CTR_ONE sel)) = unat (RCU_CTRL_TO_CLOCK x)"
  proof (cases "sel = 0")
    case True
    then have a: "0 < n mod k" using assms ctr [of x sel] by (simp add: n_def)
    then have "1 \<le> n" by (cases n) auto
    then have s: "unat (x - RCU_CTR_ONE sel) = n - 1"
      using True sub unfolding one by simp
    show ?thesis using True unfolding ctr clk s by (simp add: field_pred [OF a, simplified] flip: n_def)
  next
    case False
    then have a: "0 < n div k mod k" using assms ctr [of x sel] by (simp add: n_def)
    then have q: "0 < n div k" by (cases "n div k") auto
    then have "k \<le> n" by (simp add: div_greater_zero_iff)
    then have s: "unat (x - RCU_CTR_ONE sel) = n - k"
      using False sub unfolding one by simp
    show ?thesis using False unfolding ctr clk s
      by (simp add: field_sub [OF q k] field_pred [OF a, simplified] flip: n_def)
  qed
  then show ?ctr ?clock by (simp_all only: word_unat_eq_iff [of "RCU_CTRL_TO_CLOCK _"])
qed

lemma clock_tick:
  shows "RCU_GET_CTR (x XOR push_bit 30 1) t = RCU_GET_CTR x t"
    and "RCU_CTRL_TO_CLOCK (x XOR push_bit 30 1) = RCU_CTRL_TO_CLOCK x XOR 1"
proof -
  have "RCU_CTRL_TO_CTR_A (x XOR push_bit 30 1) = RCU_CTRL_TO_CTR_A x"
    unfolding RCU_CTRL_TO_CTR_A_def and_7fff by (rule bit_word_eqI) (auto simp: bit_simps)
  moreover have "RCU_CTRL_TO_CTR_B (x XOR push_bit 30 1) = RCU_CTRL_TO_CTR_B x"
    unfolding RCU_CTRL_TO_CTR_B_def and_7fff by (rule bit_word_eqI) (auto simp: bit_simps)
  ultimately show "RCU_GET_CTR (x XOR push_bit 30 1) t = RCU_GET_CTR x t"
    by (simp add: RCU_GET_CTR_def)
  show "RCU_CTRL_TO_CLOCK (x XOR push_bit 30 1) = RCU_CTRL_TO_CLOCK x XOR 1"
    unfolding RCU_CTRL_TO_CLOCK_def by (rule bit_word_eqI) (auto simp: bit_simps)
qed


section \<open>First layer of the invariant: counters and the mutex\<close>

fun holds :: "rcu_pc \<Rightarrow> u32 option" where
  "holds (Reading sel) = Some sel"
| "holds (UnlockRead r sel) = Some sel"
| "holds (UnlockCas r sel old) = Some sel"
| "holds (CallFill sel c fn) = Some sel"
| "holds (CallCas sel c fn old) = Some sel"
| "holds pc = None"

fun syncing :: "rcu_pc \<Rightarrow> bool" where
  "syncing SyncRead \<longleftrightarrow> True"
| "syncing (SyncCas old) \<longleftrightarrow> True"
| "syncing (SyncWait oc) \<longleftrightarrow> True"
| "syncing (SyncList oc) \<longleftrightarrow> True"
| "syncing (SyncCall oc c) \<longleftrightarrow> True"
| "syncing (SyncClear oc) \<longleftrightarrow> True"
| "syncing SyncExit \<longleftrightarrow> True"
| "syncing pc \<longleftrightarrow> False"

definition holders :: "rcu_sys \<Rightarrow> u32 \<Rightarrow> nat set" where
  "holders S sel = {a. holds (pcs S a) = Some sel}"

definition lock_inv :: "nat \<Rightarrow> rcu_sys \<Rightarrow> bool" where
  "lock_inv n S \<longleftrightarrow>
     (\<forall>a \<ge> n. pcs S a = Idle) \<and>
     (\<forall>a sel. holds (pcs S a) = Some sel \<longrightarrow> sel = 0 \<or> sel = 1) \<and>
     (\<forall>sel. sel = 0 \<or> sel = 1 \<longrightarrow> unat (RCU_GET_CTR (rcu_ctrl (shared S)) sel) = card (holders S sel)) \<and>
     (\<forall>a. syncing (pcs S a) \<longleftrightarrow> rcu_sync_lock (shared S) = Some a)"

lemma lock_invI:
  assumes "\<And>a. n \<le> a \<Longrightarrow> pcs S a = Idle"
    and "\<And>a sel. holds (pcs S a) = Some sel \<Longrightarrow> sel = 0 \<or> sel = 1"
    and "\<And>sel. sel = 0 \<or> sel = 1 \<Longrightarrow> unat (RCU_GET_CTR (rcu_ctrl (shared S)) sel) = card (holders S sel)"
    and "\<And>a. syncing (pcs S a) \<longleftrightarrow> rcu_sync_lock (shared S) = Some a"
  shows "lock_inv n S"
  using assms by (simp add: lock_inv_def)

lemma lock_invD:
  assumes "lock_inv n S"
  shows "n \<le> a \<Longrightarrow> pcs S a = Idle"
    and "holds (pcs S a) = Some sel \<Longrightarrow> sel = 0 \<or> sel = 1"
    and "sel = 0 \<or> sel = 1 \<Longrightarrow> unat (RCU_GET_CTR (rcu_ctrl (shared S)) sel) = card (holders S sel)"
    and "syncing (pcs S a) \<longleftrightarrow> rcu_sync_lock (shared S) = Some a"
  using assms unfolding lock_inv_def by blast+

lemma holders_bounded:
  assumes "lock_inv n S"
  shows "holders S sel \<subseteq> {..<n}"
proof
  fix a assume "a \<in> holders S sel"
  then have "pcs S a \<noteq> Idle" by (auto simp: holders_def)
  then show "a \<in> {..<n}" using lock_invD(1) [OF assms, of a] by (meson lessThan_iff not_le)
qed

lemma holders_finite: "lock_inv n S \<Longrightarrow> finite (holders S sel)"
  by (rule finite_subset [OF holders_bounded]) simp_all

abbreviation upd :: "rcu_sys \<Rightarrow> nat \<Rightarrow> rcu_pc \<Rightarrow> rcu \<Rightarrow> rcu_event list \<Rightarrow> rcu_sys" where
  "upd S a pc s l \<equiv> S\<lparr>pcs := (pcs S)(a := pc), shared := s, log := l\<rparr>"

text \<open>A step of one activity changes the set of holders at that activity only.\<close>

lemma holders_upd:
  "holders (upd S a pc s l) sel =
     (if holds pc = Some sel then insert a (holders S sel) else holders S sel - {a})"
  by (auto simp: holders_def)

lemma holders_same:
  assumes "holds pc = holds (pcs S a)"
  shows "(if holds pc = Some sel then insert a (holders S sel) else holders S sel - {a}) = holders S sel"
  using assms by (auto simp: holders_def)

text \<open>The cases of an atomic access that do not touch the control word or the mutex.\<close>

lemma lock_inv_local:
  assumes inv: "lock_inv n S" and a: "a < n"
    and h: "holds pc = holds (pcs S a)" and y: "syncing pc = syncing (pcs S a)"
    and c: "rcu_ctrl s = rcu_ctrl (shared S)" and m: "rcu_sync_lock s = rcu_sync_lock (shared S)"
  shows "lock_inv n (upd S a pc s l)"
proof (rule lock_invI)
  note d = lock_invD [OF inv]
  show "pcs (upd S a pc s l) b = Idle" if "n \<le> b" for b
    using d(1) that a by simp
  show "sel = 0 \<or> sel = 1" if "holds (pcs (upd S a pc s l) b) = Some sel" for b sel
    using d(2) h that by (auto split: if_splits)
  show "unat (RCU_GET_CTR (rcu_ctrl (shared (upd S a pc s l))) sel)
      = card (holders (upd S a pc s l) sel)" if "sel = 0 \<or> sel = 1" for sel
    unfolding holders_upd holders_same [OF h] using d(3) [OF that] c by simp
  show "syncing (pcs (upd S a pc s l) b) \<longleftrightarrow>
      rcu_sync_lock (shared (upd S a pc s l)) = Some b" for b
    using d(4) y m by simp
qed

lemma card_upd:
  assumes "finite A" "a \<notin> A"
  shows "card (insert a A) = card A + 1"
  using assms by simp

lemma lock_inv_enter:
  assumes inv: "lock_inv n S" and a: "a < n" and n: "n < 2 ^ 15" and idle: "holds (pcs S a) = None" "\<not> syncing (pcs S a)"
    and old: "rcu_ctrl (shared S) = old"
    and pc: "holds pc = Some (RCU_CTRL_TO_CLOCK old)" "\<not> syncing pc"
    and s: "s = (shared S)\<lparr>rcu_ctrl := old + RCU_CTR_ONE (RCU_CTRL_TO_CLOCK old)\<rparr>"
  shows "lock_inv n (upd S a pc s l)" "RCU_CTRL_TO_CLOCK (rcu_ctrl s) = RCU_CTRL_TO_CLOCK old"
proof -
  note d = lock_invD [OF inv]
  define c where "c = RCU_CTRL_TO_CLOCK old"
  have c01: "c = 0 \<or> c = 1" unfolding c_def by (rule clock_01)
  have sub: "holders S c \<subseteq> {..<n} - {a}" using holders_bounded [OF inv] idle by (auto simp: holders_def)
  have "card (holders S c) \<le> card ({..<n} - {a})" by (rule card_mono [OF _ sub]) simp
  then have "card (holders S c) < n" using a by simp
  then have room: "unat (RCU_GET_CTR old c) < 2 ^ 15 - 1" using d(3) [OF c01] n old by simp
  show "RCU_CTRL_TO_CLOCK (rcu_ctrl s) = RCU_CTRL_TO_CLOCK old"
    unfolding s using ctr_up(2) [OF room] by (simp add: c_def)
  show "lock_inv n (upd S a pc s l)"
  proof (rule lock_invI)
    show "pcs (upd S a pc s l) b = Idle" if "n \<le> b" for b using d(1) that a by simp
    show "sel = 0 \<or> sel = 1" if "holds (pcs (upd S a pc s l) b) = Some sel" for b sel
      using d(2) pc that c01 by (auto simp: c_def split: if_splits)
    show "unat (RCU_GET_CTR (rcu_ctrl (shared (upd S a pc s l))) sel) = card (holders (upd S a pc s l) sel)"
      if sel: "sel = 0 \<or> sel = 1" for sel
    proof -
      have a': "a \<notin> holders S sel" using idle by (simp add: holders_def)
      have "unat (RCU_GET_CTR (old + RCU_CTR_ONE c) sel) = card (holders S sel) + (if c = sel then 1 else 0)"
        using ctr_up(1) [OF room, of sel] d(3) [OF sel] old sel c01 by (auto split: if_splits)
      then show ?thesis unfolding holders_upd using pc a' holders_finite [OF inv]
        by (simp add: s card_upd flip: c_def)
    qed
    show "syncing (pcs (upd S a pc s l) b) \<longleftrightarrow> rcu_sync_lock (shared (upd S a pc s l)) = Some b" for b
      using d(4) pc idle by (simp add: s)
  qed
qed

lemma lock_inv_leave:
  assumes inv: "lock_inv n S" and a: "a < n" and hold: "holds (pcs S a) = Some sel" "\<not> syncing (pcs S a)"
    and old: "rcu_ctrl (shared S) = old"
    and s: "s = (shared S)\<lparr>rcu_ctrl := old - RCU_CTR_ONE sel\<rparr>"
  shows "lock_inv n (upd S a Idle s l)" "RCU_CTRL_TO_CLOCK (rcu_ctrl s) = RCU_CTRL_TO_CLOCK old"
proof -
  note d = lock_invD [OF inv]
  have c01: "sel = 0 \<or> sel = 1" using d(2) hold by blast
  have a': "a \<in> holders S sel" using hold by (simp add: holders_def)
  then have "0 < card (holders S sel)" using holders_finite [OF inv] card_gt_0_iff by blast
  then have pos: "0 < unat (RCU_GET_CTR old sel)" using d(3) [OF c01] old by simp
  show "RCU_CTRL_TO_CLOCK (rcu_ctrl s) = RCU_CTRL_TO_CLOCK old"
    unfolding s using ctr_down(2) [OF pos] by simp
  show "lock_inv n (upd S a Idle s l)"
  proof (rule lock_invI)
    show "pcs (upd S a Idle s l) b = Idle" if "n \<le> b" for b using d(1) that a by simp
    show "t = 0 \<or> t = 1" if "holds (pcs (upd S a Idle s l) b) = Some t" for b t
      using d(2) that by (auto split: if_splits)
    show "unat (RCU_GET_CTR (rcu_ctrl (shared (upd S a Idle s l))) t) = card (holders (upd S a Idle s l) t)"
      if t: "t = 0 \<or> t = 1" for t
    proof -
      have "a \<in> holders S t \<longleftrightarrow> sel = t" using hold by (auto simp: holders_def)
      moreover have "unat (RCU_GET_CTR (old - RCU_CTR_ONE sel) t) = card (holders S t) - (if sel = t then 1 else 0)"
        using ctr_down(1) [OF pos, of t] d(3) [OF t] old t c01 by (auto split: if_splits)
      ultimately show ?thesis unfolding holders_upd using holders_finite [OF inv] by (simp add: s)
    qed
    show "syncing (pcs (upd S a Idle s l) b) \<longleftrightarrow> rcu_sync_lock (shared (upd S a Idle s l)) = Some b" for b
      using d(4) hold by (simp add: s)
  qed
qed


lemma lock_inv_tick:
  assumes inv: "lock_inv n S" and a: "a < n" and pc: "holds pc = None" "syncing pc"
    and was: "holds (pcs S a) = None" "syncing (pcs S a)"
    and s: "s = (shared S)\<lparr>rcu_ctrl := rcu_ctrl (shared S) XOR push_bit 30 1\<rparr>"
  shows "lock_inv n (upd S a pc s l)"
proof (rule lock_invI)
  note d = lock_invD [OF inv]
  have h: "holds pc = holds (pcs S a)" using pc was by simp
  show "pcs (upd S a pc s l) b = Idle" if "n \<le> b" for b using d(1) that a by simp
  show "t = 0 \<or> t = 1" if "holds (pcs (upd S a pc s l) b) = Some t" for b t
    using d(2) pc that by (auto split: if_splits)
  show "unat (RCU_GET_CTR (rcu_ctrl (shared (upd S a pc s l))) t) = card (holders (upd S a pc s l) t)"
    if "t = 0 \<or> t = 1" for t
    unfolding holders_upd holders_same [OF h] using d(3) [OF that] clock_tick(1) by (simp add: s)
  show "syncing (pcs (upd S a pc s l) b) \<longleftrightarrow> rcu_sync_lock (shared (upd S a pc s l)) = Some b" for b
    using d(4) pc was by (simp add: s)
qed

lemma lock_inv_mutex:
  assumes inv: "lock_inv n S" and a: "a < n" and pc: "holds pc = None" and was: "holds (pcs S a) = None"
    and m: "rcu_sync_lock (shared S) = (if syncing pc then None else Some a)"
    and s: "s = (shared S)\<lparr>rcu_sync_lock := (if syncing pc then Some a else None)\<rparr>"
  shows "lock_inv n (upd S a pc s l)"
proof (rule lock_invI)
  note d = lock_invD [OF inv]
  have h: "holds pc = holds (pcs S a)" using pc was by simp
  show "pcs (upd S a pc s l) b = Idle" if "n \<le> b" for b using d(1) that a by simp
  show "t = 0 \<or> t = 1" if "holds (pcs (upd S a pc s l) b) = Some t" for b t
    using d(2) pc that by (auto split: if_splits)
  show "unat (RCU_GET_CTR (rcu_ctrl (shared (upd S a pc s l))) t) = card (holders (upd S a pc s l) t)"
    if "t = 0 \<or> t = 1" for t
    unfolding holders_upd holders_same [OF h] using d(3) [OF that] by (simp add: s)
  show "syncing (pcs (upd S a pc s l) b) \<longleftrightarrow> rcu_sync_lock (shared (upd S a pc s l)) = Some b" for b
    using d(4) [of b] m by (auto simp: s split: if_splits)
qed

text \<open>The accesses, case by case: what they do to the control word and the mutex.\<close>

datatype access =
    Silent
  | Up | Down u32
  | Tick
  | Acquire | Release

fun access_of :: "rcu_pc \<Rightarrow> rcu \<Rightarrow> access" where
  "access_of (LockCas u old) s = (if rcu_ctrl s = old then Up else Silent)"
| "access_of (UnlockCas r sel old) s = (if rcu_ctrl s = old then Down sel else Silent)"
| "access_of (SyncCas old) s = (if rcu_ctrl s = old then Tick else Silent)"
| "access_of SyncEnter s = (if rcu_sync_lock s = None then Acquire else Silent)"
| "access_of SyncExit s = Release"
| "access_of pc s = Silent"

lemma exec_silent:
  assumes "rcu_exec a pc0 s0 = (pc, s, evs)" and "access_of pc0 s0 = Silent"
  shows "holds pc = holds pc0" and "syncing pc = syncing pc0"
    and "rcu_ctrl s = rcu_ctrl s0" and "rcu_sync_lock s = rcu_sync_lock s0"
  using assms
  by (cases pc0; auto simp: ctrl_cmpxchg_def Let_def split: if_splits lock_user.splits; fail)+

lemma lock_inv_exec:
  assumes inv: "lock_inv n S" and a: "a < n" and n: "n < 2 ^ 15"
    and ex: "rcu_exec a (pcs S a) (shared S) = (pc, s, evs)"
  shows "lock_inv n (upd S a pc s l)"
proof (cases "access_of (pcs S a) (shared S)")
  case Silent
  show ?thesis by (rule lock_inv_local [OF inv a exec_silent [OF ex Silent]])
next
  case Up
  then obtain u old where pc0: "pcs S a = LockCas u old" and old: "rcu_ctrl (shared S) = old"
    by (cases "pcs S a") (auto split: if_splits)
  show ?thesis
  proof (rule lock_inv_enter(1) [OF inv a n _ _ old])
    show "s = (shared S)\<lparr>rcu_ctrl := old + RCU_CTR_ONE (RCU_CTRL_TO_CLOCK old)\<rparr>"
      using ex pc0 old by (auto simp: ctrl_cmpxchg_def Let_def split: lock_user.splits)
  qed (use ex pc0 old in \<open>auto simp: ctrl_cmpxchg_def Let_def split: lock_user.splits\<close>)
next
  case (Down sel)
  then obtain r old where pc0: "pcs S a = UnlockCas r sel old" and old: "rcu_ctrl (shared S) = old"
    by (cases "pcs S a") (auto split: if_splits)
  have "pc = Idle" and s: "s = (shared S)\<lparr>rcu_ctrl := old - RCU_CTR_ONE sel\<rparr>"
    using ex pc0 old by (auto simp: ctrl_cmpxchg_def)
  then show ?thesis using lock_inv_leave(1) [OF inv a _ _ old s] pc0 by simp
next
  case Tick
  then obtain old where pc0: "pcs S a = SyncCas old" and old: "rcu_ctrl (shared S) = old"
    by (cases "pcs S a") (auto split: if_splits)
  show ?thesis by (rule lock_inv_tick [OF inv a]) (use ex pc0 old in \<open>auto simp: ctrl_cmpxchg_def\<close>)
next
  case Acquire
  then have "pcs S a = SyncEnter" "rcu_sync_lock (shared S) = None"
    by (cases "pcs S a"; auto split: if_splits)+
  then show ?thesis using ex by (intro lock_inv_mutex [OF inv a]) auto
next
  case Release
  then have pc0: "pcs S a = SyncExit" by (cases "pcs S a") (auto split: if_splits)
  then have "rcu_sync_lock (shared S) = Some a" using lock_invD(4) [OF inv, of a] by simp
  then show ?thesis using ex pc0 by (intro lock_inv_mutex [OF inv a]) auto
qed

text \<open>Starting an operation is such a local step too.\<close>

lemma lock_inv_start:
  assumes "lock_inv n S" "a < n" "holds pc = holds (pcs S a)" "syncing pc = syncing (pcs S a)"
  shows "lock_inv n (S\<lparr>pcs := (pcs S)(a := pc)\<rparr>)"
  using lock_inv_local [OF assms, of "shared S" "log S"] by simp

lemma lock_inv_step:
  assumes inv: "lock_inv n S" and n: "n < 2 ^ 15" and st: "rcu_step n S T"
  shows "lock_inv n T"
  using st
proof cases
  case (exec a pc s evs)
  then show ?thesis using lock_inv_exec [OF inv _ n] by simp
next
  case (overwrite c x)
  then show ?thesis using inv by (simp add: lock_inv_def holders_def)
qed (use lock_inv_start [OF inv] in simp_all)

lemma rcu_lock_inv:
  assumes "rcu_reach n S" and n: "n < 2 ^ 15"
  shows "lock_inv n S"
  using assms(1)
proof induction
  case (init S)
  then show ?case
    by (auto simp: rcu_initial_def lock_inv_def holders_def RCU_GET_CTR_def RCU_CTRL_TO_CTR_A_def RCU_CTRL_TO_CTR_B_def)
next
  case (step S T)
  then show ?case using lock_inv_step n by blast
qed


section \<open>Second layer: the phases of a synchronisation\<close>

text \<open>The clock value a synchronisation retires, from its tick to the reset of the list; and the
  same once it has seen that counter at zero.\<close>

fun retiring :: "rcu_pc \<Rightarrow> u32 option" where
  "retiring (SyncWait oc) = Some oc"
| "retiring (SyncList oc) = Some oc"
| "retiring (SyncCall oc c) = Some oc"
| "retiring (SyncClear oc) = Some oc"
| "retiring pc = None"

fun drained :: "rcu_pc \<Rightarrow> u32 option" where
  "drained (SyncWait oc) = None"
| "drained pc = retiring pc"

abbreviation clock :: "rcu_sys \<Rightarrow> u32" where
  "clock S \<equiv> RCU_CTRL_TO_CLOCK (rcu_ctrl (shared S))"

definition phase_inv :: "rcu_sys \<Rightarrow> bool" where
  "phase_inv S \<longleftrightarrow>
     (\<forall>a oc. retiring (pcs S a) = Some oc \<longrightarrow> clock S = oc XOR 1) \<and>
     (\<forall>a oc. drained (pcs S a) = Some oc \<longrightarrow> holders S oc = {}) \<and>
     ((\<forall>a. retiring (pcs S a) = None) \<longrightarrow> holders S (clock S XOR 1) = {})"

lemma phase_invD:
  assumes "phase_inv S"
  shows "retiring (pcs S a) = Some oc \<Longrightarrow> clock S = oc XOR 1"
    and "drained (pcs S a) = Some oc \<Longrightarrow> holders S oc = {}"
    and "(\<And>a. retiring (pcs S a) = None) \<Longrightarrow> holders S (clock S XOR 1) = {}"
  using assms unfolding phase_inv_def by blast+

lemma xor_one_twice [simp]: "((x::u32) XOR 1) XOR 1 = x"
  by (simp add: xor.assoc)

lemma xor_one_neq [simp]: "(x::u32) XOR 1 \<noteq> x" "x \<noteq> (x::u32) XOR 1"
proof -
  have "bit (x XOR 1) 0 \<noteq> bit x 0" by (simp add: bit_simps)
  then show "x XOR 1 \<noteq> x" "x \<noteq> x XOR 1" by metis+
qed

lemma xor_one_other: "c = 0 \<or> c = 1 \<Longrightarrow> d = 0 \<or> d = 1 \<Longrightarrow> c \<noteq> d \<Longrightarrow> (c::u32) = d XOR 1"
  by auto

lemma retiring_syncing: "retiring pc = Some oc \<Longrightarrow> syncing pc"
  by (cases pc) auto

lemma drained_retiring: "drained pc = Some oc \<Longrightarrow> retiring pc = Some oc"
  by (cases pc) auto

lemma one_retiring:
  assumes "lock_inv n S" "syncing (pcs S a)" "retiring (pcs S b) = Some oc"
  shows "a = b"
  using lock_invD(4) [OF assms(1), of a] lock_invD(4) [OF assms(1), of b] assms(2,3) retiring_syncing by fastforce

lemma exec_phase:
  assumes "rcu_exec a pc0 s0 = (pc, s, evs)" and "access_of pc0 s0 \<noteq> Tick"
  shows "retiring pc = retiring pc0 \<and> drained pc = drained pc0 \<or>
         (\<exists>oc. pc0 = SyncWait oc \<and> pc = SyncList oc \<and> RCU_GET_CTR (rcu_ctrl s0) oc = 0) \<or>
         (\<exists>oc. pc0 = SyncClear oc \<and> pc = SyncExit)"
  using assms
  by (cases pc0; auto simp: ctrl_cmpxchg_def Let_def rcu_wait_for_readers_def split: if_splits lock_user.splits)

text \<open>Holders come only with the current clock value, and the clock changes only at a tick.\<close>

lemma exec_holders:
  assumes inv: "lock_inv n S" and a: "a < n" and n: "n < 2 ^ 15"
    and ex: "rcu_exec a (pcs S a) (shared S) = (pc, s, evs)" and nt: "access_of (pcs S a) (shared S) \<noteq> Tick"
  shows "RCU_CTRL_TO_CLOCK (rcu_ctrl s) = clock S"
    and "holders (upd S a pc s l) sel \<subseteq> (if sel = clock S then insert a (holders S sel) else holders S sel)"
proof -
  have "RCU_CTRL_TO_CLOCK (rcu_ctrl s) = clock S \<and> (holds pc = holds (pcs S a) \<or> holds pc = Some (clock S) \<or> holds pc = None)"
  proof (cases "access_of (pcs S a) (shared S)")
    case Silent
    show ?thesis using exec_silent [OF ex Silent] by simp
  next
    case Up
    then obtain u old where pc0: "pcs S a = LockCas u old" and old: "rcu_ctrl (shared S) = old"
      by (cases "pcs S a") (auto split: if_splits)
    have "holds pc = Some (RCU_CTRL_TO_CLOCK old)" "\<not> syncing pc"
      and s: "s = (shared S)\<lparr>rcu_ctrl := old + RCU_CTR_ONE (RCU_CTRL_TO_CLOCK old)\<rparr>"
      using ex pc0 old by (auto simp: ctrl_cmpxchg_def Let_def split: lock_user.splits)
    then show ?thesis using lock_inv_enter(2) [OF inv a n _ _ old _ _ s, of pc] pc0 old by simp
  next
    case (Down t)
    then obtain r old where pc0: "pcs S a = UnlockCas r t old" and old: "rcu_ctrl (shared S) = old"
      by (cases "pcs S a") (auto split: if_splits)
    have "pc = Idle" and s: "s = (shared S)\<lparr>rcu_ctrl := old - RCU_CTR_ONE t\<rparr>"
      using ex pc0 old by (auto simp: ctrl_cmpxchg_def)
    then show ?thesis using lock_inv_leave(2) [OF inv a _ _ old s] pc0 old by simp
  qed (use ex nt in \<open>cases "pcs S a"; auto split: if_splits\<close>)+
  then show "RCU_CTRL_TO_CLOCK (rcu_ctrl s) = clock S"
    and "holders (upd S a pc s l) sel \<subseteq> (if sel = clock S then insert a (holders S sel) else holders S sel)"
    unfolding holders_upd by (auto simp: holders_def)
qed

lemma phase_inv_exec:
  assumes inv: "lock_inv n S" and ph: "phase_inv S" and a: "a < n" and n: "n < 2 ^ 15"
    and ex: "rcu_exec a (pcs S a) (shared S) = (pc, s, evs)"
  shows "phase_inv (upd S a pc s l)"
proof (cases "access_of (pcs S a) (shared S) = Tick")
  case True
  then obtain old where pc0: "pcs S a = SyncCas old" and old: "rcu_ctrl (shared S) = old"
    by (cases "pcs S a") (auto split: if_splits)
  have pc: "pc = SyncWait (clock S)" and s: "RCU_CTRL_TO_CLOCK (rcu_ctrl s) = clock S XOR 1"
    using ex pc0 old clock_tick(2) by (auto simp: ctrl_cmpxchg_def)
  have "retiring (pcs S b) = None" if "b \<noteq> a" for b
    using one_retiring [OF inv, of a b] that pc0 by (cases "retiring (pcs S b)") auto
  moreover then have "drained (pcs S b) = None" if "b \<noteq> a" for b
    using that drained_retiring by (metis option.exhaust)
  ultimately show ?thesis unfolding phase_inv_def using pc s by (auto split: if_splits)
next
  case False
  note d = phase_invD [OF ph] and h = exec_holders(1) [OF inv a n ex False] exec_holders(2) [OF inv a n ex False, where l = l]
  have other: "drained (pcs S b) = Some oc \<Longrightarrow> oc \<noteq> clock S" for b oc
    using d(1) [of b oc] drained_retiring by fastforce
  have shrink: "holders (upd S a pc s l) oc = {}" if "holders S oc = {}" "oc \<noteq> clock S" for oc
    using h(2) [of oc] that by auto
  from exec_phase [OF ex False] consider
      (same) "retiring pc = retiring (pcs S a)" "drained pc = drained (pcs S a)"
    | (wait) oc where "pcs S a = SyncWait oc" "pc = SyncList oc" "RCU_GET_CTR (rcu_ctrl (shared S)) oc = 0"
    | (clear) oc where "pcs S a = SyncClear oc" "pc = SyncExit" by blast
  then show ?thesis
  proof cases
    case same
    have r: "retiring (pcs (upd S a pc s l) b) = retiring (pcs S b)" "drained (pcs (upd S a pc s l) b) = drained (pcs S b)" for b
      using same by simp_all
    show ?thesis unfolding phase_inv_def r using d other shrink h(1) by simp
  next
    case wait
    have c: "clock S = oc XOR 1" using d(1) [of a oc] wait by simp
    have "oc = clock S XOR 1" using c by simp
    then have "oc = 0 \<or> oc = 1" using clock_01 [of "rcu_ctrl (shared S)"] by auto
    then have e: "holders S oc = {}"
      using lock_invD(3) [OF inv, of oc] holders_finite [OF inv, of oc] wait by simp
    have "retiring (pcs (upd S a pc s l) b) = retiring (pcs S b)" for b using wait by simp
    moreover have "drained (pcs (upd S a pc s l) b) = (if b = a then Some oc else drained (pcs S b))" for b
      using wait by simp
    ultimately show ?thesis unfolding phase_inv_def
      using d other shrink h(1) e c by (auto split: if_splits)
  next
    case clear
    have c: "clock S = oc XOR 1" and e: "holders S oc = {}" using d(1,2) [of a oc] clear by simp_all
    have "retiring (pcs S b) = None" if "b \<noteq> a" for b
      using one_retiring [OF inv, of a b] that clear by (cases "retiring (pcs S b)") auto
    moreover then have "drained (pcs S b) = None" if "b \<noteq> a" for b
      using that drained_retiring by (metis option.exhaust)
    ultimately show ?thesis unfolding phase_inv_def
      using clear h(1) c shrink [OF e] by (auto split: if_splits)
  qed
qed

lemma phase_inv_start:
  assumes "phase_inv S" "holds pc = holds (pcs S a)" "retiring pc = retiring (pcs S a)" "drained pc = drained (pcs S a)"
  shows "phase_inv (S\<lparr>pcs := (pcs S)(a := pc)\<rparr>)"
proof -
  have "holders (S\<lparr>pcs := (pcs S)(a := pc)\<rparr>) sel = holders S sel" for sel
    using assms(2) by (auto simp: holders_def)
  moreover have "retiring (pcs (S\<lparr>pcs := (pcs S)(a := pc)\<rparr>) b) = retiring (pcs S b)"
    "drained (pcs (S\<lparr>pcs := (pcs S)(a := pc)\<rparr>) b) = drained (pcs S b)" for b
    using assms(3,4) by simp_all
  ultimately show ?thesis using assms(1) unfolding phase_inv_def by simp
qed

lemma rcu_phase_inv:
  assumes "rcu_reach n S" and n: "n < 2 ^ 15"
  shows "phase_inv S"
  using assms(1)
proof induction
  case (init S)
  then show ?case by (auto simp: rcu_initial_def phase_inv_def holders_def)
next
  case (step S T)
  from step.hyps(2) show ?case
  proof cases
    case (exec a pc s evs)
    then show ?thesis using phase_inv_exec [OF rcu_lock_inv [OF step.hyps(1) n] step.IH _ n] by simp
  next
    case (overwrite c x)
    then show ?thesis using step.IH by (simp add: phase_inv_def holders_def)
  qed (use phase_inv_start [OF step.IH] in simp_all)
qed


section \<open>Third layer: the callbacks\<close>

primrec cb_chain :: "(nat \<Rightarrow> rcu_cb) \<Rightarrow> nat \<Rightarrow> nat list \<Rightarrow> bool" where
  "cb_chain m p [] \<longleftrightarrow> p = 0"
| "cb_chain m p (x # xs) \<longleftrightarrow> p = x \<and> x \<noteq> 0 \<and> cb_chain m (cb_next (m x)) xs"

lemma cb_chain_upd [simp]: "x \<notin> set xs \<Longrightarrow> cb_chain (m(x := v)) p xs = cb_chain m p xs"
  by (induction xs arbitrary: p) auto

lemma cb_chain_nonzero: "cb_chain m p xs \<Longrightarrow> 0 \<notin> set xs"
  by (induction xs arbitrary: p) auto

lemma cb_chain_Nil: "cb_chain m 0 xs \<longleftrightarrow> xs = []"
  by (cases xs) auto

text \<open>Where the callbacks still to be invoked start: at the list head, or at the cursor of the
  synchronisation that is working through that list.\<close>

fun cursor :: "rcu_pc \<Rightarrow> u32 \<Rightarrow> nat \<Rightarrow> nat" where
  "cursor (SyncCall oc c) sel h = (if oc = sel then c else h)"
| "cursor (SyncClear oc) sel h = (if oc = sel then 0 else h)"
| "cursor pc sel h = h"

definition reclaim_head :: "rcu_sys \<Rightarrow> u32 \<Rightarrow> nat" where
  "reclaim_head S sel =
     (case rcu_sync_lock (shared S) of
        None \<Rightarrow> rcu_reclaim_list (shared S) sel
      | Some a \<Rightarrow> cursor (pcs S a) sel (rcu_reclaim_list (shared S) sel))"

fun in_call :: "rcu_pc \<Rightarrow> (u32 \<times> nat \<times> nat) option" where
  "in_call (CallFill sel c fn) = Some (sel, c, fn)"
| "in_call (CallCas sel c fn old) = Some (sel, c, fn)"
| "in_call pc = None"

fun reader_in :: "rcu_pc \<Rightarrow> bool" where
  "reader_in (Reading sel) \<longleftrightarrow> True"
| "reader_in (UnlockRead r sel) \<longleftrightarrow> r"
| "reader_in (UnlockCas r sel old) \<longleftrightarrow> r"
| "reader_in pc \<longleftrightarrow> False"

definition queued :: "(u32 \<Rightarrow> nat list) \<Rightarrow> rcu_sys \<Rightarrow> u32 \<Rightarrow> nat \<Rightarrow> nat \<Rightarrow> bool" where
  "queued Q S sel c fn \<longleftrightarrow>
     c \<in> set (Q sel) \<and> fn = callback (rcu_cbs (shared S) c) \<or> (\<exists>b. in_call (pcs S b) = Some (sel, c, fn))"

primrec log_ok :: "rcu_event list \<Rightarrow> bool" where
  "log_ok [] \<longleftrightarrow> True"
| "log_ok (e # l) \<longleftrightarrow> log_ok l \<and>
     (case e of EvInvoke fn c \<Rightarrow> owed c l = Some fn \<and> (\<forall>a. \<not> waits a c l) | _ \<Rightarrow> True)"

definition chain_inv :: "(u32 \<Rightarrow> nat list) \<Rightarrow> rcu_sys \<Rightarrow> bool" where
  "chain_inv Q S \<longleftrightarrow>
     (\<forall>sel. sel = 0 \<or> sel = 1 \<longrightarrow> cb_chain (rcu_cbs (shared S)) (reclaim_head S sel) (Q sel)) \<and>
     distinct (Q 0 @ Q 1) \<and>
     ((\<forall>a. retiring (pcs S a) = None) \<longrightarrow> Q (clock S XOR 1) = [])"

definition reg_inv :: "(u32 \<Rightarrow> nat list) \<Rightarrow> rcu_sys \<Rightarrow> bool" where
  "reg_inv Q S \<longleftrightarrow>
     (\<forall>b sel c fn. in_call (pcs S b) = Some (sel, c, fn) \<longrightarrow> c \<notin> set (Q 0) \<and> c \<notin> set (Q 1)) \<and>
     (\<forall>b c. registering (pcs S b) = Some c \<longrightarrow> c \<noteq> 0) \<and>
     (\<forall>a b c. registering (pcs S a) = Some c \<longrightarrow> registering (pcs S b) = Some c \<longrightarrow> a = b) \<and>
     (\<forall>b c. registering (pcs S b) = Some c \<longrightarrow> in_call (pcs S b) = None \<longrightarrow> owed c (log S) = None) \<and>
     (\<forall>b sel c fn old. pcs S b = CallCas sel c fn old \<longrightarrow>
        rcu_cbs (shared S) c = \<lparr>callback = fn, callback_arg = c, cb_next = old\<rparr>) \<and>
     (\<forall>c. c \<in> set (Q 0) \<or> c \<in> set (Q 1) \<longrightarrow> callback_arg (rcu_cbs (shared S) c) = c) \<and>
     (\<forall>c fn. owed c (log S) = Some fn \<longleftrightarrow> queued Q S 0 c fn \<or> queued Q S 1 c fn)"

definition wait_inv :: "(u32 \<Rightarrow> nat list) \<Rightarrow> rcu_sys \<Rightarrow> bool" where
  "wait_inv Q S \<longleftrightarrow>
     (\<forall>a. inside a (log S) \<longleftrightarrow> reader_in (pcs S a)) \<and>
     (\<forall>sel c fn a. sel = 0 \<or> sel = 1 \<longrightarrow> queued Q S sel c fn \<longrightarrow> waits a c (log S) \<longrightarrow>
        holds (pcs S a) = Some sel \<or> clock S = sel \<and> holds (pcs S a) = Some (sel XOR 1)) \<and>
     log_ok (log S)"

definition queue_inv :: "(u32 \<Rightarrow> nat list) \<Rightarrow> rcu_sys \<Rightarrow> bool" where
  "queue_inv Q S \<longleftrightarrow> chain_inv Q S \<and> reg_inv Q S \<and> wait_inv Q S"

lemma chain_invD:
  assumes "chain_inv Q S"
  shows "sel = 0 \<or> sel = 1 \<Longrightarrow> cb_chain (rcu_cbs (shared S)) (reclaim_head S sel) (Q sel)"
    and "distinct (Q 0)" "distinct (Q 1)" "c \<in> set (Q 0) \<Longrightarrow> c \<notin> set (Q 1)"
    and "(\<And>a. retiring (pcs S a) = None) \<Longrightarrow> Q (clock S XOR 1) = []"
  using assms unfolding chain_inv_def by (blast, simp, simp, auto)

lemma reg_invD:
  assumes "reg_inv Q S"
  shows "in_call (pcs S b) = Some (sel, c, fn) \<Longrightarrow> c \<notin> set (Q 0) \<and> c \<notin> set (Q 1)"
    and "registering (pcs S b) = Some c \<Longrightarrow> c \<noteq> 0"
    and "registering (pcs S a) = Some c \<Longrightarrow> registering (pcs S b) = Some c \<Longrightarrow> a = b"
    and "registering (pcs S b) = Some c \<Longrightarrow> in_call (pcs S b) = None \<Longrightarrow> owed c (log S) = None"
    and "pcs S b = CallCas sel c fn old \<Longrightarrow>
        rcu_cbs (shared S) c = \<lparr>callback = fn, callback_arg = c, cb_next = old\<rparr>"
    and "c \<in> set (Q 0) \<or> c \<in> set (Q 1) \<Longrightarrow> callback_arg (rcu_cbs (shared S) c) = c"
    and "owed c (log S) = Some fn \<longleftrightarrow> queued Q S 0 c fn \<or> queued Q S 1 c fn"
  using assms unfolding reg_inv_def by blast+

lemma wait_invD:
  assumes "wait_inv Q S"
  shows "inside a (log S) \<longleftrightarrow> reader_in (pcs S a)"
    and "sel = 0 \<or> sel = 1 \<Longrightarrow> queued Q S sel c fn \<Longrightarrow> waits a c (log S) \<Longrightarrow>
        holds (pcs S a) = Some sel \<or> clock S = sel \<and> holds (pcs S a) = Some (sel XOR 1)"
    and "log_ok (log S)"
  using assms unfolding wait_inv_def by blast+

lemma chain_invI:
  assumes "\<And>sel. sel = 0 \<or> sel = 1 \<Longrightarrow> cb_chain (rcu_cbs (shared S)) (reclaim_head S sel) (Q sel)"
    and "distinct (Q 0 @ Q 1)"
    and "(\<And>a. retiring (pcs S a) = None) \<Longrightarrow> Q (clock S XOR 1) = []"
  shows "chain_inv Q S"
  unfolding chain_inv_def using assms by blast

lemma reg_invI:
  assumes "\<And>b sel c fn. in_call (pcs S b) = Some (sel, c, fn) \<Longrightarrow> c \<notin> set (Q 0) \<and> c \<notin> set (Q 1)"
    and "\<And>b c. registering (pcs S b) = Some c \<Longrightarrow> c \<noteq> 0"
    and "\<And>a b c. registering (pcs S a) = Some c \<Longrightarrow> registering (pcs S b) = Some c \<Longrightarrow> a = b"
    and "\<And>b c. registering (pcs S b) = Some c \<Longrightarrow> in_call (pcs S b) = None \<Longrightarrow> owed c (log S) = None"
    and "\<And>b sel c fn old. pcs S b = CallCas sel c fn old \<Longrightarrow>
        rcu_cbs (shared S) c = \<lparr>callback = fn, callback_arg = c, cb_next = old\<rparr>"
    and "\<And>c. c \<in> set (Q 0) \<or> c \<in> set (Q 1) \<Longrightarrow> callback_arg (rcu_cbs (shared S) c) = c"
    and "\<And>c fn. owed c (log S) = Some fn \<longleftrightarrow> queued Q S 0 c fn \<or> queued Q S 1 c fn"
  shows "reg_inv Q S"
  unfolding reg_inv_def using assms by simp

lemma wait_invI:
  assumes "\<And>a. inside a (log S) \<longleftrightarrow> reader_in (pcs S a)"
    and "\<And>sel c fn a. sel = 0 \<or> sel = 1 \<Longrightarrow> queued Q S sel c fn \<Longrightarrow> waits a c (log S) \<Longrightarrow>
        holds (pcs S a) = Some sel \<or> clock S = sel \<and> holds (pcs S a) = Some (sel XOR 1)"
    and "log_ok (log S)"
  shows "wait_inv Q S"
  unfolding wait_inv_def using assms by simp

lemma waits_inside: "waits a c l \<Longrightarrow> inside a l"
  by (induction l) (auto split: rcu_event.splits if_splits)

lemma in_call_registering: "in_call pc = Some (sel, c, fn) \<Longrightarrow> registering pc = Some c"
  by (cases pc) auto

lemma in_call_holds: "in_call pc = Some (sel, c, fn) \<Longrightarrow> holds pc = Some sel"
  by (cases pc) auto

text \<open>A step that keeps the role of its activity, the blocks, the log and the clock.\<close>

lemma queue_inv_local:
  assumes inv: "queue_inv Q S"
    and role: "in_call pc = in_call (pcs S a)" "registering pc = registering (pcs S a)"
      "reader_in pc = reader_in (pcs S a)" "holds pc = holds (pcs S a)"
    and cas: "\<And>sel c fn old. pc \<noteq> CallCas sel c fn old"
    and same: "rcu_cbs s = rcu_cbs (shared S)" "RCU_CTRL_TO_CLOCK (rcu_ctrl s) = clock S"
    and head: "\<And>sel. reclaim_head (upd S a pc s (log S)) sel = reclaim_head S sel"
    and idle: "(\<And>b. retiring (((pcs S)(a := pc)) b) = None) \<Longrightarrow> Q (clock S XOR 1) = []"
  shows "queue_inv Q (upd S a pc s (log S))"
proof -
  define T where "T = upd S a pc s (log S)"
  have T: "in_call (pcs T b) = in_call (pcs S b)" "registering (pcs T b) = registering (pcs S b)"
    "reader_in (pcs T b) = reader_in (pcs S b)" "holds (pcs T b) = holds (pcs S b)"
    "log T = log S" "rcu_cbs (shared T) = rcu_cbs (shared S)" "clock T = clock S" for b
    using role same by (simp_all add: T_def)
  have q: "queued Q T sel c fn = queued Q S sel c fn" for sel c fn by (simp add: queued_def T)
  have "chain_inv Q T"
    using inv head idle unfolding chain_inv_def queue_inv_def T by (simp add: T_def)
  moreover have "pcs S b = CallCas sel c fn old" if "pcs T b = CallCas sel c fn old" for b sel c fn old
    using that cas by (auto simp: T_def split: if_splits)
  then have "reg_inv Q T"
    using reg_invD [of Q S] inv by (intro reg_invI) (simp_all add: T q queue_inv_def, metis)
  moreover have "wait_inv Q T" using inv unfolding wait_inv_def queue_inv_def T q by blast
  ultimately show ?thesis by (simp add: queue_inv_def T_def)
qed


text \<open>A reader enters. It holds nothing before, so nothing waits for it.\<close>

lemma queue_inv_enter:
  assumes inv: "queue_inv Q S" and none: "holds (pcs S a) = None" "registering (pcs S a) = None" "\<not> syncing (pcs S a)"
    and lk: "lock_inv n S"
    and same: "rcu_cbs s = rcu_cbs (shared S)" "RCU_CTRL_TO_CLOCK (rcu_ctrl s) = clock S"
      "rcu_reclaim_list s = rcu_reclaim_list (shared S)" "rcu_sync_lock s = rcu_sync_lock (shared S)"
  shows "queue_inv Q (upd S a (Reading (clock S)) s (EvEnter a # log S))"
proof -
  define T where "T = upd S a (Reading (clock S)) s (EvEnter a # log S)"
  note w = wait_invD [of Q S] and r = reg_invD [of Q S]
  have ne: "rcu_sync_lock (shared S) \<noteq> Some a" using lock_invD(4) [OF lk, of a] none by simp
  have nc: "in_call (pcs S a) = None" using none by (cases "pcs S a") auto
  have nr: "retiring (pcs S a) = None" using none retiring_syncing by (cases "retiring (pcs S a)") auto
  have T: "in_call (pcs T b) = in_call (pcs S b)" "registering (pcs T b) = registering (pcs S b)"
    "retiring (pcs T b) = retiring (pcs S b)"
    "owed c (log T) = owed c (log S)" "rcu_cbs (shared T) = rcu_cbs (shared S)" "clock T = clock S" for b c
    using none nc nr same by (simp_all add: T_def)
  have q: "queued Q T sel c fn = queued Q S sel c fn" for sel c fn by (simp add: queued_def T)
  have h: "reclaim_head T sel = reclaim_head S sel" for sel
    using same ne by (auto simp: reclaim_head_def T_def split: option.splits)
  have "chain_inv Q T" using inv unfolding chain_inv_def queue_inv_def T h by blast
  moreover have "pcs S b = CallCas sel c fn old" if "pcs T b = CallCas sel c fn old" for b sel c fn old
    using that by (auto simp: T_def split: if_splits)
  then have "reg_inv Q T"
    using r inv by (intro reg_invI) (simp_all add: T q queue_inv_def, metis)
  moreover have "wait_inv Q T"
  proof (rule wait_invI)
    show "inside b (log T) = reader_in (pcs T b)" for b using w(1) inv by (auto simp: T_def queue_inv_def)
    show "log_ok (log T)" using w(3) inv by (simp add: T_def queue_inv_def)
    fix sel c fn b assume *: "sel = 0 \<or> sel = 1" "queued Q T sel c fn" "waits b c (log T)"
    then have *: "holds (pcs S b) = Some sel \<or> clock S = sel \<and> holds (pcs S b) = Some (sel XOR 1)"
      using w(2) [of sel c fn b] inv by (simp add: q queue_inv_def) (simp add: T_def)
    then have "b \<noteq> a" using none by auto
    then show "holds (pcs T b) = Some sel \<or> clock T = sel \<and> holds (pcs T b) = Some (sel XOR 1)"
      using * T(6) by (simp add: T_def)
  qed
  ultimately show ?thesis by (simp add: queue_inv_def T_def)
qed


text \<open>An activity drops its hold: a reader leaves, or a registration has been entered in the list.\<close>

lemma queue_inv_leave:
  assumes inv: "queue_inv Q S" and pc0: "pcs S a = UnlockCas r sel old" and lk: "lock_inv n S"
    and same: "rcu_cbs s = rcu_cbs (shared S)" "RCU_CTRL_TO_CLOCK (rcu_ctrl s) = clock S"
      "rcu_reclaim_list s = rcu_reclaim_list (shared S)" "rcu_sync_lock s = rcu_sync_lock (shared S)"
  shows "queue_inv Q (upd S a Idle s ((if r then [EvLeave a] else []) @ log S))"
proof -
  define T where "T = upd S a Idle s ((if r then [EvLeave a] else []) @ log S)"
  note w = wait_invD [of Q S] and rg = reg_invD [of Q S]
  have ne: "rcu_sync_lock (shared S) \<noteq> Some a" using lock_invD(4) [OF lk, of a] pc0 by simp
  have T: "in_call (pcs T b) = in_call (pcs S b)" "registering (pcs T b) = registering (pcs S b)"
    "retiring (pcs T b) = retiring (pcs S b)"
    "owed c (log T) = owed c (log S)" "rcu_cbs (shared T) = rcu_cbs (shared S)" "clock T = clock S" for b c
    using pc0 same by (simp_all add: T_def)
  have q: "queued Q T sel c fn = queued Q S sel c fn" for sel c fn by (simp add: queued_def T)
  have h: "reclaim_head T sel = reclaim_head S sel" for sel
    using same ne by (auto simp: reclaim_head_def T_def split: option.splits)
  have "chain_inv Q T" using inv unfolding chain_inv_def queue_inv_def T h by blast
  moreover have "pcs S b = CallCas sel c fn old" if "pcs T b = CallCas sel c fn old" for b sel c fn old
    using that by (auto simp: T_def split: if_splits)
  then have "reg_inv Q T"
    using rg inv by (intro reg_invI) (simp_all add: T q queue_inv_def, metis)
  moreover have "wait_inv Q T"
  proof (rule wait_invI)
    have in': "inside a (log S) = r" using w(1) [of a] inv pc0 by (simp add: queue_inv_def)
    show "inside b (log T) = reader_in (pcs T b)" for b
      using w(1) [of b] inv in' by (auto simp: T_def queue_inv_def)
    show "log_ok (log T)" using w(3) inv by (simp add: T_def queue_inv_def)
    fix sel c fn b assume *: "sel = 0 \<or> sel = 1" "queued Q T sel c fn" "waits b c (log T)"
    have "b \<noteq> a" using *(3) in' waits_inside [of b c "log S"] by (auto simp: T_def split: if_splits)
    moreover have "holds (pcs S b) = Some sel \<or> clock S = sel \<and> holds (pcs S b) = Some (sel XOR 1)"
      using w(2) [of sel c fn b] inv * by (simp add: q queue_inv_def) (simp add: T_def split: if_splits)
    ultimately show "holds (pcs T b) = Some sel \<or> clock T = sel \<and> holds (pcs T b) = Some (sel XOR 1)"
      using T(6) by (simp add: T_def)
  qed
  ultimately show ?thesis by (simp add: queue_inv_def T_def)
qed

lemma ex_some_upd:
  assumes "f a = None"
  shows "(\<exists>b. (if b = a then Some y else f b) = Some x) \<longleftrightarrow> (\<exists>b. f b = Some x) \<or> x = y"
  using assms by (metis option.distinct(1) option.inject)

lemma ex_none_upd:
  assumes "f a = Some y" and "\<And>b. f b = Some y \<Longrightarrow> b = a"
  shows "(\<exists>b. (if b = a then None else f b) = Some x) \<longleftrightarrow> (\<exists>b. f b = Some x) \<and> x \<noteq> y"
  using assms by (metis option.distinct(1) option.inject)

text \<open>A registration takes its lock. The readers inside at this moment hold the current clock value
  or, if a synchronisation is still waiting for them, the other one.\<close>

lemma queue_inv_register:
  assumes inv: "queue_inv Q S" and pc0: "pcs S a = LockCas (Caller c fn) old" and lk: "lock_inv n S"
    and same: "rcu_cbs s = rcu_cbs (shared S)" "RCU_CTRL_TO_CLOCK (rcu_ctrl s) = clock S"
      "rcu_reclaim_list s = rcu_reclaim_list (shared S)" "rcu_sync_lock s = rcu_sync_lock (shared S)"
  shows "queue_inv Q (upd S a (CallFill (clock S) c fn) s (EvRegister c fn # log S))"
proof -
  define T where "T = upd S a (CallFill (clock S) c fn) s (EvRegister c fn # log S)"
  have w: "wait_inv Q S" and r: "reg_inv Q S" and ch: "chain_inv Q S" using inv by (simp_all add: queue_inv_def)
  note rg = reg_invD [OF r]
  have ne: "rcu_sync_lock (shared S) \<noteq> Some a" using lock_invD(4) [OF lk, of a] pc0 by simp
  have no: "owed c (log S) = None" using rg(4) [of a c] pc0 by simp
  have nq: "\<not> queued Q S 0 c f" "\<not> queued Q S 1 c f" for f using rg(7) [of c f] no by auto
  then have nQ: "c \<notin> set (Q 0)" "c \<notin> set (Q 1)" by (auto simp: queued_def)
  have c01: "clock S = 0 \<or> clock S = 1" by (rule clock_01)
  have T: "registering (pcs T b) = registering (pcs S b)" "retiring (pcs T b) = retiring (pcs S b)"
    "rcu_cbs (shared T) = rcu_cbs (shared S)" "clock T = clock S" for b
    using pc0 same by (simp_all add: T_def)
  have lg: "log T = EvRegister c fn # log S" by (simp add: T_def)
  have ic: "in_call (pcs T b) = (if b = a then Some (clock S, c, fn) else in_call (pcs S b))" for b by (simp add: T_def)
  have q: "queued Q T sel d f \<longleftrightarrow> queued Q S sel d f \<or> (sel = clock S \<and> d = c \<and> f = fn)" for sel d f
    unfolding queued_def ic T
    using ex_some_upd [of "\<lambda>b. in_call (pcs S b)" a "(clock S, c, fn)" "(sel, d, f)"] pc0 by auto
  have h: "reclaim_head T sel = reclaim_head S sel" for sel
    using same ne by (auto simp: reclaim_head_def T_def split: option.splits)
  have "chain_inv Q T" using ch unfolding chain_inv_def T h by blast
  moreover have cas: "pcs S b = CallCas sel c fn old" if "pcs T b = CallCas sel c fn old" for b sel c fn old
    using that by (auto simp: T_def split: if_splits)
  have "reg_inv Q T"
  proof (rule reg_invI)
    show "d \<notin> set (Q 0) \<and> d \<notin> set (Q 1)" if "in_call (pcs T b) = Some (sel, d, f)" for b sel d f
      using that rg(1) nQ by (auto simp: ic split: if_splits)
    show "d \<noteq> 0" if "registering (pcs T b) = Some d" for b d using that rg(2) by (simp add: T)
    show "b = b'" if "registering (pcs T b) = Some d" "registering (pcs T b') = Some d" for b b' d
      using that rg(3) by (simp add: T)
    show "owed d (log T) = None" if "registering (pcs T b) = Some d" "in_call (pcs T b) = None" for b d
    proof -
      have "b \<noteq> a" using that by (auto simp: ic)
      moreover then have "d \<noteq> c" using that(1) rg(3) [of a c b] pc0 by (auto simp: T)
      ultimately show ?thesis using that rg(4) [of b d] by (simp add: T_def split: if_splits)
    qed
    show "rcu_cbs (shared T) d = \<lparr>callback = f, callback_arg = d, cb_next = old\<rparr>"
      if "pcs T b = CallCas sel d f old" for b sel d f old using rg(5) [OF cas [OF that]] by (simp add: T)
    show "callback_arg (rcu_cbs (shared T) d) = d" if "d \<in> set (Q 0) \<or> d \<in> set (Q 1)" for d
      using rg(6) [OF that] by (simp add: T)
    show "owed d (log T) = Some f \<longleftrightarrow> queued Q T 0 d f \<or> queued Q T 1 d f" for d f
      using rg(7) [of d f] nq c01 unfolding q lg by auto
  qed
  moreover have "wait_inv Q T"
  proof (rule wait_invI)
    show "inside b (log T) = reader_in (pcs T b)" for b using wait_invD(1) [OF w, of b] pc0 by (auto simp: T_def)
    show "log_ok (log T)" using wait_invD(3) [OF w] by (simp add: T_def)
    fix sel d f b assume *: "sel = 0 \<or> sel = 1" "queued Q T sel d f" "waits b d (log T)"
    have ba: "b \<noteq> a"
      using *(3) waits_inside [of b d "log T"] wait_invD(1) [OF w, of a] pc0 by (auto simp: T_def)
    show "holds (pcs T b) = Some sel \<or> clock T = sel \<and> holds (pcs T b) = Some (sel XOR 1)"
    proof (cases "d = c")
      case True
      then have "sel = clock S" using *(1,2) nq by (auto simp: q)
      moreover have "reader_in (pcs S b)" using *(3) True wait_invD(1) [OF w, of b] by (simp add: T_def)
      then obtain t where t: "holds (pcs S b) = Some t" by (cases "pcs S b") auto
      ultimately show ?thesis
        using lock_invD(2) [OF lk t] c01 xor_one_other [of t "clock S"] ba T(4) by (auto simp: T_def)
    next
      case False
      then show ?thesis using wait_invD(2) [OF w *(1), of d f b] *(2,3) ba T(4) by (simp add: q) (simp add: T_def)
    qed
  qed
  ultimately show ?thesis by (simp add: queue_inv_def T_def)
qed


text \<open>A registration fills in its block, which no list contains yet.\<close>

lemma queue_inv_fill:
  assumes inv: "queue_inv Q S" and pc0: "pcs S a = CallFill sel c fn" and lk: "lock_inv n S"
    and s: "s = (shared S)\<lparr>rcu_cbs := (rcu_cbs (shared S))(c := \<lparr>callback = fn, callback_arg = c, cb_next = old\<rparr>)\<rparr>"
  shows "queue_inv Q (upd S a (CallCas sel c fn old) s (log S))"
proof -
  define T where "T = upd S a (CallCas sel c fn old) s (log S)"
  have w: "wait_inv Q S" and r: "reg_inv Q S" and ch: "chain_inv Q S" using inv by (simp_all add: queue_inv_def)
  note rg = reg_invD [OF r]
  have ne: "rcu_sync_lock (shared S) \<noteq> Some a" using lock_invD(4) [OF lk, of a] pc0 by simp
  have nQ: "c \<notin> set (Q 0)" "c \<notin> set (Q 1)" using rg(1) [of a sel c fn] pc0 by simp_all
  have T: "in_call (pcs T b) = in_call (pcs S b)" "registering (pcs T b) = registering (pcs S b)"
    "retiring (pcs T b) = retiring (pcs S b)" "reader_in (pcs T b) = reader_in (pcs S b)"
    "holds (pcs T b) = holds (pcs S b)" "log T = log S" "clock T = clock S" for b
    using pc0 by (simp_all add: T_def s)
  have m: "rcu_cbs (shared T) d = (if d = c then \<lparr>callback = fn, callback_arg = c, cb_next = old\<rparr> else rcu_cbs (shared S) d)" for d
    by (simp add: T_def s)
  have q: "queued Q T t d f \<longleftrightarrow> queued Q S t d f" if "t = 0 \<or> t = 1" for t d f
    using nQ that by (auto simp: queued_def T m)
  have h: "reclaim_head T t = reclaim_head S t" for t
    using ne by (auto simp: reclaim_head_def T_def s split: option.splits)
  have "cb_chain (rcu_cbs (shared T)) p (Q t) = cb_chain (rcu_cbs (shared S)) p (Q t)" if "t = 0 \<or> t = 1" for p t
    using nQ that by (auto simp: T_def s)
  then have "chain_inv Q T" using ch unfolding chain_inv_def T h by simp
  moreover have "reg_inv Q T"
  proof (rule reg_invI)
    show "rcu_cbs (shared T) d = \<lparr>callback = f, callback_arg = d, cb_next = old'\<rparr>"
      if *: "pcs T b = CallCas t d f old'" for b t d f old'
    proof (cases "b = a")
      case True
      then show ?thesis using * by (simp add: m) (simp add: T_def)
    next
      case False
      then have p: "pcs S b = CallCas t d f old'" using * by (simp add: T_def)
      then have "d \<noteq> c" using False rg(3) [of a c b] pc0 by auto
      then show ?thesis using rg(5) [OF p] by (simp add: m)
    qed
    show "callback_arg (rcu_cbs (shared T) d) = d" if "d \<in> set (Q 0) \<or> d \<in> set (Q 1)" for d
      using rg(6) [OF that] by (simp add: m)
    show "owed d (log T) = Some f \<longleftrightarrow> queued Q T 0 d f \<or> queued Q T 1 d f" for d f
      using rg(7) [of d f] by (simp add: q T)
  qed (use rg in \<open>simp_all add: T\<close>)
  moreover have "wait_inv Q T" using w unfolding wait_inv_def T using q by (simp add: T)
  ultimately show ?thesis by (simp add: queue_inv_def T_def)
qed

text \<open>A registration exchanges the list head for its block. It still holds its clock value, so no
  synchronisation has started on that list.\<close>

lemma queue_inv_push:
  assumes inv: "queue_inv Q S" and pc0: "pcs S a = CallCas sel c fn old" and lk: "lock_inv n S" and ph: "phase_inv S"
    and old: "rcu_reclaim_list (shared S) sel = old"
    and s: "s = (shared S)\<lparr>rcu_reclaim_list := (rcu_reclaim_list (shared S))(sel := c)\<rparr>"
  shows "queue_inv (Q(sel := c # Q sel)) (upd S a (UnlockRead False sel) s (log S))"
proof -
  define T where "T = upd S a (UnlockRead False sel) s (log S)"
  define R where "R = Q(sel := c # Q sel)"
  have w: "wait_inv Q S" and r: "reg_inv Q S" and ch: "chain_inv Q S" using inv by (simp_all add: queue_inv_def)
  note rg = reg_invD [OF r] and cd = chain_invD [OF ch]
  have ne: "rcu_sync_lock (shared S) \<noteq> Some a" using lock_invD(4) [OF lk, of a] pc0 by simp
  have ic0: "in_call (pcs S a) = Some (sel, c, fn)" using pc0 by simp
  have nQ: "c \<notin> set (Q 0)" "c \<notin> set (Q 1)" using rg(1) [OF ic0] by simp_all
  have hold: "a \<in> holders S sel" using pc0 by (simp add: holders_def)
  have sel01: "sel = 0 \<or> sel = 1" using lock_invD(2) [OF lk, of a sel] pc0 by simp
  have c0: "c \<noteq> 0" using rg(2) [of a c] pc0 by simp
  have blk: "rcu_cbs (shared S) c = \<lparr>callback = fn, callback_arg = c, cb_next = old\<rparr>" using rg(5) [OF pc0] .
  have only: "in_call (pcs S b) = Some (sel, c, fn) \<Longrightarrow> b = a" for b
    using rg(3) [of a c b] in_call_registering [of "pcs S b"] pc0 by auto
  have T: "retiring (pcs T b) = retiring (pcs S b)" "reader_in (pcs T b) = reader_in (pcs S b)"
    "holds (pcs T b) = holds (pcs S b)" "log T = log S" "clock T = clock S" "rcu_cbs (shared T) = rcu_cbs (shared S)" for b
    using pc0 by (simp_all add: T_def s)
  have reg: "registering (pcs T b) = (if b = a then None else registering (pcs S b))" for b by (simp add: T_def)
  have ic: "in_call (pcs T b) = (if b = a then None else in_call (pcs S b))" for b by (simp add: T_def)
  have q: "queued R T t d f \<longleftrightarrow> queued Q S t d f" for t d f
    unfolding queued_def ic T using ex_none_upd [of "\<lambda>b. in_call (pcs S b)" a "(sel, c, fn)" "(t, d, f)", OF ic0 only]
    using blk ic0 by (auto simp: R_def)
  have cur: "cursor (pcs S b) sel x = x" if "rcu_sync_lock (shared S) = Some b" for b x
    using phase_invD(2) [OF ph, of b sel] hold by (cases "pcs S b") auto
  have h: "reclaim_head T t = (if t = sel then c else reclaim_head S t)" for t
  proof (cases "rcu_sync_lock (shared S)")
    case (Some b)
    then have "b \<noteq> a" using ne by auto
    have "cursor (pcs S b) t x = cursor (pcs S b) t y" if "t = sel" "x = y" for x y using that by simp
    then show ?thesis using Some \<open>b \<noteq> a\<close> cur [OF Some] by (auto simp: reclaim_head_def T_def s)
  qed (simp add: reclaim_head_def T_def s)
  have hs: "reclaim_head S sel = old"
    using old cur by (auto simp: reclaim_head_def split: option.splits)
  have "chain_inv R T"
    unfolding chain_inv_def
  proof (intro conjI allI impI)
    fix t :: u32 assume t: "t = 0 \<or> t = 1"
    show "cb_chain (rcu_cbs (shared T)) (reclaim_head T t) (R t)"
      using cd(1) [OF t] c0 blk hs by (auto simp: h T R_def)
  next
    show "distinct (R 0 @ R 1)" using cd(2,3,4) nQ sel01 by (auto simp: R_def)
  next
    assume "\<forall>b. retiring (pcs T b) = None"
    then have n: "\<And>b. retiring (pcs S b) = None" by (simp add: T)
    have "clock S XOR 1 \<noteq> sel" using phase_invD(3) [OF ph n] hold by auto
    then show "R (clock T XOR 1) = []" using cd(5) [OF n] T(5) by (simp add: R_def)
  qed
  moreover have "reg_inv R T"
  proof (rule reg_invI)
    show "d \<notin> set (R 0) \<and> d \<notin> set (R 1)" if "in_call (pcs T b) = Some (t, d, f)" for b t d f
    proof -
      have "b \<noteq> a" and b: "in_call (pcs S b) = Some (t, d, f)" using that by (auto simp: ic split: if_splits)
      then have "d \<noteq> c" using rg(3) [of a c b] in_call_registering [OF b] pc0 by auto
      then show ?thesis using rg(1) [OF b] by (auto simp: R_def)
    qed
    show "d \<noteq> 0" if "registering (pcs T b) = Some d" for b d using that rg(2) by (auto simp: reg split: if_splits)
    show "b = b'" if "registering (pcs T b) = Some d" "registering (pcs T b') = Some d" for b b' d
      using that rg(3) [of b d b'] by (auto simp: reg split: if_splits)
    show "owed d (log T) = None" if "registering (pcs T b) = Some d" "in_call (pcs T b) = None" for b d
      using that rg(4) [of b d] by (auto simp: reg ic T split: if_splits)
    show "rcu_cbs (shared T) d = \<lparr>callback = f, callback_arg = d, cb_next = old'\<rparr>"
      if "pcs T b = CallCas t d f old'" for b t d f old'
      using that rg(5) [of b t d f old'] by (auto simp: T(6)) (auto simp: T_def split: if_splits)
    show "callback_arg (rcu_cbs (shared T) d) = d" if "d \<in> set (R 0) \<or> d \<in> set (R 1)" for d
      using that rg(6) [of d] blk by (auto simp: T R_def split: if_splits)
    show "owed d (log T) = Some f \<longleftrightarrow> queued R T 0 d f \<or> queued R T 1 d f" for d f
      using rg(7) [of d f] by (simp add: q T)
  qed
  moreover have "wait_inv R T" using w unfolding wait_inv_def T q by simp
  ultimately show ?thesis by (simp add: queue_inv_def T_def R_def)
qed


text \<open>The tick. Nobody holds the other clock value then, so what waits for a block of the list
  being retired holds the value of that list.\<close>

lemma queue_inv_tick:
  assumes inv: "queue_inv Q S" and pc0: "pcs S a = SyncCas old" and lk: "lock_inv n S" and ph: "phase_inv S"
    and same: "rcu_cbs s = rcu_cbs (shared S)" "rcu_reclaim_list s = rcu_reclaim_list (shared S)"
      "rcu_sync_lock s = rcu_sync_lock (shared S)"
    and tick: "RCU_CTRL_TO_CLOCK (rcu_ctrl s) = clock S XOR 1"
  shows "queue_inv Q (upd S a (SyncWait (clock S)) s (log S))"
proof -
  define T where "T = upd S a (SyncWait (clock S)) s (log S)"
  have w: "wait_inv Q S" and r: "reg_inv Q S" and ch: "chain_inv Q S" using inv by (simp_all add: queue_inv_def)
  have own: "rcu_sync_lock (shared S) = Some a" using lock_invD(4) [OF lk, of a] pc0 by simp
  have "retiring (pcs S b) = None" for b
    using one_retiring [OF lk, of a b] pc0 by (cases "retiring (pcs S b)") auto
  then have none: "holders S (clock S XOR 1) = {}" by (rule phase_invD(3) [OF ph])
  have T: "in_call (pcs T b) = in_call (pcs S b)" "registering (pcs T b) = registering (pcs S b)"
    "reader_in (pcs T b) = reader_in (pcs S b)" "holds (pcs T b) = holds (pcs S b)"
    "log T = log S" "rcu_cbs (shared T) = rcu_cbs (shared S)" for b
    using pc0 same by (simp_all add: T_def)
  have q: "queued Q T sel c fn = queued Q S sel c fn" for sel c fn by (simp add: queued_def T)
  have h: "reclaim_head T t = reclaim_head S t" for t
    using same own pc0 by (simp add: reclaim_head_def T_def)
  have ret: "retiring (pcs T a) = Some (clock S)" by (simp add: T_def)
  have "chain_inv Q T"
  proof (rule chain_invI)
    show "Q (clock T XOR 1) = []" if "\<And>b. retiring (pcs T b) = None" using that [of a] ret by simp
  qed (use chain_invD [OF ch] in \<open>auto simp: T h\<close>)
  moreover have "pcs S b = CallCas sel c fn old" if "pcs T b = CallCas sel c fn old" for b sel c fn old
    using that by (auto simp: T_def split: if_splits)
  then have "reg_inv Q T"
    using reg_invD [OF r] by (intro reg_invI) (simp_all add: T q, metis)
  moreover have "wait_inv Q T"
  proof (rule wait_invI)
    fix sel c fn b assume *: "sel = 0 \<or> sel = 1" "queued Q T sel c fn" "waits b c (log T)"
    have "holds (pcs S b) \<noteq> Some (clock S XOR 1)" using none by (auto simp: holders_def)
    moreover have "holds (pcs S b) = Some sel \<or> clock S = sel \<and> holds (pcs S b) = Some (sel XOR 1)"
      using wait_invD(2) [OF w *(1), of c fn b] *(2,3) unfolding q T by blast
    ultimately have "holds (pcs T b) = Some sel" unfolding T by blast
    then show "holds (pcs T b) = Some sel \<or> clock T = sel \<and> holds (pcs T b) = Some (sel XOR 1)" ..
  qed (use wait_invD(1,3) [OF w] in \<open>simp_all add: T\<close>)
  ultimately show ?thesis by (simp add: queue_inv_def T_def)
qed

text \<open>A callback is invoked: it is the first of those left, and nothing waits for it any more.\<close>

lemma queue_inv_invoke:
  assumes inv: "queue_inv Q S" and pc0: "pcs S a = SyncCall oc c" and lk: "lock_inv n S" and ph: "phase_inv S"
    and c0: "c \<noteq> 0" and c': "cb_next (rcu_cbs (shared S) c) = c'"
    and pc: "pc = (if c' \<noteq> 0 then SyncCall oc c' else SyncClear oc)"
  shows "queue_inv (Q(oc := tl (Q oc))) (upd S a pc (shared S)
    (EvInvoke (callback (rcu_cbs (shared S) c)) (callback_arg (rcu_cbs (shared S) c)) # log S))"
proof -
  define fn where "fn = callback (rcu_cbs (shared S) c)"
  have w: "wait_inv Q S" and r: "reg_inv Q S" and ch: "chain_inv Q S" using inv by (simp_all add: queue_inv_def)
  note rg = reg_invD [OF r] and cd = chain_invD [OF ch]
  have own: "rcu_sync_lock (shared S) = Some a" using lock_invD(4) [OF lk, of a] pc0 by simp
  have clk: "clock S = oc XOR 1" using phase_invD(1) [OF ph, of a oc] pc0 by simp
  then have "oc = clock S XOR 1" by simp
  then have oc01: "oc = 0 \<or> oc = 1" using clock_01 [of "rcu_ctrl (shared S)"] by auto
  have none: "holders S oc = {}" using phase_invD(2) [OF ph, of a oc] pc0 by simp
  have hd: "reclaim_head S oc = c" using own pc0 by (simp add: reclaim_head_def)
  obtain rest where Q: "Q oc = c # rest" and rest: "cb_chain (rcu_cbs (shared S)) c' rest"
    using cd(1) [OF oc01] hd c0 c' by (cases "Q oc") auto
  have cin: "c \<in> set (Q 0) \<or> c \<in> set (Q 1)" using Q oc01 by auto
  have arg: "callback_arg (rcu_cbs (shared S) c) = c" using rg(6) [OF cin] .
  define T where "T = upd S a pc (shared S) (EvInvoke fn c # log S)"
  define R where "R = Q(oc := rest)"
  have role: "in_call pc = None" "registering pc = None" "\<not> reader_in pc" "holds pc = None" "retiring pc = Some oc"
    using pc by auto
  have T: "in_call (pcs T b) = in_call (pcs S b)" "registering (pcs T b) = registering (pcs S b)"
    "reader_in (pcs T b) = reader_in (pcs S b)" "holds (pcs T b) = holds (pcs S b)"
    "log T = EvInvoke fn c # log S" "rcu_cbs (shared T) = rcu_cbs (shared S)" "clock T = clock S" for b
    using pc0 role by (simp_all add: T_def)
  have nic: "in_call (pcs S b) \<noteq> Some (t, c, f)" for b t f using rg(1) [of b t c f] cin by blast
  have uniq: "queued Q S t d f \<and> d = c \<longleftrightarrow> d = c \<and> t = oc \<and> f = fn" if "t = 0 \<or> t = 1" for t d f
  proof -
    have "c \<in> set (Q t) \<longleftrightarrow> t = oc" using Q cd(4) [of c] that oc01 by auto
    then show ?thesis using nic by (auto simp: queued_def fn_def)
  qed
  have "c \<notin> set rest" using cd(2,3) Q oc01 by auto
  then have q: "queued R T t d f \<longleftrightarrow> queued Q S t d f \<and> d \<noteq> c" if "t = 0 \<or> t = 1" for t d f
    using uniq [OF that, of d f] Q nic by (auto simp: queued_def T R_def)
  have h: "reclaim_head T t = (if t = oc then c' else reclaim_head S t)" for t
    using own pc0 pc by (simp add: reclaim_head_def T_def)
  have ret: "retiring (pcs T a) = Some oc" by (simp add: T_def role)
  have "chain_inv R T"
  proof (rule chain_invI)
    show "cb_chain (rcu_cbs (shared T)) (reclaim_head T t) (R t)" if t: "t = 0 \<or> t = 1" for t
      using cd(1) [OF t] rest by (simp add: h T R_def)
    show "distinct (R 0 @ R 1)" using cd(2,3,4) Q oc01 by (auto simp: R_def)
    show "R (clock T XOR 1) = []" if "\<And>b. retiring (pcs T b) = None" using that [of a] ret by simp
  qed
  moreover have "reg_inv R T"
  proof (rule reg_invI)
    have sub: "d \<in> set (R t) \<Longrightarrow> d \<in> set (Q t)" for d t using Q by (auto simp: R_def split: if_splits)
    show "d \<notin> set (R 0) \<and> d \<notin> set (R 1)" if "in_call (pcs T b) = Some (t, d, f)" for b t d f
      using rg(1) [of b t d f] that sub by (auto simp: T(1))
    show "callback_arg (rcu_cbs (shared T) d) = d" if "d \<in> set (R 0) \<or> d \<in> set (R 1)" for d
      using rg(6) [of d] that sub by (auto simp: T)
    show "rcu_cbs (shared T) d = \<lparr>callback = f, callback_arg = d, cb_next = old'\<rparr>"
      if "pcs T b = CallCas t d f old'" for b t d f old'
      using that rg(5) [of b t d f old'] pc by (auto simp: T(6)) (auto simp: T_def split: if_splits)
    show "owed d (log T) = None" if "registering (pcs T b) = Some d" "in_call (pcs T b) = None" for b d
      using that rg(4) [of b d] by (simp add: T)
    show "owed d (log T) = Some f \<longleftrightarrow> queued R T 0 d f \<or> queued R T 1 d f" for d f
      using rg(7) [of d f] by (auto simp: q T)
  qed (use rg(2,3) in \<open>simp_all add: T\<close>)
  moreover have "wait_inv R T"
  proof (rule wait_invI)
    have "\<not> waits b c (log S)" for b
    proof
      assume *: "waits b c (log S)"
      have "queued Q S oc c fn" using uniq [OF oc01, of c fn] by simp
      then have "holds (pcs S b) = Some oc" using wait_invD(2) [OF w oc01 _ *] clk by auto
      then show False using none by (auto simp: holders_def)
    qed
    moreover have "owed c (log S) = Some fn" using rg(7) [of c fn] uniq [of oc c fn] oc01 by auto
    ultimately show "log_ok (log T)" using wait_invD(3) [OF w] by (simp add: T)
    fix sel d f b assume *: "sel = 0 \<or> sel = 1" "queued R T sel d f" "waits b d (log T)"
    then show "holds (pcs T b) = Some sel \<or> clock T = sel \<and> holds (pcs T b) = Some (sel XOR 1)"
      using wait_invD(2) [OF w *(1), of d f b] q [OF *(1), of d f] by (simp add: T)
  qed (use wait_invD(1) [OF w] in \<open>simp add: T\<close>)
  ultimately show ?thesis using Q by (simp add: queue_inv_def T_def R_def fn_def arg)
qed


section \<open>The invariant of every reachable state\<close>

lemma exec_cursor: "rcu_exec a pc0 s0 = (SyncCall oc c, s, evs) \<Longrightarrow> c \<noteq> 0"
  by (cases pc0) (auto simp: ctrl_cmpxchg_def Let_def split: if_splits lock_user.splits)

lemma rcu_cursor:
  assumes "rcu_reach n S" "pcs S a = SyncCall oc c"
  shows "c \<noteq> 0"
  using assms
proof (induction arbitrary: a)
  case (init S)
  then show ?case by (simp add: rcu_initial_def)
next
  case (step S T)
  from step.hyps(2) show ?case
  proof cases
    case (exec b pc s evs)
    then show ?thesis using step.prems step.IH exec_cursor by (auto split: if_splits)
  qed (use step.prems step.IH in \<open>auto split: if_splits\<close>)
qed

lemma head_same:
  assumes "rcu_reclaim_list s = rcu_reclaim_list (shared S)" "rcu_sync_lock s = rcu_sync_lock (shared S)"
    and "cursor pc = cursor (pcs S a)"
  shows "reclaim_head (upd S a pc s l) sel = reclaim_head S sel"
  using assms by (auto simp: reclaim_head_def split: option.splits)

text \<open>A silent step of an activity that is not synchronising.\<close>

lemma queue_inv_quiet:
  assumes inv: "queue_inv Q S"
    and role: "in_call pc = in_call (pcs S a)" "registering pc = registering (pcs S a)"
      "reader_in pc = reader_in (pcs S a)" "holds pc = holds (pcs S a)" "retiring pc = retiring (pcs S a)"
      "cursor pc = cursor (pcs S a)"
    and cas: "\<And>sel c fn old. pc \<noteq> CallCas sel c fn old"
  shows "queue_inv Q (upd S a pc (shared S) (log S))"
proof (rule queue_inv_local [OF inv role(1-4) cas])
  show "Q (clock S XOR 1) = []" if "\<And>b. retiring (((pcs S)(a := pc)) b) = None"
  proof -
    have "retiring (pcs S b) = None" for b using that [of b] role(5) by (auto split: if_splits)
    then show ?thesis using chain_invD(5) [of Q S] inv by (simp add: queue_inv_def)
  qed
  show "reclaim_head (upd S a pc (shared S) (log S)) sel = reclaim_head S sel" for sel
    by (rule head_same [OF refl refl role(6)])
qed simp_all

lemma queue_inv_exec:
  assumes inv: "queue_inv Q S" and lk: "lock_inv n S" and ph: "phase_inv S" and a: "a < n" and n: "n < 2 ^ 15"
    and c0: "\<And>oc c. pcs S a = SyncCall oc c \<Longrightarrow> c \<noteq> 0"
    and ex: "rcu_exec a (pcs S a) (shared S) = (pc, s, evs)"
  shows "\<exists>R. queue_inv R (upd S a pc s (evs @ log S))"
proof -
  have quiet: ?thesis if "s = shared S" "evs = []" "in_call pc = in_call (pcs S a)" "registering pc = registering (pcs S a)"
      "reader_in pc = reader_in (pcs S a)" "holds pc = holds (pcs S a)" "retiring pc = retiring (pcs S a)"
      "cursor pc = cursor (pcs S a)" "\<And>sel c fn old. pc \<noteq> CallCas sel c fn old"
    using queue_inv_quiet [OF inv that(3-9)] that(1,2) by auto
  have clk: "RCU_CTRL_TO_CLOCK (rcu_ctrl s) = clock S" if "access_of (pcs S a) (shared S) \<noteq> Tick"
    using exec_holders(1) [OF lk a n ex that] .
  have ret: "Q (clock S XOR 1) = []" if "\<And>b. retiring (pcs S b) = None"
    using chain_invD(5) [of Q S] inv that by (simp add: queue_inv_def)
  have cur: "cursor pc0 = cursor pc1" if "\<And>sel h. cursor pc0 sel h = cursor pc1 sel h" for pc0 pc1
    using that by blast
  show ?thesis
  proof (cases "pcs S a")
    case (LockCas u old)
    show ?thesis
    proof (cases "rcu_ctrl (shared S) = old")
      case True
      have s: "s = (shared S)\<lparr>rcu_ctrl := old + RCU_CTR_ONE (clock S)\<rparr>"
        using ex LockCas True by (auto simp: ctrl_cmpxchg_def Let_def split: lock_user.splits)
      have clk': "RCU_CTRL_TO_CLOCK (rcu_ctrl s) = clock S" using clk LockCas True by simp
      show ?thesis
      proof (cases u)
        case Reader
        then have "pc = Reading (clock S)" "evs = [EvEnter a]"
          using ex LockCas True by (auto simp: ctrl_cmpxchg_def Let_def)
        then show ?thesis using queue_inv_enter [OF inv _ _ _ lk _ clk', of a] LockCas Reader s by auto
      next
        case (Caller c fn)
        then have "pc = CallFill (clock S) c fn" "evs = [EvRegister c fn]"
          using ex LockCas True by (auto simp: ctrl_cmpxchg_def Let_def)
        then show ?thesis using queue_inv_register [OF inv _ lk _ clk', of a c fn old] LockCas Caller s by auto
      qed
    next
      case False
      then show ?thesis using ex LockCas by (intro quiet cur; cases u) (auto simp: ctrl_cmpxchg_def Let_def)
    qed
  next
    case (UnlockCas r sel old)
    show ?thesis
    proof (cases "rcu_ctrl (shared S) = old")
      case True
      have s: "s = (shared S)\<lparr>rcu_ctrl := old - RCU_CTR_ONE sel\<rparr>" "pc = Idle" "evs = (if r then [EvLeave a] else [])"
        using ex UnlockCas True by (auto simp: ctrl_cmpxchg_def)
      have clk': "RCU_CTRL_TO_CLOCK (rcu_ctrl s) = clock S" using clk UnlockCas True by simp
      show ?thesis using queue_inv_leave [OF inv UnlockCas lk _ clk'] s by auto
    next
      case False
      then show ?thesis using ex UnlockCas by (intro quiet cur) (auto simp: ctrl_cmpxchg_def Let_def)
    qed
  next
    case (CallFill sel c fn)
    then show ?thesis using ex queue_inv_fill [OF inv CallFill lk refl] by (auto simp: Let_def)
  next
    case (CallCas sel c fn old)
    show ?thesis
    proof (cases "rcu_reclaim_list (shared S) sel = old")
      case True
      then show ?thesis using ex CallCas queue_inv_push [OF inv CallCas lk ph True refl] by auto
    next
      case False
      then show ?thesis using ex CallCas by (intro quiet cur) auto
    qed
  next
    case (SyncCas old)
    show ?thesis
    proof (cases "rcu_ctrl (shared S) = old")
      case True
      have s: "s = (shared S)\<lparr>rcu_ctrl := old XOR push_bit 30 1\<rparr>" "pc = SyncWait (clock S)" "evs = []"
        using ex SyncCas True by (auto simp: ctrl_cmpxchg_def)
      have "RCU_CTRL_TO_CLOCK (rcu_ctrl s) = clock S XOR 1" using clock_tick(2) [of old] s True by simp
      then show ?thesis using queue_inv_tick [OF inv SyncCas lk ph, of s] s by auto
    next
      case False
      then show ?thesis using ex SyncCas by (intro quiet cur) (auto simp: ctrl_cmpxchg_def Let_def)
    qed
  next
    case (SyncCall oc c)
    then show ?thesis using ex queue_inv_invoke [OF inv SyncCall lk ph c0 [OF SyncCall] refl refl]
      by (auto simp: Let_def)
  next
    case SyncEnter
    show ?thesis
    proof (cases "rcu_sync_lock (shared S) = None")
      case True
      then have s: "s = (shared S)\<lparr>rcu_sync_lock := Some a\<rparr>" "pc = SyncRead" "evs = []" using ex SyncEnter by auto
      have "retiring (pcs S b) = None" for b
        using lock_invD(4) [OF lk, of b] True retiring_syncing by (cases "retiring (pcs S b)") auto
      then have "queue_inv Q (upd S a pc s (log S))"
        using SyncEnter ret True by (intro queue_inv_local [OF inv]) (auto simp: s reclaim_head_def)
      then show ?thesis using s by auto
    next
      case False
      then show ?thesis using ex SyncEnter by (intro quiet cur) auto
    qed
  next
    case (SyncList oc)
    then have own: "rcu_sync_lock (shared S) = Some a" using lock_invD(4) [OF lk, of a] by simp
    have s: "s = shared S" "evs = []" "retiring pc = Some oc"
      and pc: "pc = (if rcu_reclaim_list (shared S) oc \<noteq> 0 then SyncCall oc (rcu_reclaim_list (shared S) oc) else SyncClear oc)"
      using ex SyncList by (auto simp: Let_def split: if_splits)
    have "queue_inv Q (upd S a pc s (log S))"
    proof (rule queue_inv_local [OF inv])
      show "Q (clock S XOR 1) = []" if "\<And>b. retiring (((pcs S)(a := pc)) b) = None" using that [of a] s by simp
      show "reclaim_head (upd S a pc s (log S)) sel = reclaim_head S sel" for sel
        using own SyncList pc s by (simp add: reclaim_head_def)
    qed (use SyncList pc s in auto)
    then show ?thesis using s by auto
  next
    case (SyncClear oc)
    then have own: "rcu_sync_lock (shared S) = Some a" using lock_invD(4) [OF lk, of a] by simp
    have s: "s = (shared S)\<lparr>rcu_reclaim_list := (rcu_reclaim_list (shared S))(oc := 0)\<rparr>" "pc = SyncExit" "evs = []"
      using ex SyncClear by auto
    have oc: "oc = clock S XOR 1" using phase_invD(1) [OF ph, of a oc] SyncClear by simp
    have "reclaim_head S oc = 0" using own SyncClear by (simp add: reclaim_head_def)
    then have empty: "Q (clock S XOR 1) = []"
      using chain_invD(1) [of Q S oc] inv oc clock_01 [of "rcu_ctrl (shared S)"]
      by (auto simp: queue_inv_def cb_chain_Nil)
    have "queue_inv Q (upd S a pc s (log S))"
      using own SyncClear s empty by (intro queue_inv_local [OF inv]) (auto simp: reclaim_head_def)
    then show ?thesis using s by auto
  next
    case SyncExit
    then have own: "rcu_sync_lock (shared S) = Some a" using lock_invD(4) [OF lk, of a] by simp
    have s: "s = (shared S)\<lparr>rcu_sync_lock := None\<rparr>" "pc = Idle" "evs = []" using ex SyncExit by auto
    have "retiring (pcs S b) = None" for b
      using one_retiring [OF lk, of a b] SyncExit by (cases "retiring (pcs S b)") auto
    then have "queue_inv Q (upd S a pc s (log S))"
      using own SyncExit s ret by (intro queue_inv_local [OF inv]) (auto simp: reclaim_head_def)
    then show ?thesis using s by auto
  next
    case Idle
    then show ?thesis using ex by (intro quiet cur) auto
  next
    case (LockRead u)
    then show ?thesis using ex by (intro quiet cur; cases u) auto
  next
    case (Reading sel)
    then show ?thesis using ex by (intro quiet cur) auto
  next
    case (UnlockRead r sel)
    then show ?thesis using ex by (intro quiet cur) auto
  next
    case SyncRead
    then show ?thesis using ex by (intro quiet cur) (auto simp: Let_def split: if_splits)
  next
    case (SyncWait oc)
    have "pc \<in> {SyncList oc, SyncWait oc}" "s = shared S" "evs = []"
      using ex SyncWait by (simp_all split: if_splits)
    then show ?thesis by (intro quiet cur) (auto simp: SyncWait)
  qed
qed

lemma queue_inv_start:
  assumes inv: "queue_inv Q S" and idle: "pcs S a = Idle \<and> pc \<in> {LockRead Reader, SyncEnter} \<or>
      (\<exists>sel. pcs S a = Reading sel \<and> pc = UnlockRead True sel)"
  shows "queue_inv Q (S\<lparr>pcs := (pcs S)(a := pc)\<rparr>)"
proof -
  have "queue_inv Q (upd S a pc (shared S) (log S))"
    using idle by (intro queue_inv_quiet [OF inv]) (auto intro!: ext)
  then show ?thesis by simp
qed

lemma queue_inv_begin_call:
  assumes inv: "queue_inv Q S" and idle: "pcs S a = Idle" and c: "c \<noteq> 0" and free: "block_free S c"
  shows "queue_inv Q (S\<lparr>pcs := (pcs S)(a := LockRead (Caller c fn))\<rparr>)"
proof -
  define T where "T = S\<lparr>pcs := (pcs S)(a := LockRead (Caller c fn))\<rparr>"
  have w: "wait_inv Q S" and r: "reg_inv Q S" and ch: "chain_inv Q S" using inv by (simp_all add: queue_inv_def)
  note rg = reg_invD [OF r]
  have T: "in_call (pcs T b) = in_call (pcs S b)" "registering (pcs T b) = (if b = a then Some c else registering (pcs S b))"
    "retiring (pcs T b) = retiring (pcs S b)" "holds (pcs T b) = holds (pcs S b)" "reader_in (pcs T b) = reader_in (pcs S b)"
    "log T = log S" "shared T = shared S" for b
    using idle by (simp_all add: T_def)
  have q: "queued Q T sel d f = queued Q S sel d f" for sel d f by (simp add: queued_def T)
  have "cursor (LockRead (Caller c fn)) = cursor (pcs S a)" using idle by (intro ext) simp
  then have h: "reclaim_head T sel = reclaim_head S sel" for sel
    using head_same [of "shared S" S "LockRead (Caller c fn)" a "log S"] by (simp add: T_def)
  have "chain_inv Q T" using ch unfolding chain_inv_def T h by simp
  moreover have "reg_inv Q T"
  proof (rule reg_invI)
    show "d \<noteq> 0" if "registering (pcs T b) = Some d" for b d using that rg(2) [of b d] c by (auto simp: T split: if_splits)
    show "b = b'" if "registering (pcs T b) = Some d" "registering (pcs T b') = Some d" for b b' d
      using that rg(3) [of b d b'] free by (auto simp: T block_free_def split: if_splits)
    show "owed d (log T) = None" if "registering (pcs T b) = Some d" "in_call (pcs T b) = None" for b d
      using that rg(4) [of b d] free by (auto simp: T block_free_def split: if_splits)
    show "rcu_cbs (shared T) d = \<lparr>callback = f, callback_arg = d, cb_next = old'\<rparr>"
      if "pcs T b = CallCas t d f old'" for b t d f old'
      using that rg(5) [of b t d f old'] by (auto simp: T(7)) (auto simp: T_def split: if_splits)
  qed (use rg(1,6,7) in \<open>simp_all add: T q\<close>)
  moreover have "wait_inv Q T" using w unfolding wait_inv_def T q by simp
  ultimately show ?thesis by (simp add: queue_inv_def T_def)
qed

lemma queue_inv_overwrite:
  assumes inv: "queue_inv Q S" and free: "block_free S c"
  shows "queue_inv Q (S\<lparr>shared := (shared S)\<lparr>rcu_cbs := (rcu_cbs (shared S))(c := x)\<rparr>\<rparr>)"
proof -
  define T where "T = S\<lparr>shared := (shared S)\<lparr>rcu_cbs := (rcu_cbs (shared S))(c := x)\<rparr>\<rparr>"
  have w: "wait_inv Q S" and r: "reg_inv Q S" and ch: "chain_inv Q S" using inv by (simp_all add: queue_inv_def)
  note rg = reg_invD [OF r]
  have "\<not> queued Q S 0 c f" "\<not> queued Q S 1 c f" for f
    using free rg(7) [of c f] by (auto simp: block_free_def)
  then have nQ: "c \<notin> set (Q 0)" "c \<notin> set (Q 1)" by (auto simp: queued_def)
  have T: "pcs T = pcs S" "log T = log S" "clock T = clock S" by (simp_all add: T_def)
  have m: "d \<noteq> c \<Longrightarrow> rcu_cbs (shared T) d = rcu_cbs (shared S) d" for d by (simp add: T_def)
  have q: "queued Q T t d f \<longleftrightarrow> queued Q S t d f" if "t = 0 \<or> t = 1" for t d f
  proof -
    have "d \<in> set (Q t) \<Longrightarrow> rcu_cbs (shared T) d = rcu_cbs (shared S) d" using nQ that m [of d] by auto
    then show ?thesis by (auto simp: queued_def T)
  qed
  have h: "reclaim_head T sel = reclaim_head S sel" for sel
    by (simp add: reclaim_head_def T_def split: option.splits)
  have "cb_chain (rcu_cbs (shared T)) p (Q t) = cb_chain (rcu_cbs (shared S)) p (Q t)" if "t = 0 \<or> t = 1" for p t
    using nQ that by (auto simp: T_def)
  then have "chain_inv Q T" using ch unfolding chain_inv_def T h by simp
  moreover have "reg_inv Q T"
  proof (rule reg_invI)
    show "rcu_cbs (shared T) d = \<lparr>callback = f, callback_arg = d, cb_next = old'\<rparr>"
      if "pcs T b = CallCas t d f old'" for b t d f old'
    proof -
      have p: "pcs S b = CallCas t d f old'" using that by (simp add: T)
      then have "d \<noteq> c" using free by (metis block_free_def registering.simps(4))
      then show ?thesis using rg(5) [OF p] m by simp
    qed
    show "callback_arg (rcu_cbs (shared T) d) = d" if "d \<in> set (Q 0) \<or> d \<in> set (Q 1)" for d
      using rg(6) [OF that] that nQ m [of d] by metis
  qed (use rg(1,2,3,4,7) in \<open>simp_all add: T q\<close>)
  moreover have "wait_inv Q T" using w unfolding wait_inv_def T using q by (simp add: T)
  ultimately show ?thesis by (simp add: queue_inv_def T_def)
qed

lemma rcu_queue_inv:
  assumes "rcu_reach n S" and n: "n < 2 ^ 15"
  shows "\<exists>Q. queue_inv Q S"
  using assms(1)
proof induction
  case (init S)
  then have "queue_inv (\<lambda>_. []) S"
    by (auto simp: rcu_initial_def queue_inv_def chain_inv_def reg_inv_def wait_inv_def reclaim_head_def queued_def)
  then show ?case by blast
next
  case (step S T)
  then obtain Q where Q: "queue_inv Q S" by blast
  note lk = rcu_lock_inv [OF step.hyps(1) n] and ph = rcu_phase_inv [OF step.hyps(1) n]
  from step.hyps(2) show ?case
  proof cases
    case (exec a pc s evs)
    then show ?thesis
      using queue_inv_exec [OF Q lk ph _ n rcu_cursor [OF step.hyps(1)]] by simp
  next
    case (register a c fn)
    then show ?thesis using queue_inv_begin_call [OF Q] by blast
  next
    case (overwrite c x)
    then show ?thesis using queue_inv_overwrite [OF Q] by blast
  next
    case (leave a sel)
    then show ?thesis using queue_inv_start [OF Q, of a "UnlockRead True sel"] by blast
  qed (use queue_inv_start [OF Q] in blast)+
qed


section \<open>Running a schedule\<close>

definition rcu_next :: "nat \<Rightarrow> rcu_sys \<Rightarrow> rcu_sys" where
  "rcu_next a S = (let (pc, s, evs) = rcu_exec a (pcs S a) (shared S) in upd S a pc s (evs @ log S))"

lemma rcu_reach_next:
  assumes "rcu_reach n S" "a < n"
  shows "rcu_reach n (rcu_next a S)"
proof -
  obtain pc s evs where ex: "rcu_exec a (pcs S a) (shared S) = (pc, s, evs)" by (cases "rcu_exec a (pcs S a) (shared S)") auto
  show ?thesis using rcu_reach.step [OF assms(1) rcu_step.exec [OF assms(2) ex]] by (simp add: rcu_next_def ex)
qed

lemma rcu_reach_funpow: "rcu_reach n S \<Longrightarrow> a < n \<Longrightarrow> rcu_reach n ((rcu_next a ^^ k) S)"
  by (induction k) (simp_all add: rcu_reach_next)

text \<open>The loop over the callbacks: one invocation per block, in list order.\<close>

lemma sync_calls:
  assumes "cb_chain (rcu_cbs (shared S)) c xs" "c \<noteq> 0" "pcs S a = SyncCall oc c"
    and "\<forall>x\<in>set xs. callback_arg (rcu_cbs (shared S) x) = x"
  shows "\<exists>k l. (rcu_next a ^^ k) S = upd S a (SyncClear oc) (shared S) (l @ log S) \<and>
    (\<forall>d. owed d (l @ log S) = (if d \<in> set xs then None else owed d (log S)))"
  using assms
proof (induction xs arbitrary: c S)
  case (Cons x xs)
  define e where "e = EvInvoke (callback (rcu_cbs (shared S) x)) x"
  define c' where "c' = cb_next (rcu_cbs (shared S) x)"
  have ch: "cb_chain (rcu_cbs (shared S)) c' xs" and x: "c = x" using Cons.prems by (simp_all add: c'_def)
  have nx: "rcu_next a S = upd S a (if c' \<noteq> 0 then SyncCall oc c' else SyncClear oc) (shared S) (e # log S)"
    using Cons.prems x by (simp add: rcu_next_def e_def c'_def Let_def)
  show ?case
  proof (cases "c' = 0")
    case True
    then have "xs = []" using ch by (simp add: cb_chain_Nil)
    then show ?thesis using nx True
      by (intro exI [of _ 1] exI [of _ "[e]"]) (simp add: e_def fun_upd_def)
  next
    case False
    define T where "T = upd S a (SyncCall oc c') (shared S) (e # log S)"
    have nT: "rcu_next a S = T" using nx False by (simp add: T_def)
    have T: "shared T = shared S" "log T = e # log S" "pcs T a = SyncCall oc c'" by (simp_all add: T_def)
    have "\<exists>k l. (rcu_next a ^^ k) T = upd T a (SyncClear oc) (shared T) (l @ log T) \<and>
      (\<forall>d. owed d (l @ log T) = (if d \<in> set xs then None else owed d (log T)))"
      by (rule Cons.IH [of T c']) (use ch False Cons.prems T in simp_all)
    then obtain k l where k: "(rcu_next a ^^ k) T = upd T a (SyncClear oc) (shared T) (l @ log T)"
      and l: "\<forall>d. owed d (l @ log T) = (if d \<in> set xs then None else owed d (log T))" by blast
    have "(rcu_next a ^^ Suc k) S = upd S a (SyncClear oc) (shared S) ((l @ [e]) @ log S)"
      using k nT unfolding funpow_Suc_right comp_def by (simp add: T_def)
    moreover have "\<forall>d. owed d ((l @ [e]) @ log S) = (if d \<in> set (x # xs) then None else owed d (log S))"
      using l by (auto simp: T e_def)
    ultimately show ?thesis by blast
  qed
qed simp

lemma sync_run:
  assumes reach: "rcu_reach n S" and n: "n < 2 ^ 15" and idle: "\<And>b. pcs S b = Idle" and a: "a < n"
  shows "\<exists>k. let T = (rcu_next a ^^ k) (S\<lparr>pcs := (pcs S)(a := SyncEnter)\<rparr>)
             in pcs T = pcs S \<and> (\<forall>c. owed c (log T) = None)"
proof -
  note lk = rcu_lock_inv [OF reach n] and ph = rcu_phase_inv [OF reach n]
  obtain Q where Q: "queue_inv Q S" using rcu_queue_inv [OF reach n] by blast
  then have ch: "chain_inv Q S" and rg: "reg_inv Q S" by (simp_all add: queue_inv_def)
  define oc where "oc = clock S"
  have c01: "oc = 0 \<or> oc = 1" unfolding oc_def by (rule clock_01)
  have free: "rcu_sync_lock (shared S) = None"
    using lock_invD(4) [OF lk] idle by (cases "rcu_sync_lock (shared S)") auto
  have zero: "RCU_GET_CTR (rcu_ctrl (shared S)) t = 0" if "t = 0 \<or> t = 1" for t
    using lock_invD(3) [OF lk that] idle by (simp add: holders_def unat_eq_0)
  have other: "Q (oc XOR 1) = []" unfolding oc_def by (rule chain_invD(5) [OF ch]) (simp add: idle)
  have owe: "owed c (log S) = None" if "c \<notin> set (Q oc)" for c
  proof (rule ccontr)
    assume "owed c (log S) \<noteq> None"
    then obtain f where "owed c (log S) = Some f" by blast
    then have "c \<in> set (Q 0) \<or> c \<in> set (Q 1)"
      using reg_invD(7) [OF rg, of c f] idle by (auto simp: queued_def)
    then show False using that other c01 by auto
  qed
  have hd: "reclaim_head S oc = rcu_reclaim_list (shared S) oc" using free by (simp add: reclaim_head_def)
  have chain: "cb_chain (rcu_cbs (shared S)) (rcu_reclaim_list (shared S) oc) (Q oc)"
    using chain_invD(1) [OF ch c01] hd by simp
  have arg: "\<forall>x\<in>set (Q oc). callback_arg (rcu_cbs (shared S) x) = x"
    using reg_invD(6) [OF rg] c01 by auto
  define s1 where "s1 = (shared S)\<lparr>rcu_sync_lock := Some a, rcu_ctrl := rcu_ctrl (shared S) XOR push_bit 30 1\<rparr>"
  define S1 where "S1 = upd S a (SyncList oc) s1 (log S)"
  have x01: "oc XOR 1 = 0 \<or> oc XOR 1 = 1" using c01 by auto
  have five: "(rcu_next a ^^ 4) (S\<lparr>pcs := (pcs S)(a := SyncEnter)\<rparr>) = S1"
    using free zero [OF c01] zero [OF x01] clock_tick(1) [of "rcu_ctrl (shared S)" oc]
    by (simp add: eval_nat_numeral rcu_next_def Let_def ctrl_cmpxchg_def rcu_wait_for_readers_def S1_def s1_def flip: oc_def)
  define fin where "fin = s1\<lparr>rcu_reclaim_list := (rcu_reclaim_list s1)(oc := 0), rcu_sync_lock := None\<rparr>"
  have last2: "(rcu_next a ^^ 2) (upd S a (SyncClear oc) s1 l) = upd S a Idle fin l" for l
    by (simp add: eval_nat_numeral rcu_next_def fin_def)
  have "\<exists>k l. (rcu_next a ^^ k) S1 = upd S a (SyncClear oc) s1 (l @ log S) \<and> (\<forall>c. owed c (l @ log S) = None)"
  proof (cases "rcu_reclaim_list (shared S) oc = 0")
    case True
    then have "rcu_next a S1 = upd S a (SyncClear oc) s1 ([] @ log S)" by (simp add: S1_def s1_def rcu_next_def)
    moreover have "Q oc = []" using True chain by (simp add: cb_chain_Nil)
    then have "\<forall>c. owed c ([] @ log S) = None" using owe by simp
    ultimately show ?thesis by (intro exI [of _ "1::nat"] exI [of _ "[]"]) simp
  next
    case False
    define S2 where "S2 = upd S a (SyncCall oc (rcu_reclaim_list (shared S) oc)) s1 (log S)"
    have one: "rcu_next a S1 = S2" using False by (simp add: S1_def S2_def s1_def rcu_next_def Let_def)
    have m: "rcu_cbs (shared S2) = rcu_cbs (shared S)" by (simp add: S2_def s1_def)
    have c2: "pcs S2 a = SyncCall oc (rcu_reclaim_list (shared S) oc)" by (simp add: S2_def)
    obtain k l where k: "(rcu_next a ^^ k) S2 = upd S2 a (SyncClear oc) (shared S2) (l @ log S2)"
      and l: "\<forall>d. owed d (l @ log S2) = (if d \<in> set (Q oc) then None else owed d (log S2))"
      using sync_calls [of S2 "rcu_reclaim_list (shared S) oc" "Q oc" a oc] chain False m arg c2 by metis
    have "(rcu_next a ^^ Suc k) S1 = upd S a (SyncClear oc) s1 (l @ log S)"
      using k one unfolding funpow_Suc_right comp_def by (simp add: S2_def)
    moreover have "\<forall>c. owed c (l @ log S) = None" using l owe by (simp add: S2_def)
    ultimately show ?thesis by blast
  qed
  then obtain k l where k: "(rcu_next a ^^ k) S1 = upd S a (SyncClear oc) s1 (l @ log S)"
    and l: "\<forall>c. owed c (l @ log S) = None" by blast
  have "(rcu_next a ^^ (2 + k + 4)) (S\<lparr>pcs := (pcs S)(a := SyncEnter)\<rparr>) = upd S a Idle fin (l @ log S)"
    unfolding funpow_add comp_def five k last2 ..
  moreover have "(pcs S)(a := Idle) = pcs S" using idle by (auto simp: fun_eq_iff)
  ultimately show ?thesis using l by (intro exI [of _ "2 + k + 4"]) (simp add: Let_def)
qed


lemma log_ok_split: "log_ok (xs @ EvInvoke fn c # l) \<Longrightarrow> owed c l = Some fn \<and> (\<forall>a. \<not> waits a c l)"
  by (induction xs) auto

section \<open>Properties\<close>

text \<open>
  C15: The grace period. However up to 32767 readers, registrations and synchronisations interleave,
  whenever a callback is invoked, it is the function of a registration of that block that has not
  been invoked before, and every reader that was inside its section when the block was handed to
  \<open>rcu_call\<close> has left that section.
\<close>

theorem rcu_grace_period:
  assumes "rcu_reach n S" and "n < 2 ^ 15" and "log S = xs @ EvInvoke fn c # l"
  shows "owed c l = Some fn \<and> (\<forall>a. \<not> waits a c l)"
proof -
  obtain Q where "queue_inv Q S" using rcu_queue_inv [OF assms(1,2)] by blast
  then have "log_ok (log S)" by (simp add: queue_inv_def wait_inv_def)
  then show ?thesis using log_ok_split assms(3) by simp
qed

definition rcu_example :: rcu_sys where
  "rcu_example = \<lparr>pcs = (\<lambda>_. Idle),
     shared = \<lparr>rcu_ctrl = 0, rcu_reclaim_list = (\<lambda>_. 0),
       rcu_cbs = (\<lambda>_. \<lparr>callback = 0, callback_arg = 0, cb_next = 0\<rparr>), rcu_sync_lock = None\<rparr>, log = []\<rparr>"

definition rcu_start :: "nat \<Rightarrow> rcu_pc \<Rightarrow> rcu_sys \<Rightarrow> rcu_sys" where
  "rcu_start a pc S = S\<lparr>pcs := (pcs S)(a := pc)\<rparr>"

text \<open>A reader enters, a block is registered meanwhile, the reader leaves.\<close>

definition rcu_registered :: rcu_sys where
  "rcu_registered =
     (rcu_next 0 ^^ 2) (rcu_start 0 (UnlockRead True 0)
       ((rcu_next 1 ^^ 6) (rcu_start 1 (LockRead (Caller 4 9))
         ((rcu_next 0 ^^ 2) (rcu_start 0 (LockRead Reader) rcu_example)))))"

lemmas rcu_eval = rcu_start_def rcu_next_def Let_def ctrl_cmpxchg_def eval_nat_numeral
  RCU_CTRL_TO_CLOCK_def RCU_CTR_ONE_def RCU_GET_CTR_def RCU_CTRL_TO_CTR_A_def RCU_CTRL_TO_CTR_B_def rcu_wait_for_readers_def

lemma rcu_registered_eq:
  "pcs rcu_registered = (\<lambda>_. Idle)" "log rcu_registered = [EvLeave 0, EvRegister 4 9, EvEnter 0]"
  by (simp_all add: rcu_registered_def rcu_example_def rcu_eval fun_eq_iff)


lemma rcu_reach_start:
  assumes "rcu_reach n S" "a < n"
    and "pcs S a = Idle \<and> (pc = LockRead Reader \<or> pc = SyncEnter \<or> (\<exists>c fn. pc = LockRead (Caller c fn) \<and> c \<noteq> 0 \<and> block_free S c)) \<or>
      (\<exists>sel. pcs S a = Reading sel \<and> pc = UnlockRead True sel)"
  shows "rcu_reach n (rcu_start a pc S)"
  using assms(3) rcu_reach.step [OF assms(1)] rcu_step.intros(1-4) [OF assms(2)] unfolding rcu_start_def by blast

lemma rcu_registered_reach: "rcu_reach 2 rcu_registered"
  unfolding rcu_registered_def
  by (intro rcu_reach_funpow rcu_reach_start rcu_reach.init)
    (auto simp: rcu_initial_def rcu_example_def rcu_eval block_free_def)

lemma rcu_synchronized_log:
  "log ((rcu_next 1 ^^ 8) (rcu_start 1 SyncEnter rcu_registered)) = [EvInvoke 9 4, EvLeave 0, EvRegister 4 9, EvEnter 0]"
  by (simp add: rcu_registered_def rcu_example_def rcu_eval)

theorem rcu_grace_period_witness:
  "owed 4 [EvLeave 0, EvRegister 4 9, EvEnter 0] = Some 9 \<and> (\<forall>a. \<not> waits a 4 [EvLeave 0, EvRegister 4 9, EvEnter 0])"
proof (rule rcu_grace_period [where n = 2 and S = "(rcu_next 1 ^^ 8) (rcu_start 1 SyncEnter rcu_registered)" and xs = "[]"])
  show "rcu_reach 2 ((rcu_next 1 ^^ 8) (rcu_start 1 SyncEnter rcu_registered))"
    by (intro rcu_reach_funpow rcu_reach_start rcu_registered_reach) (simp_all add: rcu_registered_eq)
  show "log ((rcu_next 1 ^^ 8) (rcu_start 1 SyncEnter rcu_registered)) = [] @ EvInvoke 9 4 # [EvLeave 0, EvRegister 4 9, EvEnter 0]"
    unfolding rcu_synchronized_log by simp
qed simp

text \<open>
  C17: Nothing is lost. From any reachable state in which no operation is under way, one call of
  \<open>rcu_synchronize\<close> that runs alone returns, and after it no registered callback is left to be invoked.
\<close>

theorem rcu_synchronize_drains:
  assumes "rcu_reach n S" and "n < 2 ^ 15" and "pcs S = (\<lambda>_. Idle)" and "a < n"
  shows "\<exists>k. let T = (rcu_next a ^^ k) (rcu_start a SyncEnter S) in pcs T = (\<lambda>_. Idle) \<and> (\<forall>c. owed c (log T) = None)"
  using sync_run [OF assms(1,2) _ assms(4)] assms(3) by (simp add: rcu_start_def)

theorem rcu_synchronize_drains_witness:
  "owed 4 (log rcu_registered) = Some 9 \<and>
   (\<exists>k. let T = (rcu_next 1 ^^ k) (rcu_start 1 SyncEnter rcu_registered) in pcs T = (\<lambda>_. Idle) \<and> (\<forall>c. owed c (log T) = None))"
  using rcu_synchronize_drains [OF rcu_registered_reach, of 1] by (simp add: rcu_registered_eq)

text \<open>The counters are 15 bits wide and next to each other: one reader more than they count
  carries into the other counter, and the first counter reads as if nobody were inside.\<close>

lemma rcu_counter_carries:
  "RCU_GET_CTR (0x7fff + RCU_CTR_ONE 0) 0 = 0" "RCU_GET_CTR (0x7fff + RCU_CTR_ONE 0) 1 = 1"
  by (simp_all add: RCU_GET_CTR_def RCU_CTR_ONE_def RCU_CTRL_TO_CTR_A_def RCU_CTRL_TO_CTR_B_def)

end
