(* ===== verification/Rcu_Slist.thy ===== *)
theory Rcu_Slist
  imports Rcu
begin

text \<open>
  The singly linked list of \<^verbatim>\<open>src/kern/rcu_slist.c\<close>, threaded through the \<open>next\<close> fields of the
  control blocks. A list is its head pointer; the blocks are the shared memory of the model of
  \<^verbatim>\<open>rcu.c\<close>, and \<open>cb_chain\<close> relates a head to the list of blocks it reaches. The writers of such a
  list exclude each other, so the operations are state-passing functions; the loops that look for the
  end or for an element are partial functions, shown to return on every chain.
\<close>

section \<open>Operations\<close>

record slist =
  sl_head :: nat
  sl_cbs :: "nat \<Rightarrow> rcu_cb"

abbreviation set_next :: "nat \<Rightarrow> nat \<Rightarrow> (nat \<Rightarrow> rcu_cb) \<Rightarrow> nat \<Rightarrow> rcu_cb" where
  "set_next p v m \<equiv> m(p := (m p)\<lparr>cb_next := v\<rparr>)"

definition rcu_slist_is_empty :: "slist \<Rightarrow> bool" where
  "rcu_slist_is_empty l \<longleftrightarrow> sl_head l \<noteq> 0"

definition rcu_slist_insert_head :: "slist \<Rightarrow> nat \<Rightarrow> slist" where
  "rcu_slist_insert_head l elem =
     \<lparr>sl_head = elem, sl_cbs = set_next elem (sl_head l) (sl_cbs l)\<rparr>"

definition rcu_slist_insert_after :: "slist \<Rightarrow> nat \<Rightarrow> nat \<Rightarrow> slist" where
  "rcu_slist_insert_after l elem1 elem2 =
     l\<lparr>sl_cbs := set_next elem1 elem2 (set_next elem2 (cb_next (sl_cbs l elem1)) (sl_cbs l))\<rparr>"

partial_function (option) tail_loop :: "(nat \<Rightarrow> rcu_cb) \<Rightarrow> nat \<Rightarrow> nat option" where
  "tail_loop m nxt = (let lst = nxt; nxt = cb_next (m lst) in if nxt \<noteq> 0 then tail_loop m nxt else Some lst)"

definition rcu_slist_insert_tail :: "slist \<Rightarrow> nat \<Rightarrow> slist option" where
  "rcu_slist_insert_tail l elem = do {
     let nxt = sl_head l;
     let m = set_next elem 0 (sl_cbs l);
     if nxt = 0 then Some \<lparr>sl_head = elem, sl_cbs = m\<rparr>
     else do {
       lst \<leftarrow> tail_loop m nxt;
       Some \<lparr>sl_head = sl_head l, sl_cbs = set_next lst elem m\<rparr> } }"

definition rcu_slist_remove_head :: "slist \<Rightarrow> slist \<times> nat" where
  "rcu_slist_remove_head l =
     (let old_head = sl_head l
      in if old_head \<noteq> 0
         then (\<lparr>sl_head = cb_next (sl_cbs l old_head), sl_cbs = set_next old_head 0 (sl_cbs l)\<rparr>, old_head)
         else (l, old_head))"

partial_function (option) remove_loop :: "(nat \<Rightarrow> rcu_cb) \<Rightarrow> nat \<Rightarrow> nat \<Rightarrow> nat option option" where
  "remove_loop m elem nxt =
     (let prev = nxt; nxt = cb_next (m prev)
      in if nxt = 0 then Some None
         else if nxt \<noteq> elem then remove_loop m elem nxt
         else Some (Some prev))"

definition rcu_slist_remove :: "slist \<Rightarrow> nat \<Rightarrow> (slist \<times> nat) option" where
  "rcu_slist_remove l elem = do {
     let nxt = sl_head l;
     if nxt = 0 then Some (l, 0)
     else do {
       r \<leftarrow> remove_loop (sl_cbs l) elem nxt;
       case r of
         None \<Rightarrow> Some (l, 0)
       | Some prev \<Rightarrow>
           let m = set_next prev (cb_next (sl_cbs l elem)) (sl_cbs l)
           in Some (l\<lparr>sl_cbs := set_next elem 0 m\<rparr>, elem) } }"

partial_function (option) remove_tail_loop :: "(nat \<Rightarrow> rcu_cb) \<Rightarrow> nat \<Rightarrow> nat \<Rightarrow> (nat \<times> nat) option" where
  "remove_tail_loop m lst nxt =
     (let prev = lst; lst = nxt; nxt = cb_next (m lst)
      in if nxt \<noteq> 0 then remove_tail_loop m lst nxt else Some (prev, lst))"

definition rcu_slist_remove_tail :: "slist \<Rightarrow> (slist \<times> nat) option" where
  "rcu_slist_remove_tail l = do {
     let nxt = sl_head l;
     if nxt = 0 then Some (l, 0)
     else do {
       (prev, lst) \<leftarrow> remove_tail_loop (sl_cbs l) 0 nxt;
       Some (if prev \<noteq> 0 then l\<lparr>sl_cbs := set_next prev 0 (sl_cbs l)\<rparr> else l, lst) } }"

section \<open>Chains\<close>

text \<open>A list with the blocks \<open>xs\<close>, in order and without repetition.\<close>

definition slist_of :: "slist \<Rightarrow> nat list \<Rightarrow> bool" where
  "slist_of l xs \<longleftrightarrow> cb_chain (sl_cbs l) (sl_head l) xs \<and> distinct xs"

text \<open>The segment from one pointer to another.\<close>

primrec seg :: "(nat \<Rightarrow> rcu_cb) \<Rightarrow> nat \<Rightarrow> nat list \<Rightarrow> nat \<Rightarrow> bool" where
  "seg m p [] q \<longleftrightarrow> p = q"
| "seg m p (x # xs) q \<longleftrightarrow> p = x \<and> x \<noteq> 0 \<and> seg m (cb_next (m x)) xs q"

lemma slseg_append: "seg m p (xs @ ys) q \<longleftrightarrow> (\<exists>r. seg m p xs r \<and> seg m r ys q)"
  by (induction xs arbitrary: p) auto

lemma cb_chain_seg: "cb_chain m p xs \<longleftrightarrow> seg m p xs 0"
  by (induction xs arbitrary: p) auto

lemma seg_upd [simp]: "x \<notin> set xs \<Longrightarrow> seg (m(x := v)) p xs q = seg m p xs q"
  by (induction xs arbitrary: p) auto

lemma seg_nonzero: "seg m p xs q \<Longrightarrow> 0 \<notin> set xs"
  by (induction xs arbitrary: p) auto

lemma tail_loop_eq:
  "seg m p (xs @ [z]) 0 \<Longrightarrow> tail_loop m p = Some z"
proof (induction xs arbitrary: p)
  case Nil
  then show ?case by (simp add: tail_loop.simps)
next
  case (Cons x xs)
  then have "cb_next (m p) \<noteq> 0" by (cases xs) auto
  then show ?case using Cons by (subst tail_loop.simps) simp
qed

lemma remove_loop_found:
  "seg m p (xs @ [y]) e \<Longrightarrow> e \<noteq> 0 \<Longrightarrow> e \<notin> set (xs @ [y]) \<Longrightarrow> remove_loop m e p = Some (Some y)"
proof (induction xs arbitrary: p)
  case Nil
  then show ?case by (simp add: remove_loop.simps)
next
  case (Cons x xs)
  then have "cb_next (m p) \<noteq> 0" "cb_next (m p) \<noteq> e" by (cases xs; auto)+
  then show ?case using Cons by (subst remove_loop.simps) simp
qed

lemma remove_loop_missing:
  "seg m p (x # xs) 0 \<Longrightarrow> e \<notin> set xs \<Longrightarrow> remove_loop m e p = Some None"
proof (induction xs arbitrary: p x)
  case Nil
  then show ?case by (simp add: remove_loop.simps)
next
  case (Cons y xs)
  then show ?case by (subst remove_loop.simps) auto
qed

lemma remove_tail_loop_eq:
  "seg m p (xs @ [z]) 0 \<Longrightarrow> remove_tail_loop m q p = Some (last (q # xs), z)"
proof (induction xs arbitrary: p q)
  case Nil
  then show ?case by (simp add: remove_tail_loop.simps)
next
  case (Cons x xs)
  then have "cb_next (m p) \<noteq> 0" by (cases xs) auto
  then show ?case using Cons by (subst remove_tail_loop.simps) simp
qed

section \<open>Each operation on the list of blocks\<close>

lemma slist_of_seg: "slist_of l xs \<longleftrightarrow> seg (sl_cbs l) (sl_head l) xs 0 \<and> distinct xs"
  by (simp add: slist_of_def cb_chain_seg)

lemma insert_head_list:
  assumes "slist_of l xs" "e \<noteq> 0" "e \<notin> set xs"
  shows "slist_of (rcu_slist_insert_head l e) (e # xs)"
  using assms by (simp add: slist_of_seg rcu_slist_insert_head_def)

lemma insert_after_list:
  assumes "slist_of l (ys @ a # zs)" "e \<noteq> 0" "e \<notin> set (ys @ a # zs)"
  shows "slist_of (rcu_slist_insert_after l a e) (ys @ a # e # zs)"
  using assms by (auto simp: slist_of_seg rcu_slist_insert_after_def slseg_append)

lemma insert_tail_list:
  assumes l: "slist_of l xs" "e \<noteq> 0" "e \<notin> set xs"
  shows "\<exists>l'. rcu_slist_insert_tail l e = Some l' \<and> slist_of l' (xs @ [e])"
proof (cases xs rule: rev_cases)
  case Nil
  then show ?thesis using assms by (simp add: rcu_slist_insert_tail_def slist_of_seg)
next
  case (snoc ys z)
  then have h: "sl_head l \<noteq> 0" using l by (cases ys) (auto simp: slist_of_seg)
  have "seg (set_next e 0 (sl_cbs l)) (sl_head l) (ys @ [z]) 0" using l snoc by (simp add: slist_of_seg)
  then have t: "tail_loop (set_next e 0 (sl_cbs l)) (sl_head l) = Some z" by (rule tail_loop_eq)
  show ?thesis using l snoc h t by (auto simp: rcu_slist_insert_tail_def slist_of_seg slseg_append)
qed

lemma remove_head_list:
  assumes "slist_of l xs"
  shows "slist_of (fst (rcu_slist_remove_head l)) (tl xs) \<and> snd (rcu_slist_remove_head l) = (if xs = [] then 0 else hd xs)"
  using assms by (cases xs) (auto simp: rcu_slist_remove_head_def slist_of_seg Let_def)

lemma remove_list:
  assumes l: "slist_of l (ys @ y # e # zs)"
  shows "\<exists>l'. rcu_slist_remove l e = Some (l', e) \<and> slist_of l' (ys @ y # zs)"
proof -
  have h: "sl_head l \<noteq> 0" using l by (cases ys) (auto simp: slist_of_seg)
  have e0: "e \<noteq> 0" using l seg_nonzero by (fastforce simp: slist_of_seg)
  have "seg (sl_cbs l) (sl_head l) (ys @ [y]) e" using l by (auto simp: slist_of_seg slseg_append)
  then have r: "remove_loop (sl_cbs l) e (sl_head l) = Some (Some y)"
    using e0 l by (intro remove_loop_found) (auto simp: slist_of_seg)
  show ?thesis using l h r e0 by (auto simp: rcu_slist_remove_def slist_of_seg slseg_append Let_def)
qed

lemma remove_absent:
  assumes l: "slist_of l xs" and e: "e \<notin> set (tl xs)"
  shows "rcu_slist_remove l e = Some (l, 0)"
proof (cases xs)
  case Nil
  then show ?thesis using l by (simp add: rcu_slist_remove_def slist_of_seg)
next
  case (Cons x zs)
  then have "remove_loop (sl_cbs l) e (sl_head l) = Some None"
    using l e by (intro remove_loop_missing [of _ _ x zs]) (simp_all add: slist_of_seg)
  then show ?thesis using l Cons by (auto simp: rcu_slist_remove_def slist_of_seg)
qed

lemma remove_tail_list:
  assumes l: "slist_of l (ys @ [y, z])"
  shows "\<exists>l'. rcu_slist_remove_tail l = Some (l', z) \<and> slist_of l' (ys @ [y])"
proof -
  have h: "sl_head l \<noteq> 0" using l by (cases ys) (auto simp: slist_of_seg)
  have "remove_tail_loop (sl_cbs l) 0 (sl_head l) = Some (last (0 # ys @ [y]), z)"
    using l by (intro remove_tail_loop_eq) (simp add: slist_of_seg)
  then show ?thesis using l h by (auto simp: rcu_slist_remove_tail_def slist_of_seg slseg_append)
qed

text \<open>
  On a list of distinct blocks, with a block that is not on it, the operations insert at the head,
  after a given element and at the tail, and remove the head, an element that is not the head and the
  last of at least two elements; every loop returns, and the result is again a well-formed list.
\<close>

theorem rcu_slist_ops:
  assumes "slist_of l xs" and "e \<noteq> 0" and "e \<notin> set xs"
  shows "slist_of (rcu_slist_insert_head l e) (e # xs) \<and>
    (\<forall>ys a zs. xs = ys @ a # zs \<longrightarrow> slist_of (rcu_slist_insert_after l a e) (ys @ a # e # zs)) \<and>
    (\<exists>l'. rcu_slist_insert_tail l e = Some l' \<and> slist_of l' (xs @ [e])) \<and>
    slist_of (fst (rcu_slist_remove_head l)) (tl xs) \<and>
    snd (rcu_slist_remove_head l) = (if xs = [] then 0 else hd xs) \<and>
    (\<forall>ys y d zs. xs = ys @ y # d # zs \<longrightarrow> (\<exists>l'. rcu_slist_remove l d = Some (l', d) \<and> slist_of l' (ys @ y # zs))) \<and>
    rcu_slist_remove l e = Some (l, 0) \<and>
    (\<forall>ys y z. xs = ys @ [y, z] \<longrightarrow> (\<exists>l'. rcu_slist_remove_tail l = Some (l', z) \<and> slist_of l' (ys @ [y])))"
proof (intro conjI allI impI)
  show "slist_of (rcu_slist_insert_head l e) (e # xs)" using assms by (rule insert_head_list)
  show "slist_of (rcu_slist_insert_after l a e) (ys @ a # e # zs)" if "xs = ys @ a # zs" for ys a zs
    using insert_after_list assms that by blast
  show "\<exists>l'. rcu_slist_insert_tail l e = Some l' \<and> slist_of l' (xs @ [e])" using assms by (rule insert_tail_list)
  show "slist_of (fst (rcu_slist_remove_head l)) (tl xs)"
    "snd (rcu_slist_remove_head l) = (if xs = [] then 0 else hd xs)" using remove_head_list [OF assms(1)] by blast+
  show "\<exists>l'. rcu_slist_remove l d = Some (l', d) \<and> slist_of l' (ys @ y # zs)" if "xs = ys @ y # d # zs" for ys y d zs
    using remove_list assms(1) that by blast
  have "e \<notin> set (tl xs)" using assms(3) by (cases xs) auto
  then show "rcu_slist_remove l e = Some (l, 0)" using remove_absent assms(1) by blast
  show "\<exists>l'. rcu_slist_remove_tail l = Some (l', z) \<and> slist_of l' (ys @ [y])" if "xs = ys @ [y, z]" for ys y z
    using remove_tail_list assms(1) that by blast
qed

definition slist_example :: slist where
  "slist_example = rcu_slist_insert_head (rcu_slist_insert_head
     \<lparr>sl_head = 0, sl_cbs = (\<lambda>_. \<lparr>callback = 0, callback_arg = 0, cb_next = 0\<rparr>)\<rparr> 8) 4"

lemma slist_example_list: "slist_of slist_example [4, 8]"
  by (simp add: slist_example_def slist_of_def rcu_slist_insert_head_def)

theorem rcu_slist_ops_witness:
  "slist_of slist_example [4, 8] \<and>
   (\<exists>l'. rcu_slist_insert_tail slist_example 12 = Some l' \<and> slist_of l' [4, 8, 12]) \<and>
   (\<exists>l'. rcu_slist_remove slist_example 8 = Some (l', 8) \<and> slist_of l' [4])"
proof -
  note t = rcu_slist_ops [OF slist_example_list, of 12, simplified]
  have "\<exists>l'. rcu_slist_remove slist_example 8 = Some (l', 8) \<and> slist_of l' ([] @ 4 # [])"
    using t by (metis append_Nil)
  then show ?thesis using t slist_example_list by simp
qed

section \<open>What the operations do not do\<close>

text \<open>\<open>rcu_slist_remove\<close> compares only the successors, so the head of a list is not found; the removal
  of the tail of a list of one element returns the element but leaves it on the list; and
  \<open>rcu_slist_is_empty\<close> is true exactly of the lists that are not empty.\<close>

lemma rcu_slist_remove_misses_head:
  assumes "slist_of l (x # xs)"
  shows "rcu_slist_remove l x = Some (l, 0)"
  using assms by (intro remove_absent [of _ "x # xs"]) (simp_all add: slist_of_def)

lemma rcu_slist_remove_tail_single:
  assumes "slist_of l [x]"
  shows "rcu_slist_remove_tail l = Some (l, x)"
  using assms by (auto simp: rcu_slist_remove_tail_def slist_of_def remove_tail_loop.simps)

lemma rcu_slist_is_empty_inverted:
  assumes "slist_of l xs"
  shows "rcu_slist_is_empty l \<longleftrightarrow> xs \<noteq> []"
  using assms by (cases xs) (auto simp: slist_of_def rcu_slist_is_empty_def)

end
