(* ===== verification/Timers.thy ===== *)
theory Timers
  imports Zeke_Prelude
begin

text \<open>
  Kernel timers, \<^verbatim>\<open>src/kern/timers.c\<close>: an array of \<open>configTIMERS_MAX\<close> control blocks. The array is a
  list whose length is that constant. The readings of \<open>get_utime\<close> are arguments, one per call in the
  code. The event functions belong to the users of the timers (they wake threads, and one of them
  releases its own timer), so \<open>timers_run\<close> takes the effect of calling one as an argument \<open>fire\<close>: it
  may change the timer array and a world of its own.

  The flags are the 32-bit word that the code changes with \<open>atomic_cmpxchg\<close>, \<open>atomic_add\<close> and
  \<open>atomic_sub\<close>: adding a flag that is already set carries into the next one, which the last section
  makes explicit. Under the discipline that a timer is started when it is stopped and stopped when it is
  running, the flags stay one of the four meaningful combinations.
\<close>

section \<open>State and flags\<close>

definition TIMERS_FLAG_INUSE :: u32 where "TIMERS_FLAG_INUSE = 0x1"
definition TIMERS_FLAG_ENABLED :: u32 where "TIMERS_FLAG_ENABLED = 0x2"
definition TIMERS_FLAG_ONESHOT :: u32 where "TIMERS_FLAG_ONESHOT = 0x0"
definition TIMERS_FLAG_PERIODIC :: u32 where "TIMERS_FLAG_PERIODIC = 0x4"
definition TIMERS_EXT_FLAGS :: u32 where "TIMERS_EXT_FLAGS = TIMERS_FLAG_ENABLED OR TIMERS_FLAG_PERIODIC"

lemmas timer_flags = TIMERS_FLAG_INUSE_def TIMERS_FLAG_ENABLED_def TIMERS_FLAG_ONESHOT_def
  TIMERS_FLAG_PERIODIC_def TIMERS_EXT_FLAGS_def

record timer_cb =
  flags :: u32
  event_fn :: nat
  event_arg :: nat
  interval :: u64
  start :: u64

type_synonym timers_array = "timer_cb list"

definition timer_init :: timer_cb where
  "timer_init = \<lparr>flags = 0, event_fn = 0, event_arg = 0, interval = 0, start = 0\<rparr>"

definition VALID_TIMER_ID :: "timers_array \<Rightarrow> int \<Rightarrow> bool" where
  "VALID_TIMER_ID ts x \<longleftrightarrow> x < int (length ts) \<and> 0 \<le> x"

section \<open>Operations\<close>

text \<open>The due test of \<open>timers_run\<close>: unsigned 64-bit arithmetic, so it is right across a wrap of the
  clock.\<close>

definition timer_due :: "u64 \<Rightarrow> timer_cb \<Rightarrow> bool" where
  "timer_due now t \<longleftrightarrow>
     (let enflags = TIMERS_FLAG_INUSE OR TIMERS_FLAG_ENABLED
      in flags t AND enflags = enflags \<and> now - start t \<ge> interval t)"

fun timers_run_loop ::
  "(nat \<Rightarrow> nat \<Rightarrow> timers_array \<times> 'w \<Rightarrow> timers_array \<times> 'w) \<Rightarrow> u64 \<Rightarrow> (nat \<Rightarrow> u64) \<Rightarrow> nat \<Rightarrow> nat \<Rightarrow>
    timers_array \<times> 'w \<Rightarrow> timers_array \<times> 'w" where
  "timers_run_loop fire now utime 0 i (ts, w) = (ts, w)"
| "timers_run_loop fire now utime (Suc k) i (ts, w) =
     (let timer = ts ! i; fl = flags timer
      in if timer_due now timer
         then let (ts, w) = fire (event_fn timer) (event_arg timer) (ts, w);
                  ts = (if fl AND TIMERS_FLAG_PERIODIC = 0
                        then ts[i := (ts ! i)\<lparr>flags := flags (ts ! i) AND NOT TIMERS_FLAG_ENABLED\<rparr>]
                        else ts[i := (ts ! i)\<lparr>start := utime i\<rparr>])
              in timers_run_loop fire now utime k (i + 1) (ts, w)
         else timers_run_loop fire now utime k (i + 1) (ts, w))"

definition timers_run ::
  "(nat \<Rightarrow> nat \<Rightarrow> timers_array \<times> 'w \<Rightarrow> timers_array \<times> 'w) \<Rightarrow> u64 \<Rightarrow> (nat \<Rightarrow> u64) \<Rightarrow>
    timers_array \<times> 'w \<Rightarrow> timers_array \<times> 'w" where
  "timers_run fire now utime s = timers_run_loop fire now utime (length (fst s)) 0 s"

text \<open>\<open>timers_add\<close> in its two steps: the exchange that claims the first slot whose flags are zero, and
  the initialisation of that slot, which ends with the atomic store of the final flags.\<close>

function claim_loop :: "u32 \<Rightarrow> nat \<Rightarrow> timers_array \<Rightarrow> (nat \<times> timers_array) option" where
  "claim_loop fl i ts =
     (if i < length ts
      then if flags (ts ! i) = 0 then Some (i, ts[i := (ts ! i)\<lparr>flags := fl\<rparr>]) else claim_loop fl (i + 1) ts
      else None)"
  by pat_completeness auto
termination by (relation "measure (\<lambda>(fl, i, ts). length ts - i)") auto
declare claim_loop.simps [simp del]

definition timer_setup :: "nat \<Rightarrow> nat \<Rightarrow> u32 \<Rightarrow> u64 \<Rightarrow> u64 \<Rightarrow> nat \<Rightarrow> timers_array \<Rightarrow> timers_array" where
  "timer_setup fn arg fl usec now i ts =
     ts[i := \<lparr>flags = fl OR TIMERS_FLAG_INUSE, event_fn = fn, event_arg = arg, interval = usec, start = now\<rparr>]"

definition timers_add :: "nat \<Rightarrow> nat \<Rightarrow> u32 \<Rightarrow> u64 \<Rightarrow> u64 \<Rightarrow> timers_array \<Rightarrow> timers_array \<times> int" where
  "timers_add fn arg fl usec now ts =
     (let fl = fl AND TIMERS_EXT_FLAGS
      in case claim_loop fl 0 ts of
           None \<Rightarrow> (ts, - 1)
         | Some (i, ts) \<Rightarrow> (timer_setup fn arg fl usec now i ts, int i))"

definition timers_get_split :: "timers_array \<Rightarrow> int \<Rightarrow> u64 \<Rightarrow> int" where
  "timers_get_split ts tim now = (if \<not> VALID_TIMER_ID ts tim then - 1 else sint (now - start (ts ! nat tim)))"

definition timers_start :: "int \<Rightarrow> timers_array \<Rightarrow> timers_array" where
  "timers_start tim ts =
     (if \<not> VALID_TIMER_ID ts tim then ts
      else ts[nat tim := (ts ! nat tim)\<lparr>flags := flags (ts ! nat tim) + TIMERS_FLAG_ENABLED\<rparr>])"

definition timers_stop :: "int \<Rightarrow> timers_array \<Rightarrow> timers_array" where
  "timers_stop tim ts =
     (if \<not> VALID_TIMER_ID ts tim then ts
      else ts[nat tim := (ts ! nat tim)\<lparr>flags := flags (ts ! nat tim) - TIMERS_FLAG_ENABLED\<rparr>])"

definition timers_release :: "int \<Rightarrow> timers_array \<Rightarrow> timers_array" where
  "timers_release tim ts =
     (if \<not> VALID_TIMER_ID ts tim then ts else ts[nat tim := (ts ! nat tim)\<lparr>flags := 0\<rparr>])"

section \<open>Allocation\<close>

lemma claim_loop_None: "claim_loop fl i ts = None \<longleftrightarrow> (\<forall>j. i \<le> j \<and> j < length ts \<longrightarrow> flags (ts ! j) \<noteq> 0)"
proof (induction fl i ts rule: claim_loop.induct)
  case (1 fl i ts)
  have "(\<forall>j. i \<le> j \<and> j < length ts \<longrightarrow> flags (ts ! j) \<noteq> 0) \<longleftrightarrow>
      (i < length ts \<longrightarrow> flags (ts ! i) \<noteq> 0) \<and> (\<forall>j. i + 1 \<le> j \<and> j < length ts \<longrightarrow> flags (ts ! j) \<noteq> 0)"
    by (metis Suc_eq_plus1 Suc_leD le_refl not_less_eq_eq le_antisym)
  then show ?case using 1 by (subst claim_loop.simps) auto
qed

lemma claim_loop_Some:
  "claim_loop fl i ts = Some (j, us) \<Longrightarrow>
     i \<le> j \<and> j < length ts \<and> flags (ts ! j) = 0 \<and> (\<forall>k. i \<le> k \<and> k < j \<longrightarrow> flags (ts ! k) \<noteq> 0) \<and>
     us = ts[j := (ts ! j)\<lparr>flags := fl\<rparr>]"
proof (induction fl i ts rule: claim_loop.induct)
  case (1 fl i ts)
  have il: "i < length ts" using "1.prems" by (subst (asm) claim_loop.simps) (simp split: if_splits)
  show ?case
  proof (cases "flags (ts ! i) = 0")
    case True
    then have "j = i" "us = ts[i := (ts ! i)\<lparr>flags := fl\<rparr>]"
      using "1.prems" il by (subst (asm) claim_loop.simps, simp)+
    then show ?thesis using True il by auto
  next
    case False
    then have "claim_loop fl (i + 1) ts = Some (j, us)" using "1.prems" il by (subst (asm) claim_loop.simps) simp
    from "1.IH" [OF il False this] show ?thesis using False by (auto simp: le_less) (metis Suc_leI le_neq_implies_less less_or_eq_imp_le)
  qed
qed

section \<open>Expiry\<close>

text \<open>What a run does to one timer.\<close>

definition expire :: "u64 \<Rightarrow> u64 \<Rightarrow> timer_cb \<Rightarrow> timer_cb" where
  "expire now later t =
     (if timer_due now t
      then if flags t AND TIMERS_FLAG_PERIODIC = 0 then t\<lparr>flags := flags t AND NOT TIMERS_FLAG_ENABLED\<rparr>
           else t\<lparr>start := later\<rparr>
      else t)"

text \<open>When the event functions leave the array alone, a run calls those of the due timers, in index
  order, and expires each timer on its own.\<close>

lemma timers_run_loop_eq:
  assumes "\<And>fn arg ts w. fire fn arg (ts, w) = (ts, ev fn arg w)" and "i + k = length ts"
  shows "timers_run_loop fire now utime k i (ts, w) =
    (take i ts @ map (\<lambda>j. expire now (utime j) (ts ! j)) [i..<i + k],
     fold (\<lambda>t. ev (event_fn t) (event_arg t)) (filter (timer_due now) (drop i ts)) w)"
  using assms(2)
proof (induction k arbitrary: i ts w)
  case (Suc k)
  have il: "i < length ts" using Suc.prems by simp
  have d: "drop i ts = ts ! i # drop (i + 1) ts" using il by (simp add: Cons_nth_drop_Suc)
  have u: "[i..<i + Suc k] = i # [i + 1..<i + 1 + k]" by (simp add: upt_rec)
  define us where "us = ts[i := expire now (utime i) (ts ! i)]"
  have us: "length us = length ts" "drop (i + 1) us = drop (i + 1) ts" "take (i + 1) us = take i ts @ [expire now (utime i) (ts ! i)]"
    "j \<noteq> i \<Longrightarrow> us ! j = ts ! j" for j
    using il by (simp_all add: us_def take_Suc_conv_app_nth take_update_swap list_update_append)
  have step: "timers_run_loop fire now utime (Suc k) i (ts, w) =
      timers_run_loop fire now utime k (i + 1) (us, if timer_due now (ts ! i) then ev (event_fn (ts ! i)) (event_arg (ts ! i)) w else w)"
    by (simp add: assms(1) Let_def us_def expire_def)
  have m: "map (\<lambda>j. expire now (utime j) (us ! j)) [i + 1..<i + 1 + k] = map (\<lambda>j. expire now (utime j) (ts ! j)) [i + 1..<i + 1 + k]"
    by (rule map_cong [OF refl]) (use us(4) in auto)
  show ?case
    unfolding step using Suc.prems by (subst Suc.IH) (simp_all only: us m u d, simp_all add: upt_conv_Cons)
qed simp


section \<open>Well-formed flags\<close>

definition timer_ok :: "timer_cb \<Rightarrow> bool" where
  "timer_ok t \<longleftrightarrow> flags t \<in> {0, 1, 3, 5, 7}"

definition timers_ok :: "timers_array \<Rightarrow> bool" where
  "timers_ok ts \<longleftrightarrow> (\<forall>t\<in>set ts. timer_ok t)"

definition timer_stopped :: "timers_array \<Rightarrow> int \<Rightarrow> bool" where
  "timer_stopped ts tim \<longleftrightarrow> VALID_TIMER_ID ts tim \<and> flags (ts ! nat tim) AND 3 = TIMERS_FLAG_INUSE"

definition timer_running :: "timers_array \<Rightarrow> int \<Rightarrow> bool" where
  "timer_running ts tim \<longleftrightarrow> VALID_TIMER_ID ts tim \<and> flags (ts ! nat tim) AND 3 = TIMERS_FLAG_INUSE OR TIMERS_FLAG_ENABLED"

lemma timers_ok_upd: "timers_ok ts \<Longrightarrow> (i < length ts \<Longrightarrow> timer_ok t) \<Longrightarrow> timers_ok (ts[i := t])"
  unfolding timers_ok_def
  by (cases "i < length ts") (auto simp: list_update_beyond dest!: set_update_subset_insert [THEN subsetD])

lemma timers_ok_nth: "timers_ok ts \<Longrightarrow> i < length ts \<Longrightarrow> timer_ok (ts ! i)"
  by (simp add: timers_ok_def)

lemma valid_nat: "VALID_TIMER_ID ts tim \<Longrightarrow> nat tim < length ts"
  by (auto simp: VALID_TIMER_ID_def)

lemma low_bits_cases: "(x::u32) AND 7 \<in> {0, 1, 2, 3, 4, 5, 6, 7}"
proof -
  have "x AND 7 = take_bit 3 x" by (simp add: take_bit_eq_mask mask_eq_exp_minus_1)
  then have "x AND 7 = x mod 8" by (simp add: take_bit_eq_mod)
  then have "unat (x AND 7) < 8" by (simp add: unat_mod)
  then have "unat (x AND 7) \<in> {0, 1, 2, 3, 4, 5, 6, 7}" by auto
  then have "word_of_nat (unat (x AND 7)) \<in> (word_of_nat ` {0, 1, 2, 3, 4, 5, 6, 7} :: u32 set)" by blast
  then show ?thesis by simp
qed

lemma ext_flags_cases: "(x::u32) AND TIMERS_EXT_FLAGS \<in> {0, 2, 4, 6}"
proof -
  have "x AND TIMERS_EXT_FLAGS = (x AND 7) AND 6" by (simp add: timer_flags and.assoc)
  then show ?thesis using low_bits_cases [of x] by auto
qed

lemma setup_ok:
  "timer_ok \<lparr>flags = (fl AND TIMERS_EXT_FLAGS) OR TIMERS_FLAG_INUSE, event_fn = fn, event_arg = arg, interval = usec, start = now\<rparr>"
  using ext_flags_cases [of fl] by (auto simp: timer_ok_def TIMERS_FLAG_INUSE_def)

lemma timers_add_ok:
  assumes "timers_ok ts"
  shows "timers_ok (fst (timers_add fn arg fl usec now ts))"
proof (cases "claim_loop (fl AND TIMERS_EXT_FLAGS) 0 ts")
  case (Some p)
  then obtain i us where p: "p = (i, us)" by (cases p)
  then have us: "us = ts[i := (ts ! i)\<lparr>flags := fl AND TIMERS_EXT_FLAGS\<rparr>]" using claim_loop_Some Some by blast
  have "timers_ok (timer_setup fn arg (fl AND TIMERS_EXT_FLAGS) usec now i us)"
    unfolding timer_setup_def us list_update_overwrite by (rule timers_ok_upd [OF assms setup_ok])
  then show ?thesis using Some p by (simp add: timers_add_def)
qed (simp add: timers_add_def assms)

lemma timers_start_ok: "timers_ok ts \<Longrightarrow> timer_stopped ts tim \<Longrightarrow> timers_ok (timers_start tim ts)"
  unfolding timers_start_def timer_stopped_def
  using timers_ok_nth [OF _ valid_nat, of ts tim]
  by (auto intro!: timers_ok_upd simp: timer_ok_def timer_flags)

lemma timers_stop_ok: "timers_ok ts \<Longrightarrow> timer_running ts tim \<Longrightarrow> timers_ok (timers_stop tim ts)"
  unfolding timers_stop_def timer_running_def
  using timers_ok_nth [OF _ valid_nat, of ts tim]
  by (auto intro!: timers_ok_upd simp: timer_ok_def timer_flags)

lemma timers_release_ok: "timers_ok ts \<Longrightarrow> timers_ok (timers_release tim ts)"
  by (auto intro!: timers_ok_upd simp: timers_release_def timer_ok_def)

lemma timers_run_loop_ok:
  assumes "\<And>fn arg ts w. timers_ok ts \<Longrightarrow> timers_ok (fst (fire fn arg (ts, w)))"
  shows "timers_ok ts \<Longrightarrow> timers_ok (fst (timers_run_loop fire now utime k i (ts, w)))"
proof (induction k arbitrary: i ts w)
  case (Suc k)
  obtain us v where f: "fire (event_fn (ts ! i)) (event_arg (ts ! i)) (ts, w) = (us, v)" by force
  then have us: "timers_ok us" using assms [OF Suc.prems, of "event_fn (ts ! i)" "event_arg (ts ! i)" w] by simp
  have "timers_ok (us[i := (us ! i)\<lparr>flags := flags (us ! i) AND NOT TIMERS_FLAG_ENABLED\<rparr>])"
    using timers_ok_nth [OF us, of i] by (intro timers_ok_upd [OF us]) (auto simp: timer_ok_def timer_flags)
  moreover have "timers_ok (us[i := (us ! i)\<lparr>start := utime i\<rparr>])"
    using timers_ok_nth [OF us, of i] by (intro timers_ok_upd [OF us]) (auto simp: timer_ok_def)
  ultimately show ?case using Suc f by (simp add: Let_def)
qed simp

section \<open>Properties\<close>

text \<open>
  \<open>timers_add\<close> gives the first slot that is not in use, initialised with the caller's handler, the
  allowed flags and the current time, and leaves every other slot as it was; it fails, changing
  nothing, exactly when every slot is in use.
\<close>

theorem timers_add_first_free:
  "let (us, r) = timers_add fn arg fl usec now ts
   in if \<forall>t\<in>set ts. flags t \<noteq> 0 then us = ts \<and> r = - 1
      else \<exists>i < length ts. r = int i \<and> flags (ts ! i) = 0 \<and> (\<forall>k < i. flags (ts ! k) \<noteq> 0) \<and>
        us = ts[i := \<lparr>flags = (fl AND TIMERS_EXT_FLAGS) OR TIMERS_FLAG_INUSE, event_fn = fn, event_arg = arg,
                      interval = usec, start = now\<rparr>]"
proof (cases "claim_loop (fl AND TIMERS_EXT_FLAGS) 0 ts")
  case None
  then have "\<forall>t\<in>set ts. flags t \<noteq> 0" by (auto simp: claim_loop_None in_set_conv_nth)
  then show ?thesis using None by (simp add: timers_add_def)
next
  case (Some p)
  then obtain i us where p: "p = (i, us)" by (cases p)
  then have i: "i < length ts" "flags (ts ! i) = 0" "\<forall>k < i. flags (ts ! k) \<noteq> 0"
    "us = ts[i := (ts ! i)\<lparr>flags := fl AND TIMERS_EXT_FLAGS\<rparr>]"
    using claim_loop_Some Some by (blast, blast, blast, blast)
  then have "\<not> (\<forall>t\<in>set ts. flags t \<noteq> 0)" using nth_mem by blast
  then show ?thesis using Some p i by (auto simp: timers_add_def timer_setup_def)
qed

text \<open>
  A run calls the event function of exactly those timers that are in use, enabled and whose
  interval has passed, each once and in index order; a one-shot timer is disabled, a periodic one
  restarted, and every other timer is untouched (for event functions that do not change the array).
\<close>

theorem timers_run_expires:
  assumes "\<And>fn arg ts w. fire fn arg (ts, w) = (ts, ev fn arg w)"
  shows "timers_run fire now utime (ts, w) =
    (map (\<lambda>j. expire now (utime j) (ts ! j)) [0..<length ts],
     fold (\<lambda>t. ev (event_fn t) (event_arg t)) (filter (timer_due now) ts) w)"
  using timers_run_loop_eq [OF assms, where i = 0 and k = "length ts" and ts = ts] by (simp add: timers_run_def)


definition timers_example :: timers_array where
  "timers_example = timers_start 0 (fst (timers_add 9 4 0 100 5 (replicate 2 timer_init)))"

lemma timers_example_eq:
  "timers_example = [\<lparr>flags = 3, event_fn = 9, event_arg = 4, interval = 100, start = 5\<rparr>, timer_init]"
  by (simp add: timers_example_def timers_add_def timers_start_def VALID_TIMER_ID_def timer_setup_def timer_flags
      eval_nat_numeral claim_loop.simps timer_init_def)

theorem timers_run_expires_witness:
  "timers_run (\<lambda>fn arg (ts, w). (ts, w @ [(fn, arg)])) 105 (\<lambda>_. 106) (timers_example, []) =
     ([\<lparr>flags = 1, event_fn = 9, event_arg = 4, interval = 100, start = 5\<rparr>, timer_init], [(9, 4)])"
  by (subst timers_run_expires [where ev = "\<lambda>fn arg w. w @ [(fn, arg)]"])
    (simp_all add: timers_example_eq expire_def timer_due_def timer_flags timer_init_def upt_rec)


section \<open>Outside the discipline\<close>

text \<open>The flags are changed by addition. Starting a timer twice turns the enabled flag into the
  periodic one; stopping a one-shot timer that has already fired (\<open>ksignal_sleep\<close> does, after the alarm
  has woken it) borrows through the whole word, and the slot then looks enabled and periodic. A
  one-shot timer is claimed by an exchange of zero for zero, so until its flags are stored a second
  \<open>timers_add\<close> claims the same slot. And a timer that is added disabled never becomes due, which is how
  \<open>mtx_sleep\<close> uses it for its timeout.\<close>

lemma timers_start_twice: "flags (timers_start 0 timers_example ! 0) = TIMERS_FLAG_INUSE OR TIMERS_FLAG_PERIODIC"
  by (simp add: timers_example_eq timers_start_def VALID_TIMER_ID_def timer_flags)

lemma timers_stop_after_fire:
  "flags (timers_stop 0 (timers_example[0 := expire 105 0 (timers_example ! 0)]) ! 0) = - 1"
  by (simp add: timers_example_eq timers_stop_def VALID_TIMER_ID_def expire_def timer_due_def timer_flags)

lemma oneshot_claimed_twice:
  "claim_loop (TIMERS_FLAG_ONESHOT AND TIMERS_EXT_FLAGS) 0 [timer_init] = Some (0, [timer_init]) \<and>
   claim_loop (TIMERS_FLAG_ONESHOT AND TIMERS_EXT_FLAGS) 0 (snd (0::nat, [timer_init])) = Some (0, [timer_init])"
  by (simp add: claim_loop.simps timer_init_def timer_flags)

lemma oneshot_never_due:
  assumes "timers_add fn arg TIMERS_FLAG_ONESHOT usec now ts = (us, int i)"
  shows "\<not> timer_due later (us ! i)"
proof -
  have "i < length ts \<and> us ! i = \<lparr>flags = TIMERS_FLAG_INUSE, event_fn = fn, event_arg = arg, interval = usec, start = now\<rparr>"
    using assms claim_loop_Some [of "TIMERS_FLAG_ONESHOT AND TIMERS_EXT_FLAGS" 0 ts i]
    by (auto simp: timers_add_def timer_setup_def timer_flags split: option.splits)
  then show ?thesis by (simp add: timer_due_def timer_flags)
qed

end
