(* ===== verification/Sleep.thy ===== *)
theory Sleep
  imports Sched Timers
begin

text \<open>
  The scheduler on top of the kernel timers: \<open>thread_sleep\<close>, \<open>thread_alarm\<close> and
  \<open>thread_alarm_rele\<close> of \<^verbatim>\<open>src/kern/sched/sched.c\<close> with the timer array they allocate from, and
  \<open>timers_run\<close> with the two event functions they register. The thread part of each operation is the
  one of \<open>Sched\<close>; here the timer part is added in the order of the code.
\<close>

section \<open>Operations on the timer array and the scheduler\<close>

abbreviation (input) TIMER_EVENT_SLEEP :: nat where "TIMER_EVENT_SLEEP \<equiv> 1"
abbreviation (input) TIMER_EVENT_ALARM :: nat where "TIMER_EVENT_ALARM \<equiv> 2"

text \<open>The call of an event function by \<open>timers_run\<close>; \<open>None\<close> is an access to a thread that is not there.\<close>

definition timer_fire :: "nat \<Rightarrow> nat \<Rightarrow> timers_array \<times> kern option \<Rightarrow> timers_array \<times> kern option" where
  "timer_fire fn arg s = (case s of (ts, None) \<Rightarrow> (ts, None)
     | (ts, Some k) \<Rightarrow>
         if fn = TIMER_EVENT_SLEEP
         then case thr k (int arg) of
                None \<Rightarrow> (ts, None)
              | Some th \<Rightarrow> (Timers.timers_release (wait_tim th) ts, timer_event_sleep (int arg) k)
         else (ts, timer_event_alarm (int arg) k))"

text \<open>\<open>thread_sleep\<close>; \<open>None\<close> also stands for the retry loop while no timer is free.\<close>

definition thread_sleep_timed :: "u64 \<Rightarrow> u64 \<Rightarrow> timers_array \<times> kern \<Rightarrow> (timers_array \<times> kern) option" where
  "thread_sleep_timed millisec now s =
     (let (ts, k) = s;
          (ts, timer_id) = timers_add TIMER_EVENT_SLEEP (nat (current_thread k)) TIMERS_FLAG_ONESHOT (millisec * 1000) now ts
      in if timer_id < 0 then None
         else do {
           k \<leftarrow> thread_sleep timer_id k;
           Some (timers_start timer_id ts, k) })"

definition thread_alarm_timed :: "u64 \<Rightarrow> u64 \<Rightarrow> timers_array \<times> kern \<Rightarrow> (int \<times> timers_array \<times> kern) option" where
  "thread_alarm_timed millisec now s =
     (let (ts, k) = s;
          (ts, timer_id) = timers_add TIMER_EVENT_ALARM (nat (current_thread k)) TIMERS_FLAG_ONESHOT (millisec * 1000) now ts
      in do {
           (r, k) \<leftarrow> thread_alarm timer_id k;
           Some (r, if timer_id < 0 then ts else timers_start timer_id ts, k) })"

definition thread_alarm_rele_timed :: "int \<Rightarrow> timers_array \<times> kern \<Rightarrow> (timers_array \<times> kern) option" where
  "thread_alarm_rele_timed timer_id s = do {
     let (ts, k) = s;
     k \<leftarrow> thread_alarm_rele timer_id k;
     Some (Timers.timers_release timer_id ts, k) }"

section \<open>A run with one due timer\<close>

lemma run_loop_none_due:
  "(\<And>j. i \<le> j \<Longrightarrow> j < i + k \<Longrightarrow> \<not> timer_due now (ts ! j)) \<Longrightarrow> timers_run_loop fire now utime k i (ts, w) = (ts, w)"
proof (induction k arbitrary: i)
  case (Suc k)
  have "\<not> timer_due now (ts ! i)" using Suc.prems [of i] by simp
  then show ?case using Suc.IH [of "i + 1"] Suc.prems by (simp add: Let_def)
qed simp

lemma run_one_due:
  assumes i: "i < length ts" and due: "timer_due now (ts ! i)" and once: "timer_cb.flags (ts ! i) AND TIMERS_FLAG_PERIODIC = 0"
    and others: "\<And>j. j < length ts \<Longrightarrow> j \<noteq> i \<Longrightarrow> \<not> timer_due now (ts ! j)"
    and fire: "fire (event_fn (ts ! i)) (event_arg (ts ! i)) (ts, w) = (us, v)"
    and us: "length us = length ts" "\<And>j. j \<noteq> i \<Longrightarrow> us ! j = ts ! j"
  shows "timers_run fire now utime (ts, w) =
    (us[i := (us ! i)\<lparr>timer_cb.flags := timer_cb.flags (us ! i) AND NOT TIMERS_FLAG_ENABLED\<rparr>], v)"
proof -
  define vs where "vs = us[i := (us ! i)\<lparr>timer_cb.flags := timer_cb.flags (us ! i) AND NOT TIMERS_FLAG_ENABLED\<rparr>]"
  have "timers_run_loop fire now utime (length ts - j) j (ts, w) = (vs, v)" if "j \<le> i" for j
    using that
  proof (induction "i - j" arbitrary: j)
    case 0
    obtain m where m: "length ts - j = Suc m" using i 0 by (cases "length ts - j") auto
    have "timers_run_loop fire now utime m (j + 1) (vs, v) = (vs, v)"
      using others us m 0 i by (intro run_loop_none_due) (auto simp: vs_def)
    moreover have "j = i" using 0 by simp
    ultimately show ?case using m due once fire by (simp add: Let_def vs_def)
  next
    case (Suc d)
    obtain m where m: "length ts - j = Suc m" using i Suc by (cases "length ts - j") auto
    have "\<not> timer_due now (ts ! j)" using others [of j] Suc i by auto
    moreover have "timers_run_loop fire now utime (length ts - (j + 1)) (j + 1) (ts, w) = (vs, v)"
      using Suc by auto
    moreover have "m = length ts - (j + 1)" using m by simp
    ultimately show ?case using m by (simp add: Let_def)
  qed
  from this [of 0] show ?thesis by (simp add: timers_run_def vs_def)
qed

section \<open>Going to sleep\<close>

lemma thread_sleep_timed_state:
  assumes "thread_sleep_timed ms t0 (ts, k) = Some (ts1, k1)" and "thr k (current_thread k) = Some th"
  shows "\<exists>i < length ts. timer_cb.flags (ts ! i) = 0 \<and>
    ts1 = ts[i := \<lparr>flags = 3, event_fn = TIMER_EVENT_SLEEP, event_arg = nat (current_thread k), interval = ms * 1000, start = t0\<rparr>] \<and>
    k1 = k\<lparr>thr := (thr k)(current_thread k \<mapsto> snd (thread_state_set THREAD_STATE_BLOCKED (th\<lparr>wait_tim := int i\<rparr>))), int_off := False\<rparr>"
proof -
  obtain us r where add: "timers_add TIMER_EVENT_SLEEP (nat (current_thread k)) TIMERS_FLAG_ONESHOT (ms * 1000) t0 ts = (us, r)" by force
  then have r: "0 \<le> r" using assms(1) by (auto simp: thread_sleep_timed_def split: if_splits)
  obtain i where i: "i < length ts" "r = int i" "timer_cb.flags (ts ! i) = 0"
    "us = ts[i := \<lparr>flags = 1, event_fn = TIMER_EVENT_SLEEP, event_arg = nat (current_thread k), interval = ms * 1000, start = t0\<rparr>]"
    using add r claim_loop_Some [of "TIMERS_FLAG_ONESHOT AND TIMERS_EXT_FLAGS" 0 ts]
    by (auto simp: timers_add_def timer_setup_def timer_flags split: option.splits)
  have "ts1 = timers_start r us" "thread_sleep r k = Some k1"
    using assms(1) add r by (auto simp: thread_sleep_timed_def split: option.splits bind_splits)
  then show ?thesis using i assms(2)
    by (intro exI [of _ i]) (auto simp: timers_start_def VALID_TIMER_ID_def timer_flags thread_sleep_def thread_wait_def upd_thread_def)
qed

end
