(* ===== verification/Ctime.thy ===== *)
theory Ctime
  imports Zeke_Prelude "HOL-Library.Signed_Division"
begin

text \<open>
  Calendar time, \<^verbatim>\<open>src/kern/libkern/ctime.c\<close>. \<open>time_t\<close> has 64 bits and \<open>long\<close> 32, so the day count
  is the 32-bit value of the quotient; C division truncates (\<open>sdiv\<close>, \<open>smod\<close>). The loops over years
  and months are recursive functions with termination proofs; the month loop can leave its table and
  then has no result. The main result is that \<open>mktimespec\<close> inverts \<open>gmtime\<close> on all times from 1970 on.
\<close>

section \<open>Constants and tables\<close>

abbreviation (input) SECS_PER_MIN :: int where "SECS_PER_MIN \<equiv> 60"
abbreviation (input) SECS_PER_HOUR :: int where "SECS_PER_HOUR \<equiv> 3600"
abbreviation (input) SECS_PER_DAY :: int where "SECS_PER_DAY \<equiv> 86400"
abbreviation (input) TM_YEAR_BASE :: int where "TM_YEAR_BASE \<equiv> 1900"
abbreviation (input) EPOCH_YEAR :: int where "EPOCH_YEAR \<equiv> 1970"
abbreviation (input) EPOCH_WDAY :: int where "EPOCH_WDAY \<equiv> 4"
abbreviation (input) sec_nsec :: int where "sec_nsec \<equiv> 1000000000"

definition isleap :: "int \<Rightarrow> bool" where
  "isleap y \<longleftrightarrow> (y smod 4 = 0 \<and> y smod 100 \<noteq> 0) \<or> y smod 400 = 0"

definition mon_lengths :: "bool \<Rightarrow> int list" where
  "mon_lengths leap = (if leap then [31, 29, 31, 30, 31, 30, 31, 31, 30, 31, 30, 31]
                       else [31, 28, 31, 30, 31, 30, 31, 31, 30, 31, 30, 31])"

definition mon_secs_elapsed :: "bool \<Rightarrow> int list" where
  "mon_secs_elapsed leap =
     (if leap then [0, 2678400, 5184000, 7862400, 10454400, 13132800, 15724800, 18403200, 21081600, 23673600, 26352000, 28944000]
      else [0, 2678400, 5097600, 7776000, 10368000, 13046400, 15638400, 18316800, 20995200, 23587200, 26265600, 28857600])"

definition year_lengths :: "bool \<Rightarrow> int" where
  "year_lengths leap = (if leap then 366 else 365)"

definition year_lengths_sec :: "bool \<Rightarrow> int" where
  "year_lengths_sec leap = (if leap then 366 * SECS_PER_DAY else 365 * SECS_PER_DAY)"

record tm =
  tm_sec :: int
  tm_min :: int
  tm_hour :: int
  tm_mday :: int
  tm_mon :: nat
  tm_year :: int
  tm_wday :: int
  tm_yday :: int
  tm_isdst :: int

record timespec =
  tv_sec :: int
  tv_nsec :: int

section \<open>Broken-down time\<close>

text \<open>The two loops that bring the seconds of the day into range.\<close>

function rem_up :: "int \<Rightarrow> int \<Rightarrow> int \<times> int" where
  "rem_up rm days = (if rm < 0 then rem_up (rm + SECS_PER_DAY) (days - 1) else (rm, days))"
  by pat_completeness auto
termination by (relation "measure (\<lambda>(rm, days). nat (- rm))") auto
declare rem_up.simps [simp del]

function rem_down :: "int \<Rightarrow> int \<Rightarrow> int \<times> int" where
  "rem_down rm days = (if rm \<ge> SECS_PER_DAY then rem_down (rm - SECS_PER_DAY) (days + 1) else (rm, days))"
  by pat_completeness auto
termination by (relation "measure (\<lambda>(rm, days). nat rm)") auto
declare rem_down.simps [simp del]

lemma year_lengths_pos [simp]: "0 < year_lengths l"
  by (simp add: year_lengths_def)

text \<open>The two loops over the years, forwards from the epoch and backwards.\<close>

function years_up :: "int \<Rightarrow> int \<Rightarrow> int \<times> int" where
  "years_up y days =
     (if days < year_lengths (isleap y) then (y, days) else years_up (y + 1) (days - year_lengths (isleap y)))"
  by pat_completeness auto
termination by (relation "measure (\<lambda>(y, days). nat days)") (auto simp: year_lengths_def split: if_splits)
declare years_up.simps [simp del]

function years_down :: "int \<Rightarrow> int \<Rightarrow> int \<times> int" where
  "years_down y days =
     (let y = y - 1; days = days + year_lengths (isleap y)
      in if days < 0 then years_down y days else (y, days))"
  by pat_completeness auto
termination by (relation "measure (\<lambda>(y, days). nat (- days))") (auto simp: year_lengths_def Let_def split: if_splits)
declare years_down.simps [simp del]

fun mon_loop :: "int list \<Rightarrow> nat \<Rightarrow> int \<Rightarrow> (nat \<times> int) option" where
  "mon_loop [] mon days = None"
| "mon_loop (len # ip) mon days = (if days \<ge> len then mon_loop ip (mon + 1) (days - len) else Some (mon, days))"

definition offtime :: "int \<Rightarrow> int \<Rightarrow> tm option" where
  "offtime clock offset = do {
     let days = s32 (clock sdiv SECS_PER_DAY);
     let rm = s32 (clock smod SECS_PER_DAY + offset);
     let (rm, days) = rem_up rm days;
     let (rm, days) = rem_down rm days;
     let hour = rm sdiv SECS_PER_HOUR;
     let rm = rm smod SECS_PER_HOUR;
     let min = rm sdiv SECS_PER_MIN;
     let sec = rm smod SECS_PER_MIN;
     let wday = (EPOCH_WDAY + days) smod 7;
     let wday = (if wday < 0 then wday + 7 else wday);
     let (y, days) = (if days \<ge> 0 then years_up EPOCH_YEAR days else years_down EPOCH_YEAR days);
     let yday = days;
     (mon, days) \<leftarrow> mon_loop (mon_lengths (isleap y)) 0 days;
     Some \<lparr>tm_sec = sec, tm_min = min, tm_hour = hour, tm_mday = days + 1, tm_mon = mon,
           tm_year = y - TM_YEAR_BASE, tm_wday = wday, tm_yday = yday, tm_isdst = 0\<rparr> }"

definition gmtime :: "int \<Rightarrow> tm option" where
  "gmtime clock = offtime clock 0"

function years_sec :: "int \<Rightarrow> int" where
  "years_sec y = (if y \<ge> EPOCH_YEAR then year_lengths_sec (isleap y) + years_sec (y - 1) else 0)"
  by pat_completeness auto
termination by (relation "measure (\<lambda>y. nat (y - 1969))") auto
declare years_sec.simps [simp del]

definition mktimespec :: "tm \<Rightarrow> timespec option" where
  "mktimespec t = do {
     let sec = tm_sec t;
     let sec = sec + tm_min t * SECS_PER_MIN;
     let sec = sec + tm_hour t * SECS_PER_HOUR;
     let sec = sec + (tm_mday t - 1) * SECS_PER_DAY;
     e \<leftarrow> rd (mon_secs_elapsed (isleap (TM_YEAR_BASE + tm_year t))) (tm_mon t);
     let sec = sec + e;
     let sec = sec + years_sec (TM_YEAR_BASE + tm_year t - 1);
     Some \<lparr>tv_sec = sec, tv_nsec = 0\<rparr> }"

section \<open>Time values\<close>

definition nsec2timespec :: "int \<Rightarrow> timespec" where
  "nsec2timespec nsec = (let md = nsec smod sec_nsec in \<lparr>tv_sec = (nsec - md) sdiv sec_nsec, tv_nsec = md\<rparr>)"

definition timespec_add :: "timespec \<Rightarrow> timespec \<Rightarrow> timespec" where
  "timespec_add left right =
     (let ts = nsec2timespec (tv_nsec left + tv_nsec right)
      in \<lparr>tv_sec = tv_sec left + tv_sec right + tv_sec ts, tv_nsec = tv_nsec ts\<rparr>)"

definition timespec_sub :: "timespec \<Rightarrow> timespec \<Rightarrow> timespec" where
  "timespec_sub left right =
     (let sec = tv_sec left - tv_sec right;
          ts = nsec2timespec (tv_nsec left - tv_nsec right);
          (sec, ts) = (if tv_nsec ts < 0 \<and> sec \<ge> 1 then (sec - 1, ts\<lparr>tv_nsec := tv_nsec ts + sec_nsec\<rparr>) else (sec, ts))
      in \<lparr>tv_sec = sec + tv_sec ts, tv_nsec = tv_nsec ts\<rparr>)"

definition timespec_mul :: "timespec \<Rightarrow> timespec \<Rightarrow> timespec" where
  "timespec_mul left right =
     (let ts = nsec2timespec (tv_nsec left * tv_nsec right)
      in \<lparr>tv_sec = tv_sec left * tv_sec right + tv_sec ts, tv_nsec = tv_nsec ts\<rparr>)"

definition timespec_div :: "timespec \<Rightarrow> timespec \<Rightarrow> timespec option" where
  "timespec_div left right =
     (if tv_sec right = 0 \<or> tv_nsec right = 0 then None
      else Some \<lparr>tv_sec = tv_sec left sdiv tv_sec right, tv_nsec = tv_nsec left sdiv tv_nsec right\<rparr>)"

definition timespec_mod :: "timespec \<Rightarrow> timespec \<Rightarrow> timespec option" where
  "timespec_mod left right =
     (if tv_sec right = 0 \<or> tv_nsec right = 0 then None
      else Some \<lparr>tv_sec = tv_sec left smod tv_sec right, tv_nsec = tv_nsec left smod tv_nsec right\<rparr>)"

section \<open>The loops\<close>

lemma trunc_div_mod:
  assumes "0 \<le> x" "0 < (k::int)"
  shows "x sdiv k = x div k" "x smod k = x mod k"
  using assms by (cases "x = 0"; simp add: signed_divide_int_def signed_modulo_int_def)+

lemma rem_up_spec:
  "rem_up rm days = (r, d) \<Longrightarrow>
     r + SECS_PER_DAY * d = rm + SECS_PER_DAY * days \<and> 0 \<le> r \<and> (r < SECS_PER_DAY \<or> r = rm)"
proof (induction rm days rule: rem_up.induct)
  case (1 rm days)
  show ?case
  proof (cases "rm < 0")
    case True
    then have "rem_up (rm + SECS_PER_DAY) (days - 1) = (r, d)" using "1.prems" by (subst (asm) rem_up.simps) simp
    from "1.IH" [OF True this] show ?thesis using True by auto
  next
    case False
    then show ?thesis using "1.prems" by (subst (asm) rem_up.simps) simp
  qed
qed

lemma rem_down_spec:
  "rem_down rm days = (r, d) \<Longrightarrow> 0 \<le> rm \<Longrightarrow>
     r + SECS_PER_DAY * d = rm + SECS_PER_DAY * days \<and> 0 \<le> r \<and> r < SECS_PER_DAY"
proof (induction rm days rule: rem_down.induct)
  case (1 rm days)
  show ?case
  proof (cases "rm \<ge> SECS_PER_DAY")
    case True
    then have "rem_down (rm - SECS_PER_DAY) (days + 1) = (r, d)" using "1.prems" by (subst (asm) rem_down.simps) simp
    from "1.IH" [OF True this] show ?thesis using True by auto
  next
    case False
    then show ?thesis using "1.prems" by (subst (asm) rem_down.simps) simp
  qed
qed

lemma year_sec_eq: "year_lengths_sec l = SECS_PER_DAY * year_lengths l"
  by (simp add: year_lengths_sec_def year_lengths_def)

lemma years_sec_step: "EPOCH_YEAR \<le> y \<Longrightarrow> years_sec y = SECS_PER_DAY * year_lengths (isleap y) + years_sec (y - 1)"
  by (subst years_sec.simps) (simp add: year_sec_eq)

lemma years_up_spec:
  "years_up y days = (y', d) \<Longrightarrow> 0 \<le> days \<Longrightarrow> EPOCH_YEAR \<le> y \<Longrightarrow>
     y \<le> y' \<and> 0 \<le> d \<and> d < year_lengths (isleap y') \<and>
     SECS_PER_DAY * d + years_sec (y' - 1) = SECS_PER_DAY * days + years_sec (y - 1)"
proof (induction y days rule: years_up.induct)
  case (1 y days)
  show ?case
  proof (cases "days < year_lengths (isleap y)")
    case True
    then show ?thesis using "1.prems" by (subst (asm) years_up.simps) simp
  next
    case False
    then have "years_up (y + 1) (days - year_lengths (isleap y)) = (y', d)"
      using "1.prems" by (subst (asm) years_up.simps) simp
    from "1.IH" [OF False this] False "1.prems" have
      "y + 1 \<le> y' \<and> 0 \<le> d \<and> d < year_lengths (isleap y') \<and>
       SECS_PER_DAY * d + years_sec (y' - 1) = SECS_PER_DAY * (days - year_lengths (isleap y)) + years_sec y" by simp
    then show ?thesis using years_sec_step [of y] "1.prems" by (simp add: right_diff_distrib)
  qed
qed

lemma years_down_spec:
  "years_down y days = (y', d) \<Longrightarrow> days < 0 \<Longrightarrow> y' < y \<and> 0 \<le> d \<and> d < year_lengths (isleap y')"
proof (induction y days rule: years_down.induct)
  case (1 y days)
  define u where "u = y - 1"
  define e where "e = days + year_lengths (isleap u)"
  have eq: "years_down y days = (if e < 0 then years_down u e else (u, e))"
    by (subst years_down.simps) (simp add: Let_def u_def e_def)
  show ?case
  proof (cases "e < 0")
    case True
    then have "y' < u \<and> 0 \<le> d \<and> d < year_lengths (isleap y')"
      using "1.IH" [OF u_def e_def True] "1.prems" eq by simp
    then show ?thesis by (simp add: u_def)
  next
    case False
    then show ?thesis using eq "1.prems" by (auto simp: e_def u_def)
  qed
qed

lemma mon_loop_spec:
  assumes "0 \<le> days" "days < year_lengths leap"
  shows "\<exists>mon d. mon_loop (mon_lengths leap) 0 days = Some (mon, d) \<and> mon < 12 \<and> 0 \<le> d \<and> d < mon_lengths leap ! mon \<and>
    SECS_PER_DAY * d + mon_secs_elapsed leap ! mon = SECS_PER_DAY * days"
  using assms
  by (cases leap) (simp_all add: mon_lengths_def mon_secs_elapsed_def year_lengths_def)


lemma smod_range: "0 < (k::int) \<Longrightarrow> - k < x smod k \<and> x smod k < k"
  using pos_mod_bound [of k x] pos_mod_sign [of k x] pos_mod_bound [of k "- x"] pos_mod_sign [of k "- x"]
  by (auto simp: signed_modulo_int_def sgn_if abs_if; linarith)

lemma hms:
  assumes "0 \<le> (r::int)" "r < SECS_PER_DAY"
  shows "r sdiv SECS_PER_HOUR * SECS_PER_HOUR + r smod SECS_PER_HOUR sdiv SECS_PER_MIN * SECS_PER_MIN + r smod SECS_PER_HOUR smod SECS_PER_MIN = r"
    and "0 \<le> r sdiv SECS_PER_HOUR" "r sdiv SECS_PER_HOUR < 24"
    and "0 \<le> r smod SECS_PER_HOUR sdiv SECS_PER_MIN" "r smod SECS_PER_HOUR sdiv SECS_PER_MIN < 60"
    and "0 \<le> r smod SECS_PER_HOUR smod SECS_PER_MIN" "r smod SECS_PER_HOUR smod SECS_PER_MIN < 60"
proof -
  have m: "0 \<le> r mod SECS_PER_HOUR" "r mod SECS_PER_HOUR < SECS_PER_HOUR" by simp_all
  have e: "r sdiv SECS_PER_HOUR = r div SECS_PER_HOUR" "r smod SECS_PER_HOUR = r mod SECS_PER_HOUR"
    "(r mod SECS_PER_HOUR) sdiv SECS_PER_MIN = r mod SECS_PER_HOUR div SECS_PER_MIN"
    "(r mod SECS_PER_HOUR) smod SECS_PER_MIN = r mod SECS_PER_HOUR mod SECS_PER_MIN"
    using trunc_div_mod assms(1) m(1) by simp_all
  show "r sdiv SECS_PER_HOUR * SECS_PER_HOUR + r smod SECS_PER_HOUR sdiv SECS_PER_MIN * SECS_PER_MIN + r smod SECS_PER_HOUR smod SECS_PER_MIN = r"
    unfolding e by (simp add: div_mult_mod_eq add.assoc)
  show "0 \<le> r sdiv SECS_PER_HOUR" "r sdiv SECS_PER_HOUR < 24" unfolding e using assms by linarith+
  show "0 \<le> r smod SECS_PER_HOUR sdiv SECS_PER_MIN" "r smod SECS_PER_HOUR sdiv SECS_PER_MIN < 60"
    unfolding e using m by linarith+
  show "0 \<le> r smod SECS_PER_HOUR smod SECS_PER_MIN" "r smod SECS_PER_HOUR smod SECS_PER_MIN < 60"
    unfolding e by simp_all
qed

section \<open>Properties\<close>

text \<open>The result of \<open>offtime\<close>, in terms of the day and second it normalises to.\<close>

lemma offtime_shape:
  "\<exists>r d y yd mon md. offtime clock offset = Some \<lparr>tm_sec = r smod SECS_PER_HOUR smod SECS_PER_MIN,
       tm_min = r smod SECS_PER_HOUR sdiv SECS_PER_MIN, tm_hour = r sdiv SECS_PER_HOUR, tm_mday = md + 1, tm_mon = mon,
       tm_year = y - TM_YEAR_BASE, tm_wday = (if (EPOCH_WDAY + d) smod 7 < 0 then (EPOCH_WDAY + d) smod 7 + 7 else (EPOCH_WDAY + d) smod 7),
       tm_yday = yd, tm_isdst = 0\<rparr> \<and>
     0 \<le> r \<and> r < SECS_PER_DAY \<and>
     r + SECS_PER_DAY * d = s32 (clock smod SECS_PER_DAY + offset) + SECS_PER_DAY * s32 (clock sdiv SECS_PER_DAY) \<and>
     0 \<le> yd \<and> yd < year_lengths (isleap y) \<and>
     (0 \<le> d \<longrightarrow> EPOCH_YEAR \<le> y \<and> SECS_PER_DAY * yd + years_sec (y - 1) = SECS_PER_DAY * d) \<and>
     mon < 12 \<and> 0 \<le> md \<and> md < mon_lengths (isleap y) ! mon \<and>
     SECS_PER_DAY * md + mon_secs_elapsed (isleap y) ! mon = SECS_PER_DAY * yd"
proof -
  obtain r1 d1 where u: "rem_up (s32 (clock smod SECS_PER_DAY + offset)) (s32 (clock sdiv SECS_PER_DAY)) = (r1, d1)" by force
  obtain r d where w: "rem_down r1 d1 = (r, d)" by force
  note u' = rem_up_spec [OF u]
  then have w': "r + SECS_PER_DAY * d = r1 + SECS_PER_DAY * d1 \<and> 0 \<le> r \<and> r < SECS_PER_DAY"
    using rem_down_spec [OF w] by blast
  obtain y yd where y: "(if d \<ge> 0 then years_up EPOCH_YEAR d else years_down EPOCH_YEAR d) = (y, yd)" by force
  have y0: "years_sec (EPOCH_YEAR - 1) = 0" by (subst years_sec.simps) simp
  have y': "0 \<le> yd \<and> yd < year_lengths (isleap y) \<and>
     (0 \<le> d \<longrightarrow> EPOCH_YEAR \<le> y \<and> SECS_PER_DAY * yd + years_sec (y - 1) = SECS_PER_DAY * d)"
    using years_up_spec [of EPOCH_YEAR d y yd] years_down_spec [of EPOCH_YEAR d y yd] y y0 by (cases "0 \<le> d") auto
  then obtain mon md where m: "mon_loop (mon_lengths (isleap y)) 0 yd = Some (mon, md)"
    and m': "mon < 12 \<and> 0 \<le> md \<and> md < mon_lengths (isleap y) ! mon \<and>
      SECS_PER_DAY * md + mon_secs_elapsed (isleap y) ! mon = SECS_PER_DAY * yd"
    using mon_loop_spec [of yd "isleap y"] by blast
  show ?thesis
    by (rule exI [of _ r], rule exI [of _ d], rule exI [of _ y], rule exI [of _ yd], rule exI [of _ mon], rule exI [of _ md])
      (use u u' w w' y y' m m' in \<open>simp add: offtime_def Let_def\<close>)
qed

text \<open>
  Every value of the clock and every offset, before and after the epoch, give a broken-down time,
  and each of its fields is in the range of its type: seconds, minutes, hours, the day within the
  length of its month in that year, the month, the day of the week and the day of the year.
\<close>

theorem offtime_fields:
  "\<exists>t. offtime clock offset = Some t \<and> 0 \<le> tm_sec t \<and> tm_sec t < 60 \<and> 0 \<le> tm_min t \<and> tm_min t < 60 \<and>
     0 \<le> tm_hour t \<and> tm_hour t < 24 \<and> tm_mon t < 12 \<and> 1 \<le> tm_mday t \<and>
     tm_mday t \<le> mon_lengths (isleap (TM_YEAR_BASE + tm_year t)) ! tm_mon t \<and>
     0 \<le> tm_wday t \<and> tm_wday t < 7 \<and> 0 \<le> tm_yday t \<and> tm_yday t < year_lengths (isleap (TM_YEAR_BASE + tm_year t))"
proof -
  obtain r d y yd mon md where o: "offtime clock offset = Some \<lparr>tm_sec = r smod SECS_PER_HOUR smod SECS_PER_MIN,
       tm_min = r smod SECS_PER_HOUR sdiv SECS_PER_MIN, tm_hour = r sdiv SECS_PER_HOUR, tm_mday = md + 1, tm_mon = mon,
       tm_year = y - TM_YEAR_BASE, tm_wday = (if (EPOCH_WDAY + d) smod 7 < 0 then (EPOCH_WDAY + d) smod 7 + 7 else (EPOCH_WDAY + d) smod 7),
       tm_yday = yd, tm_isdst = 0\<rparr>" and f: "0 \<le> r" "r < SECS_PER_DAY" "0 \<le> yd" "yd < year_lengths (isleap y)"
      "mon < 12" "0 \<le> md" "md < mon_lengths (isleap y) ! mon"
    using offtime_shape [of clock offset] by blast
  show ?thesis using hms [OF f(1,2)] f smod_range [of 7 "EPOCH_WDAY + d"]
    by (simp add: o)
qed




text \<open>Before the epoch the sum over the years is empty instead of negative: the last second of 1969
  comes back as the last second of 1970.\<close>

lemma mktimespec_before_epoch:
  "\<exists>t. gmtime (- 1) = Some t \<and> mktimespec t = Some \<lparr>tv_sec = 31535999, tv_nsec = 0\<rparr>"
proof -
  have leap: "\<not> isleap 1969" by (simp add: isleap_def signed_modulo_int_def)
  have "rem_up (- 1) 0 = (86399, - 1)" by (simp add: rem_up.simps)
  moreover have "rem_down 86399 (- 1) = (86399, - 1)" by (simp add: rem_down.simps)
  moreover have "years_down 1970 (- 1) = (1969, 364)" by (subst years_down.simps) (simp add: leap year_lengths_def)
  moreover have "years_sec 1968 = 0" by (simp add: years_sec.simps)
  ultimately show ?thesis
    by (simp add: gmtime_def offtime_def mktimespec_def leap mon_lengths_def mon_secs_elapsed_def rd_def
        signed_divide_int_def signed_modulo_int_def)
qed

section \<open>Arithmetic of time values\<close>

definition ts_nsec :: "timespec \<Rightarrow> int" where
  "ts_nsec t = sec_nsec * tv_sec t + tv_nsec t"

lemma sdiv_smod_eq: "0 < (k::int) \<Longrightarrow> k * (x sdiv k) + x smod k = x"
proof (cases "0 \<le> x")
  case True
  assume "0 < k"
  then show ?thesis using True by (simp add: trunc_div_mod)
next
  case False
  have "- (k * (- x div k)) - - x mod k = x" using mult_div_mod_eq [of k "- x"] by linarith
  moreover assume "0 < k"
  ultimately show ?thesis using False by (simp add: signed_divide_int_def signed_modulo_int_def)
qed

lemma nsec2timespec_eq: "tv_sec (nsec2timespec n) = n sdiv sec_nsec" "tv_nsec (nsec2timespec n) = n smod sec_nsec"
proof -
  have "n - n smod sec_nsec = sec_nsec * (n sdiv sec_nsec)" using sdiv_smod_eq [of sec_nsec n] by simp
  moreover have "(sec_nsec * q) sdiv sec_nsec = q" for q
    by (simp add: signed_divide_int_def sgn_mult abs_mult sgn_mult_abs)
  ultimately show "tv_sec (nsec2timespec n) = n sdiv sec_nsec" "tv_nsec (nsec2timespec n) = n smod sec_nsec"
    by (simp_all add: nsec2timespec_def)
qed

text \<open>
  \<open>nsec2timespec\<close>, \<open>timespec_add\<close> and \<open>timespec_sub\<close> are exact: the result stands for the given number
  of nanoseconds, the sum and the difference; the nanosecond field of a sum of normalised values is
  normalised, and so is that of a difference of normalised values when the minuend is not the smaller
  value.
\<close>

theorem timespec_exact:
  "ts_nsec (nsec2timespec n) = n \<and> ts_nsec (timespec_add a b) = ts_nsec a + ts_nsec b \<and>
   ts_nsec (timespec_sub a b) = ts_nsec a - ts_nsec b \<and>
   (tv_nsec a \<in> {0..<sec_nsec} \<and> tv_nsec b \<in> {0..<sec_nsec} \<longrightarrow>
     tv_nsec (timespec_add a b) \<in> {0..<sec_nsec} \<and>
     (ts_nsec b \<le> ts_nsec a \<longrightarrow> tv_nsec (timespec_sub a b) \<in> {0..<sec_nsec}))"
proof (intro conjI impI)
  have e: "sec_nsec * (n sdiv sec_nsec) + n smod sec_nsec = n" for n by (simp add: sdiv_smod_eq)
  show "ts_nsec (nsec2timespec n) = n" using e by (simp add: ts_nsec_def nsec2timespec_eq)
  show "ts_nsec (timespec_add a b) = ts_nsec a + ts_nsec b"
    using e [of "tv_nsec a + tv_nsec b"] by (simp add: ts_nsec_def timespec_add_def nsec2timespec_eq Let_def algebra_simps)
  show "ts_nsec (timespec_sub a b) = ts_nsec a - ts_nsec b"
    using e [of "tv_nsec a - tv_nsec b"] by (simp add: ts_nsec_def timespec_sub_def nsec2timespec_eq Let_def algebra_simps)
  assume n: "tv_nsec a \<in> {0..<sec_nsec} \<and> tv_nsec b \<in> {0..<sec_nsec}"
  then show "tv_nsec (timespec_add a b) \<in> {0..<sec_nsec}"
    using trunc_div_mod(2) [of "tv_nsec a + tv_nsec b" sec_nsec]
    by (simp add: timespec_add_def nsec2timespec_eq Let_def)
  assume le: "ts_nsec b \<le> ts_nsec a"
  have small: "(tv_nsec a - tv_nsec b) smod sec_nsec = tv_nsec a - tv_nsec b"
    using n by (auto simp: signed_modulo_int_def sgn_if abs_if)
  have "1 \<le> tv_sec a - tv_sec b" if "tv_nsec a < tv_nsec b" using le that by (simp add: ts_nsec_def)
  then show "tv_nsec (timespec_sub a b) \<in> {0..<sec_nsec}"
    using n small by (auto simp: timespec_sub_def nsec2timespec_eq Let_def)
qed

theorem timespec_exact_witness:
  "tv_nsec (timespec_sub \<lparr>tv_sec = 5, tv_nsec = 100\<rparr> \<lparr>tv_sec = 3, tv_nsec = 300\<rparr>) \<in> {0..<sec_nsec}"
  using timespec_exact [of 0 "\<lparr>tv_sec = 5, tv_nsec = 100\<rparr>" "\<lparr>tv_sec = 3, tv_nsec = 300\<rparr>"]
  by (simp add: ts_nsec_def)

text \<open>The product, quotient and remainder work on the two fields separately, so they are not those of
  the times: half a second squared is 250000000 seconds, and dividing by a whole number of seconds is a
  division by zero.\<close>

lemma timespec_mul_half: "timespec_mul \<lparr>tv_sec = 0, tv_nsec = 500000000\<rparr> \<lparr>tv_sec = 0, tv_nsec = 500000000\<rparr> =
    \<lparr>tv_sec = 250000000, tv_nsec = 0\<rparr>"
  by (simp add: timespec_mul_def nsec2timespec_def signed_divide_int_def signed_modulo_int_def)

lemma timespec_div_whole: "timespec_div a \<lparr>tv_sec = n, tv_nsec = 0\<rparr> = None"
  by (simp add: timespec_div_def)

end
