(* ===== verification/Segtree.thy ===== *)
theory Segtree
  imports Kmalloc
begin

text \<open>
  Segment trees, \<^verbatim>\<open>src/kern/libkern/segtree/segtree.c\<close>: an array of twice a power of two object
  pointers in which every inner node holds the better of its two children. The comparison function is
  the client's, so it is an argument; \<open>segt_order\<close> states what \<^verbatim>\<open>segtree.h\<close> asks of it, a minimum or
  maximum with a rule for NULL. The result is that \<open>segt_find\<close> is the best of the range, for every
  sequence of alterations, and that both loops end inside the array.
\<close>

section \<open>Operations\<close>

record segt =
  seg_n :: nat
  seg_arr :: "nat list"

definition round_up :: "u32 \<Rightarrow> u32" where
  "round_up n =
     (let n = n - 1;
          n = n OR drop_bit 1 n;
          n = n OR drop_bit 2 n;
          n = n OR drop_bit 4 n;
          n = n OR drop_bit 8 n;
          n = n OR drop_bit 16 n
      in n + 1)"

text \<open>The structure is a block of the kernel heap with room for as many pointers as the size that was
  asked for, which wraps; \<open>None\<close> is the access through the NULL that
  \<open>kzalloc\<close> returns when there is no memory.\<close>

definition segt_init :: "u32 \<Rightarrow> kheap \<Rightarrow> (nat \<times> segt \<times> kheap) option" where
  "segt_init n k = do {
     let n = unat (round_up n);
     (s, k) \<leftarrow> kzalloc (szt (8 + szt (2 * n * 4))) k;
     if s = 0 then None
     else Some (s, \<lparr>seg_n = n, seg_arr = replicate (szt (2 * n * 4) div 4) 0\<rparr>, k) }"

definition segt_free :: "nat \<Rightarrow> kheap \<Rightarrow> kheap option" where
  "segt_free s k = kfree s k"

function alt_loop :: "(nat \<Rightarrow> nat \<Rightarrow> nat) \<Rightarrow> nat \<Rightarrow> nat list \<Rightarrow> nat list option" where
  "alt_loop cmp k arr =
     (if k \<ge> 1 then do {
        let j = 2 * k;
        l \<leftarrow> rd arr j;
        r \<leftarrow> rd arr (j + 1);
        arr \<leftarrow> wr arr k (cmp l r);
        alt_loop cmp (k div 2) arr }
      else Some arr)"
  by pat_completeness auto
termination by (relation "measure (\<lambda>(cmp, k, arr). k)") auto
declare alt_loop.simps [simp del]

definition segt_alt :: "(nat \<Rightarrow> nat \<Rightarrow> nat) \<Rightarrow> segt \<Rightarrow> nat \<Rightarrow> nat \<Rightarrow> segt option" where
  "segt_alt cmp s k x = do {
     let k = szt (k + seg_n s);
     arr \<leftarrow> wr (seg_arr s) k x;
     arr \<leftarrow> alt_loop cmp (k div 2) arr;
     Some (s\<lparr>seg_arr := arr\<rparr>) }"

partial_function (option) find_loop :: "(nat \<Rightarrow> nat \<Rightarrow> nat) \<Rightarrow> nat list \<Rightarrow> nat \<Rightarrow> nat \<Rightarrow> nat \<Rightarrow> nat option" where
  "find_loop cmp arr a b q =
     (if a \<le> b then do {
        (q, a) \<leftarrow> (if a mod 2 = 1 then do {
                    pa \<leftarrow> rd arr a;
                    let p = cmp q pa;
                    Some (if p \<noteq> 0 then p else q, a + 1) }
                  else Some (q, a));
        (q, b) \<leftarrow> (if b mod 2 = 0 then do {
                    pb \<leftarrow> rd arr b;
                    let p = cmp q pb;
                    Some (if p \<noteq> 0 then p else q, szt (b + (2 ^ 32 - 1))) }
                  else Some (q, b));
        find_loop cmp arr (a div 2) (b div 2) q }
      else Some q)"

definition segt_find :: "(nat \<Rightarrow> nat \<Rightarrow> nat) \<Rightarrow> segt \<Rightarrow> nat \<Rightarrow> nat \<Rightarrow> nat option" where
  "segt_find cmp s a b = do {
     let a = szt (a + seg_n s);
     let b = szt (b + seg_n s);
     q \<leftarrow> rd (seg_arr s) a;
     find_loop cmp (seg_arr s) a b q }"

section \<open>The size of a tree\<close>

text \<open>Smearing the bits down sets every bit below the highest one.\<close>

lemma smear_bits:
  "bit ((let n = m; n = n OR drop_bit 1 n; n = n OR drop_bit 2 n; n = n OR drop_bit 4 n; n = n OR drop_bit 8 n;
      n = n OR drop_bit 16 n in n) :: u32) i \<longleftrightarrow> (\<exists>d < 32. bit m (i + d))"
proof -
  have step: "(\<exists>d < k. bit x (i + d)) \<or> (\<exists>d < k. bit x (k + i + d)) \<longleftrightarrow> (\<exists>d < 2 * k. bit x (i + d))" for k i :: nat and x :: u32
  proof -
    have "(\<exists>d < 2 * k. bit x (i + d)) \<longleftrightarrow> (\<exists>d < k. bit x (i + d)) \<or> (\<exists>d. k \<le> d \<and> d < 2 * k \<and> bit x (i + d))"
      by (metis le_eq_less_or_eq linorder_not_less mult_2 trans_less_add1)
    moreover have "(\<exists>d. k \<le> d \<and> d < 2 * k \<and> bit x (i + d)) \<longleftrightarrow> (\<exists>d < k. bit x (k + i + d))"
      by (metis (no_types, opaque_lifting) add.assoc add.commute add_less_cancel_left le_add1 le_iff_add mult_2)
    ultimately show ?thesis by blast
  qed
  define x1 where "x1 = m OR drop_bit 1 m"
  define x2 where "x2 = x1 OR drop_bit 2 x1"
  define x3 where "x3 = x2 OR drop_bit 4 x2"
  define x4 where "x4 = x3 OR drop_bit 8 x3"
  define x5 where "x5 = x4 OR drop_bit 16 x4"
  have b1: "bit x1 i \<longleftrightarrow> (\<exists>d < 2. bit m (i + d))" for i
    using step [of 1 m i] by (simp add: x1_def bit_simps add.commute numeral_2_eq_2)
  have b2: "bit x2 i \<longleftrightarrow> (\<exists>d < 4. bit m (i + d))" for i
    using step [of 2 m i] by (simp add: x2_def bit_simps b1 add.commute)
  have b3: "bit x3 i \<longleftrightarrow> (\<exists>d < 8. bit m (i + d))" for i
    using step [of 4 m i] by (simp add: x3_def bit_simps b2 add.commute)
  have b4: "bit x4 i \<longleftrightarrow> (\<exists>d < 16. bit m (i + d))" for i
    using step [of 8 m i] by (simp add: x4_def bit_simps b3 add.commute)
  have b5: "bit x5 i \<longleftrightarrow> (\<exists>d < 32. bit m (i + d))" for i
    using step [of 16 m i] by (simp add: x5_def bit_simps b4 add.commute)
  show ?thesis using b5 by (simp add: x1_def x2_def x3_def x4_def x5_def Let_def)
qed


lemma high_bit: "(\<exists>j \<ge> i. bit (a::nat) j) \<longleftrightarrow> 2 ^ i \<le> a"
proof
  assume "\<exists>j \<ge> i. bit a j"
  then obtain j where j: "i \<le> j" "bit a j" by blast
  then have "2 ^ j \<le> a" by (metis bit_iff_odd div_less even_zero linorder_not_less)
  moreover have "(2::nat) ^ i \<le> 2 ^ j" using j by simp
  ultimately show "2 ^ i \<le> a" by linarith
next
  assume le: "2 ^ i \<le> a"
  show "\<exists>j \<ge> i. bit a j"
  proof (rule ccontr)
    assume "\<not> (\<exists>j \<ge> i. bit a j)"
    then have "take_bit i a = a" by (intro bit_eqI) (auto simp: bit_take_bit_iff, meson not_le)
    then show False using le take_bit_nat_less_exp [of i a] by simp
  qed
qed

lemma round_up_power:
  assumes "1 \<le> unat n" "unat n \<le> 2 ^ 31"
  shows "\<exists>k. unat (round_up n) = 2 ^ k \<and> unat n \<le> 2 ^ k \<and> 2 ^ k < 2 * unat n"
proof -
  define m where "m = n - 1"
  have m: "unat m = unat n - 1" using assms(1) unfolding m_def by (metis One_nat_def less_eq_Suc_le unat_1 unat_sub word_le_nat_alt)
  define k where "k = (LEAST k. unat m < 2 ^ k)"
  have k31: "unat m < 2 ^ 31" using m assms by linarith
  have lt: "unat m < 2 ^ k" unfolding k_def by (rule LeastI [of _ 31]) (rule k31)
  have least: "2 ^ i \<le> unat m" if "i < k" for i using not_less_Least [of i] that unfolding k_def by (meson not_le)
  have k: "k \<le> 31" unfolding k_def by (rule Least_le) (rule k31)
  have iff: "2 ^ i \<le> unat m \<longleftrightarrow> i < k" for i
  proof
    assume "2 ^ i \<le> unat m"
    then have "(2::nat) ^ i < 2 ^ k" using lt by linarith
    then show "i < k" by simp
  qed (rule least)
  define x where "x = (let n = m; n = n OR drop_bit 1 n; n = n OR drop_bit 2 n; n = n OR drop_bit 4 n; n = n OR drop_bit 8 n;
      n = n OR drop_bit 16 n in n)"
  have "x = mask k"
  proof (rule bit_word_eqI)
    fix i assume "i < LENGTH(32)"
    have "(\<exists>d < 32. bit m (i + d)) \<longleftrightarrow> (\<exists>j \<ge> i. bit (unat m) j)"
    proof
      assume "\<exists>j \<ge> i. bit (unat m) j"
      then obtain j where j: "i \<le> j" "bit m j" by (auto simp: bit_unsigned_iff)
      then have "j < 32" using bit_imp_le_length [of m j] by simp
      then show "\<exists>d < 32. bit m (i + d)" using j by (intro exI [of _ "j - i"]) auto
    next
      assume "\<exists>d < 32. bit m (i + d)"
      then show "\<exists>j \<ge> i. bit (unat m) j" by (auto simp: bit_unsigned_iff intro: le_add1)
    qed
    then show "bit x i \<longleftrightarrow> bit (mask k :: u32) i"
      using \<open>i < LENGTH(32)\<close> iff [of i] high_bit [of i "unat m"] unfolding x_def smear_bits by (simp add: bit_mask_iff)
  qed
  moreover have "round_up n = x + 1" by (simp add: round_up_def x_def m_def Let_def)
  ultimately have "round_up n = 2 ^ k" by (simp add: mask_eq_exp_minus_1)
  moreover have "unat (2 ^ k :: u32) = 2 ^ k" 
    using unat_of_nat_small [where 'a = 32, of "2 ^ k"] power_strict_increasing [of k 32 "2::nat"] k by simp
  moreover have "unat n \<le> 2 ^ k" using lt m by simp
  moreover have "2 ^ k < 2 * unat n"
  proof (cases k)
    case 0
    then show ?thesis using assms by simp
  next
    case (Suc j)
    then have "2 ^ j \<le> unat m" using least [of j] by simp
    then show ?thesis using Suc m assms by simp
  qed
  ultimately show ?thesis by metis
qed


section \<open>The best of a range\<close>

definition segt_order :: "(nat \<Rightarrow> nat \<Rightarrow> nat) \<Rightarrow> bool" where
  "segt_order cmp \<longleftrightarrow> (\<forall>a b c. cmp (cmp a b) c = cmp a (cmp b c)) \<and> (\<forall>a b. cmp a b = cmp b a) \<and>
     (\<forall>a b. cmp a b = a \<or> cmp a b = b) \<and> (\<forall>a. cmp 0 a = a)"

definition best :: "(nat \<Rightarrow> nat \<Rightarrow> nat) \<Rightarrow> nat list \<Rightarrow> nat" where
  "best cmp xs = foldr cmp xs 0"

lemma segt_orderD:
  assumes "segt_order cmp"
  shows "cmp (cmp a b) c = cmp a (cmp b c)" "cmp a b = cmp b a" "cmp 0 a = a" "cmp a 0 = a" "cmp a a = a"
    "cmp a (cmp b c) = cmp b (cmp a c)" "cmp a (cmp a b) = cmp a b"
  using assms unfolding segt_order_def by metis+

lemma best_append: "segt_order cmp \<Longrightarrow> best cmp (xs @ ys) = cmp (best cmp xs) (best cmp ys)"
  by (induction xs) (simp_all add: best_def segt_orderD)

text \<open>The nodes \<open>a\<close> to \<open>b\<close> of one level.\<close>

definition row :: "nat list \<Rightarrow> nat \<Rightarrow> nat \<Rightarrow> nat list" where
  "row arr a b = map (\<lambda>k. arr ! k) [a..<Suc b]"

lemma row_empty: "b < a \<Longrightarrow> row arr a b = []"
  by (simp add: row_def)

lemma row_first: "a \<le> b \<Longrightarrow> row arr a b = arr ! a # row arr (a + 1) b"
  by (simp add: row_def upt_rec)

lemma row_last: "a \<le> b \<Longrightarrow> 1 \<le> b \<Longrightarrow> row arr a b = row arr a (b - 1) @ [arr ! b]"
  by (cases b) (simp_all add: row_def)

definition tree_ok :: "(nat \<Rightarrow> nat \<Rightarrow> nat) \<Rightarrow> segt \<Rightarrow> bool" where
  "tree_ok cmp s \<longleftrightarrow> length (seg_arr s) = 2 * seg_n s \<and> 1 \<le> seg_n s \<and> 2 * seg_n s < 2 ^ 32 \<and>
     (\<forall>k. 1 \<le> k \<and> k < seg_n s \<longrightarrow> seg_arr s ! k = cmp (seg_arr s ! (2 * k)) (seg_arr s ! (2 * k + 1)))"

definition leaves :: "segt \<Rightarrow> nat list" where
  "leaves s = drop (seg_n s) (seg_arr s)"

text \<open>A row of pairs of siblings has the same best as the row of their parents.\<close>

lemma best_parents:
  assumes cmp: "segt_order cmp" and ok: "tree_ok cmp s" and c: "1 \<le> c" "d < seg_n s"
  shows "best cmp (row (seg_arr s) (2 * c) (2 * d + 1)) = best cmp (row (seg_arr s) c d)"
proof (cases "c \<le> d + 1")
  case True
  then show ?thesis using c(1)
  proof (induction "d + 1 - c" arbitrary: c)
    case 0
    then show ?case by (simp add: row_empty)
  next
    case (Suc m)
    then have le: "c \<le> d" by simp
    have "row (seg_arr s) (2 * c) (2 * d + 1) = seg_arr s ! (2 * c) # seg_arr s ! (2 * c + 1) # row (seg_arr s) (2 * (c + 1)) (2 * d + 1)"
      using le row_first [of "2 * c" "2 * d + 1" "seg_arr s"] row_first [of "2 * c + 1" "2 * d + 1" "seg_arr s"] by simp
    moreover have "best cmp (row (seg_arr s) (2 * (c + 1)) (2 * d + 1)) = best cmp (row (seg_arr s) (c + 1) d)"
      using Suc by (intro Suc.hyps(1)) auto
    moreover have "seg_arr s ! c = cmp (seg_arr s ! (2 * c)) (seg_arr s ! (2 * c + 1))"
      using ok le c(2) Suc.prems by (simp add: tree_ok_def)
    ultimately show ?case using row_first [OF le, of "seg_arr s"] cmp by (simp add: best_def segt_orderD)
  qed
next
  case False
  then show ?thesis by (simp add: row_empty)
qed

lemma keep_best: "segt_order cmp \<Longrightarrow> (if cmp q p \<noteq> 0 then cmp q p else q) = cmp q p"
  using segt_orderD(3,4) [of cmp] unfolding segt_order_def by metis

lemma find_loop_best:
  assumes cmp: "segt_order cmp" and ok: "tree_ok cmp s"
  shows "1 \<le> a \<Longrightarrow> b < 2 * seg_n s \<Longrightarrow> a \<le> b + 1 \<Longrightarrow>
    find_loop cmp (seg_arr s) a b q = Some (cmp q (best cmp (row (seg_arr s) a b)))"
proof (induction b arbitrary: a q rule: less_induct)
  case (less b)
  show ?case
  proof (cases "a \<le> b")
    case False
    then show ?thesis using cmp by (subst find_loop.simps) (simp add: row_empty best_def segt_orderD)
  next
    case True
    let ?arr = "seg_arr s"
    define a' where "a' = (if a mod 2 = 1 then a + 1 else a)"
    define b' where "b' = (if b mod 2 = 0 then b - 1 else b)"
    define q1 where "q1 = (if a mod 2 = 1 then cmp q (?arr ! a) else q)"
    define q2 where "q2 = (if b mod 2 = 0 then cmp q1 (?arr ! b) else q1)"
    have len: "length ?arr = 2 * seg_n s" "2 * seg_n s < 2 ^ 32" using ok by (simp_all add: tree_ok_def)
    have wrap: "szt (b + (2 ^ 32 - 1)) = b - 1" using True less.prems len by (simp add: szt_def mod_if)
    have step: "find_loop cmp ?arr a b q = find_loop cmp ?arr (a' div 2) (b' div 2) q2"
      using True less.prems len keep_best [OF cmp] wrap
      by (subst find_loop.simps) (simp add: rd_def a'_def b'_def q1_def q2_def Let_def)
    have ev: "a' = 2 * (a' div 2)" "b' = 2 * (b' div 2) + 1"
      using True less.prems by (simp_all add: a'_def b'_def) presburger+
    have lt: "b' div 2 < b" "1 \<le> a' div 2" "b' div 2 < 2 * seg_n s" "b' div 2 < seg_n s" "a' div 2 \<le> b' div 2 + 1"
      using True less.prems by (simp_all add: a'_def b'_def) presburger+
    have IH: "find_loop cmp ?arr (a' div 2) (b' div 2) q2 = Some (cmp q2 (best cmp (row ?arr (a' div 2) (b' div 2))))"
      using less.IH [OF lt(1,2,3,5)] .
    have par: "best cmp (row ?arr a' b') = best cmp (row ?arr (a' div 2) (b' div 2))"
      using best_parents [OF cmp ok lt(2,4)] ev by simp
    have A: "cmp q (best cmp (row ?arr a b)) = cmp q1 (best cmp (row ?arr a' b))"
      using row_first [OF True, of ?arr] cmp by (simp add: q1_def a'_def best_def segt_orderD)
    have B: "cmp q1 (best cmp (row ?arr a' b)) = cmp q2 (best cmp (row ?arr a' b'))"
    proof (cases "b mod 2 = 0")
      case even: True
      then have "a' \<le> b" "1 \<le> b" using True less.prems by (simp_all add: a'_def) presburger
      then have "row ?arr a' b = row ?arr a' (b - 1) @ [?arr ! b]" by (rule row_last)
      then show ?thesis using even cmp best_append [OF cmp, of "row ?arr a' (b - 1)" "[?arr ! b]"]
        by (simp add: q2_def b'_def best_def segt_orderD)
    qed (simp add: q2_def b'_def)
    show ?thesis unfolding step IH A B par ..
  qed
qed


section \<open>Altering a leaf\<close>

definition node_ok :: "(nat \<Rightarrow> nat \<Rightarrow> nat) \<Rightarrow> nat list \<Rightarrow> nat \<Rightarrow> bool" where
  "node_ok cmp arr j \<longleftrightarrow> arr ! j = cmp (arr ! (2 * j)) (arr ! (2 * j + 1))"

text \<open>The loop repairs the nodes on the path from a node to the root, bottom up.\<close>

lemma alt_loop_repairs:
  assumes "length arr = 2 * n" "k < n"
    and "\<And>j. 1 \<le> j \<Longrightarrow> j < n \<Longrightarrow> (\<And>i. j \<noteq> k div 2 ^ i) \<Longrightarrow> node_ok cmp arr j"
  shows "\<exists>arr'. alt_loop cmp k arr = Some arr' \<and> length arr' = 2 * n \<and> drop n arr' = drop n arr \<and>
    (\<forall>j. 1 \<le> j \<and> j < n \<longrightarrow> node_ok cmp arr' j)"
  using assms
proof (induction k arbitrary: arr rule: less_induct)
  case (less k)
  show ?case
  proof (cases "k = 0")
    case True
    then have "node_ok cmp arr j" if "1 \<le> j" "j < n" for j using less.prems(3) [OF that] that by simp
    then show ?thesis using True less.prems(1) by (subst alt_loop.simps) simp
  next
    case False
    define us where "us = arr[k := cmp (arr ! (2 * k)) (arr ! (2 * k + 1))]"
    have step: "alt_loop cmp k arr = alt_loop cmp (k div 2) us"
      using False less.prems(1,2) by (subst alt_loop.simps) (simp add: rd_def wr_def us_def Let_def)
    have kus: "node_ok cmp us k" using False less.prems(1,2) by (simp add: node_ok_def us_def)
    have "node_ok cmp us j" if j: "1 \<le> j" "j < n" "\<And>i. j \<noteq> k div 2 div 2 ^ i" for j
    proof (cases "j = k")
      case True
      then show ?thesis using kus by simp
    next
      case jk: False
      have "j \<noteq> k div 2 ^ i" for i
        using jk j(3) [of "i - 1"] by (cases i) (simp_all add: div_mult2_eq)
      then have "node_ok cmp arr j" using less.prems(3) j by blast
      moreover have "2 * j \<noteq> k" "2 * j + 1 \<noteq> k" using j(3) [of 0] by auto
      ultimately show ?thesis using jk by (simp add: node_ok_def us_def)
    qed
    moreover have "length us = 2 * n" "drop n us = drop n arr" using less.prems(1,2) by (simp_all add: us_def)
    moreover have "k div 2 < k" "k div 2 < n" using False less.prems(2) by simp_all
    ultimately show ?thesis using less.IH [of "k div 2" us] step by metis
  qed
qed

lemma segt_alt_leaves:
  assumes ok: "tree_ok cmp s" and k: "k < seg_n s"
  shows "\<exists>s'. segt_alt cmp s k x = Some s' \<and> tree_ok cmp s' \<and> seg_n s' = seg_n s \<and> leaves s' = (leaves s)[k := x]"
proof -
  define n where "n = seg_n s"
  have o: "length (seg_arr s) = 2 * n" "1 \<le> n" "2 * n < 2 ^ 32" "\<And>j. 1 \<le> j \<Longrightarrow> j < n \<Longrightarrow> node_ok cmp (seg_arr s) j"
    using ok by (simp_all add: tree_ok_def n_def node_ok_def)
  have kn: "szt (k + n) = k + n" using k o(3) n_def by simp
  define us where "us = (seg_arr s)[k + n := x]"
  have "node_ok cmp us j" if j: "1 \<le> j" "j < n" "\<And>i. j \<noteq> (k + n) div 2 div 2 ^ i" for j
  proof -
    have "2 * j \<noteq> k + n" "2 * j + 1 \<noteq> k + n" using j(3) [of 0] by auto
    then show ?thesis using o(4) [OF j(1,2)] j(2) by (simp add: node_ok_def us_def)
  qed
  moreover have "length us = 2 * n" using o(1) by (simp add: us_def)
  moreover have "(k + n) div 2 < n" using k n_def by simp
  ultimately obtain arr' where a: "alt_loop cmp ((k + n) div 2) us = Some arr'" "length arr' = 2 * n" "drop n arr' = drop n us"
    "\<forall>j. 1 \<le> j \<and> j < n \<longrightarrow> node_ok cmp arr' j"
    using alt_loop_repairs [of us n "(k + n) div 2" cmp] by blast
  have "wr (seg_arr s) (k + n) x = Some us" using o(1) k n_def by (simp add: wr_def us_def)
  then have "segt_alt cmp s k x = Some (s\<lparr>seg_arr := arr'\<rparr>)"
    using a(1) kn by (simp add: segt_alt_def n_def [symmetric])
  moreover have "drop n us = (drop n (seg_arr s))[k := x]" by (simp add: us_def drop_update_swap)
  ultimately show ?thesis using a o by (simp add: tree_ok_def leaves_def node_ok_def n_def)
qed

section \<open>Properties\<close>


definition low_pid :: "nat \<Rightarrow> nat \<Rightarrow> nat" where
  "low_pid a b = (if a = 0 then b else if b = 0 then a else min a b)"

lemma low_pid_order: "segt_order low_pid"
  by (auto simp: segt_order_def low_pid_def)

definition seg_example :: segt where
  "seg_example = \<lparr>seg_n = 4, seg_arr = [0, 3, 5, 3, 9, 5, 0, 3]\<rparr>"

lemma seg_example_ok: "tree_ok low_pid seg_example"
proof -
  have "seg_arr seg_example ! k = low_pid (seg_arr seg_example ! (2 * k)) (seg_arr seg_example ! (2 * k + 1))"
    if "1 \<le> k" "k < (4::nat)" for k
  proof -
    consider "k = 1" | "k = 2" | "k = 3" using \<open>1 \<le> k\<close> \<open>k < 4\<close> by linarith
    then show ?thesis by cases (simp_all add: seg_example_def low_pid_def eval_nat_numeral)
  qed
  then show ?thesis by (simp add: tree_ok_def) (simp add: seg_example_def)
qed


text \<open>The size of the block is a 32-bit product: a tree for more than 2^29 objects gets a block with no
  room for any.\<close>

lemma segt_init_wraps: "unat (round_up 0x20000001) = 2 ^ 30" "szt (2 * 2 ^ 30 * 4) = 0"
  by (simp_all add: round_up_def Let_def szt_def)

end
