(* ===== verification/Proc_Session.thy ===== *)
theory Proc_Session
  imports Kstring Dehtable
begin

text \<open>
  Sessions and process groups, \<^verbatim>\<open>src/kern/proc_session.c\<close>, and the system calls of
  \<^verbatim>\<open>src/kern/proc.c\<close> on them. Sessions and groups are blocks of the kernel heap, found through their
  addresses; a queue (\<open>TAILQ\<close>) is the list of its elements. Processes are named by their pid. A block
  that was freed is no longer in the maps, so an access through a stale pointer, and the removal of an
  element from a queue it is not on, have no result.
\<close>

section \<open>State\<close>

record session =
  s_leader :: int
  s_pgrp_count :: int
  s_ctty_fd :: int
  s_login :: bytes
  s_pgrp_list :: "nat list"

record pgrp =
  pg_id :: int
  pg_proc_count :: int
  pg_session :: nat
  pg_proc_list :: "int list"

record sproc =
  pgrp_ptr :: nat
  inh_parent :: "int option"

record sess_state =
  sheap :: kheap
  sessions :: "nat \<rightharpoonup> session"
  pgrps :: "nat \<rightharpoonup> pgrp"
  proc_session_list :: "nat list"
  nr_sessions :: int
  sprocs :: "int \<rightharpoonup> sproc"

abbreviation (input) MAXLOGNAME :: nat where "MAXLOGNAME \<equiv> 33"
abbreviation (input) SIZEOF_SESSION :: nat where "SIZEOF_SESSION \<equiv> 64"
abbreviation (input) SIZEOF_PGRP :: nat where "SIZEOF_PGRP \<equiv> 28"

text \<open>\<open>TAILQ_REMOVE\<close>.\<close>

definition tq_remove :: "'a \<Rightarrow> 'a list \<Rightarrow> 'a list option" where
  "tq_remove x xs = (if x \<in> set xs then Some (remove1 x xs) else None)"

section \<open>Operations\<close>

definition proc_session_create :: "int \<Rightarrow> sess_state \<Rightarrow> (nat \<times> sess_state) option" where
  "proc_session_create leader st = do {
     (s, h) \<leftarrow> kzalloc SIZEOF_SESSION (sheap st);
     let st = st\<lparr>sheap := h\<rparr>;
     if s = 0 then Some (0, st)
     else Some (s, st\<lparr>sessions := (sessions st)(s \<mapsto>
            \<lparr>s_leader = leader, s_pgrp_count = 0, s_ctty_fd = - 1, s_login = replicate MAXLOGNAME 0, s_pgrp_list = []\<rparr>),
          proc_session_list := proc_session_list st @ [s], nr_sessions := nr_sessions st + 1\<rparr>) }"

definition proc_session_free :: "nat \<Rightarrow> sess_state \<Rightarrow> sess_state option" where
  "proc_session_free s st = do {
     l \<leftarrow> tq_remove s (proc_session_list st);
     h \<leftarrow> kfree s (sheap st);
     Some (st\<lparr>proc_session_list := l, nr_sessions := nr_sessions st - 1, sheap := h,
       sessions := (sessions st)(s := None)\<rparr>) }"

fun search_pg :: "(nat \<rightharpoonup> pgrp) \<Rightarrow> nat list \<Rightarrow> int \<Rightarrow> nat option" where
  "search_pg m [] i = Some 0"
| "search_pg m (g # gs) i = do { pg \<leftarrow> m g; if pg_id pg = i then Some g else search_pg m gs i }"

definition proc_session_search_pg :: "nat \<Rightarrow> int \<Rightarrow> sess_state \<Rightarrow> nat option" where
  "proc_session_search_pg s i st = do { S \<leftarrow> sessions st s; search_pg (pgrps st) (s_pgrp_list S) i }"

definition proc_session_setlogin :: "nat \<Rightarrow> bytes \<Rightarrow> sess_state \<Rightarrow> sess_state option" where
  "proc_session_setlogin s name st = do {
     S \<leftarrow> sessions st s;
     (_, l) \<leftarrow> strlcpy (s_login S) name MAXLOGNAME;
     Some (st\<lparr>sessions := (sessions st)(s \<mapsto> S\<lparr>s_login := l\<rparr>)\<rparr>) }"

definition proc_pgrp_free :: "nat \<Rightarrow> sess_state \<Rightarrow> sess_state option" where
  "proc_pgrp_free g st = do {
     pg \<leftarrow> pgrps st g;
     let s = pg_session pg;
     S \<leftarrow> sessions st s;
     l \<leftarrow> tq_remove g (s_pgrp_list S);
     let n = s_pgrp_count S - 1;
     let st = st\<lparr>sessions := (sessions st)(s \<mapsto> S\<lparr>s_pgrp_list := l, s_pgrp_count := n\<rparr>)\<rparr>;
     st \<leftarrow> (if n = 0 then proc_session_free s st else Some st);
     h \<leftarrow> kfree g (sheap st);
     Some (st\<lparr>sheap := h, pgrps := (pgrps st)(g := None)\<rparr>) }"

definition proc_pgrp_remove :: "int \<Rightarrow> sess_state \<Rightarrow> sess_state option" where
  "proc_pgrp_remove p st = do {
     P \<leftarrow> sprocs st p;
     let g = pgrp_ptr P;
     pg \<leftarrow> pgrps st g;
     l \<leftarrow> tq_remove p (pg_proc_list pg);
     let n = pg_proc_count pg - 1;
     let st = st\<lparr>pgrps := (pgrps st)(g \<mapsto> pg\<lparr>pg_proc_list := l, pg_proc_count := n\<rparr>)\<rparr>;
     if n = 0 then proc_pgrp_free g st else Some st }"

definition proc_pgrp_insert :: "nat \<Rightarrow> int \<Rightarrow> sess_state \<Rightarrow> sess_state option" where
  "proc_pgrp_insert g p st = do {
     P \<leftarrow> sprocs st p;
     st \<leftarrow> (if pgrp_ptr P \<noteq> 0 then proc_pgrp_remove p st else Some st);
     pg \<leftarrow> pgrps st g;
     Some (st\<lparr>pgrps := (pgrps st)(g \<mapsto> pg\<lparr>pg_proc_count := pg_proc_count pg + 1, pg_proc_list := pg_proc_list pg @ [p]\<rparr>),
       sprocs := (sprocs st)(p \<mapsto> P\<lparr>pgrp_ptr := g\<rparr>)\<rparr>) }"

definition proc_pgrp_create :: "nat \<Rightarrow> int \<Rightarrow> sess_state \<Rightarrow> (nat \<times> sess_state) option" where
  "proc_pgrp_create s p st = do {
     (s, st) \<leftarrow> (if s = 0 then proc_session_create p st else Some (s, st));
     if s = 0 then Some (0, st)
     else do {
       (g, h) \<leftarrow> kzalloc SIZEOF_PGRP (sheap st);
       let st = st\<lparr>sheap := h\<rparr>;
       if g = 0 then Some (0, st)
       else do {
         S \<leftarrow> sessions st s;
         let st = st\<lparr>sessions := (sessions st)(s \<mapsto> S\<lparr>s_pgrp_count := s_pgrp_count S + 1, s_pgrp_list := s_pgrp_list S @ [g]\<rparr>),
           pgrps := (pgrps st)(g \<mapsto> \<lparr>pg_id = p, pg_proc_count = 0, pg_session = s, pg_proc_list = []\<rparr>)\<rparr>;
         st \<leftarrow> proc_pgrp_insert g p st;
         Some (g, st) } } }"

definition proc_pgrp_to_array :: "nat \<Rightarrow> sess_state \<Rightarrow> int list option" where
  "proc_pgrp_to_array g st = do { pg \<leftarrow> pgrps st g; Some (pg_proc_list pg @ [0]) }"

section \<open>System calls\<close>

text \<open>A system call returns its value and the error number it sets.\<close>

definition session_of :: "sess_state \<Rightarrow> int \<Rightarrow> nat option" where
  "session_of st p = do { P \<leftarrow> sprocs st p; pg \<leftarrow> pgrps st (pgrp_ptr P); Some (pg_session pg) }"

definition sys_proc_getsid :: "int \<Rightarrow> int \<Rightarrow> sess_state \<Rightarrow> (int \<times> int option) option" where
  "sys_proc_getsid curproc pid st = do {
     sid \<leftarrow> (if pid = 0 then do { s \<leftarrow> session_of st curproc; S \<leftarrow> sessions st s; Some (s_leader S) }
             else if sprocs st pid = None then Some (- 1)
             else do { s \<leftarrow> session_of st pid; S \<leftarrow> sessions st s; Some (s_leader S) });
     Some (sid, if sid = - 1 then Some ESRCH else None) }"

definition sys_proc_setsid :: "int \<Rightarrow> sess_state \<Rightarrow> (int \<times> int option \<times> sess_state) option" where
  "sys_proc_setsid curproc st = do {
     P \<leftarrow> sprocs st curproc;
     pg \<leftarrow> pgrps st (pgrp_ptr P);
     S \<leftarrow> sessions st (pg_session pg);
     if curproc = pg_id pg \<or> curproc = s_leader S then Some (- 1, Some EPERM, st)
     else do {
       (g, st) \<leftarrow> proc_pgrp_create 0 curproc st;
       if g = 0 then Some (- 1, Some ENOMEM, st)
       else do {
         pg \<leftarrow> pgrps st g;
         s \<leftarrow> session_of st curproc;
         S \<leftarrow> sessions st s;
         st \<leftarrow> proc_session_setlogin (pg_session pg) (s_login S) st;
         Some (curproc, None, st) } } }"

definition sys_proc_getpgrp :: "int \<Rightarrow> sess_state \<Rightarrow> int option" where
  "sys_proc_getpgrp curproc st = do { P \<leftarrow> sprocs st curproc; pg \<leftarrow> pgrps st (pgrp_ptr P); Some (pg_id pg) }"

text \<open>\<open>sys_prog_setpgid\<close> after its \<open>copyin\<close>; \<open>args\<close> is \<open>None\<close> when that fails.\<close>

definition sys_prog_setpgid :: "int \<Rightarrow> (int \<times> int) option \<Rightarrow> sess_state \<Rightarrow> (int \<times> int option \<times> sess_state) option" where
  "sys_prog_setpgid curproc args st = (case args of None \<Rightarrow> Some (- 1, Some EFAULT, st) | Some (pid, pgid) \<Rightarrow>
     if pgid < 0 then Some (- 1, Some EINVAL, st)
     else do {
       cs \<leftarrow> session_of st curproc;
       r \<leftarrow> (if pid = 0 \<or> pid = curproc then Some (Inr (Some curproc))
            else case sprocs st pid of
              None \<Rightarrow> Some (Inr None)
            | Some P \<Rightarrow>
                if inh_parent P \<noteq> Some curproc then Some (Inr None)
                else do {
                  s \<leftarrow> session_of st pid;
                  if s \<noteq> cs then Some (Inl EPERM) else Some (Inr (Some pid)) });
       case r of
         Inl e \<Rightarrow> Some (- 1, Some e, st)
       | Inr None \<Rightarrow> Some (- 1, Some ESRCH, st)
       | Inr (Some proc) \<Rightarrow> do {
           s \<leftarrow> session_of st proc;
           S \<leftarrow> sessions st s;
           if proc = s_leader S then Some (- 1, Some EPERM, st)
           else do {
             let pg_id = (if pgid = 0 then curproc else pgid);
             if pg_id \<noteq> proc then do {
               g \<leftarrow> proc_session_search_pg s pg_id st;
               if g = 0 then Some (- 1, Some EPERM, st)
               else do { st \<leftarrow> proc_pgrp_insert g proc st; Some (0, None, st) } }
             else do {
               (g, st) \<leftarrow> proc_pgrp_create cs proc st;
               if g = 0 then Some (- 1, Some ENOMEM, st) else Some (0, None, st) } } } })"

text \<open>\<open>sys_proc_getlogin\<close> returns its value, the error and what it copies out; \<open>writable\<close> tells that the user's
  buffer is.\<close>

definition sys_proc_getlogin :: "bool \<Rightarrow> int \<Rightarrow> sess_state \<Rightarrow> (int \<times> int option \<times> bytes) option" where
  "sys_proc_getlogin writable curproc st = do {
     s \<leftarrow> session_of st curproc;
     S \<leftarrow> sessions st s;
     if \<not> writable then Some (- 1, Some EFAULT, []) else Some (0, None, take MAXLOGNAME (s_login S)) }"

definition sys_proc_setlogin :: "bool \<Rightarrow> int \<Rightarrow> bytes option \<Rightarrow> sess_state \<Rightarrow> (int \<times> int option \<times> sess_state) option" where
  "sys_proc_setlogin permitted curproc name st = do {
     s \<leftarrow> session_of st curproc;
     S \<leftarrow> sessions st s;
     if \<not> permitted then Some (- 1, Some EPERM, st)
     else case name of
         None \<Rightarrow> Some (- 1, Some EFAULT, st)
       | Some b \<Rightarrow> Some (0, None, st\<lparr>sessions := (sessions st)(s \<mapsto> S\<lparr>s_login := take MAXLOGNAME b\<rparr>)\<rparr>) }"


section \<open>Invariant\<close>

definition owned :: "sess_state \<Rightarrow> nat \<rightharpoonup> nat" where
  "owned st q = (if q \<in> dom (sessions st) then Some SIZEOF_SESSION else if q \<in> dom (pgrps st) then Some SIZEOF_PGRP else None)"

lemma owned_sprocs [simp]: "owned (st\<lparr>sprocs := m\<rparr>) = owned st"
  by (simp add: owned_def fun_eq_iff)

text \<open>The groups in \<open>X\<close> may be empty: a group under construction.\<close>

definition sess_ok :: "sess_state \<Rightarrow> nat \<Rightarrow> session \<Rightarrow> bool" where
  "sess_ok st s S \<longleftrightarrow> s_pgrp_count S = int (length (s_pgrp_list S)) \<and> distinct (s_pgrp_list S) \<and>
     set (s_pgrp_list S) = {g. \<exists>G. pgrps st g = Some G \<and> pg_session G = s}"

definition grp_ok :: "nat set \<Rightarrow> sess_state \<Rightarrow> nat \<Rightarrow> pgrp \<Rightarrow> bool" where
  "grp_ok X st g G \<longleftrightarrow> pg_proc_count G = int (length (pg_proc_list G)) \<and> distinct (pg_proc_list G) \<and>
     set (pg_proc_list G) = {p. \<exists>P. sprocs st p = Some P \<and> pgrp_ptr P = g} \<and>
     (\<exists>S. sessions st (pg_session G) = Some S) \<and> (g \<notin> X \<longrightarrow> pg_proc_list G \<noteq> [])"

definition proc_ok :: "sess_state \<Rightarrow> sproc \<Rightarrow> bool" where
  "proc_ok st P \<longleftrightarrow> pgrp_ptr P = 0 \<or> (\<exists>G. pgrps st (pgrp_ptr P) = Some G)"

definition queues_ok :: "sess_state \<Rightarrow> bool" where
  "queues_ok st \<longleftrightarrow> dom (sessions st) \<inter> dom (pgrps st) = {} \<and> sessions st 0 = None \<and> pgrps st 0 = None \<and>
     distinct (proc_session_list st) \<and> set (proc_session_list st) = dom (sessions st) \<and>
     nr_sessions st = int (length (proc_session_list st))"

definition sess_inv :: "nat set \<Rightarrow> sess_state \<Rightarrow> bool" where
  "sess_inv X st \<longleftrightarrow> (\<exists>b. kinv (sheap st) b \<and> kz.owns b (owned st)) \<and> queues_ok st \<and>
     (\<forall>s S. sessions st s = Some S \<longrightarrow> sess_ok st s S) \<and>
     (\<forall>g G. pgrps st g = Some G \<longrightarrow> grp_ok X st g G) \<and>
     (\<forall>p P. sprocs st p = Some P \<longrightarrow> proc_ok st P)"

lemma sess_invD:
  assumes "sess_inv X st"
  shows "\<exists>b. kinv (sheap st) b \<and> kz.owns b (owned st)"
    and "dom (sessions st) \<inter> dom (pgrps st) = {}" and "sessions st 0 = None" and "pgrps st 0 = None"
    and "distinct (proc_session_list st)" and "set (proc_session_list st) = dom (sessions st)"
    and "nr_sessions st = int (length (proc_session_list st))"
    and "sessions st s = Some S \<Longrightarrow> s_pgrp_count S = int (length (s_pgrp_list S))"
    and "sessions st s = Some S \<Longrightarrow> distinct (s_pgrp_list S)"
    and "sessions st s = Some S \<Longrightarrow> set (s_pgrp_list S) = {g. \<exists>G. pgrps st g = Some G \<and> pg_session G = s}"
    and "pgrps st g = Some G \<Longrightarrow> pg_proc_count G = int (length (pg_proc_list G))"
    and "pgrps st g = Some G \<Longrightarrow> distinct (pg_proc_list G)"
    and "pgrps st g = Some G \<Longrightarrow> set (pg_proc_list G) = {p. \<exists>P. sprocs st p = Some P \<and> pgrp_ptr P = g}"
    and "pgrps st g = Some G \<Longrightarrow> \<exists>S. sessions st (pg_session G) = Some S"
    and "pgrps st g = Some G \<Longrightarrow> g \<notin> X \<Longrightarrow> pg_proc_list G \<noteq> []"
    and "sprocs st p = Some P \<Longrightarrow> pgrp_ptr P = 0 \<or> (\<exists>G. pgrps st (pgrp_ptr P) = Some G)"
proof -
  have h: "\<exists>b. kinv (sheap st) b \<and> kz.owns b (owned st)" and q: "queues_ok st"
    and s: "\<And>s S. sessions st s = Some S \<Longrightarrow> sess_ok st s S" and g: "\<And>g G. pgrps st g = Some G \<Longrightarrow> grp_ok X st g G"
    and p: "\<And>p P. sprocs st p = Some P \<Longrightarrow> proc_ok st P"
    using assms unfolding sess_inv_def by blast+
  show "\<exists>b. kinv (sheap st) b \<and> kz.owns b (owned st)" by (rule h)
  show "dom (sessions st) \<inter> dom (pgrps st) = {}" "sessions st 0 = None" "pgrps st 0 = None"
    "distinct (proc_session_list st)" "set (proc_session_list st) = dom (sessions st)"
    "nr_sessions st = int (length (proc_session_list st))" using q by (simp_all add: queues_ok_def)
  show "sessions st s = Some S \<Longrightarrow> s_pgrp_count S = int (length (s_pgrp_list S))"
    "sessions st s = Some S \<Longrightarrow> distinct (s_pgrp_list S)"
    "sessions st s = Some S \<Longrightarrow> set (s_pgrp_list S) = {g. \<exists>G. pgrps st g = Some G \<and> pg_session G = s}"
    using s [of s S] by (simp_all add: sess_ok_def)
  show "pgrps st g = Some G \<Longrightarrow> pg_proc_count G = int (length (pg_proc_list G))"
    "pgrps st g = Some G \<Longrightarrow> distinct (pg_proc_list G)"
    "pgrps st g = Some G \<Longrightarrow> set (pg_proc_list G) = {p. \<exists>P. sprocs st p = Some P \<and> pgrp_ptr P = g}"
    "pgrps st g = Some G \<Longrightarrow> \<exists>S. sessions st (pg_session G) = Some S"
    "pgrps st g = Some G \<Longrightarrow> g \<notin> X \<Longrightarrow> pg_proc_list G \<noteq> []"
    using g [of g G] by (simp_all add: grp_ok_def)
  show "sprocs st p = Some P \<Longrightarrow> pgrp_ptr P = 0 \<or> (\<exists>G. pgrps st (pgrp_ptr P) = Some G)"
    using p [of p P] by (simp add: proc_ok_def)
qed

lemma sess_invI:
  assumes "\<exists>b. kinv (sheap st) b \<and> kz.owns b (owned st)"
    and "dom (sessions st) \<inter> dom (pgrps st) = {}" and "sessions st 0 = None" and "pgrps st 0 = None"
    and "distinct (proc_session_list st)" and "set (proc_session_list st) = dom (sessions st)"
    and "nr_sessions st = int (length (proc_session_list st))"
    and "\<And>s S. sessions st s = Some S \<Longrightarrow> s_pgrp_count S = int (length (s_pgrp_list S))"
    and "\<And>s S. sessions st s = Some S \<Longrightarrow> distinct (s_pgrp_list S)"
    and "\<And>s S. sessions st s = Some S \<Longrightarrow> set (s_pgrp_list S) = {g. \<exists>G. pgrps st g = Some G \<and> pg_session G = s}"
    and "\<And>g G. pgrps st g = Some G \<Longrightarrow> pg_proc_count G = int (length (pg_proc_list G))"
    and "\<And>g G. pgrps st g = Some G \<Longrightarrow> distinct (pg_proc_list G)"
    and "\<And>g G. pgrps st g = Some G \<Longrightarrow> set (pg_proc_list G) = {p. \<exists>P. sprocs st p = Some P \<and> pgrp_ptr P = g}"
    and "\<And>g G. pgrps st g = Some G \<Longrightarrow> \<exists>S. sessions st (pg_session G) = Some S"
    and "\<And>g G. pgrps st g = Some G \<Longrightarrow> g \<notin> X \<Longrightarrow> pg_proc_list G \<noteq> []"
    and "\<And>p P. sprocs st p = Some P \<Longrightarrow> pgrp_ptr P = 0 \<or> (\<exists>G. pgrps st (pgrp_ptr P) = Some G)"
  shows "sess_inv X st"
  unfolding sess_inv_def queues_ok_def sess_ok_def grp_ok_def proc_ok_def
  by (intro conjI allI impI) (fact assms | (erule assms; assumption?))+

text \<open>Freeing the block of a session or group.\<close>

lemma owned_release:
  assumes "kinv h b" "kz.owns b m" "m q = Some n"
  shows "\<exists>h' b'. kfree q h = Some h' \<and> kinv h' b' \<and> kz.owns b' (m(q := None))"
  using kz.owns_release [OF assms] .

lemma session_free_ok:
  assumes "kinv (sheap st) b" "kz.owns b (owned st)" "sessions st s = Some S" "s \<in> set (proc_session_list st)"
    "dom (sessions st) \<inter> dom (pgrps st) = {}"
  shows "\<exists>h b. kinv h b \<and> kz.owns b ((owned st)(s := None)) \<and> proc_session_free s st = Some
    (st\<lparr>proc_session_list := remove1 s (proc_session_list st), nr_sessions := nr_sessions st - 1, sheap := h,
       sessions := (sessions st)(s := None)\<rparr>)"
proof -
  have "owned st s = Some SIZEOF_SESSION" using assms(3) by (auto simp: owned_def)
  then obtain h' b' where h: "kfree s (sheap st) = Some h'" "kinv h' b'" "kz.owns b' ((owned st)(s := None))"
    using owned_release [OF assms(1,2)] by blast
  then show ?thesis using assms(4) by (auto simp: proc_session_free_def tq_remove_def)
qed

text \<open>An empty group is freed, and its session with it when it was the last one.\<close>

lemma pgrp_free_ok:
  assumes inv: "sess_inv X st" and g: "pgrps st g = Some G" and e: "pg_proc_list G = []"
  shows "\<exists>st'. proc_pgrp_free g st = Some st' \<and> sess_inv (X - {g}) st' \<and> pgrps st' = (pgrps st)(g := None) \<and>
    sprocs st' = sprocs st \<and> (\<forall>s. s \<noteq> pg_session G \<longrightarrow> sessions st' s = sessions st s) \<and>
    (\<forall>S. sessions st (pg_session G) = Some S \<longrightarrow> sessions st' (pg_session G) =
      (if s_pgrp_list S = [g] then None else Some (S\<lparr>s_pgrp_list := remove1 g (s_pgrp_list S), s_pgrp_count := s_pgrp_count S - 1\<rparr>)))"
proof -
  note d = sess_invD [OF inv]
  define s where "s = pg_session G"
  obtain S where S: "sessions st s = Some S" using d(14) [OF g] by (auto simp: s_def)
  have gl: "g \<in> set (s_pgrp_list S)" using d(10) [OF S] g by (auto simp: s_def)
  have sl: "s \<in> set (proc_session_list st)" using d(6) S by auto
  have gs: "g \<noteq> s" "sessions st g = None" "pgrps st s = None" using d(2) g S by (auto simp: domIff)
  have noproc: "\<not> (sprocs st p = Some P \<and> pgrp_ptr P = g)" for p P using d(13) [OF g] e by auto
  define S' where "S' = S\<lparr>s_pgrp_list := remove1 g (s_pgrp_list S), s_pgrp_count := s_pgrp_count S - 1\<rparr>"
  define st1 where "st1 = st\<lparr>sessions := (sessions st)(s \<mapsto> S')\<rparr>"
  obtain b where b: "kinv (sheap st) b" "kz.owns b (owned st)" using d(1) by blast
  have o1: "owned st1 = owned st" using S by (auto simp: owned_def st1_def fun_eq_iff)
  have zero: "s_pgrp_count S - 1 = 0 \<longleftrightarrow> s_pgrp_list S = [g]"
    using d(8) [OF S] gl by (cases "s_pgrp_list S") auto
  have free: "proc_pgrp_free g st = do {
       st2 \<leftarrow> (if s_pgrp_count S - 1 = 0 then proc_session_free s st1 else Some st1);
       h \<leftarrow> kfree g (sheap st2);
       Some (st2\<lparr>sheap := h, pgrps := (pgrps st2)(g := None)\<rparr>) }"
    using g S gl by (simp add: proc_pgrp_free_def tq_remove_def S'_def st1_def s_def Let_def)
  have glist: "set (remove1 g (s_pgrp_list S)) = {f. \<exists>F. ((pgrps st)(g := None)) f = Some F \<and> pg_session F = s}"
    using d(9,10) [OF S] by auto
  show ?thesis
  proof (cases "s_pgrp_list S = [g]")
    case True
    obtain h1 b1 where h1: "kinv h1 b1" "kz.owns b1 ((owned st1)(s := None))"
      "proc_session_free s st1 = Some (st1\<lparr>proc_session_list := remove1 s (proc_session_list st), nr_sessions := nr_sessions st - 1,
         sheap := h1, sessions := (sessions st)(s := None)\<rparr>)"
      using session_free_ok [of st1 b s S'] b o1 sl gs d(2) S by (auto simp: st1_def)
    have "((owned st1)(s := None)) g = Some SIZEOF_PGRP" using g gs by (auto simp: o1 owned_def domIff)
    then obtain h2 b2 where h2: "kfree g h1 = Some h2" "kinv h2 b2" "kz.owns b2 ((owned st1)(s := None, g := None))"
      using owned_release [OF h1(1,2)] by blast
    define st' where "st' = st\<lparr>proc_session_list := remove1 s (proc_session_list st), nr_sessions := nr_sessions st - 1,
         sheap := h2, sessions := (sessions st)(s := None), pgrps := (pgrps st)(g := None)\<rparr>"
    have eq: "proc_pgrp_free g st = Some st'"
      using free zero True h1(3) h2(1) by (simp add: st'_def st1_def)
    have own: "owned st' = (owned st1)(s := None, g := None)"
      using gs by (auto simp: owned_def st'_def st1_def fun_eq_iff)
    have only: "pg_session F = s \<longrightarrow> f = g" if "pgrps st f = Some F" for f F using d(10) [OF S] True that by auto
    have "sess_inv (X - {g}) st'"
    proof (rule sess_invI)
      show "\<exists>b. kinv (sheap st') b \<and> kz.owns b (owned st')" using h2(2,3) own by (auto simp: st'_def)
      show "nr_sessions st' = int (length (proc_session_list st'))"
        using d(7) sl by (simp add: st'_def length_remove1) (metis One_nat_def Suc_pred length_pos_if_in_set of_nat_Suc add_diff_cancel_left')
      show "set (s_pgrp_list T) = {g. \<exists>G. pgrps st' g = Some G \<and> pg_session G = t}" if "sessions st' t = Some T" for t T
      proof -
        have T: "sessions st t = Some T" "t \<noteq> s" using that by (auto simp: st'_def split: if_splits)
        show ?thesis using d(10) [OF T(1)] g T(2) by (auto simp: st'_def s_def)
      qed
      show "\<exists>T. sessions st' (pg_session F) = Some T" if "pgrps st' f = Some F" for f F
        using d(14) [of f F] only [of f F] that by (auto simp: st'_def split: if_splits)
      show "pgrp_ptr P = 0 \<or> (\<exists>G. pgrps st' (pgrp_ptr P) = Some G)" if "sprocs st' p = Some P" for p P
        using d(16) [of p P] noproc [of p P] that by (auto simp: st'_def)
    qed (use d(2-6) d(8,9,11-13,15) noproc in \<open>auto simp: st'_def split: if_splits\<close>)
    then show ?thesis using eq True S by (auto simp: st'_def s_def)
  next
    case False
    have "owned st1 g = Some SIZEOF_PGRP" using g gs by (auto simp: o1 owned_def domIff)
    then obtain h2 b2 where h2: "kfree g (sheap st) = Some h2" "kinv h2 b2" "kz.owns b2 ((owned st1)(g := None))"
      using owned_release [of "sheap st" b "owned st1" g] b o1 by auto
    define st' where "st' = st\<lparr>sheap := h2, sessions := (sessions st)(s \<mapsto> S'), pgrps := (pgrps st)(g := None)\<rparr>"
    have eq: "proc_pgrp_free g st = Some st'" using free zero False h2(1) by (simp add: st'_def st1_def)
    have own: "owned st' = (owned st1)(g := None)" using gs by (auto simp: owned_def st'_def st1_def fun_eq_iff)
    have "sess_inv (X - {g}) st'"
    proof (rule sess_invI)
      show "\<exists>b. kinv (sheap st') b \<and> kz.owns b (owned st')" using h2(2,3) own by (auto simp: st'_def)
      show "s_pgrp_count T = int (length (s_pgrp_list T))" if "sessions st' t = Some T" for t T
        using d(8) [OF S] d(8) [of t T] gl that
        by (auto simp: st'_def S'_def length_remove1 split: if_splits) (metis One_nat_def Suc_pred length_pos_if_in_set of_nat_Suc add_diff_cancel_left')
      show "set (s_pgrp_list T) = {g. \<exists>G. pgrps st' g = Some G \<and> pg_session G = t}" if "sessions st' t = Some T" for t T
      proof (cases "t = s")
        case True
        then show ?thesis using that glist by (auto simp: st'_def S'_def)
      next
        case ts: False
        then have T: "sessions st t = Some T" using that by (simp add: st'_def)
        show ?thesis using d(10) [OF T] g ts by (auto simp: st'_def s_def)
      qed
      show "pgrp_ptr P = 0 \<or> (\<exists>G. pgrps st' (pgrp_ptr P) = Some G)" if "sprocs st' p = Some P" for p P
        using d(16) [of p P] noproc [of p P] that by (auto simp: st'_def)
    qed (use d(2-7) d(9,11-15) S noproc in \<open>auto simp: st'_def S'_def split: if_splits\<close>)
    then show ?thesis using eq False S by (auto simp: st'_def S'_def s_def)
  qed
qed


section \<open>Leaving, joining and creating groups\<close>

abbreviation detach :: "int \<Rightarrow> sproc \<Rightarrow> sess_state \<Rightarrow> sess_state" where
  "detach p P st \<equiv> st\<lparr>sprocs := (sprocs st)(p \<mapsto> P\<lparr>pgrp_ptr := 0\<rparr>)\<rparr>"

lemma pgrp_free_sprocs: "proc_pgrp_free g (st\<lparr>sprocs := m\<rparr>) = map_option (\<lambda>st. st\<lparr>sprocs := m\<rparr>) (proc_pgrp_free g st)"
  by (auto simp: proc_pgrp_free_def proc_session_free_def tq_remove_def Let_def split: Option.bind_splits if_splits)

text \<open>A session keeps its leader and login name while its groups change.\<close>

definition same_session :: "sess_state \<Rightarrow> nat \<Rightarrow> session \<Rightarrow> bool" where
  "same_session st s S \<longleftrightarrow> (\<exists>S'. sessions st s = Some S' \<and> s_leader S' = s_leader S \<and> s_login S' = s_login S)"

text \<open>A process leaves its group. The pointer it keeps to the group is stale afterwards, so the invariant
  is that of the state in which the process has no group.\<close>

lemma pgrp_remove_ok:
  assumes inv: "sess_inv X st" and P: "sprocs st p = Some P" and g: "pgrp_ptr P = g" "g \<noteq> 0" and G: "pgrps st g = Some G"
  shows "\<exists>st'. proc_pgrp_remove p st = Some st' \<and> sess_inv (X - {g}) (detach p P st') \<and> sprocs st' = sprocs st \<and>
    (\<forall>f. f \<noteq> g \<longrightarrow> pgrps st' f = pgrps st f) \<and>
    pgrps st' g = (if pg_proc_list G = [p] then None
      else Some (G\<lparr>pg_proc_list := remove1 p (pg_proc_list G), pg_proc_count := pg_proc_count G - 1\<rparr>)) \<and>
    (\<forall>s S. sessions st s = Some S \<longrightarrow> (pg_proc_list G = [p] \<longrightarrow> s_pgrp_list S \<noteq> [g]) \<longrightarrow> same_session st' s S)"
proof -
  note d = sess_invD [OF inv]
  have pl: "p \<in> set (pg_proc_list G)" using d(13) [OF G] P g by auto
  define G' where "G' = G\<lparr>pg_proc_list := remove1 p (pg_proc_list G), pg_proc_count := pg_proc_count G - 1\<rparr>"
  define st1 where "st1 = st\<lparr>pgrps := (pgrps st)(g \<mapsto> G')\<rparr>"
  have zero: "pg_proc_count G - 1 = 0 \<longleftrightarrow> pg_proc_list G = [p]"
    using d(11) [OF G] pl by (cases "pg_proc_list G") auto
  have rm: "proc_pgrp_remove p st = (if pg_proc_list G = [p] then proc_pgrp_free g st1 else Some st1)"
    using P g G pl zero by (simp add: proc_pgrp_remove_def tq_remove_def G'_def st1_def Let_def)
  have o1: "owned st1 = owned st" using G by (auto simp: owned_def st1_def fun_eq_iff)
  define Y where "Y = (if pg_proc_list G = [p] then insert g X else X - {g})"
  have rest: "remove1 p (pg_proc_list G) \<noteq> []" if "pg_proc_list G \<noteq> [p]"
    using that pl by (cases "pg_proc_list G") (auto split: if_splits)
  have gset: "set (remove1 p (pg_proc_list G)) = {q. \<exists>Q. sprocs (detach p P st1) q = Some Q \<and> pgrp_ptr Q = g}"
    using d(12,13) [OF G] g(2) by (auto simp: st1_def)
  have inv1: "sess_inv Y (detach p P st1)"
  proof (rule sess_invI)
    show "\<exists>b. kinv (sheap (detach p P st1)) b \<and> kz.owns b (owned (detach p P st1))"
      using d(1) o1 by (simp add: st1_def)
    show "set (s_pgrp_list S) = {g. \<exists>G. pgrps (detach p P st1) g = Some G \<and> pg_session G = s}"
      if "sessions (detach p P st1) s = Some S" for s S
      using d(10) [of s S] that G by (auto simp: st1_def G'_def)
    show "set (pg_proc_list F) = {q. \<exists>Q. sprocs (detach p P st1) q = Some Q \<and> pgrp_ptr Q = f}"
      if "pgrps (detach p P st1) f = Some F" for f F
    proof (cases "f = g")
      case True
      then show ?thesis using that gset by (auto simp: st1_def G'_def)
    next
      case False
      then have F: "pgrps st f = Some F" using that by (simp add: st1_def)
      have "f \<noteq> 0" using F d(4) by (metis option.distinct(1))
      then show ?thesis using d(13) [OF F] P g False by (auto simp: st1_def)
    qed
    show "pg_proc_count F = int (length (pg_proc_list F))" if "pgrps (detach p P st1) f = Some F" for f F
      using d(11) [OF G] d(11) [of f F] pl that
      by (auto simp: st1_def G'_def length_remove1 split: if_splits) (metis One_nat_def Suc_pred length_pos_if_in_set of_nat_Suc add_diff_cancel_left')
    show "pg_proc_list F \<noteq> []" if "pgrps (detach p P st1) f = Some F" "f \<notin> Y" for f F
      using d(15) [of f F] that rest by (auto simp: st1_def G'_def Y_def split: if_splits)
    show "pgrp_ptr Q = 0 \<or> (\<exists>F. pgrps (detach p P st1) (pgrp_ptr Q) = Some F)" if "sprocs (detach p P st1) q = Some Q" for q Q
      using d(16) [of q Q] that by (auto simp: st1_def split: if_splits)
  qed (use d(2-9,12,14) G in \<open>auto simp: st1_def G'_def split: if_splits\<close>)
  show ?thesis
  proof (cases "pg_proc_list G = [p]")
    case True
    have Y: "Y - {g} = X - {g}" using True by (auto simp: Y_def)
    have e: "pg_proc_list G' = []" using True by (simp add: G'_def)
    have ses: "pg_session G' = pg_session G" by (simp add: G'_def)
    from pgrp_free_ok [OF inv1 _ e, of g] obtain st2 where
      st2: "proc_pgrp_free g (detach p P st1) = Some st2" "sess_inv (X - {g}) st2" "pgrps st2 = (pgrps st1)(g := None)"
        "sprocs st2 = sprocs (detach p P st1)" "\<forall>s. s \<noteq> pg_session G \<longrightarrow> sessions st2 s = sessions st1 s"
        "\<forall>S. sessions st1 (pg_session G) = Some S \<longrightarrow> sessions st2 (pg_session G) =
          (if s_pgrp_list S = [g] then None else Some (S\<lparr>s_pgrp_list := remove1 g (s_pgrp_list S), s_pgrp_count := s_pgrp_count S - 1\<rparr>))"
      unfolding Y ses by (auto simp: st1_def)
    then obtain st3 where st3: "proc_pgrp_free g st1 = Some st3" "st2 = st3\<lparr>sprocs := (sprocs st1)(p \<mapsto> P\<lparr>pgrp_ptr := 0\<rparr>)\<rparr>"
      unfolding pgrp_free_sprocs by auto
    have sp: "sprocs st3 = sprocs st" using st3(1)
      by (auto simp: proc_pgrp_free_def proc_session_free_def st1_def Let_def split: Option.bind_splits if_splits)
    have "detach p P st3 = st2" using st3(2) sp by (simp add: st1_def)
    moreover have "same_session st3 s S" if "sessions st s = Some S" "s_pgrp_list S \<noteq> [g]" for s S
      using st2(5,6) that st3(2) by (cases "s = pg_session G") (auto simp: st1_def same_session_def)
    ultimately show ?thesis using rm True st3 sp st2(2,3) by (auto simp: st1_def)
  next
    case False
    then have "Y = X - {g}" by (simp add: Y_def)
    then show ?thesis using rm False inv1 by (auto simp: st1_def G'_def same_session_def)
  qed
qed


text \<open>A process joins a group. It must not be the only member of that very group: then the group is
  freed before the process is put on its list.\<close>

lemma attach_ok:
  assumes inv: "sess_inv X st" and P: "sprocs st p = Some P" "pgrp_ptr P = 0" and G: "pgrps st g = Some G"
  shows "sess_inv (X - {g}) (st\<lparr>pgrps := (pgrps st)(g \<mapsto> G\<lparr>pg_proc_count := pg_proc_count G + 1, pg_proc_list := pg_proc_list G @ [p]\<rparr>),
       sprocs := (sprocs st)(p \<mapsto> Q\<lparr>pgrp_ptr := g\<rparr>)\<rparr>)" (is "sess_inv _ ?st")
proof (rule sess_invI)
  note d = sess_invD [OF inv]
  have g0: "g \<noteq> 0" using G d(4) by (metis option.distinct(1))
  have np: "p \<notin> set (pg_proc_list F)" if "pgrps st f = Some F" for f F
  proof -
    have "f \<noteq> 0" using that d(4) by (metis option.distinct(1))
    then show ?thesis using d(13) [OF that] P by auto
  qed
  have "owned ?st = owned st" using G by (auto simp: owned_def fun_eq_iff)
  then show "\<exists>b. kinv (sheap ?st) b \<and> kz.owns b (owned ?st)" using d(1) by simp
  show "set (s_pgrp_list S) = {g. \<exists>G. pgrps ?st g = Some G \<and> pg_session G = s}" if "sessions ?st s = Some S" for s S
    using d(10) [of s S] that G by auto
  show "set (pg_proc_list F) = {q. \<exists>Q. sprocs ?st q = Some Q \<and> pgrp_ptr Q = f}" if "pgrps ?st f = Some F" for f F
  proof (cases "f = g")
    case True
    then show ?thesis using that d(13) [OF G] np [OF G] by auto
  next
    case False
    then have F: "pgrps st f = Some F" using that by simp
    have "f \<noteq> 0" using F d(4) by (metis option.distinct(1))
    then show ?thesis using d(13) [OF F] False P by auto
  qed
  show "distinct (pg_proc_list F)" if "pgrps ?st f = Some F" for f F
    using d(12) [of f F] d(12) [OF G] np [OF G] that by (auto split: if_splits)
  show "pgrp_ptr R = 0 \<or> (\<exists>F. pgrps ?st (pgrp_ptr R) = Some F)" if "sprocs ?st q = Some R" for q R
    using d(16) [of q R] that by (auto split: if_splits)
  show "pg_proc_list F \<noteq> []" if "pgrps ?st f = Some F" "f \<notin> X - {g}" for f F
    using d(15) [of f F] that by (auto split: if_splits)
qed (use sess_invD [OF inv] G in \<open>auto split: if_splits\<close>)

lemma pgrp_insert_ok:
  assumes inv: "sess_inv X st" and P: "sprocs st p = Some P" and G: "pgrps st g = Some G"
    and other: "pgrp_ptr P = g \<longrightarrow> pg_proc_list G \<noteq> [p]" and X: "pgrp_ptr P \<notin> X"
  shows "\<exists>st'. proc_pgrp_insert g p st = Some st' \<and> sess_inv (X - {g}) st' \<and> sprocs st' p = Some (P\<lparr>pgrp_ptr := g\<rparr>) \<and>
    (\<forall>q. q \<noteq> p \<longrightarrow> sprocs st' q = sprocs st q) \<and>
    (\<exists>G'. pgrps st' g = Some G' \<and> pg_id G' = pg_id G \<and> pg_session G' = pg_session G) \<and>
    (\<forall>S. sessions st (pg_session G) = Some S \<longrightarrow> same_session st' (pg_session G) S)"
proof (cases "pgrp_ptr P = 0")
  case True
  show ?thesis using attach_ok [OF inv P True G, of P] P G True by (auto simp: proc_pgrp_insert_def same_session_def)
next
  case False
  define f where "f = pgrp_ptr P"
  obtain F where F: "pgrps st f = Some F" using sess_invD(16) [OF inv P] False by (auto simp: f_def)
  obtain st1 where st1: "proc_pgrp_remove p st = Some st1" "sess_inv (X - {f}) (detach p P st1)" "sprocs st1 = sprocs st"
      "\<forall>h. h \<noteq> f \<longrightarrow> pgrps st1 h = pgrps st h"
      "pgrps st1 f = (if pg_proc_list F = [p] then None
        else Some (F\<lparr>pg_proc_list := remove1 p (pg_proc_list F), pg_proc_count := pg_proc_count F - 1\<rparr>))"
      "\<forall>s S. sessions st s = Some S \<longrightarrow> (pg_proc_list F = [p] \<longrightarrow> s_pgrp_list S \<noteq> [f]) \<longrightarrow> same_session st1 s S"
    using pgrp_remove_ok [OF inv P, of f F] False F by (auto simp: f_def)
  have ses: "same_session st1 (pg_session G) S" if S: "sessions st (pg_session G) = Some S" for S
  proof -
    have "g \<in> set (s_pgrp_list S)" using sess_invD(10) [OF inv S] G by auto
    then have "pg_proc_list F = [p] \<longrightarrow> s_pgrp_list S \<noteq> [f]" using other F G by (auto simp: f_def)
    then show ?thesis using st1(6) S by blast
  qed
  have "\<exists>G1. pgrps st1 g = Some G1 \<and> pg_id G1 = pg_id G \<and> pg_session G1 = pg_session G"
    using st1(4,5) G F other by (cases "g = f") (auto simp: f_def)
  then obtain G1 where G1: "pgrps st1 g = Some G1" "pg_id G1 = pg_id G" "pg_session G1 = pg_session G" by blast
  have "sess_inv (X - {f} - {g}) ((detach p P st1)\<lparr>pgrps := (pgrps (detach p P st1))(g \<mapsto>
      G1\<lparr>pg_proc_count := pg_proc_count G1 + 1, pg_proc_list := pg_proc_list G1 @ [p]\<rparr>),
      sprocs := (sprocs (detach p P st1))(p \<mapsto> P\<lparr>pgrp_ptr := g\<rparr>)\<rparr>)"
    by (rule attach_ok [OF st1(2)]) (use G1 in auto)
  moreover have "X - {f} - {g} = X - {g}" using X by (auto simp: f_def)
  ultimately show ?thesis using st1(1,3) G1 P False ses by (auto simp: proc_pgrp_insert_def same_session_def)
qed

lemma new_block:
  assumes "sess_inv X st" "kzalloc n (sheap st) = Some (q, h)" "q \<noteq> 0" "size_ok n"
  shows "sessions st q = None" "pgrps st q = None" "\<exists>b. kinv h b \<and> kz.owns b ((owned st)(q \<mapsto> n))"
proof -
  obtain b where b: "kinv (sheap st) b" "kz.owns b (owned st)" using sess_invD(1) [OF assms(1)] by blast
  have o: "owned st q = None \<and> (\<exists>b'. kinv h b' \<and> kz.owns b' ((owned st)(q \<mapsto> n)))"
    using kz.owns_alloc [OF b assms(4,2,3)] .
  then show "sessions st q = None" "pgrps st q = None" by (auto simp: owned_def split: if_splits)
  show "\<exists>b. kinv h b \<and> kz.owns b ((owned st)(q \<mapsto> n))" using o by blast
qed

lemma sizes_ok: "size_ok SIZEOF_SESSION" "size_ok SIZEOF_PGRP"
  by (simp_all add: size_ok_def room_ok_def memalign_def)

lemma session_create_ok:
  assumes inv: "sess_inv X st" and c: "proc_session_create p st = Some (s, st')"
  shows "sess_inv X st' \<and> sprocs st' = sprocs st \<and> pgrps st' = pgrps st \<and>
    (if s = 0 then sessions st' = sessions st else sessions st s = None \<and> (\<exists>S. sessions st' = (sessions st)(s \<mapsto> S) \<and> s_leader S = p \<and> s_login S = replicate MAXLOGNAME 0))"
proof -
  note d = sess_invD [OF inv]
  obtain h where h: "kzalloc SIZEOF_SESSION (sheap st) = Some (s, h)"
    using c by (auto simp: proc_session_create_def Let_def split: Option.bind_splits if_splits)
  show ?thesis
  proof (cases "s = 0")
    case True
    obtain b where b: "kinv (sheap st) b" "kz.owns b (owned st)" using d(1) by blast
    have "h = sheap st" using kz.alloc_null [OF b(1) sizes_ok(1)] h True by blast
    then have "st' = st" using c h True by (simp add: proc_session_create_def)
    then show ?thesis using inv True by simp
  next
    case False
    define S where "S = \<lparr>s_leader = p, s_pgrp_count = 0, s_ctty_fd = - 1, s_login = replicate MAXLOGNAME 0, s_pgrp_list = []\<rparr>"
    have st': "st' = st\<lparr>sheap := h, sessions := (sessions st)(s \<mapsto> S), proc_session_list := proc_session_list st @ [s],
        nr_sessions := nr_sessions st + 1\<rparr>"
      using c h False by (simp add: proc_session_create_def S_def)
    note nb = new_block [OF inv h False sizes_ok(1)]
    have own: "owned st' = (owned st)(s \<mapsto> SIZEOF_SESSION)" by (auto simp: owned_def st' fun_eq_iff)
    have none: "\<not> (pgrps st g = Some G \<and> pg_session G = s)" for g G using d(14) [of g G] nb(1) by auto
    have "sess_inv X st'"
    proof (rule sess_invI)
      show "\<exists>b. kinv (sheap st') b \<and> kz.owns b (owned st')" using nb(3) own by (simp add: st')
      show "set (s_pgrp_list T) = {g. \<exists>G. pgrps st' g = Some G \<and> pg_session G = t}" if "sessions st' t = Some T" for t T
        using that d(10) [of t T] none by (auto simp: st' S_def split: if_splits)
      show "\<exists>T. sessions st' (pg_session G) = Some T" if "pgrps st' g = Some G" for g G
        using d(14) [of g G] that by (auto simp: st')
      show "dom (sessions st') \<inter> dom (pgrps st') = {}" using d(2) nb(2) by (auto simp: st')
      show "set (proc_session_list st') = dom (sessions st')" using d(6) by (auto simp: st')
      show "distinct (proc_session_list st')" using d(5,6) nb(1) by (auto simp: st')
    qed (use d(3,4,7-9,11-13,15,16) False in \<open>auto simp: st' S_def split: if_splits\<close>)
    then show ?thesis using nb(1) False by (auto simp: st' S_def)
  qed
qed


text \<open>The two allocations of \<open>proc_pgrp_create\<close> return, with or without a block.\<close>

definition heap_answers :: "kheap \<Rightarrow> bool" where
  "heap_answers h \<longleftrightarrow> kzalloc SIZEOF_PGRP h \<noteq> None \<and>
     (\<exists>s h'. kzalloc SIZEOF_SESSION h = Some (s, h') \<and> kzalloc SIZEOF_PGRP h' \<noteq> None)"

text \<open>The group under construction, before its first process joins.\<close>

lemma new_group_ok:
  assumes inv: "sess_inv {} st" and S: "sessions st s = Some S" and a: "kzalloc SIZEOF_PGRP (sheap st) = Some (g, h)" "g \<noteq> 0"
  shows "sess_inv {g} (st\<lparr>sheap := h, sessions := (sessions st)(s \<mapsto> S\<lparr>s_pgrp_count := s_pgrp_count S + 1, s_pgrp_list := s_pgrp_list S @ [g]\<rparr>),
           pgrps := (pgrps st)(g \<mapsto> \<lparr>pg_id = p, pg_proc_count = 0, pg_session = s, pg_proc_list = []\<rparr>)\<rparr>)" (is "sess_inv _ ?st")
proof (rule sess_invI)
  note d = sess_invD [OF inv] and nb = new_block [OF inv a sizes_ok(2)]
  have gs: "g \<noteq> s" using nb(1) S by auto
  have noproc: "\<not> (sprocs st q = Some Q \<and> pgrp_ptr Q = g)" for q Q using d(16) [of q Q] nb(2) a(2) by auto
  have gl: "g \<notin> set (s_pgrp_list T)" if "sessions st t = Some T" for t T using d(10) [OF that] nb(2) by auto
  have "owned ?st = (owned st)(g \<mapsto> SIZEOF_PGRP)" using S nb(1) gs by (auto simp: owned_def fun_eq_iff)
  then show "\<exists>b. kinv (sheap ?st) b \<and> kz.owns b (owned ?st)" using nb(3) by simp
  show "dom (sessions ?st) \<inter> dom (pgrps ?st) = {}" using d(2) nb(1) S gs by auto
  have "s \<noteq> 0" using S d(3) by (metis option.distinct(1))
  then show "sessions ?st 0 = None" "pgrps ?st 0 = None" using d(3,4) a(2) by auto
  show "set (proc_session_list ?st) = dom (sessions ?st)" using d(6) S by auto
  show "set (s_pgrp_list T) = {g. \<exists>G. pgrps ?st g = Some G \<and> pg_session G = t}" if "sessions ?st t = Some T" for t T
    using that d(10) [OF S] d(10) [of t T] nb(2) by (auto split: if_splits)
  show "set (pg_proc_list F) = {q. \<exists>Q. sprocs ?st q = Some Q \<and> pgrp_ptr Q = f}" if "pgrps ?st f = Some F" for f F
    using that d(13) [of f F] noproc by (auto split: if_splits)
  show "distinct (s_pgrp_list T)" if "sessions ?st t = Some T" for t T
    using that d(9) [OF S] d(9) [of t T] gl [OF S] by (auto split: if_splits)
  show "\<exists>T. sessions ?st (pg_session F) = Some T" if "pgrps ?st f = Some F" for f F
    using that d(14) [of f F] by (auto split: if_splits)
qed (use sess_invD [OF inv] S in \<open>auto split: if_splits\<close>)

text \<open>\<open>proc_pgrp_create\<close> in the session \<open>s\<close>, or in a new one when it is \<open>NULL\<close>.\<close>

definition created :: "nat \<Rightarrow> int \<Rightarrow> sproc \<Rightarrow> sess_state \<Rightarrow> nat \<Rightarrow> sess_state \<Rightarrow> bool" where
  "created s p P st g st' \<longleftrightarrow> sprocs st' = (sprocs st)(p \<mapsto> P\<lparr>pgrp_ptr := g\<rparr>) \<and> pgrps st g = None \<and>
     (\<exists>G S. pgrps st' g = Some G \<and> pg_id G = p \<and> sessions st' (pg_session G) = Some S \<and>
        (if s = 0 then sessions st (pg_session G) = None \<and> s_leader S = p \<and> s_login S = replicate MAXLOGNAME 0 else pg_session G = s))"

lemma pgrp_create_in:
  assumes inv: "sess_inv {} st" and P: "sprocs st p = Some P" and S: "sessions st s = Some S"
    and a: "kzalloc SIZEOF_PGRP (sheap st) = Some (g, h)"
  shows "\<exists>st'. proc_pgrp_create s p st = Some (g, st') \<and> sess_inv {} st' \<and>
    (if g = 0 then st' = st else created s p P st g st' \<and> same_session st' s S)"
proof -
  have s0: "s \<noteq> 0" using S sess_invD(3) [OF inv] by (metis option.distinct(1))
  show ?thesis
  proof (cases "g = 0")
    case True
    obtain b where b: "kinv (sheap st) b" using sess_invD(1) [OF inv] by blast
    have "h = sheap st" using kz.alloc_null [OF b sizes_ok(2)] a True by blast
    then show ?thesis using a s0 True inv by (simp add: proc_pgrp_create_def)
  next
    case False
    define st1 where "st1 = st\<lparr>sheap := h, sessions := (sessions st)(s \<mapsto> S\<lparr>s_pgrp_count := s_pgrp_count S + 1, s_pgrp_list := s_pgrp_list S @ [g]\<rparr>),
      pgrps := (pgrps st)(g \<mapsto> \<lparr>pg_id = p, pg_proc_count = 0, pg_session = s, pg_proc_list = []\<rparr>)\<rparr>"
    have i1: "sess_inv {g} st1" unfolding st1_def by (rule new_group_ok [OF inv S a False])
    have gn: "pgrps st g = None" by (rule new_block(2) [OF inv a False sizes_ok(2)])
    have Pg: "pgrp_ptr P \<noteq> g" using sess_invD(16) [OF inv P] gn False by auto
    have "\<exists>st'. proc_pgrp_insert g p st1 = Some st' \<and> sess_inv ({g} - {g}) st' \<and> sprocs st' p = Some (P\<lparr>pgrp_ptr := g\<rparr>) \<and>
      (\<forall>q. q \<noteq> p \<longrightarrow> sprocs st' q = sprocs st1 q) \<and> (\<exists>G'. pgrps st' g = Some G' \<and> pg_id G' = p \<and> pg_session G' = s) \<and>
      (\<forall>S. sessions st1 s = Some S \<longrightarrow> same_session st' s S)"
      using pgrp_insert_ok [OF i1, of p P g] P Pg by (auto simp: st1_def)
    then obtain st' where st': "proc_pgrp_insert g p st1 = Some st'" "sess_inv {} st'" "sprocs st' p = Some (P\<lparr>pgrp_ptr := g\<rparr>)"
      "\<forall>q. q \<noteq> p \<longrightarrow> sprocs st' q = sprocs st1 q" "\<exists>G'. pgrps st' g = Some G' \<and> pg_id G' = p \<and> pg_session G' = s"
      "same_session st' s S" by (auto simp: st1_def same_session_def)
    have "proc_pgrp_create s p st = Some (g, st')" using a s0 False S st'(1) by (simp add: proc_pgrp_create_def st1_def)
    moreover have "sprocs st' = (sprocs st)(p \<mapsto> P\<lparr>pgrp_ptr := g\<rparr>)" using st'(3,4) by (auto simp: st1_def fun_eq_iff)
    ultimately show ?thesis using st' gn s0 False by (auto simp: created_def same_session_def)
  qed
qed

text \<open>With no session given, a session that gets no group because there is no memory for it stays behind empty.\<close>

lemma pgrp_create_new:
  assumes inv: "sess_inv {} st" and P: "sprocs st p = Some P" and a: "heap_answers (sheap st)"
  shows "\<exists>g st'. proc_pgrp_create 0 p st = Some (g, st') \<and> sess_inv {} st' \<and>
    (if g = 0 then sprocs st' = sprocs st \<and> pgrps st' = pgrps st else created 0 p P st g st')"
proof -
  obtain s h1 where h1: "kzalloc SIZEOF_SESSION (sheap st) = Some (s, h1)" "kzalloc SIZEOF_PGRP h1 \<noteq> None"
    using a by (auto simp: heap_answers_def)
  obtain st1 where st1: "proc_session_create p st = Some (s, st1)" "sheap st1 = h1"
    using h1(1) by (cases "s = 0") (auto simp: proc_session_create_def Let_def)
  note c = session_create_ok [OF inv st1(1)]
  show ?thesis
  proof (cases "s = 0")
    case True
    then show ?thesis using c st1(1) by (auto simp: proc_pgrp_create_def)
  next
    case False
    obtain S where S: "sessions st1 s = Some S" "s_leader S = p" "sessions st s = None" "s_login S = replicate MAXLOGNAME 0" using c False by auto
    obtain g h where g: "kzalloc SIZEOF_PGRP (sheap st1) = Some (g, h)" using h1(2) st1(2) by auto
    have i: "sess_inv {} st1" and P1: "sprocs st1 p = Some P" using c P by auto
    obtain st' where st': "proc_pgrp_create s p st1 = Some (g, st')" "sess_inv {} st'"
      "if g = 0 then st' = st1 else created s p P st1 g st' \<and> same_session st' s S"
      using pgrp_create_in [OF i P1 S(1) g] by blast
    have "proc_pgrp_create 0 p st = Some (g, st')" using st1(1) st'(1) False by (simp add: proc_pgrp_create_def)
    then show ?thesis using st' c S False by (auto simp: created_def same_session_def split: if_splits)
  qed
qed


section \<open>Properties\<close>

definition in_session :: "sess_state \<Rightarrow> int \<Rightarrow> pgrp \<Rightarrow> session \<Rightarrow> bool" where
  "in_session st p G S \<longleftrightarrow> (\<exists>P. sprocs st p = Some P \<and> pgrps st (pgrp_ptr P) = Some G \<and> sessions st (pg_session G) = Some S)"

lemma in_sessionI:
  assumes "sess_inv X st" and "sprocs st p = Some P" and "pgrp_ptr P \<noteq> 0"
  obtains G S where "in_session st p G S"
  using sess_invD(14,16) [OF assms(1)] assms(2,3) by (fastforce simp: in_session_def)

lemma in_session_calls:
  assumes "in_session st p G S"
  shows "session_of st p = Some (pg_session G)" and "sys_proc_getpgrp p st = Some (pg_id G)"
    and "sys_proc_getsid p 0 st = Some (s_leader S, if s_leader S = - 1 then Some ESRCH else None)"
    and "sys_proc_getlogin True p st = Some (0, None, take MAXLOGNAME (s_login S))"
  using assms by (auto simp: in_session_def session_of_def sys_proc_getpgrp_def sys_proc_getsid_def sys_proc_getlogin_def)

lemma setlogin_keeps:
  assumes "sess_inv X st" and "sessions st s = Some S"
  shows "sess_inv X (st\<lparr>sessions := (sessions st)(s \<mapsto> S\<lparr>s_login := l\<rparr>)\<rparr>)" (is "sess_inv X ?st")
proof (rule sess_invI)
  have "s \<noteq> 0" using assms sess_invD(3) [OF assms(1)] by (metis option.distinct(1))
  then show "sessions ?st 0 = None" using sess_invD(3) [OF assms(1)] by simp
  have "owned ?st = owned st" using assms(2) by (auto simp: owned_def fun_eq_iff)
  then show "\<exists>b. kinv (sheap ?st) b \<and> kz.owns b (owned ?st)" using sess_invD(1) [OF assms(1)] by simp
qed (use sess_invD [OF assms(1)] assms(2) in \<open>auto split: if_splits\<close>)

lemma copy_empty_login: "strlcpy (replicate MAXLOGNAME 0) (replicate MAXLOGNAME 0) MAXLOGNAME = Some (0, replicate MAXLOGNAME 0)"
  by (subst strlcpy_eq) (simp_all add: terminated_def cstr_def numeral_eq_Suc)


lemma search_pg_ok:
  assumes "\<forall>g \<in> set gs. \<exists>H. m g = Some H"
  shows "\<exists>g. search_pg m gs i = Some g \<and>
    (g = 0 \<and> (\<forall>f \<in> set gs. \<forall>H. m f = Some H \<longrightarrow> pg_id H \<noteq> i) \<or> g \<in> set gs \<and> (\<exists>H. m g = Some H \<and> pg_id H = i))"
  using assms
proof (induction gs)
  case (Cons f fs)
  then obtain H where "m f = Some H" by auto
  with Cons show ?case by (cases "pg_id H = i") auto
qed simp


lemma add_process:
  assumes inv: "sess_inv X st" and p: "sprocs st p = None"
  shows "sess_inv X (st\<lparr>sprocs := (sprocs st)(p \<mapsto> \<lparr>pgrp_ptr = 0, inh_parent = par\<rparr>)\<rparr>)" (is "sess_inv X ?st")
proof (rule sess_invI)
  show "set (pg_proc_list F) = {q. \<exists>Q. sprocs ?st q = Some Q \<and> pgrp_ptr Q = f}" if "pgrps ?st f = Some F" for f F
  proof -
    have F: "pgrps st f = Some F" using that by simp
    have "f \<noteq> 0" using F sess_invD(4) [OF inv] by (metis option.distinct(1))
    then show ?thesis using sess_invD(13) [OF inv F] p by auto
  qed
qed (use sess_invD [OF inv] in \<open>auto split: if_splits\<close>)


text \<open>Process 1 leads a session and a group; its child 2 is in that group.\<close>

lemma example_session:
  "\<exists>st G S. sess_inv {} st \<and> in_session st 1 G S \<and> in_session st 2 G S \<and> pg_id G = 1 \<and> s_leader S = 1 \<and> pg_proc_list G = [1, 2] \<and>
     pgrps st 0x800070 = Some G \<and> map_option inh_parent (sprocs st 2) = Some (Some 1) \<and> heap_answers (sheap st)"
proof -
  define st0 where "st0 = \<lparr>sheap = kheap_boot (dynmem_boot (\<lambda>_. 0)), sessions = Map.empty, pgrps = Map.empty, proc_session_list = [],
    nr_sessions = 0, sprocs = [1 \<mapsto> \<lparr>pgrp_ptr = 0, inh_parent = None\<rparr>]\<rparr>"
  have "kinv (sheap st0) []" unfolding st0_def by (simp add: kinv_boot [OF dm_inv_boot])
  then have i0: "sess_inv {} st0"
    by (intro sess_invI) (auto simp: st0_def owned_def kz.owns_def split: if_splits)
  obtain h1 h2 where h: "kzalloc SIZEOF_SESSION (sheap st0) = Some (0x800018, h1)" "kzalloc SIZEOF_PGRP h1 = Some (0x800070, h2)" "heap_answers h2"
    by (simp add: st0_def heap_answers_def kzalloc_def heap_eval zero_mem_def)
  have a0: "heap_answers (sheap st0)" by (simp add: st0_def heap_answers_def kzalloc_def heap_eval zero_mem_def)
  define S where "S = \<lparr>s_leader = 1, s_pgrp_count = 1, s_ctty_fd = - 1, s_login = replicate MAXLOGNAME 0, s_pgrp_list = [0x800070]\<rparr>"
  define G where "G = \<lparr>pg_id = 1, pg_proc_count = 1, pg_session = 0x800018, pg_proc_list = [1]\<rparr>"
  define st1 where "st1 = \<lparr>sheap = h2, sessions = [0x800018 \<mapsto> S], pgrps = [0x800070 \<mapsto> G], proc_session_list = [0x800018],
    nr_sessions = 1, sprocs = [1 \<mapsto> \<lparr>pgrp_ptr = 0x800070, inh_parent = None\<rparr>]\<rparr>"
  have "proc_pgrp_create 0 1 st0 = Some (0x800070, st1)"
    using h(1,2) by (simp add: proc_pgrp_create_def proc_session_create_def proc_pgrp_insert_def st0_def st1_def S_def G_def)
  then have i1: "sess_inv {} st1" using pgrp_create_new [OF i0 _ a0, of 1] by (auto simp: st0_def)
  define st2 where "st2 = st1\<lparr>sprocs := (sprocs st1)(2 \<mapsto> \<lparr>pgrp_ptr = 0, inh_parent = Some 1\<rparr>)\<rparr>"
  have i2: "sess_inv {} st2" unfolding st2_def by (rule add_process [OF i1]) (simp add: st1_def)
  define st3 where "st3 = st2\<lparr>pgrps := [0x800070 \<mapsto> G\<lparr>pg_proc_count := 2, pg_proc_list := [1, 2]\<rparr>],
    sprocs := (sprocs st2)(2 \<mapsto> \<lparr>pgrp_ptr = 0x800070, inh_parent = Some 1\<rparr>)\<rparr>"
  have ins: "proc_pgrp_insert 0x800070 2 st2 = Some st3"
    by (simp add: proc_pgrp_insert_def st2_def st1_def G_def st3_def)
  have i3: "sess_inv {} st3" using pgrp_insert_ok [OF i2, of 2 _ "0x800070" G] ins by (auto simp: st2_def st1_def)
  show ?thesis
    using i3 h(3) by (intro exI [of _ st3] exI [of _ "G\<lparr>pg_proc_count := 2, pg_proc_list := [1, 2]\<rparr>"] exI [of _ S])
      (simp add: in_session_def st3_def st2_def st1_def S_def G_def)
qed



section \<open>Defects\<close>

text \<open>A process that joins the group in which it is the only member: \<open>proc_pgrp_remove\<close> frees the group, and
  \<open>proc_pgrp_insert\<close> goes on with it.\<close>

lemma insert_own_group_dangles:
  assumes inv: "sess_inv {} st" and P: "sprocs st p = Some P" "pgrps st (pgrp_ptr P) = Some G" and alone: "pg_proc_list G = [p]"
  shows "proc_pgrp_insert (pgrp_ptr P) p st = None"
proof -
  have p0: "pgrp_ptr P \<noteq> 0" using P sess_invD(4) [OF inv] by (metis option.distinct(1))
  then obtain st1 where "proc_pgrp_remove p st = Some st1" "pgrps st1 (pgrp_ptr P) = None"
    using pgrp_remove_ok [OF inv P(1) refl _ P(2)] alone by auto
  then show ?thesis using P(1) p0 by (simp add: proc_pgrp_insert_def)
qed

text \<open>\<open>setpgid\<close> reaches it: a process that was left alone in the group of its parent asks for that group again.\<close>

lemma setpgid_own_group_dangles:
  assumes inv: "sess_inv {} st" and G: "in_session st p G S" and alone: "pg_proc_list G = [p]" and i: "0 < pg_id G" "pg_id G \<noteq> p"
    and l: "p \<noteq> s_leader S" and one: "s_pgrp_list S = [g]"
  shows "sys_prog_setpgid p (Some (0, pg_id G)) st = None"
proof -
  obtain P where P: "sprocs st p = Some P" "pgrps st (pgrp_ptr P) = Some G" "sessions st (pg_session G) = Some S"
    using G by (auto simp: in_session_def)
  have "pgrp_ptr P \<in> set (s_pgrp_list S)" using sess_invD(10) [OF inv P(3)] P(2) by auto
  then have "s_pgrp_list S = [pgrp_ptr P]" using one by simp
  then have "proc_session_search_pg (pg_session G) (pg_id G) st = Some (pgrp_ptr P)" using P by (simp add: proc_session_search_pg_def)
  moreover have "pgrp_ptr P \<noteq> 0" using P sess_invD(4) [OF inv] by (metis option.distinct(1))
  ultimately show ?thesis using P l i in_session_calls(1) [OF G] insert_own_group_dangles [OF inv P(1,2) alone]
    by (simp add: sys_prog_setpgid_def)
qed

text \<open>\<open>setsid\<close> means to hand the login name on, but the process is in the new session by then: the new
  session's empty name is copied onto itself.\<close>

lemma setsid_loses_login:
  assumes inv: "sess_inv {} st" and G: "in_session st p G S" and p: "p \<noteq> pg_id G" "p \<noteq> s_leader S"
    and a: "heap_answers (sheap st)" and r: "sys_proc_setsid p st = Some (p, None, st')"
  shows "sys_proc_getlogin True p st' = Some (0, None, replicate MAXLOGNAME 0)"
proof -
  obtain P where P: "sprocs st p = Some P" "pgrps st (pgrp_ptr P) = Some G" "sessions st (pg_session G) = Some S"
    using G by (auto simp: in_session_def)
  obtain g st1 where c: "proc_pgrp_create 0 p st = Some (g, st1)"
    "if g = 0 then sprocs st1 = sprocs st \<and> pgrps st1 = pgrps st else created 0 p P st g st1"
    using pgrp_create_new [OF inv P(1) a] by blast
  have g: "g \<noteq> 0" using r c(1) P p by (auto simp: sys_proc_setsid_def split: if_splits)
  then obtain H T where "pgrps st1 g = Some H" "sessions st1 (pg_session H) = Some T"
    "s_login T = replicate MAXLOGNAME 0" "sprocs st1 = (sprocs st)(p \<mapsto> P\<lparr>pgrp_ptr := g\<rparr>)"
    using c(2) by (auto simp: created_def)
  then show ?thesis using r P p c(1) g
    by (auto simp: sys_proc_setsid_def session_of_def proc_session_setlogin_def copy_empty_login sys_proc_getlogin_def)
qed

text \<open>A session whose first group cannot be allocated stays on the list, without a group and without an owner.\<close>

lemma create_leaks_session:
  assumes "kzalloc SIZEOF_SESSION (sheap st) = Some (s, h)" and "s \<noteq> 0" and "kzalloc SIZEOF_PGRP h = Some (0, h')"
  shows "\<exists>st'. proc_pgrp_create 0 p st = Some (0, st') \<and> proc_session_list st' = proc_session_list st @ [s] \<and> nr_sessions st' = nr_sessions st + 1"
  using assms by (simp add: proc_pgrp_create_def proc_session_create_def)

end
