(* ===== verification/Vralloc.thy ===== *)
theory Vralloc
  imports Kmalloc Kobj
begin

text \<open>
  The page allocator (\<^verbatim>\<open>src/kern/vralloc.c\<close>): buffers of whole 4 kB pages for the virtual memory
  and the file systems. A region of megabytes from the region allocator has a bit per page; regions and
  buffers are structures in the kernel heap. Every function runs under \<open>vr_big_lock\<close> where it touches
  the regions. \<open>None\<close> is a panic, a failed \<open>KASSERT\<close>, an access through a stale pointer, or a lock that
  the caller already holds.
\<close>

section \<open>Data\<close>

abbreviation (input) MMU_PGSIZE_COARSE :: nat where "MMU_PGSIZE_COARSE \<equiv> 4096"
abbreviation (input) DMEM_BLOCK_SIZE :: nat where "DMEM_BLOCK_SIZE \<equiv> 256"
abbreviation (input) SIZEOF_BUF :: nat where "SIZEOF_BUF \<equiv> 224"

abbreviation (input) VM_PROT_READ :: u32 where "VM_PROT_READ \<equiv> 1"
abbreviation (input) VM_PROT_WRITE :: u32 where "VM_PROT_WRITE \<equiv> 2"
abbreviation (input) VM_PROT_COW :: u32 where "VM_PROT_COW \<equiv> 8"
abbreviation (input) VM_PROT_COR :: u32 where "VM_PROT_COR \<equiv> 16"
abbreviation (input) B_BUSY :: u32 where "B_BUSY \<equiv> 8"

record vregion =
  kaddr :: nat
  vcount :: nat
  vsize :: nat
  vmap :: bitmap

record vbuf =
  b_data :: nat
  b_bufsize :: nat
  b_bcount :: nat
  b_mmu :: mmu_region
  b_pt :: nat
  b_uflags :: u32
  b_flags :: u32
  b_obj :: kobj
  b_vra :: bool
  allocator_data :: nat

record vra =
  vheap :: kheap
  vregs :: "nat \<rightharpoonup> vregion"
  vrlist :: "nat list"
  bufs :: "nat \<rightharpoonup> vbuf"
  vralloc_all :: u32
  vralloc_used :: u32

definition E2BITMAP_SIZE :: "nat \<Rightarrow> nat" where
  "E2BITMAP_SIZE nbits = (max nbits 32 + 31) div 32"

definition VREG_SIZE :: "nat \<Rightarrow> nat" where
  "VREG_SIZE n = szt (20 + E2BITMAP_SIZE n * 4)"

definition VREG_PCOUNT :: "nat \<Rightarrow> nat" where
  "VREG_PCOUNT byte_size = byte_size div MMU_PGSIZE_COARSE"

definition VREG_BYTESIZE :: "nat \<Rightarrow> nat" where
  "VREG_BYTESIZE pcount = szt (pcount * MMU_PGSIZE_COARSE)"

definition VREG_I2ADDR :: "vregion \<Rightarrow> nat \<Rightarrow> nat" where
  "VREG_I2ADDR v iblock = szt (kaddr v + VREG_BYTESIZE iblock)"

definition VREG_ADDR2I :: "vregion \<Rightarrow> nat \<Rightarrow> nat" where
  "VREG_ADDR2I v addr = VREG_PCOUNT (szt (addr + (2 ^ 32 - kaddr v)))"

definition ROUND_UP :: "nat \<Rightarrow> nat \<Rightarrow> nat" where
  "ROUND_UP n s = szt (szt (n + s - 1) div s * s)"

definition memalign_size :: "nat \<Rightarrow> nat \<Rightarrow> nat" where
  "memalign_size sz al = szt (sz + (al - sz mod al) mod al)"

text \<open>A write to the physical memory.\<close>

definition vmem_upd :: "(memory \<Rightarrow> memory) \<Rightarrow> vra \<Rightarrow> vra" where
  "vmem_upd f st = st\<lparr>vheap := (vheap st)\<lparr>dyn := (dyn (vheap st))\<lparr>mem := f (mem (dyn (vheap st)))\<rparr>\<rparr>\<rparr>"

section \<open>Access permissions\<close>

text \<open>\<open>vm_updateusr_ap\<close> of \<^verbatim>\<open>src/kern/vm.c\<close>: the permissions of the mapping that follow from the user's flags.\<close>

abbreviation (input) MMU_AP_NANA :: u32 where "MMU_AP_NANA \<equiv> 0"
abbreviation (input) MMU_AP_RONA :: u32 where "MMU_AP_RONA \<equiv> 5"
abbreviation (input) MMU_AP_RWRO :: u32 where "MMU_AP_RWRO \<equiv> 2"
abbreviation (input) MMU_AP_RWRW :: u32 where "MMU_AP_RWRW \<equiv> 3"
abbreviation (input) MMU_AP_RORO :: u32 where "MMU_AP_RORO \<equiv> 6"

definition usr_ap :: "u32 \<Rightarrow> u32 \<Rightarrow> u32" where
  "usr_ap usr_rw ap =
     (if usr_rw AND VM_PROT_COR = VM_PROT_COR then MMU_AP_NANA
      else if usr_rw AND (VM_PROT_COW OR VM_PROT_READ) = VM_PROT_COW OR VM_PROT_READ then MMU_AP_RORO
      else if usr_rw AND VM_PROT_WRITE \<noteq> 0 then MMU_AP_RWRW
      else if usr_rw AND VM_PROT_READ \<noteq> 0 then
        (if ap = MMU_AP_NANA \<or> ap = MMU_AP_RONA then MMU_AP_RORO
         else if ap = MMU_AP_RWNA then MMU_AP_RWRO
         else if ap = MMU_AP_RWRW then MMU_AP_RWRO
         else ap)
      else
        (if ap = MMU_AP_RWRO \<or> ap = MMU_AP_RWRW then MMU_AP_RWNA
         else if ap = MMU_AP_RORO then MMU_AP_RONA
         else ap))"

definition vm_updateusr_ap :: "vbuf \<Rightarrow> vbuf" where
  "vm_updateusr_ap b = b\<lparr>b_mmu := (b_mmu b)\<lparr>rg_ap := usr_ap (b_uflags b) (rg_ap (b_mmu b))\<rparr>\<rparr>"

section \<open>Operations\<close>

definition vreg_alloc_node :: "nat \<Rightarrow> vra \<Rightarrow> (nat \<times> vra) option" where
  "vreg_alloc_node n st = do {
     let n = ROUND_UP n DMEM_BLOCK_SIZE;
     (v, h) \<leftarrow> kzalloc (VREG_SIZE n) (vheap st);
     if v = 0 then Some (0, st\<lparr>vheap := h\<rparr>)
     else do {
       (a, d) \<leftarrow> dynmem_alloc_region (n div DMEM_BLOCK_SIZE) MMU_AP_RWNA MMU_CTRL_MEMTYPE_WB (dyn h);
       let h = h\<lparr>dyn := d\<rparr>;
       if a = 0 then do { h \<leftarrow> kfree v h; Some (0, st\<lparr>vheap := h\<rparr>) }
       else Some (v, st\<lparr>vheap := h,
              vregs := (vregs st)(v \<mapsto> \<lparr>kaddr = a, vcount = 0, vsize = szt (E2BITMAP_SIZE n * 4),
                                      vmap = replicate (E2BITMAP_SIZE n) 0\<rparr>),
              vrlist := v # vrlist st, vralloc_all := vralloc_all st + of_nat (VREG_BYTESIZE n)\<rparr>) } }"

definition vralloc_init :: "vra \<Rightarrow> vra option" where
  "vralloc_init st = do {
     (v, st) \<leftarrow> vreg_alloc_node DMEM_BLOCK_SIZE st;
     if v = 0 then None else Some st }"

text \<open>The walk over the regions: the region found, 0 if none, and \<open>*iblock\<close>.\<close>

fun find_vreg :: "(nat \<rightharpoonup> vregion) \<Rightarrow> nat list \<Rightarrow> nat \<Rightarrow> nat \<Rightarrow> (nat \<times> nat) option" where
  "find_vreg m [] pcount ib = Some (0, ib)"
| "find_vreg m (v # vs) pcount ib = do {
     r \<leftarrow> m v;
     (rc, ib) \<leftarrow> bitmap_block_search ib pcount (vmap r) (vsize r);
     if rc = 0 then Some (v, ib) else find_vreg m vs pcount ib }"

text \<open>The search with its retry: the region made in between stays the result when the second walk finds none.\<close>

definition get_iblocks_retry :: "nat \<Rightarrow> nat \<Rightarrow> vra \<Rightarrow> (nat \<times> nat \<times> vra) option" where
  "get_iblocks_retry pcount ib st = do {
     (v, ib) \<leftarrow> find_vreg (vregs st) (vrlist st) pcount ib;
     if v \<noteq> 0 then Some (v, ib, st)
     else do {
       (v, st) \<leftarrow> vreg_alloc_node pcount st;
       if v = 0 then Some (0, ib, st)
       else do {
         (w, ib) \<leftarrow> find_vreg (vregs st) (vrlist st) pcount ib;
         Some (if w = 0 then v else w, ib, st) } } }"

definition get_iblocks :: "nat \<Rightarrow> nat \<Rightarrow> vra \<Rightarrow> (nat \<times> nat \<times> vra) option" where
  "get_iblocks ib pcount st = do {
     (v, ib, st) \<leftarrow> get_iblocks_retry pcount ib st;
     if v = 0 then Some (0, ib, st)
     else do {
       r \<leftarrow> vregs st v;
       (err, bm) \<leftarrow> bitmap_block_update (vmap r) 1 ib pcount (vsize r);
       if err \<noteq> 0 then None
       else Some (v, ib, st\<lparr>vregs := (vregs st)(v \<mapsto> r\<lparr>vmap := bm, vcount := szt (vcount r + pcount)\<rparr>),
              vralloc_used := vralloc_used st + of_nat (VREG_BYTESIZE pcount)\<rparr>) } }"

definition vreg_free_callback :: "nat \<Rightarrow> vra \<Rightarrow> vra option" where
  "vreg_free_callback bp st = do {
     b \<leftarrow> bufs st bp;
     let v = allocator_data b;
     r \<leftarrow> vregs st v;
     let bcount = VREG_PCOUNT (b_bufsize b);
     let iblock = VREG_ADDR2I r (b_data b);
     (err, bm) \<leftarrow> bitmap_block_update (vmap r) 0 iblock bcount (vsize r);
     if err \<noteq> 0 then None
     else do {
       let r = r\<lparr>vmap := bm, vcount := szt (vcount r + (2 ^ 32 - bcount))\<rparr>;
       let st = st\<lparr>vregs := (vregs st)(v \<mapsto> r), vralloc_used := vralloc_used st - of_nat (b_bufsize b)\<rparr>;
       st \<leftarrow> (if vcount r = 0 then do {
           let st = st\<lparr>vrlist := remove1 v (vrlist st), vralloc_all := vralloc_all st - of_nat (vsize r * (4 * 8) * MMU_PGSIZE_COARSE)\<rparr>;
           d \<leftarrow> dynmem_free_region (kaddr r) (dyn (vheap st));
           h \<leftarrow> kfree v ((vheap st)\<lparr>dyn := d\<rparr>);
           Some (st\<lparr>vheap := h, vregs := (vregs st)(v := None)\<rparr>) }
         else Some st);
       h \<leftarrow> kfree bp (vheap st);
       Some (st\<lparr>vheap := h, bufs := (bufs st)(bp := None)\<rparr>) } }"

definition geteblk :: "nat \<Rightarrow> vra \<Rightarrow> (nat \<times> vra) option" where
  "geteblk orig_size st = do {
     let sz = memalign_size orig_size MMU_PGSIZE_COARSE;
     let pcount = VREG_PCOUNT sz;
     (bp, h) \<leftarrow> kzalloc SIZEOF_BUF (vheap st);
     let st = st\<lparr>vheap := h\<rparr>;
     if bp = 0 then Some (0, st)
     else do {
       (v, iblock, st) \<leftarrow> get_iblocks 0 pcount st;
       if v = 0 then do { h \<leftarrow> kfree bp (vheap st); Some (0, st\<lparr>vheap := h\<rparr>) }
       else do {
         r \<leftarrow> vregs st v;
         let a = VREG_I2ADDR r iblock;
         let b = vm_updateusr_ap \<lparr>b_data = a, b_bufsize = VREG_BYTESIZE pcount, b_bcount = orig_size,
               b_mmu = \<lparr>vaddr = 0, num_pages = pcount, rg_ap = 0, rg_control = 0, paddr = a\<rparr>, b_pt = 0,
               b_uflags = VM_PROT_READ OR VM_PROT_WRITE, b_flags = B_BUSY, b_obj = kobj_init, b_vra = True, allocator_data = v\<rparr>;
         Some (bp, vmem_upd (memset (b_data b) 0 (b_bufsize b)) (st\<lparr>bufs := (bufs st)(bp \<mapsto> b)\<rparr>)) } } }"

definition vrref :: "nat \<Rightarrow> vra \<Rightarrow> vra option" where
  "vrref bp st = do {
     b \<leftarrow> bufs st bp;
     (err, ko) \<leftarrow> kobj_ref (b_obj b);
     if err \<noteq> 0 then None else Some (st\<lparr>bufs := (bufs st)(bp \<mapsto> b\<lparr>b_obj := ko\<rparr>)\<rparr>) }"

definition vr_rclone :: "nat \<Rightarrow> vra \<Rightarrow> (nat \<times> vra) option" where
  "vr_rclone old st = do {
     b \<leftarrow> bufs st old;
     let rsize = b_bufsize b;
     (new, st) \<leftarrow> geteblk rsize st;
     if new = 0 then Some (0, st)
     else do {
       c \<leftarrow> bufs st new;
       let st = vmem_upd (memcpy (b_data c) (b_data b) rsize) st;
       let c = c\<lparr>b_uflags := NOT (VM_PROT_COW OR VM_PROT_COR) AND b_uflags b,
             b_mmu := (b_mmu c)\<lparr>vaddr := vaddr (b_mmu b), rg_ap := rg_ap (b_mmu b), rg_control := rg_control (b_mmu b)\<rparr>,
             b_pt := b_pt b\<rparr>;
       Some (new, st\<lparr>bufs := (bufs st)(new \<mapsto> vm_updateusr_ap c)\<rparr>) } }"

text \<open>When \<open>allocbuf\<close> needs another block it calls \<open>get_iblocks\<close>, which locks \<open>vr_big_lock\<close>; the caller
  holds that lock, and a ticket lock is not recursive.\<close>

definition allocbuf :: "nat \<Rightarrow> nat \<Rightarrow> vra \<Rightarrow> vra option" where
  "allocbuf bp orig_size st = do {
     b \<leftarrow> bufs st bp;
     let new_size = memalign_size orig_size MMU_PGSIZE_COARSE;
     let pcount = VREG_PCOUNT new_size;
     let bcount = VREG_PCOUNT (b_bufsize b);
     let blockdiff = szt (pcount + (2 ^ 32 - bcount));
     let v = allocator_data b;
     if v = 0 then None
     else if b_bufsize b = new_size then Some st
     else do {
       r \<leftarrow> vregs st v;
       st \<leftarrow> (if blockdiff > 0 then do {
           let sblock = szt (VREG_ADDR2I r (b_data b) + bcount);
           (rc, iblock) \<leftarrow> bitmap_block_search_s sblock 0 blockdiff (vmap r) (vsize r);
           if rc = 0 then
             if iblock = sblock + 1 then do {
               (err, bm) \<leftarrow> bitmap_block_update (vmap r) 1 sblock blockdiff (vsize r);
               if err \<noteq> 0 then None else Some (st\<lparr>vregs := (vregs st)(v \<mapsto> r\<lparr>vmap := bm\<rparr>)\<rparr>) }
             else None
           else Some st }
         else Some st);
       Some (st\<lparr>bufs := (bufs st)(bp \<mapsto> b\<lparr>b_bufsize := new_size, b_bcount := orig_size,
              b_mmu := (b_mmu b)\<lparr>num_pages := pcount\<rparr>\<rparr>)\<rparr>) } }"

definition vrfree :: "nat \<Rightarrow> vra \<Rightarrow> vra option" where
  "vrfree bp st = do {
     b \<leftarrow> bufs st bp;
     (last_ref, ko) \<leftarrow> kobj_unref (b_obj b);
     let st = st\<lparr>bufs := (bufs st)(bp \<mapsto> b\<lparr>b_obj := ko\<rparr>)\<rparr>;
     if last_ref then vreg_free_callback bp st else Some st }"

text \<open>The buffer and the region \<open>vrmmap\<close> hands to \<open>mmu_map_region\<close>, with the page table it goes to.\<close>

definition vrmmap :: "nat \<Rightarrow> nat \<Rightarrow> vra \<Rightarrow> (mmu_region \<times> nat \<times> vra) option" where
  "vrmmap bp pt st = do {
     b \<leftarrow> bufs st bp;
     let b = vm_updateusr_ap b;
     Some (b_mmu b, pt, st\<lparr>bufs := (bufs st)(bp \<mapsto> b)\<rparr>) }"

definition clone2vr :: "nat \<Rightarrow> vra \<Rightarrow> (int \<times> nat \<times> vra) option" where
  "clone2vr src st = do {
     s \<leftarrow> bufs st src;
     if b_vra s then do {
       (new, st) \<leftarrow> vr_rclone src st;
       if new = 0 then Some (- ENOMEM, 0, st) else Some (0, new, st) }
     else if b_data s \<noteq> 0 then do {
       let rsize = b_bufsize s;
       (new, st) \<leftarrow> geteblk rsize st;
       if new = 0 then Some (- ENOMEM, 0, st)
       else do {
         c \<leftarrow> bufs st new;
         let st = vmem_upd (memcpy (paddr (b_mmu c)) (b_data s) rsize) st;
         let c = c\<lparr>b_uflags := VM_PROT_READ OR VM_PROT_WRITE,
               b_mmu := (b_mmu c)\<lparr>vaddr := vaddr (b_mmu s), rg_ap := rg_ap (b_mmu s), rg_control := rg_control (b_mmu s)\<rparr>,
               b_pt := b_pt s\<rparr>;
         Some (0, new, st\<lparr>bufs := (bufs st)(new \<mapsto> vm_updateusr_ap c)\<rparr>) } }
     else Some (- ENOTSUP, 0, st) }"


section \<open>The heap and the region allocator below\<close>

abbreviation dmap_used :: "dynmem \<Rightarrow> nat \<Rightarrow> bool" where
  "dmap_used d \<equiv> used (dynmemmap_bitmap d)"

definition used_grows :: "dynmem \<Rightarrow> dynmem \<Rightarrow> bool" where
  "used_grows d d' \<longleftrightarrow> (\<forall>p. dmap_used d p \<longrightarrow> dmap_used d' p)"

lemma used_grows_refl [simp]: "used_grows d d"
  by (simp add: used_grows_def)

lemma alloc_used_grows:
  assumes "dm_inv d" and "dynmem_alloc_region n ap ctrl d = Some (a, d')"
  shows "used_grows d d'"
  using dynmem_alloc_Some [OF assms] by (auto simp: used_grows_def alloc_result_def)

lemma free_used_grows:
  assumes "dm_inv d" and "dynmem_free_region a d = Some d'"
  shows "used_grows d d'"
proof (cases "DYNMEM_START \<le> a \<and> a < DYNMEM_END")
  case True
  with dynmem_free_total [OF assms(1), of a] assms(2) show ?thesis by (auto simp: used_grows_def)
next
  case False
  then have "a < DYNMEM_START \<or> a > DYNMEM_END \<or> a = DYNMEM_END" by arith
  then have "d' = d"
  proof (elim disjE)
    assume "a = DYNMEM_END"
    then show ?thesis using assms dynmem_end_passes_range_check [OF assms(1)] by (simp add: dynmem_free_region_def)
  qed (use assms(2) in \<open>simp_all add: dynmem_free_region_def addr_is_valid_def Let_def\<close>)
  then show ?thesis by simp
qed

lemma upd_mb_dyn: "upd_mb p f k = Some k' \<Longrightarrow> dyn k' = dyn k"
  by (auto simp: upd_mb_def split: Option.bind_splits)

lemma put_mb_dyn [simp]: "dyn (put_mb p b k) = dyn k"
  by (simp add: put_mb_def)

lemma split_mblock_dyn: "split_mblock b s k = Some k' \<Longrightarrow> dyn k' = dyn k"
  by (auto simp: split_mblock_def Let_def dest!: upd_mb_dyn split: Option.bind_splits if_splits)

lemma merge_dyn: "merge b k = Some k' \<Longrightarrow> dyn k' = dyn k"
  by (auto simp: merge_def Let_def dest!: upd_mb_dyn split: Option.bind_splits if_splits)

lemma extend_dyn:
  assumes "Kmalloc.extend lst s k = Some (b, k')"
  shows "\<exists>n a. dynmem_alloc_region n MMU_AP_RWNA MMU_CTRL_MEMTYPE_WB (dyn k) = Some (a, dyn k')"
proof -
  define n where "n = szt (s + MBLOCK_SIZE) div 2 ^ 20 + (if szt (s + MBLOCK_SIZE) mod 2 ^ 20 \<noteq> 0 then 1 else 0)"
  note ex = assms [unfolded Kmalloc.extend_def Let_def, folded n_def]
  obtain a d where d: "dynmem_alloc_region n MMU_AP_RWNA MMU_CTRL_MEMTYPE_WB (dyn k) = Some (a, d)"
    using ex by (cases "dynmem_alloc_region n MMU_AP_RWNA MMU_CTRL_MEMTYPE_WB (dyn k)") auto
  have "dyn k' = d"
    using ex unfolding d by (auto dest!: upd_mb_dyn split: Option.bind_splits if_splits)
  with d show ?thesis by blast
qed

lemma kmalloc_used_grows:
  assumes "kinv k bs" and "kmalloc sz k = Some (p, k')"
  shows "used_grows (dyn k) (dyn k')"
proof -
  obtain b k1 where g: "get_block (memalign sz) k = Some (b, k1)" "take_block b k1 = Some (p, k')"
    using assms(2) by (auto simp: kmalloc_unfold split: Option.bind_splits)
  have "dyn k' = dyn k1" using g(2) by (auto simp: take_block_def Let_def dest!: upd_mb_dyn split: Option.bind_splits if_splits)
  moreover have "dyn k1 = dyn k \<or> (\<exists>n a. dynmem_alloc_region n MMU_AP_RWNA MMU_CTRL_MEMTYPE_WB (dyn k) = Some (a, dyn k1))"
    using g(1) by (auto simp: get_block_def Let_def dest!: extend_dyn split_mblock_dyn split: Option.bind_splits if_splits)
  ultimately show ?thesis using alloc_used_grows [OF kinv_parts(4) [OF assms(1)]] by auto
qed

lemma kzalloc_used_grows:
  assumes "kinv k bs" and "kzalloc sz k = Some (p, k')"
  shows "used_grows (dyn k) (dyn k')"
proof -
  obtain k1 where "kmalloc sz k = Some (p, k1)" "dynmemmap_bitmap (dyn k') = dynmemmap_bitmap (dyn k1)"
    using assms(2) by (auto simp: kzalloc_def zero_mem_def split: Option.bind_splits if_splits)
  then show ?thesis using kmalloc_used_grows [OF assms(1)] by (simp add: used_grows_def)
qed

lemma free_tail_dyn:
  "free_tail b k = Some k' \<Longrightarrow> dyn k' = dyn k \<or> (\<exists>a. dynmem_free_region a (dyn k) = Some (dyn k'))"
  by (auto simp: free_tail_def dest!: upd_mb_dyn merge_dyn split: Option.bind_splits if_splits)

lemma kfree_used_grows:
  assumes "kinv k bs" and "kfree p k = Some k'"
  shows "used_grows (dyn k) (dyn k')"
proof -
  have "dyn k' = dyn k \<or> (\<exists>a. dynmem_free_region a (dyn k) = Some (dyn k'))"
    using assms(2) unfolding kfree_unfold
    by (auto simp: Let_def dest!: upd_mb_dyn merge_dyn free_tail_dyn split: Option.bind_splits if_splits)
  then show ?thesis using free_used_grows [OF kinv_parts(4) [OF assms(1)]] by auto
qed

section \<open>Searching a fresh region\<close>

lemma search_zero:
  assumes z: "\<forall>w \<in> set bm. w = 0" and nw: "nw \<le> length bm" and len: "0 < len" "len \<le> 32 * nw"
  shows "\<not> cur \<Longrightarrow> start = 0 \<Longrightarrow> i < nw \<Longrightarrow> 0 < i * 32 + j \<Longrightarrow> (if j \<le> 32 then i * 32 + j \<le> len else i * 32 + 32 < len) \<Longrightarrow>
    search_loop bm nw len rv i j start end cur = Some (0, 0)"
  using nw
proof (induction i j start "end" cur rule: search_loop_rounds)
  case (Word i j s e c)
  have "Suc i * 32 < 32 * nw" using Word.prems(5) Word.hyps len(2) by simp
  then show ?case using Word by (simp add: search_word)
next
  case (Used i j s e c)
  have "bm ! i = 0" using z Used nw by (metis nth_mem order_less_le_trans)
  then show ?case using Used by simp
next
  case (Free i j s e c)
  then show ?case using nw by (simp add: search_free)
qed simp


lemma search_fresh:
  assumes "0 < len" and "len \<le> 32 * n"
  shows "bitmap_block_search ib len (replicate n 0) (4 * n) = Some (0, 0)"
proof -
  have z: "\<forall>w \<in> set (replicate n (0 :: u32)). w = 0" by simp
  have "0 < n" using assms by simp
  then have "search_loop (replicate n 0) n len ib 0 0 0 0 True = search_loop (replicate n 0) n len ib 0 (Suc 0) 0 0 False"
    using assms(1) by (simp add: search_free)
  also have "\<dots> = Some (0, 0)" using search_zero [OF z _ assms, of False 0 0 1 ib 0] assms \<open>0 < n\<close> by simp
  finally show ?thesis by (simp add: bitmap_block_search_def bitmap_block_search_s_def)
qed

section \<open>Invariant\<close>

text \<open>The pages of a region in the region allocator, and the pages of a buffer in its region.\<close>

definition rpages :: "vregion \<Rightarrow> nat set" where
  "rpages r = {(kaddr r - DYNMEM_START) div 2 ^ 20 ..< (kaddr r - DYNMEM_START) div 2 ^ 20 + length (vmap r) div 8}"

definition bidx :: "vregion \<Rightarrow> vbuf \<Rightarrow> nat" where
  "bidx r b = (b_data b - kaddr r) div MMU_PGSIZE_COARSE"

definition bcnt :: "vbuf \<Rightarrow> nat" where
  "bcnt b = b_bufsize b div MMU_PGSIZE_COARSE"

definition bpages :: "vregion \<Rightarrow> vbuf \<Rightarrow> nat set" where
  "bpages r b = {bidx r b ..< bidx r b + bcnt b}"

text \<open>\<open>bitmap_block_update\<close> handles a block right when it does not run out of the first word.\<close>

definition no_straddle :: "nat \<Rightarrow> nat \<Rightarrow> bool" where
  "no_straddle i n \<longleftrightarrow> 32 \<le> i \<or> i + n \<le> 32"

definition used_pages :: "vregion \<Rightarrow> nat set" where
  "used_pages r = {p. used (vmap r) p}"

definition vreg_ok :: "dynmem \<Rightarrow> vregion \<Rightarrow> bool" where
  "vreg_ok d r \<longleftrightarrow> (\<exists>pos n. kaddr r = page pos \<and> 0 < n \<and> pos + n \<le> 8 \<and> length (vmap r) = 8 * n) \<and>
     vsize r = 4 * length (vmap r) \<and> vcount r = card (used_pages r) \<and> (\<forall>p \<in> rpages r. dmap_used d p)"

definition buf_ok :: "vra \<Rightarrow> vbuf \<Rightarrow> bool" where
  "buf_ok st b \<longleftrightarrow> (\<exists>r. vregs st (allocator_data b) = Some r \<and> b_data b = kaddr r + bidx r b * MMU_PGSIZE_COARSE \<and>
     b_bufsize b = bcnt b * MMU_PGSIZE_COARSE \<and> 0 < bcnt b \<and> no_straddle (bidx r b) (bcnt b) \<and> bpages r b \<subseteq> used_pages r) \<and>
     (\<exists>n. Kobj.live (b_obj b) n \<and> \<not> dying (b_obj b))"

definition vowned :: "vra \<Rightarrow> nat \<rightharpoonup> nat" where
  "vowned st q = (case vregs st q of Some r \<Rightarrow> Some (20 + 4 * length (vmap r))
     | None \<Rightarrow> if bufs st q = None then None else Some SIZEOF_BUF)"

text \<open>\<open>E\<close> are blocks of the heap that a function holds besides the regions and buffers.\<close>

definition heap_part :: "(nat \<rightharpoonup> nat) \<Rightarrow> vra \<Rightarrow> bool" where
  "heap_part E st \<longleftrightarrow> (\<exists>b. kinv (vheap st) b \<and> kz.owns b (vowned st ++ E))"

definition names_part :: "(nat \<rightharpoonup> nat) \<Rightarrow> vra \<Rightarrow> bool" where
  "names_part E st \<longleftrightarrow> dom (vregs st) \<inter> dom (bufs st) = {} \<and> dom E \<inter> (dom (vregs st) \<union> dom (bufs st)) = {} \<and>
     vregs st 0 = None \<and> bufs st 0 = None \<and> distinct (vrlist st) \<and> set (vrlist st) = dom (vregs st)"

definition regs_apart :: "vra \<Rightarrow> bool" where
  "regs_apart st \<longleftrightarrow> (\<forall>v w r s. vregs st v = Some r \<longrightarrow> vregs st w = Some s \<longrightarrow> v \<noteq> w \<longrightarrow> rpages r \<inter> rpages s = {})"

definition bufs_apart :: "vra \<Rightarrow> bool" where
  "bufs_apart st \<longleftrightarrow> (\<forall>p q b c r. bufs st p = Some b \<longrightarrow> bufs st q = Some c \<longrightarrow> p \<noteq> q \<longrightarrow> allocator_data b = allocator_data c \<longrightarrow>
     vregs st (allocator_data b) = Some r \<longrightarrow> bpages r b \<inter> bpages r c = {})"

text \<open>Every used page belongs to a buffer.\<close>

definition pages_covered :: "vra \<Rightarrow> bool" where
  "pages_covered st \<longleftrightarrow> (\<forall>v r p. vregs st v = Some r \<longrightarrow> p \<in> used_pages r \<longrightarrow>
     (\<exists>q b. bufs st q = Some b \<and> allocator_data b = v \<and> p \<in> bpages r b))"

definition vra_inv :: "(nat \<rightharpoonup> nat) \<Rightarrow> vra \<Rightarrow> bool" where
  "vra_inv E st \<longleftrightarrow> heap_part E st \<and> names_part E st \<and> regs_apart st \<and> bufs_apart st \<and> pages_covered st \<and>
     (\<forall>v r. vregs st v = Some r \<longrightarrow> vreg_ok (dyn (vheap st)) r) \<and> (\<forall>q b. bufs st q = Some b \<longrightarrow> buf_ok st b)"

lemma vra_invD:
  assumes "vra_inv E st"
  shows "heap_part E st" "names_part E st" "regs_apart st" "bufs_apart st" "pages_covered st"
    "vregs st v = Some r \<Longrightarrow> vreg_ok (dyn (vheap st)) r" "bufs st q = Some b \<Longrightarrow> buf_ok st b"
  using assms unfolding vra_inv_def by blast+

lemma finite_used [simp]: "finite (used_pages r)"
  by (rule finite_subset [of _ "{..< 32 * length (vmap r)}"]) (auto simp: used_pages_def used_def)

lemma vreg_ok_grows: "vreg_ok d r \<Longrightarrow> used_grows d d' \<Longrightarrow> vreg_ok d' r"
  by (auto simp: vreg_ok_def used_grows_def)

text \<open>Everything but the heap depends on the regions, the buffers and the list only.\<close>

lemma vra_inv_heap:
  assumes "vra_inv E st" and "used_grows (dyn (vheap st)) (dyn h)" and "heap_part F (st\<lparr>vheap := h\<rparr>)" and "names_part F st"
  shows "vra_inv F (st\<lparr>vheap := h\<rparr>)"
proof -
  have "names_part F (st\<lparr>vheap := h\<rparr>)" "regs_apart (st\<lparr>vheap := h\<rparr>)" "bufs_apart (st\<lparr>vheap := h\<rparr>)" "pages_covered (st\<lparr>vheap := h\<rparr>)"
    using assms(4) vra_invD(3-5) [OF assms(1)]
    by (simp_all add: names_part_def regs_apart_def bufs_apart_def pages_covered_def)
  moreover have "vreg_ok (dyn h) r" if "vregs st v = Some r" for v r
    using vreg_ok_grows [OF vra_invD(6) [OF assms(1) that] assms(2)] .
  moreover have "buf_ok (st\<lparr>vheap := h\<rparr>) b" if "bufs st q = Some b" for q b
    using vra_invD(7) [OF assms(1) that] by (simp add: buf_ok_def)
  ultimately show ?thesis using assms(3) by (simp add: vra_inv_def)
qed

lemma vowned_vheap [simp]: "vowned (st\<lparr>vheap := h\<rparr>) = vowned st"
  by (rule ext) (auto simp: vowned_def)

lemma names_free: "names_part E st \<Longrightarrow> E q = Some n \<Longrightarrow> vowned st q = None"
  by (auto simp: names_part_def vowned_def split: option.splits)

text \<open>Taking a block from the heap and giving one back.\<close>

lemma take_block_ok:
  assumes inv: "vra_inv E st" and a: "kzalloc n (vheap st) = Some (q, h)" and sz: "size_ok n"
  shows "if q = 0 then h = vheap st
    else vregs st q = None \<and> bufs st q = None \<and> E q = None \<and> vra_inv (E(q \<mapsto> n)) (st\<lparr>vheap := h\<rparr>)"
proof -
  obtain b where b: "kinv (vheap st) b" "kz.owns b (vowned st ++ E)" using vra_invD(1) [OF inv] by (auto simp: heap_part_def)
  show ?thesis
  proof (cases "q = 0")
    case True
    then show ?thesis using kz.alloc_null [OF b(1) sz] a by simp
  next
    case False
    have o: "(vowned st ++ E) q = None" "\<exists>b'. kinv h b' \<and> kz.owns b' ((vowned st ++ E)(q \<mapsto> n))"
      using kz.owns_alloc [OF b sz a False] by auto
    have f: "vregs st q = None" "bufs st q = None" "E q = None"
      using o(1) by (auto simp: vowned_def map_add_None split: option.splits if_splits)
    have "names_part (E(q \<mapsto> n)) st" using vra_invD(2) [OF inv] f by (auto simp: names_part_def)
    moreover have "heap_part (E(q \<mapsto> n)) (st\<lparr>vheap := h\<rparr>)" using o(2) by (simp add: heap_part_def)
    ultimately show ?thesis using vra_inv_heap [OF inv kzalloc_used_grows [OF b(1) a]] f False by simp
  qed
qed

lemma give_block_ok:
  assumes inv: "vra_inv E st" and q: "E q = Some n"
  shows "\<exists>h. kfree q (vheap st) = Some h \<and> vra_inv (E(q := None)) (st\<lparr>vheap := h\<rparr>)"
proof -
  obtain b where b: "kinv (vheap st) b" "kz.owns b (vowned st ++ E)" using vra_invD(1) [OF inv] by (auto simp: heap_part_def)
  have "(vowned st ++ E) q = Some n" using q by simp
  from kz.owns_release [OF b this] obtain h b' where h: "kfree q (vheap st) = Some h" "kinv h b'"
    "kz.owns b' ((vowned st ++ E)(q := None))" by blast
  have "(vowned st ++ E)(q := None) = vowned st ++ E(q := None)"
    using names_free [OF vra_invD(2) [OF inv] q] by (auto simp: map_add_def fun_eq_iff split: option.splits)
  then have "heap_part (E(q := None)) (st\<lparr>vheap := h\<rparr>)" using h(2,3) by (auto simp: heap_part_def)
  moreover have "names_part (E(q := None)) st" using vra_invD(2) [OF inv] by (auto simp: names_part_def)
  ultimately show ?thesis using vra_inv_heap [OF inv kfree_used_grows [OF b(1) h(1)]] h(1) by blast
qed


section \<open>Regions\<close>

lemma map_words: "0 < m \<Longrightarrow> E2BITMAP_SIZE (256 * m) = 8 * m"
  by (simp add: E2BITMAP_SIZE_def max_def)

lemma round_up_blocks:
  assumes "0 < n" and "n \<le> 2 ^ 20"
  shows "\<exists>m. ROUND_UP n DMEM_BLOCK_SIZE = 256 * m \<and> 0 < m \<and> m \<le> 4096 \<and> n \<le> 256 * m"
proof -
  define m where "m = (n + 255) div 256"
  have m: "0 < m" "m \<le> 4096" "n \<le> 256 * m" using assms by (simp_all add: m_def)
  have "ROUND_UP n DMEM_BLOCK_SIZE = szt (m * 256)" using assms by (simp add: ROUND_UP_def m_def)
  also have "\<dots> = 256 * m" using m(2) by simp
  finally show ?thesis using m by blast
qed

lemma vreg_size_ok: "m \<le> 4096 \<Longrightarrow> 0 < m \<Longrightarrow> VREG_SIZE (256 * m) = 20 + 32 * m \<and> size_ok (20 + 32 * m)"
proof -
  assume m: "m \<le> 4096" "0 < m"
  then have "20 + 32 * m \<le> 131092" by simp
  moreover have "size_ok k" if "k \<le> 131092" for k
  proof -
    have "memalign k < k + 4" using that memalign_round(3) [of k] by simp
    then show ?thesis using that memalign_round(1) [of k] by (simp add: size_ok_def room_ok_def)
  qed
  ultimately show ?thesis using m by (simp add: VREG_SIZE_def map_words)
qed

lemma fresh_used: "used_pages \<lparr>kaddr = a, vcount = c, vsize = z, vmap = replicate n 0\<rparr> = {}"
  by (auto simp: used_pages_def used_def)

text \<open>A new region of pages nobody uses.\<close>

lemma add_region:
  assumes inv: "vra_inv (E(v \<mapsto> 20 + 32 * m)) st" and v: "vregs st v = None" "bufs st v = None" "E v = None" "v \<noteq> 0"
    and pos: "pos + m \<le> 8" "0 < m" and d: "dm_inv d" "used_grows (dyn (vheap st)) d"
    and un: "\<forall>p \<in> {pos ..< pos + m}. \<not> dmap_used (dyn (vheap st)) p" "\<forall>p \<in> {pos ..< pos + m}. dmap_used d p"
  shows "vra_inv E (st\<lparr>vheap := (vheap st)\<lparr>dyn := d\<rparr>,
    vregs := (vregs st)(v \<mapsto> \<lparr>kaddr = page pos, vcount = 0, vsize = 32 * m, vmap = replicate (8 * m) 0\<rparr>),
    vrlist := v # vrlist st, vralloc_all := x\<rparr>)" (is "vra_inv E ?st")
proof -
  let ?r = "\<lparr>kaddr = page pos, vcount = 0, vsize = 32 * m, vmap = replicate (8 * m) 0\<rparr>"
  have rp: "rpages ?r = {pos ..< pos + m}" by (simp add: rpages_def)
  have up: "used_pages ?r = {}" by (rule fresh_used)
  obtain b where b: "kinv (vheap st) b" "kz.owns b (vowned st ++ E(v \<mapsto> 20 + 32 * m))"
    using vra_invD(1) [OF inv] by (auto simp: heap_part_def)
  have "vowned ?st = (vowned st)(v \<mapsto> 20 + 32 * m)" by (auto simp: vowned_def fun_eq_iff)
  then have "vowned ?st ++ E = vowned st ++ E(v \<mapsto> 20 + 32 * m)" using v(3) by (auto simp: map_add_def fun_eq_iff split: option.splits)
  moreover have "kinv ((vheap st)\<lparr>dyn := d\<rparr>) b" using kinv_dyn [OF b(1) d(1)] d(2) by (simp add: used_grows_def)
  ultimately have h: "heap_part E ?st" using b(2) by (auto simp: heap_part_def)
  have n: "names_part E ?st" using vra_invD(2) [OF inv] v by (auto simp: names_part_def)
  have old: "rpages s \<inter> rpages ?r = {}" if "vregs st w = Some s" for w s
    using vra_invD(6) [OF inv that] un(1) unfolding vreg_ok_def rp by blast
  then have old': "rpages ?r \<inter> rpages s = {}" if "vregs st w = Some s" for w s
    using that by (simp add: Int_commute)
  have ra: "regs_apart ?st"
    using vra_invD(3) [OF inv] old old' unfolding regs_apart_def by simp
  have nb: "allocator_data b \<noteq> v" if "bufs st q = Some b" for q b
    using vra_invD(7) [OF inv that] v(1) by (auto simp: buf_ok_def)
  have ba: "bufs_apart ?st" using vra_invD(4) [OF inv] nb unfolding bufs_apart_def by auto
  have pc: "pages_covered ?st" using vra_invD(5) [OF inv] up unfolding pages_covered_def by auto
  have "vreg_ok d ?r" using pos un(2) unfolding vreg_ok_def up rp by auto
  then have vo: "vreg_ok (dyn (vheap ?st)) r" if "vregs ?st w = Some r" for w r
    using that vreg_ok_grows [OF vra_invD(6) [OF inv] d(2)] by (auto split: if_splits)
  have bo: "buf_ok ?st b" if "bufs ?st q = Some b" for q b
    using vra_invD(7) [OF inv, of q b] nb [of q b] that by (simp add: buf_ok_def)
  show ?thesis unfolding vra_inv_def using h n ra ba pc vo bo by blast
qed

lemma vreg_alloc_node_ok:
  assumes inv: "vra_inv E st" and n: "0 < n" "n \<le> 2 ^ 20" and a: "vreg_alloc_node n st = Some (v, st')"
  shows "vra_inv E st' \<and> bufs st' = bufs st \<and> (if v = 0 then vregs st' = vregs st \<and> vrlist st' = vrlist st
    else \<exists>m r. n \<le> 32 * (8 * m) \<and> vmap r = replicate (8 * m) 0 \<and> vsize r = 4 * (8 * m) \<and> vregs st' v = Some r \<and> vrlist st' = v # vrlist st)"
proof -
  obtain m where m: "ROUND_UP n DMEM_BLOCK_SIZE = 256 * m" "0 < m" "m \<le> 4096" "n \<le> 256 * m" using round_up_blocks [OF n] by blast
  note sz = vreg_size_ok [OF m(3,2)] and mw = map_words [OF m(2)]
  obtain w h where h: "kzalloc (20 + 32 * m) (vheap st) = Some (w, h)"
    using a sz by (auto simp: vreg_alloc_node_def Let_def m(1) split: Option.bind_splits)
  note t = take_block_ok [OF inv h sz [THEN conjunct2]]
  show ?thesis
  proof (cases "w = 0")
    case True
    then have "v = 0 \<and> st' = st\<lparr>vheap := h\<rparr>" using a h sz by (auto simp: vreg_alloc_node_def Let_def m(1))
    then show ?thesis using t True inv by simp
  next
    case False
    define s1 where "s1 = st\<lparr>vheap := h\<rparr>"
    have i1: "vra_inv (E(w \<mapsto> 20 + 32 * m)) s1" and w: "vregs st w = None" "bufs st w = None" "E w = None"
      using t False by (auto simp: s1_def)
    obtain b where b: "kinv h b" using vra_invD(1) [OF i1] by (auto simp: heap_part_def s1_def)
    note di = kinv_parts(4) [OF b]
    obtain addr d where d: "dynmem_alloc_region m MMU_AP_RWNA MMU_CTRL_MEMTYPE_WB (dyn h) = Some (addr, d)"
      using a h sz False by (auto simp: vreg_alloc_node_def Let_def m(1) split: Option.bind_splits)
    show ?thesis
    proof (cases "addr = 0")
      case True
      have "d = dyn h" using dynmem_alloc_Some [OF di d] True by auto
      then obtain h2 where h2: "kfree w h = Some h2" "v = 0" "st' = st\<lparr>vheap := h2\<rparr>"
        using a h sz False d True by (auto simp: vreg_alloc_node_def Let_def m(1) split: Option.bind_splits)
      from give_block_ok [OF i1, of w "20 + 32 * m"] h2(1) have "vra_inv ((E(w \<mapsto> 20 + 32 * m))(w := None)) (st\<lparr>vheap := h2\<rparr>)"
        by (auto simp: s1_def)
      moreover have "(E(w \<mapsto> 20 + 32 * m))(w := None) = E" using w(3) by auto
      ultimately show ?thesis using h2 by simp
    next
      case a0: False
      then obtain pos where pos: "0 < m" "addr = page pos" "pos + m \<le> 8" "\<forall>p \<in> {pos ..< pos + m}. \<not> dmap_used (dyn h) p"
        "alloc_result (dyn h) pos m MMU_AP_RWNA MMU_CTRL_MEMTYPE_WB d" using dynmem_alloc_Some [OF di d] by auto
      have u2: "\<forall>p \<in> {pos ..< pos + m}. dmap_used d p" using pos(5) by (auto simp: alloc_result_def)
      have dd: "dm_inv d" by (rule alloc_result_inv(1) [OF di pos(5,1,3)])
      have st': "v = w" "st' = s1\<lparr>vheap := (vheap s1)\<lparr>dyn := d\<rparr>,
          vregs := (vregs s1)(w \<mapsto> \<lparr>kaddr = page pos, vcount = 0, vsize = 32 * m, vmap = replicate (8 * m) 0\<rparr>),
          vrlist := w # vrlist s1, vralloc_all := vralloc_all s1 + of_nat (VREG_BYTESIZE (256 * m))\<rparr>"
        using a h sz False d a0 pos(2) m(3) by (auto simp: vreg_alloc_node_def Let_def m(1) mw s1_def)
      have "vra_inv E st'" unfolding st'(2)
        by (rule add_region [OF i1]) (use w False pos u2 dd alloc_used_grows [OF di d] in \<open>simp_all add: s1_def\<close>)
      then show ?thesis using st' False m(4) by (auto simp: s1_def)
    qed
  qed
qed


section \<open>Buffers\<close>

text \<open>The search over the regions finds a run of free pages in a region of the list.\<close>

lemma find_vreg_ok:
  assumes inv: "vra_inv E st" and vs: "set vs \<subseteq> dom (vregs st)"
  shows "\<exists>v ib'. find_vreg (vregs st) vs n ib = Some (v, ib') \<and>
    (v \<noteq> 0 \<longrightarrow> (\<exists>r. vregs st v = Some r \<and> ib' + n \<le> 32 * length (vmap r) \<and> (\<forall>p \<in> {ib' ..< ib' + n}. \<not> used (vmap r) p)))"
  using vs
proof (induction vs arbitrary: ib)
  case (Cons v vs)
  then obtain r where r: "vregs st v = Some r" by auto
  then have sz: "vsize r div 4 = length (vmap r)" using vra_invD(6) [OF inv r] by (auto simp: vreg_ok_def)
  obtain rc ib1 where s: "bitmap_block_search ib n (vmap r) (vsize r) = Some (rc, ib1)"
    using bitmap_block_search_s_rc [of "vsize r" "vmap r" 0 ib n] sz by (auto simp: bitmap_block_search_def)
  show ?case
  proof (cases "rc = 0")
    case True
    then show ?thesis using s r bitmap_block_search_s_sound [of 0 ib n "vmap r" "vsize r" ib1] sz by (auto simp: bitmap_block_search_def)
  next
    case False
    then show ?thesis using s r Cons by auto
  qed
qed simp

lemma get_iblocks_retry_ok:
  assumes inv: "vra_inv E st" and n: "0 < n" "n \<le> 2 ^ 20" and g: "get_iblocks_retry n ib st = Some (v, i, st')"
  shows "vra_inv E st' \<and> bufs st' = bufs st \<and>
    (v \<noteq> 0 \<longrightarrow> (\<exists>r. vregs st' v = Some r \<and> i + n \<le> 32 * length (vmap r) \<and> (\<forall>p \<in> {i ..< i + n}. \<not> used (vmap r) p)))"
proof -
  have l: "set (vrlist s) \<subseteq> dom (vregs s)" if "vra_inv E s" for s
    using vra_invD(2) [OF that] by (simp add: names_part_def)
  obtain v1 i1 where f: "find_vreg (vregs st) (vrlist st) n ib = Some (v1, i1)"
    "v1 \<noteq> 0 \<longrightarrow> (\<exists>r. vregs st v1 = Some r \<and> i1 + n \<le> 32 * length (vmap r) \<and> (\<forall>p \<in> {i1 ..< i1 + n}. \<not> used (vmap r) p))"
    using find_vreg_ok [OF inv l [OF inv]] by blast
  show ?thesis
  proof (cases "v1 = 0")
    case False
    then have "v = v1 \<and> i = i1 \<and> st' = st" using g f(1) by (simp add: get_iblocks_retry_def)
    then show ?thesis using f(2) False inv by simp
  next
    case True
    obtain v2 s2 where a: "vreg_alloc_node n st = Some (v2, s2)"
      using g f(1) True by (auto simp: get_iblocks_retry_def split: Option.bind_splits)
    note ok = vreg_alloc_node_ok [OF inv n a]
    show ?thesis
    proof (cases "v2 = 0")
      case True
      then have "v = 0 \<and> st' = s2" using g f(1) \<open>v1 = 0\<close> a by (simp add: get_iblocks_retry_def)
      then show ?thesis using ok by simp
    next
      case False
      obtain m r where r: "n \<le> 32 * (8 * m)" "vmap r = replicate (8 * m) 0" "vsize r = 4 * (8 * m)" "vregs s2 v2 = Some r" "vrlist s2 = v2 # vrlist st"
        using ok False by auto
      have "find_vreg (vregs s2) (vrlist s2) n i1 = Some (v2, 0)"
        using search_fresh [OF n(1) r(1), of i1] r by simp
      then have "v = v2 \<and> i = 0 \<and> st' = s2" using g f(1) \<open>v1 = 0\<close> a False by (simp add: get_iblocks_retry_def)
      then show ?thesis using ok r(1,2,4) by (auto simp: used_def)
    qed
  qed
qed

text \<open>The retry finds pages: a new region has room for the request.\<close>

lemma get_iblocks_retry_returns:
  assumes inv: "vra_inv E st" and n: "0 < n" "n \<le> 2 ^ 20" and a: "vreg_alloc_node n st \<noteq> None"
  shows "get_iblocks_retry n ib st \<noteq> None"
proof -
  have "set (vrlist st) \<subseteq> dom (vregs st)" using vra_invD(2) [OF inv] by (simp add: names_part_def)
  then obtain v1 i1 where f: "find_vreg (vregs st) (vrlist st) n ib = Some (v1, i1)" using find_vreg_ok [OF inv] by blast
  obtain v2 s2 where s2: "vreg_alloc_node n st = Some (v2, s2)" using a by auto
  show ?thesis
  proof (cases "v1 = 0 \<and> v2 \<noteq> 0")
    case True
    then obtain m r where r: "n \<le> 32 * (8 * m)" "vmap r = replicate (8 * m) 0" "vsize r = 4 * (8 * m)" "vregs s2 v2 = Some r" "vrlist s2 = v2 # vrlist st"
      using vreg_alloc_node_ok [OF inv n s2] by auto
    have "find_vreg (vregs s2) (vrlist s2) n i1 = Some (v2, 0)" using search_fresh [OF n(1) r(1), of i1] r by simp
    then show ?thesis using f s2 True by (simp add: get_iblocks_retry_def)
  next
    case False
    then show ?thesis using f s2 by (auto simp: get_iblocks_retry_def)
  qed
qed


text \<open>Fields that do not matter to the invariant.\<close>

lemma vra_inv_stats [simp]:
  "vra_inv E (st\<lparr>vralloc_used := x\<rparr>) = vra_inv E st" "vra_inv E (st\<lparr>vralloc_all := x\<rparr>) = vra_inv E st"
proof -
  have v: "vowned (st\<lparr>vralloc_used := x\<rparr>) = vowned st" "vowned (st\<lparr>vralloc_all := x\<rparr>) = vowned st"
    by (auto simp: vowned_def fun_eq_iff)
  show "vra_inv E (st\<lparr>vralloc_used := x\<rparr>) = vra_inv E st" "vra_inv E (st\<lparr>vralloc_all := x\<rparr>) = vra_inv E st"
    by (simp_all add: vra_inv_def heap_part_def names_part_def regs_apart_def bufs_apart_def pages_covered_def buf_ok_def v)
qed

lemma vra_inv_mem: "vra_inv E st \<Longrightarrow> vra_inv E (vmem_upd f st)"
proof -
  assume inv: "vra_inv E st"
  let ?d = "(dyn (vheap st))\<lparr>mem := f (mem (dyn (vheap st)))\<rparr>"
  obtain b where b: "kinv (vheap st) b" "kz.owns b (vowned st ++ E)" using vra_invD(1) [OF inv] by (auto simp: heap_part_def)
  have "dm_inv ?d" using kinv_parts(4) [OF b(1)] by (simp add: dm_inv_def)
  then have "kinv ((vheap st)\<lparr>dyn := ?d\<rparr>) b" by (rule kinv_dyn [OF b(1)]) simp
  then have "heap_part E (st\<lparr>vheap := (vheap st)\<lparr>dyn := ?d\<rparr>\<rparr>)" using b(2) by (auto simp: heap_part_def)
  then show ?thesis unfolding vmem_upd_def
    by (intro vra_inv_heap [OF inv]) (use vra_invD(2) [OF inv] in \<open>simp_all add: used_grows_def\<close>)
qed

text \<open>A region whose map changes but not its size.\<close>

lemma region_same:
  assumes "length bm = length (vmap r)"
  shows "rpages (r\<lparr>vmap := bm, vcount := c\<rparr>) = rpages r" "bpages (r\<lparr>vmap := bm, vcount := c\<rparr>) b = bpages r b"
    "bidx (r\<lparr>vmap := bm, vcount := c\<rparr>) b = bidx r b"
  using assms by (simp_all add: rpages_def bpages_def bidx_def)

lemma vreg_ok_upd:
  assumes "vreg_ok d r" and "length bm = length (vmap r)" and "c = card {p. used bm p}"
  shows "vreg_ok d (r\<lparr>vmap := bm, vcount := c\<rparr>)"
  using assms by (auto simp: vreg_ok_def region_same used_pages_def)

lemma add_buf:
  assumes inv: "vra_inv (E(q \<mapsto> SIZEOF_BUF)) st" and q: "vregs st q = None" "bufs st q = None" "E q = None" "q \<noteq> 0"
    and r: "vregs st v = Some r" and free: "\<forall>p \<in> {i ..< i + n}. \<not> used (vmap r) p" and n: "0 < n" "no_straddle i n"
    and bm: "length bm = length (vmap r)" "\<forall>p. used bm p \<longleftrightarrow> i \<le> p \<and> p < i + n \<or> used (vmap r) p"
    and b: "b_data b = kaddr r + i * MMU_PGSIZE_COARSE" "b_bufsize b = n * MMU_PGSIZE_COARSE" "allocator_data b = v"
      "Kobj.live (b_obj b) k" "\<not> dying (b_obj b)"
  shows "vra_inv E (st\<lparr>vregs := (vregs st)(v \<mapsto> r\<lparr>vmap := bm, vcount := vcount r + n\<rparr>), bufs := (bufs st)(q \<mapsto> b)\<rparr>)"
    (is "vra_inv E ?st")
proof -
  let ?r = "r\<lparr>vmap := bm, vcount := vcount r + n\<rparr>"
  note same = region_same [OF bm(1)]
  have vr: "vreg_ok (dyn (vheap st)) r" by (rule vra_invD(6) [OF inv r])
  have up: "used_pages ?r = {i ..< i + n} \<union> used_pages r" by (rule set_eqI) (simp add: used_pages_def bm(2))
  have bp: "bpages r b = {i ..< i + n}" "bidx r b = i" "bcnt b = n" using b(1,2) by (simp_all add: bpages_def bidx_def bcnt_def)
  have dis: "{i ..< i + n} \<inter> used_pages r = {}" using free by (auto simp: used_pages_def)
  have card: "vcount r + n = card {p. used bm p}"
  proof -
    have "{p. used bm p} = used_pages ?r" by (simp add: used_pages_def)
    then show ?thesis unfolding up using vr card_Un_disjoint [OF _ finite_used dis] by (simp add: vreg_ok_def)
  qed
  have vok: "vreg_ok (dyn (vheap st)) ?r" by (rule vreg_ok_upd [OF vr bm(1) card])
  have qv: "q \<noteq> v" using q(1) r by auto
  have "vowned ?st = (vowned st)(q \<mapsto> SIZEOF_BUF)"
    using r qv q(1) bm(1) by (auto simp: vowned_def fun_eq_iff)
  then have "vowned ?st ++ E = vowned st ++ E(q \<mapsto> SIZEOF_BUF)" using q(3) by (auto simp: map_add_def fun_eq_iff split: option.splits)
  then have h: "heap_part E ?st" using vra_invD(1) [OF inv] by (simp add: heap_part_def)
  have nm: "names_part E ?st" using vra_invD(2) [OF inv] q r qv unfolding names_part_def by (auto split: if_splits)
  have ra: "regs_apart ?st" using vra_invD(3) [OF inv] r unfolding regs_apart_def by (auto simp: same split: if_splits)
  have cov: "bpages s c \<subseteq> used_pages s" if "bufs st p = Some c" "vregs st (allocator_data c) = Some s" for p c s
    using vra_invD(7) [OF inv that(1)] that(2) by (auto simp: buf_ok_def)
  have apart: "bpages r b \<inter> bpages r c = {}" if "bufs st p = Some c" "allocator_data c = v" for p c
    using cov [OF that(1)] that(2) r bp(1) dis by blast
  have samef: "bpages ?r = bpages r" by (rule ext) (rule same(2))
  then have reg: "\<exists>s0. vregs st w = Some s0 \<and> bpages s = bpages s0" if "vregs ?st w = Some s" for w s
    using that r by (cases "w = v") auto
  have ba: "bufs_apart ?st"
    unfolding bufs_apart_def
  proof (intro allI impI)
    fix p p' c c' s assume a: "bufs ?st p = Some c" "bufs ?st p' = Some c'" "p \<noteq> p'" "allocator_data c = allocator_data c'"
      "vregs ?st (allocator_data c) = Some s"
    obtain s0 where s0: "vregs st (allocator_data c) = Some s0" "bpages s = bpages s0"
      using reg [OF a(5)] by blast
    consider "p = q" | "p' = q" | "p \<noteq> q" "p' \<noteq> q" by blast
    then show "bpages s c \<inter> bpages s c' = {}"
    proof cases
      case 1
      then have "c = b" "bufs st p' = Some c'" "allocator_data c' = v" "s0 = r" using a s0(1) r b(3) by auto
      then show ?thesis using apart [of p' c'] s0(2) by simp
    next
      case 2
      then have "c' = b" "bufs st p = Some c" "allocator_data c = v" "s0 = r" using a s0(1) r b(3) by auto
      then show ?thesis using apart [of p c] s0(2) by (simp add: Int_commute)
    next
      case 3
      then have "bufs st p = Some c" "bufs st p' = Some c'" using a by auto
      then show ?thesis using vra_invD(4) [OF inv] a(3,4) s0 unfolding bufs_apart_def by metis
    qed
  qed
  have pc: "pages_covered ?st"
    unfolding pages_covered_def
  proof (intro allI impI)
    fix w s p assume a: "vregs ?st w = Some s" "p \<in> used_pages s"
    show "\<exists>q' c. bufs ?st q' = Some c \<and> allocator_data c = w \<and> p \<in> bpages s c"
    proof (cases "w = v \<and> p \<in> {i ..< i + n}")
      case True
      then show ?thesis using a b(3) bp(1) by (intro exI [of _ q] exI [of _ b]) (auto simp: same)
    next
      case False
      then obtain s0 where s0: "vregs st w = Some s0" "p \<in> used_pages s0" "bpages s = bpages s0"
        using a r up samef by (cases "w = v") auto
      then obtain q' c where c: "bufs st q' = Some c" "allocator_data c = w" "p \<in> bpages s0 c"
        using vra_invD(5) [OF inv] unfolding pages_covered_def by blast
      have "q' \<noteq> q" using c(1) q(2) by auto
      then show ?thesis using c s0(3) by (intro exI [of _ q'] exI [of _ c]) simp
    qed
  qed
  have vo: "vreg_ok (dyn (vheap ?st)) s" if "vregs ?st w = Some s" for w s
    using that vok vra_invD(6) [OF inv] by (auto split: if_splits)
  have bo: "buf_ok ?st c" if c: "bufs ?st p = Some c" for p c
  proof (cases "p = q")
    case True
    then have "c = b" using c by simp
    then show ?thesis using b bp n up by (auto simp: buf_ok_def same)
  next
    case False
    then have "buf_ok st c" using c vra_invD(7) [OF inv] by simp
    then show ?thesis using r up by (auto simp: buf_ok_def same)
  qed
  show ?thesis unfolding vra_inv_def using h nm ra ba pc vo bo by blast
qed


text \<open>A buffer goes: its pages are free, its structure is a block on its own.\<close>

lemma remove_buf:
  assumes inv: "vra_inv E st" and b: "bufs st q = Some b" "allocator_data b = v" and r: "vregs st v = Some r"
    and bm: "length bm = length (vmap r)" "\<forall>p. used bm p \<longleftrightarrow> used (vmap r) p \<and> p \<notin> bpages r b"
  shows "vra_inv (E(q \<mapsto> SIZEOF_BUF)) (st\<lparr>vregs := (vregs st)(v \<mapsto> r\<lparr>vmap := bm, vcount := vcount r - bcnt b\<rparr>), bufs := (bufs st)(q := None)\<rparr>)"
    (is "vra_inv ?E ?st")
proof -
  let ?r = "r\<lparr>vmap := bm, vcount := vcount r - bcnt b\<rparr>"
  note same = region_same [OF bm(1)]
  have vr: "vreg_ok (dyn (vheap st)) r" by (rule vra_invD(6) [OF inv r])
  have bok: "bpages r b \<subseteq> used_pages r" using vra_invD(7) [OF inv b(1)] r b(2) by (auto simp: buf_ok_def)
  have up: "used_pages ?r = used_pages r - bpages r b" by (rule set_eqI) (simp add: used_pages_def bm(2))
  have card: "vcount r - bcnt b = card {p. used bm p}"
  proof -
    have "card (bpages r b) = bcnt b" by (simp add: bpages_def)
    moreover have "{p. used bm p} = used_pages ?r" by (simp add: used_pages_def)
    ultimately show ?thesis unfolding up using vr card_Diff_subset [OF _ bok] finite_subset [OF bok] by (simp add: vreg_ok_def)
  qed
  have vok: "vreg_ok (dyn (vheap st)) ?r" by (rule vreg_ok_upd [OF vr bm(1) card])
  have nq: "vregs st q = None" "E q = None" "q \<noteq> 0" "q \<noteq> v" using vra_invD(2) [OF inv] b(1) r unfolding names_part_def
    by (auto simp: domIff)
  have "vowned ?st ++ ?E = vowned st ++ E"
    using r nq b(1) bm(1) by (auto simp: vowned_def map_add_def fun_eq_iff split: option.splits)
  then have h: "heap_part ?E ?st" using vra_invD(1) [OF inv] by (simp add: heap_part_def)
  have nm: "names_part ?E ?st" using vra_invD(2) [OF inv] nq r unfolding names_part_def by (auto split: if_splits)
  have ra: "regs_apart ?st" using vra_invD(3) [OF inv] r unfolding regs_apart_def by (auto simp: same split: if_splits)
  have samef: "bpages ?r = bpages r" by (rule ext) (rule same(2))
  then have reg: "\<exists>s0. vregs st w = Some s0 \<and> bpages s = bpages s0" if "vregs ?st w = Some s" for w s
    using that r by (cases "w = v") auto
  have old: "bufs st p = Some c \<and> p \<noteq> q" if "bufs ?st p = Some c" for p c using that by (auto split: if_splits)
  have ba: "bufs_apart ?st"
    unfolding bufs_apart_def
  proof (intro allI impI)
    fix p p' c c' s assume a: "bufs ?st p = Some c" "bufs ?st p' = Some c'" "p \<noteq> p'" "allocator_data c = allocator_data c'"
      "vregs ?st (allocator_data c) = Some s"
    obtain s0 where "vregs st (allocator_data c) = Some s0" "bpages s = bpages s0" using reg [OF a(5)] by blast
    then show "bpages s c \<inter> bpages s c' = {}"
      using vra_invD(4) [OF inv] a(3,4) old [OF a(1)] old [OF a(2)] unfolding bufs_apart_def by metis
  qed
  have pc: "pages_covered ?st"
    unfolding pages_covered_def
  proof (intro allI impI)
    fix w s p assume a: "vregs ?st w = Some s" "p \<in> used_pages s"
    obtain s0 where s0: "vregs st w = Some s0" "p \<in> used_pages s0" "bpages s = bpages s0" "w = v \<longrightarrow> p \<notin> bpages r b"
      using a r up samef by (cases "w = v") auto
    obtain q' c where c: "bufs st q' = Some c" "allocator_data c = w" "p \<in> bpages s0 c"
      using vra_invD(5) [OF inv] s0(1,2) unfolding pages_covered_def by blast
    have "q' \<noteq> q" using c s0(1,4) b r by auto
    then show "\<exists>q' c. bufs ?st q' = Some c \<and> allocator_data c = w \<and> p \<in> bpages s c"
      using c s0(3) by (intro exI [of _ q'] exI [of _ c]) simp
  qed
  have vo: "vreg_ok (dyn (vheap ?st)) s" if "vregs ?st w = Some s" for w s
    using that vok vra_invD(6) [OF inv] by (auto split: if_splits)
  have bo: "buf_ok ?st c" if c: "bufs ?st p = Some c" for p c
  proof -
    have o: "bufs st p = Some c" "p \<noteq> q" using old [OF c] by auto
    have "bpages r c \<inter> bpages r b = {}" if "allocator_data c = v"
      using vra_invD(4) [OF inv] o b that r unfolding bufs_apart_def by metis
    then show ?thesis using vra_invD(7) [OF inv o(1)] r up unfolding buf_ok_def by (auto simp: same split: if_splits)
  qed
  show ?thesis unfolding vra_inv_def using h nm ra ba pc vo bo by blast
qed

text \<open>A region without used pages goes back to the region allocator.\<close>

lemma remove_region:
  assumes inv: "vra_inv E st" and r: "vregs st v = Some r" and e: "used_pages r = {}"
  shows "\<exists>d h. dynmem_free_region (kaddr r) (dyn (vheap st)) = Some d \<and> kfree v ((vheap st)\<lparr>dyn := d\<rparr>) = Some h \<and>
    vra_inv E (st\<lparr>vrlist := remove1 v (vrlist st), vheap := h, vregs := (vregs st)(v := None)\<rparr>)"
proof -
  let ?n = "20 + 4 * length (vmap r)"
  define s1 where "s1 = st\<lparr>vrlist := remove1 v (vrlist st), vregs := (vregs st)(v := None)\<rparr>"
  have nv: "bufs st v = None" "E v = None" "v \<noteq> 0" using vra_invD(2) [OF inv] r unfolding names_part_def
    by (auto simp: domIff)
  have nb: "allocator_data b \<noteq> v" if "bufs st q = Some b" for q b
    using vra_invD(7) [OF inv that] r e by (auto simp: buf_ok_def bpages_def)
  have "vowned s1 ++ E(v \<mapsto> ?n) = vowned st ++ E"
    using r nv by (auto simp: s1_def vowned_def map_add_def fun_eq_iff split: option.splits)
  then have h: "heap_part (E(v \<mapsto> ?n)) s1" using vra_invD(1) [OF inv] by (simp add: heap_part_def s1_def)
  have nm: "names_part (E(v \<mapsto> ?n)) s1" using vra_invD(2) [OF inv] nv unfolding names_part_def by (auto simp: s1_def split: if_splits)
  have ra: "regs_apart s1" using vra_invD(3) [OF inv] unfolding regs_apart_def by (auto simp: s1_def split: if_splits)
  have ba: "bufs_apart s1" using vra_invD(4) [OF inv] unfolding bufs_apart_def by (auto simp: s1_def split: if_splits)
  have pc: "pages_covered s1" using vra_invD(5) [OF inv] unfolding pages_covered_def by (auto simp: s1_def split: if_splits)
  have vo: "vreg_ok (dyn (vheap s1)) s" if "vregs s1 w = Some s" for w s
    using that vra_invD(6) [OF inv] by (auto simp: s1_def split: if_splits)
  have bo: "buf_ok s1 b" if "bufs s1 q = Some b" for q b
    using vra_invD(7) [OF inv, of q b] nb [of q b] that unfolding buf_ok_def by (auto simp: s1_def)
  have i1: "vra_inv (E(v \<mapsto> ?n)) s1" unfolding vra_inv_def using h nm ra ba pc vo bo by blast
  obtain b where b: "kinv (vheap s1) b" "kz.owns b (vowned s1 ++ E(v \<mapsto> ?n))" using h by (auto simp: heap_part_def)
  note di = kinv_parts(4) [OF b(1)]
  have "DYNMEM_START \<le> kaddr r" "kaddr r < DYNMEM_END" using vra_invD(6) [OF inv r] by (auto simp: vreg_ok_def)
  from dynmem_free_total [OF di this] obtain d where d: "dynmem_free_region (kaddr r) (dyn (vheap st)) = Some d" "dm_inv d"
    "used_grows (dyn (vheap s1)) d" by (auto simp: used_grows_def s1_def)
  let ?s = "s1\<lparr>vheap := (vheap s1)\<lparr>dyn := d\<rparr>\<rparr>"
  have "kinv ((vheap s1)\<lparr>dyn := d\<rparr>) b" using kinv_dyn [OF b(1) d(2)] d(3) by (simp add: used_grows_def)
  then have "heap_part (E(v \<mapsto> ?n)) ?s" using b(2) by (auto simp: heap_part_def)
  then have i2: "vra_inv (E(v \<mapsto> ?n)) ?s" by (intro vra_inv_heap [OF i1]) (use d(3) nm in auto)
  from give_block_ok [OF i2, of v ?n] obtain h where h2: "kfree v ((vheap s1)\<lparr>dyn := d\<rparr>) = Some h"
    "vra_inv ((E(v \<mapsto> ?n))(v := None)) (?s\<lparr>vheap := h\<rparr>)" by auto
  have e1: "(E(v \<mapsto> ?n))(v := None) = E" using nv(2) by auto
  have e2: "?s\<lparr>vheap := h\<rparr> = st\<lparr>vrlist := remove1 v (vrlist st), vheap := h, vregs := (vregs st)(v := None)\<rparr>"
    by (cases st) (simp add: s1_def)
  have "kfree v ((vheap st)\<lparr>dyn := d\<rparr>) = Some h" using h2(1) by (simp add: s1_def)
  then show ?thesis using d(1) h2(2) unfolding e1 e2 by blast
qed


section \<open>Addresses\<close>

definition brange :: "vbuf \<Rightarrow> nat set" where
  "brange b = {b_data b ..< b_data b + b_bufsize b}"

lemma vreg_okE:
  assumes "vreg_ok d r"
  obtains pos n where "kaddr r = page pos" "0 < n" "pos + n \<le> 8" "length (vmap r) = 8 * n" "vsize r = 32 * n" "rpages r = {pos ..< pos + n}"
  using assms by (auto simp: vreg_ok_def rpages_def)

text \<open>An address in a run of pages of a region determines the page of the region and the page of the region allocator.\<close>

lemma run_address:
  assumes "vreg_ok d r" and "i + n \<le> 32 * length (vmap r)" and "a \<in> {kaddr r + i * 4096 ..< kaddr r + (i + n) * 4096}"
  shows "(a - kaddr r) div 4096 \<in> {i ..< i + n}" "(a - DYNMEM_START) div 2 ^ 20 \<in> rpages r"
proof -
  obtain pos m where p: "kaddr r = page pos" "length (vmap r) = 8 * m" "rpages r = {pos ..< pos + m}" using assms(1) by (rule vreg_okE)
  define x where "x = a - kaddr r"
  have a: "a = kaddr r + x" and x: "i * 4096 \<le> x" "x < (i + n) * 4096" using assms(3) by (auto simp: x_def)
  show "(a - kaddr r) div 4096 \<in> {i ..< i + n}"
    using x div_le_mono [OF x(1), of 4096] by (simp add: x_def [symmetric] less_mult_imp_div_less)
  have "x < (256 * m) * 4096" using x(2) assms(2) p(2) by (simp add: order_less_le_trans mult_le_mono1)
  then have "x div 2 ^ 20 < m" by (simp add: less_mult_imp_div_less)
  moreover have "(a - DYNMEM_START) div 2 ^ 20 = pos + x div 2 ^ 20" using a p(1) by simp
  ultimately show "(a - DYNMEM_START) div 2 ^ 20 \<in> rpages r" using p(3) by simp
qed

lemma brange_eq: "b_data b = kaddr r + bidx r b * 4096 \<Longrightarrow> b_bufsize b = bcnt b * 4096 \<Longrightarrow>
    brange b = {kaddr r + bidx r b * 4096 ..< kaddr r + (bidx r b + bcnt b) * 4096}"
  by (simp add: brange_def algebra_simps)

lemma buf_address:
  assumes inv: "vra_inv E st" and b: "bufs st q = Some b" and a: "a \<in> brange b"
  obtains r where "vregs st (allocator_data b) = Some r" "(a - kaddr r) div 4096 \<in> bpages r b" "(a - DYNMEM_START) div 2 ^ 20 \<in> rpages r"
    "bpages r b \<subseteq> used_pages r"
proof -
  obtain r where r: "vregs st (allocator_data b) = Some r" "b_data b = kaddr r + bidx r b * 4096" "b_bufsize b = bcnt b * 4096"
    "bpages r b \<subseteq> used_pages r" "0 < bcnt b"
    using vra_invD(7) [OF inv b] by (auto simp: buf_ok_def)
  have "bidx r b + bcnt b - 1 \<in> used_pages r" using r(4,5) by (auto simp: bpages_def)
  then have "bidx r b + bcnt b \<le> 32 * length (vmap r)" by (auto simp: used_pages_def used_def)
  note ad = run_address [OF vra_invD(6) [OF inv r(1)] this, of a]
  show thesis
  proof (rule that)
    show "(a - kaddr r) div 4096 \<in> bpages r b" "(a - DYNMEM_START) div 2 ^ 20 \<in> rpages r"
      using ad a unfolding brange_eq [OF r(2,3)] bpages_def by auto
  qed (fact r)+
qed

text \<open>A run of free pages is apart from every buffer, and buffers are apart from each other.\<close>

lemma free_run_apart:
  assumes inv: "vra_inv E st" and r: "vregs st v = Some r" and i: "i + n \<le> 32 * length (vmap r)"
    and free: "\<forall>p \<in> {i ..< i + n}. \<not> used (vmap r) p" and c: "bufs st q = Some c"
  shows "{kaddr r + i * 4096 ..< kaddr r + (i + n) * 4096} \<inter> brange c = {}"
proof (rule ccontr)
  assume "\<not> ?thesis"
  then obtain a where a: "a \<in> {kaddr r + i * 4096 ..< kaddr r + (i + n) * 4096}" "a \<in> brange c" by blast
  obtain s where s: "vregs st (allocator_data c) = Some s" "(a - kaddr s) div 4096 \<in> bpages s c" "(a - DYNMEM_START) div 2 ^ 20 \<in> rpages s"
    "bpages s c \<subseteq> used_pages s" using buf_address [OF inv c a(2)] by blast
  note ad = run_address [OF vra_invD(6) [OF inv r] i a(1)]
  show False
  proof (cases "allocator_data c = v")
    case True
    then have "s = r" using s(1) r by simp
    then have "used (vmap r) ((a - kaddr r) div 4096)" using s(2,4) by (auto simp: used_pages_def)
    then show False using free ad(1) by blast
  next
    case False
    then show False using vra_invD(3) [OF inv] s(1,3) r ad(2) unfolding regs_apart_def by blast
  qed
qed

lemma bufs_ranges_apart:
  assumes inv: "vra_inv E st" and b: "bufs st p = Some b" and c: "bufs st q = Some c" and pq: "p \<noteq> q"
  shows "brange b \<inter> brange c = {}"
proof (rule ccontr)
  assume "\<not> ?thesis"
  then obtain a where a: "a \<in> brange b" "a \<in> brange c" by blast
  obtain r where r: "vregs st (allocator_data b) = Some r" "(a - kaddr r) div 4096 \<in> bpages r b" "(a - DYNMEM_START) div 2 ^ 20 \<in> rpages r"
    using buf_address [OF inv b a(1)] by blast
  obtain s where s: "vregs st (allocator_data c) = Some s" "(a - kaddr s) div 4096 \<in> bpages s c" "(a - DYNMEM_START) div 2 ^ 20 \<in> rpages s"
    using buf_address [OF inv c a(2)] by blast
  show False
  proof (cases "allocator_data c = allocator_data b")
    case True
    then have "s = r" using s(1) r(1) by simp
    moreover have "bpages r b \<inter> bpages r c = {}" using vra_invD(4) [OF inv] b c pq True r(1) unfolding bufs_apart_def by metis
    ultimately show False using r(2) s(2) by blast
  next
    case False
    then show False using vra_invD(3) [OF inv] s(1,3) r(1,3) unfolding regs_apart_def by blast
  qed
qed


section \<open>Getting and releasing buffers\<close>

lemma page_round:
  assumes "0 < sz" and "sz \<le> 2 ^ 31"
  shows "\<exists>n. memalign_size sz MMU_PGSIZE_COARSE = n * 4096 \<and> VREG_PCOUNT (n * 4096) = n \<and> VREG_BYTESIZE n = n * 4096 \<and>
    0 < n \<and> n \<le> 2 ^ 20 \<and> sz \<le> n * 4096 \<and> n * 4096 < sz + 4096"
proof -
  define n where "n = (sz + 4095) div 4096"
  have m: "sz + (4096 - sz mod 4096) mod 4096 = n * 4096"
  proof (cases "sz mod 4096 = 0")
    case True
    then obtain k where "sz = 4096 * k" by auto
    then show ?thesis by (simp add: n_def)
  next
    case False
    define q r where "q = sz div 4096" "r = sz mod 4096"
    have sz: "sz = q * 4096 + r" "0 < r" "r < 4096" using False by (simp_all add: q_r_def)
    have "n = q + 1" unfolding n_def sz(1) using sz(2,3) by simp
    then show ?thesis using sz by simp
  qed
  have b: "sz \<le> n * 4096" "n * 4096 < sz + 4096" unfolding m [symmetric] by auto
  then have "n * 4096 < 2 ^ 32" "0 < n" "n \<le> 2 ^ 20" using assms by auto
  then show ?thesis using b m by (intro exI [of _ n]) (simp add: memalign_size_def VREG_PCOUNT_def VREG_BYTESIZE_def)
qed

lemma count_le: "vreg_ok d r \<Longrightarrow> vcount r \<le> 2048"
proof -
  assume r: "vreg_ok d r"
  obtain pos m where "pos + m \<le> 8" "length (vmap r) = 8 * m" using r by (rule vreg_okE)
  moreover have "card (used_pages r) \<le> card {..< 32 * length (vmap r)}" by (rule card_mono) (auto simp: used_pages_def used_def)
  ultimately show ?thesis using r by (simp add: vreg_ok_def)
qed

definition buf_new :: "vregion \<Rightarrow> nat \<Rightarrow> nat \<Rightarrow> nat \<Rightarrow> nat \<Rightarrow> vbuf \<Rightarrow> bool" where
  "buf_new r v i n sz b \<longleftrightarrow> b_data b = kaddr r + i * 4096 \<and> b_bufsize b = n * 4096 \<and> b_bcount b = sz \<and> allocator_data b = v \<and>
     paddr (b_mmu b) = b_data b \<and> num_pages (b_mmu b) = n \<and> rg_ap (b_mmu b) = MMU_AP_RWRW \<and> b_obj b = kobj_init"

lemma geteblk_cases:
  assumes inv: "vra_inv Map.empty st" and sz: "0 < sz" "sz \<le> 2 ^ 31" and g: "geteblk sz st = Some (q, st')"
  shows "q = 0 \<and> vra_inv Map.empty st' \<and> bufs st' = bufs st \<or>
    q \<noteq> 0 \<and> bufs st q = None \<and> (\<exists>n s1 v r i b. 0 < n \<and> sz \<le> n * 4096 \<and> n * 4096 < sz + 4096 \<and>
      vra_inv (Map.empty(q \<mapsto> SIZEOF_BUF)) s1 \<and> bufs s1 = bufs st \<and> vregs s1 v = Some r \<and> i + n \<le> 32 * length (vmap r) \<and>
      (\<forall>p \<in> {i ..< i + n}. \<not> used (vmap r) p) \<and> buf_new r v i n sz b \<and> bufs st' = (bufs st)(q \<mapsto> b) \<and>
      (\<exists>r'. vregs st' v = Some r' \<and> kaddr r' = kaddr r) \<and> (\<forall>a \<in> brange b. mem (dyn (vheap st')) a = 0) \<and> (no_straddle i n \<longrightarrow> vra_inv Map.empty st'))"
proof -
  obtain n where n: "memalign_size sz MMU_PGSIZE_COARSE = n * 4096" "VREG_PCOUNT (n * 4096) = n" "VREG_BYTESIZE n = n * 4096"
    "0 < n" "n \<le> 2 ^ 20" "sz \<le> n * 4096" "n * 4096 < sz + 4096" using page_round [OF sz] by blast
  have so: "size_ok SIZEOF_BUF" by (simp add: size_ok_def room_ok_def memalign_def)
  obtain p h where h: "kzalloc SIZEOF_BUF (vheap st) = Some (p, h)"
    using g by (auto simp: geteblk_def Let_def split: Option.bind_splits)
  note t = take_block_ok [OF inv h so]
  show ?thesis
  proof (cases "p = 0")
    case True
    then have "q = 0" "st' = st\<lparr>vheap := h\<rparr>" using g h by (auto simp: geteblk_def Let_def)
    then show ?thesis using t True inv by simp
  next
    case False
    let ?E = "Map.empty(p \<mapsto> SIZEOF_BUF)"
    have i0: "vra_inv ?E (st\<lparr>vheap := h\<rparr>)" and p: "vregs st p = None" "bufs st p = None" using t False by auto
    obtain v i s1 where rt: "get_iblocks_retry n 0 (st\<lparr>vheap := h\<rparr>) = Some (v, i, s1)"
      using g h n(1,2) False by (auto simp: geteblk_def get_iblocks_def Let_def split: Option.bind_splits)
    note ok = get_iblocks_retry_ok [OF i0 n(4,5) rt]
    have i1: "vra_inv ?E s1" and b1: "bufs s1 = bufs st" using ok by auto
    show ?thesis
    proof (cases "v = 0")
      case True
      then have gi: "get_iblocks 0 n (st\<lparr>vheap := h\<rparr>) = Some (0, i, s1)" using rt by (simp add: get_iblocks_def)
      obtain h2 where h2: "kfree p (vheap s1) = Some h2" "vra_inv (?E(p := None)) (s1\<lparr>vheap := h2\<rparr>)"
        using give_block_ok [OF i1, of p SIZEOF_BUF] by auto
      have "q = 0" "st' = s1\<lparr>vheap := h2\<rparr>" using g h n(1,2) False gi h2(1) by (auto simp: geteblk_def Let_def)
      then show ?thesis using h2(2) b1 by simp
    next
      case v0: False
      obtain r where r: "vregs s1 v = Some r" "i + n \<le> 32 * length (vmap r)" "\<forall>p \<in> {i ..< i + n}. \<not> used (vmap r) p" using ok v0 by auto
      have vr: "vreg_ok (dyn (vheap s1)) r" by (rule vra_invD(6) [OF i1 r(1)])
      obtain pos m where m: "kaddr r = page pos" "pos + m \<le> 8" "length (vmap r) = 8 * m" "vsize r = 32 * m" using vr by (rule vreg_okE)
      have lim: "i + n \<le> szt (vsize r * 32)" using r(2) m by simp
      obtain bm where bm: "bitmap_block_update (vmap r) 1 i n (vsize r) = Some (0, bm)" "length bm = length (vmap r)"
        "\<forall>p. used bm p \<longleftrightarrow> (if i \<le> p \<and> p < upd_end i n then True else used (vmap r) p)"
        using bitmap_block_update_used [OF n(4) r(2) lim, of 1] by auto
      define s2 where "s2 = s1\<lparr>vregs := (vregs s1)(v \<mapsto> r\<lparr>vmap := bm, vcount := szt (vcount r + n)\<rparr>),
        vralloc_used := vralloc_used s1 + of_nat (n * 4096)\<rparr>"
      have gi: "get_iblocks 0 n (st\<lparr>vheap := h\<rparr>) = Some (v, i, s2)" using rt v0 r(1) bm(1) n(3) by (simp add: get_iblocks_def s2_def)
      have ad: "VREG_I2ADDR (r\<lparr>vmap := bm, vcount := szt (vcount r + n)\<rparr>) i = kaddr r + i * 4096"
      proof -
        have "i * 4096 < 2 ^ 24" "kaddr r < 2 ^ 24 + 2 ^ 23" using r(2) m n(4) by auto
        then show ?thesis by (simp add: VREG_I2ADDR_def VREG_BYTESIZE_def)
      qed
      define b where "b = \<lparr>b_data = kaddr r + i * 4096, b_bufsize = n * 4096, b_bcount = sz,
        b_mmu = \<lparr>vaddr = 0, num_pages = n, rg_ap = MMU_AP_RWRW, rg_control = 0, paddr = kaddr r + i * 4096\<rparr>, b_pt = 0,
        b_uflags = 3, b_flags = B_BUSY, b_obj = kobj_init, b_vra = True, allocator_data = v\<rparr>"
      have r2: "vregs s2 v = Some (r\<lparr>vmap := bm, vcount := szt (vcount r + n)\<rparr>)" by (simp add: s2_def)
      have "geteblk sz st = Some (p, vmem_upd (memset (b_data b) 0 (b_bufsize b)) (s2\<lparr>bufs := (bufs s2)(p \<mapsto> b)\<rparr>))"
        using h n(1-3) False gi v0 r2 ad by (simp add: geteblk_def Let_def vm_updateusr_ap_def usr_ap_def b_def)
      then have b: "buf_new r v i n sz b" "q = p" "st' = vmem_upd (memset (b_data b) 0 (b_bufsize b)) (s2\<lparr>bufs := (bufs s2)(p \<mapsto> b)\<rparr>)"
        using g by (simp_all add: buf_new_def b_def)
      have z: "\<forall>a \<in> brange b. mem (dyn (vheap st')) a = 0"
        unfolding b(3) by (simp add: vmem_upd_def memset_eq phys_set_def brange_def)
      have inv': "vra_inv Map.empty st'" if ns: "no_straddle i n"
      proof -
        have ue: "upd_end i n = i + n" using ns by (auto simp: upd_end_def no_straddle_def)
        have "vcount r \<le> 2048" by (rule count_le [OF vr])
        moreover have "n \<le> 2048" using r(2) m by simp
        ultimately have c: "szt (vcount r + n) = vcount r + n" by simp
        have p1: "vregs s1 p = None" "bufs s1 p = None" using vra_invD(2) [OF i1] by (auto simp: names_part_def)
        have "vra_inv Map.empty (s1\<lparr>vregs := (vregs s1)(v \<mapsto> r\<lparr>vmap := bm, vcount := vcount r + n\<rparr>), bufs := (bufs s1)(p \<mapsto> b)\<rparr>)"
          by (rule add_buf [OF i1 p1 _ False r(1,3) n(4) ns bm(2), where k = 1]) (use bm(3) ue b(1) live_init(1) in \<open>auto simp: buf_new_def\<close>)
        then have "vra_inv Map.empty ((s1\<lparr>vregs := (vregs s1)(v \<mapsto> r\<lparr>vmap := bm, vcount := vcount r + n\<rparr>), bufs := (bufs s1)(p \<mapsto> b)\<rparr>)
            \<lparr>vralloc_used := vralloc_used s1 + of_nat (n * 4096)\<rparr>)" by simp
        moreover have "s2\<lparr>bufs := (bufs s2)(p \<mapsto> b)\<rparr> = (s1\<lparr>vregs := (vregs s1)(v \<mapsto> r\<lparr>vmap := bm, vcount := vcount r + n\<rparr>), bufs := (bufs s1)(p \<mapsto> b)\<rparr>)
            \<lparr>vralloc_used := vralloc_used s1 + of_nat (n * 4096)\<rparr>" unfolding s2_def c by (cases s1) simp
        ultimately show ?thesis unfolding b(3) by (simp add: vra_inv_mem)
      qed
      have "bufs st' = (bufs st)(p \<mapsto> b)" unfolding b(3) using b1 by (simp add: vmem_upd_def s2_def)
      moreover have "\<exists>r'. vregs st' v = Some r' \<and> kaddr r' = kaddr r" unfolding b(3) using r2 by (simp add: vmem_upd_def)
      ultimately show ?thesis using b(1,2) False p(2) n(4,6,7) i1 b1 r z inv' by (intro disjI2) blast
    qed
  qed
qed


text \<open>A buffer whose place does not change.\<close>

lemma same_place:
  assumes inv: "vra_inv E st" and b: "bufs st q = Some b" and c: "b_data c = b_data b" "b_bufsize c = b_bufsize b"
    "allocator_data c = allocator_data b" "Kobj.live (b_obj c) n" "\<not> dying (b_obj c)"
  shows "vra_inv E (st\<lparr>bufs := (bufs st)(q \<mapsto> c)\<rparr>)" (is "vra_inv E ?st")
proof -
  have bp: "bpages r c = bpages r b" "bidx r c = bidx r b" "bcnt c = bcnt b" for r using c by (simp_all add: bpages_def bidx_def bcnt_def)
  have "vowned ?st = vowned st" using b by (auto simp: vowned_def fun_eq_iff)
  then have h: "heap_part E ?st" using vra_invD(1) [OF inv] by (simp add: heap_part_def)
  have nm: "names_part E ?st" using vra_invD(2) [OF inv] b by (auto simp: names_part_def)
  have old: "\<exists>b0. bufs st p = Some b0 \<and> allocator_data x = allocator_data b0 \<and> (\<forall>r. bpages r x = bpages r b0)" if "bufs ?st p = Some x" for p x
    using that b c(3) bp(1) by (cases "p = q") auto
  have ra: "regs_apart ?st" using vra_invD(3) [OF inv] by (simp add: regs_apart_def)
  have ba: "bufs_apart ?st"
    unfolding bufs_apart_def
  proof (intro allI impI)
    fix p p' x y s assume a: "bufs ?st p = Some x" "bufs ?st p' = Some y" "p \<noteq> p'" "allocator_data x = allocator_data y"
      "vregs ?st (allocator_data x) = Some s"
    obtain x0 y0 where "bufs st p = Some x0" "allocator_data x = allocator_data x0" "bpages s x = bpages s x0"
      "bufs st p' = Some y0" "allocator_data y = allocator_data y0" "bpages s y = bpages s y0" using old [OF a(1)] old [OF a(2)] by blast
    then show "bpages s x \<inter> bpages s y = {}" using vra_invD(4) [OF inv] a(3-5) unfolding bufs_apart_def by simp
  qed
  have pc: "pages_covered ?st"
    unfolding pages_covered_def
  proof (intro allI impI)
    fix w s p assume "vregs ?st w = Some s" "p \<in> used_pages s"
    then obtain q' x where x: "bufs st q' = Some x" "allocator_data x = w" "p \<in> bpages s x"
      using vra_invD(5) [OF inv] unfolding pages_covered_def by (metis vra.select_convs(2) vra.surjective vra.update_convs(4))
    show "\<exists>q' c. bufs ?st q' = Some c \<and> allocator_data c = w \<and> p \<in> bpages s c"
      using x b c(3) bp(1) by (cases "q' = q") (auto intro: exI [of _ q'])
  qed
  have vo: "vreg_ok (dyn (vheap ?st)) s" if "vregs ?st w = Some s" for w s using that vra_invD(6) [OF inv] by simp
  have bo: "buf_ok ?st x" if x: "bufs ?st p = Some x" for p x
  proof (cases "p = q")
    case True
    then have "x = c" using x by simp
    then show ?thesis using vra_invD(7) [OF inv b] c bp by (auto simp: buf_ok_def)
  next
    case False
    then show ?thesis using x vra_invD(7) [OF inv, of p x] by (simp add: buf_ok_def)
  qed
  show ?thesis unfolding vra_inv_def using h nm ra ba pc vo bo by blast
qed

lemma vrref_ok:
  assumes inv: "vra_inv E st" and r: "vrref q st = Some st'" and bound: "\<forall>b. bufs st q = Some b \<longrightarrow> ko_refcount (b_obj b) < 2 ^ 31 - 1"
  shows "vra_inv E st' \<and> (\<exists>b ko. bufs st q = Some b \<and> bufs st' = (bufs st)(q \<mapsto> b\<lparr>b_obj := ko\<rparr>) \<and> ko_refcount ko = ko_refcount (b_obj b) + 1)"
proof -
  obtain b ko where b: "bufs st q = Some b" "kobj_ref (b_obj b) = Some (0, ko)" "st' = st\<lparr>bufs := (bufs st)(q \<mapsto> b\<lparr>b_obj := ko\<rparr>)\<rparr>"
    using r by (auto simp: vrref_def split: Option.bind_splits if_splits)
  obtain n where n: "Kobj.live (b_obj b) n" "\<not> dying (b_obj b)" using vra_invD(7) [OF inv b(1)] by (auto simp: buf_ok_def)
  have k: "ko = (b_obj b)\<lparr>ko_refcount := int n + 1\<rparr> \<and> int n + 1 < 2 ^ 31"
  proof (cases "int n + 1 < 2 ^ 31")
    case True
    then show ?thesis using kobj_ref_live [OF n(1) True] n(2) b(2) by simp
  next
    case False
    then have "n = 2147483647" using n(1) by (simp add: Kobj.live_def)
    then show ?thesis using n(1) bound b(1) by (auto simp: Kobj.live_def)
  qed
  then have "Kobj.live ko (n + 1)" "\<not> dying ko" using n by (auto simp: Kobj.live_def dying_def)
  then have "vra_inv E st'" unfolding b(3) by (intro same_place [OF inv b(1)]) auto
  then show ?thesis using b k n(1) by (auto simp: Kobj.live_def)
qed

lemma vrfree_ok:
  assumes inv: "vra_inv Map.empty st" and b: "bufs st q = Some b"
  shows "\<exists>st'. vrfree q st = Some st' \<and> vra_inv Map.empty st' \<and> (if ko_refcount (b_obj b) = 1 then bufs st' = (bufs st)(q := None)
    else \<exists>ko. bufs st' = (bufs st)(q \<mapsto> b\<lparr>b_obj := ko\<rparr>) \<and> ko_refcount ko = ko_refcount (b_obj b) - 1)"
proof -
  obtain n where n: "Kobj.live (b_obj b) n" "\<not> dying (b_obj b)" using vra_invD(7) [OF inv b] by (auto simp: buf_ok_def)
  show ?thesis
  proof (cases "n = 1")
    case False
    then have "1 < n" using n(1) by (simp add: live_def)
    from kobj_unref_live [OF n(1) this] obtain ko where ko: "kobj_unref (b_obj b) = Some (False, ko)" "ko = (b_obj b)\<lparr>ko_refcount := int n - 1\<rparr>" by blast
    have "vra_inv Map.empty (st\<lparr>bufs := (bufs st)(q \<mapsto> b\<lparr>b_obj := ko\<rparr>)\<rparr>)"
      by (rule same_place [OF inv b, where n = "n - 1"]) (use n \<open>1 < n\<close> ko(2) in \<open>auto simp: Kobj.live_def dying_def\<close>)
    then show ?thesis using b ko n(1) False by (auto simp: vrfree_def Kobj.live_def)
  next
    case True
    then obtain ko where ko: "kobj_unref (b_obj b) = Some (True, ko)" using n(1) by (auto simp: kobj_eval live_def Let_def)
    define v where "v = allocator_data b"
    obtain r where r: "vregs st v = Some r" "b_data b = kaddr r + bidx r b * 4096" "b_bufsize b = bcnt b * 4096" "0 < bcnt b"
      "no_straddle (bidx r b) (bcnt b)" "bpages r b \<subseteq> used_pages r" using vra_invD(7) [OF inv b] by (auto simp: buf_ok_def v_def)
    have vr: "vreg_ok (dyn (vheap st)) r" by (rule vra_invD(6) [OF inv r(1)])
    obtain pos m where m: "kaddr r = page pos" "pos + m \<le> 8" "length (vmap r) = 8 * m" "vsize r = 32 * m" using vr by (rule vreg_okE)
    have "bidx r b + bcnt b - 1 \<in> used_pages r" using r(4,6) by (auto simp: bpages_def)
    then have le: "bidx r b + bcnt b \<le> 32 * length (vmap r)" by (auto simp: used_pages_def used_def)
    have lim: "bidx r b + bcnt b \<le> szt (vsize r * 32)" using le m by simp
    have ue: "upd_end (bidx r b) (bcnt b) = bidx r b + bcnt b" using r(5) by (auto simp: upd_end_def no_straddle_def)
    obtain bm where bm: "bitmap_block_update (vmap r) 0 (bidx r b) (bcnt b) (vsize r) = Some (0, bm)" "length bm = length (vmap r)"
      "\<forall>p. used bm p \<longleftrightarrow> used (vmap r) p \<and> p \<notin> bpages r b"
      using bitmap_block_update_used [OF r(4) le lim, of 0] unfolding ue bpages_def by auto
    define r' where "r' = r\<lparr>vmap := bm, vcount := vcount r - bcnt b\<rparr>"
    define s2 where "s2 = st\<lparr>vregs := (vregs st)(v \<mapsto> r'), bufs := (bufs st)(q := None)\<rparr>"
    have i2: "vra_inv (Map.empty(q \<mapsto> SIZEOF_BUF)) s2" unfolding s2_def r'_def
      by (rule remove_buf [OF inv b _ r(1) bm(2,3)]) (simp add: v_def)
    have "bcnt b = card (bpages r b)" by (simp add: bpages_def)
    also have "\<dots> \<le> card (used_pages r)" by (rule card_mono [OF finite_used r(6)])
    finally have cnt: "bcnt b \<le> vcount r" "vcount r \<le> 2048" using vr count_le [OF vr] by (auto simp: vreg_ok_def)
    have idx: "VREG_ADDR2I r (b_data b) = bidx r b" using r(2) m le by (simp add: VREG_ADDR2I_def VREG_PCOUNT_def szt_def)
    have e: "vcount r + (4294967296 - bcnt b) = (vcount r - bcnt b) + 2 ^ 32" using cnt by simp
    have c': "szt (vcount r + (4294967296 - bcnt b)) = vcount r - bcnt b" unfolding szt_def e using cnt(2) by simp
    have pcn: "VREG_PCOUNT (b_bufsize b) = bcnt b" by (simp add: VREG_PCOUNT_def bcnt_def)
    note give = give_block_ok [of "Map.empty(q \<mapsto> SIZEOF_BUF)" _ q SIZEOF_BUF]
    let ?u = "vralloc_used st - of_nat (b_bufsize b)"
    show ?thesis
    proof (cases "vcount r - bcnt b = 0")
      case False
      obtain h where h: "kfree q (vheap st) = Some h" "vra_inv Map.empty (s2\<lparr>vheap := h\<rparr>)"
        using give [OF i2] by (auto simp: s2_def)
      have "vrfree q st = Some (st\<lparr>bufs := (bufs st)(q \<mapsto> b\<lparr>b_obj := ko\<rparr>), vregs := (vregs st)(v \<mapsto> r'), vralloc_used := ?u,
          vheap := h, bufs := (bufs st)(q := None)\<rparr>)"
        using b ko r(1) bm(1) h(1) False
        by (simp add: vrfree_def vreg_free_callback_def Let_def idx c' pcn v_def [symmetric] r'_def)
      also have "st\<lparr>bufs := (bufs st)(q \<mapsto> b\<lparr>b_obj := ko\<rparr>), vregs := (vregs st)(v \<mapsto> r'), vralloc_used := ?u,
          vheap := h, bufs := (bufs st)(q := None)\<rparr> = s2\<lparr>vheap := h, vralloc_used := ?u\<rparr>" by (cases st) (simp add: s2_def)
      finally show ?thesis using h(2) n(1) True by (simp add: s2_def Kobj.live_def)
    next
      case zero: True
      have "vreg_ok (dyn (vheap s2)) r'" by (rule vra_invD(6) [OF i2, of v]) (simp add: s2_def)
      then have e: "used_pages r' = {}" using zero by (simp add: vreg_ok_def r'_def)
      obtain d h where d: "dynmem_free_region (kaddr r') (dyn (vheap s2)) = Some d" "kfree v ((vheap s2)\<lparr>dyn := d\<rparr>) = Some h"
        "vra_inv (Map.empty(q \<mapsto> SIZEOF_BUF)) (s2\<lparr>vrlist := remove1 v (vrlist s2), vheap := h, vregs := (vregs s2)(v := None)\<rparr>)"
        using remove_region [OF i2 _ e, of v] by (auto simp: s2_def)
      obtain h2 where h2: "kfree q h = Some h2" "vra_inv Map.empty (s2\<lparr>vrlist := remove1 v (vrlist s2), vregs := (vregs s2)(v := None), vheap := h2\<rparr>)"
        using give [OF d(3)] by auto
      let ?x = "st\<lparr>bufs := (bufs st)(q \<mapsto> b\<lparr>b_obj := ko\<rparr>), vregs := (vregs st)(v \<mapsto> r'), vralloc_used := ?u,
          vrlist := remove1 v (vrlist st), vralloc_all := vralloc_all st - of_nat (vsize r * (4 * 8) * MMU_PGSIZE_COARSE), vheap := h,
          vregs := (vregs st)(v := None), vheap := h2, bufs := (bufs st)(q := None)\<rparr>"
      have "vrfree q st = Some ?x"
        using b ko r(1) bm(1) d(1,2) h2(1) zero
        by (simp add: vrfree_def vreg_free_callback_def Let_def idx c' pcn v_def [symmetric] s2_def r'_def)
      also have "?x = s2\<lparr>vrlist := remove1 v (vrlist s2), vregs := (vregs s2)(v := None), vheap := h2, vralloc_used := ?u,
          vralloc_all := vralloc_all st - of_nat (vsize r * (4 * 8) * MMU_PGSIZE_COARSE)\<rparr>" by (cases st) (simp add: s2_def)
      finally show ?thesis using h2(2) n(1) True by (simp add: s2_def Kobj.live_def)
    qed
  qed
qed


lemma usr_ap_pages [simp]: "b_data (vm_updateusr_ap b) = b_data b" "b_bufsize (vm_updateusr_ap b) = b_bufsize b"
  "allocator_data (vm_updateusr_ap b) = allocator_data b" "b_obj (vm_updateusr_ap b) = b_obj b"
  by (simp_all add: vm_updateusr_ap_def)

text \<open>The buffer that was just made does not run out of the first word of the map.\<close>

definition in_word :: "vra \<Rightarrow> nat \<Rightarrow> bool" where
  "in_word st q \<longleftrightarrow> (\<forall>b r. bufs st q = Some b \<longrightarrow> vregs st (allocator_data b) = Some r \<longrightarrow> no_straddle (bidx r b) (bcnt b))"

lemma geteblk_inv:
  assumes inv: "vra_inv Map.empty st" and sz: "0 < sz" "sz \<le> 2 ^ 31" and g: "geteblk sz st = Some (q, st')" and w: "in_word st' q"
  shows "vra_inv Map.empty st'"
proof -
  from geteblk_cases [OF inv sz g] show ?thesis
  proof (elim disjE conjE exE)
    fix n s1 v r i b
    assume a: "buf_new r v i n sz b" "bufs st' = (bufs st)(q \<mapsto> b)" "no_straddle i n \<longrightarrow> vra_inv Map.empty st'"
    fix r' assume r': "vregs st' v = Some r'" "kaddr r' = kaddr r"
    have "bidx r' b = i" "bcnt b = n" "allocator_data b = v" using a(1) r'(2) by (simp_all add: bidx_def bcnt_def buf_new_def)
    then have "no_straddle i n" using w a(2) r'(1) by (simp add: in_word_def)
    then show ?thesis using a(3) by blast
  qed
qed

lemma rclone_ok:
  assumes inv: "vra_inv Map.empty st" and b: "bufs st p = Some b" and sz: "b_bufsize b \<le> 2 ^ 31"
    and c: "vr_rclone p st = Some (q, st')" and w: "in_word st' q"
  shows "vra_inv Map.empty st' \<and> (if q = 0 then bufs st' = bufs st else q \<noteq> p \<and> (\<exists>c. bufs st' = (bufs st)(q \<mapsto> c) \<and> b_bufsize c = b_bufsize b \<and>
    (\<forall>j < b_bufsize b. mem (dyn (vheap st')) (b_data c + j) = mem (dyn (vheap st')) (b_data b + j))))"
proof -
  obtain k where k: "b_bufsize b = k * 4096" "0 < k" using vra_invD(7) [OF inv b] by (auto simp: buf_ok_def)
  then have sz0: "0 < b_bufsize b" by simp
  obtain s1 where g: "geteblk (b_bufsize b) st = Some (q, s1)"
    using c b by (auto simp: vr_rclone_def Let_def split: Option.bind_splits if_splits)
  show ?thesis
  proof (cases "q = 0")
    case True
    then have "st' = s1" using c b g by (simp add: vr_rclone_def)
    then show ?thesis using geteblk_cases [OF inv sz0 sz g] True by auto
  next
    case False
    obtain n v i r x where x: "bufs st q = None" "k * 4096 \<le> n * 4096" "n * 4096 < k * 4096 + 4096" "buf_new r v i n (b_bufsize b) x" "bufs s1 = (bufs st)(q \<mapsto> x)"
      using geteblk_cases [OF inv sz0 sz g] False k(1) by auto
    then have n: "n = k" by simp
    have qp: "q \<noteq> p" using x(1) b by auto
    define y where "y = vm_updateusr_ap (x\<lparr>b_uflags := NOT (VM_PROT_COW OR VM_PROT_COR) AND b_uflags b,
             b_mmu := (b_mmu x)\<lparr>vaddr := vaddr (b_mmu b), rg_ap := rg_ap (b_mmu b), rg_control := rg_control (b_mmu b)\<rparr>,
             b_pt := b_pt b\<rparr>)"
    have yx: "b_data y = b_data x" "b_bufsize y = b_bufsize x" "allocator_data y = allocator_data x" "b_obj y = b_obj x"
      by (simp_all add: y_def)
    let ?s = "vmem_upd (memcpy (b_data x) (b_data b) (b_bufsize b)) s1"
    have st': "st' = ?s\<lparr>bufs := (bufs ?s)(q \<mapsto> y)\<rparr>"
      using c b g False x(5) by (simp add: vr_rclone_def Let_def y_def vmem_upd_def)
    have "in_word s1 q" using w x(5) yx unfolding st' in_word_def by (simp add: vmem_upd_def bidx_def bcnt_def)
    then have i1: "vra_inv Map.empty s1" by (rule geteblk_inv [OF inv sz0 sz g])
    have i': "vra_inv Map.empty st'" unfolding st'
      by (rule same_place [OF vra_inv_mem [OF i1], where q = q and b = x and n = 1]) (use x(4,5) yx live_init in \<open>auto simp: vmem_upd_def buf_new_def\<close>)
    have "bufs s1 p = Some b" "bufs s1 q = Some x" using x(5) b qp by auto
    then have ap: "brange x \<inter> brange b = {}" using bufs_ranges_apart [OF i1 _ _ qp] by blast
    have bx: "b_bufsize x = b_bufsize b" using x(4) n k(1) by (simp add: buf_new_def)
    have far: "b_data x + b_bufsize b \<le> b_data b \<or> b_data b + b_bufsize b \<le> b_data x"
    proof (rule ccontr)
      assume "\<not> ?thesis"
      then have "max (b_data x) (b_data b) \<in> brange x \<inter> brange b" using bx by (auto simp: brange_def)
      then show False using ap by blast
    qed
    then have "memcpy (b_data x) (b_data b) (b_bufsize b) f = phys_copy (b_data x) (b_data b) (b_bufsize b) f" for f
      using memcpy_eq [of "b_data x" "b_data b" "b_bufsize b" f] by auto
    then have m: "mem (dyn (vheap st')) = phys_copy (b_data x) (b_data b) (b_bufsize b) (mem (dyn (vheap s1)))"
      unfolding st' by (simp add: vmem_upd_def)
    have "mem (dyn (vheap st')) (b_data y + j) = mem (dyn (vheap st')) (b_data b + j)" if "j < b_bufsize b" for j
      unfolding m using far that yx(1) by (auto simp: phys_copy_def)
    moreover have "bufs st' = (bufs st)(q \<mapsto> y)" unfolding st' using x(5) by (simp add: vmem_upd_def)
    ultimately show ?thesis using i' False qp yx(2) bx by auto
  qed
qed


section \<open>Properties\<close>

definition vra_boot :: "kheap \<Rightarrow> vra" where
  "vra_boot h = \<lparr>vheap = h, vregs = Map.empty, vrlist = [], bufs = Map.empty, vralloc_all = 0, vralloc_used = 0\<rparr>"

text \<open>The states reached by getting, cloning, referencing and releasing buffers, as long as no buffer runs
  out of the first word of a map.\<close>

inductive vra_reach :: "vra \<Rightarrow> bool" where
  boot: "kinv h bs \<Longrightarrow> vra_reach (vra_boot h)"
| get: "vra_reach st \<Longrightarrow> 0 < sz \<Longrightarrow> sz \<le> 2 ^ 31 \<Longrightarrow> geteblk sz st = Some (q, st') \<Longrightarrow> in_word st' q \<Longrightarrow> vra_reach st'"
| clone: "vra_reach st \<Longrightarrow> bufs st p = Some b \<Longrightarrow> b_bufsize b \<le> 2 ^ 31 \<Longrightarrow> vr_rclone p st = Some (q, st') \<Longrightarrow> in_word st' q \<Longrightarrow> vra_reach st'"
| reference: "vra_reach st \<Longrightarrow> bufs st q = Some b \<Longrightarrow> ko_refcount (b_obj b) < 2 ^ 31 - 1 \<Longrightarrow> vrref q st = Some st' \<Longrightarrow> vra_reach st'"
| release: "vra_reach st \<Longrightarrow> bufs st q = Some b \<Longrightarrow> vrfree q st = Some st' \<Longrightarrow> vra_reach st'"

lemma vra_boot_inv: "kinv h bs \<Longrightarrow> vra_inv Map.empty (vra_boot h)"
  by (auto simp: vra_inv_def vra_boot_def heap_part_def names_part_def regs_apart_def bufs_apart_def pages_covered_def
      kz.owns_def vowned_def)

lemma vra_reach_inv: "vra_reach st \<Longrightarrow> vra_inv Map.empty st"
proof (induction rule: vra_reach.induct)
  case (boot h bs)
  then show ?case by (rule vra_boot_inv)
next
  case (get st sz q st')
  then show ?case by (blast intro: geteblk_inv)
next
  case (clone st p b q st')
  then show ?case using rclone_ok by blast
next
  case (reference st q b st')
  then show ?case using vrref_ok [of Map.empty st q st'] by auto
next
  case (release st q b st')
  then show ?case using vrfree_ok [of st q b] by auto
qed


text \<open>Two buffers of one page on the boot heap.\<close>

lemma two_bufs:
  "\<exists>st1 st2 q b c. geteblk 4096 (vra_boot (kheap_boot (dynmem_boot (\<lambda>_. 0)))) = Some (0x800018, st1) \<and> in_word st1 0x800018 \<and>
     geteblk 4096 st1 = Some (q, st2) \<and> in_word st2 q \<and> q \<noteq> 0x800018 \<and> bufs st2 0x800018 = Some b \<and> bufs st2 q = Some c"
  apply (subst geteblk_def)
  apply (simp add: vra_boot_def memalign_size_def VREG_PCOUNT_def VREG_BYTESIZE_def kzalloc_def heap_eval zero_mem_def get_iblocks_def)
  apply (simp add: get_iblocks_retry_def vreg_alloc_node_def ROUND_UP_def VREG_SIZE_def VREG_BYTESIZE_def E2BITMAP_SIZE_def kzalloc_def heap_eval zero_mem_def)
  apply (simp add: VREG_I2ADDR_def VREG_BYTESIZE_def vm_updateusr_ap_def usr_ap_def vmem_upd_def in_word_def no_straddle_def bidx_def bcnt_def)
  apply (simp add: geteblk_def memalign_size_def VREG_PCOUNT_def VREG_BYTESIZE_def kzalloc_def heap_eval zero_mem_def get_iblocks_def get_iblocks_retry_def
      VREG_I2ADDR_def vm_updateusr_ap_def usr_ap_def vmem_upd_def in_word_def no_straddle_def bidx_def bcnt_def)
  done




section \<open>Defects\<close>

text \<open>\<open>allocbuf\<close> to a larger size, when the next pages are free: it takes the branch that calls \<open>get_iblocks\<close>
  with \<open>vr_big_lock\<close> held.\<close>

lemma allocbuf_adjacent_deadlocks:
  assumes "bufs st q = Some b" and "allocator_data b \<noteq> 0" and "vregs st (allocator_data b) = Some r"
    and "memalign_size sz 4096 \<noteq> b_bufsize b" and "szt (VREG_PCOUNT (memalign_size sz 4096) + (2 ^ 32 - VREG_PCOUNT (b_bufsize b))) = d" and "0 < d"
    and "szt (VREG_ADDR2I r (b_data b) + VREG_PCOUNT (b_bufsize b)) = s" and "bitmap_block_search_s s 0 d (vmap r) (vsize r) = Some (0, s)"
  shows "allocbuf q sz st = None"
  using assms by (simp add: allocbuf_def Let_def)

text \<open>\<open>allocbuf\<close> to another size, when there is no run of free pages behind the buffer: the new size is
  stored, and no page is added.\<close>

lemma allocbuf_grows_without_pages:
  assumes "bufs st q = Some b" and "allocator_data b \<noteq> 0" and "vregs st (allocator_data b) = Some r"
    and "memalign_size sz 4096 \<noteq> b_bufsize b" and "szt (VREG_PCOUNT (memalign_size sz 4096) + (2 ^ 32 - VREG_PCOUNT (b_bufsize b))) = d" and "0 < d"
    and "szt (VREG_ADDR2I r (b_data b) + VREG_PCOUNT (b_bufsize b)) = s" and "bitmap_block_search_s s 0 d (vmap r) (vsize r) = Some (1, 0)"
  shows "\<exists>st' c. allocbuf q sz st = Some st' \<and> vregs st' = vregs st \<and> bufs st' q = Some c \<and> b_data c = b_data b \<and> b_bufsize c = memalign_size sz 4096"
  using assms by (simp add: allocbuf_def Let_def)

text \<open>The statistics: the release of a region subtracts four times its size.\<close>

lemma region_release_stat:
  assumes "vreg_ok d r"
  shows "vsize r * (4 * 8) * MMU_PGSIZE_COARSE = 4 * (32 * length (vmap r) * MMU_PGSIZE_COARSE)"
  using assms by (auto simp: vreg_ok_def)

end
