(* ===== verification/Fildes.thy ===== *)
theory Fildes
  imports Kmalloc Kobj Priv
begin

text \<open>
  Open files: the reference counts of vnodes, the file descriptors and their tables, and the permission
  check (\<^verbatim>\<open>src/kern/fs/fs.c\<close>), with the system calls of \<^verbatim>\<open>src/kern/fs/fs_syscall.c\<close> on descriptors and
  the copy of a table in \<^verbatim>\<open>src/kern/proc_fork.c\<close>. Files and tables are blocks of the kernel heap. The
  operations of the file system behind a vnode (\<open>stat\<close>, \<open>event_vnode_opened\<close>, \<open>lseek\<close>, \<open>read\<close>, \<open>write\<close>)
  are arguments; \<open>delete_vnode\<close> is logged, and the notifications of created and closed
  descriptors are left out. \<open>None\<close> is an access outside a table or through a stale pointer.
\<close>

section \<open>Data\<close>

abbreviation (input) EMFILE :: int where "EMFILE \<equiv> 33"
abbreviation (input) ENFILE :: int where "ENFILE \<equiv> 41"
abbreviation (input) ENOLINK :: int where "ENOLINK \<equiv> 48"
abbreviation (input) ENOTDIR :: int where "ENOTDIR \<equiv> 57"
abbreviation (input) ESPIPE :: int where "ESPIPE \<equiv> 74"

abbreviation (input) O_CLOEXEC :: u32 where "O_CLOEXEC \<equiv> 1"
abbreviation (input) O_DIRECTORY :: u32 where "O_DIRECTORY \<equiv> 4"
abbreviation (input) O_APPEND :: u32 where "O_APPEND \<equiv> 0x100"
abbreviation (input) O_NONBLOCK :: u32 where "O_NONBLOCK \<equiv> 0x200"
abbreviation (input) O_SYNC :: u32 where "O_SYNC \<equiv> 0x400"
abbreviation (input) O_ACCMODE :: u32 where "O_ACCMODE \<equiv> 0x7000"
abbreviation (input) O_RDONLY :: u32 where "O_RDONLY \<equiv> 0x1000"
abbreviation (input) O_WRONLY :: u32 where "O_WRONLY \<equiv> 0x2000"
abbreviation (input) O_USERMASK :: u32 where "O_USERMASK \<equiv> 0xFFFF"
abbreviation (input) O_KFREEABLE :: u32 where "O_KFREEABLE \<equiv> 0x10000"
abbreviation (input) O_EXEC_ALTPCAP :: u32 where "O_EXEC_ALTPCAP \<equiv> 0x20000"
abbreviation (input) PRIV_VFS_ADMIN :: int where "PRIV_VFS_ADMIN \<equiv> 110"
abbreviation (input) PRIV_VFS_READ :: int where "PRIV_VFS_READ \<equiv> 111"
abbreviation (input) PRIV_VFS_WRITE :: int where "PRIV_VFS_WRITE \<equiv> 112"
abbreviation (input) PRIV_VFS_EXEC :: int where "PRIV_VFS_EXEC \<equiv> 114"
abbreviation (input) R_OK :: u32 where "R_OK \<equiv> 0x1000"
abbreviation (input) W_OK :: u32 where "W_OK \<equiv> 0x2000"
abbreviation (input) X_OK :: u32 where "X_OK \<equiv> 0x4000"
abbreviation (input) UF_SYSTEM :: u32 where "UF_SYSTEM \<equiv> 0x80"
abbreviation (input) DIRENT_SEEK_START :: int where "DIRENT_SEEK_START \<equiv> 0xFFFFFFFF"
abbreviation (input) SIZEOF_FILE :: nat where "SIZEOF_FILE \<equiv> 40"

definition S_ISDIR :: "u32 \<Rightarrow> bool" where
  "S_ISDIR m \<longleftrightarrow> m AND 0xF000 = 0x4000"

definition S_ISFIFO :: "u32 \<Rightarrow> bool" where
  "S_ISFIFO m \<longleftrightarrow> m AND 0xF000 = 0x1000"

definition S_ISSOCK :: "u32 \<Rightarrow> bool" where
  "S_ISSOCK m \<longleftrightarrow> m AND 0xF000 = 0xC000"

record file_stat =
  st_uid :: nat
  st_gid :: nat
  st_mode :: u32
  st_flags :: u32

record file_t =
  seek_pos :: int
  oflags :: u32
  f_vnode :: nat
  f_obj :: kobj

record fvnode =
  vn_refcount :: int
  vn_mode :: u32

record files =
  umask :: u32
  fd :: "nat list"

record fstate =
  fheap :: kheap
  ofiles :: "nat \<rightharpoonup> file_t"
  vnodes :: "nat \<rightharpoonup> fvnode"
  ftabs :: "nat \<rightharpoonup> files"
  deleted :: "nat list"

definition SIZEOF_FILES :: "nat \<Rightarrow> nat" where
  "SIZEOF_FILES n = 8 + n * 4"

section \<open>Permissions\<close>

text \<open>One of the three blocks of \<open>chkperm\<close>; \<open>u\<close>, \<open>g\<close> and \<open>o'\<close> are the permission bits of the classes.\<close>

definition perm_block :: "bool \<Rightarrow> cred \<Rightarrow> file_stat \<Rightarrow> cred \<Rightarrow> u32 \<Rightarrow> u32 \<Rightarrow> u32 \<Rightarrow> int \<Rightarrow> bool option" where
  "perm_block suser curcred st c u g o' priv = do {
     let is_grp_member = (st_gid st = egid curcred \<or> priv_grp_is_member c (st_gid st));
     let req_perm = (if st_uid st = euid curcred then u else 0) OR (if is_grp_member then g else 0) OR o';
     if req_perm AND st_mode st = 0 then Some False
     else do { err \<leftarrow> priv_check suser c priv; Some (err = 0) } }"

definition chkperm :: "bool \<Rightarrow> cred \<Rightarrow> file_stat \<Rightarrow> cred \<Rightarrow> u32 \<Rightarrow> int option" where
  "chkperm suser curcred st c oflags0 = do {
     let ofl = oflags0 AND O_ACCMODE;
     r \<leftarrow> (if ofl AND R_OK \<noteq> 0 then perm_block suser curcred st c 0x100 0x20 4 PRIV_VFS_READ else Some True);
     if \<not> r then Some (- EPERM)
     else do {
       w \<leftarrow> (if ofl AND W_OK \<noteq> 0 then perm_block suser curcred st c 0x80 0x10 2 PRIV_VFS_WRITE else Some True);
       if \<not> w then Some (- EPERM)
       else do {
         x \<leftarrow> (if ofl AND X_OK \<noteq> 0 \<or> S_ISDIR (st_mode st) then perm_block suser curcred st c 0x40 8 1 PRIV_VFS_EXEC else Some True);
         Some (if x then 0 else - EPERM) } } }"

definition chkperm_vnode :: "bool \<Rightarrow> cred \<Rightarrow> int \<times> file_stat \<Rightarrow> cred \<Rightarrow> u32 \<Rightarrow> int option" where
  "chkperm_vnode suser curcred sr c ofl = (if fst sr \<noteq> 0 then Some (fst sr) else chkperm suser curcred (snd sr) c ofl)"

section \<open>References of vnodes\<close>

definition vref :: "nat \<Rightarrow> fstate \<Rightarrow> (int \<times> fstate) option" where
  "vref v st = do {
     V \<leftarrow> vnodes st v;
     if vn_refcount V < 0 then Some (- ENOLINK, st)
     else Some (0, st\<lparr>vnodes := (vnodes st)(v \<mapsto> V\<lparr>vn_refcount := s32 (vn_refcount V + 1)\<rparr>)\<rparr>) }"

definition vrele :: "nat \<Rightarrow> fstate \<Rightarrow> fstate option" where
  "vrele v st = (if v = 0 then Some st
     else do {
       V \<leftarrow> vnodes st v;
       let st = st\<lparr>vnodes := (vnodes st)(v \<mapsto> V\<lparr>vn_refcount := s32 (vn_refcount V - 1)\<rparr>)\<rparr>;
       Some (if vn_refcount V \<le> 1 then st\<lparr>deleted := deleted st @ [v]\<rparr> else st) })"

definition vrele_nunlink :: "nat \<Rightarrow> fstate \<Rightarrow> fstate option" where
  "vrele_nunlink v st = (if v = 0 then Some st
     else do {
       V \<leftarrow> vnodes st v;
       Some (st\<lparr>vnodes := (vnodes st)(v \<mapsto> V\<lparr>vn_refcount := s32 (vn_refcount V - 1)\<rparr>)\<rparr>) })"

section \<open>File descriptors\<close>

definition fs_fildes_dtor :: "nat \<Rightarrow> fstate \<Rightarrow> fstate option" where
  "fs_fildes_dtor f st = do {
     F \<leftarrow> ofiles st f;
     st \<leftarrow> (if oflags F AND O_KFREEABLE \<noteq> 0 then do {
         h \<leftarrow> kfree f (fheap st);
         Some (st\<lparr>fheap := h, ofiles := (ofiles st)(f := None)\<rparr>) }
       else Some st);
     vrele (f_vnode F) st }"

definition fs_fildes_set :: "nat \<Rightarrow> nat \<Rightarrow> u32 \<Rightarrow> fstate \<Rightarrow> (int \<times> fstate) option" where
  "fs_fildes_set f v ofl st = (if f = 0 \<or> v = 0 then Some (- 1, st)
     else do {
       F \<leftarrow> ofiles st f;
       Some (0, st\<lparr>ofiles := (ofiles st)(f \<mapsto> F\<lparr>f_vnode := v, oflags := ofl, f_obj := kobj_init\<rparr>)\<rparr>) })"

text \<open>Writing a slot of a table.\<close>

definition set_slot :: "nat \<Rightarrow> nat \<Rightarrow> nat \<Rightarrow> fstate \<Rightarrow> fstate option" where
  "set_slot t i x st = do {
     T \<leftarrow> ftabs st t;
     l \<leftarrow> wr (fd T) i x;
     Some (st\<lparr>ftabs := (ftabs st)(t \<mapsto> T\<lparr>fd := l\<rparr>)\<rparr>) }"

definition fs_fildes_curproc_next :: "nat \<Rightarrow> nat \<Rightarrow> int \<Rightarrow> fstate \<Rightarrow> (int \<times> fstate) option" where
  "fs_fildes_curproc_next t f start st = do {
     T \<leftarrow> ftabs st t;
     if f = 0 then Some (- EBADF, st)
     else if start > int (length (fd T)) - 1 then Some (- EMFILE, st)
     else if start < 0 then None
     else case find (\<lambda>i. fd T ! i = 0) [nat start ..< length (fd T)] of
         None \<Rightarrow> Some (- ENFILE, st)
       | Some i \<Rightarrow> do { st \<leftarrow> set_slot t i f st; Some (int i, st) } }"

definition fs_fildes_is_in_range :: "files \<Rightarrow> int \<Rightarrow> bool" where
  "fs_fildes_is_in_range T n \<longleftrightarrow> 0 \<le> n \<and> n < int (length (fd T))"

text \<open>\<open>kobj_unref_p\<close> on the object of a file, with the destructor when it is called.\<close>

definition file_unref :: "nat \<Rightarrow> nat \<Rightarrow> fstate \<Rightarrow> fstate option" where
  "file_unref n f st = do {
     F \<leftarrow> ofiles st f;
     (k, ko) \<leftarrow> kobj_unref_p n (f_obj F);
     let st = st\<lparr>ofiles := (ofiles st)(f \<mapsto> F\<lparr>f_obj := ko\<rparr>)\<rparr>;
     if k = 0 then Some st else fs_fildes_dtor f st }"

definition fs_fildes_ref :: "nat \<Rightarrow> int \<Rightarrow> int \<Rightarrow> fstate \<Rightarrow> (nat \<times> fstate) option" where
  "fs_fildes_ref t n cnt st = do {
     T \<leftarrow> ftabs st t;
     if \<not> fs_fildes_is_in_range T n then Some (0, st)
     else do {
       let f = fd T ! nat n;
       if f = 0 then Some (0, st)
       else do {
         F \<leftarrow> ofiles st f;
         let orig = kobj_refcnt (f_obj F);
         if orig \<le> 0 then do { st \<leftarrow> set_slot t (nat n) 0 st; Some (0, st) }
         else if cnt > 0 then do {
           (err, ko) \<leftarrow> kobj_ref_v (nat cnt) (f_obj F);
           let st = st\<lparr>ofiles := (ofiles st)(f \<mapsto> F\<lparr>f_obj := ko\<rparr>)\<rparr>;
           if err \<noteq> 0 then do { st \<leftarrow> set_slot t (nat n) 0 st; Some (0, st) } else Some (f, st) }
         else if cnt < 0 then do {
           let c = min orig (- cnt);
           st \<leftarrow> file_unref (nat c) f st;
           if c = orig then do { st \<leftarrow> set_slot t (nat n) 0 st; Some (0, st) } else Some (f, st) }
         else Some (f, st) } } }"

definition fs_fildes_close :: "nat \<Rightarrow> int \<Rightarrow> fstate \<Rightarrow> (int \<times> fstate) option" where
  "fs_fildes_close t n st = do {
     (f, st) \<leftarrow> fs_fildes_ref t n 1 st;
     if f = 0 then Some (- EBADF, st)
     else do {
       F \<leftarrow> ofiles st f;
       (_, st) \<leftarrow> fs_fildes_ref t n (- 2) st;
       st \<leftarrow> set_slot t (nat n) 0 st;
       Some (0, st) } }"

fun close_list :: "nat \<Rightarrow> nat list \<Rightarrow> fstate \<Rightarrow> fstate option" where
  "close_list t [] st = Some st"
| "close_list t (i # is) st = do { (_, st) \<leftarrow> fs_fildes_close t (int i) st; close_list t is st }"

definition fs_fildes_close_all :: "nat \<Rightarrow> int \<Rightarrow> fstate \<Rightarrow> fstate option" where
  "fs_fildes_close_all t fildes_begin st = do {
     T \<leftarrow> ftabs st t;
     if \<not> fs_fildes_is_in_range T fildes_begin then Some st
     else close_list t (rev [Suc (nat fildes_begin) ..< length (fd T)]) st }"

fun close_exec_loop :: "nat \<Rightarrow> nat list \<Rightarrow> fstate \<Rightarrow> fstate option" where
  "close_exec_loop t [] st = Some st"
| "close_exec_loop t (i # is) st = do {
     T \<leftarrow> ftabs st t;
     f \<leftarrow> rd (fd T) i;
     if f = 0 then close_exec_loop t is st
     else do {
       F \<leftarrow> ofiles st f;
       if oflags F AND O_CLOEXEC \<noteq> 0 then do { (_, st) \<leftarrow> fs_fildes_close t (int i) st; close_exec_loop t is st }
       else close_exec_loop t is st } }"

definition fs_fildes_close_exec :: "nat \<Rightarrow> fstate \<Rightarrow> fstate option" where
  "fs_fildes_close_exec t st = do { T \<leftarrow> ftabs st t; close_exec_loop t [0 ..< length (fd T)] st }"

definition fs_alloc_files :: "nat \<Rightarrow> u32 \<Rightarrow> fstate \<Rightarrow> (nat \<times> fstate) option" where
  "fs_alloc_files nr um st = do {
     (t, h) \<leftarrow> kzalloc (SIZEOF_FILES nr) (fheap st);
     let st = st\<lparr>fheap := h\<rparr>;
     if t = 0 then Some (0, st)
     else Some (t, st\<lparr>ftabs := (ftabs st)(t \<mapsto> \<lparr>umask = um, fd = replicate nr 0\<rparr>)\<rparr>) }"

text \<open>The file system's part in opening a file: its answers to \<open>stat\<close> and \<open>event_vnode_opened\<close>, and whether
  it is mounted \<open>MNT_NOEXEC\<close>.\<close>

record open_ops =
  op_stat :: "int \<times> file_stat"
  op_opened :: int
  op_noexec :: bool

text \<open>The part of \<open>fs_fildes_create_curproc\<close> after its checks.\<close>

definition new_fildes :: "nat \<Rightarrow> nat \<Rightarrow> u32 \<Rightarrow> open_ops \<Rightarrow> bool \<Rightarrow> fstate \<Rightarrow> (int \<times> fstate) option" where
  "new_fildes t v ofl ops is_dir st = do {
     (f, h) \<leftarrow> kzalloc SIZEOF_FILE (fheap st);
     let st = st\<lparr>fheap := h\<rparr>;
     if f = 0 then Some (- ENOMEM, st)
     else do {
       let st = st\<lparr>ofiles := (ofiles st)(f \<mapsto> \<lparr>seek_pos = (if is_dir then DIRENT_SEEK_START else 0), oflags = 0, f_vnode = 0,
             f_obj = \<lparr>ko_flags = 0, ko_fast_lock = 0, ko_refcount = 0\<rparr>\<rparr>)\<rparr>;
       (n, st) \<leftarrow> fs_fildes_curproc_next t f 0 st;
       if n < 0 then do {
         h \<leftarrow> kfree f (fheap st);
         Some (n, st\<lparr>fheap := h, ofiles := (ofiles st)(f := None)\<rparr>) }
       else do {
         (_, st) \<leftarrow> fs_fildes_set f v ofl st;
         F \<leftarrow> ofiles st f;
         let alt = (if \<not> op_noexec ops \<and> \<not> is_dir \<and> st_flags (snd (op_stat ops)) AND UF_SYSTEM \<noteq> 0 then O_EXEC_ALTPCAP else 0);
         Some (n, st\<lparr>ofiles := (ofiles st)(f \<mapsto> F\<lparr>oflags := oflags F OR O_KFREEABLE OR alt\<rparr>)\<rparr>) } } }"

definition fs_fildes_create_curproc :: "bool \<Rightarrow> cred \<Rightarrow> nat \<Rightarrow> nat \<Rightarrow> u32 \<Rightarrow> open_ops \<Rightarrow> fstate \<Rightarrow> (int \<times> fstate) option" where
  "fs_fildes_create_curproc suser c t v ofl ops st =
     (if v = 0 then Some (- EINVAL, st)
      else do {
        (_, st) \<leftarrow> vref v st;
        V \<leftarrow> vnodes st v;
        let is_dir = S_ISDIR (vn_mode V);
        adm \<leftarrow> priv_check suser c PRIV_VFS_ADMIN;
        perm \<leftarrow> (if adm = 0 then Some 0 else chkperm_vnode suser c (op_stat ops) c ofl);
        (r, st) \<leftarrow>
          (if perm \<noteq> 0 then Some (perm, st)
           else if ofl AND O_DIRECTORY \<noteq> 0 \<and> \<not> is_dir then Some (- ENOTDIR, st)
           else if fst (op_stat ops) \<noteq> 0 then Some (fst (op_stat ops), st)
           else if op_opened ops < 0 then Some (op_opened ops, st)
           else new_fildes t v ofl ops is_dir st);
        if r < 0 then do { st \<leftarrow> vrele v st; Some (r, st) } else Some (r, st) })"


section \<open>System calls\<close>

text \<open>A system call returns its value, the error number it sets and the state. The copies from and to user
  memory are done before and after.\<close>

datatype fcntl_cmd = F_DUPFD | F_DUP2FD | F_DUPFD_CLOEXEC | F_GETFD | F_SETFD | F_GETFL | F_SETFL | F_OTHER

definition upd_oflags :: "nat \<Rightarrow> (u32 \<Rightarrow> u32) \<Rightarrow> fstate \<Rightarrow> fstate option" where
  "upd_oflags f g st = do {
     F \<leftarrow> ofiles st f;
     Some (st\<lparr>ofiles := (ofiles st)(f \<mapsto> F\<lparr>oflags := g (oflags F)\<rparr>)\<rparr>) }"

definition dupfd :: "nat \<Rightarrow> nat \<Rightarrow> int \<Rightarrow> fstate \<Rightarrow> (int \<times> int option \<times> fstate) option" where
  "dupfd t f start st = do {
     (new_fd, st) \<leftarrow> fs_fildes_curproc_next t f start st;
     if new_fd < 0 then Some (- 1, Some (- new_fd), st)
     else do { (_, st) \<leftarrow> fs_fildes_ref t new_fd 1 st; Some (new_fd, None, st) } }"

definition dup2fd :: "nat \<Rightarrow> nat \<Rightarrow> int \<Rightarrow> int \<Rightarrow> fstate \<Rightarrow> (int \<times> int option \<times> fstate) option" where
  "dup2fd t f n third st =
     (if n = third then Some (third, None, st)
      else do {
        (err, st) \<leftarrow> fs_fildes_close t third st;
        if err \<noteq> 0 \<and> err \<noteq> - EBADF then Some (- 1, Some EIO, st)
        else do {
          (new_fd, st) \<leftarrow> fs_fildes_curproc_next t f third st;
          if new_fd < 0 then Some (- 1, Some (- new_fd), st)
          else do {
            (g, st) \<leftarrow> (if new_fd \<noteq> third then Some (0, st) else fs_fildes_ref t new_fd 1 st);
            if g = 0 then do { (_, st) \<leftarrow> fs_fildes_close t new_fd st; Some (- 1, Some EIO, st) }
            else Some (new_fd, None, st) } } })"

definition sys_fcntl :: "nat \<Rightarrow> int \<Rightarrow> fcntl_cmd \<Rightarrow> int \<Rightarrow> fstate \<Rightarrow> (int \<times> int option \<times> fstate) option" where
  "sys_fcntl t n cmd third st = do {
     (f, st) \<leftarrow> fs_fildes_ref t n 1 st;
     if f = 0 then Some (- 1, Some EBADF, st)
     else do {
       F \<leftarrow> ofiles st f;
       (r, e, st) \<leftarrow> (case cmd of
           F_DUPFD_CLOEXEC \<Rightarrow> do { st \<leftarrow> upd_oflags f (\<lambda>x. x OR (O_CLOEXEC AND O_USERMASK)) st; dupfd t f third st }
         | F_DUPFD \<Rightarrow> dupfd t f third st
         | F_DUP2FD \<Rightarrow> dup2fd t f n third st
         | F_GETFD \<Rightarrow> Some (uint (oflags F AND O_CLOEXEC), None, st)
         | F_SETFD \<Rightarrow> do { st \<leftarrow> upd_oflags f (\<lambda>x. (x AND NOT O_CLOEXEC) OR (word_of_int third AND O_CLOEXEC)) st; Some (- 1, None, st) }
         | F_GETFL \<Rightarrow> Some (uint (oflags F AND O_USERMASK), None, st)
         | F_SETFL \<Rightarrow> do {
             let m = O_APPEND OR O_SYNC OR O_NONBLOCK;
             st \<leftarrow> upd_oflags f (\<lambda>x. (x AND NOT m) OR (word_of_int third AND m)) st;
             Some (0, None, st) }
         | F_OTHER \<Rightarrow> Some (- 1, Some EINVAL, st));
       (_, st) \<leftarrow> fs_fildes_ref t n (- 1) st;
       Some (r, e, st) } }"

text \<open>\<open>lseek\<close> of the file system gives its result and the new seek position; the call returns the
  position it stores in the arguments too.\<close>

definition sys_lseek :: "(file_t \<Rightarrow> int \<times> int) \<Rightarrow> nat \<Rightarrow> int \<Rightarrow> fstate \<Rightarrow> (int \<times> int option \<times> int \<times> fstate) option" where
  "sys_lseek lseek t n st = do {
     (f, st) \<leftarrow> fs_fildes_ref t n 1 st;
     if f = 0 then Some (- 1, Some EBADF, 0, st)
     else do {
       F \<leftarrow> ofiles st f;
       V \<leftarrow> vnodes st (f_vnode F);
       (r, e, st) \<leftarrow>
         (if S_ISFIFO (vn_mode V) \<or> S_ISSOCK (vn_mode V) then do {
            (_, st) \<leftarrow> fs_fildes_ref t n (- 1) st;
            Some (- 1, Some ESPIPE, st) }
          else do {
            let (off, pos) = lseek F;
            let st = st\<lparr>ofiles := (ofiles st)(f \<mapsto> F\<lparr>seek_pos := pos\<rparr>)\<rparr>;
            if off < 0 then Some (- 1, Some (- off), st) else Some (0, None, st) });
       F \<leftarrow> ofiles st f;
       (_, st) \<leftarrow> fs_fildes_ref t n (- 1) st;
       Some (r, e, seek_pos F, st) } }"

definition sys_readwrite :: "(file_t \<Rightarrow> int \<times> int) \<Rightarrow> bool \<Rightarrow> nat \<Rightarrow> int \<Rightarrow> fstate \<Rightarrow> (int \<times> int option \<times> fstate) option" where
  "sys_readwrite rw write t n st = do {
     (f, st) \<leftarrow> fs_fildes_ref t n 1 st;
     if f = 0 then Some (- 1, Some EBADF, st)
     else do {
       F \<leftarrow> ofiles st f;
       (r, e, st) \<leftarrow>
         (if oflags F AND (if write then O_WRONLY else O_RDONLY) = 0 \<or> f_vnode F = 0 then Some (- 1, Some EBADF, st)
          else do {
            let (c, pos) = rw F;
            let st = st\<lparr>ofiles := (ofiles st)(f \<mapsto> F\<lparr>seek_pos := pos\<rparr>)\<rparr>;
            if c < 0 then Some (- 1, Some (- c), st) else Some (c, None, st) });
       (_, st) \<leftarrow> fs_fildes_ref t n (- 1) st;
       Some (r, e, st) } }"

definition sys_close :: "nat \<Rightarrow> int \<Rightarrow> fstate \<Rightarrow> (int \<times> int option \<times> fstate) option" where
  "sys_close t n st = do {
     (err, st) \<leftarrow> fs_fildes_close t n st;
     if err \<noteq> 0 then Some (- 1, Some (- err), st) else Some (0, None, st) }"

text \<open>The part of \<open>proc_fork\<close> that copies the descriptors, and of \<open>proc_free\<close> that drops them.\<close>

fun copy_slots :: "nat \<Rightarrow> nat \<Rightarrow> nat list \<Rightarrow> fstate \<Rightarrow> fstate option" where
  "copy_slots old new [] st = Some st"
| "copy_slots old new (i # is) st = do {
     T \<leftarrow> ftabs st old;
     x \<leftarrow> rd (fd T) i;
     st \<leftarrow> set_slot new i x st;
     (_, st) \<leftarrow> fs_fildes_ref new (int i) 1 st;
     copy_slots old new is st }"

definition fork_files :: "nat \<Rightarrow> int \<Rightarrow> nat \<Rightarrow> fstate \<Rightarrow> (int \<times> nat \<times> fstate) option" where
  "fork_files configRLIMIT_NOFILE rlim_max old st = do {
     let nofile_max = (if rlim_max < 0 then configRLIMIT_NOFILE else nat rlim_max);
     (new, st) \<leftarrow> fs_alloc_files nofile_max (of_nat nofile_max) st;
     if new = 0 then Some (- ENOMEM, 0, st)
     else do {
       T \<leftarrow> ftabs st old;
       st \<leftarrow> copy_slots old new [0 ..< length (fd T)] st;
       Some (0, new, st) } }"

definition free_files :: "nat \<Rightarrow> fstate \<Rightarrow> fstate option" where
  "free_files t st = do {
     st \<leftarrow> fs_fildes_close_all t 0 st;
     h \<leftarrow> kfree t (fheap st);
     Some (st\<lparr>fheap := h, ftabs := (ftabs st)(t := None)\<rparr>) }"

section \<open>Counting references\<close>

text \<open>How many descriptors name a file, over all tables, and how many open files are on a vnode.\<close>

definition nslots :: "fstate \<Rightarrow> nat \<Rightarrow> int" where
  "nslots st f = (\<Sum>t \<in> dom (ftabs st). int (count_list (fd (the (ftabs st t))) f))"

definition nfiles :: "fstate \<Rightarrow> nat \<Rightarrow> int" where
  "nfiles st v = int (card {f. \<exists>F. ofiles st f = Some F \<and> f_vnode F = v})"

definition fowned :: "fstate \<Rightarrow> nat \<rightharpoonup> nat" where
  "fowned st p = (case ofiles st p of Some F \<Rightarrow> Some SIZEOF_FILE
     | None \<Rightarrow> map_option (\<lambda>T. SIZEOF_FILES (length (fd T))) (ftabs st p))"

definition fheap_ok :: "kheap \<Rightarrow> (nat \<rightharpoonup> nat) \<Rightarrow> bool" where
  "fheap_ok h m \<longleftrightarrow> (\<exists>b. kinv h b \<and> kz.owns b m)"

text \<open>An open file with \<open>n\<close> references.\<close>

definition file_ok :: "fstate \<Rightarrow> int \<Rightarrow> file_t \<Rightarrow> bool" where
  "file_ok st n F \<longleftrightarrow> 0 < n \<and> n < 2 ^ 31 \<and> ko_refcount (f_obj F) = n \<and> ko_fast_lock (f_obj F) = 0 \<and> \<not> dying (f_obj F) \<and>
     bit (oflags F) 16 \<and> f_vnode F \<noteq> 0 \<and> f_vnode F \<in> dom (vnodes st)"

definition tabs_ok :: "fstate \<Rightarrow> bool" where
  "tabs_ok st \<longleftrightarrow> finite (dom (ftabs st)) \<and> finite (dom (ofiles st)) \<and> dom (ftabs st) \<inter> dom (ofiles st) = {} \<and>
     ofiles st 0 = None \<and> ftabs st 0 = None \<and>
     (\<forall>t T f. ftabs st t = Some T \<longrightarrow> f \<in> set (fd T) \<longrightarrow> f \<noteq> 0 \<longrightarrow> f \<in> dom (ofiles st))"

text \<open>\<open>B v\<close> references of a vnode are held by others, \<open>X f\<close> references of a file are held outside the tables.\<close>

definition vnode_ok :: "(nat \<Rightarrow> int) \<Rightarrow> fstate \<Rightarrow> nat \<Rightarrow> fvnode \<Rightarrow> bool" where
  "vnode_ok B st v V \<longleftrightarrow> 0 \<le> B v \<and> vn_refcount V = B v + nfiles st v \<and> vn_refcount V < 2 ^ 31"

definition fd_inv :: "(nat \<Rightarrow> int) \<Rightarrow> (nat \<Rightarrow> int) \<Rightarrow> fstate \<Rightarrow> bool" where
  "fd_inv B X st \<longleftrightarrow> fheap_ok (fheap st) (fowned st) \<and> tabs_ok st \<and>
     (\<forall>f F. ofiles st f = Some F \<longrightarrow> file_ok st (nslots st f + X f) F) \<and>
     (\<forall>v V. vnodes st v = Some V \<longrightarrow> vnode_ok B st v V)"

lemma fd_invD:
  assumes "fd_inv B X st"
  shows "fheap_ok (fheap st) (fowned st)" "tabs_ok st"
    "ofiles st f = Some F \<Longrightarrow> file_ok st (nslots st f + X f) F"
    "vnodes st v = Some V \<Longrightarrow> vnode_ok B st v V"
  using assms unfolding fd_inv_def by blast+

lemma tabs_okD:
  assumes "tabs_ok st"
  shows "finite (dom (ftabs st))" "finite (dom (ofiles st))" "ofiles st 0 = None" "ftabs st 0 = None"
    "ftabs st t = Some T \<Longrightarrow> ofiles st t = None" "ofiles st f = Some F \<Longrightarrow> ftabs st f = None"
    "ftabs st t = Some T \<Longrightarrow> f \<in> set (fd T) \<Longrightarrow> f \<noteq> 0 \<Longrightarrow> \<exists>F. ofiles st f = Some F"
  using assms unfolding tabs_ok_def by blast+

lemma tabs_ok_table:
  assumes "tabs_ok st" and "t \<noteq> 0" and "ofiles st t = None" and "\<And>f. f \<in> set (fd T) \<Longrightarrow> f \<noteq> 0 \<Longrightarrow> f \<in> dom (ofiles st)"
  shows "tabs_ok (st\<lparr>ftabs := (ftabs st)(t \<mapsto> T)\<rparr>)"
proof -
  have "f \<in> dom (ofiles st)" if "((ftabs st)(t \<mapsto> T)) s = Some S" "f \<in> set (fd S)" "f \<noteq> 0" for s S f
    using that assms(4) tabs_okD(7) [OF assms(1), of s S f] by (cases "s = t") auto
  then show ?thesis using assms(1-3) unfolding tabs_ok_def by (simp add: domIff)
qed

lemma fd_inv_cong:
  assumes "fd_inv B X st" and "\<And>f. f \<in> dom (ofiles st) \<Longrightarrow> X' f = X f"
  shows "fd_inv B X' st"
  using assms by (auto simp: fd_inv_def domIff)

lemma nslots_same [simp]: "nslots (st\<lparr>fheap := h\<rparr>) = nslots st" "nslots (st\<lparr>ofiles := m\<rparr>) = nslots st"
  "nslots (st\<lparr>vnodes := w\<rparr>) = nslots st" "nslots (st\<lparr>deleted := d\<rparr>) = nslots st"
  by (simp_all add: nslots_def fun_eq_iff)

lemma nfiles_same [simp]: "nfiles (st\<lparr>fheap := h\<rparr>) = nfiles st" "nfiles (st\<lparr>ftabs := m\<rparr>) = nfiles st"
  "nfiles (st\<lparr>vnodes := w\<rparr>) = nfiles st" "nfiles (st\<lparr>deleted := d\<rparr>) = nfiles st"
  by (simp_all add: nfiles_def fun_eq_iff)

lemma fowned_same [simp]: "fowned (st\<lparr>fheap := h\<rparr>) = fowned st" "fowned (st\<lparr>vnodes := w\<rparr>) = fowned st" "fowned (st\<lparr>deleted := d\<rparr>) = fowned st"
  by (auto simp: fowned_def fun_eq_iff split: option.split)

lemma file_ok_same [simp]: "file_ok (st\<lparr>fheap := h\<rparr>) = file_ok st" "file_ok (st\<lparr>ofiles := m\<rparr>) = file_ok st"
  "file_ok (st\<lparr>ftabs := w\<rparr>) = file_ok st" "file_ok (st\<lparr>deleted := d\<rparr>) = file_ok st"
  by (simp_all add: file_ok_def fun_eq_iff)

lemma count_list_update:
  "i < length xs \<Longrightarrow> int (count_list (xs[i := x]) y) = int (count_list xs y) - (if xs ! i = y then 1 else 0) + (if x = y then 1 else 0)"
proof (induction xs arbitrary: i)
  case (Cons a xs)
  show ?case
  proof (cases i)
    case (Suc j)
    then show ?thesis using Cons.IH [of j] Cons.prems by (auto split: if_splits)
  qed simp
qed simp

lemma nslots_split:
  assumes "tabs_ok st" "ftabs st t = Some T"
  shows "nslots st f = int (count_list (fd T) f) + (\<Sum>t \<in> dom (ftabs st) - {t}. int (count_list (fd (the (ftabs st t))) f))"
  unfolding nslots_def by (subst sum.remove [OF tabs_okD(1) [OF assms(1)], of t]) (use assms(2) in auto)

lemma nslots_pos:
  assumes "tabs_ok st" "ftabs st t = Some T" "f \<in> set (fd T)"
  shows "1 \<le> nslots st f"
proof -
  have "0 \<le> (\<Sum>t \<in> dom (ftabs st) - {t}. int (count_list (fd (the (ftabs st t))) f))" by (intro sum_nonneg) simp
  moreover have "count_list (fd T) f \<noteq> 0" using assms(3) by (simp add: count_list_0_iff)
  ultimately show ?thesis using nslots_split [OF assms(1,2), of f] by linarith
qed

lemma nslots_nonneg [simp]: "0 \<le> nslots st f"
  unfolding nslots_def by (intro sum_nonneg) simp

lemma nslots_table:
  assumes "tabs_ok st" "ftabs st t = Some T"
  shows "nslots (st\<lparr>ftabs := (ftabs st)(t \<mapsto> T')\<rparr>) f = nslots st f - int (count_list (fd T) f) + int (count_list (fd T') f)"
proof -
  let ?s = "st\<lparr>ftabs := (ftabs st)(t \<mapsto> T')\<rparr>"
  have d: "dom (ftabs ?s) - {t} = dom (ftabs st) - {t}" by auto
  have ok: "finite (dom (ftabs ?s))" "t \<in> dom (ftabs ?s)" using tabs_okD(1) [OF assms(1)] by auto
  have "(\<Sum>s \<in> dom (ftabs st) - {t}. int (count_list (fd (the (((ftabs st)(t \<mapsto> T')) s))) f)) =
      (\<Sum>s \<in> dom (ftabs st) - {t}. int (count_list (fd (the (ftabs st s))) f))" by (intro sum.cong) auto
  then have "nslots ?s f = int (count_list (fd T') f) + (\<Sum>s \<in> dom (ftabs st) - {t}. int (count_list (fd (the (ftabs st s))) f))"
    unfolding nslots_def sum.remove [OF ok] d by simp
  then show ?thesis using nslots_split [OF assms, of f] by linarith
qed

lemma nslots_slot:
  assumes "tabs_ok st" "ftabs st t = Some T" "i < length (fd T)"
  shows "nslots (st\<lparr>ftabs := (ftabs st)(t \<mapsto> T\<lparr>fd := (fd T)[i := x]\<rparr>)\<rparr>) f =
    nslots st f - (if fd T ! i = f then 1 else 0) + (if x = f then 1 else 0)"
  using nslots_table [OF assms(1,2)] assms(3) by (simp add: count_list_update)

lemma nfiles_upd:
  assumes "tabs_ok st" "ofiles st f = Some F"
  shows "f_vnode F' = f_vnode F \<Longrightarrow> nfiles (st\<lparr>ofiles := (ofiles st)(f \<mapsto> F')\<rparr>) v = nfiles st v"
    and "nfiles (st\<lparr>ofiles := (ofiles st)(f := None)\<rparr>) v = nfiles st v - (if f_vnode F = v then 1 else 0)"
proof -
  show "nfiles (st\<lparr>ofiles := (ofiles st)(f \<mapsto> F')\<rparr>) v = nfiles st v" if "f_vnode F' = f_vnode F"
  proof -
    have "{g. \<exists>G. ((ofiles st)(f \<mapsto> F')) g = Some G \<and> f_vnode G = v} = {g. \<exists>G. ofiles st g = Some G \<and> f_vnode G = v}"
      using assms(2) that by auto
    then show ?thesis by (simp add: nfiles_def)
  qed
  let ?S = "{g. \<exists>G. ofiles st g = Some G \<and> f_vnode G = v}"
  have e: "{g. \<exists>G. ((ofiles st)(f := None)) g = Some G \<and> f_vnode G = v} = ?S - {f}" using assms(2) by (auto split: if_splits)
  have fin: "finite ?S" by (rule finite_subset [OF _ tabs_okD(2) [OF assms(1)]]) auto
  show "nfiles (st\<lparr>ofiles := (ofiles st)(f := None)\<rparr>) v = nfiles st v - (if f_vnode F = v then 1 else 0)"
  proof (cases "f_vnode F = v")
    case True
    then have "f \<in> ?S" using assms(2) by auto
    then have "card ?S = Suc (card (?S - {f}))" by (rule card.remove [OF fin])
    then show ?thesis unfolding nfiles_def using True e by simp
  next
    case False
    then have "?S - {f} = ?S" using assms(2) by auto
    then show ?thesis using False e by (simp add: nfiles_def)
  qed
qed

lemma nfiles_new:
  assumes "tabs_ok st" "ofiles st f = None"
  shows "nfiles (st\<lparr>ofiles := (ofiles st)(f \<mapsto> F)\<rparr>) v = nfiles st v + (if f_vnode F = v then 1 else 0)"
proof -
  let ?S = "{g. \<exists>G. ofiles st g = Some G \<and> f_vnode G = v}"
  have e: "{g. \<exists>G. ((ofiles st)(f \<mapsto> F)) g = Some G \<and> f_vnode G = v} = (if f_vnode F = v then insert f ?S else ?S)" using assms(2) by auto
  have fin: "finite ?S" by (rule finite_subset [OF _ tabs_okD(2) [OF assms(1)]]) auto
  have "f \<notin> ?S" using assms(2) by auto
  then show ?thesis using fin e by (simp add: nfiles_def)
qed

lemma nfiles_pos: "tabs_ok st \<Longrightarrow> ofiles st f = Some F \<Longrightarrow> 1 \<le> nfiles st (f_vnode F)"
  using nfiles_upd(2) [of st f F "f_vnode F"] by (simp add: nfiles_def)


section \<open>Changes that keep the invariant\<close>

lemma vnode_ok_same [simp]: "vnode_ok B (st\<lparr>fheap := h\<rparr>) = vnode_ok B st" "vnode_ok B (st\<lparr>ftabs := m\<rparr>) = vnode_ok B st"
  "vnode_ok B (st\<lparr>vnodes := w\<rparr>) = vnode_ok B st" "vnode_ok B (st\<lparr>deleted := d\<rparr>) = vnode_ok B st"
  by (simp_all add: vnode_ok_def fun_eq_iff)

text \<open>A file changes: its count by \<open>d\<close>, and the fields that do not matter here.\<close>

lemma inv_file_upd:
  assumes inv: "fd_inv B X st" and F: "ofiles st f = Some F"
    and F': "f_vnode F' = f_vnode F" "bit (oflags F') 16" "ko_fast_lock (f_obj F') = 0" "\<not> dying (f_obj F')"
      "ko_refcount (f_obj F') = ko_refcount (f_obj F) + d" "0 < ko_refcount (f_obj F) + d" "ko_refcount (f_obj F) + d < 2 ^ 31"
  shows "fd_inv B (X(f := X f + d)) (st\<lparr>ofiles := (ofiles st)(f \<mapsto> F')\<rparr>)" (is "fd_inv B ?X ?st")
proof -
  note ok = fd_invD(3) [OF inv F]
  have "fowned ?st = fowned st" using F by (auto simp: fowned_def fun_eq_iff split: option.split)
  then have "fheap_ok (fheap ?st) (fowned ?st)" using fd_invD(1) [OF inv] by simp
  moreover have "tabs_ok ?st" using fd_invD(2) [OF inv] F unfolding tabs_ok_def by auto
  moreover have "file_ok ?st (nslots ?st g + ?X g) G" if g: "ofiles ?st g = Some G" for g G
  proof (cases "g = f")
    case True
    then show ?thesis using g ok F' by (auto simp: file_ok_def)
  next
    case False
    then show ?thesis using g fd_invD(3) [OF inv] by simp
  qed
  moreover have "vnode_ok B ?st v V" if "vnodes ?st v = Some V" for v V
    using fd_invD(4) [OF inv, of v V] that nfiles_upd(1) [OF fd_invD(2) [OF inv] F F'(1)] by (simp add: vnode_ok_def)
  ultimately show ?thesis unfolding fd_inv_def by blast
qed

text \<open>A slot of a table changes: the references of its old and new file move out of and into the tables.\<close>

lemma inv_slot:
  assumes inv: "fd_inv B X st" and T: "ftabs st t = Some T" and i: "i < length (fd T)" and x: "x = 0 \<or> x \<in> dom (ofiles st)"
  shows "fd_inv B (\<lambda>g. X g + (if fd T ! i = g then 1 else 0) - (if x = g then 1 else 0))
    (st\<lparr>ftabs := (ftabs st)(t \<mapsto> T\<lparr>fd := (fd T)[i := x]\<rparr>)\<rparr>)" (is "fd_inv B ?X ?st")
proof -
  note tabs = fd_invD(2) [OF inv]
  have "fowned ?st = fowned st" using T by (auto simp: fowned_def fun_eq_iff split: option.split)
  then have "fheap_ok (fheap ?st) (fowned ?st)" using fd_invD(1) [OF inv] by simp
  moreover have "tabs_ok ?st"
  proof -
    have "g \<in> dom (ofiles st)" if "g \<in> set ((fd T)[i := x])" "g \<noteq> 0" for g
      using set_update_subset_insert [of "fd T" i x] tabs_okD(7) [OF tabs T, of g] that x by auto
    then show ?thesis by (intro tabs_ok_table [OF tabs]) (use T tabs_okD(4,5) [OF tabs] in \<open>auto intro: ccontr\<close>)
  qed
  moreover have "file_ok ?st (nslots ?st g + ?X g) G" if g: "ofiles ?st g = Some G" for g G
  proof -
    have "nslots ?st g + ?X g = nslots st g + X g" using nslots_slot [OF tabs T i, of x g] by simp
    moreover have "ofiles st g = Some G" using g by simp
    ultimately show ?thesis using fd_invD(3) [OF inv, of g G] by (metis file_ok_same(3))
  qed
  moreover have "vnode_ok B ?st v V" if "vnodes ?st v = Some V" for v V
    using fd_invD(4) [OF inv] that by simp
  ultimately show ?thesis unfolding fd_inv_def by blast
qed

text \<open>A file that no descriptor names is freed; its vnode has one more reference from outside.\<close>

lemma inv_free:
  assumes inv: "fd_inv B X st" and F: "ofiles st f = Some F" and n: "nslots st f = 0"
  shows "\<exists>h. kfree f (fheap st) = Some h \<and>
    fd_inv (B(f_vnode F := B (f_vnode F) + 1)) X (st\<lparr>fheap := h, ofiles := (ofiles st)(f := None)\<rparr>)"
proof -
  note tabs = fd_invD(2) [OF inv]
  obtain b where b: "kinv (fheap st) b" "kz.owns b (fowned st)" using fd_invD(1) [OF inv] by (auto simp: fheap_ok_def)
  have o: "fowned st f = Some SIZEOF_FILE" using F by (simp add: fowned_def)
  obtain h b' where h: "kfree f (fheap st) = Some h" "kinv h b'" "kz.owns b' ((fowned st)(f := None))" using kz.owns_release [OF b o] by blast
  let ?st = "st\<lparr>fheap := h, ofiles := (ofiles st)(f := None)\<rparr>"
  have none: "ftabs st f = None" by (rule tabs_okD(6) [OF tabs F])
  have "fowned ?st = (fowned st)(f := None)" using none by (auto simp: fowned_def fun_eq_iff split: option.split)
  then have 1: "fheap_ok (fheap ?st) (fowned ?st)" using h(2,3) by (auto simp: fheap_ok_def)
  have away: "f \<notin> set (fd T)" if "ftabs st t = Some T" for t T using nslots_pos [OF tabs that] n by fastforce
  have 2: "tabs_ok ?st" using tabs away F unfolding tabs_ok_def by (auto simp: domIff)
  have ns: "nslots ?st = nslots st" by (simp add: nslots_def fun_eq_iff)
  have fk: "file_ok ?st = file_ok st" by (simp add: file_ok_def fun_eq_iff)
  have 3: "file_ok ?st (nslots ?st g + X g) G" if "ofiles ?st g = Some G" for g G
    using that fd_invD(3) [OF inv] unfolding ns fk by (simp split: if_splits)
  have 4: "vnode_ok (B(f_vnode F := B (f_vnode F) + 1)) ?st v V" if "vnodes ?st v = Some V" for v V
  proof -
    have "nfiles ?st v = nfiles (st\<lparr>ofiles := (ofiles st)(f := None)\<rparr>) v" by (simp add: nfiles_def)
    then show ?thesis using fd_invD(4) [OF inv, of v V] that nfiles_upd(2) [OF tabs F] by (auto simp: vnode_ok_def)
  qed
  have "fd_inv (B(f_vnode F := B (f_vnode F) + 1)) X ?st" unfolding fd_inv_def using 1 2 3 4 by blast
  then show ?thesis using h(1) by blast
qed

text \<open>References of a vnode from outside.\<close>

lemma inv_vnode:
  assumes inv: "fd_inv B X st" and V: "vnodes st v = Some V" and d: "0 \<le> B v + d" "vn_refcount V + d < 2 ^ 31"
  shows "fd_inv (B(v := B v + d)) X (st\<lparr>vnodes := (vnodes st)(v \<mapsto> V\<lparr>vn_refcount := vn_refcount V + d\<rparr>)\<rparr>)"
proof -
  let ?st = "st\<lparr>vnodes := (vnodes st)(v \<mapsto> V\<lparr>vn_refcount := vn_refcount V + d\<rparr>)\<rparr>"
  have "tabs_ok ?st" using fd_invD(2) [OF inv] by (simp add: tabs_ok_def)
  moreover have "file_ok ?st n G" if "file_ok st n G" for n G using that by (auto simp: file_ok_def)
  moreover have "vnode_ok (B(v := B v + d)) ?st w W" if "vnodes ?st w = Some W" for w W
    using that fd_invD(4) [OF inv V] fd_invD(4) [OF inv, of w W] d by (auto simp: vnode_ok_def split: if_splits)
  ultimately show ?thesis using fd_invD(1,3) [OF inv] unfolding fd_inv_def by simp
qed

lemma inv_deleted: "fd_inv B X (st\<lparr>deleted := d\<rparr>) = fd_inv B X st"
  by (simp add: fd_inv_def tabs_ok_def)

lemma vrele_ok:
  assumes inv: "fd_inv B X st" and V: "vnodes st v = Some V" and v: "v \<noteq> 0" and b: "0 < B v"
  shows "\<exists>st'. vrele v st = Some st' \<and> fd_inv (B(v := B v - 1)) X st' \<and>
    st' = st\<lparr>vnodes := (vnodes st)(v \<mapsto> V\<lparr>vn_refcount := vn_refcount V - 1\<rparr>),
      deleted := deleted st @ (if vn_refcount V = 1 then [v] else [])\<rparr>"
proof -
  note ok = fd_invD(4) [OF inv V]
  have r: "0 < vn_refcount V" "vn_refcount V < 2 ^ 31" using ok b by (auto simp: vnode_ok_def nfiles_def)
  have s: "s32 (vn_refcount V - 1) = vn_refcount V - 1" using r by (intro s32_id) auto
  note i = inv_vnode [OF inv V, of "- 1"]
  have "fd_inv (B(v := B v - 1)) X (st\<lparr>vnodes := (vnodes st)(v \<mapsto> V\<lparr>vn_refcount := vn_refcount V - 1\<rparr>)\<rparr>)" using i b r by simp
  then show ?thesis using v V r s by (auto simp: vrele_def inv_deleted)
qed


section \<open>Taking and dropping references\<close>

definition addref :: "nat \<Rightarrow> int \<Rightarrow> fstate \<Rightarrow> fstate" where
  "addref f d st = st\<lparr>ofiles := (ofiles st)(f := map_option (\<lambda>F. F\<lparr>f_obj := (f_obj F)\<lparr>ko_refcount := ko_refcount (f_obj F) + d\<rparr>\<rparr>) (ofiles st f))\<rparr>"

lemma addref_simps [simp]: "ftabs (addref f d st) = ftabs st" "vnodes (addref f d st) = vnodes st" "fheap (addref f d st) = fheap st"
  "deleted (addref f d st) = deleted st" "dom (ofiles (addref f d st)) = dom (ofiles st)" "nslots (addref f d st) = nslots st"
  by (auto simp: addref_def)

lemma addref_addref [simp]: "addref f d (addref f e st) = addref f (e + d) st"
  by (cases st) (auto simp: addref_def option.map_comp o_def add.assoc)

lemma addref_0 [simp]: "addref f 0 st = st"
  by (cases st) (auto simp: addref_def option.map_ident)

lemma inv_addref:
  assumes inv: "fd_inv B X st" and F: "ofiles st f = Some F" and d: "0 < ko_refcount (f_obj F) + d" "ko_refcount (f_obj F) + d < 2 ^ 31"
  shows "fd_inv B (X(f := X f + d)) (addref f d st)"
proof -
  let ?F = "F\<lparr>f_obj := (f_obj F)\<lparr>ko_refcount := ko_refcount (f_obj F) + d\<rparr>\<rparr>"
  have e: "addref f d st = st\<lparr>ofiles := (ofiles st)(f \<mapsto> ?F)\<rparr>" by (simp add: addref_def F)
  show ?thesis unfolding e by (rule inv_file_upd [OF inv F]) (use fd_invD(3) [OF inv F] d in \<open>auto simp: file_ok_def dying_def\<close>)
qed

lemma file_live: "file_ok st n F \<Longrightarrow> Kobj.live (f_obj F) (nat n) \<and> int (nat n) = n \<and> n = ko_refcount (f_obj F)"
  by (auto simp: file_ok_def Kobj.live_def)

lemma file_obj:
  assumes "file_ok st n F"
  shows "n + 1 < 2 ^ 31 \<Longrightarrow> kobj_ref (f_obj F) = Some (0, (f_obj F)\<lparr>ko_refcount := n + 1\<rparr>)"
    and "1 < n \<Longrightarrow> kobj_unref (f_obj F) = Some (False, (f_obj F)\<lparr>ko_refcount := n - 1\<rparr>)"
    and "n = 1 \<Longrightarrow> \<exists>q. kobj_unref (f_obj F) = Some (True, q)"
proof -
  obtain m where m: "n = int m" "Kobj.live (f_obj F) m" using file_live [OF assms] by metis
  show "n + 1 < 2 ^ 31 \<Longrightarrow> kobj_ref (f_obj F) = Some (0, (f_obj F)\<lparr>ko_refcount := n + 1\<rparr>)"
    using kobj_ref_live [OF m(2)] m(1) assms by (simp add: file_ok_def)
  show "1 < n \<Longrightarrow> kobj_unref (f_obj F) = Some (False, (f_obj F)\<lparr>ko_refcount := n - 1\<rparr>)"
    using kobj_unref_live [OF m(2)] m(1) by simp
  show "\<exists>q. kobj_unref (f_obj F) = Some (True, q)" if "n = 1"
    using that m kobj_unref_last [of "f_obj F"] by (metis of_nat_1_eq_iff)
qed

text \<open>What a descriptor names.\<close>

definition fd_names :: "fstate \<Rightarrow> nat \<Rightarrow> int \<Rightarrow> nat" where
  "fd_names st t n = (case ftabs st t of None \<Rightarrow> 0 | Some T \<Rightarrow> if fs_fildes_is_in_range T n then fd T ! nat n else 0)"

lemma fd_namesE:
  assumes "fd_inv B X st" and "fd_names st t n = f" and "f \<noteq> 0"
  obtains T F where "ftabs st t = Some T" "0 \<le> n" "nat n < length (fd T)" "fd T ! nat n = f" "ofiles st f = Some F"
    "file_ok st (nslots st f + X f) F" "1 \<le> nslots st f"
proof -
  obtain T where T: "ftabs st t = Some T" "0 \<le> n" "nat n < length (fd T)" "fd T ! nat n = f"
    using assms(2,3) by (auto simp: fd_names_def fs_fildes_is_in_range_def split: option.splits if_splits)
  then have m: "f \<in> set (fd T)" by auto
  obtain F where F: "ofiles st f = Some F" using tabs_okD(7) [OF fd_invD(2) [OF assms(1)] T(1) m assms(3)] by blast
  show ?thesis using that T F fd_invD(3) [OF assms(1) F] nslots_pos [OF fd_invD(2) [OF assms(1)] T(1) m] by blast
qed

lemma ref_none: "ftabs st t = Some T \<Longrightarrow> fd_names st t n = 0 \<Longrightarrow> fs_fildes_ref t n cnt st = Some (0, st)"
  by (simp add: fd_names_def fs_fildes_ref_def split: if_splits)

lemma ref_plus:
  assumes inv: "fd_inv B X st" and f: "fd_names st t n = f" "f \<noteq> 0" and r: "nslots st f + X f + 1 < 2 ^ 31"
  shows "fs_fildes_ref t n 1 st = Some (f, addref f 1 st)" "fd_inv B (X(f := X f + 1)) (addref f 1 st)"
proof -
  obtain T F where a: "ftabs st t = Some T" "0 \<le> n" "nat n < length (fd T)" "fd T ! nat n = f" "ofiles st f = Some F"
    "file_ok st (nslots st f + X f) F" "1 \<le> nslots st f" by (rule fd_namesE [OF inv f])
  have c: "ko_refcount (f_obj F) = nslots st f + X f" "0 < nslots st f + X f" using a(6) by (auto simp: file_ok_def)
  have "fs_fildes_is_in_range T n" using a(2,3) by (simp add: fs_fildes_is_in_range_def)
  then show "fs_fildes_ref t n 1 st = Some (f, addref f 1 st)"
    using a f(2) c file_obj(1) [OF a(6) r] by (simp add: fs_fildes_ref_def kobj_refcnt_def addref_def)
  show "fd_inv B (X(f := X f + 1)) (addref f 1 st)" using inv_addref [OF inv a(5), of 1] c r by simp
qed

lemma ref_minus:
  assumes inv: "fd_inv B X st" and f: "fd_names st t n = f" "f \<noteq> 0" and r: "1 < nslots st f + X f"
  shows "fs_fildes_ref t n (- 1) st = Some (f, addref f (- 1) st)" "fd_inv B (X(f := X f - 1)) (addref f (- 1) st)"
proof -
  obtain T F where a: "ftabs st t = Some T" "0 \<le> n" "nat n < length (fd T)" "fd T ! nat n = f" "ofiles st f = Some F"
    "file_ok st (nslots st f + X f) F" "1 \<le> nslots st f" by (rule fd_namesE [OF inv f])
  have c: "ko_refcount (f_obj F) = nslots st f + X f" "nslots st f + X f < 2 ^ 31" using a(6) by (auto simp: file_ok_def)
  have "fs_fildes_is_in_range T n" using a(2,3) by (simp add: fs_fildes_is_in_range_def)
  then show "fs_fildes_ref t n (- 1) st = Some (f, addref f (- 1) st)"
    using a f(2) c r file_obj(2) [OF a(6) r] by (simp add: fs_fildes_ref_def kobj_refcnt_def addref_def file_unref_def min_def)
  show "fd_inv B (X(f := X f - 1)) (addref f (- 1) st)" using inv_addref [OF inv a(5), of "- 1"] c r by simp
qed


section \<open>Closing\<close>

text \<open>The state after closing a descriptor that names \<open>f\<close>: its slot is empty, and \<open>f\<close> has one reference
  less or, without references, is freed and gives up its vnode.\<close>

definition slot_upd :: "nat \<Rightarrow> nat \<Rightarrow> nat \<Rightarrow> fstate \<Rightarrow> fstate" where
  "slot_upd t i x st = st\<lparr>ftabs := (ftabs st)(t := map_option (\<lambda>T. T\<lparr>fd := (fd T)[i := x]\<rparr>) (ftabs st t))\<rparr>"

lemma slot_upd_simps [simp]: "ofiles (slot_upd t i x st) = ofiles st" "vnodes (slot_upd t i x st) = vnodes st" "fheap (slot_upd t i x st) = fheap st"
  "deleted (slot_upd t i x st) = deleted st" "slot_upd t i x (addref f d st) = addref f d (slot_upd t i x st)"
  "slot_upd t i x (slot_upd t i y st) = slot_upd t i x st"
  by (cases st; auto simp: slot_upd_def addref_def option.map_comp o_def)+

lemma set_slot_upd: "ftabs st t = Some T \<Longrightarrow> i < length (fd T) \<Longrightarrow> set_slot t i x st = Some (slot_upd t i x st)"
  by (simp add: set_slot_def slot_upd_def)

lemma set_slot_twice: "ftabs st t = Some T \<Longrightarrow> i < length (fd T) \<Longrightarrow> set_slot t i x (slot_upd t i y st) = Some (slot_upd t i x st)"
  by (simp add: set_slot_def slot_upd_def)

lemma inv_slot_upd:
  assumes "fd_inv B X st" "ftabs st t = Some T" "i < length (fd T)" "x = 0 \<or> x \<in> dom (ofiles st)"
  shows "fd_inv B (\<lambda>g. X g + (if fd T ! i = g then 1 else 0) - (if x = g then 1 else 0)) (slot_upd t i x st)"
  using inv_slot [OF assms] assms(2) by (simp add: slot_upd_def)

lemma nslots_slot_upd:
  assumes "fd_inv B X st" "ftabs st t = Some T" "i < length (fd T)"
  shows "nslots (slot_upd t i x st) g = nslots st g - (if fd T ! i = g then 1 else 0) + (if x = g then 1 else 0)"
  using nslots_slot [OF fd_invD(2) [OF assms(1)] assms(2,3)] assms(2) by (simp add: slot_upd_def)

text \<open>Dropping the two references of a closing descriptor.\<close>

lemma ref_minus_two:
  assumes "ftabs s t = Some T" "0 \<le> n" "nat n < length (fd T)" "fd T ! nat n = f" "f \<noteq> 0" "ofiles s f = Some F" "2 \<le> ko_refcount (f_obj F)"
  shows "fs_fildes_ref t n (- 2) s = do { s \<leftarrow> file_unref 2 f s;
    if ko_refcount (f_obj F) = 2 then do { s \<leftarrow> set_slot t (nat n) 0 s; Some (0, s) } else Some (f, s) }"
proof -
  have "fs_fildes_is_in_range T n" using assms by (simp add: fs_fildes_is_in_range_def)
  then show ?thesis using assms by (auto simp: fs_fildes_ref_def kobj_refcnt_def min_def Let_def)
qed

lemma unref_two:
  assumes "ofiles s f = Some F" "kobj_unref (f_obj F) = Some (False, p)" "kobj_unref p = Some (b, q)"
  shows "file_unref 2 f s = (if b then fs_fildes_dtor f else Some) (s\<lparr>ofiles := (ofiles s)(f \<mapsto> F\<lparr>f_obj := q\<rparr>)\<rparr>)"
  using assms by (simp add: file_unref_def numeral_2_eq_2)

lemma close_shared:
  assumes inv: "fd_inv B X st" and f: "fd_names st t n = f" "f \<noteq> 0" and r: "nslots st f + X f + 1 < 2 ^ 31" "1 < nslots st f + X f"
  shows "fs_fildes_close t n st = Some (0, addref f (- 1) (slot_upd t (nat n) 0 st))"
    "fd_inv B X (addref f (- 1) (slot_upd t (nat n) 0 st))"
proof -
  obtain T F where a: "ftabs st t = Some T" "0 \<le> n" "nat n < length (fd T)" "fd T ! nat n = f" "ofiles st f = Some F"
    "file_ok st (nslots st f + X f) F" "1 \<le> nslots st f" by (rule fd_namesE [OF inv f])
  have c: "ko_refcount (f_obj F) = nslots st f + X f" using a(6) by (auto simp: file_ok_def)
  let ?m = "nslots st f + X f"
  let ?F = "F\<lparr>f_obj := (f_obj F)\<lparr>ko_refcount := ?m + 1\<rparr>\<rparr>"
  note p = ref_plus [OF inv f r(1)]
  have F1: "ofiles (addref f 1 st) f = Some ?F" using a(5) c by (simp add: addref_def)
  have ok1: "file_ok (addref f 1 st) (?m + 1) ?F" using fd_invD(3) [OF p(2) F1] by (simp add: add.assoc)
  have u1: "kobj_unref (f_obj ?F) = Some (False, (f_obj ?F)\<lparr>ko_refcount := ?m\<rparr>)" using file_obj(2) [OF ok1] r by simp
  let ?G = "?F\<lparr>f_obj := (f_obj ?F)\<lparr>ko_refcount := ?m\<rparr>\<rparr>"
  have ok2: "file_ok st ?m ?G" using a(6) by (auto simp: file_ok_def dying_def)
  have u2: "kobj_unref (f_obj ?G) = Some (False, (f_obj ?G)\<lparr>ko_refcount := ?m - 1\<rparr>)" using file_obj(2) [OF ok2 r(2)] .
  have "file_unref 2 f (addref f 1 st) = Some ((addref f 1 st)\<lparr>ofiles := (ofiles (addref f 1 st))(f \<mapsto> ?F\<lparr>f_obj := (f_obj ?G)\<lparr>ko_refcount := ?m - 1\<rparr>\<rparr>)\<rparr>)"
    using unref_two [OF F1 u1, of False] u2 by simp
  also have "\<dots> = Some (addref f (- 2) (addref f 1 st))" using a(5) c by (simp add: addref_def)
  finally have "fs_fildes_ref t n (- 2) (addref f 1 st) = Some (f, addref f (- 2) (addref f 1 st))"
    using ref_minus_two [OF _ a(2-4) f(2) F1] a(1) r by simp
  then show "fs_fildes_close t n st = Some (0, addref f (- 1) (slot_upd t (nat n) 0 st))"
    using p(1) f(2) F1 a(1,3) by (simp add: fs_fildes_close_def set_slot_upd)
  have i: "fd_inv B (\<lambda>g. X g + (if f = g then 1 else 0)) (slot_upd t (nat n) 0 st)" 
    by (rule fd_inv_cong [OF inv_slot_upd [OF inv a(1,3), of 0]])
      (use a(4) tabs_okD(3) [OF fd_invD(2) [OF inv]] in \<open>auto simp: domIff intro: ccontr\<close>)
  have "fd_inv B ((\<lambda>g. X g + (if f = g then 1 else 0))(f := X f + 1 + - 1)) (addref f (- 1) (slot_upd t (nat n) 0 st))"
    using inv_addref [OF i, of f F "- 1"] a(5) c r by simp
  then show "fd_inv B X (addref f (- 1) (slot_upd t (nat n) 0 st))" by (rule fd_inv_cong) auto
qed

definition file_gone :: "nat \<Rightarrow> file_t \<Rightarrow> fvnode \<Rightarrow> kheap \<Rightarrow> fstate \<Rightarrow> fstate" where
  "file_gone f F V h st = st\<lparr>fheap := h, ofiles := (ofiles st)(f := None),
       vnodes := (vnodes st)(f_vnode F \<mapsto> V\<lparr>vn_refcount := vn_refcount V - 1\<rparr>),
       deleted := deleted st @ (if vn_refcount V = 1 then [f_vnode F] else [])\<rparr>"

lemma close_last:
  assumes inv: "fd_inv B X st" and f: "fd_names st t n = f" "f \<noteq> 0" and r: "nslots st f = 1" "X f = 0"
  obtains F V h where "ofiles st f = Some F" "vnodes st (f_vnode F) = Some V" "kfree f (fheap st) = Some h"
    "fs_fildes_close t n st = Some (0, file_gone f F V h (slot_upd t (nat n) 0 st))"
    "fd_inv B X (file_gone f F V h (slot_upd t (nat n) 0 st))"
proof -
  obtain T F where a: "ftabs st t = Some T" "0 \<le> n" "nat n < length (fd T)" "fd T ! nat n = f" "ofiles st f = Some F"
    "file_ok st (nslots st f + X f) F" "1 \<le> nslots st f" by (rule fd_namesE [OF inv f])
  have c: "ko_refcount (f_obj F) = 1" "f_vnode F \<noteq> 0" "f_vnode F \<in> dom (vnodes st)" "bit (oflags F) 16" using a(6) r by (auto simp: file_ok_def)
  then obtain V where V: "vnodes st (f_vnode F) = Some V" by auto
  let ?F = "F\<lparr>f_obj := (f_obj F)\<lparr>ko_refcount := 2\<rparr>\<rparr>"
  have p: "fs_fildes_ref t n 1 st = Some (f, addref f 1 st)" "fd_inv B (X(f := X f + 1)) (addref f 1 st)"
    using ref_plus [OF inv f] r by auto
  have F1: "ofiles (addref f 1 st) f = Some ?F" using a(5) c by (simp add: addref_def)
  have ok1: "file_ok (addref f 1 st) 2 ?F" using fd_invD(3) [OF p(2) F1] r by simp
  have u1: "kobj_unref (f_obj ?F) = Some (False, (f_obj ?F)\<lparr>ko_refcount := 1\<rparr>)" using file_obj(2) [OF ok1] by simp
  let ?G = "?F\<lparr>f_obj := (f_obj ?F)\<lparr>ko_refcount := 1\<rparr>\<rparr>"
  have "file_ok st 1 ?G" using a(6) r by (auto simp: file_ok_def dying_def)
  then obtain q where q: "kobj_unref (f_obj ?G) = Some (True, q)" using file_obj(3) by blast
  let ?s = "slot_upd t (nat n) 0 st"
  have i: "fd_inv B (\<lambda>g. X g + (if f = g then 1 else 0)) ?s"
    by (rule fd_inv_cong [OF inv_slot_upd [OF inv a(1,3), of 0]])
      (use a(4) tabs_okD(3) [OF fd_invD(2) [OF inv]] in \<open>auto simp: domIff intro: ccontr\<close>)
  have "nslots ?s f = 0" using nslots_slot_upd [OF inv a(1,3), of 0 f] a(4) f(2) r by simp
  from inv_free [OF i _ this, of F] obtain h where h: "kfree f (fheap st) = Some h"
    "fd_inv (B(f_vnode F := B (f_vnode F) + 1)) (\<lambda>g. X g + (if f = g then 1 else 0)) (?s\<lparr>fheap := h, ofiles := (ofiles ?s)(f := None)\<rparr>)"
    using a(5) by auto
  have "0 \<le> B (f_vnode F)" using fd_invD(4) [OF inv V] by (simp add: vnode_ok_def)
  with vrele_ok [OF h(2), of "f_vnode F" V] V c(2) obtain st' where v: "vrele (f_vnode F) (?s\<lparr>fheap := h, ofiles := (ofiles ?s)(f := None)\<rparr>) = Some st'"
    "fd_inv B (\<lambda>g. X g + (if f = g then 1 else 0)) st'" "st' = file_gone f F V h ?s" by (auto simp: file_gone_def)
  have b: "oflags F AND O_KFREEABLE \<noteq> 0" using c(4) and_bit_eq_0 [of "oflags F" 16] by simp
  show ?thesis
  proof (rule that [OF a(5) V h(1)])
    let ?o = "(ofiles st)(f := None)"
    let ?w = "(vnodes st)(f_vnode F \<mapsto> V\<lparr>vn_refcount := s32 (vn_refcount V - 1)\<rparr>)"
    let ?d = "if vn_refcount V \<le> 1 then deleted st @ [f_vnode F] else deleted st"
    let ?s1 = "(addref f 1 st)\<lparr>ofiles := (ofiles (addref f 1 st))(f \<mapsto> ?F\<lparr>f_obj := q\<rparr>)\<rparr>"
    have "fs_fildes_dtor f ?s1 = Some (st\<lparr>fheap := h, ofiles := ?o, vnodes := ?w, deleted := ?d\<rparr>)"
      using h(1) V b c(2) by (simp add: fs_fildes_dtor_def vrele_def addref_def)
    then have "file_unref 2 f (addref f 1 st) = Some (st\<lparr>fheap := h, ofiles := ?o, vnodes := ?w, deleted := ?d\<rparr>)"
      using unref_two [OF F1 u1, of True] q by simp
    then have "fs_fildes_ref t n (- 2) (addref f 1 st) = Some (0, slot_upd t (nat n) 0 (st\<lparr>fheap := h, ofiles := ?o, vnodes := ?w, deleted := ?d\<rparr>))"
      using ref_minus_two [OF _ a(2-4) f(2) F1] a(1,3) by (simp add: set_slot_upd)
    moreover have "file_gone f F V h ?s = slot_upd t (nat n) 0 (st\<lparr>fheap := h, ofiles := ?o, vnodes := ?w, deleted := ?d\<rparr>)"
      using v(1) V c(2) unfolding v(3) by (cases st) (auto simp: vrele_def slot_upd_def)
    ultimately show "fs_fildes_close t n st = Some (0, file_gone f F V h ?s)"
      using p(1) f(2) F1 a(1,3) by (simp add: fs_fildes_close_def set_slot_twice)
    show "fd_inv B X (file_gone f F V h ?s)" using v(2) unfolding v(3) by (rule fd_inv_cong) (auto simp: file_gone_def)
 qed
qed


text \<open>Every file has room for \<open>k\<close> more references.\<close>

definition froom :: "int \<Rightarrow> fstate \<Rightarrow> bool" where
  "froom k st \<longleftrightarrow> (\<forall>f F. ofiles st f = Some F \<longrightarrow> ko_refcount (f_obj F) + k < 2 ^ 31)"

lemma froomD: "fd_inv B X st \<Longrightarrow> froom k st \<Longrightarrow> ofiles st f = Some F \<Longrightarrow> nslots st f + X f + k < 2 ^ 31"
  using fd_invD(3) [of B X st f F] unfolding froom_def file_ok_def by metis

lemma froom_addref: "froom (k + d) st \<Longrightarrow> 0 \<le> d \<Longrightarrow> froom k (addref f d st)"
  "froom k st \<Longrightarrow> d \<le> 0 \<Longrightarrow> froom k (addref f d st)"
  by (auto simp: froom_def addref_def split: if_splits; force)+

lemma froom_slot [simp]: "froom k (slot_upd t i x st) = froom k st"
  by (simp add: froom_def)

lemma froom_mono: "froom k st \<Longrightarrow> j \<le> k \<Longrightarrow> froom j st"
  unfolding froom_def by (metis add_left_mono order.strict_trans1)

lemma close_ok:
  assumes inv: "fd_inv B X st" and T: "ftabs st t = Some T" and x: "\<forall>f. 0 \<le> X f" and r: "froom 1 st"
  shows "\<exists>st'. fs_fildes_close t n st = Some (if fd_names st t n = 0 then - EBADF else 0, st') \<and> fd_inv B X st' \<and>
    (\<forall>k. froom k st \<longrightarrow> froom k st') \<and> (\<forall>g. 0 < X g \<longrightarrow> g \<in> dom (ofiles st) \<longrightarrow> g \<in> dom (ofiles st')) \<and>
    (if fd_names st t n = 0 then st' = st else ftabs st' = ftabs (slot_upd t (nat n) 0 st) \<and> (\<forall>f. f \<noteq> fd_names st t n \<longrightarrow> ofiles st' f = ofiles st f))"
proof -
  define f where "f = fd_names st t n"
  consider "f = 0" | "f \<noteq> 0" "1 < nslots st f + X f" | "f \<noteq> 0" "nslots st f + X f \<le> 1" by linarith
  then show ?thesis
  proof cases
    case 1
    then show ?thesis using ref_none [OF T, of n 1] inv by (simp add: fs_fildes_close_def f_def)
  next
    case 2
    obtain F where F: "ofiles st f = Some F" using fd_namesE [OF inv f_def [symmetric] 2(1)] by metis
    note c = close_shared [OF inv f_def [symmetric] 2(1) froomD [OF inv r F] 2(2)]
    have "ofiles (addref f (- 1) (slot_upd t (nat n) 0 st)) g = ofiles st g" if "g \<noteq> f" for g using that by (simp add: addref_def)
    then show ?thesis using c 2(1) by (auto simp: f_def [symmetric] froom_addref(2))
  next
    case 3
    have "1 \<le> nslots st f" using fd_namesE [OF inv f_def [symmetric] 3(1)] by metis
    then have e: "nslots st f = 1" "X f = 0" using 3(2) x by (smt (verit))+
    obtain F V h where c: "ofiles st f = Some F" "vnodes st (f_vnode F) = Some V" "kfree f (fheap st) = Some h"
      "fs_fildes_close t n st = Some (0, file_gone f F V h (slot_upd t (nat n) 0 st))"
      "fd_inv B X (file_gone f F V h (slot_upd t (nat n) 0 st))" by (rule close_last [OF inv f_def [symmetric] 3(1) e])
    then show ?thesis using 3(1) e(2) by (auto simp: f_def [symmetric] file_gone_def froom_def)
  qed
qed

text \<open>The slots of a table after the descriptors of a list were closed.\<close>

definition tab_fds :: "fstate \<Rightarrow> nat \<Rightarrow> nat list" where
  "tab_fds st t = (case ftabs st t of None \<Rightarrow> [] | Some T \<Rightarrow> fd T)"

lemma close_tab:
  assumes "if fd_names st t (int i) = 0 then st' = st else ftabs st' = ftabs (slot_upd t i 0 st)" and "ftabs st t = Some T" "i < length (fd T)"
  shows "ftabs st' = (ftabs st)(t \<mapsto> T\<lparr>fd := (fd T)[i := 0]\<rparr>)"
proof (cases "fd T ! i = 0")
  case True
  then have "(fd T)[i := 0] = fd T" by (metis list_update_id)
  then show ?thesis using assms True by (auto simp: fd_names_def fs_fildes_is_in_range_def)
next
  case False
  then show ?thesis using assms by (simp add: fd_names_def fs_fildes_is_in_range_def slot_upd_def)
qed

lemma close_list_ok:
  assumes "fd_inv B X st" "ftabs st t = Some T" "\<forall>f. 0 \<le> X f" "froom 1 st" "\<forall>i \<in> set is. i < length (fd T)"
  shows "\<exists>st' T'. close_list t is st = Some st' \<and> fd_inv B X st' \<and> froom 1 st' \<and> ftabs st' = (ftabs st)(t \<mapsto> T') \<and>
    umask T' = umask T \<and> length (fd T') = length (fd T) \<and> (\<forall>i < length (fd T). fd T' ! i = (if i \<in> set is then 0 else fd T ! i))"
  using assms
proof (induction "is" arbitrary: st T)
  case Nil
  then show ?case by (auto intro!: exI [of _ T])
next
  case (Cons i "is")
  obtain st1 where c: "fs_fildes_close t (int i) st = Some (if fd_names st t (int i) = 0 then - EBADF else 0, st1)" "fd_inv B X st1"
    "froom 1 st1" "if fd_names st t (int i) = 0 then st1 = st else ftabs st1 = ftabs (slot_upd t i 0 st)"
    using close_ok [OF Cons.prems(1-4), of "int i"] Cons.prems(4) by (auto split: if_splits)
  define T1 where "T1 = T\<lparr>fd := (fd T)[i := 0]\<rparr>"
  have T1: "ftabs st1 = (ftabs st)(t \<mapsto> T1)" unfolding T1_def by (rule close_tab [OF c(4) Cons.prems(2)]) (use Cons.prems(5) in simp)
  have l: "ftabs st1 t = Some T1" "\<forall>i \<in> set is. i < length (fd T1)" "length (fd T1) = length (fd T)" using T1 Cons.prems(5) by (simp_all add: T1_def)
  from Cons.IH [OF c(2) l(1) Cons.prems(3) c(3) l(2)] obtain st' T' where s:
    "close_list t is st1 = Some st'" "fd_inv B X st'" "froom 1 st'" "ftabs st' = (ftabs st1)(t \<mapsto> T')" "umask T' = umask T1"
    "length (fd T') = length (fd T1)" "\<forall>i < length (fd T1). fd T' ! i = (if i \<in> set is then 0 else fd T1 ! i)"
    by blast
  have "fd T' ! j = (if j \<in> set (i # is) then 0 else fd T ! j)" if "j < length (fd T)" for j
    using s(7) that by (simp add: T1_def nth_list_update)
  moreover have "close_list t (i # is) st = Some st'" using c(1) s(1) by simp
  moreover have "ftabs st' = (ftabs st)(t \<mapsto> T')" using s(4) T1 by simp
  ultimately show ?case using s(2,3,5,6) l(3) by (intro exI [of _ st'] exI [of _ T']) (simp add: T1_def)
qed

lemma close_exec_ok:
  assumes "fd_inv B X st" "ftabs st t = Some T" "\<forall>f. 0 \<le> X f" "froom 1 st" "\<forall>i \<in> set is. i < length (fd T)" 
  shows "\<exists>st' T'. close_exec_loop t is st = Some st' \<and> fd_inv B X st' \<and> froom 1 st' \<and> ftabs st' = (ftabs st)(t \<mapsto> T') \<and>
    umask T' = umask T \<and> length (fd T') = length (fd T) \<and> (\<forall>i < length (fd T). fd T' ! i = 0 \<or> fd T' ! i = fd T ! i)"
  using assms
proof (induction "is" arbitrary: st T)
  case Nil
  then show ?case by (auto intro!: exI [of _ T])
next
  case (Cons i "is")
  have i: "i < length (fd T)" using Cons.prems(5) by simp
  show ?case
  proof (cases "fd T ! i = 0")
    case True
    then show ?thesis using Cons.IH [OF Cons.prems(1-4)] Cons.prems(2,5) i by simp
  next
    case False
    then have n: "fd_names st t (int i) = fd T ! i" using Cons.prems(2) i by (simp add: fd_names_def fs_fildes_is_in_range_def)
    obtain F where F: "ofiles st (fd T ! i) = Some F" using fd_namesE [OF Cons.prems(1) n False] by metis
    show ?thesis
    proof (cases "oflags F AND O_CLOEXEC = 0")
      case True
      then show ?thesis using Cons.IH [OF Cons.prems(1-4)] Cons.prems(2,5) i F False by simp
    next
      case c: False
      obtain st1 where c: "fs_fildes_close t (int i) st = Some (0, st1)" "fd_inv B X st1"
        "froom 1 st1" "if fd_names st t (int i) = 0 then st1 = st else ftabs st1 = ftabs (slot_upd t i 0 st)"
        using close_ok [OF Cons.prems(1-4), of "int i"] Cons.prems(4) n False by auto
      define T1 where "T1 = T\<lparr>fd := (fd T)[i := 0]\<rparr>"
      have T1: "ftabs st1 = (ftabs st)(t \<mapsto> T1)" unfolding T1_def by (rule close_tab [OF c(4) Cons.prems(2) i])
      have l: "ftabs st1 t = Some T1" "\<forall>i \<in> set is. i < length (fd T1)" "length (fd T1) = length (fd T)" using T1 Cons.prems(5) by (simp_all add: T1_def)
      from Cons.IH [OF c(2) l(1) Cons.prems(3) c(3) l(2)] obtain st' T' where s:
        "close_exec_loop t is st1 = Some st'" "fd_inv B X st'" "froom 1 st'" "ftabs st' = (ftabs st1)(t \<mapsto> T')" "umask T' = umask T1"
        "length (fd T') = length (fd T1)" "\<forall>i < length (fd T1). fd T' ! i = 0 \<or> fd T' ! i = fd T1 ! i"
        by blast
      have "close_exec_loop t (i # is) st = Some st'" using s(1) c(1) Cons.prems(2) i F False \<open>oflags F AND O_CLOEXEC \<noteq> 0\<close> by simp
      moreover have "fd T' ! j = 0 \<or> fd T' ! j = fd T ! j" if "j < length (fd T)" for j
        using s(7) that by (cases "j = i") (auto simp: T1_def)
      moreover have "ftabs st' = (ftabs st)(t \<mapsto> T')" using s(4) T1 by simp
      ultimately show ?thesis using s(2,3,5,6) l(3) by (intro exI [of _ st'] exI [of _ T']) (simp add: T1_def)
    qed
  qed
qed


section \<open>Tables\<close>

lemma nslots_new_table:
  assumes "tabs_ok st" "ftabs st t = None"
  shows "nslots (st\<lparr>ftabs := (ftabs st)(t \<mapsto> T)\<rparr>) f = nslots st f + int (count_list (fd T) f)"
proof -
  have "(\<Sum>s \<in> dom (ftabs st). int (count_list (fd (the (((ftabs st)(t \<mapsto> T)) s))) f)) = nslots st f"
    unfolding nslots_def by (intro sum.cong) (use assms(2) in auto)
  moreover have "t \<notin> dom (ftabs st)" using assms(2) by auto
  ultimately show ?thesis using tabs_okD(1) [OF assms(1)] by (simp add: nslots_def)
qed

lemma nslots_drop_table:
  assumes "tabs_ok st" "ftabs st t = Some T"
  shows "nslots (st\<lparr>ftabs := (ftabs st)(t := None)\<rparr>) f = nslots st f - int (count_list (fd T) f)"
proof -
  have "nslots (st\<lparr>ftabs := (ftabs st)(t := None)\<rparr>) f = (\<Sum>s \<in> dom (ftabs st) - {t}. int (count_list (fd (the (ftabs st s))) f))"
    unfolding nslots_def by (intro sum.cong) auto
  then show ?thesis using nslots_split [OF assms, of f] by simp
qed

lemma size_ok_files: "n \<le> 2 ^ 17 \<Longrightarrow> size_ok (SIZEOF_FILES n)"
  by (simp add: size_ok_def room_ok_def memalign_def SIZEOF_FILES_def)

lemma alloc_files_ok:
  assumes inv: "fd_inv B X st" and n: "nr \<le> 2 ^ 17" and a: "fs_alloc_files nr um st = Some (t, st')"
  shows "fd_inv B X st' \<and> ofiles st' = ofiles st \<and> vnodes st' = vnodes st \<and> deleted st' = deleted st \<and>
    (if t = 0 then st' = st else ftabs st t = None \<and> ftabs st' = (ftabs st)(t \<mapsto> \<lparr>umask = um, fd = replicate nr 0\<rparr>))"
proof -
  note tabs = fd_invD(2) [OF inv]
  obtain b where b: "kinv (fheap st) b" "kz.owns b (fowned st)" using fd_invD(1) [OF inv] by (auto simp: fheap_ok_def)
  obtain h where h: "kzalloc (SIZEOF_FILES nr) (fheap st) = Some (t, h)" using a by (auto simp: fs_alloc_files_def Let_def split: Option.bind_splits if_splits)
  show ?thesis
  proof (cases "t = 0")
    case True
    then have "h = fheap st" using kz.alloc_null [OF b(1) size_ok_files [OF n]] h by blast
    then have "st' = st" using a h True by (simp add: fs_alloc_files_def)
    then show ?thesis using inv True by simp
  next
    case False
    let ?T = "\<lparr>umask = um, fd = replicate nr 0\<rparr>"
    have o: "fowned st t = None" "\<exists>b'. kinv h b' \<and> kz.owns b' ((fowned st)(t \<mapsto> SIZEOF_FILES nr))"
      using kz.owns_alloc [OF b size_ok_files [OF n] h False] by auto
    then have new: "ftabs st t = None" "ofiles st t = None" by (auto simp: fowned_def split: option.splits)
    let ?s = "st\<lparr>ftabs := (ftabs st)(t \<mapsto> ?T)\<rparr>"
    have st': "st' = ?s\<lparr>fheap := h\<rparr>" using a h False by (cases st) (simp add: fs_alloc_files_def)
    have "fowned ?s = (fowned st)(t \<mapsto> SIZEOF_FILES nr)" using new by (auto simp: fowned_def fun_eq_iff split: option.split)
    then have 1: "fheap_ok h (fowned ?s)" using o(2) by (auto simp: fheap_ok_def)
    have t2: "tabs_ok ?s" by (rule tabs_ok_table [OF tabs False new(2)]) simp
    have same: "nslots ?s f = nslots st f" if "f \<in> dom (ofiles st)" for f
    proof -
      have "f \<noteq> 0" using that tabs_okD(3) [OF tabs] by (auto intro: ccontr)
      then have "count_list (replicate nr 0) f = 0" by (simp add: count_list_0_iff)
      then show ?thesis using nslots_new_table [OF tabs new(1), of ?T f] by simp
    qed
    have 3: "file_ok ?s (nslots ?s f + X f) F" if "ofiles ?s f = Some F" for f F
    proof -
      have "ofiles st f = Some F" using that by simp
      moreover from this have "nslots ?s f = nslots st f" using same by blast
      ultimately show ?thesis using fd_invD(3) [OF inv, of f F] by simp
    qed
    have 4: "vnode_ok B ?s v V" if "vnodes ?s v = Some V" for v V using that fd_invD(4) [OF inv] by simp
    have 2: "tabs_ok (?s\<lparr>fheap := h\<rparr>)" using t2 by (simp add: tabs_ok_def)
    have "fd_inv B X st'" unfolding st' fd_inv_def using 1 2 3 4 by simp
    then show ?thesis using False new st' by simp
  qed
qed

text \<open>A table goes; the references its descriptors still have are in no table any more.\<close>

lemma inv_drop_table:
  assumes inv: "fd_inv B X st" and T: "ftabs st t = Some T"
  shows "\<exists>h. kfree t (fheap st) = Some h \<and> fd_inv B (\<lambda>g. X g + int (count_list (fd T) g)) (st\<lparr>fheap := h, ftabs := (ftabs st)(t := None)\<rparr>)"
proof -
  note tabs = fd_invD(2) [OF inv]
  obtain b where b: "kinv (fheap st) b" "kz.owns b (fowned st)" using fd_invD(1) [OF inv] by (auto simp: fheap_ok_def)
  have no: "ofiles st t = None" by (rule tabs_okD(5) [OF tabs T])
  then have o: "fowned st t = Some (SIZEOF_FILES (length (fd T)))" using T by (simp add: fowned_def)
  obtain h b' where h: "kfree t (fheap st) = Some h" "kinv h b'" "kz.owns b' ((fowned st)(t := None))" using kz.owns_release [OF b o] by blast
  let ?s = "st\<lparr>ftabs := (ftabs st)(t := None)\<rparr>"
  let ?X = "\<lambda>g. X g + int (count_list (fd T) g)"
  have "fowned ?s = (fowned st)(t := None)" using no by (auto simp: fowned_def fun_eq_iff split: option.split)
  then have 1: "fheap_ok h (fowned ?s)" using h(2,3) by (auto simp: fheap_ok_def)
  have 2: "tabs_ok (?s\<lparr>fheap := h\<rparr>)" using tabs unfolding tabs_ok_def by (auto simp: domIff)
  have 3: "file_ok ?s (nslots ?s f + ?X f) F" if "ofiles ?s f = Some F" for f F
  proof -
    have "nslots ?s f + ?X f = nslots st f + X f" using nslots_drop_table [OF tabs T, of f] by simp
    moreover have "ofiles st f = Some F" using that by simp
    ultimately show ?thesis using fd_invD(3) [OF inv, of f F] by (metis file_ok_same(3))
  qed
  have 4: "vnode_ok B ?s v V" if "vnodes ?s v = Some V" for v V using that fd_invD(4) [OF inv] by simp
  have "fd_inv B ?X (?s\<lparr>fheap := h\<rparr>)" unfolding fd_inv_def using 1 2 3 4 by simp
  moreover have "?s\<lparr>fheap := h\<rparr> = st\<lparr>fheap := h, ftabs := (ftabs st)(t := None)\<rparr>" by (cases st) simp
  ultimately show ?thesis using h(1) by auto
qed

lemma copy_slots_ok:
  assumes "fd_inv B X st" "old \<noteq> new" "ftabs st old = Some T" "ftabs st new = Some N" "distinct is" "froom (int (length is)) st"
    "\<forall>i \<in> set is. i < length (fd T) \<and> i < length (fd N) \<and> fd N ! i = 0"
  shows "\<exists>st' N'. copy_slots old new is st = Some st' \<and> fd_inv B X st' \<and> ftabs st' = (ftabs st)(new \<mapsto> N') \<and> umask N' = umask N \<and>
    dom (ofiles st') = dom (ofiles st) \<and> vnodes st' = vnodes st \<and> deleted st' = deleted st \<and>
    length (fd N') = length (fd N) \<and> (\<forall>i < length (fd N). fd N' ! i = (if i \<in> set is then fd T ! i else fd N ! i))"
  using assms
proof (induction "is" arbitrary: st N)
  case Nil
  then show ?case by (auto intro!: exI [of _ N])
next
  case (Cons i "is")
  note inv = Cons.prems(1)
  define x where "x = fd T ! i"
  define N1 where "N1 = N\<lparr>fd := (fd N)[i := x]\<rparr>"
  define s1 where "s1 = slot_upd new i x st"
  have i: "i < length (fd T)" "i < length (fd N)" "fd N ! i = 0" using Cons.prems(7) by auto
  have x: "x = 0 \<or> x \<in> dom (ofiles st)" using tabs_okD(7) [OF fd_invD(2) [OF inv] Cons.prems(3), of x] i(1) by (auto simp: x_def)
  have z: "0 \<notin> dom (ofiles st)" using tabs_okD(3) [OF fd_invD(2) [OF inv]] by (simp add: domIff)
  have i1: "fd_inv B (\<lambda>g. X g - (if x = g then 1 else 0)) s1" unfolding s1_def
    by (rule fd_inv_cong [OF inv_slot_upd [OF inv Cons.prems(4) i(2) x]]) (use i(3) z in auto)
  have t1: "ftabs s1 = (ftabs st)(new \<mapsto> N1)" using Cons.prems(4) by (simp add: s1_def slot_upd_def N1_def)
  have nm: "fd_names s1 new (int i) = x" using i(2) t1 by (simp add: fd_names_def fs_fildes_is_in_range_def N1_def)
  have "\<exists>y s2. fs_fildes_ref new (int i) 1 s1 = Some (y, s2) \<and> fd_inv B X s2 \<and> ftabs s2 = ftabs s1 \<and> froom (int (length is)) s2 \<and>
      dom (ofiles s2) = dom (ofiles st) \<and> vnodes s2 = vnodes st \<and> deleted s2 = deleted st"
  proof (cases "x = 0")
    case True
    have "fd_inv B X s1" by (rule fd_inv_cong [OF i1]) (use True z in \<open>auto simp: s1_def\<close>)
    moreover have "froom (int (length is)) s1" using Cons.prems(6) by (auto simp: s1_def intro: froom_mono)
    ultimately show ?thesis using ref_none [of s1 new N1 "int i" 1] t1 nm True by (simp add: s1_def)
  next
    case False
    then obtain F where F: "ofiles st x = Some F" using x by auto
    have "nslots s1 x + (X x - 1) + 1 = nslots st x + X x + 1"
      using nslots_slot_upd [OF inv Cons.prems(4) i(2), of x x] i(3) False by (simp add: s1_def)
    moreover have "nslots st x + X x + 1 < 2 ^ 31" using froomD [OF inv Cons.prems(6) F] by simp
    ultimately have r: "fs_fildes_ref new (int i) 1 s1 = Some (x, addref x 1 s1)"
      "fd_inv B ((\<lambda>g. X g - (if x = g then 1 else 0))(x := X x - 1 + 1)) (addref x 1 s1)"
      using ref_plus [OF i1 nm False] by simp_all
    have "fd_inv B X (addref x 1 s1)" by (rule fd_inv_cong [OF r(2)]) auto
    moreover have "froom (int (length is)) (addref x 1 s1)" using Cons.prems(6) by (intro froom_addref) (simp_all add: s1_def add.commute)
    ultimately show ?thesis using r(1) by (auto simp: s1_def)
  qed
  then obtain y s2 where s2: "fs_fildes_ref new (int i) 1 s1 = Some (y, s2)" "fd_inv B X s2" "ftabs s2 = (ftabs st)(new \<mapsto> N1)" "froom (int (length is)) s2"
    "dom (ofiles s2) = dom (ofiles st)" "vnodes s2 = vnodes st" "deleted s2 = deleted st" using t1 by auto
  have a: "ftabs s2 old = Some T" "ftabs s2 new = Some N1" "distinct is"
    "\<forall>i \<in> set is. i < length (fd T) \<and> i < length (fd N1) \<and> fd N1 ! i = 0"
    using s2(3) Cons.prems(2,3,5,7) by (auto simp: N1_def nth_list_update)
  from Cons.IH [OF s2(2) Cons.prems(2) a(1-3) s2(4) a(4)] obtain st' N' where c: "copy_slots old new is s2 = Some st'" "fd_inv B X st'"
    "ftabs st' = (ftabs s2)(new \<mapsto> N')" "umask N' = umask N1" "dom (ofiles st') = dom (ofiles s2)" "vnodes st' = vnodes s2" "deleted st' = deleted s2"
    "length (fd N') = length (fd N1)" "\<forall>i < length (fd N1). fd N' ! i = (if i \<in> set is then fd T ! i else fd N1 ! i)" by blast
  have "copy_slots old new (i # is) st = Some st'"
    using c(1) s2(1) Cons.prems(3,4) i set_slot_upd [OF Cons.prems(4) i(2), of x] by (simp add: x_def s1_def)
  moreover have "fd N' ! j = (if j \<in> set (i # is) then fd T ! j else fd N ! j)" if "j < length (fd N)" for j
    using c(9) that by (auto simp: N1_def nth_list_update x_def)
  moreover have "ftabs st' = (ftabs st)(new \<mapsto> N')" using c(3) s2(3) by simp
  ultimately show ?case using c s2(5-7) by (intro exI [of _ st'] exI [of _ N']) (simp add: N1_def)
qed


section \<open>Duplicating\<close>

lemma curproc_next_cases:
  assumes T: "ftabs st t = Some T" and f: "f \<noteq> 0" and s: "0 \<le> start"
  obtains "int (length (fd T)) \<le> start" "fs_fildes_curproc_next t f start st = Some (- EMFILE, st)"
    | "start < int (length (fd T))" "\<forall>j \<in> {nat start ..< length (fd T)}. fd T ! j \<noteq> 0" "fs_fildes_curproc_next t f start st = Some (- ENFILE, st)"
    | i where "nat start \<le> i" "i < length (fd T)" "fd T ! i = 0" "\<forall>j \<in> {nat start ..< i}. fd T ! j \<noteq> 0"
      "fs_fildes_curproc_next t f start st = Some (int i, slot_upd t i f st)"
proof (cases "find (\<lambda>i. fd T ! i = 0) [nat start ..< length (fd T)]")
  case None
  then have "\<forall>j \<in> {nat start ..< length (fd T)}. fd T ! j \<noteq> 0" by (auto simp: find_None_iff)
  then show ?thesis using that(1,2) None assms by (cases "int (length (fd T)) \<le> start") (simp_all add: fs_fildes_curproc_next_def)
next
  case (Some i)
  then obtain k where k: "k < length (fd T) - nat start" "i = nat start + k" "fd T ! i = 0" "\<forall>j<k. fd T ! (nat start + j) \<noteq> 0"
    by (auto simp: find_Some_iff)
  have "fd T ! j \<noteq> 0" if "j \<in> {nat start ..< i}" for j using k(4) that k(2) by (auto dest!: spec [of _ "j - nat start"])
  then show ?thesis using that(3) [of i] Some k assms set_slot_upd [OF T, of i f] by (simp add: fs_fildes_curproc_next_def)
qed

text \<open>A free slot gets a file that has a reference outside the tables, and \<open>fs_fildes_ref\<close> on it restores that.\<close>

lemma place_ref:
  assumes inv: "fd_inv B X st" and T: "ftabs st t = Some T" "i < length (fd T)" "fd T ! i = 0" and F: "ofiles st f = Some F" and r: "froom 1 st"
  shows "fs_fildes_ref t (int i) 1 (slot_upd t i f st) = Some (f, addref f 1 (slot_upd t i f st))" "fd_inv B X (addref f 1 (slot_upd t i f st))"
proof -
  have z: "f \<noteq> 0" "0 \<notin> dom (ofiles st)" using tabs_okD(3) [OF fd_invD(2) [OF inv]] F by (auto simp: domIff intro: ccontr)
  have i1: "fd_inv B (\<lambda>g. X g - (if f = g then 1 else 0)) (slot_upd t i f st)"
    by (rule fd_inv_cong [OF inv_slot_upd [OF inv T(1,2)]]) (use F z T(3) in auto)
  have nm: "fd_names (slot_upd t i f st) t (int i) = f" using T by (simp add: fd_names_def fs_fildes_is_in_range_def slot_upd_def)
  have n: "nslots (slot_upd t i f st) f + (X f - 1) + 1 < 2 ^ 31"
    using nslots_slot_upd [OF inv T(1,2), of f f] T(3) z(1) froomD [OF inv r F] by simp
  show "fs_fildes_ref t (int i) 1 (slot_upd t i f st) = Some (f, addref f 1 (slot_upd t i f st))" using ref_plus(1) [OF i1 nm z(1)] n by simp
  have "fd_inv B ((\<lambda>g. X g - (if f = g then 1 else 0))(f := X f - 1 + 1)) (addref f 1 (slot_upd t i f st))" using ref_plus(2) [OF i1 nm z(1)] n by simp
  then show "fd_inv B X (addref f 1 (slot_upd t i f st))" by (rule fd_inv_cong) auto
qed

lemma dupfd_cases:
  assumes inv: "fd_inv B X st" and T: "ftabs st t = Some T" and F: "ofiles st f = Some F" and r: "froom 1 st" and s: "0 \<le> start"
  obtains "int (length (fd T)) \<le> start" "dupfd t f start st = Some (- 1, Some EMFILE, st)"
    | "start < int (length (fd T))" "\<forall>j \<in> {nat start ..< length (fd T)}. fd T ! j \<noteq> 0" "dupfd t f start st = Some (- 1, Some ENFILE, st)"
    | i where "nat start \<le> i" "i < length (fd T)" "fd T ! i = 0" "\<forall>j \<in> {nat start ..< i}. fd T ! j \<noteq> 0"
      "dupfd t f start st = Some (int i, None, addref f 1 (slot_upd t i f st))" "fd_inv B X (addref f 1 (slot_upd t i f st))"
proof -
  have z: "f \<noteq> 0" using tabs_okD(3) [OF fd_invD(2) [OF inv]] F by (auto intro: ccontr)
  show ?thesis
  proof (rule curproc_next_cases [OF T z s])
    fix i assume i: "nat start \<le> i" "i < length (fd T)" "fd T ! i = 0" "\<forall>j \<in> {nat start ..< i}. fd T ! j \<noteq> 0"
      "fs_fildes_curproc_next t f start st = Some (int i, slot_upd t i f st)"
    note p = place_ref [OF inv T i(2,3) F r]
    show ?thesis by (rule that(3) [OF i(1-4) _ p(2)]) (simp add: dupfd_def i(5) p(1))
  qed (use that(1,2) in \<open>simp_all add: dupfd_def\<close>)
qed

lemma dup2fd_ok:
  assumes inv: "fd_inv B X st" and T: "ftabs st t = Some T" and F: "ofiles st f = Some F" and r: "froom 1 st" and x: "\<forall>g. 0 \<le> X g" "0 < X f"
    and s: "0 \<le> third" "third \<noteq> n"
  shows "if third < int (length (fd T)) then
      \<exists>st'. dup2fd t f n third st = Some (third, None, st') \<and> fd_inv B X st' \<and> ftabs st' = ftabs (slot_upd t (nat third) f st)
    else dup2fd t f n third st = Some (- 1, Some EMFILE, st)"
proof -
  have z: "f \<noteq> 0" using tabs_okD(3) [OF fd_invD(2) [OF inv]] F by (auto intro: ccontr)
  obtain s1 where c: "fs_fildes_close t third st = Some (if fd_names st t third = 0 then - EBADF else 0, s1)" "fd_inv B X s1" "froom 1 s1"
    "if fd_names st t third = 0 then s1 = st else ftabs s1 = ftabs (slot_upd t (nat third) 0 st)"
    "\<forall>g. 0 < X g \<longrightarrow> g \<in> dom (ofiles st) \<longrightarrow> g \<in> dom (ofiles s1)"
    using close_ok [OF inv T x(1) r, of third] r by (auto split: if_splits)
  show ?thesis
  proof (cases "third < int (length (fd T))")
    case True
    let ?i = "nat third"
    have i: "?i < length (fd T)" using True s by simp
    have t1: "ftabs s1 = (ftabs st)(t \<mapsto> T\<lparr>fd := (fd T)[?i := 0]\<rparr>)"
      by (rule close_tab [OF _ T i]) (use c(4) s(1) in simp)
    then have T1: "ftabs s1 t = Some (T\<lparr>fd := (fd T)[?i := 0]\<rparr>)" by simp
    have "f \<in> dom (ofiles s1)" using c(5) x(2) F by auto
    then obtain F1 where F1: "ofiles s1 f = Some F1" by auto
    note p = place_ref [OF c(2) T1 _ _ F1 c(3), of ?i]
    have nx: "fs_fildes_curproc_next t f third s1 = Some (third, slot_upd t ?i f s1)"
      using i True s(1) z by (simp add: fs_fildes_curproc_next_def T1 upt_conv_Cons set_slot_upd)
    have "ftabs (addref f 1 (slot_upd t ?i f s1)) = ftabs (slot_upd t ?i f st)" using t1 T by (simp add: slot_upd_def)
    moreover have "dup2fd t f n third st = Some (third, None, addref f 1 (slot_upd t ?i f s1))"
      using c(1) nx p(1) i s z by (simp add: dup2fd_def)
    ultimately show ?thesis using True p(2) i by auto
  next
    case False
    then have "fd_names st t third = 0" using T by (simp add: fd_names_def fs_fildes_is_in_range_def)
    then have "s1 = st" using c(4) by simp
    moreover have "fs_fildes_curproc_next t f third st = Some (- EMFILE, st)"
      by (rule curproc_next_cases [OF T z s(1)]) (use False s(1) in auto)
    ultimately show ?thesis using c(1) s False by (simp add: dup2fd_def)
  qed
qed


section \<open>System calls keep the counts\<close>

lemma fd_names_tabs: "ftabs s = ftabs s' \<Longrightarrow> fd_names s t n = fd_names s' t n"
  by (simp add: fd_names_def)

lemma fd_names_slot:
  assumes "i < length (fd T)" "ftabs st t = Some T" "0 \<le> n"
  shows "fd_names (slot_upd t i x st) t n = (if nat n = i then x else fd_names st t n)"
  using assms by (auto simp: fd_names_def slot_upd_def fs_fildes_is_in_range_def)

lemma inv_file_keep:
  assumes inv: "fd_inv B X st" and F: "ofiles st f = Some F" and F': "f_vnode F' = f_vnode F" "bit (oflags F') 16" "f_obj F' = f_obj F"
  shows "fd_inv B X (st\<lparr>ofiles := (ofiles st)(f \<mapsto> F')\<rparr>)"
proof -
  have "fd_inv B (X(f := X f + 0)) (st\<lparr>ofiles := (ofiles st)(f \<mapsto> F')\<rparr>)"
    by (rule inv_file_upd [OF inv F]) (use F' fd_invD(3) [OF inv F] in \<open>auto simp: file_ok_def\<close>)
  then show ?thesis by simp
qed

text \<open>The frame of a system call on a descriptor: a reference is taken, the body runs, the reference is dropped.\<close>

lemma drop_held:
  assumes inv: "fd_inv B (X(f := X f + 1)) st" and f: "fd_names st t n = f" "f \<noteq> 0" and x: "0 \<le> X f"
  shows "fs_fildes_ref t n (- 1) st = Some (f, addref f (- 1) st)" "fd_inv B X (addref f (- 1) st)"
proof -
  have "1 \<le> nslots st f" using fd_namesE [OF inv f] by metis
  then have r: "1 < nslots st f + (X(f := X f + 1)) f" using x by simp
  show "fs_fildes_ref t n (- 1) st = Some (f, addref f (- 1) st)" by (rule ref_minus(1) [OF inv f r])
  have e: "(X(f := X f + 1))(f := (X(f := X f + 1)) f - 1) = X" by auto
  show "fd_inv B X (addref f (- 1) st)" using ref_minus(2) [OF inv f r] unfolding e .
qed

lemma readwrite_ok:
  assumes inv: "fd_inv B X st" and T: "ftabs st t = Some T" and x: "\<forall>g. 0 \<le> X g" and r: "froom 1 st"
  shows "\<exists>c e st'. sys_readwrite rw w t n st = Some (c, e, st') \<and> fd_inv B X st' \<and> ftabs st' = ftabs st \<and> (fd_names st t n = 0 \<longrightarrow> e = Some EBADF)"
proof (cases "fd_names st t n = 0")
  case True
  then show ?thesis using ref_none [OF T True] inv by (simp add: sys_readwrite_def)
next
  case False
  define f where "f = fd_names st t n"
  obtain F where F: "ofiles st f = Some F" using fd_namesE [OF inv f_def [symmetric]] False by (metis f_def)
  note p = ref_plus [OF inv f_def [symmetric] False [folded f_def] froomD [OF inv r F]]
  obtain F1 where F1: "ofiles (addref f 1 st) f = Some F1" using F by (simp add: addref_def)
  have b: "bit (oflags F1) 16" using fd_invD(3) [OF p(2) F1] by (simp add: file_ok_def)
  obtain ct pos where rw: "rw F1 = (ct, pos)" by (cases "rw F1")
  define bad where "bad \<longleftrightarrow> oflags F1 AND (if w then O_WRONLY else O_RDONLY) = 0 \<or> f_vnode F1 = 0"
  define s2 where "s2 = (if bad then addref f 1 st else (addref f 1 st)\<lparr>ofiles := (ofiles (addref f 1 st))(f \<mapsto> F1\<lparr>seek_pos := pos\<rparr>)\<rparr>)"
  have s2: "fd_inv B (X(f := X f + 1)) s2" "ftabs s2 = ftabs st" unfolding s2_def
    using p(2) inv_file_keep [OF p(2) F1, of "F1\<lparr>seek_pos := pos\<rparr>"] b by simp_all
  have nm: "fd_names s2 t n = f" using fd_names_tabs [OF s2(2)] by (simp add: f_def)
  note d = drop_held [OF s2(1) nm False [folded f_def]]
  have "\<exists>c e. sys_readwrite rw w t n st = Some (c, e, addref f (- 1) s2)"
  proof (cases bad)
    case True
    then have "s2 = addref f 1 st" by (simp add: s2_def)
    then show ?thesis using p(1) F1 d(1) x False True by (simp add: sys_readwrite_def f_def [symmetric] bad_def [symmetric])
  next
    case ok: False
    then have "(addref f 1 st)\<lparr>ofiles := (ofiles (addref f 1 st))(f \<mapsto> F1\<lparr>seek_pos := pos\<rparr>)\<rparr> = s2" by (simp add: s2_def)
    then show ?thesis using p(1) F1 d(1) x False ok by (simp add: sys_readwrite_def f_def [symmetric] bad_def [symmetric] rw Let_def)
  qed
  then show ?thesis using d(2) x s2(2) False by auto
qed

lemma lseek_ok:
  assumes inv: "fd_inv B X st" and T: "ftabs st t = Some T" and x: "\<forall>g. 0 \<le> X g" and r: "froom 1 st"
    and k: "\<And>F V. ofiles st (fd_names st t n) = Some F \<Longrightarrow> vnodes st (f_vnode F) = Some V \<Longrightarrow> \<not> S_ISFIFO (vn_mode V) \<and> \<not> S_ISSOCK (vn_mode V)"
  shows "\<exists>c e p st'. sys_lseek lsk t n st = Some (c, e, p, st') \<and> fd_inv B X st' \<and> ftabs st' = ftabs st \<and> (fd_names st t n = 0 \<longrightarrow> e = Some EBADF)"
proof (cases "fd_names st t n = 0")
  case True
  then show ?thesis using ref_none [OF T True] inv by (simp add: sys_lseek_def)
next
  case False
  define f where "f = fd_names st t n"
  obtain F where F: "ofiles st f = Some F" using fd_namesE [OF inv f_def [symmetric]] False by (metis f_def)
  note p = ref_plus [OF inv f_def [symmetric] False [folded f_def] froomD [OF inv r F]]
  obtain F1 where F1: "ofiles (addref f 1 st) f = Some F1" "f_vnode F1 = f_vnode F" using F by (simp add: addref_def)
  have b: "bit (oflags F1) 16" using fd_invD(3) [OF p(2) F1(1)] by (simp add: file_ok_def)
  obtain V where V: "vnodes st (f_vnode F) = Some V" using fd_invD(3) [OF inv F] by (auto simp: file_ok_def)
  have nf: "\<not> S_ISFIFO (vn_mode V)" "\<not> S_ISSOCK (vn_mode V)" using k F V by (auto simp: f_def)
  obtain off pos where lsk: "lsk F1 = (off, pos)" by (cases "lsk F1")
  define s2 where "s2 = (addref f 1 st)\<lparr>ofiles := (ofiles (addref f 1 st))(f \<mapsto> F1\<lparr>seek_pos := pos\<rparr>)\<rparr>"
  have s2: "fd_inv B (X(f := X f + 1)) s2" "ftabs s2 = ftabs st" unfolding s2_def
    using inv_file_keep [OF p(2) F1(1), of "F1\<lparr>seek_pos := pos\<rparr>"] b by simp_all
  have nm: "fd_names s2 t n = f" using fd_names_tabs [OF s2(2)] by (simp add: f_def)
  have o: "ofiles s2 f = Some (F1\<lparr>seek_pos := pos\<rparr>)" by (simp add: s2_def)
  note d = drop_held [OF s2(1) nm False [folded f_def]]
  have "sys_lseek lsk t n st = Some (if off < 0 then - 1 else 0, if off < 0 then Some (- off) else None, pos, addref f (- 1) s2)"
    using p(1) F1 V nf o d(1) x False by (simp add: sys_lseek_def f_def [symmetric] s2_def [symmetric] Let_def lsk)
  then show ?thesis using d(2) x s2(2) False by auto
qed


lemma froom_keep: "ofiles st f = Some F \<Longrightarrow> f_obj F' = f_obj F \<Longrightarrow> froom k st \<Longrightarrow> froom k (st\<lparr>ofiles := (ofiles st)(f \<mapsto> F')\<rparr>)"
  by (auto simp: froom_def)

lemma upd_oflags_ok:
  assumes inv: "fd_inv B X st" and F: "ofiles st f = Some F" and g: "bit (oflags F) 16 \<Longrightarrow> bit (g (oflags F)) 16"
  shows "\<exists>st'. upd_oflags f g st = Some st' \<and> fd_inv B X st' \<and> ftabs st' = ftabs st \<and> (\<forall>k. froom k st \<longrightarrow> froom k st') \<and> f \<in> dom (ofiles st')"
  using inv_file_keep [OF inv F, of "F\<lparr>oflags := g (oflags F)\<rparr>"] F g fd_invD(3) [OF inv F]
    froom_keep [OF F, of "F\<lparr>oflags := g (oflags F)\<rparr>"] by (simp add: upd_oflags_def file_ok_def)

definition is_dup :: "fcntl_cmd \<Rightarrow> bool" where
  "is_dup cmd \<longleftrightarrow> cmd = F_DUPFD \<or> cmd = F_DUP2FD \<or> cmd = F_DUPFD_CLOEXEC"

text \<open>The body of \<open>fcntl\<close>, with a reference of the file held.\<close>

lemma dupfd_ok:
  assumes inv: "fd_inv B X st" and T: "ftabs st t = Some T" and F: "f \<in> dom (ofiles st)" and r: "froom 1 st" and s: "0 \<le> start" and f: "fd_names st t n = f" "f \<noteq> 0"
  shows "\<exists>c e st'. dupfd t f start st = Some (c, e, st') \<and> fd_inv B X st' \<and> fd_names st' t n = f \<and> t \<in> dom (ftabs st')"
proof -
  obtain F where F: "ofiles st f = Some F" using F by auto
  have n: "0 \<le> n" using f T by (auto simp: fd_names_def fs_fildes_is_in_range_def split: if_splits)
  have sl: "fd T ! nat n = f" using f T by (auto simp: fd_names_def split: if_splits)
  show ?thesis
  proof (rule dupfd_cases [OF inv T F r s])
    fix i assume i: "i < length (fd T)" "fd T ! i = 0" "dupfd t f start st = Some (int i, None, addref f 1 (slot_upd t i f st))"
      "fd_inv B X (addref f 1 (slot_upd t i f st))"
    have "fd_names (addref f 1 (slot_upd t i f st)) t n = f"
      using fd_names_slot [OF i(1) T n, of f] i(2) sl f fd_names_tabs [of "addref f 1 (slot_upd t i f st)" "slot_upd t i f st"] by auto
    then show ?thesis using i(3,4) T by (auto simp: slot_upd_def)
  qed (use inv f T in auto)
qed

lemma fcntl_ok:
  assumes inv: "fd_inv B X st" and T: "ftabs st t = Some T" and x: "\<forall>g. 0 \<le> X g" and r: "froom 2 st" and th: "is_dup cmd \<Longrightarrow> 0 \<le> third"
  shows "\<exists>c e st'. sys_fcntl t n cmd third st = Some (c, e, st') \<and> fd_inv B X st'"
proof (cases "fd_names st t n = 0")
  case True
  then show ?thesis using ref_none [OF T True] inv by (simp add: sys_fcntl_def)
next
  case False
  define f where "f = fd_names st t n"
  define s1 where "s1 = addref f 1 st"
  have f0: "f \<noteq> 0" using False by (simp add: f_def)
  obtain F where F: "ofiles st f = Some F" using fd_namesE [OF inv f_def [symmetric] f0] by metis
  have "froom 1 st" using r by (rule froom_mono) simp
  note p = ref_plus [OF inv f_def [symmetric] f0 froomD [OF inv this F], folded s1_def]
  obtain F1 where F1: "ofiles s1 f = Some F1" using F by (simp add: addref_def s1_def)
  have d1: "f \<in> dom (ofiles s1)" using F1 by auto
  have T1: "ftabs s1 = ftabs st" by (simp add: s1_def)
  have nm: "fd_names s1 t n = f" using fd_names_tabs [OF T1] by (simp add: f_def)
  have r1: "froom 1 s1" unfolding s1_def by (rule froom_addref(1)) (use r in simp_all)
  let ?X = "X(f := X f + 1)"
  have xx: "\<forall>g. 0 \<le> ?X g" "0 < ?X f" using x by (auto simp: le_less_trans add_strict_increasing)
  define body where "body = (case cmd of
           F_DUPFD_CLOEXEC \<Rightarrow> do { st \<leftarrow> upd_oflags f (\<lambda>x. x OR (O_CLOEXEC AND O_USERMASK)) s1; dupfd t f third st }
         | F_DUPFD \<Rightarrow> dupfd t f third s1
         | F_DUP2FD \<Rightarrow> dup2fd t f n third s1
         | F_GETFD \<Rightarrow> Some (uint (oflags F1 AND O_CLOEXEC), None, s1)
         | F_SETFD \<Rightarrow> do { st \<leftarrow> upd_oflags f (\<lambda>x. (x AND NOT O_CLOEXEC) OR (word_of_int third AND O_CLOEXEC)) s1; Some (- 1, None, st) }
         | F_GETFL \<Rightarrow> Some (uint (oflags F1 AND O_USERMASK), None, s1)
         | F_SETFL \<Rightarrow> do {
             let m = O_APPEND OR O_SYNC OR O_NONBLOCK;
             st \<leftarrow> upd_oflags f (\<lambda>x. (x AND NOT m) OR (word_of_int third AND m)) s1;
             Some (0, None, st) }
         | F_OTHER \<Rightarrow> Some (- 1, Some EINVAL, s1))"
  have e: "sys_fcntl t n cmd third st = do { (r, e, st) \<leftarrow> body; (_, st) \<leftarrow> fs_fildes_ref t n (- 1) st; Some (r, e, st) }"
    using p(1) f0 F1 by (simp add: sys_fcntl_def f_def [symmetric] body_def)
  have "\<exists>c e s2. body = Some (c, e, s2) \<and> fd_inv B ?X s2 \<and> fd_names s2 t n = f"
  proof (cases cmd)
    case F_DUPFD
    then show ?thesis using dupfd_ok [OF p(2) _ d1 r1 _ nm f0, of T third] T T1 th by (auto simp: body_def is_dup_def)
  next
    case F_DUP2FD
    show ?thesis
    proof (cases "third = n")
      case True
      then show ?thesis using F_DUP2FD p(2) nm by (simp add: body_def dup2fd_def)
    next
      case False
      have n: "0 \<le> n" using nm f0 T T1 by (auto simp: fd_names_def fs_fildes_is_in_range_def split: if_splits)
      have th0: "0 \<le> third" using th F_DUP2FD by (simp add: is_dup_def)
      have T1': "ftabs s1 t = Some T" using T T1 by simp
      note k = dup2fd_ok [OF p(2) T1' F1 r1 xx th0 False]
      show ?thesis
      proof (cases "third < int (length (fd T))")
        case True
        then obtain s2 where s2: "dup2fd t f n third s1 = Some (third, None, s2)" "fd_inv B ?X s2" "ftabs s2 = ftabs (slot_upd t (nat third) f s1)"
          using k by auto
        have "nat third < length (fd T)" using True th0 by simp
        from fd_names_slot [OF this T1' n, of f] have "fd_names s2 t n = f" using nm False n th0 fd_names_tabs [OF s2(3)] by simp
        then show ?thesis using s2(1,2) F_DUP2FD by (simp add: body_def)
      next
        case False
        then show ?thesis using k p(2) nm F_DUP2FD by (simp add: body_def)
      qed
    qed
  next
    case F_DUPFD_CLOEXEC
    obtain s2 where s2: "upd_oflags f (\<lambda>x. x OR (O_CLOEXEC AND O_USERMASK)) s1 = Some s2" "fd_inv B ?X s2" "ftabs s2 = ftabs s1" "froom 1 s2" "f \<in> dom (ofiles s2)"
      using upd_oflags_ok [OF p(2) F1, of "\<lambda>x. x OR (O_CLOEXEC AND O_USERMASK)"] r1 by (auto simp: bit_simps)
    have "fd_names s2 t n = f" using nm fd_names_tabs [OF s2(3)] by simp
    from dupfd_ok [OF s2(2) _ s2(5,4) _ this f0, of T third] T T1 s2(3) th F_DUPFD_CLOEXEC show ?thesis
      using s2(1) by (auto simp: body_def is_dup_def)
  next
    case F_SETFD
    let ?g = "\<lambda>x. (x AND NOT O_CLOEXEC) OR (word_of_int third AND O_CLOEXEC)"
    obtain s2 where s2: "upd_oflags f ?g s1 = Some s2" "fd_inv B ?X s2" "ftabs s2 = ftabs s1"
      using upd_oflags_ok [OF p(2) F1, of ?g] by (auto simp: bit_simps)
    then have "body = Some (- 1, None, s2)" using F_SETFD by (simp add: body_def)
    then show ?thesis using s2(2) nm fd_names_tabs [OF s2(3)] by auto
  next
    case F_SETFL
    let ?m = "O_APPEND OR O_SYNC OR O_NONBLOCK"
    have "bit ((x AND NOT ?m) OR (word_of_int third AND ?m)) 16" if "bit x 16" for x :: u32 using that by (simp add: bit_simps)
    then obtain s2 where s2: "upd_oflags f (\<lambda>x. (x AND NOT ?m) OR (word_of_int third AND ?m)) s1 = Some s2" "fd_inv B ?X s2" "ftabs s2 = ftabs s1"
      using upd_oflags_ok [OF p(2) F1, of "\<lambda>x. (x AND NOT ?m) OR (word_of_int third AND ?m)"] by blast
    then have "body = Some (0, None, s2)" using F_SETFL by (simp add: body_def Let_def)
    then show ?thesis using s2(2) nm fd_names_tabs [OF s2(3)] by auto
  qed (use p(2) nm in \<open>auto simp: body_def\<close>)
  then obtain c e s2 where s2: "body = Some (c, e, s2)" "fd_inv B ?X s2" "fd_names s2 t n = f" by blast
  note d = drop_held [OF s2(2,3) f0]
  then show ?thesis using e s2(1) x by auto
qed


section \<open>Opening\<close>

lemma nslots_absent:
  assumes "tabs_ok st" "ofiles st f = None" "f \<noteq> 0"
  shows "nslots st f = 0"
proof -
  have "count_list (fd (the (ftabs st t))) f = 0" if "t \<in> dom (ftabs st)" for t
    using that assms tabs_okD(7) [OF assms(1), of t _ f] by (auto simp: count_list_0_iff)
  then show ?thesis by (simp add: nslots_def)
qed

lemma size_ok_file: "size_ok SIZEOF_FILE"
  by (simp add: size_ok_def room_ok_def memalign_def)

text \<open>A new file takes over one reference of its vnode and starts with one reference of its own.\<close>

lemma inv_new_file:
  assumes inv: "fd_inv B X st" and a: "kzalloc SIZEOF_FILE (fheap st) = Some (f, h)" "f \<noteq> 0"
    and F: "f_vnode F = v" "bit (oflags F) 16" "f_obj F = kobj_init" and v: "v \<noteq> 0" "vnodes st v = Some V" "1 \<le> B v"
  shows "fd_inv (B(v := B v - 1)) (X(f := 1)) (st\<lparr>fheap := h, ofiles := (ofiles st)(f \<mapsto> F)\<rparr>)" "ofiles st f = None" "ftabs st f = None"
proof -
  note tabs = fd_invD(2) [OF inv]
  obtain b where b: "kinv (fheap st) b" "kz.owns b (fowned st)" using fd_invD(1) [OF inv] by (auto simp: fheap_ok_def)
  have o: "fowned st f = None" "\<exists>b'. kinv h b' \<and> kz.owns b' ((fowned st)(f \<mapsto> SIZEOF_FILE))"
    using kz.owns_alloc [OF b size_ok_file a] by auto
  then show new: "ofiles st f = None" "ftabs st f = None" by (auto simp: fowned_def split: option.splits)
  let ?s = "st\<lparr>ofiles := (ofiles st)(f \<mapsto> F)\<rparr>"
  have "fowned ?s = (fowned st)(f \<mapsto> SIZEOF_FILE)" by (auto simp: fowned_def fun_eq_iff split: option.split)
  then have 1: "fheap_ok h (fowned ?s)" using o(2) by (auto simp: fheap_ok_def)
  have 2: "tabs_ok (?s\<lparr>fheap := h\<rparr>)" using tabs new a(2) unfolding tabs_ok_def by (auto simp: domIff)
  have 3: "file_ok ?s (nslots ?s g + (X(f := 1)) g) G" if g: "ofiles ?s g = Some G" for g G
  proof (cases "g = f")
    case True
    then show ?thesis using g nslots_absent [OF tabs new(1) a(2)] F v by (auto simp: file_ok_def kobj_init_def dying_def)
  next
    case False
    then show ?thesis using g fd_invD(3) [OF inv, of g G] by simp
  qed
  have 4: "vnode_ok (B(v := B v - 1)) ?s w W" if "vnodes ?s w = Some W" for w W
  proof -
    have "nfiles ?s w = nfiles st w + (if v = w then 1 else 0)" using nfiles_new [OF tabs new(1), of F w] F(1) by simp
    then show ?thesis using fd_invD(4) [OF inv, of w W] that v(3) by (auto simp: vnode_ok_def)
  qed
  have "fd_inv (B(v := B v - 1)) (X(f := 1)) (?s\<lparr>fheap := h\<rparr>)" unfolding fd_inv_def using 1 2 3 4 by simp
  moreover have "?s\<lparr>fheap := h\<rparr> = st\<lparr>fheap := h, ofiles := (ofiles st)(f \<mapsto> F)\<rparr>" by (cases st) simp
  ultimately show "fd_inv (B(v := B v - 1)) (X(f := 1)) (st\<lparr>fheap := h, ofiles := (ofiles st)(f \<mapsto> F)\<rparr>)" by simp
qed

lemma inv_heap:
  assumes "fd_inv B X st" "fheap_ok h (fowned st)"
  shows "fd_inv B X (st\<lparr>fheap := h\<rparr>)"
  using assms by (simp add: fd_inv_def tabs_ok_def)

text \<open>A block for a file, and back again.\<close>

lemma file_block:
  assumes inv: "fd_inv B X st" and a: "kzalloc SIZEOF_FILE (fheap st) = Some (f, h)"
  shows "f = 0 \<Longrightarrow> h = fheap st" "f \<noteq> 0 \<Longrightarrow> ofiles st f = None \<and> (\<exists>h'. kfree f h = Some h' \<and> fheap_ok h' (fowned st))"
proof -
  obtain b where b: "kinv (fheap st) b" "kz.owns b (fowned st)" using fd_invD(1) [OF inv] by (auto simp: fheap_ok_def)
  show "h = fheap st" if "f = 0" using kz.alloc_null [OF b(1) size_ok_file] a that by blast
  show "ofiles st f = None \<and> (\<exists>h'. kfree f h = Some h' \<and> fheap_ok h' (fowned st))" if f: "f \<noteq> 0"
  proof -
    obtain b' where o: "fowned st f = None" "kinv h b'" "kz.owns b' ((fowned st)(f \<mapsto> SIZEOF_FILE))"
      using kz.owns_alloc [OF b size_ok_file a f] by auto
    obtain h' b2 where k: "kfree f h = Some h'" "kinv h' b2" "kz.owns b2 (((fowned st)(f \<mapsto> SIZEOF_FILE))(f := None))"
      using kz.owns_release [OF o(2,3)] by (metis fun_upd_same)
    have "((fowned st)(f \<mapsto> SIZEOF_FILE))(f := None) = fowned st" using o(1) by auto
    then show ?thesis using k o(1) by (auto simp: fheap_ok_def fowned_def split: option.splits)
  qed
qed

definition opened :: "nat \<Rightarrow> u32 \<Rightarrow> open_ops \<Rightarrow> bool \<Rightarrow> file_t" where
  "opened v ofl ops is_dir = \<lparr>seek_pos = (if is_dir then DIRENT_SEEK_START else 0),
     oflags = ofl OR O_KFREEABLE OR (if \<not> op_noexec ops \<and> \<not> is_dir \<and> st_flags (snd (op_stat ops)) AND UF_SYSTEM \<noteq> 0 then O_EXEC_ALTPCAP else 0),
     f_vnode = v, f_obj = kobj_init\<rparr>"

lemma new_fildes_ok:
  assumes inv: "fd_inv B X st" and T: "ftabs st t = Some T" and v: "v \<noteq> 0" "vnodes st v = Some V" "1 \<le> B v" and n: "new_fildes t v ofl ops d st = Some (r, st')"
  shows "if r < 0 then (\<exists>h. st' = st\<lparr>fheap := h\<rparr>) \<and> fd_inv B X st' \<and>
      (r = - ENOMEM \<or> r = - EMFILE \<and> fd T = [] \<or> r = - ENFILE \<and> fd T \<noteq> [] \<and> 0 \<notin> set (fd T))
    else \<exists>f h. f \<noteq> 0 \<and> ofiles st f = None \<and> nat r < length (fd T) \<and> fd T ! nat r = 0 \<and> (\<forall>j < nat r. fd T ! j \<noteq> 0) \<and>
      st' = slot_upd t (nat r) f (st\<lparr>fheap := h, ofiles := (ofiles st)(f \<mapsto> opened v ofl ops d)\<rparr>) \<and>
      fd_inv (B(v := B v - 1)) (X(f := 0)) st'"
proof -
  obtain f h where a: "kzalloc SIZEOF_FILE (fheap st) = Some (f, h)" using n by (auto simp: new_fildes_def split: Option.bind_splits)
  note blk = file_block [OF inv a]
  show ?thesis
  proof (cases "f = 0")
    case True
    then have "r = - ENOMEM \<and> st' = st" using n a blk(1) by (cases st) (simp add: new_fildes_def)
    then show ?thesis using inv by (auto intro!: exI [of _ "fheap st"])
  next
    case False
    obtain h' where fr: "ofiles st f = None" "kfree f h = Some h'" "fheap_ok h' (fowned st)" using blk(2) False by blast
    define J where "J = \<lparr>seek_pos = (if d then DIRENT_SEEK_START else 0), oflags = 0 :: u32, f_vnode = 0 :: nat, f_obj = \<lparr>ko_flags = 0, ko_fast_lock = 0, ko_refcount = 0\<rparr>\<rparr>"
    define s where "s = st\<lparr>fheap := h, ofiles := (ofiles st)(f \<mapsto> J)\<rparr>"
    have Ts: "ftabs s t = Some T" using T by (simp add: s_def)
    have e: "new_fildes t v ofl ops d st = do { (n, st) \<leftarrow> fs_fildes_curproc_next t f 0 s;
               if n < 0 then do { h \<leftarrow> kfree f (fheap st); Some (n, st\<lparr>fheap := h, ofiles := (ofiles st)(f := None)\<rparr>) }
               else do { (_, st) \<leftarrow> fs_fildes_set f v ofl st; F \<leftarrow> ofiles st f;
                 let alt = (if \<not> op_noexec ops \<and> \<not> d \<and> st_flags (snd (op_stat ops)) AND UF_SYSTEM \<noteq> 0 then O_EXEC_ALTPCAP else 0);
                 Some (n, st\<lparr>ofiles := (ofiles st)(f \<mapsto> F\<lparr>oflags := oflags F OR O_KFREEABLE OR alt\<rparr>)\<rparr>) } }"
      using a False by (simp add: new_fildes_def Let_def J_def s_def)
    have bk: "s\<lparr>fheap := h', ofiles := (ofiles s)(f := None)\<rparr> = st\<lparr>fheap := h'\<rparr>"
      using fr(1) by (cases st) (auto simp: s_def fun_upd_idem)
    have err: "?thesis" if "fs_fildes_curproc_next t f 0 s = Some (m, s)" "m < 0"
      "m = - EMFILE \<and> fd T = [] \<or> m = - ENFILE \<and> fd T \<noteq> [] \<and> 0 \<notin> set (fd T)" for m
    proof -
      have "r = m \<and> st' = st\<lparr>fheap := h'\<rparr>" using n that(1,2) e fr(2) bk by (simp add: s_def)
      then show ?thesis using that(2,3) inv_heap [OF inv fr(3)] by auto
    qed
    show ?thesis
    proof (rule curproc_next_cases [OF Ts False order.refl [of "0 :: int"]])
      assume "int (length (fd T)) \<le> 0" "fs_fildes_curproc_next t f 0 s = Some (- EMFILE, s)"
      then show ?thesis using err [of "- EMFILE"] by simp
    next
      assume "0 < int (length (fd T))" "\<forall>j \<in> {nat 0 ..< length (fd T)}. fd T ! j \<noteq> 0" "fs_fildes_curproc_next t f 0 s = Some (- ENFILE, s)"
      then show ?thesis using err [of "- ENFILE"] by (auto simp: in_set_conv_nth)
    next
      fix i assume i: "i < length (fd T)" "fd T ! i = 0" "\<forall>j \<in> {nat 0 ..< i}. fd T ! j \<noteq> 0"
        "fs_fildes_curproc_next t f 0 s = Some (int i, slot_upd t i f s)"
      let ?F = "opened v ofl ops d"
      let ?s = "st\<lparr>fheap := h, ofiles := (ofiles st)(f \<mapsto> ?F)\<rparr>"
      have st': "r = int i \<and> st' = slot_upd t i f ?s" using n e i(4) v(1) False
        by (cases st) (auto simp: fs_fildes_set_def s_def J_def opened_def slot_upd_def Let_def)
      have "bit (oflags ?F) 16" by (simp add: opened_def bit_simps)
      then have i1: "fd_inv (B(v := B v - 1)) (X(f := 1)) ?s"
        using inv_new_file(1) [OF inv a False _ _ _ v, of ?F] by (simp add: opened_def)
      have "fd_inv (B(v := B v - 1)) (X(f := 0)) (slot_upd t i f ?s)"
        by (rule fd_inv_cong [OF inv_slot_upd [OF i1, of t T i f]])
          (use T i False tabs_okD(3) [OF fd_invD(2) [OF inv]] in \<open>auto simp: domIff intro: ccontr\<close>)
      then show ?thesis using st' i(1-3) False fr(1) by auto
    qed
  qed
qed


text \<open>What the checks before answer: the error, or 0.\<close>

definition open_check :: "bool \<Rightarrow> cred \<Rightarrow> u32 \<Rightarrow> open_ops \<Rightarrow> fvnode \<Rightarrow> int option" where
  "open_check suser c ofl ops V = do {
     adm \<leftarrow> priv_check suser c PRIV_VFS_ADMIN;
     perm \<leftarrow> (if adm = 0 then Some 0 else chkperm_vnode suser c (op_stat ops) c ofl);
     Some (if perm \<noteq> 0 then perm else if ofl AND O_DIRECTORY \<noteq> 0 \<and> \<not> S_ISDIR (vn_mode V) then - ENOTDIR
       else if fst (op_stat ops) \<noteq> 0 then fst (op_stat ops) else if op_opened ops < 0 then op_opened ops else 0) }"

lemma create_split:
  assumes v: "v \<noteq> 0" "vnodes st v = Some V" "0 \<le> vn_refcount V" "vn_refcount V + 1 < 2 ^ 31"
  shows "fs_fildes_create_curproc suser c t v ofl ops st = do {
     let st = st\<lparr>vnodes := (vnodes st)(v \<mapsto> V\<lparr>vn_refcount := vn_refcount V + 1\<rparr>)\<rparr>;
     k \<leftarrow> open_check suser c ofl ops V;
     (r, st) \<leftarrow> (if k \<noteq> 0 then Some (k, st) else new_fildes t v ofl ops (S_ISDIR (vn_mode V)) st);
     if r < 0 then do { st \<leftarrow> vrele v st; Some (r, st) } else Some (r, st) }"
proof -
  have "s32 (vn_refcount V + 1) = vn_refcount V + 1" using v by (intro s32_id) auto
  then show ?thesis using v by (auto simp: fs_fildes_create_curproc_def vref_def open_check_def Let_def split: Option.bind_split)
qed

lemma chkperm_nonpos: "chkperm suser cc fs c ofl = Some k \<Longrightarrow> k = 0 \<or> k = - EPERM"
  by (auto simp: chkperm_def Let_def split: Option.bind_splits if_splits)

lemma open_check_nonpos: "open_check suser c ofl ops V = Some k \<Longrightarrow> fst (op_stat ops) \<le> 0 \<Longrightarrow> k \<le> 0"
  by (auto simp: open_check_def chkperm_vnode_def dest: chkperm_nonpos split: Option.bind_splits if_splits)

lemma create_ok:
  assumes inv: "fd_inv B X st" and T: "ftabs st t = Some T" and v: "v \<noteq> 0" "vnodes st v = Some V" "vn_refcount V + 1 < 2 ^ 31"
    and o: "fst (op_stat ops) \<le> 0" and c: "fs_fildes_create_curproc suser c t v ofl ops st = Some (r, st')"
  shows "if r < 0 then fd_inv B X st' \<and> ofiles st' = ofiles st \<and> ftabs st' = ftabs st \<and> vnodes st' = vnodes st \<and>
      deleted st' = deleted st @ (if vn_refcount V = 0 then [v] else []) \<and>
      (open_check suser c ofl ops V = Some r \<or> open_check suser c ofl ops V = Some 0 \<and>
        (r = - ENOMEM \<or> r = - EMFILE \<and> fd T = [] \<or> r = - ENFILE \<and> fd T \<noteq> [] \<and> 0 \<notin> set (fd T)))
    else open_check suser c ofl ops V = Some 0 \<and> (\<exists>f h. f \<noteq> 0 \<and> ofiles st f = None \<and> nat r < length (fd T) \<and> fd T ! nat r = 0 \<and>
      (\<forall>j < nat r. fd T ! j \<noteq> 0) \<and>
      st' = slot_upd t (nat r) f (st\<lparr>vnodes := (vnodes st)(v \<mapsto> V\<lparr>vn_refcount := vn_refcount V + 1\<rparr>), fheap := h,
        ofiles := (ofiles st)(f \<mapsto> opened v ofl ops (S_ISDIR (vn_mode V)))\<rparr>) \<and> fd_inv B (X(f := 0)) st')"
proof -
  note vok = fd_invD(4) [OF inv v(2)]
  have r0: "0 \<le> vn_refcount V" using vok by (simp add: vnode_ok_def nfiles_def)
  define s1 where "s1 = st\<lparr>vnodes := (vnodes st)(v \<mapsto> V\<lparr>vn_refcount := vn_refcount V + 1\<rparr>)\<rparr>"
  have cs: "do { k \<leftarrow> open_check suser c ofl ops V;
     (r, st) \<leftarrow> (if k \<noteq> 0 then Some (k, s1) else new_fildes t v ofl ops (S_ISDIR (vn_mode V)) s1);
     if r < 0 then do { st \<leftarrow> vrele v st; Some (r, st) } else Some (r, st) } = Some (r, st')"
    using c unfolding create_split [OF v(1,2) r0 v(3)] Let_def s1_def .
  have i1: "fd_inv (B(v := B v + 1)) X s1" unfolding s1_def using inv_vnode [OF inv v(2), of 1] vok v(3) by (simp add: vnode_ok_def)
  have V1: "vnodes s1 v = Some (V\<lparr>vn_refcount := vn_refcount V + 1\<rparr>)" by (simp add: s1_def)
  have T1: "ftabs s1 t = Some T" using T by (simp add: s1_def)
  have b1: "1 \<le> (B(v := B v + 1)) v" using vok by (simp add: vnode_ok_def)
  have bb: "(B(v := B v + 1))(v := (B(v := B v + 1)) v - 1) = B" by auto
  obtain k where k: "open_check suser c ofl ops V = Some k" "k \<le> 0"
    using cs open_check_nonpos [OF _ o, of suser c ofl V] by (cases "open_check suser c ofl ops V") auto
  obtain m s2 where m: "(if k \<noteq> 0 then Some (k, s1) else new_fildes t v ofl ops (S_ISDIR (vn_mode V)) s1) = Some (m, s2)"
    using cs k(1) by (cases "if k \<noteq> 0 then Some (k, s1) else new_fildes t v ofl ops (S_ISDIR (vn_mode V)) s1") auto
  have e: "(if m < 0 then do { st \<leftarrow> vrele v s2; Some (m, st) } else Some (m, s2)) = Some (r, st')"
    using cs k(1) m by simp
  then have mr: "m = r" by (auto split: Option.bind_splits if_splits)
  show ?thesis
  proof (cases "r < 0")
    case True
    have q: "(\<exists>h. s2 = s1\<lparr>fheap := h\<rparr>) \<and> fd_inv (B(v := B v + 1)) X s2 \<and>
      (k = r \<or> k = 0 \<and> (r = - ENOMEM \<or> r = - EMFILE \<and> fd T = [] \<or> r = - ENFILE \<and> fd T \<noteq> [] \<and> 0 \<notin> set (fd T)))"
    proof (cases "k = 0")
      case False
      then have "m = k" "s2 = s1" using m by simp_all
      then show ?thesis using i1 mr by (auto intro!: exI [of _ "fheap s1"])
    next
      case k0: True
      then have "new_fildes t v ofl ops (S_ISDIR (vn_mode V)) s1 = Some (m, s2)" using m by simp
      from new_fildes_ok [OF i1 T1 v(1) V1 b1 this] show ?thesis using True mr k0 by simp
    qed
    then have V2: "vnodes s2 v = Some (V\<lparr>vn_refcount := vn_refcount V + 1\<rparr>)" using V1 by auto
    have "0 < (B(v := B v + 1)) v" using b1 by simp
    from vrele_ok [OF q [THEN conjunct2, THEN conjunct1] V2 v(1) this] obtain s3 where s3: "vrele v s2 = Some s3" "fd_inv B X s3"
      "s3 = s2\<lparr>vnodes := (vnodes s2)(v \<mapsto> V), deleted := deleted s2 @ (if vn_refcount V = 0 then [v] else [])\<rparr>" unfolding bb by auto
    have "st' = s3" using e True mr s3(1) by simp
    then show ?thesis using True s3 q k(1) v(2) by (auto simp: s1_def fun_upd_idem)
  next
    case False
    then have k0: "k = 0" using m mr k(2) by (auto split: if_splits)
    then have nf: "new_fildes t v ofl ops (S_ISDIR (vn_mode V)) s1 = Some (r, s2)" using m mr by simp
    have "st' = s2" using e False mr by simp
    with new_fildes_ok [OF i1 T1 v(1) V1 b1 nf] False k0 k(1) show ?thesis unfolding bb by (auto simp: s1_def)
  qed
qed


section \<open>Fork and exit\<close>

lemma fork_run:
  assumes inv: "fd_inv B X st" and T: "ftabs st old = Some T" and n: "nofile = (if rlim_max < 0 then cfg else nat rlim_max)" "nofile \<le> 2 ^ 17" "length (fd T) \<le> nofile"
    and r: "froom (int (length (fd T))) st" and a: "fs_alloc_files nofile (of_nat nofile) st = Some (new, s1)"
  shows "\<exists>err st'. fork_files cfg rlim_max old st = Some (err, new, st') \<and> fd_inv B X st' \<and> (if new = 0 then err = - ENOMEM \<and> st' = st else err = 0 \<and> new \<noteq> old \<and> ftabs st new = None \<and>
    (\<exists>N. ftabs st' = (ftabs st)(new \<mapsto> N) \<and> fd N = fd T @ replicate (nofile - length (fd T)) 0) \<and>
    dom (ofiles st') = dom (ofiles st) \<and> vnodes st' = vnodes st \<and> deleted st' = deleted st)"
proof -
  note ok = alloc_files_ok [OF inv n(2) a]
  show ?thesis
  proof (cases "new = 0")
    case True
    then show ?thesis using ok a n(1) inv by (auto simp: fork_files_def Let_def)
  next
    case False
    define N0 where "N0 = \<lparr>umask = of_nat nofile :: u32, fd = replicate nofile (0 :: nat)\<rparr>"
    have s1: "fd_inv B X s1" "ofiles s1 = ofiles st" "ftabs st new = None" "ftabs s1 = (ftabs st)(new \<mapsto> N0)" "vnodes s1 = vnodes st" "deleted s1 = deleted st"
      using ok False by (auto simp: N0_def)
    have on: "old \<noteq> new" using T s1(3) by auto
    have t1: "ftabs s1 old = Some T" "ftabs s1 new = Some N0" using s1(4) T on by simp_all
    have sl: "\<forall>i \<in> set [0 ..< length (fd T)]. i < length (fd T) \<and> i < length (fd N0) \<and> fd N0 ! i = 0" using n(3) by (auto simp: N0_def)
    have rm: "froom (int (length [0 ..< length (fd T)])) s1" using r s1(2) by (simp add: froom_def)
    from copy_slots_ok [OF s1(1) on t1 distinct_upt rm sl] obtain s2 N where s2: "copy_slots old new [0 ..< length (fd T)] s1 = Some s2" "fd_inv B X s2"
      "ftabs s2 = (ftabs s1)(new \<mapsto> N)" "dom (ofiles s2) = dom (ofiles s1)" "vnodes s2 = vnodes s1" "deleted s2 = deleted s1" "length (fd N) = length (fd N0)"
      "\<forall>i < length (fd N0). fd N ! i = (if i \<in> set [0 ..< length (fd T)] then fd T ! i else fd N0 ! i)" by blast
    have "fd N = fd T @ replicate (nofile - length (fd T)) 0"
      by (rule nth_equalityI) (use s2(7,8) n(3) in \<open>auto simp: N0_def nth_append\<close>)
    moreover have "fork_files cfg rlim_max old st = Some (0, new, s2)" using a False t1(1) s2(1) n(1) by (simp add: fork_files_def Let_def)
    ultimately show ?thesis using s2 s1 False on by auto
  qed
qed

lemma fork_ok:
  assumes inv: "fd_inv B X st" and T: "ftabs st old = Some T" and n: "nofile = (if rlim_max < 0 then cfg else nat rlim_max)" "nofile \<le> 2 ^ 17" "length (fd T) \<le> nofile"
    and r: "froom (int (length (fd T))) st" and c: "fork_files cfg rlim_max old st = Some (err, new, st')"
  shows "fd_inv B X st' \<and> (if new = 0 then err = - ENOMEM \<and> st' = st else err = 0 \<and> new \<noteq> old \<and> ftabs st new = None \<and>
    (\<exists>N. ftabs st' = (ftabs st)(new \<mapsto> N) \<and> fd N = fd T @ replicate (nofile - length (fd T)) 0) \<and>
    dom (ofiles st') = dom (ofiles st) \<and> vnodes st' = vnodes st \<and> deleted st' = deleted st)"
proof -
  obtain s1 where a: "fs_alloc_files nofile (of_nat nofile) st = Some (new, s1)"
    using c unfolding n(1) by (auto simp: fork_files_def Let_def split: Option.bind_splits if_splits)
  show ?thesis using fork_run [OF inv T n r a] c by auto
qed

lemma exit_ok:
  assumes inv: "fd_inv B X st" and T: "ftabs st t = Some T" and x: "\<forall>g. 0 \<le> X g" and r: "froom 1 st"
  shows "\<exists>st'. free_files t st = Some st' \<and> fd_inv B (\<lambda>g. X g + (if g = fd_names st t 0 then 1 else 0)) st' \<and> ftabs st' = (ftabs st)(t := None) \<and>
    (fd_names st t 0 \<noteq> 0 \<longrightarrow> fd_names st t 0 \<in> dom (ofiles st'))"
proof -
  obtain s1 T1 where s1: "fs_fildes_close_all t 0 st = Some s1" "fd_inv B X s1" "ftabs s1 = (ftabs st)(t \<mapsto> T1)"
    "length (fd T1) = length (fd T)" "\<forall>i < length (fd T). fd T1 ! i = (if 0 < i then 0 else fd T ! i)"
  proof (cases "fd T")
    case Nil
    then show ?thesis using that [of st T] inv T by (auto simp: fun_upd_idem fs_fildes_close_all_def fs_fildes_is_in_range_def)
  next
    case (Cons a l)
    define ls where "ls = rev [Suc 0 ..< length (fd T)]"
    have ls: "\<forall>i \<in> set ls. i < length (fd T)" "i \<in> set ls \<longleftrightarrow> 0 < i \<and> i < length (fd T)" for i by (auto simp: ls_def)
    from close_list_ok [OF inv T x r ls(1)] obtain s1 T1 where c: "close_list t ls st = Some s1" "fd_inv B X s1"
      "ftabs s1 = (ftabs st)(t \<mapsto> T1)" "length (fd T1) = length (fd T)"
      "\<forall>i < length (fd T). fd T1 ! i = (if i \<in> set ls then 0 else fd T ! i)" by blast
    have "fs_fildes_close_all t 0 st = close_list t ls st"
      using T Cons unfolding ls_def by (simp add: fs_fildes_close_all_def fs_fildes_is_in_range_def)
    then show ?thesis using that [of s1 T1] c by (simp add: ls(2))
  qed
  have t1: "ftabs s1 t = Some T1" using s1(3) by simp
  have d0: "fd_names st t 0 \<in> dom (ofiles s1)" if "fd_names st t 0 \<noteq> 0"
  proof -
    have "fd T \<noteq> []" "fd_names st t 0 = fd T ! 0" using that T by (auto simp: fd_names_def fs_fildes_is_in_range_def split: if_splits)
    then have "fd_names st t 0 \<in> set (fd T1)" using s1(4,5) by (metis length_greater_0_conv less_irrefl nth_mem)
    then show ?thesis using tabs_okD(7) [OF fd_invD(2) [OF s1(2)] t1 _ that] by auto
  qed
  from inv_drop_table [OF s1(2) t1] obtain h where h: "kfree t (fheap s1) = Some h"
    "fd_inv B (\<lambda>g. X g + int (count_list (fd T1) g)) (s1\<lparr>fheap := h, ftabs := (ftabs s1)(t := None)\<rparr>)" by blast
  have z: "ofiles s1 0 = None" using tabs_okD(3) [OF fd_invD(2) [OF s1(2)]] .
  have cnt: "int (count_list (fd T1) g) = (if g = fd_names st t 0 then 1 else 0)" if "g \<noteq> 0" for g
  proof (cases "fd T")
    case Nil
    then show ?thesis using s1(4) T that by (simp add: fd_names_def fs_fildes_is_in_range_def)
  next
    case (Cons a l)
    have "fd T1 = a # replicate (length l) 0"
      by (rule nth_equalityI) (use s1(4,5) Cons in \<open>auto simp: nth_Cons split: nat.splits\<close>)
    moreover have "count_list (replicate (length l) 0) g = 0" using that by (simp add: count_list_0_iff)
    ultimately show ?thesis using T Cons by (auto simp: fd_names_def fs_fildes_is_in_range_def)
  qed
  have "fd_inv B (\<lambda>g. X g + (if g = fd_names st t 0 then 1 else 0)) (s1\<lparr>fheap := h, ftabs := (ftabs s1)(t := None)\<rparr>)"
  proof (rule fd_inv_cong [OF h(2)])
    fix g assume "g \<in> dom (ofiles (s1\<lparr>fheap := h, ftabs := (ftabs s1)(t := None)\<rparr>))"
    then have "g \<noteq> 0" using z by (auto intro: ccontr)
    then show "X g + (if g = fd_names st t 0 then 1 else 0) = X g + int (count_list (fd T1) g)" using cnt by simp
  qed
  then show ?thesis using s1(1,3) h(1) d0 by (auto simp: free_files_def)
qed

section \<open>Reachable states\<close>

text \<open>
  Any sequence of calls of any processes, between them other code taking and dropping references of
  vnodes. \<open>B v\<close> counts those references of others, \<open>L f\<close> the references a file lost to exits. The
  counters stay below their width, a table has at most \<open>2 ^ 17\<close> descriptors and a limit is not below
  the size of the table that is copied, \<open>stat\<close> answers 0 or a negative error, \<open>lseek\<close> is not for pipes and
  sockets, and \<open>fcntl\<close> gets no negative descriptor to duplicate to.
\<close>

definition seekable :: "nat \<Rightarrow> fstate \<Rightarrow> bool" where
  "seekable f st = (case ofiles st f of None \<Rightarrow> True | Some F \<Rightarrow>
     case vnodes st (f_vnode F) of None \<Rightarrow> True | Some V \<Rightarrow> \<not> S_ISFIFO (vn_mode V) \<and> \<not> S_ISSOCK (vn_mode V))"

inductive fd_reach :: "(nat \<Rightarrow> int) \<Rightarrow> (nat \<Rightarrow> int) \<Rightarrow> fstate \<Rightarrow> bool" where
  boot: "kinv h b \<Longrightarrow> (\<And>v V. w v = Some V \<Longrightarrow> 0 \<le> B v \<and> vn_refcount V = B v \<and> B v < 2 ^ 31) \<Longrightarrow>
    fd_reach B (\<lambda>_. 0) \<lparr>fheap = h, ofiles = Map.empty, vnodes = w, ftabs = Map.empty, deleted = []\<rparr>"
| take_ref: "fd_reach B L st \<Longrightarrow> vnodes st v = Some V \<Longrightarrow> vn_refcount V + 1 < 2 ^ 31 \<Longrightarrow> vref v st = Some (e, st') \<Longrightarrow> fd_reach (B(v := B v + 1)) L st'"
| drop_ref: "fd_reach B L st \<Longrightarrow> vnodes st v = Some V \<Longrightarrow> v \<noteq> 0 \<Longrightarrow> 0 < B v \<Longrightarrow> vrele v st = Some st' \<Longrightarrow> fd_reach (B(v := B v - 1)) L st'"
| table: "fd_reach B L st \<Longrightarrow> nr \<le> 2 ^ 17 \<Longrightarrow> fs_alloc_files nr um st = Some (t, st') \<Longrightarrow> fd_reach B L st'"
| creat: "fd_reach B L st \<Longrightarrow> ftabs st t = Some T \<Longrightarrow> v \<noteq> 0 \<Longrightarrow> vnodes st v = Some V \<Longrightarrow> vn_refcount V + 1 < 2 ^ 31 \<Longrightarrow> fst (op_stat ops) \<le> 0 \<Longrightarrow>
    fs_fildes_create_curproc suser c t v ofl ops st = Some (r, st') \<Longrightarrow> fd_reach B (if r < 0 then L else L(fd_names st' t r := 0)) st'"
| close: "fd_reach B L st \<Longrightarrow> ftabs st t = Some T \<Longrightarrow> froom 1 st \<Longrightarrow> sys_close t n st = Some (r, e, st') \<Longrightarrow> fd_reach B L st'"
| fcntl: "fd_reach B L st \<Longrightarrow> ftabs st t = Some T \<Longrightarrow> froom 2 st \<Longrightarrow> (is_dup cmd \<Longrightarrow> 0 \<le> third) \<Longrightarrow> sys_fcntl t n cmd third st = Some (r, e, st') \<Longrightarrow> fd_reach B L st'"
| rw: "fd_reach B L st \<Longrightarrow> ftabs st t = Some T \<Longrightarrow> froom 1 st \<Longrightarrow> sys_readwrite rw w t n st = Some (r, e, st') \<Longrightarrow> fd_reach B L st'"
| lseek: "fd_reach B L st \<Longrightarrow> ftabs st t = Some T \<Longrightarrow> froom 1 st \<Longrightarrow> seekable (fd_names st t n) st \<Longrightarrow> sys_lseek lsk t n st = Some (r, e, p, st') \<Longrightarrow> fd_reach B L st'"
| exec: "fd_reach B L st \<Longrightarrow> ftabs st t = Some T \<Longrightarrow> froom 1 st \<Longrightarrow> fs_fildes_close_exec t st = Some st' \<Longrightarrow> fd_reach B L st'"
| fork: "fd_reach B L st \<Longrightarrow> ftabs st t = Some T \<Longrightarrow> (if rlim_max < 0 then cfg else nat rlim_max) \<le> 2 ^ 17 \<Longrightarrow>
    length (fd T) \<le> (if rlim_max < 0 then cfg else nat rlim_max) \<Longrightarrow> froom (int (length (fd T))) st \<Longrightarrow>
    fork_files cfg rlim_max t st = Some (err, new, st') \<Longrightarrow> fd_reach B L st'"
| exit: "fd_reach B L st \<Longrightarrow> ftabs st t = Some T \<Longrightarrow> froom 1 st \<Longrightarrow> free_files t st = Some st' \<Longrightarrow>
    fd_reach B (\<lambda>g. L g + (if g = fd_names st t 0 then 1 else 0)) st'"

lemma fd_inv_boot:
  assumes "kinv h b" and "\<And>v V. w v = Some V \<Longrightarrow> 0 \<le> B v \<and> vn_refcount V = B v \<and> B v < 2 ^ 31"
  shows "fd_inv B (\<lambda>_. 0) \<lparr>fheap = h, ofiles = Map.empty, vnodes = w, ftabs = Map.empty, deleted = []\<rparr>"
  using assms by (auto simp: fd_inv_def tabs_ok_def fheap_ok_def kz.owns_def fowned_def vnode_ok_def nfiles_def)

lemma fd_reach_inv: "fd_reach B L st \<Longrightarrow> fd_inv B L st \<and> (\<forall>g. 0 \<le> L g)"
proof (induction rule: fd_reach.induct)
  case (boot h b w B)
  then show ?case using fd_inv_boot by blast
next
  case (take_ref B L st v V e st')
  then have inv: "fd_inv B L st" by blast
  have "0 \<le> vn_refcount V" using fd_invD(4) [OF inv take_ref(2)] by (simp add: vnode_ok_def nfiles_def)
  moreover from this have "s32 (vn_refcount V + 1) = vn_refcount V + 1" using take_ref(3) by (intro s32_id) auto
  ultimately have "st' = st\<lparr>vnodes := (vnodes st)(v \<mapsto> V\<lparr>vn_refcount := vn_refcount V + 1\<rparr>)\<rparr>" using take_ref(2,4) by (simp add: vref_def)
  moreover have "fd_inv (B(v := B v + 1)) L (st\<lparr>vnodes := (vnodes st)(v \<mapsto> V\<lparr>vn_refcount := vn_refcount V + 1\<rparr>)\<rparr>)"
    by (rule inv_vnode [OF inv take_ref(2)]) (use fd_invD(4) [OF inv take_ref(2)] take_ref(3) in \<open>auto simp: vnode_ok_def\<close>)
  ultimately show ?case using take_ref.IH by blast
next
  case (drop_ref B L st v V st')
  then obtain s where "vrele v st = Some s" "fd_inv (B(v := B v - 1)) L s" using vrele_ok [of B L st v V] by blast
  then show ?case using drop_ref(5) drop_ref.IH by (metis option.inject)
next
  case (table B L st nr um t st')
  then show ?case using alloc_files_ok by blast
next
  case (creat B L st t T v V ops suser c ofl r st')
  then have inv: "fd_inv B L st" by blast
  note k = create_ok [OF inv creat(2-7)]
  show ?case
  proof (cases "r < 0")
    case True
    then show ?thesis using k creat.IH by simp
  next
    case False
    then obtain f h where f: "nat r < length (fd T)" "ftabs st' = ftabs (slot_upd t (nat r) f st)" "fd_inv B (L(f := 0)) st'"
      using k by (auto simp: slot_upd_def)
    then have "fd_names st' t r = f" using creat(2) False fd_names_slot [OF f(1) creat(2), of r f] fd_names_tabs [OF f(2)] by simp
    then have e: "(if r < 0 then L else L(fd_names st' t r := 0)) = L(f := 0)" using False by simp
    have "\<forall>g. 0 \<le> (L(f := 0)) g" using creat.IH by simp
    then show ?thesis unfolding e using f(3) by blast
  qed
next
  case (close B L st t T n r e st')
  then show ?case using close_ok [of B L st t T n] by (auto simp: sys_close_def split: if_splits)
next
  case (fcntl B L st t T cmd third n r e st')
  then show ?case using fcntl_ok [of B L st t T cmd third n] by auto
next
  case (rw B L st t T rw w n r e st')
  then show ?case using readwrite_ok [of B L st t T rw w n] by auto
next
  case (lseek B L st t T n lsk r e p st')
  have "\<not> S_ISFIFO (vn_mode V) \<and> \<not> S_ISSOCK (vn_mode V)" if "ofiles st (fd_names st t n) = Some F" "vnodes st (f_vnode F) = Some V" for F V
    using lseek(4) that by (simp add: seekable_def)
  then show ?case using lseek_ok [of B L st t T n lsk] lseek by fastforce
next
  case (exec B L st t T st')
  then show ?case using close_exec_ok [of B L st t T "[0 ..< length (fd T)]"] by (auto simp: fs_fildes_close_exec_def)
next
  case (fork B L st t T rlim_max cfg err new st')
  then show ?case using fork_ok [OF _ fork(2) refl fork(3-6)] by blast
next
  case (exit B L st t T st')
  then show ?case using exit_ok [of B L st t T] by auto
qed


section \<open>Properties\<close>


text \<open>A table of three descriptors and a regular file opened by the superuser.\<close>

definition demo_state :: fstate where
  "demo_state = \<lparr>fheap = kheap_boot (dynmem_boot (\<lambda>_. 0)), ofiles = Map.empty, vnodes = [7 \<mapsto> \<lparr>vn_refcount = 1, vn_mode = 0x81A4\<rparr>],
     ftabs = Map.empty, deleted = []\<rparr>"

definition root_cred :: cred where
  "root_cred = \<lparr>uid = 0, euid = 0, suid = 0, gid = 0, egid = 0, sgid = 0, sup_gid = [], pcap_effmap = replicate 8 0, pcap_bndmap = replicate 8 0\<rparr>"

definition demo_ops :: open_ops where
  "demo_ops = \<lparr>op_stat = (0, \<lparr>st_uid = 0, st_gid = 0, st_mode = 0x81A4, st_flags = 0\<rparr>), op_opened = 0, op_noexec = False\<rparr>"

definition demo_B :: "nat \<Rightarrow> int" where
  "demo_B = (\<lambda>_. 0)(7 := 1)"

lemma demo_boot: "fd_reach demo_B (\<lambda>_. 0) demo_state"
  unfolding demo_state_def by (rule fd_reach.boot [OF kinv_boot [OF dm_inv_boot]]) (auto simp: demo_B_def split: if_splits)

lemma demo_heap:
  "\<exists>h1 h2 h3. kzalloc 20 (kheap_boot (dynmem_boot (\<lambda>_. 0))) = Some (0x800018, h1) \<and> kzalloc 40 h1 = Some (0x800044, h2) \<and> kzalloc 24 h2 = Some (0x800084, h3)"
  by (subst kzalloc_def, simp add: heap_eval zero_mem_def, subst kzalloc_def, simp add: heap_eval zero_mem_def,
    subst kzalloc_def, simp add: heap_eval zero_mem_def)

lemma demo_open:
  "\<exists>st1 st2. fs_alloc_files 3 0x12 demo_state = Some (0x800018, st1) \<and> ftabs st1 = [0x800018 \<mapsto> \<lparr>umask = 0x12, fd = [0, 0, 0]\<rparr>] \<and>
     vnodes st1 = vnodes demo_state \<and>
     fs_fildes_create_curproc True root_cred 0x800018 7 O_RDONLY demo_ops st1 = Some (0, st2) \<and>
     ftabs st2 = [0x800018 \<mapsto> \<lparr>umask = 0x12, fd = [0x800044, 0, 0]\<rparr>] \<and> vnodes st2 = [7 \<mapsto> \<lparr>vn_refcount = 2, vn_mode = 0x81A4\<rparr>] \<and>
     ofiles st2 = [0x800044 \<mapsto> opened 7 O_RDONLY demo_ops False] \<and> (\<exists>h. kzalloc 24 (fheap st2) = Some (0x800084, h))"
proof -
  obtain h1 h2 h3 where h: "kzalloc 20 (kheap_boot (dynmem_boot (\<lambda>_. 0))) = Some (0x800018, h1)" "kzalloc 40 h1 = Some (0x800044, h2)"
    "kzalloc 24 h2 = Some (0x800084, h3)" using demo_heap by blast
  show ?thesis
    by (simp add: demo_state_def fs_alloc_files_def SIZEOF_FILES_def h fs_fildes_create_curproc_def vref_def root_cred_def priv_check_def demo_ops_def
      new_fildes_def Let_def fs_fildes_curproc_next_def set_slot_def numeral_3_eq_3 wr_def upt_rec fs_fildes_set_def opened_def S_ISDIR_def)
qed

lemma demo_reach:
  obtains st1 st2 where "fd_reach demo_B (\<lambda>_. 0) st1" "ftabs st1 = [0x800018 \<mapsto> \<lparr>umask = 0x12, fd = [0, 0, 0]\<rparr>]"
    "vnodes st1 = [7 \<mapsto> \<lparr>vn_refcount = 1, vn_mode = 0x81A4\<rparr>]"
    "fs_fildes_create_curproc True root_cred 0x800018 7 O_RDONLY demo_ops st1 = Some (0, st2)"
    "fd_reach demo_B (\<lambda>_. 0) st2" "ftabs st2 = [0x800018 \<mapsto> \<lparr>umask = 0x12, fd = [0x800044, 0, 0]\<rparr>]"
    "vnodes st2 = [7 \<mapsto> \<lparr>vn_refcount = 2, vn_mode = 0x81A4\<rparr>]" "ofiles st2 = [0x800044 \<mapsto> opened 7 O_RDONLY demo_ops False]"
    "\<exists>h. kzalloc 24 (fheap st2) = Some (0x800084, h)"
proof -
  obtain st1 st2 where d: "fs_alloc_files 3 0x12 demo_state = Some (0x800018, st1)" "ftabs st1 = [0x800018 \<mapsto> \<lparr>umask = 0x12, fd = [0, 0, 0]\<rparr>]"
     "vnodes st1 = vnodes demo_state" "fs_fildes_create_curproc True root_cred 0x800018 7 O_RDONLY demo_ops st1 = Some (0, st2)"
     "ftabs st2 = [0x800018 \<mapsto> \<lparr>umask = 0x12, fd = [0x800044, 0, 0]\<rparr>]" "vnodes st2 = [7 \<mapsto> \<lparr>vn_refcount = 2, vn_mode = 0x81A4\<rparr>]"
     "ofiles st2 = [0x800044 \<mapsto> opened 7 O_RDONLY demo_ops False]" "\<exists>h. kzalloc 24 (fheap st2) = Some (0x800084, h)" using demo_open by blast
  have r1: "fd_reach demo_B (\<lambda>_. 0) st1" by (rule fd_reach.table [OF demo_boot _ d(1)]) simp
  have "fd_reach demo_B (if (0 :: int) < 0 then \<lambda>_. 0 else (\<lambda>_. 0)(fd_names st2 0x800018 0 := 0)) st2"
    by (rule fd_reach.creat [OF r1, where T = "\<lparr>umask = 0x12, fd = [0, 0, 0]\<rparr>" and V = "\<lparr>vn_refcount = 1, vn_mode = 0x81A4\<rparr>", OF _ _ _ _ _ d(4)])
      (use d(2,3) in \<open>simp_all add: demo_state_def demo_ops_def\<close>)
  moreover have "(if (0 :: int) < 0 then \<lambda>_. 0 else (\<lambda>_. 0)(fd_names st2 0x800018 0 := 0)) = (\<lambda>_. 0 :: int)" by auto
  ultimately have "fd_reach demo_B (\<lambda>_. 0) st2" by metis
  then show ?thesis using that r1 d by (simp add: demo_state_def)
qed


text \<open>
  C6: Closing. In every reachable state close of a descriptor not in use fails with EBADF and changes
  nothing; otherwise it empties exactly that descriptor, and the file loses one reference or, when it was
  the last, is freed and gives up its reference of the vnode, and the vnode is deleted when that was its
  last reference. No other file and no other descriptor changes.
\<close>

theorem close_descriptor:
  assumes "fd_reach B L st" and "ftabs st t = Some T" and "froom 1 st" and "f = fd_names st t n"
  shows "if f = 0 then sys_close t n st = Some (- 1, Some EBADF, st)
    else \<exists>F V st'. ofiles st f = Some F \<and> vnodes st (f_vnode F) = Some V \<and> sys_close t n st = Some (0, None, st') \<and>
      ftabs st' = (ftabs st)(t \<mapsto> T\<lparr>fd := (fd T)[nat n := 0]\<rparr>) \<and>
      (if nslots st f + L f = 1 then
         ofiles st' = (ofiles st)(f := None) \<and> vnodes st' = (vnodes st)(f_vnode F \<mapsto> V\<lparr>vn_refcount := vn_refcount V - 1\<rparr>) \<and>
         deleted st' = deleted st @ (if vn_refcount V = 1 then [f_vnode F] else [])
       else ofiles st' = (ofiles st)(f \<mapsto> F\<lparr>f_obj := (f_obj F)\<lparr>ko_refcount := ko_refcount (f_obj F) - 1\<rparr>\<rparr>) \<and>
         vnodes st' = vnodes st \<and> deleted st' = deleted st)"
proof (cases "f = 0")
  case True
  then show ?thesis using ref_none [OF assms(2), of n 1] assms(4) by (simp add: sys_close_def fs_fildes_close_def)
next
  case False
  note inv = fd_reach_inv [OF assms(1), THEN conjunct1] and L = fd_reach_inv [OF assms(1), THEN conjunct2]
  note f = assms(4) [symmetric]
  obtain F where F: "ofiles st f = Some F" "file_ok st (nslots st f + L f) F" "1 \<le> nslots st f" by (rule fd_namesE [OF inv f False])
  then obtain V where V: "vnodes st (f_vnode F) = Some V" by (auto simp: file_ok_def)
  show ?thesis
  proof (cases "nslots st f + L f = 1")
    case True
    then have e: "nslots st f = 1" "L f = 0" using F(3) L by (smt (verit))+
    obtain F' V' h where c: "ofiles st f = Some F'" "vnodes st (f_vnode F') = Some V'"
      "fs_fildes_close t n st = Some (0, file_gone f F' V' h (slot_upd t (nat n) 0 st))" by (rule close_last [OF inv f False e])
    then have "F' = F" "V' = V" using F(1) V by simp_all
    then show ?thesis using c(3) F(1) V True False assms(2) by (simp add: sys_close_def file_gone_def) (simp add: slot_upd_def)
  next
    case ne: False
    then have "1 < nslots st f + L f" using F(2) by (simp add: file_ok_def)
    note c = close_shared(1) [OF inv f False froomD [OF inv assms(3) F(1)] this]
    then show ?thesis using F(1) V False ne assms(2) by (simp add: sys_close_def) (simp add: addref_def slot_upd_def)
  qed
qed

theorem close_descriptor_witness:
  "\<exists>st st'. fd_reach demo_B (\<lambda>_. 0) st \<and> fd_names st 0x800018 0 = 0x800044 \<and> sys_close 0x800018 0 st = Some (0, None, st') \<and>
     fd_names st' 0x800018 0 = 0 \<and> ofiles st' 0x800044 = None \<and> vnodes st' 7 = Some \<lparr>vn_refcount = 1, vn_mode = 0x81A4\<rparr> \<and> deleted st' = deleted st"
proof -
  obtain st where s: "fd_reach demo_B (\<lambda>_. 0) st" "ftabs st = [0x800018 \<mapsto> \<lparr>umask = 0x12, fd = [0x800044, 0, 0]\<rparr>]"
    "vnodes st = [7 \<mapsto> \<lparr>vn_refcount = 2, vn_mode = 0x81A4\<rparr>]" "ofiles st = [0x800044 \<mapsto> opened 7 O_RDONLY demo_ops False]"
    using demo_reach by metis
  have n: "fd_names st 0x800018 0 = 0x800044" using s(2) by (simp add: fd_names_def fs_fildes_is_in_range_def)
  have ns: "nslots st 0x800044 = 1" using s(2) by (simp add: nslots_def)
  have r: "froom 1 st" using s(4) by (simp add: froom_def opened_def kobj_init_def)
  have T: "ftabs st 0x800018 = Some \<lparr>umask = 0x12, fd = [0x800044, 0, 0]\<rparr>" using s(2) by simp
  obtain F V st' where c: "ofiles st 0x800044 = Some F" "vnodes st (f_vnode F) = Some V" "sys_close 0x800018 0 st = Some (0, None, st')"
    "ftabs st' = (ftabs st)(0x800018 \<mapsto> \<lparr>umask = 0x12, fd = [0, 0, 0]\<rparr>)" "ofiles st' = (ofiles st)(0x800044 := None)"
    "vnodes st' = (vnodes st)(f_vnode F \<mapsto> V\<lparr>vn_refcount := vn_refcount V - 1\<rparr>)"
    "deleted st' = deleted st @ (if vn_refcount V = 1 then [f_vnode F] else [])"
    using close_descriptor [OF s(1) T r n [symmetric]] ns by auto
  have "f_vnode F = 7" using c(1) s(4) by (auto simp: opened_def)
  moreover from this have "V = \<lparr>vn_refcount = 2, vn_mode = 0x81A4\<rparr>" using c(2) s(3) by simp
  moreover have "fd_names st' 0x800018 0 = 0" using c(4) by (simp add: fd_names_def fs_fildes_is_in_range_def)
  ultimately show ?thesis using s(1) n c by (intro exI [of _ st] exI [of _ st']) simp
qed


text \<open>
  C7: Opening. In every reachable state, opening a vnode the caller holds a reference of gives the lowest
  free descriptor, naming a new file with one reference at the start position of its kind, and the vnode
  one reference more; nothing else changes. Or it fails with the error of the checks (permissions,
  ENOTDIR, the file system's answers), ENOMEM, EMFILE for a table of no descriptors or ENFILE for a full one,
  and then leaves all descriptors, files and vnodes as they were.
\<close>

theorem open_descriptor:
  assumes "fd_reach B L st" and "ftabs st t = Some T" and "v \<noteq> 0" and "vnodes st v = Some V" and "0 < B v" and "vn_refcount V + 1 < 2 ^ 31"
    and "fst (op_stat ops) \<le> 0" and "fs_fildes_create_curproc suser c t v ofl ops st = Some (r, st')"
  shows "if r < 0 then ofiles st' = ofiles st \<and> ftabs st' = ftabs st \<and> vnodes st' = vnodes st \<and> deleted st' = deleted st \<and>
      (open_check suser c ofl ops V = Some r \<or> open_check suser c ofl ops V = Some 0 \<and>
        (r = - ENOMEM \<or> r = - EMFILE \<and> fd T = [] \<or> r = - ENFILE \<and> fd T \<noteq> [] \<and> 0 \<notin> set (fd T)))
    else open_check suser c ofl ops V = Some 0 \<and> nat r < length (fd T) \<and> fd T ! nat r = 0 \<and> (\<forall>j < nat r. fd T ! j \<noteq> 0) \<and>
      (\<exists>f. f \<noteq> 0 \<and> ofiles st f = None \<and> ofiles st' = (ofiles st)(f \<mapsto> opened v ofl ops (S_ISDIR (vn_mode V))) \<and>
        ftabs st' = (ftabs st)(t \<mapsto> T\<lparr>fd := (fd T)[nat r := f]\<rparr>) \<and>
        vnodes st' = (vnodes st)(v \<mapsto> V\<lparr>vn_refcount := vn_refcount V + 1\<rparr>) \<and> deleted st' = deleted st)"
proof -
  note inv = fd_reach_inv [OF assms(1), THEN conjunct1]
  note k = create_ok [OF inv assms(2-4,6-8)]
  have "vn_refcount V \<noteq> 0" using fd_invD(4) [OF inv assms(4)] assms(5) by (simp add: vnode_ok_def nfiles_def)
  then show ?thesis using k assms(2) by (auto simp: slot_upd_def split: if_splits)
qed

theorem open_descriptor_witness:
  "\<exists>st st' f. fd_reach demo_B (\<lambda>_. 0) st \<and> fs_fildes_create_curproc True root_cred 0x800018 7 O_RDONLY demo_ops st = Some (0, st') \<and>
     f \<noteq> 0 \<and> ofiles st f = None \<and> ofiles st' = (ofiles st)(f \<mapsto> opened 7 O_RDONLY demo_ops False)"
proof -
  obtain st st' where s: "fd_reach demo_B (\<lambda>_. 0) st" "ftabs st = [0x800018 \<mapsto> \<lparr>umask = 0x12, fd = [0, 0, 0]\<rparr>]"
    "vnodes st = [7 \<mapsto> \<lparr>vn_refcount = 1, vn_mode = 0x81A4\<rparr>]"
    "fs_fildes_create_curproc True root_cred 0x800018 7 O_RDONLY demo_ops st = Some (0, st')" using demo_reach by metis
  note k = open_descriptor [OF s(1) _ _ _ _ _ _ s(4), where T = "\<lparr>umask = 0x12, fd = [0, 0, 0]\<rparr>" and V = "\<lparr>vn_refcount = 1, vn_mode = 0x81A4\<rparr>"]
  have "fst (op_stat demo_ops) \<le> 0" "0 < demo_B 7" by (simp_all add: demo_ops_def demo_B_def)
  then have "\<exists>f. f \<noteq> 0 \<and> ofiles st f = None \<and> ofiles st' = (ofiles st)(f \<mapsto> opened 7 O_RDONLY demo_ops (S_ISDIR 0x81A4))"
    using k s(2,3) by auto
  then show ?thesis using s(1,4) by (auto simp: S_ISDIR_def)
qed




text \<open>
  Fork shares the files. In a reachable state the child's table holds the parent's descriptors and
  free ones up to the limit, every file gains a reference for each descriptor of the parent that
  names it, and no vnode, no other table and no set of open files changes; without memory the call
  fails with ENOMEM and changes nothing.
\<close>

theorem fork_descriptors:
  assumes "fd_reach B L st" and "ftabs st old = Some T" and "nofile = (if rlim_max < 0 then cfg else nat rlim_max)" and "nofile \<le> 2 ^ 17"
    and "length (fd T) \<le> nofile" and "froom (int (length (fd T))) st" and "fork_files cfg rlim_max old st = Some (err, new, st')"
  shows "if new = 0 then err = - ENOMEM \<and> st' = st
    else err = 0 \<and> ftabs st new = None \<and>
      (\<exists>N. ftabs st' = (ftabs st)(new \<mapsto> N) \<and> fd N = fd T @ replicate (nofile - length (fd T)) 0) \<and>
      dom (ofiles st') = dom (ofiles st) \<and> vnodes st' = vnodes st \<and> deleted st' = deleted st \<and>
      (\<forall>f F F'. ofiles st f = Some F \<longrightarrow> ofiles st' f = Some F' \<longrightarrow>
        ko_refcount (f_obj F') = ko_refcount (f_obj F) + int (count_list (fd T) f))"
proof (cases "new = 0")
  case True
  then show ?thesis using fork_ok [OF fd_reach_inv [OF assms(1), THEN conjunct1] assms(2-7)] by simp
next
  case False
  note inv = fd_reach_inv [OF assms(1), THEN conjunct1]
  note k = fork_ok [OF inv assms(2-7)]
  obtain N where N: "ftabs st new = None" "ftabs st' = (ftabs st)(new \<mapsto> N)" "fd N = fd T @ replicate (nofile - length (fd T)) 0"
    using k False by auto
  have "ko_refcount (f_obj F') = ko_refcount (f_obj F) + int (count_list (fd T) f)" if F: "ofiles st f = Some F" "ofiles st' f = Some F'" for f F F'
  proof -
    have f0: "f \<noteq> 0" using F(1) tabs_okD(3) [OF fd_invD(2) [OF inv]] by (auto intro: ccontr)
    have "nslots st' f = nslots (st\<lparr>ftabs := (ftabs st)(new \<mapsto> N)\<rparr>) f" using N(2) by (simp add: nslots_def)
    also have "\<dots> = nslots st f + int (count_list (fd T) f)"
    proof -
      have "count_list (replicate (nofile - length (fd T)) 0) f = 0" using f0 by (simp add: count_list_0_iff)
      then show ?thesis using nslots_new_table [OF fd_invD(2) [OF inv] N(1), of N f] N(3) by simp
    qed
    finally show ?thesis using fd_invD(3) [OF inv F(1)] fd_invD(3) [OF k [THEN conjunct1] F(2)] by (simp add: file_ok_def)
  qed
  then show ?thesis using k False by auto
qed

theorem fork_descriptors_witness:
  "\<exists>st st' N. fd_reach demo_B (\<lambda>_. 0) st \<and> fd_names st 0x800018 0 = 0x800044 \<and> fork_files 4 (- 1) 0x800018 st = Some (0, 0x800084, st') \<and>
     ftabs st' 0x800084 = Some N \<and> fd N = [0x800044, 0, 0, 0]"
proof -
  obtain st h where s: "fd_reach demo_B (\<lambda>_. 0) st" "ftabs st = [0x800018 \<mapsto> \<lparr>umask = 0x12, fd = [0x800044, 0, 0]\<rparr>]"
    "ofiles st = [0x800044 \<mapsto> opened 7 O_RDONLY demo_ops False]" "kzalloc 24 (fheap st) = Some (0x800084, h)" using demo_reach by metis
  have n: "fd_names st 0x800018 0 = 0x800044" using s(2) by (simp add: fd_names_def fs_fildes_is_in_range_def)
  have r: "froom 3 st" using s(3) by (simp add: froom_def opened_def kobj_init_def)
  have T: "ftabs st 0x800018 = Some \<lparr>umask = 0x12, fd = [0x800044, 0, 0]\<rparr>" using s(2) by simp
  obtain s1 where a: "fs_alloc_files 4 (of_nat 4) st = Some (0x800084, s1)" using s(4) by (simp add: fs_alloc_files_def SIZEOF_FILES_def)
  have "\<exists>st'. fork_files 4 (- 1) 0x800018 st = Some (0, 0x800084, st')"
    using fork_run [OF fd_reach_inv [OF s(1), THEN conjunct1] T _ _ _ _ a, of "- 1" 4] r by auto
  then obtain st' where f: "fork_files 4 (- 1) 0x800018 st = Some (0, 0x800084, st')" by blast
  have "\<exists>N. ftabs st' = (ftabs st)(0x800084 \<mapsto> N) \<and> fd N = [0x800044, 0, 0] @ replicate (4 - 3) 0"
    using fork_descriptors [OF s(1) T refl _ _ _ f] r by simp
  then show ?thesis using s(1) n f by auto
qed

definition may :: "bool \<Rightarrow> cred \<Rightarrow> file_stat \<Rightarrow> cred \<Rightarrow> nat \<Rightarrow> int \<Rightarrow> bool" where
  "may suser cc s c k priv \<longleftrightarrow> (bit (st_mode s) k \<or> (st_gid s = egid cc \<or> priv_grp_is_member c (st_gid s)) \<and> bit (st_mode s) (k + 3) \<or>
     st_uid s = euid cc \<and> bit (st_mode s) (k + 6)) \<and> priv_check suser c priv = Some 0"

lemma perm_block_may:
  assumes "cred_wf c" and "u = push_bit (k + 6) 1" "g = push_bit (k + 3) 1" "p = push_bit k (1 :: u32)"
  shows "perm_block suser cc s c u g p priv = Some (may suser cc s c k priv)"
proof -
  have b: "2 ^ n AND m = 0 \<longleftrightarrow> \<not> bit m n" for n and m :: u32
    by (metis and.commute and_exp_eq_0_iff_not_bit)
  obtain e where e: "priv_check suser c priv = Some e" using priv_check_eq [OF assms(1)] by blast
  show ?thesis unfolding perm_block_def may_def using e assms(2-4) by (auto simp: Let_def bit.conj_disj_distrib2 or_eq_0_iff b)
qed


text \<open>
  C9: The permission check. For a well-formed credential chkperm answers, and it grants exactly when for
  reading, writing and executing, as far as they are asked for (execution also for every
  directory), the mode has the bit for others, or that of the group and the process or the credential
  is in the group, or that of the owner and the process is the owner, and priv_check grants the
  privilege of that access; otherwise it answers EPERM.
\<close>

theorem chkperm_decides:
  assumes "cred_wf c"
  shows "chkperm suser cc s c ofl =
    Some (if (bit ofl 12 \<longrightarrow> may suser cc s c 2 PRIV_VFS_READ) \<and> (bit ofl 13 \<longrightarrow> may suser cc s c 1 PRIV_VFS_WRITE) \<and>
        (bit ofl 14 \<or> S_ISDIR (st_mode s) \<longrightarrow> may suser cc s c 0 PRIV_VFS_EXEC) then 0 else - EPERM)"
proof -
  have b: "(ofl AND O_ACCMODE) AND 0x1000 = 0 \<longleftrightarrow> \<not> bit ofl 12" "(ofl AND O_ACCMODE) AND 0x2000 = 0 \<longleftrightarrow> \<not> bit ofl 13"
    "(ofl AND O_ACCMODE) AND 0x4000 = 0 \<longleftrightarrow> \<not> bit ofl 14"
    using and_exp_eq_0_iff_not_bit [of ofl 12] and_exp_eq_0_iff_not_bit [of ofl 13] and_exp_eq_0_iff_not_bit [of ofl 14] by (simp_all add: and.assoc)
  note p = perm_block_may [OF assms]
  have p: "perm_block suser cc s c 0x100 0x20 4 PRIV_VFS_READ = Some (may suser cc s c 2 PRIV_VFS_READ)"
    "perm_block suser cc s c 0x80 0x10 2 PRIV_VFS_WRITE = Some (may suser cc s c 1 PRIV_VFS_WRITE)"
    "perm_block suser cc s c 0x40 8 1 PRIV_VFS_EXEC = Some (may suser cc s c 0 PRIV_VFS_EXEC)" by (simp_all add: p)
  show ?thesis using b by (auto simp: chkperm_def Let_def p)
qed

definition vfs_cred :: cred where
  "vfs_cred = user_cred\<lparr>pcap_effmap := [0, 0, 0, 0x18000, 0, 0, 0, 0]\<rparr>"

theorem chkperm_decides_witness:
  "chkperm True vfs_cred \<lparr>st_uid = 0, st_gid = 0, st_mode = 0x81A4, st_flags = 0\<rparr> vfs_cred O_RDONLY = Some 0 \<and>
   chkperm True vfs_cred \<lparr>st_uid = 0, st_gid = 0, st_mode = 0x81A4, st_flags = 0\<rparr> vfs_cred O_WRONLY = Some (- EPERM)"
proof -
  have wf: "cred_wf vfs_cred" using user_cred_wf by (simp add: vfs_cred_def cred_wf_def)
  have e: "priv_check True vfs_cred PRIV_VFS_READ = Some 0"
    using priv_check_eq [OF wf, of True PRIV_VFS_READ] by (simp add: cap_pos_def effs_def used_def vfs_cred_def user_cred_def)
  have u: "euid vfs_cred \<noteq> 0" "egid vfs_cred \<noteq> 0" "\<not> priv_grp_is_member vfs_cred 0" 
    by (auto simp: vfs_cred_def user_cred_def priv_grp_is_member_def list_ex_iff)
  show ?thesis using chkperm_decides [OF wf, of True vfs_cred] e u by (simp add: may_def S_ISDIR_def bit_numeral_rec)
qed

text \<open>Exit never closes descriptor 0: its file stays open with a reference that no descriptor accounts for.\<close>

lemma exit_keeps_descriptor_zero:
  assumes "fd_reach B L st" and "ftabs st t = Some T" and "froom 1 st" and "fd_names st t 0 = f" and "f \<noteq> 0" and "nslots st f = 1"
  shows "\<exists>st' F. free_files t st = Some st' \<and> ofiles st' f = Some F \<and> nslots st' f = 0 \<and> 0 < ko_refcount (f_obj F)"
proof -
  note inv = fd_reach_inv [OF assms(1), THEN conjunct1] and L = fd_reach_inv [OF assms(1), THEN conjunct2]
  obtain st' where e: "free_files t st = Some st'" "fd_inv B (\<lambda>g. L g + (if g = f then 1 else 0)) st'" "ftabs st' = (ftabs st)(t := None)" "f \<in> dom (ofiles st')"
    using exit_ok [OF inv assms(2) L assms(3)] assms(4,5) by auto
  then obtain F where F: "ofiles st' f = Some F" by auto
  have "f \<in> set (fd T)" using assms(2,4,5) by (auto simp: fd_names_def fs_fildes_is_in_range_def split: if_splits)
  then have "1 \<le> count_list (fd T) f" by (metis One_nat_def Suc_leI count_list_0_iff gr0I)
  moreover have "nslots st' f = nslots st f - int (count_list (fd T) f)"
    using nslots_drop_table [OF fd_invD(2) [OF inv] assms(2), of f] e(3) by (simp add: nslots_def)
  ultimately have "nslots st' f = 0" using assms(6) nslots_nonneg [of st' f] by linarith
  then show ?thesis using e(1) F fd_invD(3) [OF e(2) F] by (auto simp: file_ok_def)
qed

lemma lseek_fifo_closes:
  assumes "ftabs st t = Some T" "fd T = [f]" "f \<noteq> 0" "ofiles st f = Some F" "f_obj F = kobj_init" "bit (oflags F) 16"
    "vnodes st (f_vnode F) = Some V" "S_ISFIFO (vn_mode V)" "kfree f (fheap st) = Some h" "f_vnode F \<noteq> 0"
  shows "\<exists>st'. sys_lseek lsk t 0 st = Some (- 1, Some ESPIPE, seek_pos F, st') \<and> ofiles st' f = None \<and> fd_names st' t 0 = 0"
proof -
  have b: "oflags F AND O_KFREEABLE \<noteq> 0" using assms(6) and_bit_eq_0 [of "oflags F" 16] by simp
  show ?thesis using assms b by (simp add: sys_lseek_def fs_fildes_ref_def fs_fildes_is_in_range_def kobj_refcnt_def kobj_ref_def kobj_unref_def
        kobj_fast_lock_def kobj_fast_unlock_def kobj_init_def file_unref_def fs_fildes_dtor_def vrele_def set_slot_def wr_def fd_names_def Let_def min_def)
qed

text \<open>A negative descriptor to duplicate to is an access before the table.\<close>

lemma dup_negative:
  assumes "ftabs st t = Some T" "f \<noteq> 0" "start < 0"
  shows "dupfd t f start st = None"
  using assms by (simp add: dupfd_def fs_fildes_curproc_next_def)

text \<open>Setting the descriptor flags works and reports failure without an error number.\<close>

lemma setfd_fails:
  assumes "fd_reach B L st" and "ftabs st t = Some T" and "froom 2 st" and "fd_names st t n \<noteq> 0"
  shows "\<exists>st'. sys_fcntl t n F_SETFD third st = Some (- 1, None, st')"
proof -
  note inv = fd_reach_inv [OF assms(1), THEN conjunct1] and L = fd_reach_inv [OF assms(1), THEN conjunct2]
  obtain c e st' where k: "sys_fcntl t n F_SETFD third st = Some (c, e, st')"
    using fcntl_ok [OF inv assms(2) L assms(3), of F_SETFD third n] by (auto simp: is_dup_def)
  have "froom 1 st" using assms(3) by (rule froom_mono) simp
  then have "fs_fildes_ref t n 1 st = Some (fd_names st t n, addref (fd_names st t n) 1 st)"
    using ref_plus(1) [OF inv refl assms(4)] fd_namesE [OF inv refl assms(4)] froomD [OF inv] by metis
  then have "c = - 1 \<and> e = None" using k assms(4) by (auto simp: sys_fcntl_def split: Option.bind_splits)
  then show ?thesis using k by simp
qed

text \<open>A limit below the size of the parent's table: the copy runs over the end of the new one.\<close>

lemma fork_limit_overruns:
  assumes "ftabs st old = Some T" "fd T \<noteq> []" "kzalloc 8 (fheap st) = Some (new, h)" "new \<noteq> 0" "new \<noteq> old"
  shows "fork_files cfg 0 old st = None"
proof -
  have "[0 ..< length (fd T)] = 0 # [Suc 0 ..< length (fd T)]" using assms(2) by (simp add: upt_conv_Cons)
  then show ?thesis using assms by (simp add: fork_files_def fs_alloc_files_def SIZEOF_FILES_def set_slot_def wr_def)
qed

end
