(* ===== verification/Mempool.thy ===== *)
theory Mempool
  imports Kmalloc Klocks
begin

text \<open>
  Object pools (\<^verbatim>\<open>src/kern/mempool.c\<close>): a block of the kernel heap cut into elements, whose addresses
  go through a ring buffer. The pool's lock is held around each access of the ring buffer.
\<close>

section \<open>The code\<close>

abbreviation (input) MEMPOOL_TYPE_NONBLOCKING :: nat where "MEMPOOL_TYPE_NONBLOCKING \<equiv> 0"
abbreviation (input) MEMPOOL_TYPE_BLOCKING :: nat where "MEMPOOL_TYPE_BLOCKING \<equiv> 1"
abbreviation (input) SIZEOF_MEMPOOL :: nat where "SIZEOF_MEMPOOL \<equiv> 56"

record mempool =
  mp_head :: queue_cb
  mp_type :: nat
  mp_sema :: int
  mp_data :: nat

partial_function (option) push_elems :: "nat \<Rightarrow> nat \<Rightarrow> nat \<Rightarrow> queue_cb \<Rightarrow> queue_cb option" where
  "push_elems elem bsz data_end q = do {
     (_, q) \<leftarrow> queue_push q (ptr_bytes elem);
     let elem = szt (elem + bsz);
     if elem = data_end then Some q else push_elems elem bsz data_end q }"

text \<open>\<open>mempool_init\<close> gives the address of the pool, 0 without memory, and the pool.\<close>

definition mempool_init :: "nat \<Rightarrow> nat \<Rightarrow> nat \<Rightarrow> kheap \<Rightarrow> (nat \<times> mempool option \<times> kheap) option" where
  "mempool_init type bsz n h = do {
     let data_bsize = szt (n * bsz);
     let pool_bsize = szt (n * 4);
     (mp, h) \<leftarrow> kzalloc (szt (SIZEOF_MEMPOOL + pool_bsize)) h;
     (elem, h) \<leftarrow> kzalloc data_bsize h;
     if mp = 0 \<or> elem = 0 then Some (0, None, h)
     else do {
       q \<leftarrow> queue_create (replicate pool_bsize 0) 4 pool_bsize;
       let sema = (if type = MEMPOOL_TYPE_BLOCKING then s32 (int n - 1) else 0);
       q \<leftarrow> push_elems elem bsz (szt (elem + data_bsize)) q;
       Some (mp, Some \<lparr>mp_head = q, mp_type = 0, mp_sema = sema, mp_data = elem\<rparr>, h) } }"

definition mempool_destroy :: "nat \<Rightarrow> mempool \<Rightarrow> kheap \<Rightarrow> kheap option" where
  "mempool_destroy p mp h = do {
     h \<leftarrow> kfree (mp_data mp) h;
     kfree p h }"

definition mempool_get :: "mempool \<Rightarrow> (nat \<times> mempool) option" where
  "mempool_get mp = do {
     let mp = (if mp_type mp = MEMPOOL_TYPE_BLOCKING then mp\<lparr>mp_sema := snd (sema_down (mp_sema mp))\<rparr> else mp);
     (_, e, q) \<leftarrow> queue_pop (mp_head mp) (ptr_bytes 0);
     Some (bytes_ptr e, mp\<lparr>mp_head := q\<rparr>) }"

definition mempool_return :: "nat \<Rightarrow> mempool \<Rightarrow> mempool option" where
  "mempool_return p mp = do {
     (_, q) \<leftarrow> queue_push (mp_head mp) (ptr_bytes p);
     let mp = mp\<lparr>mp_head := q\<rparr>;
     Some (if mp_type mp = MEMPOOL_TYPE_BLOCKING then mp\<lparr>mp_sema := s32 (mp_sema mp + 1)\<rparr> else mp) }"

section \<open>Pointers as bytes\<close>

lemma length_ptr_bytes [simp]: "length (ptr_bytes p) = 4"
  by (simp add: ptr_bytes_def)

lemma bytes_ptr_ptr_bytes [simp]:
  assumes "p < 2 ^ 32"
  shows "bytes_ptr (ptr_bytes p) = p"
proof -
  have "{..<4 :: nat} = {0, 1, 2, 3}" by auto
  then have "bytes_ptr (ptr_bytes p) = p mod 256 + p div 256 mod 256 * 256 + p div 65536 mod 256 * 65536 + p div 16777216 mod 256 * 16777216"
    by (simp add: bytes_ptr_def ptr_bytes_def unat_of_nat)
  moreover have "p div 65536 = p div 256 div 256" "p div 16777216 = p div 256 div 256 div 256" by (simp_all add: div_mult2_eq [symmetric])
  moreover have "p div 256 div 256 div 256 < 256" using assms by (simp add: div_mult2_eq [symmetric] less_mult_imp_div_less)
  ultimately show ?thesis
    using mult_div_mod_eq [of 256 p] mult_div_mod_eq [of 256 "p div 256"] mult_div_mod_eq [of 256 "p div 256 div 256"]
    by (simp only: mod_less)
qed


section \<open>The contract of a pool\<close>

text \<open>
  \<open>ok m es\<close>: the pool holds the elements \<open>es\<close>, in the order in which it hands them out. A client that
  only gives back what it was given never gets an element that is still out.
\<close>

locale object_pool =
  fixes ok :: "'m \<Rightarrow> nat list \<Rightarrow> bool" and cap :: "'m \<Rightarrow> nat" and get :: "'m \<Rightarrow> (nat \<times> 'm) option" and put :: "nat \<Rightarrow> 'm \<Rightarrow> 'm option"
  assumes get_elem: "ok m (e # es) \<Longrightarrow> \<exists>m'. get m = Some (e, m') \<and> ok m' es \<and> cap m' = cap m"
    and get_empty: "ok m [] \<Longrightarrow> get m = Some (0, m)"
    and put_elem: "ok m es \<Longrightarrow> e \<noteq> 0 \<Longrightarrow> e < 2 ^ 32 \<Longrightarrow> length es < cap m \<Longrightarrow> \<exists>m'. put e m = Some m' \<and> ok m' (es @ [e]) \<and> cap m' = cap m"
    and elems: "ok m es \<Longrightarrow> (\<forall>e \<in> set es. e \<noteq> 0 \<and> e < 2 ^ 32) \<and> length es \<le> cap m"
begin

text \<open>\<open>shared m A H\<close>: of the elements \<open>A\<close> those in \<open>H\<close> are out and the others in the pool, each once.\<close>

definition shared :: "'m \<Rightarrow> nat set \<Rightarrow> nat set \<Rightarrow> bool" where
  "shared m A H \<longleftrightarrow> finite A \<and> card A \<le> cap m \<and> (\<forall>e \<in> A. e \<noteq> 0 \<and> e < 2 ^ 32) \<and> H \<subseteq> A \<and> (\<exists>es. ok m es \<and> distinct es \<and> set es = A - H)"

lemma shared_start: "ok m es \<Longrightarrow> distinct es \<Longrightarrow> shared m (set es) {}"
  using elems by (auto simp: shared_def distinct_card)

lemma shared_get:
  assumes "shared m A H"
  shows "\<exists>e m'. get m = Some (e, m') \<and> (if H = A then e = 0 \<and> m' = m else e \<in> A - H \<and> shared m' A (insert e H))"
proof -
  obtain es where es: "ok m es" "distinct es" "set es = A - H" using assms by (auto simp: shared_def)
  show ?thesis
  proof (cases es)
    case Nil
    then have "H = A" using es(3) assms by (auto simp: shared_def)
    then show ?thesis using get_empty es(1) Nil by simp
  next
    case (Cons e fs)
    obtain m' where m': "get m = Some (e, m')" "ok m' fs" "cap m' = cap m" using get_elem es(1) Cons by blast
    have "e \<in> A - H" "set fs = A - insert e H" "distinct fs" using es(2,3) Cons by auto
    then show ?thesis using m' assms by (auto simp: shared_def)
  qed
qed

lemma shared_put:
  assumes "shared m A H" "e \<in> H"
  shows "\<exists>m'. put e m = Some m' \<and> shared m' A (H - {e})"
proof -
  obtain es where es: "ok m es" "distinct es" "set es = A - H" using assms(1) by (auto simp: shared_def)
  have e: "e \<in> A" "finite A" "card A \<le> cap m" "e \<noteq> 0" "e < 2 ^ 32" using assms by (auto simp: shared_def)
  have "set es \<subset> A" using es(3) e(1) assms(2) by auto
  then have "card (set es) < card A" by (rule psubset_card_mono [OF e(2)])
  then have "length es < cap m" using es(2) e(3) by (simp add: distinct_card)
  from put_elem [OF es(1) e(4,5) this] obtain m' where m': "put e m = Some m'" "ok m' (es @ [e])" "cap m' = cap m" by blast
  have "distinct (es @ [e])" "set (es @ [e]) = A - (H - {e})" using es assms(2) e(1) by auto
  then have "\<exists>fs. ok m' fs \<and> distinct fs \<and> set fs = A - (H - {e})" using m'(2) by blast
  then show ?thesis using m'(1,3) assms(1) by (auto simp: shared_def)
qed

end

definition pool_ok :: "mempool \<Rightarrow> nat list \<Rightarrow> bool" where
  "pool_ok mp es \<longleftrightarrow> q_inv (mp_head mp) \<and> b_size (mp_head mp) = 4 \<and> mp_type mp = MEMPOOL_TYPE_NONBLOCKING \<and>
     contents (mp_head mp) = map ptr_bytes es \<and> (\<forall>e \<in> set es. e \<noteq> 0 \<and> e < 2 ^ 32)"

definition pool_cap :: "mempool \<Rightarrow> nat" where
  "pool_cap mp = a_len (mp_head mp) - 1"

lemma pool_ok_length: "pool_ok mp es \<Longrightarrow> length es = q_count (mp_head mp)"
  by (metis length_contents length_map pool_ok_def)

interpretation mpool: object_pool pool_ok pool_cap mempool_get mempool_return
proof
  fix m :: mempool and e es assume ok: "pool_ok m (e # es)"
  then obtain q where "queue_pop (mp_head m) (ptr_bytes 0) = Some (1, ptr_bytes e, q)" "q_inv q" "contents q = map ptr_bytes es"
    "a_len q = a_len (mp_head m)" "b_size q = b_size (mp_head m)"
    using queue_pop_ok [of "mp_head m" "ptr_bytes e" "map ptr_bytes es" "ptr_bytes 0"] by (auto simp: pool_ok_def)
  then show "\<exists>m'. mempool_get m = Some (e, m') \<and> pool_ok m' es \<and> pool_cap m' = pool_cap m"
    using ok by (auto simp: mempool_get_def pool_ok_def pool_cap_def)
next
  fix m assume "pool_ok m []"
  then show "mempool_get m = Some (0, m)" using queue_pop_empty [of "mp_head m" "ptr_bytes 0"]
    by (auto simp: mempool_get_def pool_ok_def)
next
  fix m :: mempool and es :: "nat list" and e :: nat assume ok: "pool_ok m es" and e: "e \<noteq> 0" "e < 2 ^ 32" and l: "length es < pool_cap m"
  have "Suc (q_count (mp_head m)) < a_len (mp_head m)" using l pool_ok_length [OF ok] by (simp add: pool_cap_def)
  then obtain q where "queue_push (mp_head m) (ptr_bytes e) = Some (1, q)" "q_inv q" "contents q = map ptr_bytes es @ [ptr_bytes e]"
    "a_len q = a_len (mp_head m)" "b_size q = b_size (mp_head m)"
    using queue_push_ok [of "mp_head m" "ptr_bytes e"] ok by (auto simp: pool_ok_def)
  then show "\<exists>m'. mempool_return e m = Some m' \<and> pool_ok m' (es @ [e]) \<and> pool_cap m' = pool_cap m"
    using ok e by (auto simp: mempool_return_def pool_ok_def pool_cap_def)
next
  fix m es assume ok: "pool_ok m es"
  then show "(\<forall>e \<in> set es. e \<noteq> 0 \<and> e < 2 ^ 32) \<and> length es \<le> pool_cap m"
    using pool_ok_length [OF ok] q_count_less [of "mp_head m"] by (auto simp: pool_ok_def pool_cap_def)
qed

section \<open>Creating a pool\<close>

lemma push_elems_ok:
  assumes "q_inv q" "b_size q = 4" "contents q = map ptr_bytes es" "0 < bsz" "0 < n" "elem + n * bsz < 2 ^ 32"
  shows "\<exists>q'. push_elems elem bsz (elem + n * bsz) q = Some q' \<and> q_inv q' \<and> b_size q' = 4 \<and> a_len q' = a_len q \<and>
    contents q' = map ptr_bytes (es @ take (a_len q - 1 - length es) (map (\<lambda>i. elem + i * bsz) [0 ..< n]))"
  using assms
proof (induction n arbitrary: elem q es)
  case (Suc n)
  have le: "length es = q_count q" using Suc.prems(3) by (metis length_contents length_map)
  have "\<exists>c q1. queue_push q (ptr_bytes elem) = Some (c, q1) \<and> q_inv q1 \<and> b_size q1 = 4 \<and> a_len q1 = a_len q \<and>
      contents q1 = map ptr_bytes (es @ take (a_len q - 1 - length es) [elem])"
  proof (cases "Suc (q_count q) = a_len q")
    case True
    then show ?thesis using queue_push_full [OF Suc.prems(1) True] Suc.prems le by auto
  next
    case False
    then have "Suc (q_count q) < a_len q" using q_count_less [OF Suc.prems(1)] by simp
    then show ?thesis using queue_push_ok [OF Suc.prems(1), of "ptr_bytes elem"] Suc.prems le by fastforce
  qed
  then obtain c q1 where q1: "queue_push q (ptr_bytes elem) = Some (c, q1)" "q_inv q1" "b_size q1 = 4" "a_len q1 = a_len q"
    "contents q1 = map ptr_bytes (es @ take (a_len q - 1 - length es) [elem])" by blast
  define fs where "fs = es @ take (a_len q - 1 - length es) [elem]"
  have sz: "szt (elem + bsz) = elem + bsz" using Suc.prems(6) by (simp add: szt_def)
  show ?case
  proof (cases "n = 0")
    case True
    then show ?thesis using q1 sz by (subst push_elems.simps) simp
  next
    case False
    have "elem + bsz + n * bsz = elem + Suc n * bsz" by simp
    moreover have "elem + bsz \<noteq> elem + Suc n * bsz" using False Suc.prems(4) by simp
    ultimately have e: "push_elems elem bsz (elem + Suc n * bsz) q = push_elems (elem + bsz) bsz (elem + bsz + n * bsz) q1"
      using q1(1) sz by (subst push_elems.simps) (simp add: add.assoc)
    have "elem + bsz + n * bsz < 2 ^ 32" using Suc.prems(6) by simp
    from Suc.IH [OF q1(2,3) q1(5) [folded fs_def] Suc.prems(4) _ this] False obtain q' where q': "push_elems (elem + bsz) bsz (elem + bsz + n * bsz) q1 = Some q'"
      "q_inv q'" "b_size q' = 4" "a_len q' = a_len q" "contents q' = map ptr_bytes (fs @ take (a_len q - 1 - length fs) (map (\<lambda>i. elem + bsz + i * bsz) [0 ..< n]))"
      using q1(4) by auto
    have l: "map (\<lambda>i. elem + i * bsz) [0 ..< Suc n] = elem # map (\<lambda>i. elem + bsz + i * bsz) [0 ..< n]"
      by (simp add: upt_conv_Cons map_Suc_upt [symmetric] del: upt_Suc)
    have "es @ take (a_len q - 1 - length es) (map (\<lambda>i. elem + i * bsz) [0 ..< Suc n]) =
        fs @ take (a_len q - 1 - length fs) (map (\<lambda>i. elem + bsz + i * bsz) [0 ..< n])"
    proof (cases "a_len q - 1 - length es")
      case 0
      then show ?thesis by (simp add: fs_def)
    next
      case (Suc k)
      then have "fs = es @ [elem]" "a_len q - 1 - length fs = k" by (simp_all add: fs_def)
      then show ?thesis unfolding l using Suc by simp
    qed
    then show ?thesis using q' e by simp
  qed
qed simp


lemma held_range:
  assumes "kinv h b" "(p, s, r) \<in> held_blocks b"
  shows "p \<noteq> 0 \<and> p + s \<le> DYNMEM_END"
proof -
  have "24 \<le> p" "(p - 24, s, r) \<in> set b" using assms(2) by (simp_all add: held_mem Kmalloc.live_def)
  then have "blk_ok (dynmemmap_bitmap (dyn h)) (p - 24, s, r)" using kinv_parts(6) [OF assms(1)] by blast
  then show ?thesis using \<open>24 \<le> p\<close> by (auto simp: blk_ok_def)
qed

definition elem_at :: "mempool \<Rightarrow> nat \<Rightarrow> nat \<Rightarrow> nat" where
  "elem_at mp bsz i = mp_data mp + i * bsz"

lemma mempool_init_ok:
  assumes k: "kinv h b" and n: "0 < n" "0 < bsz" "n * bsz < 2 ^ 32" "n < 2 ^ 29" and sz: "size_ok (56 + n * 4)" "size_ok (n * bsz)"
    and i: "mempool_init type bsz n h = Some (p, r, h')"
  shows "(p = 0 \<longleftrightarrow> r = None) \<and> (\<forall>mp. r = Some mp \<longrightarrow> pool_ok mp (map (elem_at mp bsz) [0 ..< n - 1]) \<and> pool_cap mp = n - 1 \<and> mp_type mp = MEMPOOL_TYPE_NONBLOCKING \<and>
    mp_data mp \<noteq> 0 \<and> mp_data mp + n * bsz \<le> DYNMEM_END \<and>
    (\<exists>b' s. kinv h' b' \<and> n * bsz \<le> s \<and> (mp_data mp, s, 1) \<in> held_blocks b' \<and> mp_data mp \<notin> fst ` held_blocks b))"
proof -
  have z: "szt (n * bsz) = n * bsz" "szt (n * 4) = n * 4" "szt (56 + n * 4) = 56 + n * 4" using n by (simp_all add: szt_def)
  obtain q h1 elem where a: "kzalloc (56 + n * 4) h = Some (q, h1)" "kzalloc (n * bsz) h1 = Some (elem, h')"
    using i by (auto simp: mempool_init_def z Let_def split: Option.bind_splits if_splits)
  show ?thesis
  proof (cases "q = 0 \<or> elem = 0")
    case True
    then show ?thesis using i a by (auto simp: mempool_init_def z Let_def)
  next
    case False
    obtain b1 where b1: "kinv h1 b1" "\<exists>t. held_blocks b1 = insert (q, t, 1) (held_blocks b)" using kz.alloc_held [OF k sz(1) a(1)] False by auto
    obtain b' s where b': "kinv h' b'" "n * bsz \<le> s" "held_blocks b' = insert (elem, s, 1) (held_blocks b1)" "elem \<notin> fst ` held_blocks b1"
      using kz.alloc_held [OF b1(1) sz(2) a(2)] False by blast
    have rng: "elem \<noteq> 0" "elem + n * bsz \<le> DYNMEM_END" using held_range [OF b'(1), of elem s 1] b'(2,3) by auto
    then have lt: "elem + n * bsz < 2 ^ 32" by simp
    obtain q0 where q0: "queue_create (replicate (n * 4) 0) 4 (n * 4) = Some q0" "q_inv q0" "contents q0 = []" "a_len q0 = n" "b_size q0 = 4"
      using queue_create_inv [of 4 "n * 4" "replicate (n * 4) 0"] n(1) by auto
    obtain q1 where q1: "push_elems elem bsz (elem + n * bsz) q0 = Some q1" "q_inv q1" "b_size q1 = 4" "a_len q1 = n"
      "contents q1 = map ptr_bytes (take (n - 1) (map (\<lambda>i. elem + i * bsz) [0 ..< n]))"
      using push_elems_ok [OF q0(2,5), of "[]" bsz n elem] q0(3,4) n(1,2) lt by auto
    have t: "take (n - 1) (map (\<lambda>i. elem + i * bsz) [0 ..< n]) = map (\<lambda>i. elem + i * bsz) [0 ..< n - 1]" by (simp add: take_map take_upt)
    have r: "p = q" "r = Some \<lparr>mp_head = q1, mp_type = 0, mp_sema = (if type = 1 then s32 (int n - 1) else 0), mp_data = elem\<rparr>"
      using i a False q0(1) q1(1) lt szt_id [OF lt] by (simp_all add: mempool_init_def z Let_def)
    have "elem + i * bsz \<noteq> 0 \<and> elem + i * bsz < 2 ^ 32" if "i < n - 1" for i
    proof -
      have "i * bsz \<le> n * bsz" using that by (intro mult_le_mono1) simp
      then have "elem + i * bsz \<le> elem + n * bsz" by (rule add_left_mono)
      then show ?thesis using rng(1) lt by linarith
    qed
    then have val: "\<forall>x \<in> set (map (\<lambda>i. elem + i * bsz) [0 ..< n - 1]). x \<noteq> 0 \<and> x < 2 ^ 32" by auto
    define mp where "mp = \<lparr>mp_head = q1, mp_type = 0, mp_sema = (if type = 1 then s32 (int n - 1) else 0), mp_data = elem\<rparr>"
    have e: "elem_at mp bsz = (\<lambda>i. elem + i * bsz)" by (simp add: elem_at_def fun_eq_iff mp_def)
    have "pool_ok mp (map (elem_at mp bsz) [0 ..< n - 1])"
      unfolding pool_ok_def e using val q1(2,3,5) t by (simp add: mp_def)
    moreover have "pool_cap mp = n - 1" using q1(4) by (simp add: pool_cap_def mp_def)
    ultimately have ok: "pool_ok mp (map (elem_at mp bsz) [0 ..< n - 1])" "pool_cap mp = n - 1" by simp_all
    have "elem \<notin> fst ` held_blocks b" using b'(4) b1(2) by auto
    then show ?thesis using ok rng b' False unfolding r mp_def by auto
  qed
qed

section \<open>Properties\<close>

text \<open>A pool in use: \<open>H\<close> are the elements that are out.\<close>

inductive pool_use :: "mempool \<Rightarrow> mempool \<Rightarrow> nat set \<Rightarrow> bool" for mp0 where
  start: "pool_use mp0 mp0 {}"
| get: "pool_use mp0 mp H \<Longrightarrow> mempool_get mp = Some (e, mp') \<Longrightarrow> pool_use mp0 mp' (if e = 0 then H else insert e H)"
| put: "pool_use mp0 mp H \<Longrightarrow> e \<in> H \<Longrightarrow> mempool_return e mp = Some mp' \<Longrightarrow> pool_use mp0 mp' (H - {e})"

lemma pool_use_shared:
  assumes "mpool.shared mp0 A {}" "pool_use mp0 mp H"
  shows "mpool.shared mp A H"
  using assms(2)
proof induction
  case start
  then show ?case by (rule assms(1))
next
  case (get mp H e mp')
  from mpool.shared_get [OF get.IH] get.hyps(2) get.IH have "if H = A then e = 0 \<and> mp' = mp else e \<in> A - H \<and> mpool.shared mp' A (insert e H)" by auto
  moreover have "0 \<notin> A" using assms(1) by (auto simp: mpool.shared_def)
  ultimately show ?case using get.IH by (auto split: if_splits)
next
  case (put mp H e mp')
  obtain m' where "mempool_return e mp = Some m'" "mpool.shared m' A (H - {e})" using mpool.shared_put [OF put.IH put.hyps(2)] by blast
  then show ?case using put.hyps(3) by simp
qed

text \<open>
  C4: Object pools. A pool made for \<open>n\<close> elements of \<open>bsz\<close> bytes owns a block of the kernel heap of at least
  that size. In every later state, whoever takes and gives back elements, mempool_get
  returns, and it returns the address of one of the first \<open>n - 1\<close> slices of that block that nobody
  holds, or NULL exactly when all of them are out; what is given back goes into the pool again.
\<close>

theorem mempool_exclusive:
  assumes "kinv h b" and "0 < n" and "0 < bsz" and "n * bsz < 2 ^ 32" and "n < 2 ^ 29" and "size_ok (56 + n * 4)" and "size_ok (n * bsz)"
    and "mempool_init type bsz n h = Some (p, Some mp0, h')" and "pool_use mp0 mp H"
  shows "(\<exists>b' s. kinv h' b' \<and> n * bsz \<le> s \<and> (mp_data mp0, s, 1) \<in> held_blocks b' \<and> mp_data mp0 \<notin> fst ` held_blocks b) \<and>
    H \<subseteq> elem_at mp0 bsz ` {..< n - 1} \<and>
    (\<exists>e mp'. mempool_get mp = Some (e, mp') \<and> e \<notin> H \<and>
      (if card H = n - 1 then e = 0 \<and> mp' = mp else \<exists>i < n - 1. e = elem_at mp0 bsz i \<and> e \<noteq> 0)) \<and>
    (\<forall>e \<in> H. mempool_return e mp \<noteq> None)"
proof -
  note ok = mempool_init_ok [OF assms(1-8)]
  let ?A = "elem_at mp0 bsz ` {..< n - 1}"
  have inj: "inj_on (elem_at mp0 bsz) {..< n - 1}" using assms(3) by (auto simp: inj_on_def elem_at_def)
  have "distinct (map (elem_at mp0 bsz) [0 ..< n - 1])" using inj by (simp add: distinct_map atLeast0LessThan)
  then have "mpool.shared mp0 ?A {}" using mpool.shared_start [of mp0 "map (elem_at mp0 bsz) [0 ..< n - 1]"] ok by (simp add: atLeast0LessThan)
  from pool_use_shared [OF this assms(9)] have sh: "mpool.shared mp ?A H" .
  have HA: "H \<subseteq> ?A" "finite ?A" "0 \<notin> ?A" using sh unfolding mpool.shared_def by blast+
  have c: "card ?A = n - 1" using inj by (simp add: card_image)
  have full: "card H = n - 1 \<longleftrightarrow> H = ?A" using card_subset_eq [OF HA(2,1)] c by auto
  from mpool.shared_get [OF sh] obtain e mp' where gm: "mempool_get mp = Some (e, mp')"
    "if H = ?A then e = 0 \<and> mp' = mp else e \<in> ?A - H \<and> mpool.shared mp' ?A (insert e H)" by blast
  have "\<exists>e mp'. mempool_get mp = Some (e, mp') \<and> e \<notin> H \<and>
      (if card H = n - 1 then e = 0 \<and> mp' = mp else \<exists>i < n - 1. e = elem_at mp0 bsz i \<and> e \<noteq> 0)"
  proof (cases "H = ?A")
    case True
    then show ?thesis using gm HA(3) unfolding full by auto
  next
    case False
    then obtain i where "i < n - 1" "e = elem_at mp0 bsz i" "e \<notin> H" using gm(2) by auto
    moreover from this have "e \<noteq> 0" using HA(3) by auto
    ultimately show ?thesis using gm(1) False unfolding full by auto
  qed
  moreover have "\<forall>e \<in> H. mempool_return e mp \<noteq> None" using mpool.shared_put [OF sh] by auto
  ultimately show ?thesis using ok HA(1) by auto
qed

lemma demo_pool:
  "\<exists>p mp0 h'. mempool_init MEMPOOL_TYPE_NONBLOCKING 8 3 (kheap_boot (dynmem_boot (\<lambda>_. 0))) = Some (p, Some mp0, h')"
proof -
  have "\<exists>h1 h2. kzalloc 68 (kheap_boot (dynmem_boot (\<lambda>_. 0))) = Some (0x800018, h1) \<and> kzalloc 24 h1 = Some (0x800074, h2)"
    by (subst kzalloc_def, simp add: heap_eval zero_mem_def, subst kzalloc_def, simp add: heap_eval zero_mem_def)
  then obtain h1 h2 where h: "kzalloc 68 (kheap_boot (dynmem_boot (\<lambda>_. 0))) = Some (0x800018, h1)" "kzalloc 24 h1 = Some (0x800074, h2)" by blast
  obtain q0 where q0: "queue_create (replicate 12 0) 4 12 = Some q0" "q_inv q0" "contents q0 = []" "b_size q0 = 4"
    using queue_create_inv [of 4 12 "replicate 12 (0 :: u8)"] by auto
  obtain q1 where "push_elems 0x800074 8 0x80008C q0 = Some q1" using push_elems_ok [OF q0(2,4), where es = "[]" and bsz = 8 and n = 3 and elem = "0x800074"] q0(3) by auto
  then show ?thesis using h q0(1) by (simp add: mempool_init_def szt_def)
qed

theorem mempool_exclusive_witness:
  "\<exists>p mp0 mp1 mp2 e e' h'. mempool_init MEMPOOL_TYPE_NONBLOCKING 8 3 (kheap_boot (dynmem_boot (\<lambda>_. 0))) = Some (p, Some mp0, h') \<and>
     mempool_get mp0 = Some (e, mp1) \<and> e \<noteq> 0 \<and> mempool_get mp1 = Some (e', mp2) \<and> e' \<noteq> e \<and> e' \<noteq> 0 \<and> mempool_get mp2 = Some (0, mp2)"
proof -
  obtain p mp0 h' where i: "mempool_init 0 8 3 (kheap_boot (dynmem_boot (\<lambda>_. 0))) = Some (p, Some mp0, h')" using demo_pool by auto
  have sz: "size_ok (56 + 3 * 4)" "size_ok (3 * 8)" by (simp_all add: size_ok_def room_ok_def memalign_def)
  have n: "0 < (3 :: nat)" "0 < (8 :: nat)" "3 * 8 < (2 :: nat) ^ 32" "(3 :: nat) < 2 ^ 29" by simp_all
  have ex: "\<exists>e mp'. mempool_get mp = Some (e, mp') \<and> e \<notin> H \<and> (if card H = 2 then e = 0 \<and> mp' = mp else e \<noteq> 0)" if "pool_use mp0 mp H" for mp H
    using mempool_exclusive [OF kinv_boot [OF dm_inv_boot] n sz i that, THEN conjunct2, THEN conjunct2, THEN conjunct1] by (cases "card H = 2") auto
  obtain e mp1 where e: "mempool_get mp0 = Some (e, mp1)" "e \<noteq> 0" using ex [OF pool_use.start] by auto
  have u1: "pool_use mp0 mp1 {e}" using pool_use.get [OF pool_use.start e(1)] e(2) by simp
  obtain e' mp2 where e': "mempool_get mp1 = Some (e', mp2)" "e' \<noteq> e" "e' \<noteq> 0" using ex [OF u1] by auto
  have u2: "pool_use mp0 mp2 {e', e}" using pool_use.get [OF u1 e'(1)] e'(3) by simp
  have "mempool_get mp2 = Some (0, mp2)" using ex [OF u2] e'(2) by auto
  then show ?thesis using i e e' by auto
qed

text \<open>The pool type is never stored: a pool made as a blocking one answers NULL when it is empty instead of
  waiting, and its semaphore is never used.\<close>

lemma blocking_pool_does_not_block:
  assumes "mempool_init MEMPOOL_TYPE_BLOCKING bsz n h = Some (p, Some mp, h')" and "q_inv (mp_head mp)" and "contents (mp_head mp) = []"
  shows "mempool_get mp = Some (0, mp)"
proof -
  have "mp_type mp = 0" using assms(1) by (auto simp: mempool_init_def Let_def bind_eq_Some_conv split: prod.splits if_splits)
  then show ?thesis using queue_pop_empty [OF assms(2,3)] by (simp add: mempool_get_def)
qed

text \<open>When only one of the two blocks can be allocated the other one is never freed.\<close>

lemma mempool_init_leaks:
  assumes "kzalloc (szt (SIZEOF_MEMPOOL + szt (n * 4))) h = Some (p, h1)" and "kzalloc (szt (n * bsz)) h1 = Some (0, h2)"
  shows "mempool_init type bsz n h = Some (0, None, h2)"
  using assms by (simp add: mempool_init_def)

end
