(* ===== verification/Process.thy ===== *)
theory Process
  imports Mempool
begin

text \<open>
  Processes (\<^verbatim>\<open>src/kern/proc.c\<close>, \<^verbatim>\<open>src/kern/proc_fork.c\<close>): the process table, process numbers, the family
  tree, \<open>fork\<close>, the end of a process and \<open>wait\<close>. Process structures are elements of an object pool,
  except that of process 0; their memory keeps its contents in the pool. What \<open>fork\<close> does to memory, files and
  threads is an argument, as its outcome decides the path. Descriptors, process groups, credentials and signals of a
  process have their own theories; their calls are left out here, but for the assertion that a
  process has a descriptor table. \<open>proc_ref\<close> is \<open>proc_get_struct\<close>: a reference counts, if at all, on
  the block of the whole pool and does not keep a process from being removed. The step relation below interleaves the
  calls of all processes; within one call the locks of the table and of the lists are held around each access.
  \<open>None\<close> is a panic, a failed \<open>KASSERT\<close>, a null pointer or a loop that does not end.
\<close>

section \<open>Data\<close>

abbreviation (input) ECHILD :: int where "ECHILD \<equiv> 12"
abbreviation (input) ENOTSUP :: int where "ENOTSUP \<equiv> 61"
abbreviation (input) EAGAIN :: int where "EAGAIN \<equiv> 6"
abbreviation (input) WNOHANG :: u32 where "WNOHANG \<equiv> 2"
abbreviation (input) WNOWAIT :: u32 where "WNOWAIT \<equiv> 8"
abbreviation (input) CLD_DUMPED :: int where "CLD_DUMPED \<equiv> 27"

datatype proc_state = PROC_STATE_INITIAL | PROC_STATE_READY | PROC_STATE_STOPPED | PROC_STATE_ZOMBIE | PROC_STATE_DEFUNCT

record tms =
  tms_utime :: u32
  tms_stime :: u32
  tms_cutime :: u32
  tms_cstime :: u32

text \<open>\<open>exit_ksiginfo\<close> has the signal number and the code; \<open>pfiles\<close> is the address of the descriptor table.\<close>

record proc_info =
  ppid :: int
  pstate :: proc_state
  exit_code :: int
  exit_ksiginfo :: "(int \<times> int) option"
  ptms :: tms
  pfiles :: nat
  inh_parent :: nat
  child_list :: "nat list"
  main_thread :: "int option"

record ptable =
  maxproc :: nat
  procarr :: "nat list"
  nprocs :: int
  proc_lastpid :: int
  proc_pool :: mempool
  procs :: "nat \<rightharpoonup> proc_info"

definition upd_proc :: "nat \<Rightarrow> (proc_info \<Rightarrow> proc_info) \<Rightarrow> ptable \<Rightarrow> ptable option" where
  "upd_proc p f st = do { P \<leftarrow> procs st p; Some (st\<lparr>procs := (procs st)(p \<mapsto> f P)\<rparr>) }"

section \<open>The table\<close>

definition proc_get_struct :: "int \<Rightarrow> ptable \<Rightarrow> nat option" where
  "proc_get_struct pid st = (if 0 > pid \<or> pid > int (maxproc st) then Some 0 else rd (procarr st) (nat pid))"

definition procarr_insert :: "nat \<Rightarrow> ptable \<Rightarrow> ptable option" where
  "procarr_insert p st = do {
     P \<leftarrow> procs st p;
     if ppid P > int (maxproc st) \<or> ppid P < 0 then Some st
     else do {
       a \<leftarrow> wr (procarr st) (nat (ppid P)) p;
       Some (st\<lparr>procarr := a, nprocs := nprocs st + 1\<rparr>) } }"

definition procarr_remove :: "int \<Rightarrow> ptable \<Rightarrow> ptable option" where
  "procarr_remove pid st =
     (if pid > int (maxproc st) \<or> pid < 0 then Some st
      else do {
        a \<leftarrow> wr (procarr st) (nat pid) 0;
        Some (st\<lparr>procarr := a, nprocs := nprocs st - 1\<rparr>) })"

definition proc_exists_locked :: "int \<Rightarrow> ptable \<Rightarrow> bool option" where
  "proc_exists_locked pid st = do { p \<leftarrow> proc_get_struct pid st; Some (p \<noteq> 0) }"

text \<open>\<open>proc_get_pids\<close>: what it writes to the front of the buffer.\<close>

fun get_pids_loop :: "ptable \<Rightarrow> nat list \<Rightarrow> int list option" where
  "get_pids_loop st [] = Some []"
| "get_pids_loop st (i # is) = do {
     p \<leftarrow> rd (procarr st) i;
     if p = 0 then get_pids_loop st is
     else do {
       P \<leftarrow> procs st p;
       l \<leftarrow> get_pids_loop st is;
       Some (ppid P # l) } }"

definition proc_get_pids :: "ptable \<Rightarrow> int list option" where
  "proc_get_pids st = get_pids_loop st [1 ..< maxproc st + 1]"

section \<open>Process numbers\<close>

definition pid_reset :: "nat \<Rightarrow> int" where
  "pid_reset maxp = (if maxp < 20 then 2 else if maxp < 200 then int (maxp div 2) else 200)"

partial_function (option) next_pid_loop :: "int \<Rightarrow> ptable \<Rightarrow> int option" where
  "next_pid_loop newpid st = do {
     e \<leftarrow> proc_exists_locked newpid st;
     if e then (let newpid = newpid + 1
                in next_pid_loop (if newpid > int (maxproc st) then pid_reset (maxproc st) else newpid) st)
     else Some newpid }"

definition proc_get_next_pid :: "ptable \<Rightarrow> (int \<times> ptable) option" where
  "proc_get_next_pid st = do {
     n \<leftarrow> next_pid_loop (if proc_lastpid st \<ge> int (maxproc st) then pid_reset (maxproc st) else proc_lastpid st + 1) st;
     Some (n, st\<lparr>proc_lastpid := n\<rparr>) }"

section \<open>Ending\<close>

definition proc_free :: "nat \<Rightarrow> ptable \<Rightarrow> ptable option" where
  "proc_free p st = (if p = 0 then Some st
     else do {
       P \<leftarrow> procs st p;
       if pfiles P = 0 then None
       else do {
         m \<leftarrow> mempool_return p (proc_pool st);
         Some (st\<lparr>proc_pool := m\<rparr>) } })"

text \<open>\<open>SLIST_REMOVE\<close> runs off the end of a list that does not have the element.\<close>

definition inh_remove :: "nat \<Rightarrow> nat \<Rightarrow> ptable \<Rightarrow> ptable option" where
  "inh_remove parent p st = do {
     Q \<leftarrow> procs st parent;
     if p \<in> set (child_list Q) then upd_proc parent (\<lambda>Q. Q\<lparr>child_list := remove1 p (child_list Q)\<rparr>) st else None }"

fun adopt :: "nat \<Rightarrow> nat \<Rightarrow> nat list \<Rightarrow> ptable \<Rightarrow> ptable option" where
  "adopt p init [] st = Some st"
| "adopt p init (c # cs) st = do {
     st \<leftarrow> inh_remove p c st;
     st \<leftarrow> upd_proc c (\<lambda>C. C\<lparr>inh_parent := init\<rparr>) st;
     st \<leftarrow> upd_proc init (\<lambda>I. I\<lparr>child_list := c # child_list I\<rparr>) st;
     adopt p init cs st }"

definition adopt_children :: "nat \<Rightarrow> ptable \<Rightarrow> ptable option" where
  "adopt_children p st = do {
     P \<leftarrow> procs st p;
     if child_list P \<noteq> [] then do {
       init \<leftarrow> proc_get_struct 1 st;
       if init = 0 then None else adopt p init (child_list P) st }
     else Some st }"

definition proc_remove :: "nat \<Rightarrow> ptable \<Rightarrow> ptable option" where
  "proc_remove p st = do {
     st \<leftarrow> upd_proc p (\<lambda>P. P\<lparr>pstate := PROC_STATE_DEFUNCT\<rparr>) st;
     P \<leftarrow> procs st p;
     st \<leftarrow> (if inh_parent P \<noteq> 0 then inh_remove (inh_parent P) p st else Some st);
     st \<leftarrow> adopt_children p st;
     st \<leftarrow> proc_free p st;
     P \<leftarrow> procs st p;
     procarr_remove (ppid P) st }"

text \<open>\<open>sig\<close> is the signal that ended the thread, if one did.\<close>

definition proc_thread_removed :: "int \<Rightarrow> int \<Rightarrow> (int \<times> int) option \<Rightarrow> ptable \<Rightarrow> ptable option" where
  "proc_thread_removed pid tid sig st = do {
     p \<leftarrow> proc_get_struct pid st;
     if p = 0 then Some st
     else do {
       P \<leftarrow> procs st p;
       if main_thread P = Some tid
       then upd_proc p (\<lambda>P. P\<lparr>exit_ksiginfo := (if sig = None then exit_ksiginfo P else sig), main_thread := None, pstate := PROC_STATE_ZOMBIE\<rparr>) st
       else Some st } }"

definition sys_proc_exit :: "nat \<Rightarrow> int \<Rightarrow> ptable \<Rightarrow> ptable option" where
  "sys_proc_exit cur errno st = do {
     P \<leftarrow> procs st cur;
     if inh_parent P = 0 then None
     else upd_proc cur (\<lambda>P. P\<lparr>exit_code := errno\<rparr>) st }"

section \<open>Fork\<close>

text \<open>The outcome of the parts of \<open>proc_fork\<close> that are not modelled here: the value of the calls that set up
  the memory, the address of the descriptor table and the new main thread.\<close>

record fork_env =
  fk_vm :: int
  fk_files :: nat
  fk_thread :: "int option"

definition clone_proc_info :: "nat \<Rightarrow> ptable \<Rightarrow> (nat \<times> ptable) option" where
  "clone_proc_info old st = do {
     (new, m) \<leftarrow> mempool_get (proc_pool st);
     let st = st\<lparr>proc_pool := m\<rparr>;
     if new = 0 then Some (0, st)
     else do {
       P \<leftarrow> procs st old;
       Some (new, st\<lparr>procs := (procs st)(new \<mapsto> P)\<rparr>) } }"

definition set_proc_inher :: "nat \<Rightarrow> nat \<Rightarrow> ptable \<Rightarrow> ptable option" where
  "set_proc_inher old new st = do {
     st \<leftarrow> upd_proc new (\<lambda>P. P\<lparr>inh_parent := old, child_list := []\<rparr>) st;
     upd_proc old (\<lambda>P. P\<lparr>child_list := new # child_list P\<rparr>) st }"

definition proc_fork :: "fork_env \<Rightarrow> nat \<Rightarrow> ptable \<Rightarrow> (int \<times> ptable) option" where
  "proc_fork env cur st =
     (if cur = 0 then Some (- EINVAL, st)
      else do {
        O' \<leftarrow> procs st cur;
        if pstate O' = PROC_STATE_INITIAL then Some (- EINVAL, st)
        else do {
          (new, st) \<leftarrow> clone_proc_info cur st;
          if new = 0 then Some (- ENOMEM, st)
          else do {
            st \<leftarrow> upd_proc new (\<lambda>P. P\<lparr>pstate := PROC_STATE_INITIAL, exit_ksiginfo := None, pfiles := 0,
                ptms := \<lparr>tms_utime = 0, tms_stime = 0, tms_cutime = 0, tms_cstime = 0\<rparr>\<rparr>) st;
            (r, st) \<leftarrow>
              (if fk_vm env \<noteq> 0 then Some (fk_vm env, st)
               else if fk_files env = 0 then Some (- ENOMEM, st)
               else do {
                 st \<leftarrow> upd_proc new (\<lambda>P. P\<lparr>pfiles := fk_files env\<rparr>) st;
                 (pid, st) \<leftarrow> proc_get_next_pid st;
                 st \<leftarrow> upd_proc new (\<lambda>P. P\<lparr>ppid := pid\<rparr>) st;
                 st \<leftarrow> set_proc_inher cur new st;
                 st \<leftarrow> procarr_insert new st;
                 if main_thread O' \<noteq> None then
                   (case fk_thread env of
                      None \<Rightarrow> do {
                        st \<leftarrow> upd_proc new (\<lambda>P. P\<lparr>main_thread := None\<rparr>) st;
                        Some (- EAGAIN, st) }
                    | Some tid \<Rightarrow> do {
                        st \<leftarrow> upd_proc new (\<lambda>P. P\<lparr>main_thread := Some tid, pstate := PROC_STATE_READY\<rparr>) st;
                        Some (pid, st) })
                 else do {
                   st \<leftarrow> upd_proc new (\<lambda>P. P\<lparr>main_thread := None, pstate := PROC_STATE_READY\<rparr>) st;
                   Some (pid, st) } });
            if r < 0 then do { st \<leftarrow> proc_free new st; Some (r, st) } else Some (r, st) } } })"

text \<open>\<open>exec\<close> and the start of process 1 set the main thread.\<close>

definition set_main_thread :: "nat \<Rightarrow> int option \<Rightarrow> ptable \<Rightarrow> ptable option" where
  "set_main_thread p t st = upd_proc p (\<lambda>P. P\<lparr>main_thread := t\<rparr>) st"

definition create_init :: "fork_env \<Rightarrow> nat \<Rightarrow> int \<Rightarrow> ptable \<Rightarrow> ptable option" where
  "create_init env cur tid st = do {
     (pid, st) \<leftarrow> proc_fork env cur st;
     if pid \<le> 0 then None
     else do {
       p \<leftarrow> proc_get_struct pid st;
       if p = 0 then None
       else do {
         P \<leftarrow> procs st p;
         if pstate P = PROC_STATE_INITIAL then None else set_main_thread p (Some tid) st } } }"

section \<open>Wait\<close>

text \<open>The choice of the child: an error number or its address.\<close>

definition wait_select :: "nat \<Rightarrow> int \<Rightarrow> ptable \<Rightarrow> (int + nat) option" where
  "wait_select cur pid st = do {
     C \<leftarrow> procs st cur;
     if pid = 0 then Some (Inl ENOTSUP)
     else if pid = - 1 then Some (case child_list C of [] \<Rightarrow> Inl ECHILD | c # _ \<Rightarrow> Inr c)
     else if pid < - 1 then Some (Inl ENOTSUP)
     else do {
       p \<leftarrow> proc_get_struct pid st;
       if p = 0 \<or> child_list C = [] then Some (Inl ECHILD)
       else do {
         P \<leftarrow> procs st p;
         Some (if list_ex (\<lambda>c. map_option ppid (procs st c) = Some (ppid P)) (child_list C) then Inr p else Inl ECHILD) } } }"

definition wait_status :: "proc_info \<Rightarrow> u32" where
  "wait_status C =
     (let s = push_bit 8 (word_of_int (exit_code C) AND 0xFF)
      in case exit_ksiginfo C of
           None \<Rightarrow> s
         | Some (signo, code) \<Rightarrow> s OR (word_of_int signo AND 0x7F) OR (if code = CLD_DUMPED then 0x80 else 0))"

datatype wait_result = Wait_error int | Wait_none | Wait_blocked nat | Wait_done int u32

text \<open>A call that would sleep is \<open>Wait_blocked\<close> with the child; when it looks again it goes on as here.\<close>

definition wait_on :: "nat \<Rightarrow> nat \<Rightarrow> u32 \<Rightarrow> ptable \<Rightarrow> (wait_result \<times> ptable) option" where
  "wait_on cur child options st = do {
     C \<leftarrow> procs st child;
     if pstate C \<noteq> PROC_STATE_ZOMBIE then Some (Wait_blocked child, st)
     else if options AND WNOWAIT \<noteq> 0 then Some (Wait_done (ppid C) (wait_status C), st)
     else do {
       st \<leftarrow> upd_proc cur (\<lambda>P. P\<lparr>ptms := (ptms P)\<lparr>tms_cutime := tms_cutime (ptms P) + tms_utime (ptms C),
           tms_cstime := tms_cstime (ptms P) + tms_stime (ptms C)\<rparr>\<rparr>) st;
       st \<leftarrow> proc_remove child st;
       Some (Wait_done (ppid C) (wait_status C), st) } }"

definition sys_proc_wait :: "nat \<Rightarrow> int \<Rightarrow> u32 \<Rightarrow> ptable \<Rightarrow> (wait_result \<times> ptable) option" where
  "sys_proc_wait cur pid options st = do {
     s \<leftarrow> wait_select cur pid st;
     case s of
       Inl e \<Rightarrow> Some (Wait_error e, st)
     | Inr child \<Rightarrow> do {
         C \<leftarrow> procs st child;
         if options AND WNOHANG \<noteq> 0 \<and> pstate C \<noteq> PROC_STATE_ZOMBIE then Some (Wait_none, st)
         else wait_on cur child options st } }"

definition sys_proc_getppid :: "nat \<Rightarrow> ptable \<Rightarrow> int option" where
  "sys_proc_getppid cur st = do {
     P \<leftarrow> procs st cur;
     if inh_parent P = 0 then Some 0 else do { Q \<leftarrow> procs st (inh_parent P); Some (ppid Q) } }"


section \<open>Views\<close>

definition pidof :: "ptable \<Rightarrow> nat \<Rightarrow> int" where
  "pidof st p = ppid (the (procs st p))"

definition kids :: "ptable \<Rightarrow> nat \<Rightarrow> nat list" where
  "kids st p = child_list (the (procs st p))"

definition par :: "ptable \<Rightarrow> nat \<Rightarrow> nat" where
  "par st p = inh_parent (the (procs st p))"

definition stateof :: "ptable \<Rightarrow> nat \<Rightarrow> proc_state" where
  "stateof st p = pstate (the (procs st p))"

definition filesof :: "ptable \<Rightarrow> nat \<Rightarrow> nat" where
  "filesof st p = pfiles (the (procs st p))"

lemmas view_defs = pidof_def kids_def par_def stateof_def filesof_def

definition pset :: "nat \<Rightarrow> (proc_info \<Rightarrow> proc_info) \<Rightarrow> ptable \<Rightarrow> ptable" where
  "pset p f st = st\<lparr>procs := (procs st)(p := map_option f (procs st p))\<rparr>"

lemma upd_proc_pset: "procs st p \<noteq> None \<Longrightarrow> upd_proc p f st = Some (pset p f st)"
  by (auto simp: upd_proc_def pset_def)

lemma pset_simps [simp]: "procarr (pset p f st) = procarr st" "maxproc (pset p f st) = maxproc st" "nprocs (pset p f st) = nprocs st"
  "proc_lastpid (pset p f st) = proc_lastpid st" "proc_pool (pset p f st) = proc_pool st" "dom (procs (pset p f st)) = dom (procs st)"
  "procs (pset p f st) q = (if q = p then map_option f (procs st p) else procs st q)"
  by (auto simp: pset_def)

text \<open>The table: live processes are at their numbers, and only they are in the table. \<open>A\<close> are the elements of the
  pool, \<open>H\<close> those in use, \<open>K\<close> is process 0.\<close>

definition base :: "nat set \<Rightarrow> nat \<Rightarrow> nat set \<Rightarrow> ptable \<Rightarrow> bool" where
  "base A K H st \<longleftrightarrow> mpool.shared (proc_pool st) A H \<and> K \<notin> A \<and> K \<noteq> 0 \<and> insert K A \<subseteq> dom (procs st) \<and>
     2 \<le> maxproc st \<and> maxproc st < length (procarr st) \<and> 0 \<le> proc_lastpid st \<and> proc_lastpid st \<le> int (maxproc st) \<and>
     nprocs st = 1 + int (card H) \<and> pidof st K = 0 \<and> card A = maxproc st - 1"

definition table :: "nat set \<Rightarrow> ptable \<Rightarrow> bool" where
  "table L st \<longleftrightarrow> (\<forall>p \<in> L. 0 \<le> pidof st p \<and> pidof st p \<le> int (maxproc st) \<and> procarr st ! nat (pidof st p) = p) \<and>
     (\<forall>i \<le> maxproc st. procarr st ! i \<noteq> 0 \<longrightarrow> procarr st ! i \<in> L \<and> pidof st (procarr st ! i) = int i)"

text \<open>The family tree: a process is once in the list of its parent and in no other list.\<close>

definition family :: "nat \<Rightarrow> nat set \<Rightarrow> ptable \<Rightarrow> bool" where
  "family K L st \<longleftrightarrow> par st K = 0 \<and> (\<forall>q \<in> L - {K}. par st q \<in> L) \<and>
     (\<forall>p \<in> L. distinct (kids st p) \<and> set (kids st p) = {q \<in> L. par st q = p})"

definition states :: "nat set \<Rightarrow> ptable \<Rightarrow> bool" where
  "states L st \<longleftrightarrow> (\<forall>p \<in> L. stateof st p \<in> {PROC_STATE_READY, PROC_STATE_STOPPED, PROC_STATE_ZOMBIE})"

definition init_ok :: "nat \<Rightarrow> nat set \<Rightarrow> ptable \<Rightarrow> bool" where
  "init_ok K H st \<longleftrightarrow> H = {} \<and> proc_lastpid st = 0 \<or> procarr st ! 1 \<in> H \<and> par st (procarr st ! 1) = K"

text \<open>Every process descends from process 0.\<close>

inductive descends :: "ptable \<Rightarrow> nat \<Rightarrow> nat \<Rightarrow> bool" for st K where
  root: "descends st K K"
| child: "q \<noteq> K \<Longrightarrow> descends st K (par st q) \<Longrightarrow> descends st K q"

definition rooted :: "nat \<Rightarrow> nat set \<Rightarrow> ptable \<Rightarrow> bool" where
  "rooted K L st \<longleftrightarrow> (\<forall>q \<in> L. descends st K q)"

definition proc_inv :: "nat set \<Rightarrow> nat \<Rightarrow> nat set \<Rightarrow> ptable \<Rightarrow> bool" where
  "proc_inv A K H st \<longleftrightarrow> base A K H st \<and> table (insert K H) st \<and> (\<forall>p \<in> H. filesof st p \<noteq> 0) \<and> family K (insert K H) st \<and>
     rooted K (insert K H) st \<and> states (insert K H) st \<and> init_ok K H st"

lemma baseD:
  assumes "base A K H st"
  shows "mpool.shared (proc_pool st) A H" "K \<notin> A" "K \<noteq> 0" "p \<in> insert K A \<Longrightarrow> procs st p \<noteq> None" "H \<subseteq> A" "finite H" "0 \<notin> A"
    "2 \<le> maxproc st" "maxproc st < length (procarr st)" "0 \<le> proc_lastpid st" "proc_lastpid st \<le> int (maxproc st)"
    "nprocs st = 1 + int (card H)" "pidof st K = 0" "card A = maxproc st - 1"
  using assms unfolding base_def mpool.shared_def by (auto dest: finite_subset)

lemma proc_invD:
  assumes "proc_inv A K H st"
  shows "base A K H st" "table (insert K H) st" "p \<in> H \<Longrightarrow> filesof st p \<noteq> 0" "family K (insert K H) st" "rooted K (insert K H) st" "states (insert K H) st" "init_ok K H st"
  using assms by (auto simp: proc_inv_def)

lemma familyD:
  assumes "family K L st"
  shows "par st K = 0" "q \<in> L \<Longrightarrow> q \<noteq> K \<Longrightarrow> par st q \<in> L" "p \<in> L \<Longrightarrow> distinct (kids st p)"
    "p \<in> L \<Longrightarrow> set (kids st p) = {q \<in> L. par st q = p}"
  using assms by (auto simp: family_def)

lemma tableD:
  assumes "table L st"
  shows "p \<in> L \<Longrightarrow> 0 \<le> pidof st p \<and> pidof st p \<le> int (maxproc st) \<and> procarr st ! nat (pidof st p) = p"
    "i \<le> maxproc st \<Longrightarrow> procarr st ! i \<noteq> 0 \<Longrightarrow> procarr st ! i \<in> L \<and> pidof st (procarr st ! i) = int i"
  using assms by (auto simp: table_def)

section \<open>Process numbers are free\<close>

lemma exists_iff:
  assumes "maxproc st < length (procarr st)" "0 \<le> n" "n \<le> int (maxproc st)"
  shows "proc_exists_locked n st = Some (procarr st ! nat n \<noteq> 0)"
  using assms by (simp add: proc_exists_locked_def proc_get_struct_def)

lemma pid_reset_range: "2 \<le> m \<Longrightarrow> 2 \<le> pid_reset m \<and> pid_reset m \<le> int m"
  by (auto simp: pid_reset_def)

text \<open>When the search returns, the number is free.\<close>

lemma next_pid_free:
  assumes "next_pid_loop n st = Some r" "1 \<le> n" "n \<le> int (maxproc st)" "2 \<le> maxproc st" "maxproc st < length (procarr st)"
  shows "r \<le> int (maxproc st) \<and> procarr st ! nat r = 0 \<and> (n \<le> r \<or> pid_reset (maxproc st) \<le> r)"
  using assms
proof (induction n st r rule: next_pid_loop.raw_induct [rotated 1, consumes 1, case_names step])
  case (step loop n st r)
  have e: "proc_exists_locked n st = Some (procarr st ! nat n \<noteq> 0)" using step.prems by (intro exists_iff) auto
  show ?case
  proof (cases "procarr st ! nat n = 0")
    case True
    then show ?thesis using step.hyps step.prems e by simp
  next
    case False
    let ?n = "if n + 1 > int (maxproc st) then pid_reset (maxproc st) else n + 1"
    have l: "loop ?n st = Some r" using step.hyps e False by (simp add: Let_def)
    have "1 \<le> ?n" "?n \<le> int (maxproc st)" using pid_reset_range [OF step.prems(3)] step.prems(1,2) by auto
    then have "r \<le> int (maxproc st) \<and> procarr st ! nat r = 0 \<and> (?n \<le> r \<or> pid_reset (maxproc st) \<le> r)"
      using step.IH [OF l] step.prems(3,4) by blast
    then show ?thesis by (auto split: if_splits)
  qed
qed

lemma next_pid_up:
  assumes "1 \<le> n" "n \<le> r" "r \<le> int (maxproc st)" "procarr st ! nat r = 0" "maxproc st < length (procarr st)"
  shows "\<exists>r. next_pid_loop n st = Some r"
  using assms
proof (induction "nat (r - n)" arbitrary: n rule: less_induct)
  case less
  have e: "proc_exists_locked n st = Some (procarr st ! nat n \<noteq> 0)" using less.prems by (intro exists_iff) auto
  show ?case
  proof (cases "procarr st ! nat n = 0")
    case True
    then show ?thesis using e by (subst next_pid_loop.simps) simp
  next
    case False
    then have "n \<noteq> r" using less.prems(4) by auto
    then have "\<exists>q. next_pid_loop (n + 1) st = Some q" using less.prems by (intro less.hyps) auto
    moreover have "\<not> n + 1 > int (maxproc st)" using \<open>n \<noteq> r\<close> less.prems(2,3) by simp
    ultimately show ?thesis using e False by (subst next_pid_loop.simps) (simp add: Let_def)
  qed
qed

lemma next_pid_wrap:
  assumes "1 \<le> n" "n \<le> int (maxproc st)" "\<forall>r. n \<le> r \<and> r \<le> int (maxproc st) \<longrightarrow> procarr st ! nat r \<noteq> 0" "maxproc st < length (procarr st)"
  shows "next_pid_loop n st = next_pid_loop (pid_reset (maxproc st)) st"
  using assms
proof (induction "nat (int (maxproc st) - n)" arbitrary: n rule: less_induct)
  case less
  have e: "proc_exists_locked n st = Some True" using less.prems exists_iff [of st n] by simp
  then show ?case
  proof (cases "n + 1 > int (maxproc st)")
    case True
    then show ?thesis using e by (subst next_pid_loop.simps) (simp add: Let_def)
  next
    case False
    then have "next_pid_loop (n + 1) st = next_pid_loop (pid_reset (maxproc st)) st" using less.prems by (intro less.hyps) auto
    then show ?thesis using e False by (subst next_pid_loop.simps) (simp add: Let_def)
  qed
qed

text \<open>The search ends when, and only when, a number it looks at is free.\<close>

lemma next_pid_ends:
  assumes n: "1 \<le> n" "n \<le> int (maxproc st)" and m: "2 \<le> maxproc st" "maxproc st < length (procarr st)"
  shows "(\<exists>r. next_pid_loop n st = Some r) \<longleftrightarrow>
    (\<exists>r. (n \<le> r \<or> pid_reset (maxproc st) \<le> r) \<and> r \<le> int (maxproc st) \<and> procarr st ! nat r = 0)" (is "?L \<longleftrightarrow> ?R")
proof
  assume ?L
  then show ?R using next_pid_free [OF _ n m] by blast
next
  assume ?R
  then obtain r where r: "n \<le> r \<or> pid_reset (maxproc st) \<le> r" "r \<le> int (maxproc st)" "procarr st ! nat r = 0" by blast
  show ?L
  proof (cases "\<exists>q. n \<le> q \<and> q \<le> int (maxproc st) \<and> procarr st ! nat q = 0")
    case True
    then show ?thesis using next_pid_up [OF n(1) _ _ _ m(2)] by blast
  next
    case False
    then have "\<forall>r. n \<le> r \<and> r \<le> int (maxproc st) \<longrightarrow> procarr st ! nat r \<noteq> 0" by simp
    from next_pid_wrap [OF n this m(2)] have "next_pid_loop n st = next_pid_loop (pid_reset (maxproc st)) st" .
    moreover have "\<exists>q. next_pid_loop (pid_reset (maxproc st)) st = Some q"
    proof (rule next_pid_up)
      show "1 \<le> pid_reset (maxproc st)" using pid_reset_range [OF m(1)] by simp
      show "pid_reset (maxproc st) \<le> r" using r False by blast
    qed (use r m in simp_all)
    ultimately show ?thesis by simp
  qed
qed

section \<open>Fork\<close>

lemma not_own_parent: "descends st K p \<Longrightarrow> p \<noteq> K \<Longrightarrow> par st p \<noteq> p"
  by (induction rule: descends.induct) auto

definition forked_info :: "fork_env \<Rightarrow> nat \<Rightarrow> int \<Rightarrow> proc_info \<Rightarrow> proc_info" where
  "forked_info env cur pid P = P\<lparr>ppid := pid, pstate := PROC_STATE_READY, exit_ksiginfo := None, pfiles := fk_files env,
     ptms := \<lparr>tms_utime = 0, tms_stime = 0, tms_cutime = 0, tms_cstime = 0\<rparr>, inh_parent := cur, child_list := [],
     main_thread := (if main_thread P = None then None else fk_thread env)\<rparr>"

definition forked :: "fork_env \<Rightarrow> nat \<Rightarrow> nat \<Rightarrow> int \<Rightarrow> mempool \<Rightarrow> ptable \<Rightarrow> ptable" where
  "forked env cur new pid m st = st\<lparr>proc_pool := m, proc_lastpid := pid, procarr := (procarr st)[nat pid := new], nprocs := nprocs st + 1,
     procs := (procs st)(new \<mapsto> forked_info env cur pid (the (procs st cur)),
       cur \<mapsto> (the (procs st cur))\<lparr>child_list := new # child_list (the (procs st cur))\<rparr>)\<rparr>"

lemma forked_fields [simp]: "maxproc (forked env cur new pid m st) = maxproc st" "procarr (forked env cur new pid m st) = (procarr st)[nat pid := new]"
  "proc_pool (forked env cur new pid m st) = m" "proc_lastpid (forked env cur new pid m st) = pid" "nprocs (forked env cur new pid m st) = nprocs st + 1"
  by (simp_all add: forked_def)

lemma forked_views:
  assumes "cur \<noteq> new"
  shows "pidof (forked env cur new pid m st) q = (if q = new then pid else pidof st q)"
    "par (forked env cur new pid m st) q = (if q = new then cur else par st q)"
    "kids (forked env cur new pid m st) q = (if q = new then [] else if q = cur then new # kids st cur else kids st q)"
    "stateof (forked env cur new pid m st) q = (if q = new then PROC_STATE_READY else stateof st q)"
    "filesof (forked env cur new pid m st) q = (if q = new then fk_files env else filesof st q)"
    "dom (procs (forked env cur new pid m st)) = insert new (insert cur (dom (procs st)))"
  using assms by (auto simp: view_defs forked_def forked_info_def)

definition first_pid :: "ptable \<Rightarrow> int" where
  "first_pid st = (if proc_lastpid st \<ge> int (maxproc st) then pid_reset (maxproc st) else proc_lastpid st + 1)"

lemma next_pid_loop_imp: "next_pid_loop n st' = Some r \<Longrightarrow> procarr st' = procarr st \<Longrightarrow> maxproc st' = maxproc st \<Longrightarrow> next_pid_loop n st = Some r"
proof (induction n st' r rule: next_pid_loop.raw_induct [rotated 1, consumes 1, case_names step])
  case (step loop n st' r)
  have e: "proc_exists_locked n st' = proc_exists_locked n st" using step.prems by (simp add: proc_exists_locked_def proc_get_struct_def)
  show ?case
    using step.hyps step.IH step.prems unfolding e by (subst next_pid_loop.simps) (auto simp: Let_def split: Option.bind_splits if_splits)
qed

lemma next_pid_loop_table:
  assumes "procarr st' = procarr st" "maxproc st' = maxproc st"
  shows "next_pid_loop n st' = next_pid_loop n st"
  using next_pid_loop_imp [OF _ assms, of n] next_pid_loop_imp [OF _ assms [symmetric], of n]
  by (cases "next_pid_loop n st'"; cases "next_pid_loop n st") auto

lemma next_pid_eval:
  assumes "procarr s = procarr st" "maxproc s = maxproc st" "proc_lastpid s = proc_lastpid st"
  shows "proc_get_next_pid s = map_option (\<lambda>pid. (pid, s\<lparr>proc_lastpid := pid\<rparr>)) (next_pid_loop (first_pid st) st)"
  using next_pid_loop_table [OF assms(1,2)] assms(2,3) by (cases "next_pid_loop (first_pid st) st") (simp_all add: first_pid_def proc_get_next_pid_def split: if_splits)

lemma fork_eval:
  assumes e: "fk_vm env = 0" "fk_files env \<noteq> 0" "fk_thread env \<noteq> None"
    and c: "cur \<noteq> 0" "new \<noteq> 0" "procs st cur = Some P" "pstate P \<noteq> PROC_STATE_INITIAL" "cur \<noteq> new"
    and g: "mempool_get (proc_pool st) = Some (new, m)" and n: "next_pid_loop (first_pid st) st = Some pid"
    and r: "0 \<le> pid" "pid \<le> int (maxproc st)" "maxproc st < length (procarr st)"
  shows "proc_fork env cur st = Some (pid, forked env cur new pid m st)"
proof -
  obtain t where t: "fk_thread env = Some t" using e(3) by auto
  have l: "nat pid < length (procarr st)" using r by simp
  show ?thesis
    using e(1,2) c g r t l
    by (cases P) (simp add: proc_fork_def clone_proc_info_def upd_proc_def next_pid_eval [of _ st] n set_proc_inher_def procarr_insert_def forked_def forked_info_def Let_def fun_upd_twist)
qed

lemma forked_table:
  assumes t: "table L st" and n: "new \<notin> L" "0 \<notin> L" "cur \<in> L" and p: "0 \<le> pid" "pid \<le> int (maxproc st)" "procarr st ! nat pid = 0" "nat pid < length (procarr st)"
  shows "table (insert new L) (forked env cur new pid m st)" (is "table _ ?s")
proof -
  have "cur \<noteq> new" using n(1,3) by auto
  note v = forked_views(1) [OF this, of env pid m st]
  have pk: "pidof st q \<noteq> pid" if "q \<in> L" for q using tableD(1) [OF t that] p(3) that n(2) by metis
  show ?thesis
    unfolding table_def
  proof (intro conjI ballI allI impI)
    fix q assume q: "q \<in> insert new L"
    show "0 \<le> pidof ?s q" "pidof ?s q \<le> int (maxproc ?s)" "procarr ?s ! nat (pidof ?s q) = q"
      using q tableD(1) [OF t, of q] pk [of q] n(1) p by (auto simp: v nth_list_update)
  next
    fix k assume k: "k \<le> maxproc ?s" "procarr ?s ! k \<noteq> 0"
    show "procarr ?s ! k \<in> insert new L" "pidof ?s (procarr ?s ! k) = int k"
      using k tableD(2) [OF t, of k] n(1) p by (cases "k = nat pid"; auto simp: v nth_list_update)+
  qed
qed

lemma forked_family:
  assumes f: "family K L st" and n: "new \<notin> L" "new \<noteq> 0" "cur \<in> L" "K \<in> L"
  shows "family K (insert new L) (forked env cur new pid m st)" (is "family _ _ ?s")
proof -
  have c: "cur \<noteq> new" "K \<noteq> new" using n(1,3,4) by auto
  note v = forked_views(2,3) [OF c(1), of env pid m st] and f = familyD [OF f]
  show ?thesis
    unfolding family_def
  proof (intro conjI ballI)
    show "par ?s K = 0" using f(1) c(2) by (simp add: v)
    fix q assume "q \<in> insert new L - {K}"
    then show "par ?s q \<in> insert new L" using f(2) [of q] n(3) by (auto simp: v)
  next
    fix p assume p: "p \<in> insert new L"
    have un: "par st q \<noteq> new" if "q \<in> L" for q using f(1) f(2) [OF that] n(1,2) by (cases "q = K") auto
    show "distinct (kids ?s p)" using p f(3,4) n by (auto simp: v)
    show "set (kids ?s p) = {q \<in> insert new L. par ?s q = p}" using p f(4) [of p] un n by (auto simp: v)
  qed
qed

lemma forked_rooted:
  assumes f: "family K L st" and r: "rooted K L st" and n: "new \<notin> L" "cur \<in> L" "K \<in> L"
  shows "rooted K (insert new L) (forked env cur new pid m st)" (is "rooted _ _ ?s")
proof -
  have c: "cur \<noteq> new" "new \<noteq> K" using n by auto
  note v = forked_views(2) [OF c(1), of env pid m st]
  have up: "q \<in> L \<Longrightarrow> descends ?s K q" if "descends st K q" for q
    using that
  proof induction
    case (child q)
    then have "par ?s q = par st q" using n(1) by (auto simp: v)
    then show ?case using child.IH familyD(2) [OF f child.prems child.hyps(1)] by (intro descends.child [OF child.hyps(1)]) simp
  qed (rule descends.root)
  then have "descends ?s K q" if "q \<in> L" for q using that r by (auto simp: rooted_def)
  moreover from this have "descends ?s K new" using n(2) descends.child [OF c(2), of ?s] by (simp add: v)
  ultimately show ?thesis by (auto simp: rooted_def)
qed

lemma fork_keeps:
  assumes i: "proc_inv A K H st" and c: "cur \<in> insert K H" and e: "fk_files env \<noteq> 0"
    and n: "new \<in> A - H" "mpool.shared m A (insert new H)" "next_pid_loop (first_pid st) st = Some pid"
  shows "proc_inv A K (insert new H) (forked env cur new pid m st)" and "1 \<le> pid" and "pid \<le> int (maxproc st)" and "procarr st ! nat pid = 0"
proof -
  note b = baseD [OF proc_invD(1) [OF i]]
  let ?s = "forked env cur new pid m st" and ?L = "insert K H"
  have z: "0 \<notin> ?L" using b(3,5,7) by auto
  have nw: "new \<notin> ?L" "new \<noteq> cur" "new \<noteq> 0" using n(1) b(2,5,7) c by (auto intro: ccontr)
  have "1 \<le> first_pid st" "first_pid st \<le> int (maxproc st)" using b(8,10) pid_reset_range [OF b(8)] by (auto simp: first_pid_def)
  from next_pid_free [OF n(3) this b(8,9)] show pid: "pid \<le> int (maxproc st)" "procarr st ! nat pid = 0" and "1 \<le> pid"
    using \<open>1 \<le> first_pid st\<close> pid_reset_range [OF b(8)] by auto
  have pl: "nat pid < length (procarr st)" using pid(1) b(9) \<open>1 \<le> pid\<close> by simp
  note v = forked_views [OF nw(2) [symmetric], of env pid m st] and f = proc_invD(4) [OF i]
  have B: "base A K (insert new H) ?s" using i n nw b c pid(1) \<open>1 \<le> pid\<close> unfolding base_def by (auto simp: v proc_inv_def base_def)
  have T: "table (insert new ?L) ?s" using \<open>1 \<le> pid\<close> by (intro forked_table [OF proc_invD(2) [OF i] nw(1) z c _ pid pl]) simp
  have F: "family K (insert new ?L) ?s" "rooted K (insert new ?L) ?s"
    using forked_family [OF f nw(1,3) c] forked_rooted [OF f proc_invD(5) [OF i] nw(1) c] by simp_all
  have S: "states (insert K (insert new H)) ?s" using proc_invD(6) [OF i] by (auto simp: states_def v)
  have I: "init_ok K (insert new H) ?s"
  proof (cases "H = {}")
    case True
    then have "first_pid st = 1" using proc_invD(7) [OF i] b(8) by (auto simp: init_ok_def first_pid_def)
    moreover have "procarr st ! 1 = 0" using tableD(2) [OF proc_invD(2) [OF i], of 1] b(8,13) True by (cases "procarr st ! 1 = 0") auto
    then have "proc_exists_locked 1 st = Some False" using exists_iff [OF b(9), of 1] b(8) by simp
    then have "next_pid_loop 1 st = Some 1" by (subst next_pid_loop.simps) simp
    ultimately have "pid = 1" using n(3) by simp
    moreover have "par ?s new = K" using v(2) True c by simp
    ultimately show ?thesis using pl by (simp add: init_ok_def)
  next
    case False
    then have j: "procarr st ! 1 \<in> H" "par st (procarr st ! 1) = K" using proc_invD(7) [OF i] by (auto simp: init_ok_def)
    have "procarr st ! 1 \<noteq> 0" using j(1) b(5,7) by (metis subsetD)
    then have "nat pid \<noteq> 1" using pid(2) by auto
    then show ?thesis using j nw(1) by (auto simp: init_ok_def v)
  qed
  have "filesof ?s p \<noteq> 0" if "p \<in> insert new H" for p using that proc_invD(3) [OF i] e by (auto simp: v)
  then show "proc_inv A K (insert new H) ?s" using B T F S I by (simp add: proc_inv_def insert_commute)
qed

section \<open>Removal\<close>

definition adopted :: "nat \<Rightarrow> nat \<Rightarrow> nat list \<Rightarrow> ptable \<Rightarrow> ptable" where
  "adopted p init cs st = st\<lparr>procs := (\<lambda>q. map_option (\<lambda>Q. Q\<lparr>inh_parent := (if q \<in> set cs then init else inh_parent Q),
     child_list := (if q = p then [] else if q = init then rev cs @ child_list Q else child_list Q)\<rparr>) (procs st q))\<rparr>"

lemma adopt_eval:
  assumes "map_option child_list (procs st p) = Some cs" "distinct cs" "p \<notin> set cs" "init \<notin> set cs" "init \<noteq> p"
    "insert init (set cs) \<subseteq> dom (procs st)"
  shows "adopt p init cs st = Some (adopted p init cs st)"
  using assms
proof (induction cs arbitrary: st)
  case Nil
  have "procs (adopted p init [] st) q = procs st q" for q
  proof (cases "procs st q")
    case (Some Q)
    then have "q = p \<Longrightarrow> child_list Q = []" using Nil.prems(1) by simp
    then show ?thesis using Some by (cases Q) (simp add: adopted_def)
  qed (auto simp: adopted_def)
  then have "procs (adopted p init [] st) = procs st" ..
  then have "adopted p init [] st = st" by (cases st) (simp add: adopted_def)
  then show ?case by simp
next
  case (Cons c cs)
  let ?s = "pset init (\<lambda>I. I\<lparr>child_list := c # child_list I\<rparr>) (pset c (\<lambda>C. C\<lparr>inh_parent := init\<rparr>) (pset p (\<lambda>P. P\<lparr>child_list := remove1 c (child_list P)\<rparr>) st))"
  have d: "procs st p \<noteq> None" "procs st c \<noteq> None" "procs st init \<noteq> None" using Cons.prems(1,6) by auto
  have n: "c \<noteq> p" "c \<noteq> init" "init \<noteq> p" using Cons.prems(3-5) by auto
  have "inh_remove p c st = Some (pset p (\<lambda>P. P\<lparr>child_list := remove1 c (child_list P)\<rparr>) st)"
    using Cons.prems(1) by (auto simp: inh_remove_def upd_proc_pset)
  then have "adopt p init (c # cs) st = adopt p init cs ?s" using d n by (simp add: upd_proc_pset)
  also have "\<dots> = Some (adopted p init cs ?s)"
    using Cons.prems n by (intro Cons.IH) auto
  also have "procs (adopted p init cs ?s) q = procs (adopted p init (c # cs) st) q" for q
  proof (cases "procs st q")
    case (Some Q)
    then show ?thesis using n by (cases "q = p"; cases "q = c"; cases "q = init"; simp add: adopted_def)
  qed (auto simp: adopted_def)
  then have "procs (adopted p init cs ?s) = procs (adopted p init (c # cs) st)" ..
  then have "adopted p init cs ?s = adopted p init (c # cs) st" by (simp add: adopted_def pset_def)
  finally show ?case .
qed

text \<open>What is left of the others when \<open>p\<close> is gone.\<close>

definition orphaned :: "nat \<Rightarrow> nat \<Rightarrow> ptable \<Rightarrow> nat \<Rightarrow> proc_info \<Rightarrow> proc_info" where
  "orphaned p init st q Q = (let l = (if q = par st p then remove1 p (child_list Q) else child_list Q)
     in Q\<lparr>pstate := (if q = p then PROC_STATE_DEFUNCT else pstate Q), inh_parent := (if q \<in> set (kids st p) then init else inh_parent Q),
       child_list := (if q = p then [] else if q = init then rev (kids st p) @ l else l)\<rparr>)"

definition removed :: "nat \<Rightarrow> nat \<Rightarrow> mempool \<Rightarrow> ptable \<Rightarrow> ptable" where
  "removed p init m st = st\<lparr>proc_pool := m, procarr := (procarr st)[nat (pidof st p) := 0], nprocs := nprocs st - 1,
     procs := (\<lambda>q. map_option (orphaned p init st q) (procs st q))\<rparr>"

lemma remove_eval:
  assumes p: "procs st p = Some P" "pfiles P \<noteq> 0" "0 \<le> ppid P" "ppid P \<le> int (maxproc st)" "maxproc st < length (procarr st)" "p \<noteq> 0"
    and q: "par st p \<noteq> 0" "par st p \<noteq> p" "procs st (par st p) \<noteq> None" "p \<in> set (kids st (par st p))"
    and c: "distinct (kids st p)" "p \<notin> set (kids st p)" "init \<notin> set (kids st p)" "set (kids st p) \<subseteq> dom (procs st)"
    and i: "procarr st ! 1 = init" "init \<noteq> 0" "init \<noteq> p" "procs st init \<noteq> None" "1 \<le> maxproc st"
    and m: "mempool_return p (proc_pool st) = Some m"
  shows "proc_remove p st = Some (removed p init m st)"
proof -
  let ?s1 = "pset p (\<lambda>P. P\<lparr>pstate := PROC_STATE_DEFUNCT\<rparr>) st"
  let ?s2 = "pset (par st p) (\<lambda>Q. Q\<lparr>child_list := remove1 p (child_list Q)\<rparr>) ?s1"
  let ?s3 = "adopted p init (kids st p) ?s2"
  have k: "child_list P = kids st p" "inh_parent P = par st p" using p(1) by (simp_all add: view_defs)
  have a: "adopt p init (kids st p) ?s2 = Some ?s3" using p(1) c i q k by (intro adopt_eval) auto
  have "proc_get_struct 1 ?s2 = Some init" using i p(5) by (simp add: proc_get_struct_def)
  then have ac: "adopt_children p ?s2 = Some ?s3" using a i(2) k p(1) q(2) by (cases "kids st p = []") (simp_all add: adopt_children_def)
  have fr: "procs ?s3 p \<noteq> None" "pfiles (the (procs ?s3 p)) = pfiles P" "ppid (the (procs ?s3 p)) = ppid P" using p(1) by (auto simp: adopted_def)
  have f: "proc_pool ?s3 = proc_pool st" "procarr ?s3 = procarr st" "nprocs ?s3 = nprocs st" "maxproc ?s3 = maxproc st" by (simp_all add: adopted_def)
  have "proc_remove p st = procarr_remove (ppid P) (?s3\<lparr>proc_pool := m\<rparr>)"
  proof -
    have "inh_remove (par st p) p ?s1 = Some ?s2" using q by (auto simp: inh_remove_def upd_proc_pset kids_def)
    moreover have "procs ?s2 p = Some (P\<lparr>pstate := PROC_STATE_DEFUNCT\<rparr>)" using p(1) q(2) by simp
    moreover have "proc_free p ?s3 = Some (?s3\<lparr>proc_pool := m\<rparr>)" using fr f p m by (auto simp: proc_free_def)
    ultimately show ?thesis using ac fr k q(1) p(1) by (auto simp: proc_remove_def upd_proc_pset)
  qed
  also have "\<dots> = Some (removed p init m st)"
  proof -
    have "procs ?s3 x = map_option (orphaned p init st x) (procs st x)" for x
      using i(3) q(2) by (cases "procs st x") (auto simp: adopted_def orphaned_def Let_def)
    then have "procs ?s3 = (\<lambda>x. map_option (orphaned p init st x) (procs st x))" ..
    moreover have "pidof st p = ppid P" using p(1) by (simp add: pidof_def)
    ultimately show ?thesis using f p by (simp add: procarr_remove_def removed_def adopted_def)
  qed
  finally show ?thesis .
qed

lemma removed_fields [simp]: "maxproc (removed p i m st) = maxproc st" "procarr (removed p i m st) = (procarr st)[nat (pidof st p) := 0]"
  "proc_pool (removed p i m st) = m" "proc_lastpid (removed p i m st) = proc_lastpid st" "nprocs (removed p i m st) = nprocs st - 1"
  "dom (procs (removed p i m st)) = dom (procs st)"
  by (auto simp: removed_def)

lemma removed_views:
  assumes "procs st q \<noteq> None" "q \<noteq> p"
  shows "pidof (removed p i m st) q = pidof st q" "filesof (removed p i m st) q = filesof st q" "stateof (removed p i m st) q = stateof st q"
    "par (removed p i m st) q = (if q \<in> set (kids st p) then i else par st q)"
    "kids (removed p i m st) q = (if q = i then rev (kids st p) else []) @ (if q = par st p then remove1 p (kids st q) else kids st q)"
  using assms by (auto simp: view_defs removed_def orphaned_def Let_def)

text \<open>On the live processes \<open>L\<close> but \<open>p\<close> the parent decides.\<close>

lemma removed_on:
  assumes "family K L st" "p \<in> L" "\<forall>q \<in> L. procs st q \<noteq> None" "q \<in> L - {p}"
  shows "pidof (removed p i m st) q = pidof st q" "filesof (removed p i m st) q = filesof st q" "stateof (removed p i m st) q = stateof st q"
    "par (removed p i m st) q = (if par st q = p then i else par st q)"
    "kids (removed p i m st) q = (if q = i then rev (kids st p) else []) @ (if q = par st p then remove1 p (kids st q) else kids st q)"
proof -
  have q: "procs st q \<noteq> None" "q \<noteq> p" "q \<in> set (kids st p) \<longleftrightarrow> par st q = p" using assms familyD(4) [OF assms(1,2)] by auto
  show "pidof (removed p i m st) q = pidof st q" "filesof (removed p i m st) q = filesof st q" "stateof (removed p i m st) q = stateof st q"
    "par (removed p i m st) q = (if par st q = p then i else par st q)"
    "kids (removed p i m st) q = (if q = i then rev (kids st p) else []) @ (if q = par st p then remove1 p (kids st q) else kids st q)"
    using removed_views [OF q(1,2), of i m] q(3) by (simp_all only: if_True if_False simp_thms)
qed

lemma removed_table:
  assumes t: "table L st" and p: "p \<in> L" "maxproc st < length (procarr st)"
    and v: "\<And>q. q \<in> L - {p} \<Longrightarrow> pidof (removed p i m st) q = pidof st q"
  shows "table (L - {p}) (removed p i m st)" (is "table _ ?s")
proof -
  note t = tableD [OF t]
  have tp: "0 \<le> pidof st p" "pidof st p \<le> int (maxproc st)" "procarr st ! nat (pidof st p) = p" using t(1) [OF p(1)] by auto
  show ?thesis
    unfolding table_def
  proof (intro conjI ballI allI impI)
    fix q assume q: "q \<in> L - {p}"
    then have "pidof st q \<noteq> pidof st p" using t(1) [of q] tp(3) by auto
    then show "0 \<le> pidof ?s q" "pidof ?s q \<le> int (maxproc ?s)" "procarr ?s ! nat (pidof ?s q) = q"
      using t(1) [of q] q tp(1,2) by (auto simp: v [OF q] nth_list_update)
  next
    fix k assume k: "k \<le> maxproc ?s" "procarr ?s ! k \<noteq> 0"
    then have n: "nat (pidof st p) \<noteq> k" using p(2) by auto
    then have e: "procarr ?s ! k = procarr st ! k" by simp
    have "procarr st ! k \<in> L" "pidof st (procarr st ! k) = int k" using t(2) [of k] k e by auto
    moreover from this(2) have "procarr st ! k \<noteq> p" using n by auto
    ultimately show "procarr ?s ! k \<in> L - {p}" "pidof ?s (procarr ?s ! k) = int k" using v [of "procarr st ! k"] unfolding e by auto
  qed
qed

lemma removed_family:
  assumes f: "family K L st" and p: "p \<in> L" "p \<noteq> 0" "par st p \<noteq> p" and K: "K \<in> L - {p}" and i: "i \<in> L - {p}"
    and d: "\<forall>q \<in> L. procs st q \<noteq> None"
  shows "family K (L - {p}) (removed p i m st)" (is "family _ _ ?s")
proof -
  note v = removed_on [OF f p(1) d] and f = familyD [OF f]
  show ?thesis
    unfolding family_def
  proof (intro conjI ballI)
    show "par ?s K = 0" using v(4) [OF K] f(1) p(2) by simp
    fix q assume q: "q \<in> L - {p} - {K}"
    then show "par ?s q \<in> L - {p}" using v(4) [of q] f(2) [of q] i by auto
  next
    fix q assume q: "q \<in> L - {p}"
    then have q': "q \<in> L" "q \<noteq> p" by auto
    let ?l = "if q = par st p then remove1 p (kids st q) else kids st q"
    have "set ?l = set (kids st q) - {p}" using f(3,4) [OF q'(1)] by (cases "q = par st p") simp_all
    also have "\<dots> = {r \<in> L - {p}. par st r = q}" unfolding f(4) [OF q'(1)] by blast
    finally have l: "set ?l = {r \<in> L - {p}. par st r = q}" .
    have d: "distinct ?l" using f(3) [OF q'(1)] by (cases "q = par st p") simp_all
    have k: "set (kids st p) = {r \<in> L - {p}. par st r = p}" unfolding f(4) [OF p(1)] using p(3) by blast
    show "distinct (kids ?s q)" unfolding v(5) [OF q] using d l k f(3) [OF p(1)] q'(2) by auto
    have "set (kids ?s q) = (if q = i then {r \<in> L - {p}. par st r = p} else {}) \<union> {r \<in> L - {p}. par st r = q}"
      unfolding v(5) [OF q] set_append l using k by simp
    also have "\<dots> = {r \<in> L - {p}. par ?s r = q}" using v(4) q'(2) by (auto split: if_splits)
    finally show "set (kids ?s q) = {r \<in> L - {p}. par ?s r = q}" .
  qed
qed

lemma removed_rooted:
  assumes f: "family K L st" and r: "rooted K L st" and p: "p \<in> L" and i: "i \<in> L - {p}" "par st i = K" "K \<noteq> p" "i \<noteq> K"
    and d: "\<forall>q \<in> L. procs st q \<noteq> None"
  shows "rooted K (L - {p}) (removed p i m st)" (is "rooted _ _ ?s")
proof -
  note v = removed_on(4) [OF f p d]
  have di: "descends ?s K i" using descends.child [OF i(4), of ?s] v [OF i(1)] i(2,3) descends.root by simp
  have "q \<in> L - {p} \<Longrightarrow> descends ?s K q" if "descends st K q" for q
    using that
  proof induction
    case (child q)
    then show ?case using di v [OF child.prems] familyD(2) [OF f, of q] by (intro descends.child [OF child.hyps(1)]) auto
  qed (rule descends.root)
  then show ?thesis using r by (auto simp: rooted_def)
qed

lemma remove_keeps:
  assumes i: "proc_inv A K H st" and p: "p \<in> H" "procarr st ! 1 \<noteq> p"
  shows "\<exists>m. proc_remove p st = Some (removed p (procarr st ! 1) m st) \<and> proc_inv A K (H - {p}) (removed p (procarr st ! 1) m st)"
proof -
  note b = baseD [OF proc_invD(1) [OF i]] and t = proc_invD(2) [OF i] and f = proc_invD(4) [OF i]
  define i1 where "i1 = procarr st ! 1"
  obtain m where m: "mempool_return p (proc_pool st) = Some m" "mpool.shared m A (H - {p})" using mpool.shared_put [OF b(1) p(1)] by blast
  let ?s = "removed p i1 m st" and ?L = "insert K H"
  have j: "i1 \<in> H" "par st i1 = K" using proc_invD(7) [OF i] p(1) by (auto simp: init_ok_def i1_def)
  have pK: "p \<noteq> K" "p \<noteq> 0" "i1 \<noteq> 0" "i1 \<noteq> K" "i1 \<noteq> p" using p j b(2,5,7) by (metis i1_def subsetD)+
  have pp: "p \<in> ?L" "par st p \<in> ?L" "par st p \<noteq> p"
    using familyD(2) [OF f, of p] p(1) pK(1) not_own_parent [of st K p] proc_invD(5) [OF i] by (auto simp: rooted_def)
  have "0 \<notin> ?L" using b(3,5,7) by auto
  then have p0: "par st p \<noteq> 0" using pp(2) by metis
  have D: "\<forall>q \<in> ?L. procs st q \<noteq> None" using b(4,5) by blast
  obtain P where P: "procs st p = Some P" using D pp(1) by blast
  note tp = tableD(1) [OF t pp(1)] and kp = familyD(3,4) [OF f pp(1)]
  have Lp: "?L - {p} = insert K (H - {p})" using pK(1) by auto
  have "proc_remove p st = Some ?s"
  proof (rule remove_eval [OF P])
    show "pfiles P \<noteq> 0" using proc_invD(3) [OF i p(1)] P by (simp add: filesof_def)
    show "0 \<le> ppid P" "ppid P \<le> int (maxproc st)" using tp P by (simp_all add: pidof_def)
    show "p \<in> set (kids st (par st p))" using familyD(4) [OF f pp(2)] p(1) by simp
    show "set (kids st p) \<subseteq> dom (procs st)" unfolding kp(2) using D by blast
  qed (use b pK pp p0 kp D j m in \<open>auto simp: i1_def\<close>)
  moreover have "proc_inv A K (H - {p}) ?s"
  proof -
    note v = removed_on [OF f pp(1) D, of _ i1 m]
    have "int (card (H - {p})) = int (card H) - 1" using p(1) b(6) card_Suc_Diff1 [of H p] by simp
    then have B: "base A K (H - {p}) ?s" using proc_invD(1) [OF i] m(2) v(1) [of K] pK(1) unfolding base_def by simp
    have T: "table (?L - {p}) ?s" using v(1) by (intro removed_table [OF t pp(1) b(9)]) blast
    have F: "family K (?L - {p}) ?s" using j pK by (intro removed_family [OF f pp(1) pK(2) pp(3) _ _ D]) auto
    have R: "rooted K (?L - {p}) ?s" using j pK by (intro removed_rooted [OF f proc_invD(5) [OF i] pp(1) _ _ _ _ D]) auto
    have S: "states (?L - {p}) ?s" using proc_invD(6) [OF i] v(3) by (auto simp: states_def)
    have "nat (pidof st p) \<noteq> 1" using tp p(2) by auto
    then have I: "init_ok K (H - {p}) ?s" using j pK v(4) [of i1] by (auto simp: init_ok_def i1_def)
    have "filesof ?s q \<noteq> 0" if "q \<in> H - {p}" for q using that proc_invD(3) [OF i] v(2) [of q] by auto
    then show ?thesis using B T F R S I unfolding Lp by (simp add: proc_inv_def)
  qed
  ultimately show ?thesis unfolding i1_def by blast
qed

section \<open>Other steps\<close>

lemma descends_cong:
  assumes "par s = par st"
  shows "descends s K q = descends st K q"
proof
  show "descends s K q \<Longrightarrow> descends st K q"
    by (induction rule: descends.induct) (auto simp: assms intro: descends.root descends.child)
  show "descends st K q \<Longrightarrow> descends s K q"
    by (induction rule: descends.induct) (auto simp: assms intro: descends.root descends.child)
qed

lemma pset_keeps:
  assumes i: "proc_inv A K H st" and p: "procs st p \<noteq> None"
    and f: "\<And>P. ppid (f P) = ppid P \<and> inh_parent (f P) = inh_parent P \<and> child_list (f P) = child_list P \<and> pfiles (f P) = pfiles P \<and> pstate (f P) \<in> {pstate P, PROC_STATE_ZOMBIE}"
  shows "proc_inv A K H (pset p f st)"
proof -
  let ?s = "pset p f st"
  have v: "pidof ?s = pidof st" "par ?s = par st" "kids ?s = kids st" "filesof ?s = filesof st"
    using f p by (auto simp: view_defs fun_eq_iff)
  have "stateof ?s q = stateof st q \<or> stateof ?s q = PROC_STATE_ZOMBIE" for q
  proof (cases "q = p")
    case True
    then show ?thesis using f [of "the (procs st p)"] p by (auto simp: stateof_def)
  qed (simp add: stateof_def)
  then have "states L ?s" if "states L st" for L using that unfolding states_def by (metis insert_iff)
  moreover have "base A K H ?s = base A K H st" "table L ?s = table L st" "family K L ?s = family K L st" "rooted K L ?s = rooted K L st" "init_ok K H ?s = init_ok K H st" for L
    using descends_cong [OF v(2)] by (simp_all add: base_def table_def family_def rooted_def init_ok_def v)
  ultimately show ?thesis using i unfolding proc_inv_def v by blast
qed

definition live_procs :: "ptable \<Rightarrow> nat set" where
  "live_procs st = {p \<in> set (take (Suc (maxproc st)) (procarr st)). p \<noteq> 0}"

lemma live_procs_eq:
  assumes i: "proc_inv A K H st"
  shows "live_procs st = insert K H"
proof -
  note b = baseD [OF proc_invD(1) [OF i]] and t = tableD [OF proc_invD(2) [OF i]]
  have "0 \<notin> insert K H" using b(3,5,7) by auto
  have 1: "p \<in> live_procs st" if "p \<in> insert K H" for p
  proof -
    have "nat (pidof st p) < Suc (maxproc st)" "procarr st ! nat (pidof st p) = p" using t(1) [OF that] by auto
    then have "p \<in> set (take (Suc (maxproc st)) (procarr st))" using b(9) by (force simp: in_set_conv_nth)
    then show ?thesis using that \<open>0 \<notin> insert K H\<close> unfolding live_procs_def by (metis (mono_tags, lifting) mem_Collect_eq)
  qed
  have "p \<in> insert K H" if "p \<in> live_procs st" for p
  proof -
    have "p \<in> set (take (Suc (maxproc st)) (procarr st))" "p \<noteq> 0" using that by (simp_all add: live_procs_def)
    then obtain k where "k < Suc (maxproc st)" "take (Suc (maxproc st)) (procarr st) ! k = p" by (metis in_set_conv_nth length_take min_less_iff_conj)
    then have "k \<le> maxproc st" "procarr st ! k = p" by simp_all
    then show ?thesis using t(2) [of k] \<open>p \<noteq> 0\<close> by blast
  qed
  with 1 show ?thesis by blast
qed

lemma thread_removed_keeps:
  assumes i: "proc_inv A K H st"
  shows "\<exists>st'. proc_thread_removed pid tid sig st = Some st' \<and> proc_inv A K H st' \<and> live_procs st' = live_procs st"
proof -
  note b = baseD [OF proc_invD(1) [OF i]]
  show ?thesis
  proof (cases "0 \<le> pid \<and> pid \<le> int (maxproc st) \<and> procarr st ! nat pid \<noteq> 0")
    case True
    then have "procarr st ! nat pid \<in> insert K H" using tableD(2) [OF proc_invD(2) [OF i], of "nat pid"] by auto
    then obtain P where P: "procs st (procarr st ! nat pid) = Some P" using b(4) b(5) by blast
    have "nat pid < length (procarr st)" using True b(9) by linarith
    then have g: "proc_get_struct pid st = Some (procarr st ! nat pid)" using True by (simp add: proc_get_struct_def)
    let ?s = "pset (procarr st ! nat pid) (\<lambda>P. P\<lparr>exit_ksiginfo := (if sig = None then exit_ksiginfo P else sig), main_thread := None, pstate := PROC_STATE_ZOMBIE\<rparr>) st"
    have "proc_inv A K H ?s" using i P by (intro pset_keeps) auto
    moreover have "live_procs ?s = live_procs st" by (simp add: live_procs_def)
    ultimately show ?thesis using i g P True by (cases "main_thread P = Some tid") (simp_all add: proc_thread_removed_def upd_proc_pset)
  next
    case False
    then have "proc_get_struct pid st = Some 0" using b(9) by (auto simp: proc_get_struct_def)
    then show ?thesis using i by (simp add: proc_thread_removed_def)
  qed
qed

lemma exit_keeps:
  assumes i: "proc_inv A K H st" and c: "cur \<in> H"
  shows "\<exists>st'. sys_proc_exit cur errno st = Some st' \<and> proc_inv A K H st' \<and> live_procs st' = live_procs st"
proof -
  note b = baseD [OF proc_invD(1) [OF i]]
  have "0 \<notin> insert K H" using b(3,5,7) by auto
  moreover have "par st cur \<in> insert K H" using familyD(2) [OF proc_invD(4) [OF i], of cur] c b(2,5) by auto
  ultimately have "par st cur \<noteq> 0" by metis
  moreover obtain P where P: "procs st cur = Some P" using b(4) [of cur] b(5) c by auto
  ultimately have "sys_proc_exit cur errno st = Some (pset cur (\<lambda>P. P\<lparr>exit_code := errno\<rparr>) st)" by (simp add: sys_proc_exit_def upd_proc_pset par_def)
  moreover have "proc_inv A K H (pset cur (\<lambda>P. P\<lparr>exit_code := errno\<rparr>) st)" using i P by (intro pset_keeps) auto
  ultimately show ?thesis by (simp add: live_procs_def)
qed

section \<open>Waiting\<close>

text \<open>The child a call of wait is about: the first of the list, or the one with the number.\<close>

definition chosen_child :: "ptable \<Rightarrow> nat \<Rightarrow> int \<Rightarrow> nat option" where
  "chosen_child st cur pid = (if pid = - 1 then (case kids st cur of [] \<Rightarrow> None | c # _ \<Rightarrow> Some c) else find (\<lambda>c. pidof st c = pid) (kids st cur))"

lemma chosen_child_in: "chosen_child st cur pid = Some c \<Longrightarrow> c \<in> set (kids st cur)"
  by (auto simp: chosen_child_def find_Some_iff split: if_splits list.splits)

lemma find_unique:
  assumes "\<And>c. c \<in> set l \<Longrightarrow> Q c \<Longrightarrow> c = x" "Q x"
  shows "find Q l = (if x \<in> set l then Some x else None)"
proof (cases "find Q l")
  case None
  then show ?thesis using assms(2) by (auto simp: find_None_iff)
next
  case (Some y)
  then have "y \<in> set l" "Q y" by (auto simp: find_Some_iff)
  then show ?thesis using assms(1) Some by auto
qed

lemma wait_select_eq:
  assumes i: "proc_inv A K H st" and c: "cur \<in> insert K H"
  shows "wait_select cur pid st = Some (if pid = 0 \<or> pid < - 1 then Inl ENOTSUP else case chosen_child st cur pid of None \<Rightarrow> Inl ECHILD | Some c \<Rightarrow> Inr c)"
proof (cases "0 < pid")
  case False
  obtain P where P: "procs st cur = Some P" "child_list P = kids st cur" using baseD(4,5) [OF proc_invD(1) [OF i]] c by (auto simp: kids_def)
  then show ?thesis using False by (auto simp: wait_select_def chosen_child_def split: list.split)
next
  case True
  note b = baseD [OF proc_invD(1) [OF i]] and t = tableD [OF proc_invD(2) [OF i]] and f = familyD [OF proc_invD(4) [OF i]]
  obtain P where P: "procs st cur = Some P" "child_list P = kids st cur" using b(4,5) c by (auto simp: kids_def)
  have D: "procs st q \<noteq> None" if "q \<in> insert K H" for q using b(4) [of q] b(5) that by auto
  have k: "set (kids st cur) \<subseteq> insert K H" using f(4) [OF c] by blast
  show ?thesis
  proof (cases "pid \<le> int (maxproc st) \<and> procarr st ! nat pid \<noteq> 0")
    case False
    have "pidof st c \<noteq> pid" if "c \<in> set (kids st cur)" for c using t(1) [of c] k that False b(3,5,7) True by (metis insert_iff subsetD)
    then have "find (\<lambda>c. pidof st c = pid) (kids st cur) = None" by (auto simp: find_None_iff)
    moreover have "proc_get_struct pid st = Some 0" using False True b(9) by (auto simp: proc_get_struct_def)
    ultimately show ?thesis using True P by (simp add: wait_select_def chosen_child_def)
  next
    case e: True
    let ?p = "procarr st ! nat pid"
    have p: "?p \<in> insert K H" "pidof st ?p = pid" using t(2) [of "nat pid"] e True by auto
    then obtain C where C: "procs st ?p = Some C" "ppid C = pid" using D by (force simp: pidof_def)
    have g: "proc_get_struct pid st = Some ?p" "?p \<noteq> 0" using e True b(9) by (auto simp: proc_get_struct_def)
    have u: "c = ?p" if "c \<in> insert K H" "pidof st c = pid" for c using t(1) [OF that(1)] that(2) by simp
    have "map_option ppid (procs st c) = Some pid \<longleftrightarrow> c = ?p" if "c \<in> set (kids st cur)" for c
    proof -
      have "c \<in> insert K H" using k that by blast
      moreover from this obtain Q where "procs st c = Some Q" "ppid Q = pidof st c" using D [of c] by (auto simp: pidof_def)
      ultimately show ?thesis using u [of c] p(2) by auto
    qed
    then have x: "list_ex (\<lambda>c. map_option ppid (procs st c) = Some pid) (kids st cur) \<longleftrightarrow> ?p \<in> set (kids st cur)" by (auto simp: list_ex_iff)
    have "find (\<lambda>c. pidof st c = pid) (kids st cur) = (if ?p \<in> set (kids st cur) then Some ?p else None)" using u k p(2) by (intro find_unique) auto
    then show ?thesis using True P g C x by (cases "kids st cur = []") (simp_all add: wait_select_def chosen_child_def)
  qed
qed

definition add_times :: "tms \<Rightarrow> tms \<Rightarrow> tms" where
  "add_times c t = t\<lparr>tms_cutime := tms_cutime t + tms_utime c, tms_cstime := tms_cstime t + tms_stime c\<rparr>"

text \<open>The state after a child was reaped.\<close>

definition reaped :: "nat \<Rightarrow> nat \<Rightarrow> ptable \<Rightarrow> ptable \<Rightarrow> bool" where
  "reaped cur c st st' \<longleftrightarrow> live_procs st' = live_procs st - {c} \<and> nprocs st' = nprocs st - 1 \<and>
     (\<forall>q \<in> live_procs st'. pidof st' q = pidof st q \<and> stateof st' q = stateof st q \<and> par st' q = (if par st q = c then procarr st ! 1 else par st q)) \<and>
     ptms (the (procs st' cur)) = add_times (ptms (the (procs st c))) (ptms (the (procs st cur))) \<and> stateof st' c = PROC_STATE_DEFUNCT"

lemma child_props:
  assumes i: "proc_inv A K H st" and c: "cur \<in> H" "c \<in> set (kids st cur)"
  shows "c \<in> H" "procarr st ! 1 \<noteq> c" "c \<noteq> cur" "par st c = cur"
proof -
  note b = baseD [OF proc_invD(1) [OF i]] and f = familyD [OF proc_invD(4) [OF i]]
  have "c \<in> insert K H" and p: "par st c = cur" using f(4) [of cur] c by auto
  moreover have "c \<noteq> K" using p f(1) c(1) b(5,7) by auto
  ultimately show h: "c \<in> H" by simp
  have "cur \<noteq> K" using c(1) b(2,5) by auto
  then show "procarr st ! 1 \<noteq> c" using proc_invD(7) [OF i] c(1) p by (auto simp: init_ok_def)
  show "c \<noteq> cur" using not_own_parent [of st K c] proc_invD(5) [OF i] h p \<open>c \<noteq> K\<close> by (auto simp: rooted_def)
  show "par st c = cur" by (rule p)
qed

lemma wait_on_reaps:
  assumes i: "proc_inv A K H st" and c: "cur \<in> H" "c \<in> set (kids st cur)" and z: "stateof st c = PROC_STATE_ZOMBIE" and o: "options AND WNOWAIT = 0"
  shows "\<exists>st'. wait_on cur c options st = Some (Wait_done (pidof st c) (wait_status (the (procs st c))), st') \<and> proc_inv A K (H - {c}) st' \<and> reaped cur c st st'"
proof -
  note b = baseD [OF proc_invD(1) [OF i]] and cp = child_props [OF i c]
  have "procs st cur \<noteq> None" "procs st c \<noteq> None" using b(4) b(5) c(1) cp(1) by (meson insertCI subsetD)+
  then obtain P C where P: "procs st cur = Some P" "procs st c = Some C" by auto
  let ?s = "pset cur (\<lambda>P. P\<lparr>ptms := add_times (ptms C) (ptms P)\<rparr>) st"
  have v: "pidof ?s = pidof st" "par ?s = par st" "kids ?s = kids st" "stateof ?s = stateof st" using P by (auto simp: view_defs fun_eq_iff)
  have I: "proc_inv A K H ?s" using i P by (intro pset_keeps) auto
  obtain m where m: "proc_remove c ?s = Some (removed c (procarr st ! 1) m ?s)" "proc_inv A K (H - {c}) (removed c (procarr st ! 1) m ?s)" (is "proc_inv _ _ _ ?r")
    using remove_keeps [OF I cp(1)] cp(2) by auto
  have "wait_on cur c options st = Some (Wait_done (pidof st c) (wait_status C), ?r)"
    using P z o m(1) by (simp add: wait_on_def stateof_def pidof_def upd_proc_pset add_times_def)
  moreover have "reaped cur c st ?r"
  proof -
    have K: "K \<noteq> c" using cp(1) b(2,5) by auto
    have l: "live_procs ?r = live_procs st - {c}" unfolding live_procs_eq [OF m(2)] live_procs_eq [OF i] using K by auto
    have kc: "set (kids st c) = {q \<in> insert K H. par st q = c}" using familyD(4) [OF proc_invD(4) [OF i]] cp(1) by simp
    have "pidof ?r q = pidof st q \<and> stateof ?r q = stateof st q \<and> par ?r q = (if par st q = c then procarr st ! 1 else par st q)" if "q \<in> live_procs ?r" for q
    proof -
      have q: "q \<in> insert K H" "q \<noteq> c" using that unfolding l live_procs_eq [OF i] by auto
      have "procs ?s q \<noteq> None" using b(4) [of q] b(5) q(1) P by auto
      from removed_views [OF this q(2), of "procarr st ! 1" m] show ?thesis unfolding v using kc q(1) by simp
    qed
    moreover have "ptms (the (procs ?r cur)) = add_times (ptms C) (ptms P)" "stateof ?r c = PROC_STATE_DEFUNCT"
      using P cp(3) by (simp_all add: removed_def orphaned_def Let_def stateof_def)
    ultimately show ?thesis using l P by (simp add: reaped_def)
  qed
  ultimately show ?thesis using m(2) P by auto
qed

lemma wait_cases:
  assumes i: "proc_inv A K H st" and c: "cur \<in> H"
  obtains (refused) e where "sys_proc_wait cur pid options st = Some (Wait_error e, st)"
      "e = (if pid = 0 \<or> pid < - 1 then ENOTSUP else ECHILD)" "pid = 0 \<or> pid < - 1 \<or> chosen_child st cur pid = None"
  | (running) c where "chosen_child st cur pid = Some c" "pid = - 1 \<or> 0 < pid" "stateof st c \<noteq> PROC_STATE_ZOMBIE"
      "sys_proc_wait cur pid options st = Some (if options AND WNOHANG \<noteq> 0 then Wait_none else Wait_blocked c, st)"
  | (ended) c where "chosen_child st cur pid = Some c" "pid = - 1 \<or> 0 < pid" "stateof st c = PROC_STATE_ZOMBIE"
      "sys_proc_wait cur pid options st = wait_on cur c options st"
proof -
  have s: "wait_select cur pid st = Some (if pid = 0 \<or> pid < - 1 then Inl ENOTSUP else case chosen_child st cur pid of None \<Rightarrow> Inl ECHILD | Some c \<Rightarrow> Inr c)"
    using wait_select_eq [OF i] c by blast
  show thesis
  proof (cases "pid = 0 \<or> pid < - 1 \<or> chosen_child st cur pid = None")
    case True
    then show thesis using s by (intro refused [where e = "if pid = 0 \<or> pid < - 1 then ENOTSUP else ECHILD"]) (auto simp: sys_proc_wait_def)
  next
    case False
    then obtain d where d: "chosen_child st cur pid = Some d" by auto
    then have "d \<in> H" using child_props(1) [OF i c chosen_child_in] by blast
    then obtain C where C: "procs st d = Some C" using baseD(4,5) [OF proc_invD(1) [OF i]] by blast
    have p: "pid = - 1 \<or> 0 < pid" "\<not> (pid = 0 \<or> pid < - 1)" using False by auto
    show thesis
    proof (cases "stateof st d = PROC_STATE_ZOMBIE")
      case True
      then show thesis using s d p C by (intro ended [OF d p(1)]) (simp_all add: sys_proc_wait_def stateof_def)
    next
      case False
      then show thesis using s d p C by (intro running [OF d p(1)]) (simp_all add: sys_proc_wait_def wait_on_def stateof_def)
    qed
  qed
qed

section \<open>Outcomes of fork\<close>

definition fork_ready :: "fork_env \<Rightarrow> bool" where
  "fork_ready env \<longleftrightarrow> fk_vm env = 0 \<and> fk_files env \<noteq> 0 \<and> fk_thread env \<noteq> None"

lemma forker:
  assumes i: "proc_inv A K H st" and c: "cur \<in> insert K H"
  obtains P where "procs st cur = Some P" "pstate P \<noteq> PROC_STATE_INITIAL" "cur \<noteq> 0"
proof -
  note b = baseD [OF proc_invD(1) [OF i]]
  have z: "0 \<notin> insert K H" using b(3,5,7) by auto
  obtain P where P: "procs st cur = Some P" using b(4) [of cur] b(5) c by auto
  have "pstate P \<noteq> PROC_STATE_INITIAL" using proc_invD(6) [OF i] c P unfolding states_def stateof_def by fastforce
  moreover have "cur \<noteq> 0" using c z by metis
  ultimately show thesis using P by (intro that)
qed

lemma fork_full:
  assumes i: "proc_inv A K A st" and c: "cur \<in> insert K A"
  shows "proc_fork env cur st = Some (- ENOMEM, st)"
proof -
  note b = baseD [OF proc_invD(1) [OF i]]
  have "mempool_get (proc_pool st) = Some (0, proc_pool st)" using mpool.shared_get [OF b(1)] by auto
  moreover obtain P where "procs st cur = Some P" "pstate P \<noteq> PROC_STATE_INITIAL" "cur \<noteq> 0" using forker [OF i c] .
  ultimately show ?thesis by (simp add: proc_fork_def clone_proc_info_def)
qed

lemma fork_new:
  assumes i: "proc_inv A K H st" and c: "cur \<in> insert K H" and e: "fork_ready env" and h: "H \<noteq> A"
  obtains (stuck) "next_pid_loop (first_pid st) st = None" "proc_fork env cur st = None"
  | (forked) new pid m where "proc_fork env cur st = Some (pid, forked env cur new pid m st)" "proc_inv A K (insert new H) (forked env cur new pid m st)"
      "new \<in> A - H" "1 \<le> pid" "pid \<le> int (maxproc st)" "procarr st ! nat pid = 0" "next_pid_loop (first_pid st) st = Some pid"
proof -
  note b = baseD [OF proc_invD(1) [OF i]]
  obtain P where P: "procs st cur = Some P" and st: "pstate P \<noteq> PROC_STATE_INITIAL" and "cur \<noteq> 0" using forker [OF i c] .
  obtain new m where g: "mempool_get (proc_pool st) = Some (new, m)" "new \<in> A - H" "mpool.shared m A (insert new H)"
    using mpool.shared_get [OF b(1)] h by auto
  have n: "cur \<noteq> 0" "new \<noteq> 0" "cur \<noteq> new" using c g(2) \<open>cur \<noteq> 0\<close> b(2,7) by (metis DiffE insert_iff)+
  have ev: "fk_vm env = 0" "fk_files env \<noteq> 0" "fk_thread env \<noteq> None" using e by (simp_all add: fork_ready_def)
  show thesis
  proof (cases "next_pid_loop (first_pid st) st")
    case None
    then have "proc_fork env cur st = None" using ev n P st g(1) by (simp add: proc_fork_def clone_proc_info_def upd_proc_def next_pid_eval [of _ st])
    with None show thesis by (rule stuck)
  next
    case (Some pid)
    note k = fork_keeps [OF i c ev(2) g(2,3) Some]
    have "proc_fork env cur st = Some (pid, forked env cur new pid m st)" using k(2,3) b(9) by (intro fork_eval [OF ev n(1,2) P st n(3) g(1) Some]) auto
    then show thesis using k g(2) Some by (intro forked) auto
  qed
qed

section \<open>The system\<close>

text \<open>The table after \<open>proc_init\<close>: process 0 at address \<open>K\<close> with the descriptor table at \<open>fls\<close>, and the pool of
  process structures, whose memory is \<open>pmem\<close>.\<close>

definition proc_init :: "nat \<Rightarrow> nat \<Rightarrow> nat \<Rightarrow> (nat \<rightharpoonup> proc_info) \<Rightarrow> mempool \<Rightarrow> ptable" where
  "proc_init maxp K fls pmem mp = \<lparr>maxproc = maxp, procarr = K # replicate ((maxp + 1) * 4 - 1) 0, nprocs = 1, proc_lastpid = 0, proc_pool = mp,
     procs = pmem(K \<mapsto> \<lparr>ppid = 0, pstate = PROC_STATE_READY, exit_code = 0, exit_ksiginfo = None,
       ptms = \<lparr>tms_utime = 0, tms_stime = 0, tms_cutime = 0, tms_cstime = 0\<rparr>, pfiles = fls, inh_parent = 0, child_list = [], main_thread = None\<rparr>)\<rparr>"

text \<open>A pool as \<open>mempool_init\<close> makes it for \<open>maxp\<close> elements, with the elements \<open>es\<close>.\<close>

definition proc_boot :: "nat list \<Rightarrow> nat \<Rightarrow> ptable \<Rightarrow> bool" where
  "proc_boot es K st \<longleftrightarrow> (\<exists>maxp fls pmem mp. st = proc_init maxp K fls pmem mp \<and> 2 \<le> maxp \<and> pool_ok mp es \<and> distinct es \<and> length es = maxp - 1 \<and>
     K \<noteq> 0 \<and> K \<notin> set es \<and> set es \<subseteq> dom pmem)"

lemma proc_boot_inv:
  assumes "proc_boot es K st"
  shows "proc_inv (set es) K {} st"
proof -
  obtain maxp fls pmem mp where s: "st = proc_init maxp K fls pmem mp" "2 \<le> maxp" "K \<noteq> 0" "K \<notin> set es" "set es \<subseteq> dom pmem"
    and es: "pool_ok mp es" "distinct es" "length es = maxp - 1"
    using assms by (auto simp: proc_boot_def)
  have v: "pidof st K = 0" "par st K = 0" "kids st K = []" "stateof st K = PROC_STATE_READY" by (simp_all add: s(1) proc_init_def view_defs)
  have p: "procarr st = K # replicate ((maxp + 1) * 4 - 1) 0" "maxproc st = maxp" "proc_lastpid st = 0" "proc_pool st = mp" "nprocs st = 1" by (simp_all add: s(1) proc_init_def)
  have d: "insert K (set es) \<subseteq> dom (procs st)" using s(5) by (auto simp: s(1) proc_init_def)
  have "base (set es) K {} st" using mpool.shared_start [OF es(1,2)] s d v p distinct_card [OF es(2)] es(3) by (simp add: base_def)
  moreover have "table {K} st"
    unfolding table_def using v p s(2) by (auto simp: nth_Cons split: nat.splits)
  moreover have "family K {K} st" using v s(3) by (auto simp: family_def)
  moreover have "rooted K {K} st" by (simp add: rooted_def descends.root)
  ultimately show "proc_inv (set es) K {} st" using v p by (simp add: proc_inv_def states_def init_ok_def)
qed

inductive proc_step :: "ptable \<Rightarrow> ptable \<Rightarrow> bool" where
  fork: "cur \<in> live_procs st \<Longrightarrow> fork_ready env \<Longrightarrow> proc_fork env cur st = Some (r, st') \<Longrightarrow> proc_step st st'"
| thread_removed: "proc_thread_removed pid tid sig st = Some st' \<Longrightarrow> proc_step st st'"
| main_thread: "p \<in> live_procs st \<Longrightarrow> set_main_thread p t st = Some st' \<Longrightarrow> proc_step st st'"
| exit: "cur \<in> live_procs st \<Longrightarrow> pidof st cur \<noteq> 0 \<Longrightarrow> sys_proc_exit cur errno st = Some st' \<Longrightarrow> proc_step st st'"
| wait: "cur \<in> live_procs st \<Longrightarrow> pidof st cur \<noteq> 0 \<Longrightarrow> sys_proc_wait cur pid options st = Some (r, st') \<Longrightarrow> proc_step st st'"
| resume: "cur \<in> live_procs st \<Longrightarrow> pidof st cur \<noteq> 0 \<Longrightarrow> c \<in> set (kids st cur) \<Longrightarrow> wait_on cur c options st = Some (r, st') \<Longrightarrow> proc_step st st'"

inductive_cases proc_stepE: "proc_step st st'"

abbreviation proc_run :: "ptable \<Rightarrow> ptable \<Rightarrow> bool" where
  "proc_run \<equiv> proc_step\<^sup>*\<^sup>*"

lemma user_process:
  assumes "proc_inv A K H st" "cur \<in> live_procs st" "pidof st cur \<noteq> 0"
  shows "cur \<in> H"
  using assms(2,3) baseD(13) [OF proc_invD(1) [OF assms(1)]] live_procs_eq [OF assms(1)] by auto

lemma wait_on_keeps:
  assumes i: "proc_inv A K H st" and c: "cur \<in> H" "c \<in> set (kids st cur)" and w: "wait_on cur c options st = Some (r, st')"
  shows "\<exists>H. proc_inv A K H st'"
proof (cases "stateof st c = PROC_STATE_ZOMBIE \<and> options AND WNOWAIT = 0")
  case True
  then show ?thesis using wait_on_reaps [OF i c] w by force
next
  case False
  then have "st' = st" using w by (auto simp: wait_on_def stateof_def bind_eq_Some_conv split: if_splits)
  then show ?thesis using i by blast
qed

lemma step_keeps:
  assumes i: "proc_inv A K H st" and s: "proc_step st st'"
  shows "\<exists>H. proc_inv A K H st'"
  using s
proof cases
  case (fork cur env r)
  then have c: "cur \<in> insert K H" using live_procs_eq [OF i] by simp
  show ?thesis
  proof (cases "H = A")
    case True
    then show ?thesis using fork_full [of A K st cur env] i c fork(3) by auto
  next
    case False
    show ?thesis by (rule fork_new [OF i c fork(2) False]) (use fork(3) in auto)
  qed
next
  case (thread_removed pid tid sig)
  then show ?thesis using thread_removed_keeps [OF i, of pid tid sig] by auto
next
  case (main_thread p t)
  then have "p \<in> insert K H" using live_procs_eq [OF i] by simp
  then have "procs st p \<noteq> None" using baseD(4,5) [OF proc_invD(1) [OF i]] by blast
  then show ?thesis using main_thread(2) i pset_keeps [of _ _ _ st p "main_thread_update (\<lambda>_. t)"] by (auto simp: set_main_thread_def upd_proc_pset)
next
  case (exit cur errno)
  then show ?thesis using exit_keeps [OF i user_process [OF i exit(1,2)], of errno] by auto
next
  case (wait cur pid options r)
  note c = user_process [OF i wait(1,2)]
  show ?thesis
  proof (cases rule: wait_cases [OF i c, of pid options])
    case (3 d)
    from 3(4) wait(3) have "wait_on cur d options st = Some (r, st')" by simp
    then show ?thesis by (rule wait_on_keeps [OF i c chosen_child_in [OF 3(1)]])
  qed (use i wait(3) in auto)
next
  case (resume cur c options r)
  then show ?thesis using wait_on_keeps [OF i user_process [OF i resume(1,2)]] by blast
qed

lemma run_keeps:
  assumes "proc_boot es K st0" "proc_run st0 st"
  shows "\<exists>H. proc_inv (set es) K H st"
  using assms(2)
proof induction
  case base
  then show ?case using proc_boot_inv [OF assms(1)] by blast
next
  case (step st st')
  then show ?case using step_keeps by blast
qed

section \<open>Properties\<close>

lemma get_by_pid:
  assumes i: "proc_inv A K H st" and p: "p \<in> insert K H"
  shows "proc_get_struct (pidof st p) st = Some p"
proof -
  note t = tableD(1) [OF proc_invD(2) [OF i] p]
  have "nat (pidof st p) < length (procarr st)" using t baseD(9) [OF proc_invD(1) [OF i]] by linarith
  then show ?thesis using t by (simp add: proc_get_struct_def)
qed

lemma get_pids_loop_eq:
  assumes i: "proc_inv A K H st" and l: "\<forall>k \<in> set ks. k \<le> maxproc st"
  shows "get_pids_loop st ks = Some (map int (filter (\<lambda>k. procarr st ! k \<noteq> 0) ks))"
  using l
proof (induction ks)
  case (Cons k ks)
  note b = baseD [OF proc_invD(1) [OF i]]
  have r: "rd (procarr st) k = Some (procarr st ! k)" using b(9) Cons.prems by simp
  show ?case
  proof (cases "procarr st ! k = 0")
    case False
    then have k: "procarr st ! k \<in> insert K H" "pidof st (procarr st ! k) = int k" using tableD(2) [OF proc_invD(2) [OF i], of k] Cons.prems by auto
    then obtain P where "procs st (procarr st ! k) = Some P" "ppid P = int k" using b(4,5) by (fastforce simp: pidof_def)
    then show ?thesis using r False Cons by simp
  qed (use r Cons in simp)
qed simp

lemma pids_listed:
  assumes i: "proc_inv A K H st"
  shows "\<exists>l. proc_get_pids st = Some l \<and> distinct l \<and> set l = pidof st ` H"
proof -
  note b = baseD [OF proc_invD(1) [OF i]] and t = tableD [OF proc_invD(2) [OF i]]
  let ?l = "filter (\<lambda>k. procarr st ! k \<noteq> 0) [1 ..< maxproc st + 1]"
  have "proc_get_pids st = Some (map int ?l)" unfolding proc_get_pids_def by (rule get_pids_loop_eq [OF i]) auto
  moreover have "distinct (map int ?l)" by (simp add: distinct_map)
  moreover have "int ` set ?l = pidof st ` H"
  proof
    show "int ` set ?l \<subseteq> pidof st ` H"
    proof
      fix x assume "x \<in> int ` set ?l"
      then obtain k where k: "x = int k" "1 \<le> k" "k \<le> maxproc st" "procarr st ! k \<noteq> 0" by auto
      then have "procarr st ! k \<in> insert K H" "pidof st (procarr st ! k) = x" using t(2) [of k] by auto
      moreover from this have "procarr st ! k \<noteq> K" using b(13) k(1,2) by auto
      ultimately show "x \<in> pidof st ` H" by blast
    qed
    show "pidof st ` H \<subseteq> int ` set ?l"
    proof
      fix x assume "x \<in> pidof st ` H"
      then obtain p where p: "p \<in> H" "x = pidof st p" by blast
      have q: "0 \<le> x" "x \<le> int (maxproc st)" "procarr st ! nat x = p" using t(1) [of p] p by auto
      have "p \<noteq> 0" "p \<noteq> K" using p(1) b(2,5,7) by (auto intro: ccontr)
      moreover have "procarr st ! 0 = K" using t(1) [of K] b(13) by simp
      ultimately have "nat x \<in> set ?l" using q by (cases "nat x") auto
      then show "x \<in> int ` set ?l" using q(1) by (metis image_eqI int_nat_eq)
    qed
  qed
  ultimately show ?thesis by auto
qed


text \<open>
  C2: Waiting for a child. In every such state, a call of wait by a user process refuses process groups
  with ENOTSUP and answers ECHILD exactly when the caller has no child with the number, or none
  at all for -1. Otherwise it is about a child of the caller. While the child runs the call waits, or
  gives 0 with WNOHANG. Of a child that ended it gives the number and the status; with WNOWAIT
  nothing changes, otherwise the child leaves the table, its times are added to the caller's, its children become
  children of process 1, and nothing else changes in the table.
\<close>

theorem wait_reaps:
  assumes "proc_boot es K st0" and "proc_run st0 st" and "cur \<in> live_procs st" and "pidof st cur \<noteq> 0"
  shows "if pid = 0 \<or> pid < - 1 then sys_proc_wait cur pid options st = Some (Wait_error ENOTSUP, st)
    else case chosen_child st cur pid of
      None \<Rightarrow> sys_proc_wait cur pid options st = Some (Wait_error ECHILD, st) \<and> (\<forall>q \<in> live_procs st. \<not> (par st q = cur \<and> (pid = - 1 \<or> pidof st q = pid)))
    | Some c \<Rightarrow> c \<in> live_procs st \<and> par st c = cur \<and> (pid = - 1 \<or> pidof st c = pid) \<and>
        (if stateof st c \<noteq> PROC_STATE_ZOMBIE
         then sys_proc_wait cur pid options st = Some (if options AND WNOHANG \<noteq> 0 then Wait_none else Wait_blocked c, st)
         else if options AND WNOWAIT \<noteq> 0
         then sys_proc_wait cur pid options st = Some (Wait_done (pidof st c) (wait_status (the (procs st c))), st)
         else \<exists>st'. sys_proc_wait cur pid options st = Some (Wait_done (pidof st c) (wait_status (the (procs st c))), st') \<and> reaped cur c st st')"
proof -
  obtain H where i: "proc_inv (set es) K H st" using run_keeps [OF assms(1,2)] by blast
  note c = user_process [OF i assms(3,4)]
  have k: "set (kids st cur) = {q \<in> live_procs st. par st q = cur}" unfolding live_procs_eq [OF i] using familyD(4) [OF proc_invD(4) [OF i]] c by simp
  have n: "\<forall>q \<in> live_procs st. \<not> (par st q = cur \<and> (pid = - 1 \<or> pidof st q = pid))" if "chosen_child st cur pid = None"
    using that k by (auto simp: chosen_child_def find_None_iff split: if_splits list.splits)
  have s: "d \<in> live_procs st \<and> par st d = cur \<and> (pid = - 1 \<or> pidof st d = pid)" if "chosen_child st cur pid = Some d" for d
    using chosen_child_in [OF that] that k by (auto simp: chosen_child_def find_Some_iff split: if_splits list.splits)
  show ?thesis
  proof (cases rule: wait_cases [OF i c, of pid options])
    case (1 e)
    then show ?thesis using n by (cases "chosen_child st cur pid") auto
  next
    case (2 d)
    then show ?thesis using s [OF 2(1)] by auto
  next
    case (3 d)
    note d = chosen_child_in [OF 3(1)]
    have "procs st d \<noteq> None" using child_props(1) [OF i c d] baseD(4,5) [OF proc_invD(1) [OF i]] by blast
    then have "wait_on cur d options st = Some (Wait_done (pidof st d) (wait_status (the (procs st d))), st)" if "options AND WNOWAIT \<noteq> 0"
      using that 3(3) by (auto simp: wait_on_def stateof_def pidof_def)
    then show ?thesis using 3 s [OF 3(1)] wait_on_reaps [OF i c d 3(3), of options] by auto
  qed
qed

text \<open>With less than 20 process numbers there is one for every element of the pool.\<close>

lemma pid_available:
  assumes i: "proc_inv A K H st" and m: "maxproc st < 20"
  shows "next_pid_loop (first_pid st) st \<noteq> None"
proof
  note b = baseD [OF proc_invD(1) [OF i]] and t = tableD [OF proc_invD(2) [OF i]]
  assume "next_pid_loop (first_pid st) st = None"
  moreover have "1 \<le> first_pid st" "first_pid st \<le> int (maxproc st)" using b(8,10) pid_reset_range [OF b(8)] by (auto simp: first_pid_def)
  ultimately have all: "procarr st ! nat r \<noteq> 0" if "2 \<le> r" "r \<le> int (maxproc st)" for r
    using next_pid_ends [of "first_pid st" st] b(8,9) m that by (auto simp: pid_reset_def)
  have two: "procarr st ! k \<noteq> 0" if "2 \<le> k" "k \<le> maxproc st" for k using all [of "int k"] that by simp
  then have "procarr st ! 2 \<in> insert K H" "pidof st (procarr st ! 2) = 2" using t(2) [of 2] b(8) by auto
  then have "H \<noteq> {}" using b(13) by auto
  then have "procarr st ! 1 \<noteq> 0" using proc_invD(7) [OF i] b(5,7) by (metis init_ok_def subsetD)
  then have nz: "procarr st ! k \<noteq> 0" if "k \<in> {1 .. maxproc st}" for k using two [of k] that by (cases "k = 1") auto
  have "inj_on ((!) (procarr st)) {1 .. maxproc st}" using t(2) nz by (intro inj_on_inverseI [where g = "\<lambda>p. nat (pidof st p)"]) auto
  moreover have "(!) (procarr st) ` {1 .. maxproc st} \<subseteq> H"
  proof
    fix p assume "p \<in> (!) (procarr st) ` {1 .. maxproc st}"
    then obtain k where k: "p = procarr st ! k" "1 \<le> k" "k \<le> maxproc st" by auto
    then have "p \<in> insert K H" "pidof st p = int k" using t(2) [of k] nz [of k] by auto
    then show "p \<in> H" using b(13) k(2) by auto
  qed
  ultimately have "maxproc st \<le> card H" using card_inj_on_le [of "(!) (procarr st)" "{1 .. maxproc st}" H] b(6) by simp
  moreover have "card H \<le> maxproc st - 1" using card_mono [of A H] b(1,5,14) by (simp add: mpool.shared_def)
  ultimately show False using b(8) by simp
qed


section \<open>An example\<close>

lemma demo_ptable: "\<exists>es st0. proc_boot es 8 st0 \<and> maxproc st0 = 4"
proof -
  obtain q0 where q0: "queue_create (replicate 16 0) 4 16 = Some q0" "q_inv q0" "contents q0 = []" "a_len q0 = 4" "b_size q0 = 4"
    using queue_create_inv [of 4 16 "replicate 16 (0 :: u8)"] by auto
  obtain q where q: "q_inv q" "b_size q = 4" "contents q = map ptr_bytes (map (\<lambda>i. 4096 + i * 256) [0 ..< 3])"
    using push_elems_ok [OF q0(2,5), where es = "[]" and bsz = 256 and n = 4 and elem = 4096] q0(3,4) by (auto simp: upt_rec)
  let ?es = "map (\<lambda>i. 4096 + i * 256) [0 ..< 3 :: nat]"
  define mp where "mp = \<lparr>mp_head = q, mp_type = 0, mp_sema = 0, mp_data = 4096\<rparr>"
  have "pool_ok mp ?es" using q by (auto simp: pool_ok_def mp_def)
  moreover have "distinct ?es" "length ?es = 3" "8 \<notin> set ?es" by (auto simp: distinct_map inj_on_def)
  ultimately have "proc_boot ?es 8 (proc_init 4 8 1 (\<lambda>_. Some undefined) mp)" unfolding proc_boot_def by force
  then show ?thesis by (metis ptable.select_convs(1) proc_init_def)
qed

lemma demo_fork:
  assumes i: "proc_inv A K H st" and c: "cur \<in> insert K H" "H \<noteq> A" and m: "maxproc st = 4"
  shows "\<exists>new st'. proc_step st st' \<and> new \<in> A - H \<and> proc_inv A K (insert new H) st' \<and> maxproc st' = 4 \<and> pidof st' new \<noteq> 0 \<and>
    kids st' cur = new # kids st cur \<and> kids st' new = [] \<and> (\<forall>q \<in> insert K H. pidof st' q = pidof st q) \<and>
    main_thread (the (procs st' new)) = (if main_thread (the (procs st cur)) = None then None else Some 6)"
proof -
  let ?e = "\<lparr>fk_vm = 0, fk_files = 1, fk_thread = Some 6\<rparr>"
  have e: "fork_ready ?e" by (simp add: fork_ready_def)
  show ?thesis
  proof (rule fork_new [OF i c(1) e c(2)])
    fix new pid p
    assume a: "proc_fork ?e cur st = Some (pid, forked ?e cur new pid p st)" "proc_inv A K (insert new H) (forked ?e cur new pid p st)" "new \<in> A - H" "1 \<le> pid"
    have n: "cur \<noteq> new" "new \<notin> insert K H" using a(3) c(1) baseD(2) [OF proc_invD(1) [OF i]] by auto
    have "proc_step st (forked ?e cur new pid p st)" using c(1) live_procs_eq [OF i] by (intro proc_step.fork [OF _ e a(1)]) simp
    moreover have "main_thread (the (procs (forked ?e cur new pid p st) new)) = (if main_thread (the (procs st cur)) = None then None else Some 6)"
      using n(1) by (simp add: forked_def forked_info_def)
    ultimately show ?thesis using a(2-4) n m forked_views(1,3) [OF n(1), of ?e pid p st]
      by (intro exI [of _ new] exI [of _ "forked ?e cur new pid p st"]) auto
  qed (use pid_available [OF i] m in auto)
qed

text \<open>Process 1 is started, gets a thread and forks a child, which ends.\<close>

lemma demo_run:
  "\<exists>es st0 st cur c. proc_boot es 8 st0 \<and> proc_run st0 st \<and> cur \<in> live_procs st \<and> pidof st cur \<noteq> 0 \<and> kids st cur = [c] \<and> stateof st c = PROC_STATE_ZOMBIE \<and>
     maxproc st = 4 \<and> card (live_procs st) = 3"
proof -
  obtain es st0 where b: "proc_boot es 8 st0" "maxproc st0 = 4" using demo_ptable by blast
  note i0 = proc_boot_inv [OF b(1)]
  have ce: "card (set es) = 3" using baseD(14) [OF proc_invD(1) [OF i0]] b(2) by simp
  have ne: "H \<noteq> set es" if "card H \<le> 1" for H using that ce by auto
  obtain p s1 where f1: "proc_step st0 s1" "p \<in> set es" "proc_inv (set es) 8 {p} s1" "maxproc s1 = 4" "pidof s1 p \<noteq> 0" "kids s1 p = []"
    using demo_fork [OF i0 _ ne b(2), of 8] by auto
  obtain P where P: "procs s1 p = Some P" using baseD(4) [OF proc_invD(1) [OF f1(3)], of p] f1(2) by auto
  define s2 where "s2 = pset p (main_thread_update (\<lambda>_. Some 5)) s1"
  have i2: "proc_inv (set es) 8 {p} s2" unfolding s2_def using f1(3) P by (intro pset_keeps) auto
  have t2: "proc_step s1 s2" using live_procs_eq [OF f1(3)] P by (intro proc_step.main_thread [of p _ "Some 5"]) (simp_all add: s2_def set_main_thread_def upd_proc_pset)
  have v2: "maxproc s2 = 4" "pidof s2 p \<noteq> 0" "kids s2 p = []" "main_thread (the (procs s2 p)) = Some 5" using f1 P by (simp_all add: s2_def view_defs)
  obtain c s3 where f3: "proc_step s2 s3" "c \<in> set es - {p}" "proc_inv (set es) 8 {c, p} s3" "maxproc s3 = 4" "pidof s3 c \<noteq> 0" "kids s3 p = [c]" "pidof s3 p \<noteq> 0"
      "main_thread (the (procs s3 c)) = Some 6"
    using demo_fork [OF i2 _ ne v2(1), of p] v2 by auto
  obtain C where C: "procs s3 c = Some C" "main_thread C = Some 6" using baseD(4) [OF proc_invD(1) [OF f3(3)], of c] f3(2,8) by auto
  define s4 where "s4 = pset c (\<lambda>P. P\<lparr>exit_ksiginfo := exit_ksiginfo P, main_thread := None, pstate := PROC_STATE_ZOMBIE\<rparr>) s3"
  have "c \<noteq> 0" using f3(2) baseD(7) [OF proc_invD(1) [OF i0]] by (metis DiffE)
  then have "proc_thread_removed (pidof s3 c) 6 None s3 = Some s4"
    using get_by_pid [OF f3(3), of c] C by (simp add: proc_thread_removed_def upd_proc_pset s4_def)
  then have "proc_step s3 s4" by (rule proc_step.thread_removed)
  then have "proc_run st0 s4" using f1(1) t2 f3(1) by (meson converse_rtranclp_into_rtranclp rtranclp.rtrancl_refl)
  moreover have "proc_inv (set es) 8 {c, p} s4" unfolding s4_def using f3(3) C by (intro pset_keeps) auto
  then have "live_procs s4 = {8, c, p}" using live_procs_eq by blast
  moreover have "8 \<noteq> c" "8 \<noteq> p" "p \<noteq> c" using f1(2) f3(2) baseD(2) [OF proc_invD(1) [OF i0]] by auto
  moreover have "pidof s4 p \<noteq> 0" "kids s4 p = [c]" "stateof s4 c = PROC_STATE_ZOMBIE" "maxproc s4 = 4"
    using f3 C \<open>p \<noteq> c\<close> by (simp_all add: s4_def view_defs)
  ultimately show ?thesis using b(1) by (intro exI [of _ es] exI [of _ st0] exI [of _ s4] exI [of _ p] exI [of _ c]) auto
qed


theorem wait_reaps_witness:
  "\<exists>es st0 st cur c st'. proc_boot es 8 st0 \<and> proc_run st0 st \<and>
     sys_proc_wait cur (- 1) 0 st = Some (Wait_done (pidof st c) (wait_status (the (procs st c))), st') \<and> reaped cur c st st'"
proof -
  obtain es st0 st cur c where d: "proc_boot es 8 st0" "proc_run st0 st" "cur \<in> live_procs st" "pidof st cur \<noteq> 0" "kids st cur = [c]" "stateof st c = PROC_STATE_ZOMBIE"
    using demo_run by blast
  have "chosen_child st cur (- 1) = Some c" using d(5) by (simp add: chosen_child_def)
  then have "\<exists>st'. sys_proc_wait cur (- 1) 0 st = Some (Wait_done (pidof st c) (wait_status (the (procs st c))), st') \<and> reaped cur c st st'"
    using wait_reaps [OF d(1-4), of "- 1" 0] d(6) by simp
  then show ?thesis using d(1,2) by blast
qed


section \<open>Failures\<close>

text \<open>A fork that cannot set up the memory or the descriptor table runs into the assertion that closes the descriptors.\<close>

lemma fork_failure_panics:
  assumes i: "proc_inv A K H st" and c: "cur \<in> insert K H" and h: "H \<noteq> A" and e: "fk_vm env < 0 \<or> fk_vm env = 0 \<and> fk_files env = 0"
  shows "proc_fork env cur st = None"
proof -
  note b = baseD [OF proc_invD(1) [OF i]]
  obtain P where P: "procs st cur = Some P" and st: "pstate P \<noteq> PROC_STATE_INITIAL" and "cur \<noteq> 0" using forker [OF i c] .
  obtain new m where g: "mempool_get (proc_pool st) = Some (new, m)" "new \<in> A - H" using mpool.shared_get [OF b(1)] h by auto
  have n: "cur \<noteq> 0" "new \<noteq> 0" using g(2) \<open>cur \<noteq> 0\<close> b(7) by (metis DiffE)+
  show ?thesis using e
  proof
    assume "fk_vm env < 0"
    then show ?thesis using n P st g(1) by (simp add: proc_fork_def clone_proc_info_def upd_proc_def proc_free_def)
  next
    assume "fk_vm env = 0 \<and> fk_files env = 0"
    then show ?thesis using n P st g(1) by (simp add: proc_fork_def clone_proc_info_def upd_proc_def proc_free_def)
  qed
qed

text \<open>A fork that gets no thread gives the structure back and leaves it in the table and in the list of children.\<close>

lemma fork_no_thread_dangles:
  assumes e: "fk_vm env = 0" "fk_files env \<noteq> 0" "fk_thread env = None"
    and c: "cur \<noteq> 0" "new \<noteq> 0" "procs st cur = Some P" "pstate P \<noteq> PROC_STATE_INITIAL" "main_thread P \<noteq> None" "cur \<noteq> new"
    and g: "mempool_get (proc_pool st) = Some (new, m)" "mempool_return new m = Some m'" and n: "next_pid_loop (first_pid st) st = Some pid"
    and r: "0 \<le> pid" "pid \<le> int (maxproc st)" "maxproc st < length (procarr st)"
  shows "\<exists>st'. proc_fork env cur st = Some (- EAGAIN, st') \<and> proc_pool st' = m' \<and> procarr st' ! nat pid = new \<and> nprocs st' = nprocs st + 1 \<and> new \<in> set (kids st' cur)"
proof -
  have l: "nat pid < length (procarr st)" using r by linarith
  show ?thesis
    using e c g r l
    by (simp add: proc_fork_def clone_proc_info_def upd_proc_def next_pid_eval [of _ st] n set_proc_inher_def procarr_insert_def proc_free_def kids_def)
qed

end
