(* ===== verification/Spec2Isabelle.thy ===== *)
theory Spec2Isabelle
  imports Zeke_Prelude Bitmap Queue_R Sigset Priv Kobj Klocks Ksigs Sched Ksignal Kmemops Dynmem Kmalloc Kstring Dehtable
    Rcu Rcu_Slist Timers Sleep Ctime Segtree Proc_Session Vralloc Fildes Mempool Process
begin

text \<open>
  A model of the core of the Zeke kernel (\<^verbatim>\<open>src/kern\<close>), an operating system for 32-bit ARM written in
  C, and theorems about it.

  \<^bold>\<open>The program.\<close> The kernel schedules threads, delivers signals to them, keeps processes, their groups and
  their open files, guards its system calls with capabilities, and hands out memory; it is built on
  libraries of its own (bit maps, ring buffers, signal sets, reference counted objects, locks, strings,
  read-copy-update). The parts call each other as follows: the scheduler, the timers and the signals share the
  threads; signals take the locks and count references; system calls ask the credentials for
  permission; credentials, the region allocator and the page allocator are bit maps; the kernel heap
  gets its regions from the region allocator and its lazy frees from a ring buffer; directory tables,
  object pools and descriptor tables live in the kernel heap; processes come from an object pool.

  \<^bold>\<open>The theories.\<close> Each theory starts with the code of its part, one definition per function, in the
  order of the source, then the invariant, the lemmas and the properties.

  Libraries:
  \<^item> \<open>Zeke_Prelude\<close>: widths and wrap-around (\<open>szt\<close>, \<open>s32\<close>), checked array access, block copies,
    error numbers, and the contract of reference counting (locale \<open>refcounted\<close>).
  \<^item> \<open>Bitmap\<close> (\<^verbatim>\<open>libkern/bitmap.c\<close>): search, update and allocation of runs of bits. The abstract
    map is the predicate \<open>used\<close>; locale \<open>block_map\<close> is what allocators rely on.
  \<^item> \<open>Queue_R\<close> (\<^verbatim>\<open>libkern/queue_r.c\<close>): the ring buffer over a byte array refines a list (locale
    \<open>bounded_fifo\<close>).
  \<^item> \<open>Kmemops\<close> (\<^verbatim>\<open>libkern/kstring/mem*.c\<close>): copying, filling and comparing memory word by word are
    the byte by byte operations.
  \<^item> \<open>Kstring\<close> (\<^verbatim>\<open>libkern/kstring\<close>): bounded copies, tokens and number conversions.
  \<^item> \<open>Ctime\<close> (\<^verbatim>\<open>libkern/ctime.c\<close>): calendar time and back.
  \<^item> \<open>Segtree\<close> (\<^verbatim>\<open>libkern/segtree/segtree.c\<close>): range queries against a fold over the range.

  Objects, locks and concurrency:
  \<^item> \<open>Kobj\<close> (\<^verbatim>\<open>kobj.c\<close>): reference counted objects; histories of references.
  \<^item> \<open>Klocks\<close> (\<^verbatim>\<open>klocks_*.c\<close>): mutexes (spin and ticket), readers-writer locks, semaphores, per-CPU
    locks. Threads on a lock are a step relation; locale \<open>exclusive_lock\<close> gives mutual exclusion.
  \<^item> \<open>Rcu\<close>, \<open>Rcu_Slist\<close> (\<^verbatim>\<open>rcu.c\<close>, \<^verbatim>\<open>rcu_slist.c\<close>): readers and the reclaimer interleave at each
    atomic access; no callback runs while a reader that might see its block is inside.

  Threads, signals and time:
  \<^item> \<open>Sigset\<close> (\<^verbatim>\<open>ksignal_setops.c\<close>): four words refine a set of signal numbers (locale \<open>signal_sets\<close>).
  \<^item> \<open>Ksigs\<close> (\<^verbatim>\<open>ksignal.c\<close>): one \<open>struct signals\<close>, its mask and its table of actions.
  \<^item> \<open>Sched\<close> (\<^verbatim>\<open>sched/*.c\<close>): thread states, the ready queue, three scheduling policies (locale
    \<open>policy_contract\<close>), the scheduler, termination, and the scheduling system calls.
  \<^item> \<open>Ksignal\<close> (\<^verbatim>\<open>ksignal.c\<close>): sending, forwarding, delivering and waiting for signals, and the system
    calls, over the threads of \<open>Sched\<close>.
  \<^item> \<open>Timers\<close>, \<open>Sleep\<close> (\<^verbatim>\<open>timers.c\<close>, \<^verbatim>\<open>sched/sched.c\<close>): the table of timers and threads that sleep on it.

  Processes:
  \<^item> \<open>Priv\<close> (\<^verbatim>\<open>priv.c\<close>): credentials, capability sets, fork and exec, the privilege check.
  \<^item> \<open>Proc_Session\<close> (\<^verbatim>\<open>proc_session.c\<close>): sessions and process groups.
  \<^item> \<open>Process\<close> (\<^verbatim>\<open>proc.c\<close>, \<^verbatim>\<open>proc_fork.c\<close>): the process table, process numbers, the family tree, fork and
    wait, as a step relation over the calls of all processes.

  Memory:
  \<^item> \<open>Dynmem\<close> (\<^verbatim>\<open>dynmem.c\<close>): the allocator of megabyte regions with its descriptor table.
  \<^item> \<open>Kmalloc\<close> (\<^verbatim>\<open>kmalloc.c\<close>): the kernel heap, a doubly linked list of headers in a store; locales
    \<open>allocator\<close> and \<open>growing_allocator\<close> are what its clients rely on.
  \<^item> \<open>Vralloc\<close> (\<^verbatim>\<open>vralloc.c\<close>): buffers of whole pages in regions with a bit map each.
  \<^item> \<open>Mempool\<close> (\<^verbatim>\<open>mempool.c\<close>): object pools over the heap and a ring buffer; locale \<open>object_pool\<close> is what
    the process table relies on.

  Files:
  \<^item> \<open>Dehtable\<close> (\<^verbatim>\<open>fs/libfs/dehtable.c\<close>): directory tables in the kernel heap refine a map from names.
  \<^item> \<open>Fildes\<close> (\<^verbatim>\<open>fs/fs.c\<close>, \<^verbatim>\<open>fs/fs_syscall.c\<close>): file descriptors, reference counts of files and vnodes,
    the system calls on descriptors, and the permission check.

  \<^bold>\<open>State.\<close> A C structure is a record with the source's field names (prefixed where HOL has the name).
  Pointers between threads, processes or blocks are numbers into a map or store, 0 for \<open>NULL\<close> where
  the code tests for it. A function returns the new state; \<open>None\<close> is undefined behaviour, a failed
  \<open>KASSERT\<close>, a panic or a loop that does not end, so results of the form \<open>Some\<close> are safety statements.

  \<^bold>\<open>Bounds and fuel.\<close> \<open>mtx_lock\<close> and \<open>isema_acquire\<close> spin with fuel, one unit per round, and the progress
  theorem says which thread leaves in its next round. \<open>thread_terminate\<close> recurses over the tree of
  threads with a bound on its depth as fuel and one on the length of its lists of children. The loop of the FIFO policy gets
  twice the length of its queue and two more rounds, since every round removes a thread or moves it
  once. \<open>strtok_all\<close> gets the length of the buffer and one more, since every round shortens the rest. The
  loops over linked structures and the search for a process number (\<open>find_mblock\<close> and those of \<open>Dehtable\<close>,
  \<open>Rcu_Slist\<close>, \<open>Segtree\<close>, \<open>Mempool\<close> and \<open>Process\<close>) are partial functions, since they need not end on damaged
  data; on sound states they are shown to return, the last one exactly when a number is free. The
  theorems on read-copy-update are for less than \<open>2 ^ 15\<close> readers at a time, the width of its counters; those on the
  page allocator for buffers up to \<open>2 ^ 31\<close> bytes; those on descriptors for tables up to \<open>2 ^ 17\<close>
  entries and counts below \<open>2 ^ 31\<close>.

  \<^bold>\<open>Not modelled.\<close> Device registers, coprocessor instructions and assembly code (\<^verbatim>\<open>kern/hal\<close>) and drivers:
  their effects on the modelled state are fields or arguments. Virtual memory and page tables, since
  their meaning is in the memory management unit; program loading, which depends on them. The file
  systems themselves, path lookup and mounting, terminals and the buffer cache: their operations are
  arguments of the descriptors. The remaining system calls on processes (limits, names, directories). The
  third-party FAT file system, the C library, user programs, tests and tools.
\<close>

section \<open>Properties that span components\<close>



end
